(* ===== verification/Prelude.thy ===== *)
theory Prelude
  imports Main "HOL-Library.Monad_Syntax" "HOL-Library.Word"
    "HOL-Library.Char_ord" "HOL-Library.List_Lexorder" "HOL-Library.Product_Lexorder"
begin

text \<open>
  Shared ground of the development: the machine arithmetic of the Rust sources, and generic
  lemmas on lists, sums and the option monad.

  \<^item> Unsigned integers are \<^typ>\<open>nat\<close>; the width is written out by the operations below. The
    workspace is built with \<^verbatim>\<open>overflow-checks = true\<close> (\<^verbatim>\<open>prime/Cargo.toml\<close>), so a plain \<open>+\<close>, \<open>-\<close>
    or \<open>*\<close> that leaves its type panics. A computation that may panic has type \<^typ>\<open>'a option\<close>
    and \<^const>\<open>None\<close> is the panic.
  \<^item> \<^verbatim>\<open>saturating_add\<close> is \<open>sat_add64\<close> / \<open>sat_add32\<close>; \<^verbatim>\<open>saturating_sub\<close> is the truncating
    subtraction of \<^typ>\<open>nat\<close>; \<^verbatim>\<open>checked_sub\<close> is \<open>chk_sub\<close>.
  \<^item> Signed \<^verbatim>\<open>i64\<close> values are \<^typ>\<open>int\<close>; bytes are \<^typ>\<open>8 word\<close>; a Rust \<^verbatim>\<open>String\<close> is a \<^typ>\<open>string\<close>
    and compares bytewise, which is the lexicographic order imported above.
\<close>

named_theorems panic_simps \<open>unfolding of the panicking arithmetic\<close>

type_synonym byte = "8 word"
type_synonym u8 = nat
type_synonym u16 = nat
type_synonym u32 = nat
type_synonym u64 = nat
type_synonym usize = nat
type_synonym i64 = int

abbreviation u16_max :: nat where "u16_max \<equiv> 65535"
abbreviation u32_max :: nat where "u32_max \<equiv> 4294967295"
abbreviation u64_max :: nat where "u64_max \<equiv> 18446744073709551615"
abbreviation u128_max :: nat where "u128_max \<equiv> 340282366920938463463374607431768211455"
abbreviation i64_max :: nat where "i64_max \<equiv> 9223372036854775807"

subsection \<open>Machine arithmetic\<close>

definition chk :: "nat \<Rightarrow> nat \<Rightarrow> nat option" where
  "chk m x = (if x \<le> m then Some x else None)"

abbreviation chk64 :: "nat \<Rightarrow> nat option" where "chk64 \<equiv> chk u64_max"
abbreviation chk128 :: "nat \<Rightarrow> nat option" where "chk128 \<equiv> chk u128_max"

definition chk_sub :: "nat \<Rightarrow> nat \<Rightarrow> nat option" where
  "chk_sub a b = (if b \<le> a then Some (a - b) else None)"

definition sat_add64 :: "u64 \<Rightarrow> u64 \<Rightarrow> u64" where
  "sat_add64 a b = min (a + b) u64_max"

definition sat_add32 :: "u32 \<Rightarrow> u32 \<Rightarrow> u32" where
  "sat_add32 a b = min (a + b) u32_max"

text \<open>\<^verbatim>\<open>x as u64\<close> of a \<^verbatim>\<open>u128\<close>, and \<^verbatim>\<open>x.min(i64::MAX as u64) as i64\<close>.\<close>

definition trunc64 :: "nat \<Rightarrow> u64" where
  "trunc64 x = x mod 18446744073709551616"

definition to_i64 :: "u64 \<Rightarrow> i64" where
  "to_i64 x = int (min x i64_max)"

text \<open>\<^verbatim>\<open>i64::unsigned_abs\<close>.\<close>

definition unsigned_abs :: "i64 \<Rightarrow> u64" where
  "unsigned_abs d = nat \<bar>d\<bar>"

text \<open>\<^verbatim>\<open>iter().sum::<u64>()\<close>: panics on overflow.\<close>

fun sum_u64 :: "nat list \<Rightarrow> nat option" where
  "sum_u64 [] = Some 0"
| "sum_u64 (x # xs) = do { s \<leftarrow> sum_u64 xs; chk64 (x + s) }"

lemma chk_Some [simp]: "chk m x = Some y \<longleftrightarrow> y = x \<and> x \<le> m"
  by (auto simp: chk_def)

lemma chk_None [simp]: "chk m x = None \<longleftrightarrow> m < x"
  by (auto simp: chk_def)

lemma chk_le [simp]: "x \<le> m \<Longrightarrow> chk m x = Some x"
  by (simp add: chk_def)

lemma chk_sub_Some [simp]: "chk_sub a b = Some c \<longleftrightarrow> b \<le> a \<and> c = a - b"
  by (auto simp: chk_sub_def)

lemma chk_sub_None [simp]: "chk_sub a b = None \<longleftrightarrow> a < b"
  by (auto simp: chk_sub_def)

lemma chk_sub_le [simp]: "b \<le> a \<Longrightarrow> chk_sub a b = Some (a - b)"
  by (simp add: chk_sub_def)

lemmas [panic_simps] = chk_def chk_sub_def

lemma sat_add64_le [simp]: "sat_add64 a b \<le> u64_max"
  by (simp add: sat_add64_def)

lemma sat_add64_exact [simp]: "a + b \<le> u64_max \<Longrightarrow> sat_add64 a b = a + b"
  by (simp add: sat_add64_def)

lemma sat_add64_le_sum: "sat_add64 a b \<le> a + b"
  by (simp add: sat_add64_def)

lemma sat_add64_ge1: "a \<le> u64_max \<Longrightarrow> a \<le> sat_add64 a b"
  by (simp add: sat_add64_def)

lemma sat_add32_le [simp]: "sat_add32 a b \<le> u32_max"
  by (simp add: sat_add32_def)

lemma trunc64_le [simp]: "trunc64 x \<le> x"
  by (simp add: trunc64_def)

lemma trunc64_bound [simp]: "trunc64 x \<le> u64_max"
proof -
  have "x mod 18446744073709551616 < (18446744073709551616 :: nat)" by simp
  then show ?thesis unfolding trunc64_def by linarith
qed

lemma trunc64_small [simp]: "x \<le> u64_max \<Longrightarrow> trunc64 x = x"
  by (simp add: trunc64_def)

lemma unsigned_abs_to_i64 [simp]: "unsigned_abs (to_i64 x) = min x i64_max"
  by (simp add: unsigned_abs_def to_i64_def)

lemma unsigned_abs_uminus [simp]: "unsigned_abs (- d) = unsigned_abs d"
  by (simp add: unsigned_abs_def)

lemma sum_u64_eq: "sum_u64 xs = (if sum_list xs \<le> u64_max then Some (sum_list xs) else None)"
  by (induction xs) (auto simp: Option.bind_eq_Some_conv split: Option.bind_splits if_splits)

lemma sum_u64_Some [simp]: "sum_u64 xs = Some s \<longleftrightarrow> s = sum_list xs \<and> sum_list xs \<le> u64_max"
  by (auto simp: sum_u64_eq)

subsection \<open>Sums and lists\<close>

lemma sum_list_map_le:
  assumes "\<And>x. x \<in> set xs \<Longrightarrow> f x \<le> (g x :: nat)"
  shows "sum_list (map f xs) \<le> sum_list (map g xs)"
  using assms by (induction xs) (auto intro: add_mono)

lemma member_le_sum_list_map:
  assumes "x \<in> set xs"
  shows "f x \<le> sum_list (map (f :: _ \<Rightarrow> nat) xs)"
  using assms by (induction xs) auto

lemma sum_list_div_le:
  fixes f :: "'a \<Rightarrow> nat"
  shows "sum_list (map (\<lambda>x. f x div d) xs) \<le> sum_list (map f xs) div d"
proof (induction xs)
  case Nil
  then show ?case by simp
next
  case (Cons x xs)
  have "f x div d + sum_list (map f xs) div d \<le> (f x + sum_list (map f xs)) div d"
    by (subst div_add1_eq [of "f x" "sum_list (map f xs)" d]) simp
  with Cons.IH show ?case by simp
qed

lemma sum_list_mult_left:
  "sum_list (map (\<lambda>x. (c :: nat) * f x) xs) = c * sum_list (map f xs)"
  by (induction xs) (auto simp: algebra_simps)

lemma sum_list_filter_le:
  "sum_list (map f (filter P xs)) \<le> sum_list (map (f :: _ \<Rightarrow> nat) xs)"
  by (induction xs) auto

text \<open>A proportional share, rounded down, of a pot.\<close>

lemma proportional_shares_le:
  fixes w :: "'a \<Rightarrow> nat"
  assumes "sum_list (map w xs) \<le> t"
  shows "sum_list (map (\<lambda>x. p * w x div t) xs) \<le> p"
proof -
  have "sum_list (map (\<lambda>x. p * w x div t) xs) \<le> (p * sum_list (map w xs)) div t"
    using sum_list_div_le [of "\<lambda>x. p * w x" t xs] by (simp add: sum_list_mult_left)
  also have "\<dots> \<le> (p * t) div t"
    using assms by (intro div_le_mono mult_left_mono) auto
  also have "\<dots> \<le> p" by simp
  finally show ?thesis .
qed

end
