(* ===== verification/Tides_Split.thy ===== *)
theory Tides_Split
  imports Prelude "HOL-Library.Multiset"
begin

text \<open>
  The coinbase split, \<^verbatim>\<open>prime/tides/src/split.rs\<close>: turning the window's per-identity totals
  (\<open>miner_stat\<close>) into coinbase outputs, carry adjustments and DATUM rebate credits. The payout
  script of an identity is the parameter \<open>script_for\<close> (\<^verbatim>\<open>address::to_script\<close> in the daemon, which
  rests on the bech32 and base58 libraries). A panic of the checked arithmetic is \<^const>\<open>None\<close>.
\<close>

section \<open>Data\<close>

record miner_stat =
  ms_identity :: string
  ms_work :: u64
  ms_stratum_work :: u64
  ms_grace_work :: u64
  ms_credits :: u64
  ms_last_ts :: u32
  ms_carry :: u64

record split_params =
  sp_fee_bps :: u32
  sp_stratum_fee_bps :: u32
  sp_datum_rebate_bps :: u32
  sp_grace_fee_bps :: u32
  sp_grace_rebate_bps :: u32
  sp_min_payout :: u64
  sp_max_outputs :: usize
  sp_output_budget_bytes :: usize
  sp_stale_after :: u32
  sp_stale_min_payout :: u64
  sp_stale_max_outputs :: usize

definition default_split_params :: split_params where
  "default_split_params = \<lparr> sp_fee_bps = 0, sp_stratum_fee_bps = 0, sp_datum_rebate_bps = 0,
     sp_grace_fee_bps = 0, sp_grace_rebate_bps = 0, sp_min_payout = 546, sp_max_outputs = 512,
     sp_output_budget_bytes = 14000, sp_stale_after = 0, sp_stale_min_payout = 546,
     sp_stale_max_outputs = 25 \<rparr>"

definition is_stale :: "split_params \<Rightarrow> miner_stat \<Rightarrow> u32 \<Rightarrow> bool" where
  "is_stale p m now \<longleftrightarrow> sp_stale_after p > 0 \<and> ms_work m = 0 \<and> ms_last_ts m > 0
     \<and> now - ms_last_ts m \<ge> sp_stale_after p"

definition floor_for :: "split_params \<Rightarrow> miner_stat \<Rightarrow> u32 \<Rightarrow> u64" where
  "floor_for p m now = (if is_stale p m now then min (sp_stale_min_payout p) (sp_min_payout p)
     else sp_min_payout p)"

record payee =
  py_identity :: string
  py_work :: u64
  py_sats :: u64
  py_carry :: u64
  py_script :: "byte list"

datatype unpaid_reason = NoScript | BelowMinimum | OverBudget

record unpaid =
  un_identity :: string
  un_sats :: u64
  un_earned :: u64
  un_reason :: unpaid_reason

definition defers :: "unpaid \<Rightarrow> bool" where
  "defers u \<longleftrightarrow> (un_reason u = BelowMinimum \<or> un_reason u = OverBudget) \<and> un_earned u > 0"

record split =
  sl_value :: u64
  sl_fee_sats :: u64
  sl_total_work :: u64
  sl_payees :: "payee list"
  sl_unpaid :: "unpaid list"
  sl_pool_sats :: u64
  sl_carry_paid :: u64
  sl_rebate_credits :: "(string \<times> u64) list"
  sl_rebate_sats :: u64
  sl_rebate_owed_credited :: u64
  sl_rebate_deferred :: u64

definition paid_sats :: "split \<Rightarrow> u64 option" where
  "paid_sats s = sum_u64 (map py_sats (sl_payees s))"

section \<open>Adjustments a found block applies\<close>

definition rebate_delta :: "u64 \<Rightarrow> u64 \<Rightarrow> i64" where
  "rebate_delta rebate_owed_credited rebate_deferred =
     to_i64 rebate_deferred - to_i64 rebate_owed_credited"

definition carry_delta ::
  "payee list \<Rightarrow> unpaid list \<Rightarrow> (string \<times> u64) list \<Rightarrow> (payee \<Rightarrow> bool) \<Rightarrow> (string \<times> i64) list" where
  "carry_delta payees unpaids credits was_paid =
     map (\<lambda>p. (py_identity p, - to_i64 (py_carry p)))
       (filter (\<lambda>p. py_carry p > 0 \<and> was_paid p) payees)
     @ map (\<lambda>u. (un_identity u, to_i64 (un_earned u))) (filter defers unpaids)
     @ map (\<lambda>c. (fst c, to_i64 (snd c))) (filter (\<lambda>c. snd c > 0) credits)"

definition split_carry_delta :: "split \<Rightarrow> (payee \<Rightarrow> bool) \<Rightarrow> (string \<times> i64) list" where
  "split_carry_delta s was_paid =
     carry_delta (sl_payees s) (sl_unpaid s) (sl_rebate_credits s) was_paid"

definition split_rebate_delta :: "split \<Rightarrow> i64" where
  "split_rebate_delta s = rebate_delta (sl_rebate_owed_credited s) (sl_rebate_deferred s)"

section \<open>Rebate and fees\<close>

definition rebate_eligible ::
  "(string \<Rightarrow> byte list option) \<Rightarrow> miner_stat list \<Rightarrow> (string \<times> u64) list" where
  "rebate_eligible script_for miners =
     filter (\<lambda>(i, dw). dw > 0 \<and> script_for i \<noteq> None)
       (map (\<lambda>m. (ms_identity m, ms_work m - min (ms_stratum_work m) (ms_work m))) miners)"

text \<open>The second pass: each eligible miner's slice, the running \<open>credited\<close> sum included.\<close>

fun rebate_slices :: "u64 \<Rightarrow> u64 \<Rightarrow> (string \<times> u64) list \<Rightarrow> u64 \<Rightarrow> ((string \<times> u64) list \<times> u64) option" where
  "rebate_slices pot tot [] credited = Some ([], credited)"
| "rebate_slices pot tot ((i, dw) # rest) credited = do {
     prod \<leftarrow> chk128 (pot * dw);
     let c = trunc64 (prod div tot);
     credited' \<leftarrow> chk64 (credited + c);
     (cs, cr) \<leftarrow> rebate_slices pot tot rest credited';
     Some (if c > 0 then (i, c) # cs else cs, cr) }"

definition rebate_credits ::
  "miner_stat list \<Rightarrow> u64 \<Rightarrow> (string \<Rightarrow> byte list option) \<Rightarrow> ((string \<times> u64) list \<times> u64) option" where
  "rebate_credits miners pot script_for =
     (if pot = 0 then Some ([], 0)
      else do {
        let eligible = rebate_eligible script_for miners;
        tot \<leftarrow> sum_u64 (map snd eligible);
        if tot = 0 then Some ([], pot)
        else do {
          (credits, credited) \<leftarrow> rebate_slices pot tot eligible 0;
          left \<leftarrow> chk_sub pot credited;
          Some (credits, left) } })"

definition fee_for :: "u64 \<Rightarrow> u32 \<Rightarrow> u64" where
  "fee_for value fee_bps = trunc64 (value * fee_bps div 10000)"

definition stratum_rebate :: "u64 \<Rightarrow> u64 \<Rightarrow> u64 \<Rightarrow> u32 \<Rightarrow> u64 option" where
  "stratum_rebate value total_work total_sw rebate_bps =
     (if total_work = 0 \<or> rebate_bps = 0 then Some 0
      else do {
        a \<leftarrow> chk128 (value * total_sw);
        b \<leftarrow> chk128 (a * rebate_bps);
        Some (trunc64 (b div total_work div 10000)) })"

definition classes :: "miner_stat \<Rightarrow> u64 \<times> u64 \<times> u64" where
  "classes m = (let stratum = min (ms_stratum_work m) (ms_work m);
                    gw = min (ms_grace_work m) stratum
                in (stratum - gw, gw, ms_work m - stratum))"

section \<open>The split\<close>

text \<open>The effective fee rates \<^verbatim>\<open>compute\<close> starts from.\<close>

definition stratum_bps :: "split_params \<Rightarrow> u32" where
  "stratum_bps p = (if sp_stratum_fee_bps p = 0 then sp_fee_bps p else sp_stratum_fee_bps p)"

definition rebate_bps :: "split_params \<Rightarrow> u32" where
  "rebate_bps p = min (sp_datum_rebate_bps p) (stratum_bps p)"

definition grace_bps :: "split_params \<Rightarrow> u32" where
  "grace_bps p = min (sp_grace_fee_bps p) 10000"

definition grace_rebate_bps :: "split_params \<Rightarrow> u32" where
  "grace_rebate_bps p = min (sp_grace_rebate_bps p) (grace_bps p)"

text \<open>First loop: the stratum and grace totals, and each miner's script.\<close>

definition class_totals :: "miner_stat list \<Rightarrow> u64 \<times> u64" where
  "class_totals miners =
     fold (\<lambda>m (s, g). case classes m of (sw, gw, _) \<Rightarrow> (sat_add64 s sw, sat_add64 g gw)) miners (0, 0)"

definition script_of :: "(string \<Rightarrow> byte list option) \<Rightarrow> miner_stat \<Rightarrow> byte list option" where
  "script_of script_for m = (if ms_work m > 0 \<or> ms_carry m > 0 then script_for (ms_identity m) else None)"

text \<open>The lookup closure over \<open>by_index\<close>: a later miner of the same identity overrides an earlier one.\<close>

definition by_index ::
  "miner_stat list \<Rightarrow> byte list option list \<Rightarrow> string \<Rightarrow> byte list option" where
  "by_index miners scripts i =
     (case map_of (rev (zip (map ms_identity miners) scripts)) i of None \<Rightarrow> None | Some s \<Rightarrow> s)"

text \<open>This block's stratum-fee rebate, and the credits it and \<open>rebate_owed\<close> become.\<close>

definition split_rebate ::
  "miner_stat list \<Rightarrow> byte list option list \<Rightarrow> u64 \<Rightarrow> u64 \<Rightarrow> split_params \<Rightarrow> u64
    \<Rightarrow> ((string \<times> u64) list \<times> u64 \<times> u64 \<times> u64) option" where
  "split_rebate miners scripts total_work value p rebate_owed = (case class_totals miners of
     (total_sw, total_gw) \<Rightarrow> do {
       r1 \<leftarrow> stratum_rebate value total_work total_sw (rebate_bps p);
       r2 \<leftarrow> stratum_rebate value total_work total_gw (grace_rebate_bps p);
       let from_fee = sat_add64 r1 r2;
       (credits, _) \<leftarrow> (if rebate_bps p > 0 \<or> (total_gw > 0 \<and> grace_rebate_bps p > 0)
          then rebate_credits miners (sat_add64 from_fee rebate_owed) (by_index miners scripts)
          else Some ([], 0));
       rebate_sats \<leftarrow> sum_u64 (map snd credits);
       Some (if credits = [] then (credits, rebate_sats, 0, from_fee)
             else (credits, rebate_sats, rebate_owed, 0)) })"

text \<open>One miner's share of the block and the fee on it.\<close>

definition miner_share :: "split_params \<Rightarrow> u64 \<Rightarrow> u64 \<Rightarrow> miner_stat \<Rightarrow> (u64 \<times> u64) option" where
  "miner_share p total_work value m =
     (if total_work > 0 \<and> ms_work m > 0 then
       (case classes m of (sw, gw, dw) \<Rightarrow> do {
          ks \<leftarrow> chk_sub 10000 (stratum_bps p);
          kg \<leftarrow> chk_sub 10000 (grace_bps p);
          kd \<leftarrow> chk_sub 10000 (sp_fee_bps p);
          keep \<leftarrow> chk128 (sw * ks + gw * kg + dw * kd);
          vk \<leftarrow> chk128 (value * keep);
          charge \<leftarrow> chk128 (sw * stratum_bps p + gw * grace_bps p + dw * sp_fee_bps p);
          vc \<leftarrow> chk128 (value * charge);
          Some (trunc64 (vk div total_work div 10000), trunc64 (vc div total_work div 10000)) })
      else Some (0, 0))"

text \<open>The share loop: \<open>fee_sats\<close>, \<open>earned_payable\<close> and the shares.\<close>

fun miner_shares ::
  "split_params \<Rightarrow> u64 \<Rightarrow> u64 \<Rightarrow> (miner_stat \<times> byte list option) list \<Rightarrow> u64 \<Rightarrow> u64
    \<Rightarrow> (u64 \<times> u64 \<times> u64 list) option" where
  "miner_shares p total_work value [] fee_sats earned_payable = Some (fee_sats, earned_payable, [])"
| "miner_shares p total_work value ((m, script) # rest) fee_sats earned_payable = do {
     (earned, fee) \<leftarrow> miner_share p total_work value m;
     (f, e, shares) \<leftarrow> miner_shares p total_work value rest (sat_add64 fee_sats fee)
        (if script \<noteq> None then sat_add64 earned_payable earned else earned_payable);
     Some (f, e, earned # shares) }"

type_synonym queue_entry = "(miner_stat \<times> byte list option) \<times> u64"

definition owed_in_all :: "queue_entry \<Rightarrow> u64" where
  "owed_in_all q = (case q of ((m, _), earned) \<Rightarrow> sat_add64 earned (ms_carry m))"

definition split_queue ::
  "miner_stat list \<Rightarrow> byte list option list \<Rightarrow> u64 list \<Rightarrow> queue_entry list" where
  "split_queue miners scripts shares =
     sort_key (\<lambda>q. - int (owed_in_all q)) (zip (zip miners scripts) shares)"

text \<open>First pass over the queue: who is placed.\<close>

record place_state =
  pl_placed :: "(miner_stat \<times> byte list \<times> u64) list"
  pl_unpaid :: "unpaid list"
  pl_room :: u64
  pl_bytes :: usize
  pl_stale :: usize

definition place_reason ::
  "split_params \<Rightarrow> u32 \<Rightarrow> place_state \<Rightarrow> miner_stat \<Rightarrow> byte list \<Rightarrow> u64 \<Rightarrow> unpaid_reason option" where
  "place_reason p now st m script tot =
     (if tot < floor_for p m now then Some BelowMinimum
      else if length (pl_placed st) \<ge> sp_max_outputs p
        \<or> pl_bytes st + (8 + 1 + length script) > sp_output_budget_bytes p
        \<or> (is_stale p m now \<and> pl_stale st \<ge> sp_stale_max_outputs p) then Some OverBudget
      else None)"

definition place_one :: "split_params \<Rightarrow> u32 \<Rightarrow> queue_entry \<Rightarrow> place_state \<Rightarrow> place_state" where
  "place_one p now q st = (case q of ((m, script), earned) \<Rightarrow>
     let tot = sat_add64 earned (ms_carry m) in
     if tot = 0 then st
     else case script of
       None \<Rightarrow> st\<lparr>pl_unpaid := pl_unpaid st @ [\<lparr>un_identity = ms_identity m, un_sats = tot,
                 un_earned = earned, un_reason = NoScript\<rparr>]\<rparr>
     | Some sc \<Rightarrow>
         (case place_reason p now st m sc tot of
            Some r \<Rightarrow> st\<lparr>pl_room := sat_add64 (pl_room st) earned,
                        pl_unpaid := pl_unpaid st @ [\<lparr>un_identity = ms_identity m, un_sats = tot,
                          un_earned = earned, un_reason = r\<rparr>]\<rparr>
          | None \<Rightarrow> st\<lparr>pl_bytes := pl_bytes st + (8 + 1 + length sc),
                      pl_stale := pl_stale st + (if is_stale p m now then 1 else 0),
                      pl_placed := pl_placed st @ [(m, sc, earned)]\<rparr>))"

definition place_all :: "split_params \<Rightarrow> u32 \<Rightarrow> queue_entry list \<Rightarrow> u64 \<Rightarrow> place_state" where
  "place_all p now queue room = fold (place_one p now) queue
     \<lparr>pl_placed = [], pl_unpaid = [], pl_room = room, pl_bytes = 0, pl_stale = 0\<rparr>"

text \<open>Second pass: what each placed miner is paid.\<close>

record pay_state =
  pa_payees :: "payee list"
  pa_unpaid :: "unpaid list"
  pa_room :: u64
  pa_paid :: u64
  pa_carry_paid :: u64

definition pay_one ::
  "split_params \<Rightarrow> u32 \<Rightarrow> miner_stat \<times> byte list \<times> u64 \<Rightarrow> pay_state \<Rightarrow> pay_state option" where
  "pay_one p now q st = (case q of (m, script, earned) \<Rightarrow> do {
     let carry = min (ms_carry m) (pa_room st);
     sats \<leftarrow> chk64 (earned + carry);
     if sats < floor_for p m now \<or> (is_stale p m now \<and> carry < ms_carry m) then
       Some (st\<lparr>pa_room := sat_add64 (pa_room st) earned,
               pa_unpaid := pa_unpaid st @ [\<lparr>un_identity = ms_identity m,
                 un_sats = sat_add64 earned (ms_carry m), un_earned = earned, un_reason = OverBudget\<rparr>]\<rparr>)
     else do {
       room \<leftarrow> chk_sub (pa_room st) carry;
       paid \<leftarrow> chk64 (pa_paid st + sats);
       carry_paid \<leftarrow> chk64 (pa_carry_paid st + carry);
       Some (st\<lparr>pa_room := room, pa_paid := paid, pa_carry_paid := carry_paid,
               pa_payees := pa_payees st @ [\<lparr>py_identity = ms_identity m, py_work = ms_work m,
                 py_sats = sats, py_carry = carry, py_script = script\<rparr>]\<rparr>) } })"

fun pay_all ::
  "split_params \<Rightarrow> u32 \<Rightarrow> (miner_stat \<times> byte list \<times> u64) list \<Rightarrow> pay_state \<Rightarrow> pay_state option" where
  "pay_all p now [] st = Some st"
| "pay_all p now (q # qs) st = do { st' \<leftarrow> pay_one p now q st; pay_all p now qs st' }"

definition compute ::
  "miner_stat list \<Rightarrow> u64 \<Rightarrow> u64 \<Rightarrow> split_params \<Rightarrow> u64 \<Rightarrow> u32 \<Rightarrow> (string \<Rightarrow> byte list option)
    \<Rightarrow> split option" where
  "compute miners total_work value p rebate_owed now script_for = do {
     let scripts = map (script_of script_for) miners;
     (credits, rebate_sats, owed_credited, deferred)
       \<leftarrow> split_rebate miners scripts total_work value p rebate_owed;
     (fee_sats, earned_payable, shares) \<leftarrow> miner_shares p total_work value (zip miners scripts) 0 0;
     let st = place_all p now (split_queue miners scripts shares) (value - earned_payable);
     fin \<leftarrow> pay_all p now (pl_placed st) \<lparr>pa_payees = [], pa_unpaid = pl_unpaid st,
       pa_room = pl_room st, pa_paid = 0, pa_carry_paid = 0\<rparr>;
     Some \<lparr>sl_value = value, sl_fee_sats = fee_sats, sl_total_work = total_work,
       sl_payees = pa_payees fin, sl_unpaid = pa_unpaid fin, sl_pool_sats = value - pa_paid fin,
       sl_carry_paid = pa_carry_paid fin, sl_rebate_credits = credits, sl_rebate_sats = rebate_sats,
       sl_rebate_owed_credited = owed_credited, sl_rebate_deferred = deferred\<rparr> }"

section \<open>What a miner keeps\<close>

text \<open>
  \<open>keep_units\<close> and \<open>charge_units\<close> are the fee-adjusted parts of a miner's work, in basis points
  of a difficulty-1 share: together they are the whole work, so a split of \<open>value\<close> in proportion
  to them never exceeds \<open>value\<close>.
\<close>

definition keep_units :: "split_params \<Rightarrow> miner_stat \<Rightarrow> nat" where
  "keep_units p m = (case classes m of (sw, gw, dw) \<Rightarrow>
     sw * (10000 - stratum_bps p) + gw * (10000 - grace_bps p) + dw * (10000 - sp_fee_bps p))"

definition charge_units :: "split_params \<Rightarrow> miner_stat \<Rightarrow> nat" where
  "charge_units p m = (case classes m of (sw, gw, dw) \<Rightarrow>
     sw * stratum_bps p + gw * grace_bps p + dw * sp_fee_bps p)"

definition params_ok :: "split_params \<Rightarrow> bool" where
  "params_ok p \<longleftrightarrow> sp_fee_bps p \<le> 10000 \<and> sp_stratum_fee_bps p \<le> 10000"

abbreviation work_sum :: "miner_stat list \<Rightarrow> nat" where
  "work_sum miners \<equiv> sum_list (map ms_work miners)"

lemma classes_sum: "classes m = (sw, gw, dw) \<Longrightarrow> sw + gw + dw = ms_work m"
  by (auto simp: classes_def Let_def min_def split: if_splits)

lemma stratum_bps_le: "params_ok p \<Longrightarrow> stratum_bps p \<le> 10000"
  by (simp add: params_ok_def stratum_bps_def)

lemma grace_bps_le [simp]: "grace_bps p \<le> 10000"
  by (simp add: grace_bps_def)

lemma rebate_bps_le: "rebate_bps p \<le> stratum_bps p"
  by (simp add: rebate_bps_def)

lemma grace_rebate_bps_le: "grace_rebate_bps p \<le> grace_bps p"
  by (simp add: grace_rebate_bps_def)

lemma keep_charge_units:
  assumes "params_ok p"
  shows "keep_units p m + charge_units p m = ms_work m * 10000"
proof -
  obtain sw gw dw where c: "classes m = (sw, gw, dw)" by (cases "classes m")
  have k: "a * (10000 - b) + a * b = a * 10000" if "b \<le> 10000" for a b :: nat
    using that by (simp flip: distrib_left)
  have "keep_units p m + charge_units p m =
      (sw * (10000 - stratum_bps p) + sw * stratum_bps p)
      + (gw * (10000 - grace_bps p) + gw * grace_bps p)
      + (dw * (10000 - sp_fee_bps p) + dw * sp_fee_bps p)"
    by (simp add: c keep_units_def charge_units_def)
  also have "\<dots> = (sw + gw + dw) * 10000"
    using assms stratum_bps_le [OF assms] by (simp add: k params_ok_def algebra_simps)
  finally show ?thesis using classes_sum [OF c] by simp
qed

lemma keep_units_le: "params_ok p \<Longrightarrow> keep_units p m \<le> ms_work m * 10000"
  using keep_charge_units [of p m] by linarith

lemma charge_units_le: "params_ok p \<Longrightarrow> charge_units p m \<le> ms_work m * 10000"
  using keep_charge_units [of p m] by linarith

lemma miner_share_Some:
  assumes "miner_share p tw v m = Some (e, f)"
  shows "e \<le> v * keep_units p m div (tw * 10000)"
proof (cases "tw > 0 \<and> ms_work m > 0")
  case True
  obtain sw gw dw where c: "classes m = (sw, gw, dw)" by (cases "classes m")
  have "e = trunc64 (v * keep_units p m div tw div 10000)"
    using assms True
    by (auto simp: miner_share_def c keep_units_def Option.bind_eq_Some_conv)
  then show ?thesis by (simp add: div_mult2_eq)
next
  case False
  with assms show ?thesis by (auto simp: miner_share_def split: if_splits)
qed

lemma miner_share_total:
  assumes "params_ok p" and "ms_work m \<le> tw" and "v * (tw * 10000) \<le> u128_max" and "v > 0 \<or> tw \<le> u64_max"
  shows "\<exists>e f. miner_share p tw v m = Some (e, f)"
proof -
  obtain sw gw dw where c: "classes m = (sw, gw, dw)" by (cases "classes m")
  have le: "v * u \<le> u128_max" if "u \<le> tw * 10000" for u
    by (rule order.trans [OF mult_le_mono2 [OF that] assms(3)])
  have units: "keep_units p m \<le> tw * 10000" "charge_units p m \<le> tw * 10000"
    using keep_units_le [OF assms(1), of m] charge_units_le [OF assms(1), of m] assms(2) by auto
  have tw: "tw * 10000 \<le> u128_max"
  proof (cases "v > 0")
    case True
    then have "1 * (tw * 10000) \<le> v * (tw * 10000)" by (intro mult_right_mono) auto
    with assms(3) show ?thesis by linarith
  next
    case False
    with assms(4) show ?thesis by simp
  qed
  have small: "keep_units p m \<le> u128_max" "charge_units p m \<le> u128_max"
    using units tw by linarith+
  show ?thesis
    using assms(1) le [OF units(1)] le [OF units(2)] small stratum_bps_le [OF assms(1)]
    by (auto simp: miner_share_def c keep_units_def charge_units_def params_ok_def)
qed

section \<open>The share loop\<close>

abbreviation payable_sum :: "queue_entry list \<Rightarrow> nat" where
  "payable_sum qs \<equiv> sum_list (map snd (filter (\<lambda>q. snd (fst q) \<noteq> None) qs))"

lemma miner_shares_Some:
  assumes "miner_shares p tw v xs f e = Some (f', e', shares)"
  shows "length shares = length xs"
    and "\<forall>q \<in> set (zip xs shares). snd q \<le> v * keep_units p (fst (fst q)) div (tw * 10000)"
    and "e + payable_sum (zip xs shares) \<le> u64_max \<Longrightarrow> e' = e + payable_sum (zip xs shares)"
proof -
  have "length shares = length xs \<and>
      (\<forall>q \<in> set (zip xs shares). snd q \<le> v * keep_units p (fst (fst q)) div (tw * 10000)) \<and>
      (e + payable_sum (zip xs shares) \<le> u64_max \<longrightarrow> e' = e + payable_sum (zip xs shares))"
    using assms
  proof (induction xs arbitrary: f e f' e' shares)
    case Nil
    then show ?case by simp
  next
    case (Cons x xs)
    obtain m sc where x: "x = (m, sc)" by (cases x)
    from Cons.prems obtain d c f1 e1 sh where
      d: "miner_share p tw v m = Some (d, c)" and
      r: "miner_shares p tw v xs (sat_add64 f c) (if sc \<noteq> None then sat_add64 e d else e) = Some (f1, e1, sh)" and
      o: "f' = f1" "e' = e1" "shares = d # sh"
      by (auto simp: x Option.bind_eq_Some_conv split: prod.splits)
    have IH: "length sh = length xs"
      "\<forall>q \<in> set (zip xs sh). snd q \<le> v * keep_units p (fst (fst q)) div (tw * 10000)"
      "(if sc \<noteq> None then sat_add64 e d else e) + payable_sum (zip xs sh) \<le> u64_max \<longrightarrow>
        e1 = (if sc \<noteq> None then sat_add64 e d else e) + payable_sum (zip xs sh)"
      using Cons.IH [OF r] by auto
    show ?case
      using IH miner_share_Some [OF d] by (auto simp: o x)
  qed
  then show "length shares = length xs"
    and "\<forall>q \<in> set (zip xs shares). snd q \<le> v * keep_units p (fst (fst q)) div (tw * 10000)"
    and "e + payable_sum (zip xs shares) \<le> u64_max \<Longrightarrow> e' = e + payable_sum (zip xs shares)"
    by auto
qed

lemma miner_shares_total:
  assumes "\<And>m. m \<in> fst ` set xs \<Longrightarrow> \<exists>e f. miner_share p tw v m = Some (e, f)"
  shows "\<exists>r. miner_shares p tw v xs f e = Some r"
  using assms
proof (induction xs arbitrary: f e)
  case Nil
  then show ?case by simp
next
  case (Cons x xs)
  obtain m sc where x: "x = (m, sc)" by (cases x)
  obtain d c where d: "miner_share p tw v m = Some (d, c)"
    using Cons.prems [of m] by (auto simp: x)
  obtain r where r: "miner_shares p tw v xs (sat_add64 f c) (if sc \<noteq> None then sat_add64 e d else e) = Some r"
    using Cons.IH Cons.prems by (metis image_insert insert_iff list.simps(15))
  obtain f' e' sh where "r = (f', e', sh)" by (cases r)
  with d r show ?case by (cases sc) (auto simp: x)
qed

text \<open>All shares together, placed or not, fit in the block's value.\<close>

lemma keep_units_sum_le:
  assumes "params_ok p" "work_sum miners \<le> tw"
  shows "sum_list (map (keep_units p) miners) \<le> tw * 10000"
proof -
  have "sum_list (map (keep_units p) miners) \<le> sum_list (map (\<lambda>m. 10000 * ms_work m) miners)"
    using keep_units_le [OF assms(1)] by (intro sum_list_map_le) (simp add: mult.commute)
  also have "\<dots> = 10000 * work_sum miners" by (rule sum_list_mult_left)
  finally show ?thesis using assms(2) by linarith
qed

lemma shares_sum_le_units:
  assumes sh: "miner_shares p tw v (zip miners scripts) 0 0 = Some (f, e, shares)"
    and len: "length scripts = length miners"
  shows "sum_list shares \<le> sum_list (map (\<lambda>m. v * keep_units p m div (tw * 10000)) miners)"
proof -
  let ?qs = "zip (zip miners scripts) shares"
  have l: "length shares = length miners"
    using miner_shares_Some(1) [OF sh] len by simp
  have "sum_list shares = sum_list (map snd ?qs)" using l len by simp
  also have "\<dots> \<le> sum_list (map (\<lambda>q. v * keep_units p (fst (fst q)) div (tw * 10000)) ?qs)"
    using miner_shares_Some(2) [OF sh] by (intro sum_list_map_le) auto
  also have "map (\<lambda>q. v * keep_units p (fst (fst q)) div (tw * 10000)) ?qs
      = map (\<lambda>m. v * keep_units p m div (tw * 10000)) (map fst (map fst ?qs))"
    by simp
  also have "map fst (map fst ?qs) = miners" using l len by simp
  finally show ?thesis .
qed

lemma payable_sum_le: "payable_sum qs \<le> sum_list (map snd qs)"
  by (rule sum_list_filter_le)

section \<open>The two passes\<close>

abbreviation placed_sum :: "(miner_stat \<times> byte list \<times> u64) list \<Rightarrow> nat" where
  "placed_sum xs \<equiv> sum_list (map (\<lambda>x. snd (snd x)) xs)"

lemma place_all_snoc [simp]:
  "place_all p now (qs @ [q]) room = place_one p now q (place_all p now qs room)"
  by (simp add: place_all_def)

lemma place_all_Nil [simp]:
  "place_all p now [] room = \<lparr>pl_placed = [], pl_unpaid = [], pl_room = room, pl_bytes = 0, pl_stale = 0\<rparr>"
  by (simp add: place_all_def)

lemma place_one_room:
  assumes "pl_room st + placed_sum (pl_placed st) + payable_sum [q] \<le> u64_max"
  shows "pl_room (place_one p now q st) + placed_sum (pl_placed (place_one p now q st))
    = pl_room st + placed_sum (pl_placed st) + payable_sum [q]"
proof -
  obtain m sc e where q: "q = ((m, sc), e)" by (cases q) auto
  have z: "sat_add64 e (ms_carry m) = 0 \<Longrightarrow> e = 0"
    by (simp add: sat_add64_def min_def split: if_splits)
  show ?thesis
  proof (cases sc)
    case None
    then show ?thesis by (simp add: q place_one_def Let_def)
  next
    case (Some s)
    with assms z show ?thesis
      by (cases "place_reason p now st m s (sat_add64 e (ms_carry m))")
        (auto simp: q place_one_def Let_def)
  qed
qed

text \<open>
  Nothing a payable miner earned leaves the block: it is either set aside for the miner (placed)
  or left in the room carry is paid from.
\<close>

lemma place_all_room:
  "room + payable_sum qs \<le> u64_max \<Longrightarrow>
   pl_room (place_all p now qs room) + placed_sum (pl_placed (place_all p now qs room))
     = room + payable_sum qs"
proof (induction qs rule: rev_induct)
  case Nil
  then show ?case by simp
next
  case (snoc q qs)
  have split: "payable_sum (qs @ [q]) = payable_sum qs + payable_sum [q]" by simp
  have IH: "pl_room (place_all p now qs room) + placed_sum (pl_placed (place_all p now qs room))
     = room + payable_sum qs"
    using snoc.prems by (intro snoc.IH) (simp add: split)
  have "pl_room (place_all p now qs room) + placed_sum (pl_placed (place_all p now qs room)) + payable_sum [q] \<le> u64_max"
    using snoc.prems by (simp only: IH split add.assoc)
  from place_one_room [OF this, of p now] show ?case by (simp only: place_all_snoc IH split add.assoc)
qed

text \<open>Each placed miner comes from the queue, clears its floor, and the output limits hold.\<close>

definition place_ok :: "split_params \<Rightarrow> u32 \<Rightarrow> queue_entry list \<Rightarrow> place_state \<Rightarrow> bool" where
  "place_ok p now qs st \<longleftrightarrow>
     (\<forall>x \<in> set (pl_placed st). ((fst x, Some (fst (snd x))), snd (snd x)) \<in> set qs) \<and>
     length (pl_placed st) \<le> sp_max_outputs p \<and>
     pl_bytes st = sum_list (map (\<lambda>x. 9 + length (fst (snd x))) (pl_placed st)) \<and>
     pl_bytes st \<le> sp_output_budget_bytes p \<and>
     pl_stale st = length (filter (\<lambda>x. is_stale p (fst x) now) (pl_placed st)) \<and>
     pl_stale st \<le> sp_stale_max_outputs p"

lemma place_one_ok:
  assumes "place_ok p now qs st"
  shows "place_ok p now (qs @ [q]) (place_one p now q st)"
proof -
  obtain m sc e where q: "q = ((m, sc), e)" by (cases q) auto
  show ?thesis
  proof (cases sc)
    case None
    with assms show ?thesis by (auto simp: q place_one_def place_ok_def Let_def)
  next
    case (Some s)
    show ?thesis
    proof (cases "place_reason p now st m s (sat_add64 e (ms_carry m))")
      case None
      then have "length (pl_placed st) < sp_max_outputs p"
        "pl_bytes st + (9 + length s) \<le> sp_output_budget_bytes p"
        "is_stale p m now \<Longrightarrow> pl_stale st < sp_stale_max_outputs p"
        by (auto simp: place_reason_def split: if_splits)
      with assms None show ?thesis
        by (auto simp: q Some place_one_def place_ok_def Let_def)
    next
      case (Some r)
      with assms \<open>sc = Some s\<close> show ?thesis by (auto simp: q place_one_def place_ok_def Let_def)
    qed
  qed
qed

lemma place_all_ok: "place_ok p now qs (place_all p now qs room)"
  by (induction qs rule: rev_induct) (auto simp: place_one_ok, simp add: place_ok_def)

text \<open>Everyone the block owes anything is placed or listed as unpaid, once per queue entry.\<close>

definition owed_identities :: "queue_entry list \<Rightarrow> string multiset" where
  "owed_identities qs = mset (map (\<lambda>q. ms_identity (fst (fst q))) (filter (\<lambda>q. owed_in_all q > 0) qs))"

lemma place_all_identities:
  "mset (map (\<lambda>x. ms_identity (fst x)) (pl_placed (place_all p now qs room)))
   + mset (map un_identity (pl_unpaid (place_all p now qs room))) = owed_identities qs"
proof (induction qs rule: rev_induct)
  case Nil
  then show ?case by (simp add: owed_identities_def)
next
  case (snoc q qs)
  obtain m sc e where q: "q = ((m, sc), e)" by (cases q) auto
  let ?st = "place_all p now qs room"
  have "mset (map (\<lambda>x. ms_identity (fst x)) (pl_placed (place_one p now q ?st)))
      + mset (map un_identity (pl_unpaid (place_one p now q ?st)))
      = mset (map (\<lambda>x. ms_identity (fst x)) (pl_placed ?st)) + mset (map un_identity (pl_unpaid ?st))
        + owed_identities [q]"
    by (auto simp: q place_one_def owed_identities_def owed_in_all_def Let_def split: option.split)
  also have "\<dots> = owed_identities (qs @ [q])"
    using snoc.IH by (simp add: owed_identities_def)
  finally show ?case by simp
qed

lemma place_all_reasons:
  "u \<in> set (pl_unpaid (place_all p now qs room)) \<Longrightarrow>
   \<exists>m sc e. ((m, sc), e) \<in> set qs \<and> un_identity u = ms_identity m \<and> un_earned u = e
     \<and> un_sats u = sat_add64 e (ms_carry m) \<and> (un_reason u = NoScript \<longleftrightarrow> sc = None)"
proof (induction qs rule: rev_induct)
  case Nil
  then show ?case by simp
next
  case (snoc q qs)
  obtain m sc e where q: "q = ((m, sc), e)" by (cases q) auto
  have "u \<in> set (pl_unpaid (place_all p now qs room)) \<or>
      (un_identity u = ms_identity m \<and> un_earned u = e \<and> un_sats u = sat_add64 e (ms_carry m)
        \<and> (un_reason u = NoScript \<longleftrightarrow> sc = None))"
    using snoc.prems
    by (auto simp: q place_one_def place_reason_def Let_def split: option.splits if_splits)
  then show ?case
  proof
    assume "u \<in> set (pl_unpaid (place_all p now qs room))"
    from snoc.IH [OF this] show ?thesis by auto
  next
    assume "un_identity u = ms_identity m \<and> un_earned u = e \<and> un_sats u = sat_add64 e (ms_carry m)
        \<and> (un_reason u = NoScript \<longleftrightarrow> sc = None)"
    then show ?thesis by (intro exI [of _ m] exI [of _ sc] exI [of _ e]) (simp add: q)
  qed
qed

text \<open>What the queue's payable entries earned is placed or deferred.\<close>

definition deferred_sum :: "unpaid list \<Rightarrow> nat" where
  "deferred_sum us = sum_list (map un_earned (filter (\<lambda>u. un_reason u \<noteq> NoScript) us))"

lemma deferred_sum_simps [simp]:
  "deferred_sum [] = 0"
  "deferred_sum (us @ vs) = deferred_sum us + deferred_sum vs"
  "deferred_sum (u # us) = (if un_reason u \<noteq> NoScript then un_earned u else 0) + deferred_sum us"
  by (auto simp: deferred_sum_def)

lemma place_reason_not_NoScript [simp]: "place_reason p now st m s t \<noteq> Some NoScript"
  by (simp add: place_reason_def)

lemma place_one_deferred:
  "placed_sum (pl_placed (place_one p now q st)) + deferred_sum (pl_unpaid (place_one p now q st))
    = placed_sum (pl_placed st) + deferred_sum (pl_unpaid st) + payable_sum [q]"
proof -
  obtain m sc e where q: "q = ((m, sc), e)" by (cases q) auto
  have z: "sat_add64 e (ms_carry m) = 0 \<Longrightarrow> e = 0"
    by (simp add: sat_add64_def min_def split: if_splits)
  show ?thesis
  proof (cases sc)
    case None
    then show ?thesis by (simp add: q place_one_def Let_def)
  next
    case (Some s)
    then show ?thesis
      by (cases "place_reason p now st m s (sat_add64 e (ms_carry m))")
        (use z in \<open>auto simp: q place_one_def Let_def\<close>)
  qed
qed

lemma place_all_deferred:
  "placed_sum (pl_placed (place_all p now qs room)) + deferred_sum (pl_unpaid (place_all p now qs room))
    = payable_sum qs"
proof (induction qs rule: rev_induct)
  case Nil
  then show ?case by simp
next
  case (snoc q qs)
  have "payable_sum (qs @ [q]) = payable_sum qs + payable_sum [q]" by simp
  then show ?case by (simp only: place_all_snoc place_one_deferred snoc.IH)
qed

lemma pay_one_cases:
  assumes "pay_one p now (m, sc, e) st = Some st'"
  obtains (kept) "st' = st\<lparr>pa_room := sat_add64 (pa_room st) e,
        pa_unpaid := pa_unpaid st @ [\<lparr>un_identity = ms_identity m,
          un_sats = sat_add64 e (ms_carry m), un_earned = e, un_reason = OverBudget\<rparr>]\<rparr>"
  | (paid) carry where "carry = min (ms_carry m) (pa_room st)"
      "floor_for p m now \<le> e + carry" "is_stale p m now \<Longrightarrow> carry = ms_carry m"
      "st' = st\<lparr>pa_room := pa_room st - carry, pa_paid := pa_paid st + (e + carry),
        pa_carry_paid := pa_carry_paid st + carry,
        pa_payees := pa_payees st @ [\<lparr>py_identity = ms_identity m, py_work = ms_work m,
          py_sats = e + carry, py_carry = carry, py_script = sc\<rparr>]\<rparr>"
  using assms
  by (auto simp: pay_one_def Let_def Option.bind_eq_Some_conv not_less split: if_splits)

lemma pay_one_total:
  assumes "pa_paid st + pa_room st + e + r = v" "v \<le> u64_max" "pa_carry_paid st \<le> pa_paid st"
  shows "\<exists>st'. pay_one p now (m, sc, e) st = Some st' \<and> pa_paid st' + pa_room st' + r = v
    \<and> pa_carry_paid st' \<le> pa_paid st'"
proof -
  let ?c = "min (ms_carry m) (pa_room st)"
  have "e + ?c \<le> u64_max" "pa_paid st + (e + ?c) \<le> u64_max" "pa_carry_paid st + ?c \<le> u64_max"
    "pa_room st + e \<le> u64_max"
    using assms by linarith+
  with assms show ?thesis by (auto simp: pay_one_def Let_def)
qed

lemma pay_all_total:
  assumes "pa_paid st + pa_room st + placed_sum xs = v" "v \<le> u64_max" "pa_carry_paid st \<le> pa_paid st"
  shows "\<exists>st'. pay_all p now xs st = Some st' \<and> pa_paid st' + pa_room st' = v"
  using assms
proof (induction xs arbitrary: st)
  case Nil
  then show ?case by simp
next
  case (Cons x xs)
  obtain m sc e where x: "x = (m, sc, e)" by (cases x)
  have "pa_paid st + pa_room st + e + placed_sum xs = v" using Cons.prems(1) by (simp add: x)
  from pay_one_total [OF this Cons.prems(2,3), of p now m sc] obtain st1 where
    st1: "pay_one p now x st = Some st1" "pa_paid st1 + pa_room st1 + placed_sum xs = v"
      "pa_carry_paid st1 \<le> pa_paid st1"
    by (auto simp: x)
  from Cons.IH [OF st1(2) Cons.prems(2) st1(3)] show ?case by (auto simp: st1(1))
qed

text \<open>A fact that every payment step keeps holds of the whole pass.\<close>

lemma pay_all_invariant:
  assumes "pay_all p now xs st = Some st'" "I st"
    and "\<And>m sc e st st'. (m, sc, e) \<in> set xs \<Longrightarrow> I st \<Longrightarrow> pay_one p now (m, sc, e) st = Some st' \<Longrightarrow> I st'"
  shows "I st'"
  using assms
proof (induction xs arbitrary: st)
  case Nil
  then show ?case by simp
next
  case (Cons x xs)
  obtain m sc e where x: "x = (m, sc, e)" by (cases x)
  from Cons.prems(1) obtain st1 where st1: "pay_one p now x st = Some st1" "pay_all p now xs st1 = Some st'"
    by (auto simp: Option.bind_eq_Some_conv)
  have "I st1" using Cons.prems(3) [of m sc e st st1] Cons.prems(2) st1(1) by (simp add: x)
  then show ?case
    by (rule Cons.IH [OF st1(2)]) (rule Cons.prems(3), auto)
qed

definition pay_sums :: "pay_state \<Rightarrow> bool" where
  "pay_sums st \<longleftrightarrow> pa_paid st = sum_list (map py_sats (pa_payees st))
     \<and> pa_carry_paid st = sum_list (map py_carry (pa_payees st))"

lemma pay_all_sums:
  "pay_all p now xs st = Some st' \<Longrightarrow> pay_sums st \<Longrightarrow> pay_sums st'"
  by (rule pay_all_invariant [where I = pay_sums])
    (auto elim!: pay_one_cases simp: pay_sums_def)

text \<open>A payee is a placed miner, at or over its floor, and its carry is its own.\<close>

definition payee_ok :: "split_params \<Rightarrow> u32 \<Rightarrow> (miner_stat \<times> byte list \<times> u64) list \<Rightarrow> payee \<Rightarrow> bool" where
  "payee_ok p now xs y \<longleftrightarrow> (\<exists>(m, sc, e) \<in> set xs. py_identity y = ms_identity m \<and> py_work y = ms_work m
     \<and> py_script y = sc \<and> py_sats y = e + py_carry y \<and> py_carry y \<le> ms_carry m
     \<and> floor_for p m now \<le> py_sats y \<and> (is_stale p m now \<longrightarrow> py_carry y = ms_carry m))"

lemma pay_all_payees:
  assumes "pay_all p now xs st = Some st'" "\<forall>y \<in> set (pa_payees st). payee_ok p now xs y"
  shows "\<forall>y \<in> set (pa_payees st'). payee_ok p now xs y"
proof (rule pay_all_invariant [where I = "\<lambda>s. \<forall>y \<in> set (pa_payees s). payee_ok p now xs y", OF assms])
  fix m sc e s s'
  assume mem: "(m, sc, e) \<in> set xs" and I: "\<forall>y \<in> set (pa_payees s). payee_ok p now xs y"
    and step: "pay_one p now (m, sc, e) s = Some s'"
  from step show "\<forall>y \<in> set (pa_payees s'). payee_ok p now xs y"
  proof (cases rule: pay_one_cases)
    case kept
    with I show ?thesis by simp
  next
    case (paid carry)
    have "payee_ok p now xs \<lparr>py_identity = ms_identity m, py_work = ms_work m,
          py_sats = e + carry, py_carry = carry, py_script = sc\<rparr>"
      unfolding payee_ok_def by (rule bexI [OF _ mem]) (use paid(1-3) in auto)
    with I paid(4) show ?thesis by simp
  qed
qed

abbreviation script_bytes :: "payee list \<Rightarrow> nat" where
  "script_bytes ys \<equiv> sum_list (map (\<lambda>y. 9 + length (py_script y)) ys)"

lemma pay_one_accounts:
  assumes "pay_one p now x st = Some st'"
  shows "mset (map py_identity (pa_payees st')) + mset (map un_identity (pa_unpaid st'))
      = mset (map py_identity (pa_payees st)) + mset (map un_identity (pa_unpaid st)) + {#ms_identity (fst x)#}"
    and "pa_paid st' + deferred_sum (pa_unpaid st') + pa_carry_paid st
      = pa_paid st + deferred_sum (pa_unpaid st) + pa_carry_paid st' + snd (snd x)"
    and "length (pa_payees st') \<le> Suc (length (pa_payees st))"
    and "script_bytes (pa_payees st') \<le> script_bytes (pa_payees st) + (9 + length (fst (snd x)))"
proof -
  obtain m sc e where x: "x = (m, sc, e)" by (cases x)
  have step: "pay_one p now (m, sc, e) st = Some st'" using assms by (simp add: x)
  show "mset (map py_identity (pa_payees st')) + mset (map un_identity (pa_unpaid st'))
      = mset (map py_identity (pa_payees st)) + mset (map un_identity (pa_unpaid st)) + {#ms_identity (fst x)#}"
    and "pa_paid st' + deferred_sum (pa_unpaid st') + pa_carry_paid st
      = pa_paid st + deferred_sum (pa_unpaid st) + pa_carry_paid st' + snd (snd x)"
    and "length (pa_payees st') \<le> Suc (length (pa_payees st))"
    and "script_bytes (pa_payees st') \<le> script_bytes (pa_payees st) + (9 + length (fst (snd x)))"
    using step by (cases rule: pay_one_cases; simp add: x)+
qed

lemma pay_all_identities:
  "pay_all p now xs st = Some st' \<Longrightarrow>
   mset (map py_identity (pa_payees st')) + mset (map un_identity (pa_unpaid st'))
     = mset (map py_identity (pa_payees st)) + mset (map un_identity (pa_unpaid st))
       + mset (map (\<lambda>x. ms_identity (fst x)) xs)"
  by (induction xs arbitrary: st) (auto simp: Option.bind_eq_Some_conv dest!: pay_one_accounts(1))

lemma pay_all_deferred:
  "pay_all p now xs st = Some st' \<Longrightarrow>
   pa_paid st' + deferred_sum (pa_unpaid st') + pa_carry_paid st
     = pa_paid st + deferred_sum (pa_unpaid st) + pa_carry_paid st' + placed_sum xs"
  by (induction xs arbitrary: st) (fastforce simp: Option.bind_eq_Some_conv dest!: pay_one_accounts(2))+

lemma pay_all_limits:
  "pay_all p now xs st = Some st' \<Longrightarrow>
   length (pa_payees st') \<le> length (pa_payees st) + length xs
   \<and> script_bytes (pa_payees st') \<le> script_bytes (pa_payees st)
     + sum_list (map (\<lambda>x. 9 + length (fst (snd x))) xs)"
proof (induction xs arbitrary: st)
  case Nil
  then show ?case by simp
next
  case (Cons x xs)
  from Cons.prems obtain st1 where st1: "pay_one p now x st = Some st1" "pay_all p now xs st1 = Some st'"
    by (auto simp: Option.bind_eq_Some_conv)
  from Cons.IH [OF st1(2)] pay_one_accounts(3,4) [OF st1(1)] show ?case by simp
qed

section \<open>The rebate\<close>

lemma rebate_slices_Some:
  "rebate_slices pot t xs c0 = Some (cs, cr) \<Longrightarrow>
   cs = filter (\<lambda>c. snd c > 0) (map (\<lambda>x. (fst x, trunc64 (pot * snd x div t))) xs)
   \<and> cr = c0 + sum_list (map snd cs)"
proof (induction xs arbitrary: c0 cs cr)
  case Nil
  then show ?case by simp
next
  case (Cons x xs)
  then show ?case by (cases x) (fastforce simp: Option.bind_eq_Some_conv Let_def split: if_splits prod.splits)
qed

lemma rebate_slices_total:
  assumes "pot \<le> u64_max" "\<forall>x \<in> set xs. snd x \<le> u64_max"
    "c0 + sum_list (map (\<lambda>x. pot * snd x div t) xs) \<le> u64_max"
  shows "\<exists>r. rebate_slices pot t xs c0 = Some r"
  using assms
proof (induction xs arbitrary: c0)
  case Nil
  then show ?case by simp
next
  case (Cons x xs)
  obtain i dw where x: "x = (i, dw)" by (cases x)
  have "dw \<le> u64_max" using Cons.prems(2) by (simp add: x)
  then have "pot * dw \<le> u64_max * u64_max" using Cons.prems(1) by (intro mult_le_mono)
  then have prod: "pot * dw \<le> u128_max" by linarith
  let ?c = "trunc64 (pot * dw div t)"
  have le: "?c \<le> pot * dw div t" by simp
  have c: "c0 + ?c \<le> u64_max" using Cons.prems(3) le by (simp add: x)
  have "c0 + ?c + sum_list (map (\<lambda>x. pot * snd x div t) xs) \<le> u64_max"
    using Cons.prems(3) le by (simp add: x)
  then obtain r where "rebate_slices pot t xs (c0 + ?c) = Some r"
    using Cons.IH [of "c0 + ?c"] Cons.prems(1,2) by auto
  with prod c show ?case by (cases r) (simp add: x Let_def)
qed

definition datum_work :: "miner_stat \<Rightarrow> nat" where
  "datum_work m = ms_work m - min (ms_stratum_work m) (ms_work m)"

definition datum_total :: "(string \<Rightarrow> byte list option) \<Rightarrow> miner_stat list \<Rightarrow> nat" where
  "datum_total script_for miners =
     sum_list (map datum_work (filter (\<lambda>m. script_for (ms_identity m) \<noteq> None) miners))"

lemma rebate_eligible_eq:
  "rebate_eligible script_for miners = map (\<lambda>m. (ms_identity m, datum_work m))
     (filter (\<lambda>m. datum_work m > 0 \<and> script_for (ms_identity m) \<noteq> None) miners)"
  by (induction miners) (auto simp: rebate_eligible_def datum_work_def)

lemma rebate_eligible_sum: "sum_list (map snd (rebate_eligible script_for miners)) = datum_total script_for miners"
  by (induction miners) (auto simp: rebate_eligible_eq datum_total_def)

lemma rebate_eligible_total [simp]:
  "datum_total script_for miners \<le> u64_max \<Longrightarrow>
   sum_u64 (map snd (rebate_eligible script_for miners)) = Some (datum_total script_for miners)"
  by (simp add: sum_u64_eq rebate_eligible_sum)

lemma datum_total_le: "datum_total script_for miners \<le> work_sum miners"
proof -
  have "datum_total script_for miners \<le> sum_list (map datum_work miners)"
    unfolding datum_total_def by (rule sum_list_filter_le)
  also have "\<dots> \<le> work_sum miners" by (rule sum_list_map_le) (simp add: datum_work_def)
  finally show ?thesis .
qed

text \<open>
  The pot is shared over the payable DATUM work, pro rata and rounded down: the credits and what
  is left add up to the pot, and nobody without a script or without DATUM work is credited.
\<close>

lemma rebate_credits_spec:
  assumes pot: "pot \<le> u64_max" and tot: "datum_total script_for miners \<le> u64_max"
  obtains credits left where "rebate_credits miners pot script_for = Some (credits, left)"
    "sum_list (map snd credits) + left = pot"
    "\<And>i c. (i, c) \<in> set credits \<Longrightarrow> c > 0 \<and> (\<exists>m \<in> set miners. ms_identity m = i \<and> script_for i \<noteq> None
        \<and> datum_work m > 0 \<and> c = pot * datum_work m div datum_total script_for miners)"
proof (cases "pot = 0 \<or> datum_total script_for miners = 0")
  case True
  then have "rebate_credits miners pot script_for = Some ([], pot)"
    using tot by (auto simp: rebate_credits_def)
  then show ?thesis by (rule that) auto
next
  case False
  let ?t = "datum_total script_for miners" and ?el = "rebate_eligible script_for miners"
  have sum: "sum_list (map (\<lambda>x. pot * snd x div ?t) ?el) \<le> pot"
    by (rule proportional_shares_le) (simp add: rebate_eligible_sum)
  have small: "snd x \<le> ?t" if "x \<in> set ?el" for x
    using member_le_sum_list_map [OF that, of snd] by (simp add: rebate_eligible_sum)
  obtain cs cr where r: "rebate_slices pot ?t ?el 0 = Some (cs, cr)"
    using rebate_slices_total [of pot ?el 0 ?t] pot tot sum small by (fastforce intro: order.trans)
  note S = rebate_slices_Some [OF r]
  have trunc: "trunc64 (pot * snd x div ?t) = pot * snd x div ?t" if "x \<in> set ?el" for x
  proof -
    have "pot * snd x div ?t \<le> sum_list (map (\<lambda>x. pot * snd x div ?t) ?el)"
      by (rule member_le_sum_list_map [OF that])
    with sum pot show ?thesis by simp
  qed
  have "sum_list (map snd cs) \<le> sum_list (map snd (map (\<lambda>x. (fst x, trunc64 (pot * snd x div ?t))) ?el))"
    using S by (simp only: sum_list_filter_le)
  also have "\<dots> \<le> sum_list (map (\<lambda>x. pot * snd x div ?t) ?el)"
    by (simp add: comp_def) (rule sum_list_map_le, simp)
  finally have le: "sum_list (map snd cs) \<le> pot" using sum by linarith
  show ?thesis
  proof (rule that [of cs "pot - sum_list (map snd cs)"])
    show "rebate_credits miners pot script_for = Some (cs, pot - sum_list (map snd cs))"
      using False tot r S le by (simp add: rebate_credits_def Let_def rebate_eligible_sum)
    show "sum_list (map snd cs) + (pot - sum_list (map snd cs)) = pot" using le by simp
  next
    fix i c assume "(i, c) \<in> set cs"
    then obtain x where x: "x \<in> set ?el" "i = fst x" "c = trunc64 (pot * snd x div ?t)" "c > 0"
      using S by auto
    then obtain m where "m \<in> set miners" "x = (ms_identity m, datum_work m)" "datum_work m > 0"
        "script_for (ms_identity m) \<noteq> None"
      by (auto simp: rebate_eligible_eq)
    with x trunc [OF x(1)]
    show "c > 0 \<and> (\<exists>m \<in> set miners. ms_identity m = i \<and> script_for i \<noteq> None \<and> datum_work m > 0
        \<and> c = pot * datum_work m div ?t)"
      by auto
  qed
qed

lemma class_totals_le:
  assumes "class_totals miners = (s, g)"
  shows "s \<le> sum_list (map (\<lambda>m. fst (classes m)) miners)"
    and "g \<le> sum_list (map (\<lambda>m. fst (snd (classes m))) miners)"
proof -
  let ?f = "\<lambda>m (s, g). case classes m of (sw, gw, _) \<Rightarrow> (sat_add64 s sw, sat_add64 g gw)"
  have "fst (fold ?f ms a) \<le> fst a + sum_list (map (\<lambda>m. fst (classes m)) ms)
      \<and> snd (fold ?f ms a) \<le> snd a + sum_list (map (\<lambda>m. fst (snd (classes m))) ms)" for ms a
  proof (induction ms arbitrary: a)
    case Nil
    then show ?case by simp
  next
    case (Cons m ms)
    obtain sw gw dw where c: "classes m = (sw, gw, dw)" by (cases "classes m")
    show ?case
      using Cons.IH [of "?f m a"] sat_add64_le_sum [of "fst a" sw] sat_add64_le_sum [of "snd a" gw]
      by (cases a) (simp add: c)
  qed
  from this [of miners "(0, 0)"] assms show "s \<le> sum_list (map (\<lambda>m. fst (classes m)) miners)"
    and "g \<le> sum_list (map (\<lambda>m. fst (snd (classes m))) miners)"
    by (auto simp: class_totals_def)
qed

lemma stratum_rebate_le:
  "stratum_rebate v tw s b = Some r \<Longrightarrow> r \<le> v * (s * b) div (tw * 10000)"
  by (auto simp: stratum_rebate_def Option.bind_eq_Some_conv div_mult2_eq mult.assoc split: if_splits)

lemma stratum_rebate_total:
  assumes "s \<le> tw" "b \<le> 10000" "v * (tw * 10000) \<le> u128_max"
  shows "\<exists>r. stratum_rebate v tw s b = Some r"
proof -
  have "s * b \<le> tw * 10000" using assms(1,2) by (rule mult_le_mono)
  then have b: "v * s * b \<le> u128_max"
    using order.trans [OF mult_le_mono2 assms(3)] by (simp add: mult.assoc)
  show ?thesis
  proof (cases "b = 0")
    case True
    then show ?thesis by (simp add: stratum_rebate_def)
  next
    case False
    then have "v * s * 1 \<le> v * s * b" by (intro mult_le_mono) auto
    with b have "v * s \<le> u128_max" by linarith
    with b show ?thesis by (simp add: stratum_rebate_def)
  qed
qed

text \<open>The rebate and everything earned come out of the same block value.\<close>

lemma class_units_le:
  assumes ok: "params_ok p"
  shows "sum_list (map (\<lambda>m. fst (classes m)) ms) * stratum_bps p
    + (sum_list (map (\<lambda>m. fst (snd (classes m))) ms) * grace_bps p + sum_list (map (keep_units p) ms))
    \<le> work_sum ms * 10000"
proof (induction ms)
  case Nil
  then show ?case by simp
next
  case (Cons m ms)
  have "fst (classes m) * stratum_bps p + fst (snd (classes m)) * grace_bps p \<le> charge_units p m"
    by (cases "classes m") (simp add: charge_units_def)
  then have "fst (classes m) * stratum_bps p + (fst (snd (classes m)) * grace_bps p + keep_units p m)
      \<le> ms_work m * 10000"
    using keep_charge_units [OF ok, of m] by linarith
  with Cons.IH show ?case by (simp add: algebra_simps)
qed

lemma rebate_and_keep_units:
  assumes ok: "params_ok p" and tot: "class_totals miners = (s, g)" and w: "work_sum miners \<le> tw"
  shows "s * rebate_bps p + (g * grace_rebate_bps p + sum_list (map (keep_units p) miners)) \<le> tw * 10000"
proof -
  have "s * rebate_bps p \<le> sum_list (map (\<lambda>m. fst (classes m)) miners) * stratum_bps p"
    "g * grace_rebate_bps p \<le> sum_list (map (\<lambda>m. fst (snd (classes m))) miners) * grace_bps p"
    using class_totals_le [OF tot] rebate_bps_le grace_rebate_bps_le by (auto intro: mult_le_mono)
  with class_units_le [OF ok, of miners] w show ?thesis by linarith
qed

lemma rebate_and_shares_le:
  assumes ok: "params_ok p" and w: "work_sum miners \<le> tw" and tot: "class_totals miners = (s, g)"
    and r: "stratum_rebate v tw s (rebate_bps p) = Some r1" "stratum_rebate v tw g (grace_rebate_bps p) = Some r2"
    and sh: "miner_shares p tw v (zip miners scripts) 0 0 = Some (f, e, shares)"
    and len: "length scripts = length miners"
  shows "r1 + r2 + sum_list shares \<le> v"
proof -
  let ?xs = "s * rebate_bps p # g * grace_rebate_bps p # map (keep_units p) miners"
  have "sum_list (map (\<lambda>x. v * x div (tw * 10000)) ?xs) \<le> v"
    using rebate_and_keep_units [OF ok tot w] by (intro proportional_shares_le) simp
  with stratum_rebate_le [OF r(1)] stratum_rebate_le [OF r(2)] shares_sum_le_units [OF sh len]
  show ?thesis by (simp add: comp_def)
qed

lemma split_rebate_spec:
  assumes ok: "params_ok p" and w: "work_sum miners \<le> tw" "tw \<le> u64_max"
    and fit: "v * (tw * 10000) \<le> u128_max"
    and len: "length scripts = length miners"
  obtains credits rs oc df where "split_rebate miners scripts tw v p owed = Some (credits, rs, oc, df)"
    "rs = sum_list (map snd credits)" "oc \<le> owed"
    "\<And>f e shares. miner_shares p tw v (zip miners scripts) 0 0 = Some (f, e, shares) \<Longrightarrow>
       rs + df + sum_list shares \<le> v + oc"
proof -
  obtain s g where tot: "class_totals miners = (s, g)" by (cases "class_totals miners")
  have "classes m = (sw, gw, dw) \<Longrightarrow> sw \<le> ms_work m \<and> gw \<le> ms_work m" for m sw gw dw
    using classes_sum [of m sw gw dw] by simp
  then have "fst (classes m) \<le> ms_work m" "fst (snd (classes m)) \<le> ms_work m" for m
    by (cases "classes m"; simp)+
  then have sg: "s \<le> tw" "g \<le> tw"
    using class_totals_le [OF tot] w(1) sum_list_map_le [of miners "\<lambda>m. fst (classes m)" ms_work]
      sum_list_map_le [of miners "\<lambda>m. fst (snd (classes m))" ms_work] by (auto intro: order.trans)
  have bps: "rebate_bps p \<le> 10000" "grace_rebate_bps p \<le> 10000"
    using rebate_bps_le [of p] stratum_bps_le [OF ok] grace_rebate_bps_le [of p] grace_bps_le [of p] by linarith+
  obtain r1 r2 where r: "stratum_rebate v tw s (rebate_bps p) = Some r1"
      "stratum_rebate v tw g (grace_rebate_bps p) = Some r2"
    using stratum_rebate_total [OF sg(1) bps(1) fit] stratum_rebate_total [OF sg(2) bps(2) fit] by blast
  let ?ff = "sat_add64 r1 r2" and ?pot = "sat_add64 (sat_add64 r1 r2) owed"
  have le: "?ff \<le> r1 + r2" "?pot \<le> r1 + r2 + owed"
    using sat_add64_le_sum [of r1 r2] sat_add64_le_sum [of ?ff owed] by linarith+
  have dt: "datum_total (by_index miners scripts) miners \<le> u64_max"
    using datum_total_le [of "by_index miners scripts" miners] w by linarith
  obtain cs left where cs: "rebate_credits miners ?pot (by_index miners scripts) = Some (cs, left)"
      "sum_list (map snd cs) + left = ?pot"
    using rebate_credits_spec [OF sat_add64_le dt] by metis
  let ?on = "rebate_bps p > 0 \<or> (g > 0 \<and> grace_rebate_bps p > 0)"
  let ?cr = "if ?on then cs else []"
  have sum: "sum_list (map snd ?cr) \<le> ?pot" using cs(2) by auto
  then have "sum_list (map snd ?cr) \<le> u64_max" using sat_add64_le [of ?ff owed] by linarith
  then have eq: "split_rebate miners scripts tw v p owed = Some (if ?cr = [] then (?cr, sum_list (map snd ?cr), 0, ?ff)
      else (?cr, sum_list (map snd ?cr), owed, 0))"
    using r cs(1) by (auto simp: split_rebate_def tot sum_u64_eq Let_def)
  show thesis
  proof (rule that)
    show "split_rebate miners scripts tw v p owed = Some (?cr, sum_list (map snd ?cr),
        if ?cr = [] then 0 else owed, if ?cr = [] then ?ff else 0)"
      by (subst eq) auto
    show "sum_list (map snd ?cr) = sum_list (map snd ?cr)" ..
    show "(if ?cr = [] then 0 else owed) \<le> owed" by simp
  next
    fix f e shares assume sh: "miner_shares p tw v (zip miners scripts) 0 0 = Some (f, e, shares)"
    show "sum_list (map snd ?cr) + (if ?cr = [] then ?ff else 0) + sum_list shares
        \<le> v + (if ?cr = [] then 0 else owed)"
      using rebate_and_shares_le [OF ok w(1) tot r sh len] le sum by (cases "?cr = []") auto
  qed
qed

section \<open>The split as a whole\<close>

definition earned_by :: "split_params \<Rightarrow> u64 \<Rightarrow> u64 \<Rightarrow> miner_stat \<Rightarrow> u64" where
  "earned_by p tw v m = (case miner_share p tw v m of Some (e, _) \<Rightarrow> e | None \<Rightarrow> 0)"

lemma miner_shares_earned:
  "miner_shares p tw v xs f e = Some (f', e', shares) \<Longrightarrow> shares = map (earned_by p tw v) (map fst xs)"
  by (induction xs arbitrary: f e f' e' shares)
    (fastforce simp: Option.bind_eq_Some_conv earned_by_def split: prod.splits if_splits)+

abbreviation split_entries ::
  "split_params \<Rightarrow> u64 \<Rightarrow> u64 \<Rightarrow> (string \<Rightarrow> byte list option) \<Rightarrow> miner_stat list \<Rightarrow> queue_entry list" where
  "split_entries p tw v script_for miners \<equiv>
     map (\<lambda>m. ((m, script_of script_for m), earned_by p tw v m)) miners"

lemma sum_filter_mset:
  "sum_list (map f (filter P xs)) = sum_mset (image_mset f (filter_mset P (mset xs)))"
  by (simp add: sum_mset_sum_list flip: mset_filter mset_map)

lemma split_queue_perm:
  assumes "shares = map (earned_by p tw v) miners"
  shows "mset (split_queue miners (map (script_of script_for) miners) shares)
    = mset (split_entries p tw v script_for miners)"
proof -
  have "zip (zip miners (map (script_of script_for) miners)) shares = split_entries p tw v script_for miners"
    using assms by (induction miners arbitrary: shares) auto
  then show ?thesis by (simp add: split_queue_def)
qed

text \<open>The parts of a computed split, for the lemmas below.\<close>

lemma compute_SomeE:
  assumes "compute miners tw v p owed now script_for = Some s"
  obtains credits rs oc df f e qs fin where
    "split_rebate miners (map (script_of script_for) miners) tw v p owed = Some (credits, rs, oc, df)"
    "miner_shares p tw v (zip miners (map (script_of script_for) miners)) 0 0
       = Some (f, e, map (earned_by p tw v) miners)"
    "mset qs = mset (split_entries p tw v script_for miners)"
    "pay_all p now (pl_placed (place_all p now qs (v - e))) \<lparr>pa_payees = [],
       pa_unpaid = pl_unpaid (place_all p now qs (v - e)),
       pa_room = pl_room (place_all p now qs (v - e)), pa_paid = 0, pa_carry_paid = 0\<rparr> = Some fin"
    "s = \<lparr>sl_value = v, sl_fee_sats = f, sl_total_work = tw,
       sl_payees = pa_payees fin, sl_unpaid = pa_unpaid fin, sl_pool_sats = v - pa_paid fin,
       sl_carry_paid = pa_carry_paid fin, sl_rebate_credits = credits, sl_rebate_sats = rs,
       sl_rebate_owed_credited = oc, sl_rebate_deferred = df\<rparr>"
proof -
  let ?sc = "map (script_of script_for) miners"
  from assms obtain credits rs oc df f e shares fin where
    a: "split_rebate miners ?sc tw v p owed = Some (credits, rs, oc, df)"
      "miner_shares p tw v (zip miners ?sc) 0 0 = Some (f, e, shares)"
      "pay_all p now (pl_placed (place_all p now (split_queue miners ?sc shares) (v - e))) \<lparr>pa_payees = [],
         pa_unpaid = pl_unpaid (place_all p now (split_queue miners ?sc shares) (v - e)),
         pa_room = pl_room (place_all p now (split_queue miners ?sc shares) (v - e)), pa_paid = 0, pa_carry_paid = 0\<rparr>
         = Some fin"
      "s = \<lparr>sl_value = v, sl_fee_sats = f, sl_total_work = tw,
       sl_payees = pa_payees fin, sl_unpaid = pa_unpaid fin, sl_pool_sats = v - pa_paid fin,
       sl_carry_paid = pa_carry_paid fin, sl_rebate_credits = credits, sl_rebate_sats = rs,
       sl_rebate_owed_credited = oc, sl_rebate_deferred = df\<rparr>"
    by (auto simp: compute_def Let_def Option.bind_eq_Some_conv split: prod.splits)
  have sh: "shares = map (earned_by p tw v) miners"
    using miner_shares_earned [OF a(2)] by simp
  show thesis
    using that [OF a(1) a(2) [unfolded sh] split_queue_perm [OF refl] a(3) [unfolded sh] a(4)] .
qed

text \<open>What the placed miners earned, and what is left over, is the value of the block.\<close>

lemma place_split_room:
  assumes ok: "params_ok p" and w: "work_sum miners \<le> tw" and v: "v \<le> u64_max"
    and sh: "miner_shares p tw v (zip miners (map (script_of script_for) miners)) 0 0
       = Some (f, e, map (earned_by p tw v) miners)"
    and q: "mset qs = mset (split_entries p tw v script_for miners)"
  shows "pl_room (place_all p now qs (v - e)) + placed_sum (pl_placed (place_all p now qs (v - e))) = v"
    and "payable_sum qs \<le> sum_list (map (earned_by p tw v) miners)"
    and "sum_list (map (earned_by p tw v) miners) \<le> v"
proof -
  let ?sc = "map (script_of script_for) miners" and ?sh = "map (earned_by p tw v) miners"
  let ?en = "split_entries p tw v script_for miners"
  have "sum_list (map (\<lambda>m. v * keep_units p m div (tw * 10000)) miners) \<le> v"
    using keep_units_sum_le [OF ok w] by (rule proportional_shares_le)
  with shares_sum_le_units [OF sh] show all: "sum_list ?sh \<le> v" by simp
  have zip: "zip (zip miners ?sc) ?sh = ?en" by (induction miners) auto
  have pq: "payable_sum qs = payable_sum ?en" by (simp only: sum_filter_mset q)
  have "payable_sum ?en \<le> sum_list (map snd ?en)" by (rule payable_sum_le)
  then show le: "payable_sum qs \<le> sum_list ?sh" unfolding pq by (simp add: comp_def)
  have "e = payable_sum ?en"
    using miner_shares_Some(3) [OF sh] le all v unfolding zip pq by linarith
  then have "v - e + payable_sum qs = v" using le all unfolding pq by linarith
  with place_all_room [of "v - e" qs p now] v
  show "pl_room (place_all p now qs (v - e)) + placed_sum (pl_placed (place_all p now qs (v - e))) = v"
    by simp
qed

lemma compute_total:
  assumes ok: "params_ok p" and w: "work_sum miners \<le> tw" "tw \<le> u64_max"
    and v: "v \<le> u64_max" "v * (tw * 10000) \<le> u128_max"
  shows "\<exists>s. compute miners tw v p owed now script_for = Some s"
proof -
  let ?sc = "map (script_of script_for) miners" and ?sh = "map (earned_by p tw v) miners"
  obtain credits rs oc df where reb: "split_rebate miners ?sc tw v p owed = Some (credits, rs, oc, df)"
    using split_rebate_spec [OF ok w v(2)] by (metis length_map)
  have "\<exists>e f. miner_share p tw v m = Some (e, f)" if "m \<in> set miners" for m
    using miner_share_total [OF ok _ v(2)] member_le_sum_list_map [OF that, of ms_work] w by simp
  then have "\<exists>r. miner_shares p tw v (zip miners ?sc) 0 0 = Some r"
    by (intro miner_shares_total) (auto dest: set_zip_leftD)
  then obtain f e shares where sh': "miner_shares p tw v (zip miners ?sc) 0 0 = Some (f, e, shares)" by auto
  have shares: "shares = ?sh" using miner_shares_earned [OF sh'] by simp
  note sh = sh' [unfolded shares]
  let ?st = "place_all p now (split_queue miners ?sc ?sh) (v - e)"
  have "pl_room ?st + placed_sum (pl_placed ?st) = v"
    by (rule place_split_room(1) [OF ok w(1) v(1) sh split_queue_perm [OF refl]])
  then obtain fin where "pay_all p now (pl_placed ?st) \<lparr>pa_payees = [], pa_unpaid = pl_unpaid ?st,
      pa_room = pl_room ?st, pa_paid = 0, pa_carry_paid = 0\<rparr> = Some fin"
    using pay_all_total [of "\<lparr>pa_payees = [], pa_unpaid = pl_unpaid ?st,
      pa_room = pl_room ?st, pa_paid = 0, pa_carry_paid = 0\<rparr>" "pl_placed ?st" v p now] v(1) by auto
  then show ?thesis using reb sh by (simp add: compute_def Let_def)
qed

lemma compute_pays:
  assumes c: "compute miners tw v p owed now script_for = Some s"
    and ok: "params_ok p" and w: "work_sum miners \<le> tw" and v: "v \<le> u64_max"
  shows "sum_list (map py_sats (sl_payees s)) + sl_pool_sats s = v"
    and "sl_carry_paid s = sum_list (map py_carry (sl_payees s))"
    and "sl_pool_sats s + sl_carry_paid s + sum_list (map (earned_by p tw v) miners)
      \<ge> v + deferred_sum (sl_unpaid s)"
proof -
  obtain credits rs oc df f e qs fin where
    sh: "miner_shares p tw v (zip miners (map (script_of script_for) miners)) 0 0
       = Some (f, e, map (earned_by p tw v) miners)"
    and q: "mset qs = mset (split_entries p tw v script_for miners)"
    and pay: "pay_all p now (pl_placed (place_all p now qs (v - e))) \<lparr>pa_payees = [],
       pa_unpaid = pl_unpaid (place_all p now qs (v - e)),
       pa_room = pl_room (place_all p now qs (v - e)), pa_paid = 0, pa_carry_paid = 0\<rparr> = Some fin"
    and s: "s = \<lparr>sl_value = v, sl_fee_sats = f, sl_total_work = tw,
       sl_payees = pa_payees fin, sl_unpaid = pa_unpaid fin, sl_pool_sats = v - pa_paid fin,
       sl_carry_paid = pa_carry_paid fin, sl_rebate_credits = credits, sl_rebate_sats = rs,
       sl_rebate_owed_credited = oc, sl_rebate_deferred = df\<rparr>"
    using c by (rule compute_SomeE)
  note room = place_split_room(1) [OF ok w v sh q, of now] place_split_room(2) [OF ok w v sh q]
  have fin: "pa_paid fin + pa_room fin = v"
    using pay_all_total [OF _ v, of "\<lparr>pa_payees = [],
       pa_unpaid = pl_unpaid (place_all p now qs (v - e)),
       pa_room = pl_room (place_all p now qs (v - e)), pa_paid = 0, pa_carry_paid = 0\<rparr>"
      "pl_placed (place_all p now qs (v - e))" p now] room(1) pay by auto
  have sums: "pay_sums fin" by (rule pay_all_sums [OF pay]) (simp add: pay_sums_def)
  show "sum_list (map py_sats (sl_payees s)) + sl_pool_sats s = v"
    and "sl_carry_paid s = sum_list (map py_carry (sl_payees s))"
    using sums fin by (simp_all add: s pay_sums_def)
  have "pa_paid fin + deferred_sum (pa_unpaid fin) = pa_carry_paid fin + payable_sum qs"
    using pay_all_deferred [OF pay] place_all_deferred [of p now qs "v - e"]
    by (simp only: pay_state.select_convs)
  then show "sl_pool_sats s + sl_carry_paid s + sum_list (map (earned_by p tw v) miners)
      \<ge> v + deferred_sum (sl_unpaid s)"
    unfolding s split.select_convs using room(2) fin by linarith
qed

lemma compute_payees:
  assumes c: "compute miners tw v p owed now script_for = Some s"
    and y: "y \<in> set (sl_payees s)"
  obtains m where "m \<in> set miners" "py_identity y = ms_identity m" "py_work y = ms_work m"
    "script_for (ms_identity m) = Some (py_script y)"
    "py_sats y = earned_by p tw v m + py_carry y" "py_carry y \<le> ms_carry m"
    "floor_for p m now \<le> py_sats y" "is_stale p m now \<Longrightarrow> py_carry y = ms_carry m"
proof -
  obtain credits rs oc df f e qs fin where
    q: "mset qs = mset (split_entries p tw v script_for miners)"
    and pay: "pay_all p now (pl_placed (place_all p now qs (v - e))) \<lparr>pa_payees = [],
       pa_unpaid = pl_unpaid (place_all p now qs (v - e)),
       pa_room = pl_room (place_all p now qs (v - e)), pa_paid = 0, pa_carry_paid = 0\<rparr> = Some fin"
    and s: "sl_payees s = pa_payees fin"
    using c by (rule compute_SomeE) auto
  have "payee_ok p now (pl_placed (place_all p now qs (v - e))) y"
    using pay_all_payees [OF pay] y by (simp add: s)
  then obtain m sc e' where x: "(m, sc, e') \<in> set (pl_placed (place_all p now qs (v - e)))"
    and Y: "py_identity y = ms_identity m" "py_work y = ms_work m" "py_script y = sc"
      "py_sats y = e' + py_carry y" "py_carry y \<le> ms_carry m"
      "floor_for p m now \<le> py_sats y" "is_stale p m now \<longrightarrow> py_carry y = ms_carry m"
    by (auto simp: payee_ok_def)
  from x place_all_ok [of p now qs "v - e"] have "((m, Some sc), e') \<in> set qs"
    by (force simp: place_ok_def)
  then have "((m, Some sc), e') \<in> set (split_entries p tw v script_for miners)"
    using mset_eq_setD [OF q] by simp
  then have "m \<in> set miners" "script_of script_for m = Some sc" "e' = earned_by p tw v m" by auto
  with Y show thesis by (intro that [of m]) (auto simp: script_of_def split: if_splits)
qed

lemma compute_rebate:
  assumes "compute miners tw v p owed now script_for = Some s"
  shows "split_rebate miners (map (script_of script_for) miners) tw v p owed
      = Some (sl_rebate_credits s, sl_rebate_sats s, sl_rebate_owed_credited s, sl_rebate_deferred s)"
    and "\<exists>f e. miner_shares p tw v (zip miners (map (script_of script_for) miners)) 0 0
      = Some (f, e, map (earned_by p tw v) miners)"
  using assms by (auto elim: compute_SomeE)

lemma compute_payee_carry:
  "compute miners tw v p owed now script_for = Some s \<Longrightarrow> y \<in> set (sl_payees s) \<Longrightarrow> py_carry y \<le> py_sats y"
  by (erule (1) compute_payees) simp

lemma to_i64_le: "to_i64 x \<le> int x"
  by (simp add: to_i64_def)

lemma to_i64_exact: "x \<le> i64_max \<Longrightarrow> to_i64 x = int x"
  by (simp add: to_i64_def)

lemma carry_delta_sum_le:
  assumes "\<forall>y \<in> set payees. py_carry y \<le> i64_max"
  shows "sum_list (map snd (carry_delta payees unpaids credits (\<lambda>_. True)))
    \<le> int (deferred_sum unpaids) + int (sum_list (map snd credits)) - int (sum_list (map py_carry payees))"
proof -
  have 1: "sum_list (map snd (map (\<lambda>p. (py_identity p, - to_i64 (py_carry p))) (filter (\<lambda>p. py_carry p > 0 \<and> True) payees)))
      = - int (sum_list (map py_carry payees))"
    using assms by (induction payees) (auto simp: to_i64_exact)
  have 2: "sum_list (map snd (map (\<lambda>u. (un_identity u, to_i64 (un_earned u))) (filter defers unpaids)))
      \<le> int (deferred_sum unpaids)"
  proof (induction unpaids)
    case Nil
    then show ?case by simp
  next
    case (Cons u us)
    then show ?case using to_i64_le [of "un_earned u"] by (auto simp: defers_def)
  qed
  have 3: "sum_list (map snd (map (\<lambda>c. (fst c, to_i64 (snd c))) (filter (\<lambda>c. snd c > 0) credits)))
      \<le> int (sum_list (map snd credits))"
  proof (induction credits)
    case Nil
    then show ?case by simp
  next
    case (Cons c cs)
    then show ?case using to_i64_le [of "snd c"] by auto
  qed
  show ?thesis using 1 2 3 by (simp add: carry_delta_def)
qed

lemma compute_identities:
  assumes "compute miners tw v p owed now script_for = Some s"
  shows "mset (map py_identity (sl_payees s)) + mset (map un_identity (sl_unpaid s))
    = mset (map ms_identity (filter (\<lambda>m. earned_by p tw v m > 0 \<or> ms_carry m > 0) miners))"
  using assms
proof (rule compute_SomeE, goal_cases)
  case (1 credits rs oc df f e qs fin)
  have "mset (map py_identity (sl_payees s)) + mset (map un_identity (sl_unpaid s)) = owed_identities qs"
    using pay_all_identities [OF 1(4)] place_all_identities [of p now qs "v - e"] 1(5) by (simp add: ac_simps)
  also have "\<dots> = owed_identities (split_entries p tw v script_for miners)"
    by (simp add: owed_identities_def 1(3))
  also have "\<dots> = mset (map ms_identity (filter (\<lambda>m. earned_by p tw v m > 0 \<or> ms_carry m > 0) miners))"
    by (induction miners) (auto simp: owed_identities_def owed_in_all_def sat_add64_def)
  finally show ?case .
qed

section \<open>Properties\<close>

text \<open>
  C1. The coinbase pays exactly the block. For fees of at most 100% and a value whose product with
  the window's work fits the 128-bit arithmetic, \<^verbatim>\<open>compute\<close> does not panic, and the payees' outputs
  and the pool's output add up to \<open>value\<close>.
\<close>

theorem compute_pays_value:
  assumes "params_ok p" "work_sum miners \<le> tw" "tw \<le> u64_max"
    and "v \<le> u64_max" "v * (tw * 10000) \<le> u128_max"
  shows "\<exists>s. compute miners tw v p owed now script_for = Some s
    \<and> sum_list (map py_sats (sl_payees s)) + sl_pool_sats s = v"
  using compute_total [OF assms] compute_pays(1) [OF _ assms(1,2,4)] by metis

text \<open>
  C10. A found block never leaves the pool owing more than it received: the change in all carry
  balances plus the change in the owed rebate is at most the pool's own output.
\<close>

theorem compute_solvent:
  assumes c: "compute miners tw v p owed now script_for = Some s"
    and ok: "params_ok p" and w: "work_sum miners \<le> tw" "tw \<le> u64_max"
    and v: "v \<le> i64_max" "v * (tw * 10000) \<le> u128_max" and owed: "owed \<le> i64_max"
  shows "sum_list (map snd (split_carry_delta s (\<lambda>_. True))) + split_rebate_delta s \<le> int (sl_pool_sats s)"
proof -
  let ?sc = "map (script_of script_for) miners"
  have v': "v \<le> u64_max" using v(1) by simp
  have bounds: "sl_rebate_sats s = sum_list (map snd (sl_rebate_credits s))" "sl_rebate_owed_credited s \<le> owed"
      "sl_rebate_sats s + sl_rebate_deferred s + sum_list (map (earned_by p tw v) miners)
        \<le> v + sl_rebate_owed_credited s"
    using split_rebate_spec [OF ok w v(2), of ?sc owed] compute_rebate [OF c] by fastforce+
  note P = compute_pays [OF c ok w(1) v']
  have carry: "py_carry y \<le> i64_max" if y: "y \<in> set (sl_payees s)" for y
  proof -
    have "py_carry y \<le> sl_carry_paid s"
      using member_le_sum_list_map [OF y, of py_carry] P(2) by simp
    also have "sl_carry_paid s \<le> sum_list (map py_sats (sl_payees s))"
      using compute_payee_carry [OF c] unfolding P(2) by (intro sum_list_map_le) blast
    finally show ?thesis using P(1) v(1) by linarith
  qed
  have "sum_list (map snd (split_carry_delta s (\<lambda>_. True)))
      \<le> int (deferred_sum (sl_unpaid s)) + int (sum_list (map snd (sl_rebate_credits s)))
        - int (sl_carry_paid s)"
    using carry_delta_sum_le [of "sl_payees s"] carry P(2) by (simp add: split_carry_delta_def)
  moreover have "split_rebate_delta s \<le> int (sl_rebate_deferred s) - int (sl_rebate_owed_credited s)"
    using owed bounds(2) to_i64_le by (simp add: split_rebate_delta_def rebate_delta_def to_i64_exact)
  ultimately show ?thesis using P(3) bounds(1,3) by linarith
qed

text \<open>
  C20. Nobody is forgotten: every identity the block owes anything (a share of this block or carry)
  is a payee or is listed as unpaid, exactly once per window entry, and nobody else appears.
\<close>

theorem compute_accounts_everyone:
  assumes "compute miners tw v p owed now script_for = Some s"
  shows "mset (map py_identity (sl_payees s)) + mset (map un_identity (sl_unpaid s))
    = mset (map ms_identity (filter (\<lambda>m. earned_by p tw v m > 0 \<or> ms_carry m > 0) miners))"
  using assms by (rule compute_identities)

text \<open>
  C21. Every payee is a miner of the window with a valid script, paid this block's share plus some
  of its own carry, at or over its floor (a stale balance whole), and the outputs respect the
  count and byte budgets.
\<close>

theorem compute_payees_sound:
  assumes c: "compute miners tw v p owed now script_for = Some s"
  shows "(\<forall>y \<in> set (sl_payees s). \<exists>m \<in> set miners. py_identity y = ms_identity m
      \<and> script_for (ms_identity m) = Some (py_script y)
      \<and> py_sats y = earned_by p tw v m + py_carry y \<and> py_carry y \<le> ms_carry m
      \<and> floor_for p m now \<le> py_sats y \<and> (is_stale p m now \<longrightarrow> py_carry y = ms_carry m))
    \<and> length (sl_payees s) \<le> sp_max_outputs p
    \<and> sum_list (map (\<lambda>y. 8 + 1 + length (py_script y)) (sl_payees s)) \<le> sp_output_budget_bytes p"
proof (intro conjI ballI)
  fix y assume "y \<in> set (sl_payees s)"
  from compute_payees [OF c this] show "\<exists>m \<in> set miners. py_identity y = ms_identity m
      \<and> script_for (ms_identity m) = Some (py_script y)
      \<and> py_sats y = earned_by p tw v m + py_carry y \<and> py_carry y \<le> ms_carry m
      \<and> floor_for p m now \<le> py_sats y \<and> (is_stale p m now \<longrightarrow> py_carry y = ms_carry m)"
    by metis
next
  have "length (sl_payees s) \<le> sp_max_outputs p \<and> script_bytes (sl_payees s) \<le> sp_output_budget_bytes p"
    using c
  proof (rule compute_SomeE, goal_cases)
    case (1 credits rs oc df f e qs fin)
    from pay_all_limits [OF 1(4)] place_all_ok [of p now qs "v - e"] 1(5) show ?case
      by (auto simp: place_ok_def)
  qed
  then show "length (sl_payees s) \<le> sp_max_outputs p"
    and "sum_list (map (\<lambda>y. 8 + 1 + length (py_script y)) (sl_payees s)) \<le> sp_output_budget_bytes p"
    by simp_all
qed

text \<open>
  The DATUM rebate is shared over the payable DATUM work, pro rata and rounded down: the credits
  and the remainder add up to the pot, and only a payable identity with DATUM work is credited.
\<close>

theorem rebate_credits_pro_rata:
  assumes "pot \<le> u64_max" "datum_total script_for miners \<le> u64_max"
  shows "\<exists>credits left. rebate_credits miners pot script_for = Some (credits, left)
    \<and> sum_list (map snd credits) + left = pot
    \<and> (\<forall>(i, c) \<in> set credits. c > 0 \<and> (\<exists>m \<in> set miners. ms_identity m = i \<and> script_for i \<noteq> None
        \<and> datum_work m > 0 \<and> c = pot * datum_work m div datum_total script_for miners))"
proof -
  obtain credits left where "rebate_credits miners pot script_for = Some (credits, left)"
    "sum_list (map snd credits) + left = pot"
    "\<And>i c. (i, c) \<in> set credits \<Longrightarrow> c > 0 \<and> (\<exists>m \<in> set miners. ms_identity m = i \<and> script_for i \<noteq> None
        \<and> datum_work m > 0 \<and> c = pot * datum_work m div datum_total script_for miners)"
    using rebate_credits_spec [OF assms] by blast
  then show ?thesis by (intro exI [of _ credits] exI [of _ left]) auto
qed

section \<open>A worked split\<close>

text \<open>
  A window of three identities: a DATUM miner with carry, a house-stratum miner (25% fee, half of it
  rebated) and a worker name that is no address.
\<close>

definition ex_params :: split_params where
  "ex_params = default_split_params\<lparr>sp_stratum_fee_bps := 2500, sp_datum_rebate_bps := 1250\<rparr>"

definition ex_script :: "string \<Rightarrow> byte list option" where
  "ex_script i = (if i = ''rig'' then None else Some [0, 20])"

definition ex_miners :: "miner_stat list" where
  "ex_miners =
     [\<lparr>ms_identity = ''dat'', ms_work = 60, ms_stratum_work = 0, ms_grace_work = 0, ms_credits = 3,
        ms_last_ts = 100, ms_carry = 700\<rparr>,
      \<lparr>ms_identity = ''str'', ms_work = 30, ms_stratum_work = 30, ms_grace_work = 0, ms_credits = 2,
        ms_last_ts = 100, ms_carry = 0\<rparr>,
      \<lparr>ms_identity = ''rig'', ms_work = 10, ms_stratum_work = 0, ms_grace_work = 0, ms_credits = 1,
        ms_last_ts = 100, ms_carry = 0\<rparr>]"

definition ex_split :: split where
  "ex_split = \<lparr>sl_value = 100000, sl_fee_sats = 7500, sl_total_work = 100,
     sl_payees = [\<lparr>py_identity = ''dat'', py_work = 60, py_sats = 60700, py_carry = 700, py_script = [0, 20]\<rparr>,
       \<lparr>py_identity = ''str'', py_work = 30, py_sats = 22500, py_carry = 0, py_script = [0, 20]\<rparr>],
     sl_unpaid = [\<lparr>un_identity = ''rig'', un_sats = 10000, un_earned = 10000, un_reason = NoScript\<rparr>],
     sl_pool_sats = 16800, sl_carry_paid = 700, sl_rebate_credits = [(''dat'', 3750)],
     sl_rebate_sats = 3750, sl_rebate_owed_credited = 0, sl_rebate_deferred = 0\<rparr>"

lemmas ex_defs = ex_params_def ex_script_def ex_miners_def default_split_params_def

lemma ex_split_rebate:
  "split_rebate ex_miners (map (script_of ex_script) ex_miners) 100 100000 ex_params 0
    = Some ([(''dat'', 3750)], 3750, 0, 0)"
  by (simp add: ex_defs split_rebate_def class_totals_def classes_def script_of_def stratum_rebate_def
      rebate_bps_def grace_rebate_bps_def grace_bps_def stratum_bps_def rebate_credits_def
      rebate_eligible_def by_index_def chk_def chk_sub_def trunc64_def sat_add64_def Let_def)

lemma ex_split_computed: "compute ex_miners 100 100000 ex_params 0 200 ex_script = Some ex_split"
  unfolding compute_def Let_def ex_split_rebate
  by (simp add: ex_defs ex_split_def miner_share_def classes_def script_of_def grace_bps_def stratum_bps_def
      split_queue_def owed_in_all_def place_all_def place_one_def place_reason_def floor_for_def is_stale_def
      pay_one_def chk_def chk_sub_def trunc64_def sat_add64_def)

lemma ex_params_ok: "params_ok ex_params" "work_sum ex_miners \<le> 100"
  by (simp_all add: ex_defs params_ok_def)

theorem compute_pays_value_witness:
  "params_ok ex_params \<and> (\<exists>s. compute ex_miners 100 100000 ex_params 0 200 ex_script = Some s
    \<and> sum_list (map py_sats (sl_payees s)) + sl_pool_sats s = 100000)"
proof -
  show ?thesis using compute_pays_value [OF ex_params_ok, of 100000] ex_params_ok by simp
qed

theorem compute_solvent_witness:
  "compute ex_miners 100 100000 ex_params 0 200 ex_script = Some ex_split
   \<and> sum_list (map snd (split_carry_delta ex_split (\<lambda>_. True))) + split_rebate_delta ex_split
     \<le> int (sl_pool_sats ex_split)"
proof -
  show ?thesis using compute_solvent [OF ex_split_computed ex_params_ok] ex_split_computed by simp
qed

theorem compute_accounts_everyone_witness:
  "compute ex_miners 100 100000 ex_params 0 200 ex_script = Some ex_split
   \<and> mset (map py_identity (sl_payees ex_split)) + mset (map un_identity (sl_unpaid ex_split))
    = mset (map ms_identity (filter (\<lambda>m. earned_by ex_params 100 100000 m > 0 \<or> ms_carry m > 0) ex_miners))"
  using compute_accounts_everyone [OF ex_split_computed] ex_split_computed by simp

theorem compute_payees_sound_witness:
  "compute ex_miners 100 100000 ex_params 0 200 ex_script = Some ex_split
   \<and> length (sl_payees ex_split) \<le> sp_max_outputs ex_params
   \<and> sum_list (map (\<lambda>y. 8 + 1 + length (py_script y)) (sl_payees ex_split)) \<le> sp_output_budget_bytes ex_params"
  using compute_payees_sound [OF ex_split_computed] ex_split_computed by simp

theorem rebate_credits_pro_rata_witness:
  "\<exists>credits left. rebate_credits ex_miners 3750 ex_script = Some (credits, left)
    \<and> sum_list (map snd credits) + left = 3750"
proof -
  have "datum_total ex_script ex_miners \<le> u64_max"
    by (simp add: ex_defs datum_total_def datum_work_def)
  from rebate_credits_pro_rata [OF _ this, of 3750] show ?thesis by auto
qed

end
