(* ===== verification/Accounts_Spec.thy ===== *)
theory Accounts_Spec
  imports Prelude
begin

text \<open>
  What the ledger relies on when it books a block: the interface of the balance accounts kept by the
  share window (\<^verbatim>\<open>prime/tides/src/lib.rs\<close>). Three amounts stand per identity: the carry the pool owes
  it, the carry set aside for it in holds, and the debt it owes back. The locale states what each of
  the four primitive operations promises; its lemmas, proved once from those laws, are about the
  position of an identity, carry plus held less debt, and about the rule that the same sats never
  stand as a balance and as a debt at once.

  \<open>ok k w\<close> is the provider's invariant on \<open>w\<close> with room for \<open>k\<close> identities it has not seen before.
\<close>

text \<open>\<^verbatim>\<open>adjust_carry\<close>'s arithmetic: saturating at both ends.\<close>

definition move :: "u64 \<Rightarrow> i64 \<Rightarrow> u64" where
  "move cur d = (if d \<ge> 0 then sat_add64 cur (nat d) else cur - unsigned_abs d)"

lemma move_to_i64 [simp]: "n \<le> i64_max \<Longrightarrow> cur + n \<le> u64_max \<Longrightarrow> move cur (to_i64 n) = cur + n"
  by (simp add: move_def to_i64_def)

lemma move_minus_to_i64 [simp]: "n \<le> i64_max \<Longrightarrow> cur \<le> u64_max \<Longrightarrow> move cur (- to_i64 n) = cur - n"
  by (auto simp: move_def unsigned_abs_def to_i64_def sat_add64_def)

lemma move_neg [simp]: "d < 0 \<Longrightarrow> move cur d = cur - unsigned_abs d"
  by (simp add: move_def)

lemma move_le: "cur \<le> u64_max \<Longrightarrow> move cur d \<le> u64_max"
  by (auto simp: move_def)

text \<open>The sats an entry list names for one identity, and in all.\<close>

definition amount_of :: "string \<Rightarrow> (string \<times> u64) list \<Rightarrow> nat" where
  "amount_of s es = sum_list (map snd (filter (\<lambda>e. fst e = s) es))"

abbreviation amount_all :: "(string \<times> u64) list \<Rightarrow> nat" where
  "amount_all es \<equiv> sum_list (map snd es)"

lemma amount_of_simps [simp]:
  "amount_of s [] = 0" "amount_of s (e # es) = (if fst e = s then snd e else 0) + amount_of s es"
  "amount_of s (es @ fs) = amount_of s es + amount_of s fs"
  by (simp_all add: amount_of_def)

lemma amount_of_le: "amount_of s es \<le> amount_all es"
  by (simp add: amount_of_def sum_list_filter_le)

locale accounts =
  fixes ok :: "nat \<Rightarrow> 'w \<Rightarrow> bool"
    and carry debt held :: "string \<Rightarrow> 'w \<Rightarrow> nat"
    and adjust :: "string \<Rightarrow> int \<Rightarrow> 'w \<Rightarrow> nat \<times> 'w"
    and accrue :: "string \<Rightarrow> nat \<Rightarrow> 'w \<Rightarrow> 'w"
    and reduce draw :: "string \<Rightarrow> nat \<Rightarrow> 'w \<Rightarrow> nat \<times> 'w"
  assumes ok_Suc: "ok (Suc k) w \<Longrightarrow> ok k w"
    and carry_max: "ok k w \<Longrightarrow> carry s w \<le> u64_max"
    and debt_max: "ok k w \<Longrightarrow> debt s w \<le> u64_max"
    and adjust_ok: "ok (Suc k) w \<Longrightarrow> ok k (snd (adjust s d w))"
    and adjust_fst: "ok (Suc k) w \<Longrightarrow> fst (adjust s d w) = move (carry s w) d"
    and adjust_carry: "ok (Suc k) w \<Longrightarrow>
      carry x (snd (adjust s d w)) = (if x = s then move (carry s w) d else carry x w)"
    and adjust_frame: "ok (Suc k) w \<Longrightarrow>
      debt x (snd (adjust s d w)) = debt x w \<and> held x (snd (adjust s d w)) = held x w"
    and accrue_ok: "ok (Suc k) w \<Longrightarrow> n \<le> u64_max \<Longrightarrow> ok k (accrue s n w)"
    and accrue_debt: "ok (Suc k) w \<Longrightarrow> n \<le> u64_max \<Longrightarrow>
      debt x (accrue s n w) = (if x = s then sat_add64 (debt s w) n else debt x w)"
    and accrue_frame: "ok (Suc k) w \<Longrightarrow>
      carry x (accrue s n w) = carry x w \<and> held x (accrue s n w) = held x w"
    and reduce_ok: "ok k w \<Longrightarrow> ok k (snd (reduce s n w))"
    and reduce_fst: "ok k w \<Longrightarrow> fst (reduce s n w) = min (debt s w) n"
    and reduce_debt: "ok k w \<Longrightarrow>
      debt x (snd (reduce s n w)) = (if x = s then debt s w - n else debt x w)"
    and reduce_frame: "ok k w \<Longrightarrow>
      carry x (snd (reduce s n w)) = carry x w \<and> held x (snd (reduce s n w)) = held x w"
    and draw_ok: "ok k w \<Longrightarrow> ok k (snd (draw s n w))"
    and draw_fst: "ok k w \<Longrightarrow> fst (draw s n w) = min (held s w) n"
    and draw_held: "ok k w \<Longrightarrow>
      held x (snd (draw s n w)) = (if x = s then held s w - n else held x w)"
    and draw_frame: "ok k w \<Longrightarrow>
      carry x (snd (draw s n w)) = carry x w \<and> debt x (snd (draw s n w)) = debt x w"
begin

lemmas account_laws = adjust_fst adjust_carry adjust_frame accrue_debt accrue_frame
  reduce_fst reduce_debt reduce_frame draw_fst draw_held draw_frame

lemmas account_oks = ok_Suc adjust_ok accrue_ok reduce_ok draw_ok

definition position :: "string \<Rightarrow> 'w \<Rightarrow> int" where
  "position s w = int (carry s w) + int (held s w) - int (debt s w)"

definition separate :: "'w \<Rightarrow> bool" where
  "separate w \<longleftrightarrow> (\<forall>s. carry s w = 0 \<or> debt s w = 0)"

lemma separateD: "separate w \<Longrightarrow> carry s w = 0 \<or> debt s w = 0"
  by (simp add: separate_def)

text \<open>Putting sats on: the debt first, the rest as carry.\<close>

definition put_on :: "string \<Rightarrow> nat \<Rightarrow> 'w \<Rightarrow> 'w" where
  "put_on s n w = (case reduce s n w of (p, w1) \<Rightarrow>
     if n - p = 0 then w1 else snd (adjust s (to_i64 (n - p)) w1))"

lemma put_on_carry:
  assumes "ok (Suc k) w" "n \<le> i64_max" "carry s w + n \<le> u64_max"
  shows "carry x (put_on s n w) = (if x = s then carry s w + (n - debt s w) else carry x w)"
    and "debt x (put_on s n w) = (if x = s then debt s w - n else debt x w)"
    and "held x (put_on s n w) = held x w"
    and "ok k (put_on s n w)"
proof -
  obtain p w1 where r: "reduce s n w = (p, w1)" by (cases "reduce s n w")
  have ok1: "ok (Suc k) w1" and p: "p = min (debt s w) n"
    and d1: "\<And>x. debt x w1 = (if x = s then debt s w - n else debt x w)"
    and f1: "\<And>x. carry x w1 = carry x w \<and> held x w1 = held x w"
    using reduce_ok [OF assms(1), of s n] reduce_fst [OF assms(1), of s n]
      reduce_debt [OF assms(1), of _ s n] reduce_frame [OF assms(1), of _ s n] r by auto
  have mv: "move (carry s w1) (to_i64 (n - p)) = carry s w + (n - p)" if "n - p > 0"
    using assms(2,3) f1 by simp
  note adj = adjust_carry [OF ok1, of _ s "to_i64 (n - p)"] adjust_frame [OF ok1, of _ s "to_i64 (n - p)"]
  show "carry x (put_on s n w) = (if x = s then carry s w + (n - debt s w) else carry x w)"
    using adj(1) [of x] mv f1 p by (auto simp: put_on_def r)
  show "debt x (put_on s n w) = (if x = s then debt s w - n else debt x w)"
    using adj(2) [of x] d1 by (auto simp: put_on_def r)
  show "held x (put_on s n w) = held x w"
    using adj(2) [of x] f1 by (auto simp: put_on_def r)
  show "ok k (put_on s n w)"
    using adjust_ok [OF ok1] ok_Suc [OF ok1] by (auto simp: put_on_def r)
qed

lemma put_on_position:
  assumes "ok (Suc k) w" "n \<le> i64_max" "carry s w + n \<le> u64_max"
  shows "position x (put_on s n w) = position x w + (if x = s then int n else 0)"
  using put_on_carry(1-3) [OF assms, of x] by (auto simp: position_def)

lemma put_on_separate:
  assumes "ok (Suc k) w" "n \<le> i64_max" "carry s w + n \<le> u64_max" "separate w"
  shows "separate (put_on s n w)"
  unfolding separate_def
proof
  fix x
  show "carry x (put_on s n w) = 0 \<or> debt x (put_on s n w) = 0"
    using put_on_carry(1,2) [OF assms(1-3), of x] separateD [OF assms(4), of x] by auto
qed

text \<open>Taking sats off: out of carry, then out of the holds, and the rest is a debt.\<close>

definition take_off :: "string \<Rightarrow> int \<Rightarrow> 'w \<Rightarrow> 'w" where
  "take_off s d w =
     (let a = adjust s d w;
          short = unsigned_abs d - (carry s w - fst a);
          h = (if short > 0 then draw s short (snd a) else (0, snd a));
          overpaid = unsigned_abs d - (carry s w - fst a + fst h)
      in if overpaid > 0 then accrue s overpaid (snd h) else snd h)"

lemma take_off_carry:
  assumes ok: "ok (Suc (Suc k)) w" and d: "d < 0" "unsigned_abs d \<le> u64_max"
  shows "carry x (take_off s d w) = (if x = s then carry s w - unsigned_abs d else carry x w)"
    and "held x (take_off s d w) = (if x = s then held s w - (unsigned_abs d - carry s w) else held x w)"
    and "debt x (take_off s d w) = (if x = s
      then sat_add64 (debt s w) (unsigned_abs d - (carry s w + held s w)) else debt x w)"
    and "ok k (take_off s d w)"
proof -
  define n where "n = unsigned_abs d"
  define w1 where "w1 = snd (adjust s d w)"
  have ok1: "ok (Suc k) w1" and c1: "\<And>x. carry x w1 = (if x = s then carry s w - n else carry x w)"
    and f1: "\<And>x. debt x w1 = debt x w \<and> held x w1 = held x w" and a: "fst (adjust s d w) = carry s w - n"
    using adjust_ok [OF ok, of s d] adjust_carry [OF ok, of _ s d] adjust_frame [OF ok, of _ s d]
      adjust_fst [OF ok, of s d] d(1) by (simp_all add: w1_def n_def)
  define short where "short = n - carry s w"
  define w2 where "w2 = (if short > 0 then snd (draw s short w1) else w1)"
  have ok2: "ok (Suc k) w2" and h2: "\<And>x. held x w2 = (if x = s then held s w - short else held x w)"
    and f2: "\<And>x. carry x w2 = carry x w1 \<and> debt x w2 = debt x w"
    using draw_ok [OF ok1, of s short] draw_held [OF ok1, of _ s short] draw_frame [OF ok1, of _ s short]
      ok1 f1 by (auto simp: w2_def)
  have short: "n - (carry s w - (carry s w - n)) = short" by (simp add: short_def)
  define h where "h = (if short > 0 then draw s short w1 else (0, w1))"
  have over: "n - (carry s w - (carry s w - n) + fst h) = n - (carry s w + held s w)"
    using draw_fst [OF ok1, of s short] f1 by (auto simp: short_def h_def)
  have t: "take_off s d w = (if n - (carry s w + held s w) > 0 then accrue s (n - (carry s w + held s w)) w2 else w2)"
    unfolding take_off_def Let_def n_def [symmetric] w1_def [symmetric] a short h_def [symmetric] over
    by (simp add: h_def w2_def)
  have le: "n - (carry s w + held s w) \<le> u64_max" using d(2) by (simp add: n_def)
  note acc = accrue_debt [OF ok2 le, of _ s] accrue_frame [OF ok2, of _ s "n - (carry s w + held s w)"]
  show "carry x (take_off s d w) = (if x = s then carry s w - unsigned_abs d else carry x w)"
    using acc(2) [of x] f2 c1 by (auto simp: t n_def [symmetric])
  show "held x (take_off s d w) = (if x = s then held s w - (unsigned_abs d - carry s w) else held x w)"
    using acc(2) [of x] h2 by (auto simp: t n_def [symmetric] short_def)
  show "debt x (take_off s d w) = (if x = s
      then sat_add64 (debt s w) (unsigned_abs d - (carry s w + held s w)) else debt x w)"
    using acc(1) [of x] f2 debt_max [OF ok, of s] by (auto simp: t n_def [symmetric])
  show "ok k (take_off s d w)"
    using accrue_ok [OF ok2 le, of s] ok_Suc [OF ok2] by (simp add: t)
qed

lemma take_off_position:
  assumes "ok (Suc (Suc k)) w" "d < 0" "unsigned_abs d \<le> u64_max" "debt s w + unsigned_abs d \<le> u64_max"
  shows "position x (take_off s d w) = position x w + (if x = s then d else 0)"
proof -
  have "int (unsigned_abs d) = - d" using assms(2) by (simp add: unsigned_abs_def)
  then show ?thesis
    using take_off_carry(1-3) [OF assms(1-3), of x] assms(4) by (auto simp: position_def)
qed

lemma take_off_separate:
  assumes "ok (Suc (Suc k)) w" "d < 0" "unsigned_abs d \<le> u64_max" "separate w"
  shows "separate (take_off s d w)"
  unfolding separate_def
proof
  fix x
  show "carry x (take_off s d w) = 0 \<or> debt x (take_off s d w) = 0"
    using take_off_carry(1,3) [OF assms(1-3), of x] separateD [OF assms(4), of x] by (auto simp: sat_add64_def)
qed

text \<open>Taking a collected debt back: out of carry first, the rest is debt again.\<close>

definition owe_again :: "string \<Rightarrow> nat \<Rightarrow> 'w \<Rightarrow> 'w" where
  "owe_again s n w = (if n = 0 then w else
     let c = min (carry s w) n in accrue s (n - c) (if c > 0 then snd (adjust s (- to_i64 c) w) else w))"

lemma owe_again_carry:
  assumes ok: "ok (Suc (Suc k)) w" and n: "n \<le> i64_max" and room: "debt s w + n \<le> u64_max"
  shows "carry x (owe_again s n w) = (if x = s then carry s w - n else carry x w)"
    and "debt x (owe_again s n w) = (if x = s then debt s w + (n - carry s w) else debt x w)"
    and "held x (owe_again s n w) = held x w"
    and "ok k (owe_again s n w)"
proof -
  define c where "c = min (carry s w) n"
  define w1 where "w1 = (if c > 0 then snd (adjust s (- to_i64 c) w) else w)"
  have cle: "c \<le> i64_max" using n by (simp add: c_def)
  have ok1: "ok (Suc k) w1" using adjust_ok [OF ok] ok_Suc [OF ok] by (simp add: w1_def)
  have c1: "carry x w1 = (if x = s then carry s w - c else carry x w)" for x
    using adjust_carry [OF ok, of x s "- to_i64 c"] carry_max [OF ok, of s] cle by (auto simp: w1_def)
  have f1: "debt x w1 = debt x w \<and> held x w1 = held x w" for x
    using adjust_frame [OF ok, of x s "- to_i64 c"] by (simp add: w1_def)
  have e: "owe_again s n w = (if n = 0 then w else accrue s (n - c) w1)"
    by (simp add: owe_again_def c_def w1_def Let_def)
  have le: "n - c \<le> u64_max" using n by simp
  have d: "debt s w + (n - c) \<le> u64_max" using room by simp
  note acc = accrue_debt [OF ok1 le, of x s] accrue_frame [OF ok1, of x s "n - c"]
  show "carry x (owe_again s n w) = (if x = s then carry s w - n else carry x w)"
    using acc(2) c1 [of x] by (auto simp: e c_def min_def)
  show "debt x (owe_again s n w) = (if x = s then debt s w + (n - carry s w) else debt x w)"
    using acc(1) f1 [of x] f1 [of s] d by (auto simp: e c_def)
  show "held x (owe_again s n w) = held x w"
    using acc(2) f1 [of x] by (auto simp: e)
  show "ok k (owe_again s n w)"
    using accrue_ok [OF ok1 le, of s] ok_Suc [OF ok_Suc [OF ok]] by (simp add: e)
qed

lemma owe_again_separate:
  assumes "ok (Suc (Suc k)) w" "n \<le> i64_max" "debt s w + n \<le> u64_max" "separate w"
  shows "separate (owe_again s n w)"
  unfolding separate_def
proof
  fix x
  show "carry x (owe_again s n w) = 0 \<or> debt x (owe_again s n w) = 0"
    using owe_again_carry(1,2) [OF assms(1-3), of x] separateD [OF assms(4), of x] by auto
qed

subsection \<open>Lists of entries\<close>

text \<open>Room for \<open>n\<close> more sats in every account before anything saturates.\<close>

definition roomy :: "nat \<Rightarrow> 'w \<Rightarrow> bool" where
  "roomy n w \<longleftrightarrow> (\<forall>s. carry s w + n \<le> u64_max \<and> debt s w + n \<le> u64_max)"

lemma roomyD: "roomy n w \<Longrightarrow> carry s w + n \<le> u64_max" "roomy n w \<Longrightarrow> debt s w + n \<le> u64_max"
  by (simp_all add: roomy_def)

lemma roomy_mono: "roomy n w \<Longrightarrow> m \<le> n \<Longrightarrow> roomy m w"
  unfolding roomy_def by (meson add_left_mono le_trans)

lemma put_ons:
  assumes "ok (length es + k) w" "roomy (amount_all es + B) w" "\<forall>e \<in> set es. snd e \<le> i64_max"
  shows "ok k (fold (\<lambda>e. put_on (fst e) (snd e)) es w)" "roomy B (fold (\<lambda>e. put_on (fst e) (snd e)) es w)"
    and "position x (fold (\<lambda>e. put_on (fst e) (snd e)) es w) = position x w + int (amount_of x es)"
    and "separate w \<Longrightarrow> separate (fold (\<lambda>e. put_on (fst e) (snd e)) es w)"
proof -
  have "ok k (fold (\<lambda>e. put_on (fst e) (snd e)) es w) \<and> roomy B (fold (\<lambda>e. put_on (fst e) (snd e)) es w)
    \<and> position x (fold (\<lambda>e. put_on (fst e) (snd e)) es w) = position x w + int (amount_of x es)
    \<and> (separate w \<longrightarrow> separate (fold (\<lambda>e. put_on (fst e) (snd e)) es w))"
    using assms
  proof (induction es arbitrary: w)
    case (Cons e es)
    let ?w = "put_on (fst e) (snd e) w"
    have ok: "ok (Suc (length es + k)) w" and n: "snd e \<le> i64_max" using Cons.prems by simp_all
    have r: "carry (fst e) w + snd e \<le> u64_max" using roomyD(1) [OF Cons.prems(2), of "fst e"] by simp
    note P = put_on_carry [OF ok n r] put_on_position [OF ok n r, of x] put_on_separate [OF ok n r]
    have "roomy (amount_all es + B) ?w"
      unfolding roomy_def
    proof
      fix y
      show "carry y ?w + (amount_all es + B) \<le> u64_max \<and> debt y ?w + (amount_all es + B) \<le> u64_max"
        using roomyD [OF Cons.prems(2), of y] P(1,2) [of y] by auto
    qed
    from Cons.IH [OF P(4) this] Cons.prems(3) P(5,6) show ?case by auto
  qed simp
  then show "ok k (fold (\<lambda>e. put_on (fst e) (snd e)) es w)" "roomy B (fold (\<lambda>e. put_on (fst e) (snd e)) es w)"
    and "position x (fold (\<lambda>e. put_on (fst e) (snd e)) es w) = position x w + int (amount_of x es)"
    and "separate w \<Longrightarrow> separate (fold (\<lambda>e. put_on (fst e) (snd e)) es w)"
    by blast+
qed

lemma owe_agains:
  assumes "ok (2 * length es + k) w" "roomy (amount_all es + B) w" "\<forall>e \<in> set es. snd e \<le> i64_max"
  shows "ok k (fold (\<lambda>e. owe_again (fst e) (snd e)) es w)" "roomy B (fold (\<lambda>e. owe_again (fst e) (snd e)) es w)"
    and "position x (fold (\<lambda>e. owe_again (fst e) (snd e)) es w) = position x w - int (amount_of x es)"
    and "separate w \<Longrightarrow> separate (fold (\<lambda>e. owe_again (fst e) (snd e)) es w)"
proof -
  have "ok k (fold (\<lambda>e. owe_again (fst e) (snd e)) es w) \<and> roomy B (fold (\<lambda>e. owe_again (fst e) (snd e)) es w)
    \<and> position x (fold (\<lambda>e. owe_again (fst e) (snd e)) es w) = position x w - int (amount_of x es)
    \<and> (separate w \<longrightarrow> separate (fold (\<lambda>e. owe_again (fst e) (snd e)) es w))"
    using assms
  proof (induction es arbitrary: w)
    case (Cons e es)
    let ?w = "owe_again (fst e) (snd e) w"
    have ok: "ok (Suc (Suc (2 * length es + k))) w" and n: "snd e \<le> i64_max" using Cons.prems by simp_all
    have r: "debt (fst e) w + snd e \<le> u64_max" using roomyD(2) [OF Cons.prems(2), of "fst e"] by simp
    note P = owe_again_carry [OF ok n r] and sep = owe_again_separate [OF ok n r]
    have "roomy (amount_all es + B) ?w"
      unfolding roomy_def
    proof
      fix y
      show "carry y ?w + (amount_all es + B) \<le> u64_max \<and> debt y ?w + (amount_all es + B) \<le> u64_max"
        using roomyD [OF Cons.prems(2), of y] P(1,2) [of y] by auto
    qed
    moreover have "position x ?w = position x w - int (if fst e = x then snd e else 0)"
      using P(1-3) [of x] by (auto simp: position_def)
    ultimately show ?case using Cons.IH [OF P(4)] Cons.prems(3) sep by auto
  qed simp
  then show "ok k (fold (\<lambda>e. owe_again (fst e) (snd e)) es w)" "roomy B (fold (\<lambda>e. owe_again (fst e) (snd e)) es w)"
    and "position x (fold (\<lambda>e. owe_again (fst e) (snd e)) es w) = position x w - int (amount_of x es)"
    and "separate w \<Longrightarrow> separate (fold (\<lambda>e. owe_again (fst e) (snd e)) es w)"
    by blast+
qed

end

end
