(* ===== verification/Tides_Window.thy ===== *)
theory Tides_Window
  imports Tides_Split Accounts_Spec
begin

text \<open>
  The share window, \<^verbatim>\<open>prime/tides/src/lib.rs\<close>: the interned identities, the credit rows and their
  running totals, and the balances kept beside them (carry, debt, holds, owed rebate, last-seen
  times). Each method of \<^verbatim>\<open>Window\<close> is a function from the window to the window.

  \<^item> A \<^verbatim>\<open>HashMap\<close> is a map \<open>'k \<rightharpoonup> 'v\<close>. Rust iterates one in no particular order; every such loop in
    the source either adds up saturating sums or sorts its result by a key that ends in the
    identity, so the order of \<open>keys_of\<close>, that of the identity table, gives the same result.
  \<^item> The \<^verbatim>\<open>BTreeMap\<close> of holds is an association list with distinct keys.
  \<^item> \<open>None\<close> is a panic: an unchecked addition that overflows its 64 bits.
\<close>

section \<open>Data\<close>

definition SOURCE_UNKNOWN :: u8 where "SOURCE_UNKNOWN = 0"
definition SOURCE_STRATUM :: u8 where "SOURCE_STRATUM = 1"
definition SOURCE_DATUM :: u8 where "SOURCE_DATUM = 2"
definition SOURCE_STRATUM_GRACE :: u8 where "SOURCE_STRATUM_GRACE = 3"

lemmas source_defs = SOURCE_UNKNOWN_def SOURCE_STRATUM_def SOURCE_DATUM_def SOURCE_STRATUM_GRACE_def

record credit_rec =
  cr_ts :: u32
  cr_ident :: u32
  cr_work :: u64
  cr_height :: u32
  cr_source :: u8

record hold =
  hd_created_ts :: u64
  hd_height :: u32
  hd_ready_height :: u32
  hd_entries :: "(string \<times> u64) list"

record window =
  w_idents :: "string list"
  w_index :: "string \<rightharpoonup> u32"
  w_credits :: "credit_rec list"
  w_totals :: "u32 \<rightharpoonup> u64 \<times> u64 \<times> u32"
  w_total_work :: u64
  w_target_work :: u64
  w_carry :: "u32 \<rightharpoonup> u64"
  w_rebate_owed :: u64
  w_last_seen :: "u32 \<rightharpoonup> u32"
  w_holds :: "(string \<times> hold) list"
  w_debt :: "u32 \<rightharpoonup> u64"
  w_lifetime_shares :: u64
  w_lifetime_work :: u64

definition new_window :: window where
  "new_window = \<lparr>w_idents = [], w_index = Map.empty, w_credits = [], w_totals = Map.empty,
     w_total_work = 0, w_target_work = 0, w_carry = Map.empty, w_rebate_owed = 0,
     w_last_seen = Map.empty, w_holds = [], w_debt = Map.empty, w_lifetime_shares = 0,
     w_lifetime_work = 0\<rparr>"

definition keys_of :: "window \<Rightarrow> (u32 \<rightharpoonup> 'v) \<Rightarrow> u32 list" where
  "keys_of w m = filter (\<lambda>i. m i \<noteq> None) [0..<length (w_idents w)]"

section \<open>Identities and credits\<close>

definition intern :: "string \<Rightarrow> window \<Rightarrow> u32 \<times> window" where
  "intern s w = (case w_index w s of
     Some i \<Rightarrow> (i, w)
   | None \<Rightarrow> let i = length (w_idents w) mod 4294967296
             in (i, w\<lparr>w_idents := w_idents w @ [s], w_index := (w_index w)(s \<mapsto> i)\<rparr>))"

definition identity_at :: "u32 \<Rightarrow> window \<Rightarrow> string option" where
  "identity_at i w = (if i < length (w_idents w) then Some (w_idents w ! i) else None)"

definition index_of :: "string \<Rightarrow> window \<Rightarrow> u32 option" where
  "index_of s w = w_index w s"

text \<open>The common shape of the balance readers: \<^verbatim>\<open>ident_index.get(identity).and_then(|i| m.get(i))\<close>.\<close>

definition lookup :: "window \<Rightarrow> (u32 \<rightharpoonup> nat) \<Rightarrow> string \<Rightarrow> nat" where
  "lookup w m s = (case w_index w s of None \<Rightarrow> 0
     | Some i \<Rightarrow> (case m i of None \<Rightarrow> 0 | Some x \<Rightarrow> x))"

definition work_of :: "string \<Rightarrow> window \<Rightarrow> u64" where
  "work_of s w = (case w_index w s of None \<Rightarrow> 0
     | Some i \<Rightarrow> (case w_totals w i of None \<Rightarrow> 0 | Some (wk, _, _) \<Rightarrow> wk))"

definition note_seen :: "u32 \<Rightarrow> u32 \<Rightarrow> window \<Rightarrow> window" where
  "note_seen i ts w = w\<lparr>w_last_seen := (w_last_seen w)(i \<mapsto>
     max (case w_last_seen w i of None \<Rightarrow> 0 | Some t \<Rightarrow> t) ts)\<rparr>"

definition last_seen_of :: "string \<Rightarrow> window \<Rightarrow> u32" where
  "last_seen_of s w = lookup w (w_last_seen w) s"

definition set_last_seen :: "string \<Rightarrow> u32 \<Rightarrow> window \<Rightarrow> window" where
  "set_last_seen s ts w = (case intern s w of (i, w') \<Rightarrow> note_seen i ts w')"

text \<open>The totals entry after the oldest row \<open>c\<close> has left.\<close>

definition drop_total :: "credit_rec \<Rightarrow> (u32 \<rightharpoonup> u64 \<times> u64 \<times> u32) \<Rightarrow> (u32 \<rightharpoonup> u64 \<times> u64 \<times> u32)" where
  "drop_total c m = (case m (cr_ident c) of
     None \<Rightarrow> m
   | Some (wk, n, ts) \<Rightarrow> if n - 1 = 0 then m(cr_ident c := None)
       else m(cr_ident c \<mapsto> (wk - cr_work c, n - 1, ts)))"

function trim_loop :: "window \<Rightarrow> window" where
  "trim_loop w = (case w_credits w of
     [] \<Rightarrow> w
   | c # cs \<Rightarrow> (case chk_sub (w_total_work w) (cr_work c) of
       None \<Rightarrow> w
     | Some rest \<Rightarrow> if rest < w_target_work w then w
         else trim_loop (w\<lparr>w_credits := cs, w_total_work := rest,
                            w_totals := drop_total c (w_totals w)\<rparr>)))"
  by pat_completeness auto
termination
  by (relation "measure (\<lambda>w. length (w_credits w))") auto

declare trim_loop.simps [simp del]

definition trim :: "window \<Rightarrow> window" where
  "trim w = (if w_target_work w = 0 then w else trim_loop w)"

definition set_target :: "u64 \<Rightarrow> window \<Rightarrow> window" where
  "set_target t w = trim (w\<lparr>w_target_work := t\<rparr>)"

definition total_entry :: "window \<Rightarrow> u32 \<Rightarrow> u64 \<times> u64 \<times> u32" where
  "total_entry w i = (case w_totals w i of None \<Rightarrow> (0, 0, 0) | Some t \<Rightarrow> t)"

definition credit_row ::
  "string \<Rightarrow> u64 \<Rightarrow> u32 \<Rightarrow> u32 \<Rightarrow> u8 \<Rightarrow> window \<Rightarrow> (credit_rec \<times> window) option" where
  "credit_row s work height ts source w = (case intern s w of (i, w1) \<Rightarrow> do {
     shares \<leftarrow> chk64 (w_lifetime_shares w1 + 1);
     let w2 = note_seen i ts (w1\<lparr>w_lifetime_shares := shares,
       w_lifetime_work := sat_add64 (w_lifetime_work w1) work,
       w_total_work := sat_add64 (w_total_work w1) work\<rparr>);
     (case total_entry w2 i of (t0, t1, _) \<Rightarrow> do {
       n \<leftarrow> chk64 (t1 + 1);
       let c = \<lparr>cr_ts = ts, cr_ident = i, cr_work = work, cr_height = height, cr_source = source\<rparr>;
       Some (c, trim (w2\<lparr>w_totals := (w_totals w2)(i \<mapsto> (sat_add64 t0 work, n, ts)),
                        w_credits := w_credits w2 @ [c]\<rparr>)) }) })"

definition credit ::
  "string \<Rightarrow> u64 \<Rightarrow> u32 \<Rightarrow> u32 \<Rightarrow> u8 \<Rightarrow> window \<Rightarrow> ((credit_rec \<times> bool) \<times> window) option" where
  "credit s work height ts source w = (case intern s w of (i, w1) \<Rightarrow> do {
     shares \<leftarrow> chk64 (w_lifetime_shares w1 + 1);
     let w2 = note_seen i ts (w1\<lparr>w_lifetime_shares := shares,
       w_lifetime_work := sat_add64 (w_lifetime_work w1) work,
       w_total_work := sat_add64 (w_total_work w1) work\<rparr>);
     (case total_entry w2 i of (t0, t1, _) \<Rightarrow>
       if w_credits w2 \<noteq> [] \<and> cr_ident (last (w_credits w2)) = i \<and> cr_ts (last (w_credits w2)) = ts
          \<and> cr_height (last (w_credits w2)) = height \<and> cr_source (last (w_credits w2)) = source
       then
         let c = (last (w_credits w2))\<lparr>cr_work := sat_add64 (cr_work (last (w_credits w2))) work\<rparr>
         in Some ((c, False), trim (w2\<lparr>w_totals := (w_totals w2)(i \<mapsto> (sat_add64 t0 work, t1, ts)),
                                      w_credits := butlast (w_credits w2) @ [c]\<rparr>))
       else do {
         n \<leftarrow> chk64 (t1 + 1);
         let c = \<lparr>cr_ts = ts, cr_ident = i, cr_work = work, cr_height = height, cr_source = source\<rparr>;
         Some ((c, True), trim (w2\<lparr>w_totals := (w_totals w2)(i \<mapsto> (sat_add64 t0 work, n, ts)),
                                  w_credits := w_credits w2 @ [c]\<rparr>)) }) })"

definition push_raw :: "credit_rec \<Rightarrow> window \<Rightarrow> window option" where
  "push_raw c w = (let w1 = note_seen (cr_ident c) (cr_ts c) w in
     case total_entry w1 (cr_ident c) of (t0, t1, t2) \<Rightarrow> do {
       n \<leftarrow> chk64 (t1 + 1);
       Some (w1\<lparr>w_total_work := sat_add64 (w_total_work w1) (cr_work c),
               w_totals := (w_totals w1)(cr_ident c \<mapsto> (sat_add64 t0 (cr_work c), n, max t2 (cr_ts c))),
               w_credits := w_credits w1 @ [c]\<rparr>) })"

section \<open>Balances\<close>

definition carry_of :: "string \<Rightarrow> window \<Rightarrow> u64" where
  "carry_of s w = lookup w (w_carry w) s"

definition debt_of :: "string \<Rightarrow> window \<Rightarrow> u64" where
  "debt_of s w = lookup w (w_debt w) s"

definition set_rebate_owed :: "u64 \<Rightarrow> window \<Rightarrow> window" where
  "set_rebate_owed sats w = w\<lparr>w_rebate_owed := sats\<rparr>"

definition adjust_rebate_owed :: "i64 \<Rightarrow> window \<Rightarrow> u64 \<times> window" where
  "adjust_rebate_owed delta w =
     (let r = (if delta < 0 then w_rebate_owed w - unsigned_abs delta
               else sat_add64 (w_rebate_owed w) (nat delta))
      in (r, w\<lparr>w_rebate_owed := r\<rparr>))"

definition sum_sat :: "nat list \<Rightarrow> nat" where
  "sum_sat xs = fold (\<lambda>x a. sat_add64 a x) xs 0"

definition total_carry :: "window \<Rightarrow> u64" where
  "total_carry w = sum_sat (map (\<lambda>i. the (w_carry w i)) (keys_of w (w_carry w)))"

definition total_debt :: "window \<Rightarrow> u64" where
  "total_debt w = sum_sat (map (\<lambda>i. the (w_debt w i)) (keys_of w (w_debt w)))"

text \<open>\<^verbatim>\<open>carries\<close> and \<^verbatim>\<open>debts\<close>: largest first, ties by identity.\<close>

definition balances :: "window \<Rightarrow> (u32 \<rightharpoonup> u64) \<Rightarrow> (string \<times> u64) list" where
  "balances w m = sort_key (\<lambda>e. (- int (snd e), fst e))
     (map (\<lambda>i. (w_idents w ! i, the (m i))) (keys_of w m))"

definition carries :: "window \<Rightarrow> (string \<times> u64) list" where
  "carries w = balances w (w_carry w)"

definition debts :: "window \<Rightarrow> (string \<times> u64) list" where
  "debts w = balances w (w_debt w)"

definition put_balance :: "u32 \<Rightarrow> u64 \<Rightarrow> (u32 \<rightharpoonup> u64) \<Rightarrow> (u32 \<rightharpoonup> u64)" where
  "put_balance i x m = (if x = 0 then m(i := None) else m(i \<mapsto> x))"

definition set_carry :: "string \<Rightarrow> u64 \<Rightarrow> window \<Rightarrow> window" where
  "set_carry s sats w = (case intern s w of (i, w') \<Rightarrow>
     w'\<lparr>w_carry := put_balance i sats (w_carry w')\<rparr>)"

definition adjust_carry :: "string \<Rightarrow> i64 \<Rightarrow> window \<Rightarrow> u64 \<times> window" where
  "adjust_carry s delta w = (case intern s w of (i, w') \<Rightarrow>
     let cur = (case w_carry w' i of None \<Rightarrow> 0 | Some x \<Rightarrow> x);
         new = (if delta \<ge> 0 then sat_add64 cur (nat delta) else cur - unsigned_abs delta)
     in (new, w'\<lparr>w_carry := put_balance i new (w_carry w')\<rparr>))"

definition accrue_debt :: "string \<Rightarrow> u64 \<Rightarrow> window \<Rightarrow> window" where
  "accrue_debt s sats w = (if sats = 0 then w
     else case intern s w of (i, w') \<Rightarrow>
       w'\<lparr>w_debt := (w_debt w')(i \<mapsto>
         sat_add64 (case w_debt w' i of None \<Rightarrow> 0 | Some x \<Rightarrow> x) sats)\<rparr>)"

definition reduce_debt :: "string \<Rightarrow> u64 \<Rightarrow> window \<Rightarrow> u64 \<times> window" where
  "reduce_debt s sats w = (case w_index w s of
     None \<Rightarrow> (0, w)
   | Some i \<Rightarrow>
       let cur = (case w_debt w i of None \<Rightarrow> 0 | Some x \<Rightarrow> x);
           take = min cur sats
       in (take, w\<lparr>w_debt := put_balance i (cur - take) (w_debt w)\<rparr>))"

definition restore_debt :: "string \<Rightarrow> u64 \<Rightarrow> window \<Rightarrow> window" where
  "restore_debt s sats w = (if sats = 0 then w
     else let from_carry = min (carry_of s w) sats;
              w1 = (if from_carry > 0 then snd (adjust_carry s (- to_i64 from_carry) w) else w)
          in accrue_debt s (sats - from_carry) w1)"

definition forgive_debt :: "string \<Rightarrow> u64 \<Rightarrow> window \<Rightarrow> window" where
  "forgive_debt s sats w = (case reduce_debt s sats w of (from_debt, w1) \<Rightarrow>
     let back = sats - from_debt
     in if back > 0 then snd (adjust_carry s (to_i64 back) w1) else w1)"

definition restore_carry :: "string \<Rightarrow> u64 \<Rightarrow> window \<Rightarrow> u64 \<times> window" where
  "restore_carry s sats w = (case reduce_debt s sats w of (paid, w1) \<Rightarrow>
     let rest = sats - paid
     in if rest = 0 then (carry_of s w1, w1) else adjust_carry s (to_i64 rest) w1)"

section \<open>The view a split is computed from\<close>

fun stratum_map :: "credit_rec list \<Rightarrow> (u32 \<rightharpoonup> u64 \<times> u64) \<Rightarrow> (u32 \<rightharpoonup> u64 \<times> u64) option" where
  "stratum_map [] m = Some m"
| "stratum_map (c # cs) m =
     (if cr_source c = SOURCE_STRATUM \<or> cr_source c = SOURCE_STRATUM_GRACE then
        (case (case m (cr_ident c) of None \<Rightarrow> (0, 0) | Some x \<Rightarrow> x) of (s0, s1) \<Rightarrow> do {
           s0' \<leftarrow> chk64 (s0 + cr_work c);
           s1' \<leftarrow> (if cr_source c = SOURCE_STRATUM_GRACE then chk64 (s1 + cr_work c) else Some s1);
           stratum_map cs (m(cr_ident c \<mapsto> (s0', s1'))) })
      else stratum_map cs m)"

definition miner_of :: "window \<Rightarrow> (u32 \<rightharpoonup> u64 \<times> u64) \<Rightarrow> u32 \<Rightarrow> miner_stat" where
  "miner_of w st i = (case total_entry w i of (wk, n, ts) \<Rightarrow>
     \<lparr>ms_identity = w_idents w ! i, ms_work = wk,
      ms_stratum_work = min (case st i of None \<Rightarrow> 0 | Some x \<Rightarrow> fst x) wk,
      ms_grace_work = min (case st i of None \<Rightarrow> 0 | Some x \<Rightarrow> snd x) wk,
      ms_credits = n, ms_last_ts = ts,
      ms_carry = (case w_carry w i of None \<Rightarrow> 0 | Some x \<Rightarrow> x)\<rparr>)"

definition idle_miner_of :: "window \<Rightarrow> u32 \<Rightarrow> miner_stat" where
  "idle_miner_of w i =
     \<lparr>ms_identity = w_idents w ! i, ms_work = 0, ms_stratum_work = 0, ms_grace_work = 0,
      ms_credits = 0, ms_last_ts = (case w_last_seen w i of None \<Rightarrow> 0 | Some t \<Rightarrow> t),
      ms_carry = the (w_carry w i)\<rparr>"

definition miners :: "window \<Rightarrow> miner_stat list option" where
  "miners w = do {
     st \<leftarrow> stratum_map (w_credits w) Map.empty;
     Some (sort_key (\<lambda>m. (- int (ms_work m), - int (ms_carry m), ms_identity m))
       (map (miner_of w st) (keys_of w (w_totals w))
        @ map (idle_miner_of w)
            (filter (\<lambda>i. the (w_carry w i) > 0 \<and> w_totals w i = None) (keys_of w (w_carry w))))) }"

definition window_split ::
  "u64 \<Rightarrow> split_params \<Rightarrow> u32 \<Rightarrow> (string \<Rightarrow> byte list option) \<Rightarrow> window \<Rightarrow> split option" where
  "window_split value p now script_for w = do {
     ms \<leftarrow> miners w;
     compute ms (w_total_work w) value p (w_rebate_owed w) now script_for }"

section \<open>Stale balances and holds\<close>

record stale_carry =
  sc_identity :: string
  sc_sats :: u64
  sc_last_seen :: u32

definition stale_carries :: "u32 \<Rightarrow> u32 \<Rightarrow> u64 \<Rightarrow> window \<Rightarrow> stale_carry list" where
  "stale_carries now after mn w =
     sort_key (\<lambda>s. (- int (sc_sats s), sc_identity s))
       (map (\<lambda>i. \<lparr>sc_identity = w_idents w ! i, sc_sats = the (w_carry w i),
                  sc_last_seen = (case w_last_seen w i of None \<Rightarrow> 0 | Some t \<Rightarrow> t)\<rparr>)
         (filter (\<lambda>i. the (w_carry w i) \<ge> max mn 1 \<and> w_totals w i = None
              \<and> (let seen = (case w_last_seen w i of None \<Rightarrow> 0 | Some t \<Rightarrow> t)
                 in seen > 0 \<and> now - seen \<ge> after))
           (keys_of w (w_carry w))))"

definition hold_insert :: "string \<Rightarrow> hold \<Rightarrow> (string \<times> hold) list \<Rightarrow> (string \<times> hold) list" where
  "hold_insert k h hs = (k, h) # filter (\<lambda>e. fst e \<noteq> k) hs"

definition hold_remove :: "string \<Rightarrow> (string \<times> hold) list \<Rightarrow> (string \<times> hold) list" where
  "hold_remove k hs = filter (\<lambda>e. fst e \<noteq> k) hs"

text \<open>The inner loop: take up to \<open>left\<close> out of one hold's entries for \<open>s\<close>; the new entries and what is
  still to take.\<close>

fun draw_entries :: "string \<Rightarrow> (string \<times> u64) list \<Rightarrow> u64 \<Rightarrow> (string \<times> u64) list \<times> u64" where
  "draw_entries s [] left = ([], left)"
| "draw_entries s (e # es) left =
     (if fst e = s then
        (let take = min (snd e) left in
         case draw_entries s es (left - take) of (es', left') \<Rightarrow> ((fst e, snd e - take) # es', left'))
      else case draw_entries s es left of (es', left') \<Rightarrow> (e # es', left'))"

fun draw_loop :: "string \<Rightarrow> string list \<Rightarrow> (string \<times> hold) list \<Rightarrow> u64 \<Rightarrow> (string \<times> hold) list \<times> u64" where
  "draw_loop s [] hs left = (hs, left)"
| "draw_loop s (b # bs) hs left =
     (if left = 0 then (hs, left)
      else case map_of hs b of
        None \<Rightarrow> draw_loop s bs hs left
      | Some h \<Rightarrow> (case draw_entries s (hd_entries h) left of (es, left') \<Rightarrow>
          let es' = filter (\<lambda>e. snd e > 0) es;
              hs' = (if es' = [] then hold_remove b hs else hold_insert b (h\<lparr>hd_entries := es'\<rparr>) hs)
          in draw_loop s bs hs' left'))"

definition draw_from_holds :: "string \<Rightarrow> u64 \<Rightarrow> window \<Rightarrow> u64 \<times> window" where
  "draw_from_holds s sats w =
     (let order = map snd (sort (map (\<lambda>e. (hd_created_ts (snd e), fst e)) (w_holds w)))
      in case draw_loop s order (w_holds w) sats of (hs, left) \<Rightarrow> (sats - left, w\<lparr>w_holds := hs\<rparr>))"

definition total_held :: "window \<Rightarrow> u64" where
  "total_held w = sum_sat (concat (map (\<lambda>e. map snd (hd_entries (snd e))) (w_holds w)))"

section \<open>The account invariant\<close>

definition ident_ok :: "window \<Rightarrow> bool" where
  "ident_ok w \<longleftrightarrow> (\<forall>s i. w_index w s = Some i \<longleftrightarrow> i < length (w_idents w) \<and> w_idents w ! i = s)"

definition bal_ok :: "nat \<Rightarrow> (u32 \<rightharpoonup> u64) \<Rightarrow> bool" where
  "bal_ok n m \<longleftrightarrow> (\<forall>i x. m i = Some x \<longrightarrow> i < n \<and> 0 < x \<and> x \<le> u64_max)"

definition accounts_ok :: "nat \<Rightarrow> window \<Rightarrow> bool" where
  "accounts_ok k w \<longleftrightarrow> ident_ok w \<and> length (w_idents w) + k \<le> 4294967296
     \<and> bal_ok (length (w_idents w)) (w_carry w) \<and> bal_ok (length (w_idents w)) (w_debt w)
     \<and> distinct (map fst (w_holds w))"

definition held_of :: "string \<Rightarrow> window \<Rightarrow> nat" where
  "held_of s w = sum_list (map (\<lambda>e. amount_of s (hd_entries (snd e))) (w_holds w))"

lemma ident_ok_nth: "ident_ok w \<Longrightarrow> w_index w s = Some i \<Longrightarrow> i < length (w_idents w) \<and> w_idents w ! i = s"
  by (simp add: ident_ok_def)

lemma ident_ok_distinct: "ident_ok w \<Longrightarrow> distinct (w_idents w)"
  unfolding ident_ok_def distinct_conv_nth by (metis option.inject)

lemma ident_ok_inj: "ident_ok w \<Longrightarrow> w_index w s = Some i \<Longrightarrow> w_index w t = Some i \<Longrightarrow> s = t"
  by (auto simp: ident_ok_def)

lemma bal_ok_mono: "bal_ok n m \<Longrightarrow> n \<le> n' \<Longrightarrow> bal_ok n' m"
  by (force simp: bal_ok_def)

lemma bal_ok_put: "bal_ok n m \<Longrightarrow> i < n \<Longrightarrow> x \<le> u64_max \<Longrightarrow> bal_ok n (put_balance i x m)"
  by (auto simp: bal_ok_def put_balance_def)

lemma bal_ok_upd: "bal_ok n m \<Longrightarrow> i < n \<Longrightarrow> 0 < x \<Longrightarrow> x \<le> u64_max \<Longrightarrow> bal_ok n (m(i \<mapsto> x))"
  by (auto simp: bal_ok_def)

text \<open>Everything later proofs need of \<^const>\<open>intern\<close>.\<close>

lemma intern_spec:
  assumes "ident_ok w" "length (w_idents w) < 4294967296" "intern s w = (i, w')"
  shows "ident_ok w'" "w_index w' s = Some i" "i < length (w_idents w')"
    and "w_idents w' = w_idents w @ (if w_index w s = None then [s] else [])"
    and "\<And>x. x \<noteq> s \<Longrightarrow> w_index w' x = w_index w x"
    and "w_index w s = None \<Longrightarrow> i = length (w_idents w)"
    and "\<And>j. w_index w s = Some j \<Longrightarrow> i = j"
    and "w' = w\<lparr>w_idents := w_idents w', w_index := w_index w'\<rparr>"
proof -
  have i: "length (w_idents w) mod 4294967296 = length (w_idents w)" using assms(2) by simp
  have "ident_ok w' \<and> w_index w' s = Some i \<and> i < length (w_idents w')
    \<and> w_idents w' = w_idents w @ (if w_index w s = None then [s] else [])
    \<and> (\<forall>x. x \<noteq> s \<longrightarrow> w_index w' x = w_index w x) \<and> (w_index w s = None \<longrightarrow> i = length (w_idents w))
    \<and> (\<forall>j. w_index w s = Some j \<longrightarrow> i = j)
    \<and> w' = w\<lparr>w_idents := w_idents w', w_index := w_index w'\<rparr>"
  proof (cases "w_index w s")
    case None
    have w': "w' = w\<lparr>w_idents := w_idents w @ [s], w_index := (w_index w)(s \<mapsto> i)\<rparr>" and il: "i = length (w_idents w)"
      using assms(3) unfolding intern_def Let_def None i by auto
    have fresh: "w_idents w ! j \<noteq> s" if "j < length (w_idents w)" for j
      using assms(1) that None unfolding ident_ok_def by (metis option.distinct(1))
    have "ident_ok w'"
      unfolding ident_ok_def
    proof (intro allI)
      fix x j
      show "w_index w' x = Some j \<longleftrightarrow> j < length (w_idents w') \<and> w_idents w' ! j = x"
      proof (cases "x = s")
        case True
        then show ?thesis using fresh [of j] by (auto simp: w' il nth_append less_Suc_eq)
      next
        case False
        then show ?thesis using assms(1) by (auto simp: w' il nth_append less_Suc_eq ident_ok_def)
      qed
    qed
    then show ?thesis using None by (simp add: w' il)
  next
    case (Some j)
    then show ?thesis using assms(1,3) by (auto simp: intern_def dest: ident_ok_nth)
  qed
  then show "ident_ok w'" "w_index w' s = Some i" "i < length (w_idents w')"
    and "w_idents w' = w_idents w @ (if w_index w s = None then [s] else [])"
    and "\<And>x. x \<noteq> s \<Longrightarrow> w_index w' x = w_index w x"
    and "w_index w s = None \<Longrightarrow> i = length (w_idents w)"
    and "\<And>j. w_index w s = Some j \<Longrightarrow> i = j"
    and "w' = w\<lparr>w_idents := w_idents w', w_index := w_index w'\<rparr>"
    by blast+
qed

lemma intern_frame:
  assumes "intern s w = (i, w')"
  shows "w_carry w' = w_carry w" "w_debt w' = w_debt w" "w_holds w' = w_holds w" "w_credits w' = w_credits w"
    "w_totals w' = w_totals w" "w_total_work w' = w_total_work w" "w_target_work w' = w_target_work w"
    "w_last_seen w' = w_last_seen w" "w_rebate_owed w' = w_rebate_owed w"
    "w_lifetime_shares w' = w_lifetime_shares w" "w_lifetime_work w' = w_lifetime_work w"
  using assms by (auto simp: intern_def Let_def split: option.splits)

lemma lookup_cong: "w_index w' = w_index w \<Longrightarrow> lookup w' m s = lookup w m s"
  by (simp add: lookup_def)

lemma lookup_update [simp]:
  "lookup (w\<lparr>w_carry := c\<rparr>) m s = lookup w m s" "lookup (w\<lparr>w_debt := c\<rparr>) m s = lookup w m s"
  "lookup (w\<lparr>w_holds := h\<rparr>) m s = lookup w m s" "lookup (w\<lparr>w_last_seen := l\<rparr>) m s = lookup w m s"
  by (simp_all add: lookup_def)

lemma ident_ok_update [simp]:
  "ident_ok (w\<lparr>w_carry := c\<rparr>) = ident_ok w" "ident_ok (w\<lparr>w_debt := c\<rparr>) = ident_ok w"
  "ident_ok (w\<lparr>w_holds := h\<rparr>) = ident_ok w" "ident_ok (w\<lparr>w_last_seen := l\<rparr>) = ident_ok w"
  by (simp_all add: ident_ok_def)

lemma lookup_intern:
  assumes "ident_ok w" "length (w_idents w) < 4294967296" "intern s w = (i, w')"
    and "bal_ok (length (w_idents w)) m"
  shows "lookup w' m x = lookup w m x"
proof (cases "x = s")
  case True
  have "m i = None" if "w_index w s = None"
    using assms(4) intern_spec(6) [OF assms(1-3) that] by (auto simp: bal_ok_def intro: ccontr)
  then show ?thesis
    using True intern_spec(2,7) [OF assms(1-3)] by (cases "w_index w s") (auto simp: lookup_def)
next
  case False
  then show ?thesis using intern_spec(5) [OF assms(1-3)] by (simp add: lookup_def)
qed

lemma lookup_put:
  assumes "ident_ok w" "w_index w s = Some i"
  shows "lookup w (put_balance i v m) x = (if x = s then v else lookup w m x)"
proof (cases "x = s")
  case True
  then show ?thesis by (simp add: lookup_def assms(2) put_balance_def)
next
  case False
  then have "j \<noteq> i" if "w_index w x = Some j" for j
    using ident_ok_inj [OF assms(1) _ assms(2)] that by blast
  then show ?thesis using False by (cases "w_index w x") (simp_all add: lookup_def put_balance_def)
qed

lemma lookup_max: "bal_ok n m \<Longrightarrow> lookup w m s \<le> u64_max"
  by (auto simp: lookup_def bal_ok_def split: option.splits)

lemma lookup_at: "w_index w s = Some i \<Longrightarrow> lookup w m s = (case m i of None \<Rightarrow> 0 | Some x \<Rightarrow> x)"
  by (simp add: lookup_def)

lemma accounts_ok_idents:
  "accounts_ok (Suc k) w \<Longrightarrow> ident_ok w \<and> length (w_idents w) < 4294967296"
  by (simp add: accounts_ok_def)

lemma accounts_ok_intern:
  assumes "accounts_ok (Suc k) w" "intern s w = (i, w')"
  shows "accounts_ok k w'" and "w_index w' s = Some i" and "i < length (w_idents w')"
    and "carry_of x w' = carry_of x w" and "debt_of x w' = debt_of x w"
proof -
  have ok: "ident_ok w" "length (w_idents w) < 4294967296" using accounts_ok_idents [OF assms(1)] by auto
  note sp = intern_spec [OF ok assms(2)]
  have "length (w_idents w') \<le> Suc (length (w_idents w))" "length (w_idents w) \<le> length (w_idents w')"
    unfolding sp(4) by auto
  then show "accounts_ok k w'"
    using assms(1) sp(1) by (auto simp: accounts_ok_def intern_frame [OF assms(2)] intro: bal_ok_mono)
  show "w_index w' s = Some i" "i < length (w_idents w')" by (rule sp)+
  show "carry_of x w' = carry_of x w" "debt_of x w' = debt_of x w"
    using lookup_intern [OF ok assms(2)] assms(1)
    by (auto simp: carry_of_def debt_of_def accounts_ok_def intern_frame [OF assms(2)])
qed

lemma accounts_ok_Suc: "accounts_ok (Suc k) w \<Longrightarrow> accounts_ok k w"
  by (simp add: accounts_ok_def)

lemma adjust_carry_eq:
  "adjust_carry s d w = (case intern s w of (i, w') \<Rightarrow>
     (move (carry_of s w') d, w'\<lparr>w_carry := put_balance i (move (carry_of s w') d) (w_carry w')\<rparr>))"
  if "accounts_ok (Suc k) w"
proof -
  obtain i w' where i: "intern s w = (i, w')" by (cases "intern s w")
  show ?thesis
    by (simp add: adjust_carry_def i move_def carry_of_def lookup_at [OF accounts_ok_intern(2) [OF that i]] Let_def)
qed

lemma adjust_carry_spec:
  assumes ok: "accounts_ok (Suc k) w"
  shows "accounts_ok k (snd (adjust_carry s d w))"
    and "fst (adjust_carry s d w) = move (carry_of s w) d"
    and "carry_of x (snd (adjust_carry s d w)) = (if x = s then move (carry_of s w) d else carry_of x w)"
    and "debt_of x (snd (adjust_carry s d w)) = debt_of x w \<and> held_of x (snd (adjust_carry s d w)) = held_of x w"
proof -
  obtain i w' where i: "intern s w = (i, w')" by (cases "intern s w")
  note sp = accounts_ok_intern [OF ok i]
  have m: "move (carry_of s w) d \<le> u64_max"
    using ok by (auto intro!: move_le lookup_max simp: carry_of_def accounts_ok_def)
  have e: "adjust_carry s d w = (move (carry_of s w) d, w'\<lparr>w_carry := put_balance i (move (carry_of s w) d) (w_carry w')\<rparr>)"
    by (simp add: adjust_carry_eq [OF ok] i sp(4))
  show "accounts_ok k (snd (adjust_carry s d w))"
    using sp(1,3) m by (auto simp: e accounts_ok_def intro: bal_ok_put)
  show "fst (adjust_carry s d w) = move (carry_of s w) d" by (simp add: e)
  have id: "ident_ok w'" using sp(1) by (simp add: accounts_ok_def)
  show "carry_of x (snd (adjust_carry s d w)) = (if x = s then move (carry_of s w) d else carry_of x w)"
    using lookup_put [OF id sp(2)] sp(4) [of x] by (simp add: e carry_of_def)
  show "debt_of x (snd (adjust_carry s d w)) = debt_of x w \<and> held_of x (snd (adjust_carry s d w)) = held_of x w"
    using sp(5) [of x] by (simp add: e debt_of_def held_of_def intern_frame [OF i])
qed

lemma accrue_debt_spec:
  assumes ok: "accounts_ok (Suc k) w"
  shows "n \<le> u64_max \<Longrightarrow> accounts_ok k (accrue_debt s n w)"
    and "debt_of x (accrue_debt s n w) = (if x = s then sat_add64 (debt_of s w) n else debt_of x w)"
    and "carry_of x (accrue_debt s n w) = carry_of x w \<and> held_of x (accrue_debt s n w) = held_of x w"
proof -
  obtain i w' where i: "intern s w = (i, w')" by (cases "intern s w")
  note sp = accounts_ok_intern [OF ok i]
  have id: "ident_ok w'" using sp(1) by (simp add: accounts_ok_def)
  have dm: "debt_of s w \<le> u64_max"
    using ok by (auto intro!: lookup_max simp: debt_of_def accounts_ok_def)
  have e: "accrue_debt s n w = (if n = 0 then w
      else w'\<lparr>w_debt := put_balance i (sat_add64 (debt_of s w) n) (w_debt w')\<rparr>)"
    using sp(5) [of s] by (auto simp: accrue_debt_def i debt_of_def lookup_at [OF sp(2)] put_balance_def sat_add64_def)
  show "accounts_ok k (accrue_debt s n w)" if "n \<le> u64_max"
    using sp(1,3) accounts_ok_Suc [OF ok] by (auto simp: e accounts_ok_def intro: bal_ok_put)
  show "debt_of x (accrue_debt s n w) = (if x = s then sat_add64 (debt_of s w) n else debt_of x w)"
    using lookup_put [OF id sp(2)] sp(5) [of x] dm by (auto simp: e debt_of_def)
  show "carry_of x (accrue_debt s n w) = carry_of x w \<and> held_of x (accrue_debt s n w) = held_of x w"
    using sp(4) [of x] by (simp add: e carry_of_def held_of_def intern_frame [OF i])
qed

lemma reduce_debt_spec:
  assumes ok: "accounts_ok k w"
  shows "accounts_ok k (snd (reduce_debt s n w))"
    and "fst (reduce_debt s n w) = min (debt_of s w) n"
    and "debt_of x (snd (reduce_debt s n w)) = (if x = s then debt_of s w - n else debt_of x w)"
    and "carry_of x (snd (reduce_debt s n w)) = carry_of x w \<and> held_of x (snd (reduce_debt s n w)) = held_of x w"
proof -
  have id: "ident_ok w" using ok by (simp add: accounts_ok_def)
  have dm: "debt_of s w \<le> u64_max"
    using ok by (auto intro!: lookup_max simp: debt_of_def accounts_ok_def)
  have e: "reduce_debt s n w = (case w_index w s of None \<Rightarrow> (0, w)
      | Some i \<Rightarrow> (min (debt_of s w) n, w\<lparr>w_debt := put_balance i (debt_of s w - n) (w_debt w)\<rparr>))"
    by (auto simp: reduce_debt_def debt_of_def lookup_def Let_def split: option.splits)
      (simp_all add: min_def)
  have z: "w_index w s = None \<Longrightarrow> debt_of s w = 0" by (simp add: debt_of_def lookup_def)
  show "accounts_ok k (snd (reduce_debt s n w))"
    using ok ident_ok_nth [OF id, of s] dm
    by (auto simp: e accounts_ok_def intro!: bal_ok_put split: option.splits)
  show "fst (reduce_debt s n w) = min (debt_of s w) n"
    using z by (auto simp: e split: option.splits)
  show "debt_of x (snd (reduce_debt s n w)) = (if x = s then debt_of s w - n else debt_of x w)"
    using z lookup_put [OF id, of s] by (auto simp: e debt_of_def split: option.splits)
  show "carry_of x (snd (reduce_debt s n w)) = carry_of x w \<and> held_of x (snd (reduce_debt s n w)) = held_of x w"
    by (simp add: e carry_of_def held_of_def split: option.splits)
qed


subsection \<open>Drawing on the holds\<close>

definition helds :: "string \<Rightarrow> (string \<times> hold) list \<Rightarrow> nat" where
  "helds s hs = sum_list (map (\<lambda>e. amount_of s (hd_entries (snd e))) hs)"

lemma held_of_helds: "held_of s w = helds s (w_holds w)"
  by (simp add: held_of_def helds_def)

lemma helds_simps [simp]:
  "helds s [] = 0" "helds s (e # hs) = amount_of s (hd_entries (snd e)) + helds s hs"
  by (simp_all add: helds_def)

lemma amount_of_filter [simp]: "amount_of s (filter (\<lambda>e. 0 < snd e) es) = amount_of s es"
  by (induction es) auto

lemma draw_entries_spec:
  "draw_entries s es left = (es', left') \<Longrightarrow>
    left' = left - amount_of s es \<and> amount_of x es' = (if x = s then amount_of s es - left else amount_of x es)"
proof (induction s es left arbitrary: es' left' rule: draw_entries.induct)
  case (2 s e es left)
  show ?case
  proof (cases "fst e = s")
    case True
    obtain es1 left1 where r: "draw_entries s es (left - min (snd e) left) = (es1, left1)" by fastforce
    have "es' = (s, snd e - min (snd e) left) # es1" "left' = left1"
      using 2(3) True by (simp_all add: r Let_def)
    with 2(1) [OF True refl r] True show ?thesis by (auto simp: min_def)
  next
    case False
    obtain es1 left1 where r: "draw_entries s es left = (es1, left1)" by fastforce
    have "es' = e # es1" "left' = left1" using 2(3) False by (simp_all add: r)
    with 2(2) [OF False r] False show ?thesis by auto
  qed
qed simp

lemma helds_split:
  assumes "distinct (map fst hs)" "map_of hs b = Some h"
  shows "helds s hs = amount_of s (hd_entries h) + helds s (hold_remove b hs)"
  using assms
proof (induction hs)
  case (Cons e hs)
  show ?case
  proof (cases "fst e = b")
    case True
    then have "hold_remove b hs = hs"
      using Cons.prems(1) unfolding hold_remove_def by (intro filter_True) (auto intro: rev_image_eqI)
    then show ?thesis using True Cons.prems(2) by (simp add: hold_remove_def)
  next
    case False
    then show ?thesis using Cons by (simp add: hold_remove_def)
  qed
qed simp

lemma hold_filter_other:
  assumes "b \<notin> S"
  shows "filter (\<lambda>e. fst e \<in> S) (hold_remove b hs) = filter (\<lambda>e. fst e \<in> S) hs"
    and "filter (\<lambda>e. fst e \<in> S) (hold_insert b h hs) = filter (\<lambda>e. fst e \<in> S) hs"
proof -
  have "filter (\<lambda>e. fst e \<noteq> b \<and> fst e \<in> S) hs = filter (\<lambda>e. fst e \<in> S) hs"
    using assms by (intro filter_cong) auto
  then show "filter (\<lambda>e. fst e \<in> S) (hold_remove b hs) = filter (\<lambda>e. fst e \<in> S) hs"
    and "filter (\<lambda>e. fst e \<in> S) (hold_insert b h hs) = filter (\<lambda>e. fst e \<in> S) hs"
    using assms by (simp_all add: hold_remove_def hold_insert_def conj_commute)
qed

lemma distinct_map_filter_fst: "distinct (map fst hs) \<Longrightarrow> distinct (map fst (filter P hs))"
  by (induction hs) auto

lemma hold_distinct [simp]:
  "distinct (map fst hs) \<Longrightarrow> distinct (map fst (hold_remove b hs))"
  "distinct (map fst hs) \<Longrightarrow> distinct (map fst (hold_insert b h hs))"
  by (auto simp: hold_remove_def hold_insert_def distinct_map_filter_fst)

lemma helds_insert: "helds s (hold_insert b h hs) = amount_of s (hd_entries h) + helds s (hold_remove b hs)"
  by (simp add: hold_insert_def hold_remove_def)

lemma helds_filter_Cons:
  assumes "distinct (map fst hs)" "b \<notin> set bs"
  shows "helds s (filter (\<lambda>e. fst e \<in> set (b # bs)) hs)
    = (case map_of hs b of None \<Rightarrow> 0 | Some h \<Rightarrow> amount_of s (hd_entries h)) + helds s (filter (\<lambda>e. fst e \<in> set bs) hs)"
  using assms
proof (induction hs)
  case (Cons e hs)
  have "map_of hs b = None" if "fst e = b" using Cons.prems(1) that by (auto simp: map_of_eq_None_iff)
  then show ?case using Cons by auto
qed simp

lemma draw_loop_spec:
  assumes "draw_loop s bs hs left = (hs', left')" "distinct bs" "distinct (map fst hs)"
  shows "distinct (map fst hs')"
    and "left' = left - helds s (filter (\<lambda>e. fst e \<in> set bs) hs)"
    and "helds x hs' = (if x = s then helds s hs - (left - left') else helds x hs)"
    and "helds s hs' + (left - left') = helds s hs"
proof -
  have "distinct (map fst hs') \<and> left' = left - helds s (filter (\<lambda>e. fst e \<in> set bs) hs)
    \<and> (x \<noteq> s \<longrightarrow> helds x hs' = helds x hs) \<and> helds s hs' + (left - left') = helds s hs"
    using assms
  proof (induction s bs hs left arbitrary: hs' left' rule: draw_loop.induct)
    case (2 s b bs hs left)
    show ?case
    proof (cases "left = 0 \<or> map_of hs b = None")
      case True
      show ?thesis
      proof (cases "left = 0")
        case l: False
        then have n: "map_of hs b = None" using True by simp
        have "draw_loop s bs hs left = (hs', left')" using 2(3) l n by simp
        from 2(1) [OF l n this] show ?thesis
          using 2(4,5) helds_filter_Cons [OF 2(5), of b bs s] n by auto
      qed (use 2(3,5) in simp)
    next
      case False
      then obtain h where h: "map_of hs b = Some h" and l: "left \<noteq> 0" by auto
      obtain es left1 where e: "draw_entries s (hd_entries h) left = (es, left1)" by fastforce
      define es1 where "es1 = filter (\<lambda>e. snd e > 0) es"
      define hs1 where "hs1 = (if es1 = [] then hold_remove b hs else hold_insert b (h\<lparr>hd_entries := es1\<rparr>) hs)"
      have r: "draw_loop s bs hs1 left1 = (hs', left')"
        using 2(3) l h by (simp add: e Let_def es1_def hs1_def split: if_splits)
      have E: "left1 = left - amount_of s (hd_entries h)"
          "amount_of x es1 = (if x = s then amount_of s (hd_entries h) - left else amount_of x (hd_entries h))" for x
        using draw_entries_spec [OF e] by (simp_all add: es1_def)
      have H1: "helds x hs1 = amount_of x es1 + helds x (hold_remove b hs)" for x
        by (simp add: hs1_def helds_insert)
      have d1: "distinct (map fst hs1)" using 2(5) by (simp add: hs1_def)
      have f1: "filter (\<lambda>e. fst e \<in> set bs) hs1 = filter (\<lambda>e. fst e \<in> set bs) hs"
        using hold_filter_other [of b "set bs"] 2(4) by (simp add: hs1_def)
      have IH: "distinct (map fst hs') \<and> left' = left1 - helds s (filter (\<lambda>e. fst e \<in> set bs) hs1)
          \<and> (x \<noteq> s \<longrightarrow> helds x hs' = helds x hs1) \<and> helds s hs' + (left1 - left') = helds s hs1"
        by (rule 2(2) [OF l h e [symmetric] es1_def hs1_def r _ d1]) (use 2(4) in simp)
      have L: "left' = left - helds s (filter (\<lambda>e. fst e \<in> set (b # bs)) hs)"
        using IH E(1) f1 helds_filter_Cons [OF 2(5), of b bs s] 2(4) h by simp
      have "helds s hs' + (left - left') = helds s hs"
        using conjunct2 [OF conjunct2 [OF conjunct2 [OF IH]]] conjunct1 [OF conjunct2 [OF IH]]
          E(1) E(2) [of s] H1 [of s] helds_split [OF 2(5) h, of s] by simp
      then show ?thesis
        using IH E(2) [of x] H1 [of x] helds_split [OF 2(5) h, of x] L by simp
    qed
  qed simp
  then show "distinct (map fst hs')" "left' = left - helds s (filter (\<lambda>e. fst e \<in> set bs) hs)"
    "helds x hs' = (if x = s then helds s hs - (left - left') else helds x hs)"
    "helds s hs' + (left - left') = helds s hs"
    by auto
qed

lemma draw_from_holds_spec:
  assumes ok: "accounts_ok k w"
  shows "accounts_ok k (snd (draw_from_holds s n w))"
    and "fst (draw_from_holds s n w) = min (held_of s w) n"
    and "held_of x (snd (draw_from_holds s n w)) = (if x = s then held_of s w - n else held_of x w)"
    and "carry_of x (snd (draw_from_holds s n w)) = carry_of x w \<and> debt_of x (snd (draw_from_holds s n w)) = debt_of x w"
proof -
  define bs where "bs = map snd (sort (map (\<lambda>e. (hd_created_ts (snd e), fst e)) (w_holds w)))"
  obtain hs left where r: "draw_loop s bs (w_holds w) n = (hs, left)" by fastforce
  have d: "distinct (map fst (w_holds w))" using ok by (simp add: accounts_ok_def)
  have m: "mset bs = mset (map fst (w_holds w))"
    by (simp add: bs_def image_mset.compositionality comp_def)
  then have db: "distinct bs" and sb: "set bs = set (map fst (w_holds w))"
    using d mset_eq_setD [OF m] by (metis mset_eq_imp_distinct_iff)+
  note sp = draw_loop_spec [OF r db d]
  have f: "filter (\<lambda>e. fst e \<in> set bs) (w_holds w) = w_holds w"
    unfolding sb by (intro filter_True) auto
  have e: "draw_from_holds s n w = (n - left, w\<lparr>w_holds := hs\<rparr>)"
    by (simp add: draw_from_holds_def bs_def [symmetric] r)
  show "accounts_ok k (snd (draw_from_holds s n w))"
    using ok sp(1) by (simp add: e accounts_ok_def)
  show "fst (draw_from_holds s n w) = min (held_of s w) n"
    using sp(2) f by (simp add: e held_of_helds)
  show "held_of x (snd (draw_from_holds s n w)) = (if x = s then held_of s w - n else held_of x w)"
    using sp(2,3) f by (auto simp: e held_of_helds)
  show "carry_of x (snd (draw_from_holds s n w)) = carry_of x w \<and> debt_of x (snd (draw_from_holds s n w)) = debt_of x w"
    by (simp add: e carry_of_def debt_of_def)
qed

subsection \<open>The window provides the accounts interface\<close>

lemma carry_of_max: "accounts_ok k w \<Longrightarrow> carry_of s w \<le> u64_max"
  by (auto intro: lookup_max simp: carry_of_def accounts_ok_def)

lemma debt_of_max: "accounts_ok k w \<Longrightarrow> debt_of s w \<le> u64_max"
  by (auto intro: lookup_max simp: debt_of_def accounts_ok_def)

interpretation acc: accounts accounts_ok carry_of debt_of held_of adjust_carry accrue_debt reduce_debt draw_from_holds
proof (unfold_locales, goal_cases)
  case (1 k w) then show ?case by (rule accounts_ok_Suc)
next
  case (2 k w s) then show ?case by (rule carry_of_max)
next
  case (3 k w s) then show ?case by (rule debt_of_max)
qed (rule adjust_carry_spec accrue_debt_spec reduce_debt_spec draw_from_holds_spec; assumption)+

text \<open>The position of an identity, and that no identity has carry and debt at once, spelled out.\<close>

definition net_position :: "string \<Rightarrow> window \<Rightarrow> int" where
  "net_position s w = int (carry_of s w) + int (held_of s w) - int (debt_of s w)"

definition no_double :: "window \<Rightarrow> bool" where
  "no_double w \<longleftrightarrow> (\<forall>s. carry_of s w = 0 \<or> debt_of s w = 0)"

lemma net_position_acc: "net_position = acc.position"
  by (intro ext) (simp add: net_position_def acc.position_def)

lemma no_double_acc: "no_double = acc.separate"
  by (intro ext) (simp add: no_double_def acc.separate_def)

lemma restore_carry_put_on: "snd (restore_carry s n w) = acc.put_on s n w"
  by (simp add: restore_carry_def acc.put_on_def Let_def split: prod.splits)

lemma forgive_debt_put_on: "forgive_debt s n w = acc.put_on s n w"
  by (auto simp: forgive_debt_def acc.put_on_def Let_def split: prod.splits)

lemma restore_carry_fst:
  assumes ok: "accounts_ok (Suc k) w"
  shows "fst (restore_carry s n w) = carry_of s (snd (restore_carry s n w))"
proof -
  obtain p w1 where r: "reduce_debt s n w = (p, w1)" by (cases "reduce_debt s n w")
  have "accounts_ok (Suc k) w1" using reduce_debt_spec(1) [OF ok, of s n] r by simp
  then show ?thesis
    using adjust_carry_spec(2) [of k w1 s "to_i64 (n - p)"]
      adjust_carry_spec(3) [of k w1 s s "to_i64 (n - p)"] by (simp add: restore_carry_def r Let_def)
qed

section \<open>The share window\<close>

abbreviation row_sum :: "credit_rec list \<Rightarrow> nat" where
  "row_sum cs \<equiv> sum_list (map cr_work cs)"

definition rows_of :: "u32 \<Rightarrow> credit_rec list \<Rightarrow> credit_rec list" where
  "rows_of i cs = filter (\<lambda>c. cr_ident c = i) cs"

text \<open>The running totals are those of the rows.\<close>

definition total_ok :: "credit_rec list \<Rightarrow> (u64 \<times> u64 \<times> u32) option \<Rightarrow> bool" where
  "total_ok cs t = (case t of None \<Rightarrow> cs = []
     | Some (wk, n, _) \<Rightarrow> cs \<noteq> [] \<and> wk = row_sum cs \<and> n = length cs)"

definition shares_ok :: "window \<Rightarrow> bool" where
  "shares_ok w \<longleftrightarrow> (\<forall>i. total_ok (rows_of i (w_credits w)) (w_totals w i))
     \<and> w_total_work w = row_sum (w_credits w) \<and> w_total_work w \<le> u64_max
     \<and> (\<forall>c \<in> set (w_credits w). cr_ident c < length (w_idents w))"

definition seen_ok :: "window \<Rightarrow> bool" where
  "seen_ok w \<longleftrightarrow> (\<forall>i t. w_last_seen w i = Some t \<longrightarrow> i < length (w_idents w))"

definition window_ok :: "nat \<Rightarrow> window \<Rightarrow> bool" where
  "window_ok k w \<longleftrightarrow> accounts_ok k w \<and> shares_ok w \<and> seen_ok w"

text \<open>Reference definition of the sliding window: drop the oldest rows while what follows them still
  reaches the target.\<close>

fun keep_rows :: "nat \<Rightarrow> credit_rec list \<Rightarrow> credit_rec list" where
  "keep_rows t [] = []"
| "keep_rows t (c # cs) = (if row_sum cs < t then c # cs else keep_rows t cs)"

definition keep_window :: "nat \<Rightarrow> credit_rec list \<Rightarrow> credit_rec list" where
  "keep_window t cs = (if t = 0 then cs else keep_rows t cs)"

lemma rows_of_simps [simp]:
  "rows_of i [] = []" "rows_of i (xs @ ys) = rows_of i xs @ rows_of i ys"
  "rows_of i (c # cs) = (if cr_ident c = i then c # rows_of i cs else rows_of i cs)"
  by (simp_all add: rows_of_def)

lemma row_sum_rows_of_le: "row_sum (rows_of i cs) \<le> row_sum cs"
  by (simp add: rows_of_def sum_list_filter_le)

lemma keep_rows_append: "keep_rows t (keep_rows t xs @ ys) = keep_rows t (xs @ ys)"
  by (induction xs) auto

lemma keep_window_append: "keep_window t (keep_window t xs @ ys) = keep_window t (xs @ ys)"
  by (simp add: keep_window_def keep_rows_append)

lemma keep_window_idem [simp]: "keep_window t (keep_window t xs) = keep_window t xs"
  using keep_window_append [of t xs "[]"] by simp

lemma keep_rows_suffix:
  obtains old where "cs = old @ keep_rows t cs"
    "row_sum cs < t \<Longrightarrow> old = []" "0 < t \<Longrightarrow> t \<le> row_sum cs \<Longrightarrow> t \<le> row_sum (keep_rows t cs)"
    "\<And>d ds. keep_rows t cs = d # ds \<Longrightarrow> row_sum ds < t"
proof -
  have "\<exists>old. cs = old @ keep_rows t cs \<and> (row_sum cs < t \<longrightarrow> old = [])
     \<and> (0 < t \<longrightarrow> t \<le> row_sum cs \<longrightarrow> t \<le> row_sum (keep_rows t cs))
     \<and> (\<forall>d ds. keep_rows t cs = d # ds \<longrightarrow> row_sum ds < t)"
  proof (induction cs)
    case (Cons c cs)
    show ?case
    proof (cases "row_sum cs < t")
      case False
      from Cons.IH obtain old where "cs = old @ keep_rows t cs"
        "0 < t \<longrightarrow> t \<le> row_sum cs \<longrightarrow> t \<le> row_sum (keep_rows t cs)"
        "\<forall>d ds. keep_rows t cs = d # ds \<longrightarrow> row_sum ds < t" by blast
      with False show ?thesis by (intro exI [of _ "c # old"]) simp
    qed auto
  qed simp
  then show thesis using that by blast
qed

lemma total_ok_drop:
  assumes "\<forall>i. total_ok (rows_of i (c # cs)) (m i)"
  shows "total_ok (rows_of i cs) (drop_total c m i)"
proof (cases "i = cr_ident c")
  case True
  obtain wk n ts where "m i = Some (wk, n, ts)" "wk = cr_work c + row_sum (rows_of i cs)" "n = Suc (length (rows_of i cs))"
    using spec [OF assms, of i] True by (auto simp: total_ok_def split: option.splits)
  then show ?thesis using True by (auto simp: drop_total_def total_ok_def)
next
  case False
  then have "drop_total c m i = m i" by (auto simp: drop_total_def split: option.splits)
  then show ?thesis using spec [OF assms, of i] False by simp
qed

lemma trim_loop_frame:
  "w_idents (trim_loop w) = w_idents w \<and> w_index (trim_loop w) = w_index w
    \<and> w_target_work (trim_loop w) = w_target_work w
    \<and> w_carry (trim_loop w) = w_carry w \<and> w_debt (trim_loop w) = w_debt w \<and> w_holds (trim_loop w) = w_holds w
    \<and> w_last_seen (trim_loop w) = w_last_seen w \<and> w_rebate_owed (trim_loop w) = w_rebate_owed w
    \<and> w_lifetime_shares (trim_loop w) = w_lifetime_shares w \<and> w_lifetime_work (trim_loop w) = w_lifetime_work w"
proof (induction w rule: trim_loop.induct)
  case (1 w)
  then show ?case
    by (subst (1 2 3 4 5 6 7 8 9 10) trim_loop.simps) (auto split: list.split option.split)
qed

lemma trim_loop_spec:
  assumes "shares_ok w"
  shows "shares_ok (trim_loop w) \<and> w_credits (trim_loop w) = keep_rows (w_target_work w) (w_credits w)"
  using assms
proof (induction w rule: trim_loop.induct)
  case (1 w)
  show ?case
  proof (cases "w_credits w")
    case Nil
    then show ?thesis using 1(2) by (simp add: trim_loop.simps [of w])
  next
    case (Cons c cs)
    have rest: "chk_sub (w_total_work w) (cr_work c) = Some (row_sum cs)"
      using 1(2) by (simp add: shares_ok_def Cons)
    show ?thesis
    proof (cases "row_sum cs < w_target_work w")
      case True
      then show ?thesis using 1(2) rest by (simp add: trim_loop.simps [of w] Cons)
    next
      case False
      let ?w = "w\<lparr>w_credits := cs, w_total_work := row_sum cs, w_totals := drop_total c (w_totals w)\<rparr>"
      have "\<forall>i. total_ok (rows_of i (c # cs)) (w_totals w i)"
        using 1(2) unfolding shares_ok_def Cons by blast
      then have "shares_ok ?w"
        using 1(2) total_ok_drop by (auto simp: shares_ok_def Cons)
      note IH = 1(1) [OF Cons rest False this]
      have step: "trim_loop w = trim_loop ?w"
        by (simp only: trim_loop.simps [of w] Cons list.case rest option.case False if_False)
      from IH show ?thesis unfolding step using False by (simp add: Cons)
    qed
  qed
qed

lemma trim_spec:
  assumes "shares_ok w"
  shows "shares_ok (trim w)" and "w_credits (trim w) = keep_window (w_target_work w) (w_credits w)"
  using trim_loop_spec [OF assms] assms by (simp_all add: trim_def keep_window_def)

lemma trim_frame [simp]:
  "w_idents (trim w) = w_idents w" "w_index (trim w) = w_index w" "w_target_work (trim w) = w_target_work w"
  "w_carry (trim w) = w_carry w" "w_debt (trim w) = w_debt w" "w_holds (trim w) = w_holds w"
  "w_last_seen (trim w) = w_last_seen w" "w_rebate_owed (trim w) = w_rebate_owed w"
  "w_lifetime_shares (trim w) = w_lifetime_shares w" "w_lifetime_work (trim w) = w_lifetime_work w"
  using trim_loop_frame [of w] by (simp_all add: trim_def)

text \<open>One row more, before trimming: what \<^verbatim>\<open>credit_row\<close> and \<^verbatim>\<open>push_raw\<close> have in common.\<close>

lemma total_ok_entry:
  assumes "shares_ok w" "total_entry w i = (t0, t1, t2)"
  shows "t0 = row_sum (rows_of i (w_credits w))" "t1 = length (rows_of i (w_credits w))"
proof -
  have "total_ok (rows_of i (w_credits w)) (w_totals w i)" using assms(1) by (simp add: shares_ok_def)
  then show "t0 = row_sum (rows_of i (w_credits w))" "t1 = length (rows_of i (w_credits w))"
    using assms(2) by (auto simp: total_ok_def total_entry_def split: option.splits)
qed

lemma shares_ok_add_row:
  assumes ok: "shares_ok w" and c: "cr_ident c < length (w_idents w)" and t: "total_entry w (cr_ident c) = (t0, t1, t2)"
    and sum: "w_total_work w + cr_work c \<le> u64_max"
  shows "shares_ok (w\<lparr>w_total_work := sat_add64 (w_total_work w) (cr_work c),
     w_totals := (w_totals w)(cr_ident c \<mapsto> (sat_add64 t0 (cr_work c), t1 + 1, ts)),
     w_credits := w_credits w @ [c]\<rparr>)"
proof -
  note e = total_ok_entry [OF ok t]
  have "t0 + cr_work c \<le> u64_max"
    using e(1) row_sum_rows_of_le [of "cr_ident c" "w_credits w"] ok sum by (simp add: shares_ok_def)
  moreover have "total_ok (rows_of i (w_credits w)) (w_totals w i)" for i
    using ok by (simp add: shares_ok_def)
  ultimately have "total_ok (rows_of i (w_credits w @ [c]))
      (((w_totals w)(cr_ident c \<mapsto> (sat_add64 t0 (cr_work c), t1 + 1, ts))) i)" for i
    using e by (cases "i = cr_ident c") (simp_all add: total_ok_def)
  then show ?thesis
    using ok c sum by (auto simp: shares_ok_def)
qed

lemma note_seen_simps [simp]:
  "w_idents (note_seen i ts w) = w_idents w" "w_index (note_seen i ts w) = w_index w"
  "w_credits (note_seen i ts w) = w_credits w" "w_totals (note_seen i ts w) = w_totals w"
  "w_total_work (note_seen i ts w) = w_total_work w" "w_target_work (note_seen i ts w) = w_target_work w"
  "w_carry (note_seen i ts w) = w_carry w" "w_debt (note_seen i ts w) = w_debt w"
  "w_holds (note_seen i ts w) = w_holds w" "w_rebate_owed (note_seen i ts w) = w_rebate_owed w"
  "w_lifetime_shares (note_seen i ts w) = w_lifetime_shares w"
  "w_lifetime_work (note_seen i ts w) = w_lifetime_work w"
  by (simp_all add: note_seen_def)

lemma shares_ok_cong:
  "w_credits w' = w_credits w \<Longrightarrow> w_totals w' = w_totals w \<Longrightarrow> w_total_work w' = w_total_work w
    \<Longrightarrow> length (w_idents w) \<le> length (w_idents w') \<Longrightarrow> shares_ok w \<Longrightarrow> shares_ok w'"
  by (fastforce simp: shares_ok_def)

lemma accounts_ok_cong:
  "w_idents w' = w_idents w \<Longrightarrow> w_index w' = w_index w \<Longrightarrow> w_carry w' = w_carry w \<Longrightarrow> w_debt w' = w_debt w
    \<Longrightarrow> w_holds w' = w_holds w \<Longrightarrow> accounts_ok k w' = accounts_ok k w"
  by (simp add: accounts_ok_def ident_ok_def)

lemma window_ok_intern:
  assumes ok: "window_ok (Suc k) w" and i: "intern s w = (i, w')"
  shows "window_ok k w'"
proof -
  have a: "accounts_ok (Suc k) w" using ok by (simp add: window_ok_def)
  have len: "length (w_idents w) \<le> length (w_idents w')"
    using intern_spec(4) [OF _ _ i] accounts_ok_idents [OF a] by simp
  have "seen_ok w'"
    using ok len intern_frame(8) [OF i] by (force simp: window_ok_def seen_ok_def)
  then show ?thesis
    using accounts_ok_intern(1) [OF a i] ok len
    by (auto simp: window_ok_def intern_frame [OF i] intro: shares_ok_cong [of w' w])
qed

lemma seen_ok_note: "seen_ok w \<Longrightarrow> i < length (w_idents w) \<Longrightarrow> seen_ok (note_seen i ts w)"
  by (auto simp: seen_ok_def note_seen_def)

lemma credit_row_spec:
  assumes ok: "window_ok (Suc k) w" and work: "w_total_work w + work \<le> u64_max"
    and cnt: "length (w_credits w) < u64_max" "w_lifetime_shares w < u64_max"
  obtains c w' where "credit_row s work height ts source w = Some (c, w')" "window_ok k w'"
    and "w_index w' s = Some (cr_ident c)" "cr_work c = work" "cr_height c = height" "cr_ts c = ts" "cr_source c = source"
    and "w_credits w' = keep_window (w_target_work w) (w_credits w @ [c])"
    and "w_idents w' = w_idents w @ (if w_index w s = None then [s] else [])"
    and "w_target_work w' = w_target_work w" "w_carry w' = w_carry w" "w_debt w' = w_debt w" "w_holds w' = w_holds w"
    and "w_rebate_owed w' = w_rebate_owed w" "w_lifetime_shares w' = Suc (w_lifetime_shares w)"
proof -
  obtain i w1 where i: "intern s w = (i, w1)" by (cases "intern s w")
  have a: "accounts_ok (Suc k) w" using ok by (simp add: window_ok_def)
  note sp = intern_spec [OF conjunct1 [OF accounts_ok_idents [OF a]] conjunct2 [OF accounts_ok_idents [OF a]] i]
  note fr = intern_frame [OF i]
  have ok1: "window_ok k w1" by (rule window_ok_intern [OF ok i])
  define c where "c = \<lparr>cr_ts = ts, cr_ident = i, cr_work = work, cr_height = height, cr_source = source\<rparr>"
  define w2 where "w2 = note_seen i ts (w1\<lparr>w_lifetime_shares := w_lifetime_shares w1 + 1,
       w_lifetime_work := sat_add64 (w_lifetime_work w1) work\<rparr>)"
  have s2: "shares_ok w2"
    using ok1 by (intro shares_ok_cong [of w2 w1]) (simp_all add: w2_def window_ok_def)
  obtain t0 t1 t2 where t: "total_entry w2 i = (t0, t1, t2)" by (cases "total_entry w2 i")
  define w3 where "w3 = w2\<lparr>w_total_work := sat_add64 (w_total_work w2) work,
     w_totals := (w_totals w2)(i \<mapsto> (sat_add64 t0 work, t1 + 1, ts)), w_credits := w_credits w2 @ [c]\<rparr>"
  have s3: "shares_ok w3"
    using shares_ok_add_row [OF s2, of c t0 t1 t2 ts] t sp(3) work by (simp add: c_def w3_def w2_def fr)
  have "t1 < u64_max"
    using total_ok_entry(2) [OF s2 t] le_less_trans [OF length_filter_le cnt(1), of "\<lambda>c. cr_ident c = i"]
    by (simp add: w2_def fr rows_of_def)
  then have e: "credit_row s work height ts source w = Some (c, trim w3)"
    using t cnt(2) unfolding credit_row_def i
    by (simp add: total_entry_def w2_def w3_def fr note_seen_def c_def Let_def)
      (intro arg_cong [where f = trim] window.equality; simp)
  have "accounts_ok k (trim w3)"
    using ok1 by (subst accounts_ok_cong [of _ w1]) (simp_all add: w3_def w2_def window_ok_def)
  moreover have "seen_ok (trim w3)"
    using seen_ok_note [of w1 i ts] sp(3) ok1
    by (auto simp: seen_ok_def w3_def w2_def window_ok_def note_seen_def)
  ultimately have ok3: "window_ok k (trim w3)" using trim_spec(1) [OF s3] by (simp add: window_ok_def)
  have cr: "w_credits (trim w3) = keep_window (w_target_work w) (w_credits w @ [c])"
    using trim_spec(2) [OF s3] by (simp add: w3_def w2_def fr)
  show thesis
    by (rule that [OF e ok3 _ _ _ _ _ cr]) (simp_all add: c_def w3_def w2_def fr sp(2) sp(4))
qed


lemma set_target_spec:
  assumes ok: "window_ok k w"
  shows "window_ok k (set_target t w)" and "w_credits (set_target t w) = keep_window t (w_credits w)"
    and "w_target_work (set_target t w) = t"
proof -
  have s: "shares_ok (w\<lparr>w_target_work := t\<rparr>)"
    using ok by (intro shares_ok_cong [of "w\<lparr>w_target_work := t\<rparr>" w]) (simp_all add: window_ok_def)
  have "accounts_ok k (set_target t w)"
    using ok by (subst accounts_ok_cong [of _ w]) (simp_all add: window_ok_def set_target_def)
  moreover have "seen_ok (set_target t w)"
    using ok by (simp add: window_ok_def set_target_def seen_ok_def)
  ultimately show "window_ok k (set_target t w)" using trim_spec(1) [OF s] by (simp add: window_ok_def set_target_def)
  show "w_credits (set_target t w) = keep_window t (w_credits w)"
    using trim_spec(2) [OF s] by (simp add: set_target_def)
  show "w_target_work (set_target t w) = t" by (simp add: set_target_def)
qed

lemma push_raw_spec:
  assumes ok: "window_ok k w" and c: "cr_ident c < length (w_idents w)"
    and work: "w_total_work w + cr_work c \<le> u64_max" and cnt: "length (w_credits w) < u64_max"
  obtains w' where "push_raw c w = Some w'" "window_ok k w'" "w_credits w' = w_credits w @ [c]"
    and "w_idents w' = w_idents w" "w_index w' = w_index w" "w_target_work w' = w_target_work w"
    and "w_carry w' = w_carry w" "w_debt w' = w_debt w" "w_holds w' = w_holds w" "w_rebate_owed w' = w_rebate_owed w"
    and "w_lifetime_shares w' = w_lifetime_shares w" "w_lifetime_work w' = w_lifetime_work w"
    and "w_last_seen w' = w_last_seen (note_seen (cr_ident c) (cr_ts c) w)"
proof -
  define w1 where "w1 = note_seen (cr_ident c) (cr_ts c) w"
  have s1: "shares_ok w1"
    using ok by (intro shares_ok_cong [of w1 w]) (simp_all add: w1_def window_ok_def)
  obtain t0 t1 t2 where t: "total_entry w1 (cr_ident c) = (t0, t1, t2)" by (cases "total_entry w1 (cr_ident c)")
  define w2 where "w2 = w1\<lparr>w_total_work := sat_add64 (w_total_work w1) (cr_work c),
     w_totals := (w_totals w1)(cr_ident c \<mapsto> (sat_add64 t0 (cr_work c), t1 + 1, max t2 (cr_ts c))),
     w_credits := w_credits w1 @ [c]\<rparr>"
  have s2: "shares_ok w2"
    using shares_ok_add_row [OF s1 _ t, of "max t2 (cr_ts c)"] c work by (simp add: w2_def w1_def)
  have "t1 < u64_max"
    using total_ok_entry(2) [OF s1 t] le_less_trans [OF length_filter_le cnt, of "\<lambda>r. cr_ident r = cr_ident c"]
    by (simp add: w1_def rows_of_def)
  then have e: "push_raw c w = Some w2"
    using t by (simp add: push_raw_def w1_def w2_def Let_def)
  have "accounts_ok k w2"
    using ok by (subst accounts_ok_cong [of _ w]) (simp_all add: window_ok_def w2_def w1_def)
  moreover have "seen_ok w2"
    using ok seen_ok_note [of w "cr_ident c" "cr_ts c"] c by (simp add: window_ok_def w2_def w1_def seen_ok_def)
  ultimately have "window_ok k w2" using s2 by (simp add: window_ok_def)
  from that [OF e this] show thesis by (simp add: w2_def w1_def)
qed

text \<open>Replaying a list of rows.\<close>

fun push_rows :: "credit_rec list \<Rightarrow> window \<Rightarrow> window option" where
  "push_rows [] w = Some w"
| "push_rows (c # cs) w = do { w' \<leftarrow> push_raw c w; push_rows cs w' }"

lemma push_rows_spec:
  assumes "window_ok k w" "\<forall>c \<in> set cs. cr_ident c < length (w_idents w)"
    and "w_total_work w + row_sum cs \<le> u64_max" "length (w_credits w) + length cs \<le> u64_max"
  obtains w' where "push_rows cs w = Some w'" "window_ok k w'" "w_credits w' = w_credits w @ cs"
    and "w_idents w' = w_idents w" "w_index w' = w_index w" "w_target_work w' = w_target_work w"
    and "w_carry w' = w_carry w" "w_debt w' = w_debt w" "w_holds w' = w_holds w" "w_rebate_owed w' = w_rebate_owed w"
    and "w_lifetime_shares w' = w_lifetime_shares w" "w_lifetime_work w' = w_lifetime_work w"
  using assms
proof (induction cs arbitrary: w thesis)
  case (Cons c cs)
  have "w_total_work w + cr_work c \<le> u64_max" "length (w_credits w) < u64_max" "cr_ident c < length (w_idents w)"
    using Cons.prems(3-5) by auto
  then obtain w1 where p: "push_raw c w = Some w1" "window_ok k w1" "w_credits w1 = w_credits w @ [c]"
    "w_idents w1 = w_idents w" "w_index w1 = w_index w" "w_target_work w1 = w_target_work w"
    "w_carry w1 = w_carry w" "w_debt w1 = w_debt w" "w_holds w1 = w_holds w" "w_rebate_owed w1 = w_rebate_owed w"
    "w_lifetime_shares w1 = w_lifetime_shares w" "w_lifetime_work w1 = w_lifetime_work w"
    using push_raw_spec [OF Cons.prems(2)] by metis
  have "w_total_work w1 + row_sum cs \<le> u64_max" "length (w_credits w1) + length cs \<le> u64_max"
      "\<forall>c \<in> set cs. cr_ident c < length (w_idents w1)"
    using Cons.prems(2-5) p(2,3,4) by (auto simp: window_ok_def shares_ok_def)
  from Cons.IH [OF _ p(2) this(3,1,2)] show ?case
    using Cons.prems(1) p by (metis append.assoc append_Cons append_Nil bind.bind_lunit push_rows.simps(2))
qed (auto intro: that)

subsection \<open>Splitting the window\<close>

lemma keys_of_set [simp]: "set (keys_of w m) = {i. i < length (w_idents w) \<and> m i \<noteq> None}"
  by (auto simp: keys_of_def)

lemma keys_of_distinct [simp]: "distinct (keys_of w m)"
  by (simp add: keys_of_def)

lemma rows_of_sums:
  assumes "\<forall>c \<in> set cs. cr_ident c < n"
  shows "sum_list (map (\<lambda>i. row_sum (rows_of i cs)) [0..<n]) = row_sum cs"
  using assms
proof (induction cs)
  case (Cons c cs)
  have "sum_list (map (\<lambda>i. row_sum (rows_of i (c # cs))) [0..<n])
      = sum_list (map (\<lambda>i. (if i = cr_ident c then cr_work c else 0) + row_sum (rows_of i cs)) [0..<n])"
    by (intro arg_cong [where f = sum_list] map_cong) auto
  also have "\<dots> = sum_list (map (\<lambda>i. if i = cr_ident c then cr_work c else 0) [0..<n])
      + sum_list (map (\<lambda>i. row_sum (rows_of i cs)) [0..<n])"
    by (simp add: sum_list_addf)
  also have "sum_list (map (\<lambda>i. if i = cr_ident c then cr_work c else 0) [0..<n]) = cr_work c"
    using Cons.prems by (simp add: interv_sum_list_conv_sum_set_nat sum.delta)
  finally show ?case using Cons by simp
qed simp

lemma stratum_map_total:
  assumes "row_sum cs + (\<Sum>i \<leftarrow> [0..<n]. case m i of None \<Rightarrow> 0 | Some x \<Rightarrow> fst x) \<le> u64_max"
    and "\<forall>c \<in> set cs. cr_ident c < n" and "\<And>i x. m i = Some x \<Longrightarrow> snd x \<le> fst x"
  shows "\<exists>m'. stratum_map cs m = Some m'"
  using assms
proof (induction cs arbitrary: m)
  case (Cons c cs)
  let ?f = "\<lambda>m i. case m i of None \<Rightarrow> 0 | Some (x :: nat \<times> nat) \<Rightarrow> fst x"
  obtain s0 s1 where s: "(case m (cr_ident c) of None \<Rightarrow> (0, 0) | Some x \<Rightarrow> x) = (s0, s1)" by fastforce
  have le: "s1 \<le> s0" using s Cons.prems(3) by (cases "m (cr_ident c)") auto
  have in_n: "cr_ident c \<in> set [0..<n]" using Cons.prems(2) by simp
  have "s0 \<le> (\<Sum>i \<leftarrow> [0..<n]. ?f m i)"
    using member_le_sum_list_map [OF in_n, of "?f m"] s by (cases "m (cr_ident c)") auto
  then have b: "s0 + cr_work c \<le> u64_max" using Cons.prems(1) by simp
  define m1 where "m1 = (\<lambda>s1'. m(cr_ident c \<mapsto> (s0 + cr_work c, s1')))"
  have eq: "?f (m1 s1') i = ?f m i + (if i = cr_ident c then cr_work c else 0)" for i s1'
    using s by (cases "m (cr_ident c)") (auto simp: m1_def)
  have "(\<Sum>i \<leftarrow> [0..<n]. ?f (m1 s1') i) = (\<Sum>i \<leftarrow> [0..<n]. ?f m i) + cr_work c" for s1'
    unfolding eq sum_list_addf using Cons.prems(2)
    by (simp add: interv_sum_list_conv_sum_set_nat sum.delta)
  then have IH: "\<exists>m'. stratum_map cs (m1 s1') = Some m'" if "s1' \<le> s0 + cr_work c" for s1'
    using Cons.prems that by (intro Cons.IH) (auto simp: m1_def split: if_splits)
  have "\<exists>m'. stratum_map cs m = Some m'"
    using Cons.prems by (intro Cons.IH) auto
  then show ?case
    using IH [of s1] IH [of "s1 + cr_work c"] s b le by (auto simp: m1_def)
qed simp

lemma total_ok_work: "total_ok cs t \<Longrightarrow> (case t of None \<Rightarrow> 0 | Some (wk, _, _) \<Rightarrow> wk) = row_sum cs"
  by (auto simp: total_ok_def split: option.splits)

lemma miners_spec:
  assumes ok: "window_ok k w"
  obtains ms where "miners w = Some ms" "sum_list (map ms_work ms) = w_total_work w"
    "distinct (map ms_identity ms)"
    "\<And>s. s \<in> set (map ms_identity ms) \<longleftrightarrow> (\<exists>i. w_index w s = Some i \<and> (w_totals w i \<noteq> None \<or> w_carry w i \<noteq> None))"
proof -
  have S: "\<And>i. total_ok (rows_of i (w_credits w)) (w_totals w i)" "w_total_work w = row_sum (w_credits w)"
      "w_total_work w \<le> u64_max" "\<forall>c \<in> set (w_credits w). cr_ident c < length (w_idents w)"
    using ok by (auto simp: window_ok_def shares_ok_def)
  have B: "bal_ok (length (w_idents w)) (w_carry w)" and I: "ident_ok w"
    using ok by (auto simp: window_ok_def accounts_ok_def)
  obtain st where st: "stratum_map (w_credits w) Map.empty = Some st"
    using stratum_map_total [of "w_credits w" Map.empty "length (w_idents w)"] S by auto
  define active where "active = keys_of w (w_totals w)"
  define idle where "idle = filter (\<lambda>i. the (w_carry w i) > 0 \<and> w_totals w i = None) (keys_of w (w_carry w))"
  define ms0 where "ms0 = map (miner_of w st) active @ map (idle_miner_of w) idle"
  define ms where "ms = sort_key (\<lambda>m. (- int (ms_work m), - int (ms_carry m), ms_identity m)) ms0"
  have m: "miners w = Some ms"
    by (simp add: miners_def st ms_def ms0_def active_def idle_def)
  have mset: "mset ms = mset ms0" by (simp add: ms_def)
  have ids: "map ms_identity ms0 = map (\<lambda>i. w_idents w ! i) (active @ idle)"
    by (simp add: ms0_def miner_of_def idle_miner_of_def split: prod.split)
  have keys: "set (active @ idle) = {i. i < length (w_idents w) \<and> (w_totals w i \<noteq> None \<or> w_carry w i \<noteq> None)}"
    using B by (auto simp: active_def idle_def bal_ok_def) (metis option.exhaust prod_cases3)
  have "distinct (active @ idle)" by (auto simp: active_def idle_def)
  then have d0: "distinct (map ms_identity ms0)"
    unfolding ids distinct_map using keys ident_ok_distinct [OF I]
    by (auto simp: inj_on_def nth_eq_iff_index_eq)
  have d: "distinct (map ms_identity ms)"
    using d0 mset by (metis mset_eq_imp_distinct_iff mset_map)
  have wk: "ms_work (miner_of w st i) = row_sum (rows_of i (w_credits w))" for i
    using total_ok_work [OF S(1), of i] by (auto simp: miner_of_def total_entry_def split: option.splits prod.splits)
  have none: "row_sum (rows_of i (w_credits w)) = 0" if "\<not> w_totals w i \<noteq> None" for i
    using S(1) [of i] that by (cases "w_totals w i") (auto simp: total_ok_def)
  have "sum_list (map ms_work ms) = sum_list (map ms_work ms0)"
    using mset by (metis mset_map sum_mset_sum_list)
  also have "\<dots> = sum_list (map (\<lambda>i. row_sum (rows_of i (w_credits w))) active)"
    by (simp add: ms0_def idle_miner_of_def comp_def wk)
  also have "\<dots> = sum_list (map (\<lambda>i. row_sum (rows_of i (w_credits w))) [0..<length (w_idents w)])"
    unfolding active_def keys_of_def by (intro sum_list_map_filter) (use none in blast)
  also have "\<dots> = w_total_work w" using rows_of_sums [OF S(4)] S(2) by simp
  finally have sum: "sum_list (map ms_work ms) = w_total_work w" .
  have "set (map ms_identity ms) = set (map ms_identity ms0)" using mset by (metis set_mset_mset mset_map)
  also have "\<dots> = (\<lambda>i. w_idents w ! i) ` set (active @ idle)" by (simp only: ids set_map)
  finally have mem: "s \<in> set (map ms_identity ms)
      \<longleftrightarrow> (\<exists>i. w_index w s = Some i \<and> (w_totals w i \<noteq> None \<or> w_carry w i \<noteq> None))" for s
    unfolding keys using I unfolding ident_ok_def by auto
  show thesis by (rule that [OF m sum d mem])
qed


lemma work_of_rows:
  assumes ok: "window_ok k w" and i: "w_index w s = Some i"
  shows "work_of s w = row_sum (rows_of i (w_credits w))"
proof -
  have "total_ok (rows_of i (w_credits w)) (w_totals w i)" using ok by (simp add: window_ok_def shares_ok_def)
  then show ?thesis by (auto simp: work_of_def i total_ok_def split: option.splits)
qed

lemma new_window_ok: "window_ok 4294967296 new_window"
  by (simp add: window_ok_def accounts_ok_def ident_ok_def bal_ok_def shares_ok_def seen_ok_def total_ok_def new_window_def)

lemma window_ok_Suc: "window_ok (Suc k) w \<Longrightarrow> window_ok k w"
  by (simp add: window_ok_def accounts_ok_Suc)

lemma window_ok_mono: "window_ok k w \<Longrightarrow> j \<le> k \<Longrightarrow> window_ok j w"
  by (simp add: window_ok_def accounts_ok_def)

section \<open>Properties\<close>

text \<open>
  C9. Crediting work is faithful. Short of 64-bit exhaustion, \<^verbatim>\<open>credit_row\<close> does not panic, keeps the
  window's invariant (identity table a bijection, running totals equal to those of the rows, balances
  within range), and leaves exactly the rows the reference window keeps of the old rows and the new
  one; carry, debt, holds and the owed rebate do not move.
\<close>

theorem credit_row_correct:
  assumes "window_ok (Suc k) w" "w_total_work w + work \<le> u64_max"
    and "length (w_credits w) < u64_max" "w_lifetime_shares w < u64_max"
  shows "\<exists>c w'. credit_row s work height ts source w = Some (c, w') \<and> window_ok k w'
    \<and> w_index w' s = Some (cr_ident c) \<and> cr_work c = work \<and> cr_height c = height \<and> cr_ts c = ts
    \<and> w_credits w' = keep_window (w_target_work w) (w_credits w @ [c])
    \<and> w_carry w' = w_carry w \<and> w_debt w' = w_debt w \<and> w_holds w' = w_holds w \<and> w_rebate_owed w' = w_rebate_owed w"
  using credit_row_spec [OF assms, of s height ts source] by metis

text \<open>
  C22. The sliding window is the shortest one that reaches its target. With a target set, trimming
  drops rows from the old end only; a window short of the target loses nothing, any other still
  reaches the target, and would not without its oldest row.
\<close>

theorem trim_shortest_window:
  assumes ok: "window_ok k w" and t: "w_target_work w > 0"
  shows "\<exists>old. w_credits w = old @ w_credits (trim w)
    \<and> (row_sum (w_credits w) < w_target_work w \<longrightarrow> old = [])
    \<and> (w_target_work w \<le> row_sum (w_credits w) \<longrightarrow> w_target_work w \<le> row_sum (w_credits (trim w)))
    \<and> (\<forall>c cs. w_credits (trim w) = c # cs \<longrightarrow> row_sum cs < w_target_work w)
    \<and> w_total_work (trim w) = row_sum (w_credits (trim w))"
proof -
  have s: "shares_ok w" using ok by (simp add: window_ok_def)
  have e: "w_credits (trim w) = keep_rows (w_target_work w) (w_credits w)"
    using trim_spec(2) [OF s] t by (simp add: keep_window_def)
  obtain old where "w_credits w = old @ w_credits (trim w)"
    "row_sum (w_credits w) < w_target_work w \<Longrightarrow> old = []"
    "w_target_work w \<le> row_sum (w_credits w) \<Longrightarrow> w_target_work w \<le> row_sum (w_credits (trim w))"
    "\<And>c cs. w_credits (trim w) = c # cs \<Longrightarrow> row_sum cs < w_target_work w"
    using keep_rows_suffix [of "w_credits w" "w_target_work w"] t unfolding e by metis
  moreover have "w_total_work (trim w) = row_sum (w_credits (trim w))"
    using trim_spec(1) [OF s] by (simp add: shares_ok_def)
  ultimately show ?thesis by blast
qed

text \<open>
  The split of a well-formed window never panics and pays exactly the block: the payees and the
  pool add up to the value, and no identity appears twice among the paid and the unpaid.
\<close>

theorem window_split_pays_value:
  assumes ok: "window_ok k w" and p: "params_ok p"
    and v: "value \<le> u64_max" "value * (w_total_work w * 10000) \<le> u128_max"
  shows "\<exists>s. window_split value p now script_for w = Some s
    \<and> sum_list (map py_sats (sl_payees s)) + sl_pool_sats s = value
    \<and> distinct (map py_identity (sl_payees s) @ map un_identity (sl_unpaid s))"
proof -
  obtain ms where ms: "miners w = Some ms" "sum_list (map ms_work ms) = w_total_work w" "distinct (map ms_identity ms)"
    using miners_spec [OF ok] by metis
  have tw: "work_sum ms \<le> w_total_work w" "w_total_work w \<le> u64_max"
    using ms(2) ok by (simp_all add: window_ok_def shares_ok_def)
  obtain s where s: "compute ms (w_total_work w) value p (w_rebate_owed w) now script_for = Some s"
    using compute_total [OF p tw v] by blast
  have "distinct (map py_identity (sl_payees s) @ map un_identity (sl_unpaid s))"
    using compute_identities [OF s] ms(3)
    by (metis distinct_map_filter mset_append mset_eq_imp_distinct_iff)
  then show ?thesis
    using s ms(1) compute_pays(1) [OF s p tw(1) v(1)] by (auto simp: window_split_def)
qed


section \<open>A worked window\<close>

text \<open>Two addresses, three rows and a target the last two already reach; the first address has carry.\<close>

definition ex_row :: "u32 \<Rightarrow> u32 \<Rightarrow> u64 \<Rightarrow> credit_rec" where
  "ex_row ts i work = \<lparr>cr_ts = ts, cr_ident = i, cr_work = work, cr_height = 800000, cr_source = SOURCE_DATUM\<rparr>"

definition ex_window :: window where
  "ex_window = \<lparr>w_idents = [''a'', ''b''], w_index = [''a'' \<mapsto> 0, ''b'' \<mapsto> 1],
     w_credits = [ex_row 10 0 3, ex_row 11 1 4, ex_row 12 0 5],
     w_totals = [0 \<mapsto> (8, 2, 12), 1 \<mapsto> (4, 1, 11)], w_total_work = 12, w_target_work = 6,
     w_carry = [0 \<mapsto> 700], w_rebate_owed = 0, w_last_seen = [0 \<mapsto> 12, 1 \<mapsto> 11], w_holds = [],
     w_debt = Map.empty, w_lifetime_shares = 3, w_lifetime_work = 12\<rparr>"

lemma ex_window_ok: "window_ok 9 ex_window"
proof -
  have "ident_ok ex_window" by (auto simp: ident_ok_def ex_window_def nth_Cons split: nat.splits if_splits)
  then have "accounts_ok 9 ex_window" by (simp add: accounts_ok_def bal_ok_def ex_window_def)
  moreover have "shares_ok ex_window" "seen_ok ex_window"
    by (auto simp: shares_ok_def total_ok_def seen_ok_def ex_window_def ex_row_def)
  ultimately show ?thesis by (simp add: window_ok_def)
qed

theorem credit_row_correct_witness:
  "\<exists>c w'. credit_row ''c'' 7 800001 20 SOURCE_STRATUM ex_window = Some (c, w') \<and> window_ok 8 w' \<and> cr_work c = 7"
proof -
  have "window_ok (Suc 8) ex_window" using ex_window_ok by simp
  from credit_row_correct [OF this, of 7] show ?thesis by (fastforce simp: ex_window_def)
qed

theorem trim_shortest_window_witness:
  "w_target_work ex_window > 0 \<and> (\<exists>old. w_credits ex_window = old @ w_credits (trim ex_window))"
proof -
  have "w_target_work ex_window > 0" by (simp add: ex_window_def)
  then show ?thesis using trim_shortest_window [OF ex_window_ok] by blast
qed

theorem window_split_pays_value_witness:
  "params_ok ex_params \<and> (\<exists>s. window_split 100000 ex_params 200 ex_script ex_window = Some s
    \<and> sum_list (map py_sats (sl_payees s)) + sl_pool_sats s = 100000)"
proof -
  have "100000 * (w_total_work ex_window * 10000) \<le> u128_max" by (simp add: ex_window_def)
  then show ?thesis
    using window_split_pays_value [OF ex_window_ok ex_params_ok(1), of 100000 200 ex_script] ex_params_ok(1) by auto
qed

end
