(* ===== verification/Tides_Grace.thy ===== *)
theory Tides_Grace
  imports Prelude "HOL-Library.AList"
begin

text \<open>
  Grace for house-stratum work, \<^verbatim>\<open>prime/tides/src/grace.rs\<close>. The two \<^verbatim>\<open>BTreeMap\<close>s of the book are
  association lists, read by \<^const>\<open>map_of\<close> and written by \<^const>\<open>AList.update\<close>; \<^verbatim>\<open>retain\<close> is
  \<^const>\<open>filter\<close>. Times are 32-bit seconds and every addition saturates, as in the source.
\<close>

section \<open>The grace book\<close>

definition DATUM_LOOKBACK :: u32 where "DATUM_LOOKBACK = 30 * 86400"

definition COARSE :: u32 where "COARSE = 60"

record grace_params =
  gp_secs :: u32
  gp_datum_secs :: u32
  gp_rearm_secs :: u32
  gp_epoch :: u32

definition enabled :: "grace_params \<Rightarrow> bool" where
  "enabled p \<longleftrightarrow> gp_secs p > 0 \<or> gp_datum_secs p > 0"

datatype seen = Stratum | StratumGrace | Datum | Other

record episode =
  ep_start :: u32
  ep_last :: u32
  ep_datum :: bool

record grace_book =
  gb_stratum :: "(string \<times> episode) list"
  gb_datum_seen :: "(string \<times> u32) list"
  gb_dirty :: bool

definition new_grace_book :: grace_book where
  "new_grace_book = \<lparr>gb_stratum = [], gb_datum_seen = [], gb_dirty = False\<rparr>"

definition note_datum :: "string \<Rightarrow> u32 \<Rightarrow> grace_book \<Rightarrow> grace_book" where
  "note_datum s ts b = (case map_of (gb_datum_seen b) s of
     Some seen \<Rightarrow> if ts \<ge> sat_add32 seen COARSE
       then b\<lparr>gb_datum_seen := AList.update s ts (gb_datum_seen b), gb_dirty := True\<rparr> else b
   | None \<Rightarrow> b\<lparr>gb_datum_seen := AList.update s ts (gb_datum_seen b), gb_dirty := True\<rparr>)"

definition on_datum :: "string \<Rightarrow> u32 \<Rightarrow> grace_book \<Rightarrow> bool" where
  "on_datum s start b = (case map_of (gb_datum_seen b) s of None \<Rightarrow> False
     | Some seen \<Rightarrow> seen \<le> start \<and> sat_add32 seen DATUM_LOOKBACK \<ge> start)"

definition grace_len :: "episode \<Rightarrow> grace_params \<Rightarrow> u32" where
  "grace_len e p = (if ep_datum e then max (gp_datum_secs p) (gp_secs p) else gp_secs p)"

definition until :: "string \<Rightarrow> grace_params \<Rightarrow> grace_book \<Rightarrow> u32 option" where
  "until s p b = (case map_of (gb_stratum b) s of None \<Rightarrow> None
     | Some e \<Rightarrow> Some (sat_add32 (ep_start e) (grace_len e p)))"

definition put_episode :: "string \<Rightarrow> episode \<Rightarrow> grace_book \<Rightarrow> grace_book" where
  "put_episode s e b = b\<lparr>gb_stratum := AList.update s e (gb_stratum b), gb_dirty := True\<rparr>"

definition note_stratum :: "string \<Rightarrow> u32 \<Rightarrow> grace_params \<Rightarrow> grace_book \<Rightarrow> bool \<times> grace_book" where
  "note_stratum s ts p b =
     (let datum = on_datum s ts b;
          fresh = \<lparr>ep_start = ts, ep_last = ts, ep_datum = datum\<rparr>;
          b' = (case map_of (gb_stratum b) s of
             Some e \<Rightarrow>
               if gp_rearm_secs p > 0 \<and> ts \<ge> sat_add32 (ep_last e) (gp_rearm_secs p) then put_episode s fresh b
               else if ts \<ge> sat_add32 (ep_last e) COARSE then put_episode s (e\<lparr>ep_last := ts\<rparr>) b
               else b
           | None \<Rightarrow> put_episode s fresh b)
      in (case until s p b' of None \<Rightarrow> False | Some u \<Rightarrow> ts < u, b'))"

text \<open>\<^verbatim>\<open>seed\<close>: the loop over the rows, then the loop over the episodes. \<open>full\<close> is the set of
  addresses with a full-fee stratum row.\<close>

definition seed_row :: "u32 \<times> string \<times> seen \<Rightarrow> grace_book \<times> string set \<Rightarrow> grace_book \<times> string set" where
  "seed_row r st = (case r of (ts, s, class) \<Rightarrow> case st of (b, full) \<Rightarrow>
     if class = Stratum \<or> class = StratumGrace then
       (let e = (case map_of (gb_stratum b) s of None \<Rightarrow> \<lparr>ep_start = ts, ep_last = ts, ep_datum = False\<rparr> | Some e \<Rightarrow> e)
        in (b\<lparr>gb_stratum := AList.update s
               (e\<lparr>ep_start := min (ep_start e) ts, ep_last := max (ep_last e) ts\<rparr>) (gb_stratum b)\<rparr>,
            if class = Stratum then insert s full else full))
     else if class = Datum then
       (b\<lparr>gb_datum_seen := AList.update s
            (max (case map_of (gb_datum_seen b) s of None \<Rightarrow> ts | Some t \<Rightarrow> t) ts) (gb_datum_seen b)\<rparr>, full)
     else (b, full))"

definition seed_episode :: "grace_params \<Rightarrow> grace_book \<Rightarrow> string set \<Rightarrow> string \<times> episode \<Rightarrow> string \<times> episode" where
  "seed_episode p b full x = (case x of (s, e) \<Rightarrow>
     let e1 = e\<lparr>ep_datum := (map_of (gb_datum_seen b) s \<noteq> None)\<rparr>
     in (s, if gp_epoch p > 0 \<and> s \<in> full
            then e1\<lparr>ep_start := gp_epoch p, ep_last := max (ep_last e1) (gp_epoch p)\<rparr> else e1))"

definition seed :: "(u32 \<times> string \<times> seen) list \<Rightarrow> grace_params \<Rightarrow> grace_book \<Rightarrow> grace_book" where
  "seed rows p b = (case fold seed_row rows (b, {}) of (b1, full) \<Rightarrow>
     b1\<lparr>gb_stratum := map (seed_episode p b1 full) (gb_stratum b1), gb_dirty := True\<rparr>)"

definition prune :: "u32 \<Rightarrow> grace_params \<Rightarrow> grace_book \<Rightarrow> grace_book" where
  "prune now p b =
     (let longest = max (gp_datum_secs p) (gp_secs p);
          str = (if gp_rearm_secs p > 0
                 then filter (\<lambda>x. now < sat_add32 (ep_last (snd x)) (gp_rearm_secs p)) (gb_stratum b)
                 else gb_stratum b);
          keep = sat_add32 (sat_add32 DATUM_LOOKBACK longest) (gp_rearm_secs p);
          dat = filter (\<lambda>x. map_of str (fst x) \<noteq> None \<or> now < sat_add32 (snd x) keep) (gb_datum_seen b)
      in b\<lparr>gb_stratum := str, gb_datum_seen := dat,
           gb_dirty := (gb_dirty b \<or> length str + length dat \<noteq> length (gb_stratum b) + length (gb_datum_seen b))\<rparr>)"

section \<open>Sequences of shares\<close>

text \<open>The shares of a pool in the order they are credited, each with the book's answer.\<close>

datatype share = DatumShare string u32 | StratumShare string u32

fun share_ts :: "share \<Rightarrow> u32" where
  "share_ts (DatumShare s ts) = ts"
| "share_ts (StratumShare s ts) = ts"

fun note_share :: "grace_params \<Rightarrow> share \<Rightarrow> grace_book \<Rightarrow> bool \<times> grace_book" where
  "note_share p (DatumShare s ts) b = (False, note_datum s ts b)"
| "note_share p (StratumShare s ts) b = note_stratum s ts p b"

fun note_shares :: "grace_params \<Rightarrow> share list \<Rightarrow> grace_book \<Rightarrow> bool list \<times> grace_book" where
  "note_shares p [] b = ([], b)"
| "note_shares p (x # xs) b = (case note_share p x b of (a, b1) \<Rightarrow>
     case note_shares p xs b1 of (as, b2) \<Rightarrow> (a # as, b2))"

lemma note_datum_stratum [simp]: "gb_stratum (note_datum s ts b) = gb_stratum b"
  by (simp add: note_datum_def split: option.split)

lemma put_episode_simps [simp]:
  "gb_datum_seen (put_episode s e b) = gb_datum_seen b"
  "map_of (gb_stratum (put_episode s e b)) = (map_of (gb_stratum b))(s \<mapsto> e)"
  by (simp_all add: put_episode_def update_conv')

text \<open>The episode \<^verbatim>\<open>note_stratum\<close> leaves, and its answer.\<close>

definition next_episode :: "grace_params \<Rightarrow> u32 \<Rightarrow> bool \<Rightarrow> episode option \<Rightarrow> episode" where
  "next_episode p ts datum e0 = (case e0 of
     None \<Rightarrow> \<lparr>ep_start = ts, ep_last = ts, ep_datum = datum\<rparr>
   | Some e \<Rightarrow> if gp_rearm_secs p > 0 \<and> ts \<ge> sat_add32 (ep_last e) (gp_rearm_secs p)
       then \<lparr>ep_start = ts, ep_last = ts, ep_datum = datum\<rparr>
       else if ts \<ge> sat_add32 (ep_last e) COARSE then e\<lparr>ep_last := ts\<rparr> else e)"

lemma note_stratum_eq:
  assumes "note_stratum s ts p b = (a, b')" "e = next_episode p ts (on_datum s ts b) (map_of (gb_stratum b) s)"
  shows "map_of (gb_stratum b') = (map_of (gb_stratum b))(s \<mapsto> e)" "gb_datum_seen b' = gb_datum_seen b"
    and "a \<longleftrightarrow> ts < sat_add32 (ep_start e) (grace_len e p)"
proof -
  have "map_of (gb_stratum b') = (map_of (gb_stratum b))(s \<mapsto> e) \<and> gb_datum_seen b' = gb_datum_seen b"
    using assms by (auto simp: note_stratum_def next_episode_def Let_def split: option.splits if_splits)
  then show 1: "map_of (gb_stratum b') = (map_of (gb_stratum b))(s \<mapsto> e)" "gb_datum_seen b' = gb_datum_seen b"
    by blast+
  have "a = (case until s p b' of None \<Rightarrow> False | Some u \<Rightarrow> ts < u)"
    using assms(1) by (auto simp: note_stratum_def Let_def)
  then show "a \<longleftrightarrow> ts < sat_add32 (ep_start e) (grace_len e p)"
    by (simp add: until_def 1(1))
qed

lemma note_share_stratum_other:
  "note_share p x b = (a, b') \<Longrightarrow> (\<And>ts. x \<noteq> StratumShare s ts) \<Longrightarrow> map_of (gb_stratum b') s = map_of (gb_stratum b) s"
proof (cases x)
  case (StratumShare s' ts)
  assume "note_share p x b = (a, b')" "\<And>ts. x \<noteq> StratumShare s ts"
  then show ?thesis using StratumShare note_stratum_eq(1) [OF _ refl, of s' ts p b a b'] by auto
qed auto

lemma next_episode_clock:
  assumes "gp_rearm_secs p = 0"
  shows "ep_start (next_episode p ts d (Some e)) = ep_start e" "ep_datum (next_episode p ts d (Some e)) = ep_datum e"
  using assms by (simp_all add: next_episode_def)

lemma clock_kept:
  assumes "gp_rearm_secs p = 0" "map_of (gb_stratum b) s = Some e" "note_shares p xs b = (as, b')"
  shows "\<exists>e'. map_of (gb_stratum b') s = Some e' \<and> ep_start e' = ep_start e \<and> ep_datum e' = ep_datum e"
  using assms(2,3)
proof (induction xs arbitrary: b as e)
  case (Cons x xs)
  obtain a b1 where x: "note_share p x b = (a, b1)" by fastforce
  obtain as2 where xs: "note_shares p xs b1 = (as2, b')" using Cons.prems(2) x by (auto split: prod.splits)
  have "\<exists>e1. map_of (gb_stratum b1) s = Some e1 \<and> ep_start e1 = ep_start e \<and> ep_datum e1 = ep_datum e"
  proof (cases "\<exists>ts. x = StratumShare s ts")
    case True
    then obtain ts where "x = StratumShare s ts" by blast
    with x note_stratum_eq(1) [OF _ refl, of s ts p b a b1] Cons.prems(1) assms(1) show ?thesis
      by (simp add: next_episode_clock)
  next
    case False
    then show ?thesis using note_share_stratum_other [OF x] Cons.prems(1) by auto
  qed
  then obtain e1 where "map_of (gb_stratum b1) s = Some e1" "ep_start e1 = ep_start e" "ep_datum e1 = ep_datum e" by blast
  from Cons.IH [OF this(1) xs] this(2,3) show ?case by simp
qed auto

section \<open>Seeding\<close>

abbreviation is_stratum :: "seen \<Rightarrow> bool" where
  "is_stratum c \<equiv> c = Stratum \<or> c = StratumGrace"

text \<open>The times of an address's house-stratum rows, and whether it has a row of a class.\<close>

definition stratum_ts :: "string \<Rightarrow> (u32 \<times> string \<times> seen) list \<Rightarrow> u32 list" where
  "stratum_ts s rows = map fst (filter (\<lambda>r. fst (snd r) = s \<and> is_stratum (snd (snd r))) rows)"

definition has_row :: "seen \<Rightarrow> string \<Rightarrow> (u32 \<times> string \<times> seen) list \<Rightarrow> bool" where
  "has_row c s rows \<longleftrightarrow> (\<exists>r \<in> set rows. fst (snd r) = s \<and> snd (snd r) = c)"

lemma seed_rows_spec:
  assumes "fold seed_row rows (new_grace_book, {}) = (b, full)"
  shows "map_of (gb_stratum b) s = (if stratum_ts s rows = [] then None
      else Some \<lparr>ep_start = Min (set (stratum_ts s rows)), ep_last = Max (set (stratum_ts s rows)), ep_datum = False\<rparr>)
    \<and> (map_of (gb_datum_seen b) s \<noteq> None \<longleftrightarrow> has_row Datum s rows) \<and> (s \<in> full \<longleftrightarrow> has_row Stratum s rows)"
  using assms
proof (induction rows arbitrary: b full rule: rev_induct)
  case Nil
  then show ?case by (auto simp: new_grace_book_def stratum_ts_def has_row_def)
next
  case (snoc r rows)
  obtain ts i c where r: "r = (ts, i, c)" by (cases r)
  obtain b1 full1 where 1: "fold seed_row rows (new_grace_book, {}) = (b1, full1)" by fastforce
  have step: "seed_row (ts, i, c) (b1, full1) = (b, full)" using snoc.prems 1 r by simp
  have ts: "stratum_ts s (rows @ [r]) = stratum_ts s rows @ (if i = s \<and> is_stratum c then [ts] else [])"
    and has: "has_row k s (rows @ [r]) \<longleftrightarrow> has_row k s rows \<or> (i = s \<and> c = k)" for k
    by (auto simp: stratum_ts_def has_row_def r)
  show ?case
    using snoc.IH [OF 1] step unfolding ts has
    by (cases c; cases "i = s"; cases "stratum_ts s rows = []")
      (auto simp: seed_row_def Let_def update_conv' Min_insert2 Max_insert2 min.commute max.commute)
qed

lemma map_of_map_snd: "map_of (map (\<lambda>x. (fst x, f (fst x) (snd x))) xs) s = map_option (f s) (map_of xs s)"
  by (induction xs) auto

section \<open>Pruning\<close>

text \<open>The entries \<^verbatim>\<open>prune\<close> at \<open>now\<close> may drop: episodes whose owner would start a new clock, and
  sightings too old to confirm a start.\<close>

definition dead_episode :: "u32 \<Rightarrow> grace_params \<Rightarrow> episode \<Rightarrow> bool" where
  "dead_episode now p e \<longleftrightarrow> gp_rearm_secs p > 0 \<and> now \<ge> sat_add32 (ep_last e) (gp_rearm_secs p)"

definition dead_sighting :: "u32 \<Rightarrow> u32 \<Rightarrow> bool" where
  "dead_sighting now t \<longleftrightarrow> now > sat_add32 t DATUM_LOOKBACK"

definition same_book :: "u32 \<Rightarrow> grace_params \<Rightarrow> grace_book \<Rightarrow> grace_book \<Rightarrow> bool" where
  "same_book now p b b' \<longleftrightarrow> (\<forall>s.
     (map_of (gb_stratum b') s = map_of (gb_stratum b) s
       \<or> map_of (gb_stratum b') s = None \<and> (\<exists>e. map_of (gb_stratum b) s = Some e \<and> dead_episode now p e))
   \<and> (map_of (gb_datum_seen b') s = map_of (gb_datum_seen b) s
       \<or> map_of (gb_datum_seen b') s = None \<and> (\<exists>t. map_of (gb_datum_seen b) s = Some t \<and> dead_sighting now t)))"

lemma map_of_filter_distinct:
  assumes "distinct (map fst xs)"
  shows "map_of (filter (\<lambda>x. R (fst x) (snd x)) xs) s
    = (case map_of xs s of Some v \<Rightarrow> if R s v then Some v else None | None \<Rightarrow> None)"
  using assms
proof (induction xs)
  case (Cons x xs)
  obtain k v where x: "x = (k, v)" by (cases x)
  have "map_of xs k = None" using Cons.prems x by (simp add: map_of_eq_None_iff)
  then show ?case using Cons x by auto
qed simp

definition book_ok :: "grace_book \<Rightarrow> bool" where
  "book_ok b \<longleftrightarrow> distinct (map fst (gb_stratum b)) \<and> distinct (map fst (gb_datum_seen b))"

lemma prune_same_book:
  assumes ok: "book_ok b" and en: "enabled p" and now: "now < u32_max"
  shows "same_book now p b (prune now p b)"
proof -
  define str where "str = gb_stratum (prune now p b)"
  define keep where "keep = sat_add32 (sat_add32 DATUM_LOOKBACK (max (gp_datum_secs p) (gp_secs p))) (gp_rearm_secs p)"
  have s: "map_of str s = map_of (gb_stratum b) s
      \<or> map_of str s = None \<and> (\<exists>e. map_of (gb_stratum b) s = Some e \<and> dead_episode now p e)" for s
    using ok map_of_filter_distinct [of "gb_stratum b" "\<lambda>_ e. now < sat_add32 (ep_last e) (gp_rearm_secs p)" s]
    by (auto simp: str_def prune_def Let_def book_ok_def dead_episode_def split: option.splits if_splits)
  have k: "DATUM_LOOKBACK < keep"
    using en by (auto simp: keep_def sat_add32_def DATUM_LOOKBACK_def enabled_def)
  have old: "dead_sighting now t" if "\<not> now < sat_add32 t keep" for t
    using that k now by (auto simp: dead_sighting_def sat_add32_def)
  have d: "gb_datum_seen (prune now p b)
      = filter (\<lambda>x. map_of str (fst x) \<noteq> None \<or> now < sat_add32 (snd x) keep) (gb_datum_seen b)"
    by (simp add: str_def prune_def Let_def keep_def)
  have "map_of (gb_datum_seen (prune now p b)) s = map_of (gb_datum_seen b) s
      \<or> map_of (gb_datum_seen (prune now p b)) s = None \<and> (\<exists>t. map_of (gb_datum_seen b) s = Some t \<and> dead_sighting now t)" for s
    unfolding d using ok old
      map_of_filter_distinct [of "gb_datum_seen b" "\<lambda>k t. map_of str k \<noteq> None \<or> now < sat_add32 t keep" s]
    by (auto simp: book_ok_def split: option.splits)
  with s show ?thesis by (simp add: same_book_def str_def)
qed

lemma same_book_on_datum:
  assumes "same_book now p b b'" "now \<le> ts"
  shows "on_datum s ts b' = on_datum s ts b"
proof -
  have "map_of (gb_datum_seen b') s = map_of (gb_datum_seen b) s
       \<or> map_of (gb_datum_seen b') s = None \<and> (\<exists>t. map_of (gb_datum_seen b) s = Some t \<and> dead_sighting now t)"
    using assms(1) by (simp add: same_book_def)
  then show ?thesis using assms(2) by (auto simp: on_datum_def dead_sighting_def)
qed

lemma same_book_next_episode:
  assumes "same_book now p b b'" "now \<le> ts"
  shows "next_episode p ts d (map_of (gb_stratum b') s) = next_episode p ts d (map_of (gb_stratum b) s)"
proof -
  have "map_of (gb_stratum b') s = map_of (gb_stratum b) s
       \<or> map_of (gb_stratum b') s = None \<and> (\<exists>e. map_of (gb_stratum b) s = Some e \<and> dead_episode now p e)"
    using assms(1) by (simp add: same_book_def)
  then show ?thesis using assms(2) by (auto simp: next_episode_def dead_episode_def)
qed

lemma note_datum_map:
  "map_of (gb_datum_seen (note_datum s ts b)) = (map_of (gb_datum_seen b))(s \<mapsto>
     (case map_of (gb_datum_seen b) s of None \<Rightarrow> ts
      | Some t \<Rightarrow> if ts \<ge> sat_add32 t COARSE then ts else t))"
  by (auto simp: note_datum_def update_conv' split: option.split)

lemma same_book_datum:
  assumes "same_book now p b b'" "now \<le> ts"
  shows "same_book now p (note_datum s ts b) (note_datum s ts b')"
  unfolding same_book_def
proof
  fix x
  have "map_of (gb_datum_seen b') x = map_of (gb_datum_seen b) x
       \<or> map_of (gb_datum_seen b') x = None \<and> (\<exists>t. map_of (gb_datum_seen b) x = Some t \<and> dead_sighting now t)"
    using assms(1) by (simp add: same_book_def)
  moreover have "ts \<ge> sat_add32 t COARSE" if "dead_sighting now t" for t
    using that assms(2) by (auto simp: dead_sighting_def sat_add32_def COARSE_def DATUM_LOOKBACK_def)
  ultimately have "map_of (gb_datum_seen (note_datum s ts b')) x = map_of (gb_datum_seen (note_datum s ts b)) x
     \<or> map_of (gb_datum_seen (note_datum s ts b')) x = None
       \<and> (\<exists>t. map_of (gb_datum_seen (note_datum s ts b)) x = Some t \<and> dead_sighting now t)"
    by (auto simp: note_datum_map)
  then show "(map_of (gb_stratum (note_datum s ts b')) x = map_of (gb_stratum (note_datum s ts b)) x
       \<or> map_of (gb_stratum (note_datum s ts b')) x = None
         \<and> (\<exists>e. map_of (gb_stratum (note_datum s ts b)) x = Some e \<and> dead_episode now p e))
   \<and> (map_of (gb_datum_seen (note_datum s ts b')) x = map_of (gb_datum_seen (note_datum s ts b)) x
     \<or> map_of (gb_datum_seen (note_datum s ts b')) x = None
       \<and> (\<exists>t. map_of (gb_datum_seen (note_datum s ts b)) x = Some t \<and> dead_sighting now t))"
    using assms(1) by (simp add: same_book_def)
qed

lemma same_book_share:
  assumes "same_book now p b b'" "now \<le> share_ts x" "note_share p x b = (a, c)" "note_share p x b' = (a', c')"
  shows "a' = a \<and> same_book now p c c'"
proof (cases x)
  case (DatumShare s ts)
  then show ?thesis using assms same_book_datum by auto
next
  case (StratumShare s ts)
  define e where "e = next_episode p ts (on_datum s ts b) (map_of (gb_stratum b) s)"
  have e': "e = next_episode p ts (on_datum s ts b') (map_of (gb_stratum b') s)"
    using same_book_on_datum [OF assms(1)] same_book_next_episode [OF assms(1)] assms(2) StratumShare
    by (simp add: e_def)
  note 1 = note_stratum_eq [of s ts p b a c, OF _ e_def] and 2 = note_stratum_eq [of s ts p b' a' c', OF _ e']
  show ?thesis using 1 2 assms(1,3,4) StratumShare by (simp add: same_book_def)
qed

lemma same_book_shares:
  assumes "same_book now p b b'" "\<forall>x \<in> set xs. now \<le> share_ts x"
  shows "fst (note_shares p xs b') = fst (note_shares p xs b)"
  using assms
proof (induction xs arbitrary: b b')
  case (Cons x xs)
  obtain a c where 1: "note_share p x b = (a, c)" by fastforce
  obtain a' c' where 2: "note_share p x b' = (a', c')" by fastforce
  have "a' = a \<and> same_book now p c c'" using same_book_share [OF Cons.prems(1) _ 1 2] Cons.prems(2) by simp
  then show ?case using Cons.IH [of c c'] Cons.prems(2) 1 2 by (simp add: case_prod_beta)
qed simp

section \<open>Properties\<close>

text \<open>
  One clock per address, settled when it starts. Without re-arming, the address's first
  house-stratum share at \<open>t0\<close> fixes the length of its grace, and whatever shares of whichever class
  follow, a later house-stratum share at \<open>ts\<close> is inside the grace exactly when \<open>ts\<close> is before \<open>t0\<close>
  plus that length: DATUM work that shows up afterwards neither reopens nor lengthens it.
\<close>

theorem grace_clock_settled:
  assumes rearm: "gp_rearm_secs p = 0" and fresh: "map_of (gb_stratum b) s = None"
    and len: "len = (if on_datum s t0 b then max (gp_datum_secs p) (gp_secs p) else gp_secs p)"
    and run: "note_shares p (StratumShare s t0 # xs) b = (as, b')"
  shows "fst (note_stratum s ts p b') \<longleftrightarrow> ts < sat_add32 t0 len"
proof -
  obtain a b1 where 1: "note_stratum s t0 p b = (a, b1)" by fastforce
  obtain as2 where 2: "note_shares p xs b1 = (as2, b')" using run 1 by (auto split: prod.splits)
  have "map_of (gb_stratum b1) s = Some \<lparr>ep_start = t0, ep_last = t0, ep_datum = on_datum s t0 b\<rparr>"
    using note_stratum_eq(1) [OF 1 refl] fresh by (simp add: next_episode_def)
  from clock_kept [OF rearm this 2] obtain e where
    e: "map_of (gb_stratum b') s = Some e" "ep_start e = t0" "ep_datum e = on_datum s t0 b" by auto
  obtain a3 b3 where 3: "note_stratum s ts p b' = (a3, b3)" by fastforce
  show ?thesis
    using note_stratum_eq(3) [OF 3 refl] e len next_episode_clock [OF rearm, of ts _ e]
    by (simp add: 3 grace_len_def)
qed

text \<open>
  Pruning changes no answer: whatever shares are credited from \<open>now\<close> on, the pruned book tags
  every one of them as the unpruned book would.
\<close>

theorem prune_changes_no_answer:
  assumes "book_ok b" "enabled p" "now < u32_max" "\<forall>x \<in> set xs. now \<le> share_ts x"
  shows "fst (note_shares p xs (prune now p b)) = fst (note_shares p xs b)"
  using same_book_shares [OF prune_same_book [OF assms(1-3)] assms(4)] .

text \<open>
  Rebuilding a lost book from the window gives every address with house-stratum rows a clock, and no one else. The clock starts at its
  oldest row (so a newcomer whose rows are all grace rows keeps the rest of its grace), or at the
  configured epoch when it has full-fee rows; it is the longer one exactly when the window holds DATUM
  work of the address.
\<close>

theorem seed_rebuilds_clocks:
  "map_of (gb_stratum (seed rows p new_grace_book)) s = (if stratum_ts s rows = [] then None
     else Some (let epoch = gp_epoch p > 0 \<and> has_row Stratum s rows in
       \<lparr>ep_start = (if epoch then gp_epoch p else Min (set (stratum_ts s rows))),
        ep_last = (if epoch then max (Max (set (stratum_ts s rows))) (gp_epoch p) else Max (set (stratum_ts s rows))),
        ep_datum = has_row Datum s rows\<rparr>))"
proof -
  obtain b full where 1: "fold seed_row rows (new_grace_book, {}) = (b, full)" by fastforce
  have "seed_episode p b full = (\<lambda>x. (fst x, snd (seed_episode p b full (fst x, snd x))))"
    by (auto simp: seed_episode_def Let_def split: prod.split)
  then have "map_of (map (seed_episode p b full) (gb_stratum b)) s
      = map_option (\<lambda>e. snd (seed_episode p b full (s, e))) (map_of (gb_stratum b) s)"
    using map_of_map_snd [of "\<lambda>i e. snd (seed_episode p b full (i, e))"] by metis
  then show ?thesis
    using seed_rows_spec [OF 1, of s] by (auto simp: seed_def 1 seed_episode_def Let_def)
qed

section \<open>A worked grace book\<close>

definition ex_grace :: grace_params where
  "ex_grace = \<lparr>gp_secs = 3600, gp_datum_secs = 86400, gp_rearm_secs = 0, gp_epoch = 0\<rparr>"

theorem grace_clock_settled_witness:
  "fst (note_stratum ''a'' 5000 ex_grace (snd (note_shares ex_grace
     [StratumShare ''a'' 1000, DatumShare ''a'' 1500] new_grace_book))) \<longleftrightarrow> (5000::nat) < sat_add32 1000 3600"
proof -
  obtain as b' where run: "note_shares ex_grace (StratumShare ''a'' 1000 # [DatumShare ''a'' 1500]) new_grace_book = (as, b')"
    by fastforce
  have "gp_rearm_secs ex_grace = 0" "map_of (gb_stratum new_grace_book) ''a'' = None"
    "3600 = (if on_datum ''a'' 1000 new_grace_book then max (gp_datum_secs ex_grace) (gp_secs ex_grace) else gp_secs ex_grace)"
    by (simp_all add: ex_grace_def new_grace_book_def on_datum_def)
  from grace_clock_settled [OF this run, of 5000] show ?thesis using run by simp
qed

theorem prune_changes_no_answer_witness:
  "fst (note_shares (ex_grace\<lparr>gp_rearm_secs := 600\<rparr>) [StratumShare ''a'' 9000]
      (prune 9000 (ex_grace\<lparr>gp_rearm_secs := 600\<rparr>) (snd (note_shares ex_grace [StratumShare ''a'' 1000] new_grace_book))))
   = fst (note_shares (ex_grace\<lparr>gp_rearm_secs := 600\<rparr>) [StratumShare ''a'' 9000]
      (snd (note_shares ex_grace [StratumShare ''a'' 1000] new_grace_book)))"
proof -
  have "book_ok (snd (note_shares ex_grace [StratumShare ''a'' 1000] new_grace_book))"
    by (simp add: book_ok_def new_grace_book_def note_stratum_def put_episode_def Let_def)
  moreover have "enabled (ex_grace\<lparr>gp_rearm_secs := 600\<rparr>)" by (simp add: enabled_def ex_grace_def)
  ultimately show ?thesis by (intro prune_changes_no_answer) simp_all
qed

end
