(* ===== verification/Tides_Ledger.thy ===== *)
theory Tides_Ledger
  imports Tides_Window Tides_Grace
begin

text \<open>
  The durable ledger, \<^verbatim>\<open>prime/tides/src/lib.rs\<close>: booking a found block in two steps and undoing it,
  holds for hand-made payouts, the debits a crash left out, and the grace tags. \<open>l_idents_out\<close> and
  \<open>l_credits_out\<close> are the lines and rows written to the two append-only files, the part still in the
  \<^verbatim>\<open>BufWriter\<close> included; the meta file is \<open>Tides_Disk\<close>.
\<close>

section \<open>Data\<close>

record books =
  bk_rebate_owed_credited :: u64
  bk_rebate_deferred :: u64
  bk_debits_live :: bool
  bk_debited :: "(string \<times> u64) list"
  bk_rebate_debited :: u64
  bk_credits_live :: bool
  bk_credited :: "(string \<times> u64) list"
  bk_rebate_added :: u64
  bk_shortfall :: "(string \<times> u64) list"
  bk_debt_paid :: "(string \<times> u64) list"

definition books_new :: "u64 \<Rightarrow> u64 \<Rightarrow> books" where
  "books_new roc rd = \<lparr>bk_rebate_owed_credited = roc, bk_rebate_deferred = rd, bk_debits_live = False,
     bk_debited = [], bk_rebate_debited = 0, bk_credits_live = False, bk_credited = [], bk_rebate_added = 0,
     bk_shortfall = [], bk_debt_paid = []\<rparr>"

record block_record =
  br_ts :: u64
  br_height :: u32
  br_hash :: string
  br_finder :: "string option"
  br_coinbase_value :: u64
  br_kind :: string
  br_owed_sats :: u64
  br_split :: "(string \<times> u64) list"
  br_pool_sats :: u64
  br_carry_paid :: u64
  br_carry_delta :: "(string \<times> i64) list"
  br_rebate_credited :: u64
  br_rebate_delta :: i64
  br_settled :: bool
  br_submit :: string
  br_gateway :: string
  br_books :: "books option"
  br_carry_shortfall_sats :: u64
  br_carry_reserved_sats :: u64

record hold_skip =
  hs_identity :: string
  hs_requested :: u64
  hs_carry :: u64
  hs_reason :: string

record ledger =
  l_window :: window
  l_credits_out :: "credit_rec list"
  l_idents_out :: "string list"
  l_rows_on_disk :: u64
  l_dirty :: bool
  l_applied_debits :: "string set"
  l_debits_tracked :: bool
  l_grace :: grace_book
  l_grace_loaded :: bool

abbreviation known :: "string \<Rightarrow> ledger \<Rightarrow> bool" where
  "known s l \<equiv> w_index (l_window l) s \<noteq> None"

text \<open>\<^verbatim>\<open>if !known { idents_out.write_all(identity + "\n") }\<close>, with \<open>known\<close> read before the operation.\<close>

definition write_ident :: "bool \<Rightarrow> string \<Rightarrow> ledger \<Rightarrow> ledger" where
  "write_ident kn s l = (if kn then l else l\<lparr>l_idents_out := l_idents_out l @ [s]\<rparr>)"

section \<open>Carry and rebate\<close>

definition settle_one :: "string \<times> i64 \<Rightarrow> ledger \<times> (string \<times> u64) list \<Rightarrow> ledger \<times> (string \<times> u64) list" where
  "settle_one e st = (case e of (s, d) \<Rightarrow> case st of (l, out) \<Rightarrow>
     if d = 0 then (l, out)
     else case (if d > 0 then restore_carry s (unsigned_abs d) (l_window l) else adjust_carry s d (l_window l)) of
       (new, w) \<Rightarrow> ((write_ident (known s l) s (l\<lparr>l_window := w\<rparr>))\<lparr>l_dirty := True\<rparr>, out @ [(s, new)]))"

definition settle_carry :: "(string \<times> i64) list \<Rightarrow> ledger \<Rightarrow> (string \<times> u64) list \<times> ledger" where
  "settle_carry delta l = (case fold settle_one delta (l, []) of (l', out) \<Rightarrow> (out, l'))"

definition settle_rebate :: "i64 \<Rightarrow> ledger \<Rightarrow> u64 \<times> ledger" where
  "settle_rebate delta l = (if delta = 0 then (w_rebate_owed (l_window l), l)
     else case adjust_rebate_owed delta (l_window l) of (r, w) \<Rightarrow> (r, l\<lparr>l_window := w, l_dirty := True\<rparr>))"

section \<open>Booking a block\<close>

definition debit_one :: "string \<times> i64 \<Rightarrow> window \<times> books \<Rightarrow> window \<times> books" where
  "debit_one e st = (case e of (s, d) \<Rightarrow> case st of (w, b) \<Rightarrow>
     let before = carry_of s w; a = adjust_carry s d w; moved0 = before - fst a;
         short = unsigned_abs d - moved0;
         h = (if short > 0 then draw_from_holds s short (snd a) else (0, snd a));
         moved = moved0 + fst h;
         b1 = (if moved > 0 then b\<lparr>bk_debited := bk_debited b @ [(s, moved)]\<rparr> else b);
         overpaid = unsigned_abs d - moved
     in if overpaid > 0
        then (accrue_debt s overpaid (snd h), b1\<lparr>bk_shortfall := bk_shortfall b1 @ [(s, overpaid)]\<rparr>)
        else (snd h, b1))"

definition book_debits :: "(string \<times> i64) list \<Rightarrow> books \<Rightarrow> ledger \<Rightarrow> books \<times> ledger" where
  "book_debits delta b l = (if bk_debits_live b then (b, l)
     else case fold debit_one (filter (\<lambda>e. snd e < 0) delta)
                 (l_window l, b\<lparr>bk_debited := [], bk_shortfall := []\<rparr>) of (w, b1) \<Rightarrow>
       let before = w_rebate_owed w;
           r = adjust_rebate_owed (- to_i64 (bk_rebate_owed_credited b1)) w
       in (b1\<lparr>bk_rebate_debited := before - fst r, bk_debits_live := True\<rparr>,
           l\<lparr>l_window := snd r, l_dirty := True\<rparr>))"

definition credit_one :: "string \<times> i64 \<Rightarrow> ledger \<times> books \<Rightarrow> ledger \<times> books" where
  "credit_one e st = (case e of (s, d) \<Rightarrow> case st of (l, b) \<Rightarrow>
     let earn = unsigned_abs d; kn = known s l;
         r = reduce_debt s earn (l_window l); paid_down = fst r;
         b1 = (if paid_down > 0 then b\<lparr>bk_debt_paid := bk_debt_paid b @ [(s, paid_down)]\<rparr> else b);
         onto = earn - paid_down;
         before = carry_of s (snd r);
         a = (if onto > 0 then adjust_carry s (to_i64 onto) (snd r) else (before, snd r));
         b2 = (if fst a > before then b1\<lparr>bk_credited := bk_credited b1 @ [(s, fst a - before)]\<rparr> else b1)
     in (write_ident kn s (l\<lparr>l_window := snd a\<rparr>), b2))"

definition book_credits :: "(string \<times> i64) list \<Rightarrow> books \<Rightarrow> ledger \<Rightarrow> books \<times> ledger" where
  "book_credits delta b l = (if bk_credits_live b then (b, l)
     else case fold credit_one (filter (\<lambda>e. snd e > 0) delta)
                 (l, b\<lparr>bk_credited := [], bk_debt_paid := []\<rparr>) of (l1, b1) \<Rightarrow>
       let before = w_rebate_owed (l_window l1);
           r = adjust_rebate_owed (to_i64 (bk_rebate_deferred b1)) (l_window l1)
       in (b1\<lparr>bk_rebate_added := fst r - before, bk_credits_live := True\<rparr>,
           l1\<lparr>l_window := snd r, l_dirty := True\<rparr>))"

text \<open>\<^verbatim>\<open>unbook\<close>'s first loop, with the running \<open>short\<close>.\<close>

definition uncredit_one :: "string \<times> u64 \<Rightarrow> window \<times> u64 \<Rightarrow> window \<times> u64" where
  "uncredit_one e st = (case e of (s, sats) \<Rightarrow> case st of (w, short) \<Rightarrow>
     let before = carry_of s w; a = adjust_carry s (- to_i64 sats) w
     in (snd a, sat_add64 short (sats - (before - fst a))))"

definition unbook_credits :: "books \<Rightarrow> window \<Rightarrow> window \<times> u64" where
  "unbook_credits b w = (case fold uncredit_one (bk_credited b) (w, 0) of (w1, short) \<Rightarrow>
     let w2 = fold (\<lambda>e. restore_debt (fst e) (snd e)) (bk_debt_paid b) w1
     in (snd (adjust_rebate_owed (- to_i64 (bk_rebate_added b)) w2), short))"

definition unbook_debits :: "books \<Rightarrow> window \<Rightarrow> window" where
  "unbook_debits b w =
     (let w1 = fold (\<lambda>e w. snd (restore_carry (fst e) (snd e) w)) (bk_debited b) w;
          w2 = fold (\<lambda>e. forgive_debt (fst e) (snd e)) (bk_shortfall b) w1
      in snd (adjust_rebate_owed (to_i64 (bk_rebate_debited b)) w2))"

definition unbook :: "books \<Rightarrow> ledger \<Rightarrow> u64 \<times> books \<times> ledger" where
  "unbook b l =
     (let (w1, short) = (if bk_credits_live b then unbook_credits b (l_window l) else (l_window l, 0));
          b1 = (if bk_credits_live b
                then b\<lparr>bk_credited := [], bk_debt_paid := [], bk_rebate_added := 0, bk_credits_live := False\<rparr> else b);
          w2 = (if bk_debits_live b1 then unbook_debits b1 w1 else w1);
          b2 = (if bk_debits_live b1
                then b1\<lparr>bk_debited := [], bk_shortfall := [], bk_rebate_debited := 0, bk_debits_live := False\<rparr> else b1)
      in (short, b2, l\<lparr>l_window := w2, l_dirty := True\<rparr>))"

section \<open>Holds\<close>

text \<open>\<^verbatim>\<open>sats as i64\<close>, which wraps, and its negation, which panics on the least value.\<close>

definition neg_as_i64 :: "u64 \<Rightarrow> i64 option" where
  "neg_as_i64 x = (if x \<le> i64_max then Some (- int x)
     else if x = i64_max + 1 then None else Some (18446744073709551616 - int x))"

definition hold_reason :: "(string \<rightharpoonup> u64) \<Rightarrow> (string \<times> u64) list \<Rightarrow> string \<Rightarrow> u64 \<Rightarrow> string option" where
  "hold_reason stale held s sats =
     (if s \<in> set (map fst held) then Some ''listed twice''
      else if sats = 0 then Some ''nothing requested''
      else case stale s of None \<Rightarrow> Some ''not stale''
        | Some have_sats \<Rightarrow> if have_sats \<noteq> sats then Some ''balance changed'' else None)"

fun hold_entries ::
  "(string \<rightharpoonup> u64) \<Rightarrow> (string \<times> u64) list \<Rightarrow> window \<Rightarrow> (string \<times> u64) list \<Rightarrow> hold_skip list
    \<Rightarrow> (window \<times> (string \<times> u64) list \<times> hold_skip list) option" where
  "hold_entries stale [] w held skipped = Some (w, held, skipped)"
| "hold_entries stale ((s, sats) # es) w held skipped =
     (case hold_reason stale held s sats of
        Some r \<Rightarrow> hold_entries stale es w held
          (skipped @ [\<lparr>hs_identity = s, hs_requested = sats, hs_carry = carry_of s w, hs_reason = r\<rparr>])
      | None \<Rightarrow> do {
          d \<leftarrow> neg_as_i64 sats;
          hold_entries stale es (snd (adjust_carry s d w)) (held @ [(s, sats)]) skipped })"

definition hold_carry ::
  "string \<Rightarrow> (string \<times> u64) list \<Rightarrow> u32 \<Rightarrow> u32 \<Rightarrow> u64 \<Rightarrow> u32 \<Rightarrow> u32 \<Rightarrow> ledger
    \<Rightarrow> ((string + (string \<times> u64) list \<times> hold_skip list) \<times> ledger) option" where
  "hold_carry batch entries now after mn tip_height ready_height l =
     (let w = l_window l in
      if map_of (w_holds w) batch \<noteq> None then Some (Inl ''a hold with this id exists'', l)
      else
        let stale = map_of (map (\<lambda>s. (sc_identity s, sc_sats s)) (stale_carries now after mn w))
        in do {
          (w1, held, skipped) \<leftarrow> hold_entries stale entries w [] [];
          Some (Inr (held, skipped),
            if held = [] then l\<lparr>l_window := w1\<rparr>
            else l\<lparr>l_window := w1\<lparr>w_holds := hold_insert batch \<lparr>hd_created_ts = now, hd_height = tip_height,
                     hd_ready_height = ready_height, hd_entries = held\<rparr> (w_holds w1)\<rparr>, l_dirty := True\<rparr>) })"

definition release_hold :: "string \<Rightarrow> ledger \<Rightarrow> (string \<times> u64) list option \<times> ledger" where
  "release_hold batch l = (case map_of (w_holds (l_window l)) batch of
     None \<Rightarrow> (None, l)
   | Some h \<Rightarrow>
       let w0 = (l_window l)\<lparr>w_holds := hold_remove batch (w_holds (l_window l))\<rparr>;
           w1 = fold (\<lambda>e w. snd (restore_carry (fst e) (snd e) w)) (hd_entries h) w0
       in (Some (hd_entries h), l\<lparr>l_window := w1, l_dirty := True\<rparr>))"

definition finish_hold :: "string \<Rightarrow> ledger \<Rightarrow> (string \<times> u64) list option \<times> ledger" where
  "finish_hold batch l = (case map_of (w_holds (l_window l)) batch of
     None \<Rightarrow> (None, l)
   | Some h \<Rightarrow> (Some (hd_entries h),
       l\<lparr>l_window := (l_window l)\<lparr>w_holds := hold_remove batch (w_holds (l_window l))\<rparr>, l_dirty := True\<rparr>))"

section \<open>Work, grace and the operator's corrections\<close>

definition ledger_set_last_seen :: "string \<Rightarrow> u32 \<Rightarrow> ledger \<Rightarrow> ledger" where
  "ledger_set_last_seen s ts l =
     (if known s l then l\<lparr>l_window := set_last_seen s ts (l_window l), l_dirty := True\<rparr> else l)"

definition ledger_set_rebate_owed :: "u64 \<Rightarrow> ledger \<Rightarrow> ledger" where
  "ledger_set_rebate_owed sats l = l\<lparr>l_window := set_rebate_owed sats (l_window l), l_dirty := True\<rparr>"

definition ledger_set_carry :: "string \<Rightarrow> u64 \<Rightarrow> ledger \<Rightarrow> ledger" where
  "ledger_set_carry s sats l =
     (write_ident (known s l) s (l\<lparr>l_window := set_carry s sats (l_window l)\<rparr>))\<lparr>l_dirty := True\<rparr>"

definition ledger_credit :: "string \<Rightarrow> u64 \<Rightarrow> u32 \<Rightarrow> u32 \<Rightarrow> u8 \<Rightarrow> ledger \<Rightarrow> ledger option" where
  "ledger_credit s work height ts source l = do {
     (row, w) \<leftarrow> credit_row s work height ts source (l_window l);
     n \<leftarrow> chk64 (l_rows_on_disk l + 1);
     let l1 = write_ident (known s l) s (l\<lparr>l_window := w\<rparr>);
     Some (l1\<lparr>l_credits_out := l_credits_out l1 @ [row], l_rows_on_disk := n, l_dirty := True\<rparr>) }"

definition source_for :: "string \<Rightarrow> u32 \<Rightarrow> bool \<Rightarrow> grace_params \<Rightarrow> ledger \<Rightarrow> u8 \<times> ledger" where
  "source_for s ts house_stratum p l =
     (if \<not> enabled p then (if house_stratum then SOURCE_STRATUM else SOURCE_DATUM, l)
      else if \<not> house_stratum then (SOURCE_DATUM, l\<lparr>l_grace := note_datum s ts (l_grace l)\<rparr>)
      else case note_stratum s ts p (l_grace l) of (inside, g) \<Rightarrow>
        (if inside then SOURCE_STRATUM_GRACE else SOURCE_STRATUM, l\<lparr>l_grace := g\<rparr>))"

definition seen_class :: "u8 \<Rightarrow> seen" where
  "seen_class src = (if src = SOURCE_STRATUM then Stratum else if src = SOURCE_STRATUM_GRACE then StratumGrace
     else if src = SOURCE_DATUM then Datum else Other)"

definition seed_grace :: "grace_params \<Rightarrow> ledger \<Rightarrow> usize option \<times> ledger" where
  "seed_grace p l = (if \<not> enabled p \<or> l_grace_loaded l then (None, l)
     else
       let w = l_window l;
           rows = map (\<lambda>c. (cr_ts c, w_idents w ! cr_ident c, seen_class (cr_source c))) (w_credits w);
           g = seed rows p (l_grace l)
       in (Some (length (gb_stratum g)), l\<lparr>l_grace := g, l_grace_loaded := True, l_dirty := True\<rparr>))"

definition prune_grace :: "u32 \<Rightarrow> grace_params \<Rightarrow> ledger \<Rightarrow> ledger" where
  "prune_grace now p l = (if enabled p then l\<lparr>l_grace := prune now p (l_grace l)\<rparr> else l)"

definition ledger_set_target :: "u64 \<Rightarrow> ledger \<Rightarrow> ledger" where
  "ledger_set_target t l = (if w_target_work (l_window l) \<noteq> t
     then l\<lparr>l_window := set_target t (l_window l), l_dirty := True\<rparr> else l)"

section \<open>Debits a crash left out\<close>

definition note_debit_applied :: "string \<Rightarrow> ledger \<Rightarrow> ledger" where
  "note_debit_applied hash l =
     (let l1 = l\<lparr>l_applied_debits := insert hash (l_applied_debits l)\<rparr>
      in if hash \<notin> l_applied_debits l \<or> \<not> l_debits_tracked l
         then l1\<lparr>l_debits_tracked := True, l_dirty := True\<rparr> else l1)"

definition debits_on :: "block_record \<Rightarrow> bool" where
  "debits_on b = (case br_books b of None \<Rightarrow> False | Some k \<Rightarrow> bk_debits_live k)"

definition adopt_legacy_debits :: "block_record list \<Rightarrow> ledger \<Rightarrow> ledger" where
  "adopt_legacy_debits blocks l = (if l_debits_tracked l then l
     else l\<lparr>l_applied_debits := fold (\<lambda>b. insert (br_hash b)) (filter debits_on blocks) (l_applied_debits l),
            l_debits_tracked := True, l_dirty := True\<rparr>)"

definition reapply_debits :: "books \<Rightarrow> window \<Rightarrow> window" where
  "reapply_debits k w =
     (let w1 = fold (\<lambda>e w. snd (adjust_carry (fst e) (- to_i64 (snd e)) w)) (bk_debited k) w;
          w2 = snd (adjust_rebate_owed (- to_i64 (bk_rebate_debited k)) w1)
      in fold (\<lambda>e. accrue_debt (fst e) (snd e)) (bk_shortfall k) w2)"

definition reconcile_one :: "block_record \<Rightarrow> ledger \<Rightarrow> ledger" where
  "reconcile_one b l = (case br_books b of
     None \<Rightarrow> l
   | Some k \<Rightarrow> if \<not> bk_debits_live k \<or> br_hash b \<in> l_applied_debits l then l
       else l\<lparr>l_window := reapply_debits k (l_window l),
              l_applied_debits := insert (br_hash b) (l_applied_debits l), l_dirty := True\<rparr>)"

definition reconcile_debits :: "block_record list \<Rightarrow> ledger \<Rightarrow> ledger" where
  "reconcile_debits blocks l = (if \<not> l_debits_tracked l then l else fold reconcile_one blocks l)"

section \<open>Booking and the accounts\<close>

text \<open>The owed rebate and the accounts do not touch each other.\<close>

lemma rebate_adjust [simp]:
  "snd (adjust_rebate_owed d w) = w\<lparr>w_rebate_owed := fst (adjust_rebate_owed d w)\<rparr>"
  "fst (adjust_rebate_owed d w) = move (w_rebate_owed w) d"
  by (simp_all add: adjust_rebate_owed_def Let_def move_def)

lemma rebate_frame [simp]:
  "carry_of s (w\<lparr>w_rebate_owed := r\<rparr>) = carry_of s w" "debt_of s (w\<lparr>w_rebate_owed := r\<rparr>) = debt_of s w"
  "held_of s (w\<lparr>w_rebate_owed := r\<rparr>) = held_of s w" "accounts_ok k (w\<lparr>w_rebate_owed := r\<rparr>) = accounts_ok k w"
  by (simp_all add: carry_of_def debt_of_def held_of_def lookup_def accounts_ok_def ident_ok_def)

lemma rebate_views [simp]:
  "net_position s (w\<lparr>w_rebate_owed := r\<rparr>) = net_position s w" "no_double (w\<lparr>w_rebate_owed := r\<rparr>) = no_double w"
  "acc.roomy n (w\<lparr>w_rebate_owed := r\<rparr>) = acc.roomy n w"
  by (simp_all add: net_position_def no_double_def acc.roomy_def)

lemma accounts_keep_rebate [simp]:
  "w_rebate_owed (snd (adjust_carry s d w)) = w_rebate_owed w"
  "w_rebate_owed (accrue_debt s n w) = w_rebate_owed w"
  "w_rebate_owed (snd (reduce_debt s n w)) = w_rebate_owed w"
  "w_rebate_owed (snd (draw_from_holds s n w)) = w_rebate_owed w"
  by (auto simp: adjust_carry_def accrue_debt_def reduce_debt_def draw_from_holds_def Let_def
      split: prod.splits option.splits dest: intern_frame(9))

lemma put_on_keeps_rebate [simp]: "w_rebate_owed (acc.put_on s n w) = w_rebate_owed w"
proof -
  obtain p w1 where "reduce_debt s n w = (p, w1)" by (cases "reduce_debt s n w")
  then show ?thesis using accounts_keep_rebate(3) [of s n w] by (simp add: acc.put_on_def)
qed

lemma take_off_keeps_rebate [simp]: "w_rebate_owed (acc.take_off s d w) = w_rebate_owed w"
  by (simp add: acc.take_off_def Let_def)

lemma owe_again_keeps_rebate [simp]: "w_rebate_owed (acc.owe_again s n w) = w_rebate_owed w"
  by (simp add: acc.owe_again_def Let_def)

lemma restore_debt_owe_again: "restore_debt s n w = acc.owe_again s n w"
  by (simp add: restore_debt_def acc.owe_again_def Let_def)

lemma fold_put_on:
  "fold (\<lambda>e w. snd (restore_carry (fst e) (snd e) w)) es w = fold (\<lambda>e. acc.put_on (fst e) (snd e)) es w"
  "fold (\<lambda>e. forgive_debt (fst e) (snd e)) es w = fold (\<lambda>e. acc.put_on (fst e) (snd e)) es w"
  "fold (\<lambda>e. restore_debt (fst e) (snd e)) es w = fold (\<lambda>e. acc.owe_again (fst e) (snd e)) es w"
  by (induction es arbitrary: w) (simp_all add: restore_carry_put_on forgive_debt_put_on restore_debt_owe_again)

lemma fold_keeps_rebate [simp]:
  "w_rebate_owed (fold (\<lambda>e. acc.put_on (fst e) (snd e)) es w) = w_rebate_owed w"
  "w_rebate_owed (fold (\<lambda>e. acc.owe_again (fst e) (snd e)) es w) = w_rebate_owed w"
  by (induction es arbitrary: w) simp_all

definition net_delta :: "string \<Rightarrow> (string \<times> i64) list \<Rightarrow> int" where
  "net_delta s ds = sum_list (map snd (filter (\<lambda>e. fst e = s) ds))"

definition gross :: "(string \<times> i64) list \<Rightarrow> nat" where
  "gross ds = sum_list (map (\<lambda>e. unsigned_abs (snd e)) ds)"

lemma net_delta_simps [simp]:
  "net_delta s [] = 0" "net_delta s (e # ds) = (if fst e = s then snd e else 0) + net_delta s ds"
  by (simp_all add: net_delta_def)

lemma gross_simps [simp]: "gross [] = 0" "gross (e # ds) = unsigned_abs (snd e) + gross ds"
  by (simp_all add: gross_def)

lemma unsigned_abs_neg: "d < 0 \<Longrightarrow> int (unsigned_abs d) = - d"
  by (simp add: unsigned_abs_def)

lemma unsigned_abs_pos: "d > 0 \<Longrightarrow> int (unsigned_abs d) = d"
  by (simp add: unsigned_abs_def)

definition entries_ok :: "(string \<times> u64) list \<Rightarrow> bool" where
  "entries_ok es \<longleftrightarrow> (\<forall>e \<in> set es. snd e \<le> i64_max)"

lemma entries_ok_simps [simp]:
  "entries_ok []" "entries_ok (e # es) \<longleftrightarrow> snd e \<le> i64_max \<and> entries_ok es"
  "entries_ok (es @ fs) \<longleftrightarrow> entries_ok es \<and> entries_ok fs"
  by (auto simp: entries_ok_def)

subsection \<open>Debits\<close>

lemma debit_one_spec:
  assumes ok: "accounts_ok (Suc (Suc k)) w" and d: "d < 0" "unsigned_abs d \<le> i64_max"
  obtains D S where "debit_one (s, d) (w, b) = (acc.take_off s d w,
      b\<lparr>bk_debited := bk_debited b @ D, bk_shortfall := bk_shortfall b @ S\<rparr>)"
    and "\<And>x. amount_of x D + amount_of x S = (if x = s then unsigned_abs d else 0)"
    and "length D \<le> 1" "length S \<le> 1" "entries_ok D" "entries_ok S"
    and "amount_all D + amount_all S = unsigned_abs d"
    and "\<And>x. amount_of x D = (if x = s then min (carry_of s w + held_of s w) (unsigned_abs d) else 0)"
proof -
  define n where "n = unsigned_abs d"
  define a where "a = adjust_carry s d w"
  define moved0 where "moved0 = carry_of s w - fst a"
  define h where "h = (if n - moved0 > 0 then draw_from_holds s (n - moved0) (snd a) else (0, snd a))"
  define moved where "moved = moved0 + fst h"
  have a: "fst a = carry_of s w - n" "held_of s (snd a) = held_of s w"
    using adjust_carry_spec(4) [OF ok, of s s d] adjust_carry_spec(2) [OF ok] d by (simp_all add: a_def n_def)
  then have m0: "moved0 \<le> n" by (simp add: moved0_def)
  have "accounts_ok (Suc k) (snd a)" using adjust_carry_spec(1) [OF ok] by (simp add: a_def)
  then have "fst h = min (held_of s w) (n - moved0)"
    using draw_from_holds_spec(2) [of "Suc k" "snd a" s "n - moved0"] a(2) by (simp add: h_def)
  then have mv: "moved = min (carry_of s w + held_of s w) n"
    using a(1) by (auto simp: moved_def moved0_def min_def)
  then have m: "moved \<le> n" by simp
  define D where "D = (if moved > 0 then [(s, moved)] else [])"
  define S where "S = (if n - moved > 0 then [(s, n - moved)] else [])"
  have "debit_one (s, d) (w, b) = (if n - moved > 0 then accrue_debt s (n - moved) (snd h) else snd h,
      b\<lparr>bk_debited := bk_debited b @ D, bk_shortfall := bk_shortfall b @ S\<rparr>)"
    unfolding debit_one_def Let_def prod.case n_def [symmetric] a_def [symmetric] moved0_def [symmetric]
      h_def [symmetric] moved_def [symmetric] by (simp add: D_def S_def)
  moreover have "(if n - moved > 0 then accrue_debt s (n - moved) (snd h) else snd h) = acc.take_off s d w"
    unfolding acc.take_off_def Let_def n_def [symmetric] a_def [symmetric] moved0_def [symmetric]
      h_def [symmetric] moved_def [symmetric] ..
  ultimately show thesis
    using m mv d by (intro that [of S D]) (auto simp: D_def S_def n_def)
qed

lemma debits_spec:
  assumes "accounts_ok (2 * length ds + k) w" "\<forall>e \<in> set ds. snd e < 0 \<and> unsigned_abs (snd e) \<le> i64_max"
    and "acc.roomy (gross ds + B) w"
  obtains w' D S where "fold debit_one ds (w, b)
      = (w', b\<lparr>bk_debited := bk_debited b @ D, bk_shortfall := bk_shortfall b @ S\<rparr>)"
    and "accounts_ok k w'" "acc.roomy B w'" "w_rebate_owed w' = w_rebate_owed w"
    and "\<And>x. net_position x w' = net_position x w + net_delta x ds" "no_double w \<Longrightarrow> no_double w'"
    and "\<And>x. int (amount_of x D + amount_of x S) = - net_delta x ds"
    and "length D \<le> length ds" "length S \<le> length ds" "entries_ok D" "entries_ok S"
    and "amount_all D + amount_all S = gross ds"
    and "\<And>x. carry_of x w' + held_of x w' + amount_of x D = carry_of x w + held_of x w"
    and "\<And>x. debt_of x w' = debt_of x w + amount_of x S"
  using assms
proof (induction ds arbitrary: w b thesis)
  case Nil
  show ?case by (rule Nil(1) [of w "[]" "[]"]) (use Nil in auto)
next
  case (Cons e ds)
  obtain s d where e: "e = (s, d)" by (cases e)
  have ok: "accounts_ok (Suc (Suc (2 * length ds + k))) w" using Cons.prems(2) by simp
  have d: "d < 0" "unsigned_abs d \<le> i64_max" using Cons.prems(3) e by auto
  have d': "unsigned_abs d \<le> u64_max" using d(2) by simp
  have room: "debt_of s w + unsigned_abs d \<le> u64_max"
    using acc.roomyD(2) [OF Cons.prems(4), of s] e by simp
  let ?w = "acc.take_off s d w"
  note T = acc.take_off_carry [OF ok d(1) d'] acc.take_off_position [OF ok d(1) d' room] acc.take_off_separate [OF ok d(1) d']
  have roomy: "acc.roomy (gross ds + B) ?w"
    unfolding acc.roomy_def
  proof
    fix y
    show "carry_of y ?w + (gross ds + B) \<le> u64_max \<and> debt_of y ?w + (gross ds + B) \<le> u64_max"
      using acc.roomyD [OF Cons.prems(4), of y] T(1,3) [of y s] sat_add64_le_sum [of "debt_of s w"] e
      by (auto simp: sat_add64_def)
  qed
  obtain D1 S1 where 1: "debit_one (s, d) (w, b) = (?w,
      b\<lparr>bk_debited := bk_debited b @ D1, bk_shortfall := bk_shortfall b @ S1\<rparr>)"
    "\<And>x. amount_of x D1 + amount_of x S1 = (if x = s then unsigned_abs d else 0)"
    "length D1 \<le> 1" "length S1 \<le> 1" "entries_ok D1" "entries_ok S1" "amount_all D1 + amount_all S1 = unsigned_abs d"
    "\<And>x. amount_of x D1 = (if x = s then min (carry_of s w + held_of s w) (unsigned_abs d) else 0)"
    using debit_one_spec [OF ok d] by metis
  have ds: "\<forall>e \<in> set ds. snd e < 0 \<and> unsigned_abs (snd e) \<le> i64_max" using Cons.prems(3) by simp
  let ?b1 = "b\<lparr>bk_debited := bk_debited b @ D1, bk_shortfall := bk_shortfall b @ S1\<rparr>"
  obtain w' D S where 2: "fold debit_one ds (?w, ?b1)
      = (w', ?b1\<lparr>bk_debited := bk_debited ?b1 @ D, bk_shortfall := bk_shortfall ?b1 @ S\<rparr>)"
    "accounts_ok k w'" "acc.roomy B w'" "w_rebate_owed w' = w_rebate_owed ?w"
    "\<And>x. net_position x w' = net_position x ?w + net_delta x ds" "no_double ?w \<Longrightarrow> no_double w'"
    "\<And>x. int (amount_of x D + amount_of x S) = - net_delta x ds"
    "length D \<le> length ds" "length S \<le> length ds" "entries_ok D" "entries_ok S" "amount_all D + amount_all S = gross ds"
    "\<And>x. carry_of x w' + held_of x w' + amount_of x D = carry_of x ?w + held_of x ?w"
    "\<And>x. debt_of x w' = debt_of x ?w + amount_of x S"
    by (rule Cons.IH [OF _ T(4) ds roomy, of ?b1]) (rule that)
  have pos: "net_position x w' = net_position x w + net_delta x (e # ds)" for x
    using 2(5) [of x] T(5) [of x] e by (simp add: net_position_acc)
  have am: "int (amount_of x (D1 @ D) + amount_of x (S1 @ S)) = - net_delta x (e # ds)" for x
    using 2(7) [of x] 1(2) [of x] unsigned_abs_neg [OF d(1)] e by auto
  have nd: "no_double w \<Longrightarrow> no_double w'" using 2(6) T(6) by (simp add: no_double_acc)
  have f: "fold debit_one (e # ds) (w, b)
      = (w', b\<lparr>bk_debited := bk_debited b @ (D1 @ D), bk_shortfall := bk_shortfall b @ (S1 @ S)\<rparr>)"
    using 1(1) 2(1) e by simp
  have ch: "carry_of x w' + held_of x w' + amount_of x (D1 @ D) = carry_of x w + held_of x w" for x
    using 2(13) [of x] 1(8) [of x] T(1,2) [of x s] by (auto simp: min_def)
  have db: "debt_of x w' = debt_of x w + amount_of x (S1 @ S)" for x
    using 2(14) [of x] 1(2) [of x] 1(8) [of x] T(3) [of x s] room by (auto simp: min_def split: if_splits)
  show ?case
    by (rule Cons.prems(1) [OF f 2(2,3) _ pos nd am _ _ _ _ _ ch db]) (use 1(3-7) 2(4,8-12) e in simp_all)
qed


subsection \<open>Credits\<close>

lemma write_ident_simps [simp]:
  "l_window (write_ident kn s l) = l_window l" "l_dirty (write_ident kn s l) = l_dirty l"
  "l_credits_out (write_ident kn s l) = l_credits_out l"
  by (simp_all add: write_ident_def)

lemma credit_one_spec:
  assumes ok: "accounts_ok (Suc k) (l_window l)" and d: "d > 0" "unsigned_abs d \<le> i64_max"
    and room: "carry_of s (l_window l) + unsigned_abs d \<le> u64_max"
  obtains C P where "credit_one (s, d) (l, b)
      = (write_ident (known s l) s (l\<lparr>l_window := acc.put_on s (unsigned_abs d) (l_window l)\<rparr>),
         b\<lparr>bk_credited := bk_credited b @ C, bk_debt_paid := bk_debt_paid b @ P\<rparr>)"
    and "\<And>x. amount_of x C = (if x = s then unsigned_abs d - debt_of s (l_window l) else 0)"
    and "\<And>x. amount_of x P = (if x = s then min (debt_of s (l_window l)) (unsigned_abs d) else 0)"
    and "length C \<le> 1" "length P \<le> 1" "entries_ok C" "entries_ok P" "amount_all P \<le> unsigned_abs d"
proof -
  define w where "w = l_window l"
  define n where "n = unsigned_abs d"
  define r where "r = reduce_debt s n w"
  define onto where "onto = n - fst r"
  define a where "a = (if onto > 0 then adjust_carry s (to_i64 onto) (snd r) else (carry_of s (snd r), snd r))"
  have ok': "accounts_ok (Suc k) w" using ok by (simp add: w_def)
  have ok1: "accounts_ok (Suc k) (snd r)" and p: "fst r = min (debt_of s w) n" and c1: "carry_of s (snd r) = carry_of s w"
    using reduce_debt_spec [OF ok'] by (auto simp: r_def)
  have o: "onto = n - debt_of s w" by (simp add: onto_def p)
  have "fst a = carry_of s w + onto"
    using adjust_carry_spec(2) [OF ok1, of s "to_i64 onto"] c1 room d(2) by (auto simp: a_def o n_def w_def)
  define P where "P = (if fst r > 0 then [(s, fst r)] else [])"
  define C where "C = (if onto > 0 then [(s, onto)] else [])"
  have w': "snd a = acc.put_on s n w"
    by (simp add: a_def acc.put_on_def r_def [symmetric] onto_def case_prod_beta)
  have "credit_one (s, d) (l, b) = (write_ident (known s l) s (l\<lparr>l_window := snd a\<rparr>),
      b\<lparr>bk_credited := bk_credited b @ C, bk_debt_paid := bk_debt_paid b @ P\<rparr>)"
    unfolding credit_one_def Let_def prod.case n_def [symmetric] w_def [symmetric] r_def [symmetric]
      onto_def [symmetric] a_def [symmetric]
    using \<open>fst a = carry_of s w + onto\<close> c1 by (simp add: P_def C_def)
  then show thesis
    using d o p w' by (intro that [of P C]) (auto simp: P_def C_def n_def w_def)
qed

lemma credits_spec:
  assumes "accounts_ok (length ds + k) (l_window l)" "\<forall>e \<in> set ds. snd e > 0 \<and> unsigned_abs (snd e) \<le> i64_max"
    and "acc.roomy (gross ds + B) (l_window l)"
  obtains l' C P where "fold credit_one ds (l, b)
      = (l', b\<lparr>bk_credited := bk_credited b @ C, bk_debt_paid := bk_debt_paid b @ P\<rparr>)"
    and "accounts_ok k (l_window l')" "acc.roomy B (l_window l')"
    and "w_rebate_owed (l_window l') = w_rebate_owed (l_window l)"
    and "\<And>x. net_position x (l_window l') = net_position x (l_window l) + net_delta x ds"
    and "no_double (l_window l) \<Longrightarrow> no_double (l_window l')"
    and "\<And>x. carry_of x (l_window l') = carry_of x (l_window l) + amount_of x C"
    and "\<And>x. int (amount_of x C + amount_of x P) = net_delta x ds"
    and "length C \<le> length ds" "length P \<le> length ds" "entries_ok C" "entries_ok P" "amount_all P \<le> gross ds"
  using assms
proof (induction ds arbitrary: l b thesis)
  case Nil
  show ?case by (rule Nil(1) [of l "[]" "[]"]) (use Nil in auto)
next
  case (Cons e ds)
  obtain s d where e: "e = (s, d)" by (cases e)
  let ?w = "l_window l"
  have ok: "accounts_ok (Suc (length ds + k)) ?w" using Cons.prems(2) by simp
  have d: "d > 0" "unsigned_abs d \<le> i64_max" using Cons.prems(3) e by auto
  have room: "carry_of s ?w + unsigned_abs d \<le> u64_max"
    using acc.roomyD(1) [OF Cons.prems(4), of s] e by simp
  let ?w1 = "acc.put_on s (unsigned_abs d) ?w"
  note T = acc.put_on_carry [OF ok d(2) room] acc.put_on_position [OF ok d(2) room] acc.put_on_separate [OF ok d(2) room]
  have roomy: "acc.roomy (gross ds + B) ?w1"
    unfolding acc.roomy_def
  proof
    fix y
    show "carry_of y ?w1 + (gross ds + B) \<le> u64_max \<and> debt_of y ?w1 + (gross ds + B) \<le> u64_max"
      using acc.roomyD [OF Cons.prems(4), of y] T(1,2) [of y] e by auto
  qed
  let ?l1 = "write_ident (known s l) s (l\<lparr>l_window := ?w1\<rparr>)"
  obtain C1 P1 where 1: "credit_one (s, d) (l, b)
      = (?l1, b\<lparr>bk_credited := bk_credited b @ C1, bk_debt_paid := bk_debt_paid b @ P1\<rparr>)"
    "\<And>x. amount_of x C1 = (if x = s then unsigned_abs d - debt_of s ?w else 0)"
    "\<And>x. amount_of x P1 = (if x = s then min (debt_of s ?w) (unsigned_abs d) else 0)"
    "length C1 \<le> 1" "length P1 \<le> 1" "entries_ok C1" "entries_ok P1" "amount_all P1 \<le> unsigned_abs d"
    using credit_one_spec [OF ok d room] by metis
  have ds: "\<forall>e \<in> set ds. snd e > 0 \<and> unsigned_abs (snd e) \<le> i64_max" using Cons.prems(3) by simp
  have ok1: "accounts_ok (length ds + k) (l_window ?l1)" and room1: "acc.roomy (gross ds + B) (l_window ?l1)"
    using T(4) roomy by simp_all
  let ?b1 = "b\<lparr>bk_credited := bk_credited b @ C1, bk_debt_paid := bk_debt_paid b @ P1\<rparr>"
  obtain l' C P where 2: "fold credit_one ds (?l1, ?b1)
      = (l', ?b1\<lparr>bk_credited := bk_credited ?b1 @ C, bk_debt_paid := bk_debt_paid ?b1 @ P\<rparr>)"
    "accounts_ok k (l_window l')" "acc.roomy B (l_window l')"
    "w_rebate_owed (l_window l') = w_rebate_owed (l_window ?l1)"
    "\<And>x. net_position x (l_window l') = net_position x (l_window ?l1) + net_delta x ds"
    "no_double (l_window ?l1) \<Longrightarrow> no_double (l_window l')"
    "\<And>x. carry_of x (l_window l') = carry_of x (l_window ?l1) + amount_of x C"
    "\<And>x. int (amount_of x C + amount_of x P) = net_delta x ds"
    "length C \<le> length ds" "length P \<le> length ds" "entries_ok C" "entries_ok P" "amount_all P \<le> gross ds"
    by (rule Cons.IH [OF _ ok1 ds room1, of ?b1]) (rule that)
  have am: "int (amount_of x (C1 @ C) + amount_of x (P1 @ P)) = net_delta x (e # ds)" for x
    using 2(8) [of x] 1(2,3) [of x] unsigned_abs_pos [OF d(1)] e by auto
  have pos: "net_position x (l_window l') = net_position x ?w + net_delta x (e # ds)" for x
    using 2(5) [of x] T(5) [of x] unsigned_abs_pos [OF d(1)] e by (simp add: net_position_acc)
  have car: "carry_of x (l_window l') = carry_of x ?w + amount_of x (C1 @ C)" for x
    using 2(7) [of x] T(1) [of x] 1(2) [of x] by auto
  have nd: "no_double ?w \<Longrightarrow> no_double (l_window l')" using 2(6) T(6) by (simp add: no_double_acc)
  have f: "fold credit_one (e # ds) (l, b)
      = (l', b\<lparr>bk_credited := bk_credited b @ (C1 @ C), bk_debt_paid := bk_debt_paid b @ (P1 @ P)\<rparr>)"
    using 1(1) 2(1) e by simp
  show ?case
    by (rule Cons.prems(1) [OF f 2(2,3) _ pos nd car am]) (use 1(4-8) 2(4,9-13) e in simp_all)
qed

subsection \<open>Undoing\<close>

lemma uncredits_spec:
  assumes "accounts_ok (length es + k) w" "entries_ok es" "\<And>x. amount_of x es \<le> carry_of x w"
  obtains w' where "fold uncredit_one es (w, 0) = (w', 0)" "accounts_ok k w'"
    and "\<And>x. carry_of x w' = carry_of x w - amount_of x es"
    and "\<And>x. debt_of x w' = debt_of x w" "\<And>x. held_of x w' = held_of x w"
    and "w_rebate_owed w' = w_rebate_owed w"
  using assms
proof (induction es arbitrary: w thesis)
  case Nil
  then show ?case by auto
next
  case (Cons e es)
  obtain s n where e: "e = (s, n)" by (cases e)
  have ok: "accounts_ok (Suc (length es + k)) w" using Cons.prems(2) by simp
  have n: "n \<le> i64_max" and es: "entries_ok es" using Cons.prems(3) e by (auto simp: entries_ok_def)
  have le: "n \<le> carry_of s w" using Cons.prems(4) [of s] e by simp
  let ?w = "snd (adjust_carry s (- to_i64 n) w)"
  note A = adjust_carry_spec [OF ok, where s = s and d = "- to_i64 n"]
  have mv: "move (carry_of s w) (- to_i64 n) = carry_of s w - n"
    using n carry_of_max [OF ok] by simp
  have one: "uncredit_one (s, n) (w, 0) = (?w, 0)"
    using A(2) mv le by (simp add: uncredit_one_def Let_def sat_add64_def)
  have c: "carry_of x ?w = (if x = s then carry_of s w - n else carry_of x w)" for x
    using A(3) [of x] mv by simp
  have "amount_of x es \<le> carry_of x ?w" for x
    using Cons.prems(4) [of x] c [of x] e by (auto split: if_splits)
  from Cons.IH [OF _ A(1) es this] obtain w' where 2: "fold uncredit_one es (?w, 0) = (w', 0)" "accounts_ok k w'"
    "\<And>x. carry_of x w' = carry_of x ?w - amount_of x es" "\<And>x. debt_of x w' = debt_of x ?w"
    "\<And>x. held_of x w' = held_of x ?w" "w_rebate_owed w' = w_rebate_owed ?w" by metis
  show ?case
  proof (rule Cons.prems(1) [of w'])
    show "carry_of x w' = carry_of x w - amount_of x (e # es)" for x
      using 2(3) [of x] c [of x] e by auto
    show "debt_of x w' = debt_of x w" "held_of x w' = held_of x w" for x
      using 2(4,5) [of x] A(4) [of x] by simp_all
  qed (use 2 one e in simp_all)
qed


subsection \<open>The two booking steps and their undoing\<close>

definition headroom :: "nat \<Rightarrow> window \<Rightarrow> bool" where
  "headroom n w \<longleftrightarrow> (\<forall>s. carry_of s w + n \<le> u64_max \<and> debt_of s w + n \<le> u64_max)"

lemma headroom_acc: "headroom = acc.roomy"
  by (intro ext) (simp add: headroom_def acc.roomy_def)

abbreviation debits_in :: "(string \<times> i64) list \<Rightarrow> (string \<times> i64) list" where
  "debits_in \<equiv> filter (\<lambda>e. snd e < 0)"

abbreviation credits_in :: "(string \<times> i64) list \<Rightarrow> (string \<times> i64) list" where
  "credits_in \<equiv> filter (\<lambda>e. snd e > 0)"

definition delta_ok :: "(string \<times> i64) list \<Rightarrow> bool" where
  "delta_ok ds \<longleftrightarrow> (\<forall>e \<in> set ds. unsigned_abs (snd e) \<le> i64_max)"

lemma accounts_ok_mono: "accounts_ok k w \<Longrightarrow> j \<le> k \<Longrightarrow> accounts_ok j w"
  by (simp add: accounts_ok_def)

lemma gross_parts: "gross (debits_in ds) + gross (credits_in ds) = gross ds"
  by (induction ds) (auto simp: unsigned_abs_def)

lemma length_parts: "length (debits_in ds) + length (credits_in ds) \<le> length ds"
  by (induction ds) auto

lemma net_delta_parts: "net_delta s (debits_in ds) + net_delta s (credits_in ds) = net_delta s ds"
  by (induction ds) auto

lemma book_debits_spec:
  assumes live: "\<not> bk_debits_live b" and ok: "accounts_ok (2 * length (debits_in delta) + k) (l_window l)"
    and d: "delta_ok delta" and room: "headroom (gross (debits_in delta) + B) (l_window l)"
    and r: "bk_rebate_owed_credited b \<le> i64_max" "w_rebate_owed (l_window l) \<le> u64_max"
  obtains b' l' where "book_debits delta b l = (b', l')" "bk_debits_live b'" "bk_credits_live b' = bk_credits_live b"
    and "accounts_ok k (l_window l')" "headroom B (l_window l')"
    and "\<And>s. net_position s (l_window l') = net_position s (l_window l) + net_delta s (debits_in delta)"
    and "no_double (l_window l) \<Longrightarrow> no_double (l_window l')"
    and "\<And>s. int (amount_of s (bk_debited b') + amount_of s (bk_shortfall b')) = - net_delta s (debits_in delta)"
    and "w_rebate_owed (l_window l') + bk_rebate_debited b' = w_rebate_owed (l_window l)"
    and "bk_rebate_debited b' = min (w_rebate_owed (l_window l)) (bk_rebate_owed_credited b)"
    and "bk_rebate_deferred b' = bk_rebate_deferred b"
    and "length (bk_debited b') + length (bk_shortfall b') \<le> 2 * length (debits_in delta)"
    and "entries_ok (bk_debited b')" "entries_ok (bk_shortfall b')"
    and "amount_all (bk_debited b') + amount_all (bk_shortfall b') = gross (debits_in delta)"
    and "l_idents_out l' = l_idents_out l"
    and "\<And>x. carry_of x (l_window l') + held_of x (l_window l') + amount_of x (bk_debited b')
      = carry_of x (l_window l) + held_of x (l_window l)"
    and "\<And>x. debt_of x (l_window l') = debt_of x (l_window l) + amount_of x (bk_shortfall b')"
proof -
  let ?b0 = "b\<lparr>bk_debited := [], bk_shortfall := []\<rparr>"
  have ds: "\<forall>e \<in> set (debits_in delta). snd e < 0 \<and> unsigned_abs (snd e) \<le> i64_max"
    using d by (auto simp: delta_ok_def)
  obtain w' D S where 1: "fold debit_one (debits_in delta) (l_window l, ?b0)
      = (w', ?b0\<lparr>bk_debited := bk_debited ?b0 @ D, bk_shortfall := bk_shortfall ?b0 @ S\<rparr>)"
    "accounts_ok k w'" "acc.roomy B w'" "w_rebate_owed w' = w_rebate_owed (l_window l)"
    "\<And>x. net_position x w' = net_position x (l_window l) + net_delta x (debits_in delta)"
    "no_double (l_window l) \<Longrightarrow> no_double w'"
    "\<And>x. int (amount_of x D + amount_of x S) = - net_delta x (debits_in delta)"
    "length D \<le> length (debits_in delta)" "length S \<le> length (debits_in delta)" "entries_ok D" "entries_ok S"
    "amount_all D + amount_all S = gross (debits_in delta)"
    "\<And>x. carry_of x w' + held_of x w' + amount_of x D = carry_of x (l_window l) + held_of x (l_window l)"
    "\<And>x. debt_of x w' = debt_of x (l_window l) + amount_of x S"
    by (rule debits_spec [OF ok ds room [unfolded headroom_acc], of ?b0]) (rule that)
  define r' where "r' = w_rebate_owed (l_window l) - bk_rebate_owed_credited b"
  have mv: "move (w_rebate_owed (l_window l)) (- to_i64 (bk_rebate_owed_credited b)) = r'"
    using r by (simp add: r'_def)
  define b' where "b' = ?b0\<lparr>bk_debited := D, bk_shortfall := S,
    bk_rebate_debited := w_rebate_owed (l_window l) - r', bk_debits_live := True\<rparr>"
  have e: "book_debits delta b l = (b', l\<lparr>l_window := w'\<lparr>w_rebate_owed := r'\<rparr>, l_dirty := True\<rparr>)"
    using live 1(1,4) mv by (simp add: book_debits_def Let_def b'_def)
  show thesis
    by (rule that [OF e]) (use 1 r in \<open>simp_all add: b'_def r'_def headroom_acc\<close>)
qed

lemma book_credits_spec:
  assumes live: "\<not> bk_credits_live b" and ok: "accounts_ok (length (credits_in delta) + k) (l_window l)"
    and d: "delta_ok delta" and room: "headroom (gross (credits_in delta) + B) (l_window l)"
    and r: "bk_rebate_deferred b \<le> i64_max" "w_rebate_owed (l_window l) + bk_rebate_deferred b \<le> u64_max"
  obtains b' l' where "book_credits delta b l = (b', l')" "bk_credits_live b'" "bk_debits_live b' = bk_debits_live b"
    and "accounts_ok k (l_window l')" "headroom B (l_window l')"
    and "\<And>s. net_position s (l_window l') = net_position s (l_window l) + net_delta s (credits_in delta)"
    and "no_double (l_window l) \<Longrightarrow> no_double (l_window l')"
    and "\<And>s. int (amount_of s (bk_credited b') + amount_of s (bk_debt_paid b')) = net_delta s (credits_in delta)"
    and "\<And>s. carry_of s (l_window l') = carry_of s (l_window l) + amount_of s (bk_credited b')"
    and "w_rebate_owed (l_window l') = w_rebate_owed (l_window l) + bk_rebate_deferred b"
    and "bk_rebate_added b' = bk_rebate_deferred b"
    and "bk_debited b' = bk_debited b" "bk_shortfall b' = bk_shortfall b" "bk_rebate_debited b' = bk_rebate_debited b"
    and "length (bk_credited b') \<le> length (credits_in delta)" "length (bk_debt_paid b') \<le> length (credits_in delta)"
    and "entries_ok (bk_credited b')" "entries_ok (bk_debt_paid b')"
    and "amount_all (bk_debt_paid b') \<le> gross (credits_in delta)"
proof -
  let ?b0 = "b\<lparr>bk_credited := [], bk_debt_paid := []\<rparr>"
  have ds: "\<forall>e \<in> set (credits_in delta). snd e > 0 \<and> unsigned_abs (snd e) \<le> i64_max"
    using d by (auto simp: delta_ok_def)
  obtain l1 C P where 1: "fold credit_one (credits_in delta) (l, ?b0)
      = (l1, ?b0\<lparr>bk_credited := bk_credited ?b0 @ C, bk_debt_paid := bk_debt_paid ?b0 @ P\<rparr>)"
    "accounts_ok k (l_window l1)" "acc.roomy B (l_window l1)" "w_rebate_owed (l_window l1) = w_rebate_owed (l_window l)"
    "\<And>x. net_position x (l_window l1) = net_position x (l_window l) + net_delta x (credits_in delta)"
    "no_double (l_window l) \<Longrightarrow> no_double (l_window l1)"
    "\<And>x. carry_of x (l_window l1) = carry_of x (l_window l) + amount_of x C"
    "\<And>x. int (amount_of x C + amount_of x P) = net_delta x (credits_in delta)"
    "length C \<le> length (credits_in delta)" "length P \<le> length (credits_in delta)" "entries_ok C" "entries_ok P"
    "amount_all P \<le> gross (credits_in delta)"
    by (rule credits_spec [OF ok ds room [unfolded headroom_acc], of ?b0]) (rule that)
  define r' where "r' = w_rebate_owed (l_window l) + bk_rebate_deferred b"
  have mv: "move (w_rebate_owed (l_window l)) (to_i64 (bk_rebate_deferred b)) = r'"
    using r by (simp add: r'_def)
  define b' where "b' = ?b0\<lparr>bk_credited := C, bk_debt_paid := P,
    bk_rebate_added := r' - w_rebate_owed (l_window l), bk_credits_live := True\<rparr>"
  have e: "book_credits delta b l = (b', l1\<lparr>l_window := (l_window l1)\<lparr>w_rebate_owed := r'\<rparr>, l_dirty := True\<rparr>)"
    using live 1(1,4) mv by (simp add: book_credits_def Let_def b'_def)
  show thesis
    by (rule that [OF e]) (use 1 r in \<open>simp_all add: b'_def r'_def headroom_acc\<close>)
qed

text \<open>Undoing a block whose credits are still all on the books.\<close>

lemma unbook_credits_spec:
  assumes ok: "accounts_ok (length (bk_credited b) + (2 * length (bk_debt_paid b) + k)) w"
    and es: "entries_ok (bk_credited b)" "entries_ok (bk_debt_paid b)"
    and have_credits: "\<And>s. amount_of s (bk_credited b) \<le> carry_of s w"
    and room: "headroom (amount_all (bk_debt_paid b) + B) w"
    and reb: "bk_rebate_added b \<le> i64_max" "w_rebate_owed w \<le> u64_max"
  obtains w' where "unbook_credits b w = (w', 0)" "accounts_ok k w'" "headroom B w'"
    and "\<And>s. net_position s w' = net_position s w - int (amount_of s (bk_credited b) + amount_of s (bk_debt_paid b))"
    and "w_rebate_owed w' = w_rebate_owed w - bk_rebate_added b" "no_double w \<Longrightarrow> no_double w'"
proof -
  obtain w1 where
    1: "fold uncredit_one (bk_credited b) (w, 0) = (w1, 0)" "accounts_ok (2 * length (bk_debt_paid b) + k) w1"
      "\<And>x. carry_of x w1 = carry_of x w - amount_of x (bk_credited b)"
      "\<And>x. debt_of x w1 = debt_of x w" "\<And>x. held_of x w1 = held_of x w" "w_rebate_owed w1 = w_rebate_owed w"
    using uncredits_spec [OF ok es(1) have_credits] by metis
  have room1: "acc.roomy (amount_all (bk_debt_paid b) + B) w1"
    unfolding acc.roomy_def
  proof
    fix y
    show "carry_of y w1 + (amount_all (bk_debt_paid b) + B) \<le> u64_max
        \<and> debt_of y w1 + (amount_all (bk_debt_paid b) + B) \<le> u64_max"
      using room 1(3) [of y] 1(4) [of y] unfolding headroom_def by (auto dest!: spec [of _ y])
  qed
  have sep1: "no_double w1" if "no_double w"
    using that 1(3,4) unfolding no_double_def by (metis diff_0_eq_0)
  define w2 where "w2 = fold (\<lambda>e. acc.owe_again (fst e) (snd e)) (bk_debt_paid b) w1"
  note 2 = acc.owe_agains [OF 1(2) room1 es(2) [unfolded entries_ok_def], folded w2_def]
  define w3 where "w3 = w2\<lparr>w_rebate_owed := w_rebate_owed w - bk_rebate_added b\<rparr>"
  have "w_rebate_owed w2 = w_rebate_owed w" by (simp add: w2_def 1(6))
  then have c: "unbook_credits b w = (w3, 0)"
    using reb by (simp add: unbook_credits_def 1(1,6) fold_put_on w2_def [symmetric] w3_def)
  have pos1: "net_position s w1 = net_position s w - int (amount_of s (bk_credited b))" for s
    using 1(3-5) [of s] have_credits [of s] by (simp add: net_position_def)
  have pos3: "net_position s w3 = net_position s w1 - int (amount_of s (bk_debt_paid b))" for s
    using 2(3) [of s] by (simp add: w3_def net_position_acc acc.position_def)
  show thesis
    by (rule that [OF c]) (use 2 sep1 pos1 pos3 in \<open>simp_all add: w3_def headroom_acc no_double_acc acc.separate_def\<close>)
qed

lemma unbook_debits_spec:
  assumes ok: "accounts_ok (length (bk_debited b) + (length (bk_shortfall b) + k)) w"
    and es: "entries_ok (bk_debited b)" "entries_ok (bk_shortfall b)"
    and room: "headroom (amount_all (bk_debited b) + (amount_all (bk_shortfall b) + B)) w"
    and reb: "bk_rebate_debited b \<le> i64_max" "w_rebate_owed w + bk_rebate_debited b \<le> u64_max"
  shows "accounts_ok k (unbook_debits b w)" "headroom B (unbook_debits b w)"
    and "net_position s (unbook_debits b w)
      = net_position s w + int (amount_of s (bk_debited b) + amount_of s (bk_shortfall b))"
    and "w_rebate_owed (unbook_debits b w) = w_rebate_owed w + bk_rebate_debited b"
    and "no_double w \<Longrightarrow> no_double (unbook_debits b w)"
proof -
  define w1 where "w1 = fold (\<lambda>e. acc.put_on (fst e) (snd e)) (bk_debited b) w"
  note 1 = acc.put_ons [OF ok room [unfolded headroom_acc] es(1) [unfolded entries_ok_def], folded w1_def]
  define w2 where "w2 = fold (\<lambda>e. acc.put_on (fst e) (snd e)) (bk_shortfall b) w1"
  note 2 = acc.put_ons [OF 1(1,2) es(2) [unfolded entries_ok_def], folded w2_def]
  have r: "w_rebate_owed w1 = w_rebate_owed w" by (simp add: w1_def)
  then have e: "unbook_debits b w = w2\<lparr>w_rebate_owed := w_rebate_owed w + bk_rebate_debited b\<rparr>"
    using reb by (simp add: unbook_debits_def Let_def fold_put_on w1_def [symmetric] w2_def [symmetric])
  show "accounts_ok k (unbook_debits b w)" "headroom B (unbook_debits b w)"
    "w_rebate_owed (unbook_debits b w) = w_rebate_owed w + bk_rebate_debited b"
    using 2(1,2) by (simp_all add: e headroom_acc)
  show "net_position s (unbook_debits b w)
      = net_position s w + int (amount_of s (bk_debited b) + amount_of s (bk_shortfall b))"
    using 1(3) [of s] 2(3) [of s] by (simp add: e net_position_acc acc.position_def)
  show "no_double w \<Longrightarrow> no_double (unbook_debits b w)"
    using 1(4) 2(4) by (simp add: e no_double_acc acc.separate_def)
qed

lemma unbook_spec:
  assumes live: "bk_credits_live b" "bk_debits_live b"
    and ok: "accounts_ok (length (bk_credited b) + (2 * length (bk_debt_paid b)
       + (length (bk_debited b) + (length (bk_shortfall b) + k)))) (l_window l)"
    and es: "entries_ok (bk_credited b)" "entries_ok (bk_debt_paid b)" "entries_ok (bk_debited b)" "entries_ok (bk_shortfall b)"
    and have_credits: "\<And>s. amount_of s (bk_credited b) \<le> carry_of s (l_window l)"
    and room: "headroom (amount_all (bk_debt_paid b) + (amount_all (bk_debited b) + (amount_all (bk_shortfall b) + 0)))
      (l_window l)"
    and reb: "bk_rebate_added b \<le> i64_max" "bk_rebate_debited b \<le> i64_max"
      "w_rebate_owed (l_window l) + bk_rebate_debited b \<le> u64_max"
  obtains b' l' where "unbook b l = (0, b', l')" "\<not> bk_credits_live b'" "\<not> bk_debits_live b'"
    and "\<And>s. net_position s (l_window l') = net_position s (l_window l)
      - int (amount_of s (bk_credited b) + amount_of s (bk_debt_paid b))
      + int (amount_of s (bk_debited b) + amount_of s (bk_shortfall b))"
    and "w_rebate_owed (l_window l') = w_rebate_owed (l_window l) - bk_rebate_added b + bk_rebate_debited b"
    and "no_double (l_window l) \<Longrightarrow> no_double (l_window l')" "accounts_ok k (l_window l')"
proof -
  have "w_rebate_owed (l_window l) \<le> u64_max" using reb(3) by simp
  from unbook_credits_spec [OF ok es(1,2) have_credits room reb(1) this] obtain w1 where
    1: "unbook_credits b (l_window l) = (w1, 0)" "accounts_ok (length (bk_debited b) + (length (bk_shortfall b) + k)) w1"
      "headroom (amount_all (bk_debited b) + (amount_all (bk_shortfall b) + 0)) w1"
      "\<And>s. net_position s w1 = net_position s (l_window l) - int (amount_of s (bk_credited b) + amount_of s (bk_debt_paid b))"
      "w_rebate_owed w1 = w_rebate_owed (l_window l) - bk_rebate_added b" "no_double (l_window l) \<Longrightarrow> no_double w1"
    by metis
  let ?b1 = "b\<lparr>bk_credited := [], bk_debt_paid := [], bk_rebate_added := 0, bk_credits_live := False\<rparr>"
  have "unbook_debits ?b1 w1 = unbook_debits b w1" by (simp add: unbook_debits_def)
  then have e: "unbook b l = (0, ?b1\<lparr>bk_debited := [], bk_shortfall := [], bk_rebate_debited := 0, bk_debits_live := False\<rparr>,
      l\<lparr>l_window := unbook_debits b w1, l_dirty := True\<rparr>)"
    using live by (simp add: unbook_def 1(1) Let_def)
  have "w_rebate_owed w1 + bk_rebate_debited b \<le> u64_max" using reb(3) 1(5) by simp
  note 2 = unbook_debits_spec [OF 1(2) es(3,4) 1(3) reb(2) this]
  show thesis
    by (rule that [OF e]) (use 1 2 in simp_all)
qed

section \<open>Holds\<close>

lemma release_hold_spec:
  assumes h: "map_of (w_holds (l_window l)) batch = Some h"
    and ok: "accounts_ok (length (hd_entries h) + k) (l_window l)" and es: "entries_ok (hd_entries h)"
    and room: "headroom (amount_all (hd_entries h)) (l_window l)"
  shows "fst (release_hold batch l) = Some (hd_entries h)"
    and "net_position s (l_window (snd (release_hold batch l))) = net_position s (l_window l)"
    and "no_double (l_window l) \<Longrightarrow> no_double (l_window (snd (release_hold batch l)))"
    and "accounts_ok k (l_window (snd (release_hold batch l)))"
proof -
  let ?w = "l_window l"
  define w0 where "w0 = ?w\<lparr>w_holds := hold_remove batch (w_holds ?w)\<rparr>"
  define w1 where "w1 = fold (\<lambda>e. acc.put_on (fst e) (snd e)) (hd_entries h) w0"
  have d: "distinct (map fst (w_holds ?w))" using ok by (simp add: accounts_ok_def)
  have ok0: "accounts_ok (length (hd_entries h) + k) w0" using ok by (simp add: w0_def accounts_ok_def)
  have room0: "acc.roomy (amount_all (hd_entries h) + 0) w0"
    using room by (simp add: headroom_def acc.roomy_def w0_def carry_of_def debt_of_def)
  note 1 = acc.put_ons [OF ok0 room0 es [unfolded entries_ok_def], folded w1_def]
  have e: "release_hold batch l = (Some (hd_entries h), l\<lparr>l_window := w1, l_dirty := True\<rparr>)"
    by (simp add: release_hold_def h Let_def fold_put_on w0_def [symmetric] w1_def [symmetric])
  have "held_of s ?w = amount_of s (hd_entries h) + held_of s w0"
    using helds_split [OF d h, of s] by (simp add: held_of_helds w0_def)
  then have "net_position s w0 = net_position s ?w - int (amount_of s (hd_entries h))"
    by (simp add: net_position_def w0_def carry_of_def debt_of_def)
  then show "net_position s (l_window (snd (release_hold batch l))) = net_position s ?w"
    using 1(3) [of s] by (simp add: e net_position_acc)
  have "no_double w0 = no_double ?w" by (simp add: no_double_def w0_def carry_of_def debt_of_def)
  then show "no_double ?w \<Longrightarrow> no_double (l_window (snd (release_hold batch l)))"
    using 1(4) by (simp add: e no_double_acc)
  show "fst (release_hold batch l) = Some (hd_entries h)" "accounts_ok k (l_window (snd (release_hold batch l)))"
    using 1(1) by (simp_all add: e)
qed

text \<open>The stale balances a hold may take: of an identity nobody has seen work from.\<close>

lemma stale_carries_mem:
  "c \<in> set (stale_carries now after mn w) \<Longrightarrow> ident_ok w \<Longrightarrow>
    carry_of (sc_identity c) w = sc_sats c \<and> work_of (sc_identity c) w = 0 \<and> sc_sats c > 0 \<and> sc_sats c \<ge> mn
    \<and> last_seen_of (sc_identity c) w > 0 \<and> now - last_seen_of (sc_identity c) w \<ge> after"
proof -
  assume c: "c \<in> set (stale_carries now after mn w)" and ok: "ident_ok w"
  then obtain i where i: "i < length (w_idents w)" "w_carry w i \<noteq> None" "the (w_carry w i) \<ge> max mn 1" "w_totals w i = None"
    "(case w_last_seen w i of None \<Rightarrow> 0 | Some t \<Rightarrow> t) > 0" "now - (case w_last_seen w i of None \<Rightarrow> 0 | Some t \<Rightarrow> t) \<ge> after"
    "sc_identity c = w_idents w ! i" "sc_sats c = the (w_carry w i)"
    by (auto simp: stale_carries_def Let_def)
  have "w_index w (w_idents w ! i) = Some i" using ok i(1) by (simp add: ident_ok_def)
  then show ?thesis using i by (auto simp: carry_of_def last_seen_of_def lookup_def work_of_def)
qed

lemma hold_entries_spec:
  assumes "hold_entries stale es w held sk = Some (w', held', sk')"
    and "accounts_ok (length es + k) w" "\<And>s n. stale s = Some n \<Longrightarrow> s \<notin> fst ` set held \<Longrightarrow> n = carry_of s w"
    and "\<And>s n. stale s = Some n \<Longrightarrow> n \<le> i64_max"
  obtains new where "held' = held @ new" "accounts_ok k w'"
    and "\<And>x. carry_of x w' + amount_of x new = carry_of x w"
    and "\<And>x. debt_of x w' = debt_of x w" "\<And>x. held_of x w' = held_of x w" "w_holds w' = w_holds w"
    and "\<And>s n. (s, n) \<in> set new \<Longrightarrow> stale s = Some n \<and> (s, n) \<in> set es"
  using assms
proof (induction stale es w held sk arbitrary: thesis rule: hold_entries.induct)
  case (1 stale w held skipped)
  then show ?case by (auto intro: accounts_ok_mono)
next
  case (2 stale s n es w held skipped)
  show ?case
  proof (cases "hold_reason stale held s n")
    case (Some r)
    have ok0: "accounts_ok (length es + k) w" using 2(5) by (auto intro: accounts_ok_mono)
    have r0: "hold_entries stale es w held
        (skipped @ [\<lparr>hs_identity = s, hs_requested = n, hs_carry = carry_of s w, hs_reason = r\<rparr>]) = Some (w', held', sk')"
      using 2(4) Some by simp
    obtain new where new: "held' = held @ new" "accounts_ok k w'"
      "\<And>x. carry_of x w' + amount_of x new = carry_of x w" "\<And>x. debt_of x w' = debt_of x w"
      "\<And>x. held_of x w' = held_of x w" "w_holds w' = w_holds w"
      "\<And>s n. (s, n) \<in> set new \<Longrightarrow> stale s = Some n \<and> (s, n) \<in> set es"
      by (rule 2(2) [OF Some _ r0 ok0]) (assumption | erule (1) 2(6) | erule 2(7) | rule that)+
    show ?thesis
      by (rule 2(3) [OF new(1-6)]) (use new(7) in auto)
  next
    case None
    then have st: "stale s = Some n" "n \<noteq> 0" "s \<notin> fst ` set held"
      by (auto simp: hold_reason_def split: if_splits option.splits)
    have n: "n \<le> i64_max" "n = carry_of s w" using 2(6,7) st by auto
    have ng: "neg_as_i64 n = Some (- int n)" using n by (simp add: neg_as_i64_def)
    let ?w = "snd (adjust_carry s (- int n) w)"
    have ok: "accounts_ok (Suc (length es + k)) w" using 2(5) by simp
    note A = adjust_carry_spec [OF ok, where s = s and d = "- int n"]
    have mv: "move (carry_of s w) (- int n) = 0"
      using n st(2) by (simp add: move_def unsigned_abs_def)
    have c: "carry_of x ?w = (if x = s then 0 else carry_of x w)" for x using A(3) [of x] mv by simp
    have r: "hold_entries stale es ?w (held @ [(s, n)]) skipped = Some (w', held', sk')"
      using 2(4) None ng by simp
    have m: "m = carry_of t ?w" if "stale t = Some m" "t \<notin> fst ` set (held @ [(s, n)])" for t m
      using 2(6) [of t m] that c [of t] by auto
    note IH = 2(1) [OF None ng _ r A(1)]
    obtain new where new: "held' = (held @ [(s, n)]) @ new" "accounts_ok k w'"
      "\<And>x. carry_of x w' + amount_of x new = carry_of x ?w" "\<And>x. debt_of x w' = debt_of x ?w"
      "\<And>x. held_of x w' = held_of x ?w" "w_holds w' = w_holds ?w"
      "\<And>s n. (s, n) \<in> set new \<Longrightarrow> stale s = Some n \<and> (s, n) \<in> set es"
      by (rule IH) (assumption | erule (1) m | erule 2(7) | rule that)+
    have hw: "w_holds ?w = w_holds w"
      by (auto simp: adjust_carry_def Let_def split: prod.splits dest: intern_frame(3))
    show ?thesis
      by (rule 2(3) [of "(s, n) # new"]) (use new A(4) c n st hw in auto)
  qed
qed



text \<open>\<open>hold_entries\<close> only panics on balances no coinbase can reach.\<close>

lemma hold_entries_total:
  assumes "\<And>s n. stale s = Some n \<Longrightarrow> n \<le> i64_max"
  shows "\<exists>r. hold_entries stale es w held sk = Some r"
  using assms
proof (induction stale es w held sk rule: hold_entries.induct)
  case (2 stale s n es w held skipped)
  show ?case
  proof (cases "hold_reason stale held s n")
    case None
    then have "stale s = Some n" by (auto simp: hold_reason_def split: if_splits option.splits)
    then have "neg_as_i64 n = Some (- int n)" using 2(3) by (simp add: neg_as_i64_def)
    then show ?thesis using 2(1) [OF None _ 2(3)] None by simp
  qed (use 2 in simp)
qed simp

section \<open>Debits a crash left out\<close>

lemma carry_subs:
  assumes "accounts_ok (length es + k) w" "entries_ok es"
  shows "accounts_ok k (fold (\<lambda>e w. snd (adjust_carry (fst e) (- to_i64 (snd e)) w)) es w)"
    and "carry_of x (fold (\<lambda>e w. snd (adjust_carry (fst e) (- to_i64 (snd e)) w)) es w) = carry_of x w - amount_of x es"
    and "debt_of x (fold (\<lambda>e w. snd (adjust_carry (fst e) (- to_i64 (snd e)) w)) es w) = debt_of x w"
    and "w_rebate_owed (fold (\<lambda>e w. snd (adjust_carry (fst e) (- to_i64 (snd e)) w)) es w) = w_rebate_owed w"
proof -
  let ?f = "\<lambda>e w. snd (adjust_carry (fst e) (- to_i64 (snd e)) w)"
  have "accounts_ok k (fold ?f es w) \<and> carry_of x (fold ?f es w) = carry_of x w - amount_of x es
      \<and> debt_of x (fold ?f es w) = debt_of x w \<and> w_rebate_owed (fold ?f es w) = w_rebate_owed w"
    using assms
  proof (induction es arbitrary: w)
    case (Cons e es)
    have ok: "accounts_ok (Suc (length es + k)) w" and n: "snd e \<le> i64_max" and es: "entries_ok es"
      using Cons.prems by simp_all
    note A = adjust_carry_spec [OF ok, where s = "fst e" and d = "- to_i64 (snd e)"]
    have "move (carry_of (fst e) w) (- to_i64 (snd e)) = carry_of (fst e) w - snd e"
      using n carry_of_max [OF ok] by simp
    then show ?case using Cons.IH [OF A(1) es] A(3,4) [of x] by auto
  qed simp
  then show "accounts_ok k (fold ?f es w)" "carry_of x (fold ?f es w) = carry_of x w - amount_of x es"
    "debt_of x (fold ?f es w) = debt_of x w" "w_rebate_owed (fold ?f es w) = w_rebate_owed w"
    by blast+
qed

lemma debt_adds:
  assumes "accounts_ok (length es + k) w" "entries_ok es" "\<And>x. debt_of x w + amount_all es \<le> u64_max"
  shows "debt_of x (fold (\<lambda>e. accrue_debt (fst e) (snd e)) es w) = debt_of x w + amount_of x es"
    and "carry_of x (fold (\<lambda>e. accrue_debt (fst e) (snd e)) es w) = carry_of x w"
    and "w_rebate_owed (fold (\<lambda>e. accrue_debt (fst e) (snd e)) es w) = w_rebate_owed w"
proof -
  let ?f = "\<lambda>e. accrue_debt (fst e) (snd e)"
  have "debt_of x (fold ?f es w) = debt_of x w + amount_of x es \<and> carry_of x (fold ?f es w) = carry_of x w
      \<and> w_rebate_owed (fold ?f es w) = w_rebate_owed w"
    using assms
  proof (induction es arbitrary: w)
    case (Cons e es)
    have ok: "accounts_ok (Suc (length es + k)) w" and n: "snd e \<le> u64_max" and es: "entries_ok es"
      using Cons.prems(1,2) by simp_all
    have le: "debt_of (fst e) w + snd e \<le> u64_max" using Cons.prems(3) [of "fst e"] by simp
    note A = accrue_debt_spec(1) [OF ok n, of "fst e"] accrue_debt_spec(2,3) [OF ok, of _ "fst e" "snd e"]
    have "debt_of y (accrue_debt (fst e) (snd e) w) + amount_all es \<le> u64_max" for y
      using Cons.prems(3) [of y] A(2) [of y] le by auto
    from Cons.IH [OF A(1) es this] A(2,3) [of x] le show ?case by auto
  qed simp
  then show "debt_of x (fold ?f es w) = debt_of x w + amount_of x es" "carry_of x (fold ?f es w) = carry_of x w"
    "w_rebate_owed (fold ?f es w) = w_rebate_owed w"
    by blast+
qed

lemma reapply_debits_spec:
  assumes "accounts_ok (length (bk_debited k) + (length (bk_shortfall k) + j)) w" "entries_ok (bk_debited k)"
    and "entries_ok (bk_shortfall k)" "\<And>x. debt_of x w + amount_all (bk_shortfall k) \<le> u64_max"
    and "bk_rebate_debited k \<le> i64_max" "w_rebate_owed w \<le> u64_max"
  shows "carry_of x (reapply_debits k w) = carry_of x w - amount_of x (bk_debited k)"
    and "debt_of x (reapply_debits k w) = debt_of x w + amount_of x (bk_shortfall k)"
    and "w_rebate_owed (reapply_debits k w) = w_rebate_owed w - bk_rebate_debited k"
proof -
  define w1 where "w1 = fold (\<lambda>e w. snd (adjust_carry (fst e) (- to_i64 (snd e)) w)) (bk_debited k) w"
  define w2 where "w2 = w1\<lparr>w_rebate_owed := w_rebate_owed w - bk_rebate_debited k\<rparr>"
  note 1 = carry_subs [OF assms(1,2), folded w1_def]
  have e: "reapply_debits k w = fold (\<lambda>e. accrue_debt (fst e) (snd e)) (bk_shortfall k) w2"
    using assms(5,6) 1(4) by (simp add: reapply_debits_def Let_def w1_def [symmetric] w2_def)
  have ok2: "accounts_ok (length (bk_shortfall k) + j) w2" using 1(1) by (simp add: w2_def)
  have d2: "debt_of x w2 + amount_all (bk_shortfall k) \<le> u64_max" for x
    using assms(4) [of x] 1(3) [of x] by (simp add: w2_def)
  note 2 = debt_adds [OF ok2 assms(3) d2]
  show "carry_of x (reapply_debits k w) = carry_of x w - amount_of x (bk_debited k)"
    and "debt_of x (reapply_debits k w) = debt_of x w + amount_of x (bk_shortfall k)"
    and "w_rebate_owed (reapply_debits k w) = w_rebate_owed w - bk_rebate_debited k"
    using 1(2,3) [of x] 2(1,2) [of x] 2(3) by (simp_all add: e w2_def)
qed

lemma reconcile_one_done:
  "debits_on b \<longrightarrow> br_hash b \<in> l_applied_debits l \<Longrightarrow> reconcile_one b l = l"
  by (auto simp: reconcile_one_def debits_on_def split: option.splits)

lemma reconcile_one_applied:
  "l_applied_debits l \<subseteq> l_applied_debits (reconcile_one b l)"
  "debits_on b \<Longrightarrow> br_hash b \<in> l_applied_debits (reconcile_one b l)"
  "l_debits_tracked (reconcile_one b l) = l_debits_tracked l"
  by (auto simp: reconcile_one_def debits_on_def split: option.splits)

lemma reconcile_fold_applied:
  "l_applied_debits l \<subseteq> l_applied_debits (fold reconcile_one blocks l)
    \<and> (\<forall>b \<in> set blocks. debits_on b \<longrightarrow> br_hash b \<in> l_applied_debits (fold reconcile_one blocks l))
    \<and> l_debits_tracked (fold reconcile_one blocks l) = l_debits_tracked l"
proof (induction blocks arbitrary: l)
  case (Cons b blocks)
  have "l_applied_debits l \<subseteq> l_applied_debits (reconcile_one b l)" by (rule reconcile_one_applied)
  then show ?case
    using Cons.IH [of "reconcile_one b l"] reconcile_one_applied(2,3) [of b l] by auto
qed simp

lemma reconcile_fold_done:
  "\<forall>b \<in> set blocks. debits_on b \<longrightarrow> br_hash b \<in> l_applied_debits l \<Longrightarrow> fold reconcile_one blocks l = l"
  by (induction blocks) (auto simp: reconcile_one_done)

section \<open>The identity file\<close>

text \<open>The file names the table, line by line.\<close>

definition in_step :: "ledger \<Rightarrow> bool" where
  "in_step l \<longleftrightarrow> l_idents_out l = w_idents (l_window l)"

lemma in_step_write:
  assumes "in_step l" "w_idents w = w_idents (l_window l) @ (if w_index (l_window l) s = None then [s] else [])"
  shows "in_step (write_ident (known s l) s (l\<lparr>l_window := w\<rparr>))"
  using assms by (simp add: in_step_def write_ident_def)

lemma adjust_carry_idents:
  assumes "accounts_ok (Suc k) w"
  shows "w_idents (snd (adjust_carry s d w)) = w_idents w @ (if w_index w s = None then [s] else [])"
proof -
  obtain i w' where i: "intern s w = (i, w')" by (cases "intern s w")
  have "w_idents (snd (adjust_carry s d w)) = w_idents w'" by (simp add: adjust_carry_def i Let_def)
  then show ?thesis using intern_spec(4) [OF _ _ i] accounts_ok_idents [OF assms] by simp
qed

lemma set_carry_idents:
  assumes "accounts_ok (Suc k) w"
  shows "w_idents (set_carry s n w) = w_idents w @ (if w_index w s = None then [s] else [])"
proof -
  obtain i w' where i: "intern s w = (i, w')" by (cases "intern s w")
  have "w_idents (set_carry s n w) = w_idents w'" by (simp add: set_carry_def i)
  then show ?thesis using intern_spec(4) [OF _ _ i] accounts_ok_idents [OF assms] by simp
qed

lemma reduce_debt_idents [simp]:
  "w_idents (snd (reduce_debt s n w)) = w_idents w" "w_index (snd (reduce_debt s n w)) = w_index w"
  by (simp_all add: reduce_debt_def Let_def split: option.split)

text \<open>Earnings always reach the identity table: with no debt outstanding there is no debt to swallow
  them, and a debtor is in the table already.\<close>

lemma put_on_idents:
  assumes ok: "accounts_ok (Suc k) w" and n: "n > 0"
  shows "w_idents (acc.put_on s n w) = w_idents w @ (if w_index w s = None then [s] else [])"
proof -
  obtain p w1 where r: "reduce_debt s n w = (p, w1)" by (cases "reduce_debt s n w")
  have p: "p = min (debt_of s w) n" and ok1: "accounts_ok (Suc k) w1"
    using reduce_debt_spec(1,2) [OF ok, of s n] r by simp_all
  have w1: "w_idents w1 = w_idents w" "w_index w1 = w_index w"
    using reduce_debt_idents [of s n w] r by simp_all
  have "p = 0" if "w_index w s = None"
    using that p by (simp add: debt_of_def lookup_def)
  then show ?thesis
    using adjust_carry_idents [OF ok1, of s "to_i64 (n - p)"] w1 n by (auto simp: acc.put_on_def r)
qed

lemma settle_one_in_step:
  assumes ok: "accounts_ok (Suc k) (l_window l)" and st: "in_step l" and s: "settle_one e (l, out) = (l', out')"
  shows "in_step l'" 
proof -
  obtain i d where e: "e = (i, d)" by (cases e)
  show ?thesis
  proof (cases "d = 0")
    case True
    then show ?thesis using s st e by (simp add: settle_one_def)
  next
    case False
    define w where "w = snd (if d > 0 then restore_carry i (unsigned_abs d) (l_window l) else adjust_carry i d (l_window l))"
    have "w_idents w = w_idents (l_window l) @ (if w_index (l_window l) i = None then [i] else [])"
      using put_on_idents [OF ok, of "unsigned_abs d" i] adjust_carry_idents [OF ok, of i d] False
      by (auto simp: w_def restore_carry_put_on unsigned_abs_def)
    from in_step_write [OF st this] have "in_step (write_ident (known i l) i (l\<lparr>l_window := w\<rparr>))" .
    moreover have "l' = (write_ident (known i l) i (l\<lparr>l_window := w\<rparr>))\<lparr>l_dirty := True\<rparr>"
      using s False e by (auto simp: settle_one_def w_def split: prod.splits)
    ultimately show ?thesis by (simp add: in_step_def)
  qed
qed

lemma credit_one_in_step:
  assumes ok: "accounts_ok (Suc k) (l_window l)" and st: "in_step l" and d: "d > 0"
    and room: "unsigned_abs d \<le> i64_max" "carry_of s (l_window l) + unsigned_abs d \<le> u64_max"
  shows "in_step (fst (credit_one (s, d) (l, b)))"
proof -
  from credit_one_spec [OF ok d room] obtain b' where
    "credit_one (s, d) (l, b) = (write_ident (known s l) s (l\<lparr>l_window := acc.put_on s (unsigned_abs d) (l_window l)\<rparr>), b')"
    by metis
  then show ?thesis
    using in_step_write [OF st put_on_idents [OF ok]] d by (simp add: unsigned_abs_def)
qed


lemma debit_one_no_holds:
  "w_holds w = [] \<Longrightarrow> w_holds (fst (debit_one e (w, b))) = []"
proof -
  assume w: "w_holds w = []"
  have a: "w_holds (snd (adjust_carry s d w)) = []" for s d
    using w by (auto simp: adjust_carry_def Let_def split: prod.splits dest: intern_frame(3))
  have h: "w_holds v = [] \<Longrightarrow> w_holds (snd (draw_from_holds s n v)) = []" for s n v
    by (simp add: draw_from_holds_def)
  have d: "w_holds v = [] \<Longrightarrow> w_holds (accrue_debt s n v) = []" for s n v
    by (auto simp: accrue_debt_def split: prod.splits dest: intern_frame(3))
  show ?thesis using a h d by (cases e) (simp add: debit_one_def Let_def)
qed

lemma book_debits_no_holds:
  assumes "book_debits delta b l = (b', l')" "w_holds (l_window l) = []"
  shows "w_holds (l_window l') = []"
proof -
  have "w_holds (fst (fold debit_one ds (w, c))) = []" if "w_holds w = []" for ds w c
    using that
  proof (induction ds arbitrary: w c)
    case (Cons e ds)
    obtain w1 c1 where "debit_one e (w, c) = (w1, c1)" by fastforce
    then show ?case using Cons.IH [of w1 c1] debit_one_no_holds [OF Cons.prems, of e c] by simp
  qed simp
  from this [OF assms(2), of "debits_in delta" "b\<lparr>bk_debited := [], bk_shortfall := []\<rparr>"] show ?thesis
    using assms by (auto simp: book_debits_def Let_def split: prod.splits if_splits)
qed


lemma credits_in_step:
  assumes "accounts_ok (length ds + k) (l_window l)" "\<forall>e \<in> set ds. snd e > 0 \<and> unsigned_abs (snd e) \<le> i64_max"
    and "acc.roomy (gross ds) (l_window l)" "in_step l"
  shows "in_step (fst (fold credit_one ds (l, b)))"
  using assms
proof (induction ds arbitrary: l b)
  case (Cons e ds)
  obtain s d where e: "e = (s, d)" by (cases e)
  have ok: "accounts_ok (Suc (length ds + k)) (l_window l)" and d: "d > 0" "unsigned_abs d \<le> i64_max"
    using Cons.prems e by auto
  have room: "carry_of s (l_window l) + unsigned_abs d \<le> u64_max"
    using acc.roomyD(1) [OF Cons.prems(3), of s] e by simp
  obtain l1 b1 where 1: "credit_one (s, d) (l, b) = (l1, b1)" by fastforce
  have step: "in_step l1" using credit_one_in_step [OF ok Cons.prems(4) d(1,2) room, of b] 1 by simp
  have one: "accounts_ok (length [e] + (length ds + k)) (l_window l)" "\<forall>x \<in> set [e]. snd x > 0 \<and> unsigned_abs (snd x) \<le> i64_max"
    "acc.roomy (gross [e] + gross ds) (l_window l)" using ok d Cons.prems(3) e by simp_all
  have "accounts_ok (length ds + k) (l_window l1) \<and> acc.roomy (gross ds) (l_window l1)"
    by (rule credits_spec [OF one, of b]) (use 1 e in auto)
  then show ?case using Cons.IH [of l1 b1] Cons.prems(2) step 1 e by simp
qed simp

section \<open>Properties\<close>

text \<open>
  C3. Booking the debits of a found block takes exactly what its coinbase paid out, once. For every
  identity, carry plus held less debt falls by the sats the block paid of it: out of carry first, then
  out of the holds, and the rest becomes a debt; no identity ends with carry and debt at once; the
  books record what moved; and booking again does nothing.
\<close>

theorem book_debits_exact:
  assumes live: "\<not> bk_debits_live b" and ok: "accounts_ok (2 * length (debits_in delta)) (l_window l)"
    and d: "delta_ok delta" and room: "headroom (gross (debits_in delta)) (l_window l)"
    and r: "bk_rebate_owed_credited b \<le> i64_max" "w_rebate_owed (l_window l) \<le> u64_max"
  shows "\<exists>b' l'. book_debits delta b l = (b', l') \<and> book_debits delta b' l' = (b', l')
    \<and> (\<forall>s. net_position s (l_window l') = net_position s (l_window l) + net_delta s (debits_in delta))
    \<and> (\<forall>s. int (amount_of s (bk_debited b') + amount_of s (bk_shortfall b')) = - net_delta s (debits_in delta))
    \<and> (no_double (l_window l) \<longrightarrow> no_double (l_window l'))
    \<and> w_rebate_owed (l_window l') = w_rebate_owed (l_window l) - bk_rebate_owed_credited b"
proof -
  have ok': "accounts_ok (2 * length (debits_in delta) + 0) (l_window l)" using ok by simp
  have room': "headroom (gross (debits_in delta) + 0) (l_window l)" using room by simp
  obtain b' l' where 1: "book_debits delta b l = (b', l')" "bk_debits_live b'"
    "\<And>s. net_position s (l_window l') = net_position s (l_window l) + net_delta s (debits_in delta)"
    "no_double (l_window l) \<Longrightarrow> no_double (l_window l')"
    "\<And>s. int (amount_of s (bk_debited b') + amount_of s (bk_shortfall b')) = - net_delta s (debits_in delta)"
    "w_rebate_owed (l_window l') + bk_rebate_debited b' = w_rebate_owed (l_window l)"
    "bk_rebate_debited b' = min (w_rebate_owed (l_window l)) (bk_rebate_owed_credited b)"
    by (rule book_debits_spec [OF live ok' d room' r]) (rule that)
  have "book_debits delta b' l' = (b', l')" using 1(2) by (simp add: book_debits_def)
  moreover have "w_rebate_owed (l_window l') = w_rebate_owed (l_window l) - bk_rebate_owed_credited b"
    using 1(6,7) by simp
  ultimately show ?thesis using 1(1,3,4,5) by blast
qed

text \<open>
  Booking the credits of a found block puts on exactly what it earned people, once: for every
  identity the position rises by its credits, a double-pay debt being collected before anything
  becomes carry, and no identity ends with carry and debt at once.
\<close>

theorem book_credits_exact:
  assumes live: "\<not> bk_credits_live b" and ok: "accounts_ok (length (credits_in delta)) (l_window l)"
    and d: "delta_ok delta" and room: "headroom (gross (credits_in delta)) (l_window l)"
    and r: "bk_rebate_deferred b \<le> i64_max" "w_rebate_owed (l_window l) + bk_rebate_deferred b \<le> u64_max"
  shows "\<exists>b' l'. book_credits delta b l = (b', l') \<and> book_credits delta b' l' = (b', l')
    \<and> (\<forall>s. net_position s (l_window l') = net_position s (l_window l) + net_delta s (credits_in delta))
    \<and> (\<forall>s. carry_of s (l_window l') = carry_of s (l_window l) + amount_of s (bk_credited b'))
    \<and> (\<forall>s. int (amount_of s (bk_credited b') + amount_of s (bk_debt_paid b')) = net_delta s (credits_in delta))
    \<and> (no_double (l_window l) \<longrightarrow> no_double (l_window l'))
    \<and> w_rebate_owed (l_window l') = w_rebate_owed (l_window l) + bk_rebate_deferred b"
proof -
  have ok': "accounts_ok (length (credits_in delta) + 0) (l_window l)" using ok by simp
  have room': "headroom (gross (credits_in delta) + 0) (l_window l)" using room by simp
  obtain b' l' where 1: "book_credits delta b l = (b', l')" "bk_credits_live b'"
    "\<And>s. net_position s (l_window l') = net_position s (l_window l) + net_delta s (credits_in delta)"
    "no_double (l_window l) \<Longrightarrow> no_double (l_window l')"
    "\<And>s. int (amount_of s (bk_credited b') + amount_of s (bk_debt_paid b')) = net_delta s (credits_in delta)"
    "\<And>s. carry_of s (l_window l') = carry_of s (l_window l) + amount_of s (bk_credited b')"
    "w_rebate_owed (l_window l') = w_rebate_owed (l_window l) + bk_rebate_deferred b"
    by (rule book_credits_spec [OF live ok' d room' r]) (rule that)
  have "book_credits delta b' l' = (b', l')" using 1(2) by (simp add: book_credits_def)
  then show ?thesis using 1 by blast
qed

text \<open>
  C4. An orphaned block leaves no trace. Booking a block's debits and credits and then undoing it
  returns every identity's position and the owed rebate to what they were, reports nothing
  unrecoverable, and leaves nothing of the block live.
\<close>

theorem unbook_undoes_block:
  assumes ok: "accounts_ok (4 * length delta) (l_window l)" and d: "delta_ok delta"
    and room: "headroom (2 * gross delta) (l_window l)"
    and r: "roc \<le> i64_max" "rd \<le> i64_max" "w_rebate_owed (l_window l) + rd \<le> i64_max"
  shows "\<exists>b1 l1 b2 l2 b3 l3. book_debits delta (books_new roc rd) l = (b1, l1)
    \<and> book_credits delta b1 l1 = (b2, l2) \<and> unbook b2 l2 = (0, b3, l3)
    \<and> (\<forall>s. net_position s (l_window l3) = net_position s (l_window l))
    \<and> w_rebate_owed (l_window l3) = w_rebate_owed (l_window l)
    \<and> (no_double (l_window l) \<longrightarrow> no_double (l_window l3))
    \<and> \<not> bk_debits_live b3 \<and> \<not> bk_credits_live b3"
proof -
  let ?nd = "length (debits_in delta)" and ?nc = "length (credits_in delta)"
  let ?gd = "gross (debits_in delta)" and ?gc = "gross (credits_in delta)"
  let ?k = "?nc + (2 * ?nc + (?nd + ?nd))"
  have okd: "accounts_ok (2 * ?nd + (?nc + ?k)) (l_window l)"
    by (rule accounts_ok_mono [OF ok]) (use length_parts [of delta] in simp)
  have roomd: "headroom (?gd + (?gc + (?gc + ?gd))) (l_window l)"
  proof -
    have "?gd + (?gc + (?gc + ?gd)) = 2 * gross delta" using gross_parts [of delta] by simp
    then show ?thesis using room by (simp only:)
  qed
  have reb: "bk_rebate_owed_credited (books_new roc rd) \<le> i64_max" "w_rebate_owed (l_window l) \<le> u64_max"
    using r by (simp_all add: books_new_def)
  obtain b1 l1 where 1: "book_debits delta (books_new roc rd) l = (b1, l1)" "bk_debits_live b1"
    "bk_credits_live b1 = bk_credits_live (books_new roc rd)"
    "accounts_ok (?nc + ?k) (l_window l1)" "headroom (?gc + (?gc + ?gd)) (l_window l1)"
    "\<And>s. net_position s (l_window l1) = net_position s (l_window l) + net_delta s (debits_in delta)"
    "no_double (l_window l) \<Longrightarrow> no_double (l_window l1)"
    "\<And>s. int (amount_of s (bk_debited b1) + amount_of s (bk_shortfall b1)) = - net_delta s (debits_in delta)"
    "w_rebate_owed (l_window l1) + bk_rebate_debited b1 = w_rebate_owed (l_window l)"
    "bk_rebate_debited b1 = min (w_rebate_owed (l_window l)) (bk_rebate_owed_credited (books_new roc rd))"
    "bk_rebate_deferred b1 = bk_rebate_deferred (books_new roc rd)"
    "length (bk_debited b1) + length (bk_shortfall b1) \<le> 2 * ?nd"
    "entries_ok (bk_debited b1)" "entries_ok (bk_shortfall b1)"
    "amount_all (bk_debited b1) + amount_all (bk_shortfall b1) = ?gd"
    by (rule book_debits_spec [OF _ okd d roomd reb]) (simp add: books_new_def, rule that)
  have live: "\<not> bk_credits_live b1" and rd: "bk_rebate_deferred b1 = rd" using 1(3,11) by (simp_all add: books_new_def)
  have reb1: "bk_rebate_deferred b1 \<le> i64_max" "w_rebate_owed (l_window l1) + bk_rebate_deferred b1 \<le> u64_max"
    using r 1(9) rd by simp_all
  obtain b2 l2 where 2: "book_credits delta b1 l1 = (b2, l2)" "bk_credits_live b2" "bk_debits_live b2 = bk_debits_live b1"
    "accounts_ok ?k (l_window l2)" "headroom (?gc + ?gd) (l_window l2)"
    "\<And>s. net_position s (l_window l2) = net_position s (l_window l1) + net_delta s (credits_in delta)"
    "no_double (l_window l1) \<Longrightarrow> no_double (l_window l2)"
    "\<And>s. int (amount_of s (bk_credited b2) + amount_of s (bk_debt_paid b2)) = net_delta s (credits_in delta)"
    "\<And>s. carry_of s (l_window l2) = carry_of s (l_window l1) + amount_of s (bk_credited b2)"
    "w_rebate_owed (l_window l2) = w_rebate_owed (l_window l1) + bk_rebate_deferred b1"
    "bk_rebate_added b2 = bk_rebate_deferred b1"
    "bk_debited b2 = bk_debited b1" "bk_shortfall b2 = bk_shortfall b1" "bk_rebate_debited b2 = bk_rebate_debited b1"
    "length (bk_credited b2) \<le> ?nc" "length (bk_debt_paid b2) \<le> ?nc"
    "entries_ok (bk_credited b2)" "entries_ok (bk_debt_paid b2)" "amount_all (bk_debt_paid b2) \<le> ?gc"
    by (rule book_credits_spec [OF live 1(4) d 1(5) reb1]) (rule that)
  have ok2: "accounts_ok (length (bk_credited b2) + (2 * length (bk_debt_paid b2)
       + (length (bk_debited b2) + (length (bk_shortfall b2) + 0)))) (l_window l2)"
    by (rule accounts_ok_mono [OF 2(4)]) (use 1(12) 2(12,13,15,16) in simp)
  have room2: "headroom (amount_all (bk_debt_paid b2) + (amount_all (bk_debited b2) + (amount_all (bk_shortfall b2) + 0))) (l_window l2)"
    using acc.roomy_mono [OF 2(5) [unfolded headroom_acc]] 1(15) 2(12,13,19) by (simp add: headroom_acc)
  have es: "entries_ok (bk_debited b2)" "entries_ok (bk_shortfall b2)" using 1(13,14) 2(12,13) by simp_all
  have have_credits: "amount_of s (bk_credited b2) \<le> carry_of s (l_window l2)" for s using 2(9) [of s] by simp
  have reb2: "bk_rebate_added b2 \<le> i64_max" "bk_rebate_debited b2 \<le> i64_max"
      "w_rebate_owed (l_window l2) + bk_rebate_debited b2 \<le> u64_max"
    using r 1(9) 2(10,11,14) rd by simp_all
  obtain b3 l3 where 3: "unbook b2 l2 = (0, b3, l3)" "\<not> bk_credits_live b3" "\<not> bk_debits_live b3"
    "\<And>s. net_position s (l_window l3) = net_position s (l_window l2)
      - int (amount_of s (bk_credited b2) + amount_of s (bk_debt_paid b2))
      + int (amount_of s (bk_debited b2) + amount_of s (bk_shortfall b2))"
    "w_rebate_owed (l_window l3) = w_rebate_owed (l_window l2) - bk_rebate_added b2 + bk_rebate_debited b2"
    "no_double (l_window l2) \<Longrightarrow> no_double (l_window l3)"
    by (rule unbook_spec [OF 2(2) _ ok2 2(17,18) es have_credits room2 reb2]) ((use 1(2) 2(3) in simp), rule that)
  have "net_position s (l_window l3) = net_position s (l_window l)" for s
    using 3(4) [of s] 2(6,8) [of s] 1(6,8) [of s] 2(12,13) by simp
  moreover have "w_rebate_owed (l_window l3) = w_rebate_owed (l_window l)"
    using 3(5) 2(10,11,14) 1(9) by simp
  ultimately show ?thesis using 1(1,7) 2(1,7) 3(1,2,3,6) by blast
qed

text \<open>
  A hold takes only balances that are stale now and stand exactly as requested, and moves them
  without changing anyone's position: every held entry was asked for, is the identity's whole carry,
  has no work left in the window and was last seen at least \<open>after\<close> seconds ago.
\<close>

theorem hold_carry_moves_stale:
  assumes ok: "accounts_ok (length entries) (l_window l)" and fresh: "map_of (w_holds (l_window l)) batch = None"
    and small: "\<And>s. carry_of s (l_window l) \<le> i64_max"
  shows "\<exists>held skipped l'. hold_carry batch entries now after mn tip ready l = Some (Inr (held, skipped), l')
    \<and> (\<forall>s. net_position s (l_window l') = net_position s (l_window l))
    \<and> (\<forall>(s, n) \<in> set held. (s, n) \<in> set entries \<and> n = carry_of s (l_window l) \<and> n \<ge> mn \<and> work_of s (l_window l) = 0
        \<and> last_seen_of s (l_window l) > 0 \<and> now - last_seen_of s (l_window l) \<ge> after)"
proof -
  let ?w = "l_window l"
  define stale where "stale = map_of (map (\<lambda>s. (sc_identity s, sc_sats s)) (stale_carries now after mn ?w))"
  have id: "ident_ok ?w" using ok by (simp add: accounts_ok_def)
  have st: "n = carry_of s ?w \<and> n \<ge> mn \<and> work_of s ?w = 0 \<and> last_seen_of s ?w > 0 \<and> now - last_seen_of s ?w \<ge> after"
    if "stale s = Some n" for s n
    using that stale_carries_mem [OF _ id] unfolding stale_def by (force dest!: map_of_SomeD)
  have le: "\<And>s n. stale s = Some n \<Longrightarrow> n \<le> i64_max" using st small by blast
  obtain w1 held sk where r: "hold_entries stale entries ?w [] [] = Some (w1, held, sk)"
  proof -
    have "\<exists>r. hold_entries stale entries ?w [] [] = Some r" by (rule hold_entries_total) (rule le)
    then show ?thesis using that by (metis prod_cases3)
  qed
  have ok0: "accounts_ok (length entries + 0) ?w" using ok by simp
  have st0: "\<And>s n. stale s = Some n \<Longrightarrow> s \<notin> fst ` set ([] :: (string \<times> nat) list) \<Longrightarrow> n = carry_of s ?w" using st by blast
  obtain new where new: "held = [] @ new" "\<And>x. carry_of x w1 + amount_of x new = carry_of x ?w"
    "\<And>x. debt_of x w1 = debt_of x ?w" "\<And>x. held_of x w1 = held_of x ?w" "w_holds w1 = w_holds ?w"
    "\<And>s n. (s, n) \<in> set new \<Longrightarrow> stale s = Some n \<and> (s, n) \<in> set entries"
    by (rule hold_entries_spec [OF r ok0 st0 le]) (assumption | rule that)+
  define h where "h = \<lparr>hd_created_ts = now, hd_height = tip, hd_ready_height = ready, hd_entries = held\<rparr>"
  define l' where "l' = (if held = [] then l\<lparr>l_window := w1\<rparr>
     else l\<lparr>l_window := w1\<lparr>w_holds := hold_insert batch h (w_holds w1)\<rparr>, l_dirty := True\<rparr>)"
  have e: "hold_carry batch entries now after mn tip ready l = Some (Inr (held, sk), l')"
    by (simp add: hold_carry_def Let_def fresh stale_def [symmetric] r l'_def h_def)
  have "hold_remove batch (w_holds ?w) = w_holds ?w"
    unfolding hold_remove_def using fresh by (intro filter_True) (auto simp: map_of_eq_None_iff)
  then have "held_of s (l_window l') = amount_of s held + held_of s w1" for s
    by (auto simp: l'_def held_of_helds helds_insert h_def new(5))
  moreover have "carry_of s (l_window l') = carry_of s w1" "debt_of s (l_window l') = debt_of s w1" for s
    by (simp_all add: l'_def carry_of_def debt_of_def)
  ultimately have pos: "net_position s (l_window l') = net_position s ?w" for s
    using new(1) new(2,3,4) [of s] by (simp add: net_position_def)
  have "(s, n) \<in> set entries \<and> n = carry_of s ?w \<and> n \<ge> mn \<and> work_of s ?w = 0 \<and> last_seen_of s ?w > 0
      \<and> now - last_seen_of s ?w \<ge> after" if "(s, n) \<in> set held" for s n
    using new(6) [of s n] st [of s n] that new(1) by simp
  then show ?thesis using e pos by (intro exI [of _ held] exI [of _ sk] exI [of _ l']) blast
qed

text \<open>
  How a hold ends: abandoned, its balances return and no position changes (a debt run up since is
  paid first); paid by hand, each owner's position falls by exactly what the hold had for it.
\<close>

theorem hold_ends:
  assumes h: "map_of (w_holds (l_window l)) batch = Some h"
    and ok: "accounts_ok (length (hd_entries h)) (l_window l)" and es: "entries_ok (hd_entries h)"
    and room: "headroom (amount_all (hd_entries h)) (l_window l)"
  shows "(\<forall>s. net_position s (l_window (snd (release_hold batch l))) = net_position s (l_window l))
    \<and> (no_double (l_window l) \<longrightarrow> no_double (l_window (snd (release_hold batch l))))
    \<and> (\<forall>s. net_position s (l_window (snd (finish_hold batch l)))
          = net_position s (l_window l) - int (amount_of s (hd_entries h)))
    \<and> map_of (w_holds (l_window (snd (finish_hold batch l)))) batch = None"
proof -
  have ok': "accounts_ok (length (hd_entries h) + 0) (l_window l)" using ok by simp
  have d: "distinct (map fst (w_holds (l_window l)))" using ok by (simp add: accounts_ok_def)
  have "net_position s (l_window (snd (finish_hold batch l)))
      = net_position s (l_window l) - int (amount_of s (hd_entries h))" for s
    using helds_split [OF d h, of s]
    by (simp add: finish_hold_def h net_position_def held_of_helds carry_of_def debt_of_def)
  moreover have "map_of (w_holds (l_window (snd (finish_hold batch l)))) batch = None"
    by (auto simp: finish_hold_def h hold_remove_def map_of_eq_None_iff)
  ultimately show ?thesis using release_hold_spec(2,3) [OF h ok' es room] by blast
qed

text \<open>
  A debit is recovered once. After a restart, \<^verbatim>\<open>reconcile_debits\<close> leaves every live debit of the
  block log marked as applied, so running it again over the same log changes nothing.
\<close>

theorem reconcile_debits_once:
  "reconcile_debits blocks (reconcile_debits blocks l) = reconcile_debits blocks l
   \<and> (l_debits_tracked l \<longrightarrow> (\<forall>b \<in> set blocks. debits_on b \<longrightarrow>
        br_hash b \<in> l_applied_debits (reconcile_debits blocks l)))"
  using reconcile_fold_applied [of l blocks] by (auto simp: reconcile_debits_def reconcile_fold_done)

text \<open>
  What the crash lost is what is recovered. If no carry was in a hold, re-applying the recorded
  debits to the window as it was before the block gives every identity the carry and the debt, and the
  pool the owed rebate, that booking the block had given them.
\<close>

theorem reconcile_replays_debits:
  assumes b: "book_debits delta b l = (b', l')" and live: "\<not> bk_debits_live b"
    and ok: "accounts_ok (2 * length (debits_in delta)) (l_window l)" and d: "delta_ok delta"
    and room: "headroom (gross (debits_in delta)) (l_window l)"
    and r: "bk_rebate_owed_credited b \<le> i64_max" "w_rebate_owed (l_window l) \<le> u64_max"
    and no_holds: "w_holds (l_window l) = []"
  shows "(\<forall>s. carry_of s (reapply_debits b' (l_window l)) = carry_of s (l_window l')
      \<and> debt_of s (reapply_debits b' (l_window l)) = debt_of s (l_window l'))
    \<and> w_rebate_owed (reapply_debits b' (l_window l)) = w_rebate_owed (l_window l')"
proof -
  let ?w = "l_window l" and ?w' = "l_window l'"
  have ok': "accounts_ok (2 * length (debits_in delta) + 0) ?w" using ok by simp
  have room': "headroom (gross (debits_in delta) + 0) ?w" using room by simp
  have 1: "w_rebate_owed ?w' + bk_rebate_debited b' = w_rebate_owed ?w"
    "bk_rebate_debited b' = min (w_rebate_owed ?w) (bk_rebate_owed_credited b)"
    "length (bk_debited b') + length (bk_shortfall b') \<le> 2 * length (debits_in delta)"
    "entries_ok (bk_debited b')" "entries_ok (bk_shortfall b')"
    "amount_all (bk_debited b') + amount_all (bk_shortfall b') = gross (debits_in delta)"
    "\<And>x. carry_of x ?w' + held_of x ?w' + amount_of x (bk_debited b') = carry_of x ?w + held_of x ?w"
    "\<And>x. debt_of x ?w' = debt_of x ?w + amount_of x (bk_shortfall b')"
    "\<And>x. net_position x ?w' = net_position x ?w + net_delta x (debits_in delta)"
    "\<And>x. int (amount_of x (bk_debited b') + amount_of x (bk_shortfall b')) = - net_delta x (debits_in delta)"
    by (rule book_debits_spec [OF live ok' d room' r], use b in simp)+
  have held: "held_of x ?w' = 0" for x
  proof -
    have "held_of x ?w = 0" by (simp add: held_of_def no_holds)
    moreover have "w_holds ?w' = []"
      using book_debits_no_holds [OF b no_holds] .
    ultimately show ?thesis by (simp add: held_of_def)
  qed
  have held0: "held_of x ?w = 0" for x by (simp add: held_of_def no_holds)
  have okr: "accounts_ok (length (bk_debited b') + (length (bk_shortfall b') + 0)) ?w"
    by (rule accounts_ok_mono [OF ok]) (use 1(3) in simp)
  have dr: "debt_of x ?w + amount_all (bk_shortfall b') \<le> u64_max" for x
    using room 1(6) unfolding headroom_def by (auto dest!: spec [of _ x])
  have rr: "bk_rebate_debited b' \<le> i64_max" using 1(2) r(1) by simp
  note R = reapply_debits_spec [OF okr 1(4,5) dr rr r(2)]
  have "carry_of s (reapply_debits b' ?w) = carry_of s ?w'" for s
    using R(1) [of s] 1(7) [of s] held [of s] held0 [of s] by simp
  moreover have "debt_of s (reapply_debits b' ?w) = debt_of s ?w'" for s
    using R(2) [of s] 1(8) [of s] by simp
  moreover have "w_rebate_owed (reapply_debits b' ?w) = w_rebate_owed ?w'" using R(3) 1(1) by simp
  ultimately show ?thesis by blast
qed

text \<open>
  The identity file keeps step with the table through every operation that can add an identity
  and accounts for it: crediting work, settling and booking earnings, setting a balance. (An
  index is a line number, so a line too few puts every later identity's rows on someone else.)
\<close>

theorem idents_in_step:
  assumes step: "in_step l" and ok: "window_ok (Suc (length delta)) (l_window l)" and d: "delta_ok delta"
    and room: "headroom (gross delta) (l_window l)"
  shows "(\<forall>s work height ts source l'. w_total_work (l_window l) + work \<le> u64_max \<longrightarrow> length (w_credits (l_window l)) < u64_max
      \<longrightarrow> w_lifetime_shares (l_window l) < u64_max
      \<longrightarrow> ledger_credit s work height ts source l = Some l' \<longrightarrow> in_step l')
    \<and> (\<forall>s n. in_step (ledger_set_carry s n l))
    \<and> (\<forall>b. in_step (snd (book_credits delta b l)))"
proof (intro conjI allI impI)
  fix s work height ts source l'
  assume a: "w_total_work (l_window l) + work \<le> u64_max" "length (w_credits (l_window l)) < u64_max"
    "w_lifetime_shares (l_window l) < u64_max" "ledger_credit s work height ts source l = Some l'"
  obtain c w' where c: "credit_row s work height ts source (l_window l) = Some (c, w')"
    "w_idents w' = w_idents (l_window l) @ (if w_index (l_window l) s = None then [s] else [])"
    by (rule credit_row_spec [OF ok a(1-3), of s height ts source]) (rule that)
  have "l_window l' = w' \<and> l_idents_out l' = l_idents_out (write_ident (known s l) s (l\<lparr>l_window := w'\<rparr>))"
    using a(4) c(1) by (auto simp: ledger_credit_def Let_def bind_eq_Some_conv)
  then show "in_step l'" using in_step_write [OF step c(2)] by (simp add: in_step_def)
next
  fix s n
  have ok1: "accounts_ok (Suc (length delta)) (l_window l)" using ok by (simp add: window_ok_def)
  show "in_step (ledger_set_carry s n l)"
    using in_step_write [OF step set_carry_idents [OF ok1]] by (simp add: ledger_set_carry_def in_step_def)
next
  fix b
  have ok1: "accounts_ok (Suc (length delta)) (l_window l)" using ok by (simp add: window_ok_def)
  have okc: "accounts_ok (length (credits_in delta) + 0) (l_window l)"
    by (rule accounts_ok_mono [OF ok1]) (use le_SucI [OF length_filter_le] in simp)
  have roomc: "acc.roomy (gross (credits_in delta)) (l_window l)"
    by (rule acc.roomy_mono [OF room [unfolded headroom_acc]]) (use gross_parts [of delta] in simp)
  have ds: "\<forall>e \<in> set (credits_in delta). snd e > 0 \<and> unsigned_abs (snd e) \<le> i64_max"
    using d by (auto simp: delta_ok_def)
  have "in_step (fst (fold credit_one (credits_in delta) (l, b\<lparr>bk_credited := [], bk_debt_paid := []\<rparr>)))"
    by (rule credits_in_step [OF okc ds roomc step])
  then show "in_step (snd (book_credits delta b l))"
    using step by (auto simp: book_credits_def in_step_def Let_def split: prod.splits)
qed


section \<open>Worked ledgers\<close>

text \<open>The ledger of \<^const>\<open>ex_window\<close>, and a block that paid its carry out again and earned \<open>b\<close> 30 sats.\<close>

definition ex_ledger :: ledger where
  "ex_ledger = \<lparr>l_window = ex_window, l_credits_out = w_credits ex_window, l_idents_out = [''a'', ''b''],
     l_rows_on_disk = 3, l_dirty = False, l_applied_debits = {}, l_debits_tracked = True, l_grace = new_grace_book,
     l_grace_loaded = True\<rparr>"

definition ex_delta :: "(string \<times> i64) list" where
  "ex_delta = [(''a'', -900), (''b'', 30)]"

lemma ex_lookups:
  "carry_of s ex_window = (if s = ''a'' then 700 else 0)" "debt_of s ex_window = 0" "held_of s ex_window = 0"
  by (auto simp: carry_of_def debt_of_def held_of_def lookup_def ex_window_def)

lemma ex_ledger_ok:
  "accounts_ok 9 (l_window ex_ledger)" "delta_ok ex_delta" "headroom 5000 (l_window ex_ledger)"
  "w_rebate_owed (l_window ex_ledger) = 0" "w_holds (l_window ex_ledger) = []"
  using ex_window_ok
  by (auto simp: ex_ledger_def window_ok_def delta_ok_def ex_delta_def unsigned_abs_def headroom_def ex_lookups)
    (simp_all add: ex_window_def)

lemma ex_delta_parts:
  "length (debits_in ex_delta) = 1" "length (credits_in ex_delta) = 1" "length ex_delta = 2"
  "gross (debits_in ex_delta) = 900" "gross (credits_in ex_delta) = 30" "gross ex_delta = 930"
  "net_delta ''a'' (debits_in ex_delta) = -900" "net_delta ''b'' (credits_in ex_delta) = 30"
  by (simp_all add: ex_delta_def unsigned_abs_def)

lemma headroom_mono: "headroom n w \<Longrightarrow> m \<le> n \<Longrightarrow> headroom m w"
  using acc.roomy_mono by (simp add: headroom_acc)

theorem book_debits_exact_witness:
  "\<exists>b' l'. book_debits ex_delta (books_new 0 0) ex_ledger = (b', l')
    \<and> net_position ''a'' (l_window l') = net_position ''a'' (l_window ex_ledger) - 900"
proof -
  have "\<not> bk_debits_live (books_new 0 0)" "bk_rebate_owed_credited (books_new 0 0) \<le> i64_max" by (simp_all add: books_new_def)
  moreover have "accounts_ok (2 * length (debits_in ex_delta)) (l_window ex_ledger)"
    "headroom (gross (debits_in ex_delta)) (l_window ex_ledger)" "w_rebate_owed (l_window ex_ledger) \<le> u64_max"
    using accounts_ok_mono [OF ex_ledger_ok(1)] headroom_mono [OF ex_ledger_ok(3)] ex_ledger_ok(4)
    by (simp_all add: ex_delta_parts)
  ultimately show ?thesis
    using book_debits_exact [of "books_new 0 0" ex_delta ex_ledger] ex_ledger_ok(2) by (auto simp: ex_delta_parts(7))
qed

theorem book_credits_exact_witness:
  "\<exists>b' l'. book_credits ex_delta (books_new 0 0) ex_ledger = (b', l')
    \<and> net_position ''b'' (l_window l') = net_position ''b'' (l_window ex_ledger) + 30"
proof -
  have "\<not> bk_credits_live (books_new 0 0)" "bk_rebate_deferred (books_new 0 0) \<le> i64_max" by (simp_all add: books_new_def)
  moreover have "accounts_ok (length (credits_in ex_delta)) (l_window ex_ledger)"
    "headroom (gross (credits_in ex_delta)) (l_window ex_ledger)"
    "w_rebate_owed (l_window ex_ledger) + bk_rebate_deferred (books_new 0 0) \<le> u64_max"
    using accounts_ok_mono [OF ex_ledger_ok(1)] headroom_mono [OF ex_ledger_ok(3)] ex_ledger_ok(4)
    by (simp_all add: ex_delta_parts books_new_def)
  ultimately show ?thesis
    using book_credits_exact [of "books_new 0 0" ex_delta ex_ledger] ex_ledger_ok(2) by (auto simp: ex_delta_parts(8))
qed

theorem unbook_undoes_block_witness:
  "\<exists>b1 l1 b2 l2 b3 l3. book_debits ex_delta (books_new 5 7) ex_ledger = (b1, l1)
    \<and> book_credits ex_delta b1 l1 = (b2, l2) \<and> unbook b2 l2 = (0, b3, l3)
    \<and> (\<forall>s. net_position s (l_window l3) = net_position s (l_window ex_ledger))"
proof -
  have "accounts_ok (4 * length ex_delta) (l_window ex_ledger)" "headroom (2 * gross ex_delta) (l_window ex_ledger)"
    "w_rebate_owed (l_window ex_ledger) + 7 \<le> i64_max"
    using accounts_ok_mono [OF ex_ledger_ok(1)] headroom_mono [OF ex_ledger_ok(3)] ex_ledger_ok(4)
    by (simp_all add: ex_delta_parts)
  then show ?thesis
    using unbook_undoes_block [of ex_delta ex_ledger 5 7] ex_ledger_ok(2) by auto
qed

text \<open>\<open>a\<close> has stopped mining: its rows are gone and its 700 sats of carry are stale.\<close>

definition ex_stale :: ledger where
  "ex_stale = ex_ledger\<lparr>l_window := ex_window\<lparr>w_credits := [], w_totals := Map.empty, w_total_work := 0\<rparr>\<rparr>"

lemma ex_stale_ok: "accounts_ok 9 (l_window ex_stale)" "carry_of s (l_window ex_stale) = (if s = ''a'' then 700 else 0)"
  using ex_ledger_ok(1) ex_lookups(1) [of s]
  by (simp_all add: ex_stale_def ex_ledger_def accounts_ok_def ident_ok_def carry_of_def lookup_def)

theorem hold_carry_moves_stale_witness:
  "\<exists>held skipped l'. hold_carry ''h1'' [(''a'', 700)] 5000 100 1 800000 800010 ex_stale = Some (Inr (held, skipped), l')
    \<and> (\<forall>s. net_position s (l_window l') = net_position s (l_window ex_stale))"
proof -
  have "accounts_ok (length [(''a'', 700)]) (l_window ex_stale)" "map_of (w_holds (l_window ex_stale)) ''h1'' = None"
    using accounts_ok_mono [OF ex_stale_ok(1)] by (simp_all add: ex_stale_def ex_window_def)
  moreover have "carry_of s (l_window ex_stale) \<le> i64_max" for s by (simp add: ex_stale_ok(2))
  ultimately show ?thesis
    using hold_carry_moves_stale [of "[(''a'', 700)]" ex_stale "''h1''" 5000 100 1 800000 800010] by blast
qed

text \<open>The same balance, already in a hold.\<close>

definition ex_hold :: hold where
  "ex_hold = \<lparr>hd_created_ts = 5000, hd_height = 800000, hd_ready_height = 800010, hd_entries = [(''a'', 700)]\<rparr>"

definition ex_held :: ledger where
  "ex_held = ex_ledger\<lparr>l_window := ex_window\<lparr>w_carry := Map.empty, w_holds := [(''h1'', ex_hold)]\<rparr>\<rparr>"

lemma ex_held_ok:
  "accounts_ok 9 (l_window ex_held)" "carry_of s (l_window ex_held) = 0" "debt_of s (l_window ex_held) = 0"
  "held_of s (l_window ex_held) = (if s = ''a'' then 700 else 0)"
  using ex_ledger_ok(1) ex_lookups(2) [of s]
  by (auto simp: ex_held_def ex_ledger_def accounts_ok_def ident_ok_def carry_of_def debt_of_def held_of_def
      lookup_def bal_ok_def ex_hold_def split: option.splits)

theorem hold_ends_witness:
  "map_of (w_holds (l_window ex_held)) ''h1'' = Some ex_hold
   \<and> net_position ''a'' (l_window (snd (finish_hold ''h1'' ex_held))) = net_position ''a'' (l_window ex_held) - 700"
proof -
  have h: "map_of (w_holds (l_window ex_held)) ''h1'' = Some ex_hold" by (simp add: ex_held_def)
  have "accounts_ok (length (hd_entries ex_hold)) (l_window ex_held)" "entries_ok (hd_entries ex_hold)"
    "headroom (amount_all (hd_entries ex_hold)) (l_window ex_held)"
    using accounts_ok_mono [OF ex_held_ok(1)] by (simp_all add: ex_hold_def headroom_def ex_held_ok)
  from hold_ends [OF h this] show ?thesis using h by (simp add: ex_hold_def)
qed

theorem reconcile_replays_debits_witness:
  "\<exists>b' l'. book_debits ex_delta (books_new 0 0) ex_ledger = (b', l')
    \<and> carry_of ''a'' (reapply_debits b' (l_window ex_ledger)) = carry_of ''a'' (l_window l')"
proof -
  obtain b' l' where b: "book_debits ex_delta (books_new 0 0) ex_ledger = (b', l')" by fastforce
  have "\<not> bk_debits_live (books_new 0 0)" "bk_rebate_owed_credited (books_new 0 0) \<le> i64_max" by (simp_all add: books_new_def)
  moreover have "accounts_ok (2 * length (debits_in ex_delta)) (l_window ex_ledger)"
    "headroom (gross (debits_in ex_delta)) (l_window ex_ledger)" "w_rebate_owed (l_window ex_ledger) \<le> u64_max"
    using accounts_ok_mono [OF ex_ledger_ok(1)] headroom_mono [OF ex_ledger_ok(3)] ex_ledger_ok(4)
    by (simp_all add: ex_delta_parts)
  ultimately show ?thesis
    using reconcile_replays_debits [OF b] ex_ledger_ok(2,5) b by blast
qed

theorem idents_in_step_witness:
  "in_step ex_ledger \<and> in_step (ledger_set_carry ''c'' 5 ex_ledger) \<and> in_step (snd (book_credits ex_delta (books_new 0 0) ex_ledger))"
proof -
  have "in_step ex_ledger" by (simp add: in_step_def ex_ledger_def ex_window_def)
  moreover have "window_ok (Suc (length ex_delta)) (l_window ex_ledger)"
    using window_ok_mono [OF ex_window_ok] by (simp add: ex_delta_parts ex_ledger_def)
  moreover have "headroom (gross ex_delta) (l_window ex_ledger)"
    using headroom_mono [OF ex_ledger_ok(3)] by (simp add: ex_delta_parts)
  ultimately show ?thesis using idents_in_step [of ex_ledger ex_delta] ex_ledger_ok(2) by blast
qed

section \<open>Two gaps in the recovery of lost debits\<close>

text \<open>A block record whose debits are live.\<close>

definition ex_record :: "books \<Rightarrow> block_record" where
  "ex_record k = \<lparr>br_ts = 0, br_height = 800001, br_hash = ''00ab'', br_finder = None, br_coinbase_value = 0,
     br_kind = ''split'', br_owed_sats = 0, br_split = [], br_pool_sats = 0, br_carry_paid = 0, br_carry_delta = [],
     br_rebate_credited = 0, br_rebate_delta = 0, br_settled = False, br_submit = [], br_gateway = [],
     br_books = Some k, br_carry_shortfall_sats = 0, br_carry_reserved_sats = 0\<rparr>"

theorem reconcile_debits_once_witness:
  "br_hash (ex_record ((books_new 0 0)\<lparr>bk_debits_live := True\<rparr>))
     \<in> l_applied_debits (reconcile_debits [ex_record ((books_new 0 0)\<lparr>bk_debits_live := True\<rparr>)] ex_ledger)"
proof -
  have "l_debits_tracked ex_ledger" "debits_on (ex_record ((books_new 0 0)\<lparr>bk_debits_live := True\<rparr>))"
    by (simp_all add: ex_ledger_def debits_on_def ex_record_def)
  then show ?thesis
    using reconcile_debits_once [of "[ex_record ((books_new 0 0)\<lparr>bk_debits_live := True\<rparr>)]" ex_ledger] by simp
qed

text \<open>
  A debit that was met from a hold is not recovered. \<^verbatim>\<open>book_debits\<close> draws the balance a coinbase
  paid out of the hold; if the process dies before the window is flushed, \<^verbatim>\<open>reconcile_debits\<close> takes
  the recorded amount off the carry instead, where there is nothing, and leaves the hold as it was:
  the identity's position stays 700 sats too high, and the hand-made payment of the hold pays it twice.
\<close>

theorem reconcile_misses_hold:
  "\<exists>b' l'. book_debits [(''a'', -700)] (books_new 0 0) ex_held = (b', l')
    \<and> net_position ''a'' (l_window l') = 0
    \<and> net_position ''a'' (l_window (reconcile_debits [ex_record b'] ex_held)) = 700
    \<and> br_hash (ex_record b') \<in> l_applied_debits (reconcile_debits [ex_record b'] ex_held)"
proof -
  let ?b = "(books_new 0 0)\<lparr>bk_debited := [(''a'', 700)], bk_debits_live := True\<rparr>"
  have b: "book_debits [(''a'', -700)] (books_new 0 0) ex_held
      = (?b, ex_held\<lparr>l_window := (l_window ex_held)\<lparr>w_holds := []\<rparr>, l_dirty := True\<rparr>)"
    by (simp add: book_debits_def debit_one_def books_new_def ex_held_def ex_ledger_def ex_window_def ex_hold_def
        carry_of_def lookup_def adjust_carry_def intern_def unsigned_abs_def put_balance_def draw_from_holds_def
        hold_remove_def adjust_rebate_owed_def to_i64_def sat_add64_def Let_def)
  have r: "reconcile_debits [ex_record ?b] ex_held
      = ex_held\<lparr>l_applied_debits := {''00ab''}, l_dirty := True\<rparr>"
    by (simp add: reconcile_debits_def reconcile_one_def ex_record_def books_new_def ex_held_def ex_ledger_def ex_window_def
        reapply_debits_def adjust_carry_def intern_def to_i64_def unsigned_abs_def put_balance_def
        adjust_rebate_owed_def sat_add64_def Let_def)
  have "net_position ''a'' ((l_window ex_held)\<lparr>w_holds := []\<rparr>) = 0"
    using ex_held_ok(2,3) [of "''a''"] by (simp add: net_position_def held_of_def carry_of_def debt_of_def)
  then show ?thesis
    using b r ex_held_ok(2-4) [of "''a''"] by (simp add: net_position_def ex_record_def)
qed

text \<open>
  Recovering a debit of an unknown identity puts the identity file out of step. \<^verbatim>\<open>reconcile_debits\<close>
  (like \<^verbatim>\<open>book_debits\<close>) enters the identity in the table and writes no line for it, so the next new
  address is written on the line its index no longer names: its row says 1, its line is 0.
\<close>

theorem reconcile_drifts_idents:
  "\<exists>l1 l2 row. in_step (ex_ledger\<lparr>l_window := new_window, l_idents_out := []\<rparr>)
    \<and> reconcile_debits [ex_record ((books_new 0 0)\<lparr>bk_debited := [(''x'', 10)], bk_debits_live := True\<rparr>)]
        (ex_ledger\<lparr>l_window := new_window, l_idents_out := []\<rparr>) = l1
    \<and> ledger_credit ''y'' 5 800002 100 SOURCE_DATUM l1 = Some l2
    \<and> last (l_credits_out l2) = row \<and> cr_ident row = 1 \<and> w_idents (l_window l2) ! cr_ident row = ''y''
    \<and> l_idents_out l2 = [''y''] \<and> \<not> in_step l2"
  by (simp add: reconcile_debits_def reconcile_one_def ex_record_def books_new_def ex_ledger_def new_window_def
      reapply_debits_def adjust_carry_def intern_def to_i64_def unsigned_abs_def put_balance_def in_step_def
      adjust_rebate_owed_def sat_add64_def ledger_credit_def credit_row_def note_seen_def total_entry_def
      trim_def write_ident_def Let_def)

end
