(* ===== verification/Tides_Disk.thy ===== *)
theory Tides_Disk
  imports Tides_Ledger Bytes
begin

text \<open>
  The ledger's files, \<^verbatim>\<open>prime/tides/src/lib.rs\<close>: the 24-byte credit rows, the identity lines, and the
  atomically replaced meta file; \<^verbatim>\<open>Ledger::open\<close>, \<^verbatim>\<open>flush\<close>, \<^verbatim>\<open>compact\<close> and \<^verbatim>\<open>persist_window\<close>, the steps of
  \<^verbatim>\<open>write_atomic\<close> and what \<^verbatim>\<open>load_meta\<close> finds after a crash between any two of them.

  The JSON codec (\<^verbatim>\<open>serde_json\<close>) is a parameter: \<open>ser\<close> and \<open>de\<close> for the meta file, \<open>gser\<close> and \<open>gde\<close> for the
  grace book. Files are optional byte strings; a file that is not there is \<^const>\<open>None\<close>. Reads and
  writes that fail for other reasons than a missing file are not modelled.
\<close>

section \<open>Credit rows\<close>

abbreviation ROW_SIZE :: nat where "ROW_SIZE \<equiv> 24"

definition write_row :: "credit_rec \<Rightarrow> byte list" where
  "write_row c = le_bytes 4 (cr_ts c) @ le_bytes 4 (cr_ident c) @ le_bytes 8 (cr_work c) @ le_bytes 4 (cr_height c)
     @ [of_nat (cr_source c), 0, 0, 0]"

definition read_row :: "byte list \<Rightarrow> credit_rec" where
  "read_row b = \<lparr>cr_ts = le_nat (take 4 b), cr_ident = le_nat (take 4 (drop 4 b)), cr_work = le_nat (take 8 (drop 8 b)),
     cr_height = le_nat (take 4 (drop 16 b)), cr_source = unat (b ! 20)\<rparr>"

text \<open>\<^verbatim>\<open>as_chunks::<24>().0\<close>: whole rows only.\<close>

function row_chunks :: "byte list \<Rightarrow> byte list list" where
  "row_chunks b = (if length b < ROW_SIZE then [] else take ROW_SIZE b # row_chunks (drop ROW_SIZE b))"
  by pat_completeness auto
termination
  by (relation "measure length") auto

declare row_chunks.simps [simp del]

section \<open>The meta file\<close>

record meta =
  me_target_work :: u64
  me_lifetime_shares :: u64
  me_lifetime_work :: u64
  me_carry :: "(string \<times> u64) list"
  me_rebate_owed :: u64
  me_last_seen :: "(string \<times> u32) list"
  me_holds :: "(string \<times> hold) list"
  me_debt :: "(string \<times> u64) list"
  me_applied_debits :: "string list"
  me_applied_debits_tracked :: bool

definition default_meta :: meta where
  "default_meta = \<lparr>me_target_work = 0, me_lifetime_shares = 0, me_lifetime_work = 0, me_carry = [], me_rebate_owed = 0,
     me_last_seen = [], me_holds = [], me_debt = [], me_applied_debits = [], me_applied_debits_tracked = False\<rparr>"

text \<open>\<^verbatim>\<open>collect()\<close> into a \<^verbatim>\<open>BTreeMap\<close>: in key order.\<close>

definition to_btree :: "(string \<times> 'v) list \<Rightarrow> (string \<times> 'v) list" where
  "to_btree xs = sort_key fst xs"

text \<open>The identities whose last-seen time is kept: those with carry, and those in a hold.\<close>

definition owed_idents :: "window \<Rightarrow> string list" where
  "owed_idents w = map (\<lambda>i. w_idents w ! i) (keys_of w (w_carry w))
     @ concat (map (\<lambda>h. map fst (hd_entries (snd h))) (w_holds w))"

definition meta_of :: "ledger \<Rightarrow> meta" where
  "meta_of l = (let w = l_window l in
     \<lparr>me_target_work = w_target_work w, me_lifetime_shares = w_lifetime_shares w, me_lifetime_work = w_lifetime_work w,
      me_carry = to_btree (carries w), me_rebate_owed = w_rebate_owed w,
      me_last_seen = to_btree (map (\<lambda>s. (s, last_seen_of s w))
         (filter (\<lambda>s. last_seen_of s w > 0) (remdups (owed_idents w)))),
      me_holds = w_holds w, me_debt = to_btree (debts w),
      me_applied_debits = sorted_list_of_set (l_applied_debits l), me_applied_debits_tracked = l_debits_tracked l\<rparr>)"

datatype io_error = InvalidData

text \<open>\<^verbatim>\<open>load_meta\<close>'s inner \<^verbatim>\<open>read\<close>.\<close>

definition read_meta :: "(byte list \<Rightarrow> meta option) \<Rightarrow> byte list option \<Rightarrow> io_error + meta option" where
  "read_meta de f = (case f of None \<Rightarrow> Inr None
     | Some b \<Rightarrow> (case de b of Some m \<Rightarrow> Inr (Some m) | None \<Rightarrow> Inl InvalidData))"

definition load_meta :: "(byte list \<Rightarrow> meta option) \<Rightarrow> byte list option \<Rightarrow> byte list option \<Rightarrow> io_error + meta" where
  "load_meta de path bak = (case read_meta de path of
     Inr (Some m) \<Rightarrow> Inr m
   | Inr None \<Rightarrow> (case read_meta de bak of
       Inl e \<Rightarrow> Inl e
     | Inr (Some m) \<Rightarrow> Inr m
     | Inr None \<Rightarrow> Inr default_meta)
   | Inl e \<Rightarrow> (case read_meta de bak of Inr (Some m) \<Rightarrow> Inr m | _ \<Rightarrow> Inl e))"

definition load_grace :: "(byte list \<Rightarrow> grace_book option) \<Rightarrow> byte list option \<Rightarrow> grace_book \<times> bool" where
  "load_grace gde f = (case f of None \<Rightarrow> (new_grace_book, False)
     | Some b \<Rightarrow> (case gde b of Some g \<Rightarrow> (g, True) | None \<Rightarrow> (new_grace_book, False)))"

section \<open>Replacing a file\<close>

record files =
  fl_path :: "byte list option"
  fl_bak :: "byte list option"
  fl_tmp :: "byte list option"

text \<open>
  The steps of \<^verbatim>\<open>write_atomic\<close> in order, each with the program point it leads to. \<open>Write\<close> may happen
  any number of times: what a crash finds in the temporary file is any part of the data. A failed
  removal or link is ignored by the source, so both are total here.
\<close>

datatype wa_point = Start | Writing | Synced | BakRemoved | BakLinked | Renamed

inductive wa_step :: "byte list \<Rightarrow> wa_point \<times> files \<Rightarrow> wa_point \<times> files \<Rightarrow> bool" for data where
  create: "wa_step data (Start, f) (Writing, f\<lparr>fl_tmp := Some []\<rparr>)"
| write_part: "n \<le> length data \<Longrightarrow> wa_step data (Writing, f) (Writing, f\<lparr>fl_tmp := Some (take n data)\<rparr>)"
| sync_all: "wa_step data (Writing, f) (Synced, f\<lparr>fl_tmp := Some data\<rparr>)"
| remove_bak: "wa_step data (Synced, f) (BakRemoved, f\<lparr>fl_bak := None\<rparr>)"
| link_bak: "wa_step data (BakRemoved, f) (BakLinked, f\<lparr>fl_bak := fl_path f\<rparr>)"
| rename_tmp: "wa_step data (BakLinked, f) (Renamed, f\<lparr>fl_path := fl_tmp f, fl_tmp := None\<rparr>)"

definition write_atomic :: "byte list \<Rightarrow> files \<Rightarrow> files" where
  "write_atomic data f = \<lparr>fl_path = Some data, fl_bak = fl_path f, fl_tmp = None\<rparr>"

section \<open>Identity lines\<close>

text \<open>\<^verbatim>\<open>BufRead::lines\<close>: split at the newlines, a carriage return before one removed.\<close>

definition strip_cr :: "string \<Rightarrow> string" where
  "strip_cr s = (if s \<noteq> [] \<and> last s = CHR 0x0D then butlast s else s)"

fun split_lines :: "string \<Rightarrow> string \<Rightarrow> string list" where
  "split_lines cur [] = (if cur = [] then [] else [rev cur])"
| "split_lines cur (c # cs) = (if c = CHR 0x0A then strip_cr (rev cur) # split_lines [] cs else split_lines (c # cur) cs)"

definition file_lines :: "string \<Rightarrow> string list" where
  "file_lines s = split_lines [] s"

definition unlines :: "string list \<Rightarrow> string" where
  "unlines ls = concat (map (\<lambda>l. l @ [CHR 0x0A]) ls)"

text \<open>Cut back to the last whole line.\<close>

definition whole_lines :: "string \<Rightarrow> string" where
  "whole_lines s = rev (dropWhile (\<lambda>c. c \<noteq> CHR 0x0A) (rev s))"

section \<open>Opening and writing\<close>

record disk =
  dk_idents :: "string option"
  dk_credits :: "byte list option"
  dk_meta :: files
  dk_grace :: "byte list option"

definition load_idents :: "string option \<Rightarrow> window \<Rightarrow> window" where
  "load_idents f w = (case f of None \<Rightarrow> w
     | Some s \<Rightarrow> fold (\<lambda>l w. if l \<noteq> [] then snd (intern l w) else w) (file_lines (whole_lines s)) w)"

definition load_carry :: "string \<times> u64 \<Rightarrow> window \<times> string list \<Rightarrow> window \<times> string list" where
  "load_carry e st = (case e of (s, sats) \<Rightarrow> case st of (w, new) \<Rightarrow>
     (set_carry s sats w, if w_index w s = None then new @ [s] else new))"

definition load_debt :: "string \<times> u64 \<Rightarrow> window \<times> string list \<Rightarrow> window \<times> string list" where
  "load_debt e st = (case e of (s, sats) \<Rightarrow> case st of (w, new) \<Rightarrow>
     (accrue_debt s sats w, if w_index w s = None then new @ [s] else new))"

definition load_last_seen :: "string \<times> u32 \<Rightarrow> window \<Rightarrow> window" where
  "load_last_seen e w = (case e of (s, ts) \<Rightarrow> if w_index w s \<noteq> None then set_last_seen s ts w else w)"

text \<open>The balances of the meta file, on top of the identity table: the window and the identities that
  were not on file.\<close>

definition load_balances :: "meta \<Rightarrow> window \<Rightarrow> window \<times> string list" where
  "load_balances m w0 =
     (let (w1, new1) = fold load_carry (me_carry m) (w0, []);
          (w2, new2) = fold load_debt (me_debt m) (w1, new1)
      in (fold load_last_seen (me_last_seen m) w2, new2))"

fun load_rows :: "credit_rec list \<Rightarrow> window \<Rightarrow> u64 \<Rightarrow> u64 \<Rightarrow> (window \<times> u64 \<times> u64) option" where
  "load_rows [] w on_disk skipped = Some (w, on_disk, skipped)"
| "load_rows (c # cs) w on_disk skipped =
     (if cr_ident c < length (w_idents w)
      then do { w' \<leftarrow> push_raw c w; load_rows cs w' (on_disk + 1) skipped }
      else load_rows cs w on_disk (skipped + 1))"

text \<open>\<^verbatim>\<open>compact\<close>: the credits file becomes the rows of the window.\<close>

definition compact :: "ledger \<Rightarrow> disk \<Rightarrow> ledger \<times> disk" where
  "compact l d = (let rows = w_credits (l_window l) in
     (l\<lparr>l_credits_out := rows, l_rows_on_disk := length rows\<rparr>,
      d\<lparr>dk_credits := Some (concat (map write_row rows))\<rparr>))"

definition open_ledger ::
  "(byte list \<Rightarrow> meta option) \<Rightarrow> (byte list \<Rightarrow> grace_book option) \<Rightarrow> disk \<Rightarrow> (io_error + ledger \<times> disk) option" where
  "open_ledger de gde d =
     (case load_meta de (fl_path (dk_meta d)) (fl_bak (dk_meta d)) of
        Inl e \<Rightarrow> Some (Inl e)
      | Inr m \<Rightarrow>
          let w0 = new_window\<lparr>w_lifetime_shares := me_lifetime_shares m, w_lifetime_work := me_lifetime_work m,
                     w_rebate_owed := me_rebate_owed m, w_holds := me_holds m\<rparr>;
              w1 = load_idents (dk_idents d) w0;
              (w2, new) = load_balances m w1;
              bytes = (case dk_credits d of None \<Rightarrow> [] | Some b \<Rightarrow> take (length b - length b mod ROW_SIZE) b);
              rows = map read_row (row_chunks bytes)
          in do {
            (w3, on_disk, skipped) \<leftarrow> load_rows rows w2 0 0;
            let w4 = set_target (me_target_work m) w3;
            let g = load_grace gde (dk_grace d);
            let whole = (case dk_idents d of None \<Rightarrow> [] | Some s \<Rightarrow> whole_lines s);
            let l = \<lparr>l_window = w4, l_credits_out = rows, l_idents_out = file_lines whole @ new,
                     l_rows_on_disk = on_disk, l_dirty = (new \<noteq> []), l_applied_debits = set (me_applied_debits m),
                     l_debits_tracked = me_applied_debits_tracked m, l_grace = fst g, l_grace_loaded = snd g\<rparr>;
            let d1 = d\<lparr>dk_idents := Some (whole @ unlines new), dk_credits := Some bytes\<rparr>;
            Some (Inr (if skipped > 0 \<or> on_disk > length (w_credits w4) + 8192 then compact l d1 else (l, d1))) })"

definition flush ::
  "(meta \<Rightarrow> byte list) \<Rightarrow> (grace_book \<Rightarrow> byte list) \<Rightarrow> ledger \<Rightarrow> disk \<Rightarrow> ledger \<times> disk" where
  "flush ser gser l d = (if \<not> l_dirty l then (l, d)
     else
       let d1 = (if gb_dirty (l_grace l) then d\<lparr>dk_grace := Some (gser (l_grace l))\<rparr> else d);
           l1 = (if gb_dirty (l_grace l) then l\<lparr>l_grace := (l_grace l)\<lparr>gb_dirty := False\<rparr>\<rparr> else l);
           d2 = d1\<lparr>dk_idents := Some (unlines (l_idents_out l1)), dk_credits := Some (concat (map write_row (l_credits_out l1))),
                   dk_meta := write_atomic (ser (meta_of l1)) (dk_meta d1)\<rparr>;
           l2 = l1\<lparr>l_dirty := False\<rparr>
       in if l_rows_on_disk l2 > length (w_credits (l_window l2)) + 8192 then compact l2 d2 else (l2, d2))"

definition persist_window ::
  "(meta \<Rightarrow> byte list) \<Rightarrow> (grace_book \<Rightarrow> byte list) \<Rightarrow> ledger \<Rightarrow> disk \<Rightarrow> ledger \<times> disk" where
  "persist_window ser gser l d = (case flush ser gser l d of (l1, d1) \<Rightarrow>
     if l_rows_on_disk l1 \<noteq> length (w_credits (l_window l1)) then compact l1 d1 else (l1, d1))"

section \<open>Codecs\<close>

definition row_ok :: "credit_rec \<Rightarrow> bool" where
  "row_ok c \<longleftrightarrow> cr_ts c \<le> u32_max \<and> cr_ident c \<le> u32_max \<and> cr_work c \<le> u64_max \<and> cr_height c \<le> u32_max \<and> cr_source c < 256"

lemma length_write_row [simp]: "length (write_row c) = ROW_SIZE"
  by (simp add: write_row_def)

lemma read_write_row:
  assumes "row_ok c"
  shows "read_row (write_row c) = c"
proof -
  have parts: "take 4 (write_row c) = le_bytes 4 (cr_ts c)" "take 4 (drop 4 (write_row c)) = le_bytes 4 (cr_ident c)"
    "take 8 (drop 8 (write_row c)) = le_bytes 8 (cr_work c)" "take 4 (drop 16 (write_row c)) = le_bytes 4 (cr_height c)"
    "write_row c ! 20 = of_nat (cr_source c)"
    by (simp_all add: write_row_def nth_append)
  have "cr_ts c < 256 ^ 4" "cr_ident c < 256 ^ 4" "cr_work c < 256 ^ 8" "cr_height c < 256 ^ 4" "cr_source c mod 256 = cr_source c"
    using assms by (auto simp: row_ok_def)
  then show ?thesis by (simp add: read_row_def parts)
qed

lemma row_chunks_rows [simp]: "row_chunks (concat (map write_row cs)) = map write_row cs"
  by (induction cs) (simp_all add: row_chunks.simps)

lemma read_rows_written: "\<forall>c \<in> set cs. row_ok c \<Longrightarrow> map read_row (row_chunks (concat (map write_row cs))) = cs"
  by (simp add: map_idI read_write_row)

lemma length_rows [simp]: "length (concat (map write_row cs)) = ROW_SIZE * length cs"
  by (induction cs) simp_all

definition line_ok :: "string \<Rightarrow> bool" where
  "line_ok s \<longleftrightarrow> s \<noteq> [] \<and> CHR 0x0A \<notin> set s \<and> last s \<noteq> CHR 0x0D"

lemma unlines_Nil [simp]: "unlines [] = []"
  by (simp add: unlines_def)

lemma split_lines_line:
  "CHR 0x0A \<notin> set l \<Longrightarrow> split_lines cur (l @ CHR 0x0A # rest) = strip_cr (rev cur @ l) # split_lines [] rest"
  by (induction l arbitrary: cur) auto

lemma file_lines_unlines: "\<forall>l \<in> set ls. line_ok l \<Longrightarrow> file_lines (unlines ls) = ls"
proof (induction ls)
  case (Cons l ls)
  then show ?case
    using split_lines_line [of l "[]" "unlines ls"] by (simp add: file_lines_def unlines_def line_ok_def strip_cr_def)
qed (simp add: file_lines_def unlines_def)

lemma whole_lines_unlines [simp]: "whole_lines (unlines ls) = unlines ls"
proof (cases ls rule: rev_cases)
  case (snoc ys y)
  then have "rev (unlines ls) = CHR 0x0A # rev (unlines ys @ y)" by (simp add: unlines_def)
  then have "dropWhile (\<lambda>c. c \<noteq> CHR 0x0A) (rev (unlines ls)) = rev (unlines ls)" by simp
  then show ?thesis by (simp add: whole_lines_def)
qed (simp add: unlines_def whole_lines_def)

section \<open>Loading what was written\<close>

lemma ident_ok_index:
  assumes "ident_ok a" "ident_ok b" "w_idents a = w_idents b"
  shows "w_index a = w_index b"
proof
  fix s
  show "w_index a s = w_index b s"
    using assms unfolding ident_ok_def by (metis option.exhaust)
qed

lemma fold_intern:
  assumes "ident_ok w" "distinct (w_idents w @ ls)" "length (w_idents w @ ls) \<le> 4294967296" "[] \<notin> set ls"
  obtains ix where "fold (\<lambda>l w. if l \<noteq> [] then snd (intern l w) else w) ls w = w\<lparr>w_idents := w_idents w @ ls, w_index := ix\<rparr>"
    and "ident_ok (w\<lparr>w_idents := w_idents w @ ls, w_index := ix\<rparr>)"
  using assms
proof (induction ls arbitrary: w thesis)
  case Nil
  then show ?case by (intro Nil(1) [of "w_index w"]) simp_all
next
  case (Cons l ls)
  obtain i w1 where i: "intern l w = (i, w1)" by (cases "intern l w")
  have len: "length (w_idents w) < 4294967296" using Cons.prems(4) by simp
  have none: "w_index w l = None"
  proof (rule ccontr)
    assume "w_index w l \<noteq> None"
    then obtain j where "w_index w l = Some j" by blast
    then have "l \<in> set (w_idents w)" using ident_ok_nth [OF Cons.prems(2)] by (metis nth_mem)
    then show False using Cons.prems(3) by simp
  qed
  note sp = intern_spec [OF Cons.prems(2) len i]
  have w1: "w1 = w\<lparr>w_idents := w_idents w @ [l], w_index := w_index w1\<rparr>" and ids: "w_idents w1 = w_idents w @ [l]"
    using sp(4,8) none by simp_all
  have k: "distinct (w_idents w1 @ ls)" "length (w_idents w1 @ ls) \<le> 4294967296" "[] \<notin> set ls" "l \<noteq> []"
    using Cons.prems(3-5) ids by auto
  obtain ix where ix: "fold (\<lambda>l w. if l \<noteq> [] then snd (intern l w) else w) ls w1 = w1\<lparr>w_idents := w_idents w1 @ ls, w_index := ix\<rparr>"
    "ident_ok (w1\<lparr>w_idents := w_idents w1 @ ls, w_index := ix\<rparr>)"
    by (rule Cons.IH [OF _ sp(1) k(1-3)]) (rule that)
  have "w1\<lparr>w_idents := w_idents w1 @ ls, w_index := ix\<rparr> = w\<lparr>w_idents := w_idents w @ l # ls, w_index := ix\<rparr>"
    by (subst w1, simp add: ids)
  then show ?case using Cons.prems(1) [of ix] ix k(4) by (simp add: i)
qed

text \<open>A balance map is determined by what it says of the identities.\<close>

lemma bal_map_eqI:
  assumes ok: "ident_ok w" and a: "bal_ok (length (w_idents w)) m" and b: "bal_ok (length (w_idents w)) m'"
    and eq: "\<And>s. lookup w m s = lookup w m' s"
  shows "m = m'"
proof
  fix i
  show "m i = m' i"
  proof (cases "i < length (w_idents w)")
    case True
    then have "w_index w (w_idents w ! i) = Some i" using ok by (simp add: ident_ok_def)
    then show ?thesis
      using eq [of "w_idents w ! i"] a b
      by (cases "m i"; cases "m' i") (auto simp: lookup_def bal_ok_def)
  next
    case False
    then have "m i = None" "m' i = None" using a b by (auto simp: bal_ok_def intro: ccontr)
    then show ?thesis by simp
  qed
qed

lemma balances_keys:
  assumes "ident_ok w"
  shows "distinct (map fst (to_btree (balances w m)))"
proof -
  have "mset (map fst (to_btree (balances w m))) = mset (map (\<lambda>i. w_idents w ! i) (keys_of w m))"
    by (simp add: to_btree_def balances_def image_mset.compositionality comp_def)
  moreover have "distinct (map (\<lambda>i. w_idents w ! i) (keys_of w m))"
    using ident_ok_distinct [OF assms] by (auto simp: distinct_map inj_on_def nth_eq_iff_index_eq)
  ultimately show ?thesis by (metis mset_eq_imp_distinct_iff)
qed

lemma balances_set:
  "set (to_btree (balances w m)) = {(w_idents w ! i, x) | i x. i < length (w_idents w) \<and> m i = Some x}"
  by (force simp: to_btree_def balances_def)

lemma balances_map_of:
  assumes ok: "ident_ok w"
  shows "(case map_of (to_btree (balances w m)) s of None \<Rightarrow> 0 | Some x \<Rightarrow> x) = lookup w m s"
proof (cases "map_of (to_btree (balances w m)) s")
  case None
  then have "s \<notin> fst ` set (to_btree (balances w m))" by (simp add: map_of_eq_None_iff)
  then have n: "m i = None" if "w_index w s = Some i" for i
    using ident_ok_nth [OF ok that] unfolding balances_set by (cases "m i") force+
  show ?thesis by (cases "w_index w s") (simp_all add: None lookup_def n)
next
  case (Some x)
  then obtain i where "i < length (w_idents w)" "m i = Some x" "s = w_idents w ! i"
    using map_of_SomeD [OF Some] unfolding balances_set by auto
  moreover from this have "w_index w s = Some i" using ok by (simp add: ident_ok_def)
  ultimately show ?thesis using Some by (simp add: lookup_def)
qed

lemma intern_known: "w_index w s = Some i \<Longrightarrow> intern s w = (i, w)"
  by (simp add: intern_def)

lemma fold_load_carry:
  assumes "ident_ok w" "\<forall>e \<in> set es. w_index w (fst e) \<noteq> None" "distinct (map fst es)"
  obtains c where "fold load_carry es (w, new) = (w\<lparr>w_carry := c\<rparr>, new)"
    and "\<And>s. lookup w c s = (case map_of es s of None \<Rightarrow> lookup w (w_carry w) s | Some x \<Rightarrow> x)"
    and "bal_ok (length (w_idents w)) (w_carry w) \<Longrightarrow> \<forall>e \<in> set es. snd e \<le> u64_max \<Longrightarrow> bal_ok (length (w_idents w)) c"
  using assms
proof (induction es arbitrary: w thesis)
  case Nil
  show ?case by (rule Nil(1) [of "w_carry w"]) simp_all
next
  case (Cons e es)
  obtain s n where e: "e = (s, n)" by (cases e)
  obtain i where i: "w_index w s = Some i" using Cons.prems(3) e by auto
  let ?c = "put_balance i n (w_carry w)"
  let ?w = "w\<lparr>w_carry := ?c\<rparr>"
  have one: "load_carry e (w, new) = (?w, new)"
    by (simp add: load_carry_def e i set_carry_def intern_known [OF i])
  have k: "\<forall>e \<in> set es. w_index ?w (fst e) \<noteq> None" "ident_ok ?w" "distinct (map fst es)"
    using Cons.prems(2-4) by simp_all
  obtain c where c: "fold load_carry es (?w, new) = (?w\<lparr>w_carry := c\<rparr>, new)"
    "\<And>s. lookup ?w c s = (case map_of es s of None \<Rightarrow> lookup ?w (w_carry ?w) s | Some x \<Rightarrow> x)"
    "bal_ok (length (w_idents ?w)) (w_carry ?w) \<Longrightarrow> \<forall>e \<in> set es. snd e \<le> u64_max \<Longrightarrow> bal_ok (length (w_idents ?w)) c"
    by (rule Cons.IH [OF _ k(2,1,3)]) (rule that)
  have "map_of es s = None" using Cons.prems(4) e by (simp add: map_of_eq_None_iff)
  then have lk: "lookup w c x = (case map_of (e # es) x of None \<Rightarrow> lookup w (w_carry w) x | Some y \<Rightarrow> y)" for x
    using c(2) [of x] lookup_put [OF Cons.prems(2) i, of n "w_carry w" x] e by (auto split: option.splits)
  have il: "i < length (w_idents w)" using ident_ok_nth [OF Cons.prems(2) i] by simp
  show ?case
    by (rule Cons.prems(1) [OF _ lk]) (use c(1,3) one e bal_ok_put [OF _ il] in auto)
qed


lemma fold_load_debt:
  assumes "ident_ok w" "\<forall>e \<in> set es. w_index w (fst e) \<noteq> None" "distinct (map fst es)"
    and "\<forall>e \<in> set es. lookup w (w_debt w) (fst e) = 0 \<and> 0 < snd e \<and> snd e \<le> u64_max"
  obtains d where "fold load_debt es (w, new) = (w\<lparr>w_debt := d\<rparr>, new)"
    and "\<And>s. lookup w d s = (case map_of es s of None \<Rightarrow> lookup w (w_debt w) s | Some x \<Rightarrow> x)"
    and "bal_ok (length (w_idents w)) (w_debt w) \<Longrightarrow> bal_ok (length (w_idents w)) d"
  using assms
proof (induction es arbitrary: w thesis)
  case Nil
  show ?case by (rule Nil(1) [of "w_debt w"]) simp_all
next
  case (Cons e es)
  obtain s n where e: "e = (s, n)" by (cases e)
  obtain i where i: "w_index w s = Some i" using Cons.prems(3) e by auto
  have n: "lookup w (w_debt w) s = 0" "0 < n" "n \<le> u64_max" using Cons.prems(5) e by auto
  let ?d = "put_balance i n (w_debt w)"
  let ?w = "w\<lparr>w_debt := ?d\<rparr>"
  have one: "load_debt e (w, new) = (?w, new)"
    using n by (simp add: load_debt_def e i accrue_debt_def intern_known [OF i] put_balance_def lookup_at [OF i, symmetric])
  have k: "\<forall>e \<in> set es. w_index ?w (fst e) \<noteq> None" "ident_ok ?w" "distinct (map fst es)"
    using Cons.prems(2-4) by simp_all
  have z: "\<forall>e \<in> set es. lookup ?w (w_debt ?w) (fst e) = 0 \<and> 0 < snd e \<and> snd e \<le> u64_max"
  proof
    fix x assume x: "x \<in> set es"
    then have "fst x \<noteq> s" using Cons.prems(4) e by (auto simp: image_iff)
    then show "lookup ?w (w_debt ?w) (fst x) = 0 \<and> 0 < snd x \<and> snd x \<le> u64_max"
      using Cons.prems(5) x lookup_put [OF Cons.prems(2) i, of n "w_debt w" "fst x"] by simp
  qed
  obtain d where d: "fold load_debt es (?w, new) = (?w\<lparr>w_debt := d\<rparr>, new)"
    "\<And>s. lookup ?w d s = (case map_of es s of None \<Rightarrow> lookup ?w (w_debt ?w) s | Some x \<Rightarrow> x)"
    "bal_ok (length (w_idents ?w)) (w_debt ?w) \<Longrightarrow> bal_ok (length (w_idents ?w)) d"
    by (rule Cons.IH [OF _ k(2,1,3) z]) (rule that)
  have "map_of es s = None" using Cons.prems(4) e by (simp add: map_of_eq_None_iff)
  then have lk: "lookup w d x = (case map_of (e # es) x of None \<Rightarrow> lookup w (w_debt w) x | Some y \<Rightarrow> y)" for x
    using d(2) [of x] lookup_put [OF Cons.prems(2) i, of n "w_debt w" x] e by (auto split: option.splits)
  have il: "i < length (w_idents w)" using ident_ok_nth [OF Cons.prems(2) i] by simp
  show ?case
    by (rule Cons.prems(1) [OF _ lk]) (use d(1,3) one e bal_ok_put [OF _ il n(3)] in auto)
qed

lemma fold_load_last_seen:
  assumes "ident_ok w" "seen_ok w"
  obtains m where "fold load_last_seen es w = w\<lparr>w_last_seen := m\<rparr>" "seen_ok (w\<lparr>w_last_seen := m\<rparr>)"
  using assms
proof (induction es arbitrary: w thesis)
  case Nil
  show ?case by (rule Nil(1) [of "w_last_seen w"]) (use Nil in simp_all)
next
  case (Cons e es)
  obtain m1 where 1: "load_last_seen e w = w\<lparr>w_last_seen := m1\<rparr>" "seen_ok (w\<lparr>w_last_seen := m1\<rparr>)"
  proof (cases "w_index w (fst e)")
    case None
    then show thesis using that [of "w_last_seen w"] Cons.prems(3) by (simp add: load_last_seen_def case_prod_beta)
  next
    case (Some i)
    then have "load_last_seen e w = note_seen i (snd e) w"
      by (simp add: load_last_seen_def case_prod_beta set_last_seen_def intern_known)
    moreover have "seen_ok (note_seen i (snd e) w)"
      using seen_ok_note [OF Cons.prems(3)] ident_ok_nth [OF Cons.prems(2) Some] by simp
    ultimately show thesis using that by (simp add: note_seen_def)
  qed
  obtain m where "fold load_last_seen es (w\<lparr>w_last_seen := m1\<rparr>) = w\<lparr>w_last_seen := m1\<rparr>\<lparr>w_last_seen := m\<rparr>"
    "seen_ok (w\<lparr>w_last_seen := m1\<rparr>\<lparr>w_last_seen := m\<rparr>)"
    by (rule Cons.IH [OF _ _ 1(2)]) (assumption | rule that | use Cons.prems(2) in simp)+
  then show ?case using Cons.prems(1) [of m] 1(1) by simp
qed

lemma push_raw_idents: "push_raw c w = Some w' \<Longrightarrow> w_idents w' = w_idents w"
  by (auto simp: push_raw_def Let_def bind_eq_Some_conv split: prod.splits)

lemma load_rows_push:
  "\<forall>c \<in> set cs. cr_ident c < length (w_idents w) \<Longrightarrow>
    load_rows cs w a b = map_option (\<lambda>w'. (w', a + length cs, b)) (push_rows cs w)"
proof (induction cs arbitrary: w a)
  case (Cons c cs)
  show ?case
  proof (cases "push_raw c w")
    case (Some w1)
    then show ?thesis using Cons.IH [of w1 "a + 1"] Cons.prems push_raw_idents [OF Some] by simp
  qed (use Cons.prems in simp)
qed simp

text \<open>The balances of a meta file written from a window \<open>w\<close>, loaded onto its identity table.\<close>

lemma load_balances_spec:
  assumes ok: "accounts_ok k w" and id: "ident_ok w0" "w_idents w0 = w_idents w" "w_carry w0 = Map.empty" "w_debt w0 = Map.empty"
    and seen: "seen_ok w0" and c: "me_carry m = to_btree (carries w)" and d: "me_debt m = to_btree (debts w)"
  obtains ls where "load_balances m w0 = (w0\<lparr>w_carry := w_carry w, w_debt := w_debt w, w_last_seen := ls\<rparr>, [])"
    and "seen_ok (w0\<lparr>w_last_seen := ls\<rparr>)"
proof -
  have I: "ident_ok w" and bc: "bal_ok (length (w_idents w)) (w_carry w)" and bd: "bal_ok (length (w_idents w)) (w_debt w)"
    using ok by (simp_all add: accounts_ok_def)
  have ix: "w_index w0 = w_index w" by (rule ident_ok_index [OF id(1) I id(2)])
  have known: "\<forall>e \<in> set (to_btree (balances w b)). w_index w0 (fst e) \<noteq> None" for b
    using I unfolding balances_set ix ident_ok_def by force
  have le: "\<forall>e \<in> set (to_btree (balances w b)). 0 < snd e \<and> snd e \<le> u64_max" if "bal_ok (length (w_idents w)) b" for b
    using that unfolding balances_set bal_ok_def by fastforce
  have e: "lookup w0 Map.empty s = 0" for s by (simp add: lookup_def split: option.split)
  have lk: "lookup w0 b s = lookup w b s" for b s by (simp add: lookup_def ix)
  have b0: "bal_ok (length (w_idents w0)) Map.empty" by (simp add: bal_ok_def)
  obtain c' where c': "fold load_carry (me_carry m) (w0, []) = (w0\<lparr>w_carry := c'\<rparr>, [])"
    "\<And>s. lookup w0 c' s = (case map_of (me_carry m) s of None \<Rightarrow> lookup w0 (w_carry w0) s | Some x \<Rightarrow> x)"
    "bal_ok (length (w_idents w0)) (w_carry w0) \<Longrightarrow> \<forall>e \<in> set (me_carry m). snd e \<le> u64_max \<Longrightarrow> bal_ok (length (w_idents w0)) c'"
    by (rule fold_load_carry [OF id(1), of "me_carry m" "[]"])
      (use known [of "w_carry w"] balances_keys [OF I] in \<open>simp_all add: c carries_def\<close>)
  have "w_carry w = c'"
  proof (rule bal_map_eqI [OF I bc])
    show "bal_ok (length (w_idents w)) c'" using c'(3) b0 le [OF bc] id by (simp add: c carries_def)
    show "lookup w (w_carry w) s = lookup w c' s" for s
      using c'(2) [of s] balances_map_of [OF I, of "w_carry w" s] e [of s] lk id(3)
      by (auto simp: c carries_def split: option.splits)
  qed
  let ?w1 = "w0\<lparr>w_carry := c'\<rparr>"
  obtain d' where d': "fold load_debt (me_debt m) (?w1, []) = (?w1\<lparr>w_debt := d'\<rparr>, [])"
    "\<And>s. lookup ?w1 d' s = (case map_of (me_debt m) s of None \<Rightarrow> lookup ?w1 (w_debt ?w1) s | Some x \<Rightarrow> x)"
    "bal_ok (length (w_idents ?w1)) (w_debt ?w1) \<Longrightarrow> bal_ok (length (w_idents ?w1)) d'"
    by (rule fold_load_debt [of ?w1 "me_debt m" "[]"])
      (use id known [of "w_debt w"] balances_keys [OF I] le [OF bd] e in \<open>simp_all add: d debts_def\<close>)
  have "w_debt w = d'"
  proof (rule bal_map_eqI [OF I bd])
    show "bal_ok (length (w_idents w)) d'" using d'(3) b0 id by simp
    show "lookup w (w_debt w) s = lookup w d' s" for s
      using d'(2) [of s] balances_map_of [OF I, of "w_debt w" s] e [of s] lk id(4)
      by (auto simp: d debts_def split: option.splits)
  qed
  let ?w2 = "?w1\<lparr>w_debt := d'\<rparr>"
  have "ident_ok ?w2" "seen_ok ?w2" using id(1) seen by (simp_all add: seen_ok_def)
  then obtain ls where ls: "fold load_last_seen (me_last_seen m) ?w2 = ?w2\<lparr>w_last_seen := ls\<rparr>" "seen_ok (?w2\<lparr>w_last_seen := ls\<rparr>)"
    by (rule fold_load_last_seen)
  show thesis
    by (rule that [of ls])
      (use c'(1) d'(1) ls \<open>w_carry w = c'\<close> \<open>w_debt w = d'\<close> in \<open>simp_all add: load_balances_def seen_ok_def\<close>)
qed


section \<open>The persisted ledger\<close>

text \<open>What a ledger that was opened and used keeps true of its files: the rows on file end with the
  window's rows, the identity lines are the identity table, and both can be read back.\<close>

definition ledger_ok :: "nat \<Rightarrow> ledger \<Rightarrow> bool" where
  "ledger_ok k l \<longleftrightarrow> window_ok k (l_window l) \<and> in_step l
     \<and> keep_window (w_target_work (l_window l)) (w_credits (l_window l)) = w_credits (l_window l)
     \<and> (\<exists>old. l_credits_out l = old @ w_credits (l_window l)) \<and> l_rows_on_disk l = length (l_credits_out l)
     \<and> length (w_credits (l_window l)) \<le> u64_max
     \<and> (\<forall>c \<in> set (w_credits (l_window l)). row_ok c) \<and> (\<forall>s \<in> set (w_idents (l_window l)). line_ok s)
     \<and> finite (l_applied_debits l)"

text \<open>What a restart must bring back. The last-seen times and the last timestamps per identity are
  recomputed from the rows and are not part of it.\<close>

definition same_state :: "ledger \<Rightarrow> ledger \<Rightarrow> bool" where
  "same_state l l' \<longleftrightarrow> (let w = l_window l; w' = l_window l' in
     w_idents w' = w_idents w \<and> w_index w' = w_index w \<and> w_credits w' = w_credits w
     \<and> w_total_work w' = w_total_work w \<and> w_target_work w' = w_target_work w
     \<and> w_carry w' = w_carry w \<and> w_debt w' = w_debt w \<and> w_holds w' = w_holds w \<and> w_rebate_owed w' = w_rebate_owed w
     \<and> w_lifetime_shares w' = w_lifetime_shares w \<and> w_lifetime_work w' = w_lifetime_work w
     \<and> (\<forall>s. work_of s w' = work_of s w)
     \<and> l_applied_debits l' = l_applied_debits l \<and> l_debits_tracked l' = l_debits_tracked l)"

lemma persist_files:
  assumes ok: "ledger_ok k l" and dirty: "l_dirty l" and p: "persist_window ser gser l d = (l1, d1)"
  shows "dk_idents d1 = Some (unlines (w_idents (l_window l)))"
    and "dk_credits d1 = Some (concat (map write_row (w_credits (l_window l))))"
    and "fl_path (dk_meta d1) = Some (ser (meta_of l))"
proof -
  let ?rows = "w_credits (l_window l)"
  have full: "l_credits_out l = ?rows" if "l_rows_on_disk l = length ?rows"
  proof -
    obtain old where "l_credits_out l = old @ ?rows" "l_rows_on_disk l = length (l_credits_out l)"
      using ok unfolding ledger_ok_def by blast
    with that show ?thesis by simp
  qed
  have meta: "meta_of (l\<lparr>l_grace := g\<rparr>) = meta_of l" for g by (simp add: meta_of_def Let_def)
  have ids: "l_idents_out l = w_idents (l_window l)" using ok by (simp add: ledger_ok_def in_step_def)
  show "dk_idents d1 = Some (unlines (w_idents (l_window l)))"
    "dk_credits d1 = Some (concat (map write_row ?rows))" "fl_path (dk_meta d1) = Some (ser (meta_of l))"
    using p dirty full ids meta
    by (auto simp: persist_window_def flush_def compact_def write_atomic_def Let_def split: if_splits)
qed

text \<open>The window as \<^verbatim>\<open>open\<close> starts it.\<close>

definition fresh_window :: "meta \<Rightarrow> window" where
  "fresh_window m = new_window\<lparr>w_lifetime_shares := me_lifetime_shares m, w_lifetime_work := me_lifetime_work m,
     w_rebate_owed := me_rebate_owed m, w_holds := me_holds m\<rparr>"

lemma load_window:
  assumes ok: "ledger_ok k l" and f: "dk_idents d = Some (unlines (w_idents (l_window l)))"
  obtains w2 where "load_balances (meta_of l) (load_idents (dk_idents d) (fresh_window (meta_of l))) = (w2, [])"
    and "window_ok k w2" "w_idents w2 = w_idents (l_window l)" "w_index w2 = w_index (l_window l)"
    and "w_carry w2 = w_carry (l_window l)" "w_debt w2 = w_debt (l_window l)" "w_holds w2 = w_holds (l_window l)"
    and "w_credits w2 = []" "w_total_work w2 = 0" "w_rebate_owed w2 = w_rebate_owed (l_window l)"
    and "w_lifetime_shares w2 = w_lifetime_shares (l_window l)" "w_lifetime_work w2 = w_lifetime_work (l_window l)"
proof -
  let ?w = "l_window l" and ?m = "meta_of l" and ?fw = "fresh_window (meta_of l)"
  have aok: "accounts_ok k ?w" and I: "ident_ok ?w" and lines: "\<forall>s \<in> set (w_idents ?w). line_ok s"
    using ok by (simp_all add: ledger_ok_def window_ok_def accounts_ok_def)
  have i0: "ident_ok ?fw" "w_idents ?fw = []" by (simp_all add: fresh_window_def new_window_def ident_ok_def)
  have k: "distinct (w_idents ?fw @ w_idents ?w)" "length (w_idents ?fw @ w_idents ?w) \<le> 4294967296" "[] \<notin> set (w_idents ?w)"
    using ident_ok_distinct [OF I] aok lines i0(2) by (auto simp: accounts_ok_def line_ok_def)
  obtain ix where ix: "fold (\<lambda>l w. if l \<noteq> [] then snd (intern l w) else w) (w_idents ?w) ?fw
      = ?fw\<lparr>w_idents := w_idents ?fw @ w_idents ?w, w_index := ix\<rparr>"
    "ident_ok (?fw\<lparr>w_idents := w_idents ?fw @ w_idents ?w, w_index := ix\<rparr>)"
    by (rule fold_intern [OF i0(1) k]) (rule that)
  define w1 where "w1 = ?fw\<lparr>w_idents := w_idents ?w, w_index := ix\<rparr>"
  have w1: "load_idents (dk_idents d) ?fw = w1" "ident_ok w1" "w_idents w1 = w_idents ?w"
    using ix i0(2) by (simp_all add: load_idents_def f file_lines_unlines [OF lines] w1_def)
  have e1: "w_carry w1 = Map.empty" "w_debt w1 = Map.empty" "seen_ok w1"
    by (simp_all add: w1_def fresh_window_def new_window_def seen_ok_def)
  obtain ls where ls: "load_balances ?m w1 = (w1\<lparr>w_carry := w_carry ?w, w_debt := w_debt ?w, w_last_seen := ls\<rparr>, [])"
    "seen_ok (w1\<lparr>w_last_seen := ls\<rparr>)"
    by (rule load_balances_spec [OF aok w1(2,3) e1, of ?m]) (simp_all add: meta_of_def Let_def)
  define w2 where "w2 = w1\<lparr>w_carry := w_carry ?w, w_debt := w_debt ?w, w_last_seen := ls\<rparr>"
  have w2: "w_idents w2 = w_idents ?w" "w_index w2 = w_index ?w" "w_carry w2 = w_carry ?w" "w_debt w2 = w_debt ?w"
    "w_holds w2 = w_holds ?w" "w_credits w2 = []" "w_total_work w2 = 0" "w_rebate_owed w2 = w_rebate_owed ?w"
    "w_lifetime_shares w2 = w_lifetime_shares ?w" "w_lifetime_work w2 = w_lifetime_work ?w" "w_totals w2 = Map.empty"
    using ident_ok_index [OF w1(2) I w1(3)] by (simp_all add: w2_def w1_def fresh_window_def new_window_def meta_of_def Let_def)
  have "accounts_ok k w2" using aok w2(1-5) by (subst accounts_ok_cong [of _ ?w]) simp_all
  moreover have "shares_ok w2" by (simp add: shares_ok_def w2 total_ok_def)
  moreover have "seen_ok w2" using ls(2) by (simp add: w2_def seen_ok_def)
  ultimately have "window_ok k w2" by (simp add: window_ok_def)
  with ls(1) w1(1) w2 show thesis by (intro that [of w2]) (simp_all add: w2_def)
qed

lemma reload_rows:
  assumes ok: "ledger_ok k l" and w2: "window_ok k w2" "w_idents w2 = w_idents (l_window l)" "w_index w2 = w_index (l_window l)"
      "w_credits w2 = []" "w_total_work w2 = 0"
  obtains w3 w4 where "load_rows (w_credits (l_window l)) w2 0 0 = Some (w3, length (w_credits (l_window l)), 0)"
    and "w4 = set_target (w_target_work (l_window l)) w3"
    and "w_credits w4 = w_credits (l_window l)" "w_total_work w4 = w_total_work (l_window l)"
    and "w_target_work w4 = w_target_work (l_window l)" "\<And>s. work_of s w4 = work_of s (l_window l)"
    and "w_idents w4 = w_idents w2" "w_index w4 = w_index w2" "w_carry w4 = w_carry w2" "w_debt w4 = w_debt w2"
    and "w_holds w4 = w_holds w2" "w_rebate_owed w4 = w_rebate_owed w2"
    and "w_lifetime_shares w4 = w_lifetime_shares w2" "w_lifetime_work w4 = w_lifetime_work w2"
proof -
  let ?w = "l_window l"
  have wok: "window_ok k ?w" and trimmed: "keep_window (w_target_work ?w) (w_credits ?w) = w_credits ?w"
    using ok by (simp_all add: ledger_ok_def)
  have rows: "\<forall>c \<in> set (w_credits ?w). cr_ident c < length (w_idents w2)"
    "w_total_work w2 + row_sum (w_credits ?w) \<le> u64_max" "length (w_credits w2) + length (w_credits ?w) \<le> u64_max"
    using wok ok by (auto simp: window_ok_def shares_ok_def w2 ledger_ok_def)
  obtain w3 where w3: "push_rows (w_credits ?w) w2 = Some w3" "window_ok k w3" "w_credits w3 = w_credits w2 @ w_credits ?w"
    "w_idents w3 = w_idents w2" "w_index w3 = w_index w2" "w_target_work w3 = w_target_work w2"
    "w_carry w3 = w_carry w2" "w_debt w3 = w_debt w2" "w_holds w3 = w_holds w2" "w_rebate_owed w3 = w_rebate_owed w2"
    "w_lifetime_shares w3 = w_lifetime_shares w2" "w_lifetime_work w3 = w_lifetime_work w2"
    by (rule push_rows_spec [OF w2(1) rows]) (rule that)
  define w4 where "w4 = set_target (w_target_work ?w) w3"
  note st = set_target_spec [OF w3(2), of "w_target_work ?w", folded w4_def]
  have w4: "w_credits w4 = w_credits ?w" using st(2) w3(3) w2(4) trimmed by simp
  have work: "w_total_work w4 = w_total_work ?w"
    using st(1) wok w4 by (simp add: window_ok_def shares_ok_def)
  have ix: "w_index w4 = w_index ?w" by (simp add: w4_def set_target_def w3 w2(3))
  have works: "work_of s w4 = work_of s ?w" for s
  proof (cases "w_index ?w s")
    case (Some i)
    then show ?thesis using work_of_rows [OF st(1), of s i] work_of_rows [OF wok Some] w4 ix by simp
  qed (simp add: work_of_def ix)
  have lr: "load_rows (w_credits ?w) w2 0 0 = Some (w3, length (w_credits ?w), 0)"
    using load_rows_push [OF rows(1), of 0 0] w3(1) by simp
  show thesis
    by (rule that [OF lr w4_def w4 work st(3) works]) (simp_all add: w4_def set_target_def w3)
qed

lemma open_written:
  assumes ok: "ledger_ok k l" and de: "de (ser (meta_of l)) = Some (meta_of l)"
    and f: "dk_idents d = Some (unlines (w_idents (l_window l)))"
      "dk_credits d = Some (concat (map write_row (w_credits (l_window l))))" "fl_path (dk_meta d) = Some (ser (meta_of l))"
  obtains l' d' where "open_ledger de gde d = Some (Inr (l', d'))" "same_state l l'"
proof -
  let ?w = "l_window l" and ?m = "meta_of l"
  have lines: "\<forall>s \<in> set (w_idents ?w). line_ok s" "\<forall>c \<in> set (w_credits ?w). row_ok c" and fin: "finite (l_applied_debits l)"
    using ok by (simp_all add: ledger_ok_def)
  have load: "load_meta de (fl_path (dk_meta d)) (fl_bak (dk_meta d)) = Inr ?m"
    by (simp add: load_meta_def read_meta_def f(3) de)
  obtain w2 where w2: "load_balances ?m (load_idents (dk_idents d) (fresh_window ?m)) = (w2, [])"
    "window_ok k w2" "w_idents w2 = w_idents ?w" "w_index w2 = w_index ?w"
    "w_carry w2 = w_carry ?w" "w_debt w2 = w_debt ?w" "w_holds w2 = w_holds ?w" "w_credits w2 = []" "w_total_work w2 = 0"
    "w_rebate_owed w2 = w_rebate_owed ?w" "w_lifetime_shares w2 = w_lifetime_shares ?w" "w_lifetime_work w2 = w_lifetime_work ?w"
    by (rule load_window [OF ok f(1)]) (rule that)
  obtain w3 w4 where w4: "load_rows (w_credits ?w) w2 0 0 = Some (w3, length (w_credits ?w), 0)"
    "w4 = set_target (w_target_work ?w) w3" "w_credits w4 = w_credits ?w" "w_total_work w4 = w_total_work ?w"
    "w_target_work w4 = w_target_work ?w" "\<And>s. work_of s w4 = work_of s ?w"
    "w_idents w4 = w_idents w2" "w_index w4 = w_index w2" "w_carry w4 = w_carry w2" "w_debt w4 = w_debt w2"
    "w_holds w4 = w_holds w2" "w_rebate_owed w4 = w_rebate_owed w2"
    "w_lifetime_shares w4 = w_lifetime_shares w2" "w_lifetime_work w4 = w_lifetime_work w2"
    by (rule reload_rows [OF ok w2(2-4,8,9)]) (rule that)
  define g where "g = load_grace gde (dk_grace d)"
  define l' where "l' = \<lparr>l_window = w4, l_credits_out = w_credits ?w, l_idents_out = w_idents ?w,
     l_rows_on_disk = length (w_credits ?w), l_dirty = False, l_applied_debits = l_applied_debits l,
     l_debits_tracked = l_debits_tracked l, l_grace = fst g, l_grace_loaded = snd g\<rparr>"
  have bytes: "take (length (concat (map write_row (w_credits ?w))) - length (concat (map write_row (w_credits ?w))) mod ROW_SIZE)
      (concat (map write_row (w_credits ?w))) = concat (map write_row (w_credits ?w))" by simp
  have "open_ledger de gde d = Some (Inr (l', d\<lparr>dk_idents := Some (unlines (w_idents ?w)),
      dk_credits := Some (concat (map write_row (w_credits ?w)))\<rparr>))"
    unfolding open_ledger_def load sum.case Let_def fresh_window_def [symmetric] w2(1) prod.case
      f(2) option.case bytes read_rows_written [OF lines(2)] w4(1)
    using fin by (simp add: f(1) meta_of_def Let_def w4(2) [symmetric] w4(3) g_def [symmetric] l'_def
        file_lines_unlines [OF lines(1)])
  moreover have "same_state l l'"
    using w4(3-14) w2(3-7,10-12) by (simp add: same_state_def l'_def)
  ultimately show thesis by (rule that)
qed

text \<open>Crediting work keeps the files readable.\<close>

lemma keep_window_suffix: "\<exists>old. cs = old @ keep_window t cs"
  using keep_rows_suffix [of cs t] by (metis append_Nil keep_window_def)

lemma ledger_credit_ok:
  assumes ok: "ledger_ok (Suc k) l" and work: "w_total_work (l_window l) + work \<le> u64_max" "work \<le> u64_max"
    and cnt: "length (l_credits_out l) < u64_max" "w_lifetime_shares (l_window l) < u64_max"
    and row: "ts \<le> u32_max" "height \<le> u32_max" "source < 256" "line_ok s"
  obtains l' where "ledger_credit s work height ts source l = Some l'" "ledger_ok k l'" "l_dirty l'"
proof -
  let ?w = "l_window l"
  obtain old where old: "l_credits_out l = old @ w_credits ?w" using ok by (auto simp: ledger_ok_def)
  have wok: "window_ok (Suc k) ?w" and step: "in_step l" using ok by (simp_all add: ledger_ok_def)
  have len: "length (w_credits ?w) < u64_max" using cnt(1) old by simp
  obtain c w' where c: "credit_row s work height ts source ?w = Some (c, w')" "window_ok k w'"
    "w_index w' s = Some (cr_ident c)" "cr_work c = work" "cr_height c = height" "cr_ts c = ts" "cr_source c = source"
    "w_credits w' = keep_window (w_target_work ?w) (w_credits ?w @ [c])"
    "w_idents w' = w_idents ?w @ (if w_index ?w s = None then [s] else [])" "w_target_work w' = w_target_work ?w"
    by (rule credit_row_spec [OF wok work(1) len cnt(2), of s height ts source]) (rule that)
  define l1 where "l1 = write_ident (known s l) s (l\<lparr>l_window := w'\<rparr>)"
  define l' where "l' = l1\<lparr>l_credits_out := l_credits_out l1 @ [c], l_rows_on_disk := l_rows_on_disk l + 1, l_dirty := True\<rparr>"
  have "l_rows_on_disk l < u64_max" using ok cnt(1) by (simp add: ledger_ok_def)
  then have e: "ledger_credit s work height ts source l = Some l'"
    using c(1) by (simp add: ledger_credit_def Let_def l'_def l1_def)
  have "accounts_ok k w'" "ident_ok w'" using c(2) by (simp_all add: window_ok_def accounts_ok_def)
  then have "cr_ident c \<le> u32_max" using ident_ok_nth [OF _ c(3)] by (auto simp: accounts_ok_def)
  then have "row_ok c" using row work(2) c(4-7) by (simp add: row_ok_def)
  moreover obtain old2 where old2: "w_credits ?w @ [c] = old2 @ w_credits w'"
    using keep_window_suffix [of "w_credits ?w @ [c]" "w_target_work ?w"] c(8) by metis
  ultimately have rows: "\<forall>r \<in> set (w_credits w'). row_ok r"
    using ok by (metis Un_iff ledger_ok_def list.set(1) list.set(2) set_append singletonD insertE empty_iff)
  have fin: "length (w_credits w') \<le> u64_max"
    using arg_cong [OF old2, of length] len by simp
  have "in_step l1" unfolding l1_def by (rule in_step_write [OF step c(9)])
  then have "in_step l'" by (simp add: in_step_def l'_def)
  moreover have "l_credits_out l' = (old @ old2) @ w_credits w'"
    using old old2 by (simp add: l'_def l1_def)
  moreover have "l_window l' = w'" "l_rows_on_disk l' = length (l_credits_out l')" "l_applied_debits l' = l_applied_debits l"
    using ok by (simp_all add: l'_def l1_def ledger_ok_def write_ident_def)
  moreover have "\<forall>x \<in> set (w_idents w'). line_ok x" using ok c(9) row(4) by (auto simp: ledger_ok_def)
  ultimately have "ledger_ok k l'"
    using ok c(2,8,10) rows fin unfolding ledger_ok_def by auto
  then show thesis using that [OF e] by (simp add: l'_def)
qed

section \<open>Crashes while the meta file is replaced\<close>

lemma wa_invariant:
  assumes "(wa_step data)\<^sup>*\<^sup>* (Start, f) (pt, f')"
  shows "(pt \<noteq> Renamed \<longrightarrow> fl_path f' = fl_path f) \<and> (pt = Renamed \<longrightarrow> fl_path f' = Some data)
    \<and> (pt \<in> {Synced, BakRemoved, BakLinked} \<longrightarrow> fl_tmp f' = Some data)"
  using assms
proof (induction "(pt, f')" arbitrary: pt f' rule: rtranclp_induct)
  case base
  then show ?case by simp
next
  case (step s)
  obtain p g where s: "s = (p, g)" by (cases s)
  from step(3) [OF s] step(2) s show ?case by (auto elim: wa_step.cases)
qed

inductive_cases wa_RenamedE: "wa_step data (Renamed, f) s"


lemma row_chunks_torn: "length torn < ROW_SIZE \<Longrightarrow> row_chunks (concat (map write_row cs) @ torn) = map write_row cs"
  by (induction cs) (simp_all add: row_chunks.simps)

lemma whole_lines_torn:
  assumes "CHR 0x0A \<notin> set torn"
  shows "whole_lines (unlines ls @ torn) = unlines ls"
proof -
  have "dropWhile (\<lambda>c. c \<noteq> CHR 0x0A) (rev torn @ rev (unlines ls)) = dropWhile (\<lambda>c. c \<noteq> CHR 0x0A) (rev (unlines ls))"
    using assms by (intro dropWhile_append2) auto
  then show ?thesis using whole_lines_unlines [of ls] by (simp add: whole_lines_def)
qed

section \<open>Properties\<close>


text \<open>
  Crediting work through the ledger keeps its files readable: it does not panic, and leaves a ledger
  whose row file ends with the window's rows, whose identity lines are the table, and whose window is
  well formed and trimmed.
\<close>

theorem ledger_credit_persistable:
  assumes "ledger_ok (Suc k) l" "w_total_work (l_window l) + work \<le> u64_max" "work \<le> u64_max"
    and "length (l_credits_out l) < u64_max" "w_lifetime_shares (l_window l) < u64_max"
    and "ts \<le> u32_max" "height \<le> u32_max" "source < 256" "line_ok s"
  shows "\<exists>l'. ledger_credit s work height ts source l = Some l' \<and> ledger_ok k l' \<and> l_dirty l'"
  using ledger_credit_ok [OF assms] by metis

text \<open>
  A torn tail costs only itself. Rows and identity lines read back as they were written, and a
  partial last row or last line, as a kill in the middle of an append leaves it, is dropped without
  shifting anything before it.
\<close>

theorem torn_tail_dropped:
  assumes "\<forall>c \<in> set cs. row_ok c" "length torn < ROW_SIZE" "b = concat (map write_row cs) @ torn"
    and "\<forall>l \<in> set ls. line_ok l" "CHR 0x0A \<notin> set torn_line"
  shows "map read_row (row_chunks (take (length b - length b mod ROW_SIZE) b)) = cs
    \<and> file_lines (whole_lines (unlines ls @ torn_line)) = ls"
proof -
  have "length b mod ROW_SIZE = length torn" using assms(2,3) by simp
  then have "take (length b - length b mod ROW_SIZE) b = concat (map write_row cs)" using assms(3) by simp
  then show ?thesis
    using read_rows_written [OF assms(1)] whole_lines_torn [OF assms(5)] file_lines_unlines [OF assms(4)] by simp
qed

text \<open>
  C23. A meta file that is there survives a crash anywhere in its replacement. If the file itself holds a whole meta record
  when the replacement begins, then after any prefix of \<^verbatim>\<open>write_atomic\<close>'s steps a start loads that record, and the new
  one once the rename has happened. Of a start saved by the backup, with the file itself missing, this is not so: \<open>backup_lost_in_replacement\<close>.
\<close>

theorem write_atomic_crash_safe:
  assumes "fl_path f = Some old" "de old = Some m0" "de data = Some m1"
    and run: "(wa_step data)\<^sup>*\<^sup>* (Start, f) (pt, f')"
  shows "load_meta de (fl_path f') (fl_bak f') = Inr (if pt = Renamed then m1 else m0)"
  using wa_invariant [OF run] assms(1-3) by (simp add: load_meta_def read_meta_def)

text \<open>
  The backup a start was saved by is not safe. With the meta file missing and its backup whole, a
  start loads the backup; the next flush removes the backup before the new file is in place, and a
  crash at that point leaves neither: the start after it finds no file and opens an empty ledger, with
  every balance gone.
\<close>

theorem backup_lost_in_replacement:
  assumes "fl_path f = None" "fl_bak f = Some old" "de old = Some m0"
  shows "load_meta de (fl_path f) (fl_bak f) = Inr m0
    \<and> (\<exists>f'. (wa_step data)\<^sup>*\<^sup>* (Start, f) (BakRemoved, f') \<and> load_meta de (fl_path f') (fl_bak f') = Inr default_meta)"
proof -
  let ?f1 = "f\<lparr>fl_tmp := Some []\<rparr>" and ?f2 = "f\<lparr>fl_tmp := Some data\<rparr>"
  have "wa_step data (Start, f) (Writing, ?f1)" by (rule wa_step.create)
  moreover have "wa_step data (Writing, ?f1) (Synced, ?f2)" using wa_step.sync_all [of data ?f1] by simp
  moreover have "wa_step data (Synced, ?f2) (BakRemoved, ?f2\<lparr>fl_bak := None\<rparr>)" by (rule wa_step.remove_bak)
  ultimately have "(wa_step data)\<^sup>*\<^sup>* (Start, f) (BakRemoved, ?f2\<lparr>fl_bak := None\<rparr>)" by (meson r_into_rtranclp rtranclp_trans)
  then show ?thesis using assms by (auto simp: load_meta_def read_meta_def)
qed

section \<open>A worked restart\<close>

text \<open>The ledger of the two addresses, trimmed to its target and dirty; a codec that knows its record.\<close>

definition ex_disk_ledger :: ledger where
  "ex_disk_ledger = ex_ledger\<lparr>l_window := trim ex_window, l_dirty := True\<rparr>"

definition ex_ser :: "meta \<Rightarrow> byte list" where
  "ex_ser m = (if m = meta_of ex_disk_ledger then [123, 125] else [])"

definition ex_de :: "byte list \<Rightarrow> meta option" where
  "ex_de b = (if b = [123, 125] then Some (meta_of ex_disk_ledger) else None)"

lemma ex_trim: "w_credits (trim ex_window) = [ex_row 11 1 4, ex_row 12 0 5]"
  using trim_spec(2) [of ex_window] ex_window_ok
  by (simp add: window_ok_def ex_window_def keep_window_def ex_row_def)

lemma ex_disk_ledger_ok: "ledger_ok 9 ex_disk_ledger"
proof -
  have s: "shares_ok ex_window" using ex_window_ok by (simp add: window_ok_def)
  have "window_ok 9 (trim ex_window)"
    using ex_window_ok trim_spec(1) [OF s] accounts_ok_cong [of "trim ex_window" ex_window 9]
    by (simp add: window_ok_def seen_ok_def)
  moreover have "w_credits ex_window = [ex_row 10 0 3] @ w_credits (trim ex_window)"
    by (simp add: ex_trim) (simp add: ex_window_def)
  moreover have "keep_window (w_target_work (trim ex_window)) (w_credits (trim ex_window)) = w_credits (trim ex_window)"
    using trim_spec(2) [OF s] by simp
  moreover have "\<forall>c \<in> set (w_credits (trim ex_window)). row_ok c" by (simp add: ex_trim ex_row_def row_ok_def SOURCE_DATUM_def)
  moreover have "\<forall>s \<in> set (w_idents (trim ex_window)). line_ok s" "w_idents (trim ex_window) = [''a'', ''b'']"
    "length (w_credits ex_window) = 3"
    by (simp_all add: ex_window_def line_ok_def)
  ultimately show ?thesis
    by (simp add: ledger_ok_def ex_disk_ledger_def ex_ledger_def in_step_def ex_trim)
qed


theorem ledger_credit_persistable_witness:
  "\<exists>l'. ledger_credit ''c'' 7 800001 20 SOURCE_STRATUM ex_disk_ledger = Some l' \<and> ledger_ok 8 l'"
proof -
  have ok: "ledger_ok (Suc 8) ex_disk_ledger" using ex_disk_ledger_ok by simp
  have "w_total_work (l_window ex_disk_ledger) = 9"
    using ok ex_trim by (simp add: ledger_ok_def window_ok_def shares_ok_def ex_disk_ledger_def ex_row_def)
  moreover have "length (l_credits_out ex_disk_ledger) < u64_max" "w_lifetime_shares (l_window ex_disk_ledger) < u64_max" "line_ok ''c''"
    "SOURCE_STRATUM < 256"
    by (simp_all add: ex_disk_ledger_def ex_ledger_def ex_window_def line_ok_def SOURCE_STRATUM_def)
  ultimately show ?thesis
    using ledger_credit_persistable [OF ok, of 7 20 800001 SOURCE_STRATUM "''c''"] by auto
qed

theorem torn_tail_dropped_witness:
  "map read_row (row_chunks (take 24 (write_row (ex_row 10 0 3) @ [7, 7]))) = [ex_row 10 0 3]
   \<and> file_lines (whole_lines (unlines [''a'', ''b''] @ ''cc'')) = [''a'', ''b'']"
proof -
  have "row_ok (ex_row 10 0 3)" by (simp add: row_ok_def ex_row_def SOURCE_DATUM_def)
  then show ?thesis
    using torn_tail_dropped [of "[ex_row 10 0 3]" "[7, 7]" "write_row (ex_row 10 0 3) @ [7, 7]" "[''a'', ''b'']" "''cc''"]
    by (simp add: line_ok_def)
qed

definition ex_old_meta :: "byte list \<Rightarrow> meta option" where
  "ex_old_meta b = (if b = [2] then Some (default_meta\<lparr>me_rebate_owed := 5\<rparr>) else None)"

definition ex_meta_de :: "byte list \<Rightarrow> meta option" where
  "ex_meta_de b = (if b = [1, 2] then Some default_meta else ex_old_meta b)"

text \<open>A crash after half the temporary file, one after the backup is gone, and the whole replacement.\<close>

theorem write_atomic_crash_safe_witness:
  "load_meta ex_meta_de (Some [2]) (Some [9]) = Inr (default_meta\<lparr>me_rebate_owed := 5\<rparr>)
   \<and> load_meta ex_meta_de (Some [2]) None = Inr (default_meta\<lparr>me_rebate_owed := 5\<rparr>)
   \<and> load_meta ex_meta_de (Some [1, 2]) (Some [2]) = Inr default_meta"
proof -
  let ?f = "\<lambda>t b. \<lparr>fl_path = Some [2], fl_bak = b, fl_tmp = t\<rparr> :: files"
  have w: "wa_step [1, 2] (Start, ?f None (Some [9])) (Writing, ?f (Some []) (Some [9]))"
    "wa_step [1, 2] (Writing, ?f (Some []) (Some [9])) (Writing, ?f (Some [1]) (Some [9]))"
    "wa_step [1, 2] (Writing, ?f (Some [1]) (Some [9])) (Synced, ?f (Some [1, 2]) (Some [9]))"
    "wa_step [1, 2] (Synced, ?f (Some [1, 2]) (Some [9])) (BakRemoved, ?f (Some [1, 2]) None)"
    "wa_step [1, 2] (BakRemoved, ?f (Some [1, 2]) None) (BakLinked, ?f (Some [1, 2]) (Some [2]))"
    "wa_step [1, 2] (BakLinked, ?f (Some [1, 2]) (Some [2])) (Renamed, \<lparr>fl_path = Some [1, 2], fl_bak = Some [2], fl_tmp = None\<rparr>)"
    using wa_step.create [of "[1, 2]" "?f None (Some [9])"] wa_step.write_part [of 1 "[1, 2]" "?f (Some []) (Some [9])"]
      wa_step.sync_all [of "[1, 2]" "?f (Some [1]) (Some [9])"] wa_step.remove_bak [of "[1, 2]" "?f (Some [1, 2]) (Some [9])"]
      wa_step.link_bak [of "[1, 2]" "?f (Some [1, 2]) None"] wa_step.rename_tmp [of "[1, 2]" "?f (Some [1, 2]) (Some [2])"] by simp_all
  have r: "(wa_step [1, 2])\<^sup>*\<^sup>* (Start, ?f None (Some [9])) (Writing, ?f (Some [1]) (Some [9]))"
    using w(1,2) by (meson r_into_rtranclp rtranclp_trans)
  have b: "(wa_step [1, 2])\<^sup>*\<^sup>* (Start, ?f None (Some [9])) (BakRemoved, ?f (Some [1, 2]) None)"
    using r w(3,4) by (meson rtranclp.rtrancl_into_rtrancl)
  have n: "(wa_step [1, 2])\<^sup>*\<^sup>* (Start, ?f None (Some [9])) (Renamed, \<lparr>fl_path = Some [1, 2], fl_bak = Some [2], fl_tmp = None\<rparr>)"
    using b w(5,6) by (meson rtranclp.rtrancl_into_rtrancl)
  note safe = write_atomic_crash_safe [of _ "[2]" ex_meta_de "default_meta\<lparr>me_rebate_owed := 5\<rparr>" _ default_meta]
  show ?thesis using safe [OF _ _ _ r] safe [OF _ _ _ b] safe [OF _ _ _ n] by (simp add: ex_meta_de_def ex_old_meta_def)
qed

theorem backup_lost_in_replacement_witness:
  "load_meta ex_old_meta None (Some [2]) = Inr (default_meta\<lparr>me_rebate_owed := 5\<rparr>)
   \<and> (\<exists>f'. (wa_step [1])\<^sup>*\<^sup>* (Start, \<lparr>fl_path = None, fl_bak = Some [2], fl_tmp = None\<rparr>) (BakRemoved, f')
     \<and> load_meta ex_old_meta (fl_path f') (fl_bak f') = Inr default_meta)"
  using backup_lost_in_replacement [where de = ex_old_meta and old = "[2]" and data = "[1]"
      and f = "\<lparr>fl_path = None, fl_bak = Some [2], fl_tmp = None\<rparr>"]
  by (simp add: ex_old_meta_def)

end
