(* ===== verification/Tides_Blocks.thy ===== *)
theory Tides_Blocks
  imports Tides_Ledger Bytes
begin

text \<open>
  The block log and what is derived from it, \<^verbatim>\<open>prime/tides/src/lib.rs\<close>: reading the append-only log back
  (\<^verbatim>\<open>BlockLog::read_all\<close>), holding a block's rebate credits to what its coinbase drew
  (\<^verbatim>\<open>cap_rebate_credits\<close>), and the finds per gateway. The JSON codec of a record is the parameter \<open>de\<close>.
\<close>

section \<open>Reading the log\<close>

fun split_on :: "byte \<Rightarrow> byte list \<Rightarrow> byte list list" where
  "split_on x [] = [[]]"
| "split_on x (b # bs) = (case split_on x bs of
     [] \<Rightarrow> [[]]
   | l # ls \<Rightarrow> if b = x then [] # l # ls else (b # l) # ls)"

definition is_ascii_whitespace :: "byte \<Rightarrow> bool" where
  "is_ascii_whitespace b \<longleftrightarrow> b \<in> {9, 10, 12, 13, 32}"

text \<open>One parsed record: a known hash is replaced where it stands, a new one goes to the end.\<close>

definition put_record :: "block_record \<Rightarrow> block_record list \<times> (string \<rightharpoonup> nat) \<Rightarrow> block_record list \<times> (string \<rightharpoonup> nat)" where
  "put_record r st = (case st of (out, index) \<Rightarrow> case index (br_hash r) of
     Some i \<Rightarrow> (out[i := r], index)
   | None \<Rightarrow> (out @ [r], index(br_hash r \<mapsto> length out)))"

definition parsed_lines :: "(byte list \<Rightarrow> block_record option) \<Rightarrow> byte list \<Rightarrow> block_record list" where
  "parsed_lines de bytes = List.map_filter de (filter (\<lambda>l. \<not> list_all is_ascii_whitespace l) (split_on 10 bytes))"

definition read_all :: "(byte list \<Rightarrow> block_record option) \<Rightarrow> byte list option \<Rightarrow> block_record list" where
  "read_all de file = (case file of None \<Rightarrow> []
     | Some bytes \<Rightarrow> fst (fold put_record (parsed_lines de bytes) ([], Map.empty)))"

definition append_record :: "(block_record \<Rightarrow> byte list) \<Rightarrow> block_record \<Rightarrow> byte list option \<Rightarrow> byte list option" where
  "append_record ser r file = Some ((case file of None \<Rightarrow> [] | Some b \<Rightarrow> b) @ ser r @ [10])"

text \<open>Reference: the first appearance of each hash gives its place, the last its record.\<close>

definition latest :: "string \<Rightarrow> block_record list \<Rightarrow> block_record" where
  "latest h rs = last (filter (\<lambda>r. br_hash r = h) rs)"

definition first_seen :: "block_record list \<Rightarrow> string list" where
  "first_seen rs = rev (remdups (rev (map br_hash rs)))"

lemma first_seen_snoc:
  "first_seen (rs @ [r]) = (if br_hash r \<in> set (map br_hash rs) then first_seen rs else first_seen rs @ [br_hash r])"
  by (simp add: first_seen_def)

lemma first_seen_set [simp]: "set (first_seen rs) = set (map br_hash rs)"
  by (simp add: first_seen_def)

lemma first_seen_distinct [simp]: "distinct (first_seen rs)"
  by (simp add: first_seen_def)

lemma latest_snoc: "latest h (rs @ [r]) = (if br_hash r = h then r else latest h rs)"
  by (simp add: latest_def)

lemma put_records:
  "fold put_record rs ([], Map.empty) = (out, index) \<Longrightarrow>
    out = map (\<lambda>h. latest h rs) (first_seen rs)
    \<and> (\<forall>h i. index h = Some i \<longleftrightarrow> i < length (first_seen rs) \<and> first_seen rs ! i = h)"
proof (induction rs arbitrary: out index rule: rev_induct)
  case Nil
  then show ?case by (auto simp: first_seen_def)
next
  case (snoc r rs)
  obtain o1 ix1 where 1: "fold put_record rs ([], Map.empty) = (o1, ix1)" by fastforce
  have out1: "o1 = map (\<lambda>h. latest h rs) (first_seen rs)"
    and ix: "\<And>h i. ix1 h = Some i \<longleftrightarrow> i < length (first_seen rs) \<and> first_seen rs ! i = h"
    using snoc.IH [OF 1] by auto
  have step: "put_record r (o1, ix1) = (out, index)" using snoc.prems 1 by simp
  show ?case
  proof (cases "ix1 (br_hash r)")
    case (Some i)
    then have i: "i < length (first_seen rs)" "first_seen rs ! i = br_hash r" using ix by auto
    then have "br_hash r \<in> set (first_seen rs)" by (metis nth_mem)
    then have old: "br_hash r \<in> set (map br_hash rs)" by simp
    have "o1[i := r] = map (\<lambda>h. latest h (rs @ [r])) (first_seen rs)"
    proof (rule nth_equalityI)
      fix j assume j: "j < length (o1[i := r])"
      show "o1[i := r] ! j = map (\<lambda>h. latest h (rs @ [r])) (first_seen rs) ! j"
      proof (cases "j = i")
        case True
        then show ?thesis using i out1 by (simp add: latest_snoc)
      next
        case False
        then have "first_seen rs ! j \<noteq> br_hash r"
          using i j out1 nth_eq_iff_index_eq [OF first_seen_distinct, of j rs i] by auto
        then show ?thesis using False j out1 by (auto simp: latest_snoc)
      qed
    qed (simp add: out1)
    then show ?thesis using step Some old ix by (simp add: put_record_def first_seen_snoc)
  next
    case None
    have "br_hash r \<notin> set (first_seen rs)"
    proof
      assume "br_hash r \<in> set (first_seen rs)"
      then obtain i where "i < length (first_seen rs)" "first_seen rs ! i = br_hash r" by (meson in_set_conv_nth)
      then show False using ix None by (metis option.distinct(1))
    qed
    then have new: "br_hash r \<notin> set (map br_hash rs)" by simp
    have "map (\<lambda>h. latest h (rs @ [r])) (first_seen rs) = o1"
      unfolding out1 using new by (intro map_cong) (auto simp: latest_snoc)
    moreover have "index h = Some i \<longleftrightarrow> i < Suc (length (first_seen rs)) \<and> (first_seen rs @ [br_hash r]) ! i = h" for h i
    proof (cases "i < length (first_seen rs)")
      case True
      then have "first_seen rs ! i \<noteq> br_hash r" using new nth_mem [OF True] by auto
      then show ?thesis using step None ix [of h i] True out1 by (auto simp: put_record_def nth_append split: if_splits)
    next
      case False
      then show ?thesis using step None ix [of h i] out1 by (auto simp: put_record_def nth_append less_Suc_eq split: if_splits)
    qed
    ultimately show ?thesis
      using step None new by (auto simp: put_record_def first_seen_snoc latest_snoc)
  qed
qed

section \<open>Capping the rebate credits\<close>

text \<open>\<^verbatim>\<open>delta.iter_mut().rev().find(|e| e.0 == *identity && e.1 > 0)\<close> and the reduction, on the reversed
  list: the new list and what was dropped, or \<open>None\<close> when there is no such entry.\<close>

fun drop_entry :: "string \<Rightarrow> nat \<Rightarrow> (string \<times> i64) list \<Rightarrow> ((string \<times> i64) list \<times> nat) option" where
  "drop_entry s n [] = None"
| "drop_entry s n (e # es) =
     (if fst e = s \<and> snd e > 0 then
        (let k = min n (nat (snd e)) in Some ((fst e, snd e - int k) # es, k))
      else map_option (\<lambda>(es', k). (e # es', k)) (drop_entry s n es))"

fun cap_loop :: "(string \<times> u64) list \<Rightarrow> (string \<times> i64) list \<Rightarrow> u64 \<Rightarrow> (string \<times> i64) list \<times> u64" where
  "cap_loop [] delta excess = (delta, excess)"
| "cap_loop ((s, sats) # planned) delta excess =
     (if excess = 0 then (delta, excess)
      else case drop_entry s (min sats excess) delta of
        None \<Rightarrow> cap_loop planned delta excess
      | Some (delta', k) \<Rightarrow> cap_loop planned delta' (excess - k))"

definition cap_rebate_credits ::
  "(string \<times> i64) list \<Rightarrow> (string \<times> u64) list \<Rightarrow> u64 \<Rightarrow> (u64 \<times> (string \<times> i64) list) option" where
  "cap_rebate_credits delta planned allowed = do {
     planned_sum \<leftarrow> sum_u64 (map snd planned);
     if planned_sum \<le> allowed then Some (planned_sum, delta)
     else case cap_loop (rev planned) (rev delta) (planned_sum - allowed) of (delta', excess) \<Rightarrow>
       Some (planned_sum - (planned_sum - allowed - excess), filter (\<lambda>e. snd e \<noteq> 0) (rev delta')) }"

definition cap_rebate_to_owed_drawn ::
  "(string \<times> i64) list \<Rightarrow> (string \<times> u64) list \<Rightarrow> u64 \<Rightarrow> u64 \<Rightarrow> (u64 \<times> (string \<times> i64) list) option" where
  "cap_rebate_to_owed_drawn delta planned owed_credited owed_drawn = do {
     planned_sum \<leftarrow> sum_u64 (map snd planned);
     cap_rebate_credits delta planned (planned_sum - (owed_credited - owed_drawn)) }"

abbreviation credit_entries :: "(string \<times> u64) list \<Rightarrow> (string \<times> i64) list" where
  "credit_entries \<equiv> map (\<lambda>c. (fst c, int (snd c)))"

lemma drop_entry_skip:
  "s \<notin> fst ` set xs \<Longrightarrow> drop_entry s n (xs @ ys) = map_option (\<lambda>(ys', k). (xs @ ys', k)) (drop_entry s n ys)"
proof (induction xs)
  case Nil
  then show ?case by (cases "drop_entry s n ys") auto
next
  case (Cons x xs)
  then show ?case by (cases "drop_entry s n ys") auto
qed

text \<open>The loop over the credits at the end of the list (here, reversed, at its front).\<close>

lemma cap_loop_credits:
  assumes "distinct (map fst ps)" "\<forall>c \<in> set ps. snd c > 0" "excess \<le> sum_list (map snd ps)"
    and "fst ` set skip \<inter> fst ` set ps = {}"
  obtains ks where "cap_loop ps (skip @ credit_entries ps @ base) excess = (skip @ credit_entries ks @ base, 0)"
    and "map fst ks = map fst ps" "sum_list (map snd ks) + excess = sum_list (map snd ps)"
    and "list_all2 (\<lambda>k c. snd k \<le> snd c) ks ps"
  using assms
proof (induction ps arbitrary: skip excess thesis)
  case Nil
  then show ?case by simp
next
  case (Cons p ps)
  obtain s n where p: "p = (s, n)" by (cases p)
  show ?case
  proof (cases "excess = 0")
    case True
    show ?thesis by (rule Cons.prems(1) [of "p # ps"]) (use True p in \<open>simp_all add: list_all2_same\<close>)
  next
    case False
    have "s \<notin> fst ` set skip" using Cons.prems(5) p by auto
    moreover have n: "n > 0" using Cons.prems(3) p by simp
    ultimately have "drop_entry s (min n excess) (skip @ credit_entries (p # ps) @ base)
        = Some ((skip @ [(s, int (n - min n excess))]) @ credit_entries ps @ base, min n excess)"
      by (simp add: drop_entry_skip p Let_def of_nat_diff)
    then have step: "cap_loop (p # ps) (skip @ credit_entries (p # ps) @ base) excess
        = cap_loop ps ((skip @ [(s, int (n - min n excess))]) @ credit_entries ps @ base) (excess - min n excess)"
      using False p by simp
    have k: "distinct (map fst ps)" "\<forall>c \<in> set ps. snd c > 0" "excess - min n excess \<le> sum_list (map snd ps)"
      "fst ` set (skip @ [(s, int (n - min n excess))]) \<inter> fst ` set ps = {}"
      using Cons.prems(2-5) p by auto
    obtain ks where ks: "cap_loop ps ((skip @ [(s, int (n - min n excess))]) @ credit_entries ps @ base) (excess - min n excess)
        = ((skip @ [(s, int (n - min n excess))]) @ credit_entries ks @ base, 0)"
      "map fst ks = map fst ps" "sum_list (map snd ks) + (excess - min n excess) = sum_list (map snd ps)"
      "list_all2 (\<lambda>k c. snd k \<le> snd c) ks ps"
      by (rule Cons.IH [OF _ k]) (rule that)
    show ?thesis
      by (rule Cons.prems(1) [of "(s, n - min n excess) # ks"]) (use ks step p in auto)
  qed
qed

section \<open>Finds per gateway\<close>

record gateway_find =
  gf_found :: u64
  gf_last_ts :: u64
  gf_last_finder :: string

definition no_find :: gateway_find where
  "no_find = \<lparr>gf_found = 0, gf_last_ts = 0, gf_last_finder = []\<rparr>"

definition counts_find :: "block_record \<Rightarrow> bool" where
  "counts_find b \<longleftrightarrow> br_gateway b \<noteq> [] \<and> take 6 (br_kind b) \<noteq> ''orphan''"

definition note_find :: "block_record \<Rightarrow> gateway_find \<Rightarrow> gateway_find option" where
  "note_find b e = do {
     n \<leftarrow> chk64 (gf_found e + 1);
     let e1 = e\<lparr>gf_found := n\<rparr>;
     Some (if br_ts b \<ge> gf_last_ts e1 then
        (let e2 = e1\<lparr>gf_last_ts := br_ts b\<rparr> in
         case br_finder b of Some f \<Rightarrow> if f \<noteq> [] then e2\<lparr>gf_last_finder := f\<rparr> else e2 | None \<Rightarrow> e2)
      else e1) }"

fun gateway_finds :: "block_record list \<Rightarrow> (string \<rightharpoonup> gateway_find) \<Rightarrow> (string \<rightharpoonup> gateway_find) option" where
  "gateway_finds [] out = Some out"
| "gateway_finds (b # bs) out =
     (if counts_find b then do {
        e \<leftarrow> note_find b (case out (br_gateway b) of None \<Rightarrow> no_find | Some e \<Rightarrow> e);
        gateway_finds bs (out(br_gateway b \<mapsto> e)) }
      else gateway_finds bs out)"

abbreviation finds_of :: "string \<Rightarrow> block_record list \<Rightarrow> block_record list" where
  "finds_of g \<equiv> filter (\<lambda>b. counts_find b \<and> br_gateway b = g)"

lemma note_find_Some:
  assumes "gf_found e < u64_max"
  obtains e' where "note_find b e = Some e'" "gf_found e' = gf_found e + 1" "gf_last_ts e' = max (gf_last_ts e) (br_ts b)"
  using assms by (auto simp: note_find_def Let_def max_def split: option.splits if_splits)

abbreviation find_at :: "(string \<rightharpoonup> gateway_find) \<Rightarrow> string \<Rightarrow> gateway_find" where
  "find_at out g \<equiv> (case out g of None \<Rightarrow> no_find | Some e \<Rightarrow> e)"

lemma gateway_finds_total:
  assumes "\<forall>g. gf_found (find_at out g) + length bs \<le> u64_max"
  shows "\<exists>m. gateway_finds bs out = Some m \<and> (\<forall>g. gf_found (find_at m g) = gf_found (find_at out g) + length (finds_of g bs)
    \<and> gf_last_ts (find_at m g) = fold max (map br_ts (finds_of g bs)) (gf_last_ts (find_at out g)))"
  using assms
proof (induction bs arbitrary: out)
  case (Cons b bs)
  show ?case
  proof (cases "counts_find b")
    case True
    have lt: "gf_found (find_at out (br_gateway b)) < u64_max" using Cons.prems [rule_format, of "br_gateway b"] by simp
    obtain e' where e': "note_find b (find_at out (br_gateway b)) = Some e'"
      "gf_found e' = gf_found (find_at out (br_gateway b)) + 1"
      "gf_last_ts e' = max (gf_last_ts (find_at out (br_gateway b))) (br_ts b)"
      by (rule note_find_Some [OF lt]) (rule that)
    let ?o = "out(br_gateway b \<mapsto> e')"
    have "gf_found (find_at ?o g) + length bs \<le> u64_max" for g
      using Cons.prems [rule_format, of g] e'(2) by (cases "g = br_gateway b") simp_all
    then have "\<forall>g. gf_found (find_at ?o g) + length bs \<le> u64_max" ..
    from Cons.IH [OF this] obtain m where m: "gateway_finds bs ?o = Some m"
      "\<And>g. gf_found (find_at m g) = gf_found (find_at ?o g) + length (finds_of g bs)"
      "\<And>g. gf_last_ts (find_at m g) = fold max (map br_ts (finds_of g bs)) (gf_last_ts (find_at ?o g))"
      by (elim exE conjE) (rule that, assumption, blast+)
    have "gf_found (find_at m g) = gf_found (find_at out g) + length (finds_of g (b # bs))
      \<and> gf_last_ts (find_at m g) = fold max (map br_ts (finds_of g (b # bs))) (gf_last_ts (find_at out g))" for g
      using m(2,3) [of g] e'(2,3) True by (cases "g = br_gateway b") (simp_all add: max.commute)
    then show ?thesis using m(1) e'(1) True by (intro exI [of _ m]) simp
  next
    case False
    have "gf_found (find_at out g) + length bs \<le> u64_max" for g using Cons.prems [rule_format, of g] by simp
    then have "\<forall>g. gf_found (find_at out g) + length bs \<le> u64_max" ..
    from Cons.IH [OF this] False show ?thesis by simp
  qed
qed simp

section \<open>Properties\<close>

text \<open>
  The log reads back the latest word on every block. Whatever lines the file holds, torn ones
  included, \<^verbatim>\<open>read_all\<close> gives one record per hash, in the order the hashes first appear, each the last
  line that parses with that hash.
\<close>

theorem read_all_latest:
  "read_all de (Some bytes) = map (\<lambda>h. latest h (parsed_lines de bytes)) (first_seen (parsed_lines de bytes))
   \<and> distinct (map br_hash (read_all de (Some bytes)))"
proof -
  let ?rs = "parsed_lines de bytes"
  obtain out index where f: "fold put_record ?rs ([], Map.empty) = (out, index)" by fastforce
  have e: "read_all de (Some bytes) = map (\<lambda>h. latest h ?rs) (first_seen ?rs)"
    using put_records [OF f] f by (simp add: read_all_def)
  have "br_hash (latest h ?rs) = h" if "h \<in> set (first_seen ?rs)" for h
  proof -
    have "filter (\<lambda>r. br_hash r = h) ?rs \<noteq> []" using that by (auto simp: filter_empty_conv)
    then show ?thesis using last_in_set [of "filter (\<lambda>r. br_hash r = h) ?rs"] by (auto simp: latest_def)
  qed
  then have "map br_hash (read_all de (Some bytes)) = first_seen ?rs" unfolding e map_map by (intro map_idI) simp
  then show ?thesis using e by simp
qed

text \<open>
  Capping holds the rebate credits to what is allowed and touches nothing else. For a delta that ends
  with the planned credits, as \<^verbatim>\<open>carry_delta\<close> builds it, the capped credits add up to exactly the smaller
  of what was planned and what is allowed, none of them grows, and the entries before them stay.
\<close>

theorem cap_rebate_credits_exact:
  assumes "distinct (map fst planned)" "\<forall>c \<in> set planned. snd c > 0" "sum_list (map snd planned) \<le> u64_max"
    and "\<forall>e \<in> set base. snd e \<noteq> 0"
  shows "\<exists>ks. cap_rebate_credits (base @ credit_entries planned) planned allowed
      = Some (min (sum_list (map snd planned)) allowed, base @ filter (\<lambda>e. snd e \<noteq> 0) (credit_entries ks))
    \<and> sum_list (map snd ks) = min (sum_list (map snd planned)) allowed
    \<and> map fst ks = map fst planned \<and> list_all2 (\<lambda>k c. snd k \<le> snd c) ks planned"
proof (cases "sum_list (map snd planned) \<le> allowed")
  case True
  have "filter (\<lambda>e. snd e \<noteq> 0) (credit_entries planned) = credit_entries planned"
    using assms(2) by (intro filter_True) auto
  then show ?thesis
    using True assms(3) by (intro exI [of _ planned]) (simp add: cap_rebate_credits_def sum_u64_eq list_all2_same)
next
  case False
  define excess where "excess = sum_list (map snd planned) - allowed"
  have sum: "sum_list (map snd (rev planned)) = sum_list (map snd planned)"
    by (metis mset_map mset_rev sum_mset_sum_list)
  have k: "distinct (map fst (rev planned))" "\<forall>c \<in> set (rev planned). snd c > 0" "excess \<le> sum_list (map snd (rev planned))"
    "fst ` set ([] :: (string \<times> i64) list) \<inter> fst ` set (rev planned) = {}"
    using assms(1,2) sum by (simp_all add: excess_def rev_map [symmetric])
  obtain rs where rs: "cap_loop (rev planned) ([] @ credit_entries (rev planned) @ rev base) excess = ([] @ credit_entries rs @ rev base, 0)"
    "map fst rs = map fst (rev planned)" "sum_list (map snd rs) + excess = sum_list (map snd (rev planned))"
    "list_all2 (\<lambda>k c. snd k \<le> snd c) rs (rev planned)"
    by (rule cap_loop_credits [OF k]) (rule that)
  have sum': "sum_list (map snd (rev rs)) = sum_list (map snd rs)"
    by (metis mset_map mset_rev sum_mset_sum_list)
  have base: "filter (\<lambda>e. snd e \<noteq> 0) base = base" using assms(4) by (intro filter_True) auto
  have "cap_rebate_credits (base @ credit_entries planned) planned allowed
      = Some (allowed, base @ filter (\<lambda>e. snd e \<noteq> 0) (credit_entries (rev rs)))"
    using rs(1) False assms(3) base by (simp add: cap_rebate_credits_def sum_u64_eq excess_def [symmetric] rev_map) (simp add: excess_def)
  moreover have "map fst (rev rs) = map fst planned" "list_all2 (\<lambda>k c. snd k \<le> snd c) (rev rs) planned"
    using arg_cong [OF rs(2), of rev] rs(4) list_all2_rev [of _ rs "rev planned"] by (simp_all add: rev_map)
  moreover have "sum_list (map snd (rev rs)) = allowed" using rs(3) sum sum' False by (simp add: excess_def)
  ultimately show ?thesis using False by (intro exI [of _ "rev rs"]) (simp add: min_def)
qed

text \<open>
  The finds per gateway are counted from the log: every block with a gateway that is not an orphan
  once, and the last time is the latest of them.
\<close>

theorem gateway_finds_counts:
  assumes "length bs \<le> u64_max"
  shows "\<exists>m. gateway_finds bs Map.empty = Some m \<and> (\<forall>g. gf_found (find_at m g) = length (finds_of g bs)
    \<and> gf_last_ts (find_at m g) = fold max (map br_ts (finds_of g bs)) 0)"
  using gateway_finds_total [of Map.empty bs] assms by (simp add: no_find_def)

theorem cap_rebate_credits_exact_witness:
  "\<exists>ks. cap_rebate_credits ([(''a'', - 10)] @ credit_entries [(''b'', 5), (''c'', 7)]) [(''b'', 5), (''c'', 7)] 8
      = Some (8, [(''a'', - 10)] @ filter (\<lambda>e. snd e \<noteq> 0) (credit_entries ks)) \<and> sum_list (map snd ks) = 8"
  using cap_rebate_credits_exact [of "[(''b'', 5), (''c'', 7)]" "[(''a'', - 10)]" 8] by auto

theorem gateway_finds_counts_witness:
  "\<exists>m. gateway_finds [ex_record (books_new 0 0)] Map.empty = Some m
    \<and> gf_found (find_at m ''g'') = length (finds_of ''g'' [ex_record (books_new 0 0)])"
  using gateway_finds_counts [of "[ex_record (books_new 0 0)]"] by auto

end
