(* ===== verification/Wire_Cursor.thy ===== *)
theory Wire_Cursor
  imports Bytes
begin

text \<open>
  The byte reader of the DATUM wire protocol, \<^verbatim>\<open>prime/wire/src/lib.rs\<close>: the crate's \<^verbatim>\<open>Error\<close>, the
  \<^verbatim>\<open>Cursor\<close> and its readers. A reader maps a cursor to an error or to what it read and the cursor
  after it; \<open>rbind\<close> is the \<^verbatim>\<open>?\<close> operator between two reads. The locale \<open>reader\<close> is the contract every
  parser of the protocol keeps: it only moves forward in its buffer, and what it returns depends on
  nothing but the bytes it consumed.

  A Rust \<^verbatim>\<open>String\<close> of the wire crates is the list of its UTF-8 bytes; \<open>from_utf8_lossy\<close> is the standard
  library's \<^verbatim>\<open>String::from_utf8_lossy\<close> on that representation.
\<close>

section \<open>Errors, cursors and readers\<close>

datatype wire_error = Short | Signature | Decrypt | Malformed string | TooLong

record cursor =
  cu_buf :: "byte list"
  cu_pos :: usize

type_synonym 'a reader = "cursor \<Rightarrow> wire_error + ('a \<times> cursor)"

definition new_cursor :: "byte list \<Rightarrow> cursor" where
  "new_cursor b = \<lparr>cu_buf = b, cu_pos = 0\<rparr>"

definition remaining :: "cursor \<Rightarrow> usize" where
  "remaining c = length (cu_buf c) - cu_pos c"

definition rret :: "'a \<Rightarrow> 'a reader" where
  "rret v c = Inr (v, c)"

definition rfail :: "wire_error \<Rightarrow> 'a reader" where
  "rfail e c = Inl e"

definition rbind :: "'a reader \<Rightarrow> ('a \<Rightarrow> 'b reader) \<Rightarrow> 'b reader" where
  "rbind p q c = (case p c of Inl e \<Rightarrow> Inl e | Inr (v, c') \<Rightarrow> q v c')"

definition take_c :: "nat \<Rightarrow> byte list reader" where
  "take_c n c = (if remaining c < n then Inl Short
     else Inr (take n (drop (cu_pos c) (cu_buf c)), c\<lparr>cu_pos := cu_pos c + n\<rparr>))"

definition rd_u8 :: "u8 reader" where
  "rd_u8 = rbind (take_c 1) (\<lambda>b. rret (unat (b ! 0)))"

definition rd_u16 :: "u16 reader" where
  "rd_u16 = rbind (take_c 2) (\<lambda>b. rret (le_nat b))"

definition rd_u32 :: "u32 reader" where
  "rd_u32 = rbind (take_c 4) (\<lambda>b. rret (le_nat b))"

definition rd_u64 :: "u64 reader" where
  "rd_u64 = rbind (take_c 8) (\<lambda>b. rret (le_nat b))"

definition rd_array :: "nat \<Rightarrow> byte list reader" where
  "rd_array n = take_c n"

text \<open>\<^verbatim>\<open>Iterator::position\<close>.\<close>

fun position :: "('a \<Rightarrow> bool) \<Rightarrow> 'a list \<Rightarrow> nat option" where
  "position P [] = None"
| "position P (x # xs) = (if P x then Some 0 else map_option Suc (position P xs))"

definition cstr :: "nat \<Rightarrow> byte list reader" where
  "cstr mx c = (let rest = drop (cu_pos c) (cu_buf c) in
     case position (\<lambda>b. b = 0) (take (mx + 1) rest) of
       None \<Rightarrow> Inl (Malformed ''unterminated string'')
     | Some e \<Rightarrow> Inr (take e rest, c\<lparr>cu_pos := cu_pos c + e + 1\<rparr>))"

text \<open>\<^verbatim>\<open>for _ in 0..n { out.push(read()?) }\<close>.\<close>

fun rd_times :: "nat \<Rightarrow> 'a reader \<Rightarrow> 'a list reader" where
  "rd_times 0 p = rret []"
| "rd_times (Suc n) p = rbind p (\<lambda>x. rbind (rd_times n p) (\<lambda>xs. rret (x # xs)))"

text \<open>\<^verbatim>\<open>let v = p(&mut c)?; f(v)\<close> at the end of a parser: the cursor is dropped.\<close>

definition parsed :: "'a reader \<Rightarrow> byte list \<Rightarrow> wire_error + 'a" where
  "parsed p b = (case p (new_cursor b) of Inl e \<Rightarrow> Inl e | Inr (v, _) \<Rightarrow> Inr v)"

section \<open>UTF-8\<close>

abbreviation in_range :: "nat \<Rightarrow> nat \<Rightarrow> byte \<Rightarrow> bool" where
  "in_range lo hi b \<equiv> lo \<le> unat b \<and> unat b \<le> hi"

abbreviation replacement :: "byte list" where
  "replacement \<equiv> [0xEF, 0xBF, 0xBD]"

text \<open>The bytes of an ASCII literal.\<close>

definition ascii :: "string \<Rightarrow> byte list" where
  "ascii = map of_char"

text \<open>The second byte a three- or four-byte sequence may have after its first.\<close>

definition second_ok :: "byte \<Rightarrow> byte \<Rightarrow> bool" where
  "second_ok b b1 \<longleftrightarrow>
     (if b = 0xE0 then in_range 0xA0 0xBF b1
      else if b = 0xED then in_range 0x80 0x9F b1
      else if b = 0xF0 then in_range 0x90 0xBF b1
      else if b = 0xF4 then in_range 0x80 0x8F b1
      else in_range 0x80 0xBF b1)"

definition char_width :: "byte \<Rightarrow> nat" where
  "char_width b = (if unat b < 0x80 then 1 else if in_range 0xC2 0xDF b then 2
     else if in_range 0xE0 0xEF b then 3 else if in_range 0xF0 0xF4 b then 4 else 0)"

text \<open>How many bytes of a sequence of width \<open>w\<close> are well formed at the front, and the decoder: a whole
  sequence is kept, the longest well-formed part of a broken one becomes one replacement character.\<close>

definition valid_part :: "nat \<Rightarrow> byte list \<Rightarrow> nat" where
  "valid_part w bs = (case bs of [] \<Rightarrow> 0 | b # r \<Rightarrow>
     if w \<le> 1 then 1
     else (case r of [] \<Rightarrow> 1 | b1 # r1 \<Rightarrow>
       if \<not> second_ok b b1 then 1
       else 2 + length (takeWhile (in_range 0x80 0xBF) (take (w - 2) r1))))"

function from_utf8_lossy :: "byte list \<Rightarrow> byte list" where
  "from_utf8_lossy [] = []"
| "from_utf8_lossy (b # bs) =
     (let w = char_width b; n = valid_part w (b # bs) in
      (if w = n then take n (b # bs) else replacement) @ from_utf8_lossy (drop (max 1 n) (b # bs)))"
  by pat_completeness auto
termination by (relation "measure length") auto

abbreviation is_utf8 :: "byte list \<Rightarrow> bool" where
  "is_utf8 s \<equiv> from_utf8_lossy s = s"

lemma ascii_is_utf8: "\<forall>b \<in> set s. unat b < 128 \<Longrightarrow> is_utf8 s"
  by (induction s) (simp_all add: char_width_def valid_part_def)

section \<open>The contract of a reader\<close>

text \<open>A cursor that has read \<open>pre\<close> and has \<open>rest\<close> to read.\<close>

definition at_c :: "byte list \<Rightarrow> byte list \<Rightarrow> cursor" where
  "at_c pre rest = \<lparr>cu_buf = pre @ rest, cu_pos = length pre\<rparr>"

lemma new_at [simp]: "new_cursor b = at_c [] b"
  by (simp add: new_cursor_def at_c_def)

lemma remaining_at [simp]: "remaining (at_c pre rest) = length rest"
  by (simp add: remaining_def at_c_def)

lemma at_c_eq: "cu_pos c \<le> length (cu_buf c) \<Longrightarrow> c = at_c (take (cu_pos c) (cu_buf c)) (drop (cu_pos c) (cu_buf c))"
  by (simp add: at_c_def)

locale reader =
  fixes p :: "'a reader"
  assumes forward: "p c = Inr (v, c') \<Longrightarrow> cu_buf c' = cu_buf c \<and> cu_pos c \<le> cu_pos c'"
    and local: "p (at_c pre rest) = Inr (v, c') \<Longrightarrow>
      \<exists>x r. rest = x @ r \<and> c' = at_c (pre @ x) r \<and> (\<forall>pre' r'. p (at_c pre' (x @ r')) = Inr (v, at_c (pre' @ x) r'))"
begin

lemma shrinks: "p c = Inr (v, c') \<Longrightarrow> remaining c' \<le> remaining c"
  using forward [of c v c'] by (auto simp: remaining_def)

lemma padding_ignored: "parsed p b = Inr v \<Longrightarrow> parsed p (b @ pad) = Inr v"
proof -
  assume "parsed p b = Inr v"
  then obtain c' where "p (at_c [] b) = Inr (v, c')" by (auto simp: parsed_def split: sum.splits)
  from local [OF this] obtain x r where "b = x @ r" "\<And>r'. p (at_c [] (x @ r')) = Inr (v, at_c x r')"
    by (metis append_Nil)
  then show ?thesis by (simp add: parsed_def)
qed

end

lemma reader_rret: "reader (rret v)"
  by unfold_locales (auto simp: rret_def intro: exI [of _ "[]"])

lemma reader_rfail: "reader (rfail e)"
  by unfold_locales (auto simp: rfail_def)

lemma reader_rbind:
  assumes "reader p" "\<And>v. reader (q v)"
  shows "reader (rbind p q)"
proof
  fix c v c' assume "rbind p q c = Inr (v, c')"
  then obtain u c1 where "p c = Inr (u, c1)" "q u c1 = Inr (v, c')" by (auto simp: rbind_def split: sum.splits)
  then show "cu_buf c' = cu_buf c \<and> cu_pos c \<le> cu_pos c'"
    using reader.forward [OF assms(1)] reader.forward [OF assms(2)] by (metis le_trans)
next
  fix pre rest v c' assume "rbind p q (at_c pre rest) = Inr (v, c')"
  then obtain u c1 where 1: "p (at_c pre rest) = Inr (u, c1)" and 2: "q u c1 = Inr (v, c')"
    by (auto simp: rbind_def split: sum.splits)
  from reader.local [OF assms(1) 1] obtain x r where x: "rest = x @ r" "c1 = at_c (pre @ x) r"
    "\<And>pre' r'. p (at_c pre' (x @ r')) = Inr (u, at_c (pre' @ x) r')" by blast
  from reader.local [OF assms(2), of u "pre @ x" r v c'] 2 x(2) obtain y s where y: "r = y @ s" "c' = at_c ((pre @ x) @ y) s"
    "\<And>pre' r'. q u (at_c pre' (y @ r')) = Inr (v, at_c (pre' @ y) r')" by blast
  show "\<exists>x r. rest = x @ r \<and> c' = at_c (pre @ x) r \<and> (\<forall>pre' r'. rbind p q (at_c pre' (x @ r')) = Inr (v, at_c (pre' @ x) r'))"
    by (intro exI [of _ "x @ y"] exI [of _ s]) (simp add: x y rbind_def)
qed

lemma take_c_at: "take_c n (at_c pre rest) = (if length rest < n then Inl Short else Inr (take n rest, at_c (pre @ take n rest) (drop n rest)))"
  by (simp add: take_c_def at_c_def remaining_def)

lemma take_c_reads [simp]: "length x = n \<Longrightarrow> take_c n (at_c pre (x @ rest)) = Inr (x, at_c (pre @ x) rest)"
  by (simp add: take_c_at)

interpretation take: reader "take_c n" for n
proof
  fix c v c' assume "take_c n c = Inr (v, c')"
  then show "cu_buf c' = cu_buf c \<and> cu_pos c \<le> cu_pos c'" by (auto simp: take_c_def split: if_splits)
next
  fix pre rest v c' assume "take_c n (at_c pre rest) = Inr (v, c')"
  then show "\<exists>x r. rest = x @ r \<and> c' = at_c (pre @ x) r \<and> (\<forall>pre' r'. take_c n (at_c pre' (x @ r')) = Inr (v, at_c (pre' @ x) r'))"
    by (intro exI [of _ "take n rest"] exI [of _ "drop n rest"]) (auto simp: take_c_at split: if_splits)
qed

lemma position_Some:
  "position P xs = Some i \<longleftrightarrow> i < length xs \<and> P (xs ! i) \<and> (\<forall>j < i. \<not> P (xs ! j))"
proof (induction xs arbitrary: i)
  case (Cons x xs)
  then show ?case by (cases i) (auto simp: nth_Cons less_Suc_eq_0_disj split: nat.splits)
qed simp

lemma position_append: "\<forall>b \<in> set s. \<not> P b \<Longrightarrow> P y \<Longrightarrow> position P (s @ y # r) = Some (length s)"
  by (induction s) auto

lemma position_take: "position P (take n xs) = Some i \<longleftrightarrow> i < n \<and> position P xs = Some i"
  by (auto simp: position_Some)

lemma cstr_at:
  "cstr mx (at_c pre rest) = (case position (\<lambda>b. b = 0) (take (mx + 1) rest) of
     None \<Rightarrow> Inl (Malformed ''unterminated string'')
   | Some e \<Rightarrow> Inr (take e rest, at_c (pre @ take (e + 1) rest) (drop (e + 1) rest)))"
proof -
  have "e < length rest" if "position (\<lambda>b. b = 0) (take (mx + 1) rest) = Some e" for e
    using that by (simp add: position_Some)
  then show ?thesis by (auto simp: cstr_def at_c_def Let_def min_def split: option.splits)
qed

lemma cstr_reads [simp]:
  assumes "0 \<notin> set s" "length s \<le> mx"
  shows "cstr mx (at_c pre (s @ 0 # rest)) = Inr (s, at_c (pre @ s @ [0]) rest)"
proof -
  have "position (\<lambda>b. b = 0) (take (mx + 1) (s @ 0 # rest)) = Some (length s)"
    unfolding position_take using assms position_append [of s "\<lambda>b. b = 0" 0 rest] by auto
  then show ?thesis by (simp add: cstr_at)
qed

interpretation cstr: reader "cstr mx" for mx
proof
  fix c v c' assume "cstr mx c = Inr (v, c')"
  then show "cu_buf c' = cu_buf c \<and> cu_pos c \<le> cu_pos c'" by (auto simp: cstr_def Let_def split: option.splits)
next
  fix pre rest v c' assume a: "cstr mx (at_c pre rest) = Inr (v, c')"
  then obtain e where e: "position (\<lambda>b. b = 0) (take (mx + 1) rest) = Some e"
    and v: "v = take e rest" and c': "c' = at_c (pre @ take (e + 1) rest) (drop (e + 1) rest)"
    by (auto simp: cstr_at split: option.splits)
  then have "e \<le> mx" "e < length rest" "rest ! e = 0" "\<forall>j < e. rest ! j \<noteq> 0" by (auto simp: position_Some)
  then have "0 \<notin> set v" "length v \<le> mx" using v by (auto simp: in_set_conv_nth)
  moreover have "rest = (v @ [0]) @ drop (e + 1) rest"
    using v \<open>rest ! e = 0\<close> id_take_nth_drop [OF \<open>e < length rest\<close>] by simp
  ultimately show "\<exists>x r. rest = x @ r \<and> c' = at_c (pre @ x) r \<and> (\<forall>pre' r'. cstr mx (at_c pre' (x @ r')) = Inr (v, at_c (pre' @ x) r'))"
    using v c' \<open>e < length rest\<close> \<open>rest ! e = 0\<close>
    by (intro exI [of _ "v @ [0]"] exI [of _ "drop (e + 1) rest"]) (simp add: take_Suc_conv_app_nth)
qed

named_theorems reader_intros \<open>the readers that keep the contract\<close>

lemmas [reader_intros] = reader_rret reader_rfail reader_rbind take.reader_axioms cstr.reader_axioms

lemma reader_ints [reader_intros]: "reader rd_u8" "reader rd_u16" "reader rd_u32" "reader rd_u64" "reader (rd_array n)"
  unfolding rd_u8_def rd_u16_def rd_u32_def rd_u64_def rd_array_def by (intro reader_intros)+

lemma reader_times [reader_intros]: "reader p \<Longrightarrow> reader (rd_times n p)"
  by (induction n) (simp_all add: reader_intros)

lemma reader_if [reader_intros]: "reader p \<Longrightarrow> reader q \<Longrightarrow> reader (if b then p else q)"
  by simp

section \<open>Reading what was written\<close>

lemma rbind_Inr [simp]: "p c = Inr (v, c') \<Longrightarrow> rbind p q c = q v c'"
  by (simp add: rbind_def)

lemma rret_at [simp]: "rret v c = Inr (v, c)"
  by (simp add: rret_def)

lemma rfail_at [simp]: "rfail e c = Inl e"
  by (simp add: rfail_def)

lemma rd_u8_reads [simp]: "rd_u8 (at_c pre (b # rest)) = Inr (unat b, at_c (pre @ [b]) rest)"
  using take_c_reads [of "[b]" 1 pre rest] by (simp add: rd_u8_def rbind_def)

lemma rd_u8_empty [simp]: "rd_u8 (at_c pre []) = Inl Short"
  by (simp add: rd_u8_def rbind_def take_c_at)

lemma rd_u16_reads [simp]: "x \<le> u16_max \<Longrightarrow> rd_u16 (at_c pre (le_bytes 2 x @ rest)) = Inr (x, at_c (pre @ le_bytes 2 x) rest)"
  by (simp add: rd_u16_def rbind_def)

lemma rd_u32_reads [simp]: "x \<le> u32_max \<Longrightarrow> rd_u32 (at_c pre (le_bytes 4 x @ rest)) = Inr (x, at_c (pre @ le_bytes 4 x) rest)"
  by (simp add: rd_u32_def rbind_def)

lemma rd_u64_reads [simp]: "x \<le> u64_max \<Longrightarrow> rd_u64 (at_c pre (le_bytes 8 x @ rest)) = Inr (x, at_c (pre @ le_bytes 8 x) rest)"
  by (simp add: rd_u64_def rbind_def)

lemma rd_array_reads [simp]: "length x = n \<Longrightarrow> rd_array n (at_c pre (x @ rest)) = Inr (x, at_c (pre @ x) rest)"
  by (simp add: rd_array_def)

lemma rd_times_reads:
  assumes "\<And>pre x rest. x \<in> set xs \<Longrightarrow> p (at_c pre (w x @ rest)) = Inr (x, at_c (pre @ w x) rest)"
  shows "rd_times (length xs) p (at_c pre (concat (map w xs) @ rest)) = Inr (xs, at_c (pre @ concat (map w xs)) rest)"
  using assms by (induction xs arbitrary: pre) simp_all

lemma rbind_Inr_iff: "rbind p q c = Inr (v, c') \<longleftrightarrow> (\<exists>u c1. p c = Inr (u, c1) \<and> q u c1 = Inr (v, c'))"
  by (auto simp: rbind_def split: sum.splits)

lemma rd_u8_shrinks: "rd_u8 c = Inr (v, c') \<Longrightarrow> remaining c' < remaining c"
  by (auto simp: rd_u8_def rbind_Inr_iff take_c_def remaining_def split: if_splits)

lemma rd_u8_lt: "rd_u8 c = Inr (v, c') \<Longrightarrow> v < 256"
  by (auto simp: rd_u8_def rbind_Inr_iff)

text \<open>What a successful read says about the input.\<close>

lemma take_c_inv: "take_c n (at_c pre rest) = Inr (x, c') \<Longrightarrow> \<exists>r. rest = x @ r \<and> length x = n \<and> c' = at_c (pre @ x) r"
  by (auto simp: take_c_at split: if_splits intro!: exI [of _ "drop n rest"])

end
