(* ===== verification/Wire_Frame.thy ===== *)
theory Wire_Frame
  imports Wire_Cursor
begin

text \<open>
  The frame header and its rolling key, \<^verbatim>\<open>prime/wire/src/frame.rs\<close>. Header words are \<^typ>\<open>32 word\<close>, so
  \<^verbatim>\<open>wrapping_mul\<close> and \<^verbatim>\<open>rotate_left\<close> are the operations of the word library.
\<close>

unbundle bit_operations_syntax

section \<open>Model\<close>

definition MAX_CMD_LEN :: nat where "MAX_CMD_LEN = 2 ^ 22"

definition CLIENT_INITIAL_KEY :: "32 word" where "CLIENT_INITIAL_KEY = 0xDC871829"

definition xor_shift :: "nat \<Rightarrow> 32 word \<Rightarrow> 32 word" where
  "xor_shift n h = h XOR drop_bit n h"

definition feedback :: "32 word \<Rightarrow> 32 word" where
  "feedback i = (let
     k = i * 0xcc9e2d51;
     k = word_rotl 15 k;
     k = k * 0x1b873593;
     h = 0xb10cfeed XOR k;
     h = word_rotl 13 h;
     h = h * 5 + 0xe6546b64;
     h = h XOR 4;
     h = xor_shift 16 h;
     h = h * 0x85ebca6b;
     h = xor_shift 13 h;
     h = h * 0xc2b2ae35
   in xor_shift 16 h)"

text \<open>\<^verbatim>\<open>KeyStream\<close>: the current key; \<^verbatim>\<open>advance\<close> gives it out and steps.\<close>

type_synonym key_stream = "32 word"

definition advance :: "key_stream \<Rightarrow> 32 word \<times> key_stream" where
  "advance k = (k, feedback k)"

definition from_seed :: "32 word \<Rightarrow> key_stream \<times> key_stream" where
  "from_seed seed = (feedback seed, feedback (NOT seed))"

record header =
  hd_len :: "32 word"
  hd_signed :: bool
  hd_sealed :: bool
  hd_channel :: bool
  hd_cmd :: "8 word"

definition new_header :: "8 word \<Rightarrow> nat \<Rightarrow> header" where
  "new_header cmd n = \<lparr>hd_len = of_nat n, hd_signed = False, hd_sealed = False, hd_channel = False, hd_cmd = cmd\<rparr>"

definition to_u32 :: "header \<Rightarrow> 32 word" where
  "to_u32 h = (hd_len h AND 0x003fffff)
     OR push_bit 24 (of_bool (hd_signed h))
     OR push_bit 25 (of_bool (hd_sealed h))
     OR push_bit 26 (of_bool (hd_channel h))
     OR push_bit 27 (ucast (hd_cmd h AND 0x1f))"

definition from_u32 :: "32 word \<Rightarrow> header" where
  "from_u32 v = \<lparr>hd_len = v AND 0x003fffff,
     hd_signed = (v AND push_bit 24 1 \<noteq> 0),
     hd_sealed = (v AND push_bit 25 1 \<noteq> 0),
     hd_channel = (v AND push_bit 26 1 \<noteq> 0),
     hd_cmd = ucast (drop_bit 27 v)\<rparr>"

definition encode_header :: "header \<Rightarrow> key_stream \<Rightarrow> byte list \<times> key_stream" where
  "encode_header h keys = (case advance keys of (k, keys') \<Rightarrow> (le_bytes 4 (unat (to_u32 h XOR k)), keys'))"

definition decode_header :: "byte list \<Rightarrow> key_stream \<Rightarrow> (wire_error + header) \<times> key_stream" where
  "decode_header bytes keys = (case advance keys of (k, keys') \<Rightarrow>
     (let h = from_u32 (of_nat (le_nat bytes) XOR k) in
      (if unat (hd_len h) > MAX_CMD_LEN then Inl TooLong else Inr h, keys')))"

text \<open>A header whose length and command fit their fields.\<close>

definition header_ok :: "header \<Rightarrow> bool" where
  "header_ok h \<longleftrightarrow> unat (hd_len h) < 2 ^ 22 \<and> unat (hd_cmd h) < 32"

text \<open>The headers of one direction in order, under the key stream both ends walk.\<close>

fun send_all :: "header list \<Rightarrow> key_stream \<Rightarrow> byte list list \<times> key_stream" where
  "send_all [] k = ([], k)"
| "send_all (h # hs) k = (case encode_header h k of (b, k') \<Rightarrow>
     case send_all hs k' of (bs, k'') \<Rightarrow> (b # bs, k''))"

fun recv_all :: "byte list list \<Rightarrow> key_stream \<Rightarrow> (wire_error + header) list \<times> key_stream" where
  "recv_all [] k = ([], k)"
| "recv_all (b # bs) k = (case decode_header b k of (h, k') \<Rightarrow>
     case recv_all bs k' of (hs, k'') \<Rightarrow> (h # hs, k''))"

section \<open>Lemmas\<close>

lemma and_one_bit: "(v :: 32 word) AND push_bit n 1 \<noteq> 0 \<longleftrightarrow> bit v n"
  by (simp add: push_bit_eq_mult and_exp_eq_0_iff_not_bit)

lemma len_mask: "(0x003fffff :: 32 word) = mask 22"
  by (simp add: mask_eq_exp_minus_1)

lemma cmd_mask: "(0x1f :: 8 word) = mask 5"
  by (simp add: mask_eq_exp_minus_1)

lemma masked_small: "unat w < 2 ^ n \<Longrightarrow> w AND mask n = (w :: 'a :: len word)"
  by (simp add: word_unat_eq_iff unsigned_and_eq unsigned_take_bit_eq take_bit_nat_eq_self flip: take_bit_eq_mask)

lemma small_bit: "unat (w :: 'a :: len word) < 2 ^ n \<Longrightarrow> bit w m \<Longrightarrow> m < n"
  using masked_small [of w n] by (metis bit_and_iff bit_mask_iff)

lemma bit_to_u32:
  assumes "header_ok h"
  shows "bit (to_u32 h) n \<longleftrightarrow> n < 32 \<and> (if n < 22 then bit (hd_len h) n
    else if n = 24 then hd_signed h else if n = 25 then hd_sealed h else if n = 26 then hd_channel h
    else n \<ge> 27 \<and> bit (hd_cmd h) (n - 27))"
proof -
  have "bit (hd_len h) n \<Longrightarrow> n < 22" "bit (hd_cmd h) (n - 27) \<Longrightarrow> n - 27 < 5"
    using assms small_bit [of "hd_len h" 22 n] small_bit [of "hd_cmd h" 5 "n - 27"] by (auto simp: header_ok_def)
  then show ?thesis
    by (auto simp: to_u32_def len_mask cmd_mask bit_simps)
qed

lemma from_to_u32:
  assumes "header_ok h"
  shows "from_u32 (to_u32 h) = h"
proof -
  have "to_u32 h AND mask 22 = hd_len h"
    using assms small_bit [of "hd_len h" 22] by (intro bit_word_eqI) (auto simp: bit_and_iff bit_mask_iff bit_to_u32 header_ok_def)
  moreover have "ucast (drop_bit 27 (to_u32 h)) = hd_cmd h"
    using assms small_bit [of "hd_cmd h" 5] by (intro bit_word_eqI) (auto simp: bit_unsigned_iff bit_drop_bit_eq bit_to_u32 header_ok_def)
  ultimately show ?thesis
    using assms unfolding from_u32_def len_mask and_one_bit by (simp add: bit_to_u32)
qed

lemma from_u32_ok: "header_ok (from_u32 v)"
proof -
  have "unat (v AND mask 22) < 2 ^ 22"
    using take_bit_nat_less_exp [of 22 "unat v"] by (simp add: unsigned_take_bit_eq flip: take_bit_eq_mask)
  moreover have "(ucast (drop_bit 27 v) :: 8 word) AND mask 5 = ucast (drop_bit 27 v)"
    by (rule bit_word_eqI) (auto simp: bit_simps dest: bit_imp_le_length)
  then have "unat (ucast (drop_bit 27 v) :: 8 word) < 2 ^ 5"
    using take_bit_nat_less_exp [of 5 "unat (ucast (drop_bit 27 v) :: 8 word)"]
    by (metis take_bit_eq_mask unsigned_take_bit_eq)
  ultimately show ?thesis by (simp add: from_u32_def header_ok_def len_mask)
qed

lemma le_nat_u32 [simp]: "of_nat (le_nat (le_bytes 4 (unat (w :: 32 word)))) = w"
proof -
  have "unat w < 256 ^ 4" using unsigned_less [of w] by simp
  then show ?thesis by simp
qed

lemma decode_encode_header:
  assumes "header_ok h"
  shows "decode_header (fst (encode_header h k)) k = (Inr h, snd (encode_header h k))"
  using assms by (simp add: decode_header_def encode_header_def advance_def from_to_u32 header_ok_def MAX_CMD_LEN_def xor.assoc)

lemma odd_mult_inj: "c * d = 1 \<Longrightarrow> inj (\<lambda>x :: 32 word. x * c)"
proof (rule injI)
  fix x y :: "32 word" assume cd: "c * d = 1" and "x * c = y * c"
  have "x * c * d = y * c * d" using \<open>x * c = y * c\<close> by (rule arg_cong)
  then show "x = y" unfolding mult.assoc cd by simp
qed

lemma xor_shift_inj: "inj (xor_shift 16)" "inj (xor_shift 13)"
proof -
  have "xor_shift 16 (xor_shift 16 h) = h" for h
    by (rule bit_word_eqI) (auto simp: xor_shift_def bit_simps dest: bit_imp_le_length)
  then show "inj (xor_shift 16)" by (metis injI)
  have "xor_shift 26 (xor_shift 13 (xor_shift 13 h)) = h" for h
    by (rule bit_word_eqI) (auto simp: xor_shift_def bit_simps dest: bit_imp_le_length)
  then show "inj (xor_shift 13)" by (metis injI)
qed

lemma xor_inj: "inj (\<lambda>x :: 32 word. a XOR x)" and xor_inj': "inj (\<lambda>x :: 32 word. x XOR a)"
  by (rule inj_on_inverseI [of _ "\<lambda>x. a XOR x"], simp, rule inj_on_inverseI [of _ "\<lambda>x. x XOR a"], simp add: xor.assoc)

lemma word_rotl_inj: "inj (word_rotl n :: 32 word \<Rightarrow> 32 word)"
  by (rule inj_on_inverseI [of _ "word_rotr n"]) simp

lemma feedback_inj: "inj feedback"
proof -
  have m: "inj (\<lambda>x :: 32 word. x * 0xcc9e2d51)" "inj (\<lambda>x :: 32 word. x * 0x1b873593)" "inj (\<lambda>x :: 32 word. x * 5)"
    "inj (\<lambda>x :: 32 word. x * 0x85ebca6b)" "inj (\<lambda>x :: 32 word. x * 0xc2b2ae35)"
    by (rule odd_mult_inj [where d = "3739302833"], simp; fail | rule odd_mult_inj [where d = "1458385051"], simp; fail
      | rule odd_mult_inj [where d = "3435973837"], simp; fail | rule odd_mult_inj [where d = "2781581891"], simp; fail
      | rule odd_mult_inj [where d = "2127672349"], simp; fail)+
  show ?thesis
  proof (rule injI)
    fix x y assume "feedback x = feedback y"
    then show "x = y"
      unfolding feedback_def Let_def
      by (simp only: inj_eq [OF xor_shift_inj(1)] inj_eq [OF xor_shift_inj(2)] inj_eq [OF word_rotl_inj]
        m [THEN inj_eq] inj_eq [OF xor_inj] inj_eq [OF xor_inj'] add_right_cancel)
  qed
qed

section \<open>Properties\<close>

text \<open>
  The two ends of a connection stay in step. Any sequence of headers sent under one key stream is
  received unchanged under the same key stream, and both ends finish on the same key.
\<close>

theorem headers_roundtrip:
  "list_all header_ok hs \<Longrightarrow> send_all hs k = (bs, k') \<Longrightarrow> recv_all bs k = (map Inr hs, k')"
proof (induction hs arbitrary: k bs k')
  case (Cons h hs)
  obtain b k1 where b: "encode_header h k = (b, k1)" by fastforce
  obtain bs1 k2 where bs1: "send_all hs k1 = (bs1, k2)" by fastforce
  show ?case
    using Cons.prems Cons.IH [OF _ bs1] b bs1 decode_encode_header [of h k] by auto
qed simp

text \<open>
  Any four bytes are a header that fits its fields: the decoder never refuses, since the 22-bit length
  it masks out cannot exceed \<^verbatim>\<open>MAX_CMD_LEN\<close>, and a payload of exactly \<^verbatim>\<open>MAX_CMD_LEN\<close> bytes goes out
  with a header that says it is empty.
\<close>

theorem decode_header_total:
  "(\<exists>h. fst (decode_header bytes k) = Inr h \<and> header_ok h)
   \<and> fst (decode_header (fst (encode_header (new_header cmd MAX_CMD_LEN) k)) k) = fst (decode_header (fst (encode_header (new_header cmd 0) k)) k)"
proof
  have "header_ok (from_u32 v)" for v by (rule from_u32_ok)
  then show "\<exists>h. fst (decode_header bytes k) = Inr h \<and> header_ok h"
    by (auto simp: decode_header_def advance_def Let_def MAX_CMD_LEN_def header_ok_def not_less intro: less_imp_le)
  show "fst (decode_header (fst (encode_header (new_header cmd MAX_CMD_LEN) k)) k) = fst (decode_header (fst (encode_header (new_header cmd 0) k)) k)"
    by (simp add: encode_header_def advance_def to_u32_def new_header_def MAX_CMD_LEN_def)
qed

text \<open>
  The header keys never collapse: the mixer is a bijection of the 32-bit words, so two different keys
  never lead to the same one, and the two directions of a session always start on different keys.
\<close>

theorem feedback_bijective:
  "bij feedback \<and> fst (from_seed seed) \<noteq> snd (from_seed seed)"
proof
  show "bij feedback" using feedback_inj finite_UNIV_inj_surj [OF finite feedback_inj] by (simp add: bij_def)
  have "bit (NOT seed) 0 \<noteq> bit seed 0" by (simp add: bit_not_iff)
  then have "seed \<noteq> NOT seed" by metis
  then show "fst (from_seed seed) \<noteq> snd (from_seed seed)" by (simp add: from_seed_def inj_eq [OF feedback_inj])
qed

theorem headers_roundtrip_witness:
  "recv_all (fst (send_all [new_header 5 100, new_header 7 3] CLIENT_INITIAL_KEY)) CLIENT_INITIAL_KEY
    = (map Inr [new_header 5 100, new_header 7 3], snd (send_all [new_header 5 100, new_header 7 3] CLIENT_INITIAL_KEY))"
  by (rule headers_roundtrip) (simp_all add: header_ok_def new_header_def)

end
