(* ===== verification/Wire_Crypto.thy ===== *)
theory Wire_Crypto
  imports Wire_Frame
begin

text \<open>
  Session nonces and the encrypted channel, \<^verbatim>\<open>prime/wire/src/crypto.rs\<close>. The NaCl primitives come from
  third-party crates; they are the fields of the record \<open>nacl\<close>, an argument of every definition that
  uses them, and what the code relies on is the three predicates \<open>sign_law\<close>, \<open>seal_law\<close> and \<open>box_law\<close>.
\<close>

unbundle bit_operations_syntax

section \<open>Model\<close>

abbreviation SIGN_PK :: nat where "SIGN_PK \<equiv> 32"
abbreviation BOX_PK :: nat where "BOX_PK \<equiv> 32"
abbreviation SIG :: nat where "SIG \<equiv> 64"
abbreviation NONCE :: nat where "NONCE \<equiv> 24"
abbreviation MAC :: nat where "MAC \<equiv> 16"

text \<open>\<open>nc_verify\<close> is the whole of \<^verbatim>\<open>verify\<close>: a key or a signature that does not decode is \<open>False\<close>.
  \<open>nc_seal\<close> takes the randomness the crate draws; \<open>nc_decrypt\<close> takes the tag and the body apart.\<close>

record nacl =
  nc_sign_pk :: "byte list \<Rightarrow> byte list"
  nc_box_pk :: "byte list \<Rightarrow> byte list"
  nc_sign :: "byte list \<Rightarrow> byte list \<Rightarrow> byte list"
  nc_verify :: "byte list \<Rightarrow> byte list \<Rightarrow> byte list \<Rightarrow> bool"
  nc_seal :: "byte list \<Rightarrow> byte list \<Rightarrow> byte list \<Rightarrow> byte list"
  nc_unseal :: "byte list \<Rightarrow> byte list \<Rightarrow> byte list option"
  nc_precompute :: "byte list \<Rightarrow> byte list \<Rightarrow> byte list"
  nc_encrypt :: "byte list \<Rightarrow> byte list \<Rightarrow> byte list \<Rightarrow> byte list"
  nc_decrypt :: "byte list \<Rightarrow> byte list \<Rightarrow> byte list \<Rightarrow> byte list \<Rightarrow> byte list option"

definition sign_law :: "nacl \<Rightarrow> bool" where
  "sign_law N \<longleftrightarrow> (\<forall>sk m. length (nc_sign N sk m) = SIG \<and> length (nc_sign_pk N sk) = SIGN_PK
     \<and> nc_verify N (nc_sign_pk N sk) m (nc_sign N sk m))"

definition seal_law :: "nacl \<Rightarrow> bool" where
  "seal_law N \<longleftrightarrow> (\<forall>r sk m. length (nc_box_pk N sk) = BOX_PK \<and> nc_unseal N sk (nc_seal N r (nc_box_pk N sk) m) = Some m)"

definition box_law :: "nacl \<Rightarrow> bool" where
  "box_law N \<longleftrightarrow> (\<forall>a b n m. let c = nc_encrypt N (nc_precompute N a (nc_box_pk N b)) n m in
     MAC \<le> length c \<and> nc_decrypt N (nc_precompute N b (nc_box_pk N a)) n (take MAC c) (drop MAC c) = Some m)"

record identity =
  id_sign :: "byte list"
  id_bx :: "byte list"

definition from_secret_bytes :: "byte list \<Rightarrow> identity" where
  "from_secret_bytes b = \<lparr>id_sign = take 32 b, id_bx = drop 32 b\<rparr>"

definition secret_bytes :: "identity \<Rightarrow> byte list" where
  "secret_bytes i = id_sign i @ id_bx i"

definition sign_pk :: "nacl \<Rightarrow> identity \<Rightarrow> byte list" where
  "sign_pk N i = nc_sign_pk N (id_sign i)"

definition box_pk :: "nacl \<Rightarrow> identity \<Rightarrow> byte list" where
  "box_pk N i = nc_box_pk N (id_bx i)"

definition sign :: "nacl \<Rightarrow> identity \<Rightarrow> byte list \<Rightarrow> byte list" where
  "sign N i m = nc_sign N (id_sign i) m"

definition unseal :: "nacl \<Rightarrow> identity \<Rightarrow> byte list \<Rightarrow> wire_error + byte list" where
  "unseal N i b = (case nc_unseal N (id_bx i) b of None \<Rightarrow> Inl Decrypt | Some m \<Rightarrow> Inr m)"

definition precompute :: "nacl \<Rightarrow> identity \<Rightarrow> byte list \<Rightarrow> byte list" where
  "precompute N i pk = nc_precompute N (id_bx i) pk"

definition seal_to :: "nacl \<Rightarrow> byte list \<Rightarrow> byte list \<Rightarrow> byte list \<Rightarrow> byte list" where
  "seal_to N rng pk m = nc_seal N rng pk m"

definition verify :: "nacl \<Rightarrow> byte list \<Rightarrow> byte list \<Rightarrow> byte list \<Rightarrow> wire_error + unit" where
  "verify N pk m sg = (if nc_verify N pk m sg then Inr () else Inl Signature)"

definition verify_trailing :: "nacl \<Rightarrow> byte list \<Rightarrow> byte list \<Rightarrow> wire_error + byte list" where
  "verify_trailing N pk payload =
     (if length payload < SIG then Inl Short
      else let msg = take (length payload - SIG) payload; sg = drop (length payload - SIG) payload in
        (case verify N pk msg sg of Inl e \<Rightarrow> Inl e | Inr _ \<Rightarrow> Inr msg))"

abbreviation word_bytes :: "32 word \<Rightarrow> byte list" where
  "word_bytes w \<equiv> le_bytes 4 (unat w)"

fun nonce_words :: "nat \<Rightarrow> 32 word \<Rightarrow> 32 word list" where
  "nonce_words 0 nk = []"
| "nonce_words (Suc n) nk = (let word = feedback (nk - 42) in word # nonce_words n (NOT word))"

definition session_nonces :: "32 word \<Rightarrow> byte list \<Rightarrow> byte list \<times> byte list" where
  "session_nonces seed pk =
     (let pk7 = of_nat (le_nat (take 4 (drop 7 pk))) :: 32 word;
          nk = (seed - 42) XOR pk7;
          ws = nonce_words 6 nk
      in (concat (map word_bytes ws), concat (map (\<lambda>w. word_bytes (w XOR 0x57575757)) ws)))"

fun bump_loop :: "nat \<Rightarrow> byte list \<Rightarrow> byte list" where
  "bump_loop 0 n = n"
| "bump_loop (Suc k) n = (let w = (le_nat (take 4 n) + 1) mod 4294967296 in
     if w \<noteq> 0 then le_bytes 4 w @ drop 4 n else le_bytes 4 w @ bump_loop k (drop 4 n))"

definition bump_nonce :: "byte list \<Rightarrow> byte list" where
  "bump_nonce n = bump_loop 6 n"

record channel =
  ch_bx :: "byte list"
  ch_send_nonce :: "byte list"
  ch_recv_nonce :: "byte list"

definition new_channel :: "byte list \<Rightarrow> byte list \<Rightarrow> byte list \<Rightarrow> channel" where
  "new_channel bx s r = \<lparr>ch_bx = bx, ch_send_nonce = s, ch_recv_nonce = r\<rparr>"

definition encrypt :: "nacl \<Rightarrow> byte list \<Rightarrow> channel \<Rightarrow> byte list \<times> channel" where
  "encrypt N plain ch = (nc_encrypt N (ch_bx ch) (ch_send_nonce ch) plain,
     ch\<lparr>ch_send_nonce := bump_nonce (ch_send_nonce ch)\<rparr>)"

definition decrypt_in_place :: "nacl \<Rightarrow> byte list \<Rightarrow> channel \<Rightarrow> (wire_error + byte list) \<times> channel" where
  "decrypt_in_place N buf ch =
     (if length buf < MAC then (Inl Short, ch)
      else case nc_decrypt N (ch_bx ch) (ch_recv_nonce ch) (take MAC buf) (drop MAC buf) of
        None \<Rightarrow> (Inl Decrypt, ch)
      | Some body \<Rightarrow> (Inr body, ch\<lparr>ch_recv_nonce := bump_nonce (ch_recv_nonce ch)\<rparr>))"

fun encrypt_all :: "nacl \<Rightarrow> byte list list \<Rightarrow> channel \<Rightarrow> byte list list \<times> channel" where
  "encrypt_all N [] ch = ([], ch)"
| "encrypt_all N (m # ms) ch = (case encrypt N m ch of (b, ch1) \<Rightarrow>
     case encrypt_all N ms ch1 of (bs, ch2) \<Rightarrow> (b # bs, ch2))"

fun decrypt_all :: "nacl \<Rightarrow> byte list list \<Rightarrow> channel \<Rightarrow> (wire_error + byte list) list \<times> channel" where
  "decrypt_all N [] ch = ([], ch)"
| "decrypt_all N (b # bs) ch = (case decrypt_in_place N b ch of (m, ch1) \<Rightarrow>
     case decrypt_all N bs ch1 of (ms, ch2) \<Rightarrow> (m # ms, ch2))"

section \<open>The nonce is a counter\<close>

lemma le_nat_append: "le_nat (xs @ ys) = le_nat xs + 256 ^ length xs * le_nat ys"
  by (induction xs) (simp_all add: algebra_simps)

lemma bump_loop_counts:
  "length n = 4 * k \<Longrightarrow> length (bump_loop k n) = 4 * k \<and> le_nat (bump_loop k n) = (le_nat n + 1) mod 256 ^ (4 * k)"
proof (induction k arbitrary: n)
  case (Suc k)
  let ?a = "take 4 n" and ?b = "drop 4 n"
  have len: "length ?a = 4" "length ?b = 4 * k" using Suc.prems by simp_all
  have n: "le_nat n = le_nat ?a + 4294967296 * le_nat ?b"
    using le_nat_append [of ?a ?b] len(1) by simp
  have a: "le_nat ?a < 4294967296" using le_nat_lt [of ?a] len(1) by simp
  have b: "le_nat ?b < 256 ^ (4 * k)" using le_nat_lt [of ?b] len(2) by simp
  have pow: "(256 :: nat) ^ (4 * Suc k) = 4294967296 * 256 ^ (4 * k)" by (simp add: power_add)
  show ?case
  proof (cases "le_nat ?a + 1 < 4294967296")
    case True
    have "le_nat n + 1 < 4294967296 * (le_nat ?b + 1)" using n True by simp
    also have "\<dots> \<le> 4294967296 * 256 ^ (4 * k)" using b by (intro mult_left_mono) simp_all
    finally have "(le_nat n + 1) mod 256 ^ (4 * Suc k) = le_nat n + 1" unfolding pow by (rule mod_less)
    then show ?thesis using True len by (simp add: Let_def le_nat_append n)
  next
    case False
    then have "le_nat ?a + 1 = 4294967296" using a by simp
    then have "le_nat n + 1 = 4294967296 * (le_nat ?b + 1)" using n by simp
    then have "(le_nat n + 1) mod 256 ^ (4 * Suc k) = 4294967296 * ((le_nat ?b + 1) mod 256 ^ (4 * k))"
      by (simp only: pow mult_mod_right)
    then show ?thesis
      using Suc.IH [OF len(2)] \<open>le_nat ?a + 1 = 4294967296\<close> len by (simp add: Let_def le_nat_append)
  qed
qed simp

lemma bump_counts:
  assumes "length n = NONCE"
  shows "length (bump_nonce n) = NONCE" "le_nat (bump_nonce n) = (le_nat n + 1) mod 2 ^ 192"
  using bump_loop_counts [of n 6] assms by (simp_all add: bump_nonce_def)

lemma bump_steps:
  assumes "length n = NONCE"
  shows "length ((bump_nonce ^^ i) n) = NONCE \<and> le_nat ((bump_nonce ^^ i) n) = (le_nat n + i) mod 2 ^ 192"
proof (induction i)
  case 0
  then show ?case using assms le_nat_lt [of n] by simp
next
  case (Suc i)
  then show ?case using bump_counts [of "(bump_nonce ^^ i) n"] by (simp add: mod_simps)
qed

lemma length_nonce_words [simp]: "length (nonce_words n nk) = n"
  by (induction n arbitrary: nk) (simp_all add: Let_def)

lemma length_word_bytes_concat: "length (concat (map (\<lambda>w. word_bytes (f w)) ws)) = 4 * length ws"
  by (induction ws) simp_all

text \<open>The last word of a nonce decides its size; the mask of the other direction flips bit 30 of it and
  leaves bits 29 and 31, so the top three bits of the two nonces are exactly two apart.\<close>

lemma xor_mask_top:
  fixes w :: "32 word"
  defines "a \<equiv> unat w div 2 ^ 29" and "b \<equiv> unat (w XOR 0x57575757) div 2 ^ 29"
  shows "a < 8 \<and> b < 8 \<and> (b = a + 2 \<or> a = b + 2)"
proof -
  have top: "unat v div 2 ^ 29 = unat (drop_bit 29 v)" for v :: "32 word"
  proof -
    have "take_bit 32 (unat v) = unat v" using unsigned_less [of v] by (intro take_bit_nat_eq_self) simp
    then show ?thesis unfolding unsigned_drop_bit_eq by (simp add: drop_bit_eq_div)
  qed
  have a: "a = unat (drop_bit 29 w)" unfolding a_def by (rule top)
  have "b = unat (drop_bit 29 (w XOR 0x57575757))" unfolding b_def by (rule top)
  also have "drop_bit 29 (w XOR 0x57575757) = drop_bit 29 w XOR drop_bit 29 0x57575757" by (rule drop_bit_xor)
  also have "drop_bit 29 (0x57575757 :: 32 word) = 2" by simp
  finally have b: "b = unat (drop_bit 29 w XOR 2)" .
  have "unat w < 8 * 2 ^ 29" using unsigned_less [of w] by simp
  then have "a < 8" unfolding a_def by (rule less_mult_imp_div_less)
  then have "a \<in> {0, 1, 2, 3, 4, 5, 6, 7}" by auto
  moreover have "drop_bit 29 w = of_nat a" by (simp add: a)
  ultimately show ?thesis unfolding b by auto
qed

lemma concat_words_top:
  assumes "length ws = 6"
  shows "le_nat (concat (map (\<lambda>w. word_bytes (f w)) ws)) div 2 ^ 189 = unat (f (last ws)) div 2 ^ 29"
proof -
  let ?b = "\<lambda>ws. concat (map (\<lambda>w. word_bytes (f w)) ws)"
  have ws: "ws = butlast ws @ [last ws]" using assms by (intro append_butlast_last_id [symmetric]) auto
  have len: "length (?b (butlast ws)) = 20" using assms by (subst length_word_bytes_concat) simp
  have "?b ws = ?b (butlast ws) @ word_bytes (f (last ws))" by (subst ws) simp
  moreover have "le_nat (word_bytes v) = unat v" for v :: "32 word"
  proof -
    have "unat v < 256 ^ 4" using unsigned_less [of v] by simp
    then show ?thesis by simp
  qed
  ultimately have "le_nat (?b ws) = le_nat (?b (butlast ws)) + 2 ^ 160 * unat (f (last ws))"
    by (simp add: le_nat_append len)
  moreover have "le_nat (?b (butlast ws)) < 2 ^ 160" using le_nat_lt [of "?b (butlast ws)"] len by simp
  ultimately have "le_nat (?b ws) div 2 ^ 160 = unat (f (last ws))" by simp
  moreover have "le_nat (?b ws) div 2 ^ 189 = le_nat (?b ws) div 2 ^ 160 div 2 ^ 29"
    by (simp flip: div_mult2_eq)
  ultimately show ?thesis by simp
qed

lemma apart_mod_8:
  assumes "q < 8" "q' < 8" "q' = q + 2 \<or> q = q' + (2 :: nat)" "x \<in> {q mod 8, (q + 1) mod 8}" "y \<in> {q' mod 8, (q' + 1) mod 8}"
  shows "x \<noteq> y"
proof -
  have "q \<in> {0, 1, 2, 3, 4, 5, 6, 7}" using assms(1) by auto
  then show ?thesis using assms(2-5) by auto
qed

lemma apart_never_meet:
  fixes n m :: nat
  assumes "n div 2 ^ 189 < 8" "m div 2 ^ 189 < 8" "m div 2 ^ 189 = n div 2 ^ 189 + 2 \<or> n div 2 ^ 189 = m div 2 ^ 189 + 2"
    and "i < 2 ^ 188" "j < 2 ^ 188"
  shows "(n + i) mod 2 ^ 192 \<noteq> (m + j) mod 2 ^ 192"
proof -
  obtain q r where n: "n = 2 ^ 189 * q + r" "r < 2 ^ 189" "q = n div 2 ^ 189"
    by (metis mod_less_divisor mult_div_mod_eq zero_less_numeral zero_less_power)
  obtain q' r' where m: "m = 2 ^ 189 * q' + r'" "r' < 2 ^ 189" "q' = m div 2 ^ 189"
    by (metis mod_less_divisor mult_div_mod_eq zero_less_numeral zero_less_power)
  define top where "top x = x mod (2 ^ 192 :: nat) div 2 ^ 189" for x
  have top: "top (2 ^ 189 * q + r + i) \<in> {q mod 8, (q + 1) mod 8}" if "q < 8" "r < 2 ^ 189" "i < 2 ^ 188" for q r i :: nat
  proof -
    have "(2 ^ 189 * q + r + i) div 2 ^ 189 = q + (r + i) div 2 ^ 189" by (simp add: add.assoc)
    moreover have "(r + i) div 2 ^ 189 < 2" using that by (intro less_mult_imp_div_less) simp
    ultimately have "(2 ^ 189 * q + r + i) div 2 ^ 189 \<in> {q, q + 1}" by auto
    moreover have "top x = x div 2 ^ 189 mod 8" for x
      unfolding top_def by (simp add: mod_mult2_eq [of x "2 ^ 189" 8, simplified])
    ultimately show ?thesis by auto
  qed
  have "q < 8" "q' < 8" "q' = q + 2 \<or> q = q' + 2" using assms(1-3) n(3) m(3) by auto
  moreover have "top (n + i) \<in> {q mod 8, (q + 1) mod 8}" "top (m + j) \<in> {q' mod 8, (q' + 1) mod 8}"
    using top [of q r i] top [of q' r' j] n(1,2) m(1,2) assms(4,5) calculation(1,2) by simp_all
  ultimately have "top (n + i) \<noteq> top (m + j)" by (rule apart_mod_8)
  then show ?thesis by (metis top_def)
qed

lemma session_nonces_apart:
  assumes "session_nonces seed pk = (n, m)" "i < 2 ^ 188" "j < 2 ^ 188"
  shows "length n = NONCE \<and> length m = NONCE \<and> (bump_nonce ^^ i) n \<noteq> (bump_nonce ^^ j) m"
proof -
  obtain ws :: "32 word list" where ws: "length ws = 6" and n: "n = concat (map word_bytes ws)"
    and m: "m = concat (map (\<lambda>w. word_bytes (w XOR 0x57575757)) ws)"
    using assms(1) unfolding session_nonces_def Let_def by (auto intro: that [OF length_nonce_words])
  have len: "length n = NONCE" "length m = NONCE" using ws n m length_word_bytes_concat [of id ws] length_word_bytes_concat [of "\<lambda>w. w XOR 0x57575757" ws] by simp_all
  have "le_nat n div 2 ^ 189 = unat (last ws) div 2 ^ 29" "le_nat m div 2 ^ 189 = unat (last ws XOR 0x57575757) div 2 ^ 29"
    using concat_words_top [OF ws, of id] concat_words_top [OF ws, of "\<lambda>w. w XOR 0x57575757"] n m by simp_all
  then have "(le_nat n + i) mod 2 ^ 192 \<noteq> (le_nat m + j) mod 2 ^ 192"
    using xor_mask_top [of "last ws"] assms(2,3) by (intro apart_never_meet) auto
  then show ?thesis using len bump_steps [OF len(1), of i] bump_steps [OF len(2), of j] by metis
qed

section \<open>Properties\<close>

text \<open>
  No nonce is used twice in a session. Both directions of a channel box under the same shared key, so
  their nonces must never meet: the nonce is a 192-bit counter, it does not come round within
  \<^verbatim>\<open>2^192\<close> messages, and the two directions derived from one hello stay apart for the first
  \<^verbatim>\<open>2^188\<close> messages each way.
\<close>

theorem nonces_never_reused:
  assumes "session_nonces seed pk = (n, m)"
  shows "(i < j \<and> j < 2 ^ 192 \<longrightarrow> (bump_nonce ^^ i) n \<noteq> (bump_nonce ^^ j) n \<and> (bump_nonce ^^ i) m \<noteq> (bump_nonce ^^ j) m)
    \<and> (i < 2 ^ 188 \<and> j < 2 ^ 188 \<longrightarrow> (bump_nonce ^^ i) n \<noteq> (bump_nonce ^^ j) m)"
proof -
  have len: "length n = NONCE" "length m = NONCE" using session_nonces_apart [OF assms, of 0 0] by simp_all
  have "(bump_nonce ^^ i) x \<noteq> (bump_nonce ^^ j) x" if "length x = NONCE" "i < j" "j < 2 ^ 192" for x
  proof
    assume "(bump_nonce ^^ i) x = (bump_nonce ^^ j) x"
    then have "(le_nat x + i) mod 2 ^ 192 = (le_nat x + j) mod 2 ^ 192"
      using bump_steps [OF that(1), of i] bump_steps [OF that(1), of j] by simp
    then have "2 ^ 192 dvd j - i" using that(2) mod_eq_dvd_iff_nat [of "le_nat x + i" "le_nat x + j" "2 ^ 192"] by simp
    then show False using that(2,3) by (auto dest: dvd_imp_le)
  qed
  then show ?thesis using len session_nonces_apart [OF assms, of i j] by blast
qed

text \<open>
  An established channel carries any sequence of messages: what one end encrypts, in order, the other
  end decrypts to the same messages, and both ends stay on the same nonce.
\<close>

theorem channel_carries:
  assumes "box_law N" "ch_bx tx = nc_precompute N a (nc_box_pk N b)" "ch_bx rx = nc_precompute N b (nc_box_pk N a)"
    and "ch_send_nonce tx = ch_recv_nonce rx" "encrypt_all N ms tx = (bs, tx')"
  shows "\<exists>rx'. decrypt_all N bs rx = (map Inr ms, rx') \<and> ch_send_nonce tx' = ch_recv_nonce rx'"
  using assms
proof (induction ms arbitrary: tx rx bs)
  case (Cons m ms)
  let ?c = "nc_encrypt N (ch_bx tx) (ch_send_nonce tx) m"
  let ?tx = "tx\<lparr>ch_send_nonce := bump_nonce (ch_send_nonce tx)\<rparr>" and ?rx = "rx\<lparr>ch_recv_nonce := bump_nonce (ch_recv_nonce rx)\<rparr>"
  obtain bs1 where bs1: "encrypt_all N ms ?tx = (bs1, tx')" and bs: "bs = ?c # bs1"
    using Cons.prems(5) by (auto simp: encrypt_def split: prod.splits)
  have d: "decrypt_in_place N ?c rx = (Inr m, ?rx)"
    using Cons.prems(1-4) unfolding box_law_def Let_def decrypt_in_place_def by (simp add: not_less [symmetric])
  have "\<exists>rx'. decrypt_all N bs1 ?rx = (map Inr ms, rx') \<and> ch_send_nonce tx' = ch_recv_nonce rx'"
    by (rule Cons.IH [OF _ _ _ _ bs1]) (use Cons.prems in simp_all)
  then show ?case using d bs by auto
qed simp

definition plain_nacl :: nacl where
  "plain_nacl = \<lparr>nc_sign_pk = (\<lambda>_. replicate 32 0), nc_box_pk = (\<lambda>_. replicate 32 0), nc_sign = (\<lambda>_ _. replicate 64 0),
     nc_verify = (\<lambda>_ _ s. s = replicate 64 0), nc_seal = (\<lambda>_ _ m. m), nc_unseal = (\<lambda>_. Some), nc_precompute = (\<lambda>_ _. []),
     nc_encrypt = (\<lambda>_ _ m. replicate 16 0 @ m), nc_decrypt = (\<lambda>_ _ _ c. Some c)\<rparr>"

lemma plain_nacl_laws: "sign_law plain_nacl" "seal_law plain_nacl" "box_law plain_nacl"
  by (simp_all add: sign_law_def seal_law_def box_law_def plain_nacl_def Let_def)

theorem nonces_never_reused_witness:
  "(bump_nonce ^^ 3) (fst (session_nonces 7 (replicate 32 0))) \<noteq> (bump_nonce ^^ 5) (snd (session_nonces 7 (replicate 32 0)))"
  using nonces_never_reused [OF surjective_pairing, where i = 3 and j = 5] by simp

theorem channel_carries_witness:
  "\<exists>rx'. decrypt_all plain_nacl (fst (encrypt_all plain_nacl [[1], [2, 3]] (new_channel [] (replicate 24 0) (replicate 24 1))))
      (new_channel [] (replicate 24 1) (replicate 24 0)) = (map Inr [[1], [2, 3]], rx')"
  using channel_carries [OF plain_nacl_laws(3), where tx = "new_channel [] (replicate 24 0) (replicate 24 1)"
    and rx = "new_channel [] (replicate 24 1) (replicate 24 0)" and ms = "[[1], [2, 3]]", OF _ _ _ surjective_pairing]
  by (auto simp: new_channel_def plain_nacl_def)

end
