(* ===== verification/Wire_Handshake.thy ===== *)
theory Wire_Handshake
  imports Wire_Crypto
begin

text \<open>
  The two-message handshake, \<^verbatim>\<open>prime/wire/src/handshake.rs\<close>: parsing and checking a client hello, the
  server's reply, and the client-side builders the tools use.
\<close>

section \<open>Model\<close>

definition MAX_USER_AGENT :: nat where "MAX_USER_AGENT = 512"
definition MAX_MOTD :: nat where "MAX_MOTD = 511"
definition RESUME_TOKEN :: nat where "RESUME_TOKEN = 40"
definition RESUME_MARKER :: "byte list" where "RESUME_MARKER = [0x44, 0x52, 0x53, 0x01]"

datatype generation = Ocean | Convoy

record client_hello =
  he_identity_sign_pk :: "byte list"
  he_identity_box_pk :: "byte list"
  he_session_sign_pk :: "byte list"
  he_session_box_pk :: "byte list"
  he_user_agent :: "byte list"
  he_seed :: u32
  he_generation :: generation
  he_resume_token :: "byte list option"

definition to_ascii_lowercase :: "byte list \<Rightarrow> byte list" where
  "to_ascii_lowercase = map (\<lambda>b. if in_range 65 90 b then b + 32 else b)"

fun contains :: "byte list \<Rightarrow> byte list \<Rightarrow> bool" where
  "contains n [] \<longleftrightarrow> n = []"
| "contains n (b # bs) \<longleftrightarrow> take (length n) (b # bs) = n \<or> contains n bs"

definition is_split_gateway :: "byte list \<Rightarrow> bool" where
  "is_split_gateway ua \<longleftrightarrow> (let u = to_ascii_lowercase ua in
     take (length (ascii ''lazarus-gateway'')) u = ascii ''lazarus-gateway'' \<or> contains (ascii ''lazarus-split'') u)"

definition rd_extension :: "(generation \<times> byte list option) reader" where
  "rd_extension c =
     (if remaining c \<ge> 5 \<and> take 4 (drop (cu_pos c) (cu_buf c)) = RESUME_MARKER then
        rbind (take_c 4) (\<lambda>_. rbind rd_u8 (\<lambda>f.
          if f = 1 then rbind (rd_array RESUME_TOKEN) (\<lambda>t. rret (Convoy, Some t)) else rret (Convoy, None))) c
      else Inr ((Ocean, None), c))"

definition rd_hello :: "byte list \<Rightarrow> client_hello reader" where
  "rd_hello identity_sign_pk =
     rbind (take_c 32) (\<lambda>_. rbind (rd_array 32) (\<lambda>identity_box_pk. rbind (rd_array 32) (\<lambda>session_sign_pk.
     rbind (rd_array 32) (\<lambda>session_box_pk. rbind (cstr MAX_USER_AGENT) (\<lambda>ua. rbind rd_u8 (\<lambda>sep.
     if sep \<noteq> 0xFE then rfail (Malformed ''hello separator'')
     else rbind rd_u32 (\<lambda>seed. rbind rd_extension (\<lambda>(generation, resume_token).
       rret \<lparr>he_identity_sign_pk = identity_sign_pk, he_identity_box_pk = identity_box_pk,
         he_session_sign_pk = session_sign_pk, he_session_box_pk = session_box_pk,
         he_user_agent = from_utf8_lossy ua, he_seed = seed, he_generation = generation,
         he_resume_token = resume_token\<rparr>))))))))"

definition parse_client_hello :: "nacl \<Rightarrow> identity \<Rightarrow> byte list \<Rightarrow> wire_error + client_hello" where
  "parse_client_hello N pool sealed = (case unseal N pool sealed of Inl e \<Rightarrow> Inl e
     | Inr plain \<Rightarrow>
         if length plain < 4 * 32 + SIG then Inl Short
         else let identity_sign_pk = take 32 plain in
           (case verify_trailing N identity_sign_pk plain of Inl e \<Rightarrow> Inl e
            | Inr body \<Rightarrow> parsed (rd_hello identity_sign_pk) body))"

definition convoy_hello_extension :: "byte list option \<Rightarrow> byte list" where
  "convoy_hello_extension tok = RESUME_MARKER @ (case tok of Some t \<Rightarrow> 1 # t | None \<Rightarrow> [0])"

definition server_hello_body :: "nacl \<Rightarrow> identity \<Rightarrow> client_hello \<Rightarrow> byte list \<Rightarrow> byte list" where
  "server_hello_body N session hello motd =
     he_identity_sign_pk hello @ he_identity_box_pk hello @ he_session_sign_pk hello @ he_session_box_pk hello
     @ sign_pk N session @ box_pk N session @ take (min (length motd) MAX_MOTD) motd @ [0]"

definition build_server_hello :: "nacl \<Rightarrow> byte list \<Rightarrow> identity \<Rightarrow> identity \<Rightarrow> client_hello \<Rightarrow> byte list \<Rightarrow> byte list" where
  "build_server_hello N rng pool session hello motd =
     (let m = server_hello_body N session hello motd in
      seal_to N rng (he_session_box_pk hello) (m @ sign N pool m))"

definition client_hello_body :: "nacl \<Rightarrow> identity \<Rightarrow> identity \<Rightarrow> byte list \<Rightarrow> u32 \<Rightarrow> byte list \<Rightarrow> byte list" where
  "client_hello_body N identity session user_agent seed pad =
     sign_pk N identity @ box_pk N identity @ sign_pk N session @ box_pk N session
     @ user_agent @ 0 # 0xFE # le_bytes 4 seed @ pad"

definition build_client_hello ::
  "nacl \<Rightarrow> byte list \<Rightarrow> byte list \<Rightarrow> identity \<Rightarrow> identity \<Rightarrow> byte list \<Rightarrow> u32 \<Rightarrow> byte list \<Rightarrow> byte list" where
  "build_client_hello N rng pool_box_pk identity session user_agent seed pad =
     (let m = client_hello_body N identity session user_agent seed pad in
      seal_to N rng pool_box_pk (m @ sign N identity m))"

definition parse_server_hello ::
  "nacl \<Rightarrow> byte list \<Rightarrow> identity \<Rightarrow> byte list \<Rightarrow> wire_error + (byte list \<times> byte list \<times> byte list)" where
  "parse_server_hello N pool_sign_pk session sealed = (case unseal N session sealed of Inl e \<Rightarrow> Inl e
     | Inr plain \<Rightarrow> (case verify_trailing N pool_sign_pk plain of Inl e \<Rightarrow> Inl e
        | Inr body \<Rightarrow> parsed (rbind (take_c 128) (\<lambda>_. rbind (rd_array 32) (\<lambda>ssk. rbind (rd_array 32) (\<lambda>sbk.
            rbind (cstr MAX_MOTD) (\<lambda>motd. rret (ssk, sbk, from_utf8_lossy motd)))))) body))"

section \<open>Lemmas\<close>

lemma key_lengths [simp]:
  assumes "sign_law N" "seal_law N"
  shows "length (sign_pk N i) = 32" "length (box_pk N i) = 32" "length (sign N i m) = 64"
  using assms by (simp_all add: sign_law_def seal_law_def sign_pk_def box_pk_def sign_def)

lemma unseal_seal: "seal_law N \<Longrightarrow> unseal N i (seal_to N r (box_pk N i) m) = Inr m"
  by (simp add: seal_law_def unseal_def seal_to_def box_pk_def)

lemma verify_signed: "sign_law N \<Longrightarrow> verify_trailing N (sign_pk N i) (m @ sign N i m) = Inr m"
  by (simp add: verify_trailing_def verify_def Let_def sign_law_def sign_pk_def sign_def)

lemma verify_trailing_Inr:
  "verify_trailing N pk p = Inr m \<Longrightarrow> \<exists>sg. p = m @ sg \<and> length sg = SIG \<and> nc_verify N pk m sg"
  by (auto simp: verify_trailing_def verify_def Let_def split: if_splits intro!: exI [of _ "drop (length p - SIG) p"])

lemma rd_extension_convoy:
  "length t = RESUME_TOKEN \<Longrightarrow>
     rd_extension (at_c pre (convoy_hello_extension (Some t) @ rest)) = Inr ((Convoy, Some t), at_c (pre @ convoy_hello_extension (Some t)) rest)"
  "rd_extension (at_c pre (convoy_hello_extension None @ rest)) = Inr ((Convoy, None), at_c (pre @ convoy_hello_extension None) rest)"
proof -
  have 4: "take_c 4 (at_c pre (RESUME_MARKER @ xs)) = Inr (RESUME_MARKER, at_c (pre @ RESUME_MARKER) xs)" for xs
    by (rule take_c_reads) (simp add: RESUME_MARKER_def)
  have len: "length RESUME_MARKER = 4" by (simp add: RESUME_MARKER_def)
  have at: "drop (cu_pos (at_c pre xs)) (cu_buf (at_c pre xs)) = xs" for xs by (simp add: at_c_def)
  show "length t = RESUME_TOKEN \<Longrightarrow>
     rd_extension (at_c pre (convoy_hello_extension (Some t) @ rest)) = Inr ((Convoy, Some t), at_c (pre @ convoy_hello_extension (Some t)) rest)"
    "rd_extension (at_c pre (convoy_hello_extension None @ rest)) = Inr ((Convoy, None), at_c (pre @ convoy_hello_extension None) rest)"
    by (simp_all add: rd_extension_def convoy_hello_extension_def 4 at len RESUME_TOKEN_def)
qed

lemma rd_extension_ocean:
  "take 4 rest \<noteq> RESUME_MARKER \<Longrightarrow> rd_extension (at_c pre rest) = Inr ((Ocean, None), at_c pre rest)"
  by (simp add: rd_extension_def at_c_def)

definition hello_of ::
  "nacl \<Rightarrow> identity \<Rightarrow> identity \<Rightarrow> byte list \<Rightarrow> u32 \<Rightarrow> generation \<Rightarrow> byte list option \<Rightarrow> client_hello" where
  "hello_of N identity session ua seed g tok = \<lparr>he_identity_sign_pk = sign_pk N identity, he_identity_box_pk = box_pk N identity,
     he_session_sign_pk = sign_pk N session, he_session_box_pk = box_pk N session,
     he_user_agent = ua, he_seed = seed, he_generation = g, he_resume_token = tok\<rparr>"

text \<open>The hello a client builds, for any pad the extension reader accepts.\<close>

lemma hello_reads:
  assumes "sign_law N" "seal_law N" "0 \<notin> set ua" "length ua \<le> MAX_USER_AGENT" "seed \<le> u32_max"
    and ext: "\<And>pre. rd_extension (at_c pre pad) = Inr ((g, tok), c' pre)"
  shows "parse_client_hello N pool (build_client_hello N rng (box_pk N pool) identity session ua seed pad)
    = Inr (hello_of N identity session (from_utf8_lossy ua) seed g tok)"
proof -
  let ?m = "client_hello_body N identity session ua seed pad"
  have len: "length (?m @ sign N identity ?m) \<ge> 4 * 32 + SIG" and pk: "take 32 (?m @ sign N identity ?m) = sign_pk N identity"
    using assms(1,2) by (simp_all add: client_hello_body_def)
  have "parsed (rd_hello (sign_pk N identity)) ?m = Inr (hello_of N identity session (from_utf8_lossy ua) seed g tok)"
    using assms(1-5) ext by (simp add: parsed_def rd_hello_def client_hello_body_def hello_of_def)
  then show ?thesis
    using len pk assms(1,2) by (simp add: parse_client_hello_def build_client_hello_def unseal_seal verify_signed Let_def)
qed

section \<open>Properties\<close>

text \<open>
  A hello reads back as it was built. For any identities, user agent, seed and pad, the pool recovers
  the four public keys, the user agent, the seed, and the generation: Convoy with its resume token when the
  pad opens with the extension, Ocean when it does not open with the marker.
\<close>

theorem client_hello_roundtrip:
  assumes "sign_law N" "seal_law N" "0 \<notin> set ua" "is_utf8 ua" "length ua \<le> MAX_USER_AGENT" "seed \<le> u32_max"
  shows "(take 4 pad \<noteq> RESUME_MARKER \<longrightarrow>
      parse_client_hello N pool (build_client_hello N rng (box_pk N pool) identity session ua seed pad) = Inr (hello_of N identity session ua seed Ocean None))
    \<and> ((\<forall>t. tok = Some t \<longrightarrow> length t = RESUME_TOKEN) \<longrightarrow>
      parse_client_hello N pool (build_client_hello N rng (box_pk N pool) identity session ua seed (convoy_hello_extension tok @ pad))
        = Inr (hello_of N identity session ua seed Convoy tok))"
proof (intro conjI impI)
  assume "take 4 pad \<noteq> RESUME_MARKER"
  then show "parse_client_hello N pool (build_client_hello N rng (box_pk N pool) identity session ua seed pad) = Inr (hello_of N identity session ua seed Ocean None)"
    using hello_reads [OF assms(1,2,3,5,6) rd_extension_ocean] assms(4) by simp
next
  assume "\<forall>t. tok = Some t \<longrightarrow> length t = RESUME_TOKEN"
  then have "rd_extension (at_c pre (convoy_hello_extension tok @ pad)) = Inr ((Convoy, tok), at_c (pre @ convoy_hello_extension tok) pad)" for pre
    by (cases tok) (simp_all add: rd_extension_convoy)
  from hello_reads [OF assms(1,2,3,5,6) this]
  show "parse_client_hello N pool (build_client_hello N rng (box_pk N pool) identity session ua seed (convoy_hello_extension tok @ pad))
      = Inr (hello_of N identity session ua seed Convoy tok)"
    using assms(4) by simp
qed

text \<open>
  C24. An accepted hello is authentic. Whatever bytes arrive, a hello is accepted only when they unseal to a
  message signed, over everything before the signature, by the identity key it names, and the keys in the
  hello are the ones that were signed.
\<close>

theorem client_hello_authentic:
  assumes "parse_client_hello N pool sealed = Inr h"
  shows "\<exists>body sg. unseal N pool sealed = Inr (body @ sg) \<and> nc_verify N (he_identity_sign_pk h) body sg \<and> length sg = SIG
    \<and> take 128 body = he_identity_sign_pk h @ he_identity_box_pk h @ he_session_sign_pk h @ he_session_box_pk h"
proof -
  obtain plain body where plain: "unseal N pool sealed = Inr plain" "128 + SIG \<le> length plain"
    and body: "verify_trailing N (take 32 plain) plain = Inr body" and h: "parsed (rd_hello (take 32 plain)) body = Inr h"
    using assms by (auto simp: parse_client_hello_def Let_def split: sum.splits if_splits)
  obtain sg where sg: "plain = body @ sg" "length sg = SIG" "nc_verify N (take 32 plain) body sg"
    using verify_trailing_Inr [OF body] by blast
  obtain x0 c0 x1 c1 x2 c2 x3 c3 where
    "take_c 32 (at_c [] body) = Inr (x0, c0)" "take_c 32 c0 = Inr (x1, c1)" "take_c 32 c1 = Inr (x2, c2)" "take_c 32 c2 = Inr (x3, c3)"
    and hs: "he_identity_sign_pk h = take 32 plain" "he_identity_box_pk h = x1" "he_session_sign_pk h = x2" "he_session_box_pk h = x3"
    using h by (auto simp: parsed_def rd_hello_def rd_array_def rbind_Inr_iff rret_def rfail_def split: sum.splits prod.splits if_splits)
  then obtain r where "body = x0 @ x1 @ x2 @ x3 @ r" "length x0 = 32" "length x1 = 32" "length x2 = 32" "length x3 = 32"
    by (elim take_c_inv [elim_format] exE conjE) (auto dest!: take_c_inv)
  then have "take 128 body = he_identity_sign_pk h @ he_identity_box_pk h @ he_session_sign_pk h @ he_session_box_pk h"
    using hs sg(1) by simp
  then show ?thesis using plain sg hs(1) by auto
qed

text \<open>
  The gateway reads the server's reply: the reply to an accepted hello unseals with the gateway's
  session key, verifies under the pool's long-term key, and gives the server's two session keys and the
  message of the day, cut at 511 bytes.
\<close>

theorem server_hello_roundtrip:
  assumes "sign_law N" "seal_law N" "0 \<notin> set motd"
    and "he_session_box_pk hello = box_pk N gateway_session" "length (he_identity_sign_pk hello) = 32"
    "length (he_identity_box_pk hello) = 32" "length (he_session_sign_pk hello) = 32"
  shows "parse_server_hello N (sign_pk N pool) gateway_session (build_server_hello N rng pool session hello motd)
    = Inr (sign_pk N session, box_pk N session, from_utf8_lossy (take MAX_MOTD motd))"
proof -
  let ?m = "server_hello_body N session hello motd"
  let ?keys = "he_identity_sign_pk hello @ he_identity_box_pk hello @ he_session_sign_pk hello @ he_session_box_pk hello"
  have m: "?m = ?keys @ sign_pk N session @ box_pk N session @ take MAX_MOTD motd @ 0 # []"
    by (simp add: server_hello_body_def min_def)
  have keys: "take_c 128 (at_c [] (?keys @ r)) = Inr (?keys, at_c ([] @ ?keys) r)" for r
    by (rule take_c_reads) (use assms in simp)
  have "0 \<notin> set (take MAX_MOTD motd)" using assms(3) by (meson in_set_takeD)
  then have "cstr MAX_MOTD (at_c pre (take MAX_MOTD motd @ 0 # [])) = Inr (take MAX_MOTD motd, at_c (pre @ take MAX_MOTD motd @ [0]) [])" for pre
    by (intro cstr_reads) simp_all
  then show ?thesis
    using assms(1,2,4) keys
    by (simp add: parse_server_hello_def build_server_hello_def Let_def unseal_seal verify_signed m parsed_def del: append_assoc)
qed

theorem client_hello_roundtrip_witness:
  "parse_client_hello plain_nacl (from_secret_bytes []) (build_client_hello plain_nacl [] (box_pk plain_nacl (from_secret_bytes []))
      (from_secret_bytes []) (from_secret_bytes []) [0x76] 7 [9, 9])
    = Inr (hello_of plain_nacl (from_secret_bytes []) (from_secret_bytes []) [0x76] 7 Ocean None)"
  using client_hello_roundtrip [OF plain_nacl_laws(1,2), where ua = "[0x76]" and seed = 7 and pad = "[9, 9]"]
  by (simp add: char_width_def valid_part_def MAX_USER_AGENT_def RESUME_MARKER_def)

theorem client_hello_authentic_witness:
  "\<exists>body sg. unseal plain_nacl (from_secret_bytes []) (build_client_hello plain_nacl [] (box_pk plain_nacl (from_secret_bytes []))
      (from_secret_bytes []) (from_secret_bytes []) [0x76] 7 [9, 9]) = Inr (body @ sg) \<and> length sg = SIG"
proof -
  have "parse_client_hello plain_nacl (from_secret_bytes []) (build_client_hello plain_nacl [] (box_pk plain_nacl (from_secret_bytes []))
      (from_secret_bytes []) (from_secret_bytes []) [0x76] 7 [9, 9])
    = Inr (hello_of plain_nacl (from_secret_bytes []) (from_secret_bytes []) (from_utf8_lossy [0x76]) 7 Ocean None)"
    by (rule hello_reads [OF plain_nacl_laws(1,2) _ _ _ rd_extension_ocean]) (simp_all add: MAX_USER_AGENT_def RESUME_MARKER_def)
  from client_hello_authentic [OF this] show ?thesis by blast
qed

theorem server_hello_roundtrip_witness:
  "parse_server_hello plain_nacl (sign_pk plain_nacl (from_secret_bytes [])) (from_secret_bytes [])
     (build_server_hello plain_nacl [] (from_secret_bytes []) (from_secret_bytes [])
       (hello_of plain_nacl (from_secret_bytes []) (from_secret_bytes []) [0x76] 7 Ocean None) [0x68, 0x69])
    = Inr (sign_pk plain_nacl (from_secret_bytes []), box_pk plain_nacl (from_secret_bytes []), from_utf8_lossy (take MAX_MOTD [0x68, 0x69]))"
  by (rule server_hello_roundtrip [OF plain_nacl_laws(1,2)]) (simp_all add: hello_of_def plain_nacl_laws)

end
