(* ===== verification/Wire_Mining.thy ===== *)
theory Wire_Mining
  imports Wire_Cursor
begin

text \<open>
  Command 5, \<^verbatim>\<open>prime/wire/src/mining.rs\<close>: the mining sub-commands in both directions. A share submission is
  \<open>pow_submit\<close>, its optional sections records of their own; \<open>pow_loop\<close> is the section loop of
  \<^verbatim>\<open>PowSubmit::decode\<close>. Everything the pool sends is a list of bytes.
\<close>

unbundle bit_operations_syntax

section \<open>Numbers of the protocol\<close>

definition SUB_COINBASER_REQUEST :: nat where "SUB_COINBASER_REQUEST = 0x10"
definition SUB_COINBASER_REPLY :: nat where "SUB_COINBASER_REPLY = 0x11"
definition SUB_POW :: nat where "SUB_POW = 0x27"
definition SUB_JOB_VALIDATION :: nat where "SUB_JOB_VALIDATION = 0x50"
definition SUB_SHARE_RECEIPT :: nat where "SUB_SHARE_RECEIPT = 0x8F"
definition SUB_CONFIGURE :: nat where "SUB_CONFIGURE = 0x99"
definition SUB_BLOCK_NOTIFY :: nat where "SUB_BLOCK_NOTIFY = 0xF9"
definition FLAG_BLOCK :: nat where "FLAG_BLOCK = 0x01"
definition FLAG_SUBSIDY_ONLY :: nat where "FLAG_SUBSIDY_ONLY = 0x02"
definition FLAG_QUICKDIFF :: nat where "FLAG_QUICKDIFF = 0x04"
definition FLAG_BLAKE2B :: nat where "FLAG_BLAKE2B = 0x08"
definition END_MARK :: nat where "END_MARK = 0xFE"
definition MAX_USERNAME :: nat where "MAX_USERNAME = 384"
definition EXTRANONCE_LEN :: nat where "EXTRANONCE_LEN = 12"
definition MAX_JOB_SLOTS :: nat where "MAX_JOB_SLOTS = 256"
definition RESERVED_USE_TIME_OFFSET :: nat where "RESERVED_USE_TIME_OFFSET = 0x01"
definition POW_ALGO_BLAKE2B :: nat where "POW_ALGO_BLAKE2B = 1"
definition ACCEPTED :: nat where "ACCEPTED = 0x50"
definition ACCEPTED_TENTATIVELY :: nat where "ACCEPTED_TENTATIVELY = 0x55"
definition REJECTED :: nat where "REJECTED = 0x66"
definition REJECT_BAD_JOB_ID :: u16 where "REJECT_BAD_JOB_ID = 10"
definition REJECT_BAD_COINBASE_ID :: u16 where "REJECT_BAD_COINBASE_ID = 11"
definition REJECT_BAD_EXTRANONCE_SIZE :: u16 where "REJECT_BAD_EXTRANONCE_SIZE = 12"
definition REJECT_BAD_TARGET :: u16 where "REJECT_BAD_TARGET = 13"
definition REJECT_BAD_USERNAME :: u16 where "REJECT_BAD_USERNAME = 14"
definition REJECT_BAD_COINBASER_ID :: u16 where "REJECT_BAD_COINBASER_ID = 15"
definition REJECT_BAD_MERKLE_COUNT :: u16 where "REJECT_BAD_MERKLE_COUNT = 16"
definition REJECT_COINBASE_TOO_LARGE :: u16 where "REJECT_COINBASE_TOO_LARGE = 17"
definition REJECT_COINBASE_MISSING :: u16 where "REJECT_COINBASE_MISSING = 18"
definition REJECT_TARGET_MISMATCH :: u16 where "REJECT_TARGET_MISMATCH = 19"
definition REJECT_H_NOT_ZERO :: u16 where "REJECT_H_NOT_ZERO = 20"
definition REJECT_HIGH_HASH :: u16 where "REJECT_HIGH_HASH = 21"
definition REJECT_COINBASE_ID_MISMATCH :: u16 where "REJECT_COINBASE_ID_MISMATCH = 22"
definition REJECT_BAD_NTIME :: u16 where "REJECT_BAD_NTIME = 23"
definition REJECT_BAD_VERSION :: u16 where "REJECT_BAD_VERSION = 24"
definition REJECT_STALE_BLOCK :: u16 where "REJECT_STALE_BLOCK = 25"
definition REJECT_BAD_COINBASE :: u16 where "REJECT_BAD_COINBASE = 26"
definition REJECT_BAD_COINBASE_OUTPUTS :: u16 where "REJECT_BAD_COINBASE_OUTPUTS = 27"
definition REJECT_MISSING_POOL_TAG :: u16 where "REJECT_MISSING_POOL_TAG = 28"
definition REJECT_DUPLICATE_WORK :: u16 where "REJECT_DUPLICATE_WORK = 29"
definition REJECT_OTHER :: u16 where "REJECT_OTHER = 30"

definition reject_name :: "u16 \<Rightarrow> string" where
  "reject_name code = (
     if code = REJECT_BAD_JOB_ID then ''bad-job-id''
     else if code = REJECT_BAD_COINBASE_ID then ''bad-coinbase-id''
     else if code = REJECT_BAD_EXTRANONCE_SIZE then ''bad-extranonce-size''
     else if code = REJECT_BAD_TARGET then ''bad-target''
     else if code = REJECT_BAD_USERNAME then ''bad-username''
     else if code = REJECT_BAD_COINBASER_ID then ''bad-coinbaser-id''
     else if code = REJECT_BAD_MERKLE_COUNT then ''bad-merkle-count''
     else if code = REJECT_COINBASE_TOO_LARGE then ''coinbase-too-large''
     else if code = REJECT_COINBASE_MISSING then ''coinbase-missing''
     else if code = REJECT_TARGET_MISMATCH then ''target-mismatch''
     else if code = REJECT_H_NOT_ZERO then ''h-not-zero''
     else if code = REJECT_HIGH_HASH then ''high-hash''
     else if code = REJECT_COINBASE_ID_MISMATCH then ''coinbase-id-mismatch''
     else if code = REJECT_BAD_NTIME then ''bad-ntime''
     else if code = REJECT_BAD_VERSION then ''bad-version''
     else if code = REJECT_STALE_BLOCK then ''stale''
     else if code = REJECT_BAD_COINBASE then ''bad-coinbase''
     else if code = REJECT_BAD_COINBASE_OUTPUTS then ''bad-coinbase-outputs''
     else if code = REJECT_MISSING_POOL_TAG then ''missing-pool-tag''
     else if code = REJECT_DUPLICATE_WORK then ''duplicate''
     else ''other'')"

lemmas mining_numbers = SUB_COINBASER_REQUEST_def SUB_POW_def SUB_JOB_VALIDATION_def END_MARK_def
  MAX_USERNAME_def EXTRANONCE_LEN_def POW_ALGO_BLAKE2B_def

section \<open>Client to server\<close>

record coinbaser_request =
  rq_value :: u64
  rq_prev_hash :: "byte list"

record job_section =
  jb_prev_hash :: "byte list"
  jb_target_byte_index :: u16
  jb_nbits :: "byte list"
  jb_coinbaser_id :: u8
  jb_height :: u32
  jb_coinbase_value :: u64
  jb_txn_count :: u32
  jb_txn_total_weight :: u32
  jb_txn_total_size :: u32
  jb_txn_total_sigops :: u32
  jb_merkle_branches :: "byte list list"

definition nbits_u32 :: "job_section \<Rightarrow> u32" where
  "nbits_u32 j = le_nat (jb_nbits j)"

record coinbase_section =
  cs_coinbase_id :: u8
  cs_coinb1 :: "byte list"
  cs_coinb2 :: "byte list"

record blake2b_section =
  bl_ntime :: "byte list"
  bl_nonce :: "byte list"

record pow_submit =
  ps_job_id :: u8
  ps_coinbase_id :: u8
  ps_flags :: u8
  ps_target_pot :: u8
  ps_ntime32 :: u32
  ps_nonce32 :: u32
  ps_version :: u32
  ps_extranonce :: "byte list"
  ps_username :: "byte list"
  ps_reserved :: "byte list"
  ps_blake2b :: "blake2b_section option"
  ps_time_on_wire :: "u32 option"
  ps_job :: "job_section option"
  ps_coinbase :: "coinbase_section option"

definition is_block :: "pow_submit \<Rightarrow> bool" where
  "is_block s \<longleftrightarrow> ps_flags s AND FLAG_BLOCK \<noteq> 0"

definition subsidy_only :: "pow_submit \<Rightarrow> bool" where
  "subsidy_only s \<longleftrightarrow> ps_flags s AND FLAG_SUBSIDY_ONLY \<noteq> 0"

definition quickdiff :: "pow_submit \<Rightarrow> bool" where
  "quickdiff s \<longleftrightarrow> ps_flags s AND FLAG_QUICKDIFF \<noteq> 0"

definition is_blake2b :: "pow_submit \<Rightarrow> bool" where
  "is_blake2b s \<longleftrightarrow> ps_flags s AND FLAG_BLAKE2B \<noteq> 0 \<or> ps_blake2b s \<noteq> None"

definition use_time_offset :: "pow_submit \<Rightarrow> bool" where
  "use_time_offset s \<longleftrightarrow> unat (ps_reserved s ! 0) AND RESERVED_USE_TIME_OFFSET \<noteq> 0"

definition claimed_work :: "pow_submit \<Rightarrow> u64" where
  "claimed_work s = (if ps_target_pot s \<ge> 64 then u64_max else 2 ^ ps_target_pot s)"

definition write_blake2b :: "u32 option \<Rightarrow> blake2b_section \<Rightarrow> byte list" where
  "write_blake2b t b = 0x03 # of_nat POW_ALGO_BLAKE2B # bl_ntime b @ bl_nonce b
     @ (case t of Some t \<Rightarrow> 0x04 # le_bytes 4 t | None \<Rightarrow> [])"

definition write_job :: "job_section \<Rightarrow> byte list" where
  "write_job j = 0x01 # jb_prev_hash j @ le_bytes 2 (jb_target_byte_index j) @ jb_nbits j @ of_nat (jb_coinbaser_id j)
     # le_bytes 4 (jb_height j) @ le_bytes 8 (jb_coinbase_value j) @ le_bytes 4 (jb_txn_count j)
     @ le_bytes 4 (jb_txn_total_weight j) @ le_bytes 4 (jb_txn_total_size j) @ le_bytes 4 (jb_txn_total_sigops j)
     @ of_nat (length (jb_merkle_branches j)) # concat (jb_merkle_branches j)"

definition write_coinbase_section :: "coinbase_section \<Rightarrow> byte list" where
  "write_coinbase_section c = 0x02 # of_nat (cs_coinbase_id c) # le_bytes 2 (length (cs_coinb1 c))
     @ le_bytes 2 (length (cs_coinb2 c)) @ cs_coinb1 c @ cs_coinb2 c"

definition encode_pow :: "pow_submit \<Rightarrow> byte list" where
  "encode_pow s = of_nat SUB_POW # of_nat (ps_job_id s) # of_nat (ps_coinbase_id s) # of_nat (ps_flags s) # of_nat (ps_target_pot s)
     # le_bytes 4 (ps_ntime32 s) @ le_bytes 4 (ps_nonce32 s) @ le_bytes 4 (ps_version s) @ of_nat EXTRANONCE_LEN
     # ps_extranonce s @ take (min (length (ps_username s)) MAX_USERNAME) (ps_username s) @ 0 # ps_reserved s
     @ (case ps_blake2b s of Some b \<Rightarrow> write_blake2b (ps_time_on_wire s) b | None \<Rightarrow> [])
     @ (case ps_job s of Some j \<Rightarrow> write_job j | None \<Rightarrow> [])
     @ (case ps_coinbase s of Some c \<Rightarrow> write_coinbase_section c | None \<Rightarrow> [])
     @ [of_nat END_MARK]"

definition rd_blake2b :: "blake2b_section reader" where
  "rd_blake2b = rbind rd_u8 (\<lambda>a. if a \<noteq> POW_ALGO_BLAKE2B then rfail (Malformed ''pow algorithm'')
     else rbind (rd_array 8) (\<lambda>ntime. rbind (rd_array 8) (\<lambda>nonce. rret \<lparr>bl_ntime = ntime, bl_nonce = nonce\<rparr>)))"

definition rd_job :: "job_section reader" where
  "rd_job = rbind (rd_array 32) (\<lambda>prev_hash. rbind rd_u16 (\<lambda>target_byte_index. rbind (rd_array 4) (\<lambda>nbits.
     rbind rd_u8 (\<lambda>coinbaser_id. rbind rd_u32 (\<lambda>height. rbind rd_u64 (\<lambda>coinbase_value. rbind rd_u32 (\<lambda>txn_count.
     rbind rd_u32 (\<lambda>txn_total_weight. rbind rd_u32 (\<lambda>txn_total_size. rbind rd_u32 (\<lambda>txn_total_sigops.
     rbind rd_u8 (\<lambda>n. rbind (rd_times n (rd_array 32)) (\<lambda>merkle_branches.
     rret \<lparr>jb_prev_hash = prev_hash, jb_target_byte_index = target_byte_index, jb_nbits = nbits,
       jb_coinbaser_id = coinbaser_id, jb_height = height, jb_coinbase_value = coinbase_value,
       jb_txn_count = txn_count, jb_txn_total_weight = txn_total_weight, jb_txn_total_size = txn_total_size,
       jb_txn_total_sigops = txn_total_sigops, jb_merkle_branches = merkle_branches\<rparr>))))))))))))"

definition rd_coinbase_section :: "coinbase_section reader" where
  "rd_coinbase_section = rbind rd_u8 (\<lambda>i. rbind rd_u16 (\<lambda>l1. rbind rd_u16 (\<lambda>l2.
     rbind (take_c l1) (\<lambda>coinb1. rbind (take_c l2) (\<lambda>coinb2.
     rret \<lparr>cs_coinbase_id = i, cs_coinb1 = coinb1, cs_coinb2 = coinb2\<rparr>)))))"

text \<open>One turn of the section loop after the section byte.\<close>

definition rd_section :: "u8 \<Rightarrow> pow_submit \<Rightarrow> pow_submit reader" where
  "rd_section k s =
     (if k = 0x03 then rbind rd_blake2b (\<lambda>b. rret (s\<lparr>ps_blake2b := Some b\<rparr>))
      else if k = 0x04 then rbind rd_u32 (\<lambda>t. rret (s\<lparr>ps_time_on_wire := Some t\<rparr>))
      else if k = 0x01 then rbind rd_job (\<lambda>j. rret (s\<lparr>ps_job := Some j\<rparr>))
      else if k = 0x02 then rbind rd_coinbase_section (\<lambda>c. rret (s\<lparr>ps_coinbase := Some c\<rparr>))
      else rfail (Malformed ''pow section''))"

lemma reader_section [reader_intros]: "reader (rd_section k s)"
  unfolding rd_section_def rd_blake2b_def rd_job_def rd_coinbase_section_def by (intro reader_intros)

function pow_loop :: "pow_submit \<Rightarrow> pow_submit reader" where
  "pow_loop s c = (case rd_u8 c of Inl e \<Rightarrow> Inl e
     | Inr (k, c1) \<Rightarrow> if k = END_MARK then Inr (s, c1)
        else (case rd_section k s c1 of Inl e \<Rightarrow> Inl e | Inr (s', c2) \<Rightarrow> pow_loop s' c2))"
  by pat_completeness auto
termination
  by (relation "measure (\<lambda>(s, c). remaining c)")
    (auto dest!: rd_u8_shrinks reader.shrinks [OF reader_section])

declare pow_loop.simps [simp del]

definition rd_pow :: "pow_submit reader" where
  "rd_pow = rbind rd_u8 (\<lambda>job_id. rbind rd_u8 (\<lambda>coinbase_id. rbind rd_u8 (\<lambda>flags. rbind rd_u8 (\<lambda>target_pot.
     rbind rd_u32 (\<lambda>ntime32. rbind rd_u32 (\<lambda>nonce32. rbind rd_u32 (\<lambda>version. rbind rd_u8 (\<lambda>el.
     if el \<noteq> EXTRANONCE_LEN then rfail (Malformed ''extranonce size'')
     else rbind (rd_array EXTRANONCE_LEN) (\<lambda>extranonce. rbind (cstr MAX_USERNAME) (\<lambda>username. rbind (rd_array 4) (\<lambda>reserved.
     pow_loop \<lparr>ps_job_id = job_id, ps_coinbase_id = coinbase_id, ps_flags = flags, ps_target_pot = target_pot,
       ps_ntime32 = ntime32, ps_nonce32 = nonce32, ps_version = version, ps_extranonce = extranonce,
       ps_username = from_utf8_lossy username, ps_reserved = reserved, ps_blake2b = None, ps_time_on_wire = None,
       ps_job = None, ps_coinbase = None\<rparr>)))))))))))"

definition decode_pow :: "byte list \<Rightarrow> wire_error + pow_submit" where
  "decode_pow body = parsed rd_pow body"

datatype validation_status = ValidationOk | ValidationError u8

datatype job_validation_reply =
    ShortIds u8 validation_status "u64 list" "byte list option"
  | Transactions u8 validation_status "byte list list"
  | FullBlock u8 validation_status "byte list list"

definition read_status :: "validation_status reader" where
  "read_status = rbind rd_u8 (\<lambda>e. rret (if e = 0x01 then ValidationOk else ValidationError e))"

definition rd_txn :: "byte list reader" where
  "rd_txn = rbind rd_u16 (\<lambda>lo. rbind rd_u8 (\<lambda>hi. take_c (lo + 65536 * hi)))"

definition read_txn_list :: "byte list list reader" where
  "read_txn_list = rbind rd_u16 (\<lambda>n. rd_times n rd_txn)"

definition rd_short_id :: "u64 reader" where
  "rd_short_id = rbind rd_u32 (\<lambda>lo. rbind rd_u16 (\<lambda>hi. rret (lo + 4294967296 * hi)))"

definition rd_job_validation :: "job_validation_reply reader" where
  "rd_job_validation = rbind rd_u8 (\<lambda>kind. rbind rd_u8 (\<lambda>job. rbind read_status (\<lambda>status.
     if kind = 0x90 then
       (if status \<noteq> ValidationOk then rret (ShortIds job status [] None)
        else rbind rd_u16 (\<lambda>n. rbind (rd_times n rd_short_id) (\<lambda>ids.
          if n > 0 then rbind (rd_array 32) (\<lambda>x. rret (ShortIds job status ids (Some x)))
          else rret (ShortIds job status ids None))))
     else if kind = 0x91 then
       (if status = ValidationOk then rbind read_txn_list (\<lambda>txns. rret (Transactions job status txns))
        else rret (Transactions job status []))
     else if kind = 0x92 then
       (if status = ValidationOk then rbind read_txn_list (\<lambda>txns. rret (FullBlock job status txns))
        else rret (FullBlock job status []))
     else rfail (Malformed ''job validation kind''))))"

definition decode_job_validation :: "byte list \<Rightarrow> wire_error + job_validation_reply" where
  "decode_job_validation body = parsed rd_job_validation body"

fun reply_job :: "job_validation_reply \<Rightarrow> u8" where
  "reply_job (ShortIds job _ _ _) = job"
| "reply_job (Transactions job _ _) = job"
| "reply_job (FullBlock job _ _) = job"

datatype client_msg =
    CoinbaserRequest coinbaser_request
  | Pow pow_submit
  | JobValidation job_validation_reply
  | Unknown u8

definition rd_coinbaser_request :: "coinbaser_request reader" where
  "rd_coinbaser_request = rbind rd_u64 (\<lambda>value. rbind (rd_array 32) (\<lambda>prev_hash. rbind rd_u8 (\<lambda>e.
     if e \<noteq> END_MARK then rfail (Malformed ''coinbaser request'')
     else rret \<lparr>rq_value = value, rq_prev_hash = prev_hash\<rparr>)))"

definition parse_client :: "byte list \<Rightarrow> wire_error + client_msg" where
  "parse_client payload = (case payload of [] \<Rightarrow> Inl Short
     | b # body \<Rightarrow>
        let sub = unat b in
        if sub = SUB_COINBASER_REQUEST then map_sum id CoinbaserRequest (parsed rd_coinbaser_request body)
        else if sub = SUB_POW then map_sum id Pow (decode_pow body)
        else if sub = SUB_JOB_VALIDATION then map_sum id JobValidation (decode_job_validation body)
        else Inr (Unknown sub))"

section \<open>Server to client\<close>

definition CONFIG_FLAG_ABW_DISABLED :: nat where "CONFIG_FLAG_ABW_DISABLED = 0x01"
definition RESUME_TOKEN_LEN :: nat where "RESUME_TOKEN_LEN = 40"
definition MAX_CONFIG_POOL_SCRIPT :: nat where "MAX_CONFIG_POOL_SCRIPT = 83"
definition MAX_CONFIG_TAG :: nat where "MAX_CONFIG_TAG = 81"

definition configure_v1 :: "byte list \<Rightarrow> u32 \<Rightarrow> byte list \<Rightarrow> u64 \<Rightarrow> byte list" where
  "configure_v1 pool_script prime_id tag vardiff_min =
     of_nat SUB_CONFIGURE # 1 # of_nat (length pool_script) # pool_script @ le_bytes 4 prime_id
     @ of_nat (length tag) # tag @ le_bytes 8 vardiff_min @ [0, of_nat END_MARK]"

definition configure_v3 :: "byte list \<Rightarrow> u64 \<Rightarrow> byte list \<Rightarrow> byte list \<Rightarrow> u64 \<Rightarrow> byte list" where
  "configure_v3 pool_script prime_id resume_token tag vardiff_min =
     of_nat SUB_CONFIGURE # 3 # of_nat (length pool_script) # pool_script @ le_bytes 8 prime_id @ resume_token
     @ of_nat (length tag) # tag @ le_bytes 8 vardiff_min @ [of_nat CONFIG_FLAG_ABW_DISABLED, of_nat END_MARK]"

definition coinbaser_reply :: "u64 \<Rightarrow> byte list \<Rightarrow> byte list" where
  "coinbaser_reply value coinbaser_v2 =
     of_nat SUB_COINBASER_REPLY # le_bytes 8 value @ le_bytes 4 (length coinbaser_v2) @ coinbaser_v2"

definition share_receipt :: "u8 \<Rightarrow> u16 \<Rightarrow> u32 \<Rightarrow> u8 \<Rightarrow> u8 \<Rightarrow> byte list" where
  "share_receipt status reason nonce32 target_pot job_id =
     [of_nat SUB_SHARE_RECEIPT, of_nat status] @ le_bytes 2 reason @ le_bytes 4 nonce32 @ [of_nat target_pot, of_nat job_id]"

definition request_short_ids :: "u8 \<Rightarrow> byte list" where
  "request_short_ids job = [of_nat SUB_JOB_VALIDATION, 0x10, of_nat job]"

definition request_transactions :: "u8 \<Rightarrow> u16 list \<Rightarrow> byte list" where
  "request_transactions job indexes = [of_nat SUB_JOB_VALIDATION, 0x11, of_nat job]
     @ le_bytes 2 (length indexes) @ concat (map (le_bytes 2) indexes)"

definition request_full_block :: "u8 \<Rightarrow> byte list" where
  "request_full_block job = [of_nat SUB_JOB_VALIDATION, 0x12, of_nat job]"

definition block_notify :: "byte list" where
  "block_notify = [of_nat SUB_BLOCK_NOTIFY]"

section \<open>Lemmas\<close>

lemma reader_loop [reader_intros]: "reader (pow_loop s)"
proof
  fix c v c' assume "pow_loop s c = Inr (v, c')"
  then show "cu_buf c' = cu_buf c \<and> cu_pos c \<le> cu_pos c'"
  proof (induction s c rule: pow_loop.induct)
    case (1 s c)
    obtain k c1 where k: "rd_u8 c = Inr (k, c1)" using "1.prems" by (subst (asm) pow_loop.simps) (auto split: sum.splits)
    note fw = reader.forward [OF reader_ints(1) k]
    show ?case
    proof (cases "k = END_MARK")
      case True
      then show ?thesis using "1.prems" k fw by (subst (asm) pow_loop.simps) auto
    next
      case False
      then obtain s1 c2 where s1: "rd_section k s c1 = Inr (s1, c2)" and 2: "pow_loop s1 c2 = Inr (v, c')"
        using "1.prems" k by (subst (asm) pow_loop.simps) (auto split: sum.splits)
      show ?thesis using "1.IH" [OF k refl False s1 refl 2] fw reader.forward [OF reader_section s1] by simp
    qed
  qed
next
  fix pre rest v c' assume "pow_loop s (at_c pre rest) = Inr (v, c')"
  then show "\<exists>x r. rest = x @ r \<and> c' = at_c (pre @ x) r \<and> (\<forall>pre' r'. pow_loop s (at_c pre' (x @ r')) = Inr (v, at_c (pre' @ x) r'))"
  proof (induction "length rest" arbitrary: s pre rest rule: less_induct)
    case less
    obtain b r where rest: "rest = b # r" using less.prems by (cases rest) (auto simp: pow_loop.simps)
    show ?case
    proof (cases "unat b = END_MARK")
      case True
      then show ?thesis using less.prems rest
        by (intro exI [of _ "[b]"] exI [of _ r]) (simp add: pow_loop.simps)
    next
      case False
      then obtain s1 c1 where 1: "rd_section (unat b) s (at_c (pre @ [b]) r) = Inr (s1, c1)" and 2: "pow_loop s1 c1 = Inr (v, c')"
        using less.prems rest by (subst (asm) pow_loop.simps) (auto split: sum.splits)
      from reader.local [OF reader_section 1] obtain x r1 where x: "r = x @ r1" "c1 = at_c ((pre @ [b]) @ x) r1"
        "\<And>pre' r'. rd_section (unat b) s (at_c pre' (x @ r')) = Inr (s1, at_c (pre' @ x) r')" by blast
      have "length r1 < length rest" using rest x(1) by simp
      from less.hyps [OF this 2 [unfolded x(2)]] obtain y r2 where y: "r1 = y @ r2" "c' = at_c (((pre @ [b]) @ x) @ y) r2"
        "\<And>pre' r'. pow_loop s1 (at_c pre' (y @ r')) = Inr (v, at_c (pre' @ y) r')" by blast
      have "pow_loop s (at_c pre' ((b # x @ y) @ r')) = Inr (v, at_c (pre' @ b # x @ y) r')" for pre' r'
        using False by (subst pow_loop.simps) (simp add: x(3) y(3))
      then show ?thesis using rest x(1) y(1,2) by (intro exI [of _ "b # x @ y"] exI [of _ r2]) simp
    qed
  qed
qed

lemma reader_pow [reader_intros]: "reader rd_pow"
  unfolding rd_pow_def by (intro reader_intros)

lemma reader_job_validation [reader_intros]: "reader rd_job_validation"
  unfolding rd_job_validation_def read_status_def read_txn_list_def rd_txn_def rd_short_id_def by (intro reader_intros)

lemma reader_coinbaser_request [reader_intros]: "reader rd_coinbaser_request"
  unfolding rd_coinbaser_request_def by (intro reader_intros)

lemma pow_loop_end: "pow_loop s (at_c pre (of_nat END_MARK # rest)) = Inr (s, at_c (pre @ [of_nat END_MARK]) rest)"
  by (subst pow_loop.simps) (simp add: END_MARK_def)

lemma pow_loop_section:
  "rd_section (unat k) s (at_c (pre @ [k]) (x @ rest)) = Inr (s', at_c (pre @ k # x) rest) \<Longrightarrow> unat k \<noteq> END_MARK \<Longrightarrow>
   pow_loop s (at_c pre (k # x @ rest)) = pow_loop s' (at_c (pre @ k # x) rest)"
  by (subst pow_loop.simps) simp

definition job_ok :: "job_section \<Rightarrow> bool" where
  "job_ok j \<longleftrightarrow> length (jb_prev_hash j) = 32 \<and> jb_target_byte_index j \<le> u16_max \<and> length (jb_nbits j) = 4 \<and> jb_coinbaser_id j < 256
     \<and> jb_height j \<le> u32_max \<and> jb_coinbase_value j \<le> u64_max \<and> jb_txn_count j \<le> u32_max \<and> jb_txn_total_weight j \<le> u32_max
     \<and> jb_txn_total_size j \<le> u32_max \<and> jb_txn_total_sigops j \<le> u32_max \<and> length (jb_merkle_branches j) < 256
     \<and> (\<forall>b \<in> set (jb_merkle_branches j). length b = 32)"

definition coinbase_section_ok :: "coinbase_section \<Rightarrow> bool" where
  "coinbase_section_ok c \<longleftrightarrow> cs_coinbase_id c < 256 \<and> length (cs_coinb1 c) \<le> u16_max \<and> length (cs_coinb2 c) \<le> u16_max"

definition blake2b_ok :: "blake2b_section \<Rightarrow> bool" where
  "blake2b_ok b \<longleftrightarrow> length (bl_ntime b) = 8 \<and> length (bl_nonce b) = 8"

text \<open>A submission whose fields fit their wire widths; the time on the wire travels with a BLAKE2b section.\<close>

definition pow_ok :: "pow_submit \<Rightarrow> bool" where
  "pow_ok s \<longleftrightarrow> ps_job_id s < 256 \<and> ps_coinbase_id s < 256 \<and> ps_flags s < 256 \<and> ps_target_pot s < 256
     \<and> ps_ntime32 s \<le> u32_max \<and> ps_nonce32 s \<le> u32_max \<and> ps_version s \<le> u32_max
     \<and> length (ps_extranonce s) = EXTRANONCE_LEN \<and> 0 \<notin> set (ps_username s) \<and> length (ps_username s) \<le> MAX_USERNAME
     \<and> is_utf8 (ps_username s) \<and> length (ps_reserved s) = 4 \<and> pred_option blake2b_ok (ps_blake2b s)
     \<and> pred_option (\<lambda>t. t \<le> u32_max) (ps_time_on_wire s) \<and> (ps_blake2b s = None \<longrightarrow> ps_time_on_wire s = None)
     \<and> pred_option job_ok (ps_job s) \<and> pred_option coinbase_section_ok (ps_coinbase s)"

lemma loop_blake2b:
  assumes "pred_option blake2b_ok ob" "pred_option (\<lambda>t. t \<le> u32_max) ot" "ob = None \<longrightarrow> ot = None"
    "ps_blake2b s = None" "ps_time_on_wire s = None"
  shows "\<exists>pre'. pow_loop s (at_c pre ((case ob of Some b \<Rightarrow> write_blake2b ot b | None \<Rightarrow> []) @ rest))
    = pow_loop (s\<lparr>ps_blake2b := ob, ps_time_on_wire := ot\<rparr>) (at_c pre' rest)"
proof (cases ob)
  case None
  then show ?thesis using assms by (intro exI [of _ pre]) (cases s, simp)
next
  case (Some b)
  have 1: "pow_loop s (at_c pre (0x03 # (of_nat POW_ALGO_BLAKE2B # bl_ntime b @ bl_nonce b) @ r))
      = pow_loop (s\<lparr>ps_blake2b := Some b\<rparr>) (at_c (pre @ 0x03 # of_nat POW_ALGO_BLAKE2B # bl_ntime b @ bl_nonce b) r)" for r
    using assms(1) Some by (intro pow_loop_section) (simp_all add: rd_section_def rd_blake2b_def blake2b_ok_def mining_numbers)
  show ?thesis
  proof (cases ot)
    case None
    have "s\<lparr>ps_blake2b := Some b, ps_time_on_wire := None\<rparr> = s\<lparr>ps_blake2b := Some b\<rparr>" using assms(5) by (cases s) simp
    then show ?thesis using 1 Some None
      by (intro exI [of _ "pre @ 3 # word_of_nat POW_ALGO_BLAKE2B # bl_ntime b @ bl_nonce b"]) (simp add: write_blake2b_def)
  next
    case (Some t)
    have "pow_loop s' (at_c p (0x04 # le_bytes 4 t @ rest)) = pow_loop (s'\<lparr>ps_time_on_wire := Some t\<rparr>) (at_c (p @ 0x04 # le_bytes 4 t) rest)" for s' p
      using assms(2) Some by (intro pow_loop_section) (simp_all add: rd_section_def mining_numbers)
    then show ?thesis using 1 [of "0x04 # le_bytes 4 t @ rest"] Some \<open>ob = Some b\<close> by (intro exI) (simp add: write_blake2b_def)
  qed
qed

lemma loop_job:
  assumes "pred_option job_ok oj" "ps_job s = None"
  shows "\<exists>pre'. pow_loop s (at_c pre ((case oj of Some j \<Rightarrow> write_job j | None \<Rightarrow> []) @ rest)) = pow_loop (s\<lparr>ps_job := oj\<rparr>) (at_c pre' rest)"
proof (cases oj)
  case None
  then show ?thesis using assms by (intro exI [of _ pre]) (cases s, simp)
next
  case (Some j)
  have times: "rd_times (length (jb_merkle_branches j)) (rd_array 32) (at_c p (concat (jb_merkle_branches j) @ r))
      = Inr (jb_merkle_branches j, at_c (p @ concat (jb_merkle_branches j)) r)" for p r
    using rd_times_reads [of "jb_merkle_branches j" "rd_array 32" "\<lambda>x. x" p r] assms(1) Some by (simp add: job_ok_def)
  have "pow_loop s (at_c pre (0x01 # tl (write_job j) @ rest)) = pow_loop (s\<lparr>ps_job := Some j\<rparr>) (at_c (pre @ 0x01 # tl (write_job j)) rest)"
    using assms(1) Some
    by (intro pow_loop_section) (simp_all add: rd_section_def rd_job_def write_job_def job_ok_def END_MARK_def times)
  then show ?thesis using Some by (intro exI) (simp add: write_job_def)
qed

lemma loop_coinbase:
  assumes "pred_option coinbase_section_ok oc" "ps_coinbase s = None"
  shows "\<exists>pre'. pow_loop s (at_c pre ((case oc of Some c \<Rightarrow> write_coinbase_section c | None \<Rightarrow> []) @ rest))
    = pow_loop (s\<lparr>ps_coinbase := oc\<rparr>) (at_c pre' rest)"
proof (cases oc)
  case None
  then show ?thesis using assms by (intro exI [of _ pre]) (cases s, simp)
next
  case (Some c)
  have "pow_loop s (at_c pre (0x02 # tl (write_coinbase_section c) @ rest))
      = pow_loop (s\<lparr>ps_coinbase := Some c\<rparr>) (at_c (pre @ 0x02 # tl (write_coinbase_section c)) rest)"
    using assms(1) Some
    by (intro pow_loop_section)
      (simp_all add: rd_section_def rd_coinbase_section_def write_coinbase_section_def coinbase_section_ok_def END_MARK_def)
  then show ?thesis using Some by (intro exI) (simp add: write_coinbase_section_def)
qed

lemma pow_reads:
  assumes "pow_ok s"
  shows "decode_pow (tl (encode_pow s) @ pad) = Inr s"
proof -
  let ?s0 = "s\<lparr>ps_blake2b := None, ps_time_on_wire := None, ps_job := None, ps_coinbase := None\<rparr>"
  let ?b = "case ps_blake2b s of Some b \<Rightarrow> write_blake2b (ps_time_on_wire s) b | None \<Rightarrow> []"
  let ?j = "case ps_job s of Some j \<Rightarrow> write_job j | None \<Rightarrow> []"
  let ?c = "case ps_coinbase s of Some c \<Rightarrow> write_coinbase_section c | None \<Rightarrow> []"
  have loop: "\<exists>c'. pow_loop ?s0 (at_c pre (?b @ ?j @ ?c @ of_nat END_MARK # pad)) = Inr (s, c')" for pre
  proof -
    obtain p1 where 1: "pow_loop ?s0 (at_c pre (?b @ ?j @ ?c @ of_nat END_MARK # pad))
        = pow_loop (?s0\<lparr>ps_blake2b := ps_blake2b s, ps_time_on_wire := ps_time_on_wire s\<rparr>) (at_c p1 (?j @ ?c @ of_nat END_MARK # pad))"
      using loop_blake2b [of "ps_blake2b s" "ps_time_on_wire s" ?s0 pre] assms by (auto simp: pow_ok_def)
    obtain p2 where 2: "pow_loop (?s0\<lparr>ps_blake2b := ps_blake2b s, ps_time_on_wire := ps_time_on_wire s\<rparr>) (at_c p1 (?j @ ?c @ of_nat END_MARK # pad))
        = pow_loop (?s0\<lparr>ps_blake2b := ps_blake2b s, ps_time_on_wire := ps_time_on_wire s, ps_job := ps_job s\<rparr>) (at_c p2 (?c @ of_nat END_MARK # pad))"
      using loop_job [of "ps_job s" "?s0\<lparr>ps_blake2b := ps_blake2b s, ps_time_on_wire := ps_time_on_wire s\<rparr>" p1] assms by (auto simp: pow_ok_def)
    obtain p3 where 3: "pow_loop (?s0\<lparr>ps_blake2b := ps_blake2b s, ps_time_on_wire := ps_time_on_wire s, ps_job := ps_job s\<rparr>) (at_c p2 (?c @ of_nat END_MARK # pad))
        = pow_loop (?s0\<lparr>ps_blake2b := ps_blake2b s, ps_time_on_wire := ps_time_on_wire s, ps_job := ps_job s, ps_coinbase := ps_coinbase s\<rparr>) (at_c p3 (of_nat END_MARK # pad))"
      using loop_coinbase [of "ps_coinbase s" "?s0\<lparr>ps_blake2b := ps_blake2b s, ps_time_on_wire := ps_time_on_wire s, ps_job := ps_job s\<rparr>" p2] assms
      by (auto simp: pow_ok_def)
    show ?thesis unfolding 1 2 3 by (simp add: pow_loop_end)
  qed
  have "\<exists>pre. rd_pow (at_c [] (tl (encode_pow s) @ pad)) = pow_loop ?s0 (at_c pre (?b @ ?j @ ?c @ of_nat END_MARK # pad))"
    using assms unfolding rd_pow_def encode_pow_def pow_ok_def
    by (cases s) (rule exI, simp add: EXTRANONCE_LEN_def)
  then obtain pre where "rd_pow (at_c [] (tl (encode_pow s) @ pad)) = pow_loop ?s0 (at_c pre (?b @ ?j @ ?c @ of_nat END_MARK # pad))" ..
  moreover obtain c' where "pow_loop ?s0 (at_c pre (?b @ ?j @ ?c @ of_nat END_MARK # pad)) = Inr (s, c')" using loop by blast
  ultimately show ?thesis by (simp add: decode_pow_def parsed_def)
qed

lemma take_c_eats: "take_c n c = Inr (x, c') \<Longrightarrow> remaining c' + n = remaining c \<and> length x = n"
  by (auto simp: take_c_def remaining_def split: if_splits)

lemma ints_eat:
  "rd_u8 c = Inr (v, c') \<Longrightarrow> remaining c' + 1 = remaining c" "rd_u16 c = Inr (v, c') \<Longrightarrow> remaining c' + 2 = remaining c"
  "rd_u32 c = Inr (v, c') \<Longrightarrow> remaining c' + 4 = remaining c"
  by (auto simp: rd_u8_def rd_u16_def rd_u32_def rbind_Inr_iff rret_def dest: take_c_eats)

lemma rd_txn_eats: "rd_txn c = Inr (x, c') \<Longrightarrow> remaining c' + (length x + 3) \<le> remaining c"
  by (auto simp: rd_txn_def rbind_Inr_iff dest!: ints_eat take_c_eats)

lemma rd_short_id_eats: "rd_short_id c = Inr (x, c') \<Longrightarrow> remaining c' + 6 \<le> remaining c"
  by (auto simp: rd_short_id_def rbind_Inr_iff rret_def dest!: ints_eat)

lemma rd_times_eat:
  assumes "\<And>c x c'. p c = Inr (x, c') \<Longrightarrow> remaining c' + w x \<le> remaining c"
  shows "rd_times n p c = Inr (xs, c') \<Longrightarrow> remaining c' + sum_list (map w xs) \<le> remaining c"
proof (induction n arbitrary: c xs)
  case (Suc n)
  then show ?case using assms by (fastforce simp: rbind_Inr_iff rret_def)
qed (simp add: rret_def)

lemma read_txn_list_eats:
  "read_txn_list c = Inr (txns, c') \<Longrightarrow> sum_list (map length txns) + 3 * length txns \<le> remaining c"
proof -
  assume "read_txn_list c = Inr (txns, c')"
  then obtain n c1 where "rd_u16 c = Inr (n, c1)" "rd_times n rd_txn c1 = Inr (txns, c')" by (auto simp: read_txn_list_def rbind_Inr_iff)
  then have "remaining c' + sum_list (map (\<lambda>x. length x + 3) txns) \<le> remaining c"
    using rd_times_eat [of rd_txn "\<lambda>x. length x + 3", OF rd_txn_eats] ints_eat(2) by fastforce
  then show ?thesis by (simp add: sum_list_addf sum_list_triv)
qed

section \<open>Properties\<close>

text \<open>
  A share submission reads back as it was written. Whatever sections it carries and whatever random
  padding follows the terminator, the pool's parser recovers the submission a gateway encoded.
\<close>

theorem pow_roundtrip:
  assumes "pow_ok s"
  shows "parse_client (encode_pow s @ pad) = Inr (Pow s)"
proof -
  have "encode_pow s = of_nat SUB_POW # tl (encode_pow s)" by (simp add: encode_pow_def)
  then have "encode_pow s @ pad = of_nat SUB_POW # tl (encode_pow s) @ pad" by (metis append_Cons)
  then show ?thesis using pow_reads [OF assms] unfolding \<open>encode_pow s @ pad = _\<close>
    by (simp add: parse_client_def mining_numbers)
qed

text \<open>
  Padding is ignored: a message the parser accepts means the same whatever bytes follow it.
\<close>

theorem client_padding_ignored:
  assumes "parse_client payload = Inr m"
  shows "parse_client (payload @ pad) = Inr m"
proof -
  obtain b body where p: "payload = b # body" using assms by (cases payload) (auto simp: parse_client_def)
  have "map_sum id f (parsed r body) = Inr m \<Longrightarrow> map_sum id f (parsed r (body @ pad)) = Inr m" if "reader r" for r :: "'a reader" and f
    using reader.padding_ignored [OF that, of body _ pad] by (cases "parsed r body") auto
  note pads = this [OF reader_coinbaser_request] this [OF reader_pow] this [OF reader_job_validation]
  show ?thesis
    using assms unfolding p by (auto simp: parse_client_def Let_def decode_pow_def decode_job_validation_def intro: pads split: if_splits)
qed

text \<open>
  A reply cannot claim more than it brings: the transactions decoded from a job-validation reply, each
  with its three length bytes, fit in the bytes that arrived, and so do the short ids.
\<close>

theorem reply_within_bytes:
  assumes "decode_job_validation body = Inr reply"
  shows "case reply of ShortIds _ _ ids _ \<Rightarrow> 6 * length ids \<le> length body
    | Transactions _ _ txns \<Rightarrow> sum_list (map length txns) + 3 * length txns \<le> length body
    | FullBlock _ _ txns \<Rightarrow> sum_list (map length txns) + 3 * length txns \<le> length body"
proof -
  obtain kind c1 job c2 status c3 c' where "rd_u8 (at_c [] body) = Inr (kind, c1)" "rd_u8 c1 = Inr (job, c2)"
    and st: "read_status c2 = Inr (status, c3)"
    and r: "(if kind = 0x90 then
       (if status \<noteq> ValidationOk then rret (ShortIds job status [] None)
        else rbind rd_u16 (\<lambda>n. rbind (rd_times n rd_short_id) (\<lambda>ids.
          if n > 0 then rbind (rd_array 32) (\<lambda>x. rret (ShortIds job status ids (Some x)))
          else rret (ShortIds job status ids None))))
     else if kind = 0x91 then
       (if status = ValidationOk then rbind read_txn_list (\<lambda>txns. rret (Transactions job status txns))
        else rret (Transactions job status []))
     else if kind = 0x92 then
       (if status = ValidationOk then rbind read_txn_list (\<lambda>txns. rret (FullBlock job status txns))
        else rret (FullBlock job status []))
     else rfail (Malformed ''job validation kind'')) c3 = Inr (reply, c')"
    using assms unfolding decode_job_validation_def parsed_def rd_job_validation_def
    by (auto simp: rbind_Inr_iff split: sum.splits)
  have "reader read_status" unfolding read_status_def by (intro reader_intros)
  from reader.shrinks [OF this st] have len: "remaining c3 \<le> length body"
    using ints_eat(1) [OF \<open>rd_u8 (at_c [] body) = _\<close>] ints_eat(1) [OF \<open>rd_u8 c1 = _\<close>] by simp
  have ids: "6 * length ids \<le> length body" if "rd_u16 c3 = Inr (n, c4)" "rd_times n rd_short_id c4 = Inr (ids, c5)" for n c4 ids c5
  proof -
    have "remaining c5 + sum_list (map (\<lambda>_. 6) ids) \<le> remaining c4" using rd_short_id_eats by (rule rd_times_eat [OF _ that(2)])
    then show ?thesis using ints_eat(2) [OF that(1)] len by (simp add: sum_list_triv)
  qed
  show ?thesis
    using r len ids by (auto simp: rbind_Inr_iff rret_def rfail_def split: if_splits dest!: read_txn_list_eats)
qed

definition ex_pow :: pow_submit where
  "ex_pow = \<lparr>ps_job_id = 3, ps_coinbase_id = 1, ps_flags = 8, ps_target_pot = 20, ps_ntime32 = 1, ps_nonce32 = 2, ps_version = 3,
     ps_extranonce = replicate 12 7, ps_username = [0x61, 0x2e, 0x62], ps_reserved = replicate 4 0,
     ps_blake2b = Some \<lparr>bl_ntime = replicate 8 1, bl_nonce = replicate 8 2\<rparr>, ps_time_on_wire = Some 5, ps_job = None,
     ps_coinbase = Some \<lparr>cs_coinbase_id = 1, cs_coinb1 = [1, 2], cs_coinb2 = [3]\<rparr>\<rparr>"

lemma ex_pow_ok: "pow_ok ex_pow"
  by (simp add: pow_ok_def ex_pow_def mining_numbers blake2b_ok_def coinbase_section_ok_def char_width_def valid_part_def)

theorem pow_roundtrip_witness: "parse_client (encode_pow ex_pow @ [1, 2, 3]) = Inr (Pow ex_pow)"
  by (rule pow_roundtrip [OF ex_pow_ok])

theorem client_padding_ignored_witness: "parse_client ([0x99] @ [1, 2, 3]) = Inr (Unknown 0x99)"
  by (rule client_padding_ignored) (simp add: parse_client_def Let_def mining_numbers)

theorem reply_within_bytes_witness:
  "decode_job_validation (0x91 # 4 # 1 # le_bytes 2 1 @ le_bytes 2 2 @ 0 # [9, 9] @ []) = Inr (Transactions 4 ValidationOk [[9, 9]])
    \<and> 2 + 3 * 1 \<le> length (0x91 # 4 # 1 # le_bytes 2 1 @ le_bytes 2 2 @ 0 # [9, 9] @ [])"
proof
  have "rd_txn (at_c pre (le_bytes 2 2 @ 0 # [9, 9] @ [])) = Inr ([9, 9], at_c (pre @ le_bytes 2 2 @ [0, 9, 9]) [])" for pre
    by (simp add: rd_txn_def take_c_at)
  then have "read_txn_list (at_c pre (le_bytes 2 1 @ le_bytes 2 2 @ 0 # [9, 9] @ [])) = Inr ([[9, 9]], at_c (pre @ le_bytes 2 1 @ le_bytes 2 2 @ [0, 9, 9]) [])" for pre
    using rd_u16_reads [of 1 pre "le_bytes 2 2 @ 0 # [9, 9] @ []"] by (simp add: read_txn_list_def)
  then show r: "decode_job_validation (0x91 # 4 # 1 # le_bytes 2 1 @ le_bytes 2 2 @ 0 # [9, 9] @ []) = Inr (Transactions 4 ValidationOk [[9, 9]])"
    by (simp add: decode_job_validation_def parsed_def rd_job_validation_def read_status_def)
  show "2 + 3 * 1 \<le> length (0x91 # 4 # 1 # le_bytes 2 1 @ le_bytes 2 2 @ 0 # [9, 9] @ [])" using reply_within_bytes [OF r] by simp
qed

end
