(* ===== verification/Wire_Coinbase.thy ===== *)
theory Wire_Coinbase
  imports Wire_Cursor
begin

text \<open>
  The coinbase transaction as a gateway ships it, \<^verbatim>\<open>prime/wire/src/coinbase.rs\<close>: assembling the pieces of a
  share's coinbase, finding the byte that commits to the share's target, parsing the legacy serialization,
  splicing in the witness, and the builder the tools use. \<open>None\<close> of \<open>target_byte_at\<close> is the source's
  \<^verbatim>\<open>None\<close>; nothing in this module panics on any input, slices being taken with \<^verbatim>\<open>get\<close>.
\<close>

section \<open>Model\<close>

definition EXTRANONCE_SLOT :: nat where "EXTRANONCE_SLOT = 12"

definition COINBASE_WITNESS :: "byte list" where
  "COINBASE_WITNESS = 0x01 # 0x20 # replicate 32 0"

record tx_out =
  to_value :: u64
  to_script :: "byte list"

definition is_op_return :: "tx_out \<Rightarrow> bool" where
  "is_op_return t \<longleftrightarrow> (case to_script t of [] \<Rightarrow> False | b # _ \<Rightarrow> b = 0x6a)"

record coinbase_tx =
  cb_version :: u32
  cb_script_sig :: "byte list"
  cb_sequence :: u32
  cb_outputs :: "tx_out list"
  cb_lock_time :: u32
  cb_height :: "u32 option"
  cb_outputs_at :: usize
  cb_lock_time_at :: usize

definition total_output_value :: "coinbase_tx \<Rightarrow> u64" where
  "total_output_value c = fold (\<lambda>t a. sat_add64 a (to_value t)) (cb_outputs c) 0"

definition paid_to :: "byte list \<Rightarrow> coinbase_tx \<Rightarrow> u64" where
  "paid_to script c = fold (\<lambda>t a. sat_add64 a (to_value t)) (filter (\<lambda>t. to_script t = script) (cb_outputs c)) 0"

definition is_whole :: "byte list \<Rightarrow> nat \<Rightarrow> bool" where
  "is_whole coinb2 target_byte_index \<longleftrightarrow> coinb2 = [] \<and> target_byte_index = 0"

definition assemble :: "byte list \<Rightarrow> byte list \<Rightarrow> nat \<Rightarrow> byte \<Rightarrow> byte list" where
  "assemble coinb1 coinb2 target_byte_index target_pot =
     (if is_whole coinb2 target_byte_index then coinb1
      else let v = coinb1 @ replicate EXTRANONCE_SLOT 0 @ coinb2 in
        if target_byte_index < length v then v[target_byte_index := target_pot] else v)"

text \<open>\<^verbatim>\<open>slice.get(i)\<close> and \<^verbatim>\<open>slice.get(i..i + n)\<close>.\<close>

definition get_at :: "'a list \<Rightarrow> nat \<Rightarrow> 'a option" where
  "get_at xs i = (if i < length xs then Some (xs ! i) else None)"

definition get_slice :: "'a list \<Rightarrow> nat \<Rightarrow> nat \<Rightarrow> 'a list option" where
  "get_slice xs i n = (if i + n \<le> length xs then Some (take n (drop i xs)) else None)"

definition SIG_AT :: nat where "SIG_AT = 4 + 1 + 36 + 1"

definition skip_push :: "byte list \<Rightarrow> nat \<Rightarrow> nat option" where
  "skip_push s i = do {
     b \<leftarrow> get_at s i;
     let n = unat b;
     if 0x01 \<le> n \<and> n \<le> 0x4b then Some (i + 1 + n)
     else if n = 0x4c then map_option (\<lambda>l. i + 2 + unat l) (get_at s (i + 1))
     else if n = 0 \<or> n = 0x4f \<or> (0x51 \<le> n \<and> n \<le> 0x60) then Some (i + 1)
     else None }"

definition target_byte_at :: "byte list \<Rightarrow> nat option" where
  "target_byte_at legacy = do {
     l \<leftarrow> get_at legacy (SIG_AT - 1);
     if unat l \<ge> 0xfd then None
     else do {
       s \<leftarrow> get_slice legacy SIG_AT (unat l);
       i \<leftarrow> skip_push s 0;
       i \<leftarrow> skip_push s i;
       b \<leftarrow> get_at s i;
       if 0x01 \<le> unat b \<and> unat b \<le> 0x4b \<and> i + 1 + unat b \<le> length s then Some (SIG_AT + i + 1) else None } }"

definition commits_target :: "byte list \<Rightarrow> nat \<Rightarrow> bool" where
  "commits_target assembled target_byte_index \<longleftrightarrow> target_byte_at assembled = Some target_byte_index"

definition read_varint :: "u64 reader" where
  "read_varint = rbind rd_u8 (\<lambda>n. if n = 0xfd then rd_u16 else if n = 0xfe then rd_u32
     else if n = 0xff then rd_u64 else rret n)"

definition write_varint :: "u64 \<Rightarrow> byte list" where
  "write_varint n = (if n < 0xfd then [of_nat n]
     else if n \<le> 0xffff then 0xfd # le_bytes 2 n
     else if n \<le> 0xffffffff then 0xfe # le_bytes 4 n
     else 0xff # le_bytes 8 n)"

text \<open>The operator's own tag; every early return of the source is the empty string.\<close>

definition tag_push :: "byte list \<Rightarrow> byte list option" where
  "tag_push script_sig = (case script_sig of [] \<Rightarrow> None | n # rest \<Rightarrow> do {
     height_len \<leftarrow> (if 1 \<le> unat n \<and> unat n \<le> 8 then Some (unat n)
       else if 0x51 \<le> unat n \<and> unat n \<le> 0x60 then Some 0 else None);
     if length rest < height_len then None
     else case drop height_len rest of [] \<Rightarrow> None
       | first # rest' \<Rightarrow>
         if first = 0x4c then (case rest' of [] \<Rightarrow> None | l # tags \<Rightarrow> get_slice tags 0 (unat l))
         else if 1 \<le> unat first \<and> unat first \<le> 75 then get_slice rest' 0 (unat first)
         else None })"

definition secondary_tag :: "byte list \<Rightarrow> byte list" where
  "secondary_tag script_sig = (case tag_push script_sig of None \<Rightarrow> []
     | Some tags \<Rightarrow> (case position (\<lambda>b. b = 0x0f) tags of None \<Rightarrow> []
       | Some sep \<Rightarrow>
         if sep = 0 then []
         else let after = drop (sep + 1) tags;
                  e = (case position (\<lambda>b. b = 0) after of None \<Rightarrow> length after | Some e \<Rightarrow> e);
                  tag = take e after in
           if tag = [] \<or> \<not> list_all (\<lambda>b. 32 \<le> unat b \<and> unat b < 127) tag then []
           else take 40 (from_utf8_lossy tag)))"

definition bip34_height :: "byte list \<Rightarrow> u32 option" where
  "bip34_height script_sig = (case script_sig of [] \<Rightarrow> None | b # rest \<Rightarrow>
     let n = unat b in
     if 0x51 \<le> n \<and> n \<le> 0x60 then Some (n - 0x50)
     else if 1 \<le> n \<and> n \<le> 4 then map_option le_nat (get_slice rest 0 n)
     else None)"

definition rd_pos :: "usize reader" where
  "rd_pos c = Inr (cu_pos c, c)"

definition rd_tx_out :: "tx_out reader" where
  "rd_tx_out = rbind rd_u64 (\<lambda>value. rbind read_varint (\<lambda>sl.
     if sl > 10000 then rfail (Malformed ''coinbase output script length'')
     else rbind (take_c sl) (\<lambda>s. rret \<lparr>to_value = value, to_script = s\<rparr>)))"

definition rd_coinbase :: "coinbase_tx reader" where
  "rd_coinbase =
     rbind rd_u32 (\<lambda>version. rbind read_varint (\<lambda>nin.
     if nin \<noteq> 1 then rfail (Malformed ''coinbase input count'')
     else rbind (take_c 36) (\<lambda>prevout.
     if take 32 prevout \<noteq> replicate 32 0 \<or> drop 32 prevout \<noteq> replicate 4 0xff then rfail (Malformed ''coinbase outpoint'')
     else rbind read_varint (\<lambda>n.
     if \<not> (2 \<le> n \<and> n \<le> 100) then rfail (Malformed ''coinbase scriptSig length'')
     else rbind (take_c n) (\<lambda>script_sig. rbind rd_u32 (\<lambda>sequence. rbind rd_pos (\<lambda>outputs_at. rbind read_varint (\<lambda>nout.
     if nout = 0 \<or> nout > 10000 then rfail (Malformed ''coinbase output count'')
     else rbind (rd_times nout rd_tx_out) (\<lambda>outputs. rbind rd_pos (\<lambda>lock_time_at. rbind rd_u32 (\<lambda>lock_time c.
     if remaining c \<noteq> 0 then Inl (Malformed ''coinbase trailing bytes'')
     else Inr (\<lparr>cb_version = version, cb_script_sig = script_sig, cb_sequence = sequence, cb_outputs = outputs,
       cb_lock_time = lock_time, cb_height = bip34_height script_sig, cb_outputs_at = outputs_at,
       cb_lock_time_at = lock_time_at\<rparr>, c))))))))))))"

definition parse_coinbase :: "byte list \<Rightarrow> wire_error + coinbase_tx" where
  "parse_coinbase bytes = parsed rd_coinbase bytes"

definition with_witness :: "byte list \<Rightarrow> coinbase_tx \<Rightarrow> byte list" where
  "with_witness legacy p =
     take 4 legacy @ [0x00, 0x01] @ drop 4 (take (cb_lock_time_at p) legacy)
     @ COINBASE_WITNESS @ drop (cb_lock_time_at p) legacy"

definition write_tx_out :: "tx_out \<Rightarrow> byte list" where
  "write_tx_out t = le_bytes 8 (to_value t) @ write_varint (length (to_script t)) @ to_script t"

text \<open>The scriptSig of \<^verbatim>\<open>build\<close> up to its target byte, the whole of it, and the transaction. A tag is at most
  254 bytes here: \<^verbatim>\<open>tag.len() as u8 + 1\<close> does not overflow.\<close>

definition height_bytes :: "u32 \<Rightarrow> byte list" where
  "height_bytes height = (let hb = le_bytes 4 height; n = max 1 (4 - length (takeWhile (\<lambda>b. b = 0) (rev hb))) in
     of_nat n # take n hb)"

definition sig_head :: "u32 \<Rightarrow> byte list \<Rightarrow> byte list" where
  "sig_head height tag = height_bytes height @ of_nat (length tag + 1) # tag @ [0x00, 0x07]"

definition build_sig :: "u32 \<Rightarrow> byte list \<Rightarrow> byte list" where
  "build_sig height tag = sig_head height tag @ [0xff, 0x00, 0x00, 0x01, 0x00, 0x00, 0x00, 0x0e, 0x00, 0x00]
     @ replicate EXTRANONCE_SLOT 0"

definition build_coinbase :: "u32 \<Rightarrow> byte list \<Rightarrow> tx_out list \<Rightarrow> u32 \<Rightarrow> byte list \<times> nat \<times> nat" where
  "build_coinbase height tag outputs lock_time =
     (let s = build_sig height tag;
          head = le_bytes 4 1 @ [1] @ replicate 32 0 @ replicate 4 0xff @ write_varint (length s);
          v = head @ s @ le_bytes 4 0xffffffff @ write_varint (length outputs)
            @ concat (map write_tx_out outputs) @ le_bytes 4 lock_time
      in (v, length head + length (sig_head height tag), length head + length s - EXTRANONCE_SLOT))"

section \<open>Lemmas\<close>

lemma varint_reads [simp]:
  assumes "n \<le> u64_max"
  shows "read_varint (at_c pre (write_varint n @ rest)) = Inr (n, at_c (pre @ write_varint n) rest)"
  using assms by (simp add: read_varint_def write_varint_def)

lemma rd_pos_at [simp]: "rd_pos (at_c pre rest) = Inr (length pre, at_c pre rest)"
  by (simp add: rd_pos_def at_c_def)

definition tx_out_ok :: "tx_out \<Rightarrow> bool" where
  "tx_out_ok t \<longleftrightarrow> to_value t \<le> u64_max \<and> length (to_script t) \<le> 10000"

lemma rd_tx_out_reads:
  "tx_out_ok t \<Longrightarrow> rd_tx_out (at_c pre (write_tx_out t @ rest)) = Inr (t, at_c (pre @ write_tx_out t) rest)"
  by (simp add: rd_tx_out_def write_tx_out_def tx_out_ok_def)

lemma rd_tx_outs_read:
  "list_all tx_out_ok ts \<Longrightarrow> rd_times (length ts) rd_tx_out (at_c pre (concat (map write_tx_out ts) @ rest))
    = Inr (ts, at_c (pre @ concat (map write_tx_out ts)) rest)"
  by (rule rd_times_reads) (simp add: list_all_iff rd_tx_out_reads)

lemma target_byte_at_bound: "target_byte_at v = Some i \<Longrightarrow> i < length v"
  by (auto simp: target_byte_at_def get_slice_def get_at_def Let_def Option.bind_eq_Some_conv split: if_splits)

lemma assemble_writes:
  assumes "\<not> is_whole c2 i" "commits_target (assemble c1 c2 i p) i"
  shows "assemble c1 c2 i p ! i = p"
  using assms target_byte_at_bound [of "assemble c1 c2 i p" i]
  by (auto simp: assemble_def Let_def commits_target_def split: if_splits)

lemma le_nat_zeros: "\<forall>b \<in> set ys. b = 0 \<Longrightarrow> le_nat (xs @ ys) = le_nat xs"
proof (induction xs)
  case Nil
  then show ?case by (induction ys) auto
qed simp

lemma le_nat_take_zeros: "\<forall>b \<in> set (drop n bs). b = 0 \<Longrightarrow> le_nat (take n bs) = le_nat bs"
  using le_nat_zeros [of "drop n bs" "take n bs"] by simp

lemma height_bytes_read:
  assumes "h \<le> u32_max"
  obtains n bs where "height_bytes h = of_nat n # bs" "length bs = n" "1 \<le> n" "n \<le> 4" "le_nat bs = h"
proof -
  let ?hb = "le_bytes 4 h"
  define z where "z = length (takeWhile (\<lambda>b. b = 0) (rev ?hb))"
  define n where "n = max 1 (4 - z)"
  have z: "z \<le> 4" unfolding z_def using length_takeWhile_le [of "\<lambda>b. b = 0" "rev ?hb"] by simp
  have "drop (4 - z) ?hb = rev (take z (rev ?hb))" using z by (simp add: rev_take)
  also have "take z (rev ?hb) = takeWhile (\<lambda>b. b = 0) (rev ?hb)" unfolding z_def by (metis takeWhile_eq_take)
  finally have "\<forall>b \<in> set (drop (4 - z) ?hb). b = 0" by (simp, metis set_takeWhileD)
  moreover have "set (drop n ?hb) \<subseteq> set (drop (4 - z) ?hb)" by (rule set_drop_subset_set_drop) (simp add: n_def)
  ultimately have "le_nat (take n ?hb) = le_nat ?hb" by (intro le_nat_take_zeros) blast
  then have "le_nat (take n ?hb) = h" using assms by simp
  moreover have "height_bytes h = of_nat n # take n ?hb" by (simp add: height_bytes_def Let_def n_def z_def)
  ultimately show thesis using z by (intro that [of n "take n ?hb"]) (simp_all add: n_def)
qed

lemma target_byte_at_split:
  assumes "length h = 41" "length s < 253"
  shows "target_byte_at (h @ of_nat (length s) # s @ r) = do {
     i \<leftarrow> skip_push s 0; i \<leftarrow> skip_push s i; b \<leftarrow> get_at s i;
     if 0x01 \<le> unat b \<and> unat b \<le> 0x4b \<and> i + 1 + unat b \<le> length s then Some (SIG_AT + i + 1) else None }"
  using assms by (simp add: target_byte_at_def get_at_def get_slice_def SIG_AT_def nth_append)

lemma get_at_append: "get_at (a @ x # b) (length a) = Some x"
  by (simp add: get_at_def)

lemma resplit: "length a = k \<Longrightarrow> length z = n \<Longrightarrow> take k (a @ z @ t) @ z @ drop (k + n) (a @ z @ t) = a @ z @ t"
  by simp

lemma update_at_append: "length a = k \<Longrightarrow> (a @ x # b)[k := p] = a @ p # b"
  by (simp add: list_update_append)

lemma skip_push_data: "1 \<le> n \<Longrightarrow> n \<le> 0x4b \<Longrightarrow> skip_push (a @ of_nat n # b) (length a) = Some (length a + 1 + n)"
  by (simp add: skip_push_def get_at_def)

text \<open>The target byte of a built scriptSig is the one after its head.\<close>

lemma target_in_built:
  assumes "h \<le> u32_max" "length tag \<le> 74" "length pre = 41" "length s < 253" "7 \<le> length (p # rest)"
    and s_def: "s = sig_head h tag @ p # rest"
  shows "target_byte_at (pre @ of_nat (length s) # s @ r) = Some (SIG_AT + length (sig_head h tag))"
proof -
  obtain n bs where hb: "height_bytes h = of_nat n # bs" "length bs = n" "1 \<le> n" "n \<le> 4"
    by (rule height_bytes_read [OF assms(1)])
  let ?a = "height_bytes h" and ?b = "height_bytes h @ of_nat (length tag + 1) # tag @ [0x00]"
  have 1: "skip_push s 0 = Some (length ?a)"
    using skip_push_data [of n "[]" "bs @ of_nat (length tag + 1) # tag @ [0x00, 0x07] @ p # rest"] hb
    by (simp add: s_def sig_head_def)
  have 2: "skip_push s (length ?a) = Some (length ?b)"
    using skip_push_data [of "length tag + 1" ?a "tag @ [0x00, 0x07] @ p # rest"] assms(2) by (simp add: s_def sig_head_def)
  have sp: "s = ?b @ 0x07 # p # rest" by (simp add: s_def sig_head_def)
  have 3: "get_at s (length ?b) = Some 0x07" unfolding sp by (rule get_at_append)
  have 4: "length (sig_head h tag) = length ?b + 1" by (simp add: sig_head_def)
  have "length ?b + 1 + 7 \<le> length s" unfolding sp using assms(5) by simp
  then show ?thesis
    unfolding target_byte_at_split [OF assms(3,4)] using 1 2 3 4 by simp
qed

lemma bip34_built: "h \<le> u32_max \<Longrightarrow> bip34_height (sig_head h tag @ r) = Some h"
  by (rule height_bytes_read [of h]) (auto simp: bip34_height_def sig_head_def get_slice_def Let_def)

lemma length_sig_head: "h \<le> u32_max \<Longrightarrow> length (sig_head h tag) \<le> length tag + 8 \<and> 5 \<le> length (sig_head h tag)"
  by (rule height_bytes_read [of h]) (auto simp: sig_head_def)

lemma rd_times_all:
  "rd_times n p c = Inr (xs, c') \<Longrightarrow> (\<And>c x c'. p c = Inr (x, c') \<Longrightarrow> P x) \<Longrightarrow> length xs = n \<and> list_all P xs"
proof (induction n arbitrary: xs c)
  case (Suc n)
  then show ?case by (auto simp: rbind_Inr_iff rret_def)
qed (simp add: rret_def)

lemma take_c_length: "take_c n c = Inr (x, c') \<Longrightarrow> length x = n"
  by (auto simp: take_c_def remaining_def split: if_splits)

lemma rd_u64_bound: "rd_u64 c = Inr (x, c') \<Longrightarrow> x \<le> u64_max"
proof -
  assume "rd_u64 c = Inr (x, c')"
  then obtain b where "x = le_nat b" "length b = 8" by (auto simp: rd_u64_def rbind_Inr_iff rret_def dest: take_c_length)
  then show ?thesis using le_nat_lt [of b] by simp
qed

lemma rd_tx_out_ok: "rd_tx_out c = Inr (t, c') \<Longrightarrow> tx_out_ok t"
  by (auto simp: rd_tx_out_def rbind_Inr_iff rret_def rfail_def tx_out_ok_def dest: rd_u64_bound take_c_length split: if_splits)

lemma rd_u32_takes:
  "rd_u32 c = Inr (v, c') \<Longrightarrow> 4 \<le> remaining c \<and> cu_pos c' = cu_pos c + 4 \<and> cu_buf c' = cu_buf c
    \<and> v = le_nat (take 4 (drop (cu_pos c) (cu_buf c)))"
  by (auto simp: rd_u32_def rbind_Inr_iff rret_def take_c_def split: if_splits)

lemma reader_varint [reader_intros]: "reader read_varint"
  unfolding read_varint_def by (intro reader_intros)

lemma reader_tx_out [reader_intros]: "reader rd_tx_out"
  unfolding rd_tx_out_def by (intro reader_intros)

lemma length_build_sig:
  assumes "h \<le> u32_max" "length tag \<le> 60"
  shows "2 \<le> length (build_sig h tag)" "length (build_sig h tag) \<le> 100" "length (build_sig h tag) < 253"
  using assms(2) length_sig_head [OF assms(1), of tag] by (simp_all add: build_sig_def EXTRANONCE_SLOT_def)

lemma built_commits:
  assumes "h \<le> u32_max" "length tag \<le> 60" and v: "build_coinbase h tag outs lt = (v, idx, slot)"
  shows "commits_target (assemble (take slot v) (drop (slot + EXTRANONCE_SLOT) v) idx p) idx"
    and "\<not> is_whole (drop (slot + EXTRANONCE_SLOT) v) idx"
proof -
  let ?s = "build_sig h tag" and ?t = "le_bytes 4 0xffffffff @ write_varint (length outs) @ concat (map write_tx_out outs) @ le_bytes 4 lt"
  note s = length_build_sig [OF assms(1,2)]
  have vs: "v = le_bytes 4 1 @ (1 # (replicate 32 0 @ replicate 4 0xff) @ write_varint (length ?s) @ ?s @ ?t)"
    using v by (simp add: build_coinbase_def Let_def)
  let ?pre = "le_bytes 4 1 @ (1 # (replicate 32 0 @ replicate 4 0xff))"
  let ?x = "[0x00, 0x00, 0x01, 0x00, 0x00, 0x00, 0x0e, 0x00, 0x00] :: byte list"
  let ?z = "replicate EXTRANONCE_SLOT (0 :: byte)"
  let ?n = "of_nat (length ?s) :: byte"
  have vi: "write_varint (length ?s) = [?n]" using s(3) by (simp add: write_varint_def)
  have v1: "v = (?pre @ ?n # sig_head h tag @ 0xff # ?x) @ ?z @ ?t" using vs vi by (simp add: build_sig_def)
  have i: "idx = 42 + length (sig_head h tag)" and sl: "slot = length (?pre @ ?n # sig_head h tag @ 0xff # ?x)"
    using v vi by (auto simp: build_coinbase_def Let_def build_sig_def)
  have "take slot v @ ?z @ drop (slot + EXTRANONCE_SLOT) v = v" unfolding v1 by (rule resplit) (simp_all add: sl)
  moreover have "\<not> is_whole (drop (slot + EXTRANONCE_SLOT) v) idx" "idx < length v" using i v1 by (auto simp: is_whole_def)
  ultimately have "assemble (take slot v) (drop (slot + EXTRANONCE_SLOT) v) idx p = v[idx := p]"
    by (simp add: assemble_def Let_def)
  also have "\<dots> = ?pre @ ?n # (sig_head h tag @ p # (?x @ ?z)) @ ?t"
  proof -
    have "length (?pre @ ?n # sig_head h tag) = idx" by (simp add: i)
    from update_at_append [OF this, where x = "0xff" and b = "?x @ ?z @ ?t" and p = p] show ?thesis unfolding v1 by (simp del: replicate_0 le_bytes.simps)
  qed
  finally have a: "assemble (take slot v) (drop (slot + EXTRANONCE_SLOT) v) idx p = ?pre @ ?n # (sig_head h tag @ p # (?x @ ?z)) @ ?t" .
  have "?n = of_nat (length (sig_head h tag @ p # (?x @ ?z)))" by (simp add: build_sig_def)
  then show "commits_target (assemble (take slot v) (drop (slot + EXTRANONCE_SLOT) v) idx p) idx"
    using target_in_built [OF assms(1), of tag ?pre "sig_head h tag @ p # (?x @ ?z)" p "?x @ ?z"] s(3) assms(2) i
    unfolding commits_target_def a by (simp add: build_sig_def SIG_AT_def)
  show "\<not> is_whole (drop (slot + EXTRANONCE_SLOT) v) idx" using i by (simp add: is_whole_def)
qed

lemma built_parses:
  assumes "h \<le> u32_max" "length tag \<le> 60" "list_all tx_out_ok outs" "outs \<noteq> []" "length outs \<le> 10000" "lt \<le> u32_max"
    and v: "build_coinbase h tag outs lt = (v, idx, slot)"
  shows "\<exists>c. parse_coinbase v = Inr c \<and> cb_outputs c = outs \<and> cb_lock_time c = lt \<and> cb_height c = Some h"
proof -
  let ?s = "build_sig h tag" and ?t = "le_bytes 4 0xffffffff @ write_varint (length outs) @ concat (map write_tx_out outs) @ le_bytes 4 lt"
  note s = length_build_sig [OF assms(1,2)]
  have vs: "v = le_bytes 4 1 @ (1 # (replicate 32 0 @ replicate 4 0xff) @ write_varint (length ?s) @ ?s @ ?t)"
    using v by (simp add: build_coinbase_def Let_def)
  have out: "rd_times (length outs) rd_tx_out (at_c pre (concat (map write_tx_out outs) @ rest))
      = Inr (outs, at_c (pre @ concat (map write_tx_out outs)) rest)" for pre rest
    by (rule rd_tx_outs_read [OF assms(3)])
  have null: "take_c 36 (at_c pre ((replicate 32 0 @ replicate 4 0xff) @ rest))
      = Inr (replicate 32 0 @ replicate 4 0xff, at_c (pre @ replicate 32 0 @ replicate 4 0xff) rest)" for pre rest
    by (rule take_c_reads) simp
  have sig: "take_c (length ?s) (at_c pre (?s @ rest)) = Inr (?s, at_c (pre @ ?s) rest)" for pre rest
    by (rule take_c_reads) simp
  have nin: "read_varint (at_c pre (1 # rest)) = Inr (1, at_c (pre @ [1]) rest)" for pre rest
    using varint_reads [of 1 pre rest] by (simp add: write_varint_def)
  show "\<exists>c. parse_coinbase v = Inr c \<and> cb_outputs c = outs \<and> cb_lock_time c = lt \<and> cb_height c = Some h"
    unfolding vs parse_coinbase_def parsed_def rd_coinbase_def
    using s assms(4-6) rd_u32_reads [of lt _ "[]"] bip34_built [OF assms(1), of tag]
    by (simp add: null sig nin out build_sig_def del: append_assoc)
qed

text \<open>The reads of an accepted coinbase, in order.\<close>

lemma parse_coinbase_steps:
  assumes "parse_coinbase legacy = Inr c"
  obtains c0 nin c1 prevout c2 n c3 sg c4 c5 nout c6 outs c7 lt c8 where
    "rd_u32 (at_c [] legacy) = Inr (cb_version c, c0)" and "read_varint c0 = Inr (nin, c1)"
    and "take_c 36 c1 = Inr (prevout, c2)" and "read_varint c2 = Inr (n, c3)"
    and "take_c n c3 = Inr (sg, c4)" and "rd_u32 c4 = Inr (cb_sequence c, c5)"
    and "read_varint c5 = Inr (nout, c6)" and "rd_times nout rd_tx_out c6 = Inr (outs, c7)"
    and "rd_u32 c7 = Inr (lt, c8)" and "remaining c8 = 0"
    and "2 \<le> n" "n \<le> 100" and "nout \<noteq> 0" "nout \<le> 10000"
    and "cb_script_sig c = sg" "cb_outputs c = outs" "cb_lock_time c = lt" "cb_outputs_at c = cu_pos c5" "cb_lock_time_at c = cu_pos c7"
  using assms unfolding parse_coinbase_def parsed_def rd_coinbase_def
  by (auto simp: rbind_Inr_iff rret_def rfail_def rd_pos_def split: sum.splits if_splits)

section \<open>Properties\<close>

text \<open>
  A coinbase commits to one target only. When the byte a share names is the one its coinbase commits to,
  that byte holds the share's claimed power of two, so the same coinbase bytes can never be claimed at two
  different targets, whatever pieces and indices the gateway sends.
\<close>

theorem target_claim_unambiguous:
  assumes "\<not> is_whole c2 i" "\<not> is_whole d2 j" "assemble c1 c2 i p = assemble d1 d2 j q"
    and "commits_target (assemble c1 c2 i p) i" "commits_target (assemble d1 d2 j q) j"
  shows "i = j \<and> p = q"
proof -
  have "i = j" using assms(3-5) by (simp add: commits_target_def)
  then show ?thesis using assemble_writes [OF assms(1,4)] assemble_writes [OF assms(2,5)] assms(3) by simp
qed

text \<open>
  A built coinbase parses back, and carries its target byte. The parser recovers the outputs, the lock
  time and the height the builder was given; cut at its extranonce slot and put together again with any
  claimed target, it commits to that target.
\<close>

theorem built_coinbase_parses:
  assumes "h \<le> u32_max" "length tag \<le> 60" "list_all tx_out_ok outs" "outs \<noteq> []" "length outs \<le> 10000" "lt \<le> u32_max"
    and v: "build_coinbase h tag outs lt = (v, idx, slot)"
  shows "(\<exists>c. parse_coinbase v = Inr c \<and> cb_outputs c = outs \<and> cb_lock_time c = lt \<and> cb_height c = Some h)
    \<and> commits_target (assemble (take slot v) (drop (slot + EXTRANONCE_SLOT) v) idx p) idx"
  using built_parses [OF assms] built_commits(1) [OF assms(1,2) v] by blast

text \<open>
  What the parser accepts is in bounds: the scriptSig is 2 to 100 bytes, there are 1 to 10000 outputs
  of at most 10000 script bytes, and the offsets it keeps are those of the outputs and of the four bytes
  of lock time that end the transaction, so the witness is spliced in exactly before the lock time.
\<close>

theorem parsed_coinbase_bounds:
  assumes "parse_coinbase legacy = Inr c"
  shows "2 \<le> length (cb_script_sig c) \<and> length (cb_script_sig c) \<le> 100 \<and> cb_outputs c \<noteq> [] \<and> length (cb_outputs c) \<le> 10000
    \<and> list_all tx_out_ok (cb_outputs c) \<and> 4 \<le> cb_outputs_at c \<and> cb_outputs_at c \<le> cb_lock_time_at c
    \<and> cb_lock_time_at c + 4 = length legacy \<and> drop (cb_lock_time_at c) legacy = le_bytes 4 (cb_lock_time c)
    \<and> length (with_witness legacy c) = length legacy + 36"
proof -
  obtain c0 nin c1 prevout c2 n c3 sg c4 c5 nout c6 outs c7 lt c8 where
    r0: "rd_u32 (at_c [] legacy) = Inr (cb_version c, c0)" and r1: "read_varint c0 = Inr (nin, c1)"
    and r2: "take_c 36 c1 = Inr (prevout, c2)" and r3: "read_varint c2 = Inr (n, c3)"
    and r4: "take_c n c3 = Inr (sg, c4)" and r5: "rd_u32 c4 = Inr (cb_sequence c, c5)"
    and r6: "read_varint c5 = Inr (nout, c6)" and r7: "rd_times nout rd_tx_out c6 = Inr (outs, c7)"
    and r8: "rd_u32 c7 = Inr (lt, c8)" and rem: "remaining c8 = 0"
    and n: "2 \<le> n" "n \<le> 100" and nout: "nout \<noteq> 0" "nout \<le> 10000"
    and c: "cb_script_sig c = sg" "cb_outputs c = outs" "cb_lock_time c = lt" "cb_outputs_at c = cu_pos c5" "cb_lock_time_at c = cu_pos c7"
    by (rule parse_coinbase_steps [OF assms]) (rule that)
  note fw = reader.forward [OF reader_varint] reader.forward [OF take.reader_axioms] reader.forward [OF reader_ints(3)]
    reader.forward [OF reader_times [OF reader_tx_out]]
  have 5: "cu_buf c5 = legacy" "4 \<le> cu_pos c5"
    using rd_u32_takes [OF r0] fw(1) [OF r1] fw(2) [OF r2] fw(1) [OF r3] fw(2) [OF r4] fw(3) [OF r5]
    by (auto simp: at_c_def)
  have 7: "cu_buf c7 = legacy" "cu_pos c5 \<le> cu_pos c7" using 5 fw(1) [OF r6] fw(4) [OF r7] by auto
  have 8: "4 \<le> remaining c7" "cu_pos c8 = cu_pos c7 + 4" "cu_buf c8 = legacy" "lt = le_nat (take 4 (drop (cu_pos c7) legacy))"
    using rd_u32_takes [OF r8] 7 by auto
  have len: "cu_pos c7 + 4 = length legacy" using 8 rem 7 by (simp add: remaining_def)
  then have "drop (cu_pos c7) legacy = le_bytes 4 lt" using 8(4) by simp
  moreover have "length outs = nout \<and> list_all tx_out_ok outs" using rd_times_all [OF r7] rd_tx_out_ok by blast
  moreover have "length (with_witness legacy c) = length legacy + 36"
    using len 5(2) 7(2) by (simp add: with_witness_def c COINBASE_WITNESS_def)
  ultimately show ?thesis using take_c_length [OF r4] n nout c 5(2) 7(2) len by auto
qed

definition ex_outs :: "tx_out list" where
  "ex_outs = [\<lparr>to_value = 5, to_script = [0x00, 0x14, 0x11]\<rparr>]"

definition ex_coinbase :: "byte list \<times> nat \<times> nat" where
  "ex_coinbase = build_coinbase 7 [0x74] ex_outs 0"

lemma ex_coinbase_eq: "build_coinbase 7 [0x74] ex_outs 0 = (fst ex_coinbase, fst (snd ex_coinbase), snd (snd ex_coinbase))"
  by (simp add: ex_coinbase_def)

theorem target_claim_unambiguous_witness:
  "(case ex_coinbase of (v, idx, slot) \<Rightarrow>
     assemble (take slot v) (drop (slot + EXTRANONCE_SLOT) v) idx 9 \<noteq> assemble (take slot v) (drop (slot + EXTRANONCE_SLOT) v) idx 10)"
proof -
  note b = built_commits [OF _ _ ex_coinbase_eq]
  show ?thesis
    using target_claim_unambiguous [OF b(2) b(2) _ b(1) b(1), where p = 9 and q = 10] by (simp add: split_beta) blast
qed

theorem built_coinbase_parses_witness:
  "\<exists>c. parse_coinbase (fst ex_coinbase) = Inr c \<and> cb_outputs c = ex_outs \<and> cb_height c = Some 7"
  using built_coinbase_parses [OF _ _ _ _ _ _ ex_coinbase_eq] by (auto simp: ex_outs_def tx_out_ok_def)

theorem parsed_coinbase_bounds_witness:
  "\<exists>c. parse_coinbase (fst ex_coinbase) = Inr c \<and> length (with_witness (fst ex_coinbase) c) = length (fst ex_coinbase) + 36"
proof -
  have "\<exists>c. parse_coinbase (fst ex_coinbase) = Inr c"
    using built_parses [OF _ _ _ _ _ _ ex_coinbase_eq] by (auto simp: ex_outs_def tx_out_ok_def)
  then show ?thesis using parsed_coinbase_bounds by blast
qed

end
