(* ===== verification/Wire_Coinbaser.thy ===== *)
theory Wire_Coinbaser
  imports Wire_Cursor
begin

text \<open>
  Coinbaser v2, \<^verbatim>\<open>prime/wire/src/coinbaser.rs\<close>: the list of outputs the pool tells a gateway to put in
  its coinbase, and its byte encoding.
\<close>

section \<open>Model\<close>

definition MAX_OUTPUTS :: nat where "MAX_OUTPUTS = 512"
definition MAX_SCRIPT :: nat where "MAX_SCRIPT = 64"
definition MIN_SCRIPT :: nat where "MIN_SCRIPT = 2"

record cb_output =
  op_sats :: u64
  op_script :: "byte list"

definition serialized_len :: "cb_output \<Rightarrow> nat" where
  "serialized_len o1 = 8 + 1 + length (op_script o1)"

definition write_output :: "cb_output \<Rightarrow> byte list" where
  "write_output o1 = le_bytes 8 (op_sats o1) @ of_nat (length (op_script o1)) # op_script o1"

definition encode_v2 :: "u8 \<Rightarrow> cb_output list \<Rightarrow> byte list" where
  "encode_v2 i outs = of_nat i # concat (map write_output (take MAX_OUTPUTS outs))"

definition rd_output :: "cb_output reader" where
  "rd_output = rbind rd_u64 (\<lambda>sats. rbind rd_u8 (\<lambda>n.
     if \<not> (MIN_SCRIPT \<le> n \<and> n \<le> MAX_SCRIPT) then rfail (Malformed ''coinbaser script length'')
     else rbind (take_c n) (\<lambda>s. rret \<lparr>op_sats = sats, op_script = s\<rparr>)))"

lemma rd_output_shrinks: "rd_output c = Inr (v, c') \<Longrightarrow> remaining c' < remaining c"
proof -
  assume "rd_output c = Inr (v, c')"
  then obtain s c1 n c2 b c3 where "rd_u64 c = Inr (s, c1)" "rd_u8 c1 = Inr (n, c2)" "take_c n c2 = Inr (b, c3)" "c' = c3"
    by (auto simp: rd_output_def rbind_Inr_iff rret_def split: if_splits)
  then show ?thesis
    using reader.shrinks [OF reader_ints(4)] rd_u8_shrinks take.shrinks by (metis le_less_trans less_le_trans)
qed

function decode_outputs :: "cb_output list \<Rightarrow> cb_output list reader" where
  "decode_outputs out c = (if remaining c > 0 then
     (case rd_output c of Inl e \<Rightarrow> Inl e
      | Inr (o1, c') \<Rightarrow>
          let out' = out @ [o1] in
          if length out' > MAX_OUTPUTS then Inl (Malformed ''coinbaser output count'')
          else decode_outputs out' c')
     else Inr (out, c))"
  by pat_completeness auto
termination by (relation "measure (\<lambda>(out, c). remaining c)") (auto dest: rd_output_shrinks)

declare decode_outputs.simps [simp del]

definition decode_v2 :: "byte list \<Rightarrow> wire_error + (u8 \<times> cb_output list)" where
  "decode_v2 bytes = parsed (rbind rd_u8 (\<lambda>i. rbind (decode_outputs []) (\<lambda>outs. rret (i, outs)))) bytes"

section \<open>Lemmas\<close>

definition output_ok :: "cb_output \<Rightarrow> bool" where
  "output_ok o1 \<longleftrightarrow> op_sats o1 \<le> u64_max \<and> MIN_SCRIPT \<le> length (op_script o1) \<and> length (op_script o1) \<le> MAX_SCRIPT"

lemmas script_bounds = MIN_SCRIPT_def MAX_SCRIPT_def

lemma rd_output_reads:
  "output_ok o1 \<Longrightarrow> rd_output (at_c pre (write_output o1 @ rest)) = Inr (o1, at_c (pre @ write_output o1) rest)"
  by (simp add: rd_output_def write_output_def output_ok_def script_bounds)

lemma rd_output_inverse:
  assumes "rd_output (at_c pre rest) = Inr (o1, c')"
  shows "output_ok o1 \<and> (\<exists>r. rest = write_output o1 @ r \<and> c' = at_c (pre @ write_output o1) r)"
proof -
  obtain sats c1 n c2 s where 1: "rd_u64 (at_c pre rest) = Inr (sats, c1)" and 2: "rd_u8 c1 = Inr (n, c2)"
    and 3: "take_c n c2 = Inr (s, c')" and n: "MIN_SCRIPT \<le> n" "n \<le> MAX_SCRIPT" and o1: "o1 = \<lparr>op_sats = sats, op_script = s\<rparr>"
    using assms by (auto simp: rd_output_def rbind_Inr_iff rret_def split: if_splits)
  define x r where "x = take 8 rest" and "r = drop 8 rest"
  have x: "length x = 8" "rest = x @ r" "sats = le_nat x" "c1 = at_c (pre @ x) r"
    using 1 by (auto simp: rd_u64_def rbind_Inr_iff take_c_at x_def r_def split: if_splits)
  obtain b r1 where r: "r = b # r1" using 2 x(4) by (cases r) auto
  then have c2: "c2 = at_c (pre @ x @ [b]) r1" "n = unat b" using 2 x(4) by simp_all
  have s: "s = take n r1" "n \<le> length r1" "c' = at_c (pre @ x @ [b] @ s) (drop n r1)"
    using 3 c2(1) by (auto simp: take_c_at split: if_splits)
  have "x = le_bytes 8 sats" "b = of_nat (length s)" "sats \<le> u64_max" "length s = n"
    using x(1,3) s(1,2) c2(2) le_nat_lt [of x] by simp_all
  then show ?thesis using x(2) r s n o1
    by (intro conjI exI [of _ "drop n r1"]) (simp_all add: write_output_def output_ok_def)
qed

lemma decode_outputs_step:
  "output_ok o1 \<Longrightarrow> length out < MAX_OUTPUTS \<Longrightarrow>
   decode_outputs out (at_c pre (write_output o1 @ rest)) = decode_outputs (out @ [o1]) (at_c (pre @ write_output o1) rest)"
proof -
  assume ok: "output_ok o1" "length out < MAX_OUTPUTS"
  have "write_output o1 \<noteq> []" by (simp add: write_output_def)
  then show ?thesis using ok by (subst decode_outputs.simps) (simp add: rd_output_reads Let_def)
qed

lemma decode_outputs_reads:
  "list_all output_ok outs \<Longrightarrow> length out + length outs \<le> MAX_OUTPUTS \<Longrightarrow>
   decode_outputs out (at_c pre (concat (map write_output outs))) = Inr (out @ outs, at_c (pre @ concat (map write_output outs)) [])"
proof (induction outs arbitrary: out pre)
  case Nil
  then show ?case by (simp add: decode_outputs.simps)
next
  case (Cons o1 outs)
  then show ?case by (simp add: decode_outputs_step)
qed

lemma decode_outputs_inverse:
  assumes "decode_outputs out (at_c pre rest) = Inr (res, c')" "length out \<le> MAX_OUTPUTS"
  shows "\<exists>outs. res = out @ outs \<and> rest = concat (map write_output outs) \<and> list_all output_ok outs \<and> length res \<le> MAX_OUTPUTS"
  using assms
proof (induction "length rest" arbitrary: out pre rest rule: less_induct)
  case less
  show ?case
  proof (cases "rest = []")
    case True
    then show ?thesis using less.prems by (intro exI [of _ "[]"]) (simp add: decode_outputs.simps)
  next
    case False
    then obtain o1 c1 where 1: "rd_output (at_c pre rest) = Inr (o1, c1)" and len: "length (out @ [o1]) \<le> MAX_OUTPUTS"
      and 2: "decode_outputs (out @ [o1]) c1 = Inr (res, c')"
      using less.prems(1) by (subst (asm) decode_outputs.simps) (auto simp: Let_def split: sum.splits if_splits)
    obtain r where ok: "output_ok o1" and r: "rest = write_output o1 @ r" "c1 = at_c (pre @ write_output o1) r"
      using rd_output_inverse [OF 1] by blast
    have "length r < length rest" using r(1) by (simp add: write_output_def)
    from less.hyps [OF this 2 [unfolded r(2)] len] obtain outs where
      "res = (out @ [o1]) @ outs" "r = concat (map write_output outs)" "list_all output_ok outs" "length res \<le> MAX_OUTPUTS"
      by blast
    then show ?thesis using ok r(1) by (intro exI [of _ "o1 # outs"]) simp
  qed
qed

section \<open>Properties\<close>

text \<open>
  The coinbaser codec is exact. A byte string decodes to an id and a list of outputs if and only if it
  is the encoding of that list, the list has at most 512 outputs and every script 2 to 64 bytes: nothing
  is lost, nothing is read two ways and nothing out of bounds is accepted.
\<close>

theorem coinbaser_codec_exact:
  "decode_v2 bytes = Inr (i, outs) \<longleftrightarrow>
     i < 256 \<and> length outs \<le> MAX_OUTPUTS \<and> list_all output_ok outs \<and> bytes = encode_v2 i outs"
proof
  assume "decode_v2 bytes = Inr (i, outs)"
  then obtain b r c' where "bytes = b # r" "i = unat b" and d: "decode_outputs [] (at_c [b] r) = Inr (outs, c')"
    by (cases bytes) (auto simp: decode_v2_def parsed_def rbind_def split: sum.splits)
  then show "i < 256 \<and> length outs \<le> MAX_OUTPUTS \<and> list_all output_ok outs \<and> bytes = encode_v2 i outs"
    using decode_outputs_inverse [OF d] by (auto simp: encode_v2_def)
next
  assume "i < 256 \<and> length outs \<le> MAX_OUTPUTS \<and> list_all output_ok outs \<and> bytes = encode_v2 i outs"
  then show "decode_v2 bytes = Inr (i, outs)"
    using decode_outputs_reads [of outs "[]" "[of_nat i]"] by (simp add: decode_v2_def encode_v2_def parsed_def)
qed

end
