(* ===== verification/Wire_Pow.thy ===== *)
theory Wire_Pow
  imports Wire_Cursor
begin

text \<open>
  The header-v2 proof of work, \<^verbatim>\<open>prime/wire/src/pow.rs\<close>. SHA256 and BLAKE2b come from third-party crates:
  they are the two fields of the record \<open>hashes\<close>, an argument of what uses them, and \<open>hash_law\<close> says they
  return 32 bytes. Hashes are byte lists in the order the source keeps them.
\<close>

unbundle bit_operations_syntax

section \<open>Model\<close>

definition HEADER_V2_LEN :: nat where "HEADER_V2_LEN = 164"
definition V2_BIT :: nat where "V2_BIT = 0x80000000"
definition FLAG_USE_TIME_OFFSET :: nat where "FLAG_USE_TIME_OFFSET = 0x04"
definition SIA_COINB1_LEN :: nat where "SIA_COINB1_LEN = 39"
definition WORK_LEN :: nat where "WORK_LEN = 80"

record hashes =
  hs_sha256 :: "byte list \<Rightarrow> byte list"
  hs_blake2b :: "byte list \<Rightarrow> byte list"

definition hash_law :: "hashes \<Rightarrow> bool" where
  "hash_law H \<longleftrightarrow> (\<forall>d. length (hs_sha256 H d) = 32 \<and> length (hs_blake2b H d) = 32)"

definition sha256 :: "hashes \<Rightarrow> byte list \<Rightarrow> byte list" where
  "sha256 H d = hs_sha256 H d"

definition sha256d :: "hashes \<Rightarrow> byte list \<Rightarrow> byte list" where
  "sha256d H d = sha256 H (sha256 H d)"

definition tagged_sha256 :: "hashes \<Rightarrow> string \<Rightarrow> byte list \<Rightarrow> byte list" where
  "tagged_sha256 H tag d = (let t = sha256 H (ascii tag) in hs_sha256 H (t @ t @ d))"

definition blake2b256 :: "hashes \<Rightarrow> byte list \<Rightarrow> byte list" where
  "blake2b256 H d = hs_blake2b H d"

definition merkle_root :: "hashes \<Rightarrow> byte list \<Rightarrow> byte list list \<Rightarrow> byte list" where
  "merkle_root H txid branches = foldl (\<lambda>acc b. sha256d H (acc @ b)) txid branches"

text \<open>One level of the tree with a hole where the coinbase path runs: an odd level repeats its last entry,
  then neighbours pair up.\<close>

definition pad_level :: "'a list \<Rightarrow> 'a list" where
  "pad_level level = (if length level mod 2 = 1 then level @ [last level] else level)"

fun pair_up :: "('a \<Rightarrow> 'a \<Rightarrow> 'a) \<Rightarrow> 'a list \<Rightarrow> 'a list" where
  "pair_up f (a # b # xs) = f a b # pair_up f xs"
| "pair_up f _ = []"

definition pair_hash :: "hashes \<Rightarrow> byte list option \<Rightarrow> byte list option \<Rightarrow> byte list option" where
  "pair_hash H a b = (case (a, b) of (Some x, Some y) \<Rightarrow> Some (sha256d H (x @ y)) | _ \<Rightarrow> None)"

lemma length_pair_up: "length (pair_up f xs) = length xs div 2"
  by (induction f xs rule: pair_up.induct) auto

lemma length_pad_level: "length (pad_level xs) div 2 = (length xs + 1) div 2"
  by (simp add: pad_level_def) presburger

text \<open>\<open>None\<close> is the \<^verbatim>\<open>expect\<close> on the sibling of the coinbase path.\<close>

function branch_loop :: "hashes \<Rightarrow> byte list option list \<Rightarrow> byte list list option" where
  "branch_loop H level = (if length level > 1 then do {
       b \<leftarrow> level ! 1;
       bs \<leftarrow> branch_loop H (pair_up (pair_hash H) (pad_level level));
       Some (b # bs) }
     else Some [])"
  by pat_completeness auto
termination
  by (relation "measure (\<lambda>(H, level). length level)") (auto simp: length_pair_up length_pad_level)

declare branch_loop.simps [simp del]

definition merkle_branches_for_coinbase :: "hashes \<Rightarrow> byte list list \<Rightarrow> byte list list option" where
  "merkle_branches_for_coinbase H txids = branch_loop H (None # map Some txids)"

record commitment =
  cm_version :: u32
  cm_prev_hash :: "byte list"
  cm_height :: u32
  cm_merkle_root :: "byte list"
  cm_time_on_wire :: u32
  cm_nbits :: u32
  cm_txcount :: u32
  cm_flags :: u8
  cm_xor_clear_bits :: u8
  cm_xor_key :: "byte list"
  cm_rhs :: "byte list"

definition xor_key_hash :: "hashes \<Rightarrow> byte list \<Rightarrow> byte list" where
  "xor_key_hash H key = tagged_sha256 H ''Bitcoin block hash PoW XOR key'' key"

definition h1_preimage :: "hashes \<Rightarrow> commitment \<Rightarrow> byte list" where
  "h1_preimage H c = le_bytes 4 (cm_version c OR V2_BIT) @ rev (cm_prev_hash c) @ le_bytes 4 (cm_height c)
     @ cm_merkle_root c @ le_bytes 4 (cm_time_on_wire c) @ [0] @ le_bytes 4 (cm_nbits c) @ le_bytes 4 (cm_txcount c)
     @ [of_nat (cm_flags c), of_nat (cm_xor_clear_bits c)] @ xor_key_hash H (cm_xor_key c)"

definition h2 :: "hashes \<Rightarrow> commitment \<Rightarrow> byte list" where
  "h2 H c = (let h1 = tagged_sha256 H ''Bitcoin block header 1'' (h1_preimage H c) in
     tagged_sha256 H ''Merge-mining hook'' (h1 @ replicate 32 0 @ cm_rhs c))"

definition xor_mask :: "hashes \<Rightarrow> byte list \<Rightarrow> u8 \<Rightarrow> byte list" where
  "xor_mask H key clear_bits =
     (if list_all (\<lambda>b. b = 0) key then replicate 32 0
      else let m = tagged_sha256 H ''Bitcoin block hash PoW XOR mask'' key;
               n = clear_bits div 8;
               m = replicate (min n (length m)) 0 @ drop n m
           in if n < 32 then m[n := (m ! n) AND drop_bit (clear_bits mod 8) 0xff] else m)"

definition sia_coinb1 :: "byte list \<Rightarrow> byte list" where
  "sia_coinb1 h = replicate 3 0 @ h @ replicate 4 0"

definition work_root :: "hashes \<Rightarrow> byte list \<Rightarrow> byte list \<Rightarrow> byte list" where
  "work_root H h extranonce = blake2b256 H ([0] @ sia_coinb1 h @ extranonce)"

definition sia_prevhash :: "hashes \<Rightarrow> byte list \<Rightarrow> byte list" where
  "sia_prevhash H prev_internal =
     replicate 6 0 @ drop 6 (tagged_sha256 H ''Bitcoin prevblock header, hashed'' (rev prev_internal))"

definition work_header :: "byte list \<Rightarrow> byte list \<Rightarrow> byte list \<Rightarrow> byte list \<Rightarrow> byte list" where
  "work_header sia_prev nonce8 ntime8 root = sia_prev @ nonce8 @ ntime8 @ root"

definition pow_hash_le :: "hashes \<Rightarrow> byte list \<Rightarrow> byte list \<Rightarrow> u8 \<Rightarrow> byte list" where
  "pow_hash_le H work xor_key clear_bits = rev (map2 (XOR) (blake2b256 H work) (xor_mask H xor_key clear_bits))"

record job_work =
  jw_sia_prev :: "byte list"
  jw_root :: "byte list"
  jw_mask :: "byte list"

definition new_job_work :: "hashes \<Rightarrow> commitment \<Rightarrow> byte list \<Rightarrow> job_work" where
  "new_job_work H c extranonce = \<lparr>jw_sia_prev = sia_prevhash H (cm_prev_hash c), jw_root = work_root H (h2 H c) extranonce,
     jw_mask = xor_mask H (cm_xor_key c) (cm_xor_clear_bits c)\<rparr>"

definition job_hash :: "hashes \<Rightarrow> job_work \<Rightarrow> byte list \<Rightarrow> byte list \<Rightarrow> byte list" where
  "job_hash H j nonce8 ntime8 =
     rev (map2 (XOR) (blake2b256 H (work_header (jw_sia_prev j) nonce8 ntime8 (jw_root j))) (jw_mask j))"

text \<open>The bit shift of \<^verbatim>\<open>shr_le\<close>: byte \<open>i\<close> takes its high bits from byte \<open>i + 1\<close>, which the loop has not
  changed yet.\<close>

fun shr_bits :: "nat \<Rightarrow> byte list \<Rightarrow> byte list" where
  "shr_bits r [] = []"
| "shr_bits r [b] = [drop_bit r b]"
| "shr_bits r (b # b' # bs) = (drop_bit r b OR push_bit (8 - r) b') # shr_bits r (b' # bs)"

definition shr_le :: "byte list \<Rightarrow> nat \<Rightarrow> byte list" where
  "shr_le n bits = (let k = bits div 8; r = bits mod 8;
       n = (if k > 0 then drop k n @ replicate k 0 else n)
     in if r > 0 then shr_bits r n else n)"

definition share_target_le :: "u8 \<Rightarrow> byte list option" where
  "share_target_le pot = (if pot \<ge> 224 then None
     else Some (shr_le (replicate 28 0xff @ replicate 4 0) pot))"

text \<open>The three mantissa bytes placed at \<open>exp - 3\<close>; a byte past the end must be zero.\<close>

fun place_mant :: "nat \<Rightarrow> byte list \<Rightarrow> byte list \<Rightarrow> byte list option" where
  "place_mant idx [] t = Some t"
| "place_mant idx (b # bs) t =
     (if idx < 32 then place_mant (idx + 1) bs (t[idx := b])
      else if b \<noteq> 0 then None else place_mant (idx + 1) bs t)"

definition nbits_to_target_le :: "u32 \<Rightarrow> byte list option" where
  "nbits_to_target_le nbits = (let ex = nbits div 2 ^ 24; mant = nbits mod 2 ^ 23 in
     if bit nbits 23 \<or> mant = 0 then None
     else if ex \<le> 3 then Some (le_bytes 4 (mant div 2 ^ (8 * (3 - ex))) @ replicate 28 0)
     else if ex > 32 then None
     else place_mant (ex - 3) (take 3 (le_bytes 4 mant)) (replicate 32 0))"

text \<open>The comparison from the most significant byte down, on the reversed lists.\<close>

fun le_from_top :: "byte list \<Rightarrow> byte list \<Rightarrow> bool" where
  "le_from_top (a # as) (b # bs) = (if a \<noteq> b then a < b else le_from_top as bs)"
| "le_from_top _ _ = True"

definition meets_target :: "byte list \<Rightarrow> byte list \<Rightarrow> bool" where
  "meets_target hash_le target_le = le_from_top (rev hash_le) (rev target_le)"

definition leading_zeros8 :: "byte \<Rightarrow> nat" where
  "leading_zeros8 b = length (takeWhile (\<lambda>i. \<not> bit b i) (rev [0..<8]))"

fun zeros_from_top :: "byte list \<Rightarrow> nat" where
  "zeros_from_top [] = 0"
| "zeros_from_top (b # bs) = (if b = 0 then 8 + zeros_from_top bs else leading_zeros8 b)"

definition hash_pot :: "byte list \<Rightarrow> u32" where
  "hash_pot hash_le = zeros_from_top (rev hash_le) - 32"

definition share_ntime :: "u32 \<Rightarrow> byte list \<Rightarrow> u8 \<Rightarrow> u32" where
  "share_ntime time_on_wire ntime8 flags =
     (if flags AND FLAG_USE_TIME_OFFSET = 0 then time_on_wire
      else (time_on_wire + le_nat (take 4 ntime8)) mod 4294967296)"

definition serialize_header_v2 :: "commitment \<Rightarrow> byte list \<Rightarrow> byte list \<Rightarrow> byte list \<Rightarrow> byte list" where
  "serialize_header_v2 c nonce8 ntime8 extranonce =
     le_bytes 4 (cm_version c OR V2_BIT) @ cm_prev_hash c @ cm_merkle_root c @ le_bytes 4 (cm_time_on_wire c)
     @ le_bytes 4 (cm_nbits c) @ nonce8 @ drop 4 ntime8 @ replicate 4 0 @ extranonce @ take 4 ntime8
     @ le_bytes 2 (cm_txcount c) @ [of_nat (cm_flags c), of_nat (cm_xor_clear_bits c)] @ cm_xor_key c
     @ le_bytes 4 (cm_height c) @ cm_rhs c"

section \<open>The merkle tree\<close>

text \<open>Reference: the root of the whole tree, level by level.\<close>

function tree_root :: "hashes \<Rightarrow> byte list list \<Rightarrow> byte list" where
  "tree_root H level = (if length level > 1 then tree_root H (pair_up (\<lambda>x y. sha256d H (x @ y)) (pad_level level)) else hd level)"
  by pat_completeness auto
termination by (relation "measure (\<lambda>(H, level). length level)") (auto simp: length_pair_up length_pad_level)

declare tree_root.simps [simp del]

lemma pair_up_map: "(\<And>a b. g (f a) (f b) = f (h a b)) \<Longrightarrow> pair_up g (map f xs) = map f (pair_up h xs)"
  by (induction h xs rule: pair_up.induct) auto

lemma branches_fold:
  "\<exists>bs. branch_loop H (None # map Some hs) = Some bs \<and> (\<forall>t. merkle_root H t bs = tree_root H (t # hs))"
proof (induction "length hs" arbitrary: hs rule: less_induct)
  case less
  show ?case
  proof (cases hs)
    case Nil
    then show ?thesis by (intro exI [of _ "[]"]) (simp add: branch_loop.simps tree_root.simps merkle_root_def)
  next
    case (Cons b r)
    define r' where "r' = (if length r mod 2 = 1 then r @ [last (b # r)] else r)"
    define up where "up = pair_up (\<lambda>x y. sha256d H (x @ y)) r'"
    have pad: "pad_level (t # hs) = t # b # r'" for t using Cons by (auto simp: pad_level_def r'_def)
    have "pad_level (None # map Some hs) = None # Some b # map Some r'"
      using Cons by (auto simp: pad_level_def r'_def last_map)
    then have lvl: "pair_up (pair_hash H) (pad_level (None # map Some hs)) = None # map Some up"
      using pair_up_map [of "pair_hash H" Some "\<lambda>x y. sha256d H (x @ y)" r'] by (simp add: pair_hash_def up_def)
    have "length up < length hs" using Cons by (auto simp: up_def length_pair_up r'_def)
    from less.hyps [OF this] obtain bs where bs: "branch_loop H (None # map Some up) = Some bs"
      "\<And>t. merkle_root H t bs = tree_root H (t # up)" by blast
    have "branch_loop H (None # map Some hs) = Some (b # bs)"
      using Cons bs(1) lvl by (subst branch_loop.simps) simp
    moreover have "merkle_root H t (b # bs) = tree_root H (t # hs)" for t
    proof -
      have "tree_root H (t # hs) = tree_root H (sha256d H (t @ b) # up)"
        using Cons pad by (subst tree_root.simps) (simp add: up_def)
      then show ?thesis using bs(2) [of "sha256d H (t @ b)"] by (simp add: merkle_root_def)
    qed
    ultimately show ?thesis by blast
  qed
qed

section \<open>Targets\<close>

lemma shifted_byte:
  assumes "0 < r" "r < 8"
  shows "unat (drop_bit r b OR push_bit (8 - r) (c :: byte)) = unat b div 2 ^ r + 2 ^ (8 - r) * (unat c mod 2 ^ r)"
proof -
  have u: "unat (drop_bit r b) = drop_bit r (unat b)"
    by (rule bit_eqI) (auto simp: bit_simps dest: bit_imp_le_length)
  have v: "unat (push_bit (8 - r) c) = take_bit 8 (push_bit (8 - r) (unat c))" by (simp add: unsigned_push_bit_eq)
  have lt: "bit b n \<Longrightarrow> n < 8" for n using bit_imp_le_length [of b n] by simp
  have "\<not> bit (drop_bit r (unat b)) n \<or> \<not> bit (take_bit 8 (push_bit (8 - r) (unat c))) n" for n
    using assms lt [of "r + n"] by (auto simp: bit_simps)
  then have "unat (drop_bit r b OR push_bit (8 - r) c) = drop_bit r (unat b) + take_bit 8 (push_bit (8 - r) (unat c))"
    unfolding unsigned_or_eq u v by (simp add: disjunctive_add)
  also have "take_bit 8 (push_bit (8 - r) (unat c)) = 2 ^ (8 - r) * (unat c mod 2 ^ r)"
  proof -
    have "(2 :: nat) ^ 8 = 2 ^ (8 - r) * 2 ^ r" using assms by (simp flip: power_add)
    then show ?thesis unfolding take_bit_eq_mod push_bit_eq_mult by (simp only: mult.commute [of "unat c"] mult_mod_right)
  qed
  finally show ?thesis by (simp add: drop_bit_eq_div)
qed

lemma shr_bits_div:
  assumes "0 < r" "r < 8"
  shows "le_nat (shr_bits r n) = le_nat n div 2 ^ r"
  using assms
proof (induction r n rule: shr_bits.induct)
  case (2 r b)
  have "unat (drop_bit r b) = drop_bit r (unat b)"
    by (rule bit_eqI) (auto simp: bit_simps dest: bit_imp_le_length)
  then show ?case by (simp add: drop_bit_eq_div)
next
  case (3 r b b' bs)
  let ?X = "le_nat (b' # bs)"
  have p: "(256 :: nat) = 2 ^ (8 - r) * 2 ^ r" using "3.prems" by (simp flip: power_add)
  have "?X mod 2 ^ r = unat b' mod 2 ^ r"
    by (simp add: p mult.assoc mod_add_right_eq [symmetric] mult.commute)
  moreover have "?X = 2 ^ r * (?X div 2 ^ r) + ?X mod 2 ^ r" by simp
  ultimately have "2 ^ (8 - r) * ?X = 2 ^ (8 - r) * (unat b' mod 2 ^ r) + 256 * (?X div 2 ^ r)"
    unfolding p by (metis (no_types, opaque_lifting) add.commute distrib_left mult.assoc)
  moreover have "(unat b + 256 * ?X) div 2 ^ r = unat b div 2 ^ r + 2 ^ (8 - r) * ?X"
  proof -
    have "unat b + 256 * ?X = unat b + 2 ^ r * (2 ^ (8 - r) * ?X)" unfolding p by (simp add: mult.commute mult.left_commute)
    then show ?thesis by simp
  qed
  ultimately show ?case using "3.IH" "3.prems" shifted_byte [OF "3.prems", of b b'] by simp
qed simp

lemma length_shr_bits: "length (shr_bits r n) = length n"
  by (induction r n rule: shr_bits.induct) simp_all

lemma le_nat_append': "le_nat (xs @ ys) = le_nat xs + 256 ^ length xs * le_nat ys"
  by (induction xs) (simp_all add: algebra_simps)

lemma le_nat_replicate_0 [simp]: "le_nat (replicate n 0) = 0"
  by (induction n) simp_all

lemma le_nat_replicate_ff: "le_nat (replicate n 0xff) + 1 = 256 ^ n"
  by (induction n) simp_all

lemma shr_le_div:
  assumes "bits \<le> 8 * length n"
  shows "le_nat (shr_le n bits) = le_nat n div 2 ^ bits" and "length (shr_le n bits) = length n"
proof -
  let ?k = "bits div 8" and ?r = "bits mod 8"
  let ?n = "if ?k > 0 then drop ?k n @ replicate ?k 0 else n"
  have k: "?k \<le> length n" using assms by simp
  have "le_nat n = le_nat (take ?k n) + 256 ^ ?k * le_nat (drop ?k n)"
    using le_nat_append' [of "take ?k n" "drop ?k n"] k by simp
  moreover have "le_nat (take ?k n) < 256 ^ ?k" using le_nat_lt [of "take ?k n"] k by simp
  ultimately have "le_nat n div 256 ^ ?k = le_nat (drop ?k n)" by simp
  then have n: "le_nat ?n = le_nat n div 256 ^ ?k" by (simp add: le_nat_append')
  have "(2 :: nat) ^ bits = 2 ^ (8 * ?k + ?r)" by simp
  also have "\<dots> = 256 ^ ?k * 2 ^ ?r" by (simp only: power_add power_mult) simp
  finally have "le_nat n div 2 ^ bits = le_nat n div 256 ^ ?k div 2 ^ ?r" by (simp add: div_mult2_eq)
  then show "le_nat (shr_le n bits) = le_nat n div 2 ^ bits"
    using n shr_bits_div [of ?r ?n] by (auto simp: shr_le_def Let_def)
  show "length (shr_le n bits) = length n" using k by (simp add: shr_le_def Let_def length_shr_bits)
qed

lemma share_target_value:
  assumes "pot < 224"
  obtains t where "share_target_le pot = Some t" "length t = 32" "le_nat t = (2 ^ 224 - 1) div 2 ^ pot"
proof -
  have "le_nat (replicate 28 0xff) + 1 = 2 ^ 224" using le_nat_replicate_ff [of 28] by simp
  then have "le_nat (replicate 28 0xff @ replicate 4 0) = 2 ^ 224 - 1" by (simp add: le_nat_append')
  then show thesis using assms shr_le_div [of pot "replicate 28 0xff @ replicate 4 0"]
    by (intro that) (simp_all add: share_target_le_def)
qed

lemma le_from_top_nat:
  "length as = length bs \<Longrightarrow> le_from_top as bs \<longleftrightarrow> le_nat (rev as) \<le> le_nat (rev bs)"
proof (induction as bs rule: le_from_top.induct)
  case (1 a as b bs)
  have lt: "le_nat (rev as) < 256 ^ length as" "le_nat (rev bs) < 256 ^ length as"
    using le_nat_lt [of "rev as"] le_nat_lt [of "rev bs"] "1.prems" by simp_all
  have step: "unat x < unat y \<Longrightarrow> le_nat (rev xs) < 256 ^ length as \<Longrightarrow>
      le_nat (rev xs) + 256 ^ length as * unat x < le_nat (rev ys) + 256 ^ length as * unat y" for x y :: byte and xs ys
  proof -
    assume "unat x < unat y" "le_nat (rev xs) < 256 ^ length as"
    then have "le_nat (rev xs) + 256 ^ length as * unat x < 256 ^ length as * (unat x + 1)" by simp
    also have "\<dots> \<le> 256 ^ length as * unat y" using \<open>unat x < unat y\<close> by (intro mult_left_mono) simp_all
    finally show ?thesis by simp
  qed
  show ?case
  proof (cases "a = b")
    case True
    then show ?thesis using 1 by (simp add: le_nat_append')
  next
    case False
    then have "unat a < unat b \<or> unat b < unat a" by (metis linorder_neqE_nat word_unat_eq_iff)
    then show ?thesis using False "1.prems" step [of a b as bs] step [of b a bs as] lt
      by (auto simp: le_nat_append' word_less_nat_alt)
  qed
qed auto

lemma meets_target_nat: "length h = length t \<Longrightarrow> meets_target h t \<longleftrightarrow> le_nat h \<le> le_nat t"
  by (simp add: meets_target_def le_from_top_nat)

lemma nbits_high:
  assumes "4 \<le> nbits div 2 ^ 24" "nbits div 2 ^ 24 \<le> 32" "\<not> bit nbits 23" "nbits mod 2 ^ 23 \<noteq> 0"
  shows "nbits_to_target_le nbits = Some (replicate (nbits div 2 ^ 24 - 3) 0 @ le_bytes 3 (nbits mod 2 ^ 23) @ replicate (32 - nbits div 2 ^ 24) 0)"
proof -
  define e m where "e = nbits div 2 ^ 24 - 3" and "m = nbits mod 2 ^ 23"
  have e: "1 \<le> e" "e \<le> 29" using assms(1,2) by (auto simp: e_def)
  have n4: "(4 :: nat) = Suc 3" and n3: "(3 :: nat) = Suc (Suc (Suc 0))" by simp_all
  obtain x y z where xyz: "le_bytes 3 m = [x, y, z]" unfolding n3 by (simp only: le_bytes.simps)
  have t3: "take 3 (le_bytes 4 m) = [x, y, z]" using xyz unfolding n4 n3 by (simp only: le_bytes.simps take_Suc_Cons take_0)
  define k where "k = 29 - e"
  have k: "32 = e + 3 + k" using e by (simp add: k_def)
  have "replicate 32 (0 :: byte) = replicate e 0 @ [0, 0, 0] @ replicate k 0"
  proof -
    have "replicate 32 (0 :: byte) = replicate e 0 @ replicate 3 0 @ replicate k 0" unfolding k by (simp only: replicate_add append_assoc)
    then show ?thesis by (simp add: numeral_3_eq_3)
  qed
  then have "place_mant e [x, y, z] (replicate 32 0) = Some (replicate e 0 @ [x, y, z] @ replicate k 0)"
    using e by (simp add: list_update_append)
  moreover have "nbits_to_target_le nbits = place_mant e [x, y, z] (replicate 32 0)"
    using assms t3 by (simp add: nbits_to_target_le_def Let_def e_def m_def)
  moreover have "k = 32 - nbits div 2 ^ 24" using k assms(1) by (simp add: e_def)
  ultimately show ?thesis using xyz by (simp add: e_def m_def)
qed

section \<open>Properties\<close>

text \<open>
  Folding the coinbase through the branches a gateway derives from the other transactions gives the root
  of the whole merkle tree, whatever their number; the derivation never fails to find the sibling it needs.
\<close>

theorem merkle_branches_correct:
  "\<exists>bs. merkle_branches_for_coinbase H txids = Some bs \<and> merkle_root H txid bs = tree_root H (txid # txids)"
  using branches_fold [of H txids] by (auto simp: merkle_branches_for_coinbase_def)

text \<open>
  Share targets and their comparison are exact: for every power of two below 224 the target is the number
  \<^verbatim>\<open>(2^224 - 1) >> pot\<close>, and a hash meets it if and only if, read as a little-endian number, it is at most
  that.
\<close>

theorem share_target_exact:
  assumes "length h = 32"
  shows "case share_target_le pot of None \<Rightarrow> 224 \<le> pot
    | Some t \<Rightarrow> pot < 224 \<and> length t = 32 \<and> (meets_target h t \<longleftrightarrow> le_nat h \<le> (2 ^ 224 - 1) div 2 ^ pot)"
proof (cases "pot < 224")
  case True
  then show ?thesis using assms by (rule_tac share_target_value [of pot]) (simp_all add: meets_target_nat)
next
  case False
  then show ?thesis by (simp add: share_target_le_def)
qed

text \<open>
  The compact target of a block decodes to the number it stands for, mantissa times a power of 256, in 32
  bytes; a negative or zero mantissa, or an exponent past 32, gives no target.
\<close>

theorem nbits_target_exact:
  "case nbits_to_target_le nbits of
     None \<Rightarrow> bit nbits 23 \<or> nbits mod 2 ^ 23 = 0 \<or> 32 < nbits div 2 ^ 24
   | Some t \<Rightarrow> length t = 32 \<and> le_nat t =
       (if nbits div 2 ^ 24 \<le> 3 then nbits mod 2 ^ 23 div 256 ^ (3 - nbits div 2 ^ 24)
        else nbits mod 2 ^ 23 * 256 ^ (nbits div 2 ^ 24 - 3))"
proof -
  define e m where "e = nbits div 2 ^ 24" and "m = nbits mod 2 ^ 23"
  have m: "m < 2 ^ 23" by (simp add: m_def)
  consider "bit nbits 23 \<or> m = 0 \<or> 32 < e" | "\<not> bit nbits 23" "m \<noteq> 0" "e \<le> 3" | "\<not> bit nbits 23" "m \<noteq> 0" "4 \<le> e" "e \<le> 32"
    by linarith
  then show ?thesis
  proof cases
    case 1
    then have "nbits_to_target_le nbits = None" by (auto simp: nbits_to_target_le_def Let_def e_def m_def)
    then show ?thesis using 1 by (simp add: e_def m_def)
  next
    case 2
    have pow: "(2 :: nat) ^ (8 * (3 - e)) = 256 ^ (3 - e)" by (simp add: power_mult)
    have "m div 256 ^ (3 - e) < 256 ^ 4" using m by (simp add: le_less_trans [OF div_le_dividend])
    moreover have "nbits_to_target_le nbits = Some (le_bytes 4 (m div 256 ^ (3 - e)) @ replicate 28 0)"
      using 2 pow by (simp add: nbits_to_target_le_def Let_def e_def m_def)
    ultimately show ?thesis using 2(3) unfolding e_def [symmetric] m_def [symmetric] by (simp add: le_nat_append')
  next
    case 3
    have "le_nat (le_bytes 3 m) = m" using m by simp
    then have "le_nat (replicate (e - 3) 0 @ le_bytes 3 m @ replicate (32 - e) 0) = m * 256 ^ (e - 3)"
      by (simp add: le_nat_append')
    then show ?thesis using nbits_high [of nbits] 3 unfolding e_def [symmetric] m_def [symmetric] by simp
  qed
qed

text \<open>The compact form allows exponents 33 and 34 for mantissas of two and one bytes; the guard refuses them
  before the loop that has a case for them.\<close>

theorem compact_33_refused:
  "nbits_to_target_le 0x2100ffff = None \<and> 0xffff * 256 ^ (0x21 - 3) < (2 :: nat) ^ 256"
  by (simp add: nbits_to_target_le_def Let_def bit_iff_odd)

theorem share_target_exact_witness:
  "\<exists>t. share_target_le 20 = Some t \<and> meets_target (replicate 32 0) t"
  using share_target_exact [of "replicate 32 0" 20] by (simp split: option.splits)

end
