(* ===== verification/Wire_Verify.thy ===== *)
theory Wire_Verify
  imports Wire_Mining Wire_Coinbase Wire_Coinbaser Wire_Pow "HOL-Library.AList"
begin

text \<open>
  Share verification, \<^verbatim>\<open>prime/wire/src/verify.rs\<close>: the job slots a session keeps, the classification of a
  share's coinbase, and \<^verbatim>\<open>verify\<close>, which rebuilds the header a miner hashed. A \<^verbatim>\<open>HashMap\<close> of the slot is an
  association list without repeated keys: \<^verbatim>\<open>insert\<close>, \<^verbatim>\<open>remove\<close> and \<^verbatim>\<open>retain\<close> are \<^const>\<open>AList.update\<close>,
  \<^const>\<open>AList.delete\<close> and \<^const>\<open>filter\<close>, and \<^verbatim>\<open>len\<close> is the length. The outer \<open>None\<close> of a result is a panic.
\<close>

section \<open>Job slots\<close>

definition MAX_TIME_AHEAD :: u32 where "MAX_TIME_AHEAD = 7200"
definition MAX_TIME_BEHIND :: u32 where "MAX_TIME_BEHIND = 3600"
definition MAX_COINBASE_SECTION_BYTES :: nat where "MAX_COINBASE_SECTION_BYTES = 20000"
definition MAX_COINBASES_PER_SLOT :: nat where "MAX_COINBASES_PER_SLOT = 8"
definition MAX_CB_CACHE :: nat where "MAX_CB_CACHE = 32"
definition MAX_CB_CACHE_BYTES :: nat where "MAX_CB_CACHE_BYTES = 384 * 1024"
definition MAX_H2_CACHE :: nat where "MAX_H2_CACHE = 64"

record absorbed =
  ab_job_changed :: bool
  ab_coinbase_added :: "u8 option"

type_synonym h2_key = "u8 \<times> u8 \<times> u32 \<times> u32 \<times> u32 \<times> u8"

record job_slot =
  sl_job :: "job_section option"
  sl_coinbases :: "(u8 \<times> coinbase_section) list"
  sl_h2_cache :: "(h2_key \<times> byte list) list"
  sl_cb_cache :: "((u8 \<times> u8) \<times> (byte list \<times> coinbase_tx)) list"
  sl_txcount_includes_coinbase :: "bool option"

definition empty_slot :: job_slot where
  "empty_slot = \<lparr>sl_job = None, sl_coinbases = [], sl_h2_cache = [], sl_cb_cache = [], sl_txcount_includes_coinbase = None\<rparr>"

definition section_bytes :: "coinbase_section \<Rightarrow> nat" where
  "section_bytes c = length (cs_coinb1 c) + length (cs_coinb2 c)"

definition absorb_job :: "pow_submit \<Rightarrow> job_slot \<Rightarrow> job_slot \<times> bool" where
  "absorb_job s slot = (case ps_job s of None \<Rightarrow> (slot, False)
     | Some j \<Rightarrow> if sl_job slot = Some j then (slot, False)
        else (slot\<lparr>sl_job := Some j, sl_coinbases := [], sl_h2_cache := [], sl_cb_cache := [],
          sl_txcount_includes_coinbase := None\<rparr>, True))"

definition absorb_coinbase :: "pow_submit \<Rightarrow> job_slot \<Rightarrow> job_slot \<times> (u16 + u8 option)" where
  "absorb_coinbase s slot = (case ps_coinbase s of None \<Rightarrow> (slot, Inr None)
     | Some c \<Rightarrow> let i = cs_coinbase_id c in
        if map_of (sl_coinbases slot) i = Some c then (slot, Inr None)
        else if map_of (sl_coinbases slot) i = None \<and> length (sl_coinbases slot) \<ge> MAX_COINBASES_PER_SLOT
        then (slot, Inl REJECT_BAD_COINBASE_ID)
        else (slot\<lparr>sl_coinbases := AList.update i c (sl_coinbases slot),
            sl_h2_cache := filter (\<lambda>(k, _). fst k \<noteq> i) (sl_h2_cache slot),
            sl_cb_cache := filter (\<lambda>(k, _). fst k \<noteq> i) (sl_cb_cache slot)\<rparr>, Inr (Some i)))"

definition absorb :: "pow_submit \<Rightarrow> job_slot \<Rightarrow> job_slot \<times> (u16 + absorbed)" where
  "absorb s slot =
     (if (case ps_coinbase s of Some c \<Rightarrow> section_bytes c > MAX_COINBASE_SECTION_BYTES | None \<Rightarrow> False)
      then (slot, Inl REJECT_COINBASE_TOO_LARGE)
      else case absorb_job s slot of (slot1, changed) \<Rightarrow>
        (case absorb_coinbase s slot1 of
           (slot2, Inl e) \<Rightarrow> (slot2, Inl e)
         | (slot2, Inr added) \<Rightarrow> (slot2, Inr \<lparr>ab_job_changed = changed, ab_coinbase_added = added\<rparr>)))"

definition forget_coinbase :: "u8 \<Rightarrow> job_slot \<Rightarrow> job_slot" where
  "forget_coinbase i slot = slot\<lparr>sl_coinbases := AList.delete i (sl_coinbases slot),
     sl_h2_cache := filter (\<lambda>(k, _). fst k \<noteq> i) (sl_h2_cache slot),
     sl_cb_cache := filter (\<lambda>(k, _). fst k \<noteq> i) (sl_cb_cache slot)\<rparr>"

definition evict_sections :: "job_slot \<Rightarrow> job_slot" where
  "evict_sections slot = slot\<lparr>sl_coinbases := [], sl_h2_cache := [], sl_cb_cache := []\<rparr>"

definition coinbase_bytes :: "job_slot \<Rightarrow> nat" where
  "coinbase_bytes slot = sum_list (map (section_bytes \<circ> snd) (sl_coinbases slot))"

definition txcount_convention :: "job_slot \<Rightarrow> bool option" where
  "txcount_convention slot = sl_txcount_includes_coinbase slot"

definition coinbase_id_for :: "pow_submit \<Rightarrow> u8" where
  "coinbase_id_for s = (if subsidy_only s then 0xff else ps_coinbase_id s)"

section \<open>What a coinbase pays\<close>

datatype coinbase_kind = Split | Partial u16 | PoolOnly | EmptySolo | GatewaySolo | Foreign

record policy =
  po_pool_script :: "byte list"
  po_issued :: "cb_output list option"
  po_tolerance :: u64
  po_now :: u32
  po_min_pot :: u8
  po_gateway_script :: "byte list option"
  po_empty_solo_fee_bps :: u32
  po_trusted_target :: bool
  po_uncommitted_pot :: u8
  po_held_split :: bool

definition fee_sats :: "u64 \<Rightarrow> u32 \<Rightarrow> u64" where
  "fee_sats value bps = trunc64 (value * bps div 10000)"

definition is_gateway :: "byte list \<Rightarrow> byte list option \<Rightarrow> bool" where
  "is_gateway script gateway \<longleftrightarrow> gateway = Some script"

definition empty_job :: "u32 \<Rightarrow> bool \<Rightarrow> bool" where
  "empty_job job_txn_count merkle_empty \<longleftrightarrow> merkle_empty \<and> job_txn_count \<le> 1"

definition gateway_only :: "coinbase_tx \<Rightarrow> byte list option \<Rightarrow> bool \<Rightarrow> u32 \<Rightarrow> bool \<Rightarrow> coinbase_kind option" where
  "gateway_only cb gateway sub_only job_txn_count merkle_empty = (case gateway of None \<Rightarrow> None
     | Some gw \<Rightarrow> if gw = [] then None
       else let paid = list_ex (\<lambda>t. \<not> is_op_return t \<and> to_script t = gw) (cb_outputs cb);
                only = list_all (\<lambda>t. (is_op_return t \<and> to_value t = 0) \<or> to_script t = gw) (cb_outputs cb) in
         if \<not> paid \<or> \<not> only then None
         else Some (if sub_only \<and> empty_job job_txn_count merkle_empty then EmptySolo
           else if \<not> sub_only then GatewaySolo else Foreign))"

record scan =
  sc_pool_paid :: bool
  sc_gateway_paid :: bool
  sc_gateway_sats :: u64
  sc_foreign :: u64

text \<open>The walk over the outputs; \<open>None\<close> is the early return on value in an OP_RETURN.\<close>

fun scan_outputs :: "policy \<Rightarrow> tx_out list \<Rightarrow> scan \<Rightarrow> scan option" where
  "scan_outputs p [] sc = Some sc"
| "scan_outputs p (t # ts) sc =
     (if is_op_return t then (if to_value t > 0 then None else scan_outputs p ts sc)
      else if to_script t = po_pool_script p then scan_outputs p ts (sc\<lparr>sc_pool_paid := True\<rparr>)
      else if is_gateway (to_script t) (po_gateway_script p) then
        scan_outputs p ts (sc\<lparr>sc_gateway_paid := True, sc_gateway_sats := sat_add64 (sc_gateway_sats sc) (to_value t)\<rparr>)
      else if (case po_issued p of None \<Rightarrow> False | Some iss \<Rightarrow> list_ex (\<lambda>i. op_script i = to_script t) iss)
        then scan_outputs p ts sc
      else scan_outputs p ts (sc\<lparr>sc_foreign := sc_foreign sc + 1\<rparr>))"

definition scale :: "u64 \<Rightarrow> u64 \<Rightarrow> u64 \<Rightarrow> u64" where
  "scale sats actual_value issued_value = trunc64 (sats * actual_value div issued_value)"

definition owed :: "u64 \<Rightarrow> u64 \<Rightarrow> u64 \<Rightarrow> u64" where
  "owed issued_value actual_value sats =
     (if issued_value = 0 \<or> actual_value \<ge> issued_value then sats else scale sats actual_value issued_value)"

definition cap :: "u64 \<Rightarrow> u64 \<Rightarrow> u64 \<Rightarrow> u64" where
  "cap issued_value actual_value sats =
     (if issued_value = 0 \<or> actual_value \<le> issued_value then sats else scale sats actual_value issued_value)"

text \<open>\<^verbatim>\<open>issued_to\<close>: what the list issues to one script in all.\<close>

definition issued_to :: "cb_output list \<Rightarrow> byte list \<Rightarrow> u64" where
  "issued_to miners script = fold (\<lambda>i a. sat_add64 a (op_sats i)) (filter (\<lambda>i. op_script i = script) miners) 0"

text \<open>The walk over the miners: outer \<open>None\<close> a panic, \<open>Inl\<close> the early return.\<close>

fun miner_loop :: "coinbase_tx \<Rightarrow> (u64 \<Rightarrow> u64) \<Rightarrow> (u64 \<Rightarrow> u64) \<Rightarrow> u64 \<Rightarrow> u64 \<Rightarrow> cb_output list \<Rightarrow> cb_output list
    \<Rightarrow> u16 \<Rightarrow> bool \<Rightarrow> (coinbase_kind + (u16 \<times> bool)) option" where
  "miner_loop cb ow cp tolerance slack miners [] present shorted = Some (Inr (present, shorted))"
| "miner_loop cb ow cp tolerance slack miners (i # is) present shorted =
     (let paid = paid_to (op_script i) cb in
      if paid > 0 then do {
        present \<leftarrow> chk u16_max (present + 1);
        let shorted = (shorted \<or> sat_add64 paid tolerance < ow (op_sats i));
        if paid > sat_add64 (cp (issued_to miners (op_script i))) slack then Some (Inl Foreign)
        else miner_loop cb ow cp tolerance slack miners is present shorted }
      else miner_loop cb ow cp tolerance slack miners is present shorted)"

text \<open>The part of \<^verbatim>\<open>classify_outputs\<close> under \<^verbatim>\<open>if let Some(iss) = issued\<close>; \<open>Some None\<close> falls through.\<close>

definition classify_issued ::
  "coinbase_tx \<Rightarrow> policy \<Rightarrow> cb_output list \<Rightarrow> scan \<Rightarrow> bool \<Rightarrow> u32 \<Rightarrow> bool \<Rightarrow> coinbase_kind option option" where
  "classify_issued cb p iss sc sub_only job_txn_count merkle_empty = do {
     let miners = filter (\<lambda>i. op_script i \<noteq> po_pool_script p) iss;
     issued_value \<leftarrow> sum_u64 (map op_sats iss);
     let actual_value = total_output_value cb;
     let slack = sat_add64 (po_tolerance p) (length iss);
     let gateway_listed = (case po_gateway_script p of None \<Rightarrow> False | Some g \<Rightarrow> list_ex (\<lambda>i. op_script i = g) iss);
     if sc_gateway_paid sc \<and> \<not> gateway_listed
        \<and> sc_gateway_sats sc > sat_add64 (min (actual_value - issued_value) (issued_value div 16)) slack
     then Some (Some (if sub_only \<and> \<not> empty_job job_txn_count merkle_empty then Foreign
            else if sub_only then EmptySolo else GatewaySolo))
     else do {
       r \<leftarrow> miner_loop cb (owed issued_value actual_value) (cap issued_value actual_value) (po_tolerance p) slack miners miners 0 False;
       case r of Inl k \<Rightarrow> Some (Some k)
       | Inr (present, shorted) \<Rightarrow>
           if \<not> shorted \<and> present = length miners \<and> (sc_pool_paid sc \<or> sc_gateway_paid sc \<or> miners \<noteq> [])
           then Some (Some Split)
           else if \<not> shorted \<and> present > 0 then Some (Some (Partial present))
           else Some None } }"

definition abs_diff :: "nat \<Rightarrow> nat \<Rightarrow> nat" where
  "abs_diff a b = (if a < b then b - a else a - b)"

definition classify_rest :: "coinbase_tx \<Rightarrow> policy \<Rightarrow> scan \<Rightarrow> bool \<Rightarrow> u32 \<Rightarrow> bool \<Rightarrow> coinbase_kind" where
  "classify_rest cb p sc sub_only job_txn_count merkle_empty =
     (let pool_script = po_pool_script p in
      if sc_pool_paid sc \<and> list_all (\<lambda>t. is_op_return t \<or> to_script t = pool_script) (cb_outputs cb) then PoolOnly
      else case gateway_only cb (po_gateway_script p) sub_only job_txn_count merkle_empty of
        Some k \<Rightarrow> k
      | None \<Rightarrow>
        let gw = (case po_gateway_script p of None \<Rightarrow> [] | Some g \<Rightarrow> g);
            gateway_and_pool = (sc_gateway_paid sc \<and> sc_pool_paid sc \<and> gw \<noteq> []
              \<and> list_all (\<lambda>t. is_op_return t \<or> to_script t = gw \<or> to_script t = pool_script) (cb_outputs cb)) in
        if gateway_and_pool \<and> po_empty_solo_fee_bps p > 0 \<and> sub_only \<and> empty_job job_txn_count merkle_empty
           \<and> abs_diff (paid_to pool_script cb) (fee_sats (total_output_value cb) (po_empty_solo_fee_bps p)) \<le> po_tolerance p
        then EmptySolo else Foreign)"

definition no_scan :: scan where
  "no_scan = \<lparr>sc_pool_paid = False, sc_gateway_paid = False, sc_gateway_sats = 0, sc_foreign = 0\<rparr>"

definition classify_outputs :: "coinbase_tx \<Rightarrow> policy \<Rightarrow> bool \<Rightarrow> u32 \<Rightarrow> bool \<Rightarrow> coinbase_kind option" where
  "classify_outputs cb p sub_only job_txn_count merkle_empty =
     (case scan_outputs p (cb_outputs cb) no_scan of None \<Rightarrow> Some Foreign
      | Some sc \<Rightarrow>
         if sc_foreign sc > 0 then Some Foreign
         else case po_issued p of
           None \<Rightarrow> Some (classify_rest cb p sc sub_only job_txn_count merkle_empty)
         | Some iss \<Rightarrow> do {
             k \<leftarrow> classify_issued cb p iss sc sub_only job_txn_count merkle_empty;
             Some (case k of Some k \<Rightarrow> k | None \<Rightarrow> classify_rest cb p sc sub_only job_txn_count merkle_empty) })"

definition classify_coinbase :: "coinbase_tx \<Rightarrow> policy \<Rightarrow> bool \<Rightarrow> u32 \<Rightarrow> bool \<Rightarrow> coinbase_kind option" where
  "classify_coinbase cb p sub_only job_txn_count merkle_empty = do {
     kind \<leftarrow> classify_outputs cb p sub_only job_txn_count merkle_empty;
     Some (if kind = Foreign \<and> po_held_split p then
         (case gateway_only cb (po_gateway_script p) sub_only job_txn_count merkle_empty of
            Some solo \<Rightarrow> solo | None \<Rightarrow> kind)
       else kind) }"

definition legacy_of :: "job_section \<Rightarrow> coinbase_section \<Rightarrow> u8 \<Rightarrow> byte list" where
  "legacy_of job sect target_pot = assemble (cs_coinb1 sect) (cs_coinb2 sect) (jb_target_byte_index job) (of_nat target_pot)"

definition coinbase_of :: "job_slot \<Rightarrow> pow_submit \<Rightarrow> coinbase_tx option" where
  "coinbase_of slot s = do {
     job \<leftarrow> sl_job slot;
     sect \<leftarrow> map_of (sl_coinbases slot) (coinbase_id_for s);
     case parse_coinbase (legacy_of job sect (ps_target_pot s)) of Inl _ \<Rightarrow> None | Inr c \<Rightarrow> Some c }"

definition remainder_on_gateway :: "coinbase_tx \<Rightarrow> policy \<Rightarrow> bool" where
  "remainder_on_gateway cb p = (case (po_issued p, po_gateway_script p) of
     (Some issued, Some gw) \<Rightarrow>
       if gw = [] \<or> gw = po_pool_script p then False
       else let outs = filter (\<lambda>t. \<not> is_op_return t) (cb_outputs cb) in
         list_all (\<lambda>t. to_script t = gw
           \<or> (to_script t \<noteq> po_pool_script p \<and> list_ex (\<lambda>i. op_script i = to_script t) issued)) outs
         \<and> list_ex (\<lambda>t. to_script t = gw) outs
   | _ \<Rightarrow> False)"

section \<open>Verification\<close>

record verified_share =
  vs_hash :: "byte list"
  vs_work :: u64
  vs_target_committed :: bool
  vs_target_pot :: u8
  vs_height :: u32
  vs_ntime :: u32
  vs_is_block_candidate :: bool
  vs_coinbase_kind :: coinbase_kind
  vs_coinbase_value :: u64
  vs_paid_to_pool :: u64
  vs_commitment :: commitment
  vs_coinbase_legacy :: "byte list"
  vs_coinbase :: coinbase_tx

definition commitment_for :: "job_section \<Rightarrow> u32 \<Rightarrow> u32 \<Rightarrow> u32 \<Rightarrow> u8 \<Rightarrow> byte list \<Rightarrow> commitment" where
  "commitment_for job version txcount time_on_wire flags root =
     \<lparr>cm_version = version, cm_prev_hash = jb_prev_hash job, cm_height = jb_height job, cm_merkle_root = root,
       cm_time_on_wire = time_on_wire, cm_nbits = nbits_u32 job, cm_txcount = txcount, cm_flags = flags,
       cm_xor_clear_bits = 0, cm_xor_key = replicate 16 0, cm_rhs = replicate 32 0\<rparr>"

definition job_root :: "hashes \<Rightarrow> job_section \<Rightarrow> byte list \<Rightarrow> byte list" where
  "job_root H job legacy = merkle_root H (sha256d H legacy) (jb_merkle_branches job)"

definition txcount_of :: "job_section \<Rightarrow> bool \<Rightarrow> u32" where
  "txcount_of job includes = (if includes then jb_txn_count job else (jb_txn_count job + 1) mod 4294967296)"

text \<open>The hash the hardware reached from a commitment \<open>h\<close>.\<close>

definition ground_hash :: "hashes \<Rightarrow> job_section \<Rightarrow> pow_submit \<Rightarrow> blake2b_section \<Rightarrow> byte list \<Rightarrow> byte list" where
  "ground_hash H job s b2 h =
     (let root = work_root H h (ps_extranonce s);
          sia_prev = sia_prevhash H (jb_prev_hash job);
          work = work_header sia_prev (bl_nonce b2) (bl_ntime b2) root
      in pow_hash_le H work (replicate 16 0) 0)"

text \<open>One turn of the loop over the transaction-count conventions: commitment, H2, cache key, hash.\<close>

definition attempt :: "hashes \<Rightarrow> job_slot \<Rightarrow> job_section \<Rightarrow> byte list \<Rightarrow> pow_submit \<Rightarrow> blake2b_section \<Rightarrow> u32 \<Rightarrow> u8 \<Rightarrow> bool
    \<Rightarrow> commitment \<times> byte list \<times> h2_key \<times> byte list" where
  "attempt H slot job legacy s b2 time_on_wire flags includes =
     (let txcount = txcount_of job includes;
          key = (coinbase_id_for s, ps_target_pot s, txcount, ps_version s, time_on_wire, flags);
          (c, h) = (case map_of (sl_h2_cache slot) key of
              Some h \<Rightarrow> (commitment_for job (ps_version s) txcount time_on_wire flags (replicate 32 0), h)
            | None \<Rightarrow> (let c = commitment_for job (ps_version s) txcount time_on_wire flags (job_root H job legacy) in (c, h2 H c)))
      in (c, h, key, ground_hash H job s b2 h))"

fun first_meeting :: "(bool \<Rightarrow> commitment \<times> byte list \<times> h2_key \<times> byte list) \<Rightarrow> byte list \<Rightarrow> bool list
    \<Rightarrow> (bool \<times> commitment \<times> byte list \<times> h2_key \<times> byte list) option" where
  "first_meeting f target [] = None"
| "first_meeting f target (i # is) = (case f i of (c, h, key, hash) \<Rightarrow>
     if meets_target hash target then Some (i, c, h, key, hash) else first_meeting f target is)"

definition conventions :: "job_slot \<Rightarrow> bool list" where
  "conventions slot = (case sl_txcount_includes_coinbase slot of Some b \<Rightarrow> [b] | None \<Rightarrow> [False, True])"

definition credited_work :: "policy \<Rightarrow> pow_submit \<Rightarrow> bool \<Rightarrow> byte list \<Rightarrow> u64" where
  "credited_work p s target_committed hash =
     (if target_committed \<and> ps_target_pot s \<ge> po_min_pot p then claimed_work s
      else let pot = max (po_uncommitted_pot p) (po_min_pot p);
               met = (case share_target_le pot of None \<Rightarrow> False | Some t \<Rightarrow> meets_target hash t)
           in if met \<and> pot < 64 then 2 ^ pot else 0)"

definition entry_cost :: "byte list \<times> coinbase_tx \<Rightarrow> nat" where
  "entry_cost e = length (fst e) + sum_list (map (\<lambda>t. 48 + length (to_script t)) (cb_outputs (snd e)))"

definition cache_coinbase :: "u8 \<times> u8 \<Rightarrow> (byte list \<times> coinbase_tx) option \<Rightarrow> job_slot \<Rightarrow> job_slot" where
  "cache_coinbase key fresh slot = (case fresh of None \<Rightarrow> slot
     | Some e \<Rightarrow>
        let held = sum_list (map (entry_cost \<circ> snd) (sl_cb_cache slot));
            kept = (if length (sl_cb_cache slot) \<ge> MAX_CB_CACHE \<or> held + entry_cost e > MAX_CB_CACHE_BYTES then []
                    else sl_cb_cache slot)
        in slot\<lparr>sl_cb_cache := AList.update key e kept\<rparr>)"

definition cache_h2 :: "h2_key \<Rightarrow> byte list \<Rightarrow> job_slot \<Rightarrow> job_slot" where
  "cache_h2 key h slot = slot\<lparr>sl_h2_cache :=
     AList.update key h (if length (sl_h2_cache slot) \<ge> MAX_H2_CACHE then [] else sl_h2_cache slot)\<rparr>"

text \<open>The parsed coinbase of a share: from the cache, or assembled, parsed and checked for the height.\<close>

definition coinbase_entry ::
  "job_slot \<Rightarrow> job_section \<Rightarrow> coinbase_section \<Rightarrow> u8 \<times> u8 \<Rightarrow> u16 + ((byte list \<times> coinbase_tx) \<times> (byte list \<times> coinbase_tx) option)" where
  "coinbase_entry slot job sect cb_key = (case map_of (sl_cb_cache slot) cb_key of
     Some e \<Rightarrow> Inr (e, None)
   | None \<Rightarrow>
      let legacy = legacy_of job sect (snd cb_key) in
      (case parse_coinbase legacy of Inl _ \<Rightarrow> Inl REJECT_BAD_COINBASE
       | Inr cb \<Rightarrow> if cb_height cb \<noteq> Some (jb_height job) then Inl REJECT_BAD_JOB_ID
                  else Inr ((legacy, cb), Some (legacy, cb))))"

definition share_of ::
  "hashes \<Rightarrow> policy \<Rightarrow> pow_submit \<Rightarrow> job_section \<Rightarrow> byte list \<times> coinbase_tx \<Rightarrow> bool \<Rightarrow> coinbase_kind \<Rightarrow> u32
    \<Rightarrow> commitment \<Rightarrow> byte list \<Rightarrow> verified_share" where
  "share_of H p s job e committed kind ntime c hash =
     (let c = (if cm_merkle_root c = replicate 32 0 then c\<lparr>cm_merkle_root := job_root H job (fst e)\<rparr> else c) in
      \<lparr>vs_hash = hash, vs_work = credited_work p s committed hash, vs_target_committed = committed,
        vs_target_pot = ps_target_pot s, vs_height = jb_height job, vs_ntime = ntime,
        vs_is_block_candidate = (case nbits_to_target_le (cm_nbits c) of None \<Rightarrow> False | Some t \<Rightarrow> meets_target hash t),
        vs_coinbase_kind = kind, vs_coinbase_value = total_output_value (snd e),
        vs_paid_to_pool = paid_to (po_pool_script p) (snd e), vs_commitment = c,
        vs_coinbase_legacy = fst e, vs_coinbase = snd e\<rparr>)"

text \<open>\<^verbatim>\<open>verify_with_target\<close> from the classification of the parsed coinbase on.\<close>

definition verify_work ::
  "hashes \<Rightarrow> job_slot \<Rightarrow> pow_submit \<Rightarrow> policy \<Rightarrow> byte list \<Rightarrow> job_section \<Rightarrow> blake2b_section \<Rightarrow> u32 \<Rightarrow> bool
    \<Rightarrow> byte list \<times> coinbase_tx \<Rightarrow> (byte list \<times> coinbase_tx) option \<Rightarrow> (job_slot \<times> (u16 + verified_share)) option" where
  "verify_work H slot s p share_target job b2 time_on_wire on_trust entry fresh = do {
     let committed = (on_trust \<or> commits_target (fst entry) (jb_target_byte_index job));
     kind \<leftarrow> classify_coinbase (snd entry) p (subsidy_only s) (jb_txn_count job) (jb_merkle_branches job = []);
     if kind = Foreign then Some (slot, Inl REJECT_BAD_COINBASE_OUTPUTS)
     else let flags = (if use_time_offset s then FLAG_USE_TIME_OFFSET else 0);
              ntime = share_ntime time_on_wire (bl_ntime b2) flags in
       if po_now p \<noteq> 0 \<and> (ntime > sat_add32 (po_now p) MAX_TIME_AHEAD \<or> sat_add32 ntime MAX_TIME_BEHIND < po_now p)
       then Some (slot, Inl REJECT_BAD_NTIME)
       else if jb_txn_count job \<ge> u16_max then Some (slot, Inl REJECT_BAD_JOB_ID)
       else case first_meeting (attempt H slot job (fst entry) s b2 time_on_wire flags) share_target (conventions slot) of
         None \<Rightarrow> Some (slot, Inl REJECT_HIGH_HASH)
       | Some (includes, c, h, key, hash) \<Rightarrow>
           let slot1 = (cache_h2 key h slot)\<lparr>sl_txcount_includes_coinbase := Some includes\<rparr> in
           Some (cache_coinbase (coinbase_id_for s, ps_target_pot s) fresh slot1,
             Inr (share_of H p s job entry committed kind ntime c hash)) }"

definition verify_with_target ::
  "hashes \<Rightarrow> job_slot \<Rightarrow> pow_submit \<Rightarrow> policy \<Rightarrow> byte list \<Rightarrow> (job_slot \<times> (u16 + verified_share)) option" where
  "verify_with_target H slot s p share_target =
     (if \<not> is_blake2b s then Some (slot, Inl REJECT_BAD_VERSION)
      else case ps_blake2b s of None \<Rightarrow> Some (slot, Inl REJECT_BAD_VERSION)
      | Some b2 \<Rightarrow> (case ps_time_on_wire s of None \<Rightarrow> Some (slot, Inl REJECT_BAD_NTIME)
      | Some time_on_wire \<Rightarrow> (case sl_job slot of None \<Rightarrow> Some (slot, Inl REJECT_BAD_JOB_ID)
      | Some job \<Rightarrow> (case map_of (sl_coinbases slot) (coinbase_id_for s) of None \<Rightarrow> Some (slot, Inl REJECT_COINBASE_MISSING)
      | Some sect \<Rightarrow> (case coinbase_entry slot job sect (coinbase_id_for s, ps_target_pot s) of Inl e \<Rightarrow> Some (slot, Inl e)
      | Inr (entry, fresh) \<Rightarrow>
          verify_work H slot s p share_target job b2 time_on_wire
            (po_trusted_target p \<and> is_whole (cs_coinb2 sect) (jb_target_byte_index job)) entry fresh)))))"

definition verify_share ::
  "hashes \<Rightarrow> job_slot \<Rightarrow> pow_submit \<Rightarrow> policy \<Rightarrow> (job_slot \<times> (u16 + verified_share)) option" where
  "verify_share H slot s p = (case share_target_le (ps_target_pot s) of
     None \<Rightarrow> Some (slot, Inl REJECT_BAD_TARGET)
   | Some t \<Rightarrow> verify_with_target H slot s p t)"

definition assemble_block :: "verified_share \<Rightarrow> pow_submit \<Rightarrow> byte list list \<Rightarrow> byte list option" where
  "assemble_block v s txns = do {
     b2 \<leftarrow> ps_blake2b s;
     Some (serialize_header_v2 (vs_commitment v) (bl_nonce b2) (bl_ntime b2) (ps_extranonce s)
       @ write_varint (length txns + 1) @ with_witness (vs_coinbase_legacy v) (vs_coinbase v) @ concat txns) }"

text \<open>\<open>None\<close> is the source's \<^verbatim>\<open>None\<close>, or the overflow of the count, which \<open>verify\<close> refuses well before.\<close>

definition job_work_for :: "hashes \<Rightarrow> job_slot \<Rightarrow> pow_submit \<Rightarrow> bool \<Rightarrow> job_work option" where
  "job_work_for H slot s includes = do {
     job \<leftarrow> sl_job slot;
     sect \<leftarrow> map_of (sl_coinbases slot) (coinbase_id_for s);
     let legacy = legacy_of job sect (ps_target_pot s);
     time_on_wire \<leftarrow> ps_time_on_wire s;
     txcount \<leftarrow> (if includes then Some (jb_txn_count job) else chk u32_max (jb_txn_count job + 1));
     Some (new_job_work H (commitment_for job (ps_version s) txcount
       time_on_wire (if use_time_offset s then FLAG_USE_TIME_OFFSET else 0) (job_root H job legacy)) (ps_extranonce s)) }"

section \<open>Association lists\<close>

lemma map_of_update [simp]: "map_of (AList.update k v al) = (map_of al)(k \<mapsto> v)"
  by (simp add: update_conv')

lemma map_of_delete [simp]: "map_of (AList.delete k al) = (map_of al)(k := None)"
  by (simp add: delete_conv')

lemma map_of_filter_key: "map_of (filter (\<lambda>(k, _). Q k) al) k = (if Q k then map_of al k else None)"
  by (induction al) auto

lemma length_update_le: "length (AList.update k v al) \<le> Suc (length al)"
  by (induction al) auto

lemma length_update_present: "map_of al k \<noteq> None \<Longrightarrow> length (AList.update k v al) = length al"
  by (induction al) auto

lemma set_update_subset: "set (AList.update k v al) \<subseteq> insert (k, v) (set al)"
  by (induction al) auto

lemma set_delete_subset: "set (AList.delete k al) \<subseteq> set al"
  by (auto simp: AList.delete_eq)

lemma sum_update_le: "sum_list (map (f \<circ> snd) (AList.update k v al)) \<le> sum_list (map (f \<circ> snd) al) + (f v :: nat)"
  by (induction al) auto

lemma sum_filter_le: "sum_list (map f (filter P xs)) \<le> sum_list (map (f :: _ \<Rightarrow> nat) xs)"
  by (rule sum_list_filter_le)

section \<open>The caches are coherent\<close>

text \<open>Every cached H2 is the one its key stands for, and every cached coinbase the one its section gives.\<close>

definition h2_ok :: "hashes \<Rightarrow> job_slot \<Rightarrow> bool" where
  "h2_ok H slot \<longleftrightarrow> (\<forall>i pot txc ver tow fl h. map_of (sl_h2_cache slot) (i, pot, txc, ver, tow, fl) = Some h \<longrightarrow>
     (\<exists>job sect. sl_job slot = Some job \<and> map_of (sl_coinbases slot) i = Some sect
       \<and> h = h2 H (commitment_for job ver txc tow fl (job_root H job (legacy_of job sect pot)))))"

definition cb_ok :: "job_slot \<Rightarrow> bool" where
  "cb_ok slot \<longleftrightarrow> (\<forall>i pot legacy cb. map_of (sl_cb_cache slot) (i, pot) = Some (legacy, cb) \<longrightarrow>
     (\<exists>job sect. sl_job slot = Some job \<and> map_of (sl_coinbases slot) i = Some sect
       \<and> legacy = legacy_of job sect pot \<and> parse_coinbase legacy = Inr cb \<and> cb_height cb = Some (jb_height job)))"

definition coherent :: "hashes \<Rightarrow> job_slot \<Rightarrow> bool" where
  "coherent H slot \<longleftrightarrow> h2_ok H slot \<and> cb_ok slot"

lemma cb_okD:
  assumes "cb_ok slot" "map_of (sl_cb_cache slot) (i, pot) = Some e" "sl_job slot = Some job" "map_of (sl_coinbases slot) i = Some sect"
  shows "fst e = legacy_of job sect pot \<and> parse_coinbase (legacy_of job sect pot) = Inr (snd e) \<and> cb_height (snd e) = Some (jb_height job)"
  using assms unfolding cb_ok_def by (cases e) fastforce

lemma h2_okD:
  assumes "h2_ok H slot" "map_of (sl_h2_cache slot) (i, pot, txc, ver, tow, fl) = Some h" "sl_job slot = Some job"
    "map_of (sl_coinbases slot) i = Some sect"
  shows "h = h2 H (commitment_for job ver txc tow fl (job_root H job (legacy_of job sect pot)))"
  using assms unfolding h2_ok_def by fastforce

lemma coherent_empty_caches: "sl_h2_cache slot = [] \<Longrightarrow> sl_cb_cache slot = [] \<Longrightarrow> coherent H slot"
  by (simp add: coherent_def h2_ok_def cb_ok_def)

text \<open>Changing the sections only at \<open>i\<close> and dropping what is cached for \<open>i\<close> keeps coherence.\<close>

lemma coherent_drop:
  assumes "coherent H slot" "sl_job slot' = sl_job slot" "\<And>k. k \<noteq> i \<Longrightarrow> map_of (sl_coinbases slot') k = map_of (sl_coinbases slot) k"
    and "sl_h2_cache slot' = filter (\<lambda>(k, _). fst k \<noteq> i) (sl_h2_cache slot)"
    "sl_cb_cache slot' = filter (\<lambda>(k, _). fst k \<noteq> i) (sl_cb_cache slot)"
  shows "coherent H slot'"
proof -
  have "h2_ok H slot'" using assms(1) unfolding h2_ok_def coherent_def assms(2,4) map_of_filter_key
    by (metis assms(3) fst_conv option.distinct(1))
  moreover have "cb_ok slot'" using assms(1) unfolding cb_ok_def coherent_def assms(2,5) map_of_filter_key
    by (metis assms(3) fst_conv option.distinct(1))
  ultimately show ?thesis by (simp add: coherent_def)
qed

lemma absorb_job_coherent: "coherent H slot \<Longrightarrow> coherent H (fst (absorb_job s slot))"
  by (auto simp: absorb_job_def intro: coherent_empty_caches split: option.splits)

lemma absorb_coinbase_coherent: "coherent H slot \<Longrightarrow> coherent H (fst (absorb_coinbase s slot))"
  by (auto simp: absorb_coinbase_def Let_def elim!: coherent_drop split: option.splits)

lemma absorb_slot: "fst (absorb s slot) = slot \<or> fst (absorb s slot) = fst (absorb_coinbase s (fst (absorb_job s slot)))"
  by (auto simp: absorb_def split: prod.splits sum.splits)

lemma absorb_coherent: "coherent H slot \<Longrightarrow> coherent H (fst (absorb s slot))"
  using absorb_slot [of s slot] absorb_coinbase_coherent [OF absorb_job_coherent, of H slot s s] by metis

lemma forget_coherent: "coherent H slot \<Longrightarrow> coherent H (forget_coinbase i slot)"
  by (erule coherent_drop [where i = i]) (simp_all add: forget_coinbase_def)

lemma evict_coherent: "coherent H (evict_sections slot)"
  by (rule coherent_empty_caches) (simp_all add: evict_sections_def)

lemma cache_h2_coherent:
  assumes "coherent H slot" "sl_job slot = Some job" "map_of (sl_coinbases slot) i = Some sect"
    and "h = h2 H (commitment_for job ver txc tow fl (job_root H job (legacy_of job sect pot)))"
  shows "coherent H ((cache_h2 (i, pot, txc, ver, tow, fl) h slot)\<lparr>sl_txcount_includes_coinbase := b\<rparr>)"
  using assms by (auto simp: coherent_def h2_ok_def cb_ok_def cache_h2_def)

lemma cache_coinbase_coherent:
  assumes "coherent H slot" "sl_job slot = Some job" "map_of (sl_coinbases slot) i = Some sect"
    and "\<And>e. fresh = Some e \<Longrightarrow> fst e = legacy_of job sect pot \<and> parse_coinbase (fst e) = Inr (snd e) \<and> cb_height (snd e) = Some (jb_height job)"
  shows "coherent H (cache_coinbase (i, pot) fresh slot)"
  using assms by (auto simp: coherent_def h2_ok_def cb_ok_def cache_coinbase_def Let_def split: option.splits)

lemma coinbase_entry_ok:
  assumes "cb_ok slot" "sl_job slot = Some job" "map_of (sl_coinbases slot) i = Some sect"
    and "coinbase_entry slot job sect (i, pot) = Inr (e, fresh)"
  shows "fst e = legacy_of job sect pot" "parse_coinbase (fst e) = Inr (snd e)" "cb_height (snd e) = Some (jb_height job)"
    "fresh = None \<or> fresh = Some e"
proof -
  have "fst e = legacy_of job sect pot \<and> parse_coinbase (fst e) = Inr (snd e) \<and> cb_height (snd e) = Some (jb_height job) \<and> (fresh = None \<or> fresh = Some e)"
  proof (cases "map_of (sl_cb_cache slot) (i, pot)")
    case None
    then show ?thesis using assms(4) by (auto simp: coinbase_entry_def Let_def split: sum.splits if_splits)
  next
    case (Some e')
    then show ?thesis using cb_okD [OF assms(1) Some assms(2,3)] assms(4) by (simp add: coinbase_entry_def)
  qed
  then show "fst e = legacy_of job sect pot" "parse_coinbase (fst e) = Inr (snd e)" "cb_height (snd e) = Some (jb_height job)"
    "fresh = None \<or> fresh = Some e" by blast+
qed

definition no_caches :: "job_slot \<Rightarrow> job_slot" where
  "no_caches slot = slot\<lparr>sl_h2_cache := [], sl_cb_cache := []\<rparr>"

lemma no_caches_sel [simp]:
  "sl_job (no_caches slot) = sl_job slot" "sl_coinbases (no_caches slot) = sl_coinbases slot" "conventions (no_caches slot) = conventions slot"
  by (simp_all add: no_caches_def conventions_def)

lemma coinbase_entry_cached:
  assumes "cb_ok slot" "sl_job slot = Some job" "map_of (sl_coinbases slot) i = Some sect"
  shows "map_sum id fst (coinbase_entry slot job sect (i, pot)) = map_sum id fst (coinbase_entry (no_caches slot) job sect (i, pot))"
proof (cases "map_of (sl_cb_cache slot) (i, pot)")
  case None
  then show ?thesis by (simp add: coinbase_entry_def no_caches_def)
next
  case (Some e)
  then show ?thesis using cb_okD [OF assms(1) Some assms(2,3)] by (cases e) (simp add: coinbase_entry_def no_caches_def Let_def)
qed

text \<open>With the caches, the loop sees the same H2 and hash; the commitment differs in the root alone.\<close>

lemma attempt_cached:
  assumes "h2_ok H slot" "sl_job slot = Some job" "map_of (sl_coinbases slot) (coinbase_id_for s) = Some sect"
    and "legacy = legacy_of job sect (ps_target_pot s)"
    and "attempt H slot job legacy s b2 tow fl i = (c, h, key, hash)"
  shows "attempt H (no_caches slot) job legacy s b2 tow fl i
      = (commitment_for job (ps_version s) (txcount_of job i) tow fl (job_root H job legacy), h, key, hash)"
    and "key = (coinbase_id_for s, ps_target_pot s, txcount_of job i, ps_version s, tow, fl)"
    and "h = h2 H (commitment_for job (ps_version s) (txcount_of job i) tow fl (job_root H job legacy))"
    and "hash = ground_hash H job s b2 h"
    and "c = commitment_for job (ps_version s) (txcount_of job i) tow fl (job_root H job legacy)
      \<or> c = commitment_for job (ps_version s) (txcount_of job i) tow fl (replicate 32 0)"
proof -
  let ?key = "(coinbase_id_for s, ps_target_pot s, txcount_of job i, ps_version s, tow, fl)"
  let ?c = "commitment_for job (ps_version s) (txcount_of job i) tow fl (job_root H job legacy)"
  have "key = ?key \<and> h = h2 H ?c \<and> hash = ground_hash H job s b2 h
    \<and> (c = ?c \<or> c = commitment_for job (ps_version s) (txcount_of job i) tow fl (replicate 32 0))"
  proof (cases "map_of (sl_h2_cache slot) ?key")
    case None
    then show ?thesis using assms(5) by (auto simp: attempt_def Let_def)
  next
    case (Some h')
    then show ?thesis using h2_okD [OF assms(1) Some assms(2,3)] assms(4,5) by (auto simp: attempt_def Let_def)
  qed
  moreover have "attempt H (no_caches slot) job legacy s b2 tow fl i = (?c, h2 H ?c, ?key, ground_hash H job s b2 (h2 H ?c))"
    by (simp add: attempt_def Let_def no_caches_def)
  ultimately show "attempt H (no_caches slot) job legacy s b2 tow fl i = (?c, h, key, hash)" "key = ?key" "h = h2 H ?c"
    "hash = ground_hash H job s b2 h" "c = ?c \<or> c = commitment_for job (ps_version s) (txcount_of job i) tow fl (replicate 32 0)"
    by simp_all
qed

lemma first_meeting_find:
  "first_meeting f t is = map_option (\<lambda>i. (i, f i)) (List.find (\<lambda>i. meets_target (snd (snd (snd (f i)))) t) is)"
  by (induction "is") (auto split: prod.splits)

lemma share_of_root:
  "share_of H p s job e k kd nt (commitment_for job v t w fl (replicate 32 0)) hash
   = share_of H p s job e k kd nt (commitment_for job v t w fl (job_root H job (fst e))) hash"
  by (simp add: share_of_def Let_def commitment_for_def)

lemma first_meeting_cached:
  assumes "h2_ok H slot" "sl_job slot = Some job" "map_of (sl_coinbases slot) (coinbase_id_for s) = Some sect"
    and "fst e = legacy_of job sect (ps_target_pot s)"
  shows "map_option (\<lambda>(i, c, h, key, hash). share_of H p s job e k kd nt c hash) (first_meeting (attempt H slot job (fst e) s b2 tow fl) t is)
    = map_option (\<lambda>(i, c, h, key, hash). share_of H p s job e k kd nt c hash) (first_meeting (attempt H (no_caches slot) job (fst e) s b2 tow fl) t is)"
proof -
  let ?f = "attempt H slot job (fst e) s b2 tow fl" and ?g = "attempt H (no_caches slot) job (fst e) s b2 tow fl"
  have fg: "snd (snd (snd (?g i))) = snd (snd (snd (?f i)))
    \<and> share_of H p s job e k kd nt (fst (?f i)) (snd (snd (snd (?f i)))) = share_of H p s job e k kd nt (fst (?g i)) (snd (snd (snd (?f i))))" for i
  proof -
    obtain c h key hash where f: "?f i = (c, h, key, hash)" by (metis prod_cases4)
    note a = attempt_cached [OF assms(1-3) assms(4) f]
    show ?thesis using a(1,5) f by (auto simp: share_of_root)
  qed
  show ?thesis unfolding first_meeting_find option.map_comp
    by (intro option.map_cong arg_cong2 [where f = List.find]) (auto simp: fg split_beta)
qed

section \<open>What a verification does to the slot\<close>

lemma verify_work_outcome:
  assumes "verify_work H slot s p t job b2 tow tr entry fresh = Some (slot', r)"
  obtains (refused) e where "r = Inl e" "slot' = slot"
  | (accepted) kind flags ntime i c h key hash where
      "classify_coinbase (snd entry) p (subsidy_only s) (jb_txn_count job) (jb_merkle_branches job = []) = Some kind" "kind \<noteq> Foreign"
      "flags = (if use_time_offset s then FLAG_USE_TIME_OFFSET else 0)" "ntime = share_ntime tow (bl_ntime b2) flags"
      "po_now p \<noteq> 0 \<longrightarrow> ntime \<le> sat_add32 (po_now p) MAX_TIME_AHEAD \<and> po_now p \<le> sat_add32 ntime MAX_TIME_BEHIND"
      "jb_txn_count job < u16_max"
      "first_meeting (attempt H slot job (fst entry) s b2 tow flags) t (conventions slot) = Some (i, c, h, key, hash)"
      "slot' = cache_coinbase (coinbase_id_for s, ps_target_pot s) fresh ((cache_h2 key h slot)\<lparr>sl_txcount_includes_coinbase := Some i\<rparr>)"
      "r = Inr (share_of H p s job entry (tr \<or> commits_target (fst entry) (jb_target_byte_index job)) kind ntime c hash)"
proof -
  let ?fl = "if use_time_offset s then FLAG_USE_TIME_OFFSET else 0"
  let ?nt = "share_ntime tow (bl_ntime b2) ?fl"
  obtain kind where kind: "classify_coinbase (snd entry) p (subsidy_only s) (jb_txn_count job) (jb_merkle_branches job = []) = Some kind"
    using assms unfolding verify_work_def Let_def by (auto simp: Option.bind_eq_Some_conv)
  consider "kind = Foreign \<or> (po_now p \<noteq> 0 \<and> (?nt > sat_add32 (po_now p) MAX_TIME_AHEAD \<or> sat_add32 ?nt MAX_TIME_BEHIND < po_now p))
      \<or> jb_txn_count job \<ge> u16_max \<or> first_meeting (attempt H slot job (fst entry) s b2 tow ?fl) t (conventions slot) = None"
    | i c h key hash where "kind \<noteq> Foreign" "\<not> (po_now p \<noteq> 0 \<and> (?nt > sat_add32 (po_now p) MAX_TIME_AHEAD \<or> sat_add32 ?nt MAX_TIME_BEHIND < po_now p))"
      "\<not> jb_txn_count job \<ge> u16_max" "first_meeting (attempt H slot job (fst entry) s b2 tow ?fl) t (conventions slot) = Some (i, c, h, key, hash)"
    by (metis option.exhaust prod_cases5)
  then show thesis
  proof cases
    case 1
    then have "\<exists>e. r = Inl e \<and> slot' = slot" using assms kind unfolding verify_work_def Let_def by (auto split: if_splits)
    then show ?thesis using refused by blast
  next
    case 2
    then have "slot' = cache_coinbase (coinbase_id_for s, ps_target_pot s) fresh ((cache_h2 key h slot)\<lparr>sl_txcount_includes_coinbase := Some i\<rparr>)
        \<and> r = Inr (share_of H p s job entry (tr \<or> commits_target (fst entry) (jb_target_byte_index job)) kind ?nt c hash)"
      using assms 2 unfolding verify_work_def Let_def by (auto simp: kind split: if_splits)
    then show ?thesis using 2 kind by (intro accepted [OF kind 2(1) refl refl _ _ 2(4)]) (auto simp: not_less not_le)
  qed
qed

lemma verify_outcome:
  assumes "verify_with_target H slot s p t = Some (slot', r)"
  obtains (refused) e where "r = Inl e" "slot' = slot"
  | (accepted) b2 tow job sect entry fresh kind flags ntime i c h key hash where
      "ps_blake2b s = Some b2" "ps_time_on_wire s = Some tow" "sl_job slot = Some job"
      "map_of (sl_coinbases slot) (coinbase_id_for s) = Some sect"
      "coinbase_entry slot job sect (coinbase_id_for s, ps_target_pot s) = Inr (entry, fresh)"
      "classify_coinbase (snd entry) p (subsidy_only s) (jb_txn_count job) (jb_merkle_branches job = []) = Some kind" "kind \<noteq> Foreign"
      "flags = (if use_time_offset s then FLAG_USE_TIME_OFFSET else 0)" "ntime = share_ntime tow (bl_ntime b2) flags"
      "po_now p \<noteq> 0 \<longrightarrow> ntime \<le> sat_add32 (po_now p) MAX_TIME_AHEAD \<and> po_now p \<le> sat_add32 ntime MAX_TIME_BEHIND"
      "jb_txn_count job < u16_max"
      "first_meeting (attempt H slot job (fst entry) s b2 tow flags) t (conventions slot) = Some (i, c, h, key, hash)"
      "slot' = cache_coinbase (coinbase_id_for s, ps_target_pot s) fresh ((cache_h2 key h slot)\<lparr>sl_txcount_includes_coinbase := Some i\<rparr>)"
      "r = Inr (share_of H p s job entry (po_trusted_target p \<and> is_whole (cs_coinb2 sect) (jb_target_byte_index job)
            \<or> commits_target (fst entry) (jb_target_byte_index job)) kind ntime c hash)"
proof -
  consider e where "r = Inl e" "slot' = slot"
    | b2 tow job sect entry fresh where "ps_blake2b s = Some b2" "ps_time_on_wire s = Some tow" "sl_job slot = Some job"
      "map_of (sl_coinbases slot) (coinbase_id_for s) = Some sect"
      "coinbase_entry slot job sect (coinbase_id_for s, ps_target_pot s) = Inr (entry, fresh)"
      "verify_work H slot s p t job b2 tow (po_trusted_target p \<and> is_whole (cs_coinb2 sect) (jb_target_byte_index job)) entry fresh = Some (slot', r)"
    using assms unfolding verify_with_target_def by (auto split: if_splits option.splits sum.splits prod.splits)
  then show thesis
  proof cases
    case 1
    then show ?thesis by (rule refused)
  next
    case 2
    from 2(6) show ?thesis
    proof (cases rule: verify_work_outcome)
      case (refused e)
      then show ?thesis by (rule that(1))
    next
      case (accepted kind flags ntime i c h key hash)
      show ?thesis by (rule that(2) [OF 2(1-5) accepted])
    qed
  qed
qed

lemma first_meeting_Some:
  "first_meeting f t is = Some (i, c, h, key, hash) \<Longrightarrow> i \<in> set is \<and> f i = (c, h, key, hash) \<and> meets_target hash t"
  by (induction "is") (auto split: prod.splits if_splits)

lemma verify_coherent:
  assumes "coherent H slot" "verify_with_target H slot s p t = Some (slot', r)"
  shows "coherent H slot'"
  using assms(2)
proof (cases rule: verify_outcome)
  case refused
  then show ?thesis using assms(1) by simp
next
  case (accepted b2 tow job sect entry fresh kind flags ntime i c h key hash)
  note ok = assms(1) [unfolded coherent_def]
  note e = coinbase_entry_ok [OF conjunct2 [OF ok] accepted(3,4,5)]
  have f: "attempt H slot job (fst entry) s b2 tow flags i = (c, h, key, hash)"
    using first_meeting_Some [OF accepted(12)] by blast
  note a = attempt_cached [OF conjunct1 [OF ok] accepted(3,4) e(1) f]
  have "coherent H ((cache_h2 key h slot)\<lparr>sl_txcount_includes_coinbase := Some i\<rparr>)"
    unfolding a(2) by (rule cache_h2_coherent [OF assms(1) accepted(3,4)]) (simp add: a(3) e(1))
  then show ?thesis unfolding accepted(13)
    by (rule cache_coinbase_coherent) (use accepted(3,4) e in \<open>auto simp: cache_h2_def\<close>)
qed

text \<open>The states a slot can reach: from empty, by absorbing shares, dropping sections and verifying.\<close>

inductive slot_reach :: "hashes \<Rightarrow> job_slot \<Rightarrow> bool" for H where
  start: "slot_reach H empty_slot"
| absorbs: "slot_reach H slot \<Longrightarrow> slot_reach H (fst (absorb s slot))"
| forgets: "slot_reach H slot \<Longrightarrow> slot_reach H (forget_coinbase i slot)"
| evicts: "slot_reach H slot \<Longrightarrow> slot_reach H (evict_sections slot)"
| verifies: "slot_reach H slot \<Longrightarrow> verify_with_target H slot s p t = Some (slot', r) \<Longrightarrow> slot_reach H slot'"

lemma reach_coherent: "slot_reach H slot \<Longrightarrow> coherent H slot"
  by (induction rule: slot_reach.induct)
    (auto intro: absorb_coherent forget_coherent evict_coherent verify_coherent coherent_empty_caches simp: empty_slot_def)

section \<open>A slot stays small\<close>

lemma rd_tx_out_eats: "rd_tx_out c = Inr (x, c') \<Longrightarrow> remaining c' + (length (to_script x) + 9) \<le> remaining c"
proof -
  assume "rd_tx_out c = Inr (x, c')"
  then obtain v c1 n c2 sc where 1: "rd_u64 c = Inr (v, c1)" and 2: "read_varint c1 = Inr (n, c2)" and 3: "take_c n c2 = Inr (sc, c')"
    and x: "to_script x = sc"
    by (auto simp: rd_tx_out_def rbind_Inr_iff rret_def rfail_def split: if_splits)
  have "remaining c1 + 8 = remaining c" using 1 by (auto simp: rd_u64_def rbind_Inr_iff rret_def dest: take_c_eats)
  moreover have "remaining c2 + 1 \<le> remaining c1"
  proof -
    obtain b c3 where b: "rd_u8 c1 = Inr (b, c3)" using 2 by (auto simp: read_varint_def rbind_Inr_iff)
    have "reader (if b = 0xfd then rd_u16 else if b = 0xfe then rd_u32 else if b = 0xff then rd_u64 else rret b)"
      by (intro reader_intros)
    moreover have "(if b = 0xfd then rd_u16 else if b = 0xfe then rd_u32 else if b = 0xff then rd_u64 else rret b) c3 = Inr (n, c2)"
      using 2 b by (simp add: read_varint_def)
    ultimately have "remaining c2 \<le> remaining c3" by (rule reader.shrinks)
    then show ?thesis using ints_eat(1) [OF b] by simp
  qed
  ultimately show ?thesis using take_c_eats [OF 3] x by simp
qed

lemma parsed_outputs_fit:
  assumes "parse_coinbase legacy = Inr cb"
  shows "sum_list (map (\<lambda>t. length (to_script t) + 9) (cb_outputs cb)) \<le> length legacy"
proof -
  obtain c0 nin c1 prevout c2 n c3 sg c4 c5 nout c6 c7 where
    r: "rd_u32 (at_c [] legacy) = Inr (cb_version cb, c0)" "read_varint c0 = Inr (nin, c1)" "take_c 36 c1 = Inr (prevout, c2)"
      "read_varint c2 = Inr (n, c3)" "take_c n c3 = Inr (sg, c4)" "rd_u32 c4 = Inr (cb_sequence cb, c5)"
      "read_varint c5 = Inr (nout, c6)" and t: "rd_times nout rd_tx_out c6 = Inr (cb_outputs cb, c7)"
    by (rule parse_coinbase_steps [OF assms]) (metis that)
  note sh = reader.shrinks [OF reader_varint] reader.shrinks [OF take.reader_axioms] reader.shrinks [OF reader_ints(3)]
  have "remaining c6 \<le> length legacy"
    using sh(3) [OF r(1)] sh(1) [OF r(2)] sh(2) [OF r(3)] sh(1) [OF r(4)] sh(2) [OF r(5)] sh(3) [OF r(6)] sh(1) [OF r(7)] by simp
  moreover have "remaining c7 + sum_list (map (\<lambda>t. length (to_script t) + 9) (cb_outputs cb)) \<le> remaining c6"
    using rd_tx_out_eats by (rule rd_times_eat [OF _ t])
  ultimately show ?thesis by simp
qed

lemma entry_cost_le:
  assumes "parse_coinbase legacy = Inr cb"
  shows "entry_cost (legacy, cb) \<le> 7 * length legacy"
proof -
  have "sum_list (map (\<lambda>t. 48 + length (to_script t)) (cb_outputs cb)) \<le> sum_list (map (\<lambda>t. 6 * (length (to_script t) + 9)) (cb_outputs cb))"
    by (rule sum_list_map_le) simp
  also have "\<dots> = 6 * sum_list (map (\<lambda>t. length (to_script t) + 9) (cb_outputs cb))" by (rule sum_list_mult_left)
  also have "\<dots> \<le> 6 * length legacy" using parsed_outputs_fit [OF assms] by simp
  finally show ?thesis by (simp add: entry_cost_def)
qed

lemma length_legacy_of: "length (legacy_of job sect pot) \<le> section_bytes sect + 12"
  by (simp add: legacy_of_def assemble_def Let_def section_bytes_def EXTRANONCE_SLOT_def)

definition slot_small :: "job_slot \<Rightarrow> bool" where
  "slot_small slot \<longleftrightarrow> length (sl_coinbases slot) \<le> MAX_COINBASES_PER_SLOT
     \<and> (\<forall>x \<in> set (sl_coinbases slot). section_bytes (snd x) \<le> MAX_COINBASE_SECTION_BYTES)
     \<and> length (sl_h2_cache slot) \<le> MAX_H2_CACHE \<and> length (sl_cb_cache slot) \<le> MAX_CB_CACHE
     \<and> sum_list (map (entry_cost \<circ> snd) (sl_cb_cache slot)) \<le> MAX_CB_CACHE_BYTES"

lemmas slot_limits = MAX_COINBASES_PER_SLOT_def MAX_COINBASE_SECTION_BYTES_def MAX_H2_CACHE_def MAX_CB_CACHE_def MAX_CB_CACHE_BYTES_def

lemma small_shrink:
  assumes "slot_small slot" "length (sl_coinbases slot') \<le> MAX_COINBASES_PER_SLOT"
    "\<forall>x \<in> set (sl_coinbases slot'). section_bytes (snd x) \<le> MAX_COINBASE_SECTION_BYTES"
    and "sl_h2_cache slot' = filter P (sl_h2_cache slot)" "sl_cb_cache slot' = filter Q (sl_cb_cache slot)"
  shows "slot_small slot'"
  using assms sum_list_filter_le [of "entry_cost \<circ> snd" Q "sl_cb_cache slot"]
  by (auto simp: slot_small_def intro: le_trans [OF length_filter_le])

lemma absorb_small:
  assumes "slot_small slot"
  shows "slot_small (fst (absorb s slot))"
proof (cases "case ps_coinbase s of Some c \<Rightarrow> section_bytes c > MAX_COINBASE_SECTION_BYTES | None \<Rightarrow> False")
  case True
  then show ?thesis using assms by (simp add: absorb_def)
next
  case False
  define slot1 where "slot1 = fst (absorb_job s slot)"
  have 1: "slot_small slot1" using assms
    by (auto simp: slot1_def absorb_job_def slot_small_def slot_limits split: option.splits)
  have "slot_small (fst (absorb_coinbase s slot1))"
  proof (cases "fst (absorb_coinbase s slot1) = slot1")
    case True
    then show ?thesis using 1 by simp
  next
    case changed: False
    obtain c where c: "ps_coinbase s = Some c" using changed by (cases "ps_coinbase s") (auto simp: absorb_coinbase_def)
    let ?i = "cs_coinbase_id c"
    have room: "map_of (sl_coinbases slot1) ?i \<noteq> None \<or> length (sl_coinbases slot1) < MAX_COINBASES_PER_SLOT"
      using changed c by (auto simp: absorb_coinbase_def Let_def split: if_splits)
    have s2: "fst (absorb_coinbase s slot1) = slot1\<lparr>sl_coinbases := AList.update ?i c (sl_coinbases slot1),
        sl_h2_cache := filter (\<lambda>(k, _). fst k \<noteq> ?i) (sl_h2_cache slot1), sl_cb_cache := filter (\<lambda>(k, _). fst k \<noteq> ?i) (sl_cb_cache slot1)\<rparr>"
      using changed c by (auto simp: absorb_coinbase_def Let_def split: if_splits)
    show ?thesis unfolding s2
    proof (rule small_shrink [OF 1])
      show "length (sl_coinbases (slot1\<lparr>sl_coinbases := AList.update ?i c (sl_coinbases slot1),
        sl_h2_cache := filter (\<lambda>(k, _). fst k \<noteq> ?i) (sl_h2_cache slot1), sl_cb_cache := filter (\<lambda>(k, _). fst k \<noteq> ?i) (sl_cb_cache slot1)\<rparr>)) \<le> MAX_COINBASES_PER_SLOT"
        using room 1 length_update_present [of "sl_coinbases slot1" ?i c] length_update_le [of ?i c "sl_coinbases slot1"]
        by (auto simp: slot_small_def)
    qed (use 1 False c set_update_subset [of ?i c "sl_coinbases slot1"] in \<open>auto simp: slot_small_def\<close>)
  qed
  then show ?thesis using absorb_slot [of s slot] assms slot1_def by metis
qed

lemma forget_small: "slot_small slot \<Longrightarrow> slot_small (forget_coinbase i slot)"
  by (rule small_shrink) (auto simp: forget_coinbase_def slot_small_def dest: set_delete_subset [THEN subsetD] intro: le_trans [OF length_delete_le])

lemma evict_small: "slot_small (evict_sections slot)"
  by (simp add: slot_small_def evict_sections_def slot_limits)

lemma verify_small:
  assumes "slot_small slot" "coherent H slot" "verify_with_target H slot s p t = Some (slot', r)"
  shows "slot_small slot'"
  using assms(3)
proof (cases rule: verify_outcome)
  case refused
  then show ?thesis using assms(1) by simp
next
  case (accepted b2 tow job sect entry fresh kind flags ntime i c h key hash)
  let ?s1 = "(cache_h2 key h slot)\<lparr>sl_txcount_includes_coinbase := Some i\<rparr>"
  have "length (AList.update key h (if length (sl_h2_cache slot) \<ge> MAX_H2_CACHE then [] else sl_h2_cache slot)) \<le> MAX_H2_CACHE"
    using length_update_le [of key h "if length (sl_h2_cache slot) \<ge> MAX_H2_CACHE then [] else sl_h2_cache slot"]
    by (auto simp: slot_limits split: if_splits)
  then have 1: "slot_small ?s1" using assms(1) by (simp add: slot_small_def cache_h2_def)
  show ?thesis
  proof (cases fresh)
    case None
    then show ?thesis using 1 accepted(13) by (simp add: cache_coinbase_def)
  next
    case (Some e)
    note ok = coinbase_entry_ok [OF _ accepted(3,4,5)]
    have cb: "cb_ok slot" using assms(2) by (simp add: coherent_def)
    have e: "e = entry" using ok(4) [OF cb] Some by auto
    have "section_bytes sect \<le> MAX_COINBASE_SECTION_BYTES"
      using assms(1) map_of_SomeD [OF accepted(4)] by (auto simp: slot_small_def)
    then have "length (fst entry) \<le> 20012" using length_legacy_of [of job sect "ps_target_pot s"] ok(1) [OF cb] by (simp add: slot_limits)
    then have cost: "entry_cost e \<le> MAX_CB_CACHE_BYTES"
      using entry_cost_le [OF ok(2) [OF cb]] e by (simp add: slot_limits)
    let ?kept = "if length (sl_cb_cache slot) \<ge> MAX_CB_CACHE \<or> sum_list (map (entry_cost \<circ> snd) (sl_cb_cache slot)) + entry_cost e > MAX_CB_CACHE_BYTES
      then [] else sl_cb_cache slot"
    let ?new = "AList.update (coinbase_id_for s, ps_target_pot s) e ?kept"
    have "sum_list (map (entry_cost \<circ> snd) ?new) \<le> MAX_CB_CACHE_BYTES"
      using sum_update_le [of entry_cost "(coinbase_id_for s, ps_target_pot s)" e ?kept] cost by (auto split: if_splits)
    moreover have "length ?new \<le> MAX_CB_CACHE"
      using length_update_le [of "(coinbase_id_for s, ps_target_pot s)" e ?kept] by (auto simp: slot_limits split: if_splits)
    moreover have "slot' = ?s1\<lparr>sl_cb_cache := ?new\<rparr>"
      using accepted(13) Some by (simp add: cache_coinbase_def Let_def cache_h2_def)
    ultimately show ?thesis using 1 by (simp add: slot_small_def)
  qed
qed

lemma reach_small: "slot_reach H slot \<Longrightarrow> slot_small slot"
proof (induction rule: slot_reach.induct)
  case start
  then show ?case by (simp add: empty_slot_def slot_small_def slot_limits)
next
  case (verifies slot s p t slot' r)
  then show ?case using verify_small reach_coherent by blast
qed (auto intro: absorb_small forget_small evict_small)

section \<open>Classification\<close>

lemma scan_outputs_sound:
  "scan_outputs p ts sc = Some sc' \<Longrightarrow> sc_foreign sc \<le> sc_foreign sc'
    \<and> (sc_foreign sc' = 0 \<longrightarrow> (\<forall>t \<in> set ts. (is_op_return t \<and> to_value t = 0) \<or> to_script t = po_pool_script p
        \<or> po_gateway_script p = Some (to_script t)
        \<or> (\<exists>iss. po_issued p = Some iss \<and> to_script t \<in> op_script ` set iss)))"
proof (induction ts arbitrary: sc)
  case (Cons t ts)
  let ?sanct = "case po_issued p of None \<Rightarrow> False | Some iss \<Rightarrow> list_ex (\<lambda>i. op_script i = to_script t) iss"
  have sanct: "?sanct \<longleftrightarrow> (\<exists>iss. po_issued p = Some iss \<and> to_script t \<in> op_script ` set iss)"
    by (cases "po_issued p") (force simp: list_ex_iff)+
  consider "is_op_return t" | "\<not> is_op_return t" "to_script t = po_pool_script p"
    | "\<not> is_op_return t" "to_script t \<noteq> po_pool_script p" "po_gateway_script p = Some (to_script t)"
    | "\<not> is_op_return t" "to_script t \<noteq> po_pool_script p" "po_gateway_script p \<noteq> Some (to_script t)" "?sanct"
    | "\<not> is_op_return t" "to_script t \<noteq> po_pool_script p" "po_gateway_script p \<noteq> Some (to_script t)" "\<not> ?sanct"
    by blast
  then show ?case
  proof cases
    case 1
    then have "scan_outputs p ts sc = Some sc'" "to_value t = 0" using Cons.prems by (simp_all split: if_splits)
    then show ?thesis using Cons.IH [of sc] 1 by simp
  next
    case 2
    then show ?thesis using Cons.IH [of "sc\<lparr>sc_pool_paid := True\<rparr>"] Cons.prems by simp
  next
    case 3
    then show ?thesis using Cons.prems
        Cons.IH [of "sc\<lparr>sc_gateway_paid := True, sc_gateway_sats := sat_add64 (sc_gateway_sats sc) (to_value t)\<rparr>"]
      by (simp add: is_gateway_def)
  next
    case 4
    then have "scan_outputs p ts sc = Some sc'" using Cons.prems by (simp add: is_gateway_def)
    from Cons.IH [OF this] 4(4) [unfolded sanct] show ?thesis by auto
  next
    case 5
    then have "scan_outputs p ts (sc\<lparr>sc_foreign := sc_foreign sc + 1\<rparr>) = Some sc'" using Cons.prems by (simp add: is_gateway_def)
    from Cons.IH [OF this] show ?thesis by simp
  qed
qed simp

lemma miner_loop_sound:
  "miner_loop cb ow cp tol slack ms is n sh = Some (Inr (n', sh')) \<Longrightarrow>
    n' \<le> n + length is \<and> (n' = n + length is \<longrightarrow> (\<forall>i \<in> set is. paid_to (op_script i) cb > 0))
    \<and> (\<not> sh' \<longrightarrow> \<not> sh \<and> (\<forall>i \<in> set is. paid_to (op_script i) cb > 0 \<longrightarrow> ow (op_sats i) \<le> sat_add64 (paid_to (op_script i) cb) tol))
    \<and> (\<forall>i \<in> set is. paid_to (op_script i) cb > 0 \<longrightarrow> paid_to (op_script i) cb \<le> sat_add64 (cp (issued_to ms (op_script i))) slack)"
proof (induction "is" arbitrary: n sh)
  case (Cons i "is")
  show ?case
  proof (cases "paid_to (op_script i) cb > 0")
    case True
    then have *: "miner_loop cb ow cp tol slack ms is (n + 1) (sh \<or> sat_add64 (paid_to (op_script i) cb) tol < ow (op_sats i)) = Some (Inr (n', sh'))"
      "paid_to (op_script i) cb \<le> sat_add64 (cp (issued_to ms (op_script i))) slack"
      using Cons.prems by (auto simp: Let_def Option.bind_eq_Some_conv split: if_splits)
    from Cons.IH [OF *(1)] show ?thesis using True *(2) by auto
  next
    case False
    then have "miner_loop cb ow cp tol slack ms is n sh = Some (Inr (n', sh'))" using Cons.prems by (simp add: Let_def)
    from Cons.IH [OF this] show ?thesis using False by auto
  qed
qed simp

lemma miner_loop_total:
  "n + length is \<le> u16_max \<Longrightarrow> miner_loop cb ow cp tol slack ms is n sh \<noteq> None"
proof (induction "is" arbitrary: n sh)
  case (Cons i "is")
  then show ?case by (simp add: Let_def)
qed simp

lemma miner_loop_Inl: "miner_loop cb ow cp tol slack ms is n sh = Some (Inl k) \<Longrightarrow> k = Foreign"
  by (induction "is" arbitrary: n sh) (auto simp: Let_def Option.bind_eq_Some_conv split: if_splits)

lemma gateway_only_kinds: "gateway_only cb g so n me = Some k \<Longrightarrow> k \<in> {EmptySolo, GatewaySolo, Foreign}"
  by (auto simp: gateway_only_def Let_def split: option.splits if_splits)

lemma classify_rest_not_split: "classify_rest cb p sc so n me \<noteq> Split"
  by (auto simp: classify_rest_def Let_def split: option.splits if_splits dest: gateway_only_kinds)

lemma classify_split:
  assumes "classify_coinbase cb p so n me = Some Split"
  obtains iss sc where "scan_outputs p (cb_outputs cb) no_scan = Some sc" "sc_foreign sc = 0" "po_issued p = Some iss"
    "classify_issued cb p iss sc so n me = Some (Some Split)"
proof -
  have "classify_outputs cb p so n me = Some Split"
    using assms by (auto simp: classify_coinbase_def Option.bind_eq_Some_conv split: if_splits option.splits dest: gateway_only_kinds)
  then show thesis
    using that classify_rest_not_split
    by (auto simp: classify_outputs_def Option.bind_eq_Some_conv split: option.splits if_splits)
qed

lemma issued_split:
  assumes "classify_issued cb p iss sc so n me = Some (Some Split)"
  defines "ms \<equiv> filter (\<lambda>i. op_script i \<noteq> po_pool_script p) iss"
    and "iv \<equiv> sum_list (map op_sats iss)" and "av \<equiv> total_output_value cb"
    and "slack \<equiv> sat_add64 (po_tolerance p) (length iss)"
  obtains "miner_loop cb (owed iv av) (cap iv av) (po_tolerance p) slack ms ms 0 False = Some (Inr (length ms, False))"
proof -
  have *: "sum_u64 (map op_sats iss) = Some iv" using assms(1) unfolding classify_issued_def iv_def
    by (auto simp: Let_def Option.bind_eq_Some_conv)
  obtain r where r: "miner_loop cb (owed iv av) (cap iv av) (po_tolerance p) slack ms ms 0 False = Some r"
    using assms(1) * unfolding classify_issued_def ms_def [symmetric] av_def [symmetric] slack_def [symmetric] Let_def
    by (auto simp: Option.bind_eq_Some_conv split: if_splits)
  obtain n' sh where "r = Inr (n', sh)" "n' = length ms" "\<not> sh"
    using assms(1) * r unfolding classify_issued_def ms_def [symmetric] av_def [symmetric] slack_def [symmetric] Let_def
    by (cases r) (auto split: if_splits prod.splits dest: miner_loop_Inl)
  then show thesis using r that by simp
qed

section \<open>Properties\<close>

lemma verify_work_cached:
  assumes "h2_ok H slot" "sl_job slot = Some job" "map_of (sl_coinbases slot) (coinbase_id_for s) = Some sect"
    and "fst e = legacy_of job sect (ps_target_pot s)"
  shows "map_option snd (verify_work H slot s p t job b2 tow tr e fr) = map_option snd (verify_work H (no_caches slot) s p t job b2 tow tr e fr0)"
proof -
  let ?fl = "if use_time_offset s then FLAG_USE_TIME_OFFSET else 0"
  let ?k = "tr \<or> commits_target (fst e) (jb_target_byte_index job)"
  let ?f = "first_meeting (attempt H slot job (fst e) s b2 tow ?fl) t (conventions slot)"
  let ?g = "first_meeting (attempt H (no_caches slot) job (fst e) s b2 tow ?fl) t (conventions slot)"
  show ?thesis
  proof (cases "classify_coinbase (snd e) p (subsidy_only s) (jb_txn_count job) (jb_merkle_branches job = [])")
    case None
    then show ?thesis by (simp add: verify_work_def Let_def)
  next
    case (Some kd)
    note fm = first_meeting_cached [OF assms, of p ?k kd "share_ntime tow (bl_ntime b2) ?fl" b2 tow ?fl t "conventions slot"]
    show ?thesis
    proof (cases ?f)
      case None
      moreover from this have "?g = None" using fm by (cases ?g) simp_all
      ultimately show ?thesis by (simp add: verify_work_def Let_def Some)
    next
      case f: (Some x)
      obtain i c h key hash where x: "x = (i, c, h, key, hash)" by (rule prod_cases5)
      obtain y where g: "?g = Some y" using fm f by (cases ?g) simp_all
      obtain i' c' h' key' hash' where y: "y = (i', c', h', key', hash')" by (rule prod_cases5)
      have "share_of H p s job e ?k kd (share_ntime tow (bl_ntime b2) ?fl) c hash
          = share_of H p s job e ?k kd (share_ntime tow (bl_ntime b2) ?fl) c' hash'"
        using fm unfolding f g x y by simp
      then show ?thesis using f g unfolding x y by (simp add: verify_work_def Let_def Some)
    qed
  qed
qed

lemma verify_no_caches:
  assumes "coherent H slot"
  shows "map_option snd (verify_with_target H slot s p t) = map_option snd (verify_with_target H (no_caches slot) s p t)"
proof (cases "\<exists>b2 tow job sect. is_blake2b s \<and> ps_blake2b s = Some b2 \<and> ps_time_on_wire s = Some tow \<and> sl_job slot = Some job
    \<and> map_of (sl_coinbases slot) (coinbase_id_for s) = Some sect")
  case False
  then show ?thesis by (auto simp: verify_with_target_def split: option.splits)
next
  case True
  then obtain b2 tow job sect where s: "is_blake2b s" "ps_blake2b s = Some b2" "ps_time_on_wire s = Some tow"
    and j: "sl_job slot = Some job" "map_of (sl_coinbases slot) (coinbase_id_for s) = Some sect" by blast
  have ok: "h2_ok H slot" "cb_ok slot" using assms by (simp_all add: coherent_def)
  let ?e = "coinbase_entry slot job sect (coinbase_id_for s, ps_target_pot s)"
  let ?en = "coinbase_entry (no_caches slot) job sect (coinbase_id_for s, ps_target_pot s)"
  note same = coinbase_entry_cached [OF ok(2) j, of "ps_target_pot s"]
  show ?thesis
  proof (cases ?e)
    case e: (Inl x)
    then have e0: "?en = Inl x" using same by (cases ?en) auto
    have "verify_with_target H slot s p t = Some (slot, Inl x)" using s j e by (simp add: verify_with_target_def)
    moreover have "verify_with_target H (no_caches slot) s p t = Some (no_caches slot, Inl x)" using s j e0 by (simp add: verify_with_target_def)
    ultimately show ?thesis by simp
  next
    case (Inr y)
    then obtain e fr where e: "?e = Inr (e, fr)" by (cases y) auto
    obtain fr0 where e0: "?en = Inr (e, fr0)" using same e by (cases ?en) auto
    have leg: "fst e = legacy_of job sect (ps_target_pot s)" by (rule coinbase_entry_ok(1) [OF ok(2) j e])
    show ?thesis by (simp add: verify_with_target_def e e0 s j verify_work_cached [OF ok(1) j leg])
  qed
qed

text \<open>
  C7. The caches of a job slot never change a verdict. In every state a slot can reach, by absorbing shares,
  dropping sections and verifying, checking a share with the cached coinbases and header commitments gives
  exactly the answer, acceptance or reject code and verified share, that it gives with the caches empty.
\<close>

theorem verify_caches_transparent:
  assumes "slot_reach H slot"
  shows "map_option snd (verify_share H slot s p) = map_option snd (verify_share H (no_caches slot) s p)"
  using verify_no_caches [OF reach_coherent [OF assms]] by (simp add: verify_share_def split: option.splits)

text \<open>
  A slot stays small whatever a gateway sends: at most 8 sections of at most 20000 bytes, at most 64 cached
  commitments, at most 32 cached coinbases and at most 384 KiB of them; and a refused section changes nothing.
\<close>

theorem slot_stays_small:
  assumes "slot_reach H slot"
  shows "slot_small slot \<and> coinbase_bytes slot \<le> 160000
    \<and> (case absorb s slot of (slot', Inl e) \<Rightarrow> slot' = slot | (slot', Inr _) \<Rightarrow> slot_small slot')"
proof -
  have small: "slot_small slot" by (rule reach_small [OF assms])
  have "coinbase_bytes slot \<le> sum_list (map (\<lambda>_. 20000) (sl_coinbases slot))"
    unfolding coinbase_bytes_def using small by (intro sum_list_map_le) (auto simp: slot_small_def slot_limits)
  also have "\<dots> \<le> 160000" using small by (simp add: sum_list_triv slot_small_def slot_limits)
  finally have "coinbase_bytes slot \<le> 160000" .
  moreover have "snd (absorb s slot) = Inl e \<Longrightarrow> fst (absorb s slot) = slot" for e
    by (auto simp: absorb_def absorb_job_def absorb_coinbase_def Let_def slot_limits split: prod.splits sum.splits option.splits if_splits)
  moreover have "slot_small (fst (absorb s slot))" by (rule absorb_small [OF small])
  ultimately show ?thesis using small by (cases "absorb s slot") (auto split: sum.splits)
qed

lemma verified_facts:
  assumes "coherent H slot" "verify_with_target H slot s p t = Some (slot', Inr v)"
  obtains b2 tow job sect i where "ps_blake2b s = Some b2" "sl_job slot = Some job"
    "map_of (sl_coinbases slot) (coinbase_id_for s) = Some sect"
    "vs_coinbase_legacy v = legacy_of job sect (ps_target_pot s)" "parse_coinbase (vs_coinbase_legacy v) = Inr (vs_coinbase v)"
    "cb_height (vs_coinbase v) = Some (jb_height job)" "vs_height v = jb_height job" "vs_coinbase_kind v \<noteq> Foreign"
    "vs_commitment v = commitment_for job (ps_version s) (txcount_of job i) tow (if use_time_offset s then FLAG_USE_TIME_OFFSET else 0)
       (job_root H job (vs_coinbase_legacy v))"
    "vs_hash v = ground_hash H job s b2 (h2 H (vs_commitment v))" "meets_target (vs_hash v) t"
    "vs_work v = credited_work p s (vs_target_committed v) (vs_hash v)"
  using assms(2)
proof (cases rule: verify_outcome)
  case (accepted b2 tow job sect entry fresh kind flags ntime i c h key hash)
  note ok = assms(1) [unfolded coherent_def]
  note e = coinbase_entry_ok [OF conjunct2 [OF ok] accepted(3,4,5)]
  have f: "attempt H slot job (fst entry) s b2 tow flags i = (c, h, key, hash)" "meets_target hash t"
    using first_meeting_Some [OF accepted(12)] by blast+
  note a = attempt_cached [OF conjunct1 [OF ok] accepted(3,4) e(1) f(1)]
  have v: "v = share_of H p s job entry (po_trusted_target p \<and> is_whole (cs_coinb2 sect) (jb_target_byte_index job)
            \<or> commits_target (fst entry) (jb_target_byte_index job)) kind ntime c hash" using accepted(14) by simp
  have cm: "vs_commitment v = commitment_for job (ps_version s) (txcount_of job i) tow flags (job_root H job (fst entry))"
    using a(5) unfolding v by (auto simp: share_of_def Let_def commitment_for_def)
  have sel: "vs_coinbase_legacy v = fst entry" "vs_coinbase v = snd entry" "vs_height v = jb_height job" "vs_coinbase_kind v = kind" "vs_hash v = hash"
    "vs_work v = credited_work p s (vs_target_committed v) hash"
    unfolding v by (simp_all add: share_of_def Let_def)
  show ?thesis
    by (rule that [OF accepted(1,3,4)]) (use sel cm a(3,4) e f(2) accepted(7,8) in simp_all)
qed simp

lemma ground_is_job_hash:
  "ground_hash H job s b2 (h2 H (commitment_for job ver txc tow fl root))
    = job_hash H (new_job_work H (commitment_for job ver txc tow fl root) (ps_extranonce s)) (bl_nonce b2) (bl_ntime b2)"
  by (simp add: ground_hash_def job_hash_def new_job_work_def pow_hash_le_def commitment_for_def Let_def)

lemma length_ground_hash: "hash_law H \<Longrightarrow> length (ground_hash H job s b2 h) = 32"
  by (simp add: ground_hash_def pow_hash_le_def xor_mask_def blake2b256_def hash_law_def Let_def list_all_iff)

lemma work_times_hash:
  assumes "n \<le> (2 ^ 224 - 1) div 2 ^ k" "w \<le> 2 ^ k"
  shows "w * n < (2 :: nat) ^ 224"
proof -
  have "w * n \<le> 2 ^ k * ((2 ^ 224 - 1) div 2 ^ k)" using assms by (intro mult_le_mono) simp_all
  also have "\<dots> \<le> 2 ^ 224 - 1" by simp
  finally show ?thesis by (rule le_less_trans) simp
qed

lemma claimed_work_le: "claimed_work s \<le> 2 ^ ps_target_pot s"
proof (cases "ps_target_pot s \<ge> 64")
  case True
  then have "(2 :: nat) ^ 64 \<le> 2 ^ ps_target_pot s" by (intro power_increasing) simp_all
  then show ?thesis using True by (simp add: claimed_work_def)
qed (simp add: claimed_work_def)

lemma credited_work_done:
  assumes "length hash = 32" "share_target_le (ps_target_pot s) = Some t" "meets_target hash t"
  shows "credited_work p s k hash * le_nat hash < 2 ^ 224"
proof -
  have met: "le_nat hash \<le> (2 ^ 224 - 1) div 2 ^ pot" if "share_target_le pot = Some u" "meets_target hash u" for pot u
  proof -
    have "pot < 224" using that(1) by (simp add: share_target_le_def split: if_splits)
    from share_target_value [OF this] show ?thesis using that assms(1) by (metis meets_target_nat option.inject)
  qed
  show ?thesis
  proof (cases "k \<and> ps_target_pot s \<ge> po_min_pot p")
    case True
    then show ?thesis using work_times_hash [OF met [OF assms(2,3)] claimed_work_le] by (simp add: credited_work_def)
  next
    case False
    let ?pot = "max (po_uncommitted_pot p) (po_min_pot p)"
    show ?thesis
    proof (cases "\<exists>u. share_target_le ?pot = Some u \<and> meets_target hash u \<and> ?pot < 64")
      case True
      then have "le_nat hash \<le> (2 ^ 224 - 1) div 2 ^ ?pot" "credited_work p s k hash = 2 ^ ?pot"
        using met False by (auto simp: credited_work_def Let_def)
      then show ?thesis using work_times_hash [of "le_nat hash" ?pot "2 ^ ?pot"] by simp
    next
      case False
      then have "credited_work p s k hash = 0" using \<open>\<not> (k \<and> _)\<close> by (auto simp: credited_work_def Let_def split: option.splits)
      then show ?thesis by simp
    qed
  qed
qed

text \<open>
  C2. An accepted share is real work. In every reachable slot, a share that verifies was ground on the header its
  verified commitment stands for: its hash is the proof-of-work hash of that commitment, whose merkle root is
  that of the coinbase and branches of the job, the coinbase parses, carries the job's height and is not
  foreign; and the work it is credited was done: credited work times the hash stays below \<^verbatim>\<open>2^224\<close>.
\<close>

theorem verified_share_sound:
  assumes "slot_reach H slot" "hash_law H" "verify_share H slot s p = Some (slot', Inr v)"
  shows "\<exists>job sect b2. sl_job slot = Some job \<and> map_of (sl_coinbases slot) (coinbase_id_for s) = Some sect \<and> ps_blake2b s = Some b2
    \<and> vs_coinbase_legacy v = legacy_of job sect (ps_target_pot s) \<and> parse_coinbase (vs_coinbase_legacy v) = Inr (vs_coinbase v)
    \<and> cb_height (vs_coinbase v) = Some (vs_height v) \<and> vs_coinbase_kind v \<noteq> Foreign
    \<and> cm_merkle_root (vs_commitment v) = merkle_root H (sha256d H (vs_coinbase_legacy v)) (jb_merkle_branches job)
    \<and> vs_hash v = job_hash H (new_job_work H (vs_commitment v) (ps_extranonce s)) (bl_nonce b2) (bl_ntime b2)
    \<and> vs_work v * le_nat (vs_hash v) < 2 ^ 224"
proof -
  obtain t where t: "share_target_le (ps_target_pot s) = Some t" "verify_with_target H slot s p t = Some (slot', Inr v)"
    using assms(3) by (auto simp: verify_share_def split: option.splits)
  show ?thesis
  proof (rule verified_facts [OF reach_coherent [OF assms(1)] t(2)], goal_cases)
    case (1 b2 tow job sect i)
    have "vs_hash v = job_hash H (new_job_work H (vs_commitment v) (ps_extranonce s)) (bl_nonce b2) (bl_ntime b2)"
      unfolding 1(10) 1(9) by (rule ground_is_job_hash)
    moreover have "vs_work v * le_nat (vs_hash v) < 2 ^ 224"
      unfolding 1(12) by (rule credited_work_done [OF _ t(1) 1(11)]) (simp add: 1(10) length_ground_hash [OF assms(2)])
    moreover have "cm_merkle_root (vs_commitment v) = merkle_root H (sha256d H (vs_coinbase_legacy v)) (jb_merkle_branches job)"
      unfolding 1(9) by (simp add: commitment_for_def job_root_def)
    ultimately show ?thesis using 1 by auto
  qed
qed

text \<open>
  C8. What a coinbase classified as the split pays. Every output that is not an empty data output goes to the pool,
  the gateway's own script or an issued script; the first two may be paid any amount. Counted per script, every issued script
  other than the pool's is paid something, at least each single amount issued to it, scaled down with the template and less the tolerance,
  and at most all that was issued to it, scaled up with the template and plus the slack. Amounts issued to one script are not added
  up for the lower bound, which \<open>split_misses_shared_script\<close> shows to matter. When at most 65535 outputs were issued and their sum is
  a \<^verbatim>\<open>u64\<close>, the classification does not panic.
\<close>

theorem split_pays_issued:
  fixes cb :: coinbase_tx
  assumes "po_issued p = Some iss"
  defines "owe \<equiv> owed (sum_list (map op_sats iss)) (total_output_value cb)"
    and "most \<equiv> cap (sum_list (map op_sats iss)) (total_output_value cb)"
  shows "(classify_coinbase cb p so n me = Some Split \<longrightarrow>
      (\<forall>t \<in> set (cb_outputs cb). (is_op_return t \<and> to_value t = 0) \<or> to_script t = po_pool_script p
        \<or> po_gateway_script p = Some (to_script t) \<or> to_script t \<in> op_script ` set iss)
      \<and> (\<forall>i \<in> set iss. op_script i \<noteq> po_pool_script p \<longrightarrow>
          0 < paid_to (op_script i) cb
          \<and> owe (op_sats i) \<le> paid_to (op_script i) cb + po_tolerance p
          \<and> paid_to (op_script i) cb
            \<le> most (issued_to (filter (\<lambda>i. op_script i \<noteq> po_pool_script p) iss) (op_script i)) + (po_tolerance p + length iss)))
    \<and> (length iss \<le> u16_max \<and> sum_list (map op_sats iss) \<le> u64_max \<longrightarrow> classify_coinbase cb p so n me \<noteq> None)"
proof (intro conjI impI)
  assume split: "classify_coinbase cb p so n me = Some Split"
  obtain iss' sc where sc: "scan_outputs p (cb_outputs cb) no_scan = Some sc" "sc_foreign sc = 0" "po_issued p = Some iss'"
    and ci': "classify_issued cb p iss' sc so n me = Some (Some Split)"
    by (rule classify_split [OF split])
  have ci: "classify_issued cb p iss sc so n me = Some (Some Split)" using ci' sc(3) assms(1) by simp
  let ?ms = "filter (\<lambda>i. op_script i \<noteq> po_pool_script p) iss" and ?slack = "sat_add64 (po_tolerance p) (length iss)"
  have loop: "miner_loop cb owe most (po_tolerance p) ?slack ?ms ?ms 0 False = Some (Inr (length ?ms, False))"
    unfolding owe_def most_def by (rule issued_split [OF ci])
  note m = miner_loop_sound [OF loop]
  show "\<forall>t \<in> set (cb_outputs cb). (is_op_return t \<and> to_value t = 0) \<or> to_script t = po_pool_script p
        \<or> po_gateway_script p = Some (to_script t) \<or> to_script t \<in> op_script ` set iss"
    using scan_outputs_sound [OF sc(1)] sc(2) assms(1) by auto
  show "\<forall>i \<in> set iss. op_script i \<noteq> po_pool_script p \<longrightarrow> 0 < paid_to (op_script i) cb
      \<and> owe (op_sats i) \<le> paid_to (op_script i) cb + po_tolerance p
      \<and> paid_to (op_script i) cb \<le> most (issued_to ?ms (op_script i)) + (po_tolerance p + length iss)"
  proof (intro ballI impI)
    fix i assume "i \<in> set iss" "op_script i \<noteq> po_pool_script p"
    then have i: "i \<in> set ?ms" by simp
    then have paid: "0 < paid_to (op_script i) cb" using m by simp
    moreover have "owe (op_sats i) \<le> sat_add64 (paid_to (op_script i) cb) (po_tolerance p)" using m i paid by blast
    moreover have "paid_to (op_script i) cb \<le> sat_add64 (most (issued_to ?ms (op_script i))) ?slack" using m i paid by blast
    ultimately show "0 < paid_to (op_script i) cb \<and> owe (op_sats i) \<le> paid_to (op_script i) cb + po_tolerance p
      \<and> paid_to (op_script i) cb \<le> most (issued_to ?ms (op_script i)) + (po_tolerance p + length iss)"
      using sat_add64_le_sum [of "paid_to (op_script i) cb" "po_tolerance p"] sat_add64_le_sum [of "most (issued_to ?ms (op_script i))" ?slack]
        sat_add64_le_sum [of "po_tolerance p" "length iss"] by linarith
  qed
next
  assume small: "length iss \<le> u16_max \<and> sum_list (map op_sats iss) \<le> u64_max"
  have "length (filter (\<lambda>i. op_script i \<noteq> po_pool_script p) iss) \<le> u16_max" using small length_filter_le [of _ iss] le_trans by blast
  then have loop: "miner_loop cb ow cp tol sl ms (filter (\<lambda>i. op_script i \<noteq> po_pool_script p) iss) 0 False \<noteq> None" for ow cp tol sl ms
    by (intro miner_loop_total) simp
  have "classify_issued cb p iss sc so n me \<noteq> None" for sc
  proof -
    let ?ms = "filter (\<lambda>i. op_script i \<noteq> po_pool_script p) iss"
    obtain r where "miner_loop cb (owed (sum_list (map op_sats iss)) (total_output_value cb))
        (cap (sum_list (map op_sats iss)) (total_output_value cb)) (po_tolerance p) (sat_add64 (po_tolerance p) (length iss)) ?ms ?ms 0 False = Some r"
      using loop by fast
    then show ?thesis using small by (cases r) (auto simp: classify_issued_def Let_def sum_u64_eq)
  qed
  then have "classify_outputs cb p so n me \<noteq> None"
    using assms(1) by (auto simp: classify_outputs_def split: option.splits) (metis bind.bind_lunit)
  then show "classify_coinbase cb p so n me \<noteq> None" by (auto simp: classify_coinbase_def)
qed

section \<open>Examples\<close>

definition ex_hashes :: hashes where
  "ex_hashes = \<lparr>hs_sha256 = (\<lambda>_. replicate 32 0), hs_blake2b = (\<lambda>_. replicate 32 0)\<rparr>"

definition ex_job :: job_section where
  "ex_job = \<lparr>jb_prev_hash = replicate 32 0, jb_target_byte_index = 0, jb_nbits = [0xff, 0xff, 0x00, 0x1d], jb_coinbaser_id = 0,
     jb_height = 7, jb_coinbase_value = 5, jb_txn_count = 1, jb_txn_total_weight = 0, jb_txn_total_size = 0,
     jb_txn_total_sigops = 0, jb_merkle_branches = []\<rparr>"

definition ex_share :: pow_submit where
  "ex_share = \<lparr>ps_job_id = 1, ps_coinbase_id = 2, ps_flags = 0, ps_target_pot = 32, ps_ntime32 = 0, ps_nonce32 = 0, ps_version = 2,
     ps_extranonce = replicate 12 0, ps_username = [], ps_reserved = [0, 0, 0, 0],
     ps_blake2b = Some \<lparr>bl_ntime = replicate 8 0, bl_nonce = replicate 8 0\<rparr>, ps_time_on_wire = Some 1000,
     ps_job = Some ex_job, ps_coinbase = Some \<lparr>cs_coinbase_id = 2, cs_coinb1 = fst ex_coinbase, cs_coinb2 = []\<rparr>\<rparr>"

definition ex_policy :: policy where
  "ex_policy = \<lparr>po_pool_script = [0x00, 0x14, 0x11], po_issued = None, po_tolerance = 0, po_now = 0, po_min_pot = 32,
     po_gateway_script = None, po_empty_solo_fee_bps = 0, po_trusted_target = True, po_uncommitted_pot = 32, po_held_split = False\<rparr>"

definition ex_slot :: job_slot where
  "ex_slot = fst (absorb ex_share empty_slot)"

lemma ex_reach: "slot_reach H ex_slot"
  unfolding ex_slot_def by (intro slot_reach.absorbs slot_reach.start)

lemma ex_law: "hash_law ex_hashes"
  by (simp add: hash_law_def ex_hashes_def)

lemma length_ex_coinbase: "length (fst ex_coinbase) \<le> 20000"
  by (simp add: ex_coinbase_def build_coinbase_def Let_def ex_outs_def build_sig_def sig_head_def height_bytes_def write_varint_def
      write_tx_out_def EXTRANONCE_SLOT_def)

lemma ex_slot_simps:
  "sl_job ex_slot = Some ex_job" "map_of (sl_coinbases ex_slot) 2 = Some \<lparr>cs_coinbase_id = 2, cs_coinb1 = fst ex_coinbase, cs_coinb2 = []\<rparr>"
  "sl_cb_cache ex_slot = []" "sl_h2_cache ex_slot = []" "sl_txcount_includes_coinbase ex_slot = None"
  using length_ex_coinbase by (simp_all add: ex_slot_def absorb_def absorb_job_def absorb_coinbase_def empty_slot_def ex_share_def Let_def
      section_bytes_def slot_limits)

lemma ex_verifies: "\<exists>slot' v. verify_share ex_hashes ex_slot ex_share ex_policy = Some (slot', Inr v)"
proof -
  obtain c where c: "parse_coinbase (fst ex_coinbase) = Inr c" "cb_outputs c = ex_outs" "cb_height c = Some 7"
    using built_parses [OF _ _ _ _ _ _ ex_coinbase_eq] by (auto simp: ex_outs_def tx_out_ok_def)
  obtain t where t: "share_target_le 32 = Some t" "length t = 32"
    by (rule share_target_value [of 32]) (auto intro: that)
  have hash: "ground_hash ex_hashes j s b h = replicate 32 0" for j s b h
    by (simp add: ground_hash_def pow_hash_le_def xor_mask_def blake2b256_def ex_hashes_def Let_def list_all_iff zip_replicate)
  have meets: "meets_target (replicate 32 0) t" using t(2) by (simp add: meets_target_nat)
  have id: "coinbase_id_for ex_share = 2" "ps_target_pot ex_share = 32" by (simp_all add: coinbase_id_for_def subsidy_only_def ex_share_def)
  have leg: "legacy_of ex_job \<lparr>cs_coinbase_id = 2, cs_coinb1 = fst ex_coinbase, cs_coinb2 = []\<rparr> n = fst ex_coinbase" for n
    by (simp add: legacy_of_def assemble_def is_whole_def ex_job_def)
  have kind: "classify_coinbase c ex_policy b n m = Some PoolOnly" for b n m
    by (simp add: classify_coinbase_def classify_outputs_def c ex_outs_def ex_policy_def is_op_return_def no_scan_def classify_rest_def Let_def)
  have sh: "is_blake2b ex_share" "ps_blake2b ex_share = Some \<lparr>bl_ntime = replicate 8 0, bl_nonce = replicate 8 0\<rparr>"
    "ps_time_on_wire ex_share = Some 1000" by (simp_all add: is_blake2b_def ex_share_def)
  have jb: "jb_height ex_job = 7" "jb_txn_count ex_job = 1" by (simp_all add: ex_job_def)
  have po: "po_now ex_policy = 0" by (simp add: ex_policy_def)
  show ?thesis
    by (simp add: verify_share_def t(1) id verify_with_target_def sh ex_slot_simps coinbase_entry_def leg c jb
        verify_work_def kind po conventions_def attempt_def hash meets Let_def)
qed

theorem verify_caches_transparent_witness:
  "map_option snd (verify_share ex_hashes ex_slot ex_share ex_policy)
    = map_option snd (verify_share ex_hashes (no_caches ex_slot) ex_share ex_policy)"
  by (rule verify_caches_transparent [OF ex_reach])

theorem slot_stays_small_witness: "slot_small ex_slot \<and> coinbase_bytes ex_slot \<le> 160000"
  using slot_stays_small [OF ex_reach] by blast

theorem verified_share_sound_witness:
  "\<exists>slot' v. verify_share ex_hashes ex_slot ex_share ex_policy = Some (slot', Inr v)
    \<and> cb_height (vs_coinbase v) = Some (vs_height v) \<and> vs_coinbase_kind v \<noteq> Foreign"
  using ex_verifies verified_share_sound [OF ex_reach ex_law] by metis

text \<open>Two issued outputs that share a script, and a coinbase that pays the script once.\<close>

definition ex_issued :: "cb_output list" where
  "ex_issued = [\<lparr>op_sats = 5, op_script = [0x51]\<rparr>, \<lparr>op_sats = 5, op_script = [0x51]\<rparr>]"

definition ex_split_policy :: policy where
  "ex_split_policy = ex_policy\<lparr>po_issued := Some ex_issued\<rparr>"

definition ex_paid :: "u64 \<Rightarrow> u64 \<Rightarrow> coinbase_tx" where
  "ex_paid miner pool = \<lparr>cb_version = 1, cb_script_sig = [], cb_sequence = 0,
     cb_outputs = [\<lparr>to_value = miner, to_script = [0x51]\<rparr>, \<lparr>to_value = pool, to_script = [0x00, 0x14, 0x11]\<rparr>],
     cb_lock_time = 0, cb_height = Some 7, cb_outputs_at = 0, cb_lock_time_at = 0\<rparr>"

lemmas ex_split_defs = ex_issued_def ex_split_policy_def ex_paid_def ex_policy_def classify_coinbase_def classify_outputs_def
  classify_issued_def no_scan_def is_op_return_def is_gateway_def paid_to_def total_output_value_def issued_to_def owed_def cap_def
  sat_add64_def scale_def trunc64_def Let_def

theorem split_pays_issued_witness: "0 < paid_to [0x51] (ex_paid 10 1) \<and> classify_coinbase (ex_paid 10 1) ex_split_policy False 2 False \<noteq> None"
proof -
  have "classify_coinbase (ex_paid 10 1) ex_split_policy False 2 False = Some Split"
    by (simp add: ex_split_defs chk_def)
  then show ?thesis
    using split_pays_issued [of ex_split_policy ex_issued "ex_paid 10 1" False 2 False] by (auto simp: ex_split_policy_def ex_issued_def ex_policy_def)
qed

text \<open>
  The floor of an issued output is checked against all its script received: two issued outputs of 5 sats
  to one script count as present and paid in full when the script was paid 5 sats once and the pool kept the
  rest, so the share is classified as the split.
\<close>

theorem split_misses_shared_script:
  "classify_coinbase (ex_paid 5 5) ex_split_policy False 2 False = Some Split
    \<and> paid_to [0x51] (ex_paid 5 5) < issued_to ex_issued [0x51]"
  by (simp add: ex_split_defs chk_def)

end
