(* ===== verification/Primed_Address.thy ===== *)
theory Primed_Address
  imports Wire_Coinbaser "HOL-Library.AList"
begin

text \<open>
  Payout addresses, \<^verbatim>\<open>prime/primed/src/address.rs\<close>. A Rust string is the list of its UTF-8 bytes as characters. The
  decoders come from third-party crates and are the two fields of the record \<open>codecs\<close>: \<^verbatim>\<open>bech32::segwit::decode\<close>
  (prefix, witness version, program) and \<^verbatim>\<open>bs58::decode(..).with_check(None)\<close>. \<open>segwit_law\<close> states what BIP 141 and
  BIP 173 say of the first: versions up to 16, programs of 2 to 40 bytes, and no difference between the two cases.
\<close>

lemma set_alist_update: "set (AList.update k v al) \<subseteq> insert (k, v) (set al)"
  by (induction al) auto

section \<open>Strings\<close>

text \<open>\<^verbatim>\<open>str::trim\<close>: the Unicode white space, as UTF-8.\<close>

definition white_space :: "nat list list" where
  "white_space = [[9], [10], [11], [12], [13], [32], [0xC2, 0x85], [0xC2, 0xA0], [0xE1, 0x9A, 0x80],
     [0xE2, 0x80, 0xA8], [0xE2, 0x80, 0xA9], [0xE2, 0x80, 0xAF], [0xE2, 0x81, 0x9F], [0xE3, 0x80, 0x80]]
     @ map (\<lambda>b. [0xE2, 0x80, b]) [0x80..<0x8B]"

definition lead_space :: "nat list list \<Rightarrow> string \<Rightarrow> nat" where
  "lead_space ws s = (case find (\<lambda>w. map of_char (take (length w) s) = w) ws of Some w \<Rightarrow> length w | None \<Rightarrow> 0)"

function trim_lead :: "nat list list \<Rightarrow> string \<Rightarrow> string" where
  "trim_lead ws s = (let n = lead_space ws s in if n = 0 \<or> s = [] then s else trim_lead ws (drop n s))"
  by pat_completeness auto
termination by (relation "measure (\<lambda>(ws, s). length s)") (auto simp: neq_Nil_conv)

declare trim_lead.simps [simp del]

definition trim_str :: "string \<Rightarrow> string" where
  "trim_str s = rev (trim_lead (map rev white_space) (rev (trim_lead white_space s)))"

definition lower_char :: "char \<Rightarrow> char" where
  "lower_char c = (let n = (of_char c :: nat) in if 65 \<le> n \<and> n \<le> 90 then char_of (n + 32) else c)"

definition to_ascii_lower :: "string \<Rightarrow> string" where
  "to_ascii_lower = map lower_char"

definition eq_ignore_ascii_case :: "string \<Rightarrow> string \<Rightarrow> bool" where
  "eq_ignore_ascii_case a b \<longleftrightarrow> to_ascii_lower a = to_ascii_lower b"

section \<open>Model\<close>

datatype network = Mainnet | Testnet | Signet | Regtest

definition parse_network :: "string \<Rightarrow> network option" where
  "parse_network s =
     (if s \<in> {''mainnet'', ''main'', ''bitcoin''} then Some Mainnet
      else if s \<in> {''testnet'', ''test'', ''testnet4'', ''testnet3''} then Some Testnet
      else if s = ''signet'' then Some Signet
      else if s = ''regtest'' then Some Regtest
      else None)"

fun hrp :: "network \<Rightarrow> string" where
  "hrp Mainnet = ''bc''"
| "hrp Regtest = ''bcrt''"
| "hrp _ = ''tb''"

definition p2pkh_version :: "network \<Rightarrow> byte" where
  "p2pkh_version n = (if n = Mainnet then 0x00 else 0x6f)"

definition p2sh_version :: "network \<Rightarrow> byte" where
  "p2sh_version n = (if n = Mainnet then 0x05 else 0xc4)"

definition RDTS_MAX_OUTPUT_SCRIPT :: usize where "RDTS_MAX_OUTPUT_SCRIPT = 34"
definition RDTS_MAX_OUTPUT_DATA :: usize where "RDTS_MAX_OUTPUT_DATA = 83"

definition rdts_output_ok :: "byte list \<Rightarrow> bool" where
  "rdts_output_ok script \<longleftrightarrow> (case script of [] \<Rightarrow> True
     | b # _ \<Rightarrow> if b = 0x6a then length script \<le> RDTS_MAX_OUTPUT_DATA else length script \<le> RDTS_MAX_OUTPUT_SCRIPT)"

record codecs =
  ad_segwit :: "string \<Rightarrow> (string \<times> u8 \<times> byte list) option"
  ad_base58 :: "string \<Rightarrow> byte list option"

definition segwit_law :: "codecs \<Rightarrow> bool" where
  "segwit_law A \<longleftrightarrow> (\<forall>s h v p. ad_segwit A s = Some (h, v, p) \<longrightarrow>
     v \<le> 16 \<and> 2 \<le> length p \<and> length p \<le> 40 \<and> ad_segwit A (to_ascii_lower s) = Some (to_ascii_lower h, v, p))"

definition segwit_script :: "u8 \<Rightarrow> byte list \<Rightarrow> byte list" where
  "segwit_script v prog = [if v = 0 then 0x00 else of_nat (0x50 + v), of_nat (length prog)] @ prog"

definition decode_script :: "codecs \<Rightarrow> string \<Rightarrow> network \<Rightarrow> byte list option" where
  "decode_script A addr net = (let addr = trim_str addr in
     if addr = [] \<or> length addr > 90 then None
     else case ad_segwit A addr of
       Some (h, ver, prog) \<Rightarrow> if \<not> eq_ignore_ascii_case h (hrp net) then None else Some (segwit_script ver prog)
     | None \<Rightarrow> (case ad_base58 A addr of None \<Rightarrow> None
       | Some raw \<Rightarrow>
           if length raw \<noteq> 21 then None
           else if raw ! 0 = p2pkh_version net then Some ([0x76, 0xa9, 0x14] @ drop 1 raw @ [0x88, 0xac])
           else if raw ! 0 = p2sh_version net then Some ([0xa9, 0x14] @ drop 1 raw @ [0x87])
           else None))"

definition to_script :: "codecs \<Rightarrow> string \<Rightarrow> network \<Rightarrow> byte list option" where
  "to_script A addr net = (case decode_script A addr net of None \<Rightarrow> None
     | Some s \<Rightarrow> if rdts_output_ok s then Some s else None)"

definition looks_like_address :: "codecs \<Rightarrow> string \<Rightarrow> bool" where
  "looks_like_address A s \<longleftrightarrow> (let s = trim_str s in
     \<not> (length s < 14 \<or> length s > 90)
     \<and> (ad_segwit A s \<noteq> None \<or> (case ad_base58 A s of None \<Rightarrow> False | Some raw \<Rightarrow> length raw = 21)))"

definition identity_of :: "string \<Rightarrow> string" where
  "identity_of username = takeWhile (\<lambda>c. c \<noteq> CHR ''.'' \<and> c \<noteq> CHR ''~'') (trim_str username)"

definition canonical_identity :: "codecs \<Rightarrow> string \<Rightarrow> string" where
  "canonical_identity A ident = (if ad_segwit A ident \<noteq> None then to_ascii_lower ident else ident)"

section \<open>Lemmas\<close>

lemma lower_char_idem [simp]: "lower_char (lower_char c) = lower_char c"
  by (simp add: lower_char_def Let_def)

lemma to_ascii_lower_idem [simp]: "to_ascii_lower (to_ascii_lower s) = to_ascii_lower s"
  by (simp add: to_ascii_lower_def)

lemma length_to_ascii_lower [simp]: "length (to_ascii_lower s) = length s" "to_ascii_lower s = [] \<longleftrightarrow> s = []"
  by (simp_all add: to_ascii_lower_def)

lemma lower_char_code:
  "(of_char (lower_char c) :: nat) = (let n = of_char c in if 65 \<le> n \<and> n \<le> 90 then n + 32 else n)"
  by (simp add: lower_char_def Let_def)

text \<open>Lowering the case does not touch white space, so it commutes with trimming.\<close>

definition no_letters :: "nat list list \<Rightarrow> bool" where
  "no_letters ws \<longleftrightarrow> (\<forall>w \<in> set ws. \<forall>n \<in> set w. n < 65 \<or> 122 < n)"

lemma white_space_no_letters: "no_letters white_space" "no_letters (map rev white_space)"
  by (auto simp: no_letters_def white_space_def)

lemma codes_lower:
  assumes "\<forall>n \<in> set w. n < 65 \<or> 122 < (n :: nat)"
  shows "map of_char (to_ascii_lower s) = w \<longleftrightarrow> map of_char s = w"
  using assms
proof (induction s arbitrary: w)
  case (Cons c s)
  show ?case
  proof (cases w)
    case (Cons n w')
    have "(of_char (lower_char c) :: nat) = n \<longleftrightarrow> of_char c = n"
      using Cons.prems \<open>w = n # w'\<close> by (auto simp: lower_char_code Let_def)
    then show ?thesis using Cons.IH [of w'] Cons.prems \<open>w = n # w'\<close> by (simp add: to_ascii_lower_def)
  qed (simp add: to_ascii_lower_def)
qed (simp add: to_ascii_lower_def)

lemma take_lower: "take n (to_ascii_lower s) = to_ascii_lower (take n s)"
  and drop_lower: "drop n (to_ascii_lower s) = to_ascii_lower (drop n s)"
  and rev_lower: "rev (to_ascii_lower s) = to_ascii_lower (rev s)"
  by (simp_all add: to_ascii_lower_def take_map drop_map rev_map)

lemma lead_space_lower: "no_letters ws \<Longrightarrow> lead_space ws (to_ascii_lower s) = lead_space ws s"
proof (induction ws)
  case (Cons w ws)
  have "map of_char (to_ascii_lower (take (length w) s)) = w \<longleftrightarrow> map of_char (take (length w) s) = w"
    using Cons.prems by (intro codes_lower) (simp add: no_letters_def)
  then show ?case using Cons by (simp add: lead_space_def take_lower no_letters_def)
qed (simp add: lead_space_def)

lemma trim_lead_lower: "no_letters ws \<Longrightarrow> trim_lead ws (to_ascii_lower s) = to_ascii_lower (trim_lead ws s)"
proof (induction ws s rule: trim_lead.induct)
  case (1 ws s)
  show ?case
    using 1 by (subst (1 2) trim_lead.simps) (auto simp: Let_def lead_space_lower drop_lower)
qed

lemma trim_lower: "trim_str (to_ascii_lower s) = to_ascii_lower (trim_str s)"
  by (simp add: trim_str_def trim_lead_lower white_space_no_letters rev_lower)

lemma decode_script_cases:
  assumes "decode_script A a n = Some s"
  obtains (segwit) h v p where "ad_segwit A (trim_str a) = Some (h, v, p)" "s = segwit_script v p"
    | (legacy) raw where "length raw = 21" "s = [0x76, 0xa9, 0x14] @ drop 1 raw @ [0x88, 0xac] \<or> s = [0xa9, 0x14] @ drop 1 raw @ [0x87]"
  using assms by (auto simp: decode_script_def Let_def split: if_splits option.splits)

lemma witness_opcode:
  assumes "v \<le> 16"
  shows "(if v = 0 then 0x00 else of_nat (0x50 + v) :: byte) \<noteq> 0x6a"
proof -
  have code: "unat (of_nat (0x50 + v) :: byte) = 0x50 + v" unfolding unat_of_nat using assms by simp
  have "(of_nat (0x50 + v) :: byte) \<noteq> 0x6a"
  proof
    assume "(of_nat (0x50 + v) :: byte) = 0x6a"
    then have "unat (0x6a :: byte) = 0x50 + v" using code by simp
    then show False using assms by simp
  qed
  then show ?thesis by simp
qed

section \<open>Properties\<close>

text \<open>
  A payable address gives a script every part of the pool can carry: it is 2 to 34 bytes long, inside the limits
  of a coinbaser entry and of RDTS, and it is not an OP_RETURN, so no payee output is ever read as a burn.
\<close>

theorem payable_script_fits:
  assumes "segwit_law A" "to_script A addr net = Some s"
  shows "MIN_SCRIPT \<le> length s \<and> length s \<le> RDTS_MAX_OUTPUT_SCRIPT \<and> length s \<le> MAX_SCRIPT \<and> s \<noteq> [] \<and> hd s \<noteq> 0x6a"
proof -
  have d: "decode_script A addr net = Some s" "rdts_output_ok s"
    using assms(2) by (auto simp: to_script_def split: option.splits if_splits)
  have "2 \<le> length s \<and> s \<noteq> [] \<and> hd s \<noteq> 0x6a"
    using d(1)
  proof (cases rule: decode_script_cases)
    case (segwit h v p)
    then have "v \<le> 16" using assms(1) unfolding segwit_law_def by blast
    from witness_opcode [OF this] show ?thesis using segwit by (simp add: segwit_script_def)
  next
    case (legacy raw)
    then show ?thesis by auto
  qed
  moreover from this have "length s \<le> 34"
    using d(2) by (cases s) (auto simp: rdts_output_ok_def RDTS_MAX_OUTPUT_SCRIPT_def split: if_splits)
  ultimately show ?thesis by (simp add: MIN_SCRIPT_def MAX_SCRIPT_def RDTS_MAX_OUTPUT_SCRIPT_def)
qed

text \<open>
  The canonical form of an identity is a fixed point and is paid the same script: folding the case of a bech32
  address never changes who is paid, and every spelling of it becomes one row.
\<close>

theorem canonical_identity_pays_same:
  assumes "segwit_law A" "trim_str i = i"
  shows "canonical_identity A (canonical_identity A i) = canonical_identity A i
    \<and> to_script A (canonical_identity A i) net = to_script A i net
    \<and> (ad_segwit A i \<noteq> None \<and> to_ascii_lower j = to_ascii_lower i \<and> ad_segwit A j \<noteq> None \<longrightarrow> canonical_identity A j = canonical_identity A i)"
proof -
  have "to_script A (to_ascii_lower i) net = to_script A i net" if some: "ad_segwit A i = Some (h, v, p)" for h v p
  proof -
    have "ad_segwit A (to_ascii_lower i) = Some (to_ascii_lower h, v, p)" using assms(1) some unfolding segwit_law_def by blast
    then have "decode_script A (to_ascii_lower i) net = decode_script A i net"
      using some assms(2) by (simp add: decode_script_def trim_lower eq_ignore_ascii_case_def Let_def)
    then show ?thesis by (simp add: to_script_def)
  qed
  then show ?thesis by (auto simp: canonical_identity_def)
qed

text \<open>
  A space before the worker's dot survives: the identity keeps it, although an address is decoded without it. So
  two usernames of one address can be two identities, with one script between them.
\<close>

theorem identity_keeps_inner_space:
  "identity_of ''a .rig'' \<noteq> identity_of ''a.rig'' \<and> trim_str (identity_of ''a .rig'') = identity_of ''a.rig''"
  by (simp add: identity_of_def trim_str_def trim_lead.simps lead_space_def white_space_def Let_def)

definition ex_codecs :: codecs where
  "ex_codecs = \<lparr>ad_segwit = (\<lambda>s. if to_ascii_lower s = ''bc1qa'' then Some (take 2 s, 0, [1, 2]) else None), ad_base58 = (\<lambda>_. None)\<rparr>"

lemma ex_codecs_law: "segwit_law ex_codecs"
  by (auto simp: segwit_law_def ex_codecs_def simp flip: take_lower split: if_splits)

lemma trim_ex: "trim_str ''BC1QA'' = ''BC1QA''"
  by (simp add: trim_str_def trim_lead.simps lead_space_def white_space_def Let_def)

lemma lower_ex: "to_ascii_lower ''BC1QA'' = ''bc1qa''" "to_ascii_lower ''BC'' = ''bc''" "to_ascii_lower ''bc'' = ''bc''"
  by code_simp+

lemma ex_script_of: "to_script ex_codecs ''BC1QA'' Mainnet = Some [0, 2, 1, 2]"
  by (simp add: to_script_def decode_script_def trim_ex ex_codecs_def lower_ex eq_ignore_ascii_case_def segwit_script_def rdts_output_ok_def
      RDTS_MAX_OUTPUT_SCRIPT_def)

theorem payable_script_fits_witness: "to_script ex_codecs ''BC1QA'' Mainnet = Some [0, 2, 1, 2] \<and> hd [0, 2, 1, 2 :: byte] \<noteq> 0x6a"
  using payable_script_fits [OF ex_codecs_law ex_script_of] ex_script_of by blast

theorem canonical_identity_pays_same_witness:
  "to_script ex_codecs (canonical_identity ex_codecs ''BC1QA'') Mainnet = to_script ex_codecs ''BC1QA'' Mainnet"
  using canonical_identity_pays_same [OF ex_codecs_law trim_ex, of Mainnet "''BC1QA''"] by blast

end
