(* ===== verification/Primed_Settle.thy ===== *)
theory Primed_Settle
  imports Tides_Blocks Wire_Verify Primed_Address
begin

text \<open>
  What a found block does to the books, \<^verbatim>\<open>prime/primed/src/session.rs\<close>: the list a coinbaser reply carries for a
  split (\<^verbatim>\<open>coinbaser_outputs\<close>), the settlement of a block against the coinbaser it was mined on (\<^verbatim>\<open>settle\<close>), and
  the size a gateway's coinbase class is seen to have (\<^verbatim>\<open>kept_payee_bytes\<close>, \<^verbatim>\<open>ClassBudget\<close>). An \<^verbatim>\<open>Instant\<close> is a
  number of milliseconds, and \<open>None\<close> is a panic of a sum.
\<close>

section \<open>Settling a block\<close>

record coinbaser =
  cz_value :: u64
  cz_payees :: "payee list"
  cz_unpaid :: "unpaid list"
  cz_rebate_credits :: "(string \<times> u64) list"
  cz_rebate_owed_credited :: u64
  cz_rebate_deferred :: u64
  cz_class_capped :: bool

record settlement =
  st_kind :: string
  st_owed :: u64
  st_split :: "(string \<times> u64) list"
  st_carry_paid :: u64
  st_carry_placed :: "(string \<times> u64) list"
  st_carry_delta :: "(string \<times> i64) list"
  st_rebate_credits :: "(string \<times> u64) list"
  st_rebate_credited :: u64
  st_rebate_delta :: i64
  st_carry_reserved :: u64

definition bare :: "string \<Rightarrow> settlement" where
  "bare kind = \<lparr>st_kind = kind, st_owed = 0, st_split = [], st_carry_paid = 0, st_carry_placed = [], st_carry_delta = [],
     st_rebate_credits = [], st_rebate_credited = 0, st_rebate_delta = 0, st_carry_reserved = 0\<rparr>"

definition reward_matches :: "u64 \<Rightarrow> u64 \<Rightarrow> bool" where
  "reward_matches actual issued \<longleftrightarrow> issued = 0 \<or> (actual \<ge> issued \<and> actual - issued \<le> issued div 16)"

text \<open>\<^verbatim>\<open>scale\<close>.\<close>

definition scale_to :: "u64 \<Rightarrow> u64 \<Rightarrow> u64 \<Rightarrow> u64" where
  "scale_to sats value issued_value = (if issued_value = 0 then sats else trunc64 (sats * value div issued_value))"

definition reserved :: "coinbaser \<Rightarrow> (u64 \<Rightarrow> u64) \<Rightarrow> u64" where
  "reserved cb each = (if \<not> cz_class_capped cb then 0
     else fold (\<lambda>u a. sat_add64 a (each (un_earned u))) (filter (\<lambda>u. un_reason u = OverBudget \<and> defers u) (cz_unpaid cb)) 0)"

definition issued_delta :: "coinbaser \<Rightarrow> (string \<times> i64) list" where
  "issued_delta cb = carry_delta (cz_payees cb) (cz_unpaid cb) (cz_rebate_credits cb) (\<lambda>_. True)"

definition placed :: "(byte list \<Rightarrow> u64) \<Rightarrow> bool \<Rightarrow> payee \<Rightarrow> bool" where
  "placed paid_at pool_only p \<longleftrightarrow> \<not> pool_only \<and> paid_at (py_script p) > 0"

text \<open>The reward is the one the coinbaser was priced for: its own figures stand.\<close>

definition settle_as_issued :: "string \<Rightarrow> bool \<Rightarrow> coinbaser \<Rightarrow> (byte list \<Rightarrow> u64) \<Rightarrow> settlement option" where
  "settle_as_issued name full_split cb paid_at = do {
     let carry_placed = map (\<lambda>p. (py_identity p, py_carry p))
       (filter (\<lambda>p. py_carry p > 0 \<and> (full_split \<or> placed paid_at False p)) (cz_payees cb));
     owed \<leftarrow> (if full_split then Some 0 else sum_u64 (map py_sats (filter (\<lambda>p. \<not> placed paid_at False p) (cz_payees cb))));
     carry_paid \<leftarrow> sum_u64 (map snd carry_placed);
     credited \<leftarrow> sum_u64 (map snd (cz_rebate_credits cb));
     Some \<lparr>st_kind = name, st_owed = owed, st_split = map (\<lambda>p. (py_identity p, py_sats p)) (cz_payees cb),
       st_carry_paid = carry_paid, st_carry_placed = carry_placed, st_carry_delta = issued_delta cb,
       st_rebate_credits = cz_rebate_credits cb, st_rebate_credited = credited,
       st_rebate_delta = rebate_delta (cz_rebate_owed_credited cb) (cz_rebate_deferred cb),
       st_carry_reserved = reserved cb (\<lambda>e. e)\<rparr> }"

definition entitled :: "coinbaser \<Rightarrow> u64 \<Rightarrow> payee \<Rightarrow> u64" where
  "entitled cb coinbase_value p =
     sat_add64 (scale_to (py_sats p - py_carry p) coinbase_value (cz_value cb)) (py_carry p)"

definition paid_of :: "coinbaser \<Rightarrow> u64 \<Rightarrow> (byte list \<Rightarrow> u64) \<Rightarrow> bool \<Rightarrow> payee \<Rightarrow> u64" where
  "paid_of cb coinbase_value paid_at pool_only p =
     (if pool_only then 0 else min (paid_at (py_script p)) (entitled cb coinbase_value p))"

text \<open>The block is priced for what it was. \<^verbatim>\<open>entitled(p) - paid(p)\<close> cannot underflow: \<^verbatim>\<open>paid\<close> is capped.\<close>

definition settle_rescaled :: "string \<Rightarrow> bool \<Rightarrow> coinbaser \<Rightarrow> u64 \<Rightarrow> (byte list \<Rightarrow> u64) \<Rightarrow> settlement option" where
  "settle_rescaled name pool_only cb coinbase_value paid_at = do {
     let rescale = (\<lambda>sats. scale_to sats coinbase_value (cz_value cb));
     let ent = entitled cb coinbase_value;
     let paid = paid_of cb coinbase_value paid_at pool_only;
     let carry_placed = map (\<lambda>p. (py_identity p, min (py_carry p) (paid p)))
       (filter (\<lambda>p. py_carry p > 0 \<and> placed paid_at pool_only p) (cz_payees cb));
     owed \<leftarrow> sum_u64 (map (\<lambda>p. ent p - paid p) (cz_payees cb));
     carry_paid \<leftarrow> sum_u64 (map snd carry_placed);
     credited \<leftarrow> sum_u64 (map (\<lambda>r. rescale (snd r)) (cz_rebate_credits cb));
     Some \<lparr>st_kind = name, st_owed = owed, st_split = map (\<lambda>p. (py_identity p, ent p)) (cz_payees cb),
       st_carry_paid = carry_paid, st_carry_placed = carry_placed,
       st_carry_delta = map (\<lambda>(i, d). if d > 0 then (i, to_i64 (rescale (nat d))) else (i, d)) (issued_delta cb),
       st_rebate_credits = map (\<lambda>(i, s). (i, rescale s)) (cz_rebate_credits cb), st_rebate_credited = credited,
       st_rebate_delta = rebate_delta (cz_rebate_owed_credited cb) (cz_rebate_deferred cb),
       st_carry_reserved = reserved cb (\<lambda>e. min (rescale e) i64_max)\<rparr> }"

definition settle :: "coinbase_kind \<Rightarrow> coinbaser option \<Rightarrow> u64 \<Rightarrow> (byte list \<Rightarrow> u64) \<Rightarrow> settlement option" where
  "settle kind cb coinbase_value paid_at =
     (let on = (\<lambda>name. case cb of
          None \<Rightarrow> Some (bare (if kind = Split then ''split'' else ''unknown''))
        | Some cb \<Rightarrow>
            if kind \<noteq> PoolOnly \<and> reward_matches coinbase_value (cz_value cb)
            then settle_as_issued name (kind = Split) cb paid_at
            else settle_rescaled name (kind = PoolOnly) cb coinbase_value paid_at)
      in case kind of Split \<Rightarrow> on ''split'' | Partial _ \<Rightarrow> on ''partial'' | PoolOnly \<Rightarrow> on ''pool-only''
         | EmptySolo \<Rightarrow> Some (bare ''solo'') | GatewaySolo \<Rightarrow> Some (bare ''solo'') | Foreign \<Rightarrow> Some (bare ''unknown''))"

definition carry_on_record :: "(string \<times> u64) list \<Rightarrow> books \<Rightarrow> (u64 \<times> u64) option" where
  "carry_on_record carry_placed b = do {
     let short_of = (\<lambda>s. sum_u64 (map snd (filter (\<lambda>x. fst x = s) (bk_shortfall b))));
     paids \<leftarrow> those (map (\<lambda>(s, c). map_option (\<lambda>x. c - x) (short_of s)) carry_placed);
     paid \<leftarrow> sum_u64 paids;
     short \<leftarrow> sum_u64 (map snd (bk_shortfall b));
     Some (paid, short) }"

section \<open>The list of a coinbaser reply\<close>

definition coinbaser_outputs :: "split \<Rightarrow> byte list \<Rightarrow> cb_output list" where
  "coinbaser_outputs s pool_script =
     (let outputs = map (\<lambda>p. \<lparr>op_sats = py_sats p, op_script = py_script p\<rparr>) (sl_payees s) in
      if sl_pool_sats s > 0 \<or> outputs = [] then outputs @ [\<lparr>op_sats = max (sl_pool_sats s) 1, op_script = pool_script\<rparr>]
      else outputs)"

definition class_params :: "split_params \<Rightarrow> usize option \<Rightarrow> split_params" where
  "class_params pool budget = (case budget of
     Some b \<Rightarrow> if b < sp_output_budget_bytes pool then pool\<lparr>sp_output_budget_bytes := b\<rparr> else pool
   | None \<Rightarrow> pool)"

section \<open>What a coinbase class holds\<close>

fun kept_walk :: "byte list \<Rightarrow> coinbase_tx \<Rightarrow> cb_output list \<Rightarrow> usize \<Rightarrow> bool \<Rightarrow> (usize \<times> bool) option" where
  "kept_walk pool_script cb [] kept skipped = Some (kept, skipped)"
| "kept_walk pool_script cb (x # xs) kept skipped =
     (if op_script x = pool_script then kept_walk pool_script cb xs kept skipped
      else let need = 8 + 1 + length (op_script x) in
        if paid_to (op_script x) cb > 0 then kept_walk pool_script cb xs (kept + need) skipped
        else if need \<le> kept then None
        else kept_walk pool_script cb xs kept True)"

definition kept_payee_bytes :: "cb_output list \<Rightarrow> byte list \<Rightarrow> coinbase_tx \<Rightarrow> usize option" where
  "kept_payee_bytes issued pool_script cb =
     (let issued_value = fold (\<lambda>x a. sat_add64 a (op_sats x)) issued 0 in
      if total_output_value cb < issued_value then None
      else case kept_walk pool_script cb (rev issued) 0 False of
        None \<Rightarrow> None
      | Some (kept, skipped) \<Rightarrow> if kept > 0 \<and> skipped then Some kept else None)"

definition TEMPLATE_WEIGHT_LIMIT :: u32 where "TEMPLATE_WEIGHT_LIMIT = 4000000 - 340 - 36"
definition CLASS_BUDGET_TEMPLATE_SLACK :: usize where "CLASS_BUDGET_TEMPLATE_SLACK = 512"

definition template_left_room :: "usize \<Rightarrow> u32 \<Rightarrow> bool" where
  "template_left_room kept txn_total_weight \<longleftrightarrow>
     (TEMPLATE_WEIGHT_LIMIT - txn_total_weight) div 4 \<ge> kept + CLASS_BUDGET_TEMPLATE_SLACK"

definition CLASS_BUDGET_SIGHTINGS :: usize where "CLASS_BUDGET_SIGHTINGS = 3"
definition CLASS_ROOM_MIN_BYTES :: usize where "CLASS_ROOM_MIN_BYTES = 500 - (119 + 22 + 85)"
definition PAYEE_OUTPUT_MAX_BYTES :: usize where "PAYEE_OUTPUT_MAX_BYTES = 8 + 1 + RDTS_MAX_OUTPUT_SCRIPT"
definition CLASS_BUDGET_MIN_BYTES :: usize where "CLASS_BUDGET_MIN_BYTES = CLASS_ROOM_MIN_BYTES - PAYEE_OUTPUT_MAX_BYTES"
definition CLASS_BUDGET_TALLY :: usize where "CLASS_BUDGET_TALLY = 8"

text \<open>In milliseconds, the ticks of an \<^verbatim>\<open>Instant\<close>.\<close>

definition CLASS_BUDGET_TTL :: nat where "CLASS_BUDGET_TTL = 6 * 3600 * 1000"

type_synonym tally = "(usize \<times> (u8 \<times> nat) list) list"

record class_budget =
  cg_seen :: "(u8 \<times> tally) list"
  cg_bytes :: "usize option"
  cg_set_at :: "nat option"

definition no_budget :: class_budget where
  "no_budget = \<lparr>cg_seen = [], cg_bytes = None, cg_set_at = None\<rparr>"

definition fresh_tally :: "nat \<Rightarrow> tally \<Rightarrow> tally" where
  "fresh_tally now ty = filter (\<lambda>t. snd t \<noteq> []) (map (\<lambda>(k, ids). (k, filter (\<lambda>i. now - snd i < CLASS_BUDGET_TTL) ids)) ty)"

definition drop_old_sightings :: "nat \<Rightarrow> class_budget \<Rightarrow> class_budget" where
  "drop_old_sightings now b = b\<lparr>cg_seen := filter (\<lambda>s. snd s \<noteq> []) (map (\<lambda>(s, ty). (s, fresh_tally now ty)) (cg_seen b))\<rparr>"

definition expire :: "nat \<Rightarrow> class_budget \<Rightarrow> bool \<times> class_budget" where
  "expire now b = (let b1 = drop_old_sightings now b in
     if (case cg_set_at b1 of Some t \<Rightarrow> now - t \<ge> CLASS_BUDGET_TTL | None \<Rightarrow> False) then (True, no_budget) else (False, b1))"

text \<open>The tally with a place for \<open>kept\<close>, and the place.\<close>

definition tally_place :: "usize \<Rightarrow> tally \<Rightarrow> tally \<times> nat" where
  "tally_place kept ty = (case position (\<lambda>t. fst t = kept) ty of
     Some i \<Rightarrow> (ty, i)
   | None \<Rightarrow> let ty1 = (if length ty \<ge> CLASS_BUDGET_TALLY then drop 1 ty else ty) in (ty1 @ [(kept, [])], length ty1))"

definition note_id :: "u8 \<Rightarrow> nat \<Rightarrow> (u8 \<times> nat) list \<Rightarrow> (u8 \<times> nat) list" where
  "note_id cid now ids = (if length ids < CLASS_BUDGET_SIGHTINGS \<and> \<not> list_ex (\<lambda>i. fst i = cid) ids then ids @ [(cid, now)] else ids)"

definition observe :: "u8 \<Rightarrow> u8 \<Rightarrow> usize \<Rightarrow> nat \<Rightarrow> class_budget \<Rightarrow> bool \<times> class_budget" where
  "observe sect cid kept now b =
     (if kept < CLASS_BUDGET_MIN_BYTES then (False, b)
      else
        let b1 = drop_old_sightings now b;
            (ty, at) = tally_place kept (case map_of (cg_seen b1) sect of None \<Rightarrow> [] | Some ty \<Rightarrow> ty);
            ids = note_id cid now (snd (ty ! at));
            b2 = b1\<lparr>cg_seen := AList.update sect (ty[at := (kept, ids)]) (cg_seen b1)\<rparr>
        in if length ids < CLASS_BUDGET_SIGHTINGS \<or> (case cg_bytes b2 of Some x \<Rightarrow> x \<le> kept | None \<Rightarrow> False) then (False, b2)
           else (True, b2\<lparr>cg_bytes := Some kept, cg_set_at := Some now\<rparr>))"

section \<open>A settlement is solvent\<close>

text \<open>The coinbaser of a split, and what a settled coinbase counts as paid to a payee.\<close>

definition coinbaser_of :: "split \<Rightarrow> bool \<Rightarrow> coinbaser" where
  "coinbaser_of s capped = \<lparr>cz_value = sl_value s, cz_payees = sl_payees s, cz_unpaid = sl_unpaid s,
     cz_rebate_credits = sl_rebate_credits s, cz_rebate_owed_credited = sl_rebate_owed_credited s,
     cz_rebate_deferred = sl_rebate_deferred s, cz_class_capped = capped\<rparr>"

definition discharged :: "coinbase_kind \<Rightarrow> coinbaser \<Rightarrow> u64 \<Rightarrow> (byte list \<Rightarrow> u64) \<Rightarrow> payee \<Rightarrow> u64" where
  "discharged kind cb coinbase_value paid_at p =
     (if kind \<noteq> PoolOnly \<and> reward_matches coinbase_value (cz_value cb)
      then (if kind = Split \<or> placed paid_at False p then py_sats p else 0)
      else paid_of cb coinbase_value paid_at (kind = PoolOnly) p)"

lemma coinbaser_of_simps [simp]:
  "cz_value (coinbaser_of s c) = sl_value s" "cz_payees (coinbaser_of s c) = sl_payees s" "cz_unpaid (coinbaser_of s c) = sl_unpaid s"
  "cz_rebate_credits (coinbaser_of s c) = sl_rebate_credits s" "cz_rebate_owed_credited (coinbaser_of s c) = sl_rebate_owed_credited s"
  "cz_rebate_deferred (coinbaser_of s c) = sl_rebate_deferred s" "cz_class_capped (coinbaser_of s c) = c"
  by (simp_all add: coinbaser_of_def)

lemma sum_list_split_filter:
  "sum_list (map f (filter P xs)) + sum_list (map f (filter (\<lambda>x. \<not> P x) xs)) = sum_list (map (f :: _ \<Rightarrow> nat) xs)"
  by (induction xs) auto

lemma sum_list_if_filter: "sum_list (map (\<lambda>x. if P x then f x else 0) xs) = sum_list (map (f :: _ \<Rightarrow> nat) (filter P xs))"
  by (induction xs) auto

lemma sum_list_min_filter: "sum_list (map (\<lambda>x. min (f x) (g x)) (filter P xs)) \<le> sum_list (map (f :: _ \<Rightarrow> nat) xs)"
  by (induction xs) (auto simp: min_def)

lemma earned_and_carry:
  "\<forall>y \<in> set ps. py_carry y \<le> py_sats y \<Longrightarrow>
   sum_list (map (\<lambda>y. py_sats y - py_carry y) ps) + sum_list (map py_carry ps) = sum_list (map py_sats ps)"
  by (induction ps) auto

lemma split_owed_credited:
  assumes "compute ms tw v p ow now script_for = Some s" "params_ok p" "work_sum ms \<le> tw" "tw \<le> u64_max" "v * (tw * 10000) \<le> u128_max"
  shows "sl_rebate_owed_credited s \<le> ow"
  using split_rebate_spec [OF assms(2-5), of "map (script_of script_for) ms" ow] compute_rebate [OF assms(1)] by fastforce

text \<open>What a computed split promises, in the figures \<^verbatim>\<open>settle\<close> works with.\<close>

lemma split_figures:
  assumes c: "compute ms tw v p ow now script_for = Some s"
    and ok: "params_ok p" and w: "work_sum ms \<le> tw" "tw \<le> u64_max"
    and v: "v \<le> i64_max" "v * (tw * 10000) \<le> u128_max"
  shows "sl_value s = v" "sum_list (map py_sats (sl_payees s)) \<le> v"
    and "y \<in> set (sl_payees s) \<Longrightarrow> py_carry y \<le> py_sats y \<and> py_carry y \<le> i64_max"
    and "sum_list (map (\<lambda>y. py_sats y - py_carry y) (sl_payees s)) + deferred_sum (sl_unpaid s)
      + sum_list (map snd (sl_rebate_credits s)) + sl_rebate_deferred s \<le> v + sl_rebate_owed_credited s"
proof -
  have v': "v \<le> u64_max" using v(1) by simp
  note P = compute_pays [OF c ok w(1) v']
  show "sl_value s = v" using c by (auto elim: compute_SomeE)
  show sats: "sum_list (map py_sats (sl_payees s)) \<le> v" using P(1) by simp
  have carry: "py_carry y \<le> py_sats y" if "y \<in> set (sl_payees s)" for y using compute_payee_carry [OF c that] .
  show "py_carry y \<le> py_sats y \<and> py_carry y \<le> i64_max" if "y \<in> set (sl_payees s)"
    using carry [OF that] member_le_sum_list_map [OF that, of py_sats] sats v(1) by linarith
  have "sum_list (map (\<lambda>y. py_sats y - py_carry y) (sl_payees s)) + sum_list (map py_carry (sl_payees s))
      = sum_list (map py_sats (sl_payees s))"
    using carry by (intro earned_and_carry) blast
  moreover have "sl_rebate_sats s = sum_list (map snd (sl_rebate_credits s))"
      "sl_rebate_sats s + sl_rebate_deferred s + sum_list (map (earned_by p tw v) ms) \<le> v + sl_rebate_owed_credited s"
    using split_rebate_spec [OF ok w v(2), of "map (script_of script_for) ms" ow] compute_rebate [OF c] by fastforce+
  ultimately show "sum_list (map (\<lambda>y. py_sats y - py_carry y) (sl_payees s)) + deferred_sum (sl_unpaid s)
      + sum_list (map snd (sl_rebate_credits s)) + sl_rebate_deferred s \<le> v + sl_rebate_owed_credited s"
    using P by linarith
qed

lemma scale_to_eq: "0 < v \<Longrightarrow> x \<le> v \<Longrightarrow> cv \<le> u64_max \<Longrightarrow> scale_to x cv v = cv * x div v"
proof -
  assume a: "0 < v" "x \<le> v" "cv \<le> u64_max"
  have "cv * x div v \<le> cv * v div v" using a(2) by (intro div_le_mono mult_le_mono2)
  then have "cv * x div v \<le> u64_max" using a by simp
  then show ?thesis using a(1) by (simp add: scale_to_def mult.commute trunc64_def)
qed

lemma scale_to_sum:
  assumes "0 < v" "sum_list xs \<le> v" "cv \<le> u64_max"
  shows "sum_list (map (\<lambda>x. scale_to x cv v) xs) \<le> cv"
proof -
  have "x \<le> v" if "x \<in> set xs" for x using member_le_sum_list [OF that] assms(2) by linarith
  then have eq: "map (\<lambda>x. scale_to x cv v) xs = map (\<lambda>x. cv * x div v) xs" using assms(1,3) by (simp add: scale_to_eq)
  show ?thesis unfolding eq using proportional_shares_le [of "\<lambda>x. x" xs v cv] assms(2) by simp
qed

lemma scale_to_le: "0 < v \<Longrightarrow> x \<le> v \<Longrightarrow> cv \<le> u64_max \<Longrightarrow> scale_to x cv v \<le> cv"
  using scale_to_sum [of v "[x]" cv] by simp

text \<open>The positive entries of a delta, moved with the reward.\<close>

lemma moved_delta_sum:
  assumes v: "0 < v" "v \<le> i64_max" "cv \<le> i64_max"
    and py: "\<forall>y \<in> set ps. py_carry y \<le> i64_max"
    and un: "\<forall>u \<in> set us. defers u \<longrightarrow> un_earned u \<le> v" and cr: "\<forall>c \<in> set cs. snd c \<le> v"
  shows "sum_list (map snd (map (\<lambda>(i, d). if d > 0 then (i, to_i64 (scale_to (nat d) cv v)) else (i, d)) (carry_delta ps us cs (\<lambda>_. True))))
    = int (sum_list (map (\<lambda>u. scale_to (un_earned u) cv v) (filter defers us))) + int (sum_list (map (\<lambda>c. scale_to (snd c) cv v) cs))
      - int (sum_list (map py_carry ps))"
proof -
  let ?f = "\<lambda>(i, d). if d > 0 then (i, to_i64 (scale_to (nat d) cv v)) else (i, d)"
  have z: "scale_to 0 cv v = 0" by (simp add: scale_to_def trunc64_def)
  have le: "scale_to x cv v \<le> i64_max" if "x \<le> v" for x using scale_to_le [OF v(1) that, of cv] v(3) by simp
  have 1: "sum_list (map snd (map ?f (map (\<lambda>p. (py_identity p, - to_i64 (py_carry p))) (filter (\<lambda>p. py_carry p > 0 \<and> True) ps))))
      = - int (sum_list (map py_carry ps))"
    using py by (induction ps) (auto simp: to_i64_exact)
  have 2: "sum_list (map snd (map ?f (map (\<lambda>u. (un_identity u, to_i64 (un_earned u))) (filter defers us))))
      = int (sum_list (map (\<lambda>u. scale_to (un_earned u) cv v) (filter defers us)))"
    using un v(2) by (induction us) (auto simp: to_i64_exact le defers_def)
  have 3: "sum_list (map snd (map ?f (map (\<lambda>c. (fst c, to_i64 (snd c))) (filter (\<lambda>c. snd c > 0) cs))))
      = int (sum_list (map (\<lambda>c. scale_to (snd c) cv v) cs))"
    using cr v(2) by (induction cs) (auto simp: to_i64_exact le z)
  show ?thesis using 1 2 3 by (simp add: carry_delta_def)
qed

lemma deferred_sum_defers: "deferred_sum us = sum_list (map un_earned (filter defers us))"
proof (induction us)
  case (Cons u us)
  then show ?case by (cases "un_reason u") (auto simp: deferred_sum_def defers_def)
qed (simp add: deferred_sum_def)

lemma settle_rescaled_solvent:
  assumes v: "0 < v" "v \<le> i64_max" "cv \<le> i64_max" and val: "cz_value cb = v"
    and py: "\<forall>y \<in> set (cz_payees cb). py_carry y \<le> py_sats y" and pys: "sum_list (map py_sats (cz_payees cb)) \<le> v"
    and tot: "sum_list (map (\<lambda>y. py_sats y - py_carry y) (cz_payees cb)) + deferred_sum (cz_unpaid cb)
      + sum_list (map snd (cz_rebate_credits cb)) \<le> v"
    and reb: "cz_rebate_owed_credited cb = 0" "cz_rebate_deferred cb = 0"
  obtains S where "settle_rescaled name po cb cv paid_at = Some S"
    "int (st_owed S) + int (sum_list (map (paid_of cb cv paid_at po) (cz_payees cb))) + sum_list (map snd (st_carry_delta S))
       + st_rebate_delta S \<le> int cv"
proof -
  let ?sc = "\<lambda>x. scale_to x cv v" and ?ps = "cz_payees cb" and ?us = "filter defers (cz_unpaid cb)" and ?cs = "cz_rebate_credits cb"
  let ?ent = "entitled cb cv" and ?paid = "paid_of cb cv paid_at po"
  have cv: "cv \<le> u64_max" using v(3) by simp
  have earned: "py_sats y - py_carry y \<le> v" "py_carry y \<le> v" if "y \<in> set ?ps" for y
    using member_le_sum_list_map [OF that, of py_sats] pys py that by fastforce+
  have ent: "?ent y = ?sc (py_sats y - py_carry y) + py_carry y" if "y \<in> set ?ps" for y
    using scale_to_le [OF v(1) earned(1) [OF that] cv] earned(2) [OF that] v by (simp add: entitled_def val sat_add64_def)
  have ents: "sum_list (map ?ent ?ps) = sum_list (map (\<lambda>y. ?sc (py_sats y - py_carry y)) ?ps) + sum_list (map py_carry ?ps)"
    unfolding sum_list_addf [symmetric] by (intro arg_cong [where f = sum_list] map_cong) (simp_all add: ent)
  have carry: "sum_list (map py_carry ?ps) \<le> v"
    using sum_list_map_le [of ?ps py_carry py_sats] py pys by (meson order.trans)
  let ?xs = "map (\<lambda>y. py_sats y - py_carry y) ?ps @ map un_earned ?us @ map snd ?cs"
  have all: "sum_list (map ?sc ?xs) \<le> cv"
    using tot by (intro scale_to_sum [OF v(1) _ cv]) (simp add: deferred_sum_defers)
  have paid: "?paid y \<le> ?ent y" for y by (simp add: paid_of_def)
  have due: "sum_list (map (\<lambda>y. ?ent y - ?paid y) ?ps) + sum_list (map ?paid ?ps) = sum_list (map ?ent ?ps)"
    unfolding sum_list_addf [symmetric] using paid by simp
  let ?cp = "map (\<lambda>p. (py_identity p, min (py_carry p) (?paid p))) (filter (\<lambda>p. py_carry p > 0 \<and> placed paid_at po p) ?ps)"
  have "sum_list (map snd ?cp) \<le> sum_list (map py_carry ?ps)"
    using sum_list_min_filter [of py_carry ?paid] by (simp add: comp_def)
  then have sums: "sum_list (map (\<lambda>y. ?ent y - ?paid y) ?ps) \<le> u64_max" "sum_list (map snd ?cp) \<le> u64_max"
      "sum_list (map (\<lambda>c. ?sc (snd c)) ?cs) \<le> u64_max"
    using all carry ents due v by (simp_all add: comp_def)
  have un: "\<forall>u \<in> set (cz_unpaid cb). defers u \<longrightarrow> un_earned u \<le> v" "\<forall>c \<in> set ?cs. snd c \<le> v"
    using member_le_sum_list [of _ ?xs] tot by (fastforce simp: deferred_sum_defers)+
  have py': "\<forall>y \<in> set ?ps. py_carry y \<le> i64_max" using earned(2) v(2) by (meson order.trans)
  note delta = moved_delta_sum [OF v py' un]
  obtain S where S: "settle_rescaled name po cb cv paid_at = Some S" "st_owed S = sum_list (map (\<lambda>y. ?ent y - ?paid y) ?ps)"
      "st_carry_delta S = map (\<lambda>(i, d). if d > 0 then (i, to_i64 (?sc (nat d))) else (i, d)) (carry_delta ?ps (cz_unpaid cb) ?cs (\<lambda>_. True))"
      "st_rebate_delta S = 0"
    using sums by (simp add: settle_rescaled_def Let_def sum_u64_eq val issued_delta_def reb rebate_delta_def to_i64_def)
  show thesis
  proof (rule that [OF S(1)])
    have "sum_list (map snd (st_carry_delta S)) = int (sum_list (map (\<lambda>u. ?sc (un_earned u)) ?us))
        + int (sum_list (map (\<lambda>c. ?sc (snd c)) ?cs)) - int (sum_list (map py_carry ?ps))"
      unfolding S(3) by (rule delta)
    then show "int (st_owed S) + int (sum_list (map ?paid ?ps)) + sum_list (map snd (st_carry_delta S)) + st_rebate_delta S \<le> int cv"
      using all ents due by (simp add: S(2,4) comp_def)
  qed
qed

lemma settle_as_issued_solvent:
  assumes v: "sum_list (map py_sats (cz_payees cb)) \<le> i64_max" and py: "\<forall>y \<in> set (cz_payees cb). py_carry y \<le> py_sats y"
    and cr: "sum_list (map snd (cz_rebate_credits cb)) \<le> u64_max"
  obtains S where "settle_as_issued name full cb paid_at = Some S" "st_carry_delta S = issued_delta cb"
    "st_rebate_delta S = rebate_delta (cz_rebate_owed_credited cb) (cz_rebate_deferred cb)"
    "st_owed S + sum_list (map (\<lambda>p. if full \<or> placed paid_at False p then py_sats p else 0) (cz_payees cb))
       = sum_list (map py_sats (cz_payees cb))"
proof -
  let ?ps = "cz_payees cb" and ?pl = "placed paid_at False"
  have "sum_list (map py_carry (filter (\<lambda>p. py_carry p > 0 \<and> (full \<or> ?pl p)) ?ps)) \<le> sum_list (map py_carry ?ps)"
    using sum_list_min_filter [of py_carry py_carry] by simp
  also have "\<dots> \<le> sum_list (map py_sats ?ps)" using py by (intro sum_list_map_le) blast
  finally have c: "sum_list (map snd (map (\<lambda>p. (py_identity p, py_carry p)) (filter (\<lambda>p. py_carry p > 0 \<and> (full \<or> ?pl p)) ?ps))) \<le> u64_max"
    using v by (simp add: comp_def)
  have o: "sum_list (map py_sats (filter (\<lambda>p. \<not> ?pl p) ?ps)) \<le> u64_max"
    using sum_list_split_filter [of py_sats ?pl ?ps] v by simp
  obtain S where S: "settle_as_issued name full cb paid_at = Some S" "st_carry_delta S = issued_delta cb"
      "st_rebate_delta S = rebate_delta (cz_rebate_owed_credited cb) (cz_rebate_deferred cb)"
      "st_owed S = (if full then 0 else sum_list (map py_sats (filter (\<lambda>p. \<not> ?pl p) ?ps)))"
    using c o cr by (cases full) (simp_all add: settle_as_issued_def Let_def sum_u64_eq)
  show thesis
    by (rule that [OF S(1-3)]) (use sum_list_split_filter [of py_sats ?pl ?ps] in \<open>auto simp: S(4) sum_list_if_filter\<close>)
qed

text \<open>
  C14. A settlement never spends a block twice, as long as it does not rescale a rebate: against the coinbaser a computed split was issued as,
  what the block is booked to owe, what it is counted to have paid, the change of every carry balance and the change of the owed rebate add up
  to at most what the coinbase was worth, and the sums do not overflow. This is for a block worth what the coinbaser was priced for, and for a
  block worth anything else, or that paid the pool only, when the coinbaser credited none of the rebate owed from before and deferred none; with
  a rebate behind a rescaled settlement it fails, as \<open>rescaled_settlement_mints_rebate\<close> shows.
\<close>

theorem settle_solvent:
  assumes c: "compute ms tw v p ow now script_for = Some s"
    and ok: "params_ok p" and w: "work_sum ms \<le> tw" "tw \<le> u64_max"
    and v: "0 < v" "v \<le> i64_max" "cv \<le> i64_max" "v * (tw * 10000) \<le> u128_max" and ow: "ow \<le> i64_max"
    and kind: "kind = Split \<or> kind = Partial n \<or> kind = PoolOnly"
    and reb: "kind \<noteq> PoolOnly \<and> reward_matches cv v \<or> sl_rebate_owed_credited s = 0 \<and> sl_rebate_deferred s = 0"
  shows "\<exists>S. settle kind (Some (coinbaser_of s capped)) cv paid_at = Some S
    \<and> int (st_owed S) + int (sum_list (map (discharged kind (coinbaser_of s capped) cv paid_at) (sl_payees s)))
      + sum_list (map snd (st_carry_delta S)) + st_rebate_delta S \<le> int cv"
proof (cases "kind \<noteq> PoolOnly \<and> reward_matches cv v")
  case True
  note F = split_figures [OF c ok w v(2,4)]
  have cr: "sum_list (map snd (sl_rebate_credits s)) \<le> u64_max" and oc: "sl_rebate_owed_credited s \<le> i64_max"
    using F(4) split_owed_credited [OF c ok w v(4)] ow v(2) by simp_all
  have d: "sum_list (map snd (issued_delta (coinbaser_of s capped)))
      \<le> int (deferred_sum (sl_unpaid s)) + int (sum_list (map snd (sl_rebate_credits s))) - int (sum_list (map py_carry (sl_payees s)))"
    using carry_delta_sum_le [of "sl_payees s"] F(3) by (simp add: issued_delta_def)
  have r: "rebate_delta (sl_rebate_owed_credited s) (sl_rebate_deferred s) \<le> int (sl_rebate_deferred s) - int (sl_rebate_owed_credited s)"
    using oc to_i64_le by (simp add: rebate_delta_def to_i64_exact)
  have e: "sum_list (map (\<lambda>y. py_sats y - py_carry y) (sl_payees s)) + sum_list (map py_carry (sl_payees s)) = sum_list (map py_sats (sl_payees s))"
    using F(3) by (intro earned_and_carry) blast
  obtain nm where nm: "settle kind (Some (coinbaser_of s capped)) cv paid_at = settle_as_issued nm (kind = Split) (coinbaser_of s capped) paid_at"
    using kind True F(1) by (auto simp: settle_def)
  have vc: "v \<le> cv" using True v(1) by (simp add: reward_matches_def)
  obtain S where S: "settle_as_issued nm (kind = Split) (coinbaser_of s capped) paid_at = Some S" "st_carry_delta S = issued_delta (coinbaser_of s capped)"
      "st_rebate_delta S = rebate_delta (sl_rebate_owed_credited s) (sl_rebate_deferred s)"
      "st_owed S + sum_list (map (\<lambda>p. if kind = Split \<or> placed paid_at False p then py_sats p else 0) (sl_payees s)) = sum_list (map py_sats (sl_payees s))"
    by (rule settle_as_issued_solvent [of "coinbaser_of s capped" nm "kind = Split" paid_at]) (use F(2,3) v(2) cr in auto)
  have "discharged kind (coinbaser_of s capped) cv paid_at = (\<lambda>p. if kind = Split \<or> placed paid_at False p then py_sats p else 0)"
    using True F(1) by (auto simp: discharged_def fun_eq_iff)
  then show ?thesis using S d r e F(4) vc by (intro exI [of _ S]) (simp add: nm)
next
  case False
  note F = split_figures [OF c ok w v(2,4)]
  have reb: "sl_rebate_owed_credited s = 0" "sl_rebate_deferred s = 0" using reb False by auto
  obtain nm where nm: "settle kind (Some (coinbaser_of s capped)) cv paid_at
      = settle_rescaled nm (kind = PoolOnly) (coinbaser_of s capped) cv paid_at"
    using kind False F(1) by (auto simp: settle_def)
  have "discharged kind (coinbaser_of s capped) cv paid_at = paid_of (coinbaser_of s capped) cv paid_at (kind = PoolOnly)"
    using False F(1) by (auto simp: discharged_def fun_eq_iff)
  moreover obtain S where "settle_rescaled nm (kind = PoolOnly) (coinbaser_of s capped) cv paid_at = Some S"
      "int (st_owed S) + int (sum_list (map (paid_of (coinbaser_of s capped) cv paid_at (kind = PoolOnly)) (sl_payees s)))
         + sum_list (map snd (st_carry_delta S)) + st_rebate_delta S \<le> int cv"
    by (rule settle_rescaled_solvent [of v cv "coinbaser_of s capped" nm "kind = PoolOnly" paid_at]) (use v F reb in auto)
  ultimately show ?thesis by (auto simp: nm)
qed

section \<open>What a class keeps is a first-fit packing\<close>

text \<open>
  A size class walks the list and places each output that fits what is left of its room. \<open>first_fit R xs\<close>: the flags of \<open>xs\<close>
  are the outcome of that walk on the sizes of \<open>xs\<close> in a room of \<open>R\<close> bytes.
\<close>

fun first_fit :: "nat \<Rightarrow> (nat \<times> bool) list \<Rightarrow> bool" where
  "first_fit R [] \<longleftrightarrow> True"
| "first_fit R ((n, b) # xs) \<longleftrightarrow> b = (n \<le> R) \<and> first_fit (if n \<le> R then R - n else R) xs"

definition kept_size :: "(nat \<times> bool) list \<Rightarrow> nat" where
  "kept_size xs = sum_list (map fst (filter snd xs))"

definition payee_flags :: "byte list \<Rightarrow> coinbase_tx \<Rightarrow> cb_output list \<Rightarrow> (nat \<times> bool) list" where
  "payee_flags pool_script cb issued =
     map (\<lambda>x. (8 + 1 + length (op_script x), paid_to (op_script x) cb > 0)) (filter (\<lambda>x. op_script x \<noteq> pool_script) issued)"

fun packed :: "(nat \<times> bool) list \<Rightarrow> bool" where
  "packed [] \<longleftrightarrow> True"
| "packed ((n, b) # xs) \<longleftrightarrow> packed xs \<and> (b \<or> kept_size xs < n)"

lemma kept_size_simps [simp]:
  "kept_size [] = 0" "kept_size ((n, True) # xs) = n + kept_size xs" "kept_size ((n, False) # xs) = kept_size xs"
  by (simp_all add: kept_size_def)

lemma first_fit_packed: "first_fit R xs \<Longrightarrow> kept_size xs \<le> R \<and> packed xs"
  by (induction R xs rule: first_fit.induct) (fastforce split: if_splits)+

lemma packed_first_fit: "packed xs \<Longrightarrow> first_fit (kept_size xs) xs"
proof (induction xs rule: packed.induct)
  case (2 n b xs)
  then show ?case by (cases b) auto
qed simp

lemma ex_first_fit: "(\<exists>R. first_fit R xs) \<longleftrightarrow> packed xs"
  using first_fit_packed packed_first_fit by blast

lemma kept_walk_append:
  "kept_walk pool cb (xs @ ys) k s = (case kept_walk pool cb xs k s of None \<Rightarrow> None | Some (k', s') \<Rightarrow> kept_walk pool cb ys k' s')"
  by (induction pool cb xs k s rule: kept_walk.induct) (auto simp: Let_def)

lemma kept_walk_eq:
  "kept_walk pool cb (rev l) 0 False =
     (if packed (payee_flags pool cb l) then Some (kept_size (payee_flags pool cb l), \<exists>x \<in> set (payee_flags pool cb l). \<not> snd x) else None)"
proof (induction l)
  case (Cons x l)
  show ?case by (cases "paid_to (op_script x) cb > 0") (auto simp: kept_walk_append Cons payee_flags_def Let_def not_le)
qed (simp add: payee_flags_def)

text \<open>
  A class's size is read off a coinbase exactly when it can be: \<^verbatim>\<open>kept_payee_bytes\<close> answers \<open>k\<close> if and only if the coinbase is
  worth the list and the payees it pays are what a first-fit walk of the list keeps in some room, with at least one byte kept
  and one payee left out; \<open>k\<close> is then the size of what was kept, and a walk with only \<open>k\<close> bytes of room keeps the same payees.
\<close>

theorem kept_first_fit:
  "kept_payee_bytes issued pool_script cb = Some k \<longleftrightarrow>
     fold (\<lambda>x a. sat_add64 a (op_sats x)) issued 0 \<le> total_output_value cb
     \<and> (\<exists>R. first_fit R (payee_flags pool_script cb issued))
     \<and> first_fit k (payee_flags pool_script cb issued)
     \<and> (\<exists>x \<in> set (payee_flags pool_script cb issued). \<not> snd x)
     \<and> k = kept_size (payee_flags pool_script cb issued) \<and> k > 0"
  unfolding kept_payee_bytes_def Let_def kept_walk_eq ex_first_fit
  using packed_first_fit by (auto simp: not_less)

text \<open>The whole list fits: nothing is left out of a room its sizes fit into.\<close>

lemma first_fit_all: "sum_list ns \<le> R \<Longrightarrow> first_fit R (map (\<lambda>n. (n, True)) ns)"
  by (induction ns arbitrary: R) auto

lemma first_fit_det: "first_fit R xs \<Longrightarrow> first_fit R ys \<Longrightarrow> map fst xs = map fst ys \<Longrightarrow> xs = ys"
proof (induction R xs arbitrary: ys rule: first_fit.induct)
  case (2 R n b xs)
  from 2(4) obtain b' zs where ys: "ys = (n, b') # zs" "map fst zs = map fst xs" by (cases ys) auto
  have "xs = zs" by (rule 2(1)) (use 2(2,3) ys in simp_all)
  then show ?case using 2(2,3) ys by simp
qed simp

lemma compute_byte_budget:
  assumes "compute ms tw v p ow now script_for = Some s"
  shows "sum_list (map (\<lambda>y. 8 + 1 + length (py_script y)) (sl_payees s)) \<le> sp_output_budget_bytes p"
  using assms
proof (rule compute_SomeE, goal_cases)
  case (1 credits rs oc df f e qs fin)
  from pay_all_limits [OF 1(4)] place_all_ok [of p now qs "v - e"] 1(5) show ?case
    by (auto simp: place_ok_def)
qed

text \<open>
  A list computed under a class budget of \<open>k\<close> bytes is kept whole by every class with at least \<open>k\<close> bytes of room: whatever
  coinbase a first-fit walk of the list in such a room gives, it pays every payee on the list.
\<close>

theorem class_capped_list_kept_whole:
  assumes c: "compute ms tw v (class_params p (Some k)) ow now script_for = Some s"
    and R: "k \<le> R" and ff: "first_fit R (payee_flags pool_script cb (coinbaser_outputs s pool_script))"
  shows "\<forall>y \<in> set (sl_payees s). py_script y \<noteq> pool_script \<longrightarrow> paid_to (py_script y) cb > 0"
proof -
  let ?ps = "filter (\<lambda>y. py_script y \<noteq> pool_script) (sl_payees s)"
  let ?ns = "map (\<lambda>y. 8 + 1 + length (py_script y)) ?ps"
  have fl: "payee_flags pool_script cb (coinbaser_outputs s pool_script)
      = map (\<lambda>y. (8 + 1 + length (py_script y), paid_to (py_script y) cb > 0)) ?ps"
    by (auto simp: payee_flags_def coinbaser_outputs_def Let_def filter_map comp_def)
  have "sum_list ?ns \<le> sum_list (map (\<lambda>y. 8 + 1 + length (py_script y)) (sl_payees s))"
    using sum_list_split_filter [of "\<lambda>y. 8 + 1 + length (py_script y)" "\<lambda>y. py_script y \<noteq> pool_script" "sl_payees s"] by simp
  also have "\<dots> \<le> k" using compute_byte_budget [OF c] by (auto simp: class_params_def split: if_splits)
  finally have "first_fit R (map (\<lambda>n. (n, True)) ?ns)" using R by (intro first_fit_all) simp
  from first_fit_det [OF ff this] have "\<forall>y \<in> set ?ps. paid_to (py_script y) cb > 0"
    unfolding fl by (simp add: comp_def)
  then show ?thesis by simp
qed

section \<open>The evidence behind a class budget\<close>

text \<open>The budget of a session after the sightings \<open>h\<close> (section, coinbaser id, payee bytes, time), with any number of expiries.\<close>

inductive learns :: "(u8 \<times> u8 \<times> usize \<times> nat) list \<Rightarrow> class_budget \<Rightarrow> bool" where
  learns_none: "learns [] no_budget"
| learns_observe: "learns h b \<Longrightarrow> learns (h @ [(sect, cid, kept, now)]) (snd (observe sect cid kept now b))"
| learns_expire: "learns h b \<Longrightarrow> learns h (snd (expire now b))"

definition ids_from :: "(u8 \<times> u8 \<times> usize \<times> nat) set \<Rightarrow> u8 \<Rightarrow> usize \<Rightarrow> (u8 \<times> nat) list \<Rightarrow> bool" where
  "ids_from H sect kept ids \<longleftrightarrow> distinct (map fst ids) \<and> length ids \<le> CLASS_BUDGET_SIGHTINGS
     \<and> (\<forall>(c, t) \<in> set ids. (sect, c, kept, t) \<in> H)"

definition tally_from :: "(u8 \<times> u8 \<times> usize \<times> nat) set \<Rightarrow> u8 \<Rightarrow> tally \<Rightarrow> bool" where
  "tally_from H sect ty \<longleftrightarrow> length ty \<le> CLASS_BUDGET_TALLY \<and> (\<forall>k ids. (k, ids) \<in> set ty \<longrightarrow> ids_from H sect k ids)"

definition seen_from :: "(u8 \<times> u8 \<times> usize \<times> nat) set \<Rightarrow> (u8 \<times> tally) list \<Rightarrow> bool" where
  "seen_from H seen \<longleftrightarrow> (\<forall>s ty. (s, ty) \<in> set seen \<longrightarrow> tally_from H s ty)"

definition backed :: "(u8 \<times> u8 \<times> usize \<times> nat) set \<Rightarrow> usize \<Rightarrow> bool" where
  "backed H k \<longleftrightarrow> CLASS_BUDGET_MIN_BYTES \<le> k
     \<and> (\<exists>sect ids. length ids = CLASS_BUDGET_SIGHTINGS \<and> distinct (map fst ids) \<and> (\<forall>(c, t) \<in> set ids. (sect, c, k, t) \<in> H))"

lemma evidence_mono:
  "ids_from H s k ids \<Longrightarrow> H \<subseteq> H' \<Longrightarrow> ids_from H' s k ids"
  "tally_from H s ty \<Longrightarrow> H \<subseteq> H' \<Longrightarrow> tally_from H' s ty"
  "seen_from H seen \<Longrightarrow> H \<subseteq> H' \<Longrightarrow> seen_from H' seen"
  "backed H n \<Longrightarrow> H \<subseteq> H' \<Longrightarrow> backed H' n"
  unfolding ids_from_def tally_from_def seen_from_def backed_def by blast+

lemma ids_from_filter: "ids_from H s k ids \<Longrightarrow> ids_from H s k (filter P ids)"
  unfolding ids_from_def using length_filter_le [of P ids] by (auto simp: distinct_map_filter simp del: length_filter_le)

lemma tally_from_fresh: "tally_from H s ty \<Longrightarrow> tally_from H s (fresh_tally now ty)"
  unfolding tally_from_def fresh_tally_def
  using order.trans [OF length_filter_le [of _ "map _ ty"]] by (auto intro: ids_from_filter)

lemma drop_old_seen: "seen_from H (cg_seen b) \<Longrightarrow> seen_from H (cg_seen (drop_old_sightings now b))"
  by (auto simp: seen_from_def drop_old_sightings_def intro: tally_from_fresh)

lemma drop_old_simps [simp]:
  "cg_bytes (drop_old_sightings now b) = cg_bytes b" "cg_set_at (drop_old_sightings now b) = cg_set_at b"
  by (simp_all add: drop_old_sightings_def)

lemma tally_place_ok:
  assumes "tally_place kept ty = (ty', i)" "tally_from H s ty"
  shows "i < length ty' \<and> fst (ty' ! i) = kept \<and> tally_from H s ty'"
proof (cases "position (\<lambda>t. fst t = kept) ty")
  case None
  then show ?thesis using assms
    by (auto simp: tally_place_def Let_def tally_from_def ids_from_def [of _ _ _ "[]"] CLASS_BUDGET_TALLY_def nth_append
        dest!: in_set_dropD split: if_splits)
next
  case (Some j)
  then show ?thesis using assms position_Some [of "\<lambda>t. fst t = kept" ty j] by (auto simp: tally_place_def)
qed

lemma note_id_ok:
  assumes "ids_from H s k ids" "(s, c, k, t) \<in> H"
  shows "ids_from H s k (note_id c t ids)"
  using assms by (auto simp: ids_from_def note_id_def CLASS_BUDGET_SIGHTINGS_def list_ex_iff)

lemma tally_from_update:
  "tally_from H s ty \<Longrightarrow> ids_from H s k ids \<Longrightarrow> tally_from H s (ty[i := (k, ids)])"
  unfolding tally_from_def using set_update_subset_insert [of ty i "(k, ids)"] by auto

lemma seen_from_update: "seen_from H seen \<Longrightarrow> tally_from H s ty \<Longrightarrow> seen_from H (AList.update s ty seen)"
  using set_alist_update [of s ty seen] by (auto simp: seen_from_def)

text \<open>What \<^verbatim>\<open>observe\<close> does to a budget all of whose evidence is in \<open>H\<close>.\<close>

definition evidenced :: "(u8 \<times> u8 \<times> usize \<times> nat) set \<Rightarrow> class_budget \<Rightarrow> bool" where
  "evidenced H b \<longleftrightarrow> seen_from H (cg_seen b) \<and> (\<forall>k. cg_bytes b = Some k \<longrightarrow> backed H k)"

lemma observe_evidenced:
  assumes e: "evidenced H b" and H: "(sect, cid, kept, now) \<in> H"
  shows "evidenced H (snd (observe sect cid kept now b))"
proof (cases "kept < CLASS_BUDGET_MIN_BYTES")
  case True
  then show ?thesis using e by (simp add: observe_def)
next
  case False
  let ?b1 = "drop_old_sightings now b"
  let ?ty = "case map_of (cg_seen ?b1) sect of None \<Rightarrow> [] | Some ty \<Rightarrow> ty"
  obtain ty i where ti: "tally_place kept ?ty = (ty, i)" by fastforce
  have s1: "seen_from H (cg_seen ?b1)" using e drop_old_seen by (simp add: evidenced_def)
  then have "tally_from H sect ?ty"
    by (cases "map_of (cg_seen ?b1) sect") (auto simp: seen_from_def tally_from_def [of _ _ "[]"] dest: map_of_SomeD)
  from tally_place_ok [OF ti this] have i: "i < length ty" "fst (ty ! i) = kept" "tally_from H sect ty" by auto
  let ?ids = "note_id cid now (snd (ty ! i))"
  have "ids_from H sect kept (snd (ty ! i))" using i nth_mem [OF i(1)] by (cases "ty ! i") (auto simp: tally_from_def)
  from note_id_ok [OF this H] have ids: "ids_from H sect kept ?ids" .
  have "seen_from H (AList.update sect (ty[i := (kept, ?ids)]) (cg_seen ?b1))"
    by (intro seen_from_update s1 tally_from_update i(3) ids)
  moreover have "backed H kept" if "\<not> length ?ids < CLASS_BUDGET_SIGHTINGS"
    using ids that False unfolding backed_def ids_from_def by (intro conjI exI [of _ sect] exI [of _ ?ids]) auto
  ultimately show ?thesis using e False by (auto simp: evidenced_def observe_def Let_def ti)
qed

lemma expire_evidenced: "evidenced H b \<Longrightarrow> evidenced H (snd (expire now b))"
  using drop_old_seen [of H b now] by (auto simp: expire_def evidenced_def Let_def no_budget_def seen_from_def [of _ "[]"])

lemma learns_evidenced: "learns h b \<Longrightarrow> evidenced (set h) b"
proof (induction rule: learns.induct)
  case learns_none
  then show ?case by (simp add: evidenced_def no_budget_def seen_from_def)
next
  case (learns_observe h b sect cid kept now)
  then have "evidenced (insert (sect, cid, kept, now) (set h)) b"
    unfolding evidenced_def
    using evidence_mono(3) [of "set h" "cg_seen b"] evidence_mono(4) [of "set h" _ "insert (sect, cid, kept, now) (set h)"]
    by (simp add: subset_insertI)
  then show ?case using observe_evidenced by auto
next
  case (learns_expire h b now)
  show ?case by (rule expire_evidenced [OF learns_expire.IH])
qed

text \<open>
  A class budget is never taken on less than three sightings: after any history of sightings and expiries, a budget of \<open>k\<close>
  bytes is one section's, seen to keep exactly \<open>k\<close> payee bytes on three different coinbasers, and no smaller than a class can
  be. A further sighting only ever lowers it, an expiry only ever clears it, and no section's tally outgrows its bounds.
\<close>

theorem class_budget_evidence:
  assumes "learns h b"
  shows "(\<forall>k. cg_bytes b = Some k \<longrightarrow> CLASS_BUDGET_MIN_BYTES \<le> k \<and> (\<exists>sect ids. length ids = 3 \<and> distinct (map fst ids)
      \<and> (\<forall>(c, t) \<in> set ids. (sect, c, k, t) \<in> set h)))
    \<and> (\<forall>(sect, ty) \<in> set (cg_seen b). length ty \<le> 8 \<and> (\<forall>(k, ids) \<in> set ty. length ids \<le> 3))
    \<and> (\<forall>k sect cid kept now. cg_bytes b = Some k \<longrightarrow> (\<exists>k' \<le> k. cg_bytes (snd (observe sect cid kept now b)) = Some k'))
    \<and> (\<forall>now. cg_bytes (snd (expire now b)) = (if fst (expire now b) then None else cg_bytes b))"
proof (intro conjI)
  note e = learns_evidenced [OF assms]
  show "\<forall>k. cg_bytes b = Some k \<longrightarrow> CLASS_BUDGET_MIN_BYTES \<le> k \<and> (\<exists>sect ids. length ids = 3 \<and> distinct (map fst ids)
      \<and> (\<forall>(c, t) \<in> set ids. (sect, c, k, t) \<in> set h))"
    using e by (simp add: evidenced_def backed_def CLASS_BUDGET_SIGHTINGS_def)
  show "\<forall>(sect, ty) \<in> set (cg_seen b). length ty \<le> 8 \<and> (\<forall>(k, ids) \<in> set ty. length ids \<le> 3)"
    using e by (force simp: evidenced_def seen_from_def tally_from_def ids_from_def CLASS_BUDGET_SIGHTINGS_def CLASS_BUDGET_TALLY_def)
  show "\<forall>k sect cid kept now. cg_bytes b = Some k \<longrightarrow> (\<exists>k' \<le> k. cg_bytes (snd (observe sect cid kept now b)) = Some k')"
    by (auto simp: observe_def Let_def split: prod.splits)
  show "\<forall>now. cg_bytes (snd (expire now b)) = (if fst (expire now b) then None else cg_bytes b)"
    by (simp add: expire_def Let_def no_budget_def)
qed

section \<open>Examples\<close>

lemma settle_solvent_witness:
  "reward_matches 100100 100000
   \<and> (\<exists>S. settle (Partial 1) (Some (coinbaser_of ex_split False)) 100100 (\<lambda>_. 0) = Some S
     \<and> int (st_owed S) + int (sum_list (map (discharged (Partial 1) (coinbaser_of ex_split False) 100100 (\<lambda>_. 0)) (sl_payees ex_split)))
       + sum_list (map snd (st_carry_delta S)) + st_rebate_delta S \<le> 100100)"
proof -
  have "reward_matches 100100 100000" by (simp add: reward_matches_def)
  then show ?thesis
    using settle_solvent [OF ex_split_computed ex_params_ok, of 100100 "Partial 1" 1 False "\<lambda>_. 0"] by simp
qed

definition ex_paying :: coinbase_tx where
  "ex_paying = \<lparr>cb_version = 1, cb_script_sig = [], cb_sequence = 0, cb_outputs = [\<lparr>to_value = 83200, to_script = [0, 20]\<rparr>],
     cb_lock_time = 0, cb_height = None, cb_outputs_at = 0, cb_lock_time_at = 0\<rparr>"

lemma ex_capped_computed: "compute ex_miners 100 100000 (class_params ex_params (Some 30)) 0 200 ex_script = Some ex_split"
proof -
  have p: "class_params ex_params (Some 30) = ex_params\<lparr>sp_output_budget_bytes := 30\<rparr>"
    by (simp add: class_params_def ex_params_def default_split_params_def)
  have "split_rebate ex_miners (map (script_of ex_script) ex_miners) 100 100000 (ex_params\<lparr>sp_output_budget_bytes := 30\<rparr>) 0
      = Some ([(''dat'', 3750)], 3750, 0, 0)"
    by (simp add: ex_defs split_rebate_def class_totals_def classes_def script_of_def stratum_rebate_def
        rebate_bps_def grace_rebate_bps_def grace_bps_def stratum_bps_def rebate_credits_def
        rebate_eligible_def by_index_def chk_def chk_sub_def trunc64_def sat_add64_def Let_def)
  then show ?thesis
    unfolding compute_def Let_def p
    by (simp add: ex_defs ex_split_def miner_share_def classes_def script_of_def grace_bps_def stratum_bps_def
        split_queue_def owed_in_all_def place_all_def place_one_def place_reason_def floor_for_def is_stale_def
        pay_one_def chk_def chk_sub_def trunc64_def sat_add64_def)
qed

lemma class_capped_list_kept_whole_witness:
  "first_fit 40 (payee_flags [1] ex_paying (coinbaser_outputs ex_split [1]))
   \<and> list_all (\<lambda>y. py_script y = [1] \<or> paid_to (py_script y) ex_paying > 0) (sl_payees ex_split)"
proof -
  have ff: "first_fit 40 (payee_flags [1] ex_paying (coinbaser_outputs ex_split [1]))"
    by (simp add: payee_flags_def coinbaser_outputs_def ex_split_def ex_paying_def paid_to_def sat_add64_def)
  then show ?thesis using class_capped_list_kept_whole [OF ex_capped_computed _ ff] by (auto simp: list_all_iff)
qed

definition ex_budget :: class_budget where
  "ex_budget = snd (observe 2 9 600 7 (snd (observe 2 8 600 6 (snd (observe 2 7 600 5 no_budget)))))"

lemma class_budget_evidence_witness:
  "cg_bytes ex_budget = Some 600 \<and> learns ((([] @ [(2, 7, 600, 5)]) @ [(2, 8, 600, 6)]) @ [(2, 9, 600, 7)]) ex_budget
   \<and> CLASS_BUDGET_MIN_BYTES \<le> 600"
proof -
  have l: "learns ((([] @ [(2, 7, 600, 5)]) @ [(2, 8, 600, 6)]) @ [(2, 9, 600, 7)]) ex_budget"
    unfolding ex_budget_def by (intro learns_observe learns_none)
  have b: "cg_bytes ex_budget = Some 600"
    by (simp add: ex_budget_def observe_def no_budget_def drop_old_sightings_def fresh_tally_def tally_place_def note_id_def
        CLASS_BUDGET_TALLY_def CLASS_BUDGET_SIGHTINGS_def CLASS_BUDGET_TTL_def CLASS_BUDGET_MIN_BYTES_def CLASS_ROOM_MIN_BYTES_def
        PAYEE_OUTPUT_MAX_BYTES_def RDTS_MAX_OUTPUT_SCRIPT_def Let_def)
  show ?thesis using l b class_budget_evidence [OF l] by blast
qed

section \<open>An owed rebate that grows with the reward\<close>

definition ex_rebate_miner :: "miner_stat list" where
  "ex_rebate_miner = [\<lparr>ms_identity = ''dat'', ms_work = 100, ms_stratum_work = 0, ms_grace_work = 0, ms_credits = 3,
     ms_last_ts = 100, ms_carry = 0\<rparr>]"

definition ex_rebate_split :: split where
  "ex_rebate_split = \<lparr>sl_value = 1000, sl_fee_sats = 0, sl_total_work = 100,
     sl_payees = [\<lparr>py_identity = ''dat'', py_work = 100, py_sats = 1000, py_carry = 0, py_script = [0, 20]\<rparr>],
     sl_unpaid = [], sl_pool_sats = 0, sl_carry_paid = 0, sl_rebate_credits = [(''dat'', 5000)], sl_rebate_sats = 5000,
     sl_rebate_owed_credited = 5000, sl_rebate_deferred = 0\<rparr>"

lemma ex_rebate_computed: "compute ex_rebate_miner 100 1000 ex_params 5000 200 ex_script = Some ex_rebate_split"
proof -
  have "split_rebate ex_rebate_miner (map (script_of ex_script) ex_rebate_miner) 100 1000 ex_params 5000 = Some ([(''dat'', 5000)], 5000, 5000, 0)"
    by (simp add: ex_defs ex_rebate_miner_def split_rebate_def class_totals_def classes_def script_of_def stratum_rebate_def
        rebate_bps_def grace_rebate_bps_def grace_bps_def stratum_bps_def rebate_credits_def
        rebate_eligible_def by_index_def chk_def chk_sub_def trunc64_def sat_add64_def Let_def)
  then show ?thesis
    unfolding compute_def Let_def
    by (simp add: ex_defs ex_rebate_miner_def ex_rebate_split_def miner_share_def classes_def script_of_def grace_bps_def stratum_bps_def
        split_queue_def owed_in_all_def place_all_def place_one_def place_reason_def floor_for_def is_stale_def
        pay_one_def chk_def chk_sub_def trunc64_def sat_add64_def)
qed

text \<open>
  The owed rebate is a fixed debt, but a rescaled settlement moves the whole of the rebate credits with the reward, that debt
  included. A coinbaser asked for at 1000 sats, with 5000 sats of rebate owed to one identity, and a pool-only block of 100000
  sats: 5000 sats come off the owed balance and 500000 go on the identity's carry, five times what the coinbase was worth.
\<close>

lemma rescaled_settlement_mints_rebate:
  "compute ex_rebate_miner 100 1000 ex_params 5000 200 ex_script = Some ex_rebate_split
   \<and> (\<exists>S. settle PoolOnly (Some (coinbaser_of ex_rebate_split False)) 100000 (\<lambda>_. 0) = Some S
     \<and> st_carry_delta S = [(''dat'', 500000)] \<and> st_rebate_delta S = -5000
     \<and> 100000 < int (st_owed S) + sum_list (map snd (st_carry_delta S)) + st_rebate_delta S)"
  by (simp add: ex_rebate_computed settle_def settle_rescaled_def ex_rebate_split_def coinbaser_of_def Let_def entitled_def paid_of_def
      scale_to_def issued_delta_def carry_delta_def rebate_delta_def to_i64_def trunc64_def sat_add64_def chk_def)

text \<open>The deferred rebate, on the other hand, does not move with the reward: the balance changes by the issued figure.\<close>

lemma rescaled_settlement_keeps_deferred_rebate:
  "settle_rescaled name pool_only cb coinbase_value paid_at = Some S \<Longrightarrow>
   st_rebate_delta S = rebate_delta (cz_rebate_owed_credited cb) (cz_rebate_deferred cb)"
  by (auto simp: settle_rescaled_def Let_def split: bind_splits)

end
