(* ===== verification/Primed_Blocks.thy ===== *)
theory Primed_Blocks
  imports Tides_Disk Primed_Settle
begin

text \<open>
  The life of a found block in the pool, \<^verbatim>\<open>prime/primed/src\<close>: the state the sessions share as far as blocks move it
  (\<^verbatim>\<open>state.rs\<close>: ledger, block list, block log, coinbaser snapshot), the booking of a candidate (\<^verbatim>\<open>session.rs\<close>,
  \<^verbatim>\<open>on_block_candidate\<close>), and its confirmation or orphaning by what the node says (\<^verbatim>\<open>node.rs\<close>). Each function that
  holds the locks is one step of the model. The block log is the list of the records appended to it, in order; the
  files of the ledger are those of \<open>Tides_Disk\<close>, written by \<^verbatim>\<open>sync\<close>. An \<^verbatim>\<open>Instant\<close> is a number of milliseconds.
\<close>

section \<open>Model\<close>

record pool_env =
  ev_ser :: "meta \<Rightarrow> byte list"
  ev_gser :: "grace_book \<Rightarrow> byte list"
  ev_codecs :: codecs
  ev_network :: network
  ev_params :: split_params

record base_snapshot =
  bs_miners :: "miner_stat list"
  bs_total_work :: u64
  bs_target_work :: u64
  bs_rebate_owed :: u64
  bs_scripts :: "string \<rightharpoonup> byte list"
  bs_built_at :: nat

record shared =
  sh_ledger :: ledger
  sh_disk :: disk
  sh_blocks :: "block_record list"
  sh_log :: "block_record list"
  sh_base :: "base_snapshot option"

definition COINBASER_BASE_TTL :: nat where "COINBASER_BASE_TTL = 1000"

definition build_base :: "pool_env \<Rightarrow> nat \<Rightarrow> window \<Rightarrow> base_snapshot option" where
  "build_base E now w = do {
     ms \<leftarrow> miners w;
     Some \<lparr>bs_miners = ms, bs_total_work = w_total_work w, bs_target_work = w_target_work w, bs_rebate_owed = w_rebate_owed w,
       bs_scripts = map_of (List.map_filter
         (\<lambda>m. map_option (\<lambda>s. (ms_identity m, s)) (to_script (ev_codecs E) (ms_identity m) (ev_network E))) ms),
       bs_built_at = now\<rparr> }"

definition coinbaser_base :: "pool_env \<Rightarrow> nat \<Rightarrow> shared \<Rightarrow> (base_snapshot \<times> shared) option" where
  "coinbaser_base E now sh =
     (case (case sh_base sh of Some b \<Rightarrow> if now - bs_built_at b < COINBASER_BASE_TTL then Some b else None | None \<Rightarrow> None) of
        Some b \<Rightarrow> Some (b, sh)
      | None \<Rightarrow> map_option (\<lambda>b. (b, sh\<lparr>sh_base := Some b\<rparr>)) (build_base E now (l_window (sh_ledger sh))))"

definition drop_coinbaser_base :: "shared \<Rightarrow> shared" where
  "drop_coinbaser_base sh = sh\<lparr>sh_base := None\<rparr>"

text \<open>\<^verbatim>\<open>ledger.sync()\<close>: the files get what the ledger holds.\<close>

definition sync :: "pool_env \<Rightarrow> shared \<Rightarrow> shared" where
  "sync E sh = (case flush (ev_ser E) (ev_gser E) (sh_ledger sh) (sh_disk sh) of (l, d) \<Rightarrow> sh\<lparr>sh_ledger := l, sh_disk := d\<rparr>)"

definition book_block_debits ::
  "pool_env \<Rightarrow> string \<Rightarrow> (string \<times> i64) list \<Rightarrow> books \<Rightarrow> shared \<Rightarrow> (u64 \<times> nat) \<times> books \<times> shared" where
  "book_block_debits E hash delta b sh =
     (case book_debits delta b (sh_ledger sh) of (b1, l1) \<Rightarrow>
        let sh1 = sync E (sh\<lparr>sh_ledger := note_debit_applied hash l1\<rparr>); w = l_window (sh_ledger sh1)
        in ((total_carry w, length (carries w)), b1, sh1\<lparr>sh_base := None\<rparr>))"

subsection \<open>The list of blocks and its log\<close>

definition MAX_BLOCKS :: nat where "MAX_BLOCKS = 10000"

definition record_block :: "block_record \<Rightarrow> shared \<Rightarrow> shared" where
  "record_block r sh = (let bs = sh_blocks sh @ [r] in
     sh\<lparr>sh_log := sh_log sh @ [r], sh_blocks := (if length bs > MAX_BLOCKS then drop (length bs - MAX_BLOCKS) bs else bs)\<rparr>)"

text \<open>The last entry of the list with this hash.\<close>

fun last_at :: "string \<Rightarrow> block_record list \<Rightarrow> nat option" where
  "last_at h [] = None"
| "last_at h (r # rs) = (case last_at h rs of Some i \<Rightarrow> Some (Suc i) | None \<Rightarrow> if br_hash r = h then Some 0 else None)"

text \<open>The closure is given the record and what else it changes, and returns both.\<close>

definition update_block ::
  "string \<Rightarrow> (block_record \<Rightarrow> 'a \<Rightarrow> block_record \<times> 'b) \<Rightarrow> 'a \<Rightarrow> shared \<Rightarrow> (block_record \<times> 'b) option \<times> shared" where
  "update_block hash f x sh = (case last_at hash (sh_blocks sh) of
     None \<Rightarrow> (None, sh)
   | Some i \<Rightarrow> (case f (sh_blocks sh ! i) x of (r, y) \<Rightarrow>
       (Some (r, y), sh\<lparr>sh_blocks := (sh_blocks sh)[i := r], sh_log := sh_log sh @ [r]\<rparr>)))"

subsection \<open>A candidate\<close>

record candidate =
  cd_hash :: string
  cd_height :: u32
  cd_kind :: coinbase_kind
  cd_value :: u64
  cd_paid_at :: "byte list \<Rightarrow> u64"
  cd_paid_to_pool :: u64
  cd_finder :: string
  cd_gateway :: string

text \<open>The coinbaser it settles against: the issued one, or for a pool-only block a split of the window as it is.\<close>

definition candidate_coinbaser :: "pool_env \<Rightarrow> u64 \<Rightarrow> coinbaser option \<Rightarrow> candidate \<Rightarrow> window \<Rightarrow> coinbaser option option" where
  "candidate_coinbaser E ts issued c w =
     (if issued = None \<and> cd_kind c = PoolOnly
      then map_option (\<lambda>s. Some (coinbaser_of s False))
        (window_split (cd_value c) (ev_params E) (ts mod 4294967296) (\<lambda>i. to_script (ev_codecs E) i (ev_network E)) w)
      else Some issued)"

definition sum_i64 :: "int list \<Rightarrow> int option" where
  "sum_i64 xs = foldl (\<lambda>a x. Option.bind a (\<lambda>s. if - int i64_max - 1 \<le> s + x \<and> s + x \<le> int i64_max then Some (s + x) else None)) (Some 0) xs"

text \<open>What the credits of the issued coinbaser come to when less owed rebate was there to draw than it was priced with.\<close>

definition drawn_credits :: "coinbaser option \<Rightarrow> settlement \<Rightarrow> books \<Rightarrow> (u64 \<times> (string \<times> i64) list) option" where
  "drawn_credits issued st b = (case issued of
     Some c \<Rightarrow> if cz_rebate_owed_credited c > bk_rebate_debited b
       then cap_rebate_to_owed_drawn (st_carry_delta st) (st_rebate_credits st) (cz_rebate_owed_credited c) (bk_rebate_debited b)
       else Some (st_rebate_credited st, st_carry_delta st)
   | None \<Rightarrow> Some (st_rebate_credited st, st_carry_delta st))"

definition candidate_record ::
  "candidate \<Rightarrow> u64 \<Rightarrow> settlement \<Rightarrow> u64 \<Rightarrow> u64 \<Rightarrow> (string \<times> i64) list \<Rightarrow> u64 \<Rightarrow> books \<Rightarrow> block_record" where
  "candidate_record c ts st carry_paid short delta credited b =
     \<lparr>br_ts = ts, br_height = cd_height c, br_hash = cd_hash c, br_finder = Some (cd_finder c), br_coinbase_value = cd_value c,
      br_kind = st_kind st, br_owed_sats = st_owed st, br_split = st_split st, br_pool_sats = cd_paid_to_pool c,
      br_carry_paid = carry_paid, br_carry_delta = delta, br_rebate_credited = credited, br_rebate_delta = st_rebate_delta st,
      br_settled = False, br_submit = ''pending'', br_gateway = cd_gateway c, br_books = Some b,
      br_carry_shortfall_sats = short, br_carry_reserved_sats = st_carry_reserved st\<rparr>"

definition settles :: "settlement \<Rightarrow> bool" where
  "settles st \<longleftrightarrow> st_carry_delta st \<noteq> [] \<or> st_rebate_credited st > 0 \<or> st_rebate_delta st \<noteq> 0"

text \<open>The record of a candidate and the state its debits leave, before the record is written.\<close>

definition book_candidate ::
  "pool_env \<Rightarrow> u64 \<Rightarrow> coinbaser option \<Rightarrow> candidate \<Rightarrow> shared \<Rightarrow> (block_record \<times> shared) option" where
  "book_candidate E ts issued c sh = do {
     cb \<leftarrow> candidate_coinbaser E ts issued c (l_window (sh_ledger sh));
     st \<leftarrow> settle (cd_kind c) cb (cd_value c) (cd_paid_at c);
     if \<not> settles st
     then Some (candidate_record c ts st (st_carry_paid st) 0 (st_carry_delta st) (st_rebate_credited st) (books_new 0 0), sh)
     else do {
       let (roc, rd) = (case cb of None \<Rightarrow> (0, 0) | Some k \<Rightarrow> (cz_rebate_owed_credited k, cz_rebate_deferred k));
       let (_, b, sh1) = book_block_debits E (cd_hash c) (st_carry_delta st) (books_new roc rd) sh;
       booked \<leftarrow> sum_u64 (map snd (bk_debited b));
       (carry_paid, short) \<leftarrow> carry_on_record (st_carry_placed st) b;
       (credited, delta) \<leftarrow> drawn_credits issued st b;
       waiting \<leftarrow> sum_i64 (map (\<lambda>d. max (snd d) 0) delta);
       Some (candidate_record c ts st carry_paid short delta credited b, sh1) } }"

definition on_block_candidate :: "pool_env \<Rightarrow> u64 \<Rightarrow> coinbaser option \<Rightarrow> candidate \<Rightarrow> shared \<Rightarrow> shared option" where
  "on_block_candidate E ts issued c sh = map_option (\<lambda>(r, sh1). record_block r sh1) (book_candidate E ts issued c sh)"

subsection \<open>Confirmed or orphaned\<close>

definition ORPHAN_RECHECK_BLOCKS :: u32 where "ORPHAN_RECHECK_BLOCKS = 100"

definition is_orphan :: "string \<Rightarrow> bool" where
  "is_orphan kind \<longleftrightarrow> take 7 kind = ''orphan:''"

text \<open>A record that predates booking in two steps: what is still to be moved by hand, after the record.\<close>

definition apply_legacy :: "(string \<times> i64) list \<Rightarrow> i64 \<Rightarrow> ledger \<Rightarrow> ledger" where
  "apply_legacy delta rebate l = (if delta \<noteq> [] \<or> rebate \<noteq> 0 then snd (settle_rebate rebate (snd (settle_carry delta l))) else l)"

text \<open>The sats credited are added up for the log line, with a check: \<open>None\<close> is the panic.\<close>

definition settle_record :: "block_record \<Rightarrow> ledger \<Rightarrow> block_record \<times> ledger option" where
  "settle_record r l =
     (let was = is_orphan (br_kind r); r1 = (if was then r\<lparr>br_kind := drop 7 (br_kind r)\<rparr> else r) in
      case br_books r of
        Some b \<Rightarrow> (case book_debits (br_carry_delta r) b l of (b1, l1) \<Rightarrow>
          case book_credits (br_carry_delta r) b1 l1 of (b2, l2) \<Rightarrow>
            (r1\<lparr>br_books := Some b2, br_settled := True\<rparr>, map_option (\<lambda>_. l2) (sum_u64 (map snd (bk_credited b2)))))
      | None \<Rightarrow> (r1\<lparr>br_settled := True\<rparr>, Some (if was then apply_legacy (br_carry_delta r) (br_rebate_delta r) l else l)))"

text \<open>Up to the append to the log, and from there the files.\<close>

definition settle_books :: "string \<Rightarrow> shared \<Rightarrow> shared option" where
  "settle_books hash sh = (case update_block hash settle_record (sh_ledger sh) sh of
     (None, sh1) \<Rightarrow> Some sh1 | (Some (_, lo), sh1) \<Rightarrow> map_option (\<lambda>l. sh1\<lparr>sh_ledger := l\<rparr>) lo)"

definition settle_confirmed :: "pool_env \<Rightarrow> string \<Rightarrow> shared \<Rightarrow> shared option" where
  "settle_confirmed E hash sh = map_option (\<lambda>sh1. drop_coinbaser_base (sync E sh1)) (settle_books hash sh)"

text \<open>\<^verbatim>\<open>-d\<close> of an \<^verbatim>\<open>i64\<close> panics on the least one.\<close>

definition neg_i64 :: "i64 \<Rightarrow> i64 option" where
  "neg_i64 d = (if d = - int i64_max - 1 then None else Some (- d))"

definition orphan_record :: "block_record \<Rightarrow> ledger \<Rightarrow> block_record \<times> ledger option" where
  "orphan_record r l =
     (let r1 = r\<lparr>br_kind := ''orphan:'' @ br_kind r, br_settled := False\<rparr> in
      case br_books r of
        Some b \<Rightarrow> (case unbook b l of (_, b1, l1) \<Rightarrow> (r1\<lparr>br_books := Some b1\<rparr>, Some l1))
      | None \<Rightarrow> (r1, do {
          back \<leftarrow> those (map (\<lambda>(i, d). map_option (Pair i) (neg_i64 d)) (br_carry_delta r));
          rebate \<leftarrow> neg_i64 (br_rebate_delta r);
          Some (apply_legacy back rebate l) }))"

definition mark_orphan :: "pool_env \<Rightarrow> string \<Rightarrow> shared \<Rightarrow> shared option" where
  "mark_orphan E hash sh =
     (if (case last_at hash (sh_blocks sh) of None \<Rightarrow> True | Some i \<Rightarrow> is_orphan (br_kind (sh_blocks sh ! i))) then Some sh
      else case update_block hash orphan_record (sh_ledger sh) sh of
        (None, sh1) \<Rightarrow> Some (drop_coinbaser_base (sync E sh1))
      | (Some (_, lo), sh1) \<Rightarrow> map_option (\<lambda>l. drop_coinbaser_base (sync E (sh1\<lparr>sh_ledger := l\<rparr>))) lo)"

definition says_invalid :: "string \<Rightarrow> bool" where
  "says_invalid outcome \<longleftrightarrow> outcome \<in> {''high-hash'', ''bad-diffbits'', ''bad-prevblk'', ''bad-version'', ''bad-cb-height'',
     ''time-too-old'', ''time-too-new'', ''duplicate-invalid''}"

definition says_outdated_node :: "string \<Rightarrow> bool" where
  "says_outdated_node outcome \<longleftrightarrow> take 36 (trim_str outcome) = ''bad-txns-premature-spend-of-coinbase''"

text \<open>What \<^verbatim>\<open>getblockheader\<close> answers: the confirmations (0 when the field is missing), an error of the node, or neither.\<close>

datatype confirm_reply = Confirmations i64 | NodeError int | Unanswered

fun pending_walk :: "u32 \<Rightarrow> nat \<Rightarrow> block_record list \<Rightarrow> (string \<times> u32) list option" where
  "pending_walk tip n [] = Some []"
| "pending_walk tip n (r # rs) =
     (if n = 0 then Some []
      else if br_settled r then pending_walk tip n rs
      else do {
        h \<leftarrow> chk u32_max (br_height r + (if take 6 (br_kind r) = ''orphan'' then ORPHAN_RECHECK_BLOCKS else 2000));
        if h > tip then map_option ((#) (br_hash r, br_height r)) (pending_walk tip (n - 1) rs) else pending_walk tip n rs })"

definition confirm_one :: "pool_env \<Rightarrow> u32 \<Rightarrow> confirm_reply \<Rightarrow> string \<times> u32 \<Rightarrow> shared \<Rightarrow> shared option" where
  "confirm_one E tip reply e sh = (case e of (hash, height) \<Rightarrow> case reply of
     Confirmations c \<Rightarrow> if c > 0 then settle_confirmed E hash sh else if c < 0 then mark_orphan E hash sh else Some sh
   | NodeError code \<Rightarrow>
       if code = -5 then do { h \<leftarrow> chk u32_max (height + 6); if tip > h then mark_orphan E hash sh else Some sh } else Some sh
   | Unanswered \<Rightarrow> Some sh)"

fun confirm_loop :: "pool_env \<Rightarrow> u32 \<Rightarrow> (string \<Rightarrow> confirm_reply) \<Rightarrow> (string \<times> u32) list \<Rightarrow> shared \<Rightarrow> shared option" where
  "confirm_loop E tip node [] sh = Some sh"
| "confirm_loop E tip node (e # es) sh = do { sh1 \<leftarrow> confirm_one E tip (node (fst e)) e sh; confirm_loop E tip node es sh1 }"

definition confirm_blocks :: "pool_env \<Rightarrow> u32 \<Rightarrow> (string \<Rightarrow> confirm_reply) \<Rightarrow> shared \<Rightarrow> shared option" where
  "confirm_blocks E tip node sh = do {
     pending \<leftarrow> pending_walk tip 20 (rev (sh_blocks sh));
     confirm_loop E tip node pending sh }"

section \<open>The log read back\<close>

text \<open>What a start reads from the log (\<open>Tides_Blocks.read_all\<close>, the lines parsed).\<close>

definition logged :: "block_record list \<Rightarrow> block_record list" where
  "logged rs = fst (fold put_record rs ([], Map.empty))"

lemma logged_eq: "logged rs = map (\<lambda>h. latest h rs) (first_seen rs)"
  using put_records [of rs "fst (fold put_record rs ([], Map.empty))" "snd (fold put_record rs ([], Map.empty))"]
  by (simp add: logged_def)

lemma latest_hash: "h \<in> br_hash ` set rs \<Longrightarrow> br_hash (latest h rs) = h"
proof -
  assume "h \<in> br_hash ` set rs"
  then have "filter (\<lambda>r. br_hash r = h) rs \<noteq> []" by (auto simp: filter_empty_conv)
  from last_in_set [OF this] show ?thesis by (simp add: latest_def)
qed

lemma logged_hashes: "map br_hash (logged rs) = first_seen rs"
  unfolding logged_eq map_map by (rule map_idI) (use latest_hash in force)

lemma logged_distinct: "distinct (map br_hash (logged rs))"
  by (simp add: logged_hashes)

lemma logged_append:
  "logged (rs @ [r]) = (if br_hash r \<in> br_hash ` set rs
     then map (\<lambda>x. if br_hash x = br_hash r then r else x) (logged rs) else logged rs @ [r])"
proof (cases "br_hash r \<in> br_hash ` set rs")
  case True
  have "br_hash (latest h rs) = h" if "h \<in> set (first_seen rs)" for h using that latest_hash by simp
  then show ?thesis using True by (auto simp: logged_eq first_seen_snoc latest_snoc)
next
  case False
  then have "latest h (rs @ [r]) = latest h rs" if "h \<in> set (first_seen rs)" for h using that by (auto simp: latest_snoc)
  then show ?thesis using False by (simp add: logged_eq first_seen_snoc latest_snoc)
qed

lemma logged_new: "br_hash r \<notin> br_hash ` set rs \<Longrightarrow> logged (rs @ [r]) = logged rs @ [r]"
  by (simp add: logged_append)

lemma map_replace_key:
  assumes "distinct (map f xs)" "i < length xs" "f (xs ! i) = f y"
  shows "map (\<lambda>x. if f x = f y then y else x) xs = xs[i := y]"
proof (rule nth_equalityI)
  fix j assume "j < length (map (\<lambda>x. if f x = f y then y else x) xs)"
  then have j: "j < length xs" by simp
  have "f (xs ! j) = f y \<longleftrightarrow> j = i"
    using assms j nth_eq_iff_index_eq [OF assms(1), of j i] by auto
  then show "map (\<lambda>x. if f x = f y then y else x) xs ! j = xs[i := y] ! j" using j by auto
qed simp

lemma logged_update:
  assumes "i < length (logged rs)" "br_hash (logged rs ! i) = br_hash r"
  shows "logged (rs @ [r]) = (logged rs)[i := r]"
proof -
  have "br_hash r \<in> set (map br_hash (logged rs))" using assms by (metis length_map nth_map nth_mem)
  then have "br_hash r \<in> br_hash ` set rs" by (simp only: logged_hashes first_seen_set set_map)
  then show ?thesis using map_replace_key [OF logged_distinct assms] by (simp add: logged_append)
qed

text \<open>The list in memory is the end of the log as a start would read it.\<close>

definition kept_blocks :: "shared \<Rightarrow> bool" where
  "kept_blocks sh \<longleftrightarrow> sh_blocks sh = drop (length (logged (sh_log sh)) - MAX_BLOCKS) (logged (sh_log sh))"

lemma last_at_Some:
  "last_at h rs = Some i \<Longrightarrow> i < length rs \<and> br_hash (rs ! i) = h"
  by (induction rs arbitrary: i) (auto split: option.splits if_splits)

lemma last_at_None: "last_at h rs = None \<longleftrightarrow> h \<notin> br_hash ` set rs"
  by (induction rs) (auto split: option.splits)

lemma kept_blocks_record:
  assumes "kept_blocks sh" "br_hash r \<notin> br_hash ` set (sh_log sh)"
  shows "kept_blocks (record_block r sh)" "logged (sh_log (record_block r sh)) = logged (sh_log sh) @ [r]"
proof -
  show l: "logged (sh_log (record_block r sh)) = logged (sh_log sh) @ [r]"
    using assms(2) by (simp add: record_block_def Let_def logged_new)
  let ?L = "logged (sh_log sh)"
  have "drop (length (sh_blocks sh @ [r]) - MAX_BLOCKS) (sh_blocks sh @ [r]) = drop (length (?L @ [r]) - MAX_BLOCKS) (?L @ [r])"
    using assms(1) by (cases "MAX_BLOCKS \<le> length ?L") (simp_all add: kept_blocks_def MAX_BLOCKS_def Suc_diff_le [symmetric])
  then show "kept_blocks (record_block r sh)"
    unfolding kept_blocks_def l by (auto simp: record_block_def Let_def not_less)
qed

lemma kept_blocks_at:
  assumes "kept_blocks sh" "last_at h (sh_blocks sh) = Some i"
  obtains j where "j < length (logged (sh_log sh))" "logged (sh_log sh) ! j = sh_blocks sh ! i"
    "br_hash (logged (sh_log sh) ! j) = h"
    "\<And>r. br_hash r = h \<Longrightarrow> logged (sh_log sh @ [r]) = (logged (sh_log sh))[j := r]"
    "\<And>r. br_hash r = h \<Longrightarrow> kept_blocks (sh\<lparr>sh_blocks := (sh_blocks sh)[i := r], sh_log := sh_log sh @ [r]\<rparr>)"
proof -
  let ?L = "logged (sh_log sh)"
  let ?d = "length ?L - MAX_BLOCKS"
  note i = last_at_Some [OF assms(2)]
  have b: "sh_blocks sh = drop ?d ?L" using assms(1) by (simp add: kept_blocks_def)
  have j: "?d + i < length ?L" "?L ! (?d + i) = sh_blocks sh ! i" using i by (auto simp: b)
  have u: "logged (sh_log sh @ [r]) = ?L[?d + i := r]" if "br_hash r = h" for r
    by (rule logged_update) (use j i that in simp_all)
  have k: "kept_blocks (sh\<lparr>sh_blocks := (sh_blocks sh)[i := r], sh_log := sh_log sh @ [r]\<rparr>)" if "br_hash r = h" for r
    unfolding kept_blocks_def using u [OF that] by (simp add: b drop_update_swap)
  show thesis by (rule that [OF j _ u k]) (use i j(2) in simp_all)
qed

lemma sum_list_update_int:
  "i < length xs \<Longrightarrow> sum_list (map f (xs[i := y])) = sum_list (map f xs) - f (xs ! i) + (f y :: int)"
  by (induction xs arbitrary: i) (auto simp: less_Suc_eq_0_disj)

section \<open>What a block has on the books\<close>

definition debit_part :: "string \<Rightarrow> books \<Rightarrow> int" where
  "debit_part s b = (if bk_debits_live b then int (amount_of s (bk_debited b) + amount_of s (bk_shortfall b)) else 0)"

definition credit_part :: "string \<Rightarrow> books \<Rightarrow> int" where
  "credit_part s b = (if bk_credits_live b then int (amount_of s (bk_credited b) + amount_of s (bk_debt_paid b)) else 0)"

definition rebate_part :: "books \<Rightarrow> int" where
  "rebate_part b = (if bk_credits_live b then int (bk_rebate_added b) else 0) - (if bk_debits_live b then int (bk_rebate_debited b) else 0)"

definition moved :: "string \<Rightarrow> block_record \<Rightarrow> int" where
  "moved s r = (case br_books r of None \<Rightarrow> 0 | Some b \<Rightarrow> credit_part s b - debit_part s b)"

definition rebate_moved :: "block_record \<Rightarrow> int" where
  "rebate_moved r = (case br_books r of None \<Rightarrow> 0 | Some b \<Rightarrow> rebate_part b)"

definition books_wf :: "books \<Rightarrow> bool" where
  "books_wf b \<longleftrightarrow> (bk_credits_live b \<longrightarrow> bk_debits_live b)
     \<and> (bk_debits_live b \<longrightarrow> entries_ok (bk_debited b) \<and> entries_ok (bk_shortfall b) \<and> bk_rebate_debited b \<le> i64_max)"

text \<open>Room for booking a block without saturating: places for new identities, and sats below the top of the machine integers.\<close>

definition fits :: "(string \<times> i64) list \<Rightarrow> u64 \<Rightarrow> u64 \<Rightarrow> window \<Rightarrow> bool" where
  "fits delta roc rd w \<longleftrightarrow> accounts_ok (2 * length delta) w \<and> delta_ok delta \<and> headroom (gross delta) w
     \<and> roc \<le> i64_max \<and> rd \<le> i64_max \<and> w_rebate_owed w + rd \<le> u64_max"

text \<open>The books of a block and the balances move together.\<close>

definition in_balance :: "books \<Rightarrow> window \<Rightarrow> books \<Rightarrow> window \<Rightarrow> bool" where
  "in_balance b w b' w' \<longleftrightarrow>
     (\<forall>s. net_position s w' - (credit_part s b' - debit_part s b') = net_position s w - (credit_part s b - debit_part s b))
     \<and> int (w_rebate_owed w') - rebate_part b' = int (w_rebate_owed w) - rebate_part b"

lemma in_balance_trans: "in_balance b w b1 w1 \<Longrightarrow> in_balance b1 w1 b2 w2 \<Longrightarrow> in_balance b w b2 w2"
  by (simp add: in_balance_def)

lemma in_balance_refl [simp]: "in_balance b w b w"
  by (simp add: in_balance_def)

lemma book_debits_parts:
  assumes fit: "fits delta (bk_rebate_owed_credited b) (bk_rebate_deferred b) (l_window l)" and wf: "books_wf b"
  obtains b1 l1 where "book_debits delta b l = (b1, l1)" "bk_debits_live b1" "books_wf b1" "bk_credits_live b1 = bk_credits_live b"
    "bk_rebate_deferred b1 = bk_rebate_deferred b" "in_balance b (l_window l) b1 (l_window l1)"
    "accounts_ok (length (credits_in delta)) (l_window l1)" "headroom (gross (credits_in delta)) (l_window l1)"
    "w_rebate_owed (l_window l1) \<le> w_rebate_owed (l_window l)"
proof -
  let ?nd = "length (debits_in delta)" and ?nc = "length (credits_in delta)"
  let ?gd = "gross (debits_in delta)" and ?gc = "gross (credits_in delta)"
  have ok: "accounts_ok (2 * ?nd + ?nc) (l_window l)"
    by (rule accounts_ok_mono [of "2 * length delta"]) (use fit length_parts [of delta] in \<open>auto simp: fits_def\<close>)
  have room: "headroom (?gd + ?gc) (l_window l)" unfolding gross_parts using fit by (simp add: fits_def)
  show thesis
  proof (cases "bk_debits_live b")
    case True
    show thesis
      by (rule that [of b l]) (use True wf ok room in \<open>auto simp: book_debits_def elim: accounts_ok_mono headroom_mono\<close>)
  next
    case False
    have f: "delta_ok delta" "bk_rebate_owed_credited b \<le> i64_max" "w_rebate_owed (l_window l) \<le> u64_max"
      using fit by (auto simp: fits_def)
    obtain b1 l1 where 1: "book_debits delta b l = (b1, l1)" "bk_debits_live b1" "bk_credits_live b1 = bk_credits_live b"
      "accounts_ok ?nc (l_window l1)" "headroom ?gc (l_window l1)"
      "\<And>s. net_position s (l_window l1) = net_position s (l_window l) + net_delta s (debits_in delta)"
      "\<And>s. int (amount_of s (bk_debited b1) + amount_of s (bk_shortfall b1)) = - net_delta s (debits_in delta)"
      "w_rebate_owed (l_window l1) + bk_rebate_debited b1 = w_rebate_owed (l_window l)"
      "bk_rebate_debited b1 = min (w_rebate_owed (l_window l)) (bk_rebate_owed_credited b)"
      "bk_rebate_deferred b1 = bk_rebate_deferred b" "entries_ok (bk_debited b1)" "entries_ok (bk_shortfall b1)"
      by (rule book_debits_spec [OF False ok f(1) room f(2,3)]) (rule that)
    have nc: "\<not> bk_credits_live b" using wf False by (auto simp: books_wf_def)
    have pos: "net_position s (l_window l1) = net_position s (l_window l) - int (amount_of s (bk_debited b1) + amount_of s (bk_shortfall b1))" for s
      using 1(6,7) [of s] by simp
    show thesis
    proof (rule that [OF 1(1,2) _ 1(3,10) _ 1(4,5)])
      show "books_wf b1" using 1 nc f(2) by (simp add: books_wf_def)
      show "in_balance b (l_window l) b1 (l_window l1)"
        using False nc 1(2,3,8) pos by (auto simp: in_balance_def debit_part_def credit_part_def rebate_part_def)
      show "w_rebate_owed (l_window l1) \<le> w_rebate_owed (l_window l)" using 1(8) by simp
    qed
  qed
qed

lemma book_credits_parts:
  assumes acc: "accounts_ok (length (credits_in delta)) (l_window l)" "headroom (gross (credits_in delta)) (l_window l)"
    and d: "delta_ok delta" "bk_rebate_deferred b \<le> i64_max" "w_rebate_owed (l_window l) + bk_rebate_deferred b \<le> u64_max"
    and wf: "books_wf b" and live: "bk_debits_live b"
  obtains b1 l1 where "book_credits delta b l = (b1, l1)" "bk_debits_live b1" "bk_credits_live b1" "books_wf b1"
    "in_balance b (l_window l) b1 (l_window l1)" "accounts_ok 0 (l_window l1)"
proof (cases "bk_credits_live b")
  case True
  show thesis
    by (rule that [of b l]) (use True wf live acc in \<open>auto simp: book_credits_def elim: accounts_ok_mono\<close>)
next
  case False
  have acc0: "accounts_ok (length (credits_in delta) + 0) (l_window l)" "headroom (gross (credits_in delta) + 0) (l_window l)"
    using acc by simp_all
  obtain b1 l1 where 1: "book_credits delta b l = (b1, l1)" "bk_credits_live b1" "bk_debits_live b1 = bk_debits_live b"
    "accounts_ok 0 (l_window l1)"
    "\<And>s. net_position s (l_window l1) = net_position s (l_window l) + net_delta s (credits_in delta)"
    "\<And>s. int (amount_of s (bk_credited b1) + amount_of s (bk_debt_paid b1)) = net_delta s (credits_in delta)"
    "w_rebate_owed (l_window l1) = w_rebate_owed (l_window l) + bk_rebate_deferred b" "bk_rebate_added b1 = bk_rebate_deferred b"
    "bk_debited b1 = bk_debited b" "bk_shortfall b1 = bk_shortfall b" "bk_rebate_debited b1 = bk_rebate_debited b"
    by (rule book_credits_spec [OF False acc0(1) d(1) acc0(2) d(2,3)]) (rule that)
  show thesis
  proof (rule that [OF 1(1) _ 1(2) _ _ 1(4)])
    show "bk_debits_live b1" "books_wf b1" using wf 1(2,3,9-11) live by (simp_all add: books_wf_def)
    show "in_balance b (l_window l) b1 (l_window l1)"
      using False 1(2,3,5,7-11) 1(6) [symmetric] by (auto simp: in_balance_def debit_part_def credit_part_def rebate_part_def)
  qed
qed

lemma unbook_parts:
  assumes wf: "books_wf b" and nc: "\<not> bk_credits_live b"
    and acc: "accounts_ok (length (bk_debited b) + length (bk_shortfall b)) (l_window l)"
      "headroom (amount_all (bk_debited b) + amount_all (bk_shortfall b)) (l_window l)"
    and reb: "w_rebate_owed (l_window l) + bk_rebate_debited b \<le> u64_max"
  obtains q b1 l1 where "unbook b l = (q, b1, l1)" "\<not> bk_debits_live b1" "\<not> bk_credits_live b1" "books_wf b1"
    "in_balance b (l_window l) b1 (l_window l1)" "accounts_ok 0 (l_window l1)" "q = 0"
proof (cases "bk_debits_live b")
  case False
  have "accounts_ok 0 (l_window l)" using acc(1) by (elim accounts_ok_mono) simp
  then show thesis
    by (intro that [of 0 b "l\<lparr>l_dirty := True\<rparr>"]) (use False nc wf in \<open>simp_all add: unbook_def Let_def\<close>)
next
  case True
  have es: "entries_ok (bk_debited b)" "entries_ok (bk_shortfall b)" "bk_rebate_debited b \<le> i64_max"
    using wf True by (simp_all add: books_wf_def)
  have acc0: "accounts_ok (length (bk_debited b) + (length (bk_shortfall b) + 0)) (l_window l)"
    "headroom (amount_all (bk_debited b) + (amount_all (bk_shortfall b) + 0)) (l_window l)" using acc by simp_all
  note U = unbook_debits_spec [OF acc0(1) es(1,2) acc0(2) es(3) reb]
  define b1 where "b1 = b\<lparr>bk_debited := [], bk_shortfall := [], bk_rebate_debited := 0, bk_debits_live := False\<rparr>"
  have e: "unbook b l = (0, b1, l\<lparr>l_window := unbook_debits b (l_window l), l_dirty := True\<rparr>)"
    using True nc by (simp add: unbook_def Let_def b1_def)
  show thesis
    by (rule that [OF e]) (use U True nc in \<open>simp_all add: b1_def books_wf_def in_balance_def debit_part_def credit_part_def rebate_part_def\<close>)
qed

section \<open>Frames\<close>

lemma sync_simps [simp]:
  "l_window (sh_ledger (sync E sh)) = l_window (sh_ledger sh)" "sh_blocks (sync E sh) = sh_blocks sh"
  "sh_log (sync E sh) = sh_log sh" "sh_base (sync E sh) = sh_base sh"
  by (simp_all add: sync_def flush_def compact_def Let_def split: prod.split)

lemma window_note_debit [simp]: "l_window (note_debit_applied h l) = l_window l"
  by (simp add: note_debit_applied_def Let_def)

lemma drop_base_simps [simp]:
  "sh_ledger (drop_coinbaser_base sh) = sh_ledger sh" "sh_blocks (drop_coinbaser_base sh) = sh_blocks sh"
  "sh_log (drop_coinbaser_base sh) = sh_log sh" "sh_base (drop_coinbaser_base sh) = None"
  by (simp_all add: drop_coinbaser_base_def)

lemma kept_blocks_cong: "sh_blocks sh' = sh_blocks sh \<Longrightarrow> sh_log sh' = sh_log sh \<Longrightarrow> kept_blocks sh' = kept_blocks sh"
  by (simp add: kept_blocks_def)

text \<open>A share changes no balance.\<close>

definition same_accounts :: "window \<Rightarrow> window \<Rightarrow> bool" where
  "same_accounts w w' \<longleftrightarrow> (\<forall>s. carry_of s w' = carry_of s w \<and> net_position s w' = net_position s w) \<and> w_rebate_owed w' = w_rebate_owed w"

lemma ledger_credit_accounts:
  assumes c: "ledger_credit s work height ts src l = Some l'" and ok: "accounts_ok 1 (l_window l)"
  shows "accounts_ok 0 (l_window l')" "same_accounts (l_window l) (l_window l')"
proof -
  obtain i w1 where i: "intern s (l_window l) = (i, w1)" by (cases "intern s (l_window l)")
  have ok1: "accounts_ok (Suc 0) (l_window l)" using ok by simp
  note I = accounts_ok_intern [OF ok1 i] and fr = intern_frame [OF i]
  obtain row w' where r: "credit_row s work height ts src (l_window l) = Some (row, w')" "l_window l' = w'"
    using c by (auto simp: ledger_credit_def Let_def write_ident_def split: bind_splits)
  have f: "w_idents w' = w_idents w1" "w_index w' = w_index w1" "w_carry w' = w_carry w1" "w_debt w' = w_debt w1"
    "w_holds w' = w_holds w1" "w_rebate_owed w' = w_rebate_owed w1"
    using r(1) unfolding credit_row_def i by (auto simp: Let_def split: bind_splits prod.splits)
  show "accounts_ok 0 (l_window l')" using I(1) accounts_ok_cong [OF f(1-5)] r(2) by simp
  have "carry_of x w' = carry_of x (l_window l)" "debt_of x w' = debt_of x (l_window l)" "held_of x w' = held_of x (l_window l)" for x
    using I(4,5) [of x] f fr by (simp_all add: carry_of_def debt_of_def held_of_def lookup_def)
  then show "same_accounts (l_window l) (l_window l')"
    using f(6) fr r(2) by (simp add: same_accounts_def net_position_def)
qed

section \<open>The snapshot\<close>

text \<open>A snapshot shows the balances as they are: every figure of carry, everyone who has any, and the owed rebate.\<close>

definition shows_books :: "base_snapshot \<Rightarrow> window \<Rightarrow> bool" where
  "shows_books b w \<longleftrightarrow> bs_rebate_owed b = w_rebate_owed w
     \<and> (\<forall>m \<in> set (bs_miners b). ms_carry m = carry_of (ms_identity m) w)
     \<and> (\<forall>s. carry_of s w > 0 \<longrightarrow> s \<in> ms_identity ` set (bs_miners b))"

lemma build_base_shows:
  assumes b: "build_base E now w = Some b" and ok: "accounts_ok 0 w"
  shows "shows_books b w"
proof -
  have I: "ident_ok w" and B: "bal_ok (length (w_idents w)) (w_carry w)" using ok by (simp_all add: accounts_ok_def)
  obtain st where m: "set (bs_miners b) = miner_of w st ` {i. i < length (w_idents w) \<and> w_totals w i \<noteq> None}
      \<union> idle_miner_of w ` {i. i < length (w_idents w) \<and> w_carry w i \<noteq> None \<and> the (w_carry w i) > 0 \<and> w_totals w i = None}"
    and r: "bs_rebate_owed b = w_rebate_owed w"
    using b by (auto simp: build_base_def miners_def split: bind_splits)
  have c: "carry_of (w_idents w ! i) w = (case w_carry w i of None \<Rightarrow> 0 | Some x \<Rightarrow> x)" if "i < length (w_idents w)" for i
    using I that lookup_at [of w "w_idents w ! i" i] by (simp add: carry_of_def ident_ok_def)
  have "ms_carry x = carry_of (ms_identity x) w" if "x \<in> set (bs_miners b)" for x
    using that c unfolding m by (auto simp: miner_of_def idle_miner_of_def split: prod.splits)
  moreover have "s \<in> ms_identity ` set (bs_miners b)" if pos: "carry_of s w > 0" for s
  proof -
    obtain i x where i: "w_index w s = Some i" "w_carry w i = Some x" "x > 0"
      using pos by (auto simp: carry_of_def lookup_def split: option.splits)
    have n: "i < length (w_idents w)" "w_idents w ! i = s" using ident_ok_nth [OF I i(1)] by auto
    have id: "ms_identity (miner_of w st i) = s" "ms_identity (idle_miner_of w i) = s"
      using n by (simp_all add: miner_of_def idle_miner_of_def split: prod.split)
    show ?thesis
    proof (cases "w_totals w i = None")
      case True
      then have "idle_miner_of w i \<in> set (bs_miners b)" using i n(1) unfolding m by simp
      from imageI [OF this, of ms_identity] show ?thesis by (simp only: id)
    next
      case False
      then have "miner_of w st i \<in> set (bs_miners b)" using n(1) unfolding m by simp
      from imageI [OF this, of ms_identity] show ?thesis by (simp only: id)
    qed
  qed
  ultimately show ?thesis using r by (simp add: shows_books_def)
qed

lemma shows_books_cong: "same_accounts w w' \<Longrightarrow> shows_books b w \<Longrightarrow> shows_books b w'"
  by (simp add: same_accounts_def shows_books_def)

lemma coinbaser_base_shows:
  assumes "coinbaser_base E now sh = Some (b, sh')" "accounts_ok 0 (l_window (sh_ledger sh))"
    and "\<And>b. sh_base sh = Some b \<Longrightarrow> shows_books b (l_window (sh_ledger sh))"
  shows "shows_books b (l_window (sh_ledger sh))" "sh' = sh\<lparr>sh_base := Some b\<rparr>"
  using assms by (auto simp: coinbaser_base_def build_base_shows split: option.splits if_splits)

section \<open>The life of a block\<close>

text \<open>A block is waiting (nothing of it credited), settled (all of it booked) or orphaned (nothing of it on the books), and
  the orphan label is there once.\<close>

definition life_ok :: "block_record \<Rightarrow> bool" where
  "life_ok r \<longleftrightarrow> (\<exists>b. br_books r = Some b \<and> books_wf b
     \<and> (br_settled r \<longleftrightarrow> bk_credits_live b)
     \<and> (is_orphan (br_kind r) \<longrightarrow> \<not> bk_debits_live b \<and> \<not> bk_credits_live b \<and> \<not> is_orphan (drop 7 (br_kind r))))"

lemma settle_kind:
  "settle kind cb v paid_at = Some st \<Longrightarrow> st_kind st \<in> {''split'', ''partial'', ''pool-only'', ''solo'', ''unknown''}"
  by (auto simp: settle_def Let_def bare_def settle_as_issued_def settle_rescaled_def
      split: coinbase_kind.splits option.splits if_splits bind_splits)

definition candidate_fits :: "pool_env \<Rightarrow> u64 \<Rightarrow> coinbaser option \<Rightarrow> candidate \<Rightarrow> shared \<Rightarrow> bool" where
  "candidate_fits E ts issued c sh \<longleftrightarrow>
     (\<forall>cb st. candidate_coinbaser E ts issued c (l_window (sh_ledger sh)) = Some cb
        \<longrightarrow> settle (cd_kind c) cb (cd_value c) (cd_paid_at c) = Some st
        \<longrightarrow> fits (st_carry_delta st) (case cb of None \<Rightarrow> 0 | Some k \<Rightarrow> cz_rebate_owed_credited k)
              (case cb of None \<Rightarrow> 0 | Some k \<Rightarrow> cz_rebate_deferred k) (l_window (sh_ledger sh)))"

text \<open>The balances after a step, and what the blocks have on the books.\<close>

definition moved_by :: "block_record \<Rightarrow> window \<Rightarrow> block_record \<Rightarrow> window \<Rightarrow> bool" where
  "moved_by r w r' w' \<longleftrightarrow> (\<forall>s. net_position s w' - moved s r' = net_position s w - moved s r)
     \<and> int (w_rebate_owed w') - rebate_moved r' = int (w_rebate_owed w) - rebate_moved r"

lemma in_balance_moved:
  "in_balance b w b' w' \<Longrightarrow> br_books r = Some b \<Longrightarrow> br_books r' = Some b' \<Longrightarrow> moved_by r w r' w'"
  by (simp add: in_balance_def moved_by_def moved_def rebate_moved_def)

lemma books_new_parts [simp]:
  "debit_part s (books_new a d) = 0" "credit_part s (books_new a d) = 0" "rebate_part (books_new a d) = 0" "books_wf (books_new a d)"
  by (simp_all add: debit_part_def credit_part_def rebate_part_def books_wf_def books_new_def)

lemma candidate_record_simps [simp]:
  "br_hash (candidate_record c ts st cp sf d cr b) = cd_hash c" "br_kind (candidate_record c ts st cp sf d cr b) = st_kind st"
  "br_settled (candidate_record c ts st cp sf d cr b) = False" "br_books (candidate_record c ts st cp sf d cr b) = Some b"
  by (simp_all add: candidate_record_def)

lemma candidate_books:
  assumes r: "book_candidate E ts issued c sh = Some (r, sh1)" and fit: "candidate_fits E ts issued c sh"
    and acc: "accounts_ok 0 (l_window (sh_ledger sh))"
  shows "life_ok r" "br_hash r = cd_hash c" "sh_blocks sh1 = sh_blocks sh" "sh_log sh1 = sh_log sh"
    "accounts_ok 0 (l_window (sh_ledger sh1))" "sh1 = sh \<or> sh_base sh1 = None"
    "net_position s (l_window (sh_ledger sh1)) = net_position s (l_window (sh_ledger sh)) + moved s r"
    "int (w_rebate_owed (l_window (sh_ledger sh1))) = int (w_rebate_owed (l_window (sh_ledger sh))) + rebate_moved r"
    "\<not> is_orphan (br_kind r)"
proof -
  obtain cb st where cb: "candidate_coinbaser E ts issued c (l_window (sh_ledger sh)) = Some cb"
    and st: "settle (cd_kind c) cb (cd_value c) (cd_paid_at c) = Some st"
    using r by (auto simp: book_candidate_def split: bind_splits)
  have k: "\<not> is_orphan (st_kind st)" using settle_kind [OF st] by (auto simp: is_orphan_def)
  let ?roc = "case cb of None \<Rightarrow> 0 | Some k \<Rightarrow> cz_rebate_owed_credited k"
  let ?rd = "case cb of None \<Rightarrow> 0 | Some k \<Rightarrow> cz_rebate_deferred k"
  have "life_ok r \<and> br_hash r = cd_hash c \<and> sh_blocks sh1 = sh_blocks sh \<and> sh_log sh1 = sh_log sh
    \<and> accounts_ok 0 (l_window (sh_ledger sh1)) \<and> (sh1 = sh \<or> sh_base sh1 = None)
    \<and> (\<forall>s. net_position s (l_window (sh_ledger sh1)) = net_position s (l_window (sh_ledger sh)) + moved s r)
    \<and> int (w_rebate_owed (l_window (sh_ledger sh1))) = int (w_rebate_owed (l_window (sh_ledger sh))) + rebate_moved r
    \<and> \<not> is_orphan (br_kind r)"
  proof (cases "settles st")
    case False
    then show ?thesis
      using r cb st k acc by (auto simp: book_candidate_def life_ok_def moved_def rebate_moved_def) (auto simp: books_new_def)
  next
    case True
    let ?delta = "st_carry_delta st" and ?w = "l_window (sh_ledger sh)"
    have "fits ?delta ?roc ?rd ?w" using fit cb st by (simp add: candidate_fits_def)
    then have f: "fits ?delta (bk_rebate_owed_credited (books_new ?roc ?rd)) (bk_rebate_deferred (books_new ?roc ?rd)) ?w"
      by (simp add: books_new_def)
    obtain b l1 where b: "book_debits ?delta (books_new ?roc ?rd) (sh_ledger sh) = (b, l1)" "books_wf b"
      "bk_credits_live b = bk_credits_live (books_new ?roc ?rd)" "in_balance (books_new ?roc ?rd) ?w b (l_window l1)"
      "accounts_ok (length (credits_in ?delta)) (l_window l1)"
      by (rule book_debits_parts [OF f]) (simp, rule that)
    obtain q where bd: "book_block_debits E (cd_hash c) ?delta (books_new ?roc ?rd) sh
        = (q, b, (sync E (sh\<lparr>sh_ledger := note_debit_applied (cd_hash c) l1\<rparr>))\<lparr>sh_base := None\<rparr>)"
      by (simp add: book_block_debits_def b(1) Let_def)
    have roc: "(case cb of None \<Rightarrow> (0, 0) | Some k \<Rightarrow> (cz_rebate_owed_credited k, cz_rebate_deferred k)) = (?roc, ?rd)"
      by (simp split: option.split)
    have rs: "br_books r = Some b" "br_kind r = st_kind st" "br_hash r = cd_hash c" "\<not> br_settled r"
      "sh1 = (sync E (sh\<lparr>sh_ledger := note_debit_applied (cd_hash c) l1\<rparr>))\<lparr>sh_base := None\<rparr>"
      using r by (auto simp: book_candidate_def cb st True roc bd split: bind_splits prod.splits)
    have nc: "\<not> bk_credits_live b" using b(3) by (simp add: books_new_def)
    have a0: "accounts_ok 0 (l_window l1)" using b(5) by (rule accounts_ok_mono) simp
    show ?thesis
      using rs k b(2,4) nc a0 by (auto simp: life_ok_def moved_def rebate_moved_def in_balance_def diff_eq_eq)
  qed
  then show "life_ok r" "br_hash r = cd_hash c" "sh_blocks sh1 = sh_blocks sh" "sh_log sh1 = sh_log sh"
    "accounts_ok 0 (l_window (sh_ledger sh1))" "sh1 = sh \<or> sh_base sh1 = None"
    "net_position s (l_window (sh_ledger sh1)) = net_position s (l_window (sh_ledger sh)) + moved s r"
    "int (w_rebate_owed (l_window (sh_ledger sh1))) = int (w_rebate_owed (l_window (sh_ledger sh))) + rebate_moved r"
    "\<not> is_orphan (br_kind r)"
    by simp_all
qed

text \<open>The pool at work, from a fresh block log: candidates, confirmations, orphanings of blocks not yet settled, shares, coinbaser
  replies and saves, in any order. Every booking has room; a candidate's hash is new, as the duplicate check of its share makes
  it; an orphaned block is one that is not settled, as only those are asked about.\<close>

definition settle_room :: "string \<Rightarrow> shared \<Rightarrow> bool" where
  "settle_room h sh \<longleftrightarrow> (\<forall>i b. last_at h (sh_blocks sh) = Some i \<longrightarrow> br_books (sh_blocks sh ! i) = Some b
     \<longrightarrow> fits (br_carry_delta (sh_blocks sh ! i)) (bk_rebate_owed_credited b) (bk_rebate_deferred b) (l_window (sh_ledger sh)))"

definition orphan_room :: "string \<Rightarrow> shared \<Rightarrow> bool" where
  "orphan_room h sh \<longleftrightarrow> (\<forall>i b. last_at h (sh_blocks sh) = Some i \<longrightarrow> br_books (sh_blocks sh ! i) = Some b
     \<longrightarrow> \<not> br_settled (sh_blocks sh ! i)
       \<and> accounts_ok (length (bk_debited b) + length (bk_shortfall b)) (l_window (sh_ledger sh))
       \<and> headroom (amount_all (bk_debited b) + amount_all (bk_shortfall b)) (l_window (sh_ledger sh))
       \<and> w_rebate_owed (l_window (sh_ledger sh)) + bk_rebate_debited b \<le> u64_max)"

inductive pool_step :: "pool_env \<Rightarrow> shared \<Rightarrow> shared \<Rightarrow> bool" for E where
  step_candidate: "candidate_fits E ts issued c sh \<Longrightarrow> cd_hash c \<notin> br_hash ` set (sh_log sh)
    \<Longrightarrow> on_block_candidate E ts issued c sh = Some sh' \<Longrightarrow> pool_step E sh sh'"
| step_confirmed: "settle_room h sh \<Longrightarrow> settle_confirmed E h sh = Some sh' \<Longrightarrow> pool_step E sh sh'"
| step_orphaned: "orphan_room h sh \<Longrightarrow> mark_orphan E h sh = Some sh' \<Longrightarrow> pool_step E sh sh'"
| step_share: "accounts_ok 1 (l_window (sh_ledger sh)) \<Longrightarrow> ledger_credit s work height ts src (sh_ledger sh) = Some l
    \<Longrightarrow> pool_step E sh (sh\<lparr>sh_ledger := l\<rparr>)"
| step_reply: "coinbaser_base E now sh = Some (b, sh') \<Longrightarrow> pool_step E sh sh'"
| step_save: "pool_step E sh (sync E sh)"

inductive pool_run :: "pool_env \<Rightarrow> window \<Rightarrow> shared \<Rightarrow> bool" for E w0 where
  run_start: "sh_blocks sh = [] \<Longrightarrow> sh_log sh = [] \<Longrightarrow> sh_base sh = None \<Longrightarrow> l_window (sh_ledger sh) = w0 \<Longrightarrow> accounts_ok 0 w0
    \<Longrightarrow> pool_run E w0 sh"
| run_step: "pool_run E w0 sh \<Longrightarrow> pool_step E sh sh' \<Longrightarrow> pool_run E w0 sh'"

text \<open>The balances are given figures, for the positions and the owed rebate, plus what the blocks have on the books.\<close>

definition balanced :: "(string \<Rightarrow> int) \<Rightarrow> int \<Rightarrow> block_record list \<Rightarrow> window \<Rightarrow> bool" where
  "balanced p q rs w \<longleftrightarrow> (\<forall>s. net_position s w = p s + sum_list (map (moved s) rs))
     \<and> int (w_rebate_owed w) = q + sum_list (map rebate_moved rs)"

lemma balanced_snoc:
  assumes "balanced p q rs w" "\<And>s. net_position s w' = net_position s w + moved s r"
    "int (w_rebate_owed w') = int (w_rebate_owed w) + rebate_moved r"
  shows "balanced p q (rs @ [r]) w'"
  using assms by (simp add: balanced_def)

lemma balanced_update:
  "balanced p q rs w \<Longrightarrow> i < length rs \<Longrightarrow> moved_by (rs ! i) w r w' \<Longrightarrow> balanced p q (rs[i := r]) w'"
  by (auto simp: balanced_def moved_by_def sum_list_update_int diff_eq_eq)

lemma balanced_same: "balanced p q rs w \<Longrightarrow> same_accounts w w' \<Longrightarrow> balanced p q rs w'"
  by (simp add: balanced_def same_accounts_def)

definition pool_ok :: "(string \<Rightarrow> int) \<Rightarrow> int \<Rightarrow> shared \<Rightarrow> bool" where
  "pool_ok p q sh \<longleftrightarrow> kept_blocks sh \<and> (\<forall>r \<in> set (logged (sh_log sh)). life_ok r) \<and> accounts_ok 0 (l_window (sh_ledger sh))
     \<and> balanced p q (logged (sh_log sh)) (l_window (sh_ledger sh))"

text \<open>The snapshot kept, if there is one, shows the balances.\<close>

definition base_ok :: "shared \<Rightarrow> bool" where
  "base_ok sh \<longleftrightarrow> (\<forall>b. sh_base sh = Some b \<longrightarrow> shows_books b (l_window (sh_ledger sh)))"

lemma update_all_ok: "\<forall>x \<in> set xs. P x \<Longrightarrow> P y \<Longrightarrow> \<forall>x \<in> set (xs[i := y]). P x"
  using set_update_subset_insert [of xs i y] by blast

text \<open>One record changed in place, with the ledger.\<close>

lemma pool_ok_update:
  assumes ok: "pool_ok p q sh" and i: "last_at h (sh_blocks sh) = Some i" and r: "br_hash r = h" "life_ok r"
    and m: "moved_by (sh_blocks sh ! i) (l_window (sh_ledger sh)) r (l_window l)" and acc: "accounts_ok 0 (l_window l)"
    and sh': "sh_blocks sh' = (sh_blocks sh)[i := r]" "sh_log sh' = sh_log sh @ [r]" "l_window (sh_ledger sh') = l_window l"
  shows "pool_ok p q sh'"
proof -
  have k: "kept_blocks sh" using ok by (simp add: pool_ok_def)
  obtain j where j: "j < length (logged (sh_log sh))" "logged (sh_log sh) ! j = sh_blocks sh ! i"
    "\<And>r. br_hash r = h \<Longrightarrow> logged (sh_log sh @ [r]) = (logged (sh_log sh))[j := r]"
    "\<And>r. br_hash r = h \<Longrightarrow> kept_blocks (sh\<lparr>sh_blocks := (sh_blocks sh)[i := r], sh_log := sh_log sh @ [r]\<rparr>)"
    by (rule kept_blocks_at [OF k i]) (rule that)
  have "kept_blocks sh'" using j(4) [OF r(1)] by (simp add: kept_blocks_def sh')
  moreover have "\<forall>x \<in> set ((logged (sh_log sh))[j := r]). life_ok x"
    by (rule update_all_ok) (use ok r(2) in \<open>simp_all add: pool_ok_def\<close>)
  moreover have "balanced p q ((logged (sh_log sh))[j := r]) (l_window l)"
    by (rule balanced_update) (use ok j(1,2) m in \<open>simp_all add: pool_ok_def\<close>)
  ultimately show ?thesis using j(3) [OF r(1)] acc by (simp add: pool_ok_def sh')
qed

lemma pool_ok_at: "pool_ok p q sh \<Longrightarrow> last_at h (sh_blocks sh) = Some i \<Longrightarrow> life_ok (sh_blocks sh ! i) \<and> br_hash (sh_blocks sh ! i) = h"
  by (metis kept_blocks_at nth_mem pool_ok_def)

lemma pool_ok_settled:
  assumes ok: "pool_ok p q sh" and room: "settle_room h sh" and m: "settle_confirmed E h sh = Some sh'"
  shows "pool_ok p q sh'"
proof (cases "last_at h (sh_blocks sh)")
  case None
  then have "sh' = drop_coinbaser_base (sync E sh)"
    using m by (simp add: settle_confirmed_def settle_books_def update_block_def)
  then show ?thesis using ok by (simp add: pool_ok_def kept_blocks_def)
next
  case (Some i)
  let ?r = "sh_blocks sh ! i" and ?l = "sh_ledger sh"
  obtain b where b: "br_books ?r = Some b" "books_wf b" "is_orphan (br_kind ?r) \<Longrightarrow> \<not> is_orphan (drop 7 (br_kind ?r))"
    and h: "br_hash ?r = h"
    using pool_ok_at [OF ok Some] by (auto simp: life_ok_def)
  have fit: "fits (br_carry_delta ?r) (bk_rebate_owed_credited b) (bk_rebate_deferred b) (l_window ?l)"
    using room Some b(1) by (simp add: settle_room_def)
  obtain b1 l1 where 1: "book_debits (br_carry_delta ?r) b ?l = (b1, l1)" "bk_debits_live b1" "books_wf b1"
    "bk_rebate_deferred b1 = bk_rebate_deferred b" "in_balance b (l_window ?l) b1 (l_window l1)"
    "accounts_ok (length (credits_in (br_carry_delta ?r))) (l_window l1)" "headroom (gross (credits_in (br_carry_delta ?r))) (l_window l1)"
    "w_rebate_owed (l_window l1) \<le> w_rebate_owed (l_window ?l)"
    by (rule book_debits_parts [OF fit b(2)]) (rule that)
  have d: "delta_ok (br_carry_delta ?r)" "bk_rebate_deferred b1 \<le> i64_max" "w_rebate_owed (l_window l1) + bk_rebate_deferred b1 \<le> u64_max"
    using fit 1(4,8) by (simp_all add: fits_def)
  obtain b2 l2 where 2: "book_credits (br_carry_delta ?r) b1 l1 = (b2, l2)" "bk_debits_live b2" "bk_credits_live b2" "books_wf b2"
    "in_balance b1 (l_window l1) b2 (l_window l2)" "accounts_ok 0 (l_window l2)"
    by (rule book_credits_parts [OF 1(6,7) d 1(3,2)]) (rule that)
  define r where "r = (if is_orphan (br_kind ?r) then ?r\<lparr>br_kind := drop 7 (br_kind ?r)\<rparr> else ?r)\<lparr>br_books := Some b2, br_settled := True\<rparr>"
  have s: "settle_record ?r ?l = (r, map_option (\<lambda>_. l2) (sum_u64 (map snd (bk_credited b2))))"
    by (simp add: settle_record_def b(1) 1(1) 2(1) r_def Let_def)
  have e: "sh' = drop_coinbaser_base (sync E (sh\<lparr>sh_blocks := (sh_blocks sh)[i := r], sh_log := sh_log sh @ [r], sh_ledger := l2\<rparr>))"
    using m by (auto simp: settle_confirmed_def settle_books_def update_block_def Some s)
  have rb: "br_books r = Some b2" "br_settled r" "br_hash r = h" "\<not> is_orphan (br_kind r)"
    using b(3) h by (auto simp: r_def)
  show ?thesis
  proof (rule pool_ok_update [OF ok Some rb(3), of l2])
    show "life_ok r" using rb 2(3,4) by (simp add: life_ok_def)
    show "moved_by ?r (l_window ?l) r (l_window l2)"
      by (rule in_balance_moved [OF in_balance_trans [OF 1(5) 2(5)] b(1) rb(1)])
  qed (simp_all add: e 2(6))
qed

lemma pool_ok_orphaned:
  assumes ok: "pool_ok p q sh" and room: "orphan_room h sh" and m: "mark_orphan E h sh = Some sh'"
  shows "pool_ok p q sh'"
proof (cases "case last_at h (sh_blocks sh) of None \<Rightarrow> True | Some i \<Rightarrow> is_orphan (br_kind (sh_blocks sh ! i))")
  case True
  then show ?thesis using ok m by (simp add: mark_orphan_def)
next
  case False
  then obtain i where i: "last_at h (sh_blocks sh) = Some i" "\<not> is_orphan (br_kind (sh_blocks sh ! i))"
    by (auto split: option.splits)
  let ?r = "sh_blocks sh ! i" and ?l = "sh_ledger sh"
  obtain b where b: "br_books ?r = Some b" "books_wf b" "br_settled ?r \<longleftrightarrow> bk_credits_live b" and h: "br_hash ?r = h"
    using pool_ok_at [OF ok i(1)] by (auto simp: life_ok_def)
  have g: "\<not> bk_credits_live b" "accounts_ok (length (bk_debited b) + length (bk_shortfall b)) (l_window ?l)"
    "headroom (amount_all (bk_debited b) + amount_all (bk_shortfall b)) (l_window ?l)"
    "w_rebate_owed (l_window ?l) + bk_rebate_debited b \<le> u64_max"
    using room i(1) b(1,3) by (simp_all add: orphan_room_def)
  obtain q b1 l1 where 1: "unbook b ?l = (q, b1, l1)" "\<not> bk_debits_live b1" "\<not> bk_credits_live b1" "books_wf b1"
    "in_balance b (l_window ?l) b1 (l_window l1)" "accounts_ok 0 (l_window l1)"
    by (rule unbook_parts [OF b(2) g]) (rule that)
  define r where "r = ?r\<lparr>br_kind := ''orphan:'' @ br_kind ?r, br_settled := False, br_books := Some b1\<rparr>"
  have e: "sh' = drop_coinbaser_base (sync E (sh\<lparr>sh_blocks := (sh_blocks sh)[i := r], sh_log := sh_log sh @ [r], sh_ledger := l1\<rparr>))"
    using m i by (simp add: mark_orphan_def update_block_def orphan_record_def b(1) 1(1) r_def Let_def)
  show ?thesis
  proof (rule pool_ok_update [OF ok i(1), of r l1])
    show "life_ok r" using 1(2-4) i(2) by (simp add: life_ok_def r_def)
    show "moved_by ?r (l_window ?l) r (l_window l1)"
      by (rule in_balance_moved [OF 1(5) b(1)]) (simp add: r_def)
  qed (simp_all add: e 1(6) h r_def)
qed

lemma pool_step_ok:
  assumes "pool_step E sh sh'" "pool_ok p q sh"
  shows "pool_ok p q sh'"
  using assms
proof (induction rule: pool_step.induct)
  case (step_candidate ts issued c sh sh')
  obtain r sh1 where r: "book_candidate E ts issued c sh = Some (r, sh1)" "sh' = record_block r sh1"
    using step_candidate.hyps(3) by (auto simp: on_block_candidate_def)
  have acc: "accounts_ok 0 (l_window (sh_ledger sh))" using step_candidate.prems by (simp add: pool_ok_def)
  note C = candidate_books [OF r(1) step_candidate.hyps(1) acc]
  have k: "kept_blocks sh1" "br_hash r \<notin> br_hash ` set (sh_log sh1)"
    using step_candidate.prems step_candidate.hyps(2) C(2-4) by (simp_all add: pool_ok_def kept_blocks_def)
  note K = kept_blocks_record [OF k]
  have "balanced p q (logged (sh_log sh) @ [r]) (l_window (sh_ledger sh1))"
    by (rule balanced_snoc [OF _ C(7,8)]) (use step_candidate.prems in \<open>simp add: pool_ok_def\<close>)
  moreover have "sh_ledger (record_block r sh1) = sh_ledger sh1" by (simp add: record_block_def Let_def)
  ultimately show ?case using step_candidate.prems C(1,4,5) K r(2) by (auto simp: pool_ok_def)
next
  case (step_share sh s work height ts src l)
  then show ?case using ledger_credit_accounts [OF step_share.hyps(2,1)] balanced_same by (auto simp: pool_ok_def kept_blocks_def)
next
  case (step_reply now sh b sh')
  then show ?case by (auto simp: coinbaser_base_def pool_ok_def kept_blocks_def split: option.splits if_splits)
next
  case (step_save sh)
  then show ?case by (simp add: pool_ok_def kept_blocks_def)
next
  case (step_confirmed h sh sh')
  show ?case by (rule pool_ok_settled [OF step_confirmed.prems step_confirmed.hyps])
next
  case (step_orphaned h sh sh')
  show ?case by (rule pool_ok_orphaned [OF step_orphaned.prems step_orphaned.hyps])
qed

lemma pool_step_base:
  assumes "pool_step E sh sh'" "accounts_ok 0 (l_window (sh_ledger sh))" "base_ok sh"
  shows "base_ok sh'"
  using assms
proof (induction rule: pool_step.induct)
  case (step_candidate ts issued c sh sh')
  obtain r sh1 where r: "book_candidate E ts issued c sh = Some (r, sh1)" "sh' = record_block r sh1"
    using step_candidate.hyps(3) by (auto simp: on_block_candidate_def)
  have "sh1 = sh \<or> sh_base sh1 = None" by (rule candidate_books(6) [OF r(1) step_candidate.hyps(1) step_candidate.prems(1)])
  then show ?case using step_candidate.prems(2) r(2) by (auto simp: base_ok_def record_block_def Let_def)
next
  case (step_confirmed h sh sh')
  then show ?case by (auto simp: base_ok_def settle_confirmed_def)
next
  case (step_orphaned h sh sh')
  then show ?case by (auto simp: base_ok_def mark_orphan_def split: option.splits if_splits prod.splits)
next
  case (step_share sh s work height ts src l)
  then show ?case using ledger_credit_accounts(2) [OF step_share.hyps(2,1)] shows_books_cong by (auto simp: base_ok_def)
next
  case (step_reply now sh b sh')
  have "\<And>b. sh_base sh = Some b \<Longrightarrow> shows_books b (l_window (sh_ledger sh))" using step_reply.prems(2) by (simp add: base_ok_def)
  from coinbaser_base_shows [OF step_reply.hyps step_reply.prems(1) this] show ?case by (simp add: base_ok_def)
next
  case (step_save sh)
  then show ?case by (simp add: base_ok_def)
qed

lemma pool_run_ok: "pool_run E w0 sh \<Longrightarrow> pool_ok (\<lambda>s. net_position s w0) (int (w_rebate_owed w0)) sh"
proof (induction rule: pool_run.induct)
  case (run_start sh)
  then show ?case by (simp add: pool_ok_def kept_blocks_def logged_def balanced_def)
qed (rule pool_step_ok)

section \<open>A settled record\<close>

definition finished :: "block_record \<Rightarrow> bool" where
  "finished r \<longleftrightarrow> br_settled r \<and> (\<forall>b. br_books r = Some b \<longrightarrow> bk_credits_live b)"

lemma book_credits_live: "bk_credits_live (fst (book_credits d b l))"
  by (simp add: book_credits_def Let_def split: prod.split)

lemma settle_record_done:
  assumes "settle_record r l = (r', lo)"
  shows "br_hash r' = br_hash r" "br_height r' = br_height r" "finished r'"
  using assms book_credits_live
  by (auto simp: settle_record_def finished_def Let_def split: option.splits prod.splits if_splits; metis fst_conv)+

section \<open>Properties\<close>


section \<open>Between the log and the files\<close>

text \<open>
  A block is on the log as settled before the ledger that was credited for it is on disk. A crash in between leaves a log that
  says settled and files from before; the recovery at the next start changes nothing, since it takes only debits and those not yet
  marked as applied, and a settled block is not asked about again.
\<close>

theorem crash_after_log_loses_credits:
  assumes "kept_blocks sh" "last_at h (sh_blocks sh) = Some i" "settle_books h sh = Some sh1"
    and "\<forall>r \<in> set (logged (sh_log sh1)). debits_on r \<longrightarrow> br_hash r \<in> l_applied_debits l"
  shows "sh_disk sh1 = sh_disk sh \<and> (\<exists>r \<in> set (logged (sh_log sh1)). br_hash r = h \<and> br_settled r)
    \<and> reconcile_debits (logged (sh_log sh1)) l = l"
proof -
  obtain j where j: "j < length (logged (sh_log sh))"
    "\<And>r. br_hash r = h \<Longrightarrow> logged (sh_log sh @ [r]) = (logged (sh_log sh))[j := r]"
    by (rule kept_blocks_at [OF assms(1,2)]) (rule that)
  obtain r lo where r: "settle_record (sh_blocks sh ! i) (sh_ledger sh) = (r, lo)" by fastforce
  have h: "br_hash r = h" "finished r" using settle_record_done(1,3) [OF r] last_at_Some [OF assms(2)] by simp_all
  have e: "sh_log sh1 = sh_log sh @ [r]" "sh_disk sh1 = sh_disk sh"
    using assms(3) by (auto simp: settle_books_def update_block_def assms(2) r)
  have "r \<in> set (logged (sh_log sh @ [r]))" using j h(1) by (simp add: set_update_memI)
  moreover have "fold reconcile_one rs l = l" if "\<forall>r \<in> set rs. debits_on r \<longrightarrow> br_hash r \<in> l_applied_debits l" for rs
    using that by (induction rs) (auto simp: reconcile_one_def debits_on_def split: option.splits)
  ultimately show ?thesis using assms(4) h e by (auto simp: reconcile_debits_def finished_def)
qed

text \<open>
  The other way round for a candidate: its debits are on disk before its record is on the log, so a crash in between leaves balances
  lowered by a block the pool has no record of.
\<close>

theorem crash_before_log_loses_record:
  assumes "book_candidate E ts issued c sh = Some (r, sh1)" "candidate_fits E ts issued c sh" "accounts_ok 0 (l_window (sh_ledger sh))"
  shows "sh_log sh1 = sh_log sh
    \<and> (\<forall>s. net_position s (l_window (sh_ledger sh1)) = net_position s (l_window (sh_ledger sh)) + moved s r)"
  using candidate_books(4,7) [OF assms] by blast

section \<open>Examples\<close>

definition ex_env :: pool_env where
  "ex_env = \<lparr>ev_ser = \<lambda>_. [], ev_gser = \<lambda>_. [], ev_codecs = ex_codecs, ev_network = Mainnet, ev_params = ex_params\<rparr>"

definition ex_pool :: shared where
  "ex_pool = \<lparr>sh_ledger = ex_ledger\<lparr>l_window := new_window\<rparr>,
     sh_disk = \<lparr>dk_idents = None, dk_credits = None, dk_meta = \<lparr>fl_path = None, fl_bak = None, fl_tmp = None\<rparr>, dk_grace = None\<rparr>,
     sh_blocks = [], sh_log = [], sh_base = None\<rparr>"

text \<open>A block whose stratum fee leaves 7 sats of rebate with nobody to credit.\<close>

definition ex_priced :: coinbaser where
  "ex_priced = \<lparr>cz_value = 1000, cz_payees = [], cz_unpaid = [], cz_rebate_credits = [], cz_rebate_owed_credited = 0,
     cz_rebate_deferred = 7, cz_class_capped = False\<rparr>"

definition ex_candidate :: candidate where
  "ex_candidate = \<lparr>cd_hash = ''aa'', cd_height = 900, cd_kind = Split, cd_value = 1000, cd_paid_at = \<lambda>_. 0, cd_paid_to_pool = 1000,
     cd_finder = ''m'', cd_gateway = ''g''\<rparr>"

definition ex_settlement :: settlement where
  "ex_settlement = (bare ''split'')\<lparr>st_rebate_delta := 7\<rparr>"

lemma ex_settle: "settle Split (Some ex_priced) 1000 (\<lambda>_. 0) = Some ex_settlement"
  by (simp add: settle_def settle_as_issued_def reward_matches_def ex_priced_def issued_delta_def carry_delta_def rebate_delta_def
      reserved_def ex_settlement_def bare_def to_i64_def)

definition ex_books :: books where
  "ex_books = (books_new 0 7)\<lparr>bk_debits_live := True\<rparr>"

lemma ex_book_debits: "book_debits [] (books_new 0 7) (sh_ledger ex_pool) = (ex_books, (sh_ledger ex_pool)\<lparr>l_dirty := True\<rparr>)"
  by (simp add: book_debits_def ex_pool_def ex_books_def books_new_def new_window_def to_i64_def move_def ex_ledger_def)

definition ex_found_record :: block_record where
  "ex_found_record = candidate_record ex_candidate 5 ex_settlement 0 0 [] 0 ex_books"

definition ex_waiting :: shared where
  "ex_waiting = record_block ex_found_record ((sync ex_env (ex_pool\<lparr>sh_ledger := note_debit_applied ''aa'' ((sh_ledger ex_pool)\<lparr>l_dirty := True\<rparr>)\<rparr>))\<lparr>sh_base := None\<rparr>)"

lemma ex_new_window: "accounts_ok 9 new_window" "headroom n new_window \<longleftrightarrow> n \<le> u64_max" "w_rebate_owed new_window = 0"
  by (auto simp: accounts_ok_def ident_ok_def bal_ok_def headroom_def carry_of_def debt_of_def lookup_def new_window_def)

lemma ex_fits: "fits [] 0 7 new_window"
  using ex_new_window accounts_ok_mono [of 9 new_window 0] by (simp add: fits_def delta_ok_def)

lemma ex_pool_window [simp]: "l_window (sh_ledger ex_pool) = new_window" "sh_log ex_pool = []" "sh_blocks ex_pool = []" "sh_base ex_pool = None"
  by (simp_all add: ex_pool_def)

lemma ex_found:
  "on_block_candidate ex_env 5 (Some ex_priced) ex_candidate ex_pool = Some ex_waiting" "candidate_fits ex_env 5 (Some ex_priced) ex_candidate ex_pool"
proof -
  have c: "candidate_coinbaser ex_env 5 (Some ex_priced) ex_candidate new_window = Some (Some ex_priced)"
    "settle (cd_kind ex_candidate) (Some ex_priced) (cd_value ex_candidate) (cd_paid_at ex_candidate) = Some ex_settlement"
    using ex_settle by (simp_all add: candidate_coinbaser_def ex_candidate_def)
  have f: "st_carry_delta ex_settlement = []" "st_carry_placed ex_settlement = []" "st_rebate_credited ex_settlement = 0" "settles ex_settlement"
    "cz_rebate_owed_credited ex_priced = 0" "cz_rebate_deferred ex_priced = 7" "cd_hash ex_candidate = ''aa''"
    by (simp_all add: ex_settlement_def bare_def ex_priced_def settles_def ex_candidate_def)
  show "on_block_candidate ex_env 5 (Some ex_priced) ex_candidate ex_pool = Some ex_waiting"
    by (simp add: on_block_candidate_def book_candidate_def c f book_block_debits_def ex_book_debits Let_def carry_on_record_def
        drawn_credits_def sum_i64_def ex_waiting_def ex_found_record_def) (simp add: ex_books_def books_new_def)
  show "candidate_fits ex_env 5 (Some ex_priced) ex_candidate ex_pool"
    using ex_fits by (simp add: candidate_fits_def c f)
qed

lemma ex_waiting_simps:
  "sh_blocks ex_waiting = [ex_found_record]" "sh_log ex_waiting = [ex_found_record]" "l_window (sh_ledger ex_waiting) = new_window" "sh_base ex_waiting = None"
  "br_hash ex_found_record = ''aa''" "br_height ex_found_record = 900" "br_kind ex_found_record = ''split''" "br_books ex_found_record = Some ex_books" "\<not> br_settled ex_found_record"
  by (simp_all add: ex_waiting_def record_block_def Let_def MAX_BLOCKS_def ex_found_record_def candidate_record_def ex_candidate_def ex_settlement_def bare_def)

lemma ex_settle_room: "settle_room ''aa'' ex_waiting"
  using ex_fits by (simp add: settle_room_def ex_waiting_simps)
    (simp add: ex_found_record_def candidate_record_def ex_books_def books_new_def)

lemma ex_run: "pool_run ex_env new_window ex_waiting"
proof -
  have "pool_run ex_env new_window ex_pool"
    by (rule run_start) (use accounts_ok_mono [OF ex_new_window(1), of 0] in simp_all)
  from run_step [OF this step_candidate [OF ex_found(2) _ ex_found(1)]] show ?thesis by simp
qed


end
