(* ===== verification/Primed_Confirm.thy ===== *)
theory Primed_Confirm
  imports Primed_Blocks
begin

text \<open>
  A pass over the waiting blocks, \<^verbatim>\<open>confirm_blocks\<close> of \<^verbatim>\<open>prime/primed/src/node.rs\<close>: that it comes to an end, whatever the node
  answers, and what it leaves settled. The operations are those of \<open>Primed_Blocks\<close>. A pass can stop only where the source
  panics: on a height near the top of its type, on the sum it writes to the log, on the negation of the least \<^verbatim>\<open>i64\<close>.
\<close>

section \<open>Room for identities\<close>

text \<open>An operation on the window that may intern at most \<open>n\<close> identities.\<close>

definition uses :: "nat \<Rightarrow> (window \<Rightarrow> window) \<Rightarrow> bool" where
  "uses n f \<longleftrightarrow> (\<forall>k w. accounts_ok (n + k) w \<longrightarrow> accounts_ok k (f w))"

lemma usesD: "uses n f \<Longrightarrow> accounts_ok (n + k) w \<Longrightarrow> accounts_ok k (f w)"
  by (simp add: uses_def)

lemma uses_fold: "\<forall>e \<in> set es. uses n (f e) \<Longrightarrow> uses (n * length es) (fold f es)"
proof (induction es)
  case (Cons e es)
  have "accounts_ok k (fold f es (f e w))" if "accounts_ok (n + n * length es + k) w" for k w
    using usesD [of "n * length es" "fold f es" k "f e w"] usesD [of n "f e" "n * length es + k" w] that Cons by (simp add: add.assoc)
  then show ?case by (simp add: uses_def)
qed (simp add: uses_def)

lemma uses_adjust: "uses 1 (\<lambda>w. snd (adjust_carry s d w))"
  by (simp add: uses_def adjust_carry_spec(1))

lemma uses_put_on: "uses 1 (acc.put_on s n)"
  unfolding uses_def
proof (intro allI impI)
  fix k w assume "accounts_ok (1 + k) w"
  then have ok: "accounts_ok (Suc k) (snd (reduce_debt s n w))" by (simp add: acc.reduce_ok)
  show "accounts_ok k (acc.put_on s n w)"
    using acc.adjust_ok [OF ok] acc.ok_Suc [OF ok] by (simp add: acc.put_on_def split: prod.splits) auto
qed

lemma uses_restore_debt:
  assumes "n \<le> u64_max"
  shows "uses 2 (restore_debt s n)"
  unfolding uses_def
proof (intro allI impI)
  fix k w assume "accounts_ok (2 + k) w"
  then have ok: "accounts_ok (Suc (Suc k)) w" by simp
  have w: "accounts_ok (Suc k) w" "accounts_ok k w" "accounts_ok (Suc k) (snd (adjust_carry s d w))" for d
    using acc.adjust_ok [OF ok] accounts_ok_mono [OF ok] by simp_all
  have "accounts_ok k (snd (adjust_carry s d w))" for d using w(3) by (rule accounts_ok_mono) simp
  then show "accounts_ok k (restore_debt s n w)"
    using assms w acc.accrue_ok [OF w(1), of n s] acc.accrue_ok [OF w(3), of "n - x" for x]
    by (auto simp: restore_debt_def Let_def)
qed

lemma rebate_keeps_accounts [simp]: "accounts_ok k (snd (adjust_rebate_owed d w)) = accounts_ok k w"
  by (simp add: adjust_rebate_owed_def Let_def)

lemma uses_settle: "accounts_ok (length es + k) (l_window l) \<Longrightarrow> accounts_ok k (l_window (snd (settle_carry es l)))"
proof -
  have "accounts_ok k (l_window (fst (fold settle_one es (l, out))))" if "accounts_ok (length es + k) (l_window l)" for out
    using that
  proof (induction es arbitrary: l out)
    case (Cons e es)
    obtain s d where e: "e = (s, d)" by (cases e)
    have ok: "accounts_ok (1 + (length es + k)) (l_window l)" using Cons.prems by simp
    obtain l1 o1 where l1: "settle_one e (l, out) = (l1, o1)" by fastforce
    have "accounts_ok (length es + k) (l_window l1)"
      using l1 usesD [OF uses_put_on ok, of s "unsigned_abs d"] usesD [OF uses_adjust ok, of s d] accounts_ok_mono [OF ok, of "length es + k"]
      by (auto simp: settle_one_def e write_ident_def restore_carry_put_on [symmetric] split: if_splits prod.splits)
    then show ?case using Cons.IH l1 by simp
  qed simp
  then show "accounts_ok (length es + k) (l_window l) \<Longrightarrow> accounts_ok k (l_window (snd (settle_carry es l)))"
    by (simp add: settle_carry_def case_prod_beta)
qed

lemma uses_legacy: "accounts_ok (length es + k) (l_window l) \<Longrightarrow> accounts_ok k (l_window (apply_legacy es d l))"
  using uses_settle [of es k l] accounts_ok_mono [of "length es + k" "l_window l" k]
  by (simp add: apply_legacy_def settle_rebate_def case_prod_beta)

subsection \<open>Booking\<close>

lemma debit_window: "fst (debit_one (s, d) (w, b)) = acc.take_off s d w"
  by (simp add: debit_one_def acc.take_off_def Let_def)

lemma debits_room:
  assumes "\<forall>e \<in> set ds. snd e < 0 \<and> unsigned_abs (snd e) \<le> u64_max" "accounts_ok (2 * length ds + k) w"
  shows "accounts_ok k (fst (fold debit_one ds (w, b))) \<and> bk_credited (snd (fold debit_one ds (w, b))) = bk_credited b
    \<and> bk_credits_live (snd (fold debit_one ds (w, b))) = bk_credits_live b"
  using assms
proof (induction ds arbitrary: w b)
  case (Cons e ds)
  obtain s d where e: "e = (s, d)" by (cases e)
  obtain w1 b1 where 1: "debit_one e (w, b) = (w1, b1)" by fastforce
  have ok: "accounts_ok (Suc (Suc (2 * length ds + k))) w" and d: "d < 0" "unsigned_abs d \<le> u64_max" using Cons.prems e by simp_all
  have w1: "w1 = acc.take_off s d w" using debit_window [of s d w b] 1 e by simp
  have b1: "bk_credited b1 = bk_credited b" "bk_credits_live b1 = bk_credits_live b"
    using 1 by (auto simp: debit_one_def e Let_def split: if_splits)
  have ok1: "accounts_ok (2 * length ds + k) w1" unfolding w1 by (rule acc.take_off_carry(4) [OF ok d])
  have ds: "\<forall>e \<in> set ds. snd e < 0 \<and> unsigned_abs (snd e) \<le> u64_max" using Cons.prems by simp
  show ?case using Cons.IH [OF ds ok1, of b1] 1 b1 by simp
qed simp_all

lemma book_debits_room:
  assumes "\<forall>e \<in> set delta. unsigned_abs (snd e) \<le> u64_max" "accounts_ok (2 * length (debits_in delta) + k) (l_window l)"
    and "book_debits delta b l = (b1, l1)"
  shows "accounts_ok k (l_window l1)" "bk_credited b1 = bk_credited b" "bk_credits_live b1 = bk_credits_live b"
proof -
  let ?st = "fold debit_one (debits_in delta) (l_window l, b\<lparr>bk_debited := [], bk_shortfall := []\<rparr>)"
  have ds: "\<forall>e \<in> set (debits_in delta). snd e < 0 \<and> unsigned_abs (snd e) \<le> u64_max" using assms(1) by simp
  note R = debits_room [OF ds assms(2), of "b\<lparr>bk_debited := [], bk_shortfall := []\<rparr>"]
  have k: "accounts_ok k (l_window l)" using assms(2) by (rule accounts_ok_mono) simp
  show "accounts_ok k (l_window l1)" "bk_credited b1 = bk_credited b" "bk_credits_live b1 = bk_credits_live b"
    using assms(3) R k by (auto simp: book_debits_def Let_def case_prod_beta split: if_splits)
qed

lemma credits_room:
  assumes "\<forall>e \<in> set ds. snd e > 0" "accounts_ok (length ds + k) (l_window l)"
  shows "accounts_ok k (l_window (fst (fold credit_one ds (l, b))))
    \<and> amount_all (bk_credited (snd (fold credit_one ds (l, b)))) \<le> amount_all (bk_credited b) + gross ds"
  using assms
proof (induction ds arbitrary: l b)
  case (Cons e ds)
  obtain s d where e: "e = (s, d)" by (cases e)
  obtain l1 b1 where 1: "credit_one e (l, b) = (l1, b1)" by fastforce
  let ?r = "reduce_debt s (unsigned_abs d) (l_window l)" and ?n = "unsigned_abs d"
  have ok: "accounts_ok (Suc (length ds + k)) (l_window l)" using Cons.prems by simp
  have okr: "accounts_ok (Suc (length ds + k)) (snd ?r)" by (rule acc.reduce_ok [OF ok])
  have adj: "accounts_ok (length ds + k) (snd (adjust_carry s x (snd ?r)))" "accounts_ok (length ds + k) (snd ?r)"
    "fst (adjust_carry s (to_i64 y) (snd ?r)) \<le> carry_of s (snd ?r) + y" for x y
    using acc.adjust_ok [OF okr] acc.ok_Suc [OF okr] acc.adjust_fst [OF okr, of s "to_i64 y"] by (auto simp: move_def to_i64_def sat_add64_def)
  have "accounts_ok (length ds + k) (l_window l1) \<and> amount_all (bk_credited b1) \<le> amount_all (bk_credited b) + ?n"
    using 1 adj(1) [of "to_i64 (?n - fst ?r)"] adj(2) adj(3) [of "?n - fst ?r"]
    by (auto simp: credit_one_def e Let_def write_ident_def split: if_splits)
  then have ok1: "accounts_ok (length ds + k) (l_window l1)" and a1: "amount_all (bk_credited b1) \<le> amount_all (bk_credited b) + ?n" by blast+
  have ds: "\<forall>e \<in> set ds. snd e > 0" using Cons.prems by simp
  show ?case using Cons.IH [OF ds ok1, of b1] 1 a1 e by (simp add: gross_def)
qed (simp_all add: gross_def)

lemma book_credits_room:
  assumes "accounts_ok (length (credits_in delta) + k) (l_window l)" "book_credits delta b l = (b1, l1)"
  shows "accounts_ok k (l_window l1)"
    and "amount_all (bk_credited b1) \<le> (if bk_credits_live b then amount_all (bk_credited b) else gross (credits_in delta))"
proof -
  let ?b = "b\<lparr>bk_credited := [], bk_debt_paid := []\<rparr>"
  have ds: "\<forall>e \<in> set (credits_in delta). snd e > 0" by simp
  note R = credits_room [OF ds assms(1), of ?b]
  have k: "accounts_ok k (l_window l)" using assms(1) by (rule accounts_ok_mono) simp
  show "accounts_ok k (l_window l1)"
    "amount_all (bk_credited b1) \<le> (if bk_credits_live b then amount_all (bk_credited b) else gross (credits_in delta))"
    using assms(2) R k by (auto simp: book_credits_def Let_def case_prod_beta split: if_splits)
qed

text \<open>What taking a block off the books may intern: an identity for every entry, two where a debt comes put.\<close>

definition entries_in :: "books \<Rightarrow> nat" where
  "entries_in b = length (bk_credited b) + 2 * length (bk_debt_paid b) + length (bk_debited b) + length (bk_shortfall b)"

lemma uncredit_window: "fst (fold uncredit_one es (w, n)) = fold (\<lambda>e w. snd (adjust_carry (fst e) (- to_i64 (snd e)) w)) es w"
  by (induction es arbitrary: w n) (simp_all add: uncredit_one_def Let_def case_prod_beta)

lemma unbook_room:
  assumes "\<forall>e \<in> set (bk_debt_paid b). snd e \<le> u64_max" "accounts_ok (entries_in b + k) (l_window l)" "unbook b l = (q, b1, l1)"
  shows "accounts_ok k (l_window l1)"
proof -
  let ?w = "l_window l"
  let ?d = "length (bk_debited b) + length (bk_shortfall b) + k"
  let ?un = "fold (\<lambda>e w. snd (adjust_carry (fst e) (- to_i64 (snd e)) w)) (bk_credited b)"
  have un: "uses (length (bk_credited b)) ?un" using uses_fold [of "bk_credited b" 1] uses_adjust by simp
  have rd: "uses (2 * length (bk_debt_paid b)) (fold (\<lambda>e. restore_debt (fst e) (snd e)) (bk_debt_paid b))"
    by (rule uses_fold) (use assms(1) uses_restore_debt in blast)
  have "accounts_ok (2 * length (bk_debt_paid b) + ?d) (?un ?w)"
    by (rule usesD [OF un]) (use assms(2) in \<open>simp add: entries_in_def algebra_simps\<close>)
  from usesD [OF rd this] have c: "accounts_ok ?d (fst (unbook_credits b ?w))"
    by (simp add: unbook_credits_def Let_def case_prod_beta uncredit_window)
  have po: "uses (length es) (fold (\<lambda>e. acc.put_on (fst e) (snd e)) es)" for es
    using uses_fold [of es 1] uses_put_on by simp
  have db: "accounts_ok k (unbook_debits b2 w)" if "accounts_ok ?d w" "bk_debited b2 = bk_debited b" "bk_shortfall b2 = bk_shortfall b" for w b2
    using usesD [OF po, of "bk_shortfall b" k] usesD [OF po, of "bk_debited b" "length (bk_shortfall b) + k" w] that
    by (simp add: unbook_debits_def Let_def fold_put_on add.assoc)
  have w0: "accounts_ok ?d ?w" "accounts_ok k ?w" using accounts_ok_mono [OF assms(2)] by (simp_all add: entries_in_def)
  have "accounts_ok k (fst (unbook_credits b ?w))" using c by (rule accounts_ok_mono) simp
  then show ?thesis using assms(3) c w0 db by (auto simp: unbook_def Let_def case_prod_beta split: if_splits)
qed

section \<open>The pass\<close>

definition waiting :: "u32 \<Rightarrow> block_record \<Rightarrow> bool" where
  "waiting tip r \<longleftrightarrow> \<not> br_settled r \<and> tip < br_height r + (if take 6 (br_kind r) = ''orphan'' then ORPHAN_RECHECK_BLOCKS else 2000)"

definition block_at :: "string \<Rightarrow> shared \<Rightarrow> block_record option" where
  "block_at h sh = map_option (nth (sh_blocks sh)) (last_at h (sh_blocks sh))"

lemma last_at_cong: "map br_hash rs = map br_hash rs' \<Longrightarrow> last_at h rs = last_at h rs'"
proof (induction rs arbitrary: rs')
  case (Cons r rs)
  then obtain r' rs'' where "rs' = r' # rs''" "br_hash r' = br_hash r" "map br_hash rs = map br_hash rs''" by (cases rs') auto
  then show ?case using Cons.IH [of rs''] by (simp split: option.split)
qed simp

lemma last_at_update: "i < length rs \<Longrightarrow> br_hash r = br_hash (rs ! i) \<Longrightarrow> last_at h (rs[i := r]) = last_at h rs"
  by (rule last_at_cong) (simp add: map_update list_update_same_conv)

text \<open>What an update of one block leaves of the list: the block itself changed, every other as it was.\<close>

lemma update_at:
  assumes "last_at h (sh_blocks sh) = Some i" "br_hash r = h" "sh_blocks sh' = (sh_blocks sh)[i := r]"
  shows "block_at h sh' = Some r" "h' \<noteq> h \<Longrightarrow> block_at h' sh' = block_at h' sh" "set (sh_blocks sh') \<subseteq> insert r (set (sh_blocks sh))"
proof -
  note i = last_at_Some [OF assms(1)]
  have l: "last_at x (sh_blocks sh') = last_at x (sh_blocks sh)" for x
    using i last_at_update [of i "sh_blocks sh" r x] assms(2) by (simp add: assms(3))
  show "block_at h sh' = Some r" unfolding block_at_def l using i assms(1) by (simp add: assms(3))
  show "block_at h' sh' = block_at h' sh" if "h' \<noteq> h"
  proof (cases "last_at h' (sh_blocks sh)")
    case (Some j)
    then have "j \<noteq> i" using last_at_Some [OF Some] i that by auto
    then show ?thesis unfolding block_at_def l using Some by (simp add: assms(3))
  qed (simp add: block_at_def l)
  show "set (sh_blocks sh') \<subseteq> insert r (set (sh_blocks sh))" by (simp add: assms(3) set_update_subset_insert)
qed

text \<open>
  The ranges a record has to be in for a pass not to panic on it: its height, the credits it books or has booked, and, in a record from before
  booking in two steps, every amount that an orphan would have to take put. They hold of every record of a block that exists: heights are far from
  \<^verbatim>\<open>u32::MAX\<close>, and all the sats there are fit an \<^verbatim>\<open>i64\<close>.
\<close>

definition record_sane :: "block_record \<Rightarrow> bool" where
  "record_sane r \<longleftrightarrow> br_height r + 2000 \<le> u32_max \<and> list_all (\<lambda>e. unsigned_abs (snd e) \<le> u64_max) (br_carry_delta r)
     \<and> (case br_books r of
          Some b \<Rightarrow> gross (credits_in (br_carry_delta r)) \<le> u64_max \<and> (bk_credits_live b \<longrightarrow> amount_all (bk_credited b) \<le> u64_max)
            \<and> list_all (\<lambda>e. snd e \<le> u64_max) (bk_debt_paid b)
        | None \<Rightarrow> list_all (\<lambda>e. snd e \<noteq> - int i64_max - 1) (br_carry_delta r) \<and> br_rebate_delta r \<noteq> - int i64_max - 1)"

text \<open>The identities that settling or orphaning a record may intern.\<close>

definition room_of :: "block_record \<Rightarrow> nat" where
  "room_of r = 2 * length (br_carry_delta r) + (case br_books r of None \<Rightarrow> 0 | Some b \<Rightarrow> entries_in b)"

lemma delta_split: "length (debits_in d) + length (credits_in d) \<le> length (d :: (string \<times> i64) list)"
  by (induction d) auto

lemma settle_record_room:
  assumes "record_sane r" "accounts_ok (room_of r + k) (l_window l)"
  obtains r' l' where "settle_record r l = (r', Some l')" "accounts_ok k (l_window l')"
proof (cases "br_books r")
  case None
  have "accounts_ok (length (br_carry_delta r) + k) (l_window l)" "accounts_ok k (l_window l)"
    using accounts_ok_mono [OF assms(2)] by (simp_all add: room_of_def)
  then show thesis using that uses_legacy None by (simp add: settle_record_def Let_def)
next
  case (Some b)
  let ?d = "br_carry_delta r"
  obtain b1 l1 where 1: "book_debits ?d b l = (b1, l1)" by fastforce
  obtain b2 l2 where 2: "book_credits ?d b1 l1 = (b2, l2)" by fastforce
  have d: "\<forall>e \<in> set ?d. unsigned_abs (snd e) \<le> u64_max" using assms(1) by (simp add: record_sane_def list_all_iff)
  have "accounts_ok (2 * length (debits_in ?d) + (length (credits_in ?d) + k)) (l_window l)"
    using assms(2) by (rule accounts_ok_mono) (use delta_split [of ?d] in \<open>simp add: room_of_def\<close>)
  note D = book_debits_room [OF d this 1]
  note C = book_credits_room [OF D(1) 2]
  have "amount_all (bk_credited b2) \<le> u64_max"
    using C(2) D(2,3) assms(1) Some by (auto simp: record_sane_def split: if_splits)
  then have "sum_u64 (map snd (bk_credited b2)) \<noteq> None" by (simp add: sum_u64_eq)
  then show thesis using that C(1) Some 1 2 by (auto simp: settle_record_def Let_def)
qed

lemma orphan_record_room:
  assumes "record_sane r" "accounts_ok (room_of r + k) (l_window l)"
  obtains r' l' where "orphan_record r l = (r', Some l')" "br_hash r' = br_hash r" "accounts_ok k (l_window l')"
proof (cases "br_books r")
  case None
  let ?put = "map (\<lambda>(i, d). (i, - d)) (br_carry_delta r)"
  have neg: "those (map (\<lambda>(i, d). map_option (Pair i) (neg_i64 d)) ds) = Some (map (\<lambda>(i, d). (i, - d)) ds)"
    if "list_all (\<lambda>e. snd e \<noteq> - int i64_max - 1) ds" for ds :: "(string \<times> i64) list"
    using that by (induction ds) (auto simp: neg_i64_def)
  have "accounts_ok (length ?put + k) (l_window l)" using assms(2) by (rule accounts_ok_mono) (simp add: room_of_def)
  from uses_legacy [OF this] show thesis
    using that neg [of "br_carry_delta r"] assms(1) None by (simp add: orphan_record_def record_sane_def neg_i64_def Let_def)
next
  case (Some b)
  obtain q b1 l1 where u: "unbook b l = (q, b1, l1)" by (cases "unbook b l")
  have p: "\<forall>e \<in> set (bk_debt_paid b). snd e \<le> u64_max" using assms(1) Some by (simp add: record_sane_def list_all_iff)
  have "accounts_ok (entries_in b + k) (l_window l)" using assms(2) by (rule accounts_ok_mono) (simp add: room_of_def Some)
  from unbook_room [OF p this u] show thesis using that Some u by (simp add: orphan_record_def Let_def)
qed

lemma settle_confirmed_done:
  assumes "block_at h sh = Some r" "record_sane r" "accounts_ok (room_of r + k) (l_window (sh_ledger sh))"
  obtains sh' r' where "settle_confirmed E h sh = Some sh'" "accounts_ok k (l_window (sh_ledger sh'))" "block_at h sh' = Some r'" "finished r'"
    "\<And>h'. h' \<noteq> h \<Longrightarrow> block_at h' sh' = block_at h' sh"
proof -
  obtain i where i: "last_at h (sh_blocks sh) = Some i" and r: "sh_blocks sh ! i = r" using assms(1) by (auto simp: block_at_def)
  obtain r' l' where s: "settle_record r (sh_ledger sh) = (r', Some l')" "accounts_ok k (l_window l')"
    by (rule settle_record_room [OF assms(2,3)]) (rule that)
  define sh' where "sh' = drop_coinbaser_base (sync E (sh\<lparr>sh_blocks := (sh_blocks sh)[i := r'], sh_log := sh_log sh @ [r'], sh_ledger := l'\<rparr>))"
  have c: "settle_confirmed E h sh = Some sh'"
    by (simp add: settle_confirmed_def settle_books_def update_block_def i r s sh'_def)
  have b: "sh_blocks sh' = (sh_blocks sh)[i := r']" by (simp add: sh'_def)
  have h: "br_hash r' = h" using settle_record_done(1) [OF s(1)] last_at_Some [OF i] r by simp
  have w: "accounts_ok k (l_window (sh_ledger sh'))" using s(2) by (simp add: sh'_def)
  note U = update_at [OF i h b]
  show thesis by (rule that [OF c w U(1) settle_record_done(3) [OF s(1)] U(2)])
qed

lemma mark_orphan_done:
  assumes "block_at h sh = Some r" "record_sane r" "accounts_ok (room_of r + k) (l_window (sh_ledger sh))"
  obtains sh' where "mark_orphan E h sh = Some sh'" "accounts_ok k (l_window (sh_ledger sh'))"
    "\<And>h'. h' \<noteq> h \<Longrightarrow> block_at h' sh' = block_at h' sh"
proof (cases "is_orphan (br_kind r)")
  case True
  then have "mark_orphan E h sh = Some sh" using assms(1) by (auto simp: mark_orphan_def block_at_def split: option.split)
  moreover have "accounts_ok k (l_window (sh_ledger sh))" using assms(3) by (rule accounts_ok_mono) simp
  ultimately show thesis using that by blast
next
  case False
  obtain i where i: "last_at h (sh_blocks sh) = Some i" and r: "sh_blocks sh ! i = r" using assms(1) by (auto simp: block_at_def)
  obtain r' l' where s: "orphan_record r (sh_ledger sh) = (r', Some l')" "br_hash r' = br_hash r" "accounts_ok k (l_window l')"
    by (rule orphan_record_room [OF assms(2,3)]) (rule that)
  define sh' where "sh' = drop_coinbaser_base (sync E (sh\<lparr>sh_blocks := (sh_blocks sh)[i := r'], sh_log := sh_log sh @ [r'], sh_ledger := l'\<rparr>))"
  have c: "mark_orphan E h sh = Some sh'" using False by (simp add: mark_orphan_def update_block_def i r s(1) sh'_def)
  have b: "sh_blocks sh' = (sh_blocks sh)[i := r']" by (simp add: sh'_def)
  have h: "br_hash r' = h" using s(2) last_at_Some [OF i] r by simp
  have w: "accounts_ok k (l_window (sh_ledger sh'))" using s(3) by (simp add: sh'_def)
  show thesis by (rule that [OF c w update_at(2) [OF i h b]])
qed

lemma confirm_one_done:
  assumes at: "block_at h sh = Some r" and r: "record_sane r" and ok: "accounts_ok (room_of r + k) (l_window (sh_ledger sh))"
  obtains sh' where "confirm_one E tip reply (h, br_height r) sh = Some sh'" "accounts_ok k (l_window (sh_ledger sh'))"
    "\<And>h'. h' \<noteq> h \<Longrightarrow> block_at h' sh' = block_at h' sh"
    "\<And>c. reply = Confirmations c \<Longrightarrow> c > 0 \<Longrightarrow> \<exists>r'. block_at h sh' = Some r' \<and> finished r'"
proof -
  have "(\<exists>c. reply = Confirmations c \<and> c > 0) \<or> (\<forall>c. reply = Confirmations c \<longrightarrow> c \<le> 0)
    \<and> confirm_one E tip reply (h, br_height r) sh \<in> {mark_orphan E h sh, Some sh}"
    using r by (cases reply) (auto simp: confirm_one_def record_sane_def)
  then consider (settle) c where "reply = Confirmations c" "c > 0"
    | (orphan) "confirm_one E tip reply (h, br_height r) sh = mark_orphan E h sh" "\<And>c. reply = Confirmations c \<Longrightarrow> c \<le> 0"
    | (none) "confirm_one E tip reply (h, br_height r) sh = Some sh" "\<And>c. reply = Confirmations c \<Longrightarrow> c \<le> 0"
    by blast
  then show thesis
  proof cases
    case settle
    obtain sh' r' where s: "settle_confirmed E h sh = Some sh'" "accounts_ok k (l_window (sh_ledger sh'))" "block_at h sh' = Some r'"
      "finished r'" "\<And>h'. h' \<noteq> h \<Longrightarrow> block_at h' sh' = block_at h' sh"
      by (rule settle_confirmed_done [OF at r ok]) (rule that)
    show thesis by (rule that [of sh']) (use s settle in \<open>auto simp: confirm_one_def\<close>)
  next
    case orphan
    obtain sh' where s: "mark_orphan E h sh = Some sh'" "accounts_ok k (l_window (sh_ledger sh'))"
      "\<And>h'. h' \<noteq> h \<Longrightarrow> block_at h' sh' = block_at h' sh"
      by (rule mark_orphan_done [OF at r ok]) (rule that)
    show thesis by (rule that [of sh']) (use s orphan in \<open>force+\<close>)
  next
    case none
    have "accounts_ok k (l_window (sh_ledger sh))" using ok by (rule accounts_ok_mono) simp
    then show thesis using none by (intro that [of sh]) force+
  qed
qed

lemma confirm_loop_done:
  assumes "distinct (map br_hash rs)" "\<forall>r \<in> set rs. block_at (br_hash r) sh = Some r \<and> record_sane r"
    and "accounts_ok (sum_list (map room_of rs)) (l_window (sh_ledger sh))"
  shows "\<exists>sh'. confirm_loop E tip node (map (\<lambda>r. (br_hash r, br_height r)) rs) sh = Some sh'
    \<and> (\<forall>h. h \<notin> br_hash ` set rs \<longrightarrow> block_at h sh' = block_at h sh)
    \<and> (\<forall>r \<in> set rs. \<forall>c > 0. node (br_hash r) = Confirmations c \<longrightarrow> (\<exists>r'. block_at (br_hash r) sh' = Some r' \<and> finished r'))"
  using assms
proof (induction rs arbitrary: sh)
  case (Cons r rs)
  have at: "block_at (br_hash r) sh = Some r" and r: "record_sane r" and ok: "accounts_ok (room_of r + sum_list (map room_of rs)) (l_window (sh_ledger sh))"
    using Cons.prems by simp_all
  obtain sh1 where 1: "confirm_one E tip (node (br_hash r)) (br_hash r, br_height r) sh = Some sh1"
      "accounts_ok (sum_list (map room_of rs)) (l_window (sh_ledger sh1))" "\<And>h'. h' \<noteq> br_hash r \<Longrightarrow> block_at h' sh1 = block_at h' sh"
      "\<And>c. node (br_hash r) = Confirmations c \<Longrightarrow> c > 0 \<Longrightarrow> \<exists>r'. block_at (br_hash r) sh1 = Some r' \<and> finished r'"
    by (rule confirm_one_done [OF at r ok]) (rule that)
  have d: "distinct (map br_hash rs)" "br_hash r \<notin> br_hash ` set rs" using Cons.prems by auto
  have "\<forall>x \<in> set rs. block_at (br_hash x) sh1 = Some x \<and> record_sane x" using Cons.prems d 1(3) by (metis imageI list.set_intros(2))
  from Cons.IH [OF d(1) this 1(2)] obtain sh2 where
    2: "confirm_loop E tip node (map (\<lambda>r. (br_hash r, br_height r)) rs) sh1 = Some sh2" "\<forall>h. h \<notin> br_hash ` set rs \<longrightarrow> block_at h sh2 = block_at h sh1"
      "\<forall>r \<in> set rs. \<forall>c > 0. node (br_hash r) = Confirmations c \<longrightarrow> (\<exists>r'. block_at (br_hash r) sh2 = Some r' \<and> finished r')"
    by blast
  show ?case by (rule exI [of _ sh2]) (use 1 2 d(2) in auto)
qed simp

lemma pending_walk_eq:
  "\<forall>r \<in> set rs. br_height r + 2000 \<le> u32_max \<Longrightarrow>
    pending_walk tip n rs = Some (map (\<lambda>r. (br_hash r, br_height r)) (take n (filter (waiting tip) rs)))"
proof (induction rs arbitrary: n)
  case (Cons r rs)
  then show ?case by (cases n) (simp_all add: waiting_def ORPHAN_RECHECK_BLOCKS_def)
qed simp

lemma block_at_distinct:
  assumes "distinct (map br_hash (sh_blocks sh))" "r \<in> set (sh_blocks sh)"
  shows "block_at (br_hash r) sh = Some r"
proof -
  obtain i where i: "last_at (br_hash r) (sh_blocks sh) = Some i"
    using assms(2) last_at_None [of "br_hash r" "sh_blocks sh"] by (cases "last_at (br_hash r) (sh_blocks sh)") auto
  note I = last_at_Some [OF i]
  then have "sh_blocks sh ! i = r" using assms nth_mem [of i "sh_blocks sh"] by (auto simp: distinct_map dest: inj_onD)
  then show ?thesis by (simp add: block_at_def i)
qed

text \<open>
  C12. A block the node has in its chain gets settled. In any state with one record per hash, every record in the machine's ranges
  (\<open>record_sane\<close>, of records with books and of those from before there were any) and places left in the identity table for what the
  waiting records name, one pass over the waiting blocks comes to an end whatever the node answers; and when no more than twenty wait, every
  waiting block the node reports confirmations for is settled after it, with its credits on the books when it has books.
\<close>

theorem confirmed_block_settles:
  assumes dist: "distinct (map br_hash (sh_blocks sh))" and sane: "\<forall>r \<in> set (sh_blocks sh). record_sane r"
    and room: "accounts_ok (sum_list (map room_of (sh_blocks sh))) (l_window (sh_ledger sh))"
  shows "\<exists>sh'. confirm_blocks E tip node sh = Some sh'
    \<and> (length (filter (waiting tip) (sh_blocks sh)) \<le> 20 \<longrightarrow>
        (\<forall>r \<in> set (sh_blocks sh). \<forall>c > 0. waiting tip r \<longrightarrow> node (br_hash r) = Confirmations c \<longrightarrow>
          (\<exists>r'. block_at (br_hash r) sh' = Some r' \<and> br_settled r' \<and> (\<forall>b. br_books r' = Some b \<longrightarrow> bk_credits_live b))))"
proof -
  let ?all = "filter (waiting tip) (rev (sh_blocks sh))"
  let ?rs = "take 20 ?all"
  have sub: "set ?rs \<subseteq> set (sh_blocks sh)" using set_take_subset [of 20 ?all] by auto
  have d: "distinct (map br_hash ?rs)"
    unfolding take_map [symmetric] by (rule distinct_take, rule distinct_map_filter) (simp add: dist rev_map [symmetric])
  have at: "\<forall>r \<in> set ?rs. block_at (br_hash r) sh = Some r \<and> record_sane r" using sub block_at_distinct [OF dist] sane by blast
  have "sum_list (map room_of ?rs) \<le> sum_list (map room_of ?all)"
    by (metis append_take_drop_id le_add1 map_append sum_list_append)
  also have "\<dots> \<le> sum_list (map room_of (rev (sh_blocks sh)))" by (rule sum_list_filter_le_nat)
  finally have "accounts_ok (sum_list (map room_of ?rs)) (l_window (sh_ledger sh))"
    by (intro accounts_ok_mono [OF room]) (simp add: rev_map [symmetric])
  from confirm_loop_done [OF d at this] obtain sh' where
    1: "confirm_loop E tip node (map (\<lambda>r. (br_hash r, br_height r)) ?rs) sh = Some sh'"
      "\<forall>r \<in> set ?rs. \<forall>c > 0. node (br_hash r) = Confirmations c \<longrightarrow> (\<exists>r'. block_at (br_hash r) sh' = Some r' \<and> finished r')"
    by blast
  have "pending_walk tip 20 (rev (sh_blocks sh)) = Some (map (\<lambda>r. (br_hash r, br_height r)) ?rs)"
    by (rule pending_walk_eq) (use sane in \<open>simp add: record_sane_def\<close>)
  then have "confirm_blocks E tip node sh = Some sh'" using 1(1) by (simp add: confirm_blocks_def)
  moreover have "r \<in> set ?rs" if "length (filter (waiting tip) (sh_blocks sh)) \<le> 20" "r \<in> set (sh_blocks sh)" "waiting tip r" for r
    using that by (simp add: rev_filter [symmetric])
  ultimately show ?thesis using 1(2) unfolding finished_def by blast
qed

text \<open>Two blocks wait: one with books and a miner to credit, and one from before there were books, read as an orphan before.\<close>

definition ex_two :: shared where
  "ex_two = ex_waiting\<lparr>sh_blocks := [ex_found_record\<lparr>br_carry_delta := [(''m'', 5)]\<rparr>,
     ex_found_record\<lparr>br_hash := ''bb'', br_kind := ''orphan:split'', br_carry_delta := [(''n'', -3)], br_books := None\<rparr>]\<rparr>"

lemma confirmed_block_settles_witness:
  "\<exists>sh' r1 r2. confirm_blocks ex_env 901 (\<lambda>_. Confirmations 1) ex_two = Some sh'
     \<and> block_at ''aa'' sh' = Some r1 \<and> br_settled r1 \<and> block_at ''bb'' sh' = Some r2 \<and> br_settled r2"
proof -
  have d: "distinct (map br_hash (sh_blocks ex_two))" by (simp add: ex_two_def ex_waiting_simps)
  have s: "\<forall>r \<in> set (sh_blocks ex_two). record_sane r"
    by (simp add: ex_two_def record_sane_def ex_waiting_simps ex_books_def books_new_def gross_def unsigned_abs_def)
      (simp add: ex_found_record_def candidate_record_def ex_settlement_def)
  have r: "accounts_ok (sum_list (map room_of (sh_blocks ex_two))) (l_window (sh_ledger ex_two))"
    by (rule accounts_ok_mono [of 9]) (use ex_new_window(1) in \<open>simp_all add: ex_two_def room_of_def ex_waiting_simps ex_books_def books_new_def entries_in_def\<close>)
  have w: "\<forall>r \<in> set (sh_blocks ex_two). waiting 901 r" "length (sh_blocks ex_two) = 2" "br_hash ` set (sh_blocks ex_two) = {''aa'', ''bb''}"
    by (simp_all add: waiting_def ex_two_def ex_waiting_simps ORPHAN_RECHECK_BLOCKS_def)
  have f: "filter (waiting 901) (sh_blocks ex_two) = sh_blocks ex_two" using w(1) by simp
  show ?thesis
    using confirmed_block_settles [OF d s r, of ex_env 901 "\<lambda>_. Confirmations 1"] w f
    by (simp add: ex_two_def ex_waiting_simps) (metis zero_less_one)
qed

end
