(* ===== verification/Primed_State.thy ===== *)
theory Primed_State
  imports Wire_Pow Primed_Address "HOL-Library.AList" "HOL-Library.Multiset"
begin

text \<open>
  What the sessions of \<^verbatim>\<open>primed\<close> share, \<^verbatim>\<open>prime/primed/src/state.rs\<close>: the node's tip and what it says about a job, the set of
  shares already credited, the connection limits, the refused gateways and the remembered payouts. A clock reading is an
  argument; an \<^verbatim>\<open>Instant\<close> elapsed is a number of milliseconds. A \<^verbatim>\<open>BTreeMap\<close> is an association list in key order, a
  \<^verbatim>\<open>HashMap\<close> an association list, and \<open>None\<close> the panic of a counter.
\<close>

unbundle bit_operations_syntax

section \<open>Jobs against the tip\<close>

datatype job_check = Current | OtherBranch | AheadByOne | Stale | Ahead | WrongBits

definition taken :: "job_check \<Rightarrow> bool" where
  "taken c \<longleftrightarrow> c \<in> {Current, OtherBranch, AheadByOne}"

record tip =
  tp_height :: u32
  tp_hash_le :: "byte list option"
  tp_parent_le :: "byte list option"
  tp_bits :: "u32 option"
  tp_next_bits :: "u32 option"

text \<open>The target times four: each byte shifted up by two bits, with the bits the byte below it lost.\<close>

fun quad_bytes :: "byte \<Rightarrow> byte list \<Rightarrow> byte list" where
  "quad_bytes c [] = []"
| "quad_bytes c (b # bs) = (push_bit 2 b OR c) # quad_bytes (drop_bit 6 b) bs"

definition easier_than_4x :: "u32 \<Rightarrow> u32 \<Rightarrow> bool" where
  "easier_than_4x nbits tip_bits = (case nbits_to_target_le nbits of None \<Rightarrow> True
     | Some t \<Rightarrow> (case nbits_to_target_le tip_bits of None \<Rightarrow> False
       | Some lim \<Rightarrow> if drop_bit 6 (lim ! 31) \<noteq> 0 then False else \<not> le_from_top (rev t) (rev (quad_bytes 0 lim))))"

text \<open>Which parent and which target the node has for a job of that height, or the verdict that the height gives.\<close>

definition job_reference :: "tip \<Rightarrow> u32 \<Rightarrow> nat \<Rightarrow> nat \<Rightarrow> (job_check + byte list option \<times> u32 option) option" where
  "job_reference T height elapsed grace = do {
     expected \<leftarrow> chk u32_max (tp_height T + 1);
     if height = expected then Some (Inr (tp_hash_le T, tp_next_bits T))
     else do {
       after \<leftarrow> chk u32_max (expected + 1);
       if height = after then Some (Inr (None, tp_next_bits T))
       else if height > expected then Some (Inl Ahead)
       else if height + 1 = expected \<and> elapsed < grace then Some (Inr (tp_parent_le T, tp_bits T))
       else Some (Inl Stale) } }"

definition check_job :: "tip \<Rightarrow> byte list \<Rightarrow> u32 \<Rightarrow> u32 \<Rightarrow> nat \<Rightarrow> nat \<Rightarrow> job_check option" where
  "check_job T prev_hash height nbits elapsed grace = do {
     r \<leftarrow> job_reference T height elapsed grace;
     case r of Inl c \<Rightarrow> Some c
     | Inr (parent, reference) \<Rightarrow>
         let ours = (parent = Some prev_hash);
             exact = (reference = Some nbits);
             possible = (case tp_bits T of None \<Rightarrow> True | Some tip_bits \<Rightarrow> \<not> easier_than_4x nbits tip_bits);
             loose = (reference = None \<or> \<not> ours \<and> height mod 2016 = 0)
         in Some (if \<not> (exact \<or> loose \<and> possible) then WrongBits
           else if ours then Current
           else if height = tp_height T + 2 then AheadByOne
           else OtherBranch) }"

section \<open>Shares seen\<close>

datatype seen_answer = Fresh | Duplicate | Full

record seen_shares =
  sn_by_height :: "(u32 \<times> byte list list) list"
  sn_total :: usize

definition no_shares :: seen_shares where
  "no_shares = \<lparr>sn_by_height = [], sn_total = 0\<rparr>"

definition MAX_PER_HEIGHT :: usize where "MAX_PER_HEIGHT = 1000000"
definition MAX_TOTAL :: usize where "MAX_TOTAL = 2500000"

fun set_height :: "u32 \<Rightarrow> 'a \<Rightarrow> (u32 \<times> 'a) list \<Rightarrow> (u32 \<times> 'a) list" where
  "set_height h s [] = [(h, s)]"
| "set_height h s ((k, x) # xs) = (if h < k then (h, s) # (k, x) # xs else if h = k then (h, s) # xs else (k, x) # set_height h s xs)"

definition at_height :: "u32 \<Rightarrow> seen_shares \<Rightarrow> byte list list" where
  "at_height h S = (case map_of (sn_by_height S) h of None \<Rightarrow> [] | Some s \<Rightarrow> s)"

definition insert_share :: "u32 \<Rightarrow> byte list \<Rightarrow> seen_shares \<Rightarrow> seen_answer \<times> seen_shares" where
  "insert_share h x S = (let s = at_height h S; S1 = S\<lparr>sn_by_height := set_height h s (sn_by_height S)\<rparr> in
     if x \<in> set s then (Duplicate, S1)
     else if length s \<ge> MAX_PER_HEIGHT \<or> sn_total S \<ge> MAX_TOTAL then (Full, S1)
     else (Fresh, \<lparr>sn_by_height = set_height h (x # s) (sn_by_height S), sn_total = sn_total S + 1\<rparr>))"

fun prune_loop :: "u32 \<Rightarrow> (u32 \<times> byte list list) list \<Rightarrow> usize \<Rightarrow> ((u32 \<times> byte list list) list \<times> usize) option" where
  "prune_loop m [] n = Some ([], n)"
| "prune_loop m ((h, s) # xs) n = (if h \<ge> m then Some ((h, s) # xs, n)
     else do { t \<leftarrow> chk_sub n (length s); prune_loop m xs t })"

definition prune_below :: "u32 \<Rightarrow> seen_shares \<Rightarrow> seen_shares option" where
  "prune_below m S = map_option (\<lambda>(b, t). \<lparr>sn_by_height = b, sn_total = t\<rparr>) (prune_loop m (sn_by_height S) (sn_total S))"

section \<open>Connections\<close>

datatype ip = V4 "u8 list" | V6 "u16 list"

definition to_ipv4_mapped :: "u16 list \<Rightarrow> u8 list option" where
  "to_ipv4_mapped s = (if take 6 s = [0, 0, 0, 0, 0, 0xffff]
     then Some [s ! 6 div 256, s ! 6 mod 256, s ! 7 div 256, s ! 7 mod 256] else None)"

fun is_loopback :: "ip \<Rightarrow> bool" where
  "is_loopback (V4 a) \<longleftrightarrow> a ! 0 = 127"
| "is_loopback (V6 s) \<longleftrightarrow> s = [0, 0, 0, 0, 0, 0, 0, 1]"

fun conn_key :: "ip \<Rightarrow> ip" where
  "conn_key (V4 a) = V4 a"
| "conn_key (V6 s) = (case to_ipv4_mapped s of Some a \<Rightarrow> V4 a | None \<Rightarrow> V6 (take 4 s @ replicate (length s - 4) 0))"

record connections =
  cx_per_ip :: "(ip \<times> u32) list"
  cx_total :: u32

definition no_connections :: connections where
  "no_connections = \<lparr>cx_per_ip = [], cx_total = 0\<rparr>"

definition reserved_slots :: "ip \<Rightarrow> u32 \<Rightarrow> u32" where
  "reserved_slots i max_total = (if is_loopback i then 0 else min (max_total div 8) 2)"

definition per_ip :: "ip \<Rightarrow> connections \<Rightarrow> u32" where
  "per_ip k c = (case map_of (cx_per_ip c) k of None \<Rightarrow> 0 | Some n \<Rightarrow> n)"

text \<open>The error, if refused, and the connections after.\<close>

definition admit :: "ip \<Rightarrow> u32 \<Rightarrow> u32 \<Rightarrow> connections \<Rightarrow> string option \<times> connections" where
  "admit i max_total max_per_ip c =
     (if cx_total c \<ge> max_total - reserved_slots i max_total then (Some ''connection limit reached'', c)
      else let k = conn_key i; n = per_ip k c in
        if n \<ge> max_per_ip then (Some ''per-address connection limit reached'', c\<lparr>cx_per_ip := AList.update k n (cx_per_ip c)\<rparr>)
        else (None, \<lparr>cx_per_ip = AList.update k (n + 1) (cx_per_ip c), cx_total = cx_total c + 1\<rparr>))"

definition release :: "ip \<Rightarrow> connections \<Rightarrow> connections" where
  "release i c = (let k = conn_key i in
     \<lparr>cx_per_ip = (case map_of (cx_per_ip c) k of None \<Rightarrow> cx_per_ip c
        | Some n \<Rightarrow> if n - 1 = 0 then AList.delete k (cx_per_ip c) else AList.update k (n - 1) (cx_per_ip c)),
      cx_total = cx_total c - 1\<rparr>)"

section \<open>Class budgets, quarantine and remembered payouts\<close>

definition class_budget_held_off :: "bool \<Rightarrow> u64 \<Rightarrow> u64 \<Rightarrow> bool" where
  "class_budget_held_off held_off c ceil =
     (if ceil = 0 then True else if held_off then c > ceil - ceil div 4 else c \<ge> ceil)"

text \<open>Whether budgets apply, and the flag after.\<close>

definition class_budget_open :: "bool \<Rightarrow> u64 \<Rightarrow> u64 \<Rightarrow> bool \<times> bool" where
  "class_budget_open was c ceil = (let now = class_budget_held_off was c ceil in (\<not> now, now))"

record quarantine =
  qr_until :: u64
  qr_reason :: string
  qr_height :: u32
  qr_strikes :: u32
  qr_last :: u64

record quarantine_cfg =
  qc_minutes :: u64
  qc_max_hours :: u64
  qc_forget_hours :: u64
  qc_blocked :: "string list"

definition sat_mul64 :: "u64 \<Rightarrow> u64 \<Rightarrow> u64" where
  "sat_mul64 a b = min (a * b) u64_max"

definition blocked :: "quarantine_cfg \<Rightarrow> string \<Rightarrow> bool" where
  "blocked cfg key_hex = list_ex (\<lambda>k. let k = trim_str k in
     length k \<ge> 16 \<and> length key_hex \<ge> length k \<and> eq_ignore_ascii_case (take (length k) key_hex) k) (qc_blocked cfg)"

definition quarantined :: "quarantine_cfg \<Rightarrow> string \<Rightarrow> u64 \<Rightarrow> (string \<times> quarantine) list \<Rightarrow> quarantine option" where
  "quarantined cfg key_hex now q =
     (if blocked cfg key_hex then Some \<lparr>qr_until = u64_max, qr_reason = ''listed in blocked-gateways'', qr_height = 0, qr_strikes = 0, qr_last = now\<rparr>
      else case map_of q (to_ascii_lower key_hex) of None \<Rightarrow> None | Some e \<Rightarrow> if qr_until e > now then Some e else None)"

definition quarantine_has_lapsed :: "u64 \<Rightarrow> u64 \<Rightarrow> bool" where
  "quarantine_has_lapsed til at = (til \<le> at)"

definition quarantine_lapsed :: "string \<Rightarrow> u64 \<Rightarrow> (string \<times> quarantine) list \<Rightarrow> bool" where
  "quarantine_lapsed key_hex now q = (case map_of q (to_ascii_lower key_hex) of None \<Rightarrow> False | Some e \<Rightarrow> quarantine_has_lapsed (qr_until e) now)"

text \<open>The seconds refused for (none when the feature is off) and the table after.\<close>

definition quarantine_gateway ::
  "quarantine_cfg \<Rightarrow> string \<Rightarrow> u32 \<Rightarrow> string \<Rightarrow> u64 \<Rightarrow> (string \<times> quarantine) list \<Rightarrow> (u64 option \<times> (string \<times> quarantine) list) option" where
  "quarantine_gateway cfg key_hex height reason ts q = (let first = qc_minutes cfg * 60 in
     if first > u64_max \<or> first = 0 then Some (None, q)
     else let lim = max (sat_mul64 (qc_max_hours cfg) 3600) first;
         forget = max (sat_mul64 (qc_forget_hours cfg) 3600) 3600;
         key = to_ascii_lower key_hex;
         q1 = filter (\<lambda>(k, e). ts - qr_last e < forget) q;
         strikes = (case map_of q1 key of None \<Rightarrow> 1 | Some e \<Rightarrow> if ts - qr_last e < forget then sat_add32 (qr_strikes e) 1 else 1);
         span = min (sat_mul64 first (2 ^ min (strikes - 1) 20)) lim
       in do { til \<leftarrow> chk64 (ts + span);
         Some (Some span, AList.update key \<lparr>qr_until = til, qr_reason = reason, qr_height = height, qr_strikes = strikes, qr_last = ts\<rparr> q1) })"

definition quarantine_list :: "u64 \<Rightarrow> (string \<times> quarantine) list \<Rightarrow> (string \<times> quarantine) list" where
  "quarantine_list ts q = sort_key fst (filter (\<lambda>(k, e). qr_until e > ts) q)"

definition MAX_REMEMBERED_GATEWAYS :: usize where "MAX_REMEMBERED_GATEWAYS = 4096"

text \<open>The payouts by gateway key, identity and script; the file they are written to is not modelled.\<close>

definition remember_gateway :: "string \<Rightarrow> string \<Rightarrow> byte list \<Rightarrow> (string \<times> string \<times> byte list) list \<Rightarrow> (string \<times> string \<times> byte list) list" where
  "remember_gateway key ident script m =
     (if map_of m key = Some (ident, script) then m
      else if length m \<ge> MAX_REMEMBERED_GATEWAYS \<and> map_of m key = None then m
      else AList.update key (ident, script) m)"

definition remember_pinned_script :: "string \<Rightarrow> string list \<Rightarrow> string list" where
  "remember_pinned_script key keys = (if length keys < MAX_REMEMBERED_GATEWAYS then List.insert key keys else keys)"

section \<open>The target of a job\<close>

lemma quad_byte: "unat (push_bit 2 b OR drop_bit 6 p) = unat p div 64 + 4 * (unat b mod 64)" for b p :: byte
  using shifted_byte [of 6 p b] by (simp add: or.commute)

lemma quad_bytes_nat:
  "le_nat (quad_bytes (drop_bit 6 p) bs) + 256 ^ length bs * (unat (last (p # bs)) div 64) = 4 * le_nat bs + unat p div 64"
proof (induction bs arbitrary: p)
  case (Cons b bs)
  have "4 * unat b = 4 * (unat b mod 64) + 256 * (unat b div 64)" using mod_mult_div_eq [of "unat b" 64] by linarith
  moreover have "256 * (le_nat (quad_bytes (drop_bit 6 b) bs) + 256 ^ length bs * (unat (last (b # bs)) div 64))
      = 256 * (4 * le_nat bs + unat b div 64)" by (simp only: Cons.IH)
  ultimately show ?case by (simp add: quad_byte algebra_simps)
qed simp

lemma unat_drop6: "unat (drop_bit 6 b) = unat b div 64" for b :: byte
proof -
  have "unat (drop_bit 6 b) = drop_bit 6 (unat b)" by (rule bit_eqI) (auto simp: bit_simps dest: bit_imp_le_length)
  then show ?thesis by (simp add: drop_bit_eq_div)
qed

lemma quad_bytes_exact:
  assumes "drop_bit 6 (last bs) = 0" "bs \<noteq> []"
  shows "le_nat (quad_bytes 0 bs) = 4 * le_nat bs"
proof -
  have "unat (last bs) div 64 = 0" unfolding unat_drop6 [symmetric] assms(1) by simp
  then show ?thesis using quad_bytes_nat [of 0 bs] assms(2) by simp
qed

lemma length_quad_bytes [simp]: "length (quad_bytes c bs) = length bs"
  by (induction c bs rule: quad_bytes.induct) simp_all

lemma length_place_mant: "place_mant i bs t = Some t' \<Longrightarrow> length t' = length t"
  by (induction i bs t rule: place_mant.induct) (auto split: if_splits)

lemma length_nbits_target: "nbits_to_target_le nbits = Some t \<Longrightarrow> length t = 32"
  by (auto simp: nbits_to_target_le_def Let_def dest: length_place_mant split: if_splits)

lemma top_byte_div:
  assumes "length t = 32"
  shows "unat (t ! 31) = le_nat t div 2 ^ 248"
proof -
  have t: "t = take 31 t @ [t ! 31]" using take_Suc_conv_app_nth [of 31 t] assms by simp
  have "le_nat t = le_nat (take 31 t) + 256 ^ 31 * unat (t ! 31)" using assms by (subst t) (simp add: le_nat_append')
  moreover have "le_nat (take 31 t) < 256 ^ 31" using le_nat_lt [of "take 31 t"] assms by simp
  ultimately show ?thesis by simp
qed

lemma easier_than_4x_nat:
  assumes "nbits_to_target_le tip_bits = Some lim"
  shows "easier_than_4x nbits tip_bits \<longleftrightarrow> (case nbits_to_target_le nbits of None \<Rightarrow> True
    | Some t \<Rightarrow> le_nat lim < 2 ^ 254 \<and> 4 * le_nat lim < le_nat t)"
proof -
  note len = length_nbits_target [OF assms]
  have last: "last lim = lim ! 31" using len by (subst last_conv_nth) auto
  have "unat (lim ! 31) div 64 = le_nat lim div 2 ^ 254" unfolding top_byte_div [OF len] by (simp flip: div_mult2_eq)
  then have top: "drop_bit 6 (lim ! 31) = 0 \<longleftrightarrow> le_nat lim < 2 ^ 254"
    unfolding word_unat_eq_iff unat_drop6 by (simp add: div_eq_0_iff)
  show ?thesis
  proof (cases "nbits_to_target_le nbits")
    case (Some t)
    have "le_from_top (rev t) (rev (quad_bytes 0 lim)) \<longleftrightarrow> le_nat t \<le> 4 * le_nat lim" if "drop_bit 6 (lim ! 31) = 0"
      using le_from_top_nat [of "rev t" "rev (quad_bytes 0 lim)"] length_nbits_target [OF Some] len quad_bytes_exact [of lim] that last
      by (cases lim) auto
    then show ?thesis using Some assms top by (auto simp: easier_than_4x_def)
  qed (simp add: easier_than_4x_def)
qed

text \<open>
  Work is taken only for a block the chain could hold it to. A job that is taken is for the next block, the one after it, or
  within the grace period the tip's own height. Its target is exactly the node's figure for that block; where the node gave no
  figure, or for a retarget block on a parent that is not the node's, it decodes and is at most four times the tip's target,
  unless four times that does not fit 256 bits or the node did not say what the tip's is.
\<close>

theorem check_job_target:
  assumes "check_job T prev_hash height nbits elapsed grace = Some c" "taken c"
  shows "(height = tp_height T + 1 \<or> height = tp_height T + 2 \<or> height = tp_height T \<and> elapsed < grace)
    \<and> (let reference = (if height = tp_height T then tp_bits T else tp_next_bits T);
           parent = (if height = tp_height T + 1 then tp_hash_le T else if height = tp_height T then tp_parent_le T else None) in
       (c = Current \<longleftrightarrow> parent = Some prev_hash) \<and>
       (reference = Some nbits \<or> (reference = None \<or> height mod 2016 = 0 \<and> c \<noteq> Current)
         \<and> (\<forall>tb lim. tp_bits T = Some tb \<longrightarrow> nbits_to_target_le tb = Some lim \<longrightarrow>
             (\<exists>t. nbits_to_target_le nbits = Some t \<and> (le_nat lim < 2 ^ 254 \<longrightarrow> le_nat t \<le> 4 * le_nat lim)))))"
proof -
  obtain parent reference where r: "job_reference T height elapsed grace = Some (Inr (parent, reference))"
    and c: "c = (if \<not> (reference = Some nbits \<or> (reference = None \<or> parent \<noteq> Some prev_hash \<and> height mod 2016 = 0)
        \<and> (case tp_bits T of None \<Rightarrow> True | Some tip_bits \<Rightarrow> \<not> easier_than_4x nbits tip_bits)) then WrongBits
      else if parent = Some prev_hash then Current else if height = tp_height T + 2 then AheadByOne else OtherBranch)"
    using assms unfolding check_job_def Let_def
    by (cases "job_reference T height elapsed grace"; cases "the (job_reference T height elapsed grace)")
      (auto simp: job_reference_def taken_def split: if_splits bind_splits)
  have h: "height = tp_height T + 1 \<or> height = tp_height T + 2 \<or> height = tp_height T \<and> elapsed < grace"
      and ref: "(if height = tp_height T then tp_bits T else tp_next_bits T) = reference"
      and par: "(if height = tp_height T + 1 then tp_hash_le T else if height = tp_height T then tp_parent_le T else None) = parent"
    using r by (auto simp: job_reference_def split: if_splits bind_splits)
  have ne: "c \<noteq> WrongBits" using assms(2) by (auto simp: taken_def)
  have four: "\<not> easier_than_4x nbits tb \<Longrightarrow> nbits_to_target_le tb = Some lim \<Longrightarrow>
      \<exists>t. nbits_to_target_le nbits = Some t \<and> (le_nat lim < 2 ^ 254 \<longrightarrow> le_nat t \<le> 4 * le_nat lim)" for tb lim
    using easier_than_4x_nat [of tb lim nbits] by (auto split: option.splits)
  have cur: "c = Current \<longleftrightarrow> parent = Some prev_hash" using c ne by (auto split: if_splits)
  have tgt: "reference = Some nbits \<or> (reference = None \<or> height mod 2016 = 0 \<and> c \<noteq> Current)
      \<and> (\<forall>tb. tp_bits T = Some tb \<longrightarrow> \<not> easier_than_4x nbits tb)"
    unfolding cur using c ne by (cases "tp_bits T") (auto split: if_splits)
  have "\<forall>tb lim. tp_bits T = Some tb \<longrightarrow> nbits_to_target_le tb = Some lim \<longrightarrow>
      (\<exists>t. nbits_to_target_le nbits = Some t \<and> (le_nat lim < 2 ^ 254 \<longrightarrow> le_nat t \<le> 4 * le_nat lim))"
    if "\<forall>tb. tp_bits T = Some tb \<longrightarrow> \<not> easier_than_4x nbits tb"
    by (intro allI impI four) (use that in simp_all)
  with tgt have "reference = Some nbits \<or> (reference = None \<or> height mod 2016 = 0 \<and> c \<noteq> Current)
      \<and> (\<forall>tb lim. tp_bits T = Some tb \<longrightarrow> nbits_to_target_le tb = Some lim \<longrightarrow>
          (\<exists>t. nbits_to_target_le nbits = Some t \<and> (le_nat lim < 2 ^ 254 \<longrightarrow> le_nat t \<le> 4 * le_nat lim)))"
    by argo
  then show ?thesis unfolding Let_def ref par by (intro conjI h cur)
qed

section \<open>A share is credited once\<close>

definition seen_set_ok :: "seen_shares \<Rightarrow> bool" where
  "seen_set_ok S \<longleftrightarrow> sorted_wrt (<) (map fst (sn_by_height S)) \<and> sn_total S = sum_list (map (length \<circ> snd) (sn_by_height S))
     \<and> sn_total S \<le> MAX_TOTAL \<and> (\<forall>h s. (h, s) \<in> set (sn_by_height S) \<longrightarrow> distinct s \<and> length s \<le> MAX_PER_HEIGHT)"

lemma set_height_keys: "fst ` set (set_height h s xs) = insert h (fst ` set xs)"
  by (induction h s xs rule: set_height.induct) auto

lemma set_height_subset: "set (set_height h s xs) \<subseteq> insert (h, s) (set xs)"
  by (induction h s xs rule: set_height.induct) auto

lemma set_height_sorted: "sorted_wrt (<) (map fst xs) \<Longrightarrow> sorted_wrt (<) (map fst (set_height h s xs))"
proof (induction h s xs rule: set_height.induct)
  case (2 h s k x xs)
  then show ?case using set_height_keys [of h s xs] by fastforce
qed simp

lemma set_height_get: "sorted_wrt (<) (map fst xs) \<Longrightarrow> map_of (set_height h s xs) k = (if k = h then Some s else map_of xs k)"
  by (induction h s xs rule: set_height.induct) (auto simp: map_of_eq_None_iff)

lemma set_height_sum:
  "sorted_wrt (<) (map fst xs) \<Longrightarrow> sum_list (map (length \<circ> snd) (set_height h s xs)) + (case map_of xs h of None \<Rightarrow> 0 | Some y \<Rightarrow> length y)
    = sum_list (map (length \<circ> snd) xs) + length s"
proof (induction h s xs rule: set_height.induct)
  case (2 h s k x xs)
  have "map_of xs h = None" if "h < k" using 2(2) that by (force simp: map_of_eq_None_iff)
  then show ?case using 2 by (auto split: option.splits)
qed simp

lemma insert_share_ok:
  assumes S: "seen_set_ok S" and i: "insert_share h x S = (r, S')"
  shows "seen_set_ok S'" "set (at_height k S) \<subseteq> set (at_height k S')" "r \<noteq> Full \<Longrightarrow> x \<in> set (at_height h S')"
    "r = Duplicate \<longleftrightarrow> x \<in> set (at_height h S)"
proof -
  let ?s = "at_height h S" and ?xs = "sn_by_height S"
  have srt: "sorted_wrt (<) (map fst ?xs)" using S by (simp add: seen_set_ok_def)
  have len: "(case map_of ?xs h of None \<Rightarrow> 0 | Some y \<Rightarrow> length y) = length ?s" by (simp add: at_height_def split: option.split)
  note sum = set_height_sum [OF srt, of h, unfolded len]
  have s: "distinct ?s" "length ?s \<le> MAX_PER_HEIGHT"
    using S by (auto simp: at_height_def seen_set_ok_def dest: map_of_SomeD split: option.split)
  have get: "at_height k (S\<lparr>sn_by_height := set_height h y ?xs\<rparr>) = (if k = h then y else at_height k S)" for k y
    by (simp add: at_height_def set_height_get [OF srt])
  have get': "at_height k \<lparr>sn_by_height = set_height h y ?xs, sn_total = n\<rparr> = (if k = h then y else at_height k S)" for k y n
    by (simp add: at_height_def set_height_get [OF srt])
  have old: "seen_set_ok (S\<lparr>sn_by_height := set_height h ?s ?xs\<rparr>)"
    using S s sum [of ?s] set_height_sorted [OF srt] set_height_subset [of h ?s ?xs] by (auto simp: seen_set_ok_def)
  have new: "seen_set_ok \<lparr>sn_by_height = set_height h (x # ?s) ?xs, sn_total = sn_total S + 1\<rparr>"
    if "x \<notin> set ?s" "length ?s < MAX_PER_HEIGHT" "sn_total S < MAX_TOTAL"
    using S s sum [of "x # ?s"] set_height_sorted [OF srt] set_height_subset [of h "x # ?s" ?xs] that by (auto simp: seen_set_ok_def)
  show "seen_set_ok S'" using i old new by (auto simp: insert_share_def Let_def not_le split: if_splits)
  show "set (at_height k S) \<subseteq> set (at_height k S')" "r \<noteq> Full \<Longrightarrow> x \<in> set (at_height h S')" "r = Duplicate \<longleftrightarrow> x \<in> set (at_height h S)"
    using i by (auto simp: insert_share_def Let_def get get' split: if_splits)
qed

lemma prune_loop_ok:
  assumes "sorted_wrt (<) (map fst xs)" "n = sum_list (map (length \<circ> snd) xs)"
  shows "\<exists>ys. prune_loop m xs n = Some (ys, sum_list (map (length \<circ> snd) ys)) \<and> ys = filter (\<lambda>e. m \<le> fst e) xs"
  using assms
proof (induction m xs n rule: prune_loop.induct)
  case (2 m h s xs n)
  show ?case
  proof (cases "m \<le> h")
    case True
    then have "filter (\<lambda>e. m \<le> fst e) xs = xs" using 2(2) by (intro filter_True) force
    then show ?thesis using True 2(3) by simp
  next
    case False
    then show ?thesis using 2 by simp
  qed
qed simp

lemma sorted_wrt_map_filter: "sorted_wrt (<) (map fst xs) \<Longrightarrow> sorted_wrt (<) (map fst (filter P xs))"
  by (induction xs) auto

lemma map_of_filter_height: "P k \<Longrightarrow> map_of (filter (\<lambda>e. P (fst e)) xs) k = map_of xs k"
  by (induction xs) auto

lemma prune_below_ok:
  assumes S: "seen_set_ok S"
  obtains S' where "prune_below m S = Some S'" "seen_set_ok S'" "\<And>k. m \<le> k \<Longrightarrow> at_height k S' = at_height k S"
proof -
  let ?ys = "filter (\<lambda>e. m \<le> fst e) (sn_by_height S)"
  have p: "prune_loop m (sn_by_height S) (sn_total S) = Some (?ys, sum_list (map (length \<circ> snd) ?ys))"
    using prune_loop_ok [of "sn_by_height S" "sn_total S" m] S by (simp add: seen_set_ok_def)
  have le: "sum_list (map (length \<circ> snd) ?ys) \<le> sum_list (map (length \<circ> snd) (sn_by_height S))"
    by (rule sum_list_filter_le_nat)
  show thesis
  proof (rule that)
    show "prune_below m S = Some \<lparr>sn_by_height = ?ys, sn_total = sum_list (map (length \<circ> snd) ?ys)\<rparr>"
      unfolding prune_below_def p by simp
  qed (use S le in \<open>auto simp: seen_set_ok_def sorted_wrt_map_filter at_height_def map_of_filter_height\<close>)
qed

datatype seen_op = See u32 "byte list" | Prune u32

fun seen_run :: "seen_op list \<Rightarrow> seen_shares \<Rightarrow> seen_shares option" where
  "seen_run [] S = Some S"
| "seen_run (See h x # ops) S = seen_run ops (snd (insert_share h x S))"
| "seen_run (Prune m # ops) S = do { S' \<leftarrow> prune_below m S; seen_run ops S' }"

lemma seen_run_ok:
  "seen_set_ok S \<Longrightarrow> \<exists>S'. seen_run ops S = Some S' \<and> seen_set_ok S' \<and> (\<forall>h. (\<forall>m. Prune m \<in> set ops \<longrightarrow> m \<le> h) \<longrightarrow> set (at_height h S) \<subseteq> set (at_height h S'))"
proof (induction ops S rule: seen_run.induct)
  case (2 h x ops S)
  obtain r S1 where i: "insert_share h x S = (r, S1)" by fastforce
  note I = insert_share_ok [OF 2(2) i]
  from 2(1) I(1) i obtain S2 where S2: "seen_run ops S1 = Some S2" "seen_set_ok S2"
    "\<And>h. (\<forall>m. Prune m \<in> set ops \<longrightarrow> m \<le> h) \<Longrightarrow> set (at_height h S1) \<subseteq> set (at_height h S2)" by (metis snd_conv)
  have "set (at_height k S) \<subseteq> set (at_height k S2)" if "\<forall>m. Prune m \<in> set (See h x # ops) \<longrightarrow> m \<le> k" for k
    using I(2) [of k] S2(3) [of k] that by simp
  then show ?case using S2(1,2) i by simp
next
  case (3 m ops S)
  obtain S1 where S1: "prune_below m S = Some S1" "seen_set_ok S1" "\<And>k. m \<le> k \<Longrightarrow> at_height k S1 = at_height k S"
    by (rule prune_below_ok [OF 3(2), of m]) (rule that)
  from 3(1) [OF S1(1,2)] obtain S2 where S2: "seen_run ops S1 = Some S2" "seen_set_ok S2"
    "\<And>h. (\<forall>m. Prune m \<in> set ops \<longrightarrow> m \<le> h) \<Longrightarrow> set (at_height h S1) \<subseteq> set (at_height h S2)" by blast
  have "set (at_height h S) \<subseteq> set (at_height h S2)" if "\<forall>m'. Prune m' \<in> set (Prune m # ops) \<longrightarrow> m' \<le> h" for h
    using S1(3) [of h] S2(3) [of h] that by simp
  then show ?case using S1(1) S2(1,2) by simp
qed simp

text \<open>
  C15. A share is credited once. The set never panics, holds each share of a height once and never more than its caps; a share it has
  answered for (new or duplicate) is a duplicate every later time it is sent, whatever else is sent in between, as long as its
  height is not pruned away.
\<close>

theorem share_credited_once:
  assumes "seen_run pre no_shares = Some S" "insert_share h x S = (r, S1)" "r \<noteq> Full"
    and "\<forall>m. Prune m \<in> set mid \<longrightarrow> m \<le> h"
  shows "\<exists>S2. seen_run mid S1 = Some S2 \<and> fst (insert_share h x S2) = Duplicate
    \<and> sn_total S2 = sum_list (map (length \<circ> snd) (sn_by_height S2)) \<and> sn_total S2 \<le> 2500000
    \<and> (\<forall>(k, s) \<in> set (sn_by_height S2). distinct s \<and> length s \<le> 1000000)"
proof -
  have "seen_set_ok no_shares" by (simp add: seen_set_ok_def no_shares_def)
  from seen_run_ok [OF this, of pre] assms(1) have S: "seen_set_ok S" by simp
  note I = insert_share_ok [OF S assms(2)]
  obtain S2 where S2: "seen_run mid S1 = Some S2" "seen_set_ok S2" "set (at_height h S1) \<subseteq> set (at_height h S2)"
    using seen_run_ok [OF I(1), of mid] assms(4) by blast
  have "x \<in> set (at_height h S2)" using I(3) assms(3) S2(3) by blast
  then have "fst (insert_share h x S2) = Duplicate" using insert_share_ok(4) [OF S2(2), of h x] by (metis prod.collapse)
  then show ?thesis using S2 by (auto simp: seen_set_ok_def MAX_TOTAL_def MAX_PER_HEIGHT_def)
qed

section \<open>Connection limits\<close>

text \<open>The connections open, after any admissions, refusals and releases of open connections.\<close>

inductive live :: "u32 \<Rightarrow> u32 \<Rightarrow> ip multiset \<Rightarrow> connections \<Rightarrow> bool" for mt mp where
  live_none: "live mt mp {#} no_connections"
| live_admit: "live mt mp M c \<Longrightarrow> admit i mt mp c = (None, c') \<Longrightarrow> live mt mp (add_mset i M) c'"
| live_refuse: "live mt mp M c \<Longrightarrow> admit i mt mp c = (Some e, c') \<Longrightarrow> live mt mp M c'"
| live_release: "live mt mp (add_mset i M) c \<Longrightarrow> live mt mp M (release i c)"

definition from_key :: "ip \<Rightarrow> ip multiset \<Rightarrow> nat" where
  "from_key k M = size (filter_mset (\<lambda>i. conn_key i = k) M)"

definition strangers :: "ip multiset \<Rightarrow> nat" where
  "strangers M = size (filter_mset (\<lambda>i. \<not> is_loopback i) M)"

definition conns_ok :: "u32 \<Rightarrow> u32 \<Rightarrow> ip multiset \<Rightarrow> connections \<Rightarrow> bool" where
  "conns_ok mt mp M c \<longleftrightarrow> distinct (map fst (cx_per_ip c)) \<and> cx_total c = size M \<and> size M \<le> mt
     \<and> (\<forall>k. per_ip k c = from_key k M \<and> from_key k M \<le> mp) \<and> strangers M \<le> mt - min (mt div 8) 2"

lemma from_key_add [simp]: "from_key k (add_mset i M) = from_key k M + (if conn_key i = k then 1 else 0)"
  by (simp add: from_key_def)

lemma strangers_add [simp]: "strangers (add_mset i M) = strangers M + (if is_loopback i then 0 else 1)"
  by (simp add: strangers_def)

lemma strangers_le: "strangers M \<le> size M"
  by (simp add: strangers_def size_filter_mset_lesseq)

lemma live_ok: "live mt mp M c \<Longrightarrow> conns_ok mt mp M c"
proof (induction rule: live.induct)
  case live_none
  then show ?case by (simp add: conns_ok_def no_connections_def per_ip_def from_key_def strangers_def)
next
  case (live_admit M c i c')
  then have ok: "conns_ok mt mp M c" and lt: "cx_total c < mt - reserved_slots i mt" "per_ip (conn_key i) c < mp"
    and c': "c' = \<lparr>cx_per_ip = AList.update (conn_key i) (per_ip (conn_key i) c + 1) (cx_per_ip c), cx_total = cx_total c + 1\<rparr>"
    by (auto simp: admit_def Let_def split: if_splits)
  have get: "per_ip k c' = per_ip k c + (if conn_key i = k then 1 else 0)" for k
    by (simp add: c' per_ip_def AList.update_conv')
  show ?case
    using ok lt strangers_le [of M] get
    by (auto simp: conns_ok_def c' AList.distinct_update reserved_slots_def Suc_le_eq split: if_splits)
next
  case (live_refuse M c i e c')
  then have "c' = c \<or> c' = c\<lparr>cx_per_ip := AList.update (conn_key i) (per_ip (conn_key i) c) (cx_per_ip c)\<rparr>"
    by (auto simp: admit_def Let_def split: if_splits)
  moreover have "per_ip k (c\<lparr>cx_per_ip := AList.update j (per_ip j c) (cx_per_ip c)\<rparr>) = per_ip k c" for k j
    by (simp add: per_ip_def AList.update_conv')
  ultimately have "distinct (map fst (cx_per_ip c')) \<and> cx_total c' = cx_total c \<and> (\<forall>k. per_ip k c' = per_ip k c)"
    using live_refuse.IH by (auto simp: conns_ok_def AList.distinct_update)
  then show ?case using live_refuse.IH by (simp add: conns_ok_def)
next
  case (live_release i M c)
  then have n: "per_ip (conn_key i) c = from_key (conn_key i) M + 1" by (simp add: conns_ok_def)
  have get: "per_ip k (release i c) = (if k = conn_key i then per_ip k c - 1 else per_ip k c)" for k
    using n by (auto simp: release_def per_ip_def Let_def AList.update_conv' AList.delete_conv' split: option.splits)
  have d: "distinct (map fst (cx_per_ip (release i c)))" "cx_total (release i c) = cx_total c - 1"
    using live_release.IH by (auto simp: release_def Let_def conns_ok_def AList.distinct_update AList.distinct_delete split: option.split)
  have le: "from_key k M \<le> mp" for k
    using live_release.IH unfolding conns_ok_def from_key_add by (metis add_leD1)
  show ?case using live_release.IH d get le by (auto simp: conns_ok_def split: if_splits)
qed

text \<open>
  The connection limits hold whatever connects and disconnects, in any order: the counters are exactly the connections open,
  never more than \<open>mt\<close> of them and never more than \<open>mp\<close> from one IPv4 address or one IPv6 /64, and connections that are not
  from loopback never fill the slots kept for the pool's own gateway.
\<close>

theorem connection_limits:
  assumes "live mt mp M c"
  shows "cx_total c = size M \<and> size M \<le> mt
    \<and> (\<forall>k. size (filter_mset (\<lambda>i. conn_key i = k) M) \<le> mp \<and> per_ip k c = size (filter_mset (\<lambda>i. conn_key i = k) M))
    \<and> size (filter_mset (\<lambda>i. \<not> is_loopback i) M) \<le> mt - min (mt div 8) 2"
  using live_ok [OF assms] unfolding conns_ok_def from_key_def strangers_def by blast

text \<open>
  A loopback connection that arrives as an IPv4-mapped IPv6 address, as it does on a listener bound to the IPv6 wildcard, is
  counted with its IPv4 address but not as loopback: it is refused the slots that are kept for it.
\<close>

lemma mapped_loopback_is_stranger:
  "conn_key (V6 [0, 0, 0, 0, 0, 0xffff, 0x7f00, 1]) = V4 [127, 0, 0, 1] \<and> is_loopback (V4 [127, 0, 0, 1])
   \<and> fst (admit (V4 [127, 0, 0, 1]) 16 4 \<lparr>cx_per_ip = [], cx_total = 14\<rparr>) = None
   \<and> fst (admit (V6 [0, 0, 0, 0, 0, 0xffff, 0x7f00, 1]) 16 4 \<lparr>cx_per_ip = [], cx_total = 14\<rparr>) = Some ''connection limit reached''"
  by (simp add: to_ipv4_mapped_def admit_def reserved_slots_def per_ip_def Let_def)

section \<open>Quarantine\<close>

text \<open>
  A gateway that keeps failing is refused for twice as long each time, up to the cap. With the feature on and a clock that has
  room, a gateway with \<open>k\<close> strikes not yet forgotten is refused for the first span doubled \<open>k\<close> times (at most twenty), no longer
  than the cap and no shorter than the first span; from then on it is refused at every time before the end of the span and
  admitted at its end, and the strike is counted.
\<close>

theorem quarantine_doubles:
  assumes on: "0 < qc_minutes cfg" "qc_minutes cfg * 60 \<le> u64_max" and clock: "ts + span \<le> u64_max"
    and e: "map_of q (to_ascii_lower key) = Some e" "qr_strikes e = k" "0 < k" "k < u32_max"
      "ts - qr_last e < max (sat_mul64 (qc_forget_hours cfg) 3600) 3600" and dist: "distinct (map fst q)"
    and span: "span = min (qc_minutes cfg * 60 * 2 ^ min k 20) (max (sat_mul64 (qc_max_hours cfg) 3600) (qc_minutes cfg * 60))"
  shows "\<exists>q'. quarantine_gateway cfg key height reason ts q = Some (Some span, q')
    \<and> qc_minutes cfg * 60 \<le> span
    \<and> (\<forall>t. \<not> blocked cfg key \<longrightarrow> (quarantined cfg key t q' \<noteq> None \<longleftrightarrow> t < ts + span) \<and> quarantine_lapsed key t q' = (ts + span \<le> t))
    \<and> map_option qr_strikes (map_of q' (to_ascii_lower key)) = Some (k + 1)"
proof -
  let ?first = "qc_minutes cfg * 60" and ?lim = "max (sat_mul64 (qc_max_hours cfg) 3600) (qc_minutes cfg * 60)"
  let ?forget = "max (sat_mul64 (qc_forget_hours cfg) 3600) 3600" and ?key = "to_ascii_lower key"
  let ?q1 = "filter (\<lambda>(k, e). ts - qr_last e < ?forget) q"
  have q1: "map_of ?q1 ?key = Some e"
    using e(1,5) dist map_of_SomeD [OF e(1)] by (intro map_of_is_SomeI) (auto simp: distinct_map_filter)
  have lim: "?lim \<le> u64_max" using on(2) by (simp add: sat_mul64_def)
  have s: "min (sat_mul64 ?first (2 ^ min (k + 1 - 1) 20)) ?lim = span" using lim unfolding span sat_mul64_def by (simp only: min.assoc min_absorb2 diff_add_inverse2)
  have strikes: "(case map_of ?q1 ?key of None \<Rightarrow> 1 | Some e \<Rightarrow> if ts - qr_last e < ?forget then sat_add32 (qr_strikes e) 1 else 1) = k + 1"
    using e q1 by (simp add: sat_add32_def)
  let ?e = "\<lparr>qr_until = ts + span, qr_reason = reason, qr_height = height, qr_strikes = k + 1, qr_last = ts\<rparr>"
  have r: "quarantine_gateway cfg key height reason ts q = Some (Some span, AList.update ?key ?e ?q1)"
    unfolding quarantine_gateway_def Let_def strikes s using on clock by simp
  have "?first \<le> span" by (simp add: span)
  then show ?thesis
    using r by (auto simp: quarantined_def quarantine_lapsed_def quarantine_has_lapsed_def AList.update_conv')
qed

section \<open>Examples\<close>

definition ex_tip :: tip where
  "ex_tip = \<lparr>tp_height = 100, tp_hash_le = Some [1], tp_parent_le = Some [2], tp_bits = Some 0x1d00ffff, tp_next_bits = Some 0x1d00ffff\<rparr>"

lemma check_job_target_witness:
  "check_job ex_tip [1] 101 0x1d00ffff 50 30 = Some Current \<and> tp_next_bits ex_tip = Some 0x1d00ffff"
proof -
  have c: "check_job ex_tip [1] 101 0x1d00ffff 50 30 = Some Current"
    by (simp add: check_job_def job_reference_def ex_tip_def Let_def)
  show ?thesis using check_job_target [OF c] c by (auto simp: taken_def ex_tip_def)
qed

lemma share_credited_once_witness:
  "\<exists>S2. seen_run [See 7 [1], Prune 5] \<lparr>sn_by_height = [(7, [[9]])], sn_total = 1\<rparr> = Some S2 \<and> fst (insert_share 7 [9] S2) = Duplicate"
proof -
  have r: "seen_run [] no_shares = Some no_shares" by simp
  have i: "insert_share 7 [9] no_shares = (Fresh, \<lparr>sn_by_height = [(7, [[9]])], sn_total = 1\<rparr>)"
    by (simp add: insert_share_def no_shares_def at_height_def MAX_PER_HEIGHT_def MAX_TOTAL_def)
  show ?thesis using share_credited_once [OF r i, of "[See 7 [1], Prune 5]"] by auto
qed

lemma connection_limits_witness:
  "live 16 2 (add_mset (V4 [1, 2, 3, 4]) {#}) \<lparr>cx_per_ip = [(V4 [1, 2, 3, 4], 1)], cx_total = 1\<rparr>
   \<and> size (filter_mset (\<lambda>i. \<not> is_loopback i) (add_mset (V4 [1, 2, 3, 4]) {#})) \<le> 14"
proof -
  have a: "admit (V4 [1, 2, 3, 4]) 16 2 no_connections = (None, \<lparr>cx_per_ip = [(V4 [1, 2, 3, 4], 1)], cx_total = 1\<rparr>)"
    by (simp add: admit_def no_connections_def reserved_slots_def per_ip_def Let_def)
  have l: "live 16 2 (add_mset (V4 [1, 2, 3, 4]) {#}) \<lparr>cx_per_ip = [(V4 [1, 2, 3, 4], 1)], cx_total = 1\<rparr>"
    by (rule live_admit [OF live_none a])
  show ?thesis using l connection_limits [OF l] by simp
qed

definition ex_quarantine_cfg :: quarantine_cfg where
  "ex_quarantine_cfg = \<lparr>qc_minutes = 10, qc_max_hours = 24, qc_forget_hours = 72, qc_blocked = []\<rparr>"

definition ex_quarantine :: quarantine where
  "ex_quarantine = \<lparr>qr_until = 900, qr_reason = [], qr_height = 4, qr_strikes = 1, qr_last = 300\<rparr>"

lemma quarantine_doubles_witness:
  "\<exists>q'. quarantine_gateway ex_quarantine_cfg [] 5 [] 1000 [([], ex_quarantine)] = Some (Some 1200, q')"
proof -
  have "\<exists>q'. quarantine_gateway ex_quarantine_cfg [] 5 [] 1000 [([], ex_quarantine)] = Some (Some 1200, q')
    \<and> qc_minutes ex_quarantine_cfg * 60 \<le> 1200
    \<and> (\<forall>t. \<not> blocked ex_quarantine_cfg [] \<longrightarrow> (quarantined ex_quarantine_cfg [] t q' \<noteq> None \<longleftrightarrow> t < 1000 + 1200)
        \<and> quarantine_lapsed [] t q' = (1000 + 1200 \<le> t))
    \<and> map_option qr_strikes (map_of q' (to_ascii_lower [])) = Some (1 + 1)"
    by (rule quarantine_doubles [where e = ex_quarantine])
      (simp_all add: ex_quarantine_cfg_def ex_quarantine_def to_ascii_lower_def sat_mul64_def)
  then show ?thesis by blast
qed

end
