(* ===== verification/Primed_Validity.thy ===== *)
theory Primed_Validity
  imports Primed_Address "HOL-Library.AList" "HOL-Library.Sublist"
begin

text \<open>
  Work that can never become a valid block, \<^verbatim>\<open>prime/primed/src/validity.rs\<close>: what the node says of a parent that is not the
  tip, and which gateways build templates the node refuses. The node's replies are arguments; an \<^verbatim>\<open>Instant\<close> is a number
  of milliseconds, a reading of the wall clock one of seconds; a \<^verbatim>\<open>HashMap\<close> is an association list.
\<close>

unbundle bit_operations_syntax

section \<open>Parents\<close>

definition PARENT_GRACE :: nat where "PARENT_GRACE = 30 * 1000"
definition PARENT_RECHECK :: nat where "PARENT_RECHECK = 10 * 1000"
definition PARENT_MAX :: usize where "PARENT_MAX = 4096"
definition PARENT_KEEP :: nat where "PARENT_KEEP = 6 * 3600 * 1000"

datatype parent_state = PUnknown | PKnown | PUnseen | PInvalid

record parent_entry =
  pe_state :: parent_state
  pe_first_seen :: nat
  pe_asked :: "nat option"

datatype parent_ruling = Take | Invalid | Unseen

type_synonym parent_book = "(byte list \<times> parent_entry) list"

definition verdict :: "parent_entry \<Rightarrow> nat \<Rightarrow> parent_ruling" where
  "verdict e at = (case pe_state e of PInvalid \<Rightarrow> Invalid
     | PUnseen \<Rightarrow> if at - pe_first_seen e \<ge> PARENT_GRACE then Unseen else Take | _ \<Rightarrow> Take)"

definition make_parent_room :: "byte list \<Rightarrow> nat \<Rightarrow> parent_book \<Rightarrow> parent_book" where
  "make_parent_room prev at es =
     (if length es \<ge> PARENT_MAX \<and> map_of es prev = None then
        let es1 = filter (\<lambda>(k, e). at - pe_first_seen e < PARENT_KEEP) es in
        if length es1 \<ge> PARENT_MAX then [] else es1
      else es)"

definition parent_lookup :: "byte list \<Rightarrow> nat \<Rightarrow> parent_book \<Rightarrow> (parent_ruling \<times> bool) \<times> parent_book" where
  "parent_lookup prev at es = (let es1 = make_parent_room prev at es;
       e = (case map_of es1 prev of Some e \<Rightarrow> e | None \<Rightarrow> \<lparr>pe_state = PUnknown, pe_first_seen = at, pe_asked = None\<rparr>);
       ask = (pe_state e \<noteq> PInvalid \<and> (case pe_asked e of None \<Rightarrow> True | Some t \<Rightarrow> at - t \<ge> PARENT_RECHECK));
       e1 = (if ask then e\<lparr>pe_asked := Some at\<rparr> else e)
     in ((verdict e1 at, ask), AList.update prev e1 es1))"

definition record_answer :: "byte list \<Rightarrow> parent_state \<Rightarrow> nat \<Rightarrow> parent_book \<Rightarrow> parent_ruling \<times> parent_book" where
  "record_answer prev st at es = (let
       e = (case map_of es prev of Some e \<Rightarrow> e | None \<Rightarrow> \<lparr>pe_state = st, pe_first_seen = at, pe_asked = Some at\<rparr>);
       e1 = (if pe_state e \<noteq> PInvalid \<and> st \<noteq> PUnknown then e\<lparr>pe_state := st\<rparr> else e)
     in (verdict e1 at, AList.update prev e1 es))"

text \<open>The node's reply to \<^verbatim>\<open>getblockheader\<close>, and the chain tips (hash and status) if it gave them.\<close>

datatype header_reply = HeaderKnown | HeaderError int | HeaderFailed

fun node_says :: "string \<Rightarrow> header_reply \<Rightarrow> (string option \<times> string option) list option \<Rightarrow> parent_state" where
  "node_says hash HeaderKnown tips = (case tips of None \<Rightarrow> PKnown
     | Some ts \<Rightarrow> if list_ex (\<lambda>(h, s). h = Some hash \<and> s = Some ''invalid'') ts then PInvalid else PKnown)"
| "node_says hash (HeaderError code) tips = (if code = -5 then PUnseen else PUnknown)"
| "node_says hash HeaderFailed tips = PUnknown"

definition parent_verdict :: "string \<Rightarrow> header_reply \<Rightarrow> (string option \<times> string option) list option \<Rightarrow> byte list \<Rightarrow> nat \<Rightarrow> parent_book
    \<Rightarrow> parent_ruling \<times> parent_book" where
  "parent_verdict hash hdr tips prev at es = (case parent_lookup prev at es of ((known, ask), es1) \<Rightarrow>
     if \<not> ask then (known, es1) else record_answer prev (node_says hash hdr tips) at es1)"

section \<open>Faulted gateways\<close>

definition template_fault :: "string \<Rightarrow> bool" where
  "template_fault reason = (let r = trim_str reason in prefix ''bad-txns-'' r \<or> r = ''bad-blk-sigops'')"

definition faults_at_once :: "string \<Rightarrow> bool" where
  "faults_at_once reason = prefix ''bad-txns-premature-spend-of-coinbase'' (trim_str reason)"

definition job_token :: "u8 \<Rightarrow> u32 \<Rightarrow> u32" where
  "job_token job_id height = take_bit 32 (push_bit 24 job_id) OR (height AND 0x00ffffff)"

record fault =
  ft_reason :: string
  ft_height :: u32
  ft_since_ts :: u64
  ft_found_by :: string

record faults =
  fl_by_key :: "(string \<times> fault) list"
  fl_pending :: "(string \<times> u32) list"
  fl_ttl_secs :: u64

definition with_ttl :: "u64 \<Rightarrow> faults" where
  "with_ttl s = \<lparr>fl_by_key = [], fl_pending = [], fl_ttl_secs = s\<rparr>"

definition ttl :: "faults \<Rightarrow> u64" where
  "ttl F = (if fl_ttl_secs F = 0 then u64_max else fl_ttl_secs F)"

definition get_fault_at :: "string \<Rightarrow> u64 \<Rightarrow> u64 \<Rightarrow> faults \<Rightarrow> fault option \<times> faults" where
  "get_fault_at key at ttl_secs F =
     (if (case map_of (fl_by_key F) key of None \<Rightarrow> False | Some f \<Rightarrow> ttl_secs < u64_max \<and> at - ft_since_ts f \<ge> ttl_secs)
      then (None, F\<lparr>fl_by_key := AList.delete key (fl_by_key F)\<rparr>)
      else (map_of (fl_by_key F) key, F))"

definition get_fault :: "string \<Rightarrow> u64 \<Rightarrow> faults \<Rightarrow> fault option \<times> faults" where
  "get_fault key now F = get_fault_at key now (ttl F) F"

definition set_at :: "string \<Rightarrow> string \<Rightarrow> u32 \<Rightarrow> string \<Rightarrow> u64 \<Rightarrow> faults \<Rightarrow> bool \<times> faults" where
  "set_at key reason height found_by at F =
     (map_of (fl_by_key F) key = None,
      F\<lparr>fl_pending := AList.delete key (fl_pending F),
        fl_by_key := AList.update key \<lparr>ft_reason = reason, ft_height = height, ft_since_ts = at, ft_found_by = found_by\<rparr> (fl_by_key F)\<rparr>)"

definition note_fail :: "string \<Rightarrow> string \<Rightarrow> u32 \<Rightarrow> u32 \<Rightarrow> string \<Rightarrow> u64 \<Rightarrow> faults \<Rightarrow> bool \<times> faults" where
  "note_fail key reason job height found_by now F = (case get_fault key now F of (g, F1) \<Rightarrow>
     if g \<noteq> None \<or> faults_at_once reason then set_at key reason height found_by now F1
     else case map_of (fl_pending F1) key of
       Some prev \<Rightarrow> if prev \<noteq> job then set_at key reason height found_by now F1 else (False, F1)
     | None \<Rightarrow> (False, F1\<lparr>fl_pending := AList.update key job (fl_pending F1)\<rparr>))"

definition clear_fault :: "string \<Rightarrow> faults \<Rightarrow> fault option \<times> faults" where
  "clear_fault key F = (map_of (fl_by_key F) key,
     F\<lparr>fl_pending := AList.delete key (fl_pending F), fl_by_key := AList.delete key (fl_by_key F)\<rparr>)"

definition all_at :: "u64 \<Rightarrow> u64 \<Rightarrow> faults \<Rightarrow> (string \<times> fault) list \<times> faults" where
  "all_at at ttl_secs F = (let m = (if ttl_secs < u64_max then filter (\<lambda>(k, f). at - ft_since_ts f < ttl_secs) (fl_by_key F) else fl_by_key F)
     in (sort_key fst m, F\<lparr>fl_by_key := m\<rparr>))"

section \<open>No parent is refused on a guess\<close>

datatype parent_event = PLook "byte list" nat | PAns "byte list" parent_state nat

inductive parents_after :: "parent_event list \<Rightarrow> parent_book \<Rightarrow> bool" where
  parents_none: "parents_after [] []"
| parents_look: "parents_after h es \<Longrightarrow> parents_after (h @ [PLook p t]) (snd (parent_lookup p t es))"
| parents_answer: "parents_after h es \<Longrightarrow> parents_after (h @ [PAns p s t]) (snd (record_answer p s t es))"

definition entry_from :: "parent_event list \<Rightarrow> byte list \<Rightarrow> parent_entry \<Rightarrow> bool" where
  "entry_from h p e \<longleftrightarrow> (PLook p (pe_first_seen e) \<in> set h \<or> (\<exists>s. PAns p s (pe_first_seen e) \<in> set h))
     \<and> (pe_state e \<in> {PInvalid, PUnseen} \<longrightarrow> (\<exists>t. PAns p (pe_state e) t \<in> set h))"

definition book_from :: "parent_event list \<Rightarrow> parent_book \<Rightarrow> bool" where
  "book_from h es \<longleftrightarrow> (\<forall>p e. (p, e) \<in> set es \<longrightarrow> entry_from h p e)"

lemma entry_from_mono: "entry_from h p e \<Longrightarrow> set h \<subseteq> set h' \<Longrightarrow> entry_from h' p e"
  unfolding entry_from_def by blast

lemma book_from_mono: "book_from h es \<Longrightarrow> set h \<subseteq> set h' \<Longrightarrow> book_from h' es"
  unfolding book_from_def using entry_from_mono by blast

lemma book_from_room: "book_from h es \<Longrightarrow> book_from h (make_parent_room p t es)"
  by (auto simp: book_from_def make_parent_room_def Let_def)

lemma book_from_update: "book_from h es \<Longrightarrow> entry_from h p e \<Longrightarrow> book_from h (AList.update p e es)"
  unfolding book_from_def using set_alist_update [of p e es] by blast

lemma parent_lookup_from:
  assumes "book_from h es"
  shows "book_from (h @ [PLook p t]) (snd (parent_lookup p t es))"
proof -
  let ?es = "make_parent_room p t es" and ?h = "h @ [PLook p t]"
  have b: "book_from ?h ?es" using book_from_mono [OF book_from_room [OF assms, of p t], of ?h] by auto
  let ?e = "case map_of ?es p of Some e \<Rightarrow> e | None \<Rightarrow> \<lparr>pe_state = PUnknown, pe_first_seen = t, pe_asked = None\<rparr>"
  have "entry_from ?h p ?e"
  proof (cases "map_of ?es p")
    case None
    then show ?thesis by (simp add: entry_from_def)
  next
    case (Some e)
    then show ?thesis using b map_of_SomeD [OF Some] by (simp add: book_from_def)
  qed
  then have "entry_from ?h p (if a then ?e\<lparr>pe_asked := Some t\<rparr> else ?e)" for a by (simp add: entry_from_def)
  then show ?thesis unfolding parent_lookup_def Let_def snd_conv by (intro book_from_update b)
qed

lemma record_from:
  assumes "book_from h es"
  shows "book_from (h @ [PAns p s t]) (snd (record_answer p s t es))"
proof -
  let ?h = "h @ [PAns p s t]"
  have b: "book_from ?h es" using book_from_mono [OF assms, of ?h] by auto
  let ?e = "case map_of es p of Some e \<Rightarrow> e | None \<Rightarrow> \<lparr>pe_state = s, pe_first_seen = t, pe_asked = Some t\<rparr>"
  have e: "entry_from ?h p ?e"
  proof (cases "map_of es p")
    case None
    then show ?thesis by (auto simp: entry_from_def)
  next
    case (Some e)
    then show ?thesis using b map_of_SomeD [OF Some] by (simp add: book_from_def)
  qed
  then have "entry_from ?h p (if a then ?e\<lparr>pe_state := s\<rparr> else ?e)" for a by (auto simp: entry_from_def)
  then show ?thesis unfolding record_answer_def Let_def snd_conv by (intro book_from_update b)
qed

lemma parents_from: "parents_after h es \<Longrightarrow> book_from h es"
  by (induction rule: parents_after.induct) (simp_all add: book_from_def [of "[]"] parent_lookup_from record_from)

lemma parent_lookup_verdict:
  "fst (fst (parent_lookup p t es)) = (case map_of (make_parent_room p t es) p of None \<Rightarrow> Take | Some e \<Rightarrow> verdict e t)"
  by (auto simp: parent_lookup_def Let_def verdict_def split: option.split)

text \<open>
  No parent is refused on a guess. After any lookups and answers, work on a parent is refused as invalid only if the node said
  it is, and as unseen only if the node said it had never seen it and at least thirty seconds have passed since the parent
  first came up. A parent known to be invalid is not asked about again, and no later answer changes that.
\<close>

theorem parent_refused_on_evidence:
  assumes "parents_after h es"
  shows "(fst (fst (parent_lookup p t es)) = Invalid \<longrightarrow> (\<exists>t'. PAns p PInvalid t' \<in> set h))
    \<and> (fst (fst (parent_lookup p t es)) = Unseen \<longrightarrow> (\<exists>t'. PAns p PUnseen t' \<in> set h)
        \<and> (\<exists>t0. t0 + 30000 \<le> t \<and> (PLook p t0 \<in> set h \<or> (\<exists>s. PAns p s t0 \<in> set h))))
    \<and> (fst (fst (parent_lookup p t es)) = Invalid \<longrightarrow> \<not> snd (fst (parent_lookup p t es)) \<and> (\<forall>s. fst (record_answer p s t (snd (parent_lookup p t es))) = Invalid))"
proof -
  have b: "book_from h (make_parent_room p t es)" by (rule book_from_room [OF parents_from [OF assms]])
  show ?thesis
  proof (cases "map_of (make_parent_room p t es) p")
    case None
    then show ?thesis by (simp add: parent_lookup_verdict)
  next
    case (Some e)
    have e: "entry_from h p e" using b map_of_SomeD [OF Some] by (simp add: book_from_def)
    have v: "fst (fst (parent_lookup p t es)) = verdict e t" using Some by (simp add: parent_lookup_verdict)
    have "pe_state e = PInvalid \<Longrightarrow> \<not> snd (fst (parent_lookup p t es)) \<and> (\<forall>s. fst (record_answer p s t (snd (parent_lookup p t es))) = Invalid)"
      using Some by (simp add: parent_lookup_def record_answer_def Let_def verdict_def AList.update_conv')
    moreover have "verdict e t = Invalid \<longleftrightarrow> pe_state e = PInvalid" "verdict e t = Unseen \<longleftrightarrow> pe_state e = PUnseen \<and> pe_first_seen e + 30000 \<le> t"
      by (auto simp: verdict_def PARENT_GRACE_def split: parent_state.splits)
    ultimately show ?thesis using e unfolding v entry_from_def by auto
  qed
qed

section \<open>No gateway is faulted on one slip\<close>

lemma job_token_eq:
  assumes "i < 256" "j < 256"
  shows "job_token i h = job_token j k \<longleftrightarrow> i = j \<and> h mod 2 ^ 24 = k mod 2 ^ 24"
proof -
  have tok: "job_token i h = 2 ^ 24 * i + h mod 2 ^ 24" if "i < 256" for i h
  proof -
    have m: "(0x00ffffff :: nat) = mask 24" by (simp add: mask_eq_exp_minus_1)
    have "take_bit 32 (push_bit 24 i) = push_bit 24 i"
      using that by (simp add: push_bit_eq_mult take_bit_nat_eq_self)
    moreover have "push_bit 24 i OR take_bit 24 h = push_bit 24 i + take_bit 24 h"
      by (rule disjunctive_add [symmetric]) (auto simp: bit_simps)
    ultimately show ?thesis by (simp add: job_token_def m take_bit_eq_mask [symmetric] push_bit_eq_mult take_bit_eq_mod)
  qed
  show ?thesis unfolding tok [OF assms(1)] tok [OF assms(2)]
  proof
    assume eq: "2 ^ 24 * i + h mod 2 ^ 24 = 2 ^ 24 * j + k mod 2 ^ 24"
    then have "(2 ^ 24 * i + h mod 2 ^ 24) div 2 ^ 24 = (2 ^ 24 * j + k mod 2 ^ 24) div 2 ^ 24" by simp
    then have "i = j" by simp
    then show "i = j \<and> h mod 2 ^ 24 = k mod 2 ^ 24" using eq by simp
  qed simp
qed

datatype fault_event = FFail string string u32 | FClear string | FGet string | FAll

inductive faults_after :: "u64 \<Rightarrow> fault_event list \<Rightarrow> faults \<Rightarrow> bool" for s where
  faults_none: "faults_after s [] (with_ttl s)"
| faults_fail: "faults_after s h F \<Longrightarrow> faults_after s (h @ [FFail key reason job]) (snd (note_fail key reason job height found now F))"
| faults_clear: "faults_after s h F \<Longrightarrow> faults_after s (h @ [FClear key]) (snd (clear_fault key F))"
| faults_get: "faults_after s h F \<Longrightarrow> faults_after s (h @ [FGet key]) (snd (get_fault key now F))"
| faults_all: "faults_after s h F \<Longrightarrow> faults_after s (h @ [FAll]) (snd (all_at now (ttl F) F))"

text \<open>One failing check on a job, with no passing check of the gateway since.\<close>

definition failed_since :: "fault_event list \<Rightarrow> string \<Rightarrow> u32 \<Rightarrow> bool" where
  "failed_since h key job \<longleftrightarrow> (\<exists>a reason b. h = a @ FFail key reason job # b \<and> FClear key \<notin> set b)"

definition faulty :: "fault_event list \<Rightarrow> string \<Rightarrow> bool" where
  "faulty h key \<longleftrightarrow> (\<exists>a reason job c. h = a @ FFail key reason job # c \<and> FClear key \<notin> set c
     \<and> (faults_at_once reason \<or> (\<exists>job'. failed_since a key job' \<and> job' \<noteq> job)))"

lemma failed_since_snoc: "failed_since h key job \<Longrightarrow> x \<noteq> FClear key \<Longrightarrow> failed_since (h @ [x]) key job"
proof -
  assume "failed_since h key job" and x: "x \<noteq> FClear key"
  then obtain a reason b where "h = a @ FFail key reason job # b" "FClear key \<notin> set b" by (auto simp: failed_since_def)
  then show ?thesis using x unfolding failed_since_def by (intro exI [of _ a] exI [of _ reason] exI [of _ "b @ [x]"]) auto
qed

lemma failed_since_now: "failed_since (h @ [FFail key reason job]) key job"
  unfolding failed_since_def by (intro exI [of _ h] exI [of _ reason] exI [of _ "[]"]) simp

lemma faulty_snoc: "faulty h key \<Longrightarrow> x \<noteq> FClear key \<Longrightarrow> faulty (h @ [x]) key"
proof -
  assume "faulty h key" and x: "x \<noteq> FClear key"
  then obtain a reason job c where "h = a @ FFail key reason job # c" "FClear key \<notin> set c"
    "faults_at_once reason \<or> (\<exists>job'. failed_since a key job' \<and> job' \<noteq> job)" unfolding faulty_def by blast
  then show ?thesis using x unfolding faulty_def
    by (intro exI [of _ a] exI [of _ reason] exI [of _ job] exI [of _ "c @ [x]"]) auto
qed

lemma faulty_now:
  "faults_at_once reason \<Longrightarrow> faulty (h @ [FFail key reason job]) key"
  "failed_since h key job' \<Longrightarrow> job' \<noteq> job \<Longrightarrow> faulty (h @ [FFail key reason job]) key"
  unfolding faulty_def by (intro exI [of _ h] exI [of _ reason] exI [of _ job] exI [of _ "[]"], auto)+

definition faults_from :: "fault_event list \<Rightarrow> faults \<Rightarrow> bool" where
  "faults_from h F \<longleftrightarrow> (\<forall>key f. map_of (fl_by_key F) key = Some f \<longrightarrow> faulty h key)
     \<and> (\<forall>key job. map_of (fl_pending F) key = Some job \<longrightarrow> failed_since h key job)"

lemma get_fault_simps:
  "fl_pending (snd (get_fault key now F)) = fl_pending F" "fst (get_fault key now F) \<noteq> None \<Longrightarrow> map_of (fl_by_key F) key \<noteq> None"
  "map_of (fl_by_key (snd (get_fault key now F))) k \<noteq> None \<Longrightarrow> map_of (fl_by_key F) k \<noteq> None"
  by (auto simp: get_fault_def get_fault_at_def AList.delete_conv' split: if_splits option.splits)

lemma set_at_simps:
  "map_of (fl_by_key (snd (set_at key reason height found now F))) k \<noteq> None \<longleftrightarrow> k = key \<or> map_of (fl_by_key F) k \<noteq> None"
  "map_of (fl_pending (snd (set_at key reason height found now F))) k = (if k = key then None else map_of (fl_pending F) k)"
  by (auto simp: set_at_def AList.update_conv' AList.delete_conv')

lemma faults_fromD:
  assumes "faults_from h F"
  shows "map_of (fl_by_key F) k \<noteq> None \<Longrightarrow> faulty h k" "map_of (fl_pending F) k = Some j \<Longrightarrow> failed_since h k j"
  using assms by (auto simp: faults_from_def)

lemma faults_fromI:
  assumes "\<And>k. map_of (fl_by_key F) k \<noteq> None \<Longrightarrow> faulty h k" "\<And>k j. map_of (fl_pending F) k = Some j \<Longrightarrow> failed_since h k j"
  shows "faults_from h F"
  using assms by (auto simp: faults_from_def)

lemma set_at_from:
  assumes F: "faults_from h F" and f: "faulty (h @ [FFail key reason job]) key"
  shows "faults_from (h @ [FFail key reason job]) (snd (set_at key reason height found now F))"
proof (rule faults_fromI)
  fix k assume "map_of (fl_by_key (snd (set_at key reason height found now F))) k \<noteq> None"
  then show "faulty (h @ [FFail key reason job]) k"
    unfolding set_at_simps using f faulty_snoc [OF faults_fromD(1) [OF F]] by (metis fault_event.distinct(1))
next
  fix k j assume "map_of (fl_pending (snd (set_at key reason height found now F))) k = Some j"
  then have "failed_since h k j" unfolding set_at_simps using faults_fromD(2) [OF F] by (metis option.discI)
  then show "failed_since (h @ [FFail key reason job]) k j" by (rule failed_since_snoc) simp
qed

lemma note_fail_from:
  assumes F: "faults_from h F"
  shows "faults_from (h @ [FFail key reason job]) (snd (note_fail key reason job height found now F))"
proof -
  obtain g F1 where g: "get_fault key now F = (g, F1)" by fastforce
  note G = get_fault_simps [of key now F, unfolded g fst_conv snd_conv]
  have F1: "faults_from h F1" using F G by (intro faults_fromI) (auto intro: faults_fromD)
  show ?thesis
  proof (cases "g \<noteq> None \<or> faults_at_once reason")
    case True
    then have "faulty (h @ [FFail key reason job]) key"
      using faulty_now(1) faulty_snoc faults_fromD(1) [OF F] G(2) by blast
    from set_at_from [OF F1 this] show ?thesis using True g by (simp add: note_fail_def)
  next
    case False
    show ?thesis
    proof (cases "map_of (fl_pending F1) key")
      case None
      have "faults_from (h @ [FFail key reason job]) (F1\<lparr>fl_pending := AList.update key job (fl_pending F1)\<rparr>)"
      proof (rule faults_fromI)
        fix k assume "map_of (fl_by_key (F1\<lparr>fl_pending := AList.update key job (fl_pending F1)\<rparr>)) k \<noteq> None"
        then show "faulty (h @ [FFail key reason job]) k" using faulty_snoc [OF faults_fromD(1) [OF F1]] by simp
      next
        fix k j assume "map_of (fl_pending (F1\<lparr>fl_pending := AList.update key job (fl_pending F1)\<rparr>)) k = Some j"
        then show "failed_since (h @ [FFail key reason job]) k j"
          using failed_since_now failed_since_snoc [OF faults_fromD(2) [OF F1]] by (auto simp: AList.update_conv' split: if_splits)
      qed
      then show ?thesis using False None g by (simp add: note_fail_def)
    next
      case (Some prev)
      note ps = faults_fromD(2) [OF F1 Some]
      have same: "faults_from (h @ [FFail key reason job]) F1"
        using faulty_snoc failed_since_snoc faults_fromD [OF F1] by (intro faults_fromI) auto
      have "prev \<noteq> job \<Longrightarrow> faults_from (h @ [FFail key reason job]) (snd (set_at key reason height found now F1))"
        by (rule set_at_from [OF F1 faulty_now(2) [OF ps]])
      then show ?thesis using False Some g same by (simp add: note_fail_def)
    qed
  qed
qed

lemma faults_after_from: "faults_after s h F \<Longrightarrow> faults_from h F"
proof (induction rule: faults_after.induct)
  case faults_none
  then show ?case by (simp add: faults_from_def with_ttl_def)
next
  case (faults_fail h F key reason job height found now)
  then show ?case by (intro note_fail_from)
next
  case (faults_clear h F key)
  show ?case
    using faulty_snoc [OF faults_fromD(1) [OF faults_clear.IH]] failed_since_snoc [OF faults_fromD(2) [OF faults_clear.IH]]
    by (intro faults_fromI) (auto simp: clear_fault_def AList.delete_conv' split: if_splits)
next
  case (faults_get h F key now)
  show ?case
    using faulty_snoc [OF faults_fromD(1) [OF faults_get.IH]] failed_since_snoc [OF faults_fromD(2) [OF faults_get.IH]] get_fault_simps [of key now F]
    by (intro faults_fromI) auto
next
  case (faults_all h F now)
  let ?F = "snd (all_at now (ttl F) F)"
  have "fst ` set (fl_by_key ?F) \<subseteq> fst ` set (fl_by_key F)" "fl_pending ?F = fl_pending F" by (auto simp: all_at_def Let_def)
  then have sub: "map_of (fl_by_key ?F) k \<noteq> None \<Longrightarrow> map_of (fl_by_key F) k \<noteq> None" "map_of (fl_pending ?F) k = map_of (fl_pending F) k" for k
    unfolding map_of_eq_None_iff by auto
  show ?case
  proof (rule faults_fromI)
    fix k assume "map_of (fl_by_key ?F) k \<noteq> None"
    then show "faulty (h @ [FAll]) k" by (intro faulty_snoc faults_fromD(1) [OF faults_all.IH] sub(1)) simp_all
  next
    fix k j assume "map_of (fl_pending ?F) k = Some j"
    then show "failed_since (h @ [FAll]) k j" by (intro failed_since_snoc faults_fromD(2) [OF faults_all.IH]) (simp_all add: sub(2))
  qed
qed

text \<open>
  C31. No gateway's work is refused for one slip of assembly. After any failed template checks, clearings (a check that passed, a quarantine that
  lapsed) and looks at the book, with the faults that expire on the way, a gateway is faulted only if since it was last cleared a check failed it
  for a premature coinbase spend, or two checks failed it on different jobs (a different slot, or a height that differs in its low 24 bits);
  and once cleared it is not faulted.
\<close>

theorem fault_needs_evidence:
  assumes "faults_after s h F"
  shows "(fst (get_fault key now F) \<noteq> None \<longrightarrow> (\<exists>a r job b. h = a @ FFail key r job # b \<and> FClear key \<notin> set b
      \<and> (faults_at_once r \<or> (\<exists>b1 r' job' b2. b = b1 @ FFail key r' job' # b2 \<and> job' \<noteq> job))))
    \<and> fst (get_fault key now (snd (clear_fault key F))) = None"
proof
  show "fst (get_fault key now F) \<noteq> None \<longrightarrow> (\<exists>a r job b. h = a @ FFail key r job # b \<and> FClear key \<notin> set b
      \<and> (faults_at_once r \<or> (\<exists>b1 r' job' b2. b = b1 @ FFail key r' job' # b2 \<and> job' \<noteq> job)))"
  proof
    assume "fst (get_fault key now F) \<noteq> None"
    then have "faulty h key" using faults_fromD(1) [OF faults_after_from [OF assms]] get_fault_simps(2) by blast
    then obtain a r job c where h: "h = a @ FFail key r job # c" "FClear key \<notin> set c"
      and e: "faults_at_once r \<or> (\<exists>job'. failed_since a key job' \<and> job' \<noteq> job)" unfolding faulty_def by blast
    from e show "\<exists>a r job b. h = a @ FFail key r job # b \<and> FClear key \<notin> set b
      \<and> (faults_at_once r \<or> (\<exists>b1 r' job' b2. b = b1 @ FFail key r' job' # b2 \<and> job' \<noteq> job))"
    proof
      assume "\<exists>job'. failed_since a key job' \<and> job' \<noteq> job"
      then obtain job' a' r' b where "a = a' @ FFail key r' job' # b" "FClear key \<notin> set b" "job' \<noteq> job" by (auto simp: failed_since_def)
      with h show ?thesis by (intro exI [of _ a'] exI [of _ r'] exI [of _ job'] exI [of _ "b @ FFail key r job # c"]) auto
    qed (use h in blast)
  qed
  show "fst (get_fault key now (snd (clear_fault key F))) = None"
    by (simp add: get_fault_def get_fault_at_def clear_fault_def AList.delete_conv')
qed

section \<open>Examples\<close>

lemma parent_refused_on_evidence_witness:
  "parents_after ([] @ [PAns [1] PInvalid 5]) [([1], \<lparr>pe_state = PInvalid, pe_first_seen = 5, pe_asked = Some 5\<rparr>)]
   \<and> fst (fst (parent_lookup [1] 9 [([1], \<lparr>pe_state = PInvalid, pe_first_seen = 5, pe_asked = Some 5\<rparr>)])) = Invalid
   \<and> (\<exists>t'. PAns [1] PInvalid t' \<in> set ([] @ [PAns [1] PInvalid 5]))"
proof -
  have r: "snd (record_answer [1] PInvalid 5 []) = [([1], \<lparr>pe_state = PInvalid, pe_first_seen = 5, pe_asked = Some 5\<rparr>)]"
    by (simp add: record_answer_def Let_def)
  have p: "parents_after ([] @ [PAns [1] PInvalid 5]) [([1], \<lparr>pe_state = PInvalid, pe_first_seen = 5, pe_asked = Some 5\<rparr>)]"
    using parents_answer [OF parents_none, of "[1]" PInvalid 5] unfolding r .
  have "fst (fst (parent_lookup [1] 9 [([1], \<lparr>pe_state = PInvalid, pe_first_seen = 5, pe_asked = Some 5\<rparr>)])) = Invalid"
    by (simp add: parent_lookup_verdict make_parent_room_def PARENT_MAX_def verdict_def)
  then show ?thesis using p parent_refused_on_evidence [OF p, of "[1]" 9] by blast
qed

text \<open>Two failures on different jobs fault a gateway.\<close>

lemma fault_needs_evidence_witness:
  "\<exists>F. faults_after 0 [FFail ''k'' ''bad-txns-x'' 3, FFail ''k'' ''bad-txns-x'' 4] F \<and> fst (get_fault ''k'' 9 F) \<noteq> None
     \<and> fst (get_fault ''k'' 9 (snd (clear_fault ''k'' F))) = None"
proof -
  let ?F1 = "snd (note_fail ''k'' ''bad-txns-x'' 3 0 ''block'' 9 (with_ttl 0))"
  let ?F2 = "snd (note_fail ''k'' ''bad-txns-x'' 4 0 ''block'' 9 ?F1)"
  have f: "faults_after 0 [FFail ''k'' ''bad-txns-x'' 3, FFail ''k'' ''bad-txns-x'' 4] ?F2"
    using faults_fail [OF faults_fail [OF faults_none]] by simp
  have "trim_str ''bad-txns-x'' = ''bad-txns-x''" by (simp add: trim_str_def trim_lead.simps lead_space_def white_space_def Let_def)
  then have n: "\<not> faults_at_once ''bad-txns-x''" by (simp add: faults_at_once_def)
  have 1: "?F1 = (with_ttl 0)\<lparr>fl_pending := [(''k'', 3)]\<rparr>" by (simp add: note_fail_def get_fault_def get_fault_at_def with_ttl_def n)
  have "fst (get_fault ''k'' 9 ?F2) \<noteq> None"
    unfolding 1 by (simp add: note_fail_def get_fault_def get_fault_at_def set_at_def with_ttl_def ttl_def n)
  then show ?thesis using f fault_needs_evidence [OF f, of "''k''" 9] by blast
qed

end
