(* ===== verification/Primed_Session.thy ===== *)
theory Primed_Session
  imports Primed_Blocks Primed_State Primed_Validity Wire_Handshake
begin

text \<open>
  A gateway's connection, \<^verbatim>\<open>prime/primed/src/session.rs\<close>: the state of a session, which gateways it is told apart as, the
  scripts it is configured with, the payout its shares vote for, the sections it holds and the limit on refused messages.
  \<open>pool\<close> is what the sessions share. Sending appends the plain message to \<open>se_sent\<close>: sealing it on the channel is
  \<open>Wire_Crypto\<close>, cutting it into frames \<open>Primed_Frames\<close>. A handler reads the clock once, \<open>t\<close> in milliseconds. Log lines,
  the instants that only space them out, and the rows of the statistics page are not modelled; counters that rise by one
  with a message are unbounded. The iteration order of a \<^verbatim>\<open>HashMap\<close> is the parameter \<open>en_order\<close>.
\<close>

section \<open>Configuration, pool and session\<close>

record session_cfg =
  cf_house_loopback :: bool
  cf_house_gateways :: "string list"
  cf_stratum_front_ips :: "ip list"
  cf_stratum_front_gateways :: "string list"
  cf_held_split_builds :: "string list"
  cf_class_budget :: bool
  cf_class_budget_carry_ceiling :: u64
  cf_coinbase_tag :: "byte list"
  cf_prime_id :: u32
  cf_min_diff :: u64
  cf_min_pot :: u8
  cf_stock_full_pool_only :: string
  cf_session_coinbase_budget :: usize
  cf_stale_grace_secs :: u32
  cf_split_tolerance :: u64
  cf_empty_solo_fee_bps :: u32
  cf_uncommitted_pot :: u8
  cf_coinbaser_delay_ms :: u64
  cf_grace :: grace_params
  cf_quarantine :: quarantine_cfg
  cf_require_split_gateway :: bool
  cf_network :: string

record session_env =
  en_pool :: pool_env
  en_cfg :: session_cfg
  en_hashes :: hashes
  en_pool_script :: "byte list"
  en_order :: "(string \<times> u64) list \<Rightarrow> (string \<times> u64) list"

text \<open>The counters of \<^verbatim>\<open>Totals\<close> that a session moves.\<close>

record totals =
  tt_connections :: nat
  tt_accepted :: nat
  tt_rejected :: nat
  tt_work :: nat
  tt_coinbasers :: nat
  tt_coinbasers_repeated :: nat
  tt_coinbasers_over_rate :: nat
  tt_class_budget_replies :: nat
  tt_class_budget_ceiling_replies :: nat
  tt_block_candidates :: nat
  tt_blocks_submitted :: nat
  tt_below_floor_shares :: nat
  tt_uncommitted_shares :: nat
  tt_pool_only_shares :: nat
  tt_pool_only_full_jobs :: nat
  tt_solo_empty_shares :: nat
  tt_solo_empty_work :: nat
  tt_solo_full_shares :: nat
  tt_solo_full_work :: nat
  tt_remainder_to_gateway_sats :: nat
  tt_dead_parent_shares :: nat
  tt_faulted_shares :: nat
  tt_template_checks :: nat
  tt_template_checks_failed :: nat

record tip_seen =
  ts_tip :: tip
  ts_hash :: string
  ts_seen_at :: nat

record pool =
  pl_shared :: shared
  pl_tip :: "tip_seen option"
  pl_seen :: seen_shares
  pl_faults :: faults
  pl_parents :: parent_book
  pl_held_off :: bool
  pl_gateways :: "(string \<times> string \<times> byte list) list"
  pl_pinned :: "string list"
  pl_quarantine :: "(string \<times> quarantine) list"
  pl_totals :: totals
  pl_notified :: "nat list"

record held_payout =
  hp_shares :: u64
  hp_on :: "byte list option"

record issued_coinbaser =
  ic_id :: u8
  ic_value :: u64
  ic_prev_hash :: "byte list"
  ic_height :: u32
  ic_outputs :: "cb_output list"
  ic_payees :: "payee list"
  ic_unpaid :: "unpaid list"
  ic_rebate_credits :: "(string \<times> u64) list"
  ic_rebate_owed_credited :: u64
  ic_rebate_deferred :: u64
  ic_class_budget :: "usize option"

record pending_block =
  pb_share :: verified_share
  pb_submit :: pow_submit
  pb_hash_hex :: string
  pb_at :: nat

record template_check =
  tc_share :: verified_share
  tc_submit :: pow_submit
  tc_at :: nat

datatype session_error = Bad string | Wire wire_error | Idle | RejectFlood nat nat

record session =
  se_id :: nat
  se_remote :: ip
  se_gateway_key :: string
  se_generation :: generation
  se_user_agent :: "byte list"
  se_slots :: "job_slot list"
  se_coinbase_bytes :: usize
  se_live_slots :: "nat list"
  se_coinbasers :: "issued_coinbaser list"
  se_next_coinbaser_id :: u8
  se_pending_blocks :: "(u8 \<times> pending_block list) list"
  se_last_send :: nat
  se_last_recv :: nat
  se_tip_asked :: "nat option"
  se_coinbaser_tokens :: u32
  se_coinbaser_refill_at :: nat
  se_recent_rejects :: "nat list"
  se_pool_only_shares :: u64
  se_pool_only_full_jobs :: u64
  se_candidate_at :: "nat option"
  se_identity_work :: "(string \<times> u64) list"
  se_gateway_script :: "byte list option"
  se_gateway_identity :: "string option"
  se_restore_script_at :: "nat option"
  se_configured_as_gateway :: bool
  se_split_ready :: bool
  se_held :: "held_payout option"
  se_pins_script :: bool
  se_class_budget :: "class_budget option"
  se_last_split_prev :: "string option"
  se_resume_token :: "byte list"
  se_pending_coinbaser :: "(u64 \<times> byte list \<times> byte list) option"
  se_coinbaser_send_at :: "nat option"
  se_template_check :: "(u8 \<times> template_check) option"
  se_template_check_due :: nat
  se_template_check_asked :: "nat option"
  se_suspect :: bool
  se_sent :: "(bool \<times> byte list) list"

section \<open>Which gateway it is\<close>

definition house_stratum :: "session_cfg \<Rightarrow> ip \<Rightarrow> string \<Rightarrow> bool" where
  "house_stratum cfg remote gateway_key \<longleftrightarrow>
     cf_house_loopback cfg \<and> is_loopback remote
     \<or> list_ex (\<lambda>h. h \<noteq> [] \<and> prefix h (to_ascii_lower gateway_key)) (cf_house_gateways cfg)"

definition stratum_front :: "session_cfg \<Rightarrow> ip \<Rightarrow> string \<Rightarrow> bool" where
  "stratum_front cfg remote gateway_key \<longleftrightarrow>
     \<not> house_stratum cfg remote gateway_key
     \<and> (List.member (cf_stratum_front_ips cfg) remote
        \<or> list_ex (\<lambda>k. prefix k (to_ascii_lower gateway_key)) (cf_stratum_front_gateways cfg))"

definition is_hex_lower :: "char \<Rightarrow> bool" where
  "is_hex_lower c \<longleftrightarrow> (let n = of_char c :: nat in (48 \<le> n \<and> n \<le> 57) \<or> (97 \<le> n \<and> n \<le> 102))"

definition git_hash_prefix :: "string \<Rightarrow> bool" where
  "git_hash_prefix s \<longleftrightarrow> 7 \<le> length s \<and> length s \<le> 40 \<and> list_all is_hex_lower s"

text \<open>What follows the first slash, up to the first parenthesis, in lower case.\<close>

definition text_of :: "byte list \<Rightarrow> string" where
  "text_of = map (\<lambda>b. char_of (unat b))"

definition ua_hash :: "string \<Rightarrow> string option" where
  "ua_hash ua = (case dropWhile (\<lambda>c. c \<noteq> CHR ''/'') ua of
     [] \<Rightarrow> None
   | _ # rest \<Rightarrow> Some (to_ascii_lower (takeWhile (\<lambda>c. c \<noteq> CHR ''('') rest)))"

definition held_split_build :: "string list \<Rightarrow> byte list \<Rightarrow> string option" where
  "held_split_build builds ua =
     (if builds = [] \<or> is_split_gateway ua then None
      else case ua_hash (text_of ua) of None \<Rightarrow> None
      | Some hash \<Rightarrow> if \<not> list_all is_hex_lower hash then None
          else find (\<lambda>b. git_hash_prefix b \<and> prefix b hash) builds)"

definition class_budget_applies :: "generation \<Rightarrow> byte list \<Rightarrow> bool" where
  "class_budget_applies gen ua \<longleftrightarrow> gen = Convoy \<and> \<not> is_split_gateway ua
     \<and> \<not> prefix ''ratum'' (to_ascii_lower (trim_lead white_space (text_of ua)))"

abbreviation is_house :: "session_env \<Rightarrow> session \<Rightarrow> bool" where
  "is_house E s \<equiv> house_stratum (en_cfg E) (se_remote s) (se_gateway_key s)"

abbreviation is_front :: "session_env \<Rightarrow> session \<Rightarrow> bool" where
  "is_front E s \<equiv> stratum_front (en_cfg E) (se_remote s) (se_gateway_key s)"

section \<open>A held payout\<close>

definition HELD_SPLIT_SHARES :: u64 where "HELD_SPLIT_SHARES = 16"

definition hp_script :: "nat \<Rightarrow> held_payout \<Rightarrow> byte list option" where
  "hp_script payouts h = (if payouts = 1 then hp_on h else None)"

definition hp_note :: "nat \<Rightarrow> byte list option \<Rightarrow> held_payout \<Rightarrow> bool \<times> held_payout" where
  "hp_note payouts dominant h = (let h1 = h\<lparr>hp_shares := hp_shares h + 1\<rparr> in
     if hp_on h1 \<noteq> None \<or> payouts \<noteq> 1 \<or> hp_shares h1 < HELD_SPLIT_SHARES then (False, h1)
     else case dominant of None \<Rightarrow> (False, h1) | Some script \<Rightarrow> (True, h1\<lparr>hp_on := Some script\<rparr>))"

definition hp_keeps_off :: "byte list \<Rightarrow> held_payout \<Rightarrow> bool" where
  "hp_keeps_off script h = (case hp_on h of Some x \<Rightarrow> x \<noteq> script | None \<Rightarrow> False)"

section \<open>What it is configured with\<close>

definition send_mining :: "nat \<Rightarrow> byte list \<Rightarrow> bool \<Rightarrow> session \<Rightarrow> session" where
  "send_mining t plain sg s = s\<lparr>se_sent := se_sent s @ [(sg, plain)], se_last_send := t\<rparr>"

definition solo_tag :: "session_cfg \<Rightarrow> byte list" where
  "solo_tag cfg = (if suffix (ascii ''/solo'') (cf_coinbase_tag cfg) then cf_coinbase_tag cfg else cf_coinbase_tag cfg @ ascii ''/solo'')"

definition configure_body :: "session_cfg \<Rightarrow> byte list \<Rightarrow> byte list \<Rightarrow> session \<Rightarrow> byte list" where
  "configure_body cfg script tag s = (case se_generation s of
     Ocean \<Rightarrow> configure_v1 script (cf_prime_id cfg) tag (cf_min_diff cfg)
   | Convoy \<Rightarrow> configure_v3 script (cf_prime_id cfg) (se_resume_token s) tag (cf_min_diff cfg))"

definition send_configure_script :: "session_env \<Rightarrow> nat \<Rightarrow> byte list \<Rightarrow> bool \<Rightarrow> session \<Rightarrow> session" where
  "send_configure_script E t script gateway s =
     (let tag = (if gateway then solo_tag (en_cfg E) else cf_coinbase_tag (en_cfg E))
      in (send_mining t (configure_body (en_cfg E) script tag s) True s)\<lparr>se_configured_as_gateway := gateway\<rparr>)"

definition solo_script :: "session \<Rightarrow> byte list option" where
  "solo_script s = (if se_pins_script s then None else se_gateway_script s)"

definition send_configure :: "session_env \<Rightarrow> nat \<Rightarrow> session \<Rightarrow> session" where
  "send_configure E t s = (case solo_script s of
     Some script \<Rightarrow> send_configure_script E t script True s
   | None \<Rightarrow> send_configure_script E t (en_pool_script E) False s)"

definition stay_on_gateway :: "session_cfg \<Rightarrow> session \<Rightarrow> bool" where
  "stay_on_gateway cfg s \<longleftrightarrow> cf_stock_full_pool_only cfg = ''gateway-solo'' \<and> se_pool_only_full_jobs s > 0"

definition held_script :: "session \<Rightarrow> byte list option" where
  "held_script s = (case se_held s of None \<Rightarrow> None | Some h \<Rightarrow> hp_script (length (se_identity_work s)) h)"

definition reply_class_budget :: "session_cfg \<Rightarrow> session \<Rightarrow> usize option" where
  "reply_class_budget cfg s = (case se_class_budget s of None \<Rightarrow> None
     | Some b \<Rightarrow> if held_script s \<noteq> None \<or> stay_on_gateway cfg s then None else cg_bytes b)"

definition has_split_for_tip :: "tip_seen option \<Rightarrow> session \<Rightarrow> bool" where
  "has_split_for_tip T s = (case T of None \<Rightarrow> False
     | Some tip \<Rightarrow> se_split_ready s \<and> se_last_split_prev s = Some (ts_hash tip))"

definition solo_until_split :: "session_env \<Rightarrow> nat \<Rightarrow> session \<Rightarrow> session" where
  "solo_until_split E t s = (let s1 = s\<lparr>se_split_ready := False, se_last_split_prev := None, se_restore_script_at := None\<rparr> in
     case solo_script s1 of Some script \<Rightarrow> send_configure_script E t script True s1 | None \<Rightarrow> s1)"

text \<open>A notice from the node's tip (0, or notices lost) or from another session's find.\<close>

definition on_notify :: "session_env \<Rightarrow> nat \<Rightarrow> nat option \<Rightarrow> tip_seen option \<Rightarrow> session \<Rightarrow> session" where
  "on_notify E t n T s = (let lost_or_tip = (n = None \<or> n = Some 0) in
     send_mining t block_notify False (if lost_or_tip \<and> has_split_for_tip T s then s else solo_until_split E t s))"

definition on_restore :: "session_env \<Rightarrow> nat \<Rightarrow> session \<Rightarrow> session" where
  "on_restore E t s = (case solo_script s of Some script \<Rightarrow> send_configure_script E t script True s | None \<Rightarrow> s)
     \<lparr>se_restore_script_at := None\<rparr>"

definition shows_pinned_script :: "session_cfg \<Rightarrow> coinbase_tx \<Rightarrow> policy \<Rightarrow> session \<Rightarrow> bool" where
  "shows_pinned_script cfg cb p s \<longleftrightarrow>
     \<not> se_pins_script s \<and> se_held s = None \<and> \<not> stay_on_gateway cfg s \<and> remainder_on_gateway cb p"

definition hold_on_pool_script :: "session_env \<Rightarrow> nat \<Rightarrow> session \<times> pool \<Rightarrow> session \<times> pool" where
  "hold_on_pool_script E t = (\<lambda>(s, P).
     let s1 = s\<lparr>se_pins_script := True, se_restore_script_at := None\<rparr>;
         s2 = (if se_configured_as_gateway s1 then send_configure_script E t (en_pool_script E) False s1 else s1)
     in (send_mining t block_notify False s2, P\<lparr>pl_pinned := remember_pinned_script (se_gateway_key s) (pl_pinned P)\<rparr>))"

section \<open>The vote for its payout\<close>

definition MAX_SESSION_IDENTITIES :: usize where "MAX_SESSION_IDENTITIES = 1024"

text \<open>\<^verbatim>\<open>max_by_key\<close>: the last of the greatest.\<close>

fun max_by_work :: "(string \<times> u64) list \<Rightarrow> (string \<times> u64) option" where
  "max_by_work [] = None"
| "max_by_work (x # xs) = (case max_by_work xs of None \<Rightarrow> Some x | Some y \<Rightarrow> if snd y < snd x then Some x else Some y)"

definition dominant :: "session_env \<Rightarrow> session \<Rightarrow> string option" where
  "dominant E s = map_option fst (max_by_work (en_order E (se_identity_work s)))"

definition payout_script :: "session_env \<Rightarrow> string \<Rightarrow> byte list option" where
  "payout_script E ident = (case Primed_Address.to_script (ev_codecs (en_pool E)) ident (ev_network (en_pool E)) of
     None \<Rightarrow> None | Some x \<Rightarrow> if x = en_pool_script E then None else Some x)"

definition add_identity_work :: "string \<Rightarrow> u64 \<Rightarrow> session \<Rightarrow> session" where
  "add_identity_work ident work s = s\<lparr>se_identity_work := AList.update ident
     (sat_add64 (case map_of (se_identity_work s) ident of None \<Rightarrow> 0 | Some w \<Rightarrow> w) work) (se_identity_work s)\<rparr>"

definition note_held :: "byte list option \<Rightarrow> session \<Rightarrow> bool \<times> session" where
  "note_held script s = (case se_held s of None \<Rightarrow> (False, s)
     | Some h \<Rightarrow> (case hp_note (length (se_identity_work s)) script h of (now, h1) \<Rightarrow> (now, s\<lparr>se_held := Some h1\<rparr>)))"

definition note_identity :: "session_env \<Rightarrow> nat \<Rightarrow> string \<Rightarrow> u64 \<Rightarrow> session \<times> pool \<Rightarrow> session \<times> pool" where
  "note_identity E t ident work = (\<lambda>(s, P).
     if length (se_identity_work s) \<ge> MAX_SESSION_IDENTITIES \<and> map_of (se_identity_work s) ident = None then (s, P)
     else let s1 = add_identity_work ident work s in
       case dominant E s1 of None \<Rightarrow> (s1, P)
       | Some who \<Rightarrow> (let script = payout_script E who in
           case note_held script s1 of (held_now, s2) \<Rightarrow>
             (case script of None \<Rightarrow> (s2, P)
              | Some x \<Rightarrow>
                  let changed = (se_gateway_script s2 \<noteq> Some x) in
                  if (case se_held s2 of Some h \<Rightarrow> hp_keeps_off x h | None \<Rightarrow> False) then (s2, P)
                  else
                    let s3 = s2\<lparr>se_gateway_script := Some x, se_gateway_identity := Some who\<rparr>;
                        P1 = P\<lparr>pl_gateways := remember_gateway (se_gateway_key s3) who x (pl_gateways P)\<rparr>
                    in if held_now then (s3, P1)
                       else if changed \<and> \<not> se_pins_script s3 \<and> \<not> se_split_ready s3 \<and> \<not> se_configured_as_gateway s3
                         \<and> se_restore_script_at s3 = None
                       then (s3\<lparr>se_restore_script_at := Some t\<rparr>, P1) else (s3, P1))))"

definition follow_held_split :: "session_env \<Rightarrow> nat \<Rightarrow> bool \<Rightarrow> session \<Rightarrow> session" where
  "follow_held_split E t was_held s = (case (was_held, held_script s) of
     (False, Some script) \<Rightarrow> send_configure_script E t script True s
   | (True, None) \<Rightarrow> if se_split_ready s \<and> \<not> stay_on_gateway (en_cfg E) s
       then send_configure_script E t (en_pool_script E) False s else s
   | _ \<Rightarrow> s)"

section \<open>Refused messages\<close>

definition REJECT_FLOOD :: usize where "REJECT_FLOOD = 2000"
definition REJECT_WINDOW :: nat where "REJECT_WINDOW = 10 * 1000"

definition note_reject :: "session_env \<Rightarrow> nat \<Rightarrow> session \<Rightarrow> session_error option \<times> session" where
  "note_reject E t s = (let recent = dropWhile (\<lambda>x. t - x > REJECT_WINDOW) (se_recent_rejects s @ [t]) in
     if length recent > REJECT_FLOOD
     then if is_house E s then (None, s\<lparr>se_recent_rejects := []\<rparr>)
          else (Some (RejectFlood (length recent) (REJECT_WINDOW div 1000)), s\<lparr>se_recent_rejects := recent\<rparr>)
     else (None, s\<lparr>se_recent_rejects := recent\<rparr>))"

section \<open>The sections it holds\<close>

definition MAX_LIVE_SLOTS :: usize where "MAX_LIVE_SLOTS = 16"

definition drop_coinbase :: "nat \<Rightarrow> u8 option \<Rightarrow> session \<Rightarrow> session" where
  "drop_coinbase i added s = (case added of None \<Rightarrow> s
     | Some c \<Rightarrow> let before = coinbase_bytes (se_slots s ! i); slot = forget_coinbase c (se_slots s ! i)
         in s\<lparr>se_slots := (se_slots s)[i := slot], se_coinbase_bytes := se_coinbase_bytes s - (before - coinbase_bytes slot)\<rparr>)"

fun evict_loop :: "nat list \<Rightarrow> job_slot list \<Rightarrow> (nat list \<times> job_slot list) option" where
  "evict_loop [] slots = Some ([], slots)"
| "evict_loop (i # ls) slots =
     (if length (i # ls) > MAX_LIVE_SLOTS
      then if i < length slots then evict_loop ls (slots[i := evict_sections (slots ! i)]) else None
      else Some (i # ls, slots))"

definition touch_slot :: "nat \<Rightarrow> session \<Rightarrow> session option" where
  "touch_slot i s = map_option (\<lambda>(ls, slots). s\<lparr>se_live_slots := ls, se_slots := slots\<rparr>)
     (evict_loop (filter (\<lambda>x. x \<noteq> i) (se_live_slots s) @ [i]) (se_slots s))"

text \<open>What \<^verbatim>\<open>on_pow\<close> does with the sections a share brings, up to the job it is on: the code of a reject, or nothing.\<close>

definition take_sections :: "session_cfg \<Rightarrow> pow_submit \<Rightarrow> session \<Rightarrow> (u16 option \<times> session) option" where
  "take_sections cfg p s = (let i = ps_job_id p; held_before = coinbase_bytes (se_slots s ! i) in
     case absorb p (se_slots s ! i) of
       (slot, Inl code) \<Rightarrow> Some (Some code, s\<lparr>se_slots := (se_slots s)[i := slot]\<rparr>)
     | (slot, Inr ab) \<Rightarrow> do {
         let s1 = s\<lparr>se_slots := (se_slots s)[i := slot]\<rparr>;
         s2 \<leftarrow> (if ab_job_changed ab
           then do {
             s' \<leftarrow> touch_slot i s1;
             n \<leftarrow> sum_u64 (map coinbase_bytes (se_slots s'));
             Some (s'\<lparr>se_coinbase_bytes := n\<rparr>) }
           else Some (s1\<lparr>se_coinbase_bytes := sat_add64 (se_coinbase_bytes s1 - held_before) (coinbase_bytes slot)\<rparr>));
         Some (if ab_coinbase_added ab \<noteq> None \<and> se_coinbase_bytes s2 > cf_session_coinbase_budget cfg
           then (Some REJECT_COINBASE_TOO_LARGE, drop_coinbase i (ab_coinbase_added ab) s2)
           else (None, s2)) })"

section \<open>Opening a session\<close>

definition COINBASER_BURST :: u32 where "COINBASER_BURST = 32"
definition TEMPLATE_CHECK_FIRST :: nat where "TEMPLATE_CHECK_FIRST = 30 * 1000"

definition hex_digit :: "nat \<Rightarrow> char" where
  "hex_digit n = (if n < 10 then char_of (48 + n) else char_of (87 + n))"

definition hex_of :: "byte list \<Rightarrow> string" where
  "hex_of bs = concat (map (\<lambda>b. [hex_digit (unat b div 16), hex_digit (unat b mod 16)]) bs)"

definition new_session :: "nat \<Rightarrow> nat \<Rightarrow> ip \<Rightarrow> client_hello \<Rightarrow> byte list \<Rightarrow> byte list option \<Rightarrow> held_payout option \<Rightarrow> bool
    \<Rightarrow> class_budget option \<Rightarrow> session" where
  "new_session t i remote he token known_script held_by pins budget =
     \<lparr>se_id = i, se_remote = remote, se_gateway_key = hex_of (he_identity_sign_pk he), se_generation = he_generation he,
      se_user_agent = he_user_agent he, se_slots = replicate MAX_JOB_SLOTS empty_slot, se_coinbase_bytes = 0, se_live_slots = [],
      se_coinbasers = [], se_next_coinbaser_id = 1, se_pending_blocks = [], se_last_send = t, se_last_recv = t, se_tip_asked = None,
      se_coinbaser_tokens = COINBASER_BURST, se_coinbaser_refill_at = t, se_recent_rejects = [], se_pool_only_shares = 0,
      se_pool_only_full_jobs = 0, se_candidate_at = None, se_identity_work = [], se_gateway_script = known_script, se_gateway_identity = None,
      se_restore_script_at = None, se_configured_as_gateway = False, se_split_ready = False, se_held = held_by, se_pins_script = pins,
      se_class_budget = budget, se_last_split_prev = None, se_resume_token = token, se_pending_coinbaser = None,
      se_coinbaser_send_at = None, se_template_check = None, se_template_check_due = t + TEMPLATE_CHECK_FIRST,
      se_template_check_asked = None, se_suspect = False, se_sent = []\<rparr>"

text \<open>
  \<^verbatim>\<open>run\<close> after the hello of the gateway has been read and answered (\<open>Wire_Handshake\<close>): refused, or the session and what
  opening it changes; then what \<^verbatim>\<open>serve\<close> sends first. \<open>now\<close> is the wall clock in seconds, \<open>token\<close> the random resume token.
\<close>

definition open_session :: "session_env \<Rightarrow> nat \<Rightarrow> u64 \<Rightarrow> nat \<Rightarrow> ip \<Rightarrow> client_hello \<Rightarrow> byte list \<Rightarrow> pool \<Rightarrow> (session_error + session) \<times> pool" where
  "open_session E t now i remote he token P =
     (let cfg = en_cfg E; key = hex_of (he_identity_sign_pk he); ua = he_user_agent he in
      if cf_require_split_gateway cfg \<and> \<not> is_split_gateway ua then (Inl (Bad ''split-only gateway required''), P)
      else if quarantined (cf_quarantine cfg) key now (pl_quarantine P) \<noteq> None then (Inl (Bad ''gateway refused''), P)
      else
        let P1 = (if quarantine_lapsed key now (pl_quarantine P) then P\<lparr>pl_faults := snd (clear_fault key (pl_faults P))\<rparr> else P);
            known_script = map_option snd (map_of (pl_gateways P1) key);
            house = house_stratum cfg remote key;
            pins = List.member (pl_pinned P1) key;
            held_build = (if house then None else held_split_build (cf_held_split_builds cfg) ua);
            budget = (if cf_class_budget cfg \<and> \<not> house \<and> held_build = None \<and> class_budget_applies (he_generation he) ua
              then Some no_budget else None);
            s = new_session t i remote he token known_script (map_option (\<lambda>_. \<lparr>hp_shares = 0, hp_on = None\<rparr>) held_build) pins budget
        in (Inr (send_mining t block_notify False (send_configure E t s)),
            P1\<lparr>pl_totals := (pl_totals P1)\<lparr>tt_connections := tt_connections (pl_totals P1) + 1\<rparr>\<rparr>))"

section \<open>The limit on refused messages\<close>

fun note_rejects :: "session_env \<Rightarrow> nat list \<Rightarrow> session \<Rightarrow> session_error option \<times> session" where
  "note_rejects E [] s = (None, s)"
| "note_rejects E (t # ts) s = (case note_reject E t s of (Some e, s1) \<Rightarrow> (Some e, s1) | (None, s1) \<Rightarrow> note_rejects E ts s1)"

text \<open>The refusals of the ten seconds up to the last one.\<close>

definition within_window :: "nat list \<Rightarrow> nat list" where
  "within_window ts = filter (\<lambda>x. last ts - x \<le> REJECT_WINDOW) ts"

lemma sorted_dropWhile_filter:
  "sorted xs \<Longrightarrow> dropWhile (\<lambda>x. n < t - x) xs = filter (\<lambda>x. t - x \<le> (n :: nat)) xs"
proof (induction xs)
  case (Cons x xs)
  have "filter (\<lambda>y. t - y \<le> n) xs = xs" if "t - x \<le> n" using that Cons.prems by (auto intro!: filter_True)
  then show ?case using Cons by auto
qed simp

lemma within_window_snoc:
  assumes "sorted (ts @ [t])"
  shows "dropWhile (\<lambda>x. t - x > REJECT_WINDOW) (within_window ts @ [t]) = within_window (ts @ [t])"
proof (cases "ts = []")
  case False
  have le: "last ts \<le> t" using assms False by (simp add: sorted_append)
  have "sorted (within_window ts @ [t])" using assms by (auto simp: within_window_def sorted_append sorted_wrt_filter)
  then have "dropWhile (\<lambda>x. t - x > REJECT_WINDOW) (within_window ts @ [t]) = filter (\<lambda>x. t - x \<le> REJECT_WINDOW) (within_window ts @ [t])"
    by (rule sorted_dropWhile_filter)
  also have "\<dots> = within_window (ts @ [t])" using le by (auto simp: within_window_def intro!: filter_cong)
  finally show ?thesis .
qed (simp add: within_window_def)

lemma note_reject_simps [simp]:
  "se_remote (snd (note_reject E t s)) = se_remote s" "se_gateway_key (snd (note_reject E t s)) = se_gateway_key s"
  by (simp_all add: note_reject_def Let_def)

lemma note_rejects_from:
  assumes "\<not> is_house E s" "se_recent_rejects s = within_window ps" "sorted (ps @ ts)"
  shows "fst (note_rejects E ts s) = None
    \<longleftrightarrow> list_all (\<lambda>n. length (within_window (ps @ take n ts)) \<le> REJECT_FLOOD) [1..<Suc (length ts)]"
  using assms
proof (induction ts arbitrary: ps s)
  case (Cons t ts)
  have srt: "sorted (ps @ [t])" using Cons.prems(3) by (auto simp: sorted_append)
  obtain e s1 where n: "note_reject E t s = (e, s1)" by fastforce
  have w: "dropWhile (\<lambda>x. t - x > REJECT_WINDOW) (se_recent_rejects s @ [t]) = within_window (ps @ [t])"
    unfolding Cons.prems(2) by (rule within_window_snoc [OF srt])
  have e: "e = None \<longleftrightarrow> length (within_window (ps @ [t])) \<le> REJECT_FLOOD" "se_recent_rejects s1 = within_window (ps @ [t])"
      "is_house E s1 = is_house E s"
    using n w Cons.prems(1) by (auto simp: note_reject_def Let_def split: if_splits)
  have IH: "fst (note_rejects E ts s1) = None
    \<longleftrightarrow> list_all (\<lambda>n. length (within_window ((ps @ [t]) @ take n ts)) \<le> REJECT_FLOOD) [1..<Suc (length ts)]"
    using Cons.prems e(2,3) by (intro Cons.IH) simp_all
  have up: "[1..<Suc (length (t # ts))] = 1 # map Suc [1..<Suc (length ts)]"
    unfolding map_Suc_upt by (subst upt_conv_Cons) (simp_all del: upt_Suc)
  show ?case using IH e(1) n unfolding up by (cases e) (simp_all add: list.pred_map comp_def)
qed simp

text \<open>
  A session is dropped for its refused messages exactly when some ten seconds hold more than two thousand of them: a run of
  refusals at the times \<open>ts\<close> ends without an error if and only if, at each of them, at most 2000 are within the window.
\<close>

theorem reject_flood_exact:
  assumes "\<not> is_house E s" "se_recent_rejects s = []" "sorted ts"
  shows "fst (note_rejects E ts s) = None
    \<longleftrightarrow> list_all (\<lambda>n. length (within_window (take n ts)) \<le> REJECT_FLOOD) [1..<Suc (length ts)]"
  using note_rejects_from [of E s "[]" ts] assms by (simp add: within_window_def)

section \<open>The sections a session holds\<close>

definition sections_ok :: "hashes \<Rightarrow> nat \<Rightarrow> session \<Rightarrow> bool" where
  "sections_ok H budget s \<longleftrightarrow> length (se_slots s) = MAX_JOB_SLOTS \<and> list_all (slot_reach H) (se_slots s)
     \<and> distinct (se_live_slots s) \<and> list_all (\<lambda>i. i < MAX_JOB_SLOTS) (se_live_slots s) \<and> length (se_live_slots s) \<le> MAX_LIVE_SLOTS
     \<and> se_coinbase_bytes s = sum_list (map coinbase_bytes (se_slots s)) \<and> se_coinbase_bytes s \<le> budget"

lemma reach_bytes: "slot_reach H slot \<Longrightarrow> coinbase_bytes slot \<le> 160000"
  using slot_stays_small by blast

lemma slots_bytes_le: "list_all (slot_reach H) slots \<Longrightarrow> sum_list (map coinbase_bytes slots) \<le> length slots * 160000"
  by (induction slots) (auto dest: reach_bytes)

lemma absorb_refused: "absorb p slot = (slot', Inl e) \<Longrightarrow> slot' = slot"
  by (auto simp: absorb_def absorb_job_def absorb_coinbase_def Let_def slot_limits split: prod.splits sum.splits option.splits if_splits)

lemma bytes_job: "coinbase_bytes (fst (absorb_job p slot)) \<le> coinbase_bytes slot"
  by (auto simp: absorb_job_def coinbase_bytes_def split: option.splits)

lemma bytes_forget: "coinbase_bytes (forget_coinbase c slot) \<le> coinbase_bytes slot"
  by (simp add: coinbase_bytes_def forget_coinbase_def AList.delete_eq sum_list_filter_le)

lemma bytes_evict: "coinbase_bytes (evict_sections slot) = 0"
  by (simp add: coinbase_bytes_def evict_sections_def)

lemma absorb_bytes:
  assumes "absorb p slot = (slot', Inr ab)"
  shows "ab_coinbase_added ab = None \<Longrightarrow> coinbase_bytes slot' \<le> coinbase_bytes slot"
    and "ab_coinbase_added ab = Some c \<Longrightarrow> coinbase_bytes (forget_coinbase c slot') \<le> coinbase_bytes slot"
proof -
  obtain slot1 ch where j: "absorb_job p slot = (slot1, ch)" by fastforce
  have a: "absorb_coinbase p slot1 = (slot', Inr (ab_coinbase_added ab))"
    using assms j by (auto simp: absorb_def split: prod.splits sum.splits if_splits)
  have le: "coinbase_bytes slot1 \<le> coinbase_bytes slot" using bytes_job [of p slot] j by simp
  show "coinbase_bytes slot' \<le> coinbase_bytes slot" if "ab_coinbase_added ab = None"
    using a that le by (auto simp: absorb_coinbase_def Let_def split: option.splits if_splits)
  have "coinbase_bytes (forget_coinbase c slot') = coinbase_bytes (forget_coinbase c slot1)" if "ab_coinbase_added ab = Some c"
    using a that by (auto simp: absorb_coinbase_def Let_def coinbase_bytes_def forget_coinbase_def delete_update_same split: option.splits if_splits)
  then show "coinbase_bytes (forget_coinbase c slot') \<le> coinbase_bytes slot" if "ab_coinbase_added ab = Some c"
    using that le bytes_forget [of c slot1] by simp
qed

lemma sum_list_update_nat: "i < length xs \<Longrightarrow> sum_list (map f (xs[i := x])) + f (xs ! i) = sum_list (map f xs) + (f x :: nat)"
  by (induction xs arbitrary: i) (auto split: nat.splits)

lemma evict_loop_few: "length ls \<le> MAX_LIVE_SLOTS \<Longrightarrow> evict_loop ls sl = Some (ls, sl)"
  by (cases ls) auto

lemma evict_loop_ok:
  assumes "list_all (\<lambda>i. i < length slots) ls" "list_all (slot_reach H) slots"
  obtains ls' slots' where "evict_loop ls slots = Some (ls', slots')" "length slots' = length slots" "list_all (slot_reach H) slots'"
    "length ls' \<le> MAX_LIVE_SLOTS" "suffix ls' ls" "sum_list (map coinbase_bytes slots') \<le> sum_list (map coinbase_bytes slots)"
    "length ls \<le> Suc MAX_LIVE_SLOTS \<and> distinct ls \<and> ls \<noteq> [] \<longrightarrow> slots' ! last ls = slots ! last ls"
  using assms
proof (induction ls slots arbitrary: thesis rule: evict_loop.induct)
  case (1 slots)
  then show ?case by (simp add: MAX_LIVE_SLOTS_def)
next
  case (2 i ls slots)
  show ?case
  proof (cases "length (i # ls) > MAX_LIVE_SLOTS")
    case False
    then show ?thesis using 2(2) [of "i # ls" slots] 2(3,4) by simp
  next
    case True
    have i: "i < length slots" using 2(3) by simp
    let ?sl = "slots[i := evict_sections (slots ! i)]"
    have reach: "list_all (slot_reach H) ?sl"
      using 2(4) i by (auto simp: list_all_iff dest!: set_update_subset_insert [THEN subsetD] intro: slot_reach.evicts)
    have bytes: "sum_list (map coinbase_bytes ?sl) \<le> sum_list (map coinbase_bytes slots)"
      using sum_list_update_nat [OF i, of coinbase_bytes "evict_sections (slots ! i)"] by (simp add: bytes_evict)
    show ?thesis
    proof (rule 2(1) [OF True i])
      show "list_all (\<lambda>i. i < length ?sl) ls" "list_all (slot_reach H) ?sl" using 2(3) reach by simp_all
    next
      fix ls' slots' assume l: "evict_loop ls ?sl = Some (ls', slots')" "length slots' = length ?sl" "list_all (slot_reach H) slots'"
        "length ls' \<le> MAX_LIVE_SLOTS" "suffix ls' ls"
        "sum_list (map coinbase_bytes slots') \<le> sum_list (map coinbase_bytes ?sl)"
        "length ls \<le> Suc MAX_LIVE_SLOTS \<and> distinct ls \<and> ls \<noteq> [] \<longrightarrow> slots' ! last ls = ?sl ! last ls"
      have ne: "ls \<noteq> []" using True by (auto simp: MAX_LIVE_SLOTS_def)
      show thesis
      proof (rule 2(2))
        show "evict_loop (i # ls) slots = Some (ls', slots')" using True i l(1) by simp
        show "suffix ls' (i # ls)" using l(5) by (rule suffix_ConsI)
        show "length (i # ls) \<le> Suc MAX_LIVE_SLOTS \<and> distinct (i # ls) \<and> i # ls \<noteq> []
            \<longrightarrow> slots' ! last (i # ls) = slots ! last (i # ls)"
          using l(7) ne last_in_set [OF ne] by (metis distinct.simps(2) last_ConsR le_SucI length_Cons Suc_le_mono nth_list_update_neq)
      qed (use l bytes in simp_all)
    qed
  qed
qed

lemma touch_slot_ok:
  assumes "list_all (\<lambda>x. x < length (se_slots s)) (se_live_slots s)" "i < length (se_slots s)" "distinct (se_live_slots s)"
    "list_all (slot_reach H) (se_slots s)" "length (se_live_slots s) \<le> MAX_LIVE_SLOTS"
  obtains s' where "touch_slot i s = Some s'" "length (se_slots s') = length (se_slots s)" "list_all (slot_reach H) (se_slots s')"
    "distinct (se_live_slots s')" "list_all (\<lambda>x. x < length (se_slots s)) (se_live_slots s')" "length (se_live_slots s') \<le> MAX_LIVE_SLOTS"
    "sum_list (map coinbase_bytes (se_slots s')) \<le> sum_list (map coinbase_bytes (se_slots s))" "se_slots s' ! i = se_slots s ! i"
proof -
  let ?ls = "filter (\<lambda>x. x \<noteq> i) (se_live_slots s) @ [i]"
  have ls: "list_all (\<lambda>x. x < length (se_slots s)) ?ls" "distinct ?ls" "length ?ls \<le> Suc MAX_LIVE_SLOTS"
    using assms(1,2,3,5) le_trans [OF length_filter_le assms(5)] by (auto simp: list_all_iff)
  obtain ls' slots' where e: "evict_loop ?ls (se_slots s) = Some (ls', slots')" "length slots' = length (se_slots s)"
      "list_all (slot_reach H) slots'" "length ls' \<le> MAX_LIVE_SLOTS" "suffix ls' ?ls"
      "sum_list (map coinbase_bytes slots') \<le> sum_list (map coinbase_bytes (se_slots s))"
      "length ?ls \<le> Suc MAX_LIVE_SLOTS \<and> distinct ?ls \<and> ?ls \<noteq> [] \<longrightarrow> slots' ! last ?ls = se_slots s ! last ?ls"
    by (rule evict_loop_ok [OF ls(1) assms(4)])
  have ls': "distinct ls'" "set ls' \<subseteq> set ?ls" using e(5) ls(2) by (metis suffix_def distinct_append, metis set_mono_suffix)
  show thesis
    by (rule that [of "s\<lparr>se_live_slots := ls', se_slots := slots'\<rparr>"])
      (use e(1-4,6,7) ls ls' in \<open>auto simp: touch_slot_def list_all_iff\<close>)
qed

lemma drop_coinbase_ok:
  assumes "i < length (se_slots s)" "se_coinbase_bytes s = sum_list (map coinbase_bytes (se_slots s))"
  shows "se_coinbase_bytes (drop_coinbase i (Some c) s) = sum_list (map coinbase_bytes (se_slots (drop_coinbase i (Some c) s)))"
    and "se_coinbase_bytes (drop_coinbase i (Some c) s) + coinbase_bytes (se_slots s ! i)
      = se_coinbase_bytes s + coinbase_bytes (forget_coinbase c (se_slots s ! i))"
proof -
  have "coinbase_bytes (se_slots s ! i) \<le> sum_list (map coinbase_bytes (se_slots s))"
    using assms(1) by (intro member_le_sum_list_map nth_mem)
  then show "se_coinbase_bytes (drop_coinbase i (Some c) s) = sum_list (map coinbase_bytes (se_slots (drop_coinbase i (Some c) s)))"
      "se_coinbase_bytes (drop_coinbase i (Some c) s) + coinbase_bytes (se_slots s ! i)
      = se_coinbase_bytes s + coinbase_bytes (forget_coinbase c (se_slots s ! i))"
    using sum_list_update_nat [OF assms(1), of coinbase_bytes "forget_coinbase c (se_slots s ! i)"] bytes_forget [of c "se_slots s ! i"]
    by (simp_all add: drop_coinbase_def Let_def assms(2))
qed

lemma take_sections_ok:
  assumes ok: "sections_ok H (cf_session_coinbase_budget cfg) s" and i: "ps_job_id p < MAX_JOB_SLOTS"
  obtains r s' where "take_sections cfg p s = Some (r, s')" "sections_ok H (cf_session_coinbase_budget cfg) s'"
proof -
  let ?i = "ps_job_id p" and ?budget = "cf_session_coinbase_budget cfg"
  let ?old = "se_slots s ! ?i"
  note ok' = ok [unfolded sections_ok_def]
  have i': "?i < length (se_slots s)" using ok' i by simp
  obtain slot res where a: "absorb p ?old = (slot, res)" by fastforce
  show thesis
  proof (cases res)
    case (Inl e)
    then have "slot = ?old" using absorb_refused a by blast
    then show ?thesis using that [of "Some e" s] a Inl ok by (simp add: take_sections_def Let_def)
  next
    case (Inr ab)
    let ?s1 = "s\<lparr>se_slots := (se_slots s)[?i := slot]\<rparr>"
    have slot: "slot_reach H slot" using slot_reach.absorbs [of H ?old p] ok' i' a by (simp add: list_all_length)
    have reach1: "list_all (slot_reach H) (se_slots ?s1)"
      using ok' slot by (auto simp: list_all_iff dest!: set_update_subset_insert [THEN subsetD])
    have sum1: "sum_list (map coinbase_bytes (se_slots ?s1)) + coinbase_bytes ?old = se_coinbase_bytes s + coinbase_bytes slot"
      using sum_list_update_nat [OF i', of coinbase_bytes slot] ok' by simp
    define s2 where "s2 = (if ab_job_changed ab
      then do { s' \<leftarrow> touch_slot ?i ?s1; n \<leftarrow> sum_u64 (map coinbase_bytes (se_slots s')); Some (s'\<lparr>se_coinbase_bytes := n\<rparr>) }
      else Some (?s1\<lparr>se_coinbase_bytes := sat_add64 (se_coinbase_bytes ?s1 - coinbase_bytes ?old) (coinbase_bytes slot)\<rparr>))"
    obtain s2' where s2': "s2 = Some s2'" "length (se_slots s2') = MAX_JOB_SLOTS" "list_all (slot_reach H) (se_slots s2')"
        "distinct (se_live_slots s2')" "list_all (\<lambda>i. i < MAX_JOB_SLOTS) (se_live_slots s2')" "length (se_live_slots s2') \<le> MAX_LIVE_SLOTS"
        "se_coinbase_bytes s2' = sum_list (map coinbase_bytes (se_slots s2'))" "se_slots s2' ! ?i = slot"
        "se_coinbase_bytes s2' + coinbase_bytes ?old \<le> se_coinbase_bytes s + coinbase_bytes slot"
    proof (cases "ab_job_changed ab")
      case True
      obtain s' where t: "touch_slot ?i ?s1 = Some s'" "length (se_slots s') = length (se_slots ?s1)" "list_all (slot_reach H) (se_slots s')"
          "distinct (se_live_slots s')" "list_all (\<lambda>x. x < length (se_slots ?s1)) (se_live_slots s')" "length (se_live_slots s') \<le> MAX_LIVE_SLOTS"
          "sum_list (map coinbase_bytes (se_slots s')) \<le> sum_list (map coinbase_bytes (se_slots ?s1))" "se_slots s' ! ?i = se_slots ?s1 ! ?i"
        by (rule touch_slot_ok [of ?s1 ?i H]) (use ok' i' reach1 in simp_all)
      have "sum_list (map coinbase_bytes (se_slots s')) \<le> u64_max"
        using slots_bytes_le [OF t(3)] t(2) ok' by (simp add: MAX_JOB_SLOTS_def)
      then show thesis using that [of "s'\<lparr>se_coinbase_bytes := sum_list (map coinbase_bytes (se_slots s'))\<rparr>"] t ok' i' sum1 True
        by (simp add: s2_def sum_u64_eq)
    next
      case False
      have "coinbase_bytes ?old \<le> se_coinbase_bytes s" using ok' i' member_le_sum_list_map [of ?old "se_slots s" coinbase_bytes] by simp
      moreover have "sum_list (map coinbase_bytes (se_slots ?s1)) \<le> u64_max"
        using slots_bytes_le [OF reach1] ok' by (simp add: MAX_JOB_SLOTS_def)
      ultimately have "sat_add64 (se_coinbase_bytes ?s1 - coinbase_bytes ?old) (coinbase_bytes slot) = sum_list (map coinbase_bytes (se_slots ?s1))"
        using sum1 by (simp add: sat_add64_def)
      then show thesis
        using that [of "?s1\<lparr>se_coinbase_bytes := sum_list (map coinbase_bytes (se_slots ?s1))\<rparr>"] False ok' i' sum1 reach1
        by (simp add: s2_def)
    qed
    have eq: "take_sections cfg p s = Some (if ab_coinbase_added ab \<noteq> None \<and> se_coinbase_bytes s2' > ?budget
        then (Some REJECT_COINBASE_TOO_LARGE, drop_coinbase ?i (ab_coinbase_added ab) s2') else (None, s2'))"
      using s2'(1) Inr a unfolding s2_def by (auto simp: take_sections_def Let_def split: if_splits)
    show ?thesis
    proof (cases "ab_coinbase_added ab")
      case None
      then show ?thesis using that [of None s2'] eq s2' absorb_bytes(1) [OF a [unfolded Inr]] ok' by (simp add: sections_ok_def)
    next
      case (Some c)
      let ?d = "drop_coinbase ?i (Some c) s2'"
      have "se_coinbase_bytes ?d \<le> ?budget"
        using drop_coinbase_ok(2) [of ?i s2' c] s2' i absorb_bytes(2) [OF a [unfolded Inr] Some] ok' by simp
      moreover have "list_all (slot_reach H) (se_slots ?d)"
        using s2'(3) slot s2'(8) by (auto simp: drop_coinbase_def Let_def list_all_iff dest!: set_update_subset_insert [THEN subsetD] intro: slot_reach.forgets)
      ultimately have "sections_ok H ?budget ?d"
        using s2' i drop_coinbase_ok(1) [of ?i s2' c] by (simp add: sections_ok_def) (simp add: drop_coinbase_def Let_def)
      then show ?thesis using that [of _ ?d] that [of None s2'] eq Some s2' by (cases "se_coinbase_bytes s2' > ?budget") (auto simp: sections_ok_def)
    qed
  qed
qed

section \<open>Held only on one payout\<close>

fun note_votes :: "session_env \<Rightarrow> (nat \<times> string \<times> u64) list \<Rightarrow> session \<times> pool \<Rightarrow> session \<times> pool" where
  "note_votes E [] x = x"
| "note_votes E ((t, ident, work) # vs) x = note_votes E vs (note_identity E t ident work x)"

lemma note_votes_snoc: "note_votes E (vs @ [(t, ident, work)]) x = note_identity E t ident work (note_votes E vs x)"
  by (induction E vs x rule: note_votes.induct) simp_all

definition order_law :: "session_env \<Rightarrow> bool" where
  "order_law E \<longleftrightarrow> (\<forall>xs. mset (en_order E xs) = mset xs)"

lemma order_single: "order_law E \<Longrightarrow> en_order E [x] = [x]"
  unfolding order_law_def by (metis mset_single_iff_right mset.simps(1) mset.simps(2) add_mset_add_single)

definition one_voter :: "session_env \<Rightarrow> (nat \<times> string \<times> u64) list \<Rightarrow> session \<Rightarrow> bool" where
  "one_voter E vs s \<longleftrightarrow> (case vs of
     [] \<Rightarrow> se_identity_work s = [] \<and> se_held s = Some \<lparr>hp_shares = 0, hp_on = None\<rparr>
   | v # _ \<Rightarrow>
       if list_all (\<lambda>x. fst (snd x) = fst (snd v)) vs
       then (\<exists>w. se_identity_work s = [(fst (snd v), w)]) \<and> se_held s = Some \<lparr>hp_shares = length vs,
          hp_on = if length vs \<ge> HELD_SPLIT_SHARES then payout_script E (fst (snd v)) else None\<rparr>
       else length (se_identity_work s) \<ge> 2 \<and> se_held s \<noteq> None)"

lemma note_identity_work:
  "se_identity_work (fst (note_identity E t i w (s, P))) =
     (if length (se_identity_work s) \<ge> MAX_SESSION_IDENTITIES \<and> map_of (se_identity_work s) i = None then se_identity_work s
      else se_identity_work (add_identity_work i w s))"
  by (auto simp: note_identity_def note_held_def Let_def split: option.splits prod.splits)

lemma note_identity_held:
  assumes "\<not> (length (se_identity_work s) \<ge> MAX_SESSION_IDENTITIES \<and> map_of (se_identity_work s) i = None)"
    "dominant E (add_identity_work i w s) = Some who" "se_held s = Some h"
  shows "se_held (fst (note_identity E t i w (s, P)))
    = Some (snd (hp_note (length (se_identity_work (add_identity_work i w s))) (payout_script E who) h))"
  using assms by (auto simp: note_identity_def note_held_def Let_def add_identity_work_def split: option.splits prod.splits)

lemma note_identity_some_held: "se_held s \<noteq> None \<Longrightarrow> se_held (fst (note_identity E t i w (s, P))) \<noteq> None"
  by (auto simp: note_identity_def note_held_def Let_def add_identity_work_def split: option.splits prod.splits)

lemma length_update_ge: "length xs \<le> length (AList.update k v xs)"
  by (induction xs) auto

lemma hp_note_one:
  "snd (hp_note 1 script \<lparr>hp_shares = n, hp_on = if n \<ge> HELD_SPLIT_SHARES then script else None\<rparr>)
    = \<lparr>hp_shares = Suc n, hp_on = if Suc n \<ge> HELD_SPLIT_SHARES then script else None\<rparr>"
  by (cases script) (auto simp: hp_note_def Let_def)

lemma one_voter_step:
  assumes "order_law E" "one_voter E vs s"
  shows "one_voter E (vs @ [(t, i, w)]) (fst (note_identity E t i w (s, P)))"
proof -
  let ?s = "fst (note_identity E t i w (s, P))"
  have dom_one: "dominant E (add_identity_work i w s) = Some i" if "se_identity_work (add_identity_work i w s) = [(i, x)]" for x
    using that by (simp add: dominant_def order_single [OF assms(1)])
  have again: "(\<exists>x. se_identity_work ?s = [(i, x)]) \<and> se_held ?s = Some \<lparr>hp_shares = Suc n,
      hp_on = if Suc n \<ge> HELD_SPLIT_SHARES then payout_script E i else None\<rparr>"
    if iw: "se_identity_work s = [] \<and> n = 0 \<or> (\<exists>x. se_identity_work s = [(i, x)])"
      and h: "se_held s = Some \<lparr>hp_shares = n, hp_on = if n \<ge> HELD_SPLIT_SHARES then payout_script E i else None\<rparr>" for n
  proof -
    obtain x where x: "se_identity_work (add_identity_work i w s) = [(i, x)]" using iw by (auto simp: add_identity_work_def)
    have few: "\<not> (length (se_identity_work s) \<ge> MAX_SESSION_IDENTITIES \<and> map_of (se_identity_work s) i = None)"
      using iw by (auto simp: MAX_SESSION_IDENTITIES_def)
    show ?thesis using note_identity_work [of E t i w s P] note_identity_held [OF few dom_one [OF x] h, of t P] few x hp_note_one [of "payout_script E i" n]
      by simp
  qed
  show ?thesis
  proof (cases vs)
    case Nil
    then show ?thesis using again [of 0] assms(2) by (simp add: one_voter_def HELD_SPLIT_SHARES_def)
  next
    case (Cons v vs')
    let ?j = "fst (snd v)"
    show ?thesis
    proof (cases "list_all (\<lambda>x. fst (snd x) = ?j) vs")
      case True
      show ?thesis
      proof (cases "i = ?j")
        case True
        then show ?thesis using again [of "length vs"] assms(2) \<open>list_all _ vs\<close> by (simp add: one_voter_def Cons)
      next
        case False
        have two: "length (se_identity_work ?s) = 2" "se_held s \<noteq> None"
          using assms(2) True False unfolding note_identity_work by (auto simp: one_voter_def Cons add_identity_work_def MAX_SESSION_IDENTITIES_def)
        then show ?thesis using False note_identity_some_held [OF two(2)] by (simp add: one_voter_def Cons)
      qed
    next
      case False
      have two: "2 \<le> length (se_identity_work s)" "se_held s \<noteq> None" using assms(2) False by (auto simp: one_voter_def Cons split: if_splits)
      then have "2 \<le> length (se_identity_work ?s)" unfolding note_identity_work using le_trans [OF _ length_update_ge] by (auto simp: add_identity_work_def)
      then show ?thesis using False note_identity_some_held [OF two(2)] by (auto simp: one_voter_def Cons)
    qed
  qed
qed

lemma one_voter_votes:
  assumes "order_law E" "one_voter E [] s"
  shows "one_voter E vs (fst (note_votes E vs (s, P)))"
proof (induction vs rule: rev_induct)
  case (snoc v vs)
  obtain t i w where v: "v = (t, i, w)" by (cases v)
  obtain s' P' where n: "note_votes E vs (s, P) = (s', P')" by fastforce
  show ?case using one_voter_step [OF assms(1), of vs s' t i w P'] snoc n by (simp add: v note_votes_snoc)
qed (use assms in simp)

lemma held_script_votes:
  assumes "order_law E" "se_identity_work s = []" "se_held s = Some \<lparr>hp_shares = 0, hp_on = None\<rparr>"
  shows "held_script (fst (note_votes E vs (s, P))) = Some x
    \<longleftrightarrow> length vs \<ge> HELD_SPLIT_SHARES \<and> (\<exists>i. list_all (\<lambda>v. fst (snd v) = i) vs \<and> payout_script E i = Some x)"
proof -
  have "one_voter E vs (fst (note_votes E vs (s, P)))" using assms by (intro one_voter_votes) (simp_all add: one_voter_def)
  then show ?thesis
    by (cases vs) (auto simp: one_voter_def held_script_def hp_script_def HELD_SPLIT_SHARES_def list_all_iff split: if_splits)
qed

text \<open>
  A gateway that places no split is left paying itself exactly when its shares show it may be: its session is held on a script
  if and only if at least sixteen shares with work have come in, every one of them names the same payout, and that payout's
  script is the one (and not the pool's). One share that names another payout ends it.
\<close>

theorem held_only_on_one_payout:
  assumes "order_law E" "se_identity_work s = []" "se_held s = Some \<lparr>hp_shares = 0, hp_on = None\<rparr>"
  shows "held_script (fst (note_votes E vs (s, P))) = Some x
    \<longleftrightarrow> length vs \<ge> HELD_SPLIT_SHARES \<and> (\<exists>i. list_all (\<lambda>v. fst (snd v) = i) vs \<and> payout_script E i = Some x)"
  by (rule held_script_votes [OF assms])

lemma note_votes_pins: "se_pins_script (fst (note_votes E vs x)) = se_pins_script (fst x)"
proof (induction E vs x rule: note_votes.induct)
  case (2 E t i w vs x)
  have "se_pins_script (fst (note_identity E t i w x)) = se_pins_script (fst x)"
    by (cases x) (auto simp: note_identity_def note_held_def add_identity_work_def Let_def split: option.splits prod.splits)
  then show ?case using 2 by simp
qed simp

text \<open>
  The documentation of \<^verbatim>\<open>pins_script\<close> says that such a session is never configured with its own payout. A session that opens
  with both \<^verbatim>\<open>pins_script\<close> (from an earlier session of the same key) and a held-split build is, once sixteen shares name one payout.
\<close>

lemma pinned_session_held_on_itself:
  assumes "order_law E" "payout_script E i = Some x"
    and "s = new_session t 1 remote he token known_script (Some \<lparr>hp_shares = 0, hp_on = None\<rparr>) True None"
    and "s' = fst (note_votes E (replicate 16 (t, i, w)) (s, P))"
  shows "se_pins_script s' \<and> follow_held_split E t False s' = send_configure_script E t x True s'"
proof -
  have "held_script s' = Some x"
    unfolding assms(4) using assms(1-3) by (subst held_script_votes) (auto simp: new_session_def HELD_SPLIT_SHARES_def list_all_iff)
  then show ?thesis using assms(3) by (simp add: assms(4) note_votes_pins follow_held_split_def) (simp add: new_session_def)
qed

text \<open>
  A comment of \<^verbatim>\<open>on_pow\<close> says that only the sixteen most recently started slots keep their sections. A slot that was evicted
  keeps its job, so a share that sends its section again fills it without making it one of the sixteen.
\<close>

lemma evicted_slot_refills:
  assumes "se_live_slots s = k # ls" "length ls = 15" "i \<notin> set (k # ls)" "distinct (k # ls)" "k < length (se_slots s)"
    and "sl_job (se_slots s ! k) = Some j" "touch_slot i s = Some s1"
    and "ps_job_id p = k" "ps_job p = Some j" "ps_coinbase p = Some c" "section_bytes c \<le> MAX_COINBASE_SECTION_BYTES"
    and "se_coinbase_bytes s1 + section_bytes c \<le> cf_session_coinbase_budget cfg" "cf_session_coinbase_budget cfg \<le> u64_max"
  shows "\<exists>s2. take_sections cfg p s1 = Some (None, s2) \<and> k \<notin> set (se_live_slots s2)
    \<and> sl_coinbases (se_slots s2 ! k) = [(cs_coinbase_id c, c)]"
proof -
  have fil: "filter (\<lambda>x. x \<noteq> i) (k # ls) = k # ls" using assms(3) by (auto intro: filter_True)
  have stay: "evict_loop (ls @ [i]) sl = Some (ls @ [i], sl)" for sl using assms(2) by (intro evict_loop_few) (simp add: MAX_LIVE_SLOTS_def)
  have s1: "s1 = s\<lparr>se_live_slots := ls @ [i], se_slots := (se_slots s)[k := evict_sections (se_slots s ! k)]\<rparr>"
    using assms(7) fil assms(1,2,5) stay by (auto simp: touch_slot_def MAX_LIVE_SLOTS_def split: if_splits)
  have slot: "se_slots s1 ! k = evict_sections (se_slots s ! k)" using assms(5) by (simp add: s1)
  have ab: "absorb p (se_slots s1 ! k) = ((evict_sections (se_slots s ! k))\<lparr>sl_coinbases := [(cs_coinbase_id c, c)]\<rparr>,
      Inr \<lparr>ab_job_changed = False, ab_coinbase_added = Some (cs_coinbase_id c)\<rparr>)"
    using assms(6,9-11) unfolding slot
    by (simp add: absorb_def absorb_job_def absorb_coinbase_def Let_def evict_sections_def MAX_COINBASES_PER_SLOT_def)
  have "coinbase_bytes (se_slots s1 ! k) = 0" unfolding slot by (rule bytes_evict)
  then show ?thesis using ab assms(1,3,4,5,8,12,13)
    by (simp add: take_sections_def Let_def) (simp add: s1 sat_add64_def coinbase_bytes_def)
qed

section \<open>Examples\<close>

definition ex_cfg :: session_cfg where
  "ex_cfg = \<lparr>cf_house_loopback = False, cf_house_gateways = [], cf_stratum_front_ips = [], cf_stratum_front_gateways = [],
     cf_held_split_builds = [], cf_class_budget = False, cf_class_budget_carry_ceiling = 0, cf_coinbase_tag = ascii ''pool'', cf_prime_id = 1,
     cf_min_diff = 1, cf_min_pot = 0, cf_stock_full_pool_only = ''owe'', cf_session_coinbase_budget = 4000000, cf_stale_grace_secs = 10,
     cf_split_tolerance = 0, cf_empty_solo_fee_bps = 0, cf_uncommitted_pot = 0, cf_coinbaser_delay_ms = 0, cf_grace = ex_grace,
     cf_quarantine = \<lparr>qc_minutes = 0, qc_max_hours = 0, qc_forget_hours = 0, qc_blocked = []\<rparr>, cf_require_split_gateway = False, cf_network = ''mainnet''\<rparr>"

definition ex_senv :: session_env where
  "ex_senv = \<lparr>en_pool = ex_env, en_cfg = ex_cfg, en_hashes = ex_hashes, en_pool_script = [0x51], en_order = \<lambda>xs. xs\<rparr>"

definition ex_client :: client_hello where
  "ex_client = \<lparr>he_identity_sign_pk = [], he_identity_box_pk = [], he_session_sign_pk = [], he_session_box_pk = [], he_user_agent = [],
     he_seed = 0, he_generation = Convoy, he_resume_token = None\<rparr>"

definition ex_session :: session where
  "ex_session = new_session 0 1 (V4 [10, 0, 0, 1]) ex_client [] None (Some \<lparr>hp_shares = 0, hp_on = None\<rparr>) False None"

definition ex_totals :: totals where
  "ex_totals = \<lparr>tt_connections = 0, tt_accepted = 0, tt_rejected = 0, tt_work = 0, tt_coinbasers = 0, tt_coinbasers_repeated = 0,
     tt_coinbasers_over_rate = 0, tt_class_budget_replies = 0, tt_class_budget_ceiling_replies = 0, tt_block_candidates = 0,
     tt_blocks_submitted = 0, tt_below_floor_shares = 0, tt_uncommitted_shares = 0, tt_pool_only_shares = 0, tt_pool_only_full_jobs = 0,
     tt_solo_empty_shares = 0, tt_solo_empty_work = 0, tt_solo_full_shares = 0, tt_solo_full_work = 0, tt_remainder_to_gateway_sats = 0,
     tt_dead_parent_shares = 0, tt_faulted_shares = 0, tt_template_checks = 0, tt_template_checks_failed = 0\<rparr>"

definition ex_world :: pool where
  "ex_world = \<lparr>pl_shared = ex_pool, pl_tip = None, pl_seen = no_shares, pl_faults = with_ttl 3600, pl_parents = [], pl_held_off = False,
     pl_gateways = [], pl_pinned = [], pl_quarantine = [], pl_totals = ex_totals, pl_notified = []\<rparr>"

lemma reject_flood_exact_witness:
  "fst (note_rejects ex_senv [1, 2, 20000] ex_session) = None
    \<longleftrightarrow> list_all (\<lambda>n. length (within_window (take n [1, 2, 20000])) \<le> REJECT_FLOOD) [1..<Suc (length [1, 2, 20000 :: nat])]"
  by (rule reject_flood_exact) (simp_all add: ex_senv_def ex_cfg_def ex_session_def new_session_def house_stratum_def)

lemma held_only_on_one_payout_witness:
  "held_script (fst (note_votes ex_senv (replicate 16 (1, ''BC1QA'', 1)) (ex_session, ex_world))) = Some [0, 2, 1, 2]"
proof -
  have "order_law ex_senv" "se_identity_work ex_session = []" "se_held ex_session = Some \<lparr>hp_shares = 0, hp_on = None\<rparr>"
    by (simp_all add: order_law_def ex_senv_def ex_session_def new_session_def)
  moreover have "payout_script ex_senv ''BC1QA'' = Some [0, 2, 1, 2]"
    using ex_script_of by (simp add: payout_script_def ex_senv_def ex_env_def)
  ultimately show ?thesis by (subst held_only_on_one_payout) (auto simp: HELD_SPLIT_SHARES_def list_all_iff)
qed

end
