(* ===== verification/Primed_Coinbaser.thy ===== *)
theory Primed_Coinbaser
  imports Primed_Session Wire_Coinbaser
begin

text \<open>
  Coinbaser requests of a session, \<^verbatim>\<open>prime/primed/src/session.rs\<close>: which answer a request gets (\<^verbatim>\<open>coinbaser_action\<close>), the
  reply (\<^verbatim>\<open>on_coinbaser_request\<close>, \<^verbatim>\<open>send_coinbaser_reply\<close>, \<^verbatim>\<open>flush_coinbaser_reply\<close>), the replies kept in hand and the one a job
  is held to (\<^verbatim>\<open>issued_for\<close>). The log of slow replies is not modelled. The sums of heights in \<open>issued_for\<close> are far below their
  width and are plain additions.
\<close>

section \<open>Model\<close>

definition COINBASERS_KEPT :: usize where "COINBASERS_KEPT = 16"
definition COINBASER_REFILL :: nat where "COINBASER_REFILL = 1000"
definition MAX_MONEY :: u64 where "MAX_MONEY = 2100000000000000"
definition OVER_RATE_COST :: usize where "OVER_RATE_COST = 10"
definition COINBASER_GRACE_BLOCKS :: u32 where "COINBASER_GRACE_BLOCKS = 2"

datatype coinbaser_act = FreshReply | RepeatReply u8 | FreshOverRate

definition coinbaser_action :: "u32 \<Rightarrow> issued_coinbaser list \<Rightarrow> u64 \<Rightarrow> usize option \<Rightarrow> coinbaser_act" where
  "coinbaser_action tokens cs value budget =
     (if tokens > 0 then FreshReply
      else case find (\<lambda>c. ic_value c = value \<and> ic_class_budget c = budget) (rev cs) of
        Some c \<Rightarrow> RepeatReply (ic_id c) | None \<Rightarrow> FreshOverRate)"

definition issued :: "u8 \<Rightarrow> session \<Rightarrow> issued_coinbaser option" where
  "issued i s = find (\<lambda>c. ic_id c = i) (rev (se_coinbasers s))"

definition issued_for :: "u8 \<Rightarrow> byte list \<Rightarrow> u32 \<Rightarrow> session \<Rightarrow> issued_coinbaser option" where
  "issued_for i prev_hash height s = (case issued i s of None \<Rightarrow> None
     | Some c \<Rightarrow> if ic_prev_hash c = prev_hash \<or> ic_height c > 0 \<and> height \<le> ic_height c + COINBASER_GRACE_BLOCKS then Some c else None)"

definition refill_tokens :: "nat \<Rightarrow> session \<Rightarrow> session" where
  "refill_tokens t s = (let elapsed = t - se_coinbaser_refill_at s in
     if elapsed \<ge> COINBASER_REFILL
     then s\<lparr>se_coinbaser_tokens := min (sat_add32 (se_coinbaser_tokens s) (min (elapsed div COINBASER_REFILL) u32_max)) COINBASER_BURST,
            se_coinbaser_refill_at := t\<rparr>
     else s)"

definition expire_class_budget :: "nat \<Rightarrow> session \<Rightarrow> session" where
  "expire_class_budget t s = (case se_class_budget s of None \<Rightarrow> s
     | Some b \<Rightarrow> s\<lparr>se_class_budget := Some (snd (expire t b))\<rparr>)"

definition base_total_carry :: "base_snapshot \<Rightarrow> u64" where
  "base_total_carry b = foldl (\<lambda>a m. sat_add64 a (ms_carry m)) 0 (bs_miners b)"

definition flush_coinbaser_reply :: "session_env \<Rightarrow> nat \<Rightarrow> u64 \<Rightarrow> byte list \<Rightarrow> byte list \<Rightarrow> session \<Rightarrow> session" where
  "flush_coinbaser_reply E t value encoded prev_hash s =
     (let s1 = s\<lparr>se_restore_script_at := None\<rparr>;
          s2 = (case held_script s1 of
              Some script \<Rightarrow> if se_configured_as_gateway s1 then s1 else send_configure_script E t script True s1
            | None \<Rightarrow> if stay_on_gateway (en_cfg E) s1 then s1 else send_configure_script E t (en_pool_script E) False s1)
      in (send_mining t (coinbaser_reply value encoded) False s2)\<lparr>se_split_ready := True, se_last_split_prev := Some (hex_of (rev prev_hash))\<rparr>)"

definition send_coinbaser_reply :: "session_env \<Rightarrow> nat \<Rightarrow> u64 \<Rightarrow> byte list \<Rightarrow> byte list \<Rightarrow> session \<Rightarrow> session" where
  "send_coinbaser_reply E t value encoded prev_hash s = (let delay = cf_coinbaser_delay_ms (en_cfg E) in
     if delay \<noteq> 0
     then s\<lparr>se_pending_coinbaser := Some (value, encoded, prev_hash),
            se_coinbaser_send_at := (case se_coinbaser_send_at s of None \<Rightarrow> Some (t + delay) | Some a \<Rightarrow> Some a)\<rparr>
     else flush_coinbaser_reply E t value encoded prev_hash s)"

text \<open>The timer of a delayed reply.\<close>

definition on_coinbaser_due :: "session_env \<Rightarrow> nat \<Rightarrow> session \<Rightarrow> session" where
  "on_coinbaser_due E t s = (case se_pending_coinbaser s of
     None \<Rightarrow> s\<lparr>se_coinbaser_send_at := None\<rparr>
   | Some (value, encoded, prev) \<Rightarrow>
       flush_coinbaser_reply E t value encoded prev (s\<lparr>se_coinbaser_send_at := None, se_pending_coinbaser := None\<rparr>))"

definition tick_up :: "(totals \<Rightarrow> totals) \<Rightarrow> pool \<Rightarrow> pool" where
  "tick_up f P = P\<lparr>pl_totals := f (pl_totals P)\<rparr>"

definition pool_base :: "session_env \<Rightarrow> nat \<Rightarrow> pool \<Rightarrow> (base_snapshot \<times> pool) option" where
  "pool_base E t P = map_option (\<lambda>(b, sh). (b, P\<lparr>pl_shared := sh\<rparr>)) (coinbaser_base (en_pool E) t (pl_shared P))"

fun note_reject_times :: "nat \<Rightarrow> session_env \<Rightarrow> nat \<Rightarrow> session \<Rightarrow> session_error option \<times> session" where
  "note_reject_times 0 E t s = (None, s)"
| "note_reject_times (Suc n) E t s = (case note_reject E t s of (Some e, s1) \<Rightarrow> (Some e, s1) | (None, s1) \<Rightarrow> note_reject_times n E t s1)"

text \<open>A fresh split under the next id, sent and kept.\<close>

definition next_id :: "u8 \<Rightarrow> u8" where
  "next_id i = (if i = 255 then 1 else i + 1)"

definition keep_coinbaser :: "issued_coinbaser \<Rightarrow> session \<Rightarrow> session" where
  "keep_coinbaser c s = (let cs = se_coinbasers s @ [c] in s\<lparr>se_coinbasers := drop (length cs - COINBASERS_KEPT) cs\<rparr>)"

definition issue_coinbaser ::
  "session_env \<Rightarrow> nat \<Rightarrow> u64 \<Rightarrow> u64 \<Rightarrow> byte list \<Rightarrow> usize option \<Rightarrow> usize option \<Rightarrow> base_snapshot option \<Rightarrow> session \<times> pool \<Rightarrow> (session \<times> pool) option" where
  "issue_coinbaser E t now value prev_hash learned budget base = (\<lambda>(s, P). do {
     let i = se_next_coinbaser_id s;
     let s1 = s\<lparr>se_next_coinbaser_id := next_id i\<rparr>;
     (b, P1) \<leftarrow> (case base of Some b \<Rightarrow> Some (b, P) | None \<Rightarrow> pool_base E t P);
     split \<leftarrow> compute (bs_miners b) (bs_total_work b) value (class_params (ev_params (en_pool E)) budget) (bs_rebate_owed b)
       (now mod 4294967296) (bs_scripts b);
     let outputs = coinbaser_outputs split (en_pool_script E);
     let s2 = send_coinbaser_reply E t value (encode_v2 i outputs) prev_hash s1;
     let P2 = (if budget \<noteq> None then tick_up (\<lambda>T. T\<lparr>tt_class_budget_replies := tt_class_budget_replies T + 1\<rparr>) P1
       else if learned \<noteq> None then tick_up (\<lambda>T. T\<lparr>tt_class_budget_ceiling_replies := tt_class_budget_ceiling_replies T + 1\<rparr>) P1 else P1);
     height \<leftarrow> (case pl_tip P2 of None \<Rightarrow> Some 0 | Some T \<Rightarrow> chk u32_max (tp_height (ts_tip T) + 1));
     let c = \<lparr>ic_id = i, ic_value = value, ic_prev_hash = prev_hash, ic_height = height, ic_outputs = outputs,
       ic_payees = sl_payees split, ic_unpaid = sl_unpaid split, ic_rebate_credits = sl_rebate_credits split,
       ic_rebate_owed_credited = sl_rebate_owed_credited split, ic_rebate_deferred = sl_rebate_deferred split, ic_class_budget = budget\<rparr>;
     Some (keep_coinbaser c s2, tick_up (\<lambda>T. T\<lparr>tt_coinbasers := tt_coinbasers T + 1\<rparr>) P2) })"

text \<open>The class budget a reply is held to: what was learned, the snapshot if one was taken for it, and the budget while carry is low.\<close>

definition settle_budget ::
  "session_env \<Rightarrow> nat \<Rightarrow> session \<times> pool \<Rightarrow> ((usize option \<times> usize option \<times> base_snapshot option) \<times> pool) option" where
  "settle_budget E t = (\<lambda>(s, P). case reply_class_budget (en_cfg E) s of
     None \<Rightarrow> Some ((None, None, None), P)
   | Some n \<Rightarrow> do {
       (b, P1) \<leftarrow> pool_base E t P;
       let (isopen, off) = class_budget_open (pl_held_off P1) (base_total_carry b) (cf_class_budget_carry_ceiling (en_cfg E));
       Some ((Some n, if isopen then Some n else None, Some b), P1\<lparr>pl_held_off := off\<rparr>) })"

definition over_rate :: "pool \<Rightarrow> pool" where
  "over_rate = tick_up (\<lambda>T. T\<lparr>tt_coinbasers_over_rate := tt_coinbasers_over_rate T + 1\<rparr>)"

text \<open>The answer once the budget is settled: fresh inside the bucket, else a repeat, else fresh and counted.\<close>

definition answer_request ::
  "session_env \<Rightarrow> nat \<Rightarrow> u64 \<Rightarrow> u64 \<Rightarrow> byte list \<Rightarrow> usize option \<Rightarrow> usize option \<Rightarrow> base_snapshot option \<Rightarrow> session \<times> pool
    \<Rightarrow> (session_error option \<times> session \<times> pool) option" where
  "answer_request E t now value prev_hash learned budget base = (\<lambda>(s, P).
     let issue = issue_coinbaser E t now value prev_hash learned budget base in
     case coinbaser_action (se_coinbaser_tokens s) (se_coinbasers s) value budget of
       FreshReply \<Rightarrow> map_option (Pair None) (issue (s\<lparr>se_coinbaser_tokens := se_coinbaser_tokens s - 1\<rparr>, P))
     | RepeatReply prev_id \<Rightarrow>
         (case find (\<lambda>c. ic_id c = prev_id \<and> ic_value c = value \<and> ic_class_budget c = budget \<and> ic_outputs c \<noteq> []) (rev (se_coinbasers s)) of
            Some c \<Rightarrow> Some (None, send_coinbaser_reply E t value (encode_v2 (ic_id c) (ic_outputs c)) prev_hash s,
              tick_up (\<lambda>T. T\<lparr>tt_coinbasers_repeated := tt_coinbasers_repeated T + 1\<rparr>) P)
          | None \<Rightarrow> map_option (Pair None) (issue (s, over_rate P)))
     | FreshOverRate \<Rightarrow>
         (case note_reject_times OVER_RATE_COST E t s of
            (Some e, s1) \<Rightarrow> Some (Some e, s1, over_rate P)
          | (None, s1) \<Rightarrow> map_option (Pair None) (issue (s1, over_rate P))))"

definition on_coinbaser_request ::
  "session_env \<Rightarrow> nat \<Rightarrow> u64 \<Rightarrow> u64 \<Rightarrow> byte list \<Rightarrow> session \<times> pool \<Rightarrow> (session_error option \<times> session \<times> pool) option" where
  "on_coinbaser_request E t now value prev_hash = (\<lambda>(s, P).
     if value = 0 \<or> value > MAX_MONEY then (case note_reject E t s of (e, s1) \<Rightarrow> Some (e, s1, P))
     else do {
       let s1 = expire_class_budget t (refill_tokens t s);
       ((learned, budget, base), P1) \<leftarrow> settle_budget E t (s1, P);
       answer_request E t now value prev_hash learned budget base (s1, P1) })"

section \<open>Replies in hand\<close>

definition ids_in_turn :: "u8 list \<Rightarrow> u8 \<Rightarrow> bool" where
  "ids_in_turn is n \<longleftrightarrow> (\<exists>b. is = map (\<lambda>k. (b + k) mod 255 + 1) [0..<length is] \<and> n = (b + length is) mod 255 + 1)"

definition reply_whole :: "issued_coinbaser \<Rightarrow> bool" where
  "reply_whole c \<longleftrightarrow> 0 < ic_value c \<and> ic_outputs c \<noteq> [] \<and> sum_list (map op_sats (ic_outputs c)) = ic_value c"

definition coinbasers_ok :: "session \<Rightarrow> bool" where
  "coinbasers_ok s \<longleftrightarrow> length (se_coinbasers s) \<le> COINBASERS_KEPT
     \<and> ids_in_turn (map ic_id (se_coinbasers s)) (se_next_coinbaser_id s) \<and> list_all reply_whole (se_coinbasers s)"

lemma next_id_turn: "next_id (n mod 255 + 1) = Suc n mod 255 + 1"
  by (auto simp: next_id_def mod_Suc)

lemma ids_in_turn_snoc: "ids_in_turn is n \<Longrightarrow> ids_in_turn (is @ [n]) (next_id n)"
proof -
  assume "ids_in_turn is n"
  then obtain b where "is = map (\<lambda>k. (b + k) mod 255 + 1) [0..<length is]" "n = (b + length is) mod 255 + 1" by (auto simp: ids_in_turn_def)
  then show ?thesis using next_id_turn [of "b + length is"] unfolding ids_in_turn_def by (intro exI [of _ b]) simp
qed

lemma ids_in_turn_drop:
  assumes "ids_in_turn is n" "k \<le> length is"
  shows "ids_in_turn (drop k is) n"
proof -
  obtain b where b: "is = map (\<lambda>k. (b + k) mod 255 + 1) [0..<length is]" "n = (b + length is) mod 255 + 1"
    using assms(1) by (auto simp: ids_in_turn_def)
  have "drop k is = map (\<lambda>j. (b + k + j) mod 255 + 1) [0..<length is - k]"
  proof (rule nth_equalityI)
    show "drop k is ! j = map (\<lambda>j. (b + k + j) mod 255 + 1) [0..<length is - k] ! j" if "j < length (drop k is)" for j
      using that assms(2) by (subst b(1)) (simp add: add.assoc less_diff_conv add.commute [of j])
  qed simp
  then show ?thesis using b(2) assms(2) unfolding ids_in_turn_def by (intro exI [of _ "b + k"]) (simp add: add.assoc)
qed

lemma mod_add_inj:
  assumes "(b + x) mod m = (b + y) mod m" "x < m" "y < (m :: nat)"
  shows "x = y"
proof -
  have "y' \<le> x'" if "(b + x') mod m = (b + y') mod m" "y' < m" "x' \<le> y'" for x' y'
  proof -
    have "m dvd y' - x'" using that mod_eq_dvd_iff_nat [of "b + x'" "b + y'" m] by simp
    then show ?thesis using that(2) by (metis nat_dvd_not_less less_imp_diff_less not_le zero_less_diff)
  qed
  then show ?thesis using assms nle_le by metis
qed

lemma ids_in_turn_distinct:
  assumes "ids_in_turn is n" "length is \<le> 16"
  shows "distinct (is @ [n])"
proof -
  obtain b where b: "is = map (\<lambda>k. (b + k) mod 255 + 1) [0..<length is]" "n = (b + length is) mod 255 + 1"
    using assms(1) by (auto simp: ids_in_turn_def)
  have eq: "is @ [n] = map (\<lambda>k. (b + k) mod 255 + 1) [0..<Suc (length is)]" using b by simp
  have "inj_on (\<lambda>k. (b + k) mod 255 + 1) (set [0..<Suc (length is)])"
  proof (rule inj_onI)
    fix x y assume *: "x \<in> set [0..<Suc (length is)]" "y \<in> set [0..<Suc (length is)]" "(b + x) mod 255 + 1 = (b + y) mod 255 + 1"
    then have "(b + x) mod 255 = (b + y) mod 255" "x < 255" "y < 255" using assms(2) by auto
    then show "x = y" by (rule mod_add_inj)
  qed
  then show ?thesis unfolding eq distinct_map by simp
qed

lemma find_rev_distinct:
  assumes "distinct (map f xs)" "x \<in> set xs"
  shows "find (\<lambda>y. f y = f x) (rev xs) = Some x"
proof -
  have "f y = f x \<Longrightarrow> y \<in> set xs \<Longrightarrow> y = x" for y using assms by (auto simp: distinct_map inj_on_def)
  moreover obtain z where "find (\<lambda>y. f y = f x) (rev xs) = Some z" using assms(2) by (cases "find (\<lambda>y. f y = f x) (rev xs)") (auto simp: find_None_iff)
  ultimately show ?thesis by (auto simp: find_Some_iff nth_mem) (metis nth_mem set_rev length_rev)
qed

lemma coinbasers_ok_distinct: "coinbasers_ok s \<Longrightarrow> distinct (map ic_id (se_coinbasers s))"
  using ids_in_turn_distinct by (fastforce simp: coinbasers_ok_def COINBASERS_KEPT_def)

lemma issued_in_hand: "coinbasers_ok s \<Longrightarrow> c \<in> set (se_coinbasers s) \<Longrightarrow> issued (ic_id c) s = Some c"
  unfolding issued_def by (rule find_rev_distinct [OF coinbasers_ok_distinct])

lemma keep_coinbaser_ok:
  assumes "coinbasers_ok s" "ic_id c = se_next_coinbaser_id s" "reply_whole c"
  shows "coinbasers_ok (keep_coinbaser c (s\<lparr>se_next_coinbaser_id := next_id (se_next_coinbaser_id s)\<rparr>))"
    and "c \<in> set (se_coinbasers (keep_coinbaser c s))"
proof -
  let ?cs = "se_coinbasers s @ [c]" and ?k = "length (se_coinbasers s @ [c]) - COINBASERS_KEPT"
  have "ids_in_turn (map ic_id ?cs) (next_id (se_next_coinbaser_id s))"
    using assms(1,2) ids_in_turn_snoc by (simp add: coinbasers_ok_def)
  then have "ids_in_turn (map ic_id (drop ?k ?cs)) (next_id (se_next_coinbaser_id s))"
    unfolding drop_map [symmetric] by (rule ids_in_turn_drop) simp
  moreover have "list_all reply_whole (drop ?k ?cs)"
    using assms(1,3) by (auto simp: coinbasers_ok_def list_all_iff dest!: in_set_dropD simp del: drop_append)
  ultimately show "coinbasers_ok (keep_coinbaser c (s\<lparr>se_next_coinbaser_id := next_id (se_next_coinbaser_id s)\<rparr>))"
    by (simp add: coinbasers_ok_def keep_coinbaser_def Let_def del: drop_append)
  show "c \<in> set (se_coinbasers (keep_coinbaser c s))"
    by (simp add: keep_coinbaser_def Let_def COINBASERS_KEPT_def)
qed

section \<open>Replies on the wire\<close>

lemma send_configure_sent: "se_sent (send_configure_script E t x g s) = se_sent s @ [(True, configure_body (en_cfg E) x
    (if g then solo_tag (en_cfg E) else cf_coinbase_tag (en_cfg E)) s)]"
  by (simp add: send_configure_script_def send_mining_def Let_def)

lemma send_frame [simp]:
  "se_coinbasers (send_configure_script E t x g s) = se_coinbasers s"
  "se_next_coinbaser_id (send_configure_script E t x g s) = se_next_coinbaser_id s"
  "se_coinbasers (send_mining t m b s) = se_coinbasers s" "se_next_coinbaser_id (send_mining t m b s) = se_next_coinbaser_id s"
  "se_sent (send_mining t m b s) = se_sent s @ [(b, m)]"
  by (simp_all add: send_configure_script_def send_mining_def Let_def)

lemma flush_frame [simp]:
  "se_coinbasers (flush_coinbaser_reply E t v e p s) = se_coinbasers s"
  "se_next_coinbaser_id (flush_coinbaser_reply E t v e p s) = se_next_coinbaser_id s"
  by (simp_all add: flush_coinbaser_reply_def Let_def split: option.splits)

lemma flush_sent:
  "\<exists>m. se_sent (flush_coinbaser_reply E t v e p s) = se_sent s @ m @ [(False, coinbaser_reply v e)] \<and> length m \<le> 1"
  by (simp add: flush_coinbaser_reply_def Let_def send_configure_sent split: option.splits)

section \<open>A request is answered\<close>

definition base_fits :: "u64 \<Rightarrow> base_snapshot \<Rightarrow> bool" where
  "base_fits value b \<longleftrightarrow> work_sum (bs_miners b) \<le> bs_total_work b \<and> bs_total_work b \<le> u64_max
     \<and> value * (bs_total_work b * 10000) \<le> u128_max"

definition pool_fits :: "session_env \<Rightarrow> u64 \<Rightarrow> pool \<Rightarrow> bool" where
  "pool_fits E value P \<longleftrightarrow> params_ok (ev_params (en_pool E)) \<and> (\<exists>k. window_ok k (l_window (sh_ledger (pl_shared P))))
     \<and> value * (w_total_work (l_window (sh_ledger (pl_shared P))) * 10000) \<le> u128_max
     \<and> (case sh_base (pl_shared P) of None \<Rightarrow> True | Some b \<Rightarrow> base_fits value b)
     \<and> (case pl_tip P of None \<Rightarrow> True | Some T \<Rightarrow> tp_height (ts_tip T) < u32_max)"

lemma pool_base_fits:
  assumes "pool_fits E value P"
  obtains b P1 where "pool_base E t P = Some (b, P1)" "base_fits value b" "pool_fits E value P1"
proof (cases "case sh_base (pl_shared P) of Some b \<Rightarrow> t - bs_built_at b < COINBASER_BASE_TTL | None \<Rightarrow> False")
  case True
  then obtain b where b: "sh_base (pl_shared P) = Some b" "t - bs_built_at b < COINBASER_BASE_TTL" by (auto split: option.splits)
  show thesis by (rule that [of b "P\<lparr>pl_shared := pl_shared P\<rparr>"]) (use b assms in \<open>simp_all add: pool_base_def coinbaser_base_def pool_fits_def\<close>)
next
  case False
  let ?w = "l_window (sh_ledger (pl_shared P))"
  obtain k where k: "window_ok k ?w" using assms by (auto simp: pool_fits_def)
  obtain ms where ms: "miners ?w = Some ms" "sum_list (map ms_work ms) = w_total_work ?w" using miners_spec [OF k] by metis
  obtain b where b: "build_base (en_pool E) t ?w = Some b" "bs_miners b = ms" "bs_total_work b = w_total_work ?w"
    using ms(1) by (simp add: build_base_def)
  have "w_total_work ?w \<le> u64_max" using k by (simp add: window_ok_def shares_ok_def)
  then have f: "base_fits value b" using b ms(2) assms by (simp add: base_fits_def pool_fits_def)
  show thesis
    by (rule that [of b "P\<lparr>pl_shared := (pl_shared P)\<lparr>sh_base := Some b\<rparr>\<rparr>"])
      (use False b f assms in \<open>auto simp: pool_base_def coinbaser_base_def pool_fits_def split: option.splits\<close>)
qed

lemma pool_fits_tick [simp]:
  "pool_fits E value (tick_up f P) = pool_fits E value P" "pool_fits E value (P\<lparr>pl_held_off := x\<rparr>) = pool_fits E value P"
  "pl_tip (tick_up f P) = pl_tip P"
  by (simp_all add: pool_fits_def tick_up_def)

lemma class_params_ok: "params_ok (class_params p k) = params_ok p"
  by (simp add: class_params_def params_ok_def split: option.splits)

lemma outputs_whole:
  assumes "sum_list (map py_sats (sl_payees s)) + sl_pool_sats s = value" "0 < value"
  shows "coinbaser_outputs s ps \<noteq> []" "sum_list (map op_sats (coinbaser_outputs s ps)) = value"
  using assms by (auto simp: coinbaser_outputs_def Let_def comp_def max_def)

text \<open>The reply to a request: the last message sent, a whole split of the value, kept under its id.\<close>

definition answered :: "u64 \<Rightarrow> session \<Rightarrow> session \<Rightarrow> bool" where
  "answered value s s' \<longleftrightarrow> (\<exists>c m. se_sent s' = se_sent s @ m @ [(False, coinbaser_reply value (encode_v2 (ic_id c) (ic_outputs c)))]
     \<and> length m \<le> 1 \<and> issued (ic_id c) s' = Some c \<and> ic_value c = value \<and> reply_whole c)"

lemma issue_coinbaser_answers:
  assumes P: "pool_fits E value P" and s: "coinbasers_ok s" and v: "0 < value" "value \<le> MAX_MONEY"
    and base: "case base of None \<Rightarrow> True | Some b \<Rightarrow> base_fits value b" and d: "cf_coinbaser_delay_ms (en_cfg E) = 0"
  obtains s' P' where "issue_coinbaser E t now value prev learned budget base (s, P) = Some (s', P')" "coinbasers_ok s'" "answered value s s'"
proof -
  obtain b P1 where b: "(case base of Some b \<Rightarrow> Some (b, P) | None \<Rightarrow> pool_base E t P) = Some (b, P1)" "base_fits value b" "pool_fits E value P1"
    using base P pool_base_fits [OF P] by (cases base) auto
  let ?p = "class_params (ev_params (en_pool E)) budget"
  have p: "params_ok ?p" using P by (simp add: class_params_ok pool_fits_def)
  have vle: "value \<le> u64_max" using v by (simp add: MAX_MONEY_def)
  obtain sp where sp: "compute (bs_miners b) (bs_total_work b) value ?p (bs_rebate_owed b) (now mod 4294967296) (bs_scripts b) = Some sp"
    using compute_total [OF p _ _ vle, of "bs_miners b" "bs_total_work b"] b(2) unfolding base_fits_def by blast
  have whole: "sum_list (map py_sats (sl_payees sp)) + sl_pool_sats sp = value"
    using compute_pays(1) [OF sp p _ vle] b(2) by (simp add: base_fits_def)
  define P2 where "P2 = (if budget \<noteq> None then tick_up (\<lambda>T. T\<lparr>tt_class_budget_replies := tt_class_budget_replies T + 1\<rparr>) P1
    else if learned \<noteq> None then tick_up (\<lambda>T. T\<lparr>tt_class_budget_ceiling_replies := tt_class_budget_ceiling_replies T + 1\<rparr>) P1 else P1)"
  obtain h where h: "(case pl_tip P1 of None \<Rightarrow> Some 0 | Some T \<Rightarrow> chk u32_max (tp_height (ts_tip T) + 1)) = Some h"
    using b(3) by (auto simp: pool_fits_def split: option.splits)
  let ?i = "se_next_coinbaser_id s" and ?outs = "coinbaser_outputs sp (en_pool_script E)"
  let ?s1 = "s\<lparr>se_next_coinbaser_id := next_id ?i\<rparr>"
  let ?s2 = "flush_coinbaser_reply E t value (encode_v2 ?i ?outs) prev ?s1"
  define c where "c = \<lparr>ic_id = ?i, ic_value = value, ic_prev_hash = prev, ic_height = h, ic_outputs = ?outs,
       ic_payees = sl_payees sp, ic_unpaid = sl_unpaid sp, ic_rebate_credits = sl_rebate_credits sp,
       ic_rebate_owed_credited = sl_rebate_owed_credited sp, ic_rebate_deferred = sl_rebate_deferred sp, ic_class_budget = budget\<rparr>"
  have eq: "issue_coinbaser E t now value prev learned budget base (s, P)
      = Some (keep_coinbaser c ?s2, tick_up (\<lambda>T. T\<lparr>tt_coinbasers := tt_coinbasers T + 1\<rparr>) P2)"
    using b(1) sp h by (simp add: issue_coinbaser_def Let_def send_coinbaser_reply_def d c_def P2_def)
  have c: "reply_whole c" "ic_id c = ?i" "ic_value c = value" "ic_outputs c = ?outs"
    using outputs_whole [OF whole v(1)] v(1) by (simp_all add: c_def reply_whole_def)
  have same: "se_coinbasers (keep_coinbaser c ?s2) = se_coinbasers (keep_coinbaser c ?s1)"
      "se_next_coinbaser_id (keep_coinbaser c ?s2) = se_next_coinbaser_id (keep_coinbaser c ?s1)" "se_sent (keep_coinbaser c ?s2) = se_sent ?s2"
    by (simp_all add: keep_coinbaser_def Let_def)
  have ok: "coinbasers_ok (keep_coinbaser c ?s2)"
    using keep_coinbaser_ok(1) [OF s c(2,1)] unfolding coinbasers_ok_def same .
  have "c \<in> set (se_coinbasers (keep_coinbaser c ?s2))" using keep_coinbaser_ok(2) [OF s c(2,1)] by (simp add: keep_coinbaser_def Let_def)
  then have "issued ?i (keep_coinbaser c ?s2) = Some c" using issued_in_hand [OF ok] c(2) by metis
  then have "answered value s (keep_coinbaser c ?s2)"
    using flush_sent [of E t "value" "encode_v2 ?i ?outs" prev ?s1] c unfolding answered_def same by (auto intro!: exI [of _ c])
  then show thesis using that eq ok by blast
qed

lemma settle_budget_fits:
  assumes "pool_fits E value P"
  obtains learned budget base P1 where "settle_budget E t (s, P) = Some ((learned, budget, base), P1)" "pool_fits E value P1"
    "case base of None \<Rightarrow> True | Some b \<Rightarrow> base_fits value b"
proof (cases "reply_class_budget (en_cfg E) s")
  case None
  then show thesis using that assms by (simp add: settle_budget_def)
next
  case (Some n)
  obtain b P1 where "pool_base E t P = Some (b, P1)" "base_fits value b" "pool_fits E value P1" by (rule pool_base_fits [OF assms])
  moreover obtain isopen off where "class_budget_open (pl_held_off P1) (base_total_carry b) (cf_class_budget_carry_ceiling (en_cfg E)) = (isopen, off)"
    by fastforce
  ultimately show thesis using that [of "Some n" "if isopen then Some n else None" "Some b"] Some by (simp add: settle_budget_def)
qed

lemma request_frame [simp]:
  "se_coinbasers (refill_tokens t s) = se_coinbasers s" "se_next_coinbaser_id (refill_tokens t s) = se_next_coinbaser_id s"
  "se_sent (refill_tokens t s) = se_sent s" "se_remote (refill_tokens t s) = se_remote s" "se_gateway_key (refill_tokens t s) = se_gateway_key s"
  "se_coinbasers (expire_class_budget t s) = se_coinbasers s" "se_next_coinbaser_id (expire_class_budget t s) = se_next_coinbaser_id s"
  "se_sent (expire_class_budget t s) = se_sent s" "se_remote (expire_class_budget t s) = se_remote s"
  "se_gateway_key (expire_class_budget t s) = se_gateway_key s"
  by (simp_all add: refill_tokens_def expire_class_budget_def Let_def split: option.splits)

lemma note_reject_frame [simp]:
  "se_coinbasers (snd (note_reject E t s)) = se_coinbasers s" "se_next_coinbaser_id (snd (note_reject E t s)) = se_next_coinbaser_id s"
  "se_sent (snd (note_reject E t s)) = se_sent s"
  by (simp_all add: note_reject_def Let_def)

lemma note_reject_error: "note_reject E t s = (Some e, s') \<Longrightarrow> (\<exists>n. e = RejectFlood n 10) \<and> \<not> is_house E s"
  by (auto simp: note_reject_def Let_def REJECT_WINDOW_def split: if_splits)

lemma note_reject_times_frame:
  "note_reject_times n E t s = (e, s') \<Longrightarrow> se_coinbasers s' = se_coinbasers s \<and> se_next_coinbaser_id s' = se_next_coinbaser_id s
    \<and> se_sent s' = se_sent s \<and> (case e of None \<Rightarrow> True | Some x \<Rightarrow> (\<exists>n. x = RejectFlood n 10) \<and> \<not> is_house E s)"
proof (induction n arbitrary: s)
  case (Suc n)
  obtain e1 s1 where n: "note_reject E t s = (e1, s1)" by fastforce
  have f: "se_coinbasers s1 = se_coinbasers s" "se_next_coinbaser_id s1 = se_next_coinbaser_id s" "se_sent s1 = se_sent s"
      "se_remote s1 = se_remote s" "se_gateway_key s1 = se_gateway_key s"
    using n note_reject_frame [of E t s] note_reject_simps [of E t s] by simp_all
  show ?case
  proof (cases e1)
    case None
    then show ?thesis using Suc.IH [of s1] Suc.prems n f by (simp split: option.splits)
  next
    case (Some x)
    then show ?thesis using Suc.prems n f note_reject_error [of E t s x s1] by auto
  qed
qed simp

lemma coinbasers_ok_cong:
  "se_coinbasers s' = se_coinbasers s \<Longrightarrow> se_next_coinbaser_id s' = se_next_coinbaser_id s \<Longrightarrow> coinbasers_ok s' = coinbasers_ok s"
  by (simp add: coinbasers_ok_def)

lemma answered_cong: "se_sent s1 = se_sent s \<Longrightarrow> answered value s1 s' = answered value s s'"
  by (simp add: answered_def)

lemma repeat_answers:
  assumes ok: "coinbasers_ok s" and a: "coinbaser_action n (se_coinbasers s) value budget = RepeatReply i"
    and d: "cf_coinbaser_delay_ms (en_cfg E) = 0"
  obtains c where "find (\<lambda>c. ic_id c = i \<and> ic_value c = value \<and> ic_class_budget c = budget \<and> ic_outputs c \<noteq> []) (rev (se_coinbasers s)) = Some c"
    "answered value s (send_coinbaser_reply E t value (encode_v2 (ic_id c) (ic_outputs c)) prev s)"
    "coinbasers_ok (send_coinbaser_reply E t value (encode_v2 (ic_id c) (ic_outputs c)) prev s)"
proof -
  let ?P = "\<lambda>c. ic_id c = i \<and> ic_value c = value \<and> ic_class_budget c = budget \<and> ic_outputs c \<noteq> []"
  obtain c0 where c0: "find (\<lambda>c. ic_value c = value \<and> ic_class_budget c = budget) (rev (se_coinbasers s)) = Some c0" "ic_id c0 = i"
    using a by (auto simp: coinbaser_action_def split: if_splits option.splits)
  have "c0 \<in> set (se_coinbasers s)" "ic_value c0 = value" "ic_class_budget c0 = budget"
    using c0(1) by (auto simp: find_Some_iff) (metis nth_mem length_rev set_rev)
  moreover have "ic_outputs c0 \<noteq> []" using ok \<open>c0 \<in> _\<close> by (auto simp: coinbasers_ok_def list_all_iff reply_whole_def)
  ultimately have "find ?P (rev (se_coinbasers s)) \<noteq> None" using c0(2) by (auto simp: find_None_iff)
  then obtain c where c: "find ?P (rev (se_coinbasers s)) = Some c" by blast
  then have mem: "c \<in> set (se_coinbasers s)" "ic_value c = value" by (auto simp: find_Some_iff) (metis nth_mem length_rev set_rev)
  let ?s' = "send_coinbaser_reply E t value (encode_v2 (ic_id c) (ic_outputs c)) prev s"
  have s': "?s' = flush_coinbaser_reply E t value (encode_v2 (ic_id c) (ic_outputs c)) prev s" by (simp add: send_coinbaser_reply_def d)
  have ok': "coinbasers_ok ?s'" using ok by (simp add: s' coinbasers_ok_def)
  have "issued (ic_id c) ?s' = Some c" using issued_in_hand [OF ok'] mem(1) by (simp add: s')
  moreover have "reply_whole c" using ok mem(1) by (auto simp: coinbasers_ok_def list_all_iff)
  ultimately have "answered value s ?s'"
    using flush_sent [of E t "value" "encode_v2 (ic_id c) (ic_outputs c)" prev s] mem(2) unfolding answered_def s' by (auto intro!: exI [of _ c])
  then show thesis using that c ok' by blast
qed

text \<open>
  C18. Every request for a possible value is answered, whatever the rate: the handler never panics, and unless this request takes a
  gateway other than the pool's own over the limit on refused messages, the last message it sends is a reply for exactly
  that value, after at most one configuration; the outputs of the reply add up to the value, and the reply is in hand under
  its id, alone. The replies in hand stay at most sixteen with different ids.
\<close>

theorem coinbaser_request_answered:
  assumes P: "pool_fits E value P" and s: "coinbasers_ok s" and v: "0 < value" "value \<le> MAX_MONEY"
    and d: "cf_coinbaser_delay_ms (en_cfg E) = 0"
  shows "\<exists>e s' P'. on_coinbaser_request E t now value prev (s, P) = Some (e, s', P') \<and> coinbasers_ok s'
    \<and> (case e of None \<Rightarrow> answered value s s' | Some x \<Rightarrow> (\<exists>n. x = RejectFlood n 10) \<and> \<not> is_house E s)"
proof -
  define s1 where "s1 = expire_class_budget t (refill_tokens t s)"
  have s1: "coinbasers_ok s1" "se_sent s1 = se_sent s" "is_house E s1 = is_house E s"
    using s by (simp_all add: s1_def coinbasers_ok_def)
  obtain learned budget base P1 where b: "settle_budget E t (s1, P) = Some ((learned, budget, base), P1)" "pool_fits E value P1"
      "case base of None \<Rightarrow> True | Some b \<Rightarrow> base_fits value b" by (rule settle_budget_fits [OF P])
  let ?issue = "issue_coinbaser E t now value prev learned budget base"
  have issue: "\<exists>s' P'. ?issue (s2, P2) = Some (s', P') \<and> coinbasers_ok s' \<and> answered value s s'"
    if i: "coinbasers_ok s2" "se_sent s2 = se_sent s" "pool_fits E value P2" for s2 P2
  proof -
    obtain s' P' where "?issue (s2, P2) = Some (s', P')" "coinbasers_ok s'" "answered value s2 s'"
      by (rule issue_coinbaser_answers [OF i(3,1) v b(3) d])
    then show ?thesis using answered_cong [OF i(2)] by blast
  qed
  have step: "on_coinbaser_request E t now value prev (s, P) = answer_request E t now value prev learned budget base (s1, P1)"
    using v b(1) unfolding s1_def by (simp add: on_coinbaser_request_def)
  show ?thesis
  proof (cases "coinbaser_action (se_coinbaser_tokens s1) (se_coinbasers s1) value budget")
    case FreshReply
    then show ?thesis unfolding step answer_request_def using issue [of "s1\<lparr>se_coinbaser_tokens := se_coinbaser_tokens s1 - 1\<rparr>" P1] s1 b(2)
      by (auto simp: coinbasers_ok_def)
  next
    case (RepeatReply i)
    show ?thesis unfolding step answer_request_def
      by (rule repeat_answers [OF s1(1) RepeatReply d, of t prev]) (simp add: RepeatReply answered_cong [OF s1(2)])
  next
    case FreshOverRate
    obtain e s2 where n: "note_reject_times OVER_RATE_COST E t s1 = (e, s2)" by fastforce
    note f = note_reject_times_frame [OF n]
    have ok2: "coinbasers_ok s2" using s1(1) f by (simp add: coinbasers_ok_def)
    show ?thesis
    proof (cases e)
      case None
      then show ?thesis unfolding step answer_request_def using FreshOverRate n issue [of s2 "over_rate P1"] ok2 f s1(2) b(2) by (auto simp: over_rate_def)
    next
      case (Some x)
      then show ?thesis unfolding step answer_request_def using FreshOverRate n ok2 f s1(3) by simp
    qed
  qed
qed

text \<open>
  A comment of \<^verbatim>\<open>on_coinbaser_request\<close> says that a request is never left unanswered. With the delay of the test hook, a second
  request before the reply to the first has gone out takes its place, and the first is never answered.
\<close>

lemma delayed_reply_lost:
  assumes "cf_coinbaser_delay_ms (en_cfg E) \<noteq> 0"
  shows "\<exists>m. se_sent (on_coinbaser_due E t2 (send_coinbaser_reply E t1 v2 e2 p2 (send_coinbaser_reply E t v1 e1 p1 s)))
    = se_sent s @ m @ [(False, coinbaser_reply v2 e2)] \<and> length m \<le> 1"
proof -
  let ?s2 = "send_coinbaser_reply E t1 v2 e2 p2 (send_coinbaser_reply E t v1 e1 p1 s)"
  have "se_sent ?s2 = se_sent s" "se_pending_coinbaser ?s2 = Some (v2, e2, p2)" using assms by (simp_all add: send_coinbaser_reply_def Let_def)
  then show ?thesis using flush_sent [of E t2 v2 e2 p2 "?s2\<lparr>se_coinbaser_send_at := None, se_pending_coinbaser := None\<rparr>"]
    by (simp add: on_coinbaser_due_def)
qed

lemma coinbaser_request_answered_witness:
  "\<exists>e s' P'. on_coinbaser_request ex_senv 0 0 1000 [] (ex_session, ex_world) = Some (e, s', P') \<and> coinbasers_ok s'
    \<and> (case e of None \<Rightarrow> answered 1000 ex_session s' | Some x \<Rightarrow> (\<exists>n. x = RejectFlood n 10) \<and> \<not> is_house ex_senv ex_session)"
proof (rule coinbaser_request_answered)
  show "pool_fits ex_senv 1000 ex_world"
    using new_window_ok ex_params_ok(1) by (auto simp: pool_fits_def ex_senv_def ex_env_def ex_world_def ex_pool_def new_window_def)
  show "coinbasers_ok ex_session" by (auto simp: coinbasers_ok_def ids_in_turn_def ex_session_def new_session_def intro: exI [of _ 0])
qed (simp_all add: ex_senv_def ex_cfg_def MAX_MONEY_def)

end
