(* ===== verification/Primed_Config.thy ===== *)
theory Primed_Config
  imports Primed_Session Tides_Blocks Wire_Handshake
begin

text \<open>
  The configuration of the server, \<^verbatim>\<open>prime/primed/src/config.rs\<close>, and what \<^verbatim>\<open>main.rs\<close> makes of it before the first
  connection: the payout script, the key file, the parameters of the split. The TOML reader is not part of the model: a
  \<open>config\<close> is what it returns, with the defaults of \<open>default_config\<close> for the keys that are not in the file, and which
  files exist is an argument. Socket addresses and the poll interval, a float, are left out.
\<close>

section \<open>Model\<close>

record config =
  cg_data_dir :: string
  cg_key_file :: "string option"
  cg_payout_address :: string
  cg_coinbase_tag :: string
  cg_prime_id :: u32
  cg_window :: u32
  cg_min_payout :: u64
  cg_stale_after_days :: u32
  cg_stale_min_payout :: u64
  cg_stale_coinbase :: bool
  cg_stale_per_block :: usize
  cg_fee_bps :: u32
  cg_empty_solo_fee_bps :: u32
  cg_stock_full_pool_only :: string
  cg_held_split_builds :: "string list"
  cg_class_budget :: bool
  cg_class_budget_fee_wallet_reserves :: bool
  cg_class_budget_carry_ceiling :: u64
  cg_class_budget_unreserved :: bool
  cg_coinbaser_delay_ms :: u64
  cg_stratum_fee_bps :: u32
  cg_datum_rebate_bps :: u32
  cg_stratum_grace_hours :: u32
  cg_stratum_grace_datum_hours :: u32
  cg_stratum_grace_fee_bps :: "u32 option"
  cg_stratum_grace_rebate_bps :: u32
  cg_stratum_grace_rearm_hours :: u32
  cg_stratum_grace_epoch :: u32
  cg_solo_rebate_bps :: u32
  cg_solo_coinbase_tag :: string
  cg_house_gateways :: "string list"
  cg_house_loopback :: bool
  cg_min_diff :: u64
  cg_split_tolerance :: u64
  cg_network :: string
  cg_uncommitted_pot :: u8
  cg_stale_grace_secs :: u32
  cg_max_connections :: u32
  cg_max_connections_per_ip :: u32
  cg_quarantine_minutes :: u64
  cg_quarantine_max_hours :: u64
  cg_quarantine_forget_hours :: u64
  cg_blocked_gateways :: "string list"
  cg_stratum_front_gateways :: "string list"
  cg_stratum_front_ips :: "ip list"
  cg_session_coinbase_budget :: usize
  cg_require_split_gateway :: bool
  cg_activation_height :: "u32 option"
  cg_verify_shares :: "string option"

definition d_tag :: string where "d_tag = ''Lazarus''"
definition d_prime_id :: u32 where "d_prime_id = 1"
definition d_window :: u32 where "d_window = 8"
definition d_min_payout :: u64 where "d_min_payout = 546"
definition d_stale_per_block :: usize where "d_stale_per_block = 25"
definition d_stale_after_days :: u32 where "d_stale_after_days = 7"
definition d_stale_min_payout :: u64 where "d_stale_min_payout = 10000"
definition d_min_diff :: u64 where "d_min_diff = 1"
definition d_tolerance :: u64 where "d_tolerance = 2"
definition d_network :: string where "d_network = ''mainnet''"
definition d_uncommitted_pot :: u8 where "d_uncommitted_pot = 20"
definition d_stale_grace :: u32 where "d_stale_grace = 30"
definition d_max_connections :: u32 where "d_max_connections = 256"
definition d_max_connections_per_ip :: u32 where "d_max_connections_per_ip = 8"
definition d_quarantine_minutes :: u64 where "d_quarantine_minutes = 60"
definition d_quarantine_max_hours :: u64 where "d_quarantine_max_hours = 24"
definition d_quarantine_forget_hours :: u64 where "d_quarantine_forget_hours = 168"
definition d_session_coinbase_budget :: usize where "d_session_coinbase_budget = 4194304"
definition d_empty_solo_fee :: u32 where "d_empty_solo_fee = 750"
definition d_owe :: string where "d_owe = ''owe''"
definition d_solo_tag :: string where "d_solo_tag = ''Lazarus/solo''"
definition d_class_budget_carry_ceiling :: u64 where "d_class_budget_carry_ceiling = 500000000"

lemmas config_defaults = d_tag_def d_prime_id_def d_window_def d_min_payout_def d_stale_per_block_def d_stale_after_days_def
  d_stale_min_payout_def d_min_diff_def d_tolerance_def d_network_def d_uncommitted_pot_def d_stale_grace_def d_max_connections_def
  d_max_connections_per_ip_def d_quarantine_minutes_def d_quarantine_max_hours_def d_quarantine_forget_hours_def
  d_session_coinbase_budget_def d_empty_solo_fee_def d_owe_def d_solo_tag_def d_class_budget_carry_ceiling_def

text \<open>A file with nothing but the keys that must be there.\<close>

definition default_config :: "string \<Rightarrow> string \<Rightarrow> config" where
  "default_config data_dir payout =
     \<lparr>cg_data_dir = data_dir, cg_key_file = None, cg_payout_address = payout, cg_coinbase_tag = d_tag, cg_prime_id = d_prime_id,
      cg_window = d_window, cg_min_payout = d_min_payout, cg_stale_after_days = d_stale_after_days,
      cg_stale_min_payout = d_stale_min_payout, cg_stale_coinbase = True, cg_stale_per_block = d_stale_per_block, cg_fee_bps = 0,
      cg_empty_solo_fee_bps = d_empty_solo_fee, cg_stock_full_pool_only = d_owe, cg_held_split_builds = [], cg_class_budget = False,
      cg_class_budget_fee_wallet_reserves = False, cg_class_budget_carry_ceiling = d_class_budget_carry_ceiling,
      cg_class_budget_unreserved = False, cg_coinbaser_delay_ms = 0, cg_stratum_fee_bps = 0, cg_datum_rebate_bps = 0,
      cg_stratum_grace_hours = 0, cg_stratum_grace_datum_hours = 0, cg_stratum_grace_fee_bps = None, cg_stratum_grace_rebate_bps = 0,
      cg_stratum_grace_rearm_hours = 0, cg_stratum_grace_epoch = 0, cg_solo_rebate_bps = 0, cg_solo_coinbase_tag = d_solo_tag,
      cg_house_gateways = [], cg_house_loopback = True, cg_min_diff = d_min_diff, cg_split_tolerance = d_tolerance,
      cg_network = d_network, cg_uncommitted_pot = d_uncommitted_pot, cg_stale_grace_secs = d_stale_grace,
      cg_max_connections = d_max_connections, cg_max_connections_per_ip = d_max_connections_per_ip,
      cg_quarantine_minutes = d_quarantine_minutes, cg_quarantine_max_hours = d_quarantine_max_hours,
      cg_quarantine_forget_hours = d_quarantine_forget_hours, cg_blocked_gateways = [], cg_stratum_front_gateways = [],
      cg_stratum_front_ips = [], cg_session_coinbase_budget = d_session_coinbase_budget, cg_require_split_gateway = False,
      cg_activation_height = None, cg_verify_shares = None\<rparr>"

subsection \<open>What the values stand for\<close>

definition sat_mul32 :: "u32 \<Rightarrow> u32 \<Rightarrow> u32" where
  "sat_mul32 a b = min (a * b) u32_max"

definition stale_after_secs :: "config \<Rightarrow> u32" where
  "stale_after_secs c = sat_mul32 (cg_stale_after_days c) 86400"

definition grace :: "config \<Rightarrow> grace_params" where
  "grace c = (let secs = sat_mul32 (cg_stratum_grace_hours c) 3600 in
     \<lparr>gp_secs = secs, gp_datum_secs = max (sat_mul32 (cg_stratum_grace_datum_hours c) 3600) secs,
      gp_rearm_secs = sat_mul32 (cg_stratum_grace_rearm_hours c) 3600, gp_epoch = cg_stratum_grace_epoch c\<rparr>)"

text \<open>\<^verbatim>\<open>u64::is_power_of_two\<close> and \<^verbatim>\<open>u64::trailing_zeros\<close>.\<close>

fun is_power_of_two :: "u64 \<Rightarrow> bool" where
  "is_power_of_two n = (if n \<le> 1 then n = 1 else even n \<and> is_power_of_two (n div 2))"

declare is_power_of_two.simps [simp del]

fun trailing_zeros :: "u64 \<Rightarrow> nat" where
  "trailing_zeros n = (if n = 0 then 64 else if odd n then 0 else Suc (trailing_zeros (n div 2)))"

declare trailing_zeros.simps [simp del]

definition min_pot :: "config \<Rightarrow> u8" where
  "min_pot c = trailing_zeros (cg_min_diff c)"

subsection \<open>Loading\<close>

datatype config_error = Says string | BadFront string | BadStockFull string

definition is_ascii_hexdigit :: "char \<Rightarrow> bool" where
  "is_ascii_hexdigit c \<longleftrightarrow> (let n = of_char c :: nat in (48 \<le> n \<and> n \<le> 57) \<or> (65 \<le> n \<and> n \<le> 70) \<or> (97 \<le> n \<and> n \<le> 102))"

fun load_fronts :: "string list \<Rightarrow> config_error + string list" where
  "load_fronts [] = Inr []"
| "load_fronts (x # xs) = (let g = to_ascii_lower (trim_str x) in
     if length g < 16 \<or> \<not> list_all is_ascii_hexdigit g then Inl (BadFront g)
     else case load_fronts xs of Inl e \<Rightarrow> Inl e | Inr gs \<Rightarrow> Inr (g # gs))"

text \<open>The checks of the grace, in their order.\<close>

definition grace_error :: "config \<Rightarrow> config_error option" where
  "grace_error c = (if enabled (grace c)
     then (case cg_stratum_grace_fee_bps c of
        None \<Rightarrow> Some (Says ''stratum-grace-fee-bps must be set when stratum-grace-hours is (0 is a free grace)'')
      | Some fee \<Rightarrow>
          if fee > cg_stratum_fee_bps c then Some (Says ''stratum-grace-fee-bps cannot exceed stratum-fee-bps (a grace is not a penalty)'')
          else if cg_stratum_grace_rebate_bps c > fee
          then Some (Says ''stratum-grace-rebate-bps cannot exceed stratum-grace-fee-bps (the rebate comes out of that fee)'')
          else if cg_stratum_grace_datum_hours c \<noteq> 0 \<and> cg_stratum_grace_datum_hours c < cg_stratum_grace_hours c
          then Some (Says ''stratum-grace-datum-hours cannot be shorter than stratum-grace-hours'')
          else None)
     else if cg_stratum_grace_fee_bps c \<noteq> None \<or> cg_stratum_grace_rebate_bps c \<noteq> 0 \<or> cg_stratum_grace_rearm_hours c \<noteq> 0
       \<or> cg_stratum_grace_epoch c \<noteq> 0
     then Some (Says ''stratum-grace-* keys are set but stratum-grace-hours is 0: set it, or remove them'')
     else None)"

definition join_path :: "string \<Rightarrow> string \<Rightarrow> string" where
  "join_path d n = (if d = [] \<or> last d = CHR ''/'' then d @ n else d @ CHR ''/'' # n)"

definition key_path :: "(string \<Rightarrow> bool) \<Rightarrow> config \<Rightarrow> string" where
  "key_path there c = (case cg_key_file c of Some f \<Rightarrow> f
     | None \<Rightarrow> let ours = join_path (cg_data_dir c) ''prime.key''; legacy = join_path (cg_data_dir c) ''lazarus-prime.key''
         in if \<not> there ours \<and> there legacy then legacy else ours)"

text \<open>From the tag on: lists folded to lower case, then the limits.\<close>

definition load_rest :: "(string \<Rightarrow> bool) \<Rightarrow> config \<Rightarrow> config_error + config" where
  "load_rest there c0 =
     (if cg_solo_coinbase_tag c0 = [] \<or> length (cg_solo_coinbase_tag c0) > 32 then Inl (Says ''solo-coinbase-tag must be 1..=32 bytes'')
      else case load_fronts (cg_stratum_front_gateways c0) of Inl e \<Rightarrow> Inl e
      | Inr fronts \<Rightarrow>
          let c = c0\<lparr>cg_house_gateways := map to_ascii_lower (cg_house_gateways c0),
                cg_held_split_builds := map to_ascii_lower (cg_held_split_builds c0), cg_stratum_front_gateways := fronts\<rparr>
          in if cg_uncommitted_pot c > 63 then Inl (Says ''uncommitted-pot is a power-of-two exponent, 63 at most'')
          else if length (cg_coinbase_tag c) > 32 then Inl (Says ''coinbase-tag is too long (32 bytes max)'')
          else if cg_max_connections c = 0 \<or> cg_max_connections_per_ip c = 0
          then Inl (Says ''max-connections and max-connections-per-ip must be at least 1'')
          else if cg_session_coinbase_budget c < 64 * 1024
          then Inl (Says ''session-coinbase-budget must be at least 65536 bytes (one huge coinbase class)'')
          else if cg_empty_solo_fee_bps c > 10000 then Inl (Says ''empty-solo-fee-bps cannot exceed 10000'')
          else if cg_stock_full_pool_only c \<noteq> ''owe'' \<and> cg_stock_full_pool_only c \<noteq> ''gateway-solo''
          then Inl (BadStockFull (cg_stock_full_pool_only c))
          else let off = cg_class_budget c \<and> \<not> cg_class_budget_fee_wallet_reserves c;
                c1 = (if off then c\<lparr>cg_class_budget := False, cg_class_budget_unreserved := True\<rparr> else c)
            in Inr (c1\<lparr>cg_key_file := Some (key_path there c1)\<rparr>))"

definition load :: "(string \<Rightarrow> bool) \<Rightarrow> config \<Rightarrow> config_error + config" where
  "load there c0 =
     (if \<not> is_power_of_two (cg_min_diff c0) then Inl (Says ''min-diff must be a power of two'')
      else if cg_prime_id c0 = 0 then Inl (Says ''prime-id must be nonzero'')
      else if cg_window c0 = 0 then Inl (Says ''window must be at least 1'')
      else if cg_fee_bps c0 > 10000 then Inl (Says ''fee-bps cannot exceed 10000'')
      else if cg_stale_min_payout c0 < 546 then Inl (Says ''stale-min-payout cannot be below the dust limit (546)'')
      else if cg_stale_after_days c0 > 3650 then Inl (Says ''stale-after-days is in days (3650 at most; 0 disables)'')
      else
        let c = (if cg_stratum_fee_bps c0 = 0 then c0\<lparr>cg_stratum_fee_bps := cg_fee_bps c0\<rparr> else c0)
        in if cg_stratum_fee_bps c > 10000 then Inl (Says ''stratum-fee-bps cannot exceed 10000'')
        else if cg_datum_rebate_bps c > cg_stratum_fee_bps c
        then Inl (Says ''datum-rebate-bps cannot exceed stratum-fee-bps (the rebate comes out of that fee)'')
        else if cg_solo_rebate_bps c > 10000 then Inl (Says ''solo-rebate-bps cannot exceed 10000'')
        else if cg_stratum_grace_hours c > 8760 \<or> cg_stratum_grace_datum_hours c > 8760 \<or> cg_stratum_grace_rearm_hours c > 87600
        then Inl (Says ''stratum-grace-*-hours are in hours (a year at most; ten for the re-arm)'')
        else case grace_error c of Some e \<Rightarrow> Inl e | None \<Rightarrow> load_rest there c)"

subsection \<open>Notes on keys that do not apply\<close>

datatype config_note = HouseNotHex string | HouseShort string nat | BuildNotHash string | BudgetUnreserved | ActivationIgnored
  | VerifyIgnored string

definition house_note :: "string \<Rightarrow> config_note list" where
  "house_note g = (if \<not> list_all is_ascii_hexdigit g \<or> length g > 64 then [HouseNotHex g]
     else if length g < 64 then [HouseShort g (length g)] else [])"

definition legacy_notes :: "config \<Rightarrow> config_note list" where
  "legacy_notes c = concat (map house_note (cg_house_gateways c))
     @ map BuildNotHash (filter (\<lambda>b. \<not> git_hash_prefix b) (cg_held_split_builds c))
     @ (if cg_class_budget_unreserved c then [BudgetUnreserved] else [])
     @ (if cg_activation_height c \<noteq> None then [ActivationIgnored] else [])
     @ (case cg_verify_shares c of Some m \<Rightarrow> [VerifyIgnored m] | None \<Rightarrow> [])"

subsection \<open>What the server is started with\<close>

definition split_params_of :: "config \<Rightarrow> split_params" where
  "split_params_of c = \<lparr>sp_fee_bps = cg_fee_bps c, sp_stratum_fee_bps = cg_stratum_fee_bps c, sp_datum_rebate_bps = cg_datum_rebate_bps c,
     sp_grace_fee_bps = (case cg_stratum_grace_fee_bps c of Some f \<Rightarrow> f | None \<Rightarrow> cg_stratum_fee_bps c),
     sp_grace_rebate_bps = (if enabled (grace c) then cg_stratum_grace_rebate_bps c else cg_datum_rebate_bps c),
     sp_min_payout = cg_min_payout c, sp_max_outputs = 511, sp_output_budget_bytes = 14000 - 9 - 64,
     sp_stale_after = (if cg_stale_coinbase c then stale_after_secs c else 0), sp_stale_min_payout = cg_stale_min_payout c,
     sp_stale_max_outputs = cg_stale_per_block c\<rparr>"

definition quarantine_of :: "config \<Rightarrow> quarantine_cfg" where
  "quarantine_of c = \<lparr>qc_minutes = cg_quarantine_minutes c, qc_max_hours = cg_quarantine_max_hours c,
     qc_forget_hours = cg_quarantine_forget_hours c, qc_blocked = cg_blocked_gateways c\<rparr>"

text \<open>What the sessions read of it.\<close>

definition session_cfg_of :: "config \<Rightarrow> session_cfg" where
  "session_cfg_of c = \<lparr>cf_house_loopback = cg_house_loopback c, cf_house_gateways = cg_house_gateways c,
     cf_stratum_front_ips = cg_stratum_front_ips c, cf_stratum_front_gateways = cg_stratum_front_gateways c,
     cf_held_split_builds = cg_held_split_builds c, cf_class_budget = cg_class_budget c,
     cf_class_budget_carry_ceiling = cg_class_budget_carry_ceiling c, cf_coinbase_tag = ascii (cg_coinbase_tag c),
     cf_prime_id = cg_prime_id c, cf_min_diff = cg_min_diff c, cf_min_pot = min_pot c,
     cf_stock_full_pool_only = cg_stock_full_pool_only c, cf_session_coinbase_budget = cg_session_coinbase_budget c,
     cf_stale_grace_secs = cg_stale_grace_secs c, cf_split_tolerance = cg_split_tolerance c,
     cf_empty_solo_fee_bps = cg_empty_solo_fee_bps c, cf_uncommitted_pot = cg_uncommitted_pot c,
     cf_coinbaser_delay_ms = cg_coinbaser_delay_ms c, cf_grace = grace c, cf_quarantine = quarantine_of c,
     cf_require_split_gateway = cg_require_split_gateway c, cf_network = cg_network c\<rparr>"

datatype payout_error = UnknownNetwork string | UnpayableScript string nat | NotAnAddress string string

definition pool_payout_script :: "codecs \<Rightarrow> config \<Rightarrow> payout_error + network \<times> byte list" where
  "pool_payout_script A c = (case parse_network (cg_network c) of
     None \<Rightarrow> Inl (UnknownNetwork (cg_network c))
   | Some net \<Rightarrow> (case decode_script A (cg_payout_address c) net of
       None \<Rightarrow> Inl (NotAnAddress (cg_payout_address c) (cg_network c))
     | Some sc \<Rightarrow> if \<not> rdts_output_ok sc then Inl (UnpayableScript (cg_payout_address c) (length sc)) else Inr (net, sc)))"

text \<open>The key file's bytes, once decoded from hex: this server's layout, or the one of the server before it.\<close>

datatype key_error = KeyMismatch | KeyLength nat

definition read_key :: "nacl \<Rightarrow> byte list \<Rightarrow> key_error + identity" where
  "read_key N bytes = (if length bytes = 64 then Inr (from_secret_bytes bytes)
     else if length bytes = 160
     then let i = from_secret_bytes (take 32 (drop 32 bytes) @ take 32 (drop 128 bytes))
       in if sign_pk N i \<noteq> take 32 bytes \<or> box_pk N i \<noteq> take 32 (drop 96 bytes) then Inl KeyMismatch else Inr i
     else Inl (KeyLength (length bytes)))"

section \<open>Powers of two\<close>

lemma power_of_two_trailing: "is_power_of_two n \<Longrightarrow> 2 ^ trailing_zeros n = n"
proof (induction n rule: is_power_of_two.induct)
  case (1 n)
  show ?case
  proof (cases "n \<le> 1")
    case True
    then show ?thesis using "1.prems" by (simp add: is_power_of_two.simps [of n] trailing_zeros.simps [of "Suc 0"])
  next
    case False
    then have "even n" "is_power_of_two (n div 2)" using "1.prems" by (simp_all add: is_power_of_two.simps [of n])
    then show ?thesis using "1.IH" False by (simp add: trailing_zeros.simps [of n])
  qed
qed

lemma trailing_small: "is_power_of_two n \<Longrightarrow> n \<le> u64_max \<Longrightarrow> trailing_zeros n \<le> 63"
proof (rule ccontr)
  assume n: "is_power_of_two n" "n \<le> u64_max" and "\<not> trailing_zeros n \<le> 63"
  then have "(2 :: nat) ^ 64 \<le> 2 ^ trailing_zeros n" by (intro power_increasing) simp_all
  then show False using n power_of_two_trailing [OF n(1)] by simp
qed

section \<open>The checks\<close>

text \<open>What the loaded configuration is, when nothing is refused.\<close>

definition settled :: "(string \<Rightarrow> bool) \<Rightarrow> config \<Rightarrow> config" where
  "settled there c0 = (let
       c = c0\<lparr>cg_stratum_fee_bps := (if cg_stratum_fee_bps c0 = 0 then cg_fee_bps c0 else cg_stratum_fee_bps c0),
         cg_house_gateways := map to_ascii_lower (cg_house_gateways c0), cg_held_split_builds := map to_ascii_lower (cg_held_split_builds c0),
         cg_stratum_front_gateways := map (to_ascii_lower \<circ> trim_str) (cg_stratum_front_gateways c0)\<rparr>;
       off = cg_class_budget c0 \<and> \<not> cg_class_budget_fee_wallet_reserves c0
     in c\<lparr>cg_class_budget := cg_class_budget c0 \<and> cg_class_budget_fee_wallet_reserves c0, cg_class_budget_unreserved := cg_class_budget_unreserved c0 \<or> off,
          cg_key_file := Some (key_path there c0)\<rparr>)"

abbreviation fault_if :: "bool \<Rightarrow> string \<Rightarrow> config_error list" where
  "fault_if b e \<equiv> (if b then [Says e] else [])"

abbreviation stratum_fee :: "config \<Rightarrow> nat" where
  "stratum_fee c \<equiv> (if cg_stratum_fee_bps c = 0 then cg_fee_bps c else cg_stratum_fee_bps c)"

text \<open>The checks of \<^verbatim>\<open>load\<close> as a list, which takes its nested conditions apart for the lemmas below.\<close>

definition front_faults :: "config \<Rightarrow> config_error list" where
  "front_faults c = map BadFront (filter (\<lambda>g. length g < 16 \<or> \<not> list_all is_ascii_hexdigit g)
     (map (to_ascii_lower \<circ> trim_str) (cg_stratum_front_gateways c)))"

definition config_faults :: "config \<Rightarrow> config_error list" where
  "config_faults c =
     fault_if (\<not> is_power_of_two (cg_min_diff c)) ''min-diff must be a power of two''
     @ fault_if (cg_prime_id c = 0) ''prime-id must be nonzero''
     @ fault_if (cg_window c = 0) ''window must be at least 1''
     @ fault_if (cg_fee_bps c > 10000) ''fee-bps cannot exceed 10000''
     @ fault_if (cg_stale_min_payout c < 546) ''stale-min-payout cannot be below the dust limit (546)''
     @ fault_if (cg_stale_after_days c > 3650) ''stale-after-days is in days (3650 at most; 0 disables)''
     @ fault_if (stratum_fee c > 10000) ''stratum-fee-bps cannot exceed 10000''
     @ fault_if (cg_datum_rebate_bps c > stratum_fee c) ''datum-rebate-bps cannot exceed stratum-fee-bps (the rebate comes out of that fee)''
     @ fault_if (cg_solo_rebate_bps c > 10000) ''solo-rebate-bps cannot exceed 10000''
     @ fault_if (cg_stratum_grace_hours c > 8760 \<or> cg_stratum_grace_datum_hours c > 8760 \<or> cg_stratum_grace_rearm_hours c > 87600)
         ''stratum-grace-*-hours are in hours (a year at most; ten for the re-arm)''
     @ (case grace_error (c\<lparr>cg_stratum_fee_bps := stratum_fee c\<rparr>) of Some e \<Rightarrow> [e] | None \<Rightarrow> [])
     @ fault_if (cg_solo_coinbase_tag c = [] \<or> length (cg_solo_coinbase_tag c) > 32) ''solo-coinbase-tag must be 1..=32 bytes''
     @ front_faults c
     @ fault_if (cg_uncommitted_pot c > 63) ''uncommitted-pot is a power-of-two exponent, 63 at most''
     @ fault_if (length (cg_coinbase_tag c) > 32) ''coinbase-tag is too long (32 bytes max)''
     @ fault_if (cg_max_connections c = 0 \<or> cg_max_connections_per_ip c = 0) ''max-connections and max-connections-per-ip must be at least 1''
     @ fault_if (cg_session_coinbase_budget c < 64 * 1024) ''session-coinbase-budget must be at least 65536 bytes (one huge coinbase class)''
     @ fault_if (cg_empty_solo_fee_bps c > 10000) ''empty-solo-fee-bps cannot exceed 10000''
     @ (if cg_stock_full_pool_only c \<in> {''owe'', ''gateway-solo''} then [] else [BadStockFull (cg_stock_full_pool_only c)])"

lemma load_fronts_eq:
  "load_fronts xs = (case filter (\<lambda>g. length g < 16 \<or> \<not> list_all is_ascii_hexdigit g) (map (to_ascii_lower \<circ> trim_str) xs) of
     [] \<Rightarrow> Inr (map (to_ascii_lower \<circ> trim_str) xs) | g # _ \<Rightarrow> Inl (BadFront g))"
  by (induction xs) (auto simp: Let_def split: list.splits)

lemma key_path_update [simp]:
  "key_path there (c\<lparr>cg_class_budget := a, cg_class_budget_unreserved := b\<rparr>) = key_path there c"
  "key_path there (c\<lparr>cg_house_gateways := f, cg_held_split_builds := g, cg_stratum_front_gateways := h\<rparr>) = key_path there c"
  "key_path there (c\<lparr>cg_stratum_fee_bps := n\<rparr>) = key_path there c"
  by (simp_all add: key_path_def Let_def split: option.splits)

lemma budget_off:
  "(if cg_class_budget c \<and> \<not> cg_class_budget_fee_wallet_reserves c then c\<lparr>cg_class_budget := False, cg_class_budget_unreserved := True\<rparr> else c)
    = c\<lparr>cg_class_budget := cg_class_budget c \<and> cg_class_budget_fee_wallet_reserves c,
        cg_class_budget_unreserved := cg_class_budget_unreserved c \<or> cg_class_budget c \<and> \<not> cg_class_budget_fee_wallet_reserves c\<rparr>"
  by (cases c) auto

text \<open>The first of a list of faults, or what there is without one.\<close>

definition first_of :: "config_error list \<Rightarrow> config \<Rightarrow> config_error + config" where
  "first_of xs z = (case xs of [] \<Rightarrow> Inr z | y # _ \<Rightarrow> Inl y)"

lemma first_of_simps [simp]:
  "first_of [] z = Inr z" "first_of (y # ys) z = Inl y"
  "first_of ((if b then [e] else []) @ xs) z = (if b then Inl e else first_of xs z)"
  "first_of ((if b then [] else [e]) @ xs) z = (if b then first_of xs z else Inl e)"
  "first_of (if b then [] else [e]) z = (if b then Inr z else Inl e)"
  "first_of ((case m of Some e \<Rightarrow> [e] | None \<Rightarrow> []) @ xs) z = (case m of Some e \<Rightarrow> Inl e | None \<Rightarrow> first_of xs z)"
  by (simp_all add: first_of_def split: option.splits)

lemma first_of_fronts:
  "first_of (front_faults c @ xs) z = (case load_fronts (cg_stratum_front_gateways c) of Inl e \<Rightarrow> Inl e | Inr _ \<Rightarrow> first_of xs z)"
  by (simp add: front_faults_def load_fronts_eq first_of_def split: list.splits)

lemma load_fronts_Inr: "load_fronts xs = Inr ys \<Longrightarrow> ys = map (to_ascii_lower \<circ> trim_str) xs"
  by (simp add: load_fronts_eq split: list.splits)

lemma load_rest_first:
  "load_rest there c = first_of (fault_if (cg_solo_coinbase_tag c = [] \<or> length (cg_solo_coinbase_tag c) > 32) ''solo-coinbase-tag must be 1..=32 bytes''
     @ front_faults c
     @ fault_if (cg_uncommitted_pot c > 63) ''uncommitted-pot is a power-of-two exponent, 63 at most''
     @ fault_if (length (cg_coinbase_tag c) > 32) ''coinbase-tag is too long (32 bytes max)''
     @ fault_if (cg_max_connections c = 0 \<or> cg_max_connections_per_ip c = 0) ''max-connections and max-connections-per-ip must be at least 1''
     @ fault_if (cg_session_coinbase_budget c < 64 * 1024) ''session-coinbase-budget must be at least 65536 bytes (one huge coinbase class)''
     @ fault_if (cg_empty_solo_fee_bps c > 10000) ''empty-solo-fee-bps cannot exceed 10000''
     @ (if cg_stock_full_pool_only c \<in> {''owe'', ''gateway-solo''} then [] else [BadStockFull (cg_stock_full_pool_only c)]))
     (c\<lparr>cg_house_gateways := map to_ascii_lower (cg_house_gateways c), cg_held_split_builds := map to_ascii_lower (cg_held_split_builds c),
        cg_stratum_front_gateways := map (to_ascii_lower \<circ> trim_str) (cg_stratum_front_gateways c),
        cg_class_budget := cg_class_budget c \<and> cg_class_budget_fee_wallet_reserves c,
        cg_class_budget_unreserved := cg_class_budget_unreserved c \<or> cg_class_budget c \<and> \<not> cg_class_budget_fee_wallet_reserves c,
        cg_key_file := Some (key_path there c)\<rparr>)"
proof (cases "load_fronts (cg_stratum_front_gateways c)")
  case (Inl e)
  then show ?thesis by (simp only: load_rest_def first_of_simps first_of_fronts Inl sum.case)
next
  case (Inr ys)
  then show ?thesis using load_fronts_Inr [OF Inr]
    by (simp only: load_rest_def first_of_simps first_of_fronts Inr sum.case Let_def budget_off) simp
qed

lemma load_first: "load there c = first_of (config_faults c) (settled there c)"
proof -
  have s: "settled there c = (let d = c\<lparr>cg_stratum_fee_bps := stratum_fee c\<rparr> in
     d\<lparr>cg_house_gateways := map to_ascii_lower (cg_house_gateways d), cg_held_split_builds := map to_ascii_lower (cg_held_split_builds d),
        cg_stratum_front_gateways := map (to_ascii_lower \<circ> trim_str) (cg_stratum_front_gateways d),
        cg_class_budget := cg_class_budget d \<and> cg_class_budget_fee_wallet_reserves d,
        cg_class_budget_unreserved := cg_class_budget_unreserved d \<or> cg_class_budget d \<and> \<not> cg_class_budget_fee_wallet_reserves d,
        cg_key_file := Some (key_path there d)\<rparr>)"
    by (simp add: settled_def Let_def)
  have d: "(if cg_stratum_fee_bps c = 0 then c\<lparr>cg_stratum_fee_bps := cg_fee_bps c\<rparr> else c) = c\<lparr>cg_stratum_fee_bps := stratum_fee c\<rparr>" by simp
  have f: "front_faults (c\<lparr>cg_stratum_fee_bps := n\<rparr>) = front_faults c" for n by (simp add: front_faults_def)
  define n where "n = stratum_fee c"
  show ?thesis unfolding load_def config_faults_def s d Let_def load_rest_first n_def [symmetric] first_of_simps f
    by (simp split del: if_split cong: if_cong option.case_cong)
qed

section \<open>A configuration that loads\<close>

lemma load_InrD: "load there c = Inr c' \<Longrightarrow> config_faults c = [] \<and> c' = settled there c"
  by (simp add: load_first first_of_def split: list.splits)

lemma faults_nil:
  assumes "config_faults c = []"
  shows "is_power_of_two (cg_min_diff c)" "cg_fee_bps c \<le> 10000" "cg_stale_after_days c \<le> 3650" "stratum_fee c \<le> 10000"
    "cg_datum_rebate_bps c \<le> stratum_fee c" "grace_error (c\<lparr>cg_stratum_fee_bps := stratum_fee c\<rparr>) = None"
    "front_faults c = []" "cg_uncommitted_pot c \<le> 63" "length (cg_coinbase_tag c) \<le> 32" "65536 \<le> cg_session_coinbase_budget c"
    "cg_empty_solo_fee_bps c \<le> 10000" "cg_max_connections c > 0" "cg_max_connections_per_ip c > 0"
proof -
  note n = assms [unfolded config_faults_def append_is_Nil_conv]
  have no: "\<not> b" if "fault_if b e = []" for b e using that by (simp split: if_splits)
  show "is_power_of_two (cg_min_diff c)" "cg_fee_bps c \<le> 10000" "cg_stale_after_days c \<le> 3650" "stratum_fee c \<le> 10000"
    "cg_datum_rebate_bps c \<le> stratum_fee c" "cg_uncommitted_pot c \<le> 63" "length (cg_coinbase_tag c) \<le> 32"
    "65536 \<le> cg_session_coinbase_budget c" "cg_empty_solo_fee_bps c \<le> 10000" "cg_max_connections c > 0" "cg_max_connections_per_ip c > 0"
    using n by (auto dest!: no simp del: if_split)
  show "front_faults c = []" using n by blast
  show "grace_error (c\<lparr>cg_stratum_fee_bps := stratum_fee c\<rparr>) = None" using n by (auto split: option.splits)
qed

lemma settled_sels [simp]:
  "cg_fee_bps (settled there c) = cg_fee_bps c" "cg_stratum_fee_bps (settled there c) = stratum_fee c"
  "cg_datum_rebate_bps (settled there c) = cg_datum_rebate_bps c" "cg_stratum_grace_fee_bps (settled there c) = cg_stratum_grace_fee_bps c"
  "cg_stratum_grace_rebate_bps (settled there c) = cg_stratum_grace_rebate_bps c" "cg_min_diff (settled there c) = cg_min_diff c"
  "cg_stale_after_days (settled there c) = cg_stale_after_days c" "cg_coinbase_tag (settled there c) = cg_coinbase_tag c"
  "cg_session_coinbase_budget (settled there c) = cg_session_coinbase_budget c" "cg_uncommitted_pot (settled there c) = cg_uncommitted_pot c"
  "grace (settled there c) = grace c" "cg_max_connections (settled there c) = cg_max_connections c"
  "cg_class_budget (settled there c) = (cg_class_budget c \<and> cg_class_budget_fee_wallet_reserves c)"
  "cg_class_budget_fee_wallet_reserves (settled there c) = cg_class_budget_fee_wallet_reserves c"
  by (simp_all add: settled_def Let_def grace_def)

lemma grace_error_None:
  assumes "grace_error c = None"
  shows "if enabled (grace c) then \<exists>fee. cg_stratum_grace_fee_bps c = Some fee \<and> fee \<le> cg_stratum_fee_bps c \<and> cg_stratum_grace_rebate_bps c \<le> fee
    else cg_stratum_grace_fee_bps c = None"
  using assms by (auto simp: grace_error_def split: if_splits option.splits)

lemma grace_fee_update [simp]: "grace (c\<lparr>cg_stratum_fee_bps := n\<rparr>) = grace c"
  by (simp add: grace_def)

lemma settled_split:
  assumes "config_faults c = []"
  shows "params_ok (split_params_of (settled there c))"
    and "sp_datum_rebate_bps (split_params_of (settled there c)) \<le> sp_stratum_fee_bps (split_params_of (settled there c))"
    and "sp_grace_fee_bps (split_params_of (settled there c)) \<le> sp_stratum_fee_bps (split_params_of (settled there c))"
    and "sp_grace_rebate_bps (split_params_of (settled there c)) \<le> sp_grace_fee_bps (split_params_of (settled there c))"
proof -
  note f = faults_nil [OF assms]
  define n where "n = stratum_fee c"
  have g: "if enabled (grace c) then \<exists>fee. cg_stratum_grace_fee_bps c = Some fee \<and> fee \<le> n \<and> cg_stratum_grace_rebate_bps c \<le> fee
      else cg_stratum_grace_fee_bps c = None"
    using grace_error_None [OF f(6)] unfolding n_def [symmetric] by (simp add: grace_fee_update cong: if_cong)
  show "params_ok (split_params_of (settled there c))"
    using f(2,4) by (simp only: params_ok_def split_params_of_def settled_sels split_params.select_convs)
  show "sp_datum_rebate_bps (split_params_of (settled there c)) \<le> sp_stratum_fee_bps (split_params_of (settled there c))"
    using f(5) by (simp only: split_params_of_def settled_sels split_params.select_convs)
  show "sp_grace_fee_bps (split_params_of (settled there c)) \<le> sp_stratum_fee_bps (split_params_of (settled there c))"
    using g by (simp only: split_params_of_def settled_sels split_params.select_convs n_def [symmetric]) (auto split: if_splits)
  show "sp_grace_rebate_bps (split_params_of (settled there c)) \<le> sp_grace_fee_bps (split_params_of (settled there c))"
    using g f(5) by (simp only: split_params_of_def settled_sels split_params.select_convs n_def [symmetric]) (auto split: if_splits)
qed

text \<open>
  A configuration that loads is one the pool can run on. Fees are at most the whole, every rebate comes
  out of the fee it is paid from and a grace is never a penalty; the difficulty floor is a power of two and its exponent the one
  shares are held to; days without a share do not saturate in seconds; a class budget needs a wallet that reserves
  for it.
\<close>

theorem loaded_config_sound:
  assumes "load there c = Inr c'" "cg_min_diff c \<le> u64_max"
  shows "params_ok (split_params_of c')
    \<and> sp_datum_rebate_bps (split_params_of c') \<le> sp_stratum_fee_bps (split_params_of c')
    \<and> sp_grace_rebate_bps (split_params_of c') \<le> sp_grace_fee_bps (split_params_of c')
    \<and> sp_grace_fee_bps (split_params_of c') \<le> sp_stratum_fee_bps (split_params_of c')
    \<and> 2 ^ cf_min_pot (session_cfg_of c') = cg_min_diff c' \<and> cf_min_pot (session_cfg_of c') \<le> 63 \<and> cf_uncommitted_pot (session_cfg_of c') \<le> 63
    \<and> stale_after_secs c' = cg_stale_after_days c' * 86400
    \<and> length (cf_coinbase_tag (session_cfg_of c')) \<le> 32 \<and> 65536 \<le> cf_session_coinbase_budget (session_cfg_of c')
    \<and> (cg_class_budget c' \<longrightarrow> cg_class_budget_fee_wallet_reserves c')"
proof -
  have c': "c' = settled there c" and n: "config_faults c = []" using load_InrD [OF assms(1)] by simp_all
  note f = faults_nil [OF n]
  have "stale_after_secs c' = cg_stale_after_days c' * 86400" using f(3) by (simp add: c' stale_after_secs_def sat_mul32_def)
  moreover have "2 ^ min_pot c' = cg_min_diff c'" "min_pot c' \<le> 63"
    using power_of_two_trailing [OF f(1)] trailing_small [OF f(1) assms(2)] by (simp_all add: c' min_pot_def)
  moreover have "length (ascii (cg_coinbase_tag c')) \<le> 32" using f(9) by (simp add: c' ascii_def)
  ultimately show ?thesis using settled_split [OF n, of there] f(8,10) by (simp add: c' session_cfg_of_def)
qed

text \<open>
  C32. The coinbase of a pool that was started on a configuration that loads pays exactly its block, whatever
  the window holds.
\<close>

theorem loaded_config_pays_value:
  assumes "load there c = Inr c'" "work_sum ms \<le> tw" "tw \<le> u64_max" "v \<le> u64_max" "v * (tw * 10000) \<le> u128_max"
  shows "\<exists>s. compute ms tw v (split_params_of c') due now script_for = Some s
    \<and> sum_list (map py_sats (sl_payees s)) + sl_pool_sats s = v"
proof -
  have ok: "params_ok (split_params_of c')" using load_InrD [OF assms(1)] settled_split(1) by blast
  obtain s where s: "compute ms tw v (split_params_of c') due now script_for = Some s" using compute_total [OF ok assms(2-5)] by blast
  then show ?thesis using compute_pays(1) [OF s ok assms(2,4)] by blast
qed

text \<open>The doc of \<^verbatim>\<open>Config::grace\<close> says the clocks are not enabled unless \<^verbatim>\<open>stratum-grace-hours\<close> is set: the hours for DATUM addresses enable them alone.\<close>

theorem grace_enabled_by_datum_hours:
  "cg_stratum_grace_hours c = 0 \<Longrightarrow> cg_stratum_grace_datum_hours c = 24 \<Longrightarrow> enabled (grace c)"
  by (simp add: enabled_def grace_def sat_mul32_def Let_def)

section \<open>Examples\<close>

definition ex_config :: config where
  "ex_config = default_config ''data'' ''BC1QA''"

lemma ex_config_faults: "config_faults ex_config = []"
  by (simp add: config_faults_def front_faults_def ex_config_def default_config_def config_defaults is_power_of_two.simps grace_error_def
      grace_def enabled_def sat_mul32_def)

lemma ex_config_loads: "load (\<lambda>_. False) ex_config = Inr (settled (\<lambda>_. False) ex_config)"
  by (simp add: load_first ex_config_faults)

theorem loaded_config_sound_witness:
  "params_ok (split_params_of (settled (\<lambda>_. False) ex_config)) \<and> 2 ^ cf_min_pot (session_cfg_of (settled (\<lambda>_. False) ex_config)) = 1"
proof -
  have "cg_min_diff ex_config = 1" by (simp add: ex_config_def default_config_def config_defaults)
  then show ?thesis using loaded_config_sound [OF ex_config_loads] by simp
qed

theorem loaded_config_pays_value_witness:
  "\<exists>s. compute ex_miners 1000 5000000000 (split_params_of (settled (\<lambda>_. False) ex_config)) 0 5000 ex_script = Some s
    \<and> sum_list (map py_sats (sl_payees s)) + sl_pool_sats s = 5000000000"
  by (rule loaded_config_pays_value [OF ex_config_loads]) (simp_all add: ex_miners_def)

theorem grace_enabled_by_datum_hours_witness: "enabled (grace (ex_config\<lparr>cg_stratum_grace_datum_hours := 24\<rparr>))"
  by (rule grace_enabled_by_datum_hours) (simp_all add: ex_config_def default_config_def)

end
