(* ===== verification/Primed_Payouts.thy ===== *)
theory Primed_Payouts
  imports Primed_Blocks Primed_Coinbaser Primed_Config
begin

text \<open>
  Stale balances paid by hand, \<^verbatim>\<open>prime/primed/src/payouts.rs\<close>: requests the operator leaves as files, to set balances aside,
  to take them off the books once the node shows they were paid, to give them back, to move carry. A directory is the list
  of its request files in the order of their names; the JSON reader of a request is an argument, and so are the node's
  answer and the conversion of an amount written with an exponent, which the source does in floats. Files that cannot be
  removed are not modelled.
\<close>

section \<open>Model\<close>

definition PAID_CONFIRMATIONS :: int where "PAID_CONFIRMATIONS = 3"
definition READY_AFTER_BLOCKS :: u32 where "READY_AFTER_BLOCKS = COINBASER_GRACE_BLOCKS + 2"
definition RETRY_EVERY :: nat where "RETRY_EVERY = 30 * 1000"
definition MAX_REQUEST_BYTES :: nat where "MAX_REQUEST_BYTES = 4194304"
definition MAX_ENTRIES :: nat where "MAX_ENTRIES = 5000"

datatype request = Hold "(string \<times> u64) list" | Paid string "string option" | Release | Credit "(string \<times> i64) list" string

definition id_char :: "char \<Rightarrow> bool" where
  "id_char c \<longleftrightarrow> (let n = of_char c :: nat in (48 \<le> n \<and> n \<le> 57) \<or> (65 \<le> n \<and> n \<le> 90) \<or> (97 \<le> n \<and> n \<le> 122))
     \<or> c = CHR ''-'' \<or> c = CHR ''_'' \<or> c = CHR ''.''"

definition valid_id :: "string \<Rightarrow> bool" where
  "valid_id i \<longleftrightarrow> i \<noteq> [] \<and> length i \<le> 64 \<and> hd i \<noteq> CHR ''.'' \<and> list_all id_char i"

text \<open>\<^verbatim>\<open>de\<close> reads a request.\<close>

definition read_request :: "(byte list \<Rightarrow> request option) \<Rightarrow> string \<Rightarrow> byte list \<Rightarrow> string + request" where
  "read_request de i bytes =
     (if \<not> valid_id i then Inl ''the id may hold letters, digits, '-', '_' and '.', 64 at most''
      else if length bytes > MAX_REQUEST_BYTES then Inl ''request too large''
      else case de bytes of None \<Rightarrow> Inl ''not a request''
      | Some req \<Rightarrow>
          let n = (case req of Hold es \<Rightarrow> Some (length es) | Credit es _ \<Rightarrow> Some (length es) | _ \<Rightarrow> None)
          in case n of
               Some k \<Rightarrow> if k = 0 \<or> k > MAX_ENTRIES then Inl ''a hold or credit names 1..=5000 entries'' else Inr req
             | None \<Rightarrow> Inr req)"

subsection \<open>Amounts\<close>

definition digit_of :: "char \<Rightarrow> nat option" where
  "digit_of c = (let n = of_char c :: nat in if 48 \<le> n \<and> n \<le> 57 then Some (n - 48) else None)"

text \<open>\<^verbatim>\<open>str::parse::<u64>\<close>: one plus sign may come first.\<close>

definition parse_u64 :: "string \<Rightarrow> u64 option" where
  "parse_u64 s = (let d = (if s \<noteq> [] \<and> hd s = CHR ''+'' then tl s else s) in
     if d = [] then None
     else case those (map digit_of d) of None \<Rightarrow> None
     | Some ns \<Rightarrow> let v = foldl (\<lambda>a n. a * 10 + n) 0 ns in if v \<le> u64_max then Some v else None)"

definition trim_quotes :: "string \<Rightarrow> string" where
  "trim_quotes s = rev (dropWhile (\<lambda>c. c = CHR 0x22) (rev (dropWhile (\<lambda>c. c = CHR 0x22) s)))"

definition or_zero :: "nat option \<Rightarrow> nat" where
  "or_zero x = (case x of None \<Rightarrow> 0 | Some n \<Rightarrow> n)"

definition btc_to_sats :: "(string \<Rightarrow> u64) \<Rightarrow> string \<Rightarrow> u64" where
  "btc_to_sats fl v = (let s = trim_quotes v in
     if CHR ''e'' \<in> set s \<or> CHR ''E'' \<in> set s then fl v
     else let whole = takeWhile (\<lambda>c. c \<noteq> CHR ''.'') s;
         frac = take 8 (drop (Suc (length whole)) s)
       in sat_add64 (min (or_zero (parse_u64 whole) * 100000000) u64_max)
            (or_zero (parse_u64 (frac @ replicate (8 - length frac) (CHR ''0'')))))"

subsection \<open>A transaction that pays\<close>

text \<open>What is read of the node's answer: the confirmations, and of each output its script in hex and its value as written.\<close>

record tx_out_shown =
  to_hex :: "string option"
  to_value_text :: "string option"

record tx_shown =
  tx_confirmations :: int
  tx_vout :: "tx_out_shown list option"

datatype pay_error = NoOutputs | OutputNoValue | PayeeNotAddress string | Underpaid string u64 u64

text \<open>\<open>None\<close> of the outer option is an overflow.\<close>

definition shown_script :: "tx_out_shown \<Rightarrow> string" where
  "shown_script x = to_ascii_lower (case to_hex x of None \<Rightarrow> [] | Some h \<Rightarrow> h)"

fun paid_outputs :: "(string \<Rightarrow> u64) \<Rightarrow> tx_out_shown list \<Rightarrow> (string \<rightharpoonup> u64) \<Rightarrow> (pay_error + (string \<rightharpoonup> u64)) option" where
  "paid_outputs fl [] paid = Some (Inr paid)"
| "paid_outputs fl (x # xs) paid =
     (case to_value_text x of None \<Rightarrow> Some (Inl OutputNoValue)
      | Some v \<Rightarrow> do {
          n \<leftarrow> chk64 (or_zero (paid (shown_script x)) + btc_to_sats fl v);
          paid_outputs fl xs (paid(shown_script x \<mapsto> n)) })"

fun unpaid_entry :: "(string \<Rightarrow> byte list option) \<Rightarrow> (string \<rightharpoonup> u64) \<Rightarrow> (string \<times> u64) list \<Rightarrow> pay_error option" where
  "unpaid_entry script_for paid [] = None"
| "unpaid_entry script_for paid ((i, sats) # es) = (case script_for i of
     None \<Rightarrow> Some (PayeeNotAddress i)
   | Some sc \<Rightarrow> let got = or_zero (paid (hex_of sc)) in
       if got < sats then Some (Underpaid i sats got) else unpaid_entry script_for paid es)"

definition pays_all :: "(string \<Rightarrow> u64) \<Rightarrow> tx_shown \<Rightarrow> (string \<times> u64) list \<Rightarrow> (string \<Rightarrow> byte list option) \<Rightarrow> pay_error option option" where
  "pays_all fl tx entries script_for = (case tx_vout tx of None \<Rightarrow> Some (Some NoOutputs)
   | Some outs \<Rightarrow> do {
       r \<leftarrow> paid_outputs fl outs Map.empty;
       Some (case r of Inl e \<Rightarrow> Some e | Inr paid \<Rightarrow> unpaid_entry script_for paid entries) })"

subsection \<open>Handling a request\<close>

record moved_entry =
  mv_identity :: string
  mv_requested :: i64
  mv_before :: u64
  mv_after :: u64
  mv_debt_paid :: u64

datatype answer =
    Failed string
  | Waiting string
  | NotThisPayment pay_error
  | HeldAt u32 u32 u64 "(string \<times> u64) list" "hold_skip list" "(string \<times> u64) list"
  | CreditedBy string u64 u64 "moved_entry list"
  | ReleasedOf u64 "(string \<times> u64) list"
  | PaidBy string int u64 "(string \<times> u64) list"

definition persist :: "pool_env \<Rightarrow> shared \<Rightarrow> shared" where
  "persist E sh = (case persist_window (ev_ser E) (ev_gser E) (sh_ledger sh) (sh_disk sh) of (l, d) \<Rightarrow> sh\<lparr>sh_ledger := l, sh_disk := d\<rparr>)"

abbreviation payee_script :: "pool_env \<Rightarrow> string \<Rightarrow> byte list option" where
  "payee_script E i \<equiv> Primed_Address.to_script (ev_codecs E) i (ev_network E)"

definition handle_hold ::
  "pool_env \<Rightarrow> config \<Rightarrow> u64 \<Rightarrow> u32 option \<Rightarrow> string \<Rightarrow> (string \<times> u64) list \<Rightarrow> shared \<Rightarrow> (answer \<times> shared) option" where
  "handle_hold E c ts tip i entries sh =
     (let after = stale_after_secs c in
      if after = 0 then Some (Failed ''stale-after-days is 0: no balance is stale'', sh)
      else case tip of None \<Rightarrow> Some (Failed ''no tip from the node yet'', sh)
      | Some height \<Rightarrow>
          let payable = filter (\<lambda>e. payee_script E (fst e) \<noteq> None) entries;
              unpayable = filter (\<lambda>e. payee_script E (fst e) = None) entries
          in do {
            ready \<leftarrow> chk u32_max (height + READY_AFTER_BLOCKS);
            (res, l) \<leftarrow> hold_carry i payable (ts mod 4294967296) after (cg_stale_min_payout c) height ready (sh_ledger sh);
            a \<leftarrow> (case res of Inl e \<Rightarrow> Some (Failed e)
              | Inr (hld, skipped) \<Rightarrow> map_option (\<lambda>n. HeldAt height ready n hld skipped unpayable) (sum_u64 (map snd hld)));
            Some (a, drop_coinbaser_base (persist E (sh\<lparr>sh_ledger := l\<rparr>))) })"

fun credit_each ::
  "(string \<times> i64) list \<Rightarrow> ledger \<times> u64 \<times> u64 \<times> moved_entry list \<Rightarrow> (ledger \<times> u64 \<times> u64 \<times> moved_entry list) option" where
  "credit_each [] st = Some st"
| "credit_each ((i, d) # es) (l, credited, debited, mvs) =
     (let before = carry_of i (l_window l); debt = debt_of i (l_window l) in
      case settle_carry [(i, d)] l of (out, l1) \<Rightarrow>
        let after = (case out of [] \<Rightarrow> before | e # _ \<Rightarrow> snd e);
            m = \<lparr>mv_identity = i, mv_requested = d, mv_before = before, mv_after = after, mv_debt_paid = debt - debt_of i (l_window l1)\<rparr>
        in do {
          cr \<leftarrow> chk64 (credited + (after - before));
          de \<leftarrow> chk64 (debited + (before - after));
          credit_each es (l1, cr, de, mvs @ [m]) })"

definition handle_credit :: "pool_env \<Rightarrow> (string \<times> i64) list \<Rightarrow> string \<Rightarrow> shared \<Rightarrow> (answer \<times> shared) option" where
  "handle_credit E entries message sh = do {
     (l, credited, debited, mvs) \<leftarrow> credit_each entries (sh_ledger sh, 0, 0, []);
     Some (CreditedBy message credited debited mvs, drop_coinbaser_base (persist E (sh\<lparr>sh_ledger := l\<rparr>))) }"

definition handle_release :: "pool_env \<Rightarrow> string \<Rightarrow> shared \<Rightarrow> (answer \<times> shared) option" where
  "handle_release E i sh = (case release_hold i (sh_ledger sh) of
     (None, _) \<Rightarrow> Some (Failed ''no such hold'', sh)
   | (Some es, l) \<Rightarrow> map_option (\<lambda>n. (ReleasedOf n es, drop_coinbaser_base (persist E (sh\<lparr>sh_ledger := l\<rparr>)))) (sum_u64 (map snd es)))"

definition hex64 :: "string \<Rightarrow> bool" where
  "hex64 s \<longleftrightarrow> length s = 64 \<and> list_all is_ascii_hexdigit s"

text \<open>The block the node is pointed to, if its hash is one.\<close>

definition tx_params :: "string \<Rightarrow> string option \<Rightarrow> string \<times> string option" where
  "tx_params txid blockhash = (txid, case blockhash of Some b \<Rightarrow> if hex64 b then Some b else None | None \<Rightarrow> None)"

text \<open>
  \<open>rpc\<close> is the node's answer to \<^verbatim>\<open>getrawtransaction\<close>. The hold is read before the node is asked and again after; no other
  handler runs in between here.
\<close>

definition handle_paid ::
  "pool_env \<Rightarrow> (string \<Rightarrow> u64) \<Rightarrow> (string \<times> string option \<Rightarrow> tx_shown option) \<Rightarrow> string \<Rightarrow> string \<Rightarrow> string option \<Rightarrow> shared
    \<Rightarrow> (answer \<times> shared) option" where
  "handle_paid E fl rpc i txid blockhash sh = (case map_of (w_holds (l_window (sh_ledger sh))) i of
     None \<Rightarrow> Some (Failed ''no such hold'', sh)
   | Some h \<Rightarrow>
       if \<not> hex64 txid then Some (Failed ''txid is 64 hex characters'', sh)
       else case rpc (tx_params txid blockhash) of
         None \<Rightarrow> Some (Waiting ''the node does not show it'', sh)
       | Some tx \<Rightarrow>
           if tx_confirmations tx < PAID_CONFIRMATIONS then Some (Waiting ''confirmations needed'', sh)
           else do {
             r \<leftarrow> pays_all fl tx (hd_entries h) (payee_script E);
             (case r of Some e \<Rightarrow> Some (NotThisPayment e, sh)
              | None \<Rightarrow> (case finish_hold i (sh_ledger sh) of
                  (None, _) \<Rightarrow> Some (Failed ''no such hold'', sh)
                | (Some es, l) \<Rightarrow> map_option (\<lambda>n. (PaidBy txid (tx_confirmations tx) n es, persist E (sh\<lparr>sh_ledger := l\<rparr>)))
                    (sum_u64 (map snd es)))) })"

definition handle ::
  "pool_env \<Rightarrow> config \<Rightarrow> (string \<Rightarrow> u64) \<Rightarrow> (string \<times> string option \<Rightarrow> tx_shown option) \<Rightarrow> u64 \<Rightarrow> u32 option \<Rightarrow> string \<Rightarrow> request \<Rightarrow> shared
    \<Rightarrow> (answer \<times> shared) option" where
  "handle E c fl rpc ts tip i req sh = (case req of
     Hold es \<Rightarrow> handle_hold E c ts tip i es sh
   | Credit es message \<Rightarrow> handle_credit E es message sh
   | Release \<Rightarrow> handle_release E i sh
   | Paid txid b \<Rightarrow> handle_paid E fl rpc i txid b sh)"

subsection \<open>The directory\<close>

text \<open>A request file has its contents and the time it was written; an entry of \<open>pd_waiting\<close> holds until its time for that file.\<close>

record payout_dir =
  pd_requests :: "(string \<times> byte list \<times> nat) list"
  pd_waiting :: "string \<rightharpoonup> nat \<times> nat"
  pd_answers :: "string \<rightharpoonup> answer"
  pd_log :: "(string \<times> answer) list"

record payout_env =
  pe_pool :: pool_env
  pe_config :: config
  pe_float :: "string \<Rightarrow> u64"
  pe_rpc :: "string \<times> string option \<Rightarrow> tx_shown option"
  pe_de :: "byte list \<Rightarrow> request option"

definition is_retry :: "answer \<Rightarrow> bool" where
  "is_retry a = (case a of Waiting _ \<Rightarrow> True | _ \<Rightarrow> False)"

definition answer_one ::
  "payout_env \<Rightarrow> nat \<Rightarrow> u64 \<Rightarrow> u32 option \<Rightarrow> string \<times> byte list \<times> nat \<Rightarrow> payout_dir \<times> shared \<Rightarrow> (payout_dir \<times> shared) option" where
  "answer_one V t ts tip = (\<lambda>(i, bytes, written) (D, sh).
     if (case pd_waiting D i of Some (at, file) \<Rightarrow> at > t \<and> file = written | None \<Rightarrow> False) then Some (D, sh)
     else do {
       (a, sh1) \<leftarrow> (case read_request (pe_de V) i bytes of Inl e \<Rightarrow> Some (Failed e, sh)
         | Inr req \<Rightarrow> handle (pe_pool V) (pe_config V) (pe_float V) (pe_rpc V) ts tip i req sh);
       Some (if is_retry a
         then (D\<lparr>pd_waiting := (pd_waiting D)(i \<mapsto> (t + RETRY_EVERY, written)), pd_answers := (pd_answers D)(i \<mapsto> a)\<rparr>, sh1)
         else (D\<lparr>pd_waiting := (pd_waiting D)(i := None), pd_answers := (pd_answers D)(i \<mapsto> a), pd_log := pd_log D @ [(i, a)],
                pd_requests := filter (\<lambda>(j, _). j \<noteq> i) (pd_requests D)\<rparr>, sh1)) })"

fun answer_all ::
  "payout_env \<Rightarrow> nat \<Rightarrow> u64 \<Rightarrow> u32 option \<Rightarrow> (string \<times> byte list \<times> nat) list \<Rightarrow> payout_dir \<times> shared \<Rightarrow> (payout_dir \<times> shared) option" where
  "answer_all V t ts tip [] x = Some x"
| "answer_all V t ts tip (r # rs) x = do { y \<leftarrow> answer_one V t ts tip r x; answer_all V t ts tip rs y }"

definition poll :: "payout_env \<Rightarrow> nat \<Rightarrow> u64 \<Rightarrow> u32 option \<Rightarrow> payout_dir \<times> shared \<Rightarrow> (payout_dir \<times> shared) option" where
  "poll V t ts tip x = answer_all V t ts tip (pd_requests (fst x)) x"

section \<open>What a transaction pays\<close>

text \<open>The sats of the outputs whose script is written this way.\<close>

definition shown_sats :: "(string \<Rightarrow> u64) \<Rightarrow> tx_out_shown \<Rightarrow> u64" where
  "shown_sats fl x = (case to_value_text x of None \<Rightarrow> 0 | Some v \<Rightarrow> btc_to_sats fl v)"

definition paid_in :: "(string \<Rightarrow> u64) \<Rightarrow> tx_shown \<Rightarrow> string \<Rightarrow> nat" where
  "paid_in fl tx script = (case tx_vout tx of None \<Rightarrow> 0
     | Some outs \<Rightarrow> sum_list (map (shown_sats fl) (filter (\<lambda>x. shown_script x = script) outs)))"

lemma paid_outputs_sum:
  "paid_outputs fl outs m = Some (Inr p)
    \<Longrightarrow> or_zero (p s) = or_zero (m s) + sum_list (map (shown_sats fl) (filter (\<lambda>x. shown_script x = s) outs))"
proof (induction outs arbitrary: m)
  case (Cons x xs)
  obtain v where v: "to_value_text x = Some v" using Cons.prems by (cases "to_value_text x") simp_all
  obtain n where n: "chk64 (or_zero (m (shown_script x)) + btc_to_sats fl v) = Some n"
    "paid_outputs fl xs (m(shown_script x \<mapsto> n)) = Some (Inr p)" using Cons.prems v by (auto split: bind_splits)
  have "n = or_zero (m (shown_script x)) + shown_sats fl x" using n(1) by (simp add: chk_def shown_sats_def v split: if_splits)
  then show ?case using Cons.IH [OF n(2)] by (auto simp: or_zero_def)
qed simp

lemma unpaid_entry_None:
  "unpaid_entry sf paid es = None \<longleftrightarrow> list_all (\<lambda>(i, sats). \<exists>sc. sf i = Some sc \<and> sats \<le> or_zero (paid (hex_of sc))) es"
  by (induction sf paid es rule: unpaid_entry.induct) (auto simp: Let_def split: option.splits)

lemma pays_all_sound:
  assumes "pays_all fl tx es sf = Some None"
  shows "list_all (\<lambda>(i, sats). \<exists>sc. sf i = Some sc \<and> sats \<le> paid_in fl tx (hex_of sc)) es"
proof -
  obtain outs p where o: "tx_vout tx = Some outs" "paid_outputs fl outs Map.empty = Some (Inr p)" "unpaid_entry sf p es = None"
    using assms by (auto simp: pays_all_def split: option.splits bind_splits sum.splits)
  have "or_zero (p s) = paid_in fl tx s" for s
    using paid_outputs_sum [OF o(2), of s] by (simp add: paid_in_def o(1) or_zero_def)
  then show ?thesis using o(3) by (simp add: unpaid_entry_None)
qed

section \<open>What a request moves\<close>

lemma persist_simps [simp]:
  "l_window (sh_ledger (persist E sh)) = l_window (sh_ledger sh)" "l_window (sh_ledger (drop_coinbaser_base sh)) = l_window (sh_ledger sh)"
  by (simp_all add: persist_def persist_window_def flush_def Tides_Disk.compact_def drop_coinbaser_base_def Let_def split: prod.splits)

definition payout_fits :: "string \<Rightarrow> window \<Rightarrow> bool" where
  "payout_fits i w \<longleftrightarrow> accounts_ok MAX_ENTRIES w \<and> (\<forall>s. carry_of s w \<le> i64_max)
     \<and> (case map_of (w_holds w) i of None \<Rightarrow> True | Some h \<Rightarrow> length (hd_entries h) \<le> MAX_ENTRIES \<and> entries_ok (hd_entries h)
         \<and> headroom (amount_all (hd_entries h)) w)"

lemma hold_positions:
  assumes "handle_hold E c ts tip i es sh = Some (a, sh')" "payout_fits i (l_window (sh_ledger sh))" "length es \<le> MAX_ENTRIES"
  shows "net_position s (l_window (sh_ledger sh')) = net_position s (l_window (sh_ledger sh))" "\<And>t n m e. a \<noteq> PaidBy t n m e"
proof -
  let ?w = "l_window (sh_ledger sh)" and ?p = "filter (\<lambda>e. payee_script E (fst e) \<noteq> None) es"
  have "length ?p \<le> MAX_ENTRIES" using assms(3) length_filter_le order.trans by blast
  then have ok: "accounts_ok (length ?p) ?w" using assms(2) accounts_ok_mono [of MAX_ENTRIES ?w "length ?p"] by (simp add: payout_fits_def)
  have pos: "net_position s (l_window l) = net_position s ?w" if "hold_carry i ?p n af mn hh rd (sh_ledger sh) = Some (res, l)" for n af mn hh rd res l
  proof (cases "map_of (w_holds ?w) i")
    case None
    then show ?thesis
      using that hold_carry_moves_stale [OF ok None, of n af mn hh rd] assms(2) unfolding payout_fits_def by fastforce
  next
    case (Some h)
    then show ?thesis using that by (auto simp: hold_carry_def Let_def)
  qed
  show "net_position s (l_window (sh_ledger sh')) = net_position s ?w" "\<And>t n m e. a \<noteq> PaidBy t n m e"
    using assms(1) pos by (auto simp: handle_hold_def Let_def split: if_splits option.splits bind_splits sum.splits)
qed

lemma fits_hold:
  assumes "payout_fits i (l_window l)" "map_of (w_holds (l_window l)) i = Some h"
  shows "\<forall>s. net_position s (l_window (snd (release_hold i l))) = net_position s (l_window l)"
    "\<forall>s. net_position s (l_window (snd (finish_hold i l))) = net_position s (l_window l) - int (amount_of s (hd_entries h))"
proof -
  have "accounts_ok (length (hd_entries h)) (l_window l)" using assms accounts_ok_mono [of MAX_ENTRIES] by (simp add: payout_fits_def)
  then show "\<forall>s. net_position s (l_window (snd (release_hold i l))) = net_position s (l_window l)"
    "\<forall>s. net_position s (l_window (snd (finish_hold i l))) = net_position s (l_window l) - int (amount_of s (hd_entries h))"
    using hold_ends [OF assms(2)] assms by (simp_all add: payout_fits_def)
qed

lemma release_positions:
  assumes "handle_release E i sh = Some (a, sh')" "payout_fits i (l_window (sh_ledger sh))"
  shows "net_position s (l_window (sh_ledger sh')) = net_position s (l_window (sh_ledger sh))" "\<And>t n m e. a \<noteq> PaidBy t n m e"
proof -
  let ?w = "l_window (sh_ledger sh)"
  have pos: "net_position s (l_window l) = net_position s ?w" if r: "release_hold i (sh_ledger sh) = (Some es, l)" for es l
  proof -
    obtain h where "map_of (w_holds ?w) i = Some h" using r by (auto simp: release_hold_def split: option.splits)
    from fits_hold(1) [OF assms(2) this] show ?thesis by (simp add: r)
  qed
  show "net_position s (l_window (sh_ledger sh')) = net_position s ?w" "\<And>t n m e. a \<noteq> PaidBy t n m e"
    using assms(1) pos by (auto simp: handle_release_def split: prod.splits option.splits)
qed

lemma handle_paid_cases:
  assumes "handle_paid E fl rpc i txid b sh = Some (a, sh')"
  obtains (kept) "sh' = sh" "\<And>t n m e. a \<noteq> PaidBy t n m e"
    | (paid) h tx m where "map_of (w_holds (l_window (sh_ledger sh))) i = Some h" "rpc (tx_params txid b) = Some tx" "3 \<le> tx_confirmations tx"
        "pays_all fl tx (hd_entries h) (payee_script E) = Some None" "a = PaidBy txid (tx_confirmations tx) m (hd_entries h)"
        "sh' = persist E (sh\<lparr>sh_ledger := snd (finish_hold i (sh_ledger sh))\<rparr>)"
proof -
  let ?w = "l_window (sh_ledger sh)"
  show thesis
  proof (cases "\<exists>t n m e. a = PaidBy t n m e")
    case True
    then show ?thesis using assms
      by (auto simp: handle_paid_def finish_hold_def PAID_CONFIRMATIONS_def not_less split: option.splits if_splits bind_splits intro!: paid)
  next
    case False
    then have "sh' = sh" using assms
      by (auto simp: handle_paid_def finish_hold_def split: option.splits if_splits bind_splits)
    then show ?thesis using False kept by blast
  qed
qed

section \<open>Properties\<close>

text \<open>
  C27. Only a payment the node shows takes money off the books. Setting balances aside and giving them back
  moves nobody's position. A hold is finished only when the node shows the transaction with three confirmations and it pays
  the script of every identity of the hold at least what is held for it, and then every position falls by exactly what the hold had; in
  every other case a request for it moves no position.
\<close>

theorem payout_keeps_positions:
  assumes "handle E c fl rpc ts tip i req sh = Some (a, sh')" "payout_fits i (l_window (sh_ledger sh))"
    and "case req of Hold es \<Rightarrow> length es \<le> MAX_ENTRIES | Credit _ _ \<Rightarrow> False | _ \<Rightarrow> True"
  shows "case a of
      PaidBy txid n m es \<Rightarrow> (\<exists>b tx. req = Paid txid b \<and> rpc (tx_params txid b) = Some tx \<and> 3 \<le> tx_confirmations tx
          \<and> list_all (\<lambda>(j, sats). \<exists>sc. payee_script E j = Some sc \<and> sats \<le> paid_in fl tx (hex_of sc)) es)
        \<and> (\<forall>s. net_position s (l_window (sh_ledger sh')) = net_position s (l_window (sh_ledger sh)) - int (amount_of s es))
    | _ \<Rightarrow> (\<forall>s. net_position s (l_window (sh_ledger sh')) = net_position s (l_window (sh_ledger sh)))"
proof -
  have same: ?thesis if "\<And>t n m e. a \<noteq> PaidBy t n m e" "\<And>s. net_position s (l_window (sh_ledger sh')) = net_position s (l_window (sh_ledger sh))"
  proof (cases a)
    case (PaidBy t n m e)
    then show ?thesis using that(1) by blast
  qed (use that(2) in simp_all)
  show ?thesis
  proof (cases req)
    case (Hold es)
    then show ?thesis using assms hold_positions [of E c ts tip i es sh a sh'] by (intro same) (simp_all add: handle_def)
  next
    case (Paid txid b)
    then have "handle_paid E fl rpc i txid b sh = Some (a, sh')" using assms(1) by (simp add: handle_def)
    then show ?thesis
    proof (cases rule: handle_paid_cases)
      case kept
      then show ?thesis by (intro same) simp_all
    next
      case (paid h tx m)
      then show ?thesis using fits_hold(2) [OF assms(2) paid(1)] pays_all_sound [OF paid(4)] Paid by simp
    qed
  next
    case Release
    then show ?thesis using assms release_positions [of E i sh a sh'] by (intro same) (simp_all add: handle_def)
  next
    case (Credit es m)
    then show ?thesis using assms(3) by simp
  qed
qed

text \<open>Where a request stands after a pass: waiting for another look at this file, or answered for good.\<close>

definition left_waiting :: "nat \<Rightarrow> payout_dir \<Rightarrow> string \<times> byte list \<times> nat \<Rightarrow> bool" where
  "left_waiting t D = (\<lambda>(i, _, written). case pd_waiting D i of Some (at, file) \<Rightarrow> t < at \<and> file = written | None \<Rightarrow> False)"

lemma answer_one_cases:
  assumes "answer_one V t ts tip r (D, sh) = Some (D', sh')"
  shows "(\<forall>j. j \<noteq> fst r \<longrightarrow> pd_waiting D' j = pd_waiting D j)
    \<and> (if left_waiting t D' r then pd_requests D' = pd_requests D \<and> pd_log D' = pd_log D
       else (\<exists>a. pd_log D' = pd_log D @ [(fst r, a)] \<and> pd_answers D' (fst r) = Some a)
         \<and> pd_requests D' = filter (\<lambda>x. fst x \<noteq> fst r) (pd_requests D))"
proof -
  obtain i bytes written where r: "r = (i, bytes, written)" by (metis prod.exhaust)
  show ?thesis
  proof (cases "left_waiting t D r")
    case True
    then have "D' = D" using assms by (auto simp: answer_one_def r left_waiting_def split: option.splits prod.splits)
    then show ?thesis using True by simp
  next
    case False
    then obtain a sh1 where a: "(if is_retry a
         then (D\<lparr>pd_waiting := (pd_waiting D)(i \<mapsto> (t + RETRY_EVERY, written)), pd_answers := (pd_answers D)(i \<mapsto> a)\<rparr>, sh1)
         else (D\<lparr>pd_waiting := (pd_waiting D)(i := None), pd_answers := (pd_answers D)(i \<mapsto> a), pd_log := pd_log D @ [(i, a)],
                pd_requests := filter (\<lambda>(j, _). j \<noteq> i) (pd_requests D)\<rparr>, sh1)) = (D', sh')"
      using assms by (auto simp: answer_one_def r left_waiting_def split: option.splits prod.splits bind_splits if_splits)
    have f: "(\<lambda>(j :: string, _ :: byte list \<times> nat). j \<noteq> i) = (\<lambda>x. fst x \<noteq> i)" by auto
    show ?thesis
    proof (cases "is_retry a")
      case True
      then show ?thesis using a by (auto simp: r left_waiting_def RETRY_EVERY_def)
    next
      case no: False
      then show ?thesis using a by (auto simp: r left_waiting_def f)
    qed
  qed
qed

lemma answer_all_cases:
  assumes "answer_all V t ts tip rs (D, sh) = Some (D', sh')" "distinct (map fst rs)"
  shows "(\<forall>j. j \<notin> fst ` set rs \<longrightarrow> pd_waiting D' j = pd_waiting D j)
    \<and> pd_requests D' = filter (\<lambda>x. fst x \<in> fst ` set rs \<longrightarrow> fst x \<in> fst ` set (filter (left_waiting t D') rs)) (pd_requests D)
    \<and> (\<exists>out. pd_log D' = pd_log D @ out \<and> map fst out = map fst (filter (\<lambda>r. \<not> left_waiting t D' r) rs))"
  using assms
proof (induction rs arbitrary: D sh)
  case (Cons r rs)
  obtain D1 sh1 where one: "answer_one V t ts tip r (D, sh) = Some (D1, sh1)" and rest: "answer_all V t ts tip rs (D1, sh1) = Some (D', sh')"
    using Cons.prems(1) by (auto split: bind_splits)
  have d: "fst r \<notin> fst ` set rs" "distinct (map fst rs)" using Cons.prems(2) by auto
  have nr: "(fst r, y) \<notin> set rs" for y using d(1) image_eqI [of "fst r" fst "(fst r, y)"] by auto
  note o = answer_one_cases [OF one] and IH = Cons.IH [OF rest d(2)]
  have w: "left_waiting t D' r = left_waiting t D1 r" using IH d(1) by (auto simp: left_waiting_def split: prod.splits)
  have keep: "pd_waiting D' j = pd_waiting D j" if "j \<notin> fst ` set (r # rs)" for j using o IH that by simp
  show ?case
  proof (cases "left_waiting t D1 r")
    case True
    then have "pd_requests D1 = pd_requests D" "pd_log D1 = pd_log D" using o by simp_all
    then show ?thesis using IH keep True w d(1) nr by (auto intro!: filter_cong)
  next
    case False
    then obtain a where a: "pd_log D1 = pd_log D @ [(fst r, a)]" "pd_requests D1 = filter (\<lambda>x. fst x \<noteq> fst r) (pd_requests D)" using o by auto
    obtain out where "pd_log D' = pd_log D1 @ out" "map fst out = map fst (filter (\<lambda>r. \<not> left_waiting t D' r) rs)" using IH by blast
    then have "\<exists>out. pd_log D' = pd_log D @ out \<and> map fst out = map fst (filter (\<lambda>r. \<not> left_waiting t D' r) (r # rs))"
      using a(1) False w by (intro exI [of _ "(fst r, a) # out"]) simp
    moreover have "pd_requests D' = filter (\<lambda>x. fst x \<in> fst ` set (r # rs) \<longrightarrow> fst x \<in> fst ` set (filter (left_waiting t D') (r # rs))) (pd_requests D)"
      using IH a(2) False w d(1) nr by (auto intro!: filter_cong)
    ultimately show ?thesis using keep by blast
  qed
qed simp

text \<open>
  C28. Every request is answered for good exactly once. After a pass over the directory the requests left are
  those that wait for another look at the same file, in their order; every other one was logged once, in order, and is gone.
\<close>

theorem poll_answers_each_once:
  assumes "poll V t ts tip (D, sh) = Some (D', sh')" "distinct (map fst (pd_requests D))"
  shows "pd_requests D' = filter (left_waiting t D') (pd_requests D)
    \<and> (\<exists>out. pd_log D' = pd_log D @ out \<and> map fst out = map fst (filter (\<lambda>r. \<not> left_waiting t D' r) (pd_requests D)))"
proof -
  note a = answer_all_cases [OF assms(1) [unfolded poll_def fst_conv] assms(2)]
  have "fst x \<in> fst ` set (filter (left_waiting t D') (pd_requests D)) \<longleftrightarrow> left_waiting t D' x" if "x \<in> set (pd_requests D)" for x
    using that assms(2) by (auto simp: distinct_map inj_on_def)
  then have "filter (\<lambda>x. fst x \<in> fst ` set (pd_requests D) \<longrightarrow> fst x \<in> fst ` set (filter (left_waiting t D') (pd_requests D))) (pd_requests D)
      = filter (left_waiting t D') (pd_requests D)" by (auto intro!: filter_cong)
  then show ?thesis using a by simp
qed

section \<open>Examples\<close>

definition ex_paying_tx :: "string \<Rightarrow> tx_shown" where
  "ex_paying_tx v = \<lparr>tx_confirmations = 3, tx_vout = Some [\<lparr>to_hex = Some (hex_of [0, 2, 1, 2]), to_value_text = Some v\<rparr>]\<rparr>"

text \<open>
  What is held is checked for each identity against all its script was paid: two held identities that are one address count as
  paid by one output, so a hold of ten sats is finished by a payment of five.
\<close>

theorem one_output_pays_two_identities:
  "pays_all (\<lambda>_. 0) (ex_paying_tx ''0.00000005'') [(''bc1qa '', 5), (''bc1qa'', 5)] (\<lambda>i. to_script ex_codecs i Mainnet) = Some None
    \<and> paid_in (\<lambda>_. 0) (ex_paying_tx ''0.00000005'') (hex_of [0, 2, 1, 2]) = 5"
proof -
  have v: "btc_to_sats (\<lambda>_. 0) ''0.00000005'' = 5"
    by (simp add: btc_to_sats_def trim_quotes_def parse_u64_def digit_of_def or_zero_def sat_add64_def Let_def)
  have h: "to_ascii_lower (hex_of [0, 2, 1, 2]) = hex_of [0, 2, 1, 2]"
    by (simp add: hex_of_def hex_digit_def to_ascii_lower_def lower_char_def Let_def)
  have t: "trim_str ''bc1qa'' = ''bc1qa''" "trim_str ''bc1qa '' = ''bc1qa''"
    by (simp_all add: trim_str_def trim_lead.simps lead_space_def white_space_def Let_def)
  have l: "to_ascii_lower ''bc1qa'' = ''bc1qa''" by (simp add: to_ascii_lower_def lower_char_def)
  have "to_script ex_codecs ''bc1qa'' Mainnet = Some [0, 2, 1, 2]" "to_script ex_codecs ''bc1qa '' Mainnet = Some [0, 2, 1, 2]"
    by (simp_all add: to_script_def decode_script_def t l ex_codecs_def lower_ex eq_ignore_ascii_case_def segwit_script_def rdts_output_ok_def
      RDTS_MAX_OUTPUT_SCRIPT_def)
  then show ?thesis
    by (simp add: pays_all_def ex_paying_tx_def shown_script_def shown_sats_def paid_in_def v h or_zero_def)
qed

definition ex_payout_env :: payout_env where
  "ex_payout_env = \<lparr>pe_pool = ex_env, pe_config = ex_config, pe_float = \<lambda>_. 0, pe_rpc = \<lambda>_. None, pe_de = \<lambda>_. Some Release\<rparr>"

definition ex_dir :: payout_dir where
  "ex_dir = \<lparr>pd_requests = [(''h1'', [], 7)], pd_waiting = Map.empty, pd_answers = Map.empty, pd_log = []\<rparr>"

lemma ex_release: "handle ex_env ex_config (\<lambda>_. 0) (\<lambda>_. None) 0 None ''h1'' Release ex_pool = Some (Failed ''no such hold'', ex_pool)"
proof -
  have "release_hold ''h1'' (sh_ledger ex_pool) = (None, sh_ledger ex_pool)" by (simp add: release_hold_def ex_pool_def new_window_def)
  then show ?thesis by (simp add: handle_def handle_release_def)
qed

theorem payout_keeps_positions_witness:
  "\<forall>s. net_position s (l_window (sh_ledger (ex_pool\<lparr>sh_ledger := ex_held\<rparr>)))
    = net_position s (l_window (sh_ledger (snd (the (handle ex_env ex_config (\<lambda>_. 0) (\<lambda>_. None) 0 None ''h1'' (Paid (replicate 64 CHR ''a'') None)
        (ex_pool\<lparr>sh_ledger := ex_held\<rparr>))))))"
proof -
  let ?sh = "ex_pool\<lparr>sh_ledger := ex_held\<rparr>"
  have h: "handle ex_env ex_config (\<lambda>_. 0) (\<lambda>_. None) 0 None ''h1'' (Paid (replicate 64 CHR ''a'') None) ?sh = Some (Waiting ''the node does not show it'', ?sh)"
    by (simp add: handle_def handle_paid_def hex64_def is_ascii_hexdigit_def ex_held_def list_all_iff)
  have n: "length (w_idents (l_window ex_held)) = 2" by (simp add: ex_held_def ex_ledger_def ex_window_def)
  have "accounts_ok MAX_ENTRIES (l_window ex_held)" using ex_held_ok(1) n by (simp add: accounts_ok_def MAX_ENTRIES_def)
  moreover have "map_of (w_holds (l_window ex_held)) ''h1'' = Some ex_hold" by (simp add: ex_held_def)
  ultimately have "payout_fits ''h1'' (l_window (sh_ledger ?sh))"
    by (simp add: payout_fits_def ex_held_ok ex_hold_def headroom_def MAX_ENTRIES_def)
  from payout_keeps_positions [OF h this] show ?thesis by (simp add: h)
qed

theorem poll_answers_each_once_witness:
  "\<exists>D' sh'. poll ex_payout_env 0 0 None (ex_dir, ex_pool) = Some (D', sh') \<and> pd_requests D' = filter (left_waiting 0 D') (pd_requests ex_dir)"
proof -
  have "read_request (\<lambda>_. Some Release) ''h1'' [] = Inr Release"
    by (simp add: read_request_def valid_id_def id_char_def MAX_REQUEST_BYTES_def)
  then obtain D' sh' where p: "poll ex_payout_env 0 0 None (ex_dir, ex_pool) = Some (D', sh')"
    using ex_release by (simp add: poll_def ex_dir_def answer_one_def ex_payout_env_def is_retry_def)
  have "distinct (map fst (pd_requests ex_dir))" by (simp add: ex_dir_def)
  from poll_answers_each_once [OF p this] show ?thesis using p by blast
qed

end
