(* ===== verification/Primed_Node.thy ===== *)
theory Primed_Node
  imports Primed_Session
begin

text \<open>
  Reading the node's tip, \<^verbatim>\<open>prime/primed/src/node.rs\<close>: \<^verbatim>\<open>refresh_locked\<close> and what it parses. The replies of the node are
  arguments, reduced to the members that are read; the difficulty, a float that only sizes the window and is shown, is not
  part of the tip here. \<open>None\<close> of the result is an overflow.
\<close>

section \<open>Model\<close>

definition hex_value :: "char \<Rightarrow> nat option" where
  "hex_value c = (let n = of_char c :: nat in
     if 48 \<le> n \<and> n \<le> 57 then Some (n - 48) else if 97 \<le> n \<and> n \<le> 102 then Some (n - 87)
     else if 65 \<le> n \<and> n \<le> 70 then Some (n - 55) else None)"

fun hex_decode :: "string \<Rightarrow> byte list option" where
  "hex_decode [] = Some []"
| "hex_decode [_] = None"
| "hex_decode (a # b # cs) = do { x \<leftarrow> hex_value a; y \<leftarrow> hex_value b; bs \<leftarrow> hex_decode cs; Some (of_nat (16 * x + y) # bs) }"

definition hash_le :: "string \<Rightarrow> byte list option" where
  "hash_le hex_be = (case hex_decode hex_be of None \<Rightarrow> None | Some h \<Rightarrow> if length h = 32 then Some (rev h) else None)"

text \<open>\<^verbatim>\<open>u32::from_str_radix(_, 16)\<close>: one plus sign may come first.\<close>

definition compact :: "string \<Rightarrow> u32 option" where
  "compact s = (let d = (if s \<noteq> [] \<and> hd s = CHR ''+'' then tl s else s) in
     if d = [] then None
     else case those (map hex_value d) of None \<Rightarrow> None
     | Some xs \<Rightarrow> let n = foldl (\<lambda>a x. 16 * a + x) 0 xs in if n \<le> u32_max then Some n else None)"

definition next_bits_follow_tip :: "string \<Rightarrow> u32 \<Rightarrow> bool option" where
  "next_bits_follow_tip network height =
     (if network = ''regtest'' then Some True
      else if network = ''mainnet'' \<or> network = ''signet'' then map_option (\<lambda>h. h mod 2016 \<noteq> 0) (chk u32_max (height + 1))
      else Some False)"

record node_info =
  ni_height :: u32
  ni_hash :: string
  ni_header :: "(string option \<times> string option) option"
  ni_mining :: "(u64 option \<times> string option) option"

text \<open>The parent and the bits of the tip: what is known of this tip, or what its header says.\<close>

definition header_parts :: "node_info \<Rightarrow> tip option \<Rightarrow> byte list option \<times> u32 option" where
  "header_parts i current =
     (let known_parts = (case current of None \<Rightarrow> (None, None) | Some T \<Rightarrow> (tp_parent_le T, tp_bits T)) in
      if fst known_parts = None \<or> snd known_parts = None
      then case ni_header i of Some (prev, bits) \<Rightarrow> (Option.bind prev hash_le, Option.bind bits compact) | None \<Rightarrow> known_parts
      else known_parts)"

text \<open>The bits of the block after it: known, or what the node says for this height, or the tip's own where they must be the same.\<close>

definition following_bits :: "string \<Rightarrow> node_info \<Rightarrow> tip option \<Rightarrow> u32 option \<Rightarrow> u32 option option" where
  "following_bits network i current bits =
     (let known_next = Option.bind current tp_next_bits;
          told = (if known_next = None then case ni_mining i of
                Some (blocks, b) \<Rightarrow> if blocks = Some (ni_height i) then Option.bind b compact else None
              | None \<Rightarrow> None else known_next)
      in if told \<noteq> None then Some told
         else case bits of None \<Rightarrow> Some None
         | Some x \<Rightarrow> map_option (\<lambda>f. if f then Some x else None) (next_bits_follow_tip network (ni_height i)))"

definition refresh_locked :: "string \<Rightarrow> nat \<Rightarrow> node_info \<Rightarrow> pool \<Rightarrow> pool option" where
  "refresh_locked network t i P = (let
       current = (case pl_tip P of Some T \<Rightarrow> if ts_hash T = ni_hash i then Some T else None | None \<Rightarrow> None);
       (parent, bits) = header_parts i (map_option ts_tip current)
     in do {
       next_bits \<leftarrow> following_bits network i (map_option ts_tip current) bits;
       let tip = \<lparr>ts_tip = \<lparr>tp_height = ni_height i, tp_hash_le = hash_le (ni_hash i), tp_parent_le = parent, tp_bits = bits,
             tp_next_bits = next_bits\<rparr>,
           ts_hash = ni_hash i, ts_seen_at = (case current of None \<Rightarrow> t | Some T \<Rightarrow> ts_seen_at T)\<rparr>;
       Some (if current = Some tip then P
         else P\<lparr>pl_tip := Some tip, pl_notified := (if current = None \<and> pl_tip P \<noteq> None then pl_notified P @ [0] else pl_notified P)\<rparr>) })"

section \<open>What the tip says of the next block\<close>

text \<open>
  Bits the node did not give for the block after its tip are the tip's own, and only where the chain must keep them: off a
  retarget boundary, or on a chain without retargeting.
\<close>

lemma following_bits_cases:
  assumes "following_bits network i current bits = Some (Some x)"
  shows "Option.bind current tp_next_bits = Some x
    \<or> (\<exists>b. ni_mining i = Some (Some (ni_height i), Some b) \<and> compact b = Some x)
    \<or> bits = Some x \<and> (network = ''regtest'' \<or> network \<in> {''mainnet'', ''signet''} \<and> (ni_height i + 1) mod 2016 \<noteq> 0)"
  using assms by (auto simp: following_bits_def Let_def next_bits_follow_tip_def split: if_splits option.splits prod.splits bind_splits)

text \<open>
  \<^verbatim>\<open>Network::parse\<close> takes \<^verbatim>\<open>main\<close> and \<^verbatim>\<open>bitcoin\<close> for the main network; \<^verbatim>\<open>next_bits_follow_tip\<close> compares the configured word and takes
  them for a test network, so with a node that does not say what comes next the bits of a job are only bounded there.
\<close>

lemma main_alias_not_followed:
  "parse_network ''main'' = parse_network ''mainnet'' \<and> next_bits_follow_tip ''main'' 100 = Some False
    \<and> next_bits_follow_tip ''mainnet'' 100 = Some True"
  by (simp add: parse_network_def next_bits_follow_tip_def)

end
