(* ===== verification/Primed_Solo.thy ===== *)
theory Primed_Solo
  imports Primed_Payouts Primed_Node
begin

text \<open>
  The DATUM rebate of solo blocks, \<^verbatim>\<open>prime/primed/src/solo.rs\<close>: the chain is scanned six blocks behind the tip, and a block that
  carries the solo tag and pays the pool has a share of its reward credited to the DATUM miners of the window. The node's
  answers and the float conversion of an amount are arguments, and so is whether a write of the cursor or of the log went through.
\<close>

section \<open>Model\<close>

record solo_rebate =
  so_ts :: u64
  so_height :: u32
  so_hash :: string
  so_value :: u64
  so_pool_sats :: u64
  so_rebate_sats :: u64
  so_credits :: "(string \<times> u64) list"
  so_owed_after :: u64

text \<open>The decoded coinbase: the input script in hex and the outputs.\<close>

record coinbase_shown =
  cs_script_sig :: "string option"
  cs_outs :: "tx_out_shown list"

record coinbase_facts =
  cf_tagged :: bool
  cf_value_sats :: u64
  cf_pool_sats :: u64

definition windows_of :: "nat \<Rightarrow> 'a list \<Rightarrow> 'a list list" where
  "windows_of n xs = (if n \<le> length xs then map (\<lambda>i. take n (drop i xs)) [0..<Suc (length xs - n)] else [])"

definition out_sats :: "(string \<Rightarrow> u64) \<Rightarrow> tx_out_shown \<Rightarrow> u64" where
  "out_sats fl x = (case to_value_text x of None \<Rightarrow> 0 | Some v \<Rightarrow> fl v)"

definition out_hex :: "tx_out_shown \<Rightarrow> string" where
  "out_hex x = (case to_hex x of None \<Rightarrow> [] | Some h \<Rightarrow> h)"

fun read_outs :: "(string \<Rightarrow> u64) \<Rightarrow> string \<Rightarrow> tx_out_shown list \<Rightarrow> u64 \<times> u64 \<Rightarrow> u64 \<times> u64" where
  "read_outs fl pool [] st = st"
| "read_outs fl pool (x # xs) (val_sats, paid) =
     read_outs fl pool xs (sat_add64 val_sats (out_sats fl x),
       if eq_ignore_ascii_case (out_hex x) pool then sat_add64 paid (out_sats fl x) else paid)"

definition facts_of :: "(string \<Rightarrow> u64) \<Rightarrow> coinbase_shown \<Rightarrow> string \<Rightarrow> string \<Rightarrow> coinbase_facts" where
  "facts_of fl tx tag pool =
     (let sig = (case cs_script_sig tx of None \<Rightarrow> [] | Some h \<Rightarrow> (case hex_decode h of None \<Rightarrow> [] | Some bs \<Rightarrow> bs));
          r = read_outs fl pool (cs_outs tx) (0, 0)
      in \<lparr>cf_tagged = (tag \<noteq> [] \<and> list_ex (\<lambda>w. w = map of_char tag) (windows_of (length tag) sig)),
          cf_value_sats = fst r, cf_pool_sats = snd r\<rparr>)"

definition rebate_for :: "u64 \<Rightarrow> u32 \<Rightarrow> u64" where
  "rebate_for value_sats bps = trunc64 (value_sats * bps div 10000)"

definition SOLO_DEPTH :: u32 where "SOLO_DEPTH = 6"

text \<open>
  The node's answers: a block's hash at a height, the id of its first transaction, that transaction; \<open>None\<close> for an error or
  an answer of another shape. \<open>sv_cursor_ok\<close> and \<open>sv_log_ok\<close> say whether the write for that height went through.
\<close>

record solo_env =
  sv_pool :: pool_env
  sv_config :: config
  sv_float :: "string \<Rightarrow> u64"
  sv_pool_script :: "byte list"
  sv_hash :: "u32 \<Rightarrow> string option"
  sv_coinbase_txid :: "string \<Rightarrow> string option"
  sv_tx :: "string \<Rightarrow> string \<Rightarrow> coinbase_shown option"
  sv_cursor_ok :: "u32 \<Rightarrow> bool"
  sv_log_ok :: "u32 \<Rightarrow> bool"

record solo =
  sb_shared :: shared
  sb_cursor :: "u32 option"
  sb_log :: "solo_rebate list"

definition write_cursor :: "solo_env \<Rightarrow> u32 \<Rightarrow> solo \<Rightarrow> solo" where
  "write_cursor N h S = (if sv_cursor_ok N h then S\<lparr>sb_cursor := Some h\<rparr> else S)"

text \<open>What a solo block's rebate does to the ledger: the credits, what is owed after, the ledger.\<close>

definition credit_rebate :: "pool_env \<Rightarrow> u64 \<Rightarrow> ledger \<Rightarrow> ((string \<times> u64) list \<times> u64 \<times> ledger) option" where
  "credit_rebate E rebate l = do {
     let pot = sat_add64 rebate (w_rebate_owed (l_window l));
     ms \<leftarrow> miners (l_window l);
     (credits, dust) \<leftarrow> rebate_credits ms pot (payee_script E);
     Some (if credits = [] then (case settle_rebate (to_i64 rebate) l of (after, l1) \<Rightarrow> ([], after, l1))
       else (credits, 0, ledger_set_rebate_owed 0 (snd (settle_carry (map (\<lambda>(i, s). (i, to_i64 s)) credits) l)))) }"

definition book_solo :: "solo_env \<Rightarrow> u64 \<Rightarrow> u32 \<Rightarrow> string \<Rightarrow> coinbase_facts \<Rightarrow> solo \<Rightarrow> solo option" where
  "book_solo N ts height hash f S = do {
     let rebate = min (rebate_for (cf_value_sats f) (cg_solo_rebate_bps (sv_config N))) (cf_pool_sats f);
     (credits, after, l) \<leftarrow> credit_rebate (sv_pool N) rebate (sh_ledger (sb_shared S));
     let r = \<lparr>so_ts = ts, so_height = height, so_hash = hash, so_value = cf_value_sats f, so_pool_sats = cf_pool_sats f,
       so_rebate_sats = rebate, so_credits = credits, so_owed_after = after\<rparr>;
     Some (S\<lparr>sb_shared := drop_coinbaser_base ((sb_shared S)\<lparr>sh_ledger := l\<rparr>),
       sb_log := (if sv_log_ok N height then sb_log S @ [r] else sb_log S)\<rparr>) }"

text \<open>The loop's body for one height: whether the pass goes on, and the state.\<close>

definition scan_height :: "solo_env \<Rightarrow> u64 \<Rightarrow> u32 \<Rightarrow> solo \<Rightarrow> (bool \<times> solo) option" where
  "scan_height N ts height S = (case sv_hash N height of None \<Rightarrow> Some (False, S)
   | Some hash \<Rightarrow>
       if list_ex (\<lambda>b. br_hash b = hash) (sh_blocks (sb_shared S)) then Some (True, write_cursor N height S)
       else (case sv_coinbase_txid N hash of None \<Rightarrow> Some (False, S)
         | Some txid \<Rightarrow> (case sv_tx N txid hash of None \<Rightarrow> Some (False, S)
           | Some tx \<Rightarrow>
               let f = facts_of (sv_float N) tx (cg_solo_coinbase_tag (sv_config N)) (hex_of (sv_pool_script N))
               in if cf_tagged f \<and> cf_pool_sats f > 0
                  then map_option (\<lambda>S1. (True, write_cursor N height S1)) (book_solo N ts height hash f S)
                  else Some (True, write_cursor N height S))))"

fun scan_heights :: "solo_env \<Rightarrow> u64 \<Rightarrow> u32 list \<Rightarrow> solo \<Rightarrow> solo option" where
  "scan_heights N ts [] S = Some S"
| "scan_heights N ts (h # hs) S = do { (go, S1) \<leftarrow> scan_height N ts h S; if go then scan_heights N ts hs S1 else Some S1 }"

definition solo_scan :: "solo_env \<Rightarrow> u64 \<Rightarrow> u32 \<Rightarrow> solo \<Rightarrow> solo option" where
  "solo_scan N ts tip_height S =
     (if cg_solo_rebate_bps (sv_config N) = 0 \<or> tip_height \<le> SOLO_DEPTH then Some S
      else let upto = tip_height - SOLO_DEPTH in
        case sb_cursor S of None \<Rightarrow> Some (write_cursor N upto S)
        | Some h \<Rightarrow> do {
            start \<leftarrow> chk u32_max (h + 1);
            if start > upto then Some S
            else do {
              last \<leftarrow> chk u32_max (start + 19);
              scan_heights N ts [start..<Suc (min upto last)] S } })"

section \<open>What a solo block books\<close>

lemma settle_one_credit:
  assumes "0 < n" "n \<le> i64_max"
  shows "l_window (fst (settle_one (i, to_i64 n) (l, out))) = acc.put_on i n (l_window l)"
proof -
  have "unsigned_abs (to_i64 n) = n" "to_i64 n > 0" using assms by (simp_all add: to_i64_def unsigned_abs_def)
  then show ?thesis
    by (simp add: settle_one_def write_ident_def restore_carry_put_on [symmetric] split: prod.split)
qed

lemma settle_credits:
  assumes "\<forall>e \<in> set es. 0 < snd e \<and> snd e \<le> i64_max"
  shows "l_window (snd (settle_carry (map (\<lambda>(i, s). (i, to_i64 s)) es) l)) = fold (\<lambda>e. acc.put_on (fst e) (snd e)) es (l_window l)"
proof -
  have "l_window (fst (fold settle_one (map (\<lambda>(i, s). (i, to_i64 s)) es) (l, out))) = fold (\<lambda>e. acc.put_on (fst e) (snd e)) es (l_window l)" for out
    using assms
  proof (induction es arbitrary: l out)
    case (Cons e es)
    obtain l1 out1 where st: "settle_one (fst e, to_i64 (snd e)) (l, out) = (l1, out1)" by fastforce
    have "l_window l1 = acc.put_on (fst e) (snd e) (l_window l)" using settle_one_credit [of "snd e" "fst e" l out] Cons.prems st by simp
    then show ?case using Cons.IH [of l1 out1] Cons.prems st by (simp add: case_prod_beta)
  qed simp
  then show ?thesis by (simp add: settle_carry_def case_prod_beta)
qed

text \<open>The room a booking needs before anything saturates.\<close>

definition rebate_fits :: "pool_env \<Rightarrow> u64 \<Rightarrow> window \<Rightarrow> bool" where
  "rebate_fits E rebate w \<longleftrightarrow> rebate + w_rebate_owed w \<le> i64_max \<and> headroom (rebate + w_rebate_owed w) w
     \<and> (case miners w of None \<Rightarrow> False | Some ms \<Rightarrow> accounts_ok (length ms) w \<and> datum_total (payee_script E) ms \<le> u64_max)"

lemma rebate_credits_length:
  assumes "rebate_credits ms pot sf = Some (cs, left)"
  shows "length cs \<le> length ms"
proof -
  have "length xs \<ge> length c" if "rebate_slices p t xs c0 = Some (c, cr)" for p t xs c0 c cr
    using rebate_slices_Some [OF that] length_filter_le [of "\<lambda>c. snd c > 0" "map (\<lambda>x. (fst x, trunc64 (p * snd x div t))) xs"] by simp
  moreover have "length (rebate_eligible sf ms) \<le> length ms" unfolding rebate_eligible_def by (rule order.trans [OF length_filter_le]) simp
  ultimately show ?thesis using assms
    by (auto simp: rebate_credits_def Let_def split: if_splits bind_splits) (meson order.trans)
qed

lemma credit_rebate_spec:
  assumes fit: "rebate_fits E rebate (l_window l)"
  obtains cs after l' where "credit_rebate E rebate l = Some (cs, after, l')"
    "\<And>s. net_position s (l_window l') = net_position s (l_window l) + int (amount_of s cs)"
    "amount_all cs + after \<le> rebate + w_rebate_owed (l_window l)" "w_rebate_owed (l_window l') = after"
    "cs = [] \<Longrightarrow> after = rebate + w_rebate_owed (l_window l)" "list_all (\<lambda>e. payee_script E (fst e) \<noteq> None) cs"
proof -
  let ?w = "l_window l" and ?sf = "payee_script E"
  let ?pot = "rebate + w_rebate_owed ?w"
  obtain ms where ms: "miners ?w = Some ms" "accounts_ok (length ms) ?w" "datum_total ?sf ms \<le> u64_max"
    using fit by (auto simp: rebate_fits_def split: option.splits)
  have pot: "sat_add64 rebate (w_rebate_owed ?w) = ?pot" "?pot \<le> u64_max" "?pot \<le> i64_max" and room: "headroom ?pot ?w"
    using fit by (auto simp: rebate_fits_def sat_add64_def)
  obtain cs left where cs: "rebate_credits ms ?pot ?sf = Some (cs, left)" "sum_list (map snd cs) + left = ?pot"
    and e: "\<And>i c. (i, c) \<in> set cs \<Longrightarrow> c > 0 \<and> ?sf i \<noteq> None"
    using rebate_credits_spec [OF pot(2) ms(3)] by metis
  have each: "\<forall>e \<in> set cs. 0 < snd e \<and> snd e \<le> i64_max"
  proof
    fix x assume x: "x \<in> set cs"
    have "snd x \<le> sum_list (map snd cs)" by (rule member_le_sum_list_map [OF x])
    then show "0 < snd x \<and> snd x \<le> i64_max" using e [of "fst x" "snd x"] x cs(2) pot(3) by simp
  qed
  have scripts: "list_all (\<lambda>e. ?sf (fst e) \<noteq> None) cs" using e by (auto simp: list_all_iff)
  show ?thesis
  proof (cases "cs = []")
    case True
    have mv: "move (w_rebate_owed ?w) (to_i64 rebate) = ?pot" using pot(2,3) by (auto simp: move_def to_i64_def sat_add64_def)
    have z: "to_i64 rebate = 0 \<longleftrightarrow> rebate = 0" by (auto simp: to_i64_def)
    show ?thesis
      by (rule that [of "[]" ?pot "snd (settle_rebate (to_i64 rebate) l)"])
        (use True cs ms mv z in \<open>auto simp: credit_rebate_def pot settle_rebate_def case_prod_beta\<close>)
  next
    case False
    let ?l = "ledger_set_rebate_owed 0 (snd (settle_carry (map (\<lambda>(i, s). (i, to_i64 s)) cs) l))"
    have w: "l_window ?l = (fold (\<lambda>e. acc.put_on (fst e) (snd e)) cs ?w)\<lparr>w_rebate_owed := 0\<rparr>"
      by (simp add: ledger_set_rebate_owed_def set_rebate_owed_def settle_credits [OF each])
    have ok: "accounts_ok (length cs + 0) ?w" using accounts_ok_mono [OF ms(2)] rebate_credits_length [OF cs(1)] by simp
    have "amount_all cs \<le> ?pot" using cs(2) by simp
    then have "acc.roomy (amount_all cs + 0) ?w" using room acc.roomy_mono by (simp add: headroom_acc)
    then have p: "net_position s (fold (\<lambda>e. acc.put_on (fst e) (snd e)) cs ?w) = net_position s ?w + int (amount_of s cs)" for s
      using acc.put_ons(3) [OF ok, of 0 s] each by (simp add: net_position_acc)
    show ?thesis
      by (rule that [of cs 0 ?l])
        (use False cs ms scripts p in \<open>auto simp: credit_rebate_def pot w\<close>)
  qed
qed

section \<open>A pass\<close>

lemma write_cursor_simps [simp]:
  "sb_log (write_cursor N h S) = sb_log S" "sb_shared (write_cursor N h S) = sb_shared S"
  "sv_cursor_ok N h \<Longrightarrow> sb_cursor (write_cursor N h S) = Some h"
  by (simp_all add: write_cursor_def)

text \<open>A record books no more than the block paid the pool, and no more than the configured share of its reward.\<close>

definition within_fee :: "u32 \<Rightarrow> solo_rebate \<Rightarrow> bool" where
  "within_fee bps r \<longleftrightarrow> so_rebate_sats r \<le> so_pool_sats r \<and> so_rebate_sats r \<le> so_value r * bps div 10000"

abbreviation bps_of :: "solo_env \<Rightarrow> u32" where "bps_of N \<equiv> cg_solo_rebate_bps (sv_config N)"

lemma book_solo_log:
  assumes "book_solo N ts h hash f S = Some S'"
  shows "sb_log S' = sb_log S \<or> (\<exists>r. sb_log S' = sb_log S @ [r] \<and> so_height r = h \<and> within_fee (bps_of N) r)"
  using assms by (auto simp: book_solo_def rebate_for_def within_fee_def Let_def min.coboundedI1 split: bind_splits if_splits prod.splits)

lemma scan_height_log:
  assumes "scan_height N ts h S = Some (go, S')" "sv_cursor_ok N h"
  shows "sb_log S' = sb_log S \<or> (\<exists>r. sb_log S' = sb_log S @ [r] \<and> so_height r = h \<and> within_fee (bps_of N) r)"
    and "if go then sb_cursor S' = Some h else S' = S"
  using assms by (auto simp: scan_height_def Let_def dest!: book_solo_log split: option.splits if_splits)

lemma scan_heights_log:
  assumes "scan_heights N ts hs S = Some S'" "\<And>h. sv_cursor_ok N h" "sb_cursor S = Some c" "sorted_wrt (<) (c # hs)"
  obtains rs c' where "sb_log S' = sb_log S @ rs" "sb_cursor S' = Some c'" "c' \<in> set (c # hs)"
    "sorted_wrt (<) (map so_height rs)" "list_all (\<lambda>r. c < so_height r \<and> so_height r \<le> c' \<and> within_fee (bps_of N) r) rs"
  using assms
proof (induction hs arbitrary: S c thesis)
  case Nil
  then show ?case by (intro Nil.prems(1) [of "[]" c]) simp_all
next
  case (Cons h hs)
  obtain go S1 where s1: "scan_height N ts h S = Some (go, S1)" "if go then scan_heights N ts hs S1 = Some S' else S' = S1"
    using Cons.prems(2) by (auto split: bind_splits if_splits)
  note L = scan_height_log [OF s1(1) Cons.prems(3)]
  show ?case
  proof (cases go)
    case False
    then show ?thesis using L(2) s1(2) Cons.prems(4) by (intro Cons.prems(1) [of "[]" c]) simp_all
  next
    case True
    obtain rs c' where I: "sb_log S' = sb_log S1 @ rs" "sb_cursor S' = Some c'" "c' \<in> set (h # hs)"
      "sorted_wrt (<) (map so_height rs)" "list_all (\<lambda>r. h < so_height r \<and> so_height r \<le> c' \<and> within_fee (bps_of N) r) rs"
      by (rule Cons.IH [of S1 h]) (use True s1(2) L(2) Cons.prems in auto)
    have ch: "c < h" "h \<le> c'" using Cons.prems(5) I(3) by auto
    from L(1) consider "sb_log S1 = sb_log S" | r where "sb_log S1 = sb_log S @ [r]" "so_height r = h" "within_fee (bps_of N) r" by blast
    then show ?thesis
    proof cases
      case 1
      then show ?thesis by (intro Cons.prems(1) [of rs c']) (use I ch in \<open>auto simp: list_all_iff\<close>)
    next
      case 2
      then show ?thesis by (intro Cons.prems(1) [of "r # rs" c']) (use I ch in \<open>auto simp: list_all_iff\<close>)
    qed
  qed
qed

lemma solo_scan_log:
  assumes "solo_scan N ts tip S = Some S'" "\<And>h. sv_cursor_ok N h" "sb_cursor S = Some c"
  obtains rs c' where "sb_log S' = sb_log S @ rs" "sb_cursor S' = Some c'" "c \<le> c'" "c' \<le> c + 20" "c' = c \<or> c' + 6 \<le> tip"
    "sorted_wrt (<) (map so_height rs)" "list_all (\<lambda>r. c < so_height r \<and> so_height r \<le> c' \<and> within_fee (bps_of N) r) rs"
proof (cases "S' = S")
  case True
  then show ?thesis using that [of "[]" c] assms(3) by simp
next
  case False
  then have t: "6 < tip" and h: "scan_heights N ts [c + 1..<Suc (min (tip - 6) (c + 20))] S = Some S'"
    using assms by (auto simp: solo_scan_def SOLO_DEPTH_def Let_def chk_def add.commute split: if_splits bind_splits)
  show ?thesis
    by (rule scan_heights_log [OF h assms(2,3)]) (use t in \<open>auto intro!: that simp del: upt_Suc\<close>)
qed

section \<open>Properties\<close>

text \<open>
  C29. A solo block's rebate is money the block paid. The pass over the block's height books a rebate of at most what the block paid the
  pool: every position grows by what it is credited, only payable identities are credited, and the credits and what stays owed
  are covered by the rebate and what was owed before, all of it staying owed when nobody can take it.
\<close>

theorem solo_block_books:
  assumes node: "sv_hash N h = Some hash" "sv_coinbase_txid N hash = Some txid" "sv_tx N txid hash = Some tx"
    and new: "\<not> list_ex (\<lambda>b. br_hash b = hash) (sh_blocks (sb_shared S))"
    and f: "facts_of (sv_float N) tx (cg_solo_coinbase_tag (sv_config N)) (hex_of (sv_pool_script N)) = f" "cf_tagged f" "cf_pool_sats f > 0"
    and rebate: "rebate = min (rebate_for (cf_value_sats f) (cg_solo_rebate_bps (sv_config N))) (cf_pool_sats f)"
    and fit: "rebate_fits (sv_pool N) rebate (l_window (sh_ledger (sb_shared S)))"
  shows "\<exists>cs S'. scan_height N ts h S = Some (True, S') \<and> rebate \<le> cf_pool_sats f
    \<and> (\<forall>s. net_position s (l_window (sh_ledger (sb_shared S'))) = net_position s (l_window (sh_ledger (sb_shared S))) + int (amount_of s cs))
    \<and> amount_all cs + w_rebate_owed (l_window (sh_ledger (sb_shared S'))) \<le> rebate + w_rebate_owed (l_window (sh_ledger (sb_shared S)))
    \<and> (cs = [] \<longrightarrow> w_rebate_owed (l_window (sh_ledger (sb_shared S'))) = rebate + w_rebate_owed (l_window (sh_ledger (sb_shared S))))
    \<and> list_all (\<lambda>e. payee_script (sv_pool N) (fst e) \<noteq> None) cs \<and> sh_base (sb_shared S') = None"
proof -
  let ?l = "sh_ledger (sb_shared S)"
  obtain cs after l' where c: "credit_rebate (sv_pool N) rebate ?l = Some (cs, after, l')"
    "\<And>s. net_position s (l_window l') = net_position s (l_window ?l) + int (amount_of s cs)"
    "amount_all cs + after \<le> rebate + w_rebate_owed (l_window ?l)" "w_rebate_owed (l_window l') = after"
    "cs = [] \<Longrightarrow> after = rebate + w_rebate_owed (l_window ?l)" "list_all (\<lambda>e. payee_script (sv_pool N) (fst e) \<noteq> None) cs"
    by (rule credit_rebate_spec [OF fit]) blast
  obtain S1 where b: "book_solo N ts h hash f S = Some S1" "sb_shared S1 = drop_coinbaser_base ((sb_shared S)\<lparr>sh_ledger := l'\<rparr>)"
    using c(1) by (auto simp: book_solo_def rebate [symmetric])
  have "scan_height N ts h S = Some (True, write_cursor N h S1)"
    using node new f b(1) by (simp add: scan_height_def)
  then show ?thesis using c(2-6) b(2) rebate by (auto simp: drop_coinbaser_base_def)
qed

text \<open>Passes over the chain with writes that go through, from a fresh data directory, and everything else the pool does between them.\<close>

inductive solo_run :: "solo \<Rightarrow> bool" where
  solo_start: "sb_cursor S = None \<Longrightarrow> sb_log S = [] \<Longrightarrow> solo_run S"
| solo_pass: "solo_run S \<Longrightarrow> (\<And>h. sv_cursor_ok N h) \<Longrightarrow> solo_scan N ts tip S = Some S' \<Longrightarrow> solo_run S'"
| solo_else: "solo_run S \<Longrightarrow> solo_run (S\<lparr>sb_shared := sh\<rparr>)"

definition solo_ok :: "solo \<Rightarrow> bool" where
  "solo_ok S \<longleftrightarrow> sorted_wrt (<) (map so_height (sb_log S)) \<and> list_all (\<lambda>r. so_rebate_sats r \<le> so_pool_sats r) (sb_log S)
     \<and> (case sb_cursor S of None \<Rightarrow> sb_log S = [] | Some c \<Rightarrow> list_all (\<lambda>r. so_height r \<le> c) (sb_log S))"

lemma solo_run_ok: "solo_run S \<Longrightarrow> solo_ok S"
proof (induction rule: solo_run.induct)
  case (solo_pass S N ts tip S')
  show ?case
  proof (cases "sb_cursor S")
    case None
    then show ?thesis using solo_pass by (auto simp: solo_ok_def solo_scan_def Let_def split: if_splits)
  next
    case (Some c)
    obtain rs c' where r: "sb_log S' = sb_log S @ rs" "sb_cursor S' = Some c'" "c \<le> c'"
      "sorted_wrt (<) (map so_height rs)" "list_all (\<lambda>r. c < so_height r \<and> so_height r \<le> c' \<and> within_fee (bps_of N) r) rs"
      by (rule solo_scan_log [OF solo_pass.hyps(3,2) Some])
    have "\<forall>x \<in> set (sb_log S). so_height x \<le> c" using solo_pass.IH Some by (simp add: solo_ok_def list_all_iff)
    then show ?thesis using solo_pass.IH r
      by (fastforce simp: solo_ok_def Some sorted_wrt_append list_all_iff within_fee_def)
  qed
qed (auto simp: solo_ok_def split: option.splits)

text \<open>
  C30. No solo block is booked twice, and the rebates are paid for. Over any passes whose cursor writes go through, the
  booked heights are strictly increasing, and all the rebates together are at most what those blocks paid the pool.
\<close>

theorem solo_blocks_booked_once:
  assumes "solo_run S"
  shows "sorted_wrt (<) (map so_height (sb_log S))
    \<and> sum_list (map so_rebate_sats (sb_log S)) \<le> sum_list (map so_pool_sats (sb_log S))"
proof -
  have "solo_ok S" by (rule solo_run_ok [OF assms])
  then show ?thesis by (auto simp: solo_ok_def list_all_iff intro!: sum_list_map_le)
qed

section \<open>Examples\<close>

definition ex_solo_env :: "bool \<Rightarrow> solo_env" where
  "ex_solo_env ok = \<lparr>sv_pool = ex_env, sv_config = ex_config\<lparr>cg_solo_rebate_bps := 100, cg_solo_coinbase_tag := ''S''\<rparr>, sv_float = \<lambda>_. 500,
     sv_pool_script = [], sv_hash = \<lambda>_. Some ''b'', sv_coinbase_txid = \<lambda>_. Some ''t'',
     sv_tx = \<lambda>_ _. Some \<lparr>cs_script_sig = Some ''53'', cs_outs = [\<lparr>to_hex = None, to_value_text = Some ''0''\<rparr>]\<rparr>,
     sv_cursor_ok = \<lambda>_. ok, sv_log_ok = \<lambda>_. True\<rparr>"

definition ex_solo :: solo where
  "ex_solo = \<lparr>sb_shared = ex_pool, sb_cursor = Some 9, sb_log = []\<rparr>"

definition ex_facts :: coinbase_facts where
  "ex_facts = \<lparr>cf_tagged = True, cf_value_sats = 500, cf_pool_sats = 500\<rparr>"

lemma ex_facts_of:
  "facts_of (sv_float (ex_solo_env ok)) \<lparr>cs_script_sig = Some ''53'', cs_outs = [\<lparr>to_hex = None, to_value_text = Some ''0''\<rparr>]\<rparr>
    (cg_solo_coinbase_tag (sv_config (ex_solo_env ok))) (hex_of (sv_pool_script (ex_solo_env ok))) = ex_facts"
  by (simp add: facts_of_def ex_solo_env_def ex_facts_def windows_of_def out_sats_def out_hex_def hex_value_def eq_ignore_ascii_case_def
      hex_of_def sat_add64_def to_ascii_lower_def Let_def)

lemma ex_owed: "miners (new_window\<lparr>w_rebate_owed := n\<rparr>) = Some []" "miners new_window = Some []"
  by (simp_all add: miners_def new_window_def keys_of_def)

lemma ex_solo_window: "l_window (sh_ledger ex_pool) = new_window" "sh_blocks ex_pool = []"
  by (simp_all add: ex_pool_def)

lemma ex_book:
  assumes "l_window (sh_ledger (sb_shared S)) = new_window\<lparr>w_rebate_owed := n\<rparr>" "n \<le> 100" "sh_blocks (sb_shared S) = []"
  obtains S' where "scan_height (ex_solo_env ok) 0 10 S = Some (True, S')" "map so_height (sb_log S') = map so_height (sb_log S) @ [10]"
    "l_window (sh_ledger (sb_shared S')) = new_window\<lparr>w_rebate_owed := n + 5\<rparr>" "sh_blocks (sb_shared S') = []"
    "sb_cursor S' = (if ok then Some 10 else sb_cursor S)" "sh_disk (sb_shared S') = sh_disk (sb_shared S)"
proof -
  have "rebate_for 500 100 = 5" by (simp add: rebate_for_def)
  then have b: "min (rebate_for (cf_value_sats ex_facts) (bps_of (ex_solo_env ok))) (cf_pool_sats ex_facts) = 5"
    by (simp add: ex_facts_def ex_solo_env_def)
  have p: "sat_add64 5 n = n + 5" "to_i64 5 = 5" using assms(2) by (simp_all add: sat_add64_def to_i64_def)
  have c: "credit_rebate E 5 (sh_ledger (sb_shared S)) = Some ([], n + 5, (sh_ledger (sb_shared S))\<lparr>l_window := new_window\<lparr>w_rebate_owed := n + 5\<rparr>, l_dirty := True\<rparr>)" for E
    using assms(1,2) by (simp add: credit_rebate_def ex_owed p rebate_credits_def rebate_eligible_def settle_rebate_def adjust_rebate_owed_def Let_def sat_add64_def)
  have "sv_tx (ex_solo_env ok) ''t'' ''b'' = Some \<lparr>cs_script_sig = Some ''53'', cs_outs = [\<lparr>to_hex = None, to_value_text = Some ''0''\<rparr>]\<rparr>"
    "sv_hash (ex_solo_env ok) 10 = Some ''b''" "sv_coinbase_txid (ex_solo_env ok) ''b'' = Some ''t''" "sv_log_ok (ex_solo_env ok) 10"
    "sv_cursor_ok (ex_solo_env ok) 10 = ok"
    by (simp_all add: ex_solo_env_def)
  moreover have "cf_tagged ex_facts" "cf_pool_sats ex_facts > 0" by (simp_all add: ex_facts_def)
  ultimately have "\<exists>r. scan_height (ex_solo_env ok) 0 10 S = Some (True, write_cursor (ex_solo_env ok) 10
      (S\<lparr>sb_shared := drop_coinbaser_base ((sb_shared S)\<lparr>sh_ledger := (sh_ledger (sb_shared S))\<lparr>l_window := new_window\<lparr>w_rebate_owed := n + 5\<rparr>, l_dirty := True\<rparr>\<rparr>),
         sb_log := sb_log S @ [r]\<rparr>)) \<and> so_height r = 10"
    using assms(3) 
    by (intro exI [of _ "\<lparr>so_ts = 0, so_height = 10, so_hash = ''b'', so_value = cf_value_sats ex_facts, so_pool_sats = cf_pool_sats ex_facts,
        so_rebate_sats = 5, so_credits = [], so_owed_after = n + 5\<rparr>"])
      (simp add: scan_height_def ex_facts_of book_solo_def b c)
  then show thesis using assms(3) by (auto intro!: that simp: drop_coinbaser_base_def write_cursor_def ex_solo_env_def)
qed

text \<open>
  A pass moves its cursor past a block on disk while the rebate it booked is in memory only: the ledger's files are as they
  were, so a crash before the next write of the window loses the rebate and nothing books it again.
\<close>

theorem solo_cursor_ahead_of_books:
  "\<exists>S'. scan_height (ex_solo_env True) 0 10 ex_solo = Some (True, S') \<and> sb_cursor S' = Some 10
    \<and> w_rebate_owed (l_window (sh_ledger (sb_shared S'))) = 5 \<and> w_rebate_owed (l_window (sh_ledger (sb_shared ex_solo))) = 0
    \<and> sh_disk (sb_shared S') = sh_disk (sb_shared ex_solo)"
proof -
  have w: "l_window (sh_ledger (sb_shared ex_solo)) = new_window\<lparr>w_rebate_owed := 0\<rparr>" "sh_blocks (sb_shared ex_solo) = []"
    by (simp_all add: ex_solo_def ex_solo_window new_window_def)
  show ?thesis by (rule ex_book [OF w(1) _ w(2), of True]) (use w(1) in auto)
qed

text \<open>A write of the cursor that fails is only logged: the next pass books the same block's rebate again.\<close>

theorem solo_rebooks_after_failed_write:
  "\<exists>S1 S2. scan_height (ex_solo_env False) 0 10 ex_solo = Some (True, S1) \<and> scan_height (ex_solo_env False) 0 10 S1 = Some (True, S2)
    \<and> sb_cursor S2 = sb_cursor ex_solo \<and> map so_height (sb_log S2) = [10, 10] \<and> w_rebate_owed (l_window (sh_ledger (sb_shared S2))) = 10"
proof -
  have w: "l_window (sh_ledger (sb_shared ex_solo)) = new_window\<lparr>w_rebate_owed := 0\<rparr>" "sh_blocks (sb_shared ex_solo) = []"
    by (simp_all add: ex_solo_def ex_solo_window new_window_def)
  obtain S1 where 1: "scan_height (ex_solo_env False) 0 10 ex_solo = Some (True, S1)" "map so_height (sb_log S1) = [10]"
    "l_window (sh_ledger (sb_shared S1)) = new_window\<lparr>w_rebate_owed := 5\<rparr>" "sh_blocks (sb_shared S1) = []" "sb_cursor S1 = sb_cursor ex_solo"
    by (rule ex_book [OF w(1) _ w(2), of False]) (auto simp: ex_solo_def)
  show ?thesis by (rule ex_book [OF 1(3) _ 1(4), of False]) (use 1 in auto)
qed

theorem solo_block_books_witness:
  "\<exists>S'. scan_height (ex_solo_env True) 0 10 ex_solo = Some (True, S')"
proof -
  let ?N = "ex_solo_env True"
  have w: "l_window (sh_ledger (sb_shared ex_solo)) = new_window" "sh_blocks (sb_shared ex_solo) = []"
    by (simp_all add: ex_solo_def ex_solo_window)
  have n: "sv_hash ?N 10 = Some ''b''" "sv_coinbase_txid ?N ''b'' = Some ''t''"
    "sv_tx ?N ''t'' ''b'' = Some \<lparr>cs_script_sig = Some ''53'', cs_outs = [\<lparr>to_hex = None, to_value_text = Some ''0''\<rparr>]\<rparr>"
    by (simp_all add: ex_solo_env_def)
  have f: "cf_tagged ex_facts" "cf_pool_sats ex_facts > 0" by (simp_all add: ex_facts_def)
  have r: "5 = min (rebate_for (cf_value_sats ex_facts) (cg_solo_rebate_bps (sv_config ?N))) (cf_pool_sats ex_facts)"
    by (simp add: ex_facts_def ex_solo_env_def rebate_for_def)
  have "rebate_fits (sv_pool ?N) 5 (l_window (sh_ledger (sb_shared ex_solo)))"
    using ex_new_window accounts_ok_mono [of 9 new_window 0] by (simp add: w rebate_fits_def ex_owed datum_total_def)
  from solo_block_books [OF n _ ex_facts_of f r this] show ?thesis using w(2) by auto
qed

theorem solo_blocks_booked_once_witness:
  "\<exists>S1 S2. solo_scan (ex_solo_env True) 0 15 (ex_solo\<lparr>sb_cursor := None\<rparr>) = Some S1 \<and> solo_scan (ex_solo_env True) 0 16 S1 = Some S2
    \<and> map so_height (sb_log S2) = [10] \<and> sum_list (map so_rebate_sats (sb_log S2)) \<le> sum_list (map so_pool_sats (sb_log S2))"
proof -
  let ?N = "ex_solo_env True" and ?S = "ex_solo\<lparr>sb_cursor := None\<rparr>"
  have c: "cg_solo_rebate_bps (sv_config ?N) = 100" "\<And>h. sv_cursor_ok ?N h" by (simp_all add: ex_solo_env_def)
  have 1: "solo_scan ?N 0 15 ?S = Some ex_solo" by (simp add: solo_scan_def c SOLO_DEPTH_def write_cursor_def ex_solo_def)
  have w: "l_window (sh_ledger (sb_shared ex_solo)) = new_window\<lparr>w_rebate_owed := 0\<rparr>" "sh_blocks (sb_shared ex_solo) = []"
    by (simp_all add: ex_solo_def ex_solo_window new_window_def)
  obtain S2 where b: "scan_height ?N 0 10 ex_solo = Some (True, S2)" "map so_height (sb_log S2) = [10]"
    by (rule ex_book [OF w(1) _ w(2), of True]) (auto simp: ex_solo_def)
  have 2: "solo_scan ?N 0 16 ex_solo = Some S2" using b(1) by (simp add: solo_scan_def c SOLO_DEPTH_def ex_solo_def chk_def)
  have "solo_run ?S" by (rule solo_start) (simp_all add: ex_solo_def)
  then have "solo_run S2" using solo_pass [OF solo_pass [OF _ c(2) 1] c(2) 2] by blast
  from solo_blocks_booked_once [OF this] show ?thesis using 1 2 b(2) by auto
qed

end
