(* ===== verification/Primed_Books.thy ===== *)
theory Primed_Books
  imports Primed_Confirm Primed_Solo
begin

text \<open>
  Everything that moves the balances, together: the found blocks (\<open>Primed_Blocks\<close>), the payouts by hand (\<open>Primed_Payouts\<close>) and the rebates of
  solo blocks (\<open>Primed_Solo\<close>), between one start of the program and the next, in any order. What holds over any such run: the balances
  are those of the start, changed by what the block log, the answers to payout requests and the solo credits say; and a coinbaser reply is
  computed from the balances as they are, save in the moment between a payout's change of the ledger and its drop of the snapshot.
\<close>

section \<open>What a payout or a solo block moves\<close>

text \<open>The answer to a payout request, or the credits of a solo block with its rebate and what was owed before.\<close>

datatype booking = Answered answer | Rebated "(string \<times> u64) list" u64 u64

definition entry_moved :: "moved_entry \<Rightarrow> int" where
  "entry_moved m = int (mv_after m) - int (mv_before m) + int (mv_debt_paid m)"

definition entries_moved :: "string \<Rightarrow> moved_entry list \<Rightarrow> int" where
  "entries_moved s ms = sum_list (map entry_moved (filter (\<lambda>m. mv_identity m = s) ms))"

definition booking_moved :: "string \<Rightarrow> booking \<Rightarrow> int" where
  "booking_moved s b = (case b of
     Answered (CreditedBy _ _ _ ms) \<Rightarrow> entries_moved s ms
   | Answered (PaidBy _ _ _ es) \<Rightarrow> - int (amount_of s es)
   | Answered _ \<Rightarrow> 0
   | Rebated cs _ _ \<Rightarrow> int (amount_of s cs))"

definition booking_rebate :: "booking \<Rightarrow> int" where
  "booking_rebate b = (case b of Rebated cs rebate was \<Rightarrow> (if cs = [] then int rebate else - int was) | Answered _ \<Rightarrow> 0)"

lemma entries_moved_simps [simp]:
  "entries_moved s [] = 0" "entries_moved s (ms @ [m]) = entries_moved s ms + (if mv_identity m = s then entry_moved m else 0)"
  by (simp_all add: entries_moved_def)

subsection \<open>Carry moved by hand\<close>

text \<open>One entry: what it moved is the change of its identity's carry and debt, and nothing else changes. No room is needed but a place for the identity.\<close>

lemma settle_single:
  assumes ok: "accounts_ok (Suc k) (l_window l)" and s: "settle_carry [(i, d)] l = (out, l1)"
  shows "accounts_ok k (l_window l1)" "w_rebate_owed (l_window l1) = w_rebate_owed (l_window l)"
    "net_position x (l_window l1) = net_position x (l_window l) + (if x = i
       then int (case out of [] \<Rightarrow> carry_of i (l_window l) | e # _ \<Rightarrow> snd e) - int (carry_of i (l_window l))
         + int (debt_of i (l_window l) - debt_of i (l_window l1)) else 0)"
proof -
  let ?w = "l_window l" and ?n = "unsigned_abs d"
  obtain p w1 where r: "reduce_debt i ?n ?w = (p, w1)" by (cases "reduce_debt i ?n ?w")
  have ok1: "accounts_ok (Suc k) w1" and f1: "\<And>x. debt_of x w1 = (if x = i then debt_of i ?w - ?n else debt_of x ?w)"
    "\<And>x. carry_of x w1 = carry_of x ?w" "\<And>x. held_of x w1 = held_of x ?w"
    using acc.reduce_ok [OF ok, of i ?n] acc.reduce_debt [OF ok, of _ i ?n] acc.reduce_frame [OF ok, of _ i ?n] r by auto
  have rw: "w_rebate_owed w1 = w_rebate_owed ?w" using r by (auto simp: reduce_debt_def Let_def split: option.splits if_splits)
  consider (zero) "d = 0" "out = []" "l1 = l" | (down) "d < 0" "out = [(i, fst (adjust_carry i d ?w))]" "l_window l1 = snd (adjust_carry i d ?w)"
    | (paid) "d > 0" "?n - p = 0" "out = [(i, carry_of i w1)]" "l_window l1 = w1"
    | (up) "d > 0" "?n - p > 0" "out = [(i, fst (adjust_carry i (to_i64 (?n - p)) w1))]" "l_window l1 = snd (adjust_carry i (to_i64 (?n - p)) w1)"
    using s r by (fastforce simp: settle_carry_def settle_one_def write_ident_def restore_carry_def Let_def split: if_splits prod.splits)
  note cases = this
  show "accounts_ok k (l_window l1)"
    using cases by cases (use acc.adjust_ok [OF ok] acc.adjust_ok [OF ok1] acc.ok_Suc [OF ok] acc.ok_Suc [OF ok1] in auto)
  show "w_rebate_owed (l_window l1) = w_rebate_owed ?w"
    using cases rw by cases auto
  show "net_position x (l_window l1) = net_position x ?w + (if x = i
       then int (case out of [] \<Rightarrow> carry_of i ?w | e # _ \<Rightarrow> snd e) - int (carry_of i ?w) + int (debt_of i ?w - debt_of i (l_window l1)) else 0)"
    using cases
  proof cases
    case zero
    then show ?thesis by simp
  next
    case down
    then show ?thesis using acc.adjust_fst [OF ok, of i d] acc.adjust_carry [OF ok, of x i d] acc.adjust_frame [OF ok, of _ i d]
      by (simp add: net_position_def)
  next
    case paid
    then show ?thesis using f1 by (auto simp: net_position_def)
  next
    case up
    then show ?thesis
      using f1 acc.adjust_fst [OF ok1, of i "to_i64 (?n - p)"] acc.adjust_carry [OF ok1, of x i "to_i64 (?n - p)"] acc.adjust_frame [OF ok1, of _ i "to_i64 (?n - p)"]
      by (auto simp: net_position_def)
  qed
qed

lemma credit_each_moves:
  assumes "credit_each es (l, cr, de, ms) = Some (l', cr', de', ms')" "accounts_ok (length es + k) (l_window l)"
  shows "accounts_ok k (l_window l') \<and> w_rebate_owed (l_window l') = w_rebate_owed (l_window l)
    \<and> net_position x (l_window l') = net_position x (l_window l) + entries_moved x ms' - entries_moved x ms"
  using assms
proof (induction es arbitrary: l cr de ms)
  case (Cons e es)
  obtain i d where e: "e = (i, d)" by (cases e)
  obtain out l1 where s: "settle_carry [(i, d)] l = (out, l1)" by fastforce
  define m where "m = \<lparr>mv_identity = i, mv_requested = d, mv_before = carry_of i (l_window l),
    mv_after = (case out of [] \<Rightarrow> carry_of i (l_window l) | e # _ \<Rightarrow> snd e), mv_debt_paid = debt_of i (l_window l) - debt_of i (l_window l1)\<rparr>"
  obtain cr1 de1 where r: "credit_each es (l1, cr1, de1, ms @ [m]) = Some (l', cr', de', ms')"
    using Cons.prems(1) by (auto simp: e s m_def Let_def split: bind_splits)
  have ok: "accounts_ok (Suc (length es + k)) (l_window l)" using Cons.prems(2) by simp
  note S = settle_single [OF ok s]
  have "net_position x (l_window l1) = net_position x (l_window l) + (if mv_identity m = x then entry_moved m else 0)"
    using S(3) [of x] by (auto simp: m_def entry_moved_def)
  then show ?case using Cons.IH [OF r S(1)] S(2) by simp
qed simp

subsection \<open>A request\<close>

lemma hold_entries_room:
  "hold_entries stale es w h sk = Some (w', h', sk') \<Longrightarrow> accounts_ok (length es + k) w
    \<Longrightarrow> accounts_ok k w' \<and> w_rebate_owed w' = w_rebate_owed w"
proof (induction stale es w h sk rule: hold_entries.induct)
  case (1 stale w h sk)
  then show ?case by (auto intro: accounts_ok_mono)
next
  case (2 stale s n es w h sk)
  have ok: "accounts_ok (1 + (length es + k)) w" using 2(4) by simp
  show ?case
  proof (cases "hold_reason stale h s n")
    case (Some r)
    have "accounts_ok (length es + k) w" using ok by (rule accounts_ok_mono) simp
    then show ?thesis using 2(2) [OF Some] 2(3) Some by simp
  next
    case None
    obtain d where d: "neg_as_i64 n = Some d" "hold_entries stale es (snd (adjust_carry s d w)) (h @ [(s, n)]) sk = Some (w', h', sk')"
      using 2(3) None by (auto split: bind_splits)
    have r: "w_rebate_owed (snd (adjust_carry s d w)) = w_rebate_owed w" by simp
    show ?thesis using 2(1) [OF None d(1,2) usesD [OF uses_adjust ok]] r by metis
  qed
qed

text \<open>What a handler may change: no block, the balances by what it answers, and of the snapshot only that it is dropped, unless no carry moved.\<close>

definition answered :: "answer \<Rightarrow> shared \<Rightarrow> shared \<Rightarrow> bool" where
  "answered a sh sh' \<longleftrightarrow> sh_blocks sh' = sh_blocks sh \<and> sh_log sh' = sh_log sh
     \<and> accounts_ok 0 (l_window (sh_ledger sh')) \<and> w_rebate_owed (l_window (sh_ledger sh')) = w_rebate_owed (l_window (sh_ledger sh))
     \<and> (\<forall>s. net_position s (l_window (sh_ledger sh')) = net_position s (l_window (sh_ledger sh)) + booking_moved s (Answered a))
     \<and> (sh_base sh' = None \<or> sh_base sh' = sh_base sh \<and> (\<forall>s. carry_of s (l_window (sh_ledger sh')) = carry_of s (l_window (sh_ledger sh))))"

lemma persist_frame [simp]:
  "sh_blocks (persist E sh) = sh_blocks sh" "sh_log (persist E sh) = sh_log sh" "sh_base (persist E sh) = sh_base sh"
  by (simp_all add: persist_def split: prod.splits)

lemma answered_same: "accounts_ok 0 (l_window (sh_ledger sh)) \<Longrightarrow> (\<And>s. booking_moved s (Answered a) = 0) \<Longrightarrow> answered a sh sh"
  by (simp add: answered_def)

lemma fits_accounts: "payout_fits i w \<Longrightarrow> n \<le> MAX_ENTRIES \<Longrightarrow> accounts_ok n w"
  unfolding payout_fits_def using accounts_ok_mono by blast

lemma hold_answered:
  assumes "handle_hold E c ts tip i es sh = Some (a, sh')" "payout_fits i (l_window (sh_ledger sh))" "length es \<le> MAX_ENTRIES"
  shows "answered a sh sh'"
proof -
  let ?w = "l_window (sh_ledger sh)" and ?p = "filter (\<lambda>e. payee_script E (fst e) \<noteq> None) es"
  have "length ?p \<le> MAX_ENTRIES" using assms(3) length_filter_le order.trans by blast
  then have ok: "accounts_ok (length ?p + 0) ?w" "accounts_ok 0 ?w" using fits_accounts [OF assms(2)] by simp_all
  have room: "accounts_ok 0 (l_window l) \<and> w_rebate_owed (l_window l) = w_rebate_owed ?w"
    if "hold_carry i ?p n af mn hh rd (sh_ledger sh) = Some (res, l)" for n af mn hh rd res l
    using that hold_entries_room [OF _ ok(1)] ok(2)
    by (auto simp: hold_carry_def Let_def accounts_ok_def split: if_splits bind_splits prod.splits)
  have z: "booking_moved s (Answered a) = 0" for s
    using assms(1) by (auto simp: handle_hold_def booking_moved_def Let_def split: if_splits option.splits bind_splits sum.splits)
  show ?thesis
  proof (cases "sh' = sh")
    case True
    then show ?thesis using answered_same ok(2) z by simp
  next
    case False
    then obtain n af mn hh rd res l where h: "hold_carry i ?p n af mn hh rd (sh_ledger sh) = Some (res, l)"
      and e: "sh' = drop_coinbaser_base (persist E (sh\<lparr>sh_ledger := l\<rparr>))"
      using assms(1) by (auto simp: handle_hold_def Let_def split: if_splits option.splits bind_splits)
    show ?thesis using room [OF h] hold_positions(1) [OF assms] z by (simp add: answered_def e)
  qed
qed

lemma finish_answered:
  assumes "map_of (w_holds (l_window l)) i = Some h" "payout_fits i (l_window l)" "l = sh_ledger sh"
  shows "answered (PaidBy t n m (hd_entries h)) sh (persist E (sh\<lparr>sh_ledger := snd (finish_hold i l)\<rparr>))"
proof -
  have ok: "accounts_ok 0 (l_window l)" by (rule fits_accounts [OF assms(2)]) simp
  have "accounts_ok 0 (l_window (snd (finish_hold i l)))" using ok by (simp add: finish_hold_def assms(1) accounts_ok_def)
  moreover have "carry_of s (l_window (snd (finish_hold i l))) = carry_of s (l_window l)" for s
    by (simp add: finish_hold_def assms(1) carry_of_def)
  moreover have "w_rebate_owed (l_window (snd (finish_hold i l))) = w_rebate_owed (l_window l)" by (simp add: finish_hold_def assms(1))
  ultimately show ?thesis using fits_hold(2) [OF assms(2,1)] assms(3) by (simp add: answered_def booking_moved_def)
qed

lemma release_answered:
  assumes "handle_release E i sh = Some (a, sh')" "payout_fits i (l_window (sh_ledger sh))"
  shows "answered a sh sh'"
proof (cases "map_of (w_holds (l_window (sh_ledger sh))) i")
  case None
  then have "sh' = sh" "a = Failed ''no such hold''" using assms(1) by (simp_all add: handle_release_def release_hold_def)
  then show ?thesis using answered_same fits_accounts [OF assms(2), of 0] by (simp add: booking_moved_def)
next
  case (Some h)
  have fit: "length (hd_entries h) \<le> MAX_ENTRIES" "entries_ok (hd_entries h)" "headroom (amount_all (hd_entries h)) (l_window (sh_ledger sh))"
    using assms(2) Some by (simp_all add: payout_fits_def)
  have ok: "accounts_ok (length (hd_entries h) + 0) (l_window (sh_ledger sh))" using fits_accounts [OF assms(2) fit(1)] by simp
  note R = release_hold_spec [OF Some ok fit(2,3)]
  obtain l where l: "release_hold i (sh_ledger sh) = (Some (hd_entries h), l)" using R(1) by (metis prod.collapse)
  have "w_rebate_owed (l_window l) = w_rebate_owed (l_window (sh_ledger sh))"
    using l by (auto simp: release_hold_def Some Let_def fold_put_on)
  moreover obtain n where "a = ReleasedOf n (hd_entries h)" "sh' = drop_coinbaser_base (persist E (sh\<lparr>sh_ledger := l\<rparr>))"
    using assms(1) l by (auto simp: handle_release_def)
  ultimately show ?thesis using R(2,4) l by (simp add: answered_def booking_moved_def)
qed

lemma credit_answered:
  assumes "handle_credit E es message sh = Some (a, sh')" "accounts_ok (length es) (l_window (sh_ledger sh))"
  shows "answered a sh sh'"
proof -
  obtain l cr de ms where c: "credit_each es (sh_ledger sh, 0, 0, []) = Some (l, cr, de, ms)"
    and e: "a = CreditedBy message cr de ms" "sh' = drop_coinbaser_base (persist E (sh\<lparr>sh_ledger := l\<rparr>))"
    using assms(1) by (auto simp: handle_credit_def split: bind_splits)
  have ok: "accounts_ok (length es + 0) (l_window (sh_ledger sh))" using assms(2) by simp
  show ?thesis using credit_each_moves [OF c ok] by (simp add: answered_def booking_moved_def e)
qed

text \<open>The requests a file can hold name no more than the entries allowed.\<close>

lemma read_request_small:
  "read_request de i bytes = Inr req \<Longrightarrow> case req of Hold es \<Rightarrow> length es \<le> MAX_ENTRIES | Credit es _ \<Rightarrow> length es \<le> MAX_ENTRIES | _ \<Rightarrow> True"
  by (auto simp: read_request_def Let_def split: if_splits option.splits request.splits)

lemma handle_answered:
  assumes h: "handle E c fl rpc ts tip i req sh = Some (a, sh')" and fit: "payout_fits i (l_window (sh_ledger sh))"
    and r: "read_request de i bytes = Inr req"
  shows "answered a sh sh'"
proof (cases req)
  case (Hold es)
  then show ?thesis using hold_answered h fit read_request_small [OF r] by (simp add: handle_def)
next
  case (Paid txid b)
  then have "handle_paid E fl rpc i txid b sh = Some (a, sh')" using h by (simp add: handle_def)
  then show ?thesis
  proof (cases rule: handle_paid_cases)
    case kept
    have "booking_moved s (Answered a) = 0" for s
      using kept(2) \<open>handle_paid E fl rpc i txid b sh = Some (a, sh')\<close>
      by (auto simp: handle_paid_def booking_moved_def split: option.splits if_splits bind_splits prod.splits)
    then show ?thesis using answered_same fits_accounts [OF fit, of 0] kept(1) by simp
  next
    case (paid hd tx m)
    show ?thesis unfolding paid(5,6) by (rule finish_answered [OF paid(1) fit refl])
  qed
next
  case Release
  then show ?thesis using release_answered h fit by (simp add: handle_def)
next
  case (Credit es m)
  then show ?thesis using credit_answered fits_accounts [OF fit] h read_request_small [OF r] by (simp add: handle_def)
qed

subsection \<open>A solo block\<close>

lemma credit_rebate_moves:
  assumes fit: "rebate_fits E rebate (l_window l)" and c: "credit_rebate E rebate l = Some (cs, after, l')"
  shows "accounts_ok 0 (l_window l')" "net_position s (l_window l') = net_position s (l_window l) + int (amount_of s cs)"
    "int (w_rebate_owed (l_window l')) = int (w_rebate_owed (l_window l)) + booking_rebate (Rebated cs rebate (w_rebate_owed (l_window l)))"
proof -
  obtain cs1 after1 l1 where s: "credit_rebate E rebate l = Some (cs1, after1, l1)"
    "\<And>s. net_position s (l_window l1) = net_position s (l_window l) + int (amount_of s cs1)"
    "w_rebate_owed (l_window l1) = after1" "cs1 = [] \<Longrightarrow> after1 = rebate + w_rebate_owed (l_window l)"
    by (rule credit_rebate_spec [OF fit]) (rule that)
  have e: "cs1 = cs" "after1 = after" "l1 = l'" using s(1) c by simp_all
  show "net_position s (l_window l') = net_position s (l_window l) + int (amount_of s cs)" using s(2) e by simp
  obtain ms where ms: "miners (l_window l) = Some ms" "accounts_ok (length ms) (l_window l)"
    using fit by (auto simp: rebate_fits_def split: option.splits)
  have z: "accounts_ok 0 (l_window l)" using ms(2) by (rule accounts_ok_mono) simp
  have set0: "accounts_ok 0 (l_window (ledger_set_rebate_owed 0 x)) = accounts_ok 0 (l_window x)" for x
    by (simp add: ledger_set_rebate_owed_def set_rebate_owed_def accounts_ok_def ident_ok_def)
  have "accounts_ok 0 (l_window l') \<and> (cs \<noteq> [] \<longrightarrow> after = 0)"
  proof (cases "cs = []")
    case True
    then show ?thesis using c ms z by (auto simp: credit_rebate_def settle_rebate_def case_prod_beta split: bind_splits if_splits)
  next
    case False
    obtain dust where r: "rebate_credits ms (sat_add64 rebate (w_rebate_owed (l_window l))) (payee_script E) = Some (cs, dust)"
      and l': "after = 0" "l' = ledger_set_rebate_owed 0 (snd (settle_carry (map (\<lambda>(i, s). (i, to_i64 s)) cs) l))"
      using c ms(1) False by (auto simp: credit_rebate_def case_prod_beta split: bind_splits if_splits)
    have "accounts_ok (length (map (\<lambda>(i, s). (i, to_i64 s)) cs) + 0) (l_window l)"
      using ms(2) by (rule accounts_ok_mono) (use rebate_credits_length [OF r] in simp)
    from uses_settle [OF this] show ?thesis using l' set0 by simp
  qed
  then show "accounts_ok 0 (l_window l')"
    "int (w_rebate_owed (l_window l')) = int (w_rebate_owed (l_window l)) + booking_rebate (Rebated cs rebate (w_rebate_owed (l_window l)))"
    using s(3,4) e by (auto simp: booking_rebate_def)
qed

definition solo_share :: "solo_env \<Rightarrow> coinbase_facts \<Rightarrow> u64" where
  "solo_share N f = min (rebate_for (cf_value_sats f) (bps_of N)) (cf_pool_sats f)"

lemma book_solo_shared:
  "book_solo N ts h hash f S = Some S' \<Longrightarrow> credit_rebate (sv_pool N) (solo_share N f) (sh_ledger (sb_shared S)) = Some (cs, after, l)
    \<Longrightarrow> sb_shared S' = drop_coinbaser_base ((sb_shared S)\<lparr>sh_ledger := l\<rparr>)"
  by (auto simp: book_solo_def solo_share_def Let_def split: bind_splits)

section \<open>The run of the pool\<close>

text \<open>
  From any state a start can leave: a block log whose records have their books in order, balances in order, no snapshot. Then, in
  any order, a step of the found blocks, shares and replies; a payout request read and handled, as one step up to where its handler drops the
  snapshot; the end of a hold whose payment was checked before, on the hold as it is by then; that drop; a solo block booked.
  \<open>busy\<close> says that a payout has changed the ledger and not yet dropped a snapshot; payout requests are handled one after the other. Every booking
  has room: places for new identities and sums within the machine integers.
\<close>

inductive books_run :: "pool_env \<Rightarrow> shared \<Rightarrow> booking list \<Rightarrow> bool \<Rightarrow> shared \<Rightarrow> bool" for E sh0 where
  books_start: "kept_blocks sh0 \<Longrightarrow> (\<And>r. r \<in> set (logged (sh_log sh0)) \<Longrightarrow> life_ok r) \<Longrightarrow> accounts_ok 0 (l_window (sh_ledger sh0))
    \<Longrightarrow> sh_base sh0 = None \<Longrightarrow> books_run E sh0 [] False sh0"
| books_pool: "books_run E sh0 bs busy sh \<Longrightarrow> pool_step E sh sh' \<Longrightarrow> books_run E sh0 bs busy sh'"
| books_payout: "books_run E sh0 bs False sh \<Longrightarrow> read_request de i bytes = Inr req \<Longrightarrow> payout_fits i (l_window (sh_ledger sh))
    \<Longrightarrow> handle E c fl rpc ts tip i req sh = Some (a, sh')
    \<Longrightarrow> books_run E sh0 (bs @ [Answered a]) (sh_base sh' \<noteq> sh_base sh) (sh'\<lparr>sh_base := sh_base sh\<rparr>)"
| books_finish: "books_run E sh0 bs busy sh \<Longrightarrow> map_of (w_holds (l_window (sh_ledger sh))) i = Some h \<Longrightarrow> payout_fits i (l_window (sh_ledger sh))
    \<Longrightarrow> books_run E sh0 (bs @ [Answered (PaidBy txid n m (hd_entries h))]) busy (persist E (sh\<lparr>sh_ledger := snd (finish_hold i (sh_ledger sh))\<rparr>))"
| books_drop: "books_run E sh0 bs busy sh \<Longrightarrow> books_run E sh0 bs False (drop_coinbaser_base sh)"
| books_solo: "books_run E sh0 bs busy (sb_shared S) \<Longrightarrow> sv_pool N = E \<Longrightarrow> rebate_fits E (solo_share N f) (l_window (sh_ledger (sb_shared S)))
    \<Longrightarrow> credit_rebate E (solo_share N f) (sh_ledger (sb_shared S)) = Some (cs, after, l) \<Longrightarrow> book_solo N ts height hash f S = Some S'
    \<Longrightarrow> books_run E sh0 (bs @ [Rebated cs (solo_share N f) (w_rebate_owed (l_window (sh_ledger (sb_shared S))))]) busy (sb_shared S')"

abbreviation balances :: "shared \<Rightarrow> window" where "balances sh \<equiv> l_window (sh_ledger sh)"

text \<open>The sums of the block log and of the other bookings.\<close>

definition logged_moved :: "string \<Rightarrow> shared \<Rightarrow> int" where
  "logged_moved s sh = sum_list (map (moved s) (logged (sh_log sh)))"

definition logged_rebate :: "shared \<Rightarrow> int" where
  "logged_rebate sh = sum_list (map rebate_moved (logged (sh_log sh)))"

definition books_ok :: "shared \<Rightarrow> booking list \<Rightarrow> shared \<Rightarrow> bool" where
  "books_ok sh0 bs = pool_ok (\<lambda>s. net_position s (balances sh0) - logged_moved s sh0 + sum_list (map (booking_moved s) bs))
     (int (w_rebate_owed (balances sh0)) - logged_rebate sh0 + sum_list (map booking_rebate bs))"

lemma books_ok_booked:
  assumes "books_ok sh0 bs sh" "sh_blocks sh' = sh_blocks sh" "sh_log sh' = sh_log sh" "accounts_ok 0 (balances sh')"
    "\<And>s. net_position s (balances sh') = net_position s (balances sh) + booking_moved s b"
    "int (w_rebate_owed (balances sh')) = int (w_rebate_owed (balances sh)) + booking_rebate b"
  shows "books_ok sh0 (bs @ [b]) sh'"
  using assms by (simp add: books_ok_def pool_ok_def balanced_def kept_blocks_def)

lemma books_ok_answered:
  assumes "books_ok sh0 bs sh" "answered a sh sh'" "sh_blocks sh2 = sh_blocks sh'" "sh_log sh2 = sh_log sh'" "sh_ledger sh2 = sh_ledger sh'"
  shows "books_ok sh0 (bs @ [Answered a]) sh2"
  by (rule books_ok_booked [OF assms(1)]) (use assms(2-5) in \<open>simp_all add: answered_def booking_rebate_def\<close>)

lemma books_run_ok: "books_run E sh0 bs busy sh \<Longrightarrow> books_ok sh0 bs sh \<and> (\<not> busy \<longrightarrow> base_ok sh)"
proof (induction rule: books_run.induct)
  case books_start
  then show ?case by (simp add: books_ok_def pool_ok_def balanced_def base_ok_def logged_moved_def logged_rebate_def)
next
  case (books_pool bs busy sh sh')
  have "accounts_ok 0 (balances sh)" using books_pool.IH by (simp add: books_ok_def pool_ok_def)
  then show ?case using books_pool.IH pool_step_ok [OF books_pool.hyps(2)] pool_step_base [OF books_pool.hyps(2)] by (simp add: books_ok_def)
next
  case (books_payout bs sh de i bytes req c fl rpc ts tip a sh')
  have a: "answered a sh sh'" by (rule handle_answered [OF books_payout.hyps(4,3,2)])
  have "base_ok (sh'\<lparr>sh_base := sh_base sh\<rparr>)" if "sh_base sh' = sh_base sh"
    using a that books_payout.IH by (auto simp: answered_def base_ok_def shows_books_def)
  moreover have "books_ok sh0 (bs @ [Answered a]) (sh'\<lparr>sh_base := sh_base sh\<rparr>)"
    by (rule books_ok_answered [OF _ a]) (use books_payout.IH in simp_all)
  ultimately show ?case by simp
next
  case (books_finish bs busy sh i h txid n m)
  let ?sh = "persist E (sh\<lparr>sh_ledger := snd (finish_hold i (sh_ledger sh))\<rparr>)"
  have a: "answered (PaidBy txid n m (hd_entries h)) sh ?sh" by (rule finish_answered [OF books_finish.hyps(2,3) refl])
  have "base_ok ?sh" if "base_ok sh" using a that by (auto simp: answered_def base_ok_def shows_books_def)
  then show ?case using books_ok_answered [OF _ a, of sh0 bs ?sh] books_finish.IH by simp
next
  case (books_drop bs busy sh)
  then show ?case by (simp add: books_ok_def pool_ok_def kept_blocks_def base_ok_def)
next
  case (books_solo bs busy S N f cs after l ts height hash S')
  note M = credit_rebate_moves [OF books_solo.hyps(3,4)]
  have e: "sb_shared S' = drop_coinbaser_base ((sb_shared S)\<lparr>sh_ledger := l\<rparr>)"
    by (rule book_solo_shared [OF books_solo.hyps(5)]) (use books_solo.hyps(2,4) in simp)
  have "books_ok sh0 (bs @ [Rebated cs (solo_share N f) (w_rebate_owed (balances (sb_shared S)))]) (sb_shared S')"
    by (rule books_ok_booked [of sh0 bs "sb_shared S"]) (use M books_solo.IH in \<open>simp_all add: e booking_moved_def\<close>)
  then show ?case by (simp add: e base_ok_def)
qed

text \<open>
  C5. Every satoshi of the balances is accounted for. From one start to the next, whatever the pool goes through (blocks found, confirmed, orphaned
  before they settle, shares, replies, saves, payout requests, solo blocks) while the bookings stay in the range of the machine integers,
  each miner's position is what it was at the start, changed by what the blocks of the log have on the books since, by the carry
  moved by hand, by what holds paid out, and by the solo credits, as the answers to the requests and the solo records say;
  and the owed rebate likewise. The blocks in memory are the end of what a start would read from the log, each hash once.
\<close>

theorem balances_match_block_log:
  assumes "books_run E sh0 bs busy sh"
  shows "(\<forall>s. net_position s (balances sh) = net_position s (balances sh0) + (logged_moved s sh - logged_moved s sh0) + sum_list (map (booking_moved s) bs))
    \<and> int (w_rebate_owed (balances sh)) = int (w_rebate_owed (balances sh0)) + (logged_rebate sh - logged_rebate sh0) + sum_list (map booking_rebate bs)
    \<and> sh_blocks sh = drop (length (logged (sh_log sh)) - MAX_BLOCKS) (logged (sh_log sh)) \<and> distinct (map br_hash (sh_blocks sh))"
proof -
  have ok: "books_ok sh0 bs sh" using books_run_ok [OF assms] by simp
  then have b: "sh_blocks sh = drop (length (logged (sh_log sh)) - MAX_BLOCKS) (logged (sh_log sh))"
    by (simp add: books_ok_def pool_ok_def kept_blocks_def)
  have "distinct (map br_hash (sh_blocks sh))" unfolding b drop_map [symmetric] by (rule distinct_drop) (rule logged_distinct)
  then show ?thesis using ok b by (simp add: books_ok_def pool_ok_def balanced_def logged_moved_def logged_rebate_def)
qed

text \<open>
  C11. No coinbaser is priced off balances that have moved, outside one moment. Whatever the pool has been through since its start, unless a payout
  request has just changed the ledger and not yet dropped the snapshot, the snapshot a reply is computed from, kept or rebuilt, shows for every miner
  the carry that is on the books now, lists everyone who has any, and shows the rebate owed now.
\<close>

theorem reply_shows_current_books:
  assumes "books_run E sh0 bs False sh" "coinbaser_base E now sh = Some (b, sh')"
  shows "bs_rebate_owed b = w_rebate_owed (balances sh)
    \<and> (\<forall>m \<in> set (bs_miners b). ms_carry m = carry_of (ms_identity m) (balances sh))
    \<and> (\<forall>s. carry_of s (balances sh) > 0 \<longrightarrow> s \<in> ms_identity ` set (bs_miners b))"
  using coinbaser_base_shows(1) [OF assms(2)] books_run_ok [OF assms(1)] by (simp add: books_ok_def pool_ok_def shows_books_def base_ok_def)

section \<open>Examples\<close>

text \<open>A start with one miner, who has five sats of carry; a reply; then a request that takes the five off.\<close>

definition ex_due_window :: window where
  "ex_due_window = new_window\<lparr>w_idents := [''m''], w_index := [''m'' \<mapsto> 0], w_carry := [0 \<mapsto> 5]\<rparr>"

definition ex_due :: shared where
  "ex_due = ex_pool\<lparr>sh_ledger := (sh_ledger ex_pool)\<lparr>l_window := ex_due_window\<rparr>\<rparr>"

definition ex_snapshot :: base_snapshot where
  "ex_snapshot = the (build_base ex_env 0 ex_due_window)"

definition ex_taken :: answer where
  "ex_taken = CreditedBy ''fix'' 0 5 [\<lparr>mv_identity = ''m'', mv_requested = -5, mv_before = 5, mv_after = 0, mv_debt_paid = 0\<rparr>]"

definition ex_moved :: shared where
  "ex_moved = (persist ex_env (ex_due\<lparr>sh_ledger := (sh_ledger ex_due)\<lparr>l_window := ex_due_window\<lparr>w_carry := Map.empty\<rparr>, l_dirty := True\<rparr>\<rparr>))\<lparr>sh_base := Some ex_snapshot\<rparr>"

lemma ex_due_simps:
  "balances ex_due = ex_due_window" "sh_blocks ex_due = []" "sh_log ex_due = []" "sh_base ex_due = None" "w_holds ex_due_window = []"
  "carry_of s ex_due_window = (if s = ''m'' then 5 else 0)" "debt_of s ex_due_window = 0" "w_rebate_owed ex_due_window = 0"
  by (simp_all add: ex_due_def ex_pool_def ex_due_window_def new_window_def carry_of_def debt_of_def lookup_def)

lemma ex_due_ok: "n \<le> MAX_ENTRIES \<Longrightarrow> accounts_ok n ex_due_window"
  by (auto simp: accounts_ok_def ident_ok_def bal_ok_def ex_due_window_def new_window_def MAX_ENTRIES_def nth_Cons')

lemma ex_snapshot_simps: "build_base ex_env 0 ex_due_window = Some ex_snapshot" "map ms_carry (bs_miners ex_snapshot) = [5]" "bs_built_at ex_snapshot = 0"
  by (simp_all add: ex_snapshot_def build_base_def miners_def ex_due_window_def new_window_def keys_of_def idle_miner_of_def)

lemma ex_moved_run: "books_run ex_env ex_due [Answered ex_taken] True ex_moved"
proof -
  have s: "books_run ex_env ex_due [] False ex_due"
    by (rule books_start) (simp_all add: ex_due_simps ex_due_ok kept_blocks_def logged_def)
  have b: "coinbaser_base ex_env 0 ex_due = Some (ex_snapshot, ex_due\<lparr>sh_base := Some ex_snapshot\<rparr>)"
    by (simp add: coinbaser_base_def ex_due_simps ex_snapshot_simps)
  let ?sh = "ex_due\<lparr>sh_base := Some ex_snapshot\<rparr>" and ?r = "Credit [(''m'', -5)] ''fix''"
  have r: "read_request (\<lambda>_. Some ?r) ''c1'' [] = Inr ?r"
    by (simp add: read_request_def valid_id_def id_char_def MAX_REQUEST_BYTES_def MAX_ENTRIES_def)
  have f: "payout_fits ''c1'' (balances ?sh)" by (simp add: payout_fits_def ex_due_simps ex_due_ok)
  let ?w = "ex_due_window\<lparr>w_carry := Map.empty\<rparr>"
  have a: "adjust_carry ''m'' (-5) ex_due_window = (0, ?w)" "debt_of ''m'' ?w = 0"
    by (simp_all add: adjust_carry_def intern_def ex_due_window_def new_window_def put_balance_def unsigned_abs_def Let_def debt_of_def lookup_def)
  have "settle_carry [(''m'', -5)] (sh_ledger ex_due) = ([(''m'', 0)], (sh_ledger ex_due)\<lparr>l_window := ?w, l_dirty := True\<rparr>)"
    using a(1) by (simp add: settle_carry_def settle_one_def ex_due_simps write_ident_def) (simp add: ex_due_window_def)
  then have "handle ex_env ex_config (\<lambda>_. 0) (\<lambda>_. None) 0 None ''c1'' ?r ?sh = Some (ex_taken,
      drop_coinbaser_base (persist ex_env (?sh\<lparr>sh_ledger := (sh_ledger ex_due)\<lparr>l_window := ?w, l_dirty := True\<rparr>\<rparr>)))"
    by (simp add: handle_def handle_credit_def ex_due_simps a(2) ex_taken_def chk_def)
  from books_payout [OF books_pool [OF s step_reply [OF b]] r f this] show ?thesis
    by (simp add: ex_moved_def persist_def drop_coinbaser_base_def split: prod.splits)
qed

text \<open>
  Between a payout's change of the ledger and its drop of the snapshot, a reply is priced off balances that are gone: it still offers the
  five sats of carry that were taken off the books.
\<close>

theorem payout_reply_priced_stale:
  "books_run ex_env ex_due [Answered ex_taken] True ex_moved \<and> coinbaser_base ex_env 0 ex_moved = Some (ex_snapshot, ex_moved)
    \<and> map ms_carry (bs_miners ex_snapshot) = [5] \<and> (\<forall>s. carry_of s (balances ex_moved) = 0)"
proof -
  have "coinbaser_base ex_env 0 ex_moved = Some (ex_snapshot, ex_moved)"
    by (simp add: coinbaser_base_def ex_moved_def ex_snapshot_simps COINBASER_BASE_TTL_def)
  moreover have "carry_of s (balances ex_moved) = 0" for s by (simp add: ex_moved_def carry_of_def lookup_def split: option.split)
  ultimately show ?thesis using ex_moved_run ex_snapshot_simps(2) by blast
qed

lemma balances_match_block_log_witness:
  "net_position ''m'' (balances ex_moved) = net_position ''m'' (balances ex_due) - 5"
  using balances_match_block_log [OF ex_moved_run]
  by (simp add: booking_moved_def ex_taken_def entries_moved_def entry_moved_def logged_moved_def) (simp add: ex_moved_def ex_due_simps logged_def)

lemma reply_shows_current_books_witness:
  "\<exists>b sh'. coinbaser_base ex_env 0 (drop_coinbaser_base ex_moved) = Some (b, sh')
    \<and> (\<forall>x \<in> set (bs_miners b). ms_carry x = carry_of (ms_identity x) (balances ex_moved))"
proof -
  have w: "balances ex_moved = ex_due_window\<lparr>w_carry := Map.empty\<rparr>" by (simp add: ex_moved_def)
  obtain b sh' where b: "coinbaser_base ex_env 0 (drop_coinbaser_base ex_moved) = Some (b, sh')"
    by (simp add: coinbaser_base_def w build_base_def miners_def ex_due_window_def new_window_def keys_of_def)
  show ?thesis using reply_shows_current_books [OF books_drop [OF ex_moved_run] b] b by auto
qed

end
