(* ===== verification/Primed_Frames.thy ===== *)
theory Primed_Frames
  imports Wire_Frame
begin

text \<open>
  Cutting frames out of the bytes of a connection, \<^verbatim>\<open>prime/primed/src/session.rs\<close>: the input buffer (\<^verbatim>\<open>InBuf\<close>) and the
  loop of \<^verbatim>\<open>Session::serve\<close> that reads headers and payloads from it. Bytes arrive in chunks of any size. Which of the two
  size caps holds for a frame depends on what the session is waiting for; \<open>cap n\<close> is the one in force for the frame after
  \<open>n\<close> others. The room a vector reserves is not modelled.
\<close>

section \<open>Model\<close>

record inbuf =
  ib_data :: "byte list"
  ib_pos :: nat

definition in_take :: "nat \<Rightarrow> inbuf \<Rightarrow> (byte list option \<times> inbuf) option" where
  "in_take n b = do {
     avail \<leftarrow> chk_sub (length (ib_data b)) (ib_pos b);
     Some (if avail < n then (None, b) else (Some (take n (drop (ib_pos b) (ib_data b))), b\<lparr>ib_pos := ib_pos b + n\<rparr>)) }"

definition in_make_room :: "inbuf \<Rightarrow> inbuf" where
  "in_make_room b = (if ib_pos b > 0 \<and> ib_pos b \<ge> length (ib_data b) div 2
     then b\<lparr>ib_data := drop (ib_pos b) (ib_data b), ib_pos := 0\<rparr> else b)"

definition MAX_IDLE_FRAME :: nat where "MAX_IDLE_FRAME = 192 * 1024"

definition frame_cap :: "bool \<Rightarrow> nat" where
  "frame_cap block_about = (if block_about then MAX_CMD_LEN else MAX_IDLE_FRAME)"

datatype cut_error = BadHeader wire_error | FrameTooLarge

record cut_state =
  ct_buf :: inbuf
  ct_pending :: "header option"
  ct_keys :: key_stream
  ct_frames :: "(header \<times> byte list) list"

datatype cut_outcome = Wait cut_state | Fail cut_error cut_state | Deliver cut_state

text \<open>The header of the next frame: the pending one, or four more bytes.\<close>

definition cut_header :: "(nat \<Rightarrow> nat) \<Rightarrow> cut_state \<Rightarrow> (cut_outcome + header \<times> cut_state) option" where
  "cut_header cap st = (case ct_pending st of
     Some h \<Rightarrow> Some (Inr (h, st))
   | None \<Rightarrow> (case in_take 4 (ct_buf st) of
       None \<Rightarrow> None
     | Some (None, _) \<Rightarrow> Some (Inl (Wait st))
     | Some (Some hb, b) \<Rightarrow> (case decode_header hb (ct_keys st) of
         (Inl e, k) \<Rightarrow> Some (Inl (Fail (BadHeader e) (st\<lparr>ct_buf := b, ct_keys := k\<rparr>)))
       | (Inr h, k) \<Rightarrow>
           if unat (hd_len h) > cap (length (ct_frames st)) then Some (Inl (Fail FrameTooLarge (st\<lparr>ct_buf := b, ct_keys := k\<rparr>)))
           else Some (Inr (h, st\<lparr>ct_buf := b, ct_keys := k, ct_pending := Some h\<rparr>)))))"

definition cut_step :: "(nat \<Rightarrow> nat) \<Rightarrow> cut_state \<Rightarrow> cut_outcome option" where
  "cut_step cap st = (case cut_header cap st of
     None \<Rightarrow> None
   | Some (Inl r) \<Rightarrow> Some r
   | Some (Inr (h, st1)) \<Rightarrow> (case in_take (unat (hd_len h)) (ct_buf st1) of
       None \<Rightarrow> None
     | Some (None, _) \<Rightarrow> Some (Wait st1)
     | Some (Some p, b) \<Rightarrow> Some (Deliver (st1\<lparr>ct_buf := b, ct_pending := None, ct_frames := ct_frames st1 @ [(h, p)]\<rparr>))))"

definition left_to_cut :: "cut_state \<Rightarrow> nat" where
  "left_to_cut st = 2 * (length (ib_data (ct_buf st)) - ib_pos (ct_buf st)) + (if ct_pending st = None then 0 else 1)"

lemma in_take_left:
  "in_take n b = Some (Some p, b') \<Longrightarrow> length (ib_data b') - ib_pos b' + n = length (ib_data b) - ib_pos b"
  by (auto simp: in_take_def split: bind_splits if_splits)

lemma cut_step_left: "cut_step cap st = Some (Deliver st') \<Longrightarrow> left_to_cut st' < left_to_cut st"
  by (auto simp: cut_step_def cut_header_def left_to_cut_def dest!: in_take_left split: option.splits prod.splits sum.splits if_splits)

function cut_loop :: "(nat \<Rightarrow> nat) \<Rightarrow> cut_state \<Rightarrow> (cut_error option \<times> cut_state) option" where
  "cut_loop cap st = (case cut_step cap st of
     None \<Rightarrow> None
   | Some (Wait st') \<Rightarrow> Some (None, st')
   | Some (Fail e st') \<Rightarrow> Some (Some e, st')
   | Some (Deliver st') \<Rightarrow> cut_loop cap st')"
  by pat_completeness auto
termination by (relation "measure (left_to_cut \<circ> snd)") (auto dest: cut_step_left)

declare cut_loop.simps [simp del]

text \<open>\<^verbatim>\<open>read_buf\<close> brought some bytes; then every frame that is whole is cut.\<close>

definition read_chunk :: "(nat \<Rightarrow> nat) \<Rightarrow> byte list \<Rightarrow> cut_state \<Rightarrow> (cut_error option \<times> cut_state) option" where
  "read_chunk cap bytes st = (let b = in_make_room (ct_buf st) in cut_loop cap (st\<lparr>ct_buf := b\<lparr>ib_data := ib_data b @ bytes\<rparr>\<rparr>))"

fun read_chunks :: "(nat \<Rightarrow> nat) \<Rightarrow> byte list list \<Rightarrow> cut_state \<Rightarrow> (cut_error option \<times> cut_state) option" where
  "read_chunks cap [] st = Some (None, st)"
| "read_chunks cap (c # cs) st = (case read_chunk cap c st of
     Some (None, st') \<Rightarrow> read_chunks cap cs st'
   | r \<Rightarrow> r)"

definition cut_start :: "key_stream \<Rightarrow> cut_state" where
  "cut_start k = \<lparr>ct_buf = \<lparr>ib_data = [], ib_pos = 0\<rparr>, ct_pending = None, ct_keys = k, ct_frames = []\<rparr>"

text \<open>\<^verbatim>\<open>write_frame\<close>, a frame after the other.\<close>

fun write_frames :: "(header \<times> byte list) list \<Rightarrow> key_stream \<Rightarrow> byte list" where
  "write_frames [] k = []"
| "write_frames ((h, p) # fs) k = (case encode_header h k of (b, k') \<Rightarrow> b @ p @ write_frames fs k')"

section \<open>Lemmas\<close>

definition rest :: "cut_state \<Rightarrow> byte list" where
  "rest st = drop (ib_pos (ct_buf st)) (ib_data (ct_buf st))"

definition frames_ok :: "(nat \<Rightarrow> nat) \<Rightarrow> nat \<Rightarrow> (header \<times> byte list) list \<Rightarrow> bool" where
  "frames_ok cap n fs \<longleftrightarrow> (\<forall>i < length fs. header_ok (fst (fs ! i)) \<and> unat (hd_len (fst (fs ! i))) = length (snd (fs ! i))
     \<and> length (snd (fs ! i)) \<le> cap (n + i))"

lemma frames_ok_Cons:
  "frames_ok cap n (f # fs) \<longleftrightarrow> header_ok (fst f) \<and> unat (hd_len (fst f)) = length (snd f) \<and> length (snd f) \<le> cap n \<and> frames_ok cap (Suc n) fs"
  unfolding frames_ok_def by (auto simp: less_Suc_eq_0_disj)

text \<open>The bytes still to come, \<open>s\<close>, are those of \<open>todo\<close> as the cutter stands.\<close>

definition expects :: "(nat \<Rightarrow> nat) \<Rightarrow> cut_state \<Rightarrow> (header \<times> byte list) list \<Rightarrow> byte list \<Rightarrow> bool" where
  "expects cap st todo s \<longleftrightarrow> ib_pos (ct_buf st) \<le> length (ib_data (ct_buf st)) \<and> frames_ok cap (length (ct_frames st)) todo
     \<and> (case ct_pending st of None \<Rightarrow> s = write_frames todo (ct_keys st)
        | Some h \<Rightarrow> \<exists>p ts. todo = (h, p) # ts \<and> s = p @ write_frames ts (ct_keys st))"

lemma in_take_rest:
  assumes "ib_pos (ct_buf st) \<le> length (ib_data (ct_buf st))"
  shows "in_take n (ct_buf st) = Some (if length (rest st) < n then (None, ct_buf st)
    else (Some (take n (rest st)), (ct_buf st)\<lparr>ib_pos := ib_pos (ct_buf st) + n\<rparr>))"
  using assms by (simp add: in_take_def rest_def)

lemma cut_payload:
  assumes ok: "expects cap st todo (rest st @ fut)" and pend: "ct_pending st = Some h"
  shows "(\<exists>st' f ts. cut_step cap st = Some (Deliver st') \<and> todo = f # ts \<and> ct_frames st' = ct_frames st @ [f]
      \<and> expects cap st' ts (rest st' @ fut))
    \<or> cut_step cap st = Some (Wait st) \<and> fut \<noteq> []"
proof -
  obtain p ts where t: "todo = (h, p) # ts" "rest st @ fut = p @ write_frames ts (ct_keys st)"
    and pos: "ib_pos (ct_buf st) \<le> length (ib_data (ct_buf st))" and fr: "frames_ok cap (length (ct_frames st)) todo"
    using ok pend by (auto simp: expects_def)
  have len: "unat (hd_len h) = length p" "frames_ok cap (Suc (length (ct_frames st))) ts"
    using fr t(1) by (simp_all add: frames_ok_Cons)
  show ?thesis
  proof (cases "length (rest st) < length p")
    case True
    have "fut \<noteq> []" using True arg_cong [OF t(2), of length] by auto
    then show ?thesis using True pend len(1) in_take_rest [OF pos] by (simp add: cut_step_def cut_header_def)
  next
    case False
    then have p: "take (length p) (rest st) = p" "drop (length p) (rest st) @ fut = write_frames ts (ct_keys st)"
      using arg_cong [OF t(2), of "take (length p)"] arg_cong [OF t(2), of "drop (length p)"] by simp_all
    define st' where "st' = st\<lparr>ct_buf := (ct_buf st)\<lparr>ib_pos := ib_pos (ct_buf st) + length p\<rparr>, ct_pending := None, ct_frames := ct_frames st @ [(h, p)]\<rparr>"
    have "cut_step cap st = Some (Deliver st')"
      using False pend len(1) in_take_rest [OF pos] p(1) by (simp add: cut_step_def cut_header_def st'_def)
    moreover have "rest st' = drop (length p) (rest st)" by (simp add: rest_def st'_def add.commute)
    moreover have "expects cap st' ts (rest st' @ fut)"
      using False pos len(2) p(2) calculation(2) by (simp add: expects_def st'_def rest_def)
    ultimately show ?thesis using t(1) by (intro disjI1) (force simp: st'_def)
  qed
qed

lemma length_encode_header: "encode_header h k = (b, k') \<Longrightarrow> length b = 4"
  by (auto simp: encode_header_def split: prod.splits)

lemma cut_step_expects:
  assumes ok: "expects cap st todo (rest st @ fut)"
  shows "(\<exists>st' f ts. cut_step cap st = Some (Deliver st') \<and> todo = f # ts \<and> ct_frames st' = ct_frames st @ [f]
      \<and> expects cap st' ts (rest st' @ fut))
    \<or> (\<exists>st'. cut_step cap st = Some (Wait st') \<and> ct_frames st' = ct_frames st \<and> expects cap st' todo (rest st' @ fut) \<and> (fut = [] \<longrightarrow> todo = []))"
proof (cases "ct_pending st")
  case (Some h)
  then show ?thesis using cut_payload [OF ok Some] ok by auto
next
  case None
  have pos: "ib_pos (ct_buf st) \<le> length (ib_data (ct_buf st))" and s: "rest st @ fut = write_frames todo (ct_keys st)"
    and fr: "frames_ok cap (length (ct_frames st)) todo"
    using ok None by (auto simp: expects_def)
  show ?thesis
  proof (cases "length (rest st) < 4")
    case True
    have "cut_step cap st = Some (Wait st)"
      using True None in_take_rest [OF pos, of 4] by (simp add: cut_step_def cut_header_def)
    moreover have "todo = []" if "fut = []"
    proof (rule ccontr)
      assume "todo \<noteq> []"
      then obtain h p ts b k' where "todo = (h, p) # ts" "encode_header h (ct_keys st) = (b, k')" by (metis list.exhaust prod.exhaust)
      then show False using s True that length_encode_header by fastforce
    qed
    ultimately show ?thesis using ok by blast
  next
    case False
    then have "todo \<noteq> []" using s by auto
    then obtain h p ts where t: "todo = (h, p) # ts" by (metis list.exhaust prod.exhaust)
    obtain b k' where b: "encode_header h (ct_keys st) = (b, k')" by fastforce
    note l4 = length_encode_header [OF b]
    have s': "rest st @ fut = b @ p @ write_frames ts k'" using s t b by simp
    have r: "take 4 (rest st) = b" "drop 4 (rest st) @ fut = p @ write_frames ts k'"
      using False arg_cong [OF s', of "take 4"] arg_cong [OF s', of "drop 4"] l4 by simp_all
    have h: "header_ok h" "unat (hd_len h) = length p" "length p \<le> cap (length (ct_frames st))" using fr t by (simp_all add: frames_ok_Cons)
    have d: "decode_header b (ct_keys st) = (Inr h, k')" using decode_encode_header [OF h(1), of "ct_keys st"] b by simp
    define st1 where "st1 = st\<lparr>ct_buf := (ct_buf st)\<lparr>ib_pos := ib_pos (ct_buf st) + 4\<rparr>, ct_keys := k', ct_pending := Some h\<rparr>"
    have c: "cut_header cap st = Some (Inr (h, st1))"
      using False None in_take_rest [OF pos, of 4] r(1) d h(2,3) by (simp add: cut_header_def st1_def)
    have r1: "rest st1 = drop 4 (rest st)" by (simp add: rest_def st1_def add.commute)
    have e1: "expects cap st1 todo (rest st1 @ fut)"
      using False pos fr r(2) r1 t by (simp add: expects_def st1_def rest_def)
    have "cut_step cap st = cut_step cap st1"
      unfolding cut_step_def c by (simp add: cut_header_def st1_def)
    then show ?thesis using cut_payload [OF e1, of h] e1 by (auto simp: st1_def)
  qed
qed

lemma cut_loop_expects:
  assumes "expects cap st todo (rest st @ fut)"
  shows "\<exists>st' done todo'. cut_loop cap st = Some (None, st') \<and> todo = done @ todo' \<and> ct_frames st' = ct_frames st @ done
    \<and> expects cap st' todo' (rest st' @ fut) \<and> (fut = [] \<longrightarrow> todo' = [])"
  using assms
proof (induction cap st arbitrary: todo rule: cut_loop.induct)
  case (1 cap st)
  from cut_step_expects [OF 1(2)] show ?case
  proof (elim disjE exE conjE)
    fix st' f ts assume d: "cut_step cap st = Some (Deliver st')" "todo = f # ts" "ct_frames st' = ct_frames st @ [f]" "expects cap st' ts (rest st' @ fut)"
    then show ?thesis using 1(1) [OF d(1) refl d(4)] by (subst cut_loop.simps) force
  next
    fix st' assume "cut_step cap st = Some (Wait st')" "ct_frames st' = ct_frames st" "expects cap st' todo (rest st' @ fut)" "fut = [] \<longrightarrow> todo = []"
    then show ?thesis by (subst cut_loop.simps) (intro exI [of _ st'] exI [of _ "[]"] exI [of _ todo]; simp)
  qed
qed

lemma rest_room: "rest (st\<lparr>ct_buf := (in_make_room (ct_buf st))\<lparr>ib_data := ib_data (in_make_room (ct_buf st)) @ c\<rparr>\<rparr>) = rest st @ c"
  if "ib_pos (ct_buf st) \<le> length (ib_data (ct_buf st))"
  using that by (simp add: rest_def in_make_room_def)

lemma read_chunk_expects:
  assumes "expects cap st todo (rest st @ c @ fut)"
  shows "\<exists>st' sent todo'. read_chunk cap c st = Some (None, st') \<and> todo = sent @ todo' \<and> ct_frames st' = ct_frames st @ sent
    \<and> expects cap st' todo' (rest st' @ fut) \<and> (fut = [] \<longrightarrow> todo' = [])"
proof -
  let ?st = "st\<lparr>ct_buf := (in_make_room (ct_buf st))\<lparr>ib_data := ib_data (in_make_room (ct_buf st)) @ c\<rparr>\<rparr>"
  have pos: "ib_pos (ct_buf st) \<le> length (ib_data (ct_buf st))" using assms by (simp add: expects_def)
  then have "expects cap ?st todo (rest ?st @ fut)"
    using assms unfolding rest_room [OF pos] by (auto simp: expects_def in_make_room_def split: option.splits)
  from cut_loop_expects [OF this] show ?thesis unfolding read_chunk_def Let_def by simp
qed

lemma read_chunks_expects:
  assumes "expects cap st todo (rest st @ concat cs)" "cs \<noteq> []"
  shows "\<exists>st'. read_chunks cap cs st = Some (None, st') \<and> ct_frames st' = ct_frames st @ todo"
  using assms
proof (induction cs arbitrary: st todo)
  case (Cons c cs)
  then obtain st' sent todo' where 1: "read_chunk cap c st = Some (None, st')" "todo = sent @ todo'" "ct_frames st' = ct_frames st @ sent"
    "expects cap st' todo' (rest st' @ concat cs)" "concat cs = [] \<longrightarrow> todo' = []"
    using read_chunk_expects [of cap st todo c "concat cs"] by auto
  show ?case
  proof (cases "cs = []")
    case True
    then show ?thesis using 1 by auto
  next
    case False
    then show ?thesis using Cons.IH [OF 1(4)] 1(1-3) by auto
  qed
qed simp

text \<open>Whatever the bytes, one step keeps the buffer in order and delivers only frames within their caps.\<close>

definition cut_ok :: "(nat \<Rightarrow> nat) \<Rightarrow> cut_state \<Rightarrow> bool" where
  "cut_ok cap st \<longleftrightarrow> ib_pos (ct_buf st) \<le> length (ib_data (ct_buf st))
     \<and> (\<forall>h. ct_pending st = Some h \<longrightarrow> unat (hd_len h) \<le> cap (length (ct_frames st)))
     \<and> (\<forall>i < length (ct_frames st). length (snd (ct_frames st ! i)) = unat (hd_len (fst (ct_frames st ! i)))
          \<and> length (snd (ct_frames st ! i)) \<le> cap i)"

lemma cut_header_ok:
  assumes "cut_ok cap st"
  shows "\<exists>r. cut_header cap st = Some r \<and> (case r of Inl (Wait st') \<Rightarrow> cut_ok cap st' | Inl (Fail e st') \<Rightarrow> cut_ok cap st'
    | Inl (Deliver st') \<Rightarrow> False | Inr (h, st') \<Rightarrow> cut_ok cap st' \<and> ct_pending st' = Some h)"
proof -
  have pos: "ib_pos (ct_buf st) \<le> length (ib_data (ct_buf st))" using assms by (simp add: cut_ok_def)
  then have len: "length (rest st) = length (ib_data (ct_buf st)) - ib_pos (ct_buf st)" by (simp add: rest_def)
  show ?thesis
    using assms in_take_rest [OF pos, of 4] len
    by (cases "ct_pending st") (auto simp: cut_header_def cut_ok_def split: prod.splits sum.splits)
qed

lemma cut_step_ok:
  assumes ok: "cut_ok cap st"
  shows "\<exists>r. cut_step cap st = Some r \<and> (case r of Wait st' \<Rightarrow> cut_ok cap st' | Fail e st' \<Rightarrow> cut_ok cap st' | Deliver st' \<Rightarrow> cut_ok cap st')"
proof -
  obtain r where r: "cut_header cap st = Some r" and rok: "case r of Inl (Wait st') \<Rightarrow> cut_ok cap st' | Inl (Fail e st') \<Rightarrow> cut_ok cap st'
    | Inl (Deliver st') \<Rightarrow> False | Inr (h, st') \<Rightarrow> cut_ok cap st' \<and> ct_pending st' = Some h"
    using cut_header_ok [OF ok] by blast
  show ?thesis
  proof (cases r)
    case (Inl q)
    then show ?thesis using r rok by (cases q) (simp_all add: cut_step_def)
  next
    case (Inr hs)
    obtain h st1 where hs: "hs = (h, st1)" "cut_ok cap st1" "ct_pending st1 = Some h" using rok Inr by (cases hs) auto
    have pos: "ib_pos (ct_buf st1) \<le> length (ib_data (ct_buf st1))" using hs(2) by (simp add: cut_ok_def)
    then have len: "length (rest st1) = length (ib_data (ct_buf st1)) - ib_pos (ct_buf st1)" by (simp add: rest_def)
    show ?thesis
      using r Inr hs in_take_rest [OF pos, of "unat (hd_len h)"] len
      by (auto simp: cut_step_def cut_ok_def nth_append less_Suc_eq)
  qed
qed

lemma cut_loop_ok: "cut_ok cap st \<Longrightarrow> \<exists>e st'. cut_loop cap st = Some (e, st') \<and> cut_ok cap st'"
proof (induction cap st rule: cut_loop.induct)
  case (1 cap st)
  from cut_step_ok [OF 1(2)] obtain r where r: "cut_step cap st = Some r"
    "case r of Wait st' \<Rightarrow> cut_ok cap st' | Fail e st' \<Rightarrow> cut_ok cap st' | Deliver st' \<Rightarrow> cut_ok cap st'" by blast
  then show ?case using 1(1) [OF r(1)] by (cases r) (subst cut_loop.simps, force)+
qed

lemma read_chunk_ok: "cut_ok cap st \<Longrightarrow> \<exists>e st'. read_chunk cap c st = Some (e, st') \<and> cut_ok cap st'"
  unfolding read_chunk_def Let_def by (rule cut_loop_ok) (auto simp: cut_ok_def in_make_room_def)

section \<open>Properties\<close>

text \<open>
  C25. How bytes arrive does not matter. Frames written one after the other under the key stream, each within the cap in force for it,
  are cut out of the connection as they were written and in order, whatever chunks their bytes arrive in.
\<close>

theorem frames_survive_chunking:
  assumes "frames_ok cap 0 fs" "concat cs = write_frames fs k" "cs \<noteq> []"
  shows "\<exists>st. read_chunks cap cs (cut_start k) = Some (None, st) \<and> ct_frames st = fs"
  using read_chunks_expects [of cap "cut_start k" fs cs] assms by (simp add: expects_def cut_start_def rest_def)

text \<open>
  C26. Cutting always comes to an end, whatever the bytes: each chunk is worked through without a panic, the read position stays inside
  the buffer, and every frame delivered has the length its header gave and is within the cap that was in force for it.
\<close>

theorem cutting_ends:
  "\<exists>e st. read_chunks cap cs (cut_start k) = Some (e, st) \<and> ib_pos (ct_buf st) \<le> length (ib_data (ct_buf st))
    \<and> list_all (\<lambda>(i, h, p). length p = unat (hd_len h) \<and> length p \<le> cap i) (enumerate 0 (ct_frames st))"
proof -
  have "\<exists>e st'. read_chunks cap cs st = Some (e, st') \<and> cut_ok cap st'" if "cut_ok cap st" for st
    using that
  proof (induction cs arbitrary: st)
    case (Cons c cs)
    obtain e st' where "read_chunk cap c st = Some (e, st')" "cut_ok cap st'" using read_chunk_ok [OF Cons.prems] by blast
    then show ?case using Cons.IH by (cases e) auto
  qed simp
  moreover have "cut_ok cap (cut_start k)" by (simp add: cut_ok_def cut_start_def)
  ultimately obtain e st where "read_chunks cap cs (cut_start k) = Some (e, st)" "cut_ok cap st" by blast
  then show ?thesis by (fastforce simp: cut_ok_def list_all_iff in_set_enumerate_eq)
qed

lemma frames_survive_chunking_witness:
  "\<exists>st. read_chunks (\<lambda>_. frame_cap False) [take 3 (write_frames [(new_header 5 2, [7, 8])] CLIENT_INITIAL_KEY), drop 3 (write_frames [(new_header 5 2, [7, 8])] CLIENT_INITIAL_KEY)]
      (cut_start CLIENT_INITIAL_KEY) = Some (None, st) \<and> ct_frames st = [(new_header 5 2, [7, 8])]"
  by (rule frames_survive_chunking) (simp_all add: frames_ok_def header_ok_def new_header_def frame_cap_def MAX_IDLE_FRAME_def)

end
