(* ===== verification/Primed_Workers.thy ===== *)
theory Primed_Workers
  imports Primed_Address "HOL-Library.AList" "HOL-Library.Multiset"
begin

text \<open>
  Worker names per payout identity on one session, \<^verbatim>\<open>prime/primed/src/workers.rs\<close>. A \<^verbatim>\<open>HashMap\<close> is an association list
  with distinct keys, in the order the names arrived; a minute bucket array is a list of ten. \<open>None\<close> is the panic of a
  counter that overflows or goes below zero.
\<close>

section \<open>Worker names\<close>

definition MAX_NAME_LEN :: usize where "MAX_NAME_LEN = 32"
definition MAX_PER_IDENTITY :: usize where "MAX_PER_IDENTITY = 256"
definition MAX_PER_SESSION :: usize where "MAX_PER_SESSION = 1024"
definition BUCKET_SECS :: u64 where "BUCKET_SECS = 60"
definition BUCKETS :: usize where "BUCKETS = 10"
definition RECENT_SECS :: u64 where "RECENT_SECS = BUCKET_SECS * BUCKETS"

definition is_ascii_graphic :: "char \<Rightarrow> bool" where
  "is_ascii_graphic c \<longleftrightarrow> 33 \<le> (of_char c :: nat) \<and> (of_char c :: nat) \<le> 126"

text \<open>The \<^verbatim>\<open>chars\<close> of a valid UTF-8 string, one first byte each.\<close>

definition first_byte :: "char \<Rightarrow> bool" where
  "first_byte c \<longleftrightarrow> \<not> (128 \<le> (of_char c :: nat) \<and> (of_char c :: nat) < 192)"

definition until_char :: "char list \<Rightarrow> string \<Rightarrow> string" where
  "until_char stops = takeWhile (\<lambda>c. c \<notin> set stops)"

definition from_first :: "char list \<Rightarrow> string \<Rightarrow> string" where
  "from_first stops = dropWhile (\<lambda>c. c \<notin> set stops)"

definition strip_dot :: "string \<Rightarrow> string" where
  "strip_dot s = (case s of c # cs \<Rightarrow> if c = CHR ''.'' then cs else s | [] \<Rightarrow> [])"

definition after_address :: "codecs \<Rightarrow> string \<Rightarrow> string" where
  "after_address A raw =
     (if looks_like_address A (until_char ''.~'' raw) then
        let raw1 = from_first ''.~'' raw;
            raw2 = (if take 1 raw1 = ''~'' then from_first ''.'' raw1 else raw1)
        in strip_dot raw2
      else raw)"

definition worker_of :: "codecs \<Rightarrow> string \<Rightarrow> string" where
  "worker_of A username = (let u = from_first ''.'' (trim_str username) in
     if u = [] then []
     else let raw = until_char ''~'' (after_address A (tl u)) in
       if length raw \<le> MAX_NAME_LEN \<and> list_all is_ascii_graphic raw then raw
       else map (\<lambda>c. if is_ascii_graphic c then c else CHR ''_'') (take MAX_NAME_LEN (filter first_byte raw)))"

section \<open>Recent work\<close>

record recent =
  rc_minute :: u64
  rc_work :: "u64 list"

definition no_recent :: recent where
  "no_recent = \<lparr>rc_minute = 0, rc_work = replicate BUCKETS 0\<rparr>"

definition advance_recent :: "u64 \<Rightarrow> recent \<Rightarrow> recent" where
  "advance_recent minute r = (let gap = minute - rc_minute r in
     if gap = 0 then r
     else \<lparr>rc_minute = minute,
       rc_work = (if gap < BUCKETS then drop gap (rc_work r) @ replicate gap 0 else replicate BUCKETS 0)\<rparr>)"

definition recent_add :: "u64 \<Rightarrow> u64 \<Rightarrow> recent \<Rightarrow> recent" where
  "recent_add w ts r = (let r1 = advance_recent (ts div BUCKET_SECS) r in
     r1\<lparr>rc_work := (rc_work r1)[BUCKETS - 1 := sat_add64 (rc_work r1 ! (BUCKETS - 1)) w]\<rparr>)"

definition merge_recent :: "recent \<Rightarrow> recent \<Rightarrow> recent" where
  "merge_recent r other = (let r1 = advance_recent (rc_minute other) r;
       behind = rc_minute r1 - rc_minute other in
     r1\<lparr>rc_work := map (\<lambda>j. if j + behind < length (rc_work other)
         then sat_add64 (rc_work r1 ! j) (rc_work other ! (j + behind)) else rc_work r1 ! j) [0..<length (rc_work r1)]\<rparr>)"

definition work_at :: "u64 \<Rightarrow> recent \<Rightarrow> u64" where
  "work_at ts r = (let skip = min (ts div BUCKET_SECS - rc_minute r) BUCKETS in
     fold (\<lambda>w a. sat_add64 a w) (drop skip (rc_work r)) 0)"

section \<open>Tallies\<close>

record wtally =
  wt_work :: u64
  wt_shares :: u64
  wt_first_ts :: u64
  wt_last_ts :: u64
  wt_recent :: recent

definition no_tally :: wtally where
  "no_tally = \<lparr>wt_work = 0, wt_shares = 0, wt_first_ts = 0, wt_last_ts = 0, wt_recent = no_recent\<rparr>"

definition tally_add :: "u64 \<Rightarrow> u64 \<Rightarrow> wtally \<Rightarrow> wtally" where
  "tally_add w ts t = (let first = (if wt_shares t = 0 then ts else wt_first_ts t) in
     \<lparr>wt_work = sat_add64 (wt_work t) w, wt_shares = sat_add64 (wt_shares t) 1, wt_first_ts = min first ts,
      wt_last_ts = max (wt_last_ts t) ts, wt_recent = recent_add w ts (wt_recent t)\<rparr>)"

definition tally_absorb :: "wtally \<Rightarrow> wtally \<Rightarrow> wtally" where
  "tally_absorb t other = (if wt_shares other = 0 then t
     else \<lparr>wt_work = sat_add64 (wt_work t) (wt_work other), wt_shares = sat_add64 (wt_shares t) (wt_shares other),
       wt_first_ts = (if wt_shares t = 0 then wt_first_ts other else min (wt_first_ts t) (wt_first_ts other)),
       wt_last_ts = max (wt_last_ts t) (wt_last_ts other), wt_recent = merge_recent (wt_recent t) (wt_recent other)\<rparr>)"

record worker =
  wk_tally :: wtally
  wk_seen :: u64

record wover =
  wo_names :: u64
  wo_tally :: wtally

definition no_over :: wover where
  "no_over = \<lparr>wo_names = 0, wo_tally = no_tally\<rparr>"

definition over_take :: "worker \<Rightarrow> wover \<Rightarrow> wover" where
  "over_take w o' = \<lparr>wo_names = sat_add64 (wo_names o') 1, wo_tally = tally_absorb (wo_tally o') (wk_tally w)\<rparr>"

definition over_absorb :: "wover \<Rightarrow> wover \<Rightarrow> wover" where
  "over_absorb other o' = \<lparr>wo_names = sat_add64 (wo_names o') (wo_names other), wo_tally = tally_absorb (wo_tally o') (wo_tally other)\<rparr>"

record named =
  nm_workers :: "(string \<times> worker) list"
  nm_over :: wover

definition no_names :: named where
  "no_names = \<lparr>nm_workers = [], nm_over = no_over\<rparr>"

section \<open>The book\<close>

record worker_book =
  wb_ids :: "(string \<times> named) list"
  wb_names :: usize
  wb_seen :: u64
  wb_rest :: wover

definition empty_book :: worker_book where
  "empty_book = \<lparr>wb_ids = [], wb_names = 0, wb_seen = 0, wb_rest = no_over\<rparr>"

text \<open>\<^verbatim>\<open>min_by_key\<close>: the first of the least.\<close>

definition seen_names :: "string option \<Rightarrow> (string \<times> named) list \<Rightarrow> (u64 \<times> string \<times> string) list" where
  "seen_names within ids = concat (map (\<lambda>(i, n). map (\<lambda>(nm, w). (wk_seen w, i, nm)) (nm_workers n))
     (filter (\<lambda>(i, n). within = None \<or> within = Some i) ids))"

fun least_seen :: "(u64 \<times> string \<times> string) list \<Rightarrow> (u64 \<times> string \<times> string) option" where
  "least_seen [] = None"
| "least_seen (x # xs) = (case least_seen xs of None \<Rightarrow> Some x | Some y \<Rightarrow> if fst x \<le> fst y then Some x else Some y)"

definition drop_empty :: "string \<Rightarrow> worker_book \<Rightarrow> worker_book" where
  "drop_empty i b = (case map_of (wb_ids b) i of None \<Rightarrow> b
     | Some n \<Rightarrow> if nm_workers n = [] then b\<lparr>wb_ids := AList.delete i (wb_ids b), wb_rest := over_absorb (nm_over n) (wb_rest b)\<rparr> else b)"

definition evict :: "string option \<Rightarrow> worker_book \<Rightarrow> worker_book option" where
  "evict within b = (case least_seen (seen_names within (wb_ids b)) of None \<Rightarrow> Some b
     | Some (_, i, nm) \<Rightarrow> (case map_of (wb_ids b) i of None \<Rightarrow> Some b
       | Some n \<Rightarrow> (case map_of (nm_workers n) nm of
           None \<Rightarrow> Some (drop_empty i b)
         | Some w \<Rightarrow> do {
             names \<leftarrow> chk_sub (wb_names b) 1;
             let n1 = \<lparr>nm_workers = AList.delete nm (nm_workers n), nm_over = over_take w (nm_over n)\<rparr>;
             Some (drop_empty i (b\<lparr>wb_ids := AList.update i n1 (wb_ids b), wb_names := names\<rparr>)) })))"

definition named_of :: "string \<Rightarrow> worker_book \<Rightarrow> named" where
  "named_of i b = (case map_of (wb_ids b) i of None \<Rightarrow> no_names | Some n \<Rightarrow> n)"

definition put_worker :: "string \<Rightarrow> string \<Rightarrow> worker \<Rightarrow> worker_book \<Rightarrow> worker_book" where
  "put_worker i nm w b = (let n = named_of i b in
     b\<lparr>wb_ids := AList.update i (n\<lparr>nm_workers := AList.update nm w (nm_workers n)\<rparr>) (wb_ids b)\<rparr>)"

definition make_room :: "string \<Rightarrow> worker_book \<Rightarrow> worker_book option" where
  "make_room i b =
     (if (case map_of (wb_ids b) i of None \<Rightarrow> False | Some n \<Rightarrow> length (nm_workers n) \<ge> MAX_PER_IDENTITY) then evict (Some i) b
      else if wb_names b \<ge> MAX_PER_SESSION then evict None b
      else Some b)"

definition note_worker :: "codecs \<Rightarrow> string \<Rightarrow> string \<Rightarrow> u64 \<Rightarrow> u64 \<Rightarrow> worker_book \<Rightarrow> worker_book option" where
  "note_worker A i username w ts b = do {
     let nm = worker_of A username;
     seen \<leftarrow> chk64 (wb_seen b + 1);
     let b1 = b\<lparr>wb_seen := seen\<rparr>;
     case map_of (nm_workers (named_of i b1)) nm of
       Some x \<Rightarrow> Some (put_worker i nm \<lparr>wk_tally = tally_add w ts (wk_tally x), wk_seen = seen\<rparr> b1)
     | None \<Rightarrow> do {
         b2 \<leftarrow> make_room i b1;
         names \<leftarrow> chk64 (wb_names b2 + 1);
         Some ((put_worker i nm \<lparr>wk_tally = tally_add w ts no_tally, wk_seen = seen\<rparr> b2)\<lparr>wb_names := names\<rparr>) } }"

section \<open>The rows of the stats document\<close>

record stats_row =
  wr_identity :: string
  wr_name :: string
  wr_work :: u64
  wr_shares :: u64
  wr_last_ts :: u64
  wr_recent_work :: u64
  wr_recent_secs :: u64
  wr_names :: u64

definition row :: "string \<Rightarrow> string \<Rightarrow> wtally \<Rightarrow> u64 \<Rightarrow> u64 \<Rightarrow> stats_row" where
  "row ident name t names ts = (let window_start = (ts div BUCKET_SECS - (BUCKETS - 1)) * BUCKET_SECS in
     \<lparr>wr_identity = ident, wr_name = name, wr_work = wt_work t, wr_shares = wt_shares t, wr_last_ts = wt_last_ts t,
      wr_recent_work = work_at ts (wt_recent t),
      wr_recent_secs = min RECENT_SECS (max 30 (ts - max window_start (wt_first_ts t))), wr_names = names\<rparr>)"

definition rows :: "u64 \<Rightarrow> worker_book \<Rightarrow> stats_row list" where
  "rows ts b = sort_key (\<lambda>r. (wr_identity r, wr_name r))
     (concat (map (\<lambda>(i, n). map (\<lambda>(nm, w). row i nm (wk_tally w) 0 ts) (nm_workers n)) (wb_ids b)))"

definition overflow_rows :: "u64 \<Rightarrow> worker_book \<Rightarrow> stats_row list" where
  "overflow_rows ts b = sort_key wr_identity
       (map (\<lambda>(i, n). row i [] (wo_tally (nm_over n)) (wo_names (nm_over n)) ts) (filter (\<lambda>(i, n). wo_names (nm_over n) > 0) (wb_ids b)))
     @ (if wo_names (wb_rest b) > 0 then [row [] [] (wo_tally (wb_rest b)) (wo_names (wb_rest b)) ts] else [])"

section \<open>Association lists\<close>

definition amount_at :: "('v \<Rightarrow> nat) \<Rightarrow> 'k \<Rightarrow> ('k \<times> 'v) list \<Rightarrow> nat" where
  "amount_at f k al = (case map_of al k of None \<Rightarrow> 0 | Some v \<Rightarrow> f v)"

abbreviation amounts :: "('v \<Rightarrow> nat) \<Rightarrow> ('k \<times> 'v) list \<Rightarrow> nat" where
  "amounts f al \<equiv> sum_list (map (\<lambda>e. f (snd e)) al)"

lemma amounts_update: "amounts f (AList.update k v al) + amount_at f k al = amounts f al + f v"
  by (induction al) (auto simp: amount_at_def)

lemma amounts_pos: "amounts f al \<noteq> 0 \<Longrightarrow> \<exists>k v. (k, v) \<in> set al \<and> f v \<noteq> 0"
proof (induction al)
  case (Cons e al)
  then show ?case by (cases e; cases "f (snd e) = 0") auto
qed simp

lemma amount_at_absent: "k \<notin> fst ` set al \<Longrightarrow> amount_at f k al = 0"
  by (simp add: amount_at_def map_of_eq_None_iff [THEN iffD2])

lemma amounts_delete: "distinct (map fst al) \<Longrightarrow> amounts f (AList.delete k al) + amount_at f k al = amounts f al"
proof (induction al)
  case (Cons e al)
  then show ?case
    using amount_at_absent [of k al f] by (cases e) (auto simp: amount_at_def AList.delete_eq)
qed (simp add: amount_at_def)

lemma amount_at_le: "amount_at f k al \<le> amounts f al"
  by (induction al) (auto simp: amount_at_def split: option.splits)

lemma length_delete_key: "distinct (map fst al) \<Longrightarrow> map_of al k = Some v \<Longrightarrow> length (AList.delete k al) + 1 = length al"
  using amounts_delete [of al "\<lambda>_. 1" k] by (simp add: amount_at_def sum_list_triv)

lemma length_update_key: "length (AList.update k v al) = length al + (if k \<in> fst ` set al then 0 else 1)"
  by (induction al) auto

section \<open>The shape of a book\<close>

definition tally_ok :: "wtally \<Rightarrow> bool" where
  "tally_ok t \<longleftrightarrow> (wt_shares t = 0 \<longrightarrow> wt_work t = 0)"

definition over_ok :: "wover \<Rightarrow> bool" where
  "over_ok x \<longleftrightarrow> tally_ok (wo_tally x) \<and> (wo_names x = 0 \<longrightarrow> wt_shares (wo_tally x) = 0)"

definition named_ok :: "named \<Rightarrow> bool" where
  "named_ok n \<longleftrightarrow> distinct (map fst (nm_workers n)) \<and> length (nm_workers n) \<le> MAX_PER_IDENTITY \<and> over_ok (nm_over n)
     \<and> (\<forall>nm w. (nm, w) \<in> set (nm_workers n) \<longrightarrow> tally_ok (wk_tally w))"

abbreviation held :: "named \<Rightarrow> nat" where
  "held n \<equiv> length (nm_workers n)"

text \<open>\<open>wbook_ok b e\<close>: only the identity \<open>e\<close>, if any, may be left with no name.\<close>

definition wbook_ok :: "string option \<Rightarrow> worker_book \<Rightarrow> bool" where
  "wbook_ok e b \<longleftrightarrow> distinct (map fst (wb_ids b)) \<and> (\<forall>i n. (i, n) \<in> set (wb_ids b) \<longrightarrow> named_ok n \<and> (nm_workers n = [] \<longrightarrow> e = Some i))
     \<and> wb_names b = amounts held (wb_ids b) \<and> wb_names b \<le> MAX_PER_SESSION \<and> over_ok (wb_rest b)"

lemma sat_add64_zero: "sat_add64 a b = 0 \<longleftrightarrow> a = 0 \<and> b = 0"
  by (auto simp: sat_add64_def)

lemma tally_ok_simps [simp]:
  "tally_ok no_tally" "tally_ok (tally_add w ts t)" "tally_ok a \<Longrightarrow> tally_ok b \<Longrightarrow> tally_ok (tally_absorb a b)"
  by (auto simp: tally_ok_def no_tally_def tally_add_def tally_absorb_def sat_add64_zero Let_def)

lemma over_simps [simp]:
  "wo_tally (over_take w x) = tally_absorb (wo_tally x) (wk_tally w)" "wo_tally (over_absorb y x) = tally_absorb (wo_tally x) (wo_tally y)"
  "wo_tally no_over = no_tally"
  by (simp_all add: over_take_def over_absorb_def no_over_def)

lemma over_ok_simps [simp]:
  "over_ok no_over" "over_ok x \<Longrightarrow> tally_ok (wk_tally w) \<Longrightarrow> over_ok (over_take w x)"
  "over_ok x \<Longrightarrow> over_ok y \<Longrightarrow> over_ok (over_absorb y x)" "over_ok x \<Longrightarrow> tally_ok (wo_tally x)"
proof -
  show "over_ok no_over" "over_ok x \<Longrightarrow> tally_ok (wk_tally w) \<Longrightarrow> over_ok (over_take w x)" "over_ok x \<Longrightarrow> tally_ok (wo_tally x)"
    by (auto simp: over_ok_def no_over_def no_tally_def tally_ok_def over_take_def tally_absorb_def sat_add64_zero)
  show "over_ok (over_absorb y x)" if "over_ok x" "over_ok y"
  proof -
    have "wt_shares (tally_absorb (wo_tally x) (wo_tally y)) = 0" if "wo_names (over_absorb y x) = 0"
      using that \<open>over_ok x\<close> \<open>over_ok y\<close> by (simp add: over_ok_def over_absorb_def sat_add64_zero tally_absorb_def)
    then show ?thesis using that by (simp add: over_ok_def)
  qed
qed

lemma least_seen_mem: "least_seen xs = Some y \<Longrightarrow> y \<in> set xs"
  by (induction xs arbitrary: y) (auto split: option.splits if_splits)

lemma least_seen_None [simp]: "least_seen xs = None \<longleftrightarrow> xs = []"
  by (cases xs) (auto split: option.splits)

lemma set_delete_names: "set (AList.delete k al) \<subseteq> set al"
  by (auto simp: AList.delete_eq)

lemma distinct_delete [simp]: "distinct (map fst al) \<Longrightarrow> distinct (map fst (AList.delete k al))"
  by (rule AList.distinct_delete)

lemma book_okD:
  assumes "wbook_ok e b" "map_of (wb_ids b) i = Some n"
  shows "named_ok n" "nm_workers n = [] \<Longrightarrow> e = Some i"
  using assms map_of_SomeD [OF assms(2)] by (auto simp: wbook_ok_def)

lemma drop_empty_ok:
  assumes b: "wbook_ok (Some i) b"
  shows "wbook_ok None (drop_empty i b)" "wb_names (drop_empty i b) = wb_names b" "wb_seen (drop_empty i b) = wb_seen b"
    "amount_at held k (wb_ids (drop_empty i b)) = amount_at held k (wb_ids b)"
    "nm_workers (named_of k (drop_empty i b)) = nm_workers (named_of k b)"
proof -
  show "wb_names (drop_empty i b) = wb_names b" "wb_seen (drop_empty i b) = wb_seen b"
    by (simp_all add: drop_empty_def split: option.split)
  have del: "map_of (AList.delete i (wb_ids b)) k = (if k = i then None else map_of (wb_ids b) k)"
    by (simp add: AList.delete_conv')
  show "amount_at held k (wb_ids (drop_empty i b)) = amount_at held k (wb_ids b)"
      "nm_workers (named_of k (drop_empty i b)) = nm_workers (named_of k b)"
    by (auto simp: drop_empty_def amount_at_def named_of_def no_names_def del split: option.split)
  have am: "amounts held (AList.delete i (wb_ids b)) + amount_at held i (wb_ids b) = amounts held (wb_ids b)"
    using b by (intro amounts_delete) (simp add: wbook_ok_def)
  show "wbook_ok None (drop_empty i b)"
  proof (cases "map_of (wb_ids b) i")
    case None
    then have "(i, n) \<notin> set (wb_ids b)" for n by (force simp: map_of_eq_None_iff)
    then show ?thesis using b None by (auto simp: wbook_ok_def drop_empty_def)
  next
    case (Some n)
    have uniq: "n' = n" if "(i, n') \<in> set (wb_ids b)" for n' using b that Some by (auto simp: wbook_ok_def)
    show ?thesis
    proof (cases "nm_workers n = []")
      case True
      have "(j, m) \<in> set (AList.delete i (wb_ids b)) \<Longrightarrow> j \<noteq> i" for j m by (auto simp: AList.delete_eq)
      with b set_delete_names [of i "wb_ids b"]
      have el: "\<forall>j m. (j, m) \<in> set (AList.delete i (wb_ids b)) \<longrightarrow> named_ok m \<and> nm_workers m \<noteq> []"
        unfolding wbook_ok_def by blast
      have d: "drop_empty i b = b\<lparr>wb_ids := AList.delete i (wb_ids b), wb_rest := over_absorb (nm_over n) (wb_rest b)\<rparr>"
        using True Some by (simp add: drop_empty_def)
      have "amounts held (AList.delete i (wb_ids b)) = amounts held (wb_ids b)" using am True Some by (simp add: amount_at_def)
      then show ?thesis using b el book_okD(1) [OF b Some] unfolding d by (simp add: wbook_ok_def named_ok_def)
    next
      case False
      have "drop_empty i b = b" using False Some by (simp add: drop_empty_def)
      moreover have "\<forall>j m. (j, m) \<in> set (wb_ids b) \<longrightarrow> named_ok m \<and> nm_workers m \<noteq> []"
        using b uniq False unfolding wbook_ok_def by blast
      ultimately show ?thesis using b by (simp add: wbook_ok_def)
    qed
  qed
qed

text \<open>The book after the least recently seen name went, before its identity is let go.\<close>

definition without :: "string \<Rightarrow> string \<Rightarrow> named \<Rightarrow> worker \<Rightarrow> worker_book \<Rightarrow> worker_book" where
  "without i nm n w b = b\<lparr>wb_ids := AList.update i \<lparr>nm_workers = AList.delete nm (nm_workers n), nm_over = over_take w (nm_over n)\<rparr> (wb_ids b),
     wb_names := wb_names b - 1\<rparr>"

lemma evict_result:
  assumes b: "wbook_ok None b" and ne: "seen_names within (wb_ids b) \<noteq> []"
  obtains i n nm w where "map_of (wb_ids b) i = Some n" "map_of (nm_workers n) nm = Some w" "within = None \<or> within = Some i"
    "evict within b = Some (drop_empty i (without i nm n w b))" "1 \<le> wb_names b"
proof -
  obtain k i nm where l: "least_seen (seen_names within (wb_ids b)) = Some (k, i, nm)" using ne by (metis least_seen_None not_None_eq prod_cases3)
  from least_seen_mem [OF l] obtain n w where m: "(i, n) \<in> set (wb_ids b)" "(nm, w) \<in> set (nm_workers n)" "within = None \<or> within = Some i"
    by (auto simp: seen_names_def)
  have n: "map_of (wb_ids b) i = Some n" "map_of (nm_workers n) nm = Some w"
    using b m by (auto simp: wbook_ok_def named_ok_def)
  have "held n \<le> amounts held (wb_ids b)" using amount_at_le [of held i "wb_ids b"] n(1) by (simp add: amount_at_def)
  then have "1 \<le> wb_names b" using b m(2) by (cases "nm_workers n") (auto simp: wbook_ok_def)
  then show thesis using n m(3) l by (intro that [of i n nm w]) (simp_all add: evict_def without_def)
qed

lemma without_ok:
  assumes b: "wbook_ok None b" and n: "map_of (wb_ids b) i = Some n" "map_of (nm_workers n) nm = Some w"
  shows "wbook_ok (Some i) (without i nm n w b)" "amount_at held i (wb_ids (without i nm n w b)) + 1 = held n"
    "amount_at held k (wb_ids (without i nm n w b)) \<le> amount_at held k (wb_ids b)"
    "fst ` set (nm_workers (named_of k (without i nm n w b))) \<subseteq> fst ` set (nm_workers (named_of k b))"
proof -
  have nok: "named_ok n" using book_okD [OF b n(1)] by simp
  have len: "length (AList.delete nm (nm_workers n)) + 1 = held n"
    using length_delete_key [OF _ n(2)] nok by (simp add: named_ok_def)
  show "amount_at held i (wb_ids (without i nm n w b)) + 1 = held n"
      "amount_at held k (wb_ids (without i nm n w b)) \<le> amount_at held k (wb_ids b)"
    using len n(1) by (auto simp: without_def amount_at_def AList.update_conv')
  show "fst ` set (nm_workers (named_of k (without i nm n w b))) \<subseteq> fst ` set (nm_workers (named_of k b))"
    using n(1) set_delete_names [of nm "nm_workers n"] by (auto simp: without_def named_of_def AList.update_conv')
  have n1: "named_ok \<lparr>nm_workers = AList.delete nm (nm_workers n), nm_over = over_take w (nm_over n)\<rparr>"
    using nok len set_delete_names [of nm "nm_workers n"] map_of_SomeD [OF n(2)] by (auto simp: named_ok_def)
  have "amounts held (wb_ids (without i nm n w b)) + held n = amounts held (wb_ids b) + (held n - 1)"
    using amounts_update [of held i "\<lparr>nm_workers = AList.delete nm (nm_workers n), nm_over = over_take w (nm_over n)\<rparr>" "wb_ids b"] len n(1)
    by (simp add: without_def amount_at_def)
  moreover have "held n > 0" using len by linarith
  ultimately have "amounts held (wb_ids (without i nm n w b)) = wb_names b - 1" using b by (simp add: wbook_ok_def)
  then show "wbook_ok (Some i) (without i nm n w b)"
    using b n1 set_alist_update [of i "\<lparr>nm_workers = AList.delete nm (nm_workers n), nm_over = over_take w (nm_over n)\<rparr>" "wb_ids b"]
    by (auto simp: wbook_ok_def without_def AList.distinct_update)
qed

lemma seen_names_ne: "(i, n) \<in> set ids \<Longrightarrow> nm_workers n \<noteq> [] \<Longrightarrow> within = None \<or> within = Some i \<Longrightarrow> seen_names within ids \<noteq> []"
  by (force simp: seen_names_def)

definition shrinks :: "worker_book \<Rightarrow> worker_book \<Rightarrow> bool" where
  "shrinks b' b \<longleftrightarrow> wb_seen b' = wb_seen b \<and> (\<forall>k. amount_at held k (wb_ids b') \<le> amount_at held k (wb_ids b)
     \<and> fst ` set (nm_workers (named_of k b')) \<subseteq> fst ` set (nm_workers (named_of k b)))"

lemma evict_ok:
  assumes b: "wbook_ok None b" and ne: "seen_names within (wb_ids b) \<noteq> []"
  obtains b' where "evict within b = Some b'" "wbook_ok None b'" "wb_names b' + 1 = wb_names b" "shrinks b' b"
    "\<And>i. within = Some i \<Longrightarrow> amount_at held i (wb_ids b') + 1 = amount_at held i (wb_ids b)"
proof -
  obtain i n nm w where r: "map_of (wb_ids b) i = Some n" "map_of (nm_workers n) nm = Some w" "within = None \<or> within = Some i"
    "evict within b = Some (drop_empty i (without i nm n w b))" "1 \<le> wb_names b"
    using evict_result [OF b ne] by metis
  note W = without_ok [OF b r(1,2)]
  note D = drop_empty_ok [OF W(1)]
  have "wb_names (without i nm n w b) = wb_names b - 1" "wb_seen (without i nm n w b) = wb_seen b" by (simp_all add: without_def)
  with r D W show thesis by (intro that [OF r(4)]) (auto simp: shrinks_def amount_at_def)
qed

lemma make_room_ok:
  assumes b: "wbook_ok None b"
  obtains b' where "make_room i b = Some b'" "wbook_ok None b'" "wb_names b' < MAX_PER_SESSION" "shrinks b' b"
    "amount_at held i (wb_ids b') < MAX_PER_IDENTITY"
proof -
  have le: "amount_at held i (wb_ids b) \<le> MAX_PER_IDENTITY" "wb_names b \<le> MAX_PER_SESSION"
    using b book_okD(1) [OF b, of i] by (auto simp: wbook_ok_def amount_at_def named_ok_def split: option.split)
  consider (id) n where "map_of (wb_ids b) i = Some n" "held n \<ge> MAX_PER_IDENTITY"
    | (full) "amount_at held i (wb_ids b) < MAX_PER_IDENTITY" "wb_names b \<ge> MAX_PER_SESSION"
    | (room) "amount_at held i (wb_ids b) < MAX_PER_IDENTITY" "wb_names b < MAX_PER_SESSION"
    by (cases "map_of (wb_ids b) i") (force simp: amount_at_def MAX_PER_IDENTITY_def not_le)+
  then show thesis
  proof cases
    case id
    have "nm_workers n \<noteq> []" using id(2) by (auto simp: MAX_PER_IDENTITY_def)
    then have "seen_names (Some i) (wb_ids b) \<noteq> []" using id(1) by (intro seen_names_ne [of i n]) (auto dest: map_of_SomeD)
    from evict_ok [OF b this] obtain b' where "evict (Some i) b = Some b'" "wbook_ok None b'" "wb_names b' + 1 = wb_names b" "shrinks b' b"
        "amount_at held i (wb_ids b') + 1 = amount_at held i (wb_ids b)" by metis
    then show thesis using id le by (intro that [of b']) (auto simp: make_room_def)
  next
    case full
    then have "amounts held (wb_ids b) \<noteq> 0" using b unfolding wbook_ok_def MAX_PER_SESSION_def by linarith
    then obtain k n where "(k, n) \<in> set (wb_ids b)" "nm_workers n \<noteq> []" using amounts_pos [of held "wb_ids b"] by auto
    then have "seen_names None (wb_ids b) \<noteq> []" by (rule seen_names_ne) simp
    from evict_ok [OF b this] obtain b' where e: "evict None b = Some b'" "wbook_ok None b'" "wb_names b' + 1 = wb_names b" "shrinks b' b" by metis
    then have "amount_at held i (wb_ids b') < MAX_PER_IDENTITY" using full(1) by (auto simp: shrinks_def intro: le_less_trans)
    moreover have "make_room i b = Some b'" using e(1) full by (auto simp: make_room_def amount_at_def not_le split: option.split)
    ultimately show thesis using e le by (intro that [of b']) auto
  next
    case room
    then show thesis using b by (intro that [of b]) (auto simp: make_room_def shrinks_def amount_at_def not_le split: option.split)
  qed
qed

lemma put_worker_ok:
  assumes b: "wbook_ok None b" and w: "tally_ok (wk_tally w)"
    and new: "nm \<in> fst ` set (nm_workers (named_of i b)) \<or> amount_at held i (wb_ids b) < MAX_PER_IDENTITY \<and> wb_names b < MAX_PER_SESSION"
  shows "wbook_ok None ((put_worker i nm w b)\<lparr>wb_names := wb_names b + (if nm \<in> fst ` set (nm_workers (named_of i b)) then 0 else 1)\<rparr>)"
proof -
  let ?n = "named_of i b" and ?new = "if nm \<in> fst ` set (nm_workers (named_of i b)) then 0 else 1 :: nat"
  let ?n1 = "?n\<lparr>nm_workers := AList.update nm w (nm_workers ?n)\<rparr>"
  have nok: "named_ok ?n" and am: "amount_at held i (wb_ids b) = held ?n"
    using book_okD(1) [OF b, of i]
    by (auto simp: named_of_def amount_at_def no_names_def named_ok_def MAX_PER_IDENTITY_def split: option.split)
  have len: "held ?n1 = held ?n + ?new" using length_update_key [of nm w "nm_workers ?n"] by simp
  have "held ?n1 \<le> MAX_PER_IDENTITY" using len new nok am by (auto simp: named_ok_def split: if_splits)
  then have n1: "named_ok ?n1" "nm_workers ?n1 \<noteq> []"
    using nok w set_alist_update [of nm w "nm_workers ?n"] len by (auto simp: named_ok_def AList.distinct_update)
  have "amounts held (AList.update i ?n1 (wb_ids b)) = wb_names b + ?new"
    using amounts_update [of held i ?n1 "wb_ids b"] am len b by (simp add: wbook_ok_def)
  moreover have "wb_names b + ?new \<le> MAX_PER_SESSION" using b new by (auto simp: wbook_ok_def)
  ultimately show ?thesis
    using b n1 set_alist_update [of i ?n1 "wb_ids b"]
    by (auto simp: wbook_ok_def put_worker_def Let_def AList.distinct_update)
qed

lemma put_worker_simps [simp]:
  "wb_seen (put_worker i nm w b) = wb_seen b" "wb_names (put_worker i nm w b) = wb_names b"
  "named_of i (b\<lparr>wb_seen := s\<rparr>) = named_of i b"
  by (simp_all add: put_worker_def named_of_def Let_def)

lemma put_worker_names: "(put_worker i nm w b)\<lparr>wb_names := wb_names b\<rparr> = put_worker i nm w b"
  by (simp add: put_worker_def Let_def)

text \<open>A share goes to a name the book has, or to a new one after room was made for it.\<close>

lemma note_worker_cases:
  assumes b: "wbook_ok None b" and s: "wb_seen b < u64_max"
  obtains (known) x where "map_of (nm_workers (named_of i b)) (worker_of A u) = Some x"
      "note_worker A i u w ts b = Some (put_worker i (worker_of A u) \<lparr>wk_tally = tally_add w ts (wk_tally x), wk_seen = wb_seen b + 1\<rparr>
         (b\<lparr>wb_seen := wb_seen b + 1\<rparr>))"
    | (fresh) b2 where "make_room i (b\<lparr>wb_seen := wb_seen b + 1\<rparr>) = Some b2" "wbook_ok None b2" "wb_names b2 < MAX_PER_SESSION"
      "amount_at held i (wb_ids b2) < MAX_PER_IDENTITY" "wb_seen b2 = wb_seen b + 1"
      "worker_of A u \<notin> fst ` set (nm_workers (named_of i b2))"
      "note_worker A i u w ts b = Some ((put_worker i (worker_of A u) \<lparr>wk_tally = tally_add w ts no_tally, wk_seen = wb_seen b + 1\<rparr> b2)
         \<lparr>wb_names := wb_names b2 + 1\<rparr>)"
proof -
  let ?b1 = "b\<lparr>wb_seen := wb_seen b + 1\<rparr>" and ?nm = "worker_of A u"
  have b1: "wbook_ok None ?b1" using b by (simp add: wbook_ok_def)
  show thesis
  proof (cases "map_of (nm_workers (named_of i b)) ?nm")
    case (Some x)
    then show thesis using s by (intro known) (simp_all add: note_worker_def Let_def)
  next
    case None
    obtain b2 where r: "make_room i ?b1 = Some b2" "wbook_ok None b2" "wb_names b2 < MAX_PER_SESSION" "shrinks b2 ?b1"
        "amount_at held i (wb_ids b2) < MAX_PER_IDENTITY"
      by (rule make_room_ok [OF b1, of i])
    have "?nm \<notin> fst ` set (nm_workers (named_of i b))" using None by (simp add: map_of_eq_None_iff)
    then have nm: "?nm \<notin> fst ` set (nm_workers (named_of i b2))" using r(4) unfolding shrinks_def put_worker_simps(3) by blast
    have sn: "wb_seen b2 = wb_seen b + 1" using r(4) by (simp add: shrinks_def)
    have "wb_names b2 + 1 \<le> u64_max" using r(3) by (simp add: MAX_PER_SESSION_def)
    then have "note_worker A i u w ts b = Some ((put_worker i ?nm \<lparr>wk_tally = tally_add w ts no_tally, wk_seen = wb_seen b + 1\<rparr> b2)
        \<lparr>wb_names := wb_names b2 + 1\<rparr>)"
      using r(1) s by (simp add: note_worker_def None)
    then show thesis by (rule fresh [OF r(1-3,5) sn nm])
  qed
qed

lemma note_worker_ok:
  assumes b: "wbook_ok None b" and s: "wb_seen b < u64_max"
  obtains b' where "note_worker A i u w ts b = Some b'" "wbook_ok None b'" "wb_seen b' = wb_seen b + 1"
  using b s
proof (cases rule: note_worker_cases [of b i A u w ts])
  case (known x)
  let ?b1 = "b\<lparr>wb_seen := wb_seen b + 1\<rparr>"
  let ?w = "\<lparr>wk_tally = tally_add w ts (wk_tally x), wk_seen = wb_seen b + 1\<rparr>"
  have b1: "wbook_ok None ?b1" using b by (simp add: wbook_ok_def)
  have mem: "worker_of A u \<in> fst ` set (nm_workers (named_of i ?b1))"
    using map_of_SomeD [OF known(1)] by force
  have "wbook_ok None (put_worker i (worker_of A u) ?w ?b1)"
    using put_worker_ok [OF b1, of ?w "worker_of A u" i] mem
    by (simp only: if_True add_0_right put_worker_names worker.select_convs tally_ok_simps simp_thms)
  then show thesis by (rule that [OF known(2)]) simp
next
  case (fresh b2)
  have "wbook_ok None ((put_worker i (worker_of A u) \<lparr>wk_tally = tally_add w ts no_tally, wk_seen = wb_seen b + 1\<rparr> b2)\<lparr>wb_names := wb_names b2 + 1\<rparr>)"
    using put_worker_ok [OF fresh(2), of "\<lparr>wk_tally = tally_add w ts no_tally, wk_seen = wb_seen b + 1\<rparr>" "worker_of A u" i] fresh(3,4,6) by simp
  then show thesis by (rule that [OF fresh(7)]) (simp add: fresh(5))
qed

section \<open>The book adds up\<close>

text \<open>A figure of a tally: what a share of some work adds to it, and that absorbing a tally adds it.\<close>

locale tally_figure =
  fixes g :: "wtally \<Rightarrow> nat" and c :: "u64 \<Rightarrow> nat"
  assumes g_none: "g no_tally = 0"
    and g_add: "g t + c w \<le> u64_max \<Longrightarrow> g (tally_add w ts t) = g t + c w"
    and g_absorb: "tally_ok t' \<Longrightarrow> g t + g t' \<le> u64_max \<Longrightarrow> g (tally_absorb t t') = g t + g t'"
begin

definition of_named :: "named \<Rightarrow> nat" where
  "of_named n = amounts (\<lambda>w. g (wk_tally w)) (nm_workers n) + g (wo_tally (nm_over n))"

definition of_book :: "worker_book \<Rightarrow> nat" where
  "of_book b = amounts of_named (wb_ids b) + g (wo_tally (wb_rest b))"

lemma drop_empty_keeps:
  assumes b: "wbook_ok (Some i) b" and le: "of_book b \<le> u64_max"
  shows "of_book (drop_empty i b) = of_book b"
proof (cases "map_of (wb_ids b) i")
  case None
  then show ?thesis by (simp add: drop_empty_def)
next
  case (Some n)
  have del: "amounts of_named (AList.delete i (wb_ids b)) + of_named n = amounts of_named (wb_ids b)"
    using amounts_delete [of "wb_ids b" of_named i] b Some by (simp add: wbook_ok_def amount_at_def)
  have "tally_ok (wo_tally (nm_over n))" using book_okD(1) [OF b Some] by (simp add: named_ok_def)
  moreover have "g (wo_tally (nm_over n)) \<le> of_named n" by (simp add: of_named_def)
  ultimately show ?thesis
    using le del g_absorb [of "wo_tally (nm_over n)" "wo_tally (wb_rest b)"]
    by (auto simp: drop_empty_def Some of_book_def) (simp add: of_named_def)
qed

lemma without_keeps:
  assumes b: "wbook_ok None b" and n: "map_of (wb_ids b) i = Some n" "map_of (nm_workers n) nm = Some w" and le: "of_book b \<le> u64_max"
  shows "of_book (without i nm n w b) = of_book b"
proof -
  let ?n1 = "\<lparr>nm_workers = AList.delete nm (nm_workers n), nm_over = over_take w (nm_over n)\<rparr>"
  have nok: "named_ok n" using book_okD(1) [OF b n(1)] .
  have w: "tally_ok (wk_tally w)" using nok map_of_SomeD [OF n(2)] by (auto simp: named_ok_def)
  have del: "amounts (\<lambda>w. g (wk_tally w)) (AList.delete nm (nm_workers n)) + g (wk_tally w) = amounts (\<lambda>w. g (wk_tally w)) (nm_workers n)"
    using amounts_delete [of "nm_workers n" "\<lambda>w. g (wk_tally w)" nm] nok n(2) by (simp add: named_ok_def amount_at_def)
  have "of_named n \<le> of_book b" using amount_at_le [of of_named i "wb_ids b"] n(1) by (simp add: amount_at_def of_book_def)
  then have "of_named ?n1 = of_named n"
    using g_absorb [OF w, of "wo_tally (nm_over n)"] del le by (simp add: of_named_def)
  then show ?thesis
    using amounts_update [of of_named i ?n1 "wb_ids b"] n(1) by (simp add: without_def of_book_def amount_at_def)
qed

lemma evict_keeps:
  assumes b: "wbook_ok None b" and le: "of_book b \<le> u64_max" and e: "evict within b = Some b'"
  shows "of_book b' = of_book b"
proof (cases "seen_names within (wb_ids b) = []")
  case True
  then show ?thesis using e by (simp add: evict_def)
next
  case False
  from evict_result [OF b this] obtain i n nm w where r: "map_of (wb_ids b) i = Some n" "map_of (nm_workers n) nm = Some w"
    "evict within b = Some (drop_empty i (without i nm n w b))" by metis
  have "of_book (without i nm n w b) = of_book b" by (rule without_keeps [OF b r(1,2) le])
  then show ?thesis using drop_empty_keeps [OF without_ok(1) [OF b r(1,2)]] le e r(3) by simp
qed

lemma make_room_keeps:
  "wbook_ok None b \<Longrightarrow> of_book b \<le> u64_max \<Longrightarrow> make_room i b = Some b' \<Longrightarrow> of_book b' = of_book b"
  by (auto simp: make_room_def evict_keeps split: if_splits)

lemma put_worker_adds:
  "of_book (put_worker i nm w b) + amount_at (\<lambda>w. g (wk_tally w)) nm (nm_workers (named_of i b)) = of_book b + g (wk_tally w)"
proof -
  let ?n = "named_of i b"
  let ?n1 = "?n\<lparr>nm_workers := AList.update nm w (nm_workers ?n)\<rparr>"
  have "amount_at of_named i (wb_ids b) = of_named ?n"
    by (auto simp: amount_at_def named_of_def of_named_def no_names_def g_none split: option.split)
  moreover have "of_named ?n1 + amount_at (\<lambda>w. g (wk_tally w)) nm (nm_workers ?n) = of_named ?n + g (wk_tally w)"
    using amounts_update [of "\<lambda>w. g (wk_tally w)" nm w "nm_workers ?n"] by (simp add: of_named_def)
  ultimately show ?thesis
    using amounts_update [of of_named i ?n1 "wb_ids b"] by (simp add: put_worker_def Let_def of_book_def)
qed

lemma note_worker_adds:
  assumes b: "wbook_ok None b" and s: "wb_seen b < u64_max" and le: "of_book b + c w \<le> u64_max"
    and n: "note_worker A i u w ts b = Some b'"
  shows "of_book b' = of_book b + c w"
  using b s
proof (cases rule: note_worker_cases [of b i A u w ts])
  case (known x)
  let ?b1 = "b\<lparr>wb_seen := wb_seen b + 1\<rparr>"
  let ?am = "amount_at (\<lambda>w. g (wk_tally w)) (worker_of A u) (nm_workers (named_of i ?b1))"
  have same: "of_book ?b1 = of_book b" by (simp add: of_book_def)
  have am: "?am = g (wk_tally x)" using known(1) by (simp add: amount_at_def)
  have "?am \<le> amounts (\<lambda>w. g (wk_tally w)) (nm_workers (named_of i b))" unfolding put_worker_simps(3) by (rule amount_at_le)
  also have "\<dots> \<le> of_named (named_of i b)" by (simp add: of_named_def)
  also have "\<dots> \<le> of_book b"
  proof (cases "map_of (wb_ids b) i")
    case None
    then show ?thesis by (simp add: named_of_def of_named_def no_names_def g_none)
  next
    case (Some n)
    then show ?thesis using amount_at_le [of of_named i "wb_ids b"] by (simp add: named_of_def amount_at_def of_book_def)
  qed
  finally have "g (tally_add w ts (wk_tally x)) = g (wk_tally x) + c w" using le am by (intro g_add) simp
  then show ?thesis
    using n known(2) am same put_worker_adds [of i "worker_of A u" "\<lparr>wk_tally = tally_add w ts (wk_tally x), wk_seen = wb_seen b + 1\<rparr>" ?b1] by simp
next
  case (fresh b2)
  have "of_book b2 = of_book (b\<lparr>wb_seen := wb_seen b + 1\<rparr>)"
    by (rule make_room_keeps [OF _ _ fresh(1)]) (use b le in \<open>simp_all add: wbook_ok_def of_book_def\<close>)
  also have "\<dots> = of_book b" by (simp add: of_book_def)
  finally have b2: "of_book b2 = of_book b" .
  have "g (tally_add w ts no_tally) = c w" using g_add [of no_tally w ts] g_none le by simp
  moreover have "amount_at (\<lambda>w. g (wk_tally w)) (worker_of A u) (nm_workers (named_of i b2)) = 0" by (rule amount_at_absent [OF fresh(6)])
  ultimately show ?thesis
    using n fresh(7) b2 put_worker_adds [of i "worker_of A u" "\<lparr>wk_tally = tally_add w ts no_tally, wk_seen = wb_seen b + 1\<rparr>" b2]
    by (auto simp: of_book_def)
qed

end

interpretation work_done: tally_figure wt_work "\<lambda>w. w"
  by unfold_locales (auto simp: no_tally_def tally_add_def tally_absorb_def tally_ok_def Let_def)

interpretation shares_done: tally_figure wt_shares "\<lambda>_. 1"
  by unfold_locales (auto simp: no_tally_def tally_add_def tally_absorb_def tally_ok_def Let_def)

lemma worker_of_clean: "length (worker_of A u) \<le> MAX_NAME_LEN \<and> list_all is_ascii_graphic (worker_of A u)"
  by (auto simp: worker_of_def Let_def list_all_iff is_ascii_graphic_def MAX_NAME_LEN_def)

fun note_all :: "codecs \<Rightarrow> (string \<times> string \<times> u64 \<times> u64) list \<Rightarrow> worker_book \<Rightarrow> worker_book option" where
  "note_all A [] b = Some b"
| "note_all A ((i, u, w, ts) # xs) b = do { b' \<leftarrow> note_worker A i u w ts b; note_all A xs b' }"

text \<open>What the rows of the stats document show in all: every name held, and everything evicted.\<close>

abbreviation shown :: "(stats_row \<Rightarrow> u64) \<Rightarrow> u64 \<Rightarrow> worker_book \<Rightarrow> nat" where
  "shown f ts b \<equiv> sum_list (map f (rows ts b)) + sum_list (map f (overflow_rows ts b))"

lemma sum_list_sort_key: "sum_list (map f (sort_key k xs)) = sum_list (map (f :: _ \<Rightarrow> nat) xs)"
proof -
  have "sum_list (map f xs) = sum_mset (image_mset f (mset xs))" for xs by (simp add: sum_mset_sum_list flip: mset_map)
  then show ?thesis by (simp only: mset_sort)
qed

lemma note_all_adds:
  assumes "wbook_ok None b" "wb_seen b + length xs \<le> u64_max"
    "work_done.of_book b + sum_list (map (\<lambda>x. fst (snd (snd x))) xs) \<le> u64_max" "shares_done.of_book b + length xs \<le> u64_max"
  shows "\<exists>b'. note_all A xs b = Some b' \<and> wbook_ok None b'
    \<and> work_done.of_book b' = work_done.of_book b + sum_list (map (\<lambda>x. fst (snd (snd x))) xs)
    \<and> shares_done.of_book b' = shares_done.of_book b + length xs"
  using assms
proof (induction xs arbitrary: b)
  case (Cons x xs)
  obtain i u w ts where x: "x = (i, u, w, ts)" by (cases x)
  have s: "wb_seen b < u64_max" using Cons.prems(2) by simp
  obtain b1 where b1: "note_worker A i u w ts b = Some b1" "wbook_ok None b1" "wb_seen b1 = wb_seen b + 1"
    by (rule note_worker_ok [OF Cons.prems(1) s])
  have w: "work_done.of_book b1 = work_done.of_book b + w"
    by (rule work_done.note_worker_adds [OF Cons.prems(1) s _ b1(1)]) (use Cons.prems(3) x in simp)
  have n: "shares_done.of_book b1 = shares_done.of_book b + 1"
    by (rule shares_done.note_worker_adds [OF Cons.prems(1) s _ b1(1)]) (use Cons.prems(4) x in simp)
  show ?case using Cons.IH [OF b1(2)] Cons.prems b1 w n by (simp add: x add.assoc)
qed simp

lemma shown_rows:
  assumes b: "wbook_ok None b" and f: "\<And>i nm t k. f (row i nm t k ts) = g t" and g: "tally_figure g c"
    and z: "\<And>t. tally_ok t \<Longrightarrow> wt_shares t = 0 \<Longrightarrow> g t = 0"
  shows "shown f ts b = tally_figure.of_book g b"
proof -
  let ?of = "tally_figure.of_named g"
  have over: "over_ok x \<Longrightarrow> wo_names x = 0 \<Longrightarrow> g (wo_tally x) = 0" for x using z by (simp add: over_ok_def)
  have ids: "\<forall>e \<in> set (wb_ids b). over_ok (nm_over (snd e))" and rest: "over_ok (wb_rest b)"
    using b by (auto simp: wbook_ok_def named_ok_def)
  have inner: "sum_list (map f (map (\<lambda>(nm, w). row i nm (wk_tally w) 0 ts) ws)) = amounts (\<lambda>w. g (wk_tally w)) ws" for i ws
    by (induction ws) (auto simp: f)
  have "sum_list (map f (concat (map (\<lambda>(i, n). map (\<lambda>(nm, w). row i nm (wk_tally w) 0 ts) (nm_workers n)) ids)))
      + sum_list (map f (map (\<lambda>(i, n). row i [] (wo_tally (nm_over n)) (wo_names (nm_over n)) ts) (filter (\<lambda>(i, n). wo_names (nm_over n) > 0) ids)))
      = amounts ?of ids" if "\<forall>e \<in> set ids. over_ok (nm_over (snd e))" for ids
    using that
  proof (induction ids)
    case (Cons e ids)
    then show ?case using inner [of "fst e" "nm_workers (snd e)"] over [of "nm_over (snd e)"]
      by (cases e) (auto simp: tally_figure.of_named_def [OF g] f)
  qed simp
  from this [OF ids] show ?thesis
    using over [OF rest] by (auto simp: rows_def overflow_rows_def sum_list_sort_key tally_figure.of_book_def [OF g] f)
qed

text \<open>
  The worker book adds up. After any shares noted on a session, with names that anyone may choose, it does not panic, the rows
  of the stats document account for exactly the shares noted and exactly their work, evicted names included, at most 1024
  names are held and at most 256 of an identity, and every identity held has a name.
\<close>

theorem worker_book_adds_up:
  assumes "length xs \<le> u64_max" "sum_list (map (\<lambda>x. fst (snd (snd x))) xs) \<le> u64_max"
  shows "\<exists>b. note_all A xs empty_book = Some b
    \<and> shown wr_work ts b = sum_list (map (\<lambda>x. fst (snd (snd x))) xs) \<and> shown wr_shares ts b = length xs
    \<and> length (rows ts b) = wb_names b \<and> wb_names b \<le> 1024
    \<and> (\<forall>(i, n) \<in> set (wb_ids b). 0 < length (nm_workers n) \<and> length (nm_workers n) \<le> 256)"
proof -
  have e: "wbook_ok None empty_book" "wb_seen empty_book = 0" "work_done.of_book empty_book = 0" "shares_done.of_book empty_book = 0"
    by (simp_all add: empty_book_def wbook_ok_def MAX_PER_SESSION_def work_done.of_book_def shares_done.of_book_def no_over_def [symmetric])
      (simp_all add: no_tally_def)
  obtain b where b: "note_all A xs empty_book = Some b" "wbook_ok None b"
      "work_done.of_book b = sum_list (map (\<lambda>x. fst (snd (snd x))) xs)" "shares_done.of_book b = length xs"
    using note_all_adds [OF e(1), of xs A] assms e by auto
  have "shown wr_work ts b = work_done.of_book b" "shown wr_shares ts b = shares_done.of_book b"
    by (rule shown_rows [OF b(2)]; (rule work_done.tally_figure_axioms shares_done.tally_figure_axioms)?; simp add: row_def Let_def tally_ok_def)+
  moreover have "length (rows ts b) = wb_names b"
    using b(2) by (simp add: rows_def length_concat comp_def case_prod_beta wbook_ok_def)
  ultimately show ?thesis
    using b by (intro exI [of _ b]) (auto simp: wbook_ok_def named_ok_def MAX_PER_SESSION_def MAX_PER_IDENTITY_def)
qed

section \<open>Recent work survives a merge\<close>

definition recent_ok :: "recent \<Rightarrow> bool" where
  "recent_ok r \<longleftrightarrow> length (rc_work r) = BUCKETS"

lemma fold_sat_sum: "a + sum_list xs \<le> u64_max \<Longrightarrow> fold (\<lambda>w a. sat_add64 a w) xs a = a + sum_list xs"
  by (induction xs arbitrary: a) (simp_all add: add.assoc)

lemma sum_list_drop_le: "sum_list (drop n xs) \<le> sum_list (xs :: nat list)"
  by (metis append_take_drop_id le_add2 sum_list_append)

lemma work_at_sum:
  assumes "recent_ok r" "sum_list (rc_work r) \<le> u64_max"
  shows "work_at ts r = sum_list (drop (ts div BUCKET_SECS - rc_minute r) (rc_work r))"
proof -
  let ?k = "ts div BUCKET_SECS - rc_minute r"
  have "drop (min ?k BUCKETS) (rc_work r) = drop ?k (rc_work r)" using assms(1) by (cases "?k \<le> BUCKETS") (auto simp: recent_ok_def)
  then show ?thesis using fold_sat_sum [of 0 "drop ?k (rc_work r)"] sum_list_drop_le [of ?k "rc_work r"] assms(2) by (simp add: work_at_def Let_def)
qed

lemma advance_recent_ok:
  assumes r: "recent_ok r" and t: "minute \<le> T" "rc_minute r \<le> T"
  shows "recent_ok (advance_recent minute r)" "rc_minute (advance_recent minute r) = max (rc_minute r) minute"
    "sum_list (drop (T - rc_minute (advance_recent minute r)) (rc_work (advance_recent minute r))) = sum_list (drop (T - rc_minute r) (rc_work r))"
proof -
  let ?gap = "minute - rc_minute r"
  show "recent_ok (advance_recent minute r)" using r by (auto simp: recent_ok_def advance_recent_def Let_def BUCKETS_def)
  show m: "rc_minute (advance_recent minute r) = max (rc_minute r) minute" by (auto simp: advance_recent_def Let_def)
  show "sum_list (drop (T - rc_minute (advance_recent minute r)) (rc_work (advance_recent minute r))) = sum_list (drop (T - rc_minute r) (rc_work r))"
  proof (cases "?gap = 0")
    case True
    then show ?thesis by (simp add: advance_recent_def)
  next
    case False
    then have "T - minute + ?gap = T - rc_minute r" using t by simp
    moreover have "sum_list (drop k (replicate n 0)) = (0 :: nat)" for k n by simp
    moreover have "T - rc_minute r \<ge> ?gap" using t by simp
    ultimately show ?thesis using False r by (auto simp: advance_recent_def Let_def recent_ok_def BUCKETS_def sum_list_replicate)
  qed
qed

lemma sum_list_map2_add:
  "length xs = length ys \<Longrightarrow> sum_list (map2 (+) xs ys) = sum_list xs + sum_list (ys :: nat list)"
  by (induction xs ys rule: list_induct2) auto

lemma sum_list_drop_map2:
  "length xs = length ys \<Longrightarrow> sum_list (drop k (map2 (+) xs ys)) = sum_list (drop k xs) + sum_list (drop k (ys :: nat list))"
  by (simp add: drop_map drop_zip sum_list_map2_add)

lemma merged_buckets:
  assumes "length xs = n" "length ys = n" "sum_list xs + sum_list ys \<le> u64_max"
  shows "map (\<lambda>j. if j + d < length ys then sat_add64 (xs ! j) (ys ! (j + d)) else xs ! j) [0..<length xs]
    = map2 (+) xs (drop d ys @ replicate (min d n) 0)"
proof (rule nth_equalityI)
  show "length (map (\<lambda>j. if j + d < length ys then sat_add64 (xs ! j) (ys ! (j + d)) else xs ! j) [0..<length xs])
      = length (map2 (+) xs (drop d ys @ replicate (min d n) 0))" using assms(1,2) by simp
  fix j assume "j < length (map (\<lambda>j. if j + d < length ys then sat_add64 (xs ! j) (ys ! (j + d)) else xs ! j) [0..<length xs])"
  then have j: "j < n" using assms(1) by simp
  have "j - (n - d) < min d n" if "\<not> j + d < n" using j that by linarith
  then have pad: "\<not> j + d < n \<Longrightarrow> replicate (min d n) 0 ! (j - (n - d)) = (0 :: nat)" by simp
  have "xs ! j + ys ! (j + d) \<le> u64_max" if "j + d < n"
    using member_le_sum_list [of "xs ! j" xs] member_le_sum_list [of "ys ! (j + d)" ys] assms that j by (simp add: nth_mem)
  then show "map (\<lambda>j. if j + d < length ys then sat_add64 (xs ! j) (ys ! (j + d)) else xs ! j) [0..<length xs] ! j
      = map2 (+) xs (drop d ys @ replicate (min d n) 0) ! j"
    using j assms(1,2) pad by (cases "j + d < n") (auto simp: nth_append add.commute less_diff_conv not_less)
qed

text \<open>
  The rate of an overflow row is right: merging the minute buckets of an evicted name loses and invents no recent work. At any
  time that neither side is ahead of, the merged record shows exactly the sum of what the two showed.
\<close>

theorem recent_merge_exact:
  assumes "length (rc_work a) = 10" "length (rc_work b) = 10" "sum_list (rc_work a) + sum_list (rc_work b) \<le> u64_max"
    and "rc_minute a \<le> ts div 60" "rc_minute b \<le> ts div 60"
  shows "work_at ts (merge_recent a b) = work_at ts a + work_at ts b"
proof -
  let ?T = "ts div BUCKET_SECS" and ?a = "advance_recent (rc_minute b) a"
  let ?d = "rc_minute ?a - rc_minute b"
  have ok: "recent_ok a" "recent_ok b" and t: "rc_minute a \<le> ?T" "rc_minute b \<le> ?T"
    using assms by (simp_all add: recent_ok_def BUCKETS_def BUCKET_SECS_def)
  note A = advance_recent_ok [OF ok(1) t(2,1)]
  have sa: "sum_list (rc_work ?a) \<le> sum_list (rc_work a)"
    using sum_list_drop_le [of "rc_minute b - rc_minute a" "rc_work a"] by (auto simp: advance_recent_def Let_def sum_list_replicate)
  have m: "rc_work (merge_recent a b) = map2 (+) (rc_work ?a) (drop ?d (rc_work b) @ replicate (min ?d BUCKETS) 0)"
    using A(1) ok(2) sa assms(3) merged_buckets [of "rc_work ?a" BUCKETS "rc_work b" ?d]
    by (simp add: merge_recent_def Let_def recent_ok_def)
  have mm: "rc_minute (merge_recent a b) = rc_minute ?a" by (simp add: merge_recent_def Let_def)
  have len: "length (rc_work ?a) = length (drop ?d (rc_work b) @ replicate (min ?d BUCKETS) 0)"
    using A(1) ok(2) by (auto simp: recent_ok_def)
  have okm: "recent_ok (merge_recent a b)" using A(1) len unfolding recent_ok_def m by simp
  have "sum_list (rc_work (merge_recent a b)) = sum_list (rc_work ?a) + sum_list (drop ?d (rc_work b))"
    unfolding m using sum_list_map2_add [OF len] by (simp add: sum_list_replicate)
  then have sm: "sum_list (rc_work (merge_recent a b)) \<le> u64_max"
    using sa sum_list_drop_le [of ?d "rc_work b"] assms(3) by linarith
  have "?T - rc_minute ?a + ?d = ?T - rc_minute b" using A(2) t by simp
  then have "sum_list (drop (?T - rc_minute ?a) (rc_work (merge_recent a b)))
      = sum_list (drop (?T - rc_minute ?a) (rc_work ?a)) + sum_list (drop (?T - rc_minute b) (rc_work b))"
    unfolding m sum_list_drop_map2 [OF len] by (simp add: sum_list_replicate)
  then show ?thesis
    using work_at_sum [OF okm sm, of ts] work_at_sum [OF ok(1), of ts] work_at_sum [OF ok(2), of ts] assms(3) A(3) by (simp add: mm)
qed

lemma worker_book_adds_up_witness:
  "\<exists>b. note_all \<lparr>ad_segwit = \<lambda>_. None, ad_base58 = \<lambda>_. None\<rparr> [(''a'', ''a.rig'', 7, 60), (''a'', ''a.rig'', 5, 70)] empty_book = Some b
    \<and> shown wr_work 90 b = 12 \<and> shown wr_shares 90 b = 2"
  using worker_book_adds_up [of "[(''a'', ''a.rig'', 7, 60), (''a'', ''a.rig'', 5, 70)]" "\<lparr>ad_segwit = \<lambda>_. None, ad_base58 = \<lambda>_. None\<rparr>" 90]
  by auto

lemma recent_merge_exact_witness:
  "work_at 700 (merge_recent \<lparr>rc_minute = 4, rc_work = replicate 10 3\<rparr> \<lparr>rc_minute = 9, rc_work = replicate 10 5\<rparr>)
    = work_at 700 \<lparr>rc_minute = 4, rc_work = replicate 10 3\<rparr> + work_at 700 \<lparr>rc_minute = 9, rc_work = replicate 10 5\<rparr>"
  by (rule recent_merge_exact) (simp_all add: sum_list_replicate)

end
