(* ===== verification/Primed_Share.thy ===== *)
theory Primed_Share
  imports Primed_Coinbaser Primed_Node Primed_Workers
begin

text \<open>
  A share from its message to its receipt, \<^verbatim>\<open>prime/primed/src/session.rs\<close>, \<^verbatim>\<open>on_pow\<close> and what it calls: the sections it
  brings, the chain its job is held to, verification, the set of shares seen, a faulted gateway, the credit, the vote for the
  payout, the class budget, a found block, the template check. Then the gateway's transactions (\<^verbatim>\<open>on_validation\<close>), what the
  node says of a submitted block or a checked template, and the session's timer. The stages of \<^verbatim>\<open>on_pow\<close> are one definition
  each, in the order of the source. The node's replies to the calls of one share are \<open>node_replies\<close>. Writing to the
  connection does not fail here.
\<close>

section \<open>Receipts\<close>

definition share_identity :: "session_env \<Rightarrow> pow_submit \<Rightarrow> string" where
  "share_identity E p = canonical_identity (ev_codecs (en_pool E)) (identity_of (text_of (ps_username p)))"

definition identity_fine :: "string \<Rightarrow> bool" where
  "identity_fine ident \<longleftrightarrow> ident \<noteq> [] \<and> length ident \<le> 128 \<and> list_all is_ascii_graphic ident"

definition send_receipt :: "nat \<Rightarrow> u8 \<Rightarrow> u16 \<Rightarrow> pow_submit \<Rightarrow> session \<Rightarrow> session" where
  "send_receipt t status code p = send_mining t (share_receipt status code (ps_nonce32 p) (ps_target_pot p) (ps_job_id p)) False"

definition refuse :: "nat \<Rightarrow> pow_submit \<Rightarrow> u16 \<Rightarrow> session \<times> pool \<Rightarrow> session \<times> pool" where
  "refuse t p code = (\<lambda>(s, P). (send_receipt t REJECTED code p s, tick_up (\<lambda>T. T\<lparr>tt_rejected := tt_rejected T + 1\<rparr>) P))"

definition reject :: "session_env \<Rightarrow> nat \<Rightarrow> pow_submit \<Rightarrow> u16 \<Rightarrow> session \<times> pool \<Rightarrow> session_error option \<times> session \<times> pool" where
  "reject E t p code x = (case refuse t p code x of (s, P) \<Rightarrow> (case note_reject E t s of (e, s1) \<Rightarrow> (e, s1, P)))"

section \<open>The chain a job is held to\<close>

definition AHEAD_REFRESH_EVERY :: nat where "AHEAD_REFRESH_EVERY = 1000"

record node_replies =
  nr_info :: "node_info option"
  nr_header :: header_reply
  nr_tips :: "(string option \<times> string option) list option"

definition check_code :: "job_check \<Rightarrow> u16 option" where
  "check_code c = (case c of Current \<Rightarrow> None | AheadByOne \<Rightarrow> None | OtherBranch \<Rightarrow> None
     | job_check.Stale \<Rightarrow> Some REJECT_STALE_BLOCK | Ahead \<Rightarrow> Some REJECT_STALE_BLOCK | WrongBits \<Rightarrow> Some REJECT_TARGET_MISMATCH)"

definition check_at :: "session_cfg \<Rightarrow> nat \<Rightarrow> job_section \<Rightarrow> tip_seen \<Rightarrow> job_check option" where
  "check_at cfg t j T = check_job (ts_tip T) (jb_prev_hash j) (jb_height j) (nbits_u32 j) (t - ts_seen_at T) (cf_stale_grace_secs cfg * 1000)"

definition check_chain :: "session_env \<Rightarrow> nat \<Rightarrow> node_replies \<Rightarrow> job_section \<Rightarrow> session \<times> pool \<Rightarrow> (job_check option \<times> session \<times> pool) option" where
  "check_chain E t N j = (\<lambda>(s, P). case pl_tip P of
     None \<Rightarrow> Some (None, s, P)
   | Some T \<Rightarrow> do {
       c \<leftarrow> check_at (en_cfg E) t j T;
       if (c = Ahead \<or> c = AheadByOne) \<and> (case se_tip_asked s of None \<Rightarrow> True | Some a \<Rightarrow> t - a > AHEAD_REFRESH_EVERY)
       then do {
         P1 \<leftarrow> (case nr_info N of None \<Rightarrow> Some P | Some i \<Rightarrow> refresh_locked (cf_network (en_cfg E)) t i P);
         c1 \<leftarrow> (case pl_tip P1 of None \<Rightarrow> Some c | Some T1 \<Rightarrow> check_at (en_cfg E) t j T1);
         Some (Some c1, s\<lparr>se_tip_asked := Some t\<rparr>, P1) }
       else Some (Some c, s, P) })"

definition refuse_dead_parent :: "nat \<Rightarrow> pow_submit \<Rightarrow> session \<times> pool \<Rightarrow> session \<times> pool" where
  "refuse_dead_parent t p = (\<lambda>(s, P).
     let s1 = (if se_suspect s then s else s\<lparr>se_suspect := True, se_template_check_due := t\<rparr>)
     in refuse t p REJECT_STALE_BLOCK (s1, tick_up (\<lambda>T. T\<lparr>tt_dead_parent_shares := tt_dead_parent_shares T + 1\<rparr>) P))"

section \<open>A found block, and a template to check\<close>

definition TEMPLATE_CHECK_EVERY :: nat where "TEMPLATE_CHECK_EVERY = 600 * 1000"
definition TEMPLATE_RECHECK_EVERY :: nat where "TEMPLATE_RECHECK_EVERY = 120 * 1000"
definition TEMPLATE_CHECK_TTL :: nat where "TEMPLATE_CHECK_TTL = 120 * 1000"

definition settles_against :: "issued_coinbaser \<Rightarrow> coinbaser" where
  "settles_against c = \<lparr>cz_value = ic_value c, cz_payees = ic_payees c, cz_unpaid = ic_unpaid c, cz_rebate_credits = ic_rebate_credits c,
     cz_rebate_owed_credited = ic_rebate_owed_credited c, cz_rebate_deferred = ic_rebate_deferred c, cz_class_capped = (ic_class_budget c \<noteq> None)\<rparr>"

definition on_candidate :: "session_env \<Rightarrow> nat \<Rightarrow> u64 \<Rightarrow> pow_submit \<Rightarrow> verified_share \<Rightarrow> string \<Rightarrow> session \<times> pool \<Rightarrow> (session \<times> pool) option" where
  "on_candidate E t now p v finder = (\<lambda>(s, P). let
       hash_hex = hex_of (rev (vs_hash v));
       iss = (case sl_job (se_slots s ! ps_job_id p) of None \<Rightarrow> None
         | Some j \<Rightarrow> issued_for (jb_coinbaser_id j) (jb_prev_hash j) (jb_height j) s);
       c = \<lparr>cd_hash = hash_hex, cd_height = vs_height v, cd_kind = vs_coinbase_kind v, cd_value = vs_coinbase_value v,
         cd_paid_at = (\<lambda>x. paid_to x (vs_coinbase v)), cd_paid_to_pool = vs_paid_to_pool v, cd_finder = finder,
         cd_gateway = take 16 (se_gateway_key s)\<rparr>;
       old = (case map_of (se_pending_blocks s) (ps_job_id p) of None \<Rightarrow> [] | Some bs \<Rightarrow> bs);
       s1 = s\<lparr>se_candidate_at := Some t, se_pending_blocks := AList.update (ps_job_id p)
         (old @ [\<lparr>pb_share = v, pb_submit = p, pb_hash_hex = hash_hex, pb_at = t\<rparr>]) (se_pending_blocks s)\<rparr>
     in do {
       sh \<leftarrow> on_block_candidate (en_pool E) now (map_option settles_against iss) c (pl_shared P);
       Some (send_mining t (request_full_block (ps_job_id p)) False s1,
         (tick_up (\<lambda>T. T\<lparr>tt_block_candidates := tt_block_candidates T + 1\<rparr>) P)
           \<lparr>pl_shared := sh, pl_notified := pl_notified P @ [se_id s mod 4294967296]\<rparr>) })"

definition maybe_check_template ::
  "session_env \<Rightarrow> nat \<Rightarrow> u64 \<Rightarrow> job_check option \<Rightarrow> byte list \<Rightarrow> pow_submit \<Rightarrow> verified_share \<Rightarrow> session \<times> pool \<Rightarrow> session \<times> pool" where
  "maybe_check_template E t now c prev p v = (\<lambda>(s, P).
     if is_house E s \<or> c \<noteq> Some Current \<or> cm_txcount (vs_commitment v) \<le> 1 then (s, P)
     else if t < se_template_check_due s
       \<or> (case se_template_check s of Some (_, k) \<Rightarrow> t - tc_at k < TEMPLATE_CHECK_TTL | None \<Rightarrow> False)
       \<or> map_of (se_pending_blocks s) (ps_job_id p) \<noteq> None
       \<or> Option.bind (pl_tip P) (\<lambda>T. tp_hash_le (ts_tip T)) \<noteq> Some prev then (s, P)
     else case get_fault (se_gateway_key s) now (pl_faults P) of (f, F) \<Rightarrow>
       (send_mining t (request_full_block (ps_job_id p)) False
          (s\<lparr>se_template_check_due := t + (if f \<noteq> None \<or> se_suspect s then TEMPLATE_RECHECK_EVERY else TEMPLATE_CHECK_EVERY),
             se_template_check := Some (ps_job_id p, \<lparr>tc_share = v, tc_submit = p, tc_at = t\<rparr>), se_template_check_asked := Some t\<rparr>),
        P\<lparr>pl_faults := F\<rparr>))"

definition refuse_faulted ::
  "session_env \<Rightarrow> nat \<Rightarrow> u64 \<Rightarrow> pow_submit \<Rightarrow> verified_share \<Rightarrow> job_check option \<Rightarrow> byte list \<Rightarrow> string \<Rightarrow> session \<times> pool \<Rightarrow> (session \<times> pool) option" where
  "refuse_faulted E t now p v c prev ident = (\<lambda>(s, P). let
       x1 = refuse t p REJECT_OTHER (s, tick_up (\<lambda>T. T\<lparr>tt_faulted_shares := tt_faulted_shares T + 1\<rparr>) P);
       x2 = maybe_check_template E t now c prev p v x1
     in if vs_is_block_candidate v \<and> c \<noteq> None then on_candidate E t now p v ident x2 else Some x2)"

section \<open>Credit\<close>

definition MAX_IDENTITIES :: usize where "MAX_IDENTITIES = 2 ^ 16"
definition MAX_IDENTITIES_HARD :: usize where "MAX_IDENTITIES_HARD = 2 ^ 20"

abbreviation is_solo :: "coinbase_kind \<Rightarrow> bool" where
  "is_solo k \<equiv> k = EmptySolo \<or> k = GatewaySolo"

text \<open>Whether the share is taken, and the ledger after.\<close>

definition credit_share :: "session_env \<Rightarrow> u64 \<Rightarrow> string \<Rightarrow> verified_share \<Rightarrow> session \<Rightarrow> ledger \<Rightarrow> (bool \<times> ledger) option" where
  "credit_share E now ident v s l = (let
       n = length (w_idents (l_window l));
       new = (n \<ge> MAX_IDENTITIES \<and> work_of ident (l_window l) = 0);
       refused = (new \<and> vs_work v > 0 \<and> (n \<ge> MAX_IDENTITIES_HARD
         \<or> Primed_Address.to_script (ev_codecs (en_pool E)) ident (ev_network (en_pool E)) = None));
       ts = now mod 4294967296
     in if refused then Some (False, l)
        else if vs_work v > 0
        then case (if is_front E s then (SOURCE_STRATUM, l) else source_for ident ts (is_house E s) (cf_grace (en_cfg E)) l) of
          (source, l1) \<Rightarrow> map_option (Pair True) (ledger_credit ident (vs_work v) (vs_height v) ts source l1)
        else Some (True, l))"

definition note_pool_only_share :: "pow_submit \<Rightarrow> session \<times> pool \<Rightarrow> session \<times> pool" where
  "note_pool_only_share p = (\<lambda>(s, P). let full = (if subsidy_only p then 0 else 1) in
     (s\<lparr>se_pool_only_shares := se_pool_only_shares s + 1, se_pool_only_full_jobs := se_pool_only_full_jobs s + full\<rparr>,
      tick_up (\<lambda>T. T\<lparr>tt_pool_only_shares := tt_pool_only_shares T + 1, tt_pool_only_full_jobs := tt_pool_only_full_jobs T + full\<rparr>) P))"

definition note_partial_share :: "session_env \<Rightarrow> nat \<Rightarrow> pow_submit \<Rightarrow> job_section \<Rightarrow> cb_output list option \<Rightarrow> coinbase_tx \<Rightarrow> session \<Rightarrow> session" where
  "note_partial_share E t p j iss cb s =
     (if se_class_budget s = None then s
      else case iss of None \<Rightarrow> s
      | Some outs \<Rightarrow>
          if contains (solo_tag (en_cfg E)) (cb_script_sig cb) then s
          else case kept_payee_bytes outs (en_pool_script E) cb of None \<Rightarrow> s
          | Some kept \<Rightarrow>
              if \<not> template_left_room kept (jb_txn_total_weight j) then s
              else let s1 = expire_class_budget t s in
                case se_class_budget s1 of None \<Rightarrow> s1
                | Some b \<Rightarrow> s1\<lparr>se_class_budget := Some (snd (observe (ps_coinbase_id p) (jb_coinbaser_id j) kept t b))\<rparr>)"

text \<open>What a split coinbase sent to the gateway's script beyond what was issued to it.\<close>

definition gateway_remainder :: "byte list option \<Rightarrow> cb_output list option \<Rightarrow> verified_share \<Rightarrow> nat option" where
  "gateway_remainder gw iss v = (case gw of
     Some g \<Rightarrow> if vs_coinbase_kind v = Split
       then map_option (\<lambda>n. paid_to g (vs_coinbase v) - n) (case iss of None \<Rightarrow> Some 0
         | Some outs \<Rightarrow> sum_u64 (map op_sats (filter (\<lambda>x. op_script x = g) outs)))
       else Some 0
   | None \<Rightarrow> Some 0)"

definition count_accepted :: "verified_share \<Rightarrow> nat \<Rightarrow> pool \<Rightarrow> pool" where
  "count_accepted v rest = tick_up (\<lambda>T. (case vs_coinbase_kind v of
       EmptySolo \<Rightarrow> T\<lparr>tt_solo_empty_shares := tt_solo_empty_shares T + 1, tt_solo_empty_work := tt_solo_empty_work T + vs_work v\<rparr>
     | GatewaySolo \<Rightarrow> T\<lparr>tt_solo_full_shares := tt_solo_full_shares T + 1, tt_solo_full_work := tt_solo_full_work T + vs_work v\<rparr>
     | _ \<Rightarrow> T\<lparr>tt_work := tt_work T + vs_work v, tt_remainder_to_gateway_sats := tt_remainder_to_gateway_sats T + rest\<rparr>)
     \<lparr>tt_accepted := tt_accepted T + 1\<rparr>)"

section \<open>The stages of a share\<close>

text \<open>Taken: counted, learned from, its template checked, a block booked, and then its receipt.\<close>

definition count_floor :: "session_env \<Rightarrow> verified_share \<Rightarrow> pool \<Rightarrow> pool" where
  "count_floor E v = tick_up (\<lambda>T.
     if \<not> vs_target_committed v then T\<lparr>tt_uncommitted_shares := tt_uncommitted_shares T + 1\<rparr>
     else if vs_target_pot v < cf_min_pot (en_cfg E) then T\<lparr>tt_below_floor_shares := tt_below_floor_shares T + 1\<rparr> else T)"

definition note_accepted ::
  "session_env \<Rightarrow> nat \<Rightarrow> u64 \<Rightarrow> pow_submit \<Rightarrow> job_section \<Rightarrow> job_check option \<Rightarrow> cb_output list option \<Rightarrow> verified_share \<Rightarrow> nat
    \<Rightarrow> session \<times> pool \<Rightarrow> session \<times> pool" where
  "note_accepted E t now p j c iss v rest = (\<lambda>(s, P). let
       s1 = (case vs_coinbase_kind v of Partial _ \<Rightarrow> if vs_work v > 0 then note_partial_share E t p j iss (vs_coinbase v) s else s | _ \<Rightarrow> s);
       x1 = (s1, count_accepted v rest P);
       x2 = (if vs_coinbase_kind v = PoolOnly then note_pool_only_share p x1 else x1)
     in map_prod id (count_floor E v) (maybe_check_template E t now c (jb_prev_hash j) p v x2))"

definition accept_share ::
  "session_env \<Rightarrow> nat \<Rightarrow> u64 \<Rightarrow> pow_submit \<Rightarrow> string \<Rightarrow> job_section \<Rightarrow> job_check option \<Rightarrow> byte list option \<Rightarrow> cb_output list option \<Rightarrow> verified_share
    \<Rightarrow> session \<times> pool \<Rightarrow> (session \<times> pool) option" where
  "accept_share E t now p ident j c gw iss v x = do {
     rest \<leftarrow> gateway_remainder gw iss v;
     let status = (if vs_coinbase_kind v = Split then ACCEPTED else ACCEPTED_TENTATIVELY);
     let x1 = note_accepted E t now p j c iss v rest x;
     x2 \<leftarrow> (if vs_is_block_candidate v \<and> c \<noteq> None then on_candidate E t now p v ident x1 else Some x1);
     Some (map_prod (send_receipt t status 0 p) id x2) }"

text \<open>New and from a gateway in good standing: the vote, then the credit.\<close>

definition vote_share :: "session_env \<Rightarrow> nat \<Rightarrow> string \<Rightarrow> verified_share \<Rightarrow> session \<times> pool \<Rightarrow> session \<times> pool" where
  "vote_share E t ident v = (\<lambda>(s, P).
     if vs_work v > 0
     then case note_identity E t ident (vs_work v) (s, P) of (s1, P1) \<Rightarrow>
       (if se_held s1 \<noteq> None then follow_held_split E t (held_script s \<noteq> None) s1 else s1, P1)
     else (s, P))"

definition on_fresh ::
  "session_env \<Rightarrow> nat \<Rightarrow> u64 \<Rightarrow> pow_submit \<Rightarrow> string \<Rightarrow> job_section \<Rightarrow> job_check option \<Rightarrow> byte list option \<Rightarrow> cb_output list option \<Rightarrow> verified_share
    \<Rightarrow> session \<times> pool \<Rightarrow> (session_error option \<times> session \<times> pool) option" where
  "on_fresh E t now p ident j c gw iss v x = (case vote_share E t ident v x of (s, P) \<Rightarrow> do {
     (credited, l) \<leftarrow> (if is_solo (vs_coinbase_kind v) then Some (True, sh_ledger (pl_shared P))
       else credit_share E now ident v s (sh_ledger (pl_shared P)));
     let P1 = P\<lparr>pl_shared := (pl_shared P)\<lparr>sh_ledger := l\<rparr>\<rparr>;
     if \<not> credited then Some (reject E t p REJECT_BAD_USERNAME (s, P1))
     else map_option (Pair None) (accept_share E t now p ident j c gw iss v (s, P1)) })"

text \<open>Verified: known or new, and whether its gateway is faulted.\<close>

definition look_up_share :: "verified_share \<Rightarrow> pool \<Rightarrow> seen_answer \<times> pool" where
  "look_up_share v P = (if vs_work v = 0 \<and> \<not> vs_is_block_candidate v then (Fresh, P)
     else case insert_share (vs_height v) (vs_hash v) (pl_seen P) of (a, S) \<Rightarrow> (a, P\<lparr>pl_seen := S\<rparr>))"

definition fault_of :: "session_env \<Rightarrow> u64 \<Rightarrow> session \<times> pool \<Rightarrow> fault option \<times> pool" where
  "fault_of E now = (\<lambda>(s, P). if is_house E s then (None, P)
     else case get_fault (se_gateway_key s) now (pl_faults P) of (f, F) \<Rightarrow> (f, P\<lparr>pl_faults := F\<rparr>))"

definition on_verified ::
  "session_env \<Rightarrow> nat \<Rightarrow> u64 \<Rightarrow> pow_submit \<Rightarrow> string \<Rightarrow> job_section \<Rightarrow> job_check option \<Rightarrow> byte list option \<Rightarrow> cb_output list option \<Rightarrow> verified_share
    \<Rightarrow> session \<times> pool \<Rightarrow> (session_error option \<times> session \<times> pool) option" where
  "on_verified E t now p ident j c gw iss v = (\<lambda>(s, P). case look_up_share v P of
     (Duplicate, P1) \<Rightarrow> Some (reject E t p REJECT_DUPLICATE_WORK (s, P1))
   | (Full, P1) \<Rightarrow> Some (reject E t p REJECT_OTHER (s, P1))
   | (Fresh, P1) \<Rightarrow> (case fault_of E now (s, P1) of
       (Some f, P2) \<Rightarrow> map_option (Pair None) (refuse_faulted E t now p v c (jb_prev_hash j) ident (s, P2))
     | (None, P2) \<Rightarrow> on_fresh E t now p ident j c gw iss v (s, P2)))"

text \<open>On a chain that is taken: held to the coinbaser it names, and verified.\<close>

definition share_policy :: "session_env \<Rightarrow> u64 \<Rightarrow> cb_output list option \<Rightarrow> session \<Rightarrow> policy" where
  "share_policy E now iss s = \<lparr>po_pool_script = en_pool_script E, po_issued = iss, po_tolerance = cf_split_tolerance (en_cfg E),
     po_now = now mod 4294967296, po_min_pot = cf_min_pot (en_cfg E), po_gateway_script = se_gateway_script s,
     po_empty_solo_fee_bps = cf_empty_solo_fee_bps (en_cfg E), po_trusted_target = is_house E s,
     po_uncommitted_pot = cf_uncommitted_pot (en_cfg E), po_held_split = (se_held s \<noteq> None)\<rparr>"

definition on_checked ::
  "session_env \<Rightarrow> nat \<Rightarrow> u64 \<Rightarrow> pow_submit \<Rightarrow> string \<Rightarrow> job_section \<Rightarrow> job_check option \<Rightarrow> session \<times> pool \<Rightarrow> (session_error option \<times> session \<times> pool) option" where
  "on_checked E t now p ident j c = (\<lambda>(s, P). let
       i = ps_job_id p;
       iss = map_option ic_outputs (issued_for (jb_coinbaser_id j) (jb_prev_hash j) (jb_height j) s);
       pol = share_policy E now iss s
     in do {
       (slot, r) \<leftarrow> verify_share (en_hashes E) (se_slots s ! i) p pol;
       let s1 = s\<lparr>se_slots := (se_slots s)[i := slot]\<rparr>;
       (case r of
          Inl code \<Rightarrow>
            let pinned = (code = REJECT_BAD_COINBASE_OUTPUTS
                \<and> (case coinbase_of slot p of None \<Rightarrow> False | Some cb \<Rightarrow> shows_pinned_script (en_cfg E) cb pol s1))
            in (case reject E t p code (s1, P) of
                (Some e, x) \<Rightarrow> Some (Some e, x)
              | (None, x) \<Rightarrow> Some (None, if pinned then hold_on_pool_script E t x else x))
        | Inr v \<Rightarrow> on_verified E t now p ident j c (se_gateway_script s) iss v
            (if vs_coinbase_kind v = GatewaySolo \<and> shows_pinned_script (en_cfg E) (vs_coinbase v) pol s1
             then hold_on_pool_script E t (s1, P) else (s1, P))) })"

text \<open>On a job: held to the node's chain, and to what the node says of a parent that is not its tip.\<close>

definition on_job ::
  "session_env \<Rightarrow> nat \<Rightarrow> u64 \<Rightarrow> node_replies \<Rightarrow> pow_submit \<Rightarrow> string \<Rightarrow> job_section \<Rightarrow> session \<times> pool \<Rightarrow> (session_error option \<times> session \<times> pool) option" where
  "on_job E t now N p ident j x = do {
     (c, s, P) \<leftarrow> check_chain E t N j x;
     (case Option.bind c check_code of
        Some code \<Rightarrow> Some (reject E t p code (s, P))
      | None \<Rightarrow>
          if c = Some OtherBranch \<or> c = Some AheadByOne
          then case parent_verdict (hex_of (rev (jb_prev_hash j))) (nr_header N) (nr_tips N) (jb_prev_hash j) t (pl_parents P) of (v, es) \<Rightarrow>
            if v \<noteq> Take then Some (None, refuse_dead_parent t p (s, P\<lparr>pl_parents := es\<rparr>))
            else on_checked E t now p ident j c (s, P\<lparr>pl_parents := es\<rparr>)
          else on_checked E t now p ident j c (s, P)) }"

definition on_pow ::
  "session_env \<Rightarrow> nat \<Rightarrow> u64 \<Rightarrow> node_replies \<Rightarrow> pow_submit \<Rightarrow> session \<times> pool \<Rightarrow> (session_error option \<times> session \<times> pool) option" where
  "on_pow E t now N p = (\<lambda>(s, P). let ident = share_identity E p in
     if ps_job_id p \<ge> length (se_slots s) then Some (reject E t p REJECT_BAD_JOB_ID (s, P))
     else if \<not> identity_fine ident then Some (reject E t p REJECT_BAD_USERNAME (s, P))
     else do {
       (r, s1) \<leftarrow> take_sections (en_cfg E) p s;
       (case r of
          Some code \<Rightarrow> Some (reject E t p code (s1, P))
        | None \<Rightarrow> (case sl_job (se_slots s1 ! ps_job_id p) of
            None \<Rightarrow> Some (reject E t p REJECT_BAD_JOB_ID (s1, P))
          | Some j \<Rightarrow> on_job E t now N p ident j (s1, P))) })"

section \<open>Transactions of a job, and what the node says\<close>

definition mark_faulted :: "string \<Rightarrow> string \<Rightarrow> u32 \<Rightarrow> u32 \<Rightarrow> string \<Rightarrow> u64 \<Rightarrow> pool \<Rightarrow> pool" where
  "mark_faulted key reason job height found_by now P = (case note_fail key reason job height found_by now (pl_faults P) of
     (True, F) \<Rightarrow> P\<lparr>pl_faults := F\<rparr>
   | (False, F) \<Rightarrow> P\<lparr>pl_faults := snd (get_fault key now F)\<rparr>)"

text \<open>The block of a candidate, as it is submitted, and what is done with the node's answer.\<close>

definition submit_candidate :: "pending_block \<Rightarrow> byte list list \<Rightarrow> byte list option" where
  "submit_candidate b txns = assemble_block (pb_share b) (pb_submit b) txns"

definition candidate_answered ::
  "session_env \<Rightarrow> u64 \<Rightarrow> string \<Rightarrow> bool \<Rightarrow> pending_block \<Rightarrow> string \<Rightarrow> pool \<Rightarrow> pool option" where
  "candidate_answered E now key house b outcome P = (let
       h = vs_height (pb_share b); job = job_token (ps_job_id (pb_submit b)) h; hash = pb_hash_hex b;
       P1 = tick_up (\<lambda>T. T\<lparr>tt_blocks_submitted := tt_blocks_submitted T + 1\<rparr>) P;
       P2 = (if house then P1
         else if template_fault outcome then mark_faulted key outcome job h ''found block'' now P1
         else if outcome = ''accepted'' then P1\<lparr>pl_faults := snd (clear_fault key (pl_faults P1))\<rparr> else P1);
       (found, sh) = update_block hash (\<lambda>r (_ :: unit). (r\<lparr>br_submit := outcome\<rparr>, ())) () (pl_shared P2);
       height = map_option (\<lambda>(r, _). br_height r) found
     in do {
       q \<leftarrow> (if says_outdated_node outcome \<and> \<not> house
         then map_option snd (quarantine_gateway (cf_quarantine (en_cfg E)) key (case height of None \<Rightarrow> 0 | Some x \<Rightarrow> x) outcome now (pl_quarantine P2))
         else Some (pl_quarantine P2));
       sh1 \<leftarrow> (if says_invalid outcome \<and> height \<noteq> None then mark_orphan (en_pool E) hash sh else Some sh);
       Some (P2\<lparr>pl_shared := sh1, pl_quarantine := q\<rparr>) })"

text \<open>The node's answer to a proposal: nothing wrong, a reason, or no answer that says either.\<close>

datatype proposal_reply = Passes | Fails string | Inconclusive

definition template_answered :: "u64 \<Rightarrow> string \<Rightarrow> template_check \<Rightarrow> proposal_reply \<Rightarrow> pool \<Rightarrow> pool" where
  "template_answered now key k r P = (let
       h = vs_height (tc_share k); job = job_token (ps_job_id (tc_submit k)) h;
       P1 = tick_up (\<lambda>T. T\<lparr>tt_template_checks := tt_template_checks T + 1\<rparr>) P
     in case r of
       Passes \<Rightarrow> P1\<lparr>pl_faults := snd (clear_fault key (pl_faults P1))\<rparr>
     | Fails reason \<Rightarrow> if template_fault reason
         then mark_faulted key reason job h ''template check'' now (tick_up (\<lambda>T. T\<lparr>tt_template_checks_failed := tt_template_checks_failed T + 1\<rparr>) P1)
         else P1
     | Inconclusive \<Rightarrow> P1)"

text \<open>The blocks to submit and the template to propose, each with the transactions sent, and the state after.\<close>

definition on_validation ::
  "job_validation_reply \<Rightarrow> session \<times> pool \<Rightarrow> (pending_block list \<times> template_check option \<times> byte list list) \<times> session \<times> pool" where
  "on_validation r = (\<lambda>(s, P). let
       job = reply_job r;
       pend = map_of (se_pending_blocks s) job;
       check = (case se_template_check s of Some (j, k) \<Rightarrow> if j = job then Some k else None | None \<Rightarrow> None);
       s1 = s\<lparr>se_pending_blocks := AList.delete job (se_pending_blocks s),
              se_template_check := (if check = None then se_template_check s else None)\<rparr>;
       no_txns = snd (foldl (\<lambda>x b. update_block (pb_hash_hex b) (\<lambda>r (_ :: unit). (r\<lparr>br_submit := ''no-transactions''\<rparr>, ())) () (snd x))
         (None, pl_shared P) (case pend of None \<Rightarrow> [] | Some bs \<Rightarrow> bs))
     in if pend = None \<and> check = None then (([], None, []), s1, P)
        else case r of
          ShortIds _ _ _ _ \<Rightarrow> (([], None, []), s, P)
        | Transactions _ status txns \<Rightarrow>
            if status \<noteq> ValidationOk then (([], None, []), s1, P\<lparr>pl_shared := no_txns\<rparr>)
            else (((case pend of None \<Rightarrow> [] | Some bs \<Rightarrow> bs), check, txns), s1, P)
        | FullBlock _ status txns \<Rightarrow>
            if status \<noteq> ValidationOk then (([], None, []), s1, P\<lparr>pl_shared := no_txns\<rparr>)
            else (((case pend of None \<Rightarrow> [] | Some bs \<Rightarrow> bs), check, txns), s1, P))"

section \<open>The timer, and which cap a frame has\<close>

definition IDLE_LIMIT :: nat where "IDLE_LIMIT = 300 * 1000"
definition KEEPALIVE :: nat where "KEEPALIVE = 20 * 1000"
definition PENDING_BLOCK_TTL :: nat where "PENDING_BLOCK_TTL = 120 * 1000"
definition BLOCK_REPLY_WINDOW :: nat where "BLOCK_REPLY_WINDOW = 1800 * 1000"

text \<open>Idle, or whether a keep-alive goes out, and the session after.\<close>

definition on_tick :: "nat \<Rightarrow> session \<Rightarrow> (session_error + bool) \<times> session" where
  "on_tick t s = (if t - se_last_recv s > IDLE_LIMIT then (Inl Idle, s)
     else let ping = (t - se_last_send s > KEEPALIVE);
         s1 = (if ping then s\<lparr>se_last_send := t\<rparr> else s)
       in (Inr ping, s1\<lparr>se_pending_blocks := filter (\<lambda>(_, bs). bs \<noteq> [])
            (map (\<lambda>(j, bs). (j, filter (\<lambda>b. t - pb_at b < PENDING_BLOCK_TTL) bs)) (se_pending_blocks s1))\<rparr>))"

definition block_about :: "nat \<Rightarrow> session \<Rightarrow> bool" where
  "block_about t s \<longleftrightarrow> se_pending_blocks s \<noteq> []
     \<or> (case se_candidate_at s of Some a \<Rightarrow> t - a < BLOCK_REPLY_WINDOW | None \<Rightarrow> False)
     \<or> (case se_template_check_asked s of Some a \<Rightarrow> t - a < TEMPLATE_CHECK_TTL | None \<Rightarrow> False)"

text \<open>A decrypted mining message.\<close>

definition on_message ::
  "session_env \<Rightarrow> nat \<Rightarrow> u64 \<Rightarrow> node_replies \<Rightarrow> byte list \<Rightarrow> session \<times> pool \<Rightarrow> (session_error option \<times> session \<times> pool) option" where
  "on_message E t now N body = (\<lambda>(s, P). case parse_client body of
     Inr (CoinbaserRequest r) \<Rightarrow> on_coinbaser_request E t now (rq_value r) (rq_prev_hash r) (s, P)
   | Inr (Pow p) \<Rightarrow> on_pow E t now N p (s, P)
   | Inr (JobValidation v) \<Rightarrow> (case on_validation v (s, P) of (_, x) \<Rightarrow> Some (None, x))
   | Inr (Unknown _) \<Rightarrow> Some (None, s, P)
   | Inl _ \<Rightarrow> (case note_reject E t s of (e, s1) \<Rightarrow> Some (e, s1, P)))"

section \<open>What a stage leaves alone\<close>

definition sect :: "session \<Rightarrow> job_slot list \<times> nat list \<times> nat" where
  "sect s = (se_slots s, se_live_slots s, se_coinbase_bytes s)"

definition hand :: "session \<Rightarrow> issued_coinbaser list \<times> nat \<times> ip \<times> string" where
  "hand s = (se_coinbasers s, se_next_coinbaser_id s, se_remote s, se_gateway_key s)"

lemma sect_eq: "sect s' = sect s \<longleftrightarrow> se_slots s' = se_slots s \<and> se_live_slots s' = se_live_slots s \<and> se_coinbase_bytes s' = se_coinbase_bytes s"
  by (simp add: sect_def)

lemma sections_ok_cong: "sect s' = sect s \<Longrightarrow> sections_ok H b s' = sections_ok H b s"
  by (simp add: sections_ok_def sect_def)

lemma hand_ok_cong: "hand s' = hand s \<Longrightarrow> coinbasers_ok s' = coinbasers_ok s"
  by (simp add: coinbasers_ok_def hand_def)

lemma hand_house: "hand s' = hand s \<Longrightarrow> is_house E s' = is_house E s"
  by (simp add: hand_def)

lemmas proj_defs = sect_def hand_def

lemma proj_update [simp]:
  "sect (se_gateway_script_update f1 s) = sect s" "hand (se_gateway_script_update f1 s) = hand s"
  "sect (se_gateway_identity_update f2 s) = sect s" "hand (se_gateway_identity_update f2 s) = hand s"
  "sect (se_restore_script_at_update f3 s) = sect s" "hand (se_restore_script_at_update f3 s) = hand s"
  "sect (se_held_update f4 s) = sect s" "hand (se_held_update f4 s) = hand s"
  "sect (se_identity_work_update f5 s) = sect s" "hand (se_identity_work_update f5 s) = hand s"
  "sect (se_pins_script_update f6 s) = sect s" "hand (se_pins_script_update f6 s) = hand s"
  "sect (se_class_budget_update f7 s) = sect s" "hand (se_class_budget_update f7 s) = hand s"
  "sect (se_pool_only_shares_update f8 s) = sect s" "hand (se_pool_only_shares_update f8 s) = hand s"
  "sect (se_pool_only_full_jobs_update f9 s) = sect s" "hand (se_pool_only_full_jobs_update f9 s) = hand s"
  "sect (se_template_check_due_update f10 s) = sect s" "hand (se_template_check_due_update f10 s) = hand s"
  "sect (se_template_check_update f11 s) = sect s" "hand (se_template_check_update f11 s) = hand s"
  "sect (se_template_check_asked_update f12 s) = sect s" "hand (se_template_check_asked_update f12 s) = hand s"
  "sect (se_suspect_update f13 s) = sect s" "hand (se_suspect_update f13 s) = hand s"
  "sect (se_tip_asked_update f14 s) = sect s" "hand (se_tip_asked_update f14 s) = hand s"
  "sect (se_candidate_at_update f15 s) = sect s" "hand (se_candidate_at_update f15 s) = hand s"
  "sect (se_pending_blocks_update f16 s) = sect s" "hand (se_pending_blocks_update f16 s) = hand s"
  "sect (se_recent_rejects_update f17 s) = sect s" "hand (se_recent_rejects_update f17 s) = hand s"
  "sect (se_configured_as_gateway_update f18 s) = sect s" "hand (se_configured_as_gateway_update f18 s) = hand s"
  "sect (se_sent_update f19 s) = sect s" "hand (se_sent_update f19 s) = hand s"
  "sect (se_last_send_update f20 s) = sect s" "hand (se_last_send_update f20 s) = hand s"
  "sect (se_split_ready_update f21 s) = sect s" "hand (se_split_ready_update f21 s) = hand s"
  "sect (se_last_split_prev_update f22 s) = sect s" "hand (se_last_split_prev_update f22 s) = hand s"
  "sect (se_pending_coinbaser_update f23 s) = sect s" "hand (se_pending_coinbaser_update f23 s) = hand s"
  "sect (se_coinbaser_send_at_update f24 s) = sect s" "hand (se_coinbaser_send_at_update f24 s) = hand s"
  "sect (se_coinbaser_tokens_update f25 s) = sect s" "hand (se_coinbaser_tokens_update f25 s) = hand s"
  "sect (se_coinbaser_refill_at_update f26 s) = sect s" "hand (se_coinbaser_refill_at_update f26 s) = hand s"
  by (simp_all add: proj_defs)

lemma send_proj [simp]:
  "sect (send_mining t m b s) = sect s" "hand (send_mining t m b s) = hand s"
  "sect (send_configure_script E t x g s) = sect s" "hand (send_configure_script E t x g s) = hand s"
  "sect (send_receipt t st c p s) = sect s" "hand (send_receipt t st c p s) = hand s"
  by (simp_all add: proj_defs send_mining_def send_configure_script_def send_receipt_def Let_def)

lemma note_reject_proj [simp]: "sect (snd (note_reject E t s)) = sect s" "hand (snd (note_reject E t s)) = hand s"
  by (simp_all add: proj_defs note_reject_def Let_def)

lemma note_reject_sectD: "note_reject E t s = (e, s') \<Longrightarrow> sect s' = sect s"
  using note_reject_proj(1) [of E t s] by (metis snd_conv)

lemma refuse_proj [simp]: "sect (fst (refuse t p c x)) = sect (fst x)" "hand (fst (refuse t p c x)) = hand (fst x)"
  by (simp_all add: refuse_def split: prod.splits)

lemma reject_proj [simp]: "sect (fst (snd (reject E t p c x))) = sect (fst x)" "hand (fst (snd (reject E t p c x))) = hand (fst x)"
  by (simp_all add: reject_def case_prod_beta)

lemma reject_projD: "(e, y) = reject E t p c x \<Longrightarrow> sect (fst y) = sect (fst x) \<and> hand (fst y) = hand (fst x)"
  using reject_proj [of E t p c x] by (cases "reject E t p c x") simp

lemma hold_proj [simp]: "sect (fst (hold_on_pool_script E t x)) = sect (fst x)" "hand (fst (hold_on_pool_script E t x)) = hand (fst x)"
  by (simp_all add: hold_on_pool_script_def case_prod_beta Let_def)

lemma identity_proj [simp]:
  "sect (add_identity_work i w s) = sect s" "hand (add_identity_work i w s) = hand s"
  "sect (snd (note_held x s)) = sect s" "hand (snd (note_held x s)) = hand s"
  "sect (follow_held_split E t b s) = sect s" "hand (follow_held_split E t b s) = hand s"
  by (simp_all add: add_identity_work_def note_held_def follow_held_split_def case_prod_beta split: option.splits bool.splits)

lemma note_identity_proj [simp]:
  "sect (fst (note_identity E t i w x)) = sect (fst x)" "hand (fst (note_identity E t i w x)) = hand (fst x)"
  by (simp_all add: note_identity_def case_prod_beta Let_def split: option.splits)

lemma vote_proj [simp]: "sect (fst (vote_share E t i v x)) = sect (fst x)" "hand (fst (vote_share E t i v x)) = hand (fst x)"
  by (simp_all add: vote_share_def case_prod_beta)

lemma partial_proj [simp]: "sect (note_partial_share E t p j iss cb s) = sect s" "hand (note_partial_share E t p j iss cb s) = hand s"
  by (simp_all add: note_partial_share_def expire_class_budget_def Let_def split: option.splits)

lemma pool_only_proj [simp]: "sect (fst (note_pool_only_share p x)) = sect (fst x)" "hand (fst (note_pool_only_share p x)) = hand (fst x)"
  by (simp_all add: note_pool_only_share_def case_prod_beta Let_def)

lemma template_proj [simp]:
  "sect (fst (maybe_check_template E t n c prev p v x)) = sect (fst x)" "hand (fst (maybe_check_template E t n c prev p v x)) = hand (fst x)"
  by (simp_all add: maybe_check_template_def case_prod_beta)

lemma candidate_proj:
  assumes "on_candidate E t n p v f x = Some y"
  shows "sect (fst y) = sect (fst x) \<and> hand (fst y) = hand (fst x)"
  using assms by (auto simp: on_candidate_def case_prod_beta Let_def split: bind_splits)

lemma accepted_proj [simp]:
  "sect (fst (note_accepted E t n p j c iss v r x)) = sect (fst x)" "hand (fst (note_accepted E t n p j c iss v r x)) = hand (fst x)"
  by (simp_all add: note_accepted_def case_prod_beta Let_def split: coinbase_kind.splits)

lemma accept_shareE:
  assumes "accept_share E t n p i j c gw iss v x = Some y"
  obtains r x2 where "gateway_remainder gw iss v = Some r"
    "y = (send_receipt t (if vs_coinbase_kind v = Split then ACCEPTED else ACCEPTED_TENTATIVELY) 0 p (fst x2), snd x2)"
    "if vs_is_block_candidate v \<and> c \<noteq> None then on_candidate E t n p v i (note_accepted E t n p j c iss v r x) = Some x2
     else x2 = note_accepted E t n p j c iss v r x"
  using assms by (auto simp: accept_share_def Let_def map_prod_def case_prod_beta split: bind_splits if_splits)

lemma accept_proj:
  assumes "accept_share E t n p i j c gw iss v x = Some y"
  shows "sect (fst y) = sect (fst x) \<and> hand (fst y) = hand (fst x)"
  using assms by (rule accept_shareE) (auto dest!: candidate_proj split: if_splits)

lemma faulted_proj:
  assumes "refuse_faulted E t n p v c prev i x = Some y"
  shows "sect (fst y) = sect (fst x) \<and> hand (fst y) = hand (fst x)"
  using assms by (auto simp: refuse_faulted_def case_prod_beta Let_def dest!: candidate_proj split: if_splits)

abbreviation put_ledger :: "ledger \<Rightarrow> pool \<Rightarrow> pool" where
  "put_ledger l P \<equiv> P\<lparr>pl_shared := (pl_shared P)\<lparr>sh_ledger := l\<rparr>\<rparr>"

lemma on_freshE:
  assumes "on_fresh E t n p i j c gw iss v x = Some (e, y)"
  obtains (refused) s P l where "vote_share E t i v x = (s, P)" "\<not> is_solo (vs_coinbase_kind v)"
      "credit_share E n i v s (sh_ledger (pl_shared P)) = Some (False, l)" "(e, y) = reject E t p REJECT_BAD_USERNAME (s, put_ledger l P)"
  | (accepted) s P l where "vote_share E t i v x = (s, P)"
      "if is_solo (vs_coinbase_kind v) then l = sh_ledger (pl_shared P) else credit_share E n i v s (sh_ledger (pl_shared P)) = Some (True, l)"
      "accept_share E t n p i j c gw iss v (s, put_ledger l P) = Some y" "e = None"
proof -
  obtain s P where v: "vote_share E t i v x = (s, P)" by fastforce
  show thesis
  proof (cases "is_solo (vs_coinbase_kind v)")
    case True
    then show ?thesis using assms v accepted [OF v, of "sh_ledger (pl_shared P)"] by (auto simp: on_fresh_def Let_def)
  next
    case False
    then obtain b l where c: "credit_share E n i v s (sh_ledger (pl_shared P)) = Some (b, l)"
      using assms v by (auto simp: on_fresh_def split: bind_splits)
    show ?thesis
    proof (cases b)
      case True
      then show ?thesis using assms v c False accepted [OF v, of l] by (auto simp: on_fresh_def)
    next
      case nb: False
      then show ?thesis using assms v c False refused [OF v, of l] by (simp add: on_fresh_def)
    qed
  qed
qed

lemma fresh_proj:
  assumes "on_fresh E t n p i j c gw iss v x = Some (e, y)"
  shows "sect (fst y) = sect (fst x) \<and> hand (fst y) = hand (fst x)"
  using assms
proof (cases rule: on_freshE)
  case (refused s P l)
  then show ?thesis using vote_proj [of E t i v x] reject_projD [OF refused(4)] by simp
next
  case (accepted s P l)
  then show ?thesis using vote_proj [of E t i v x] accept_proj [OF accepted(3)] by simp
qed

lemma on_verifiedE:
  assumes "on_verified E t n p i j c gw iss v (s, P) = Some (e, y)"
  obtains (known_share) P1 code where "look_up_share v P = (Duplicate, P1) \<or> look_up_share v P = (Full, P1)" "(e, y) = reject E t p code (s, P1)"
  | (faulted) P1 P2 f where "look_up_share v P = (Fresh, P1)" "fault_of E n (s, P1) = (Some f, P2)"
      "refuse_faulted E t n p v c (jb_prev_hash j) i (s, P2) = Some y" "e = None"
  | (fresh) P1 P2 where "look_up_share v P = (Fresh, P1)" "fault_of E n (s, P1) = (None, P2)"
      "on_fresh E t n p i j c gw iss v (s, P2) = Some (e, y)"
proof -
  obtain a P1 where l: "look_up_share v P = (a, P1)" by (rule prod.exhaust)
  obtain f P2 where f: "fault_of E n (s, P1) = (f, P2)" by (rule prod.exhaust)
  show thesis
  proof (cases a)
    case Fresh
    then show ?thesis using assms l f faulted [of P1 _ P2] fresh [of P1 P2] by (cases f) (auto simp: on_verified_def)
  next
    case Duplicate
    then show ?thesis using assms l known_share [of P1 REJECT_DUPLICATE_WORK] by (simp add: on_verified_def)
  next
    case Full
    then show ?thesis using assms l known_share [of P1 REJECT_OTHER] by (simp add: on_verified_def)
  qed
qed

lemma verified_proj:
  assumes "on_verified E t n p i j c gw iss v x = Some (e, y)"
  shows "sect (fst y) = sect (fst x) \<and> hand (fst y) = hand (fst x)"
proof -
  obtain s P where x: "x = (s, P)" by (rule prod.exhaust)
  from assms [unfolded x] show ?thesis
  proof (cases rule: on_verifiedE)
    case (known_share P1 code)
    then show ?thesis using reject_projD [OF known_share(2)] by (simp add: x)
  next
    case (faulted P1 P2 f)
    then show ?thesis using faulted_proj [OF faulted(3)] by (simp add: x)
  next
    case (fresh P1 P2)
    then show ?thesis using fresh_proj [OF fresh(3)] by (simp add: x)
  qed
qed

lemma verify_share_keeps:
  assumes "verify_share H slot p pol = Some (slot', r)"
  shows "sl_coinbases slot' = sl_coinbases slot" "sl_job slot' = sl_job slot" "slot_reach H slot \<Longrightarrow> slot_reach H slot'"
proof -
  have "slot' = slot \<or> (\<exists>t. verify_with_target H slot p pol t = Some (slot', r))"
    using assms by (auto simp: verify_share_def split: option.splits)
  then consider "slot' = slot" | t where "verify_with_target H slot p pol t = Some (slot', r)" by blast
  then have "sl_coinbases slot' = sl_coinbases slot \<and> sl_job slot' = sl_job slot \<and> (slot_reach H slot \<longrightarrow> slot_reach H slot')"
  proof cases
    case (2 t)
    from 2 show ?thesis
    proof (cases rule: verify_outcome)
      case refused
      then show ?thesis by simp
    next
      case (accepted b2 tow job sect entry fresh kind flags ntime i c h key hash)
      then show ?thesis using slot_reach.verifies [OF _ 2]
        by (auto simp: cache_coinbase_def cache_h2_def Let_def split: option.splits)
    qed
  qed simp
  then show "sl_coinbases slot' = sl_coinbases slot" "sl_job slot' = sl_job slot" "slot_reach H slot \<Longrightarrow> slot_reach H slot'" by simp_all
qed

lemma on_checkedE:
  assumes "on_checked E t n p i j c (s, P) = Some (e, y)"
  obtains iss pol slot s1 where "iss = map_option ic_outputs (issued_for (jb_coinbaser_id j) (jb_prev_hash j) (jb_height j) s)"
    "pol = share_policy E n iss s" "s1 = s\<lparr>se_slots := (se_slots s)[ps_job_id p := slot]\<rparr>"
    "(\<exists>code b x. verify_share (en_hashes E) (se_slots s ! ps_job_id p) p pol = Some (slot, Inl code)
        \<and> reject E t p code (s1, P) = (e, x) \<and> y = (if b then hold_on_pool_script E t x else x))
     \<or> (\<exists>v b. verify_share (en_hashes E) (se_slots s ! ps_job_id p) p pol = Some (slot, Inr v)
        \<and> on_verified E t n p i j c (se_gateway_script s) iss v (if b then hold_on_pool_script E t (s1, P) else (s1, P)) = Some (e, y))"
proof -
  let ?iss = "map_option ic_outputs (issued_for (jb_coinbaser_id j) (jb_prev_hash j) (jb_height j) s)"
  obtain slot r where v: "verify_share (en_hashes E) (se_slots s ! ps_job_id p) p (share_policy E n ?iss s) = Some (slot, r)"
    using assms by (auto simp: on_checked_def Let_def split: bind_splits)
  let ?s1 = "s\<lparr>se_slots := (se_slots s)[ps_job_id p := slot]\<rparr>"
  note that = that [OF refl refl refl, of slot]
  show thesis
  proof (cases r)
    case (Inl code)
    obtain e' x where rj: "reject E t p code (?s1, P) = (e', x)" by (rule prod.exhaust)
    have "\<exists>b. e = e' \<and> y = (if b then hold_on_pool_script E t x else x)"
      using assms v Inl rj by (cases e') (auto simp: on_checked_def Let_def split: if_splits)
    then show ?thesis using that v Inl rj by blast
  next
    case (Inr v')
    have "\<exists>b. on_verified E t n p i j c (se_gateway_script s) ?iss v' (if b then hold_on_pool_script E t (?s1, P) else (?s1, P)) = Some (e, y)"
      using assms v Inr
      by (intro exI [of _ "vs_coinbase_kind v' = GatewaySolo \<and> shows_pinned_script (en_cfg E) (vs_coinbase v') (share_policy E n ?iss s) ?s1"])
        (simp add: on_checked_def Let_def)
    then show ?thesis using that v Inr by blast
  qed
qed

lemma sections_ok_slot:
  assumes "sections_ok H b s" "slot_reach H slot" "sl_coinbases slot = sl_coinbases (se_slots s ! i)"
  shows "sections_ok H b (s\<lparr>se_slots := (se_slots s)[i := slot]\<rparr>)"
proof (cases "i < length (se_slots s)")
  case True
  have "coinbase_bytes slot = coinbase_bytes (se_slots s ! i)" using assms(3) by (simp add: coinbase_bytes_def)
  then have "sum_list (map coinbase_bytes ((se_slots s)[i := slot])) = sum_list (map coinbase_bytes (se_slots s))"
    using sum_list_update_nat [OF True, of coinbase_bytes slot] by simp
  then show ?thesis using assms(1,2) by (auto simp: sections_ok_def list_all_iff dest!: set_update_subset_insert [THEN subsetD])
qed (use assms(1) in \<open>simp add: sections_ok_def list_update_beyond not_less\<close>)

lemma checked_keeps:
  assumes "on_checked E t n p i j c x = Some (e, y)" "sections_ok (en_hashes E) b (fst x)" "ps_job_id p < MAX_JOB_SLOTS"
  shows "sections_ok (en_hashes E) b (fst y) \<and> hand (fst y) = hand (fst x)"
proof -
  obtain s P where x: "x = (s, P)" by (rule prod.exhaust)
  from assms(1) [unfolded x] obtain iss pol slot s1 where iss: "iss = map_option ic_outputs (issued_for (jb_coinbaser_id j) (jb_prev_hash j) (jb_height j) s)"
    and pol: "pol = share_policy E n iss s" and s1: "s1 = s\<lparr>se_slots := (se_slots s)[ps_job_id p := slot]\<rparr>"
    and d: "(\<exists>code b x. verify_share (en_hashes E) (se_slots s ! ps_job_id p) p pol = Some (slot, Inl code)
        \<and> reject E t p code (s1, P) = (e, x) \<and> y = (if b then hold_on_pool_script E t x else x))
     \<or> (\<exists>v b. verify_share (en_hashes E) (se_slots s ! ps_job_id p) p pol = Some (slot, Inr v)
        \<and> on_verified E t n p i j c (se_gateway_script s) iss v (if b then hold_on_pool_script E t (s1, P) else (s1, P)) = Some (e, y))"
    by (rule on_checkedE)
  obtain r where r: "verify_share (en_hashes E) (se_slots s ! ps_job_id p) p pol = Some (slot, r)" using d by blast
  have "slot_reach (en_hashes E) (se_slots s ! ps_job_id p)" using assms(2,3) by (simp add: x sections_ok_def list_all_length)
  then have ok1: "sections_ok (en_hashes E) b s1" unfolding s1
    using sections_ok_slot [OF _ verify_share_keeps(3) [OF r] verify_share_keeps(1) [OF r]] assms(2) by (simp add: x)
  have h1: "hand s1 = hand s" by (simp add: s1 hand_def)
  have y1: "sect (fst y) = sect s1 \<and> hand (fst y) = hand s1"
    using d
  proof (elim disjE exE conjE)
    fix code b' z assume z: "reject E t p code (s1, P) = (e, z)" "y = (if b' then hold_on_pool_script E t z else z)"
    then show ?thesis using reject_projD [OF z(1) [symmetric]] by simp
  next
    fix v b' assume "on_verified E t n p i j c (se_gateway_script s) iss v (if b' then hold_on_pool_script E t (s1, P) else (s1, P)) = Some (e, y)"
    from verified_proj [OF this] show ?thesis by (cases b') simp_all
  qed
  show ?thesis using sections_ok_cong [OF y1 [THEN conjunct1], of "en_hashes E" b] ok1 h1 y1 by (simp add: x)
qed

lemma check_chain_proj:
  assumes "check_chain E t N j x = Some (c, y)"
  shows "sect (fst y) = sect (fst x) \<and> hand (fst y) = hand (fst x)"
  using assms by (auto simp: check_chain_def case_prod_beta split: option.splits bind_splits if_splits)

lemma dead_parent_proj [simp]: "sect (fst (refuse_dead_parent t p x)) = sect (fst x)" "hand (fst (refuse_dead_parent t p x)) = hand (fst x)"
  by (simp_all add: refuse_dead_parent_def case_prod_beta Let_def)

lemma job_keeps:
  assumes "on_job E t n N p i j x = Some (e, y)" "sections_ok (en_hashes E) b (fst x)" "ps_job_id p < MAX_JOB_SLOTS"
  shows "sections_ok (en_hashes E) b (fst y) \<and> hand (fst y) = hand (fst x)"
proof -
  obtain c s P where c: "check_chain E t N j x = Some (c, s, P)" using assms(1) by (auto simp: on_job_def split: bind_splits)
  note k = check_chain_proj [OF c, simplified]
  have ok: "sections_ok (en_hashes E) b s" using sections_ok_cong k assms(2) by metis
  have chk: "sections_ok (en_hashes E) b (fst y) \<and> hand (fst y) = hand (fst x)" if "on_checked E t n p i j c (s, P') = Some (e, y)" for P'
    using checked_keeps [OF that _ assms(3)] ok k by simp
  show ?thesis
  proof (cases "Option.bind c check_code")
    case (Some code)
    then have "(e, y) = reject E t p code (s, P)" using assms(1) c by (simp add: on_job_def)
    from reject_projD [OF this] show ?thesis using ok k sections_ok_cong [of "fst y" s "en_hashes E" b] by simp
  next
    case None
    obtain v es where v: "parent_verdict (hex_of (rev (jb_prev_hash j))) (nr_header N) (nr_tips N) (jb_prev_hash j) t (pl_parents P) = (v, es)" by (rule prod.exhaust)
    have "on_checked E t n p i j c (s, P) = Some (e, y) \<or> on_checked E t n p i j c (s, P\<lparr>pl_parents := es\<rparr>) = Some (e, y)
        \<or> y = refuse_dead_parent t p (s, P\<lparr>pl_parents := es\<rparr>)"
      using assms(1) c None v by (auto simp: on_job_def split: if_splits)
    then show ?thesis
    proof (elim disjE)
      assume "y = refuse_dead_parent t p (s, P\<lparr>pl_parents := es\<rparr>)"
      then show ?thesis using ok k sections_ok_cong [of "fst y" s "en_hashes E" b] by simp
    qed (rule chk, assumption)+
  qed
qed

lemma take_sections_hand: "take_sections cfg p s = Some (r, s') \<Longrightarrow> hand s' = hand s"
  by (auto simp: take_sections_def Let_def touch_slot_def drop_coinbase_def hand_def split: prod.splits sum.splits bind_splits if_splits option.splits)

lemma pow_keeps:
  assumes "on_pow E t n N p x = Some (e, y)" "sections_ok (en_hashes E) (cf_session_coinbase_budget (en_cfg E)) (fst x)"
  shows "sections_ok (en_hashes E) (cf_session_coinbase_budget (en_cfg E)) (fst y) \<and> hand (fst y) = hand (fst x)"
proof -
  let ?ok = "sections_ok (en_hashes E) (cf_session_coinbase_budget (en_cfg E))"
  obtain s P where x: "x = (s, P)" by (rule prod.exhaust)
  have rej: "?ok (fst y) \<and> hand (fst y) = hand s" if "reject E t p code (s', P) = (e, y)" "?ok s'" "hand s' = hand s" for code s'
    using reject_projD [OF that(1) [symmetric]] that(2,3) sections_ok_cong [of "fst y" s' "en_hashes E" "cf_session_coinbase_budget (en_cfg E)"] by simp
  have s: "?ok s" using assms(2) by (simp add: x)
  show ?thesis
  proof (cases "ps_job_id p \<ge> length (se_slots s) \<or> \<not> identity_fine (share_identity E p)")
    case True
    then have "\<exists>code. reject E t p code (s, P) = (e, y)" using assms(1) by (auto simp: on_pow_def Let_def x split: if_splits)
    then show ?thesis using rej s x by auto
  next
    case False
    then have i: "ps_job_id p < MAX_JOB_SLOTS" using s by (simp add: sections_ok_def)
    obtain r s1 where t: "take_sections (en_cfg E) p s = Some (r, s1)" "?ok s1" by (rule take_sections_ok [OF s i])
    note h = take_sections_hand [OF t(1)]
    have "(\<exists>code. reject E t p code (s1, P) = (e, y)) \<or> (\<exists>j. on_job E t n N p (share_identity E p) j (s1, P) = Some (e, y))"
      using assms(1) False t(1) by (auto simp: on_pow_def x Let_def split: option.splits)
    then show ?thesis
    proof (elim disjE exE)
      fix code assume "reject E t p code (s1, P) = (e, y)"
      then show ?thesis using rej t(2) h x by auto
    next
      fix j assume "on_job E t n N p (share_identity E p) j (s1, P) = Some (e, y)"
      from job_keeps [OF this _ i] show ?thesis using t(2) h x by auto
    qed
  qed
qed

lemma flush_sect [simp]: "sect (flush_coinbaser_reply E t v e p s) = sect s" "sect (send_coinbaser_reply E t v e p s) = sect s"
  by (simp_all add: flush_coinbaser_reply_def send_coinbaser_reply_def Let_def split: option.splits)

lemma other_sect [simp]:
  "sect (solo_until_split E t s) = sect s" "sect (on_notify E t m T s) = sect s" "sect (on_restore E t s) = sect s"
  "sect (on_coinbaser_due E t s) = sect s" "sect (snd (on_tick t s)) = sect s" "sect (fst (snd (on_validation r x))) = sect (fst x)"
  "sect (refill_tokens t s) = sect s" "sect (expire_class_budget t s) = sect s"
  by (simp_all add: solo_until_split_def on_notify_def on_restore_def on_coinbaser_due_def on_tick_def on_validation_def refill_tokens_def
      expire_class_budget_def Let_def case_prod_beta split: option.splits job_validation_reply.splits)

lemma validation_sectD: "on_validation r x = (a, y) \<Longrightarrow> sect (fst y) = sect (fst x)"
  using other_sect(6) [of r x] by (metis snd_conv)

lemma reject_times_sect: "sect (snd (note_reject_times k E t s)) = sect s"
proof (induction k arbitrary: s)
  case (Suc k)
  obtain e s1 where "note_reject E t s = (e, s1)" by (rule prod.exhaust)
  then show ?case using Suc [of s1] note_reject_proj(1) [of E t s] by (cases e) simp_all
qed simp

lemma keep_sect [simp]: "sect (keep_coinbaser c s) = sect s" "sect (se_next_coinbaser_id_update f s) = sect s"
  by (simp_all add: keep_coinbaser_def Let_def sect_def)

lemma issue_sect: "issue_coinbaser E t n v prev l b base x = Some y \<Longrightarrow> sect (fst y) = sect (fst x)"
  by (auto simp: issue_coinbaser_def case_prod_beta Let_def split: bind_splits)

lemma request_sect:
  assumes "on_coinbaser_request E t n v prev x = Some (e, y)"
  shows "sect (fst y) = sect (fst x)"
proof -
  obtain s P where x: "x = (s, P)" by (rule prod.exhaust)
  have answer: "sect (fst y) = sect s1" if "answer_request E t n v prev l b base (s1, P1) = Some (e, y)" for l b base s1 P1
  proof (cases "coinbaser_action (se_coinbaser_tokens s1) (se_coinbasers s1) v b")
    case FreshReply
    then show ?thesis using that by (auto simp: answer_request_def dest!: issue_sect)
  next
    case (RepeatReply i)
    then show ?thesis using that by (auto simp: answer_request_def dest!: issue_sect split: option.splits)
  next
    case FreshOverRate
    obtain e2 s2 where "note_reject_times OVER_RATE_COST E t s1 = (e2, s2)" by (rule prod.exhaust)
    moreover have "sect (snd (note_reject_times OVER_RATE_COST E t s1)) = sect s1" by (rule reject_times_sect)
    ultimately show ?thesis using that FreshOverRate by (cases e2) (auto simp: answer_request_def dest!: issue_sect)
  qed
  show ?thesis
  proof (cases "v = 0 \<or> v > MAX_MONEY")
    case True
    then show ?thesis using assms by (auto simp: on_coinbaser_request_def x dest: note_reject_sectD split: prod.splits)
  next
    case False
    then obtain l b base P1 where "answer_request E t n v prev l b base (expire_class_budget t (refill_tokens t s), P1) = Some (e, y)"
      using assms by (auto simp: on_coinbaser_request_def Let_def x split: bind_splits)
    from answer [OF this] show ?thesis by (simp add: x)
  qed
qed

section \<open>Reachable sessions\<close>

inductive session_reach :: "session_env \<Rightarrow> session \<Rightarrow> bool" for E where
  opened: "open_session E t now i remote he token P = (Inr s, P') \<Longrightarrow> session_reach E s"
| message: "session_reach E s \<Longrightarrow> on_message E t now N body (s, P) = Some (e, s', P') \<Longrightarrow> session_reach E s'"
| notified: "session_reach E s \<Longrightarrow> session_reach E (on_notify E t m T s)"
| restored: "session_reach E s \<Longrightarrow> session_reach E (on_restore E t s)"
| due: "session_reach E s \<Longrightarrow> session_reach E (on_coinbaser_due E t s)"
| ticked: "session_reach E s \<Longrightarrow> session_reach E (snd (on_tick t s))"

lemma new_session_sections: "sections_ok H b (new_session t i remote he token ks h pins cb)"
proof -
  have "slot_reach H empty_slot" by (rule slot_reach.start)
  then show ?thesis
    by (simp add: sections_ok_def new_session_def list_all_iff sum_list_replicate map_replicate coinbase_bytes_def) (simp add: empty_slot_def)
qed

lemma opened_sections:
  assumes "open_session E t now i remote he token P = (Inr s, P')"
  shows "sections_ok H b s"
proof -
  obtain ks h pins cb where "sect s = sect (new_session t i remote he token ks h pins cb)"
    using assms by (auto simp: open_session_def Let_def send_configure_def split: if_splits option.splits)
  then show ?thesis using sections_ok_cong new_session_sections by metis
qed

lemma message_sections:
  assumes "on_message E t now N body (s, P) = Some (e, s', P')" "sections_ok (en_hashes E) (cf_session_coinbase_budget (en_cfg E)) s"
  shows "sections_ok (en_hashes E) (cf_session_coinbase_budget (en_cfg E)) s'"
proof (cases "\<exists>p. parse_client body = Inr (Pow p)")
  case True
  then show ?thesis using assms pow_keeps [of E t now N _ "(s, P)" e "(s', P')"] by (auto simp: on_message_def)
next
  case False
  have "sect s' = sect s"
  proof (cases "parse_client body")
    case (Inl a)
    then show ?thesis using assms(1) by (auto simp: on_message_def dest: note_reject_sectD split: prod.splits)
  next
    case (Inr m)
    show ?thesis
    proof (cases m)
      case (CoinbaserRequest r)
      then show ?thesis using Inr assms(1) by (auto simp: on_message_def dest: request_sect)
    next
      case (JobValidation v)
      then show ?thesis using Inr assms(1) by (auto simp: on_message_def dest!: validation_sectD split: prod.splits)
    qed (use Inr False assms(1) in \<open>simp_all add: on_message_def\<close>)
  qed
  then show ?thesis using assms(2) sections_ok_cong by metis
qed

lemma reach_sections: "session_reach E s \<Longrightarrow> sections_ok (en_hashes E) (cf_session_coinbase_budget (en_cfg E)) s"
proof (induction rule: session_reach.induct)
  case (opened t now i remote he token P s P')
  then show ?case by (rule opened_sections)
next
  case (message s t now N body P e s' P')
  then show ?case by (blast intro: message_sections)
qed (auto simp: sections_ok_cong [of "on_notify E _ _ _ _"] sections_ok_cong [of "on_restore E _ _"] sections_ok_cong [of "on_coinbaser_due E _ _"]
    sections_ok_cong [of "snd (on_tick _ _)"])

text \<open>
  C19. Every session, whatever its gateway sends, holds 256 slots of which each keeps its limits; the bytes of
  coinbase sections it has counted are those its slots hold, and they are within the budget of a session.
\<close>

theorem session_sections_bounded:
  assumes "session_reach E s"
  shows "length (se_slots s) = 256 \<and> list_all slot_small (se_slots s)
    \<and> se_coinbase_bytes s = sum_list (map coinbase_bytes (se_slots s))
    \<and> se_coinbase_bytes s \<le> cf_session_coinbase_budget (en_cfg E)"
  using reach_sections [OF assms] reach_small by (simp add: sections_ok_def MAX_JOB_SLOTS_def list_all_iff) blast

theorem session_sections_bounded_witness:
  "(case open_session ex_senv 0 0 1 (V4 [10, 0, 0, 1]) ex_client [] ex_world of
     (Inr s, _) \<Rightarrow> length (se_slots s) = 256 \<and> list_all slot_small (se_slots s)
       \<and> se_coinbase_bytes s = sum_list (map coinbase_bytes (se_slots s)) \<and> se_coinbase_bytes s \<le> 4000000
   | (Inl _, _) \<Rightarrow> False)"
proof -
  have "quarantined (cf_quarantine ex_cfg) key 0 [] = None" for key
    by (simp add: quarantined_def ex_cfg_def blocked_def)
  then have "isl (fst (open_session ex_senv 0 0 1 (V4 [10, 0, 0, 1]) ex_client [] ex_world)) = False"
    by (simp add: open_session_def Let_def ex_senv_def ex_world_def) (simp add: ex_cfg_def)
  then obtain s P where o: "open_session ex_senv 0 0 1 (V4 [10, 0, 0, 1]) ex_client [] ex_world = (Inr s, P)"
    by (cases "open_session ex_senv 0 0 1 (V4 [10, 0, 0, 1]) ex_client [] ex_world"; cases "fst (open_session ex_senv 0 0 1 (V4 [10, 0, 0, 1]) ex_client [] ex_world)") auto
  have "cf_session_coinbase_budget (en_cfg ex_senv) = 4000000" by (simp add: ex_senv_def ex_cfg_def)
  then show ?thesis using session_sections_bounded [OF session_reach.opened [OF o]] unfolding o by simp
qed

end
