(* ===== verification/Primed_Share_Effect.thy ===== *)
theory Primed_Share_Effect
  imports Primed_Share
begin

text \<open>
  What a share does (\<open>Primed_Share.on_pow\<close>) to the pool and to its gateway: the ledger and the block log move only for a
  verified share that is new, and every share is answered with one receipt and counted once.
\<close>

section \<open>What a share moves\<close>

definition pool_core :: "pool \<Rightarrow> shared \<times> seen_shares" where
  "pool_core P = (pl_shared P, pl_seen P)"

lemma core_update [simp]:
  "pool_core (pl_tip_update f1 P) = pool_core P" "pool_core (pl_faults_update f2 P) = pool_core P" "pool_core (pl_parents_update f3 P) = pool_core P"
  "pool_core (pl_gateways_update f4 P) = pool_core P" "pool_core (pl_pinned_update f5 P) = pool_core P" "pool_core (pl_notified_update f6 P) = pool_core P"
  "pool_core (pl_held_off_update f7 P) = pool_core P" "pool_core (tick_up f8 P) = pool_core P"
  by (simp_all add: pool_core_def tick_up_def)

lemma stage_core [simp]:
  "pool_core (snd (refuse t p c x)) = pool_core (snd x)"
  "pool_core (snd (snd (reject E t p c x))) = pool_core (snd x)"
  "pool_core (snd (refuse_dead_parent t p x)) = pool_core (snd x)"
  "pool_core (snd (hold_on_pool_script E t x)) = pool_core (snd x)"
  "pool_core (snd (note_pool_only_share p x)) = pool_core (snd x)"
  "pool_core (snd (maybe_check_template E t n k prev p v x)) = pool_core (snd x)"
  "pool_core (count_accepted v r P) = pool_core P" "pool_core (count_floor E v P) = pool_core P"
  by (simp_all add: refuse_def reject_def refuse_dead_parent_def hold_on_pool_script_def note_pool_only_share_def maybe_check_template_def
      count_accepted_def count_floor_def case_prod_beta Let_def)

lemma note_identity_core [simp]: "pool_core (snd (note_identity E t i w x)) = pool_core (snd x)"
  by (simp add: note_identity_def case_prod_beta Let_def split: option.splits)

lemma vote_core [simp]: "pool_core (snd (vote_share E t i v x)) = pool_core (snd x)"
  by (simp add: vote_share_def case_prod_beta)

lemma accepted_core [simp]: "pool_core (snd (note_accepted E t n p j c iss v r x)) = pool_core (snd x)"
  by (simp add: note_accepted_def case_prod_beta Let_def)

lemma reject_coreD: "reject E t p c x = (e, y) \<Longrightarrow> pool_core (snd y) = pool_core (snd x)"
  using stage_core(2) [of E t p c x] by (metis snd_conv)

lemma fault_core: "fault_of E n x = (f, P') \<Longrightarrow> pool_core P' = pool_core (snd x)"
  by (auto simp: fault_of_def case_prod_beta split: prod.splits if_splits)

lemma check_chain_core: "check_chain E t N j x = Some (c, y) \<Longrightarrow> pool_core (snd y) = pool_core (snd x)"
  by (auto simp: check_chain_def refresh_locked_def case_prod_beta Let_def split: option.splits bind_splits if_splits)

lemma look_up_shared: "look_up_share v P = (a, P') \<Longrightarrow> pl_shared P' = pl_shared P"
  by (auto simp: look_up_share_def split: if_splits prod.splits)

text \<open>A share that earns or is a block is new to the set, and in it afterwards.\<close>

definition counted_new :: "verified_share \<Rightarrow> seen_shares \<Rightarrow> seen_shares \<Rightarrow> bool" where
  "counted_new v S S' \<longleftrightarrow> (if vs_work v = 0 \<and> \<not> vs_is_block_candidate v then S' = S
     else vs_hash v \<notin> set (at_height (vs_height v) S) \<and> (Fresh, S') = insert_share (vs_height v) (vs_hash v) S)"

lemma look_up_fresh: "look_up_share v P = (Fresh, P') \<Longrightarrow> counted_new v (pl_seen P) (pl_seen P')"
  by (auto simp: look_up_share_def counted_new_def insert_share_def Let_def split: if_splits prod.splits)

text \<open>The ledger with the share credited, or as it was; and the state with its block booked, or as it was.\<close>

definition credits_share :: "session_env \<Rightarrow> u64 \<Rightarrow> pow_submit \<Rightarrow> verified_share \<Rightarrow> ledger \<Rightarrow> ledger \<Rightarrow> bool" where
  "credits_share E now p v l l' \<longleftrightarrow> \<not> is_solo (vs_coinbase_kind v) \<and> vs_work v > 0
     \<and> (\<exists>source l1. l_window l1 = l_window l \<and> ledger_credit (share_identity E p) (vs_work v) (vs_height v) (now mod 4294967296) source l1 = Some l')"

definition books_found :: "session_env \<Rightarrow> u64 \<Rightarrow> verified_share \<Rightarrow> shared \<Rightarrow> shared \<Rightarrow> bool" where
  "books_found E now v sh sh' \<longleftrightarrow> vs_is_block_candidate v \<and> (\<exists>iss c. on_block_candidate (en_pool E) now iss c sh = Some sh'
     \<and> cd_hash c = hex_of (rev (vs_hash v)) \<and> cd_height c = vs_height v \<and> cd_kind c = vs_coinbase_kind v \<and> cd_value c = vs_coinbase_value v)"

definition share_moves :: "bool \<Rightarrow> session_env \<Rightarrow> u64 \<Rightarrow> pow_submit \<Rightarrow> verified_share \<Rightarrow> shared \<Rightarrow> shared \<Rightarrow> bool" where
  "share_moves good E now p v sh sh' \<longleftrightarrow> (\<exists>l. (l = sh_ledger sh \<or> good \<and> credits_share E now p v (sh_ledger sh) l)
     \<and> (sh' = sh\<lparr>sh_ledger := l\<rparr> \<or> books_found E now v (sh\<lparr>sh_ledger := l\<rparr>) sh'))"

lemma source_window: "source_for i ts b g l = (src, l1) \<Longrightarrow> l_window l1 = l_window l"
  by (auto simp: source_for_def split: if_splits prod.splits)

lemma credit_shareD:
  assumes "credit_share E now (share_identity E p) v s l = Some (True, l')" "\<not> is_solo (vs_coinbase_kind v)"
  shows "l' = l \<or> credits_share E now p v l l'"
proof (cases "vs_work v > 0")
  case True
  obtain src l1 where c: "(if is_front E s then (SOURCE_STRATUM, l)
      else source_for (share_identity E p) (now mod 4294967296) (is_house E s) (cf_grace (en_cfg E)) l) = (src, l1)" by (rule prod.exhaust)
  have "l_window l1 = l_window l" using c source_window by (auto split: if_splits)
  moreover have "ledger_credit (share_identity E p) (vs_work v) (vs_height v) (now mod 4294967296) src l1 = Some l'"
    using assms(1) True c by (auto simp: credit_share_def Let_def split: if_splits)
  ultimately show ?thesis using True assms(2) by (auto simp: credits_share_def)
qed (use assms(1) in \<open>simp add: credit_share_def Let_def\<close>)

lemma candidate_booked:
  assumes "on_candidate E t now p v f x = Some y"  "vs_is_block_candidate v"
  shows "books_found E now v (pl_shared (snd x)) (pl_shared (snd y)) \<and> pl_seen (snd y) = pl_seen (snd x)"
proof -
  let ?job = "sl_job (se_slots (fst x) ! ps_job_id p)"
  let ?iss = "case ?job of None \<Rightarrow> None | Some j \<Rightarrow> issued_for (jb_coinbaser_id j) (jb_prev_hash j) (jb_height j) (fst x)"
  let ?c = "\<lparr>cd_hash = hex_of (rev (vs_hash v)), cd_height = vs_height v, cd_kind = vs_coinbase_kind v, cd_value = vs_coinbase_value v,
         cd_paid_at = (\<lambda>x. paid_to x (vs_coinbase v)), cd_paid_to_pool = vs_paid_to_pool v, cd_finder = f,
         cd_gateway = take 16 (se_gateway_key (fst x))\<rparr>"
  obtain sh where sh: "on_block_candidate (en_pool E) now (map_option settles_against ?iss) ?c (pl_shared (snd x)) = Some sh"
    "pl_shared (snd y) = sh" "pl_seen (snd y) = pl_seen (snd x)"
    using assms(1) by (auto simp: on_candidate_def case_prod_beta Let_def tick_up_def split: bind_splits)
  have "books_found E now v (pl_shared (snd x)) sh"
    unfolding books_found_def by (intro conjI exI, rule assms(2), rule sh(1)) simp_all
  then show ?thesis using sh by simp
qed

lemma accept_books:
  assumes "accept_share E t now p i j c gw iss v x = Some y"
  shows "(pl_shared (snd y) = pl_shared (snd x) \<or> books_found E now v (pl_shared (snd x)) (pl_shared (snd y))) \<and> pl_seen (snd y) = pl_seen (snd x)"
proof -
  obtain r x2 where a: "y = (send_receipt t (if vs_coinbase_kind v = Split then ACCEPTED else ACCEPTED_TENTATIVELY) 0 p (fst x2), snd x2)"
    "if vs_is_block_candidate v \<and> c \<noteq> None then on_candidate E t now p v i (note_accepted E t now p j c iss v r x) = Some x2
     else x2 = note_accepted E t now p j c iss v r x"
    using assms by (rule accept_shareE)
  let ?x1 = "note_accepted E t now p j c iss v r x"
  have n: "pl_shared (snd ?x1) = pl_shared (snd x)" "pl_seen (snd ?x1) = pl_seen (snd x)"
    using accepted_core [of E t now p j c iss v r x] by (simp_all add: pool_core_def)
  show ?thesis
  proof (cases "vs_is_block_candidate v \<and> c \<noteq> None")
    case True
    then show ?thesis using a n candidate_booked [of E t now p v i ?x1 x2] by simp
  next
    case False
    then have "x2 = ?x1" using a(2) by (simp only: if_False)
    then show ?thesis using a(1) n by simp
  qed
qed

lemma fresh_moves:
  assumes "on_fresh E t now p (share_identity E p) j c gw iss v x = Some (e, y)"
  shows "share_moves True E now p v (pl_shared (snd x)) (pl_shared (snd y)) \<and> pl_seen (snd y) = pl_seen (snd x)"
  using assms
proof (cases rule: on_freshE)
  case (refused s P l)
  have P: "pool_core P = pool_core (snd x)" using vote_core [of E t "share_identity E p" v x] refused(1) by simp
  have "l = sh_ledger (pl_shared P)" using refused(3) by (auto simp: credit_share_def Let_def split: if_splits prod.splits)
  then have "pool_core (snd y) = pool_core (snd x)" using reject_coreD [OF refused(4) [symmetric]] P by (simp add: pool_core_def)
  then show ?thesis by (auto simp: pool_core_def share_moves_def)
next
  case (accepted s P l)
  have P: "pool_core P = pool_core (snd x)" using vote_core [of E t "share_identity E p" v x] accepted(1) by simp
  have l: "l = sh_ledger (pl_shared (snd x)) \<or> credits_share E now p v (sh_ledger (pl_shared (snd x))) l"
    using accepted(2) P credit_shareD [of E now p v s _ l] by (auto simp: pool_core_def split: if_splits)
  show ?thesis using accept_books [OF accepted(3)] P l by (auto simp: share_moves_def pool_core_def)
qed

lemma faulted_moves:
  assumes "refuse_faulted E t now p v c prev i x = Some y"
  shows "share_moves False E now p v (pl_shared (snd x)) (pl_shared (snd y)) \<and> pl_seen (snd y) = pl_seen (snd x)"
proof -
  let ?x2 = "maybe_check_template E t now c prev p v (refuse t p REJECT_OTHER (fst x, tick_up (\<lambda>T. T\<lparr>tt_faulted_shares := tt_faulted_shares T + 1\<rparr>) (snd x)))"
  have k: "pool_core (snd ?x2) = pool_core (snd x)" by simp
  have "y = ?x2 \<or> vs_is_block_candidate v \<and> on_candidate E t now p v i ?x2 = Some y"
    using assms by (auto simp: refuse_faulted_def case_prod_beta Let_def split: if_splits)
  then show ?thesis using k candidate_booked [of E t now p v i ?x2 y] by (auto simp: share_moves_def pool_core_def)
qed

text \<open>The gateway is in good standing; the effect of a verified share on what the sessions share.\<close>

definition in_standing :: "session_env \<Rightarrow> u64 \<Rightarrow> session \<times> pool \<Rightarrow> bool" where
  "in_standing E now x \<longleftrightarrow> fst (fault_of E now x) = None"

definition share_effect :: "bool \<Rightarrow> session_env \<Rightarrow> u64 \<Rightarrow> pow_submit \<Rightarrow> verified_share \<Rightarrow> pool \<Rightarrow> pool \<Rightarrow> bool" where
  "share_effect good E now p v P P' \<longleftrightarrow>
     counted_new v (pl_seen P) (pl_seen P') \<and> share_moves good E now p v (pl_shared P) (pl_shared P')"

lemma in_standing_cong: "hand (fst y) = hand (fst x) \<Longrightarrow> pl_faults (snd y) = pl_faults (snd x) \<Longrightarrow> in_standing E now y = in_standing E now x"
  by (auto simp: in_standing_def fault_of_def hand_def case_prod_beta)

lemma look_up_faults: "look_up_share v P = (a, P') \<Longrightarrow> pl_faults P' = pl_faults P"
  by (auto simp: look_up_share_def split: if_splits prod.splits)

lemma verified_effect:
  assumes "on_verified E t now p (share_identity E p) j c gw iss v x = Some (e, y)"
  shows "pl_shared (snd y) = pl_shared (snd x) \<or> share_effect (in_standing E now x) E now p v (snd x) (snd y)"
proof -
  obtain s P where x: "x = (s, P)" by (rule prod.exhaust)
  from assms [unfolded x] show ?thesis
  proof (cases rule: on_verifiedE)
    case (known_share P1 code)
    then show ?thesis using reject_coreD [OF known_share(2) [symmetric]] look_up_shared by (auto simp: x pool_core_def)
  next
    case (faulted P1 P2 f)
    have "\<not> in_standing E now x" using faulted(2) in_standing_cong [of "(s, P1)" x E now] look_up_faults [OF faulted(1)] by (simp add: x in_standing_def)
    then show ?thesis using faulted_moves [OF faulted(3)] fault_core [OF faulted(2)] look_up_fresh [OF faulted(1)] look_up_shared [OF faulted(1)]
      by (simp add: x share_effect_def pool_core_def)
  next
    case (fresh P1 P2)
    have "in_standing E now x" using fresh(2) in_standing_cong [of "(s, P1)" x E now] look_up_faults [OF fresh(1)] by (simp add: x in_standing_def)
    then show ?thesis using fresh_moves [OF fresh(3)] fault_core [OF fresh(2)] look_up_fresh [OF fresh(1)] look_up_shared [OF fresh(1)]
      by (simp add: x share_effect_def pool_core_def)
  qed
qed

text \<open>A verified share, held to the outputs issued on this session for the job it names.\<close>

definition verified_here :: "session_env \<Rightarrow> u64 \<Rightarrow> pow_submit \<Rightarrow> verified_share \<Rightarrow> session \<Rightarrow> bool" where
  "verified_here E now p v s \<longleftrightarrow> (\<exists>slot slot' iss s0. verify_share (en_hashes E) slot p (share_policy E now iss s0) = Some (slot', Inr v)
     \<and> hand s0 = hand s \<and> (iss = None \<or> iss \<in> (Some \<circ> ic_outputs) ` set (se_coinbasers s)))"

definition lawful_share :: "session_env \<Rightarrow> u64 \<Rightarrow> pow_submit \<Rightarrow> session \<times> pool \<Rightarrow> pool \<Rightarrow> bool" where
  "lawful_share E now p x P' \<longleftrightarrow> pl_shared P' = pl_shared (snd x)
     \<or> (\<exists>v. verified_here E now p v (fst x) \<and> share_effect (in_standing E now x) E now p v (snd x) P')"

lemma lawful_cong:
  assumes "lawful_share E now p y P'" "hand (fst y) = hand (fst x)" "pl_faults (snd y) = pl_faults (snd x)" "pool_core (snd y) = pool_core (snd x)"
  shows "lawful_share E now p x P'"
proof -
  have c: "se_coinbasers (fst y) = se_coinbasers (fst x)" using assms(2) by (simp add: hand_def)
  show ?thesis using assms(1,2,4) in_standing_cong [OF assms(2,3)] by (simp add: lawful_share_def verified_here_def share_effect_def pool_core_def c)
qed

lemma hold_faults [simp]: "pl_faults (snd (hold_on_pool_script E t x)) = pl_faults (snd x)"
  by (simp add: hold_on_pool_script_def case_prod_beta Let_def)

lemma find_in_set: "find Q xs = Some y \<Longrightarrow> y \<in> set xs"
  by (auto simp: find_Some_iff)

lemma issued_forD: "issued_for i prev h s = Some c \<Longrightarrow> c \<in> set (se_coinbasers s)"
  using find_in_set [of _ "rev (se_coinbasers s)" c] by (auto simp: issued_for_def issued_def split: option.splits if_splits)

lemma checked_lawful:
  assumes "on_checked E t now p (share_identity E p) j c x = Some (e, y)"
  shows "lawful_share E now p x (snd y)"
proof -
  obtain s P where x: "x = (s, P)" by (rule prod.exhaust)
  from assms [unfolded x] obtain iss pol slot s1 where iss: "iss = map_option ic_outputs (issued_for (jb_coinbaser_id j) (jb_prev_hash j) (jb_height j) s)"
    and pol: "pol = share_policy E now iss s" and s1: "s1 = s\<lparr>se_slots := (se_slots s)[ps_job_id p := slot]\<rparr>"
    and d: "(\<exists>code b x. verify_share (en_hashes E) (se_slots s ! ps_job_id p) p pol = Some (slot, Inl code)
        \<and> reject E t p code (s1, P) = (e, x) \<and> y = (if b then hold_on_pool_script E t x else x))
     \<or> (\<exists>v b. verify_share (en_hashes E) (se_slots s ! ps_job_id p) p pol = Some (slot, Inr v)
        \<and> on_verified E t now p (share_identity E p) j c (se_gateway_script s) iss v (if b then hold_on_pool_script E t (s1, P) else (s1, P)) = Some (e, y))"
    by (rule on_checkedE)
  have h1: "hand s1 = hand s" by (simp add: s1 hand_def)
  show ?thesis using d
  proof (elim disjE exE conjE)
    fix code b z assume z: "reject E t p code (s1, P) = (e, z)" "y = (if b then hold_on_pool_script E t z else z)"
    have "pool_core (snd y) = pool_core P" using reject_coreD [OF z(1)] z(2) by simp
    then show ?thesis by (simp add: lawful_share_def x pool_core_def)
  next
    fix v b assume v: "verify_share (en_hashes E) (se_slots s ! ps_job_id p) p pol = Some (slot, Inr v)"
      and o: "on_verified E t now p (share_identity E p) j c (se_gateway_script s) iss v (if b then hold_on_pool_script E t (s1, P) else (s1, P)) = Some (e, y)"
    let ?x = "if b then hold_on_pool_script E t (s1, P) else (s1, P)"
    have c: "hand (fst ?x) = hand s" "pool_core (snd ?x) = pool_core P" "pl_faults (snd ?x) = pl_faults P" using h1 by simp_all
    have "iss = None \<or> iss \<in> (Some \<circ> ic_outputs) ` set (se_coinbasers s)"
      using iss issued_forD by (cases "issued_for (jb_coinbaser_id j) (jb_prev_hash j) (jb_height j) s") auto
    then have "verified_here E now p v s" unfolding verified_here_def using v pol by blast
    moreover have "in_standing E now ?x = in_standing E now (s, P)" using c by (intro in_standing_cong) simp_all
    ultimately show ?thesis using verified_effect [OF o] c(2) by (auto simp: lawful_share_def x share_effect_def pool_core_def)
  qed
qed

lemma check_chain_faults: "check_chain E t N j x = Some (c, y) \<Longrightarrow> pl_faults (snd y) = pl_faults (snd x)"
  by (auto simp: check_chain_def refresh_locked_def case_prod_beta Let_def split: option.splits bind_splits if_splits)

lemma reject_lawful: "reject E t p code y = (e, z) \<Longrightarrow> pool_core (snd y) = pool_core (snd x) \<Longrightarrow> lawful_share E now p x (snd z)"
  using reject_coreD [of E t p code y e z] by (simp add: lawful_share_def pool_core_def)

lemma job_lawful:
  assumes "on_job E t now N p (share_identity E p) j x = Some (e, y)"
  shows "lawful_share E now p x (snd y)"
proof -
  obtain c s P where c: "check_chain E t N j x = Some (c, s, P)" using assms(1) by (auto simp: on_job_def split: bind_splits)
  have k: "hand s = hand (fst x)" "pl_faults P = pl_faults (snd x)" "pool_core P = pool_core (snd x)"
    using check_chain_proj [OF c] check_chain_faults [OF c] check_chain_core [OF c] by simp_all
  have chk: "lawful_share E now p x (snd y)" if "on_checked E t now p (share_identity E p) j c (s, P') = Some (e, y)"
    "pl_faults P' = pl_faults P" "pool_core P' = pool_core P" for P'
    using lawful_cong [OF checked_lawful [OF that(1)], of x] k that(2,3) by simp
  show ?thesis
  proof (cases "Option.bind c check_code")
    case (Some code)
    then have "reject E t p code (s, P) = (e, y)" using assms(1) c by (simp add: on_job_def)
    then show ?thesis by (rule reject_lawful) (simp add: k)
  next
    case None
    obtain v es where v: "parent_verdict (hex_of (rev (jb_prev_hash j))) (nr_header N) (nr_tips N) (jb_prev_hash j) t (pl_parents P) = (v, es)" by (rule prod.exhaust)
    have "on_checked E t now p (share_identity E p) j c (s, P) = Some (e, y) \<or> on_checked E t now p (share_identity E p) j c (s, P\<lparr>pl_parents := es\<rparr>) = Some (e, y)
        \<or> y = refuse_dead_parent t p (s, P\<lparr>pl_parents := es\<rparr>)"
      using assms(1) c None v by (auto simp: on_job_def split: if_splits)
    then show ?thesis
    proof (elim disjE)
      assume "y = refuse_dead_parent t p (s, P\<lparr>pl_parents := es\<rparr>)"
      then have "pool_core (snd y) = pool_core (snd x)" using k by simp
      then show ?thesis by (simp add: lawful_share_def pool_core_def)
    qed (rule chk, assumption, simp_all)+
  qed
qed

lemma pow_lawful:
  assumes "on_pow E t now N p x = Some (e, y)"
  shows "lawful_share E now p x (snd y)"
proof -
  obtain s P where x: "x = (s, P)" by (rule prod.exhaust)
  show ?thesis
  proof (cases "ps_job_id p \<ge> length (se_slots s) \<or> \<not> identity_fine (share_identity E p)")
    case True
    then obtain code where "reject E t p code (s, P) = (e, y)" using assms by (auto simp: on_pow_def Let_def x split: if_splits)
    then show ?thesis by (rule reject_lawful) (simp add: x)
  next
    case False
    then obtain r s1 where t: "take_sections (en_cfg E) p s = Some (r, s1)" using assms by (auto simp: on_pow_def Let_def x split: bind_splits)
    have "(\<exists>code. reject E t p code (s1, P) = (e, y)) \<or> (\<exists>j. on_job E t now N p (share_identity E p) j (s1, P) = Some (e, y))"
      using assms False t by (auto simp: on_pow_def x Let_def split: option.splits)
    then show ?thesis
    proof (elim disjE exE)
      fix code assume "reject E t p code (s1, P) = (e, y)"
      then show ?thesis by (rule reject_lawful) (simp add: x)
    next
      fix j assume "on_job E t now N p (share_identity E p) j (s1, P) = Some (e, y)"
      from lawful_cong [OF job_lawful [OF this], of x] show ?thesis using take_sections_hand [OF t] by (simp add: x)
    qed
  qed
qed

section \<open>One receipt per share\<close>

definition receipts :: "session \<Rightarrow> byte list list" where
  "receipts s = filter (\<lambda>m. m \<noteq> [] \<and> hd m = of_nat SUB_SHARE_RECEIPT) (map snd (se_sent s))"

definition share_tally :: "session \<times> pool \<Rightarrow> byte list list \<times> nat \<times> nat" where
  "share_tally x = (receipts (fst x), tt_accepted (pl_totals (snd x)), tt_rejected (pl_totals (snd x)))"

text \<open>One receipt more, for this share; and one more share in the count its receipt names.\<close>

definition refused_tally :: "pow_submit \<Rightarrow> u16 \<Rightarrow> byte list list \<times> nat \<times> nat \<Rightarrow> byte list list \<times> nat \<times> nat" where
  "refused_tally p code = (\<lambda>(rs, a, r). (rs @ [share_receipt REJECTED code (ps_nonce32 p) (ps_target_pot p) (ps_job_id p)], a, r + 1))"

definition taken_tally :: "pow_submit \<Rightarrow> u8 \<Rightarrow> byte list list \<times> nat \<times> nat \<Rightarrow> byte list list \<times> nat \<times> nat" where
  "taken_tally p status = (\<lambda>(rs, a, r). (rs @ [share_receipt status 0 (ps_nonce32 p) (ps_target_pot p) (ps_job_id p)], a + 1, r))"

definition answers :: "pow_submit \<Rightarrow> session \<times> pool \<Rightarrow> session \<times> pool \<Rightarrow> bool" where
  "answers p x y \<longleftrightarrow> share_tally y \<in> insert (taken_tally p ACCEPTED (share_tally x)) (insert (taken_tally p ACCEPTED_TENTATIVELY (share_tally x))
     (range (\<lambda>code. refused_tally p code (share_tally x))))"

lemmas message_codes = SUB_SHARE_RECEIPT_def SUB_CONFIGURE_def SUB_JOB_VALIDATION_def SUB_BLOCK_NOTIFY_def

lemma receipts_send:
  "receipts (send_mining t m b s) = (if m \<noteq> [] \<and> hd m = of_nat SUB_SHARE_RECEIPT then receipts s @ [m] else receipts s)"
  by (simp add: receipts_def send_mining_def)

lemma receipts_send_receipt:
  "receipts (send_receipt t st c p s) = receipts s @ [share_receipt st c (ps_nonce32 p) (ps_target_pot p) (ps_job_id p)]"
  by (simp add: send_receipt_def receipts_send share_receipt_def)

lemma receipts_other [simp]:
  "receipts (send_configure_script E t x g s) = receipts s" "receipts (send_mining t (request_full_block k) b s) = receipts s"
  "receipts (send_mining t block_notify b s) = receipts s"
  by (simp_all add: send_configure_script_def receipts_send request_full_block_def block_notify_def configure_body_def configure_v1_def configure_v3_def
      message_codes Let_def split: generation.splits) (simp_all add: receipts_def send_mining_def configure_body_def configure_v1_def configure_v3_def
      message_codes split: generation.splits)

lemma receipts_update [simp]:
  "receipts (se_slots_update f0 s) = receipts s" "receipts (se_gateway_script_update f1 s) = receipts s" "receipts (se_gateway_identity_update f2 s) = receipts s"
  "receipts (se_restore_script_at_update f3 s) = receipts s" "receipts (se_held_update f4 s) = receipts s"
  "receipts (se_identity_work_update f5 s) = receipts s" "receipts (se_pins_script_update f6 s) = receipts s"
  "receipts (se_class_budget_update f7 s) = receipts s" "receipts (se_pool_only_shares_update f8 s) = receipts s"
  "receipts (se_pool_only_full_jobs_update f9 s) = receipts s" "receipts (se_template_check_due_update f10 s) = receipts s"
  "receipts (se_template_check_update f11 s) = receipts s" "receipts (se_template_check_asked_update f12 s) = receipts s"
  "receipts (se_suspect_update f13 s) = receipts s" "receipts (se_tip_asked_update f14 s) = receipts s"
  "receipts (se_candidate_at_update f15 s) = receipts s" "receipts (se_pending_blocks_update f16 s) = receipts s"
  "receipts (se_recent_rejects_update f17 s) = receipts s" "receipts (se_configured_as_gateway_update f18 s) = receipts s"
  "receipts (se_split_ready_update f19 s) = receipts s" "receipts (se_live_slots_update f20 s) = receipts s"
  "receipts (se_coinbase_bytes_update f21 s) = receipts s"
  by (simp_all add: receipts_def)

lemma receipts_stage [simp]:
  "receipts (snd (note_reject E t s)) = receipts s" "receipts (add_identity_work i w s) = receipts s" "receipts (snd (note_held x s)) = receipts s"
  "receipts (follow_held_split E t b s) = receipts s" "receipts (note_partial_share E t p j iss cb s) = receipts s"
  by (simp_all add: note_reject_def add_identity_work_def note_held_def follow_held_split_def note_partial_share_def expire_class_budget_def
      case_prod_beta Let_def split: option.splits bool.splits)

lemma tally_neutral [simp]:
  "share_tally (hold_on_pool_script E t x) = share_tally x" "share_tally (note_pool_only_share p x) = share_tally x"
  "share_tally (maybe_check_template E t n c prev p v x) = share_tally x"
  by (simp_all add: share_tally_def hold_on_pool_script_def note_pool_only_share_def maybe_check_template_def tick_up_def case_prod_beta Let_def)

lemma tally_identity [simp]: "share_tally (note_identity E t i w x) = share_tally x"
  by (simp add: share_tally_def note_identity_def case_prod_beta Let_def split: option.splits)

lemma tally_vote [simp]: "share_tally (vote_share E t i v x) = share_tally x"
  using tally_identity [of E t i "vs_work v" x] by (simp add: vote_share_def share_tally_def case_prod_beta)

lemma tally_floor [simp]: "share_tally (s, count_floor E v P) = share_tally (s, P)"
  by (simp add: share_tally_def count_floor_def tick_up_def)

lemma tally_pool [simp]:
  "share_tally (s, pl_shared_update f1 P) = share_tally (s, P)" "share_tally (s, pl_seen_update f2 P) = share_tally (s, P)" "share_tally (s, pl_faults_update f3 P) = share_tally (s, P)"
  "share_tally (s, pl_parents_update f4 P) = share_tally (s, P)" "share_tally (s, pl_tip_update f5 P) = share_tally (s, P)" "share_tally (s, pl_notified_update f6 P) = share_tally (s, P)"
  by (simp_all add: share_tally_def)

lemma tally_look_up: "look_up_share v P = (a, P') \<Longrightarrow> share_tally (s, P') = share_tally (s, P)"
  by (auto simp: look_up_share_def split: if_splits prod.splits)

lemma tally_fault: "fault_of E n (s, P) = (f, P') \<Longrightarrow> share_tally (s, P') = share_tally (s, P)"
  by (auto simp: fault_of_def split: prod.splits if_splits)

lemma tally_chain: "check_chain E t N j x = Some (c, y) \<Longrightarrow> share_tally y = share_tally x"
  by (auto simp: check_chain_def refresh_locked_def share_tally_def case_prod_beta Let_def split: option.splits bind_splits if_splits prod.splits)

lemma tally_sections: "take_sections cfg p s = Some (r, s') \<Longrightarrow> share_tally (s', P) = share_tally (s, P)"
  by (auto simp: share_tally_def take_sections_def Let_def touch_slot_def drop_coinbase_def split: prod.splits sum.splits bind_splits if_splits option.splits)

lemma tally_candidate: "on_candidate E t n p v f x = Some y \<Longrightarrow> share_tally y = share_tally x"
  by (auto simp: on_candidate_def share_tally_def tick_up_def case_prod_beta Let_def split: bind_splits)

lemma answers_cong: "answers p x y \<Longrightarrow> share_tally x = share_tally x' \<Longrightarrow> share_tally y' = share_tally y \<Longrightarrow> answers p x' y'"
  by (simp add: answers_def)

lemma refuse_tally: "share_tally (refuse t p c x) = refused_tally p c (share_tally x)"
  by (simp add: refuse_def refused_tally_def share_tally_def receipts_send_receipt tick_up_def case_prod_beta)

lemma answers_refuse: "share_tally y = share_tally (refuse t p c x') \<Longrightarrow> share_tally x' = share_tally x \<Longrightarrow> answers p x y"
  by (simp add: answers_def refuse_tally)

lemma answers_reject:
  assumes "reject E t p c x' = (e, y)" "share_tally x' = share_tally x"
  shows "answers p x y"
proof -
  obtain s P where r: "refuse t p c x' = (s, P)" by (rule prod.exhaust)
  obtain e' s1 where "note_reject E t s = (e', s1)" by (rule prod.exhaust)
  then have "y = (s1, P)" "receipts s1 = receipts s" using assms(1) receipts_stage(1) [of E t s] r by (auto simp: reject_def)
  then have "share_tally y = share_tally (refuse t p c x')" by (simp add: share_tally_def r)
  then show ?thesis using assms(2) by (rule answers_refuse)
qed

lemma tally_accepted:
  "share_tally (note_accepted E t n p j c iss v r x) = (receipts (fst x), tt_accepted (pl_totals (snd x)) + 1, tt_rejected (pl_totals (snd x)))"
proof -
  have c: "share_tally (s, count_accepted v r P) = (receipts s, tt_accepted (pl_totals P) + 1, tt_rejected (pl_totals P))" for s P
    by (simp add: share_tally_def count_accepted_def tick_up_def split: coinbase_kind.splits)
  have "share_tally (map_prod id (count_floor E v) z) = share_tally z" for z by (cases z) simp
  then show ?thesis by (simp add: note_accepted_def case_prod_beta Let_def c split: coinbase_kind.splits)
qed

lemma answers_accept:
  assumes "accept_share E t n p i j c gw iss v x = Some y"
  shows "answers p x y"
proof -
  obtain r x2 where a: "y = (send_receipt t (if vs_coinbase_kind v = Split then ACCEPTED else ACCEPTED_TENTATIVELY) 0 p (fst x2), snd x2)"
    "if vs_is_block_candidate v \<and> c \<noteq> None then on_candidate E t n p v i (note_accepted E t n p j c iss v r x) = Some x2
     else x2 = note_accepted E t n p j c iss v r x"
    using assms by (rule accept_shareE)
  have "share_tally x2 = share_tally (note_accepted E t n p j c iss v r x)" using a(2) tally_candidate [of E t n p v i _ x2] by (simp split: if_splits)
  then have "receipts (fst x2) = receipts (fst x)" "tt_accepted (pl_totals (snd x2)) = tt_accepted (pl_totals (snd x)) + 1"
    "tt_rejected (pl_totals (snd x2)) = tt_rejected (pl_totals (snd x))" unfolding tally_accepted by (simp_all add: share_tally_def)
  then show ?thesis by (auto simp: a(1) answers_def taken_tally_def share_tally_def receipts_send_receipt)
qed

lemma answers_fresh:
  assumes "on_fresh E t n p i j c gw iss v x = Some (e, y)"
  shows "answers p x y"
  using assms
proof (cases rule: on_freshE)
  case (refused s P l)
  then show ?thesis using tally_vote [of E t i v x] by (intro answers_reject [OF refused(4) [symmetric]]) simp
next
  case (accepted s P l)
  then show ?thesis using tally_vote [of E t i v x] by (intro answers_cong [OF answers_accept [OF accepted(3)]]) simp_all
qed

lemma answers_faulted:
  assumes "refuse_faulted E t n p v c prev i x = Some y"
  shows "answers p x y"
proof -
  let ?x1 = "refuse t p REJECT_OTHER (fst x, tick_up (\<lambda>T. T\<lparr>tt_faulted_shares := tt_faulted_shares T + 1\<rparr>) (snd x))"
  let ?x2 = "maybe_check_template E t n c prev p v ?x1"
  have "y = ?x2 \<or> on_candidate E t n p v i ?x2 = Some y"
    using assms by (auto simp: refuse_faulted_def case_prod_beta Let_def split: if_splits)
  then have "share_tally y = share_tally ?x1" using tally_candidate [of E t n p v i ?x2 y] by (elim disjE) simp_all
  then show ?thesis by (rule answers_refuse) (simp add: share_tally_def tick_up_def)
qed

lemma answers_verified:
  assumes "on_verified E t n p i j c gw iss v x = Some (e, y)"
  shows "answers p x y"
proof -
  obtain s P where x: "x = (s, P)" by (rule prod.exhaust)
  from assms [unfolded x] show ?thesis
  proof (cases rule: on_verifiedE)
    case (known_share P1 code)
    then show ?thesis using tally_look_up by (intro answers_reject [OF known_share(2) [symmetric]]) (auto simp: x)
  next
    case (faulted P1 P2 f)
    then show ?thesis using tally_look_up tally_fault by (intro answers_cong [OF answers_faulted [OF faulted(3)]]) (auto simp: x)
  next
    case (fresh P1 P2)
    then show ?thesis using tally_look_up tally_fault by (intro answers_cong [OF answers_fresh [OF fresh(3)]]) (auto simp: x)
  qed
qed

lemma answers_checked:
  assumes "on_checked E t n p i j c x = Some (e, y)"
  shows "answers p x y"
proof -
  obtain s P where x: "x = (s, P)" by (rule prod.exhaust)
  from assms [unfolded x] obtain iss pol slot s1 where s1: "s1 = s\<lparr>se_slots := (se_slots s)[ps_job_id p := slot]\<rparr>"
    and d: "(\<exists>code b x. verify_share (en_hashes E) (se_slots s ! ps_job_id p) p pol = Some (slot, Inl code)
        \<and> reject E t p code (s1, P) = (e, x) \<and> y = (if b then hold_on_pool_script E t x else x))
     \<or> (\<exists>v b. verify_share (en_hashes E) (se_slots s ! ps_job_id p) p pol = Some (slot, Inr v)
        \<and> on_verified E t n p i j c (se_gateway_script s) iss v (if b then hold_on_pool_script E t (s1, P) else (s1, P)) = Some (e, y))"
    by (rule on_checkedE)
  have t1: "share_tally (s1, P) = share_tally x" by (simp add: s1 x share_tally_def)
  show ?thesis using d
  proof (elim disjE exE conjE)
    fix code b z assume z: "reject E t p code (s1, P) = (e, z)" "y = (if b then hold_on_pool_script E t z else z)"
    show ?thesis by (rule answers_cong [OF answers_reject [OF z(1) t1]]) (simp_all add: z(2))
  next
    fix v b assume "on_verified E t n p i j c (se_gateway_script s) iss v (if b then hold_on_pool_script E t (s1, P) else (s1, P)) = Some (e, y)"
    from answers_cong [OF answers_verified [OF this]] show ?thesis using t1 by simp
  qed
qed

lemma answers_job:
  assumes "on_job E t n N p i j x = Some (e, y)"
  shows "answers p x y"
proof -
  obtain c s P where c: "check_chain E t N j x = Some (c, s, P)" using assms(1) by (auto simp: on_job_def split: bind_splits)
  note k = tally_chain [OF c]
  obtain v es where v: "parent_verdict (hex_of (rev (jb_prev_hash j))) (nr_header N) (nr_tips N) (jb_prev_hash j) t (pl_parents P) = (v, es)" by (rule prod.exhaust)
  consider (code) code where "reject E t p code (s, P) = (e, y)"
    | (checked) P' where "on_checked E t n p i j c (s, P') = Some (e, y)" "share_tally (s, P') = share_tally (s, P)"
    | (dead) "y = refuse_dead_parent t p (s, P\<lparr>pl_parents := es\<rparr>)"
    using assms c v by (auto simp: on_job_def split: if_splits option.splits)
  then show ?thesis
  proof cases
    case code
    then show ?thesis using k by (rule answers_reject)
  next
    case checked
    then show ?thesis using k by (intro answers_cong [OF answers_checked [OF checked(1)]]) simp_all
  next
    case dead
    let ?s1 = "if se_suspect s then s else s\<lparr>se_suspect := True, se_template_check_due := t\<rparr>"
    let ?P1 = "tick_up (\<lambda>T. T\<lparr>tt_dead_parent_shares := tt_dead_parent_shares T + 1\<rparr>) (P\<lparr>pl_parents := es\<rparr>)"
    have "y = refuse t p REJECT_STALE_BLOCK (?s1, ?P1)" using dead by (simp add: refuse_dead_parent_def Let_def)
    then have "share_tally y = share_tally (refuse t p REJECT_STALE_BLOCK (?s1, ?P1))" by simp
    moreover have "share_tally (?s1, ?P1) = share_tally x" using k by (simp add: share_tally_def tick_up_def)
    ultimately show ?thesis by (rule answers_refuse)
  qed
qed

lemma answers_pow:
  assumes "on_pow E t n N p x = Some (e, y)"
  shows "answers p x y"
proof -
  obtain s P where x: "x = (s, P)" by (rule prod.exhaust)
  consider (code) code s1 where "reject E t p code (s1, P) = (e, y)" "share_tally (s1, P) = share_tally x"
    | (job) j s1 where "on_job E t n N p (share_identity E p) j (s1, P) = Some (e, y)" "share_tally (s1, P) = share_tally x"
    using assms by (auto simp: on_pow_def x Let_def split: if_splits option.splits bind_splits dest!: tally_sections [of _ _ _ _ _ P])
  then show ?thesis
  proof cases
    case code
    then show ?thesis by (rule answers_reject)
  next
    case job
    then show ?thesis by (intro answers_cong [OF answers_job [OF job(1)]]) simp_all
  qed
qed

section \<open>A share that is taken\<close>

definition ex_pow_share :: pow_submit where
  "ex_pow_share = ex_share\<lparr>ps_username := ascii ''BC1QA''\<rparr>"

definition ex_share_env :: session_env where
  "ex_share_env = ex_senv\<lparr>en_pool_script := [0x00, 0x14, 0x11]\<rparr>"

definition ex_replies :: node_replies where
  "ex_replies = \<lparr>nr_info = None, nr_header = HeaderFailed, nr_tips = None\<rparr>"

lemma ex_identity: "share_identity ex_share_env ex_pow_share = ''bc1qa''"
proof -
  have "text_of (ascii ''BC1QA'') = ''BC1QA''" by code_simp
  then show ?thesis
    by (simp add: share_identity_def ex_share_env_def ex_senv_def ex_env_def ex_pow_share_def identity_of_def trim_ex canonical_identity_def ex_codecs_def lower_ex)
qed

lemma ex_share_slot:
  "absorb ex_pow_share empty_slot = (ex_slot, Inr \<lparr>ab_job_changed = True, ab_coinbase_added = Some 2\<rparr>)"
  using length_ex_coinbase by (simp add: absorb_def absorb_job_def absorb_coinbase_def ex_pow_share_def ex_share_def ex_slot_def Let_def
      empty_slot_def section_bytes_def slot_limits)

lemma ex_bytes: "coinbase_bytes ex_slot \<le> 160000"
  using slot_stays_small [OF ex_reach] by blast

definition ex_absorbed :: session where
  "ex_absorbed = ex_session\<lparr>se_slots := (replicate MAX_JOB_SLOTS empty_slot)[Suc 0 := ex_slot], se_live_slots := [Suc 0], se_coinbase_bytes := coinbase_bytes ex_slot\<rparr>"

lemma ex_take: "take_sections ex_cfg ex_pow_share ex_session = Some (None, ex_absorbed)"
proof -
  have s: "se_slots ex_session = replicate MAX_JOB_SLOTS empty_slot" "se_live_slots ex_session = []" by (simp_all add: ex_session_def new_session_def)
  have i: "ps_job_id ex_pow_share = Suc 0" by (simp add: ex_pow_share_def ex_share_def)
  have n: "sum_list (map coinbase_bytes ((replicate MAX_JOB_SLOTS empty_slot)[Suc 0 := ex_slot])) = coinbase_bytes ex_slot"
    using sum_list_update_nat [of "Suc 0" "replicate MAX_JOB_SLOTS empty_slot" coinbase_bytes ex_slot]
    by (simp add: MAX_JOB_SLOTS_def coinbase_bytes_def empty_slot_def sum_list_replicate map_replicate)
  show ?thesis
    using ex_bytes n [unfolded MAX_JOB_SLOTS_def] by (simp add: sum_u64_eq take_sections_def i s ex_share_slot touch_slot_def Let_def ex_absorbed_def ex_cfg_def MAX_LIVE_SLOTS_def MAX_JOB_SLOTS_def)
qed

lemma ex_share_verifies:
  assumes "po_pool_script pol = [0x00, 0x14, 0x11]" "po_issued pol = None" "po_gateway_script pol = None" "po_now pol = 0"
  shows "\<exists>slot' v. verify_share ex_hashes ex_slot ex_pow_share pol = Some (slot', Inr v) \<and> vs_coinbase_kind v = PoolOnly"
proof -
  obtain c where c: "parse_coinbase (fst ex_coinbase) = Inr c" "cb_outputs c = ex_outs" "cb_height c = Some 7"
    using built_parses [OF _ _ _ _ _ _ ex_coinbase_eq] by (auto simp: ex_outs_def tx_out_ok_def)
  obtain t where t: "share_target_le 32 = Some t" "length t = 32"
    by (rule share_target_value [of 32]) (auto intro: that)
  have hash: "ground_hash ex_hashes j s b h = replicate 32 0" for j s b h
    by (simp add: ground_hash_def pow_hash_le_def xor_mask_def blake2b256_def ex_hashes_def Let_def list_all_iff zip_replicate)
  have meets: "meets_target (replicate 32 0) t" using t(2) by (simp add: meets_target_nat)
  have sh: "coinbase_id_for ex_pow_share = 2" "ps_target_pot ex_pow_share = 32" "is_blake2b ex_pow_share"
    "ps_blake2b ex_pow_share = Some \<lparr>bl_ntime = replicate 8 0, bl_nonce = replicate 8 0\<rparr>" "ps_time_on_wire ex_pow_share = Some 1000"
    by (simp_all add: coinbase_id_for_def subsidy_only_def is_blake2b_def ex_pow_share_def ex_share_def)
  have leg: "legacy_of ex_job \<lparr>cs_coinbase_id = 2, cs_coinb1 = fst ex_coinbase, cs_coinb2 = []\<rparr> n = fst ex_coinbase" for n
    by (simp add: legacy_of_def assemble_def is_whole_def ex_job_def)
  have kind: "classify_coinbase c pol b n m = Some PoolOnly" for b n m
    by (simp add: classify_coinbase_def classify_outputs_def c ex_outs_def assms is_op_return_def no_scan_def classify_rest_def Let_def)
  have jb: "jb_height ex_job = 7" "jb_txn_count ex_job = 1" by (simp_all add: ex_job_def)
  show ?thesis
    by (simp add: verify_share_def t(1) sh verify_with_target_def ex_slot_simps coinbase_entry_def leg c jb
        verify_work_def kind assms conventions_def attempt_def hash meets Let_def share_of_def)
qed

lemma credit_total:
  assumes "l_rows_on_disk l < u64_max" "l_window l = new_window"
  shows "ledger_credit s w h ts src l \<noteq> None"
  using assms by (simp add: ledger_credit_def credit_row_def new_window_def intern_def total_entry_def Let_def split: prod.splits)

lemma ex_credit_total: "credit_share E now i v s (sh_ledger ex_pool) \<noteq> None"
proof -
  have "ledger_credit i w h ts src l1 \<noteq> None" if "source_for i ts b g (sh_ledger ex_pool) = (src, l1)" for w h ts src l1 b g
    using that by (intro credit_total) (auto simp: source_for_def ex_pool_def ex_ledger_def Let_def split: if_splits prod.splits)
  moreover have "ledger_credit i w h ts src (sh_ledger ex_pool) \<noteq> None" for w h ts src
    by (intro credit_total) (simp_all add: ex_pool_def ex_ledger_def)
  ultimately show ?thesis by (cases "vs_work v > 0") (auto simp: credit_share_def Let_def split: prod.splits)
qed

lemma ex_fresh_total:
  assumes "pl_shared (snd x) = ex_pool"
  shows "on_fresh E t now p i j None None iss v x \<noteq> None"
proof -
  obtain s P where v: "vote_share E t i v x = (s, P)" by (rule prod.exhaust)
  have "pl_shared P = ex_pool" using vote_core [of E t i v x] v assms by (simp add: pool_core_def)
  moreover have "accept_share E t now p i j None None iss v y \<noteq> None" for y by (simp add: accept_share_def gateway_remainder_def Let_def)
  moreover obtain b l where "credit_share E now i v s (sh_ledger ex_pool) = Some (b, l)" using ex_credit_total [of E now i v s] by auto
  ultimately show ?thesis using v by (cases b) (simp_all add: on_fresh_def Let_def reject_def case_prod_beta)
qed

lemma ex_pow_returns: "\<exists>e s' P'. on_pow ex_share_env 0 0 ex_replies ex_pow_share (ex_session, ex_world) = Some (e, s', P')"
proof -
  let ?E = ex_share_env
  let ?i = "share_identity ?E ex_pow_share"
  have E: "en_cfg ?E = ex_cfg" "en_hashes ?E = ex_hashes" "en_pool_script ?E = [0x00, 0x14, 0x11]"
    by (simp_all add: ex_share_env_def ex_senv_def)
  have i: "ps_job_id ex_pow_share = Suc 0" by (simp add: ex_pow_share_def ex_share_def)
  have f: "identity_fine ?i" unfolding ex_identity by (simp add: identity_fine_def is_ascii_graphic_def)
  have slots: "se_slots ex_absorbed ! Suc 0 = ex_slot" by (simp add: ex_absorbed_def MAX_JOB_SLOTS_def)
  have gw: "se_gateway_script ex_absorbed = None" "issued_for k prev h ex_absorbed = None" for k prev h
    by (simp_all add: ex_absorbed_def ex_session_def new_session_def issued_for_def issued_def)
  obtain slot' v where v: "verify_share ex_hashes ex_slot ex_pow_share (share_policy ?E 0 None ex_absorbed) = Some (slot', Inr v)"
    "vs_coinbase_kind v = PoolOnly"
    using ex_share_verifies [of "share_policy ?E 0 None ex_absorbed"] by (auto simp: share_policy_def E gw)
  have ver: "on_verified ?E 0 0 ex_pow_share ?i ex_job None None None v (s, ex_world) \<noteq> None" for s
  proof -
    obtain a P1 where l: "look_up_share v ex_world = (a, P1)" by (rule prod.exhaust)
    obtain g P2 where g: "fault_of ?E 0 (s, P1) = (g, P2)" by (rule prod.exhaust)
    have "pl_shared P2 = ex_pool" using look_up_shared [OF l] fault_core [OF g] by (simp add: pool_core_def ex_world_def)
    then have "on_fresh ?E 0 0 ex_pow_share ?i ex_job None None None v (s, P2) \<noteq> None" by (intro ex_fresh_total) simp
    then show ?thesis using l g by (cases a; cases g) (simp_all add: on_verified_def refuse_faulted_def Let_def)
  qed
  have c: "check_chain ?E 0 ex_replies ex_job (ex_absorbed, ex_world) = Some (None, ex_absorbed, ex_world)" by (simp add: check_chain_def ex_world_def)
  have "on_job ?E 0 0 ex_replies ex_pow_share ?i ex_job (ex_absorbed, ex_world) \<noteq> None"
    using ver [of "ex_absorbed\<lparr>se_slots := (se_slots ex_absorbed)[Suc 0 := slot']\<rparr>"]
    by (simp add: on_job_def c on_checked_def gw v slots i E Let_def)
  moreover have "length (se_slots ex_session) = 256" by (simp add: ex_session_def new_session_def MAX_JOB_SLOTS_def)
  ultimately have "on_pow ?E 0 0 ex_replies ex_pow_share (ex_session, ex_world) \<noteq> None"
    by (simp add: on_pow_def Let_def i f E ex_take slots ex_slot_simps)
  then show ?thesis by (cases "on_pow ?E 0 0 ex_replies ex_pow_share (ex_session, ex_world)") auto
qed

section \<open>Properties\<close>

text \<open>
  C16. A share moves the pool's books only as it should. Either the ledger, the files and the block log are as
  they were, or the share was verified under the policy of its session, against the outputs of a coinbaser issued on this
  session if any, and is new: its hash was not in the set of shares seen at its height, and is now. Then the ledger is as it was or has the share's
  work credited to the identity the share names, which takes a coinbase that is not solo and a gateway that is not
  faulted; and beyond that nothing moved, or the share is a block and is booked.
\<close>

theorem share_moves_books_lawfully:
  assumes "on_pow E t now N p (s, P) = Some (e, s', P')"
  shows "pl_shared P' = pl_shared P
    \<or> (\<exists>v l. verified_here E now p v s \<and> counted_new v (pl_seen P) (pl_seen P')
        \<and> (l = sh_ledger (pl_shared P) \<or> in_standing E now (s, P) \<and> credits_share E now p v (sh_ledger (pl_shared P)) l)
        \<and> (pl_shared P' = (pl_shared P)\<lparr>sh_ledger := l\<rparr> \<or> books_found E now v ((pl_shared P)\<lparr>sh_ledger := l\<rparr>) (pl_shared P')))"
  using pow_lawful [OF assms] by (auto simp: lawful_share_def share_effect_def share_moves_def)

theorem share_moves_books_lawfully_witness:
  "\<exists>e s' P'. on_pow ex_share_env 0 0 ex_replies ex_pow_share (ex_session, ex_world) = Some (e, s', P') \<and> (pl_shared P' = ex_pool
    \<or> (\<exists>v l. verified_here ex_share_env 0 ex_pow_share v ex_session \<and> counted_new v no_shares (pl_seen P')
        \<and> (l = sh_ledger ex_pool \<or> in_standing ex_share_env 0 (ex_session, ex_world) \<and> credits_share ex_share_env 0 ex_pow_share v (sh_ledger ex_pool) l)
        \<and> (pl_shared P' = ex_pool\<lparr>sh_ledger := l\<rparr> \<or> books_found ex_share_env 0 v (ex_pool\<lparr>sh_ledger := l\<rparr>) (pl_shared P'))))"
proof -
  have w: "pl_shared ex_world = ex_pool" "pl_seen ex_world = no_shares" by (simp_all add: ex_world_def)
  obtain e s' P' where o: "on_pow ex_share_env 0 0 ex_replies ex_pow_share (ex_session, ex_world) = Some (e, s', P')" using ex_pow_returns by blast
  show ?thesis by (intro exI conjI, rule o, rule share_moves_books_lawfully [OF o, unfolded w])
qed

text \<open>
  C17. Every share is answered exactly once. Whatever path it takes, the session sends one receipt more, which
  carries the share's nonce, target and job: a refusal with a code, and the pool's count of refused shares is one higher;
  or an acceptance without one, and the count of accepted shares is one higher.
\<close>

theorem share_answered_once:
  assumes "on_pow E t now N p (s, P) = Some (e, s', P')"
  shows "\<exists>status code. receipts s' = receipts s @ [share_receipt status code (ps_nonce32 p) (ps_target_pot p) (ps_job_id p)]
    \<and> (status = REJECTED \<and> tt_rejected (pl_totals P') = tt_rejected (pl_totals P) + 1 \<and> tt_accepted (pl_totals P') = tt_accepted (pl_totals P)
       \<or> status \<in> {ACCEPTED, ACCEPTED_TENTATIVELY} \<and> code = 0
         \<and> tt_rejected (pl_totals P') = tt_rejected (pl_totals P) \<and> tt_accepted (pl_totals P') = tt_accepted (pl_totals P) + 1)"
  using answers_pow [OF assms] by (auto simp: answers_def share_tally_def refused_tally_def taken_tally_def)

theorem share_answered_once_witness:
  "\<exists>e s' P'. on_pow ex_share_env 0 0 ex_replies ex_pow_share (ex_session, ex_world) = Some (e, s', P')
    \<and> (\<exists>status code. receipts s' = receipts ex_session @ [share_receipt status code (ps_nonce32 ex_pow_share) 32 1]
    \<and> (status = REJECTED \<and> tt_rejected (pl_totals P') = 0 + 1 \<and> tt_accepted (pl_totals P') = 0
       \<or> status \<in> {ACCEPTED, ACCEPTED_TENTATIVELY} \<and> code = 0 \<and> tt_rejected (pl_totals P') = 0 \<and> tt_accepted (pl_totals P') = 0 + 1))"
proof -
  have w: "tt_rejected (pl_totals ex_world) = 0" "tt_accepted (pl_totals ex_world) = 0" "ps_target_pot ex_pow_share = 32" "ps_job_id ex_pow_share = 1"
    by (simp_all add: ex_world_def ex_totals_def ex_pow_share_def ex_share_def)
  obtain e s' P' where o: "on_pow ex_share_env 0 0 ex_replies ex_pow_share (ex_session, ex_world) = Some (e, s', P')" using ex_pow_returns by blast
  show ?thesis by (intro exI [of _ e] exI [of _ s'] exI [of _ P'] conjI, rule o, rule share_answered_once [OF o, unfolded w])
qed

end
