(* ===== verification/Lazarus_Overflow.thy ===== *)
theory Lazarus_Overflow
  imports Primed_State Complex_Main
begin

text \<open>
  The overflow valve of the public stratum gateway, \<^verbatim>\<open>lazarus/gateway/src/overflow.rs\<close>: the share of the network it meters, the hysteresis that turns
  the relay on and off, whose connections are kept, and the relay of everybody else's to another pool. Percentages and
  hashrates are rationals, where the source has floats. The JSON parser, the clock, and whether an upstream answers are
  arguments; what a socket reads is a list of events. Atomics are fields of one record; the reports (\<^verbatim>\<open>status_json\<close> and the like)
  are not modelled.
\<close>

section \<open>The valve\<close>

record upstream_cfg =
  uc_name :: string
  uc_host :: string
  uc_port :: nat
  uc_url :: string
  uc_miner_url :: "string option"

record overflow_cfg =
  oc_mode :: string
  oc_enter_pct :: rat
  oc_exit_pct :: rat
  oc_hold_polls :: u32
  oc_poll_secs :: u64
  oc_grandfather_hours :: u64
  oc_nethash_blocks :: u64
  oc_prime_stats_url :: string
  oc_state_file :: "string option"
  oc_message :: "string option"
  oc_upstreams :: "upstream_cfg list"

text \<open>A configuration that sets nothing.\<close>

definition default_overflow_cfg :: overflow_cfg where
  "default_overflow_cfg = \<lparr>oc_mode = ''off'', oc_enter_pct = 15, oc_exit_pct = 13, oc_hold_polls = 3, oc_poll_secs = 30, oc_grandfather_hours = 24,
     oc_nethash_blocks = 60, oc_prime_stats_url = ''http://127.0.0.1:28916/stats.json'', oc_state_file = None, oc_message = None, oc_upstreams = []\<rparr>"

datatype overflow_mode = Off | Shadow | Auto | Force

definition parse_mode :: "string \<Rightarrow> overflow_mode option" where
  "parse_mode s = (let m = to_ascii_lower (trim_str s) in
     if m = ''off'' then Some Off else if m = ''shadow'' then Some Shadow else if m = ''auto'' then Some Auto
     else if m = ''force'' then Some Force else None)"

definition mode_of_u8 :: "u8 \<Rightarrow> overflow_mode" where
  "mode_of_u8 v = (if v = 1 then Shadow else if v = 2 then Auto else if v = 3 then Force else Off)"

fun mode_to_u8 :: "overflow_mode \<Rightarrow> u8" where
  "mode_to_u8 Off = 0" | "mode_to_u8 Shadow = 1" | "mode_to_u8 Auto = 2" | "mode_to_u8 Force = 3"

fun mode_str :: "overflow_mode \<Rightarrow> string" where
  "mode_str Off = ''off''" | "mode_str Shadow = ''shadow''" | "mode_str Auto = ''auto''" | "mode_str Force = ''force''"

text \<open>The state of the valve and the polls in a row that argued against it, after one more.\<close>

definition hysteresis :: "bool \<Rightarrow> u32 \<Rightarrow> rat \<Rightarrow> rat \<Rightarrow> rat \<Rightarrow> u32 \<Rightarrow> bool \<times> u32" where
  "hysteresis active hold share_pct enter exit_pct hold_polls =
     (let want_flip = (if active then share_pct \<le> exit_pct else share_pct \<ge> enter) in
      if \<not> want_flip then (active, 0)
      else let hold = hold + 1 in if hold \<ge> max hold_polls 1 then (\<not> active, 0) else (active, hold))"

definition least_load :: "(bool \<times> usize) list \<Rightarrow> usize option" where
  "least_load loads = (let hs = map snd (filter fst loads) in if hs = [] then None else Some (Min (set hs)))"

definition pick :: "(bool \<times> usize) list \<Rightarrow> usize \<Rightarrow> usize option" where
  "pick loads rr = (let n = length loads in
     if n = 0 then None
     else case least_load loads of None \<Rightarrow> None
     | Some m \<Rightarrow> find (\<lambda>i. fst (loads ! i) \<and> snd (loads ! i) = m) (map (\<lambda>k. (rr + k) mod n) [0..<n]))"

datatype decision = DLocal | DShadow | DFailOpen | DProxy usize

definition decide :: "overflow_mode \<Rightarrow> bool \<Rightarrow> bool \<Rightarrow> usize option \<Rightarrow> decision" where
  "decide mode active grandfathered choice =
     (let on = (case mode of Off \<Rightarrow> False | Force \<Rightarrow> True | _ \<Rightarrow> active) in
      if \<not> on \<or> grandfathered then DLocal
      else if mode = Shadow then DShadow
      else case choice of Some i \<Rightarrow> DProxy i | None \<Rightarrow> DFailOpen)"

section \<open>Whose connections are kept\<close>

definition GRANDFATHER_MAX :: usize where "GRANDFATHER_MAX = 200000"
definition UNPAYABLE_LOCAL_SECS :: u64 where "UNPAYABLE_LOCAL_SECS = 600"
definition UNPAYABLE_IPS_MAX :: usize where "UNPAYABLE_IPS_MAX = 4096"
definition CHURN_LOCAL_AFTER :: u32 where "CHURN_LOCAL_AFTER = 3"
definition CHURN_LOCAL_SECS :: u64 where "CHURN_LOCAL_SECS = 3600"
definition CHURN_SECS :: u64 where "CHURN_SECS = 10"

text \<open>The source keys addresses by their text.\<close>

record grandfather =
  gf_idents :: "(string \<times> u64) list"
  gf_ips :: "(ip \<times> u64) list"

definition no_grandfather :: grandfather where "no_grandfather = \<lparr>gf_idents = [], gf_ips = []\<rparr>"

definition note_ident :: "string \<Rightarrow> u64 \<Rightarrow> grandfather \<Rightarrow> grandfather" where
  "note_ident i now g = (if i \<noteq> [] \<and> (length (gf_idents g) < GRANDFATHER_MAX \<or> map_of (gf_idents g) i \<noteq> None)
     then g\<lparr>gf_idents := AList.update i now (gf_idents g)\<rparr> else g)"

definition note_ip :: "ip \<Rightarrow> u64 \<Rightarrow> grandfather \<Rightarrow> grandfather" where
  "note_ip a now g = (if length (gf_ips g) < GRANDFATHER_MAX \<or> map_of (gf_ips g) a \<noteq> None
     then g\<lparr>gf_ips := AList.update a now (gf_ips g)\<rparr> else g)"

definition fresh_in :: "('k \<times> u64) list \<Rightarrow> 'k \<Rightarrow> u64 \<Rightarrow> u64 \<Rightarrow> bool" where
  "fresh_in m k now ttl = (case map_of m k of Some t \<Rightarrow> now - t \<le> ttl | None \<Rightarrow> False)"

definition has_ident :: "grandfather \<Rightarrow> string \<Rightarrow> u64 \<Rightarrow> u64 \<Rightarrow> bool" where
  "has_ident g i now ttl = fresh_in (gf_idents g) i now ttl"

definition has_ip :: "grandfather \<Rightarrow> ip \<Rightarrow> u64 \<Rightarrow> u64 \<Rightarrow> bool" where
  "has_ip g a now ttl = fresh_in (gf_ips g) a now ttl"

definition prune_grandfather :: "u64 \<Rightarrow> u64 \<Rightarrow> grandfather \<Rightarrow> grandfather" where
  "prune_grandfather now ttl g = \<lparr>gf_idents = filter (\<lambda>(_, t). now - t \<le> ttl) (gf_idents g), gf_ips = filter (\<lambda>(_, t). now - t \<le> ttl) (gf_ips g)\<rparr>"

section \<open>State\<close>

record upstream =
  us_cfg :: upstream_cfg
  us_healthy :: bool
  us_sessions :: usize
  us_total :: u64
  us_submits :: u64
  us_accepted :: u64
  us_rejected :: u64
  us_checked_unix :: u64
  us_last_err :: string
  us_last_reject :: string

record proxy_session =
  ps_id :: u64
  ps_host :: string
  ps_ip :: ip
  ps_user :: string
  ps_identity :: string
  ps_worker :: string
  ps_ua :: string
  ps_upstream :: usize
  ps_upstream_name :: string
  ps_since_unix :: u64
  ps_submits :: u64
  ps_accepted :: u64
  ps_rejected :: u64
  ps_last_reject :: string

record meter =
  mt_share_pct :: rat
  mt_pool_hs :: rat
  mt_stratum_hs :: rat
  mt_net_hs :: rat
  mt_ok :: bool
  mt_updated_unix :: u64
  mt_last_err :: string

record overflow =
  ov_cfg :: overflow_cfg
  ov_mode :: u8
  ov_active :: bool
  ov_hold :: u32
  ov_flips :: u64
  ov_active_since :: u64
  ov_meter :: meter
  ov_grandfather :: grandfather
  ov_upstreams :: "upstream list"
  ov_rr :: usize
  ov_proxied :: "(u64 \<times> proxy_session) list"
  ov_proxied_total :: u64
  ov_relays_churned :: u64
  ov_relays_bounced :: u64
  ov_relays_unpayable :: u64
  ov_unpayable_ips :: "(ip \<times> u64) list"
  ov_churn_ips :: "(ip \<times> u32 \<times> u64) list"
  ov_churn_mark :: "u64 \<times> u64 \<times> u64"
  ov_shadow_would :: u64
  ov_fail_open :: u64
  ov_dirty :: bool
  ov_file :: "grandfather option"

definition new_upstream :: "upstream_cfg \<Rightarrow> upstream" where
  "new_upstream c = \<lparr>us_cfg = c, us_healthy = True, us_sessions = 0, us_total = 0, us_submits = 0, us_accepted = 0, us_rejected = 0,
     us_checked_unix = 0, us_last_err = [], us_last_reject = []\<rparr>"

definition no_meter :: meter where
  "no_meter = \<lparr>mt_share_pct = 0, mt_pool_hs = 0, mt_stratum_hs = 0, mt_net_hs = 0, mt_ok = False, mt_updated_unix = 0, mt_last_err = []\<rparr>"

text \<open>\<open>file\<close> is what the state file holds, \<open>None\<close> for no file or one that does not read.\<close>

definition new_overflow :: "overflow_cfg \<Rightarrow> grandfather option \<Rightarrow> overflow" where
  "new_overflow cfg file = \<lparr>ov_cfg = cfg, ov_mode = mode_to_u8 (case parse_mode (oc_mode cfg) of Some m \<Rightarrow> m | None \<Rightarrow> Off), ov_active = False,
     ov_hold = 0, ov_flips = 0, ov_active_since = 0, ov_meter = no_meter,
     ov_grandfather = (case file of Some g \<Rightarrow> g | None \<Rightarrow> no_grandfather), ov_upstreams = map new_upstream (oc_upstreams cfg), ov_rr = 0,
     ov_proxied = [], ov_proxied_total = 0, ov_relays_churned = 0, ov_relays_bounced = 0, ov_relays_unpayable = 0, ov_unpayable_ips = [],
     ov_churn_ips = [], ov_churn_mark = (0, 0, 0), ov_shadow_would = 0, ov_fail_open = 0, ov_dirty = False, ov_file = file\<rparr>"

definition mode_now :: "overflow \<Rightarrow> overflow_mode" where
  "mode_now V = mode_of_u8 (ov_mode V)"

definition set_mode :: "string \<Rightarrow> overflow \<Rightarrow> overflow_mode option \<times> overflow" where
  "set_mode s V = (case parse_mode s of None \<Rightarrow> (None, V) | Some m \<Rightarrow> (Some m, V\<lparr>ov_mode := mode_to_u8 m\<rparr>))"

definition considering :: "overflow \<Rightarrow> bool" where
  "considering V = (case mode_now V of Off \<Rightarrow> False | Force \<Rightarrow> True | _ \<Rightarrow> ov_active V)"

definition ttl_of :: "overflow \<Rightarrow> u64" where
  "ttl_of V = max (oc_grandfather_hours (ov_cfg V)) 1 * 3600"

definition ip_grandfathered :: "u64 \<Rightarrow> ip \<Rightarrow> overflow \<Rightarrow> bool" where
  "ip_grandfathered now a V = has_ip (ov_grandfather V) a now (ttl_of V)"

definition ident_grandfathered :: "u64 \<Rightarrow> string \<Rightarrow> overflow \<Rightarrow> bool" where
  "ident_grandfathered now i V \<longleftrightarrow> i \<noteq> [] \<and> has_ident (ov_grandfather V) i now (ttl_of V)"

definition note_unpayable_ip :: "u64 \<Rightarrow> ip \<Rightarrow> overflow \<Rightarrow> overflow" where
  "note_unpayable_ip now a V = (let m = filter (\<lambda>(_, t). now - t \<le> UNPAYABLE_LOCAL_SECS) (ov_unpayable_ips V) in
     V\<lparr>ov_unpayable_ips := (if length m < UNPAYABLE_IPS_MAX then AList.update a now m else m)\<rparr>)"

definition note_churn_ip :: "u64 \<Rightarrow> ip \<Rightarrow> overflow \<Rightarrow> overflow" where
  "note_churn_ip now a V = (let m = filter (\<lambda>(_, _, t). now - t \<le> CHURN_LOCAL_SECS) (ov_churn_ips V) in
     V\<lparr>ov_churn_ips := (if length m < UNPAYABLE_IPS_MAX \<or> map_of m a \<noteq> None
       then AList.update a (sat_add32 (case map_of m a of Some (n, _) \<Rightarrow> n | None \<Rightarrow> 0) 1, now) m else m)\<rparr>)"

definition ip_churned :: "u64 \<Rightarrow> ip \<Rightarrow> overflow \<Rightarrow> bool" where
  "ip_churned now a V = (case map_of (ov_churn_ips V) a of Some (n, t) \<Rightarrow> n \<ge> CHURN_LOCAL_AFTER \<and> now - t \<le> CHURN_LOCAL_SECS | None \<Rightarrow> False)"

definition ip_unpayable :: "u64 \<Rightarrow> ip \<Rightarrow> overflow \<Rightarrow> bool" where
  "ip_unpayable now a V = fresh_in (ov_unpayable_ips V) a now UNPAYABLE_LOCAL_SECS"

definition ov_note_share :: "u64 \<Rightarrow> string \<Rightarrow> ip \<Rightarrow> overflow \<Rightarrow> overflow" where
  "ov_note_share now i a V = V\<lparr>ov_grandfather := note_ip a now (note_ident i now (ov_grandfather V)), ov_dirty := True\<rparr>"

text \<open>The rows of Prime's window: an identity and the seconds since its last share, where the report has them.\<close>

definition seed_rows :: "u64 \<Rightarrow> u64 \<Rightarrow> (string option \<times> u64 option) list \<Rightarrow> (string \<times> u64) list" where
  "seed_rows now ttl rows = List.map_filter (\<lambda>(i, a). case i of None \<Rightarrow> None
     | Some i \<Rightarrow> let age = (case a of Some n \<Rightarrow> n | None \<Rightarrow> 0) in if age \<le> ttl then Some (i, now - age) else None) rows"

definition seed_from_prime :: "u64 \<Rightarrow> (string option \<times> u64 option) list option \<Rightarrow> overflow \<Rightarrow> overflow" where
  "seed_from_prime now stats V = (case stats of None \<Rightarrow> V
   | Some ms \<Rightarrow> let es = seed_rows now (ttl_of V) ms in
       V\<lparr>ov_grandfather := fold (\<lambda>(i, t). note_ident i t) es (ov_grandfather V), ov_dirty := ov_dirty V \<or> es \<noteq> []\<rparr>)"

text \<open>\<open>ok\<close>: the write and the rename went through.\<close>

definition ov_save :: "u64 \<Rightarrow> bool \<Rightarrow> overflow \<Rightarrow> overflow" where
  "ov_save now ok V = (if \<not> ov_dirty V then V
     else let g = prune_grandfather now (ttl_of V) (ov_grandfather V) in
       V\<lparr>ov_dirty := False, ov_grandfather := g, ov_file := (if ok then Some g else ov_file V)\<rparr>)"

definition ov_loads :: "overflow \<Rightarrow> (bool \<times> usize) list" where
  "ov_loads V = map (\<lambda>u. (us_healthy u, us_sessions u)) (ov_upstreams V)"

definition ov_choose :: "overflow \<Rightarrow> usize option \<times> overflow" where
  "ov_choose V = (pick (ov_loads V) (ov_rr V), V\<lparr>ov_rr := ov_rr V + 1\<rparr>)"

section \<open>The meter\<close>

definition read_meter :: "u64 \<Rightarrow> rat option \<Rightarrow> rat \<Rightarrow> rat option \<Rightarrow> meter" where
  "read_meter now net_hs stratum_hs pool_ghs = (let m = no_meter\<lparr>mt_stratum_hs := stratum_hs, mt_updated_unix := now\<rparr> in
     if (case net_hs of Some net \<Rightarrow> net > 0 | None \<Rightarrow> False)
     then let m1 = m\<lparr>mt_net_hs := the net_hs, mt_share_pct := 100 * stratum_hs / the net_hs, mt_ok := True\<rparr> in
       (case pool_ghs of Some pg \<Rightarrow> m1\<lparr>mt_pool_hs := pg * 1000000000\<rparr>
        | None \<Rightarrow> m1\<lparr>mt_pool_hs := stratum_hs, mt_last_err := ''prime stats unreachable; pool and DATUM hashrate not reported (the valve meters stratum only)''\<rparr>)
     else m\<lparr>mt_last_err := ''network hashrate unavailable''\<rparr>)"

definition move_mark :: "u64 \<Rightarrow> overflow \<Rightarrow> overflow" where
  "move_mark now V = (case ov_churn_mark V of (t0, c0, since) \<Rightarrow>
     if ov_proxied_total V - t0 \<ge> 10 \<or> now - since \<ge> 600 then V\<lparr>ov_churn_mark := (ov_proxied_total V, ov_relays_churned V, now)\<rparr> else V)"

definition apply_meter :: "u64 \<Rightarrow> rat option \<Rightarrow> rat \<Rightarrow> rat option \<Rightarrow> overflow \<Rightarrow> overflow" where
  "apply_meter now net_hs stratum_hs pool_ghs V = (let m = read_meter now net_hs stratum_hs pool_ghs; c = ov_cfg V in
     (if mt_ok m
      then case hysteresis (ov_active V) (ov_hold V) (mt_share_pct m) (oc_enter_pct c) (oc_exit_pct c) (oc_hold_polls c) of (na, nh) \<Rightarrow>
        let V1 = V\<lparr>ov_hold := nh\<rparr> in
        if na \<noteq> ov_active V then V1\<lparr>ov_active := na, ov_flips := ov_flips V1 + 1, ov_active_since := (if na then now else 0)\<rparr>
        else move_mark now V1
      else V)\<lparr>ov_meter := m\<rparr>)"

text \<open>One poll; \<open>prime\<close> is Prime's report if it answered: its window and its hashrate.\<close>

definition ov_tick ::
  "u64 \<Rightarrow> ((string option \<times> u64 option) list option \<times> rat option) option \<Rightarrow> rat option \<Rightarrow> rat \<Rightarrow> overflow \<Rightarrow> overflow" where
  "ov_tick now prime net_hs stratum_hs V =
     apply_meter now net_hs stratum_hs (case prime of Some (_, g) \<Rightarrow> g | None \<Rightarrow> None)
       (case prime of Some (w, _) \<Rightarrow> seed_from_prime now w V | None \<Rightarrow> V)"

definition set_health :: "string option \<Rightarrow> u64 \<Rightarrow> upstream \<Rightarrow> upstream" where
  "set_health err now u = u\<lparr>us_healthy := (err = None), us_checked_unix := now, us_last_err := (case err of Some e \<Rightarrow> e | None \<Rightarrow> [])\<rparr>"

text \<open>A round of probes; \<open>probe\<close> gives an upstream's error, if any.\<close>

definition health_round :: "u64 \<Rightarrow> (upstream_cfg \<Rightarrow> string option) \<Rightarrow> overflow \<Rightarrow> overflow" where
  "health_round now probe V = V\<lparr>ov_upstreams := map (\<lambda>u. set_health (probe (us_cfg u)) now u) (ov_upstreams V)\<rparr>"

definition mark_down :: "string \<Rightarrow> upstream \<Rightarrow> upstream" where
  "mark_down e u = u\<lparr>us_healthy := False, us_last_err := e\<rparr>"

text \<open>\<open>con\<close> gives the error of the connection to an upstream, if any; \<open>None\<close> of the result is no upstream, with the state after.\<close>

fun try_upstreams :: "(upstream_cfg \<Rightarrow> string option) \<Rightarrow> nat \<Rightarrow> overflow \<Rightarrow> usize option \<times> overflow" where
  "try_upstreams con 0 V = (None, V)"
| "try_upstreams con (Suc k) V = (case ov_choose V of (None, V1) \<Rightarrow> (None, V1)
   | (Some i, V1) \<Rightarrow> (case con (us_cfg (ov_upstreams V1 ! i)) of
       None \<Rightarrow> (Some i, V1)
     | Some e \<Rightarrow> try_upstreams con k (V1\<lparr>ov_upstreams := (ov_upstreams V1)[i := mark_down e (ov_upstreams V1 ! i)]\<rparr>)))"

definition connect_choice :: "(upstream_cfg \<Rightarrow> string option) \<Rightarrow> overflow \<Rightarrow> usize option \<times> overflow" where
  "connect_choice con V = try_upstreams con (max (length (ov_upstreams V)) 1) V"

section \<open>Lines\<close>

text \<open>A value of \<^verbatim>\<open>serde_json\<close>, a number by its text; the parser of a line is an argument.\<close>

datatype json = JNull | JBool bool | JNum string | JStr string | JArr "json list" | JObj "(string \<times> json) list"

type_synonym json_parser = "string \<Rightarrow> json option"

fun get_field :: "string \<Rightarrow> json \<Rightarrow> json option" where
  "get_field k (JObj fs) = map_of fs k"
| "get_field k _ = None"

fun as_string :: "json \<Rightarrow> string option" where
  "as_string (JStr s) = Some s"
| "as_string _ = None"

fun as_array :: "json \<Rightarrow> json list option" where
  "as_array (JArr a) = Some a"
| "as_array _ = None"

fun first_item :: "'a list \<Rightarrow> 'a option" where
  "first_item [] = None"
| "first_item (x # _) = Some x"

definition method_of :: "json \<Rightarrow> string option" where
  "method_of v = Option.bind (get_field ''method'' v) as_string"

definition live_id :: "json \<Rightarrow> json option" where
  "live_id v = (case get_field ''id'' v of Some JNull \<Rightarrow> None | x \<Rightarrow> x)"

definition says_true :: "json \<Rightarrow> bool" where
  "says_true v \<longleftrightarrow> get_field ''result'' v = Some (JBool True)"

definition authorize_user :: "json_parser \<Rightarrow> string \<Rightarrow> string option" where
  "authorize_user parse line = do {
     v \<leftarrow> parse line;
     if method_of v \<noteq> Some ''mining.authorize'' then None
     else do { p \<leftarrow> get_field ''params'' v; a \<leftarrow> as_array p; u \<leftarrow> first_item a; as_string u } }"

definition is_method :: "json_parser \<Rightarrow> string \<Rightarrow> string \<Rightarrow> bool" where
  "is_method parse line m = (case parse line of None \<Rightarrow> False | Some v \<Rightarrow> method_of v = Some m)"

definition is_true_result :: "json_parser \<Rightarrow> string \<Rightarrow> bool" where
  "is_true_result parse line = (case parse line of None \<Rightarrow> False
     | Some v \<Rightarrow> get_field ''method'' v = None \<and> live_id v \<noteq> None \<and> says_true v)"

definition contains_text :: "string \<Rightarrow> string \<Rightarrow> bool" where
  "contains_text line w \<longleftrightarrow> list_ex (\<lambda>i. take (length w) (drop i line) = w) [0..<Suc (length line)]"

definition ascii_graphic :: "char \<Rightarrow> bool" where
  "ascii_graphic c \<longleftrightarrow> (let n = of_char c :: nat in 33 \<le> n \<and> n \<le> 126)"

definition printable_user :: "string \<Rightarrow> string" where
  "printable_user s = take 128 (filter ascii_graphic s)"

definition worker_part :: "string \<Rightarrow> string" where
  "worker_part u = drop 1 (dropWhile (\<lambda>c. c \<noteq> CHR ''.'') u)"

section \<open>What a relayed miner submits\<close>

definition MAX_PENDING_SUBMITS :: usize where "MAX_PENDING_SUBMITS = 256"

record relay_stats =
  rs_submits :: u64
  rs_accepted :: u64
  rs_rejected :: u64
  rs_miner_lines :: u64
  rs_upstream_lines :: u64
  rs_pending :: "json list"
  rs_last_reject :: string

definition no_stats :: relay_stats where
  "no_stats = \<lparr>rs_submits = 0, rs_accepted = 0, rs_rejected = 0, rs_miner_lines = 0, rs_upstream_lines = 0, rs_pending = [], rs_last_reject = []\<rparr>"

definition note_submit :: "json_parser \<Rightarrow> string \<Rightarrow> relay_stats \<Rightarrow> bool \<times> relay_stats" where
  "note_submit parse line S = (case parse line of None \<Rightarrow> (False, S)
   | Some v \<Rightarrow>
       if method_of v \<noteq> Some ''mining.submit'' then (False, S)
       else let S1 = S\<lparr>rs_submits := rs_submits S + 1\<rparr> in
         (case live_id v of None \<Rightarrow> (True, S1)
          | Some i \<Rightarrow> let q = (if length (rs_pending S1) \<ge> MAX_PENDING_SUBMITS then tl (rs_pending S1) else rs_pending S1)
              in (True, S1\<lparr>rs_pending := q @ [i]\<rparr>)))"

text \<open>\<open>show\<close> is the text of a value.\<close>

definition reject_reason :: "(json \<Rightarrow> string) \<Rightarrow> json \<Rightarrow> string" where
  "reject_reason text_of v = (case get_field ''error'' v of
     None \<Rightarrow> ''refused with no reason given'' | Some JNull \<Rightarrow> ''refused with no reason given''
   | Some (JArr a) \<Rightarrow> (case (if 1 < length a then as_string (a ! 1) else None) of Some s \<Rightarrow> s | None \<Rightarrow> text_of (JArr a))
   | Some (JStr s) \<Rightarrow> s
   | Some x \<Rightarrow> text_of x)"

definition note_reply :: "json_parser \<Rightarrow> (json \<Rightarrow> string) \<Rightarrow> string \<Rightarrow> relay_stats \<Rightarrow> bool option \<times> relay_stats" where
  "note_reply parse text_of line S = (case parse line of None \<Rightarrow> (None, S)
   | Some v \<Rightarrow>
       if get_field ''method'' v \<noteq> None then (None, S)
       else (case live_id v of None \<Rightarrow> (None, S)
         | Some i \<Rightarrow>
             if i \<notin> set (rs_pending S) then (None, S)
             else let S1 = S\<lparr>rs_pending := remove1 i (rs_pending S)\<rparr> in
               if says_true v then (Some True, S1\<lparr>rs_accepted := rs_accepted S1 + 1\<rparr>)
               else (Some False, S1\<lparr>rs_rejected := rs_rejected S1 + 1,
                 rs_last_reject := take 160 (filter (\<lambda>c. ascii_graphic c \<or> c = CHR '' '') (reject_reason text_of v))\<rparr>)))"

section \<open>The gate\<close>

definition RELAY_MAX_LINE :: nat where "RELAY_MAX_LINE = 8192"
definition GATE_MAX_LINES :: nat where "GATE_MAX_LINES = 6"
definition RELAY_LINES_PER_SEC :: u32 where "RELAY_LINES_PER_SEC = 400"

text \<open>
  What reading a line came to: the end of the stream, an error with nothing read, an error within a line with what the
  second read added to it, a line. The events end where the time to wait does.
\<close>

datatype read_event = REof | RFail | RCut string "string option" | RLine string

definition ends_line :: "string \<Rightarrow> bool" where
  "ends_line s \<longleftrightarrow> s \<noteq> [] \<and> last s = CHR 0x0A"

record held_lines =
  hl_user :: string
  hl_buf :: "string list"
  hl_gone :: bool

definition user_or_none :: "string option \<Rightarrow> string" where
  "user_or_none u = (case u of Some x \<Rightarrow> x | None \<Rightarrow> [])"

fun hold_lines :: "json_parser \<Rightarrow> read_event list \<Rightarrow> string list \<Rightarrow> held_lines" where
  "hold_lines parse [] buf = \<lparr>hl_user = [], hl_buf = buf, hl_gone = False\<rparr>"
| "hold_lines parse (e # es) buf =
     (let stop = \<lparr>hl_user = [], hl_buf = buf, hl_gone = False\<rparr> in
      if length buf \<ge> GATE_MAX_LINES then stop
      else case e of
        REof \<Rightarrow> stop\<lparr>hl_gone := True\<rparr>
      | RFail \<Rightarrow> stop
      | RCut part rest \<Rightarrow> (case rest of None \<Rightarrow> stop
          | Some s \<Rightarrow> let line = part @ s in
              if s \<noteq> [] \<and> length line \<le> RELAY_MAX_LINE \<and> ends_line line
              then \<lparr>hl_user = user_or_none (authorize_user parse line), hl_buf = buf @ [line], hl_gone = False\<rparr> else stop)
      | RLine line \<Rightarrow>
          if length line > RELAY_MAX_LINE \<or> \<not> ends_line line then stop
          else (case authorize_user parse line of Some u \<Rightarrow> \<lparr>hl_user = u, hl_buf = buf @ [line], hl_gone = False\<rparr>
            | None \<Rightarrow> hold_lines parse es (buf @ [line])))"

text \<open>What a gateway's clients bring along: how a username reads as an identity, and whether it can be paid.\<close>

record gate_env =
  ge_parse :: json_parser
  ge_text :: "json \<Rightarrow> string"
  ge_canon :: "string \<Rightarrow> string"
  ge_payable :: "string \<Rightarrow> bool"
  ge_connect :: "upstream_cfg \<Rightarrow> string option"

datatype gate_answer = GLocal "string list" | GRelay usize string "string list"

definition agent_of :: "json_parser \<Rightarrow> string \<Rightarrow> string" where
  "agent_of parse line = user_or_none (do {
     v \<leftarrow> parse line; p \<leftarrow> get_field ''params'' v; a \<leftarrow> as_array p; x \<leftarrow> first_item a; s \<leftarrow> as_string x;
     Some (take 96 (filter (\<lambda>c. ascii_graphic c \<or> c = CHR '' '') s)) })"

definition open_relay :: "usize \<Rightarrow> u64 \<Rightarrow> proxy_session \<Rightarrow> overflow \<Rightarrow> overflow" where
  "open_relay idx sid sess V = V\<lparr>ov_proxied := AList.update sid sess (ov_proxied V),
     ov_upstreams := (ov_upstreams V)[idx := (ov_upstreams V ! idx)\<lparr>us_sessions := us_sessions (ov_upstreams V ! idx) + 1,
       us_total := us_total (ov_upstreams V ! idx) + 1\<rparr>],
     ov_proxied_total := ov_proxied_total V + 1\<rparr>"

text \<open>From the first \<^verbatim>\<open>mining.subscribe\<close> up to the relay: served here with the lines read, or relayed with the lines to send first.\<close>

definition gate ::
  "gate_env \<Rightarrow> u64 \<Rightarrow> u64 \<Rightarrow> ip \<Rightarrow> string \<Rightarrow> string \<Rightarrow> read_event list \<Rightarrow> overflow \<Rightarrow> gate_answer \<times> overflow" where
  "gate N now sid a host fline es V =
     (if \<not> considering V \<or> ip_grandfathered now a V \<or> ip_unpayable now a V \<or> ip_churned now a V then (GLocal [], V)
      else let h = hold_lines (ge_parse N) es []; u = hl_user h; buf = hl_buf h in
        if hl_gone h \<and> u = [] then (GLocal buf, V)
        else if u \<noteq> [] \<and> \<not> ge_payable N u then (GLocal buf, V\<lparr>ov_relays_unpayable := ov_relays_unpayable V + 1\<rparr>)
        else let i = ge_canon N u in
          case decide (mode_now V) (ov_active V) (ident_grandfathered now i V) (Some 0) of
            DLocal \<Rightarrow> (GLocal buf, V)
          | DShadow \<Rightarrow> (GLocal buf, V\<lparr>ov_shadow_would := ov_shadow_would V + 1\<rparr>)
          | _ \<Rightarrow> (case connect_choice (ge_connect N) V of
              (None, V1) \<Rightarrow> (GLocal buf, V1\<lparr>ov_fail_open := ov_fail_open V1 + 1\<rparr>)
            | (Some idx, V1) \<Rightarrow>
                let sess = \<lparr>ps_id = sid, ps_host = host, ps_ip = a, ps_user = u, ps_identity = i, ps_worker = worker_part u,
                  ps_ua = agent_of (ge_parse N) fline, ps_upstream = idx, ps_upstream_name = uc_name (us_cfg (ov_upstreams V1 ! idx)),
                  ps_since_unix = now, ps_submits = 0, ps_accepted = 0, ps_rejected = 0, ps_last_reject = []\<rparr>
                in (GRelay idx u ((if ends_line fline then fline else fline @ [CHR 0x0A]) # buf), open_relay idx sid sess V1)))"

section \<open>The relay\<close>

datatype authorize_verdict = Forward | Bounce | Refuse

text \<open>The name in an authorize that comes through the relay.\<close>

definition on_authorize :: "gate_env \<Rightarrow> u64 \<Rightarrow> u64 \<Rightarrow> ip \<Rightarrow> string \<Rightarrow> overflow \<Rightarrow> authorize_verdict \<times> overflow" where
  "on_authorize N now sid a u V =
     (let i = ge_canon N u;
          V1 = (case map_of (ov_proxied V) sid of None \<Rightarrow> V
            | Some p \<Rightarrow> V\<lparr>ov_proxied := AList.update sid (p\<lparr>ps_user := printable_user u, ps_identity := i, ps_worker := worker_part u\<rparr>) (ov_proxied V)\<rparr>)
      in if ident_grandfathered now i V1 then (Bounce, V1\<lparr>ov_grandfather := note_ip a now (ov_grandfather V1), ov_dirty := True\<rparr>)
         else if \<not> ge_payable N u then (Refuse, note_unpayable_ip now a (V1\<lparr>ov_relays_unpayable := ov_relays_unpayable V1 + 1\<rparr>))
         else (Forward, V1))"

text \<open>A relay: what it has counted, the lines it wrote to either side, the banner not yet shown, its second, how it was closed.\<close>

record relay =
  rl_stats :: relay_stats
  rl_up :: "string list"
  rl_down :: "string list"
  rl_banner :: "string option"
  rl_sec_at :: nat
  rl_sec_lines :: u32
  rl_verdict :: authorize_verdict
  rl_closed :: bool

definition start_relay :: "json_parser \<Rightarrow> nat \<Rightarrow> string list \<Rightarrow> string option \<Rightarrow> relay" where
  "start_relay parse t initial banner = \<lparr>rl_stats = fold (\<lambda>l S. snd (note_submit parse l S)) initial no_stats, rl_up = initial, rl_down = [],
     rl_banner = banner, rl_sec_at = t, rl_sec_lines = 0, rl_verdict = Forward, rl_closed = False\<rparr>"

text \<open>A line from the upstream. The writes to the miner go through.\<close>

definition relay_down :: "gate_env \<Rightarrow> string \<Rightarrow> relay \<Rightarrow> relay" where
  "relay_down N line R = (if rl_closed R then R
     else if length line > RELAY_MAX_LINE \<or> \<not> ends_line line then R\<lparr>rl_closed := True\<rparr>
     else let S = (rl_stats R)\<lparr>rs_upstream_lines := rs_upstream_lines (rl_stats R) + 1\<rparr>;
         R1 = R\<lparr>rl_stats := snd (note_reply (ge_parse N) (ge_text N) line S)\<rparr>
       in if contains_text line ''client.reconnect'' \<and> is_method (ge_parse N) line ''client.reconnect'' then R1
          else let R2 = R1\<lparr>rl_down := rl_down R1 @ [line]\<rparr> in
            (case rl_banner R2 of Some m \<Rightarrow> if is_true_result (ge_parse N) line then R2\<lparr>rl_down := rl_down R2 @ [m], rl_banner := None\<rparr> else R2
             | None \<Rightarrow> R2))"

text \<open>A line from the miner, read at \<open>t\<close> milliseconds; \<open>sniff\<close> when the name was not known at the gate.\<close>

definition relay_up :: "gate_env \<Rightarrow> bool \<Rightarrow> nat \<Rightarrow> u64 \<Rightarrow> u64 \<Rightarrow> ip \<Rightarrow> string \<Rightarrow> relay \<times> overflow \<Rightarrow> relay \<times> overflow" where
  "relay_up N sniff t now sid a line = (\<lambda>(R, V).
     if rl_closed R then (R, V)
     else if length line > RELAY_MAX_LINE \<or> \<not> ends_line line then (R\<lparr>rl_closed := True\<rparr>, V)
     else let R0 = (if t - rl_sec_at R \<ge> 1000 then R\<lparr>rl_sec_at := t, rl_sec_lines := 0\<rparr> else R);
         R1 = R0\<lparr>rl_sec_lines := rl_sec_lines R0 + 1\<rparr>
       in if rl_sec_lines R1 > RELAY_LINES_PER_SEC then (R1\<lparr>rl_closed := True\<rparr>, V)
          else let S = (rl_stats R1)\<lparr>rs_miner_lines := rs_miner_lines (rl_stats R1) + 1\<rparr>;
              R2 = R1\<lparr>rl_stats := snd (note_submit (ge_parse N) line S)\<rparr>
            in case (if sniff then authorize_user (ge_parse N) line else None) of
                 None \<Rightarrow> (R2\<lparr>rl_up := rl_up R2 @ [line]\<rparr>, V)
               | Some u \<Rightarrow> (case on_authorize N now sid a u V of (d, V1) \<Rightarrow>
                   if d = Forward then (R2\<lparr>rl_up := rl_up R2 @ [line]\<rparr>, V1) else (R2\<lparr>rl_verdict := d, rl_closed := True\<rparr>, V1)))"

text \<open>The row's counters, every five seconds.\<close>

definition update_row :: "u64 \<Rightarrow> relay_stats \<Rightarrow> overflow \<Rightarrow> overflow" where
  "update_row sid S V = (case map_of (ov_proxied V) sid of None \<Rightarrow> V
     | Some p \<Rightarrow> V\<lparr>ov_proxied := AList.update sid (p\<lparr>ps_submits := rs_submits S, ps_accepted := rs_accepted S,
         ps_rejected := rs_rejected S, ps_last_reject := rs_last_reject S\<rparr>) (ov_proxied V)\<rparr>)"

definition add_verdicts :: "relay_stats \<Rightarrow> upstream \<Rightarrow> upstream" where
  "add_verdicts S u = u\<lparr>us_submits := us_submits u + rs_submits S, us_accepted := us_accepted u + rs_accepted S,
     us_rejected := us_rejected u + rs_rejected S, us_last_reject := (if rs_last_reject S \<noteq> [] then rs_last_reject S else us_last_reject u)\<rparr>"

text \<open>What a relay leaves when its thread is done with it: the guard takes its row out and its session off the upstream.\<close>

definition drop_guard :: "u64 \<Rightarrow> usize \<Rightarrow> overflow \<Rightarrow> overflow" where
  "drop_guard sid idx V = (let u = ov_upstreams V ! idx in
     V\<lparr>ov_proxied := AList.delete sid (ov_proxied V), ov_upstreams := (ov_upstreams V)[idx := u\<lparr>us_sessions := us_sessions u - 1\<rparr>]\<rparr>)"

text \<open>
  The end of a relay that ran, the guard's drop included; the counters before it are atomics of their own. A relay whose socket cannot be cloned ends at once,
  with nothing but the guard's drop.
\<close>

definition end_relay :: "u64 \<Rightarrow> u64 \<Rightarrow> usize \<Rightarrow> ip \<Rightarrow> relay \<Rightarrow> overflow \<Rightarrow> overflow" where
  "end_relay now sid idx a R V =
     (let since = (case map_of (ov_proxied V) sid of Some p \<Rightarrow> ps_since_unix p | None \<Rightarrow> now);
          S = rl_stats R;
          V1 = (if rl_verdict R = Bounce then V\<lparr>ov_relays_bounced := ov_relays_bounced V + 1\<rparr>
            else if rl_verdict R \<noteq> Refuse \<and> now - since < CHURN_SECS \<and> rs_submits S = 0
            then note_churn_ip now a (V\<lparr>ov_relays_churned := ov_relays_churned V + 1\<rparr>) else V);
          V2 = V1\<lparr>ov_upstreams := (ov_upstreams V1)[idx := add_verdicts S (ov_upstreams V1 ! idx)]\<rparr>
      in drop_guard sid idx V2)"

section \<open>The valve over time\<close>

text \<open>A reading argues against the state of the valve.\<close>

definition argues :: "rat \<Rightarrow> rat \<Rightarrow> bool \<Rightarrow> rat \<Rightarrow> bool" where
  "argues enter exit_pct a r \<longleftrightarrow> (if a then r \<le> exit_pct else r \<ge> enter)"

text \<open>The valve stays as it is over the readings.\<close>

fun stays :: "rat \<Rightarrow> rat \<Rightarrow> u32 \<Rightarrow> bool \<Rightarrow> u32 \<Rightarrow> rat list \<Rightarrow> bool" where
  "stays enter ex hp a h [] \<longleftrightarrow> True"
| "stays enter ex hp a h (r # rs) \<longleftrightarrow> (case hysteresis a h r enter ex hp of (a', h') \<Rightarrow> a' = a \<and> stays enter ex hp a h' rs)"

definition run_of :: "(rat \<Rightarrow> bool) \<Rightarrow> nat \<Rightarrow> rat list \<Rightarrow> bool" where
  "run_of P n rs \<longleftrightarrow> (\<exists>pre mid post. rs = pre @ mid @ post \<and> length mid = n \<and> list_all P mid)"

lemma run_of_Cons: "run_of P n (r # rs) \<longleftrightarrow> n \<le> Suc (length rs) \<and> list_all P (take n (r # rs)) \<or> run_of P n rs"
proof
  assume "run_of P n (r # rs)"
  then obtain pre mid post where m: "r # rs = pre @ mid @ post" "length mid = n" "list_all P mid" by (auto simp: run_of_def)
  show "n \<le> Suc (length rs) \<and> list_all P (take n (r # rs)) \<or> run_of P n rs"
  proof (cases pre)
    case Nil
    then have "take n (r # rs) = mid" "n \<le> length (r # rs)" using m(1,2) by simp_all
    then show ?thesis using m(3) by simp
  next
    case (Cons p ps)
    then have "rs = ps @ mid @ post" using m(1) by simp
    then show ?thesis using m(2,3) by (auto simp: run_of_def)
  qed
next
  assume "n \<le> Suc (length rs) \<and> list_all P (take n (r # rs)) \<or> run_of P n rs"
  then show "run_of P n (r # rs)"
  proof
    assume "n \<le> Suc (length rs) \<and> list_all P (take n (r # rs))"
    then show ?thesis unfolding run_of_def by (intro exI [of _ "[]"] exI [of _ "take n (r # rs)"] exI [of _ "drop n (r # rs)"]) simp
  next
    assume "run_of P n rs"
    then obtain pre mid post where "rs = pre @ mid @ post" "length mid = n" "list_all P mid" by (auto simp: run_of_def)
    then show ?thesis unfolding run_of_def by (intro exI [of _ "r # pre"] exI [of _ mid] exI [of _ post]) simp
  qed
qed

lemma run_of_take: "list_all P (take n rs) \<Longrightarrow> n \<le> length rs \<Longrightarrow> run_of P n rs"
  unfolding run_of_def by (intro exI [of _ "[]"] exI [of _ "take n rs"] exI [of _ "drop n rs"]) simp

lemma stays_iff:
  assumes "h < n" "n = max hp 1"
  shows "stays enter ex hp a h rs \<longleftrightarrow> \<not> (n - h \<le> length rs \<and> list_all (argues enter ex a) (take (n - h) rs)) \<and> \<not> run_of (argues enter ex a) n rs"
  using assms
proof (induction rs arbitrary: h)
  case Nil
  then show ?case by (auto simp: run_of_def)
next
  case (Cons r rs)
  let ?P = "argues enter ex a"
  have sh: "n - h = Suc (n - Suc h)" "0 < n" using Cons.prems by simp_all
  show ?case
  proof (cases "?P r")
    case False
    then have "hysteresis a h r enter ex hp = (a, 0)" by (simp add: hysteresis_def argues_def Let_def)
    moreover have "\<not> list_all ?P (take n (r # rs))" "\<not> list_all ?P (take (n - h) (r # rs))" using False sh by (auto simp: take_Cons')
    moreover have "stays enter ex hp a 0 rs \<longleftrightarrow> \<not> run_of ?P n rs" using Cons.IH [of 0] sh(2) Cons.prems(2) run_of_take [of ?P n rs] by auto
    ultimately show ?thesis by (simp add: run_of_Cons)
  next
    case True
    then have hy: "hysteresis a h r enter ex hp = (if Suc h \<ge> n then (\<not> a, 0) else (a, Suc h))"
      using Cons.prems(2) by (simp add: hysteresis_def argues_def Let_def)
    show ?thesis
    proof (cases "Suc h \<ge> n")
      case True
      then show ?thesis using hy \<open>?P r\<close> sh by simp
    next
      case False
      have t: "list_all ?P (take k rs)" if "list_all ?P (take m rs)" "k \<le> m" for k m
        using that by (metis list_all_append min.absorb1 append_take_drop_id take_take)
      have "n \<le> Suc (length rs) \<Longrightarrow> list_all ?P (take n (r # rs)) \<Longrightarrow> n - Suc h \<le> length rs \<and> list_all ?P (take (n - Suc h) rs)"
        using t [of "n - 1" "n - Suc h"] sh(2) by (cases n) auto
      then show ?thesis using hy False Cons.IH [of "Suc h"] Cons.prems \<open>?P r\<close> sh by (auto simp: run_of_Cons)
    qed
  qed
qed

text \<open>
  C39. The valve does not flap: from a fresh count it moves over a stretch of readings exactly when the configured number of readings in a
  row, one at least, are all past the line that argues for moving it.
\<close>

theorem valve_needs_consecutive:
  "stays enter ex hp a 0 rs \<longleftrightarrow> \<not> (\<exists>pre mid post. rs = pre @ mid @ post \<and> length mid = max hp 1 \<and> list_all (argues enter ex a) mid)"
  using stays_iff [of 0 "max hp 1" hp enter ex a rs] run_of_take [of "argues enter ex a" "max hp 1" rs] by (auto simp: run_of_def)

section \<open>Choosing an upstream\<close>

lemma least_load_spec:
  "least_load ls = None \<longleftrightarrow> \<not> list_ex fst ls"
  "least_load ls = Some m \<Longrightarrow> (True, m) \<in> set ls \<and> (\<forall>s. (True, s) \<in> set ls \<longrightarrow> m \<le> s)"
proof -
  have img: "snd ` {x \<in> set ls. fst x} = {s. (True, s) \<in> set ls}" by force
  show "least_load ls = None \<longleftrightarrow> \<not> list_ex fst ls" by (auto simp: least_load_def filter_empty_conv list_ex_iff Let_def)
  assume m: "least_load ls = Some m"
  then have "filter fst ls \<noteq> []" "m = Min (snd ` {x \<in> set ls. fst x})" by (auto simp: least_load_def Let_def split: if_splits)
  moreover have "finite (snd ` {x \<in> set ls. fst x})" by simp
  moreover have "snd ` {x \<in> set ls. fst x} \<noteq> {}" using calculation(1) by (auto simp: filter_empty_conv)
  ultimately have "m \<in> snd ` {x \<in> set ls. fst x}" "\<forall>s \<in> snd ` {x \<in> set ls. fst x}. m \<le> s" using Min_in Min_le by blast+
  then show "(True, m) \<in> set ls \<and> (\<forall>s. (True, s) \<in> set ls \<longrightarrow> m \<le> s)" by (simp add: img)
qed

lemma rotation_set: "0 < n \<Longrightarrow> set (map (\<lambda>k. (rr + k) mod n) [0..<n]) = {..<n}" for n :: nat
proof
  assume n: "0 < n"
  then show "set (map (\<lambda>k. (rr + k) mod n) [0..<n]) \<subseteq> {..<n}" by auto
  show "{..<n} \<subseteq> set (map (\<lambda>k. (rr + k) mod n) [0..<n])"
  proof
    fix i assume i: "i \<in> {..<n}"
    let ?k = "(i + (n - rr mod n)) mod n"
    have "(rr + ?k) mod n = (rr mod n + (i + (n - rr mod n))) mod n" by (simp add: mod_simps)
    also have "rr mod n + (i + (n - rr mod n)) = i + n" using mod_less_divisor [OF n, of rr] by linarith
    also have "(i + n) mod n = i" using i by simp
    finally show "i \<in> set (map (\<lambda>k. (rr + k) mod n) [0..<n])" using n by (auto intro!: image_eqI [of _ _ ?k])
  qed
qed

lemma pick_Some:
  assumes "pick ls rr = Some i"
  shows "i < length ls" "fst (ls ! i)" "list_all (\<lambda>l. fst l \<longrightarrow> snd (ls ! i) \<le> snd l) ls"
proof -
  have n: "0 < length ls" using assms by (auto simp: pick_def Let_def)
  obtain m where m: "least_load ls = Some m" and f: "find (\<lambda>i. fst (ls ! i) \<and> snd (ls ! i) = m) (map (\<lambda>k. (rr + k) mod length ls) [0..<length ls]) = Some i"
    using assms n by (auto simp: pick_def Let_def split: option.splits)
  have i: "i \<in> set (map (\<lambda>k. (rr + k) mod length ls) [0..<length ls])" "fst (ls ! i)" "snd (ls ! i) = m"
    using f by (auto simp: find_Some_iff)
  show "i < length ls" using i(1) unfolding rotation_set [OF n] by simp
  show "fst (ls ! i)" by (rule i(2))
  show "list_all (\<lambda>l. fst l \<longrightarrow> snd (ls ! i) \<le> snd l) ls" using least_load_spec(2) [OF m] i(3) by (auto simp: list_all_iff)
qed

lemma pick_None: "pick ls rr = None \<longleftrightarrow> \<not> list_ex fst ls"
proof (cases "least_load ls")
  case None
  then show ?thesis using least_load_spec(1) [of ls] by (auto simp: pick_def Let_def)
next
  case (Some m)
  then obtain i where i: "i < length ls" "ls ! i = (True, m)" using least_load_spec(2) by (fastforce simp: in_set_conv_nth)
  then have n: "0 < length ls" by linarith
  have "i \<in> set (map (\<lambda>k. (rr + k) mod length ls) [0..<length ls])" unfolding rotation_set [OF n] using i(1) by simp
  then have "pick ls rr \<noteq> None" using i(2) n Some unfolding pick_def Let_def by (auto simp: find_None_iff simp del: set_map intro!: exI [of _ i])
  then show ?thesis using least_load_spec(1) [of ls] Some by auto
qed

text \<open>The upstream picked is a healthy one with the fewest sessions; there is none exactly when none is healthy.\<close>

theorem pick_least_loaded:
  "case pick ls rr of Some i \<Rightarrow> i < length ls \<and> fst (ls ! i) \<and> list_all (\<lambda>l. snd (ls ! i) \<le> snd l) (filter fst ls)
   | None \<Rightarrow> \<not> list_ex fst ls"
  using pick_Some [of ls rr] pick_None [of ls rr] by (auto simp: list_all_iff split: option.split)

lemma ov_choose_simps [simp]:
  "snd (ov_choose V) = V\<lparr>ov_rr := ov_rr V + 1\<rparr>" "fst (ov_choose V) = pick (ov_loads V) (ov_rr V)"
  by (simp_all add: ov_choose_def)

lemma loads_healthy: "list_ex fst (ov_loads V) \<longleftrightarrow> list_ex us_healthy (ov_upstreams V)" "length (ov_loads V) = length (ov_upstreams V)"
  by (auto simp: ov_loads_def list_ex_iff)

text \<open>Upstreams as the gate leaves them while it looks for one: some marked down, nothing else changed.\<close>

definition same_but_down :: "upstream \<Rightarrow> upstream \<Rightarrow> bool" where
  "same_but_down u u' \<longleftrightarrow> u' = u \<or> (\<exists>e. u' = mark_down e u)"

lemma same_but_down_fields:
  assumes "same_but_down u u'"
  shows "us_cfg u' = us_cfg u" "us_sessions u' = us_sessions u" "us_healthy u' \<Longrightarrow> u' = u"
  using assms by (auto simp: same_but_down_def mark_down_def)

lemma try_upstreams_frame:
  assumes "try_upstreams con k V = (r, V')"
  shows "list_all2 same_but_down (ov_upstreams V) (ov_upstreams V') \<and> (\<exists>us rr. V' = V\<lparr>ov_upstreams := us, ov_rr := rr\<rparr>)
    \<and> (case r of Some i \<Rightarrow> i < length (ov_upstreams V') \<and> us_healthy (ov_upstreams V' ! i) \<and> con (us_cfg (ov_upstreams V' ! i)) = None
        \<and> (\<forall>u \<in> set (ov_upstreams V'). us_healthy u \<longrightarrow> us_sessions (ov_upstreams V' ! i) \<le> us_sessions u) | None \<Rightarrow> True)"
  using assms
proof (induction con k V arbitrary: r V' rule: try_upstreams.induct)
  case (1 con V)
  have "\<exists>us rr. V = V\<lparr>ov_upstreams := us, ov_rr := rr\<rparr>" by (rule exI [of _ "ov_upstreams V"], rule exI [of _ "ov_rr V"]) simp
  then show ?case using 1 by (auto simp: same_but_down_def list_all2_same)
next
  case (2 con k V)
  let ?V1 = "V\<lparr>ov_rr := ov_rr V + 1\<rparr>"
  have rf: "list_all2 same_but_down us us" for us by (simp add: list_all2_same same_but_down_def)
  show ?case
  proof (cases "pick (ov_loads V) (ov_rr V)")
    case None
    then show ?thesis using "2.prems" rf by (auto simp: ov_choose_def intro!: exI [of _ "ov_upstreams V"] exI [of _ "ov_rr V + 1"])
  next
    case (Some i)
    note p = pick_Some [OF Some]
    have i: "i < length (ov_upstreams V)" "us_healthy (ov_upstreams V ! i)" using p(1,2) by (simp_all add: ov_loads_def)
    have least: "\<forall>u \<in> set (ov_upstreams V). us_healthy u \<longrightarrow> us_sessions (ov_upstreams V ! i) \<le> us_sessions u"
      using p(3) i(1) by (auto simp: ov_loads_def list_all_iff)
    have ch: "ov_choose V = (Some i, ?V1)" by (simp add: ov_choose_def Some)
    show ?thesis
    proof (cases "con (us_cfg (ov_upstreams V ! i))")
      case None
      then have "r = Some i" "V' = ?V1" using "2.prems" ch by simp_all
      then show ?thesis using rf i least None by (auto intro!: exI [of _ "ov_upstreams V"] exI [of _ "ov_rr V + 1"])
    next
      case (Some e)
      let ?V2 = "?V1\<lparr>ov_upstreams := (ov_upstreams V)[i := mark_down e (ov_upstreams V ! i)]\<rparr>"
      have t: "try_upstreams con k ?V2 = (r, V')" using "2.prems" ch Some by simp
      have I: "list_all2 same_but_down (ov_upstreams ?V2) (ov_upstreams V') \<and> (\<exists>us rr. V' = ?V2\<lparr>ov_upstreams := us, ov_rr := rr\<rparr>)
        \<and> (case r of Some i \<Rightarrow> i < length (ov_upstreams V') \<and> us_healthy (ov_upstreams V' ! i) \<and> con (us_cfg (ov_upstreams V' ! i)) = None
        \<and> (\<forall>u \<in> set (ov_upstreams V'). us_healthy u \<longrightarrow> us_sessions (ov_upstreams V' ! i) \<le> us_sessions u) | None \<Rightarrow> True)"
        using "2.IH" [OF ch [symmetric] refl, of e] Some t by simp
      have tr: "same_but_down u u2" if "same_but_down u u1" "same_but_down u1 u2" for u u1 u2
        using that by (auto simp: same_but_down_def mark_down_def)
      have "list_all2 same_but_down (ov_upstreams V) (ov_upstreams ?V2)"
        using i(1) by (auto simp: list_all2_conv_all_nth nth_list_update same_but_down_def)
      then have "list_all2 same_but_down (ov_upstreams V) (ov_upstreams V')"
        by (rule list_all2_trans [rotated, OF _ conjunct1 [OF I]]) (rule tr)
      moreover have "\<exists>us rr. V' = V\<lparr>ov_upstreams := us, ov_rr := rr\<rparr>" using I by auto
      ultimately show ?thesis using I by blast
    qed
  qed
qed

lemma try_upstreams_finds:
  assumes "length (filter us_healthy (ov_upstreams V)) \<le> k" "u \<in> set (ov_upstreams V)" "us_healthy u" "con (us_cfg u) = None"
  shows "fst (try_upstreams con k V) \<noteq> None"
  using assms
proof (induction k arbitrary: V)
  case 0
  then show ?case by (auto simp: filter_empty_conv)
next
  case (Suc k)
  let ?us = "ov_upstreams V"
  have "list_ex us_healthy ?us" using Suc.prems by (auto simp: list_ex_iff)
  then obtain i where pk: "pick (ov_loads V) (ov_rr V) = Some i" using pick_None loads_healthy(1) by (metis option.exhaust)
  have i: "i < length ?us" "us_healthy (?us ! i)" using pick_Some(1,2) [OF pk] by (simp_all add: ov_loads_def)
  show ?case
  proof (cases "con (us_cfg (?us ! i))")
    case None
    then show ?thesis by (simp add: ov_choose_def pk)
  next
    case (Some e)
    let ?us2 = "?us[i := mark_down e (?us ! i)]"
    have "length (filter us_healthy ?us) = Suc (length (filter us_healthy ?us2))"
      using i by (subst id_take_nth_drop [OF i(1)]) (simp add: upd_conv_take_nth_drop mark_down_def)
    moreover have "u \<in> set ?us2"
    proof -
      obtain j where j: "j < length ?us" "?us ! j = u" using Suc.prems(2) by (auto simp: in_set_conv_nth)
      then have "j \<noteq> i" using Some Suc.prems(4) by auto
      then show ?thesis using j by (auto simp: in_set_conv_nth intro!: exI [of _ j])
    qed
    ultimately show ?thesis using Suc.IH [of "V\<lparr>ov_rr := ov_rr V + 1, ov_upstreams := ?us2\<rparr>"] Suc.prems Some
      by (simp add: ov_choose_def pk)
  qed
qed

lemma connect_finds: "fst (connect_choice con V) \<noteq> None \<longleftrightarrow> list_ex (\<lambda>u. us_healthy u \<and> con (us_cfg u) = None) (ov_upstreams V)"
proof
  assume "fst (connect_choice con V) \<noteq> None"
  then obtain i V' where t: "try_upstreams con (max (length (ov_upstreams V)) 1) V = (Some i, V')"
    by (metis connect_choice_def option.exhaust prod.collapse)
  note f = try_upstreams_frame [OF t]
  then have i: "i < length (ov_upstreams V')" "us_healthy (ov_upstreams V' ! i)" "con (us_cfg (ov_upstreams V' ! i)) = None" by simp_all
  have "same_but_down (ov_upstreams V ! i) (ov_upstreams V' ! i)" "i < length (ov_upstreams V)"
    using f i(1) by (simp_all add: list_all2_conv_all_nth)
  then show "list_ex (\<lambda>u. us_healthy u \<and> con (us_cfg u) = None) (ov_upstreams V)"
    using i(2,3) same_but_down_fields(3) by (force simp: list_ex_iff)
next
  assume "list_ex (\<lambda>u. us_healthy u \<and> con (us_cfg u) = None) (ov_upstreams V)"
  then obtain u where "u \<in> set (ov_upstreams V)" "us_healthy u" "con (us_cfg u) = None" by (auto simp: list_ex_iff)
  moreover have "length (filter us_healthy (ov_upstreams V)) \<le> max (length (ov_upstreams V)) 1"
    using length_filter_le [of us_healthy "ov_upstreams V"] by linarith
  ultimately show "fst (connect_choice con V) \<noteq> None" unfolding connect_choice_def by (intro try_upstreams_finds)
qed

text \<open>
  No upstream that could take the miner is passed over: a connection is found exactly when some upstream is up and takes it, however many
  others have to be tried first.
\<close>

theorem connect_choice_complete:
  "fst (connect_choice con V) \<noteq> None \<longleftrightarrow> list_ex (\<lambda>u. us_healthy u \<and> con (us_cfg u) = None) (ov_upstreams V)"
  by (rule connect_finds)

section \<open>Who is relayed\<close>

lemma gate_cases:
  assumes g: "gate N now sid a host fline es V = (GRelay idx u ls, V')" and h: "h = hold_lines (ge_parse N) es []"
  shows "considering V" "\<not> ip_grandfathered now a V" "\<not> ip_unpayable now a V" "\<not> ip_churned now a V" "\<not> (hl_gone h \<and> hl_user h = [])"
    "hl_user h = [] \<or> ge_payable N (hl_user h)" "mode_now V = Force \<or> mode_now V = Auto \<and> ov_active V"
    "\<not> ident_grandfathered now (ge_canon N (hl_user h)) V" "u = hl_user h" "tl ls = hl_buf h"
    "\<exists>V1 sess. connect_choice (ge_connect N) V = (Some idx, V1) \<and> V' = open_relay idx sid sess V1 \<and> ps_upstream sess = idx"
proof -
  have 1: "\<not> (\<not> considering V \<or> ip_grandfathered now a V \<or> ip_unpayable now a V \<or> ip_churned now a V)"
    by (rule ccontr) (use g in \<open>simp add: gate_def\<close>)
  have 2: "\<not> (hl_gone h \<and> hl_user h = [])" by (rule ccontr) (use g 1 h in \<open>simp add: gate_def Let_def\<close>)
  have 3: "\<not> (hl_user h \<noteq> [] \<and> \<not> ge_payable N (hl_user h))" by (rule ccontr) (use g 1 2 h in \<open>simp add: gate_def Let_def\<close>)
  let ?d = "decide (mode_now V) (ov_active V) (ident_grandfathered now (ge_canon N (hl_user h)) V) (Some 0)"
  have 4: "?d \<noteq> DLocal" "?d \<noteq> DShadow" using g unfolding gate_def Let_def h [symmetric] if_not_P [OF 1] if_not_P [OF 2] if_not_P [OF 3] by auto
  have 5: "(case ?d of DLocal \<Rightarrow> X | DShadow \<Rightarrow> Y | _ \<Rightarrow> Z) = Z" for X Y Z :: "gate_answer \<times> overflow" using 4 by (cases ?d) simp_all
  show "considering V" "\<not> ip_grandfathered now a V" "\<not> ip_unpayable now a V" "\<not> ip_churned now a V" using 1 by simp_all
  show "\<not> (hl_gone h \<and> hl_user h = [])" "hl_user h = [] \<or> ge_payable N (hl_user h)" using 2 3 by blast+
  show "mode_now V = Force \<or> mode_now V = Auto \<and> ov_active V" "\<not> ident_grandfathered now (ge_canon N (hl_user h)) V"
    using 4 by (cases "mode_now V"; simp add: decide_def split: if_splits)+
  note G = g [unfolded gate_def Let_def h [symmetric] if_not_P [OF 1] if_not_P [OF 2] if_not_P [OF 3] 5]
  show "u = hl_user h" "tl ls = hl_buf h" using G by (auto split: prod.splits option.splits)
  show "\<exists>V1 sess. connect_choice (ge_connect N) V = (Some idx, V1) \<and> V' = open_relay idx sid sess V1 \<and> ps_upstream sess = idx"
    using G by (auto split: prod.splits option.splits)
qed

text \<open>
  C37. Nobody who is ours is sent away. A connection is relayed only when the valve is open, by the operator or by the meter, neither its address nor the
  identity it named is known here, the name it gave, if it gave one, can be paid, and the upstream it goes to is up
  and takes the connection, which is then on the books.
\<close>

theorem relayed_only_strangers:
  assumes "gate N now sid a host fline es V = (GRelay idx u ls, V')"
  shows "(mode_now V = Force \<or> mode_now V = Auto \<and> ov_active V)
    \<and> \<not> ip_grandfathered now a V \<and> \<not> ident_grandfathered now (ge_canon N u) V \<and> (u = [] \<or> ge_payable N u)
    \<and> idx < length (ov_upstreams V) \<and> us_healthy (ov_upstreams V ! idx) \<and> ge_connect N (us_cfg (ov_upstreams V ! idx)) = None
    \<and> map_of (ov_proxied V') sid \<noteq> None \<and> us_sessions (ov_upstreams V' ! idx) = us_sessions (ov_upstreams V ! idx) + 1"
proof -
  note c = gate_cases [OF assms refl]
  obtain V1 sess where o: "connect_choice (ge_connect N) V = (Some idx, V1)" "V' = open_relay idx sid sess V1" using c(11) by blast
  note f = try_upstreams_frame [OF o(1) [unfolded connect_choice_def]]
  then have i: "idx < length (ov_upstreams V1)" "us_healthy (ov_upstreams V1 ! idx)" "ge_connect N (us_cfg (ov_upstreams V1 ! idx)) = None" by simp_all
  have same: "same_but_down (ov_upstreams V ! idx) (ov_upstreams V1 ! idx)" "length (ov_upstreams V) = length (ov_upstreams V1)"
    using f i(1) by (simp_all add: list_all2_conv_all_nth)
  then have "ov_upstreams V1 ! idx = ov_upstreams V ! idx" using same_but_down_fields(3) i(2) by blast
  then show ?thesis using c(1-9) i same(2) o(2) by (auto simp: open_relay_def AList.update_conv)
qed

text \<open>
  No miner is turned away: when every upstream is down or does not answer, and whenever the valve is shut or the mode only
  watches, the connection is served here with every line that was read.
\<close>

theorem no_upstream_serves_here:
  assumes "\<not> list_ex (\<lambda>u. us_healthy u \<and> ge_connect N (us_cfg u) = None) (ov_upstreams V) \<or> \<not> considering V \<or> mode_now V = Shadow"
  shows "\<exists>buf V'. gate N now sid a host fline es V = (GLocal buf, V')"
proof (cases "gate N now sid a host fline es V")
  case (Pair r V')
  show ?thesis
  proof (cases r)
    case (GRelay idx u ls)
    note c = gate_cases [OF Pair [unfolded GRelay] refl]
    then have "fst (connect_choice (ge_connect N) V) \<noteq> None" by auto
    then have "list_ex (\<lambda>u. us_healthy u \<and> ge_connect N (us_cfg u) = None) (ov_upstreams V)" by (rule connect_finds [THEN iffD1])
    then show ?thesis using assms c by auto
  qed (use Pair in simp)
qed

section \<open>A relay's lines\<close>

definition stats_ok :: "relay_stats \<Rightarrow> bool" where
  "stats_ok S \<longleftrightarrow> rs_accepted S + rs_rejected S + length (rs_pending S) \<le> rs_submits S \<and> length (rs_pending S) \<le> MAX_PENDING_SUBMITS"

lemma note_submit_ok: "stats_ok S \<Longrightarrow> stats_ok (snd (note_submit parse line S))"
  by (auto simp: note_submit_def stats_ok_def Let_def MAX_PENDING_SUBMITS_def split: option.split)

lemma note_reply_ok: "stats_ok S \<Longrightarrow> stats_ok (snd (note_reply parse text_of line S))"
proof -
  have "Suc (length (remove1 x xs)) = length xs" if "x \<in> set xs" for x and xs :: "json list"
    using that length_pos_if_in_set [OF that] by (simp add: length_remove1)
  then show "stats_ok S \<Longrightarrow> ?thesis" by (fastforce simp: note_reply_def stats_ok_def Let_def split: option.split)
qed

lemma stats_ok_lines [simp]:
  "stats_ok (S\<lparr>rs_miner_lines := n\<rparr>) = stats_ok S" "stats_ok (S\<lparr>rs_upstream_lines := n\<rparr>) = stats_ok S"
  by (simp_all add: stats_ok_def)

definition is_reconnect :: "gate_env \<Rightarrow> string \<Rightarrow> bool" where
  "is_reconnect N line \<longleftrightarrow> contains_text line ''client.reconnect'' \<and> is_method (ge_parse N) line ''client.reconnect''"

definition names_payable :: "gate_env \<Rightarrow> string \<Rightarrow> bool" where
  "names_payable N line = (case authorize_user (ge_parse N) line of None \<Rightarrow> True | Some u \<Rightarrow> ge_payable N u)"

text \<open>A relay from its first lines on, its two directions in any order.\<close>

inductive relay_run :: "gate_env \<Rightarrow> bool \<Rightarrow> string list \<Rightarrow> string option \<Rightarrow> relay \<Rightarrow> bool" for N and sniff and initial and banner where
  relay_start: "relay_run N sniff initial banner (start_relay (ge_parse N) t initial banner)"
| relay_line_down: "relay_run N sniff initial banner R \<Longrightarrow> relay_run N sniff initial banner (relay_down N line R)"
| relay_line_up: "relay_run N sniff initial banner R \<Longrightarrow> relay_up N sniff t now sid a line (R, V) = (R', V')
    \<Longrightarrow> relay_run N sniff initial banner R'"

lemma relay_down_lines:
  "rl_up (relay_down N line R) = rl_up R" "stats_ok (rl_stats R) \<Longrightarrow> stats_ok (rl_stats (relay_down N line R))"
  "\<exists>ls. rl_down (relay_down N line R) = rl_down R @ ls \<and> list_all (\<lambda>l. \<not> is_reconnect N l \<or> Some l = rl_banner R) ls
    \<and> (rl_banner (relay_down N line R) = rl_banner R \<or> rl_banner (relay_down N line R) = None)"
  by (auto simp: relay_down_def is_reconnect_def note_reply_ok Let_def split: option.split)

lemma relay_up_lines:
  assumes "relay_up N sniff t now sid a line (R, V) = (R', V')"
  shows "rl_down R' = rl_down R \<and> rl_banner R' = rl_banner R \<and> (stats_ok (rl_stats R) \<longrightarrow> stats_ok (rl_stats R'))"
    "rl_up R' = rl_up R \<or> rl_up R' = rl_up R @ [line] \<and> (sniff \<longrightarrow> names_payable N line)"
proof -
  have f: "fst (on_authorize N now sid a u V) = Forward \<Longrightarrow> ge_payable N u" for u
    by (auto simp: on_authorize_def Let_def split: if_splits)
  show "rl_down R' = rl_down R \<and> rl_banner R' = rl_banner R \<and> (stats_ok (rl_stats R) \<longrightarrow> stats_ok (rl_stats R'))"
    using assms by (auto simp: relay_up_def Let_def note_submit_ok split: if_splits option.splits prod.splits)
  show "rl_up R' = rl_up R \<or> rl_up R' = rl_up R @ [line] \<and> (sniff \<longrightarrow> names_payable N line)"
    using assms f by (force simp: relay_up_def Let_def names_payable_def split: if_splits option.splits prod.splits)
qed

lemma relay_run_lines:
  assumes "relay_run N sniff initial banner R"
  shows "stats_ok (rl_stats R) \<and> (\<exists>ls. rl_up R = initial @ ls \<and> (sniff \<longrightarrow> list_all (names_payable N) ls))
    \<and> list_all (\<lambda>l. \<not> is_reconnect N l \<or> Some l = banner) (rl_down R) \<and> (rl_banner R = banner \<or> rl_banner R = None)"
  using assms
proof (induction rule: relay_run.induct)
  case (relay_start t)
  have "stats_ok (fold (\<lambda>l S. snd (note_submit (ge_parse N) l S)) ls S)" if "stats_ok S" for ls S
    using that by (induction ls arbitrary: S) (simp_all add: note_submit_ok)
  moreover have "stats_ok no_stats" by (simp add: stats_ok_def no_stats_def)
  ultimately show ?case by (simp add: start_relay_def)
next
  case (relay_line_down R line)
  then show ?case using relay_down_lines [where N = N and line = line and R = R] by (auto simp: list_all_iff)
next
  case (relay_line_up R t now sid a line V R' V')
  note u = relay_up_lines [OF relay_line_up.hyps(2)]
  obtain ls where ls: "rl_up R = initial @ ls" "sniff \<longrightarrow> list_all (names_payable N) ls" using relay_line_up.IH by blast
  have "\<exists>ls. rl_up R' = initial @ ls \<and> (sniff \<longrightarrow> list_all (names_payable N) ls)"
    using u(2) ls by (elim disjE) (auto intro: exI [of _ "ls @ [line]"])
  then show ?case using relay_line_up.IH u(1) by auto
qed

text \<open>
  C40. A relay counts each share's verdict once and passes on nothing it should not: the accepted, the refused and the waiting are at most what
  was submitted, at most 256 wait, what goes up starts with the lines read at the gate, and no line that says \<^verbatim>\<open>client.reconnect\<close> in
  plain text reaches the miner, the banner aside.
\<close>

theorem relay_counts_and_filters:
  assumes "relay_run N sniff initial banner R"
  shows "rs_accepted (rl_stats R) + rs_rejected (rl_stats R) + length (rs_pending (rl_stats R)) \<le> rs_submits (rl_stats R)
    \<and> length (rs_pending (rl_stats R)) \<le> 256 \<and> take (length initial) (rl_up R) = initial
    \<and> list_all (\<lambda>l. Some l = banner) (filter (is_reconnect N) (rl_down R))"
  using relay_run_lines [OF assms] by (auto simp: stats_ok_def MAX_PENDING_SUBMITS_def list_all_iff)

lemma hold_lines_named:
  assumes "list_all (\<lambda>l. authorize_user parse l = None) buf"
  shows "hl_user (hold_lines parse es buf) = [] \<Longrightarrow> list_all (\<lambda>l. authorize_user parse l \<in> {None, Some []}) (hl_buf (hold_lines parse es buf))"
  using assms
proof (induction parse es buf rule: hold_lines.induct)
  case (2 parse e es buf)
  then show ?case
    by (auto simp: Let_def user_or_none_def list_all_iff split: read_event.splits option.splits if_splits)
qed (simp add: list_all_iff)

text \<open>
  A name nobody can pay is not sent to another pool: when the gate relays a miner that has not named itself yet, every
  authorize line that goes up afterwards names somebody who can be paid.
\<close>

theorem late_name_checked:
  assumes "gate N now sid a host fline es V = (GRelay idx [] ls, V')" "relay_run N True ls banner R"
  shows "list_all (\<lambda>l. authorize_user (ge_parse N) l \<noteq> Some [] \<longrightarrow> names_payable N l) (tl (rl_up R))"
proof -
  note c = gate_cases [OF assms(1) refl]
  let ?h = "hold_lines (ge_parse N) es []"
  have "list_all (\<lambda>l. authorize_user (ge_parse N) l \<in> {None, Some []}) (tl ls)"
    using hold_lines_named [of "ge_parse N" "[]" es] c(9,10) by simp
  moreover obtain up where "rl_up R = ls @ up" "list_all (names_payable N) up" using relay_run_lines [OF assms(2)] by blast
  moreover have "ls \<noteq> []" using assms(1) by (auto simp: gate_def Let_def split: if_splits decision.splits prod.splits option.splits)
  ultimately show ?thesis by (auto simp: list_all_iff names_payable_def split: option.splits)
qed

section \<open>The books of the valve\<close>

definition row_tally :: "nat \<Rightarrow> (u64 \<times> proxy_session) list \<Rightarrow> nat" where
  "row_tally i ps = length (filter (\<lambda>x. ps_upstream (snd x) = i) ps)"

lemma row_tally_update_new: "map_of ps k = None \<Longrightarrow> row_tally i (AList.update k p ps) = row_tally i ps + (if ps_upstream p = i then 1 else 0)"
  by (induction ps) (auto simp: row_tally_def split: if_splits)

lemma row_tally_update_same: "map_of ps k = Some q \<Longrightarrow> ps_upstream p = ps_upstream q \<Longrightarrow> row_tally i (AList.update k p ps) = row_tally i ps"
  by (induction ps) (auto simp: row_tally_def split: if_splits)

lemma row_tally_delete:
  "distinct (map fst ps) \<Longrightarrow> map_of ps k = Some q \<Longrightarrow> row_tally i ps = row_tally i (AList.delete k ps) + (if ps_upstream q = i then 1 else 0)"
  by (induction ps) (auto simp: row_tally_def AList.delete_eq map_of_eq_None_iff [symmetric] intro!: arg_cong [where f = length] filter_cong
      simp: filter_id_conv dest: map_of_SomeD split: if_splits)

lemma length_update_rows: "length (AList.update k v ps) = (if map_of ps k = None then Suc (length ps) else length ps)"
  by (induction ps) (auto split: if_splits)

text \<open>
  Every row is of an upstream there is, each upstream's sessions are its rows, no more relays are counted as ended than have
  ended, and the remembered addresses and names are within their caps.
\<close>

definition overflow_ok :: "overflow \<Rightarrow> bool" where
  "overflow_ok V \<longleftrightarrow> distinct (map fst (ov_proxied V))
     \<and> (\<forall>i < length (ov_upstreams V). us_sessions (ov_upstreams V ! i) = row_tally i (ov_proxied V))
     \<and> list_all (\<lambda>x. ps_upstream (snd x) < length (ov_upstreams V)) (ov_proxied V)
     \<and> ov_relays_churned V + ov_relays_bounced V + length (ov_proxied V) \<le> ov_proxied_total V
     \<and> length (gf_idents (ov_grandfather V)) \<le> GRANDFATHER_MAX \<and> length (gf_ips (ov_grandfather V)) \<le> GRANDFATHER_MAX
     \<and> length (ov_unpayable_ips V) \<le> UNPAYABLE_IPS_MAX \<and> length (ov_churn_ips V) \<le> UNPAYABLE_IPS_MAX"

lemma note_bounded:
  "length (gf_idents g) \<le> GRANDFATHER_MAX \<Longrightarrow> length (gf_idents (note_ident i t g)) \<le> GRANDFATHER_MAX"
  "length (gf_ips g) \<le> GRANDFATHER_MAX \<Longrightarrow> length (gf_ips (note_ip a t g)) \<le> GRANDFATHER_MAX"
  "gf_ips (note_ident i t g) = gf_ips g" "gf_idents (note_ip a t g) = gf_idents g"
  by (auto simp: note_ident_def note_ip_def length_update_rows)

lemma in_update: "x \<in> set (AList.update k v ps) \<Longrightarrow> x = (k, v) \<or> x \<in> set ps"
  by (induction ps) (auto split: if_splits)

lemma overflow_ok_down:
  assumes "overflow_ok V" "list_all2 same_but_down (ov_upstreams V) us"
  shows "overflow_ok (V\<lparr>ov_upstreams := us, ov_rr := rr\<rparr>)"
proof -
  have "length us = length (ov_upstreams V)" "\<forall>i < length us. us_sessions (us ! i) = us_sessions (ov_upstreams V ! i)"
    using assms(2) same_but_down_fields(2) by (auto simp: list_all2_conv_all_nth)
  then show ?thesis using assms(1) by (simp add: overflow_ok_def)
qed

lemma connect_ok:
  assumes "connect_choice con V = (r, V1)" "overflow_ok V"
  shows "overflow_ok V1" "ov_proxied V1 = ov_proxied V" "case r of Some i \<Rightarrow> i < length (ov_upstreams V1) | None \<Rightarrow> True"
proof -
  note f = try_upstreams_frame [OF assms(1) [unfolded connect_choice_def]]
  then obtain us rr where v: "V1 = V\<lparr>ov_upstreams := us, ov_rr := rr\<rparr>" by blast
  then show "overflow_ok V1" using overflow_ok_down [OF assms(2)] f by simp
  show "ov_proxied V1 = ov_proxied V" using v by simp
  show "case r of Some i \<Rightarrow> i < length (ov_upstreams V1) | None \<Rightarrow> True" using f by (auto split: option.splits)
qed

lemma open_relay_ok:
  assumes "overflow_ok V" "map_of (ov_proxied V) sid = None" "idx < length (ov_upstreams V)" "ps_upstream sess = idx"
  shows "overflow_ok (open_relay idx sid sess V)"
  using assms by (auto simp: overflow_ok_def open_relay_def nth_list_update row_tally_update_new length_update_rows list_all_iff
      AList.distinct_update dest!: in_update)

lemma overflow_ok_fields:
  assumes "overflow_ok V" "ov_proxied W = ov_proxied V" "map us_sessions (ov_upstreams W) = map us_sessions (ov_upstreams V)"
    "ov_relays_churned W = ov_relays_churned V" "ov_relays_bounced W = ov_relays_bounced V" "ov_proxied_total W = ov_proxied_total V"
    "length (gf_idents (ov_grandfather W)) \<le> GRANDFATHER_MAX" "length (gf_ips (ov_grandfather W)) \<le> GRANDFATHER_MAX"
    "length (ov_unpayable_ips W) \<le> UNPAYABLE_IPS_MAX" "ov_churn_ips W = ov_churn_ips V"
  shows "overflow_ok W"
proof -
  have "length (ov_upstreams W) = length (ov_upstreams V)" by (rule map_eq_imp_length_eq [OF assms(3)])
  moreover have "us_sessions (ov_upstreams W ! i) = us_sessions (ov_upstreams V ! i)" if "i < length (ov_upstreams W)" for i
    using arg_cong [OF assms(3), of "\<lambda>xs. xs ! i"] that calculation by simp
  ultimately show ?thesis using assms by (simp add: overflow_ok_def)
qed

lemma overflow_okD:
  assumes "overflow_ok V"
  shows "length (gf_idents (ov_grandfather V)) \<le> GRANDFATHER_MAX" "length (gf_ips (ov_grandfather V)) \<le> GRANDFATHER_MAX"
    "length (ov_unpayable_ips V) \<le> UNPAYABLE_IPS_MAX"
  using assms by (simp_all add: overflow_ok_def)

lemma gate_ok:
  assumes "gate N now sid a host fline es V = (r, V')" "overflow_ok V" "map_of (ov_proxied V) sid = None"
  shows "overflow_ok V'"
proof (cases r)
  case (GLocal buf)
  obtain ch V1 where c: "connect_choice (ge_connect N) V = (ch, V1)" by fastforce
  note k = connect_ok [OF c assms(2)]
  have e: "overflow_ok (V\<lparr>ov_relays_unpayable := n\<rparr>)" "overflow_ok (V\<lparr>ov_shadow_would := n\<rparr>)" "overflow_ok (V1\<lparr>ov_fail_open := n\<rparr>)" for n
    using assms(2) k(1) by (simp_all add: overflow_ok_def)
  show ?thesis using assms(1,2) e GLocal
    by (auto simp: gate_def Let_def c split: if_splits decision.splits option.splits)
next
  case (GRelay idx u ls)
  obtain V1 sess where o: "connect_choice (ge_connect N) V = (Some idx, V1)" "V' = open_relay idx sid sess V1" "ps_upstream sess = idx"
    using gate_cases(11) [OF assms(1) [unfolded GRelay] refl] by blast
  note k = connect_ok [OF o(1) assms(2)]
  show ?thesis unfolding o(2) by (rule open_relay_ok) (use k assms(3) o(3) in simp_all)
qed

lemma update_row_ok:
  assumes "overflow_ok V" "map_of (ov_proxied V) sid = Some p" "ps_upstream q = ps_upstream p"
  shows "overflow_ok (V\<lparr>ov_proxied := AList.update sid q (ov_proxied V)\<rparr>)"
proof -
  have "(sid, p) \<in> set (ov_proxied V)" using assms(2) by (rule map_of_SomeD)
  then have "ps_upstream p < length (ov_upstreams V)" using assms(1) by (force simp: overflow_ok_def list_all_iff)
  then show ?thesis using assms
    by (auto simp: overflow_ok_def row_tally_update_same length_update_rows list_all_iff AList.distinct_update dest!: in_update)
qed

lemma note_unpayable_ok: "overflow_ok V \<Longrightarrow> overflow_ok (note_unpayable_ip now a V)"
proof (rule overflow_ok_fields)
  assume ok: "overflow_ok V"
  let ?m = "filter (\<lambda>(_, t). now - t \<le> UNPAYABLE_LOCAL_SECS) (ov_unpayable_ips V)"
  have "length ?m \<le> UNPAYABLE_IPS_MAX" using overflow_okD(3) [OF ok] length_filter_le order.trans by blast
  then show "length (ov_unpayable_ips (note_unpayable_ip now a V)) \<le> UNPAYABLE_IPS_MAX"
    by (simp add: note_unpayable_ip_def Let_def length_update_rows)
qed (simp_all add: note_unpayable_ip_def Let_def overflow_okD)

lemma on_authorize_ok:
  assumes "on_authorize N now sid a u V = (d, V')" "overflow_ok V"
  shows "overflow_ok V'"
proof -
  define W where "W = (case map_of (ov_proxied V) sid of None \<Rightarrow> V
     | Some p \<Rightarrow> V\<lparr>ov_proxied := AList.update sid (p\<lparr>ps_user := printable_user u, ps_identity := ge_canon N u, ps_worker := worker_part u\<rparr>) (ov_proxied V)\<rparr>)"
  have w: "overflow_ok W" using assms(2) update_row_ok [OF assms(2), of sid] by (auto simp: W_def split: option.splits)
  have "overflow_ok (W\<lparr>ov_grandfather := note_ip a now (ov_grandfather W), ov_dirty := True\<rparr>)"
    by (rule overflow_ok_fields [OF w]) (simp_all add: note_bounded overflow_okD [OF w])
  moreover have "overflow_ok (note_unpayable_ip now a (W\<lparr>ov_relays_unpayable := n\<rparr>))" for n
    by (rule note_unpayable_ok) (use w in \<open>simp add: overflow_ok_def\<close>)
  ultimately show ?thesis using assms(1) w unfolding on_authorize_def Let_def W_def [symmetric] by (auto split: if_splits)
qed

lemma length_delete: "distinct (map fst ps) \<Longrightarrow> map_of ps k = Some q \<Longrightarrow> length ps = Suc (length (AList.delete k ps))"
  by (induction ps) (auto split: if_splits)

lemma in_delete: "x \<in> set (AList.delete k ps) \<Longrightarrow> x \<in> set ps"
  by (simp add: AList.delete_eq)

lemma note_churn_ok:
  assumes "overflow_ok V"
  shows "length (ov_churn_ips (note_churn_ip now a V)) \<le> UNPAYABLE_IPS_MAX"
proof -
  let ?m = "filter (\<lambda>(_, _, t). now - t \<le> CHURN_LOCAL_SECS) (ov_churn_ips V)"
  have "length ?m \<le> UNPAYABLE_IPS_MAX" using assms length_filter_le order.trans unfolding overflow_ok_def by blast
  then show ?thesis by (auto simp: note_churn_ip_def Let_def length_update_rows)
qed

lemma close_row_ok:
  assumes ok: "overflow_ok V" and p: "map_of (ov_proxied V) sid = Some p"
    and u: "us_sessions u = us_sessions (ov_upstreams V ! ps_upstream p) - 1"
    and W: "ov_proxied W = AList.delete sid (ov_proxied V)" "ov_upstreams W = (ov_upstreams V)[ps_upstream p := u]"
      "ov_relays_churned W + ov_relays_bounced W \<le> ov_relays_churned V + ov_relays_bounced V + 1" "ov_proxied_total W = ov_proxied_total V"
      "ov_grandfather W = ov_grandfather V" "ov_unpayable_ips W = ov_unpayable_ips V" "length (ov_churn_ips W) \<le> UNPAYABLE_IPS_MAX"
  shows "overflow_ok W"
proof -
  let ?i = "ps_upstream p"
  have i: "?i < length (ov_upstreams V)" using ok map_of_SomeD [OF p] by (force simp: overflow_ok_def list_all_iff)
  have d: "distinct (map fst (ov_proxied V))" using ok by (simp add: overflow_ok_def)
  note t = row_tally_delete [OF d p] and n = length_delete [OF d p]
  show ?thesis using ok i u W n
    by (auto simp: overflow_ok_def nth_list_update t AList.distinct_delete list_all_iff dest!: in_delete)
qed

lemma end_relay_ok:
  assumes ok: "overflow_ok V" and p: "map_of (ov_proxied V) sid = Some p"
  shows "overflow_ok (end_relay now sid (ps_upstream p) a R V)"
proof -
  have old: "length (ov_churn_ips V) \<le> UNPAYABLE_IPS_MAX" using ok by (simp add: overflow_ok_def)
  have keep: "ov_churn_ips (note_churn_ip now a (V\<lparr>ov_relays_churned := n\<rparr>)) = ov_churn_ips (note_churn_ip now a V)" for n
    by (simp add: note_churn_ip_def Let_def)
  have frame: "ov_proxied (note_churn_ip now a W) = ov_proxied W" "ov_upstreams (note_churn_ip now a W) = ov_upstreams W"
    "ov_relays_churned (note_churn_ip now a W) = ov_relays_churned W" "ov_relays_bounced (note_churn_ip now a W) = ov_relays_bounced W"
    "ov_proxied_total (note_churn_ip now a W) = ov_proxied_total W" "ov_grandfather (note_churn_ip now a W) = ov_grandfather W"
    "ov_unpayable_ips (note_churn_ip now a W) = ov_unpayable_ips W" for W by (simp_all add: note_churn_ip_def Let_def)
  have i: "ps_upstream p < length (ov_upstreams V)" using ok map_of_SomeD [OF p] by (force simp: overflow_ok_def list_all_iff)
  show ?thesis
    by (rule close_row_ok [OF ok p,
          of "(add_verdicts (rl_stats R) (ov_upstreams V ! ps_upstream p))\<lparr>us_sessions := us_sessions (ov_upstreams V ! ps_upstream p) - 1\<rparr>"])
      (simp_all add: end_relay_def drop_guard_def Let_def p i frame keep note_churn_ok [OF ok] old add_verdicts_def)
qed

lemma drop_guard_ok:
  assumes "overflow_ok V" "map_of (ov_proxied V) sid = Some p"
  shows "overflow_ok (drop_guard sid (ps_upstream p) V)"
  by (rule close_row_ok [OF assms, of "(ov_upstreams V ! ps_upstream p)\<lparr>us_sessions := us_sessions (ov_upstreams V ! ps_upstream p) - 1\<rparr>"])
    (use assms(1) in \<open>simp_all add: drop_guard_def Let_def overflow_ok_def\<close>)

text \<open>Everything that moves the valve's state, in any order; a connection's id is its own.\<close>

inductive overflow_run :: "overflow \<Rightarrow> bool" where
  ov_new: "(case file of None \<Rightarrow> True | Some g \<Rightarrow> length (gf_idents g) \<le> GRANDFATHER_MAX \<and> length (gf_ips g) \<le> GRANDFATHER_MAX)
    \<Longrightarrow> overflow_run (new_overflow cfg file)"
| ov_gate: "overflow_run V \<Longrightarrow> map_of (ov_proxied V) sid = None \<Longrightarrow> gate N now sid a host fline es V = (r, V') \<Longrightarrow> overflow_run V'"
| ov_authorize: "overflow_run V \<Longrightarrow> on_authorize N now sid a u V = (d, V') \<Longrightarrow> overflow_run V'"
| ov_row: "overflow_run V \<Longrightarrow> overflow_run (update_row sid S V)"
| ov_end: "overflow_run V \<Longrightarrow> map_of (ov_proxied V) sid = Some p \<Longrightarrow> overflow_run (end_relay now sid (ps_upstream p) a R V)"
| ov_abandoned: "overflow_run V \<Longrightarrow> map_of (ov_proxied V) sid = Some p \<Longrightarrow> overflow_run (drop_guard sid (ps_upstream p) V)"
| ov_share: "overflow_run V \<Longrightarrow> overflow_run (ov_note_share now i a V)"
| ov_poll: "overflow_run V \<Longrightarrow> overflow_run (ov_tick now prime net_hs stratum_hs V)"
| ov_saved: "overflow_run V \<Longrightarrow> overflow_run (ov_save now ok V)"
| ov_health: "overflow_run V \<Longrightarrow> overflow_run (health_round now probe V)"
| ov_admin: "overflow_run V \<Longrightarrow> overflow_run (snd (set_mode s V))"

lemma new_overflow_ok:
  assumes "case file of None \<Rightarrow> True | Some g \<Rightarrow> length (gf_idents g) \<le> GRANDFATHER_MAX \<and> length (gf_ips g) \<le> GRANDFATHER_MAX"
  shows "overflow_ok (new_overflow cfg file)"
  using assms by (auto simp: overflow_ok_def new_overflow_def no_grandfather_def new_upstream_def row_tally_def split: option.splits)

lemma seed_ok: "overflow_ok V \<Longrightarrow> overflow_ok (seed_from_prime now w V)"
proof (cases w)
  case (Some ms)
  assume ok: "overflow_ok V"
  have "length (gf_idents (fold (\<lambda>(i, t). note_ident i t) es g)) \<le> GRANDFATHER_MAX \<and> gf_ips (fold (\<lambda>(i, t). note_ident i t) es g) = gf_ips g"
    if "length (gf_idents g) \<le> GRANDFATHER_MAX" for es g
    using that by (induction es arbitrary: g) (simp_all add: note_bounded case_prod_beta)
  then show ?thesis using overflow_okD [OF ok] by (intro overflow_ok_fields [OF ok]) (simp_all add: seed_from_prime_def Some Let_def)
qed (simp add: seed_from_prime_def)

lemma tick_ok: "overflow_ok V \<Longrightarrow> overflow_ok (ov_tick now prime net_hs stratum_hs V)"
proof -
  assume "overflow_ok V"
  then have ok: "overflow_ok (case prime of Some (w, _) \<Rightarrow> seed_from_prime now w V | None \<Rightarrow> V)" by (auto simp: seed_ok split: option.splits)
  have "overflow_ok (apply_meter now net_hs stratum_hs g W)" if "overflow_ok W" for g W
    by (rule overflow_ok_fields [OF that])
      (simp_all add: apply_meter_def move_mark_def Let_def overflow_okD [OF that] split: prod.split)
  then show ?thesis using ok by (simp add: ov_tick_def)
qed

lemma other_steps_ok:
  assumes "overflow_ok V"
  shows "overflow_ok (update_row sid S V)" "overflow_ok (ov_note_share now i a V)" "overflow_ok (ov_save now ok V)"
    "overflow_ok (health_round now probe V)" "overflow_ok (snd (set_mode s V))"
proof -
  note D = overflow_okD [OF assms]
  show "overflow_ok (update_row sid S V)" using assms update_row_ok [OF assms] by (auto simp: update_row_def split: option.split)
  show "overflow_ok (ov_note_share now i a V)"
    by (rule overflow_ok_fields [OF assms]) (simp_all add: ov_note_share_def note_bounded D)
  show "overflow_ok (ov_save now ok V)"
    by (rule overflow_ok_fields [OF assms])
      (use D in \<open>auto simp: ov_save_def prune_grandfather_def Let_def intro: order.trans [OF length_filter_le]\<close>)
  show "overflow_ok (health_round now probe V)"
    by (rule overflow_ok_fields [OF assms]) (simp_all add: health_round_def set_health_def D)
  show "overflow_ok (snd (set_mode s V))" using assms by (simp add: set_mode_def overflow_ok_def split: option.split)
qed

text \<open>
  C38. The valve's books add up. Whatever the connections, the polls, the probes and the operator do, and in whatever order, each upstream's session
  count is the number of relays open to it, no relay is counted as ended twice, and the tables that strangers can fill stay within their caps.
\<close>

theorem overflow_books_ok:
  assumes "overflow_run V"
  shows "(\<forall>i < length (ov_upstreams V). us_sessions (ov_upstreams V ! i) = row_tally i (ov_proxied V))
    \<and> ov_relays_churned V + ov_relays_bounced V + length (ov_proxied V) \<le> ov_proxied_total V
    \<and> length (gf_idents (ov_grandfather V)) \<le> 200000 \<and> length (gf_ips (ov_grandfather V)) \<le> 200000
    \<and> length (ov_unpayable_ips V) \<le> 4096 \<and> length (ov_churn_ips V) \<le> 4096"
proof -
  have "overflow_ok V" using assms
    by (induction rule: overflow_run.induct)
      (blast intro: new_overflow_ok gate_ok on_authorize_ok end_relay_ok drop_guard_ok tick_ok other_steps_ok)+
  then show ?thesis by (simp add: overflow_ok_def GRANDFATHER_MAX_def UNPAYABLE_IPS_MAX_def)
qed

section \<open>Examples\<close>

definition ex_upstream :: upstream_cfg where
  "ex_upstream = \<lparr>uc_name = ''b'', uc_host = ''b.example'', uc_port = 3333, uc_url = [], uc_miner_url = None\<rparr>"

text \<open>A valve the operator has opened, with one other pool.\<close>

definition ex_overflow :: overflow where
  "ex_overflow = (new_overflow (default_overflow_cfg\<lparr>oc_upstreams := [ex_upstream]\<rparr>) None)\<lparr>ov_mode := 3\<rparr>"

definition ex_gate_env :: "json_parser \<Rightarrow> gate_env" where
  "ex_gate_env parse = \<lparr>ge_parse = parse, ge_text = \<lambda>_. [], ge_canon = id, ge_payable = \<lambda>_. False, ge_connect = \<lambda>_. None\<rparr>"

lemma ex_gate_simps [simp]:
  "ge_parse (ex_gate_env p) = p" "ge_canon (ex_gate_env p) = id" "ge_payable (ex_gate_env p) = (\<lambda>_. False)" "ge_connect (ex_gate_env p) = (\<lambda>_. None)"
  by (simp_all add: ex_gate_env_def)

lemma ex_mode: "mode_now ex_overflow = Force" "considering ex_overflow"
  by (simp_all add: mode_now_def considering_def ex_overflow_def mode_of_u8_def)

lemma ex_loads: "ov_loads ex_overflow = [(True, 0)]" "ov_upstreams ex_overflow = [new_upstream ex_upstream]" "ov_rr ex_overflow = 0"
  by (simp_all add: ex_overflow_def new_overflow_def ov_loads_def new_upstream_def)

lemma ex_connect: "connect_choice (\<lambda>_. None) ex_overflow = (Some 0, ex_overflow\<lparr>ov_rr := 1\<rparr>)"
proof -
  have "pick [(True, 0)] 0 = Some 0" by (simp add: pick_def least_load_def Let_def)
  then show ?thesis by (simp add: connect_choice_def ex_loads ov_choose_def)
qed

lemma ex_unknown: "\<not> ip_grandfathered 0 a ex_overflow" "\<not> ip_unpayable 0 a ex_overflow" "\<not> ip_churned 0 a ex_overflow"
  "\<not> ident_grandfathered 0 i ex_overflow"
  by (simp_all add: ex_overflow_def new_overflow_def ip_grandfathered_def ip_unpayable_def ip_churned_def ident_grandfathered_def
      has_ip_def has_ident_def fresh_in_def no_grandfather_def)

lemma ex_gate:
  assumes "hl_user (hold_lines parse es []) = []" "\<not> hl_gone (hold_lines parse es [])"
  obtains V' where "gate (ex_gate_env parse) 0 7 a [] ''s'' es ex_overflow = (GRelay 0 [] ((''s'' @ [CHR 0x0A]) # hl_buf (hold_lines parse es [])), V')"
  using assms by (simp add: gate_def Let_def ex_mode ex_unknown decide_def ex_connect ends_line_def)

theorem relayed_only_strangers_witness:
  "\<exists>idx u ls V'. gate (ex_gate_env (\<lambda>_. None)) 0 7 (V4 [10, 0, 0, 1]) [] ''s'' [] ex_overflow = (GRelay idx u ls, V')
    \<and> \<not> ip_grandfathered 0 (V4 [10, 0, 0, 1]) ex_overflow"
proof (rule ex_gate [of "\<lambda>_. None" "[]" "V4 [10, 0, 0, 1]"])
  fix V' assume g: "gate (ex_gate_env (\<lambda>_. None)) 0 7 (V4 [10, 0, 0, 1]) [] ''s'' [] ex_overflow
    = (GRelay 0 [] ((''s'' @ [CHR 0x0A]) # hl_buf (hold_lines (\<lambda>_. None) [] [])), V')"
  show ?thesis using relayed_only_strangers [OF g] g by blast
qed simp_all

theorem no_upstream_serves_here_witness:
  "\<exists>buf V'. gate (ex_gate_env (\<lambda>_. None)) 0 7 (V4 [10, 0, 0, 1]) [] ''s'' [] (ex_overflow\<lparr>ov_mode := 0\<rparr>) = (GLocal buf, V')"
proof -
  have "\<not> considering (ex_overflow\<lparr>ov_mode := 0\<rparr>)" by (simp add: considering_def mode_now_def mode_of_u8_def)
  then show ?thesis using no_upstream_serves_here by blast
qed

text \<open>A share goes up, and its reply comes down.\<close>

definition ex_share_parse :: json_parser where
  "ex_share_parse line = (if line = [CHR ''s'', CHR 0x0A] then Some (JObj [(''id'', JStr ''1''), (''method'', JStr ''mining.submit'')])
     else if line = [CHR ''t'', CHR 0x0A] then Some (JObj [(''id'', JStr ''1''), (''result'', JBool True)]) else None)"

theorem relay_counts_and_filters_witness:
  "\<exists>R. relay_run (ex_gate_env ex_share_parse) False [] None R \<and> rs_submits (rl_stats R) = 1 \<and> rs_accepted (rl_stats R) = 1
    \<and> rs_accepted (rl_stats R) + rs_rejected (rl_stats R) + length (rs_pending (rl_stats R)) \<le> 1"
proof -
  let ?N = "ex_gate_env ex_share_parse" and ?up = "[CHR ''s'', CHR 0x0A]" and ?down = "[CHR ''t'', CHR 0x0A]"
  define R1 where "R1 = fst (relay_up ?N False 0 0 7 (V4 [10, 0, 0, 1]) ?up (start_relay ex_share_parse 0 [] None, ex_overflow))"
  have "relay_run ?N False [] None (start_relay ex_share_parse 0 [] None)"
    using relay_start [of ?N False "[]" None 0] by simp
  then have r: "relay_run ?N False [] None (relay_down ?N ?down R1)"
    unfolding R1_def by (intro relay_line_down relay_line_up [OF _ prod.collapse [symmetric]])
  have "rs_submits (rl_stats (relay_down ?N ?down R1)) = 1" "rs_accepted (rl_stats (relay_down ?N ?down R1)) = 1"
    by (simp_all add: R1_def relay_up_def relay_down_def start_relay_def note_submit_def note_reply_def ex_share_parse_def method_of_def live_id_def says_true_def
        no_stats_def RELAY_MAX_LINE_def RELAY_LINES_PER_SEC_def ends_line_def MAX_PENDING_SUBMITS_def contains_text_def Let_def)
  then show ?thesis using relay_counts_and_filters [OF r] r by force
qed

text \<open>Two lines: an authorize that names nobody, and a reconnect with its dot escaped.\<close>

definition ex_parse :: json_parser where
  "ex_parse line = (if line = [CHR ''a'', CHR 0x0A] then Some (JObj [(''method'', JStr ''mining.authorize''), (''params'', JArr [JStr []])])
     else if line = [CHR ''r'', CHR 0x0A] then Some (JObj [(''method'', JStr ''client.reconnect'')]) else None)"

theorem late_name_checked_witness:
  "\<exists>ls V'. gate (ex_gate_env ex_parse) 0 7 (V4 [10, 0, 0, 1]) [] ''s'' [] ex_overflow = (GRelay 0 [] ls, V')
    \<and> list_all (\<lambda>l. authorize_user ex_parse l \<noteq> Some [] \<longrightarrow> names_payable (ex_gate_env ex_parse) l) (tl (rl_up (start_relay ex_parse 0 ls None)))"
proof (rule ex_gate [of ex_parse "[]" "V4 [10, 0, 0, 1]"])
  fix V' assume g: "gate (ex_gate_env ex_parse) 0 7 (V4 [10, 0, 0, 1]) [] ''s'' [] ex_overflow
    = (GRelay 0 [] ((''s'' @ [CHR 0x0A]) # hl_buf (hold_lines ex_parse [] [])), V')"
  have p: "ge_parse (ex_gate_env ex_parse) = ex_parse" by (simp add: ex_gate_env_def)
  show ?thesis using late_name_checked [OF g relay_start [of _ _ _ None 0]] g unfolding p by blast
qed simp_all

text \<open>A relay is opened, and given up at once.\<close>

theorem overflow_books_ok_witness:
  "\<exists>V p. overflow_run V \<and> map_of (ov_proxied V) 7 = Some p \<and> us_sessions (ov_upstreams V ! 0) = row_tally 0 (ov_proxied V)
    \<and> us_sessions (ov_upstreams (drop_guard 7 (ps_upstream p) V) ! 0) = row_tally 0 (ov_proxied (drop_guard 7 (ps_upstream p) V))"
proof (rule ex_gate [of ex_parse "[]" "V4 [10, 0, 0, 1]"])
  fix V' assume g: "gate (ex_gate_env ex_parse) 0 7 (V4 [10, 0, 0, 1]) [] ''s'' [] ex_overflow
    = (GRelay 0 [] ((''s'' @ [CHR 0x0A]) # hl_buf (hold_lines ex_parse [] [])), V')"
  have tr: "trim_str ''force'' = ''force''" by (simp add: trim_str_def trim_lead.simps lead_space_def white_space_def Let_def)
  have "snd (set_mode ''force'' (new_overflow (default_overflow_cfg\<lparr>oc_upstreams := [ex_upstream]\<rparr>) None)) = ex_overflow"
    using tr by (simp add: set_mode_def parse_mode_def to_ascii_lower_def lower_char_def ex_overflow_def)
  moreover have "overflow_run (snd (set_mode ''force'' (new_overflow (default_overflow_cfg\<lparr>oc_upstreams := [ex_upstream]\<rparr>) None)))"
    by (intro ov_admin ov_new) simp
  ultimately have e: "overflow_run ex_overflow" by simp
  have "map_of (ov_proxied ex_overflow) 7 = None" by (simp add: ex_overflow_def new_overflow_def)
  from ov_gate [OF e this g] have r: "overflow_run V'" .
  obtain V1 sess where o: "connect_choice (ge_connect (ex_gate_env ex_parse)) ex_overflow = (Some 0, V1)" "V' = open_relay 0 7 sess V1" "ps_upstream sess = 0"
    using gate_cases(11) [OF g refl] by auto
  have V1: "V1 = ex_overflow\<lparr>ov_rr := 1\<rparr>" using o(1) ex_connect by simp
  have p: "map_of (ov_proxied V') 7 = Some sess" and l: "length (ov_upstreams V') = 1"
    by (simp_all add: o(2) V1 open_relay_def update_conv' ex_loads)
  have l2: "length (ov_upstreams (drop_guard 7 (ps_upstream sess) V')) = 1" using l by (simp add: drop_guard_def Let_def)
  show ?thesis
    using overflow_books_ok [OF r] overflow_books_ok [OF ov_abandoned [OF r p]] r p unfolding l l2 by (intro exI [of _ V'] exI [of _ sess]) blast
qed simp_all

text \<open>
  An authorize with an empty username that comes with the subscribe is taken for no authorize at all: it goes to the other pool
  although nobody can pay it.
\<close>

theorem empty_name_relayed:
  "\<exists>V'. gate (ex_gate_env ex_parse) 0 7 a [] ''s'' [RLine [CHR ''a'', CHR 0x0A]] ex_overflow = (GRelay 0 [] [[CHR ''s'', CHR 0x0A], [CHR ''a'', CHR 0x0A]], V')
    \<and> authorize_user ex_parse [CHR ''a'', CHR 0x0A] = Some [] \<and> \<not> ge_payable (ex_gate_env ex_parse) []"
proof -
  have u: "authorize_user ex_parse [CHR ''a'', CHR 0x0A] = Some []" by (simp add: authorize_user_def ex_parse_def method_of_def)
  have h: "hold_lines ex_parse [RLine [CHR ''a'', CHR 0x0A]] [] = \<lparr>hl_user = [], hl_buf = [[CHR ''a'', CHR 0x0A]], hl_gone = False\<rparr>"
    by (simp add: u GATE_MAX_LINES_def RELAY_MAX_LINE_def ends_line_def Let_def)
  show ?thesis by (rule ex_gate [of ex_parse "[RLine [CHR ''a'', CHR 0x0A]]" a]) (auto simp: h u simp del: hold_lines.simps)
qed

text \<open>A reconnect is looked for in the text before the line is parsed, so one whose method is written with an escape gets to the miner.\<close>

theorem escaped_reconnect_passes:
  "is_method ex_parse [CHR ''r'', CHR 0x0A] ''client.reconnect''
    \<and> rl_down (relay_down (ex_gate_env ex_parse) [CHR ''r'', CHR 0x0A] (start_relay ex_parse 0 [] None)) = [[CHR ''r'', CHR 0x0A]]"
proof -
  have m: "is_method ex_parse [CHR ''r'', CHR 0x0A] ''client.reconnect''" by (simp add: is_method_def ex_parse_def method_of_def)
  have c: "\<not> contains_text [CHR ''r'', CHR 0x0A] ''client.reconnect''" by (simp add: contains_text_def)
  show ?thesis using m c by (simp add: relay_down_def start_relay_def RELAY_MAX_LINE_def ends_line_def Let_def)
qed

end
