(* ===== verification/Lazarus_Pow.thy ===== *)
theory Lazarus_Pow
  imports Wire_Pow
begin

text \<open>
  The public gateway's proof of work, \<^verbatim>\<open>lazarus/protocol/src/pow.rs\<close>: the 164-byte header, the hash a share is judged by, the
  targets. Prime judges the same shares with its own code, \<^verbatim>\<open>prime/wire/src/pow.rs\<close> (theory \<open>Wire_Pow\<close>); the two are proved to agree.
  The hash functions are the argument \<open>H\<close>. Signed fields are their 32-bit patterns.
\<close>

unbundle bit_operations_syntax

section \<open>Model\<close>

record header_v2 =
  hv_version :: u32
  hv_prev_block :: "byte list"
  hv_merkle_root :: "byte list"
  hv_time :: u32
  hv_bits :: u32
  hv_nonce :: u32
  hv_nonce2 :: u32
  hv_nonce3 :: u32
  hv_extranonce :: "byte list"
  hv_time_offset :: u32
  hv_txcount :: u16
  hv_flags :: u8
  hv_xor_clear_bits :: u8
  hv_xor_key :: "byte list"
  hv_height :: u32
  hv_mm_rhs :: "byte list"

definition default_header :: header_v2 where
  "default_header = \<lparr>hv_version = 0, hv_prev_block = replicate 32 0, hv_merkle_root = replicate 32 0, hv_time = 0, hv_bits = 0, hv_nonce = 0,
     hv_nonce2 = 0, hv_nonce3 = 0, hv_extranonce = replicate 16 0, hv_time_offset = 0, hv_txcount = 0, hv_flags = 0,
     hv_xor_clear_bits = 0, hv_xor_key = replicate 16 0, hv_height = 0, hv_mm_rhs = replicate 32 0\<rparr>"

definition V2_FLAG :: u32 where "V2_FLAG = 0x80000000"

definition prevblock_hidden :: "hashes \<Rightarrow> byte list \<Rightarrow> byte list" where
  "prevblock_hidden H prev_block = (let h = tagged_sha256 H ''Bitcoin prevblock header, hashed'' (rev prev_block) in replicate 6 0 @ drop 6 h)"

fun mask_bytes :: "nat \<Rightarrow> byte list \<Rightarrow> byte list" where
  "mask_bytes 0 m = m"
| "mask_bytes (Suc n) [] = []"
| "mask_bytes (Suc n) (_ # m) = 0 # mask_bytes n m"

definition gw_xor_mask :: "hashes \<Rightarrow> byte list \<Rightarrow> u8 \<Rightarrow> byte list" where
  "gw_xor_mask H xor_key clear_bits =
     (if list_all (\<lambda>b. b = 0) xor_key then replicate 32 0
      else let clear_bytes = clear_bits div 8;
          m = mask_bytes (min clear_bytes 32) (tagged_sha256 H ''Bitcoin block hash PoW XOR mask'' xor_key)
        in if clear_bytes < 32 then m[clear_bytes := (m ! clear_bytes) AND drop_bit (clear_bits mod 8) 0xff] else m)"

definition time_on_wire :: "header_v2 \<Rightarrow> u32" where
  "time_on_wire h = (if hv_flags h AND FLAG_USE_TIME_OFFSET = 0 then hv_time h
     else (hv_time h + 4294967296 - hv_time_offset h mod 4294967296) mod 4294967296)"

definition header_h2 :: "hashes \<Rightarrow> header_v2 \<Rightarrow> byte list" where
  "header_h2 H h = (let
     xor_key_hash = tagged_sha256 H ''Bitcoin block hash PoW XOR key'' (hv_xor_key h);
     h1d = le_bytes 4 (hv_version h OR V2_FLAG) @ rev (hv_prev_block h) @ le_bytes 4 (hv_height h) @ hv_merkle_root h
       @ le_bytes 4 (time_on_wire h) @ [0] @ le_bytes 4 (hv_bits h) @ le_bytes 4 (hv_txcount h)
       @ [of_nat (hv_flags h), of_nat (hv_xor_clear_bits h)] @ xor_key_hash;
     h1 = tagged_sha256 H ''Bitcoin block header 1'' h1d
   in tagged_sha256 H ''Merge-mining hook'' (h1 @ replicate 32 0 @ hv_mm_rhs h))"

definition header_hash1 :: "hashes \<Rightarrow> header_v2 \<Rightarrow> byte list" where
  "header_hash1 H h = blake2b256 H (replicate 4 0 @ header_h2 H h @ hv_extranonce h)"

definition asic_hash :: "hashes \<Rightarrow> byte list \<Rightarrow> byte list \<Rightarrow> u32 \<Rightarrow> u32 \<Rightarrow> u32 \<Rightarrow> u32 \<Rightarrow> byte list" where
  "asic_hash H prev_hidden hash1 nonce nonce2 time_offset nonce3 =
     blake2b256 H (prev_hidden @ le_bytes 4 nonce @ le_bytes 4 nonce2 @ le_bytes 4 time_offset @ le_bytes 4 nonce3 @ hash1)"

definition pow_hash :: "hashes \<Rightarrow> header_v2 \<Rightarrow> byte list" where
  "pow_hash H h = map2 (XOR)
     (asic_hash H (prevblock_hidden H (hv_prev_block h)) (header_hash1 H h) (hv_nonce h) (hv_nonce2 h) (hv_time_offset h) (hv_nonce3 h))
     (gw_xor_mask H (hv_xor_key h) (hv_xor_clear_bits h))"

definition serialize_header :: "header_v2 \<Rightarrow> byte list" where
  "serialize_header h = le_bytes 4 (hv_version h OR V2_FLAG) @ hv_prev_block h @ hv_merkle_root h @ le_bytes 4 (time_on_wire h)
     @ le_bytes 4 (hv_bits h) @ le_bytes 4 (hv_nonce h) @ le_bytes 4 (hv_nonce2 h) @ le_bytes 4 (hv_nonce3 h) @ hv_extranonce h
     @ le_bytes 4 (hv_time_offset h) @ le_bytes 2 (hv_txcount h) @ [of_nat (hv_flags h), of_nat (hv_xor_clear_bits h)] @ hv_xor_key h
     @ le_bytes 4 (hv_height h) @ hv_mm_rhs h"

text \<open>\<open>b[i..j]\<close>.\<close>

definition slice :: "nat \<Rightarrow> nat \<Rightarrow> byte list \<Rightarrow> byte list" where
  "slice i j b = take (j - i) (drop i b)"

definition deserialize_header :: "byte list \<Rightarrow> header_v2" where
  "deserialize_header b = (let flags = unat (b ! 110); wire_time = le_nat (slice 68 72 b); time_offset = le_nat (slice 104 108 b) in
     \<lparr>hv_version = le_nat (slice 0 4 b) mod 2 ^ 31, hv_prev_block = slice 4 36 b, hv_merkle_root = slice 36 68 b,
      hv_time = (if flags AND FLAG_USE_TIME_OFFSET = 0 then wire_time else (wire_time + time_offset) mod 4294967296),
      hv_bits = le_nat (slice 72 76 b), hv_nonce = le_nat (slice 76 80 b), hv_nonce2 = le_nat (slice 80 84 b), hv_nonce3 = le_nat (slice 84 88 b),
      hv_extranonce = slice 88 104 b, hv_time_offset = time_offset, hv_txcount = le_nat (slice 108 110 b), hv_flags = flags,
      hv_xor_clear_bits = unat (b ! 111), hv_xor_key = slice 112 128 b, hv_height = le_nat (slice 128 132 b), hv_mm_rhs = slice 132 164 b\<rparr>)"

definition header_extranonce :: "byte list \<Rightarrow> byte list" where
  "header_extranonce en12 = (let e = take 12 en12 in replicate 4 0 @ e @ replicate (12 - length e) 0)"

text \<open>A target is most significant byte first.\<close>

fun shr_be :: "nat \<Rightarrow> byte \<Rightarrow> byte list \<Rightarrow> byte list" where
  "shr_be r prev [] = []"
| "shr_be r prev (b # bs) = (drop_bit r b OR push_bit (8 - r) prev) # shr_be r b bs"

definition target_for_pot :: "u8 \<Rightarrow> byte list" where
  "target_for_pot pot = (let bits = 32 + pot in
     if bits \<ge> 256 then replicate 32 0
     else let byte_shift = bits div 8; bit_shift = bits mod 8;
         t = (if byte_shift > 0 then replicate byte_shift 0 @ replicate (32 - byte_shift) 0xff else replicate 32 0xff)
       in if bit_shift > 0 then shr_be bit_shift 0 t else t)"

fun lex_le :: "byte list \<Rightarrow> byte list \<Rightarrow> bool" where
  "lex_le (a # as) (b # bs) = (if a \<noteq> b then a < b else lex_le as bs)"
| "lex_le [] _ = True"
| "lex_le (_ # _) [] = False"

definition gw_meets_target :: "byte list \<Rightarrow> byte list \<Rightarrow> bool" where
  "gw_meets_target hash target = lex_le hash target"

definition bits_to_target :: "u32 \<Rightarrow> byte list option" where
  "bits_to_target bits = (let ex = bits div 2 ^ 24; mant = bits mod 2 ^ 24 in
     if mant = 0 \<or> ex > 32 then None
     else if ex \<ge> 3 then Some (replicate (32 - ex) 0 @ [of_nat (mant div 65536), of_nat (mant div 256), of_nat mant] @ replicate (ex - 3) 0)
     else let w = mant div 2 ^ (8 * (3 - ex)) in Some (replicate 29 0 @ [of_nat (w div 65536), of_nat (w div 256), of_nat w]))"

section \<open>The header\<close>

definition header_fits :: "header_v2 \<Rightarrow> bool" where
  "header_fits h \<longleftrightarrow> hv_version h < 2 ^ 31 \<and> length (hv_prev_block h) = 32 \<and> length (hv_merkle_root h) = 32 \<and> hv_time h \<le> u32_max
     \<and> hv_bits h \<le> u32_max \<and> hv_nonce h \<le> u32_max \<and> hv_nonce2 h \<le> u32_max \<and> hv_nonce3 h \<le> u32_max \<and> length (hv_extranonce h) = 16
     \<and> hv_time_offset h \<le> u32_max \<and> hv_txcount h < 65536 \<and> hv_flags h < 256 \<and> hv_xor_clear_bits h < 256 \<and> length (hv_xor_key h) = 16
     \<and> hv_height h \<le> u32_max \<and> length (hv_mm_rhs h) = 32"

lemma or_power: "v < 2 ^ k \<Longrightarrow> v OR 2 ^ k = v + 2 ^ k" for v :: nat
proof (rule disjunctive_add_eq_or [symmetric], rule bit_eqI)
  fix n assume v: "v < 2 ^ k"
  have "bit v n \<Longrightarrow> n < k" using v by (metis bit_take_bit_iff take_bit_nat_eq_self_iff)
  then show "bit (v AND 2 ^ k) n \<longleftrightarrow> bit 0 n" by (auto simp: bit_and_iff bit_exp_iff)
qed

lemma or_flag: "v < 2 ^ 31 \<Longrightarrow> v OR V2_FLAG = v + 2 ^ 31" for v :: nat
  using or_power [of v 31] by (simp add: V2_FLAG_def)

lemma slice_skip: "length xs \<le> i \<Longrightarrow> slice i j (xs @ ys) = slice (i - length xs) (j - length xs) ys"
  by (auto simp: slice_def)

lemma slice_here: "length xs = n \<Longrightarrow> slice 0 n (xs @ ys) = xs"
  by (simp add: slice_def)

lemma wire_time_back:
  assumes "t \<le> u32_max" "d \<le> u32_max"
  shows "((t + 4294967296 - d mod 4294967296) mod 4294967296 + d) mod 4294967296 = (t :: nat)"
proof -
  have "(t + 4294967296 - d) + d = t + 4294967296" using assms by simp
  then have "((t + 4294967296 - d) mod 4294967296 + d) mod 4294967296 = (t + 4294967296) mod 4294967296" by (metis mod_add_left_eq)
  then show ?thesis using assms by simp
qed

text \<open>A header read back from its 164 bytes is the header.\<close>

theorem header_roundtrip:
  assumes "header_fits h"
  shows "length (serialize_header h) = 164 \<and> deserialize_header (serialize_header h) = h"
proof -
  note ok = assms [unfolded header_fits_def]
  have "x mod 4294967296 \<le> u32_max" for x :: nat using mod_less_divisor [of 4294967296 x] by linarith
  then have t: "time_on_wire h \<le> u32_max" using ok by (simp add: time_on_wire_def)
  have v: "(hv_version h OR V2_FLAG) < 4294967296" "(hv_version h OR V2_FLAG) mod 2 ^ 31 = hv_version h"
    using ok or_flag [of "hv_version h"] by simp_all
  let ?b = "serialize_header h"
  have len: "length ?b = 164" using ok by (simp add: serialize_header_def)
  note S = serialize_header_def slice_skip slice_here
  have f: "le_nat (slice 0 4 ?b) mod 2 ^ 31 = hv_version h" "slice 4 36 ?b = hv_prev_block h" "slice 36 68 ?b = hv_merkle_root h"
    "le_nat (slice 68 72 ?b) = time_on_wire h" "le_nat (slice 72 76 ?b) = hv_bits h" "le_nat (slice 76 80 ?b) = hv_nonce h"
    "le_nat (slice 80 84 ?b) = hv_nonce2 h" "le_nat (slice 84 88 ?b) = hv_nonce3 h" "slice 88 104 ?b = hv_extranonce h"
    "le_nat (slice 104 108 ?b) = hv_time_offset h" "le_nat (slice 108 110 ?b) = hv_txcount h"
    using ok t v by (simp_all add: S)
  have g: "?b ! 110 = of_nat (hv_flags h)" "?b ! 111 = of_nat (hv_xor_clear_bits h)" using ok by (simp_all add: serialize_header_def nth_append)
  have k: "slice 112 128 ?b = hv_xor_key h" "le_nat (slice 128 132 ?b) = hv_height h" "slice 132 164 ?b = hv_mm_rhs h"
    using ok by (simp_all add: serialize_header_def slice_def)
  have "unat (?b ! 110) = hv_flags h" "unat (?b ! 111) = hv_xor_clear_bits h" using ok g by simp_all
  then show ?thesis using f k len wire_time_back [of "hv_time h" "hv_time_offset h"] ok
    by (cases h) (simp add: deserialize_header_def Let_def time_on_wire_def)
qed

section \<open>The gateway and Prime\<close>

definition commitment_of :: "header_v2 \<Rightarrow> commitment" where
  "commitment_of h = \<lparr>cm_version = hv_version h, cm_prev_hash = hv_prev_block h, cm_height = hv_height h, cm_merkle_root = hv_merkle_root h,
     cm_time_on_wire = time_on_wire h, cm_nbits = hv_bits h, cm_txcount = hv_txcount h, cm_flags = hv_flags h,
     cm_xor_clear_bits = hv_xor_clear_bits h, cm_xor_key = hv_xor_key h, cm_rhs = hv_mm_rhs h\<rparr>"

definition nonce8_of :: "header_v2 \<Rightarrow> byte list" where
  "nonce8_of h = le_bytes 4 (hv_nonce h) @ le_bytes 4 (hv_nonce2 h)"

definition ntime8_of :: "header_v2 \<Rightarrow> byte list" where
  "ntime8_of h = le_bytes 4 (hv_time_offset h) @ le_bytes 4 (hv_nonce3 h)"

lemma header_h2_eq: "header_h2 H h = h2 H (commitment_of h)"
  by (simp add: header_h2_def h2_def h1_preimage_def xor_key_hash_def commitment_of_def V2_FLAG_def V2_BIT_def Let_def)

lemma mask_bytes_eq: "mask_bytes n m = replicate (min n (length m)) 0 @ drop n m"
  by (induction n m rule: mask_bytes.induct) simp_all

lemma gw_xor_mask_eq:
  assumes "clear_bits < 256" "hash_law H"
  shows "gw_xor_mask H key clear_bits = xor_mask H key clear_bits"
proof -
  have "clear_bits div 8 < 32" using assms(1) by auto
  then show ?thesis by (simp add: gw_xor_mask_def xor_mask_def mask_bytes_eq Let_def min_absorb1)
qed

lemma pow_hash_eq:
  assumes "hash_law H" "hv_xor_clear_bits h < 256" "hv_extranonce h = replicate 4 0 @ en12"
  shows "pow_hash H h = rev (job_hash H (new_job_work H (commitment_of h) en12) (nonce8_of h) (ntime8_of h))"
proof -
  have r: "header_hash1 H h = work_root H (h2 H (commitment_of h)) en12"
    by (simp add: header_hash1_def work_root_def sia_coinb1_def header_h2_eq assms(3) eval_nat_numeral)
  have m: "gw_xor_mask H (hv_xor_key h) (hv_xor_clear_bits h) = xor_mask H (hv_xor_key h) (hv_xor_clear_bits h)"
    by (rule gw_xor_mask_eq [OF assms(2,1)])
  show ?thesis
    by (simp add: pow_hash_def job_hash_def new_job_work_def asic_hash_def work_header_def prevblock_hidden_def sia_prevhash_def r m
        nonce8_of_def ntime8_of_def Let_def) (simp add: commitment_of_def)
qed

lemma lex_le_top: "length a = length b \<Longrightarrow> lex_le a b = le_from_top a b"
  by (induction a b rule: lex_le.induct) simp_all

lemma shr_be_snoc: "shr_be r p (xs @ [y]) = shr_be r p xs @ [drop_bit r y OR push_bit (8 - r) (if xs = [] then p else last xs)]"
  by (induction r p xs rule: shr_be.induct) simp_all

lemma shr_be_rev: "shr_be r 0 (rev xs) = rev (shr_bits r xs)"
proof (induction r xs rule: shr_bits.induct)
  case (3 r b b' bs)
  then show ?case using shr_be_snoc [of r 0 "rev (b' # bs)" b] by simp
qed simp_all

lemma target_eq:
  assumes "pot < 224"
  shows "share_target_le pot = Some (rev (target_for_pot pot))"
proof -
  define k r where "k = pot div 8" and "r = pot mod 8"
  have "32 + pot = pot + 4 * 8" by simp
  then have k: "k < 28" "(32 + pot) div 8 = 4 + k" "(32 + pot) mod 8 = r"
    using assms less_mult_imp_div_less [of pot 28 8] div_mult_self1 [of 8 pot 4] mod_mult_self1 [of pot 4 8] unfolding k_def r_def by (simp_all add: add.commute)
  let ?n = "replicate (28 - k) (0xff :: byte) @ replicate (4 + k) 0"
  have n: "(if k > 0 then drop k (replicate 28 0xff @ replicate 4 0) @ replicate k 0 else replicate 28 0xff @ replicate 4 0) = ?n"
    using k(1) by (simp add: replicate_add)
  have t: "target_for_pot pot = (if r > 0 then shr_be r 0 (rev ?n) else rev ?n)"
    using assms k by (simp add: target_for_pot_def Let_def)
  have "shr_le (replicate 28 0xff @ replicate 4 0) pot = (if r > 0 then shr_bits r ?n else ?n)"
    unfolding shr_le_def Let_def k_def [symmetric] r_def [symmetric] n by simp
  then show ?thesis using assms t unfolding shr_be_rev by (simp add: share_target_le_def)
qed

lemma le_bytes_4: "le_bytes 4 n = [of_nat n, of_nat (n div 256), of_nat (n div 65536), of_nat (n div 16777216)]"
proof -
  have four: "(4 :: nat) = Suc (Suc (Suc (Suc 0)))" by simp
  show ?thesis unfolding four le_bytes.simps by (simp add: div_mult2_eq [symmetric])
qed

lemma le_bytes_3: "take 3 (le_bytes 4 n) = [of_nat n, of_nat (n div 256), of_nat (n div 65536)]"
  by (simp add: le_bytes_4)

lemma put_three: "(replicate (i + 3 + m) z)[i := a, Suc i := b, Suc (Suc i) := c] = replicate i z @ [a, b, c] @ replicate m z"
proof -
  have "replicate (3 + m) z = [z, z, z] @ replicate m z" by (simp add: numeral_3_eq_3)
  then have "replicate (i + 3 + m) z = replicate i z @ [z, z, z] @ replicate m z" using replicate_add [of i "3 + m" z] by (simp add: add.assoc)
  then show ?thesis by (simp add: list_update_append)
qed

lemma place_three:
  assumes "i + 3 + m = 32"
  shows "place_mant i [a, b, c] (replicate 32 0) = Some (replicate i 0 @ [a, b, c] @ replicate m 0)"
  using put_three [of i m 0 a b c] assms by simp

lemma mant_eq: "\<not> bit bits 23 \<Longrightarrow> bits mod 2 ^ 24 = bits mod 2 ^ 23" for bits :: nat
  using take_bit_Suc_from_most [of 23 bits] by (simp add: take_bit_eq_mod)

lemma bits_eq:
  assumes "\<not> bit bits 23"
  shows "bits_to_target bits = map_option rev (nbits_to_target_le bits)"
proof -
  define ex mant where "ex = bits div 2 ^ 24" and "mant = bits mod 2 ^ 24"
  have m: "bits mod 2 ^ 23 = mant" using mant_eq [OF assms] by (simp add: mant_def)
  have lt: "mant < 2 ^ 24" by (simp add: mant_def)
  note D = bits_to_target_def [of bits, folded ex_def mant_def] nbits_to_target_le_def [of bits, unfolded m, folded ex_def]
  have small: "rev (le_bytes 4 w) = [0, of_nat (w div 65536), of_nat (w div 256), of_nat w]" if "w < 2 ^ 24" for w
    using that by (simp add: le_bytes_4)
  have rp: "replicate 29 (0 :: byte) = replicate 28 0 @ [0]" using replicate_add [of 28 1 "0 :: byte"] by simp
  consider "mant = 0" | "mant \<noteq> 0" "ex \<le> 3" | "mant \<noteq> 0" "3 < ex" "ex \<le> 32" | "mant \<noteq> 0" "32 < ex" by linarith
  then show ?thesis
  proof cases
    case 2
    have "mant div 2 ^ (8 * (3 - ex)) < 2 ^ 24" using lt by (meson div_le_dividend le_less_trans)
    note sm = small [OF this]
    show ?thesis
    proof (cases "ex = 3")
      case True
      then show ?thesis using 2 assms sm by (simp add: D Let_def rp)
    next
      case False
      then show ?thesis using 2 assms sm by (simp add: D Let_def rp)
    qed
  next
    case 3
    have "place_mant (ex - 3) [of_nat mant, of_nat (mant div 256), of_nat (mant div 65536)] (replicate 32 0)
      = Some (replicate (ex - 3) 0 @ [of_nat mant, of_nat (mant div 256), of_nat (mant div 65536)] @ replicate (32 - ex) 0)"
      by (rule place_three) (use 3 in simp)
    then show ?thesis using 3 assms by (simp add: D Let_def le_bytes_3)
  qed (use assms in \<open>simp_all add: D Let_def\<close>)
qed

lemma length_mask_bytes: "length (mask_bytes n m) = length m"
  by (induction n m rule: mask_bytes.induct) simp_all

lemma length_pow_hash: "hash_law H \<Longrightarrow> length (pow_hash H h) = 32"
  by (simp add: pow_hash_def asic_hash_def gw_xor_mask_def tagged_sha256_def sha256_def blake2b256_def hash_law_def length_mask_bytes Let_def)

lemma meets_eq: "length x = length t \<Longrightarrow> gw_meets_target (rev x) (rev t) = meets_target x t"
  by (simp add: gw_meets_target_def meets_target_def lex_le_top)

lemma lex_le_zero: "lex_le x (replicate (length x) 0) \<Longrightarrow> x = replicate (length x) 0"
  by (induction x) (auto split: if_splits)

text \<open>
  C36. The gateway and Prime judge a share alike, and where they differ. For every header the gateway rebuilds from a submit, its hash is the one Prime
  computes from the same fields, read from the other end. Against the target of a share's difficulty both say the same, below \<^verbatim>\<open>2^224\<close>; from there on Prime has no
  target and the gateway takes nothing but a hash of zeros. Against the target of the block both say the same wherever Prime reads a target; where it
  reads none the gateway reads none either, unless the sign bit of the compact form is set (\<open>gateway_takes_negative_bits\<close>).
\<close>

theorem gateway_judges_like_prime:
  assumes "hash_law H" "hv_xor_clear_bits h < 256" "length en12 = 12" "hv_extranonce h = header_extranonce en12"
  defines "prime \<equiv> job_hash H (new_job_work H (commitment_of h) en12) (nonce8_of h) (ntime8_of h)"
  shows "pow_hash H h = rev prime
    \<and> (case share_target_le pot of
         Some t \<Rightarrow> gw_meets_target (pow_hash H h) (target_for_pot pot) = meets_target prime t
       | None \<Rightarrow> 224 \<le> pot \<and> (gw_meets_target (pow_hash H h) (target_for_pot pot) \<longrightarrow> pow_hash H h = replicate 32 0))
    \<and> (case nbits_to_target_le (hv_bits h) of
         Some t \<Rightarrow> (\<exists>g. bits_to_target (hv_bits h) = Some g \<and> gw_meets_target (pow_hash H h) g = meets_target prime t)
       | None \<Rightarrow> bit (hv_bits h) 23 \<or> bits_to_target (hv_bits h) = None)"
proof -
  have "hv_extranonce h = replicate 4 0 @ en12" using assms(3,4) by (simp add: header_extranonce_def)
  then have e: "pow_hash H h = rev prime" using pow_hash_eq [OF assms(1,2)] by (simp add: prime_def)
  have l: "length prime = 32" using length_pow_hash [OF assms(1), of h] by (simp add: e)
  have "case share_target_le pot of Some t \<Rightarrow> gw_meets_target (rev prime) (target_for_pot pot) = meets_target prime t
      | None \<Rightarrow> 224 \<le> pot \<and> (gw_meets_target (rev prime) (target_for_pot pot) \<longrightarrow> rev prime = replicate 32 0)"
  proof (cases "pot < 224")
    case True
    have "length (rev (target_for_pot pot)) = 32" using share_target_exact [OF l, of pot] unfolding target_eq [OF True] by simp
    then show ?thesis using meets_eq [of prime "rev (target_for_pot pot)"] l unfolding target_eq [OF True] by simp
  next
    case False
    then have "target_for_pot pot = replicate (length (rev prime)) 0" using l by (simp add: target_for_pot_def)
    then show ?thesis using False lex_le_zero [of "rev prime"] l by (simp add: share_target_le_def gw_meets_target_def)
  qed
  moreover have "case nbits_to_target_le (hv_bits h) of
         Some t \<Rightarrow> (\<exists>g. bits_to_target (hv_bits h) = Some g \<and> gw_meets_target (rev prime) g = meets_target prime t)
       | None \<Rightarrow> bit (hv_bits h) 23 \<or> bits_to_target (hv_bits h) = None"
  proof (cases "nbits_to_target_le (hv_bits h)")
    case None
    then show ?thesis using bits_eq [of "hv_bits h"] by (cases "bit (hv_bits h) 23") simp_all
  next
    case (Some t)
    then have "\<not> bit (hv_bits h) 23" by (auto simp: nbits_to_target_le_def Let_def split: if_splits)
    then have "bits_to_target (hv_bits h) = Some (rev t)" using bits_eq Some by simp
    moreover have "length t = 32" using nbits_target_exact [of "hv_bits h"] Some by simp
    ultimately show ?thesis using Some meets_eq [of prime t] l by simp
  qed
  ultimately show ?thesis unfolding e by blast
qed

text \<open>A compact target with the sign bit stands for a negative number, which no hash can meet; the gateway reads the bit as part of the mantissa.\<close>

theorem gateway_takes_negative_bits:
  "nbits_to_target_le 0x20ffffff = None \<and> bits_to_target 0x20ffffff = Some ([0xff, 0xff, 0xff] @ replicate 29 0)"
  by (simp add: nbits_to_target_le_def bits_to_target_def Let_def bit_iff_odd)

section \<open>Examples\<close>

definition ex_pow_hashes :: hashes where
  "ex_pow_hashes = \<lparr>hs_sha256 = \<lambda>_. replicate 32 1, hs_blake2b = \<lambda>_. replicate 32 0\<rparr>"

theorem header_roundtrip_witness:
  "deserialize_header (serialize_header (default_header\<lparr>hv_flags := 4, hv_time := 5, hv_time_offset := 9\<rparr>))
    = default_header\<lparr>hv_flags := 4, hv_time := 5, hv_time_offset := 9\<rparr>"
  using header_roundtrip [of "default_header\<lparr>hv_flags := 4, hv_time := 5, hv_time_offset := 9\<rparr>"] by (simp add: header_fits_def default_header_def)

text \<open>A header worth looking at: its bits are a target, and all hashes are zero, which meets it.\<close>

definition ex_pow_header :: header_v2 where
  "ex_pow_header = default_header\<lparr>hv_bits := 0x1d00ffff\<rparr>"

theorem gateway_judges_like_prime_witness:
  "gw_meets_target (pow_hash ex_pow_hashes ex_pow_header) (target_for_pot 20)
    = meets_target (job_hash ex_pow_hashes (new_job_work ex_pow_hashes (commitment_of ex_pow_header) (replicate 12 0)) (nonce8_of ex_pow_header) (ntime8_of ex_pow_header))
        (the (share_target_le 20))"
proof -
  have H: "hash_law ex_pow_hashes" by (simp add: hash_law_def ex_pow_hashes_def)
  have x: "hv_xor_clear_bits ex_pow_header < 256" "hv_extranonce ex_pow_header = header_extranonce (replicate 12 0)" "length (replicate 12 (0 :: byte)) = 12"
    using replicate_add [of 4 12 "0 :: byte"] by (simp_all add: ex_pow_header_def default_header_def header_extranonce_def)
  obtain t where s: "share_target_le 20 = Some t" by (simp add: share_target_le_def)
  show ?thesis using gateway_judges_like_prime [OF H x(1,3,2), of 20] unfolding s option.case option.sel by blast
qed

end
