(* ===== verification/Lazarus_Coinbase.thy ===== *)
theory Lazarus_Coinbase
  imports Lazarus_Pow Wire_Coinbaser Primed_Node
begin

text \<open>
  What the public stratum gateway's blocks pay and weigh: the payout split and its codec (\<^verbatim>\<open>lazarus/protocol/src/coinbaser.rs\<close>), the
  coinbase transaction (\<^verbatim>\<open>cbtx.rs\<close>), and from \<^verbatim>\<open>lazarus/gateway/src/main.rs\<close> the solo split, the template with the
  transactions it has to give up, and the job that binds a coinbase to it. The hash functions are the argument \<open>H\<close>; the fields
  read from the node's JSON are records of options. \<open>None\<close> is an error of the source. The workspace sets no overflow checks for a release, so
  its plain sums and subtractions wrap: \<open>trunc64\<close> and \<open>wrap_sub\<close>.
\<close>

section \<open>The split\<close>

record coinbaser_v2 =
  v2_id :: u8
  v2_outputs :: "cb_output list"

definition encode_cb :: "coinbaser_v2 \<Rightarrow> byte list" where
  "encode_cb c = of_nat (v2_id c) # concat (map write_output (v2_outputs c))"

definition wrap_sub :: "u64 \<Rightarrow> u64 \<Rightarrow> u64" where
  "wrap_sub a b = trunc64 (a + 18446744073709551616 - b)"

definition value_sum :: "coinbaser_v2 \<Rightarrow> u64" where
  "value_sum c = trunc64 (sum_list (map op_sats (v2_outputs c)))"

text \<open>All outputs but the last take their share of the new value, and the last what is left.\<close>

fun scale_outputs :: "u64 \<Rightarrow> u64 \<Rightarrow> cb_output list \<Rightarrow> u64 \<Rightarrow> cb_output list" where
  "scale_outputs old new_value [] paid = []"
| "scale_outputs old new_value [x] paid = [x\<lparr>op_sats := new_value - paid\<rparr>]"
| "scale_outputs old new_value (x # y # ys) paid =
     (let s = trunc64 (op_sats x * new_value div old) in x\<lparr>op_sats := s\<rparr> # scale_outputs old new_value (y # ys) (sat_add64 paid s))"

definition scale_to :: "u64 \<Rightarrow> coinbaser_v2 \<Rightarrow> coinbaser_v2" where
  "scale_to new_value c = (let old = value_sum c in
     if old = 0 \<or> old = new_value \<or> v2_outputs c = [] then c
     else c\<lparr>v2_outputs := scale_outputs old new_value (v2_outputs c) 0\<rparr>)"

function parse_outs :: "nat \<Rightarrow> byte list \<Rightarrow> cb_output list option" where
  "parse_outs n b = (if length b < 9 then Some []
     else let sl = unat (b ! 8) in
       if sl < 2 \<or> sl > 64 \<or> 9 + sl > length b then None
       else let x = \<lparr>op_sats = le_nat (take 8 b), op_script = take sl (drop 9 b)\<rparr> in
         if n + 1 \<ge> 512 then Some [x] else map_option (Cons x) (parse_outs (n + 1) (drop (9 + sl) b)))"
  by pat_completeness auto
termination by (relation "measure (\<lambda>(n, b). length b)") auto

declare parse_outs.simps [simp del]

definition parse_coinbaser_v2 :: "byte list \<Rightarrow> coinbaser_v2 option" where
  "parse_coinbaser_v2 buf = (case buf of [] \<Rightarrow> None
   | i # b \<Rightarrow> map_option (\<lambda>outs. \<lparr>v2_id = unat i, v2_outputs = outs\<rparr>) (parse_outs 0 b))"

text \<open>What each script is issued, the scripts in the order of their first output.\<close>

fun want_of :: "cb_output list \<Rightarrow> (byte list \<times> u64) list \<Rightarrow> (byte list \<times> u64) list" where
  "want_of [] w = w"
| "want_of (x # xs) w = want_of xs (case map_of w (op_script x) of
     Some v \<Rightarrow> AList.update (op_script x) (sat_add64 v (op_sats x)) w
   | None \<Rightarrow> w @ [(op_script x, op_sats x)])"

definition paid_to_script :: "byte list \<Rightarrow> cb_output list \<Rightarrow> u64" where
  "paid_to_script sc outs = trunc64 (sum_list (map op_sats (filter (\<lambda>x. op_script x = sc) outs)))"

fun each_paid :: "u64 \<Rightarrow> u64 \<Rightarrow> u64 \<Rightarrow> cb_output list \<Rightarrow> (byte list \<times> u64) list \<Rightarrow> bool" where
  "each_paid issued actual tol outs [] = True"
| "each_paid issued actual tol outs ((sc, sats) # ws) =
     (if paid_to_script sc outs < trunc64 (sats * actual div issued) - tol then False else each_paid issued actual tol outs ws)"

definition split_satisfied :: "coinbaser_v2 \<Rightarrow> cb_output list \<Rightarrow> u64 \<Rightarrow> bool" where
  "split_satisfied issued outs tol =
     (let issued_total = value_sum issued; actual_total = trunc64 (sum_list (map op_sats outs)) in
      if issued_total = 0 \<or> v2_outputs issued = [] then False
      else if actual_total = 0 then False
      else each_paid issued_total actual_total tol outs (want_of (v2_outputs issued) []))"

section \<open>The coinbase transaction\<close>

definition compact_size :: "u64 \<Rightarrow> byte list" where
  "compact_size n = (if n < 0xfd then [of_nat n] else if n \<le> 0xffff then 0xfd # le_bytes 2 n
     else if n \<le> 0xffffffff then 0xfe # le_bytes 4 n else 0xff # le_bytes 8 n)"

definition scriptsig :: "u32 \<Rightarrow> string \<Rightarrow> byte list \<Rightarrow> byte list" where
  "scriptsig height tag extra =
     (if height < 0x100 then [1, of_nat height] else if height < 0x10000 then 2 # le_bytes 2 height else 3 # le_bytes 3 height)
     @ of_nat (length tag) # ascii tag @ extra"

definition outs_bytes :: "coinbaser_v2 \<Rightarrow> byte list option \<Rightarrow> byte list" where
  "outs_bytes c wit = (let outs = v2_outputs c @ (case wit of Some w \<Rightarrow> [\<lparr>op_sats = 0, op_script = w\<rparr>] | None \<Rightarrow> [])
     in compact_size (length outs) @ concat (map (\<lambda>x. le_bytes 8 (op_sats x) @ compact_size (length (op_script x)) @ op_script x) outs))"

definition input_bytes :: "u32 \<Rightarrow> string \<Rightarrow> byte list \<Rightarrow> byte list" where
  "input_bytes height tag extra = (let ss = scriptsig height tag extra in
     replicate 32 0 @ le_bytes 4 0xffffffff @ compact_size (length ss) @ ss @ le_bytes 4 0xffffffff)"

definition coinbase_legacy :: "u32 \<Rightarrow> string \<Rightarrow> byte list \<Rightarrow> coinbaser_v2 \<Rightarrow> byte list option \<Rightarrow> byte list" where
  "coinbase_legacy height tag extra c wit = le_bytes 4 1 @ 1 # input_bytes height tag extra @ outs_bytes c wit @ le_bytes 4 0"

definition coinbase_witness :: "u32 \<Rightarrow> string \<Rightarrow> byte list \<Rightarrow> coinbaser_v2 \<Rightarrow> byte list option \<Rightarrow> byte list" where
  "coinbase_witness height tag extra c wit = le_bytes 4 1 @ [0, 1, 1] @ input_bytes height tag extra @ outs_bytes c wit
     @ [1, 32] @ replicate 32 0 @ le_bytes 4 0"

section \<open>Solo\<close>

definition gw_fee_for :: "u64 \<Rightarrow> u32 \<Rightarrow> u64" where
  "gw_fee_for val bps = trunc64 (val * bps div 10000)"

definition solo_split :: "u64 \<Rightarrow> byte list \<Rightarrow> byte list \<Rightarrow> u32 \<Rightarrow> u8 \<Rightarrow> coinbaser_v2 option" where
  "solo_split val miner_script fee_script fee_bps i = (let fee = gw_fee_for val fee_bps in do {
     mine \<leftarrow> chk_sub val fee;
     if mine = 0 \<or> fee = 0 \<or> length miner_script < 2 \<or> length fee_script < 2 then None
     else if length miner_script > 64 \<or> length fee_script > 64 then None
     else let c = \<lparr>v2_id = i, v2_outputs = [\<lparr>op_sats = mine, op_script = miner_script\<rparr>, \<lparr>op_sats = fee, op_script = fee_script\<rparr>]\<rparr>
       in if value_sum c \<noteq> val then None else Some c })"

section \<open>The template\<close>

definition BLOCK_OVERHEAD_WEIGHT :: u64 where "BLOCK_OVERHEAD_WEIGHT = 4 * 80 + 4 * 9"

function merkle_level :: "hashes \<Rightarrow> byte list list \<Rightarrow> byte list list" where
  "merkle_level H level = (if length level > 1 then merkle_level H (pair_up (\<lambda>a b. sha256d H (a @ b)) (pad_level level)) else level)"
  by pat_completeness auto
termination by (relation "measure (\<lambda>(H, level). length level)") (auto simp: length_pair_up length_pad_level)

declare merkle_level.simps [simp del]

definition merkle_root_from_txids :: "hashes \<Rightarrow> byte list list \<Rightarrow> byte list" where
  "merkle_root_from_txids H txids = (if txids = [] then replicate 32 0 else hd (merkle_level H txids))"

definition merkle_root_sha256d :: "hashes \<Rightarrow> byte list \<Rightarrow> byte list list \<Rightarrow> byte list" where
  "merkle_root_sha256d H coinbase_tx txids = merkle_root_from_txids H (sha256d H coinbase_tx # txids)"

function branch_levels :: "hashes \<Rightarrow> byte list list \<Rightarrow> byte list list" where
  "branch_levels H level = (if length level > 1
     then pad_level level ! 1 # branch_levels H (pair_up (\<lambda>a b. sha256d H (a @ b)) (pad_level level)) else [])"
  by pat_completeness auto
termination by (relation "measure (\<lambda>(H, level). length level)") (auto simp: length_pair_up length_pad_level)

declare branch_levels.simps [simp del]

definition coinbase_branches :: "hashes \<Rightarrow> byte list list \<Rightarrow> byte list list" where
  "coinbase_branches H txids = branch_levels H (replicate 32 0 # txids)"

definition witness_commitment_script :: "hashes \<Rightarrow> byte list list \<Rightarrow> byte list" where
  "witness_commitment_script H wtxids = [0x6a, 0x24, 0xaa, 0x21, 0xa9, 0xed]
     @ sha256d H (merkle_root_from_txids H (replicate 32 0 # wtxids) @ replicate 32 0)"

definition coinbase_weight :: "u32 \<Rightarrow> string \<Rightarrow> byte list \<Rightarrow> coinbaser_v2 \<Rightarrow> bool \<Rightarrow> u64" where
  "coinbase_weight height tag extra1 c has_wit =
     (let extra = extra1 @ replicate 8 0; wit = (if has_wit then Some (replicate 38 0) else None) in
      3 * length (coinbase_legacy height tag extra c wit) + length (coinbase_witness height tag extra c wit))"

text \<open>What the node says of a transaction and of the template.\<close>

record tx_json =
  tj_txid :: "string option"
  tj_hash :: "string option"
  tj_data :: "string option"
  tj_weight :: "u64 option"
  tj_fee :: "u64 option"

record tpl_json =
  tl_previousblockhash :: "string option"
  tl_bits :: "string option"
  tl_height :: "u64 option"
  tl_coinbasevalue :: "u64 option"
  tl_curtime :: "u64 option"
  tl_version :: "u64 option"
  tl_transactions :: "tx_json list option"
  tl_default_witness_commitment :: "string option"
  tl_weightlimit :: "u64 option"

record tpl_tx =
  tt_txid :: "byte list"
  tt_wtxid :: "byte list"
  tt_raw :: "byte list"
  tt_weight :: u64
  tt_fee :: u64

record gw_template =
  gt_height :: u32
  gt_value :: u64
  gt_prev_notify :: string
  gt_nbits :: "byte list"
  gt_version :: u32
  gt_curtime :: u32
  gt_branches :: "byte list list"
  gt_txs :: "tpl_tx list"
  gt_txn_count :: u32
  gt_witness_commit :: "byte list option"
  gt_tag :: string
  gt_weightlimit :: "u64 option"
  gt_tx_weight :: u64
  gt_trimmed_txs :: u32
  gt_trimmed_fees :: u64
  gt_prev_block :: "byte list"

definition hash32_rev :: "string \<Rightarrow> byte list option" where
  "hash32_rev h = (case hex_decode h of Some b \<Rightarrow> if length b = 32 then Some (rev b) else None | None \<Rightarrow> None)"

definition bits_le :: "string \<Rightarrow> byte list option" where
  "bits_le h = (case hex_decode h of Some b \<Rightarrow> if length b = 4 then Some (rev b) else None | None \<Rightarrow> None)"

definition zero_or :: "nat option \<Rightarrow> nat" where
  "zero_or x = (case x of Some n \<Rightarrow> n | None \<Rightarrow> 0)"

definition read_tx :: "tx_json \<Rightarrow> tpl_tx option" where
  "read_tx t = do {
     name \<leftarrow> (case tj_txid t of Some x \<Rightarrow> Some x | None \<Rightarrow> tj_hash t);
     txid \<leftarrow> hash32_rev name;
     raw \<leftarrow> Option.bind (tj_data t) hex_decode;
     Some \<lparr>tt_txid = txid, tt_wtxid = (case Option.bind (tj_hash t) hash32_rev of Some w \<Rightarrow> w | None \<Rightarrow> txid), tt_raw = raw,
       tt_weight = zero_or (tj_weight t), tt_fee = zero_or (tj_fee t)\<rparr> }"

record trim_state =
  tr_txs :: "tpl_tx list"
  tr_weight :: u64
  tr_value :: u64
  tr_fees :: u64
  tr_count :: u32

text \<open>The list is the transactions from the last to the first.\<close>

fun trim_txs :: "u64 \<Rightarrow> trim_state \<Rightarrow> tpl_tx list \<Rightarrow> trim_state" where
  "trim_txs budget s [] = s\<lparr>tr_txs := []\<rparr>"
| "trim_txs budget s (t # ts) = (if tr_weight s > budget
     then trim_txs budget (s\<lparr>tr_weight := wrap_sub (tr_weight s) (tt_weight t), tr_value := tr_value s - tt_fee t, tr_fees := sat_add64 (tr_fees s) (tt_fee t),
       tr_count := tr_count s + 1\<rparr>) ts
     else s\<lparr>tr_txs := rev (t # ts)\<rparr>)"

definition commit_ok :: "hashes \<Rightarrow> byte list option \<Rightarrow> tpl_tx list \<Rightarrow> bool" where
  "commit_ok H wit txs = (case wit of Some theirs \<Rightarrow> theirs = witness_commitment_script H (map tt_wtxid txs)
     | None \<Rightarrow> list_all (\<lambda>t. tt_wtxid t = tt_txid t) txs)"

definition block_budget :: "u64 \<Rightarrow> u64 \<Rightarrow> u64" where
  "block_budget limit reserve = limit - trunc64 (BLOCK_OVERHEAD_WEIGHT + reserve)"

definition build_template :: "hashes \<Rightarrow> tpl_json \<Rightarrow> string \<Rightarrow> u64 \<Rightarrow> gw_template option" where
  "build_template H j tag reserve = do {
     prev \<leftarrow> Option.bind (tl_previousblockhash j) hash32_rev;
     bits \<leftarrow> Option.bind (tl_bits j) bits_le;
     height \<leftarrow> tl_height j;
     val \<leftarrow> tl_coinbasevalue j;
     curtime \<leftarrow> tl_curtime j;
     version \<leftarrow> tl_version j;
     txs \<leftarrow> tl_transactions j;
     let read = List.map_filter read_tx txs;
     if length read \<noteq> length txs \<or> length txs + 1 > 65535 then None
     else do {
       let wit = Option.bind (tl_default_witness_commitment j) hex_decode;
       let w = trunc64 (sum_list (map tt_weight read));
       let s0 = \<lparr>tr_txs = read, tr_weight = w, tr_value = val, tr_fees = 0, tr_count = 0\<rparr>;
       let trims = (case tl_weightlimit j of Some limit \<Rightarrow> w > block_budget limit reserve \<and> commit_ok H wit read | None \<Rightarrow> False);
       let s = (if trims then trim_txs (block_budget (the (tl_weightlimit j)) reserve) s0 (rev read) else s0);
       Some \<lparr>gt_height = height mod 4294967296, gt_value = tr_value s, gt_prev_notify = hex_of (prevblock_hidden H prev), gt_nbits = bits, gt_version = version mod 4294967296,
         gt_curtime = curtime mod 4294967296, gt_branches = coinbase_branches H (map tt_txid (tr_txs s)), gt_txs = tr_txs s, gt_txn_count = length (tr_txs s) + 1,
         gt_witness_commit = (if trims \<and> wit \<noteq> None then Some (witness_commitment_script H (map tt_wtxid (tr_txs s))) else wit),
         gt_tag = tag, gt_weightlimit = tl_weightlimit j, gt_tx_weight = tr_weight s, gt_trimmed_txs = tr_count s,
         gt_trimmed_fees = tr_fees s, gt_prev_block = prev\<rparr> } }"

section \<open>The job\<close>

definition hex_nat :: "nat \<Rightarrow> nat \<Rightarrow> string" where
  "hex_nat k n = map (\<lambda>i. hex_digit (n div 16 ^ i mod 16)) (rev [0..<k])"

definition job_id_str :: "byte list \<Rightarrow> u64 \<Rightarrow> string" where
  "job_id_str extra1 s = hex_nat 4 (le_nat (take 2 extra1)) @ hex_nat 8 (s mod 4294967296)"

record gw_job =
  jb_id :: string
  jb_tpl :: gw_template
  jb_header :: header_v2
  jb_coinb1 :: "byte list"
  jb_cb :: coinbaser_v2
  jb_job_id :: u8
  jb_who :: "string option"

definition cb_weight_in :: "gw_template \<Rightarrow> byte list \<Rightarrow> coinbaser_v2 \<Rightarrow> nat" where
  "cb_weight_in t extra1 c = (let extra = extra1 @ replicate 8 0 in
     3 * length (coinbase_legacy (gt_height t) (gt_tag t) extra c (gt_witness_commit t))
       + length (coinbase_witness (gt_height t) (gt_tag t) extra c (gt_witness_commit t)))"

definition block_weight :: "gw_template \<Rightarrow> byte list \<Rightarrow> coinbaser_v2 \<Rightarrow> u64" where
  "block_weight t extra1 c = trunc64 (4 * 80 + 4 * 9 + cb_weight_in t extra1 c + gt_tx_weight t)"

definition coinbase_job :: "hashes \<Rightarrow> gw_template \<Rightarrow> byte list \<Rightarrow> coinbaser_v2 \<Rightarrow> u8 \<Rightarrow> u64 \<Rightarrow> string option \<Rightarrow> gw_job option" where
  "coinbase_job H t extra1 c i s who =
     (let leg = coinbase_legacy (gt_height t) (gt_tag t) (extra1 @ replicate 8 0) c (gt_witness_commit t) in
      if (case gt_weightlimit t of Some limit \<Rightarrow> block_weight t extra1 c > limit | None \<Rightarrow> False) then None
      else Some \<lparr>jb_id = job_id_str extra1 s, jb_tpl = t,
        jb_header = default_header\<lparr>hv_version := gt_version t, hv_prev_block := gt_prev_block t, hv_time := gt_curtime t,
          hv_bits := le_nat (gt_nbits t), hv_height := gt_height t, hv_txcount := gt_txn_count t mod 65536,
          hv_merkle_root := merkle_root_sha256d H leg (map tt_txid (gt_txs t)), hv_extranonce := header_extranonce extra1\<rparr>,
        jb_coinb1 = leg, jb_cb = c, jb_job_id = i, jb_who = who\<rparr>)"

definition solo_job_for :: "hashes \<Rightarrow> byte list option \<Rightarrow> gw_template option \<Rightarrow> byte list \<Rightarrow> u32 \<Rightarrow> byte list \<Rightarrow> u64 \<Rightarrow> string \<Rightarrow> gw_job option" where
  "solo_job_for H script tpl fee_script fee_bps extra1 s i = do {
     sc \<leftarrow> script;
     t \<leftarrow> tpl;
     let slot = s mod 255 + 1;
     c \<leftarrow> solo_split (gt_value t) sc fee_script fee_bps slot;
     coinbase_job H t extra1 c slot s (Some i) }"

section \<open>Publishing\<close>

text \<open>The splits Prime left while the gateway waits, in order: the first for this value with two outputs at least.\<close>

definition wait_coinbaser :: "u64 \<Rightarrow> (u64 \<times> coinbaser_v2) list \<Rightarrow> coinbaser_v2 option" where
  "wait_coinbaser val seen = map_option snd (find (\<lambda>(v, c). length (v2_outputs c) \<ge> 2 \<and> v = val) seen)"

definition split_for_value :: "u64 \<Rightarrow> (u64 \<times> coinbaser_v2) list \<Rightarrow> coinbaser_v2 option" where
  "split_for_value val seen = (case wait_coinbaser val seen of Some c \<Rightarrow> Some c
   | None \<Rightarrow> if seen = [] then None
       else let c = snd (last seen) in if length (v2_outputs c) < 2 then None else Some (scale_to val c))"

definition split_to_publish :: "u64 \<Rightarrow> (u64 \<times> coinbaser_v2) list \<Rightarrow> coinbaser_v2 option" where
  "split_to_publish val seen = do {
     c \<leftarrow> split_for_value val seen;
     let c1 = (if value_sum c > val then scale_to val c else c);
     if value_sum c1 = 0 \<or> value_sum c1 > val then None else Some c1 }"

definition pooled_job :: "hashes \<Rightarrow> tpl_json \<Rightarrow> string \<Rightarrow> byte list \<Rightarrow> u64 \<Rightarrow> (u64 \<times> coinbaser_v2) list \<Rightarrow> gw_job option" where
  "pooled_job H j tag extra1 s seen = (let val = zero_or (tl_coinbasevalue j) in
     if val = 0 then None
     else do {
       c \<leftarrow> split_to_publish val seen;
       let reserve = coinbase_weight (zero_or (tl_height j) mod 4294967296) tag extra1 c (tl_default_witness_commitment j \<noteq> None);
       t \<leftarrow> build_template H j tag reserve;
       let c1 = (if value_sum c > gt_value t then scale_to (gt_value t) c else c);
       coinbase_job H t extra1 c1 (s mod 255 + 1) s None })"

definition solo_template :: "hashes \<Rightarrow> tpl_json \<Rightarrow> string \<Rightarrow> byte list \<Rightarrow> gw_template option" where
  "solo_template H j tag extra1 = (if zero_or (tl_coinbasevalue j) = 0 then None
     else let two = \<lparr>v2_id = 0, v2_outputs = replicate 2 \<lparr>op_sats = 0, op_script = replicate 34 0\<rparr>\<rparr>
       in build_template H j tag (coinbase_weight (zero_or (tl_height j) mod 4294967296) tag extra1 two (tl_default_witness_commitment j \<noteq> None)))"

section \<open>Scaling\<close>

abbreviation cut_of :: "u64 \<Rightarrow> u64 \<Rightarrow> cb_output \<Rightarrow> nat" where
  "cut_of old new_value x \<equiv> op_sats x * new_value div old"

lemma scale_outputs_sats:
  assumes "xs \<noteq> []" "paid + sum_list (map (cut_of old n) (butlast xs)) \<le> n" "n \<le> u64_max"
  shows "map op_sats (scale_outputs old n xs paid)
      = map (cut_of old n) (butlast xs) @ [n - paid - sum_list (map (cut_of old n) (butlast xs))]
    \<and> map op_script (scale_outputs old n xs paid) = map op_script xs"
  using assms
proof (induction old n xs paid rule: scale_outputs.induct)
  case (3 old n x y ys paid)
  have "cut_of old n x \<le> n" using "3.prems"(2) by simp
  then have t: "trunc64 (cut_of old n x) = cut_of old n x" "sat_add64 paid (cut_of old n x) = paid + cut_of old n x"
    using "3.prems"(2,3) by (simp_all add: sat_add64_def)
  then show ?case using "3.IH" [OF refl] "3.prems" by (simp add: Let_def)
qed simp_all

lemma shares_fit:
  assumes "sum_list (map op_sats xs) = old"
  shows "sum_list (map (cut_of old n) xs) \<le> n"
proof -
  have "sum_list (map (\<lambda>x. n * snd x div old) (map (\<lambda>x. (x, op_sats x)) xs)) \<le> n"
    by (rule proportional_shares_le) (simp add: comp_def assms)
  then show ?thesis by (simp add: comp_def mult.commute)
qed

lemma sum_butlast: "xs \<noteq> [] \<Longrightarrow> sum_list (map f xs) = sum_list (map f (butlast xs)) + (f (last xs) :: nat)"
  by (induction xs) simp_all

text \<open>What a split pays in all, which its sum is when nothing wraps.\<close>

definition worth :: "coinbaser_v2 \<Rightarrow> nat" where
  "worth c = sum_list (map op_sats (v2_outputs c))"

lemma value_sum_worth: "worth c \<le> u64_max \<Longrightarrow> value_sum c = worth c"
  by (simp add: value_sum_def worth_def)

lemma scale_to_spec:
  assumes v: "worth c \<le> u64_max" "0 < worth c" "n \<le> u64_max"
  shows "worth (scale_to n c) = n" "v2_id (scale_to n c) = v2_id c" "map op_script (v2_outputs (scale_to n c)) = map op_script (v2_outputs c)"
    "list_all2 (\<lambda>x x'. cut_of (worth c) n x \<le> op_sats x') (v2_outputs c) (v2_outputs (scale_to n c))"
proof -
  let ?xs = "v2_outputs c" and ?f = "cut_of (worth c) n"
  have "worth (scale_to n c) = n \<and> v2_id (scale_to n c) = v2_id c \<and> map op_script (v2_outputs (scale_to n c)) = map op_script ?xs
    \<and> list_all2 (\<lambda>x x'. ?f x \<le> op_sats x') ?xs (v2_outputs (scale_to n c))"
  proof (cases "worth c = n")
    case True
    then have "scale_to n c = c" using v by (simp add: scale_to_def value_sum_worth)
    then show ?thesis using True v by (auto simp: list_all2_same)
  next
    case False
    have ne: "?xs \<noteq> []" using v(2) by (auto simp: worth_def)
    have e: "scale_to n c = c\<lparr>v2_outputs := scale_outputs (worth c) n ?xs 0\<rparr>" using False v ne by (simp add: scale_to_def value_sum_worth Let_def)
    have b: "sum_list (map ?f (butlast ?xs)) + ?f (last ?xs) \<le> n"
      using shares_fit [of ?xs "worth c" n] sum_butlast [OF ne, of ?f] by (simp add: worth_def)
    then have s: "map op_sats (scale_outputs (worth c) n ?xs 0) = map ?f (butlast ?xs) @ [n - sum_list (map ?f (butlast ?xs))]"
      "map op_script (scale_outputs (worth c) n ?xs 0) = map op_script ?xs"
      using scale_outputs_sats [OF ne, where paid = 0 and old = "worth c" and n = n] v(3) by simp_all
    have "worth (scale_to n c) = sum_list (map op_sats (scale_outputs (worth c) n ?xs 0))"
      by (simp add: e worth_def [of "c\<lparr>v2_outputs := xs\<rparr>" for xs])
    then have w: "worth (scale_to n c) = n" using b unfolding s(1) by simp
    have "list_all2 (\<lambda>x s. ?f x \<le> s) (butlast ?xs @ [last ?xs]) (map ?f (butlast ?xs) @ [n - sum_list (map ?f (butlast ?xs))])"
      using b by (intro list_all2_appendI) (simp_all add: list_all2_map2 list_all2_same)
    then have "list_all2 (\<lambda>x s. ?f x \<le> s) ?xs (map op_sats (scale_outputs (worth c) n ?xs 0))" using ne s(1) by simp
    then show ?thesis using w s(2) by (simp add: e list_all2_map2)
  qed
  then show "worth (scale_to n c) = n" "v2_id (scale_to n c) = v2_id c" "map op_script (v2_outputs (scale_to n c)) = map op_script ?xs"
    "list_all2 (\<lambda>x x'. ?f x \<le> op_sats x') ?xs (v2_outputs (scale_to n c))" by blast+
qed

text \<open>
  Rescaling a split that pays something, and no more than a \<^verbatim>\<open>u64\<close> in all, pays the new value to the sat and robs nobody: the outputs keep
  their scripts and their order, add up to the new value, and each takes at least its share of it rounded down.
\<close>

theorem scale_to_exact:
  assumes "worth c \<le> u64_max" "0 < worth c" "n \<le> u64_max"
  shows "worth (scale_to n c) = n \<and> map op_script (v2_outputs (scale_to n c)) = map op_script (v2_outputs c)
    \<and> list_all2 (\<lambda>x x'. op_sats x * n div worth c \<le> op_sats x') (v2_outputs c) (v2_outputs (scale_to n c))"
  using scale_to_spec [OF assms] by blast

section \<open>The codec\<close>

lemma parse_outs_one:
  assumes "output_ok x" "n < 512"
  shows "parse_outs n (write_output x @ rest)
    = (if n + 1 \<ge> 512 then Some [x] else map_option (Cons x) (parse_outs (n + 1) rest))"
proof -
  have l: "length (op_script x) \<le> 64" "2 \<le> length (op_script x)" "op_sats x \<le> u64_max" using assms(1) by (simp_all add: output_ok_def script_bounds)
  have n8: "(le_bytes 8 (op_sats x) @ of_nat (length (op_script x)) # op_script x @ rest) ! 8 = (of_nat (length (op_script x)) :: byte)"
    by (simp add: nth_append)
  have d: "drop 9 (le_bytes 8 (op_sats x) @ of_nat (length (op_script x)) # op_script x @ rest) = op_script x @ rest" by (simp add: drop_Cons')
  then have d2: "drop (9 + length (op_script x)) (le_bytes 8 (op_sats x) @ of_nat (length (op_script x)) # op_script x @ rest) = rest"
    by (simp add: drop_drop [symmetric] add.commute [of 9] del: drop_drop)
  show ?thesis using l assms(2) n8 d d2
    by (subst parse_outs.simps, cases x) (simp add: write_output_def Let_def)
qed

lemma parse_outs_all:
  assumes "list_all output_ok xs" "n + length xs \<le> 512" "n < 512"
  shows "parse_outs n (concat (map write_output xs)) = Some xs"
  using assms
proof (induction xs arbitrary: n)
  case Nil
  then show ?case by (simp add: parse_outs.simps)
next
  case (Cons x xs)
  show ?case
  proof (cases "n + 1 \<ge> 512")
    case True
    then have "length xs = 0" using Cons.prems(2) unfolding list.size by linarith
    then have "xs = []" by simp
    then show ?thesis using parse_outs_one [of x n "[]"] Cons.prems True by simp
  next
    case False
    then show ?thesis using Cons parse_outs_one [of x n] by simp
  qed
qed

text \<open>A split survives the wire: the encoding of at most 512 outputs with scripts of 2 to 64 bytes reads back as the same split.\<close>

theorem coinbaser_roundtrip:
  assumes "list_all output_ok (v2_outputs c)" "length (v2_outputs c) \<le> 512" "v2_id c < 256"
  shows "parse_coinbaser_v2 (encode_cb c) = Some c"
  using parse_outs_all [OF assms(1), of 0] assms(2,3) by (simp add: parse_coinbaser_v2_def encode_cb_def)

section \<open>What a coinbase weighs\<close>

lemma outs_length:
  "map (length \<circ> op_script) (v2_outputs c) = map (length \<circ> op_script) (v2_outputs d) \<Longrightarrow> map_option length wit = map_option length wit'
    \<Longrightarrow> length (outs_bytes c wit) = length (outs_bytes d wit')"
proof -
  assume m: "map (length \<circ> op_script) (v2_outputs c) = map (length \<circ> op_script) (v2_outputs d)" and w: "map_option length wit = map_option length wit'"
  let ?g = "\<lambda>n. 8 + length (compact_size n) + n"
  have size: "length (concat (map (\<lambda>x. le_bytes 8 (op_sats x) @ compact_size (length (op_script x)) @ op_script x) xs)) = sum_list (map ?g (map (length \<circ> op_script) xs))"
    for xs by (induction xs) simp_all
  have "map (length \<circ> op_script) (v2_outputs c @ (case wit of Some w \<Rightarrow> [\<lparr>op_sats = 0, op_script = w\<rparr>] | None \<Rightarrow> []))
      = map (length \<circ> op_script) (v2_outputs d @ (case wit' of Some w \<Rightarrow> [\<lparr>op_sats = 0, op_script = w\<rparr>] | None \<Rightarrow> []))"
    (is "map _ ?a = map _ ?b") using m w by (cases wit; cases wit') simp_all
  then have "length ?a = length ?b" "length (concat (map (\<lambda>x. le_bytes 8 (op_sats x) @ compact_size (length (op_script x)) @ op_script x) ?a))
      = length (concat (map (\<lambda>x. le_bytes 8 (op_sats x) @ compact_size (length (op_script x)) @ op_script x) ?b))"
    unfolding size using map_eq_imp_length_eq by metis+
  then show ?thesis unfolding outs_bytes_def Let_def by (simp only: length_append)
qed

lemma coinbase_lengths:
  "length (coinbase_legacy h tag extra c wit) = 9 + length (input_bytes h tag extra) + length (outs_bytes c wit)"
  "length (coinbase_witness h tag extra c wit) = 45 + length (input_bytes h tag extra) + length (outs_bytes c wit)"
  by (simp_all add: coinbase_legacy_def coinbase_witness_def)

lemma coinbase_length_cong:
  assumes "map op_script (v2_outputs c) = map op_script (v2_outputs d)" "map_option length wit = map_option length wit'"
  shows "length (coinbase_legacy h tag extra c wit) = length (coinbase_legacy h tag extra d wit')"
    "length (coinbase_witness h tag extra c wit) = length (coinbase_witness h tag extra d wit')"
proof -
  have "map length (map op_script (v2_outputs c)) = map length (map op_script (v2_outputs d))" using assms(1) by simp
  then have "map (length \<circ> op_script) (v2_outputs c) = map (length \<circ> op_script) (v2_outputs d)" by simp
  from outs_length [OF this assms(2)]
  show "length (coinbase_legacy h tag extra c wit) = length (coinbase_legacy h tag extra d wit')"
    "length (coinbase_witness h tag extra c wit) = length (coinbase_witness h tag extra d wit')" by (simp_all add: coinbase_lengths)
qed

lemma wrap_sub_exact: "b \<le> a \<Longrightarrow> a \<le> u64_max \<Longrightarrow> wrap_sub a b = a - b"
  by (simp add: wrap_sub_def trunc64_def mod_if)

text \<open>Transactions go from the end while the rest is too heavy, and no further.\<close>

lemma trim_txs_spec:
  assumes "tr_weight s = sum_list (map tt_weight ts)" "tr_weight s \<le> u64_max"
  shows "tr_weight (trim_txs budget s ts) = sum_list (map tt_weight (tr_txs (trim_txs budget s ts)))
    \<and> tr_weight (trim_txs budget s ts) \<le> budget
    \<and> (\<exists>gone. ts = gone @ rev (tr_txs (trim_txs budget s ts)) \<and> tr_value (trim_txs budget s ts) = tr_value s - sum_list (map tt_fee gone)
        \<and> (gone \<noteq> [] \<longrightarrow> budget < tr_weight (trim_txs budget s ts) + tt_weight (last gone)))"
  using assms
proof (induction budget s ts rule: trim_txs.induct)
  case (2 budget s t ts)
  show ?case
  proof (cases "tr_weight s > budget")
    case True
    let ?s = "s\<lparr>tr_weight := wrap_sub (tr_weight s) (tt_weight t), tr_value := tr_value s - tt_fee t, tr_fees := sat_add64 (tr_fees s) (tt_fee t), tr_count := tr_count s + 1\<rparr>"
    have w: "wrap_sub (tr_weight s) (tt_weight t) = sum_list (map tt_weight ts)" "sum_list (map tt_weight ts) \<le> u64_max"
      using "2.prems" wrap_sub_exact [of "tt_weight t" "tr_weight s"] by simp_all
    note IH = "2.IH" [OF True]
    define r where "r = trim_txs budget ?s ts"
    obtain gone where g: "tr_weight r = sum_list (map tt_weight (tr_txs r))" "tr_weight r \<le> budget" "ts = gone @ rev (tr_txs r)"
      "tr_value r = tr_value s - tt_fee t - sum_list (map tt_fee gone)" "gone \<noteq> [] \<Longrightarrow> budget < tr_weight r + tt_weight (last gone)"
      using IH w unfolding r_def by auto
    have e: "trim_txs budget s (t # ts) = r" using True by (simp add: r_def)
    have "tr_weight s = tr_weight r + tt_weight t" if "gone = []"
    proof -
      have "map tt_weight ts = rev (map tt_weight (tr_txs r))" using g(3) that by (simp add: rev_map)
      then show ?thesis using g(1) "2.prems"(1) by simp
    qed
    then have m: "budget < tr_weight r + tt_weight (last (t # gone))" using g(5) True by (cases gone) auto
    have l: "t # ts = (t # gone) @ rev (tr_txs r)" using g(3) by simp
    have v: "tr_value r = tr_value s - sum_list (map tt_fee (t # gone))" using g(4) by simp
    show ?thesis unfolding e using g(1,2) m l v by blast
  next
    case False
    then show ?thesis using "2.prems" by (auto simp: rev_map [symmetric] intro!: exI [of _ "[]"])
  qed
qed auto

section \<open>The merkle path\<close>

lemma branches_root: "foldl (\<lambda>acc b. sha256d H (acc @ b)) a (branch_levels H (z # xs)) = hd (merkle_level H (a # xs))"
proof (induction "length xs" arbitrary: a z xs rule: less_induct)
  case less
  show ?case
  proof (cases xs)
    case Nil
    then show ?thesis by (simp add: branch_levels.simps merkle_level.simps)
  next
    case (Cons b ys)
    let ?f = "\<lambda>a b. sha256d H (a @ b)"
    obtain rest where p: "pad_level (a # xs) = a # b # rest" "pad_level (z # xs) = z # b # rest"
      using Cons by (intro that [of "ys @ (if length (z # xs) mod 2 = 1 then [last (b # ys)] else [])"]) (simp_all add: pad_level_def)
    have l: "length (pair_up ?f rest) < length xs"
    proof -
      define n where "n = length rest"
      have "length (pad_level (z # xs)) = n + 2" unfolding n_def by (subst p(2)) simp
      then have "(n + 2) div 2 = (length xs + 2) div 2" using length_pad_level [of "z # xs"] by simp
      then have "n div 2 = length xs div 2" by simp
      moreover have "length xs div 2 < length xs" using Cons by simp
      ultimately show ?thesis by (simp add: length_pair_up n_def)
    qed
    have "branch_levels H (z # xs) = b # branch_levels H (?f z b # pair_up ?f rest)"
      using Cons p(2) by (subst branch_levels.simps) simp
    moreover have "merkle_level H (a # xs) = merkle_level H (?f a b # pair_up ?f rest)"
      using Cons p(1) by (subst merkle_level.simps) simp
    ultimately show ?thesis using less.hyps [OF l] by simp
  qed
qed

section \<open>What a published job pays and weighs\<close>

abbreviation node_commit :: "tpl_json \<Rightarrow> byte list option" where
  "node_commit j \<equiv> Option.bind (tl_default_witness_commitment j) hex_decode"

abbreviation node_txs :: "tpl_json \<Rightarrow> tpl_tx list" where
  "node_txs j \<equiv> (case tl_transactions j of Some txs \<Rightarrow> List.map_filter read_tx txs | None \<Rightarrow> [])"

lemma commitment_length: "hash_law H \<Longrightarrow> length (witness_commitment_script H ws) = 38"
  by (simp add: witness_commitment_script_def sha256d_def sha256_def hash_law_def)

abbreviation txs_weight :: "tpl_tx list \<Rightarrow> nat" where
  "txs_weight txs \<equiv> sum_list (map tt_weight txs)"

lemma build_template_spec:
  assumes b: "build_template H j tag reserve = Some t"
  shows "gt_weightlimit t = tl_weightlimit j" "gt_tag t = tag" "gt_height t = zero_or (tl_height j) mod 4294967296"
    "hash_law H \<Longrightarrow> map_option length (gt_witness_commit t) = map_option length (node_commit j)"
    "txs_weight (node_txs j) \<le> u64_max \<Longrightarrow> gt_tx_weight t = txs_weight (gt_txs t)
      \<and> (\<exists>gone. node_txs j = gt_txs t @ gone \<and> gt_value t = zero_or (tl_coinbasevalue j) - sum_list (map tt_fee gone)
          \<and> (gone \<noteq> [] \<longrightarrow> (\<exists>limit. tl_weightlimit j = Some limit \<and> block_budget limit reserve < txs_weight (gt_txs t @ [hd gone]))))"
    "txs_weight (node_txs j) \<le> u64_max \<Longrightarrow> commit_ok H (node_commit j) (node_txs j) \<Longrightarrow>
      (case tl_weightlimit j of Some limit \<Rightarrow> gt_tx_weight t \<le> block_budget limit reserve | None \<Rightarrow> True)
      \<and> gt_witness_commit t = map_option (\<lambda>_. witness_commitment_script H (map tt_wtxid (gt_txs t))) (node_commit j)"
proof -
  let ?wit = "node_commit j" and ?w = "trunc64 (txs_weight (node_txs j))"
  obtain txs height val where f: "tl_transactions j = Some txs" "tl_height j = Some height" "tl_coinbasevalue j = Some val"
    using b by (auto simp: build_template_def Let_def split: if_splits bind_splits)
  define s0 where "s0 = \<lparr>tr_txs = node_txs j, tr_weight = ?w, tr_value = val, tr_fees = 0, tr_count = 0\<rparr>"
  define trims where "trims = (case tl_weightlimit j of Some limit \<Rightarrow> ?w > block_budget limit reserve \<and> commit_ok H ?wit (node_txs j) | None \<Rightarrow> False)"
  define st where "st = (if trims then trim_txs (block_budget (the (tl_weightlimit j)) reserve) s0 (rev (node_txs j)) else s0)"
  have nt: "node_txs j = List.map_filter read_tx txs" using f(1) by simp
  have t: "gt_weightlimit t = tl_weightlimit j" "gt_tag t = tag" "gt_height t = height mod 4294967296" "gt_txs t = tr_txs st" "gt_value t = tr_value st"
      "gt_tx_weight t = tr_weight st"
      "gt_witness_commit t = (if trims \<and> ?wit \<noteq> None then Some (witness_commitment_script H (map tt_wtxid (tr_txs st))) else ?wit)"
    using b f unfolding build_template_def Let_def st_def s0_def trims_def nt by (auto split: if_splits bind_splits)
  show "gt_weightlimit t = tl_weightlimit j" "gt_tag t = tag" "gt_height t = zero_or (tl_height j) mod 4294967296" using t f by (simp_all add: zero_or_def)
  show "map_option length (gt_witness_commit t) = map_option length ?wit" if H: "hash_law H"
  proof (cases "trims \<and> ?wit \<noteq> None")
    case True
    then obtain theirs where "?wit = Some theirs" "theirs = witness_commitment_script H (map tt_wtxid (node_txs j))"
      by (auto simp: trims_def commit_ok_def split: option.splits)
    then show ?thesis using t(7) True by (simp add: commitment_length [OF H])
  qed (use t(7) in simp)
  have trimmed: "tr_weight st = txs_weight (tr_txs st) \<and> (\<exists>limit. tl_weightlimit j = Some limit \<and> tr_weight st \<le> block_budget limit reserve
      \<and> (\<exists>gone. node_txs j = tr_txs st @ gone \<and> tr_value st = val - sum_list (map tt_fee gone)
          \<and> (gone \<noteq> [] \<longrightarrow> block_budget limit reserve < txs_weight (tr_txs st @ [hd gone]))))"
    if tr: "trims" and small: "txs_weight (node_txs j) \<le> u64_max"
  proof -
    obtain limit where l: "tl_weightlimit j = Some limit" using tr by (auto simp: trims_def split: option.splits)
    have e: "st = trim_txs (block_budget limit reserve) s0 (rev (node_txs j))" using tr l by (simp add: st_def)
    have s: "tr_weight s0 = txs_weight (rev (node_txs j))" "tr_weight s0 \<le> u64_max" using small by (simp_all add: s0_def rev_map [symmetric])
    obtain gone where g: "tr_weight st = txs_weight (tr_txs st)" "tr_weight st \<le> block_budget limit reserve" "rev (node_txs j) = gone @ rev (tr_txs st)"
      "tr_value st = val - sum_list (map tt_fee gone)" "gone \<noteq> [] \<Longrightarrow> block_budget limit reserve < tr_weight st + tt_weight (last gone)"
      using trim_txs_spec [OF s, of "block_budget limit reserve"] unfolding e [symmetric] by (auto simp: s0_def)
    have n: "node_txs j = tr_txs st @ rev gone" using g(3) by (metis rev_append rev_rev_ident)
    have "block_budget limit reserve < txs_weight (tr_txs st @ [hd (rev gone)])" if "rev gone \<noteq> []" using g(1,5) that by (simp add: hd_rev)
    moreover have "tr_value st = val - sum_list (map tt_fee (rev gone))" using g(4) by (simp add: rev_map [symmetric])
    ultimately show ?thesis using g(1,2) n l by blast
  qed
  have whole: "tr_txs st = node_txs j" "tr_value st = val" "tr_weight st = ?w" if "\<not> trims" using that by (simp_all add: st_def s0_def)
  show "gt_tx_weight t = txs_weight (gt_txs t)
      \<and> (\<exists>gone. node_txs j = gt_txs t @ gone \<and> gt_value t = zero_or (tl_coinbasevalue j) - sum_list (map tt_fee gone)
          \<and> (gone \<noteq> [] \<longrightarrow> (\<exists>limit. tl_weightlimit j = Some limit \<and> block_budget limit reserve < txs_weight (gt_txs t @ [hd gone]))))"
    if "txs_weight (node_txs j) \<le> u64_max"
  proof (cases trims)
    case True
    then show ?thesis using trimmed [OF True that] unfolding t(4-6) by (auto simp: f(3) zero_or_def)
  qed (use whole that in \<open>auto simp: t(4-6) f(3) zero_or_def intro!: exI [of _ "[]"]\<close>)
  show "(case tl_weightlimit j of Some limit \<Rightarrow> gt_tx_weight t \<le> block_budget limit reserve | None \<Rightarrow> True)
      \<and> gt_witness_commit t = map_option (\<lambda>_. witness_commitment_script H (map tt_wtxid (gt_txs t))) ?wit"
    if small: "txs_weight (node_txs j) \<le> u64_max" and ok: "commit_ok H ?wit (node_txs j)"
  proof (cases trims)
    case True
    obtain limit where "tl_weightlimit j = Some limit" "tr_weight st \<le> block_budget limit reserve" using trimmed [OF True small] by blast
    then show ?thesis using True by (cases ?wit) (simp_all add: t(4-7))
  next
    case False
    have "(case tl_weightlimit j of Some limit \<Rightarrow> tr_weight st \<le> block_budget limit reserve | None \<Rightarrow> True)"
      using False ok whole(3) by (auto simp: trims_def split: option.splits)
    moreover have "?wit = map_option (\<lambda>_. witness_commitment_script H (map tt_wtxid (node_txs j))) ?wit"
      using ok by (cases ?wit) (simp_all add: commit_ok_def)
    ultimately show ?thesis using False whole(1) unfolding t(4-7) by simp
  qed
qed

text \<open>The weight the coinbase was reserved for is the one it has in the job.\<close>

lemma job_weight:
  assumes b: "build_template H j tag (coinbase_weight (zero_or (tl_height j) mod 4294967296) tag extra1 c (tl_default_witness_commitment j \<noteq> None)) = Some t"
    and H: "hash_law H" and wit: "case tl_default_witness_commitment j of None \<Rightarrow> True | Some h \<Rightarrow> map_option length (hex_decode h) = Some 38"
    and sc: "map op_script (v2_outputs d) = map op_script (v2_outputs c)"
  shows "cb_weight_in t extra1 d = coinbase_weight (zero_or (tl_height j) mod 4294967296) tag extra1 c (tl_default_witness_commitment j \<noteq> None)"
proof -
  note B = build_template_spec [OF b]
  have "map_option length (gt_witness_commit t) = map_option length (if tl_default_witness_commitment j \<noteq> None then Some (replicate 38 (0 :: byte)) else None)"
    using B(4) [OF H] wit by (auto split: option.splits)
  note L = coinbase_length_cong [OF sc this]
  show ?thesis unfolding cb_weight_in_def coinbase_weight_def Let_def B(2,3) L by simp
qed

text \<open>A template that can be read: every field there and well formed, every transaction too, not too many, and the node's witness commitment one that
  the gateway can derive itself.\<close>

definition template_readable :: "hashes \<Rightarrow> tpl_json \<Rightarrow> bool" where
  "template_readable H j \<longleftrightarrow> Option.bind (tl_previousblockhash j) hash32_rev \<noteq> None \<and> Option.bind (tl_bits j) bits_le \<noteq> None
     \<and> tl_height j \<noteq> None \<and> tl_coinbasevalue j \<noteq> None \<and> tl_curtime j \<noteq> None \<and> tl_version j \<noteq> None
     \<and> (case tl_transactions j of None \<Rightarrow> False | Some txs \<Rightarrow> list_all (\<lambda>t. read_tx t \<noteq> None) txs \<and> length txs + 1 \<le> 65535)
     \<and> (case tl_default_witness_commitment j of None \<Rightarrow> True | Some h \<Rightarrow> map_option length (hex_decode h) = Some 38)
     \<and> commit_ok H (node_commit j) (node_txs j)"

lemma all_read: "list_all (\<lambda>t. f t \<noteq> None) ts \<Longrightarrow> length (List.map_filter f ts) = length ts"
  by (induction ts) (auto simp: List.map_filter_simps)

lemma readable_builds:
  assumes "template_readable H j"
  shows "\<exists>t. build_template H j tag reserve = Some t"
proof -
  obtain p prev b bits where p: "tl_previousblockhash j = Some p" "hash32_rev p = Some prev" and b: "tl_bits j = Some b" "bits_le b = Some bits"
    using assms by (auto simp: template_readable_def split: bind_splits)
  obtain height val curtime version txs where f: "tl_height j = Some height" "tl_coinbasevalue j = Some val" "tl_curtime j = Some curtime"
    "tl_version j = Some version" "tl_transactions j = Some txs" "list_all (\<lambda>t. read_tx t \<noteq> None) txs" "length txs + 1 \<le> 65535"
    using assms by (auto simp: template_readable_def split: option.splits)
  show ?thesis using all_read [OF f(6)] f(7) by (simp add: build_template_def p b f(1-5) Let_def)
qed


lemma coinbase_job_Some:
  "coinbase_job H t extra1 c i s who = Some jb \<Longrightarrow> jb_cb jb = c \<and> jb_tpl jb = t \<and> jb_who jb = who
    \<and> (case gt_weightlimit t of Some limit \<Rightarrow> block_weight t extra1 c \<le> limit | None \<Rightarrow> True)"
  by (auto simp: coinbase_job_def Let_def split: if_splits option.splits)

lemma scale_to_scripts: "map op_script (v2_outputs (scale_to n c)) = map op_script (v2_outputs c)"
proof -
  have "map op_script (scale_outputs old n xs p) = map op_script xs" for old xs p
    by (induction old n xs p rule: scale_outputs.induct) (simp_all add: Let_def)
  then show ?thesis by (simp add: scale_to_def Let_def)
qed

lemma scale_to_small: "worth c \<le> u64_max \<Longrightarrow> n \<le> u64_max \<Longrightarrow> worth (scale_to n c) \<le> u64_max"
  using scale_to_spec(1) [of c n] by (cases "worth c = 0") (simp_all add: scale_to_def value_sum_worth)

text \<open>A rescaling when it pays too much leaves it paying the value.\<close>

lemma scale_down:
  assumes "worth c \<le> u64_max"
  shows "worth (if value_sum c > n then scale_to n c else c) \<le> n"
  using assms scale_to_spec(1) [of c n] by (auto simp: value_sum_worth)

lemma split_to_publish_spec:
  assumes "split_to_publish val seen = Some c" "val \<le> u64_max" "\<forall>(v, d) \<in> set seen. worth d \<le> u64_max"
  obtains v d where "0 < worth c" "worth c \<le> val" "(v, d) \<in> set seen" "2 \<le> length (v2_outputs d)"
    "map op_script (v2_outputs c) = map op_script (v2_outputs d)"
proof -
  obtain c0 where c: "split_for_value val seen = Some c0" "c = (if value_sum c0 > val then scale_to val c0 else c0)" "value_sum c \<noteq> 0"
    using assms(1) by (auto simp: split_to_publish_def Let_def split: bind_splits if_splits)
  obtain v d where d: "(v, d) \<in> set seen" "2 \<le> length (v2_outputs d)" "map op_script (v2_outputs c0) = map op_script (v2_outputs d)" "worth c0 \<le> u64_max"
  proof (cases "wait_coinbaser val seen")
    case None
    then have l: "seen \<noteq> []" "\<not> length (v2_outputs (snd (last seen))) < 2" "c0 = scale_to val (snd (last seen))"
      using c(1) by (auto simp: split_for_value_def Let_def split: if_splits)
    then have m: "(fst (last seen), snd (last seen)) \<in> set seen" by simp
    then have "worth (snd (last seen)) \<le> u64_max" using assms(3) by blast
    then show ?thesis using that [OF m] l scale_to_scripts scale_to_small assms(2) by simp
  next
    case (Some x)
    then have "(val, x) \<in> set seen" "2 \<le> length (v2_outputs x)" by (auto simp: wait_coinbaser_def find_Some_iff) (metis nth_mem)
    then show ?thesis using that [of val x] c(1) Some assms(3) by (auto simp: split_for_value_def)
  qed
  have "worth c \<le> val" unfolding c(2) by (rule scale_down [OF d(4)])
  moreover have "map op_script (v2_outputs c) = map op_script (v2_outputs d)" using c(2) d(3) scale_to_scripts by simp
  moreover have "0 < worth c" using c(3) value_sum_worth [of c] by (cases "worth c") simp_all
  ultimately show ?thesis using that d(1,2) by blast
qed

lemma build_template_branches: "build_template H j tag reserve = Some t \<Longrightarrow> gt_branches t = coinbase_branches H (map tt_txid (gt_txs t))"
  by (auto simp: build_template_def Let_def split: bind_splits if_splits)

text \<open>
  C35. Prime rebuilds the header's merkle root: folding the coinbase a share carries through the branches it carries gives the root
  the gateway had its miners hash.
\<close>

theorem share_proves_coinbase:
  assumes "build_template H j tag reserve = Some t" "coinbase_job H t extra1 c i s who = Some jb"
  shows "hv_merkle_root (jb_header jb) = merkle_root H (sha256d H (jb_coinb1 jb)) (gt_branches (jb_tpl jb))"
proof -
  have "hv_merkle_root (jb_header jb) = merkle_root_sha256d H (jb_coinb1 jb) (map tt_txid (gt_txs t))" "jb_tpl jb = t"
    using assms(2) by (auto simp: coinbase_job_def Let_def split: if_splits)
  then show ?thesis
    by (simp add: merkle_root_def build_template_branches [OF assms(1)] coinbase_branches_def branches_root merkle_root_sha256d_def merkle_root_from_txids_def)
qed


text \<open>A solo job pays its miner everything but the fee, rounded down, and nothing else.\<close>

theorem solo_job_pays_finder:
  assumes "solo_job_for H script (Some t) fee_script bps extra1 sq i = Some jb" "bps \<le> 10000"
  shows "\<exists>sc. script = Some sc \<and> jb_who jb = Some i
    \<and> v2_outputs (jb_cb jb) = [\<lparr>op_sats = gt_value t - gt_value t * bps div 10000, op_script = sc\<rparr>,
        \<lparr>op_sats = gt_value t * bps div 10000, op_script = fee_script\<rparr>]
    \<and> 0 < gt_value t * bps div 10000 \<and> gt_value t * bps div 10000 < gt_value t"
proof -
  obtain sc c where c: "script = Some sc" "solo_split (gt_value t) sc fee_script bps (sq mod 255 + 1) = Some c"
    "coinbase_job H t extra1 c (sq mod 255 + 1) sq (Some i) = Some jb"
    using assms(1) by (auto simp: solo_job_for_def Let_def split: bind_splits)
  let ?fee = "gw_fee_for (gt_value t) bps"
  have s: "?fee \<le> gt_value t" "gt_value t - ?fee \<noteq> 0" "?fee \<noteq> 0" "trunc64 (gt_value t) = gt_value t"
    "v2_outputs c = [\<lparr>op_sats = gt_value t - ?fee, op_script = sc\<rparr>, \<lparr>op_sats = ?fee, op_script = fee_script\<rparr>]"
    using c(2) by (auto simp: solo_split_def Let_def value_sum_def split: bind_splits if_splits)
  have "gt_value t * bps div 10000 \<le> gt_value t * 10000 div 10000" using assms(2) by (intro div_le_mono mult_le_mono2)
  moreover have "gt_value t \<le> u64_max" by (metis s(4) trunc64_bound)
  ultimately have "?fee = gt_value t * bps div 10000" by (simp add: gw_fee_for_def)
  then show ?thesis using c(1) s coinbase_job_Some [OF c(3)] by auto
qed

section \<open>Examples\<close>

definition ex_gw_split :: coinbaser_v2 where
  "ex_gw_split = \<lparr>v2_id = 7, v2_outputs = [\<lparr>op_sats = 750000, op_script = [0, 1]\<rparr>, \<lparr>op_sats = 250000, op_script = [0, 2]\<rparr>]\<rparr>"

definition ex_gw_hashes :: hashes where
  "ex_gw_hashes = \<lparr>hs_sha256 = \<lambda>_. replicate 32 0, hs_blake2b = \<lambda>_. replicate 32 0\<rparr>"

definition ex_tpl :: tpl_json where
  "ex_tpl = \<lparr>tl_previousblockhash = Some (replicate 64 (CHR ''0'')), tl_bits = Some ''1d00ffff'', tl_height = Some 5, tl_coinbasevalue = Some 1000000,
     tl_curtime = Some 9, tl_version = Some 1, tl_transactions = Some [], tl_default_witness_commitment = None, tl_weightlimit = Some 4000000\<rparr>"

lemma ex_gw_law: "hash_law ex_gw_hashes"
  by (simp add: hash_law_def ex_gw_hashes_def)

lemma ex_sum: "worth ex_gw_split = 1000000" "value_sum ex_gw_split = 1000000"
  by (simp_all add: worth_def value_sum_def ex_gw_split_def)

lemma ex_decoded: "hash32_rev (replicate 64 (CHR ''0'')) = Some (replicate 32 0)" "bits_le ''1d00ffff'' = Some [0xff, 0xff, 0, 0x1d]"
  by code_simp+

lemma ex_built: "\<exists>t. build_template H ex_tpl tag reserve = Some t \<and> gt_value t = 1000000 \<and> gt_tx_weight t = 0 \<and> gt_weightlimit t = Some 4000000
    \<and> gt_witness_commit t = None \<and> gt_height t = 5 \<and> gt_tag t = tag"
  by (simp add: build_template_def ex_tpl_def ex_decoded List.map_filter_simps Let_def)

lemma ex_weight:
  assumes "map (length \<circ> op_script) (v2_outputs c) = [2, 2]"
  shows "3 * length (coinbase_legacy 5 ''L'' ([0, 0, 0, 0] @ replicate 8 0) c None) + length (coinbase_witness 5 ''L'' ([0, 0, 0, 0] @ replicate 8 0) c None) \<le> 3000"
proof -
  have "length (input_bytes 5 ''L'' ([0, 0, 0, 0] @ replicate 8 0)) = 57" by (simp add: input_bytes_def scriptsig_def compact_size_def ascii_def Let_def)
  moreover have "length (outs_bytes ex_gw_split None) = 23" by (simp add: outs_bytes_def compact_size_def ex_gw_split_def Let_def)
  moreover have "length (outs_bytes c None) = length (outs_bytes ex_gw_split None)" by (rule outs_length) (use assms in \<open>simp_all add: ex_gw_split_def\<close>)
  ultimately show ?thesis by (simp add: coinbase_lengths)
qed

theorem scale_to_exact_witness:
  "worth (scale_to 1000004 ex_gw_split) = 1000004"
  using scale_to_exact [of ex_gw_split 1000004] by (simp add: ex_sum)

theorem coinbaser_roundtrip_witness:
  "parse_coinbaser_v2 (encode_cb ex_gw_split) = Some ex_gw_split"
  by (rule coinbaser_roundtrip) (simp_all add: ex_gw_split_def output_ok_def script_bounds)

text \<open>A template of three transactions of which the coinbase leaves room for one.\<close>

definition ex_tx :: "nat \<Rightarrow> tx_json" where
  "ex_tx fee = \<lparr>tj_txid = Some (replicate 64 (CHR ''0'')), tj_hash = None, tj_data = Some ''00'', tj_weight = Some 400, tj_fee = Some fee\<rparr>"

definition ex_full :: tpl_json where
  "ex_full = ex_tpl\<lparr>tl_transactions := Some [ex_tx 10, ex_tx 20, ex_tx 30], tl_weightlimit := Some 1200\<rparr>"

definition ex_tpl_tx :: "nat \<Rightarrow> tpl_tx" where
  "ex_tpl_tx fee = \<lparr>tt_txid = replicate 32 0, tt_wtxid = replicate 32 0, tt_raw = [0], tt_weight = 400, tt_fee = fee\<rparr>"

lemma ex_read: "read_tx (ex_tx fee) = Some (ex_tpl_tx fee)"
proof -
  have "hex_decode ''00'' = Some [0]" by code_simp
  then show ?thesis by (simp add: read_tx_def ex_tx_def ex_tpl_tx_def ex_decoded zero_or_def)
qed

lemma ex_full_simps:
  "node_txs ex_full = [ex_tpl_tx 10, ex_tpl_tx 20, ex_tpl_tx 30]" "zero_or (tl_height ex_full) mod 4294967296 = 5"
  "tl_default_witness_commitment ex_full = None" "tl_weightlimit ex_full = Some 1200" "zero_or (tl_coinbasevalue ex_full) = 1000000"
  by (simp_all add: ex_full_def ex_tpl_def List.map_filter_simps ex_read zero_or_def)

lemma ex_full_readable: "template_readable ex_gw_hashes ex_full"
  using ex_full_simps(1) by (simp add: template_readable_def commit_ok_def ex_tpl_tx_def ex_read)
    (simp add: ex_full_def ex_tpl_def ex_decoded ex_read)

lemma ex_full_weight: "coinbase_weight 5 ''L'' [0, 0, 0, 0] ex_gw_split False = 392"
proof -
  have "length (input_bytes 5 ''L'' ([0, 0, 0, 0] @ replicate 8 0)) = 57" by (simp add: input_bytes_def scriptsig_def compact_size_def ascii_def Let_def)
  moreover have "length (outs_bytes ex_gw_split None) = 23" by (simp add: outs_bytes_def compact_size_def ex_gw_split_def Let_def)
  ultimately show ?thesis by (simp add: coinbase_weight_def coinbase_lengths Let_def)
qed


lemma ex_publish: "split_to_publish 1000000 [(1000000, ex_gw_split)] = Some ex_gw_split"
proof -
  have "split_for_value 1000000 [(1000000, ex_gw_split)] = Some ex_gw_split" by (simp add: split_for_value_def wait_coinbaser_def ex_gw_split_def)
  then show ?thesis by (simp add: split_to_publish_def ex_sum)
qed

lemma ex_pooled:
  assumes "split_to_publish 1000000 seen = Some c" "map (length \<circ> op_script) (v2_outputs c) = [2, 2]" "value_sum c \<le> 1000000"
  obtains t jb where "pooled_job ex_gw_hashes ex_tpl ''L'' [0, 0, 0, 0] 3 seen = Some jb" "jb_cb jb = c" "jb_tpl jb = t" "gt_value t = 1000000"
    "cb_weight_in t [0, 0, 0, 0] c \<le> 3000"
proof -
  have j: "zero_or (tl_coinbasevalue ex_tpl) = 1000000" "zero_or (tl_height ex_tpl) mod 4294967296 = 5" "(tl_default_witness_commitment ex_tpl \<noteq> None) = False"
    by (simp_all add: ex_tpl_def zero_or_def)
  obtain t where t: "build_template ex_gw_hashes ex_tpl ''L'' (coinbase_weight 5 ''L'' [0, 0, 0, 0] c False) = Some t"
    "gt_value t = 1000000" "gt_tx_weight t = 0" "gt_weightlimit t = Some 4000000" "gt_witness_commit t = None" "gt_height t = 5" "gt_tag t = ''L''"
    using ex_built [of ex_gw_hashes "''L''" "coinbase_weight 5 ''L'' [0, 0, 0, 0] c False"] by blast
  have w: "cb_weight_in t [0, 0, 0, 0] c \<le> 3000" using ex_weight [OF assms(2)] t by (simp add: cb_weight_in_def Let_def)
  then have "block_weight t [0, 0, 0, 0] c \<le> 4000000" using t(3) by (simp add: block_weight_def)
  then obtain jb where "pooled_job ex_gw_hashes ex_tpl ''L'' [0, 0, 0, 0] 3 seen = Some jb" "jb_cb jb = c" "jb_tpl jb = t"
    using t assms(1,3) unfolding pooled_job_def Let_def j by (auto simp: coinbase_job_def Let_def)
  then show ?thesis using that t(2) w by blast
qed


text \<open>
  The check that a coinbase pays no more than the template allows is made on a sum that wraps: a split of \<^verbatim>\<open>2^63\<close> and \<^verbatim>\<open>2^63\<close> plus a million sats passes
  for one of a million, and the job that is published pays more than \<^verbatim>\<open>2^64\<close> sats.
\<close>

definition ex_wrapping :: coinbaser_v2 where
  "ex_wrapping = \<lparr>v2_id = 7, v2_outputs = [\<lparr>op_sats = 9223372036854775808, op_script = [0, 1]\<rparr>, \<lparr>op_sats = 9223372036855775808, op_script = [0, 2]\<rparr>]\<rparr>"

theorem split_wraps_past_check:
  "\<exists>jb. pooled_job ex_gw_hashes ex_tpl ''L'' [0, 0, 0, 0] 3 [(1000000, ex_wrapping)] = Some jb
    \<and> gt_value (jb_tpl jb) = 1000000 \<and> worth (jb_cb jb) = 18446744073710551616"
proof -
  have v: "value_sum ex_wrapping = 1000000" "worth ex_wrapping = 18446744073710551616" "map (length \<circ> op_script) (v2_outputs ex_wrapping) = [2, 2]"
    by (simp_all add: value_sum_def worth_def ex_wrapping_def trunc64_def)
  have "split_for_value 1000000 [(1000000, ex_wrapping)] = Some ex_wrapping" by (simp add: split_for_value_def wait_coinbaser_def ex_wrapping_def)
  then have p: "split_to_publish 1000000 [(1000000, ex_wrapping)] = Some ex_wrapping" by (simp add: split_to_publish_def v)
  show ?thesis by (rule ex_pooled [OF p v(3)]) (use v in auto)
qed

theorem solo_job_pays_finder_witness:
  "\<exists>t jb. build_template ex_gw_hashes ex_tpl ''L'' 0 = Some t \<and> solo_job_for ex_gw_hashes (Some [0, 1]) (Some t) [0, 2] 100 [0, 0, 0, 0] 3 ''a'' = Some jb
    \<and> jb_who jb = Some ''a''"
proof -
  obtain t where t: "build_template ex_gw_hashes ex_tpl ''L'' 0 = Some t"
    "gt_value t = 1000000" "gt_tx_weight t = 0" "gt_weightlimit t = Some 4000000" "gt_witness_commit t = None" "gt_height t = 5" "gt_tag t = ''L''"
    using ex_built [of ex_gw_hashes "''L''" 0] by blast
  have s: "solo_split 1000000 [0, 1] [0, 2] 100 4 = Some \<lparr>v2_id = 4, v2_outputs = [\<lparr>op_sats = 990000, op_script = [0, 1]\<rparr>, \<lparr>op_sats = 10000, op_script = [0, 2]\<rparr>]\<rparr>"
    (is "_ = Some ?c") by (simp add: solo_split_def gw_fee_for_def value_sum_def Let_def)
  have "3 * length (coinbase_legacy 5 ''L'' ([0, 0, 0, 0] @ replicate 8 0) ?c None)
      + length (coinbase_witness 5 ''L'' ([0, 0, 0, 0] @ replicate 8 0) ?c None) \<le> 3000" by (rule ex_weight) simp
  then have "block_weight t [0, 0, 0, 0] ?c \<le> 4000000" using t by (simp add: block_weight_def cb_weight_in_def Let_def)
  then obtain jb where j: "solo_job_for ex_gw_hashes (Some [0, 1]) (Some t) [0, 2] 100 [0, 0, 0, 0] 3 ''a'' = Some jb"
    using t s by (auto simp: solo_job_for_def coinbase_job_def Let_def)
  show ?thesis using solo_job_pays_finder [OF j] j t(1) by auto
qed

text \<open>Three transactions, so the last is paired with itself.\<close>

definition ex_three :: tpl_json where
  "ex_three = ex_full\<lparr>tl_weightlimit := None\<rparr>"

theorem share_proves_coinbase_witness:
  "\<exists>t jb. build_template ex_gw_hashes ex_three ''L'' 0 = Some t \<and> coinbase_job ex_gw_hashes t [0, 0, 0, 0] ex_gw_split 1 0 None = Some jb
    \<and> length (gt_txs t) = 3
    \<and> hv_merkle_root (jb_header jb) = merkle_root ex_gw_hashes (sha256d ex_gw_hashes (jb_coinb1 jb)) (gt_branches (jb_tpl jb))"
proof -
  have n: "node_txs ex_three = [ex_tpl_tx 10, ex_tpl_tx 20, ex_tpl_tx 30]" "tl_weightlimit ex_three = None"
    using ex_full_simps(1) by (simp_all add: ex_three_def)
  have "template_readable ex_gw_hashes ex_three" using ex_full_readable by (simp add: template_readable_def ex_three_def)
  then obtain t where t: "build_template ex_gw_hashes ex_three ''L'' 0 = Some t" using readable_builds by blast
  have "txs_weight (node_txs ex_three) \<le> u64_max" by (simp add: n ex_tpl_tx_def)
  from build_template_spec(5) [OF t this] have l: "length (gt_txs t) = 3" unfolding n by (auto dest: arg_cong [of _ _ length])
  obtain jb where j: "coinbase_job ex_gw_hashes t [0, 0, 0, 0] ex_gw_split 1 0 None = Some jb"
    using build_template_spec(1) [OF t] n(2) by (simp add: coinbase_job_def Let_def)
  show ?thesis using share_proves_coinbase [OF t j] t j l by blast
qed

end
