(* ===== verification/Lazarus_Address.thy ===== *)
theory Lazarus_Address
  imports Lazarus_Pow Primed_Address
begin

text \<open>
  The public gateway's addresses, \<^verbatim>\<open>lazarus/protocol/src/address.rs\<close>: bech32 and base58 decoded by its own code, from a username to
  an output script, and the identity \<^verbatim>\<open>canon_identity\<close> makes of a username (\<^verbatim>\<open>lazarus/gateway/src/main.rs\<close>). A \<^verbatim>\<open>String\<close> is the
  list of its UTF-8 bytes; SHA-256 is the argument \<open>H\<close>.
\<close>

unbundle bit_operations_syntax

section \<open>Model\<close>

definition CHARSET :: string where "CHARSET = ''qpzry9x8gf2tvdw0s3jn54khce6mua7l''"

definition gens :: "32 word list" where "gens = [0x3b6a57b2, 0x26508e6d, 0x1ea119fa, 0x3d4233dd, 0x2a1462b3]"

definition polymod_step :: "32 word \<Rightarrow> nat \<Rightarrow> 32 word" where
  "polymod_step acc v = (let b = drop_bit 25 acc; c = push_bit 5 (acc AND 0x1ffffff) XOR of_nat v in
     foldl (\<lambda>c (i, g). if bit b i then c XOR g else c) c (enumerate 0 gens))"

definition polymod :: "nat list \<Rightarrow> 32 word" where
  "polymod vs = foldl polymod_step 1 vs"

definition hrp_expand :: "string \<Rightarrow> nat list" where
  "hrp_expand hp = map (\<lambda>c. of_char c div 32) hp @ [0] @ map (\<lambda>c. of_char c mod 32) hp"

definition upper_ascii :: "char \<Rightarrow> bool" where
  "upper_ascii c \<longleftrightarrow> (let n = of_char c :: nat in 65 \<le> n \<and> n \<le> 90)"

definition lower_ascii :: "char \<Rightarrow> bool" where
  "lower_ascii c \<longleftrightarrow> (let n = of_char c :: nat in 97 \<le> n \<and> n \<le> 122)"

text \<open>\<^verbatim>\<open>str::rfind\<close> of a character.\<close>

definition rfind_char :: "char \<Rightarrow> string \<Rightarrow> nat option" where
  "rfind_char c s = map_option (\<lambda>k. length s - 1 - k) (Wire_Cursor.position (\<lambda>x. x = c) (rev s))"

definition bech32_decode :: "string \<Rightarrow> (string \<times> nat list \<times> bool) option" where
  "bech32_decode addr = (let low = to_ascii_lower addr in
     if list_ex upper_ascii addr \<and> list_ex lower_ascii addr then None
     else do {
       pos \<leftarrow> rfind_char (CHR ''1'') low;
       if pos < 1 \<or> pos + 7 > length low then None
       else do {
         let hp = take pos low;
         values \<leftarrow> those (map (\<lambda>c. Wire_Cursor.position (\<lambda>x. x = c) CHARSET) (drop (pos + 1) low));
         if length values < 6 then None
         else do {
           let m = polymod (hrp_expand hp @ values);
           let is_m = (m = 0x2bc830a3);
           if m \<noteq> 1 \<and> \<not> is_m then None else Some (hp, take (length values - 6) values, is_m) } } })"

text \<open>Bits regrouped, without padding; the accumulator is 32 bits wide.\<close>

function drain_bits :: "nat \<Rightarrow> 32 word \<Rightarrow> nat \<Rightarrow> byte list \<times> nat" where
  "drain_bits to_b acc bits = (if bits \<ge> to_b \<and> to_b > 0
     then (case drain_bits to_b acc (bits - to_b) of (bs, n) \<Rightarrow> (ucast (drop_bit (bits - to_b) acc AND mask to_b) # bs, n))
     else ([], bits))"
  by pat_completeness auto
termination by (relation "measure (\<lambda>(t, a, b). b)") auto

declare drain_bits.simps [simp del]

fun regroup :: "nat \<Rightarrow> nat \<Rightarrow> nat list \<Rightarrow> 32 word \<Rightarrow> nat \<Rightarrow> byte list option" where
  "regroup from_b to_b [] acc bits = (if bits \<ge> from_b \<or> push_bit (to_b - bits) acc AND mask to_b \<noteq> 0 then None else Some [])"
| "regroup from_b to_b (v # vs) acc bits = (if v div 2 ^ from_b \<noteq> 0 then None
     else let acc = push_bit from_b acc OR of_nat v in
       case drain_bits to_b acc (bits + from_b) of (bs, n) \<Rightarrow> map_option (\<lambda>r. bs @ r) (regroup from_b to_b vs acc n))"

definition convert_bits :: "nat list \<Rightarrow> nat \<Rightarrow> nat \<Rightarrow> byte list option" where
  "convert_bits vs from_b to_b = regroup from_b to_b vs 0 0"

definition B58 :: string where "B58 = ''123456789ABCDEFGHJKLMNPQRSTUVWXYZabcdefghijkmnopqrstuvwxyz''"

text \<open>The number so far, least significant byte first, times 58 plus a digit.\<close>

fun carry_out :: "nat \<Rightarrow> byte list" where
  "carry_out c = (if c > 0 then of_nat (c mod 256) # carry_out (c div 256) else [])"

declare carry_out.simps [simp del]

fun mul58 :: "byte list \<Rightarrow> nat \<Rightarrow> byte list" where
  "mul58 [] c = carry_out c"
| "mul58 (b # bs) c = (let v = unat b * 58 + c in of_nat (v mod 256) # mul58 bs (v div 256))"

fun b58_digits :: "string \<Rightarrow> byte list \<Rightarrow> byte list option" where
  "b58_digits [] n = Some n"
| "b58_digits (c # cs) n = (case Wire_Cursor.position (\<lambda>x. x = c) B58 of None \<Rightarrow> None | Some d \<Rightarrow> b58_digits cs (mul58 n d))"

definition b58_decode :: "string \<Rightarrow> byte list option" where
  "b58_decode s = map_option (\<lambda>n. replicate (length (takeWhile (\<lambda>c. c = CHR ''1'') s)) 0 @ dropWhile (\<lambda>b. b = 0) (rev n)) (b58_digits s [0])"

definition gw_identity_of :: "string \<Rightarrow> string" where
  "gw_identity_of user = trim_str (takeWhile (\<lambda>c. c \<noteq> CHR ''.'') user)"

definition segwit_output :: "nat list \<Rightarrow> bool \<Rightarrow> byte list option" where
  "segwit_output values is_m = (case values of [] \<Rightarrow> None
   | ver # rest \<Rightarrow> do {
       prog \<leftarrow> convert_bits rest 5 8;
       if is_m then (if ver \<noteq> 1 \<or> length prog \<noteq> 32 then None else Some ([0x51, 0x20] @ prog))
       else if ver \<noteq> 0 then None
       else if length prog = 20 then Some ([0x00, 0x14] @ prog)
       else if length prog = 32 then Some ([0x00, 0x20] @ prog)
       else None })"

definition base58_output :: "hashes \<Rightarrow> byte list \<Rightarrow> byte list option" where
  "base58_output H raw = (if length raw < 5 then None
     else let payload = take (length raw - 4) raw; checksum = drop (length raw - 4) raw in
       if checksum \<noteq> take 4 (sha256d H payload) then None
       else if length payload \<noteq> 21 then None
       else if payload ! 0 = 0 then Some ([0x76, 0xa9, 0x14] @ tl payload @ [0x88, 0xac])
       else if payload ! 0 = 5 then Some ([0xa9, 0x14] @ tl payload @ [0x87])
       else None)"

definition identity_script :: "hashes \<Rightarrow> string \<Rightarrow> byte list option" where
  "identity_script H user = (let ident = gw_identity_of user in
     if ident = [] then None
     else if take 3 (to_ascii_lower ident) = ''bc1''
     then (case bech32_decode ident of None \<Rightarrow> None
       | Some (hp, values, is_m) \<Rightarrow> if hp \<noteq> ''bc'' then None else segwit_output values is_m)
     else Option.bind (b58_decode ident) (base58_output H))"

text \<open>\<open>None\<close> is the panic of a slice that ends within a character.\<close>

definition continuation_byte :: "char \<Rightarrow> bool" where
  "continuation_byte c \<longleftrightarrow> (let n = of_char c :: nat in 0x80 \<le> n \<and> n \<le> 0xbf)"

definition canon_identity :: "string \<Rightarrow> string option" where
  "canon_identity user = (let ident = gw_identity_of user in
     if length ident > 4
     then if continuation_byte (ident ! 3) then None
       else Some (if eq_ignore_ascii_case (take 3 ident) ''bc1'' then to_ascii_lower ident else ident)
     else Some ident)"

definition MAX_USER :: nat where "MAX_USER = 128"

definition clean_user :: "string \<Rightarrow> bool" where
  "clean_user u \<longleftrightarrow> u \<noteq> [] \<and> length u \<le> MAX_USER \<and> list_all (\<lambda>c. let n = of_char c :: nat in 0x21 \<le> n \<and> n < 0x7f) u"

definition payable_user :: "hashes \<Rightarrow> string \<Rightarrow> bool option" where
  "payable_user H u = (if \<not> clean_user u then Some False
     else map_option (\<lambda>i. identity_script H i \<noteq> None) (canon_identity u))"

section \<open>Properties\<close>

text \<open>
  Every script an address pays is one of the five standard shapes, 22 to 34 bytes long: it fits the two bounds the payout split has.
\<close>

theorem identity_script_standard:
  assumes "identity_script H user = Some s"
  shows "22 \<le> length s \<and> length s \<le> 34 \<and> (take 2 s = [0x51, 0x20] \<or> take 2 s = [0x00, 0x14] \<or> take 2 s = [0x00, 0x20]
    \<or> take 3 s = [0x76, 0xa9, 0x14] \<or> take 2 s = [0xa9, 0x14])"
proof -
  have a: ?thesis if "segwit_output vs m = Some s" for vs m
    using that by (auto simp: segwit_output_def split: list.splits bind_splits if_splits)
  have b: ?thesis if "base58_output H raw = Some s" for raw
    using that by (auto simp: base58_output_def Let_def split: if_splits)
  show ?thesis using assms a b by (auto simp: identity_script_def Let_def split: if_splits option.splits bind_splits)
qed

lemma clean_ascii: "clean_user u \<Longrightarrow> c \<in> set u \<Longrightarrow> \<not> continuation_byte c"
  by (auto simp: clean_user_def continuation_byte_def list_all_iff Let_def)

lemma trim_in: "c \<in> set (trim_str s) \<Longrightarrow> c \<in> set s"
proof -
  have t: "c \<in> set (trim_lead ws s) \<Longrightarrow> c \<in> set s" for ws s
    by (induction ws s rule: trim_lead.induct) (subst (asm) trim_lead.simps, auto simp: Let_def split: if_splits dest: in_set_dropD)
  show "c \<in> set (trim_str s) \<Longrightarrow> c \<in> set s" unfolding trim_str_def by (auto dest!: t)
qed

text \<open>The check of a name that is fit to be sent on does not panic, whatever the name.\<close>

theorem payable_user_total: "payable_user H u \<noteq> None"
proof (cases "clean_user u")
  case True
  have "\<not> continuation_byte (gw_identity_of u ! 3)" if "length (gw_identity_of u) > 4"
  proof -
    have "gw_identity_of u ! 3 \<in> set (gw_identity_of u)" using that by simp
    then have "gw_identity_of u ! 3 \<in> set u" unfolding gw_identity_of_def using trim_in set_takeWhileD by fastforce
    then show ?thesis by (rule clean_ascii [OF True])
  qed
  then show ?thesis using True by (auto simp: payable_user_def canon_identity_def Let_def)
qed (simp add: payable_user_def)

text \<open>
  The name of a \<^verbatim>\<open>mining.authorize\<close> is made an identity before it is checked: one with a two-byte character at its third byte
  panics the connection's thread.
\<close>

theorem authorize_name_panics: "canon_identity [CHR ''a'', CHR ''a'', CHR 0xC3, CHR 0xA9, CHR ''x''] = None"
  by (simp add: canon_identity_def gw_identity_of_def trim_str_def trim_lead.simps lead_space_def white_space_def continuation_byte_def Let_def)

end
