(* ===== verification/Spec2Isabelle.thy ===== *)
theory Spec2Isabelle
  imports Tides_Disk Tides_Blocks Wire_Handshake Wire_Verify Primed_Confirm Primed_Books Primed_Frames Primed_Share_Effect Primed_Solo
    Lazarus_Overflow Lazarus_Coinbase Lazarus_Address
begin

text \<open>
  This development verifies the core of a Bitcoin mining pool, \<^verbatim>\<open>prime\<close>: gateways connect over an
  encrypted wire protocol, ask for the outputs their coinbase has to pay, and submit shares; the pool verifies
  the work, credits it to a sliding window, and splits every block found over the window.

  \<^bold>\<open>The program and its theories.\<close>

  \<^item> \<^verbatim>\<open>prime/tides/src/split.rs\<close> computes a coinbase: fees by class of work, the rebate to DATUM miners, floors,
    stale and over-budget payees, carry paid out of the room the block leaves. Theory \<open>Tides_Split\<close>: one
    definition per function, the passes of \<^verbatim>\<open>compute\<close> as folds over a state record, \<open>None\<close> where the source
    would overflow.
  \<^item> \<^verbatim>\<open>prime/tides/src/lib.rs\<close>, \<^verbatim>\<open>Window\<close>: identities, credit rows, per-identity totals, carry, debts, holds.
    Theory \<open>Tides_Window\<close>, over \<open>Accounts_Spec\<close>, which states what the balance operations promise as
    the locale \<open>accounts\<close> and proves the laws of sequences of bookings in it once.
  \<^item> \<^verbatim>\<open>prime/tides/src/grace.rs\<close>, the grace clocks: \<open>Tides_Grace\<close>.
  \<^item> \<^verbatim>\<open>prime/tides/src/lib.rs\<close>, \<^verbatim>\<open>Ledger\<close>: booking and unbooking blocks, holds, recovery of lost debits:
    \<open>Tides_Ledger\<close>. Its files, \<^verbatim>\<open>open\<close>, \<^verbatim>\<open>flush\<close>, \<^verbatim>\<open>compact\<close>, \<^verbatim>\<open>write_atomic\<close> and \<^verbatim>\<open>load_meta\<close>: \<open>Tides_Disk\<close>. The
    block log, the rebate cap and the finds per gateway: \<open>Tides_Blocks\<close>.
  \<^item> \<^verbatim>\<open>prime/wire/src/lib.rs\<close>, the cursor every parser reads through: \<open>Wire_Cursor\<close>, with the locale \<open>reader\<close>
    (a reader only moves forward and depends on nothing but the bytes it consumed), interpreted on the
    cursor's own reads and closed under the combinators.
  \<^item> \<^verbatim>\<open>frame.rs\<close>, \<^verbatim>\<open>crypto.rs\<close>, \<^verbatim>\<open>handshake.rs\<close>, \<^verbatim>\<open>coinbaser.rs\<close>, \<^verbatim>\<open>coinbase.rs\<close>, \<^verbatim>\<open>mining.rs\<close>, \<^verbatim>\<open>pow.rs\<close> and
    \<^verbatim>\<open>verify.rs\<close> of \<^verbatim>\<open>prime/wire/src\<close>: \<open>Wire_Frame\<close>, \<open>Wire_Crypto\<close>, \<open>Wire_Handshake\<close>, \<open>Wire_Coinbaser\<close>,
    \<open>Wire_Coinbase\<close>, \<open>Wire_Mining\<close>, \<open>Wire_Pow\<close>, \<open>Wire_Verify\<close>.
  \<^item> \<^verbatim>\<open>prime/primed/src\<close>, the server. \<open>Primed_Address\<close> (\<^verbatim>\<open>address.rs\<close>): scripts of addresses, identities of
    usernames. \<open>Primed_Settle\<close> (\<^verbatim>\<open>session.rs\<close>): what a found block owes, and the class budget. \<open>Primed_State\<close>
    (\<^verbatim>\<open>state.rs\<close>): job checks against the tip, the set of shares seen, connection limits, quarantine. \<open>Primed_Validity\<close>
    (\<^verbatim>\<open>validity.rs\<close>): parents and faults. \<open>Primed_Workers\<close> (\<^verbatim>\<open>workers.rs\<close>): the tally of workers. \<open>Primed_Blocks\<close>
    (\<^verbatim>\<open>state.rs\<close>, \<^verbatim>\<open>node.rs\<close>, \<^verbatim>\<open>session.rs\<close>): a found block from booking to confirmation or orphan, as a reachable-state
    system over the ledger, its files and the block log; \<open>Primed_Confirm\<close> (\<^verbatim>\<open>node.rs\<close>): the pass over the blocks that wait.
    \<open>Primed_Frames\<close> (\<^verbatim>\<open>session.rs\<close>): frames cut out of a byte stream.
    \<open>Primed_Node\<close> (\<^verbatim>\<open>node.rs\<close>): reading the tip. \<open>Primed_Session\<close>, \<open>Primed_Coinbaser\<close>, \<open>Primed_Share\<close> and
    \<open>Primed_Share_Effect\<close> (\<^verbatim>\<open>session.rs\<close>): a gateway's connection; its record \<open>session\<close> is \<^verbatim>\<open>Session\<close> less the socket, and
    \<open>pool\<close> is what the sessions share (\<^verbatim>\<open>Shared\<close>). A handler takes both and returns both; the stages of \<^verbatim>\<open>on_pow\<close>
    are one definition each, in the order of the source. \<open>Primed_Config\<close> (\<^verbatim>\<open>config.rs\<close>, \<^verbatim>\<open>main.rs\<close>): the configuration,
    its checks, and what the server is started with. \<open>Primed_Payouts\<close> (\<^verbatim>\<open>payouts.rs\<close>): the operator's requests to hold,
    pay, release and credit balances. \<open>Primed_Solo\<close> (\<^verbatim>\<open>solo.rs\<close>): the rebate that solo blocks book. \<open>Primed_Books\<close>: the runs in which
    all of these take turns on the one ledger, found blocks, confirmations and orphans, the operator's payouts and credits, solo
    blocks and coinbaser requests, from one start of the server to the next.
  \<^item> \<^verbatim>\<open>lazarus/gateway/src\<close> and \<^verbatim>\<open>lazarus/protocol/src\<close>, the public gateway in front of the pool, whose code is its own.
    \<open>Lazarus_Pow\<close> (\<^verbatim>\<open>pow.rs\<close>): headers, hashes and targets. \<open>Lazarus_Coinbase\<close> (\<^verbatim>\<open>coinbaser.rs\<close>, \<^verbatim>\<open>cbtx.rs\<close>, \<^verbatim>\<open>main.rs\<close>): the
    split read and rescaled, coinbases, templates trimmed to their weight, pooled and solo jobs. \<open>Lazarus_Address\<close>
    (\<^verbatim>\<open>address.rs\<close>, \<^verbatim>\<open>main.rs\<close>): names, identities and scripts. \<open>Lazarus_Overflow\<close> (\<^verbatim>\<open>overflow.rs\<close>): the valve that relays new miners
    to other pools, its meter, tables, gate and relay.
  \<^item> \<open>Prelude\<close> and \<open>Bytes\<close> hold what they share: machine integers, checked and saturating arithmetic, sums,
    little-endian byte strings.

  \<^bold>\<open>Correspondence.\<close> A struct is a record whose fields carry a prefix, an enum a datatype, a method a function
  that returns the changed state. Unsigned integers are natural numbers with their bound written out where the
  source checks, saturates or wraps (\<^verbatim>\<open>checked\<close> panics are \<open>None\<close> of the option monad, \<^verbatim>\<open>saturating_sub\<close> is the
  subtraction of naturals, \<^verbatim>\<open>wrapping_*\<close> and \<^verbatim>\<open>as\<close> are \<open>mod\<close>; plain sums panic in the pool, whose release
  profile has overflow checks, and wrap in the gateway, whose profile has none), bytes are \<open>8 word\<close>, and the header-key mixer
  works on \<open>32 word\<close>. A \<^verbatim>\<open>Result\<close> is a sum, \<open>Inl\<close> its error. A \<^verbatim>\<open>HashMap\<close> is a map, or an association list
  without repeated keys where its size or a walk over it matters; a \<^verbatim>\<open>BTreeMap\<close> an association list in key
  order. A \<^verbatim>\<open>while\<close> loop is a recursive function with its termination proof; no model uses fuel.

  \<^bold>\<open>Parameters.\<close> Code outside the repository is an argument: the JSON codec of the ledger's files (\<open>ser\<close>, \<open>de\<close>),
  signatures and boxes (record \<open>nacl\<close>, with \<open>sign_law\<close>, \<open>seal_law\<close>, \<open>box_law\<close>), SHA256 and BLAKE2b (record
  \<open>hashes\<close>, with \<open>hash_law\<close>: 32 bytes), the bech32 and base58 decoders (record \<open>codecs\<close>, with \<open>segwit_law\<close>), the
  order a \<^verbatim>\<open>HashMap\<close> is walked in (\<open>en_order\<close>, with \<open>order_law\<close>), the parser of stratum lines (\<open>json_parser\<close>), and the replies of the node and of
  upstream pools. The clocks are arguments of
  the handlers: \<open>t\<close> in milliseconds for \<^verbatim>\<open>Instant::now\<close>, \<open>now\<close> in seconds for the wall clock. The theorems that need a law name it, and their witnesses supply functions
  that satisfy it.

  \<^bold>\<open>What is shown.\<close>

  \<^item> Money. The outputs of a coinbase add up to the block, payees are owed what they get, nobody owed is
    forgotten, and the pool never owes more than it received (\<open>Tides_Split\<close>). Booking a block moves every
    position by exactly what the coinbase did, and undoing an orphan restores it; holds keep positions; recovery
    after a crash is idempotent and equals the lost booking (\<open>Tides_Ledger\<close>).
  \<^item> The window. Crediting keeps the invariant and refines a reference window; trimming leaves the shortest
    window that reaches its target (\<open>Tides_Window\<close>). Grace clocks are settled by the first share, and pruning
    changes no answer (\<open>Tides_Grace\<close>).
  \<^item> Durability. A restart brings the ledger back, a torn tail costs only itself, replacing a meta file that is in place is
    crash-safe step by step (\<open>Tides_Disk\<close>); the block log reads back the latest word on every block
    (\<open>Tides_Blocks\<close>).
  \<^item> The wire. Headers, hellos, coinbaser lists, coinbases and shares read back as written; parsers ignore
    padding, stay in bounds and accept nothing unsigned; no nonce repeats; channels carry any sequence of
    messages.
  \<^item> Verification. The caches of a job slot never change a verdict, in every state a slot can reach; a slot
    stays small; an accepted share was really hashed and is credited no more work than was done; a coinbase
    classified as the split pays each issued script at least every single amount issued to it. Merkle branches, share targets and compact targets are exact.
  \<^item> Found blocks. Every block of the log is waiting, settled or orphaned, and agrees with the ledger about it
    (\<open>Primed_Blocks\<close>). A pass over the waiting blocks ends, and when no more than twenty wait it settles every one the node
    has in its chain, records without books among them; a sum of credits past a u64 panics, in the code and in the model, and a
    condition on the records excludes it (\<open>Primed_Confirm\<close>). From one start of the server to the next the balances are the initial ones plus what the blocks of the
    log have on the books plus what payouts and solo blocks booked; a reply is computed from the balances on the books unless a
    payout request has moved them and not yet dropped the snapshot (\<open>Primed_Books\<close>). A settlement that is not rescaled, or whose
    coinbaser credited and deferred no rebate, owes no more than its coinbase was worth (\<open>Primed_Settle\<close>).
  \<^item> Faults. A gateway is faulted on evidence since it was last cleared: one premature spend or two failures on different
    jobs (\<open>Primed_Validity\<close>).
  \<^item> A session. Every share is answered with one receipt, and moves the books only when it was verified, is new and
    its gateway is in good standing; a coinbaser request is answered; what a gateway can make the pool hold is
    bounded; frames survive any chunking of the stream, and cutting them ends (\<open>Primed_Share\<close>,
    \<open>Primed_Share_Effect\<close>, \<open>Primed_Coinbaser\<close>, \<open>Primed_Session\<close>, \<open>Primed_Frames\<close>).
  \<^item> The operator's side. With any configuration that loads the split pays exactly the block (\<open>Primed_Config\<close>). Payout requests are answered once; balances leave the books only for a payment the node shows
    (\<open>Primed_Payouts\<close>). Solo blocks are booked once and for no more than they paid (\<open>Primed_Solo\<close>).
  \<^item> The public gateway. It hashes a share as the pool does and agrees on the targets wherever the pool has one; while a
    split stays within a u64 its jobs pay it and no more than the template is worth, fit the block, and carry what proves their
    coinbase; a full template that can be read and committed to still gives a job, with no more transactions dropped than needed (\<open>Lazarus_Pow\<close>, \<open>Lazarus_Coinbase\<close>). The valve needs consecutive
    readings, only strangers with a payable name are relayed, the books of the relays add up (\<open>Lazarus_Overflow\<close>).

  \<^bold>\<open>Where the code differs from its documentation.\<close> \<open>Tides_Ledger.reconcile_misses_hold\<close> and
  \<open>reconcile_drifts_idents\<close>, \<open>Tides_Disk.backup_lost_in_replacement\<close>, \<open>Wire_Pow.compact_33_refused\<close>,
  \<open>Wire_Frame.decode_header_total\<close>, \<open>Wire_Verify.split_misses_shared_script\<close>, \<open>Primed_Settle.rescaled_settlement_mints_rebate\<close>
  and \<open>rescaled_settlement_keeps_deferred_rebate\<close>, \<open>Primed_State.mapped_loopback_is_stranger\<close>,
  \<open>Primed_Address.identity_keeps_inner_space\<close>, \<open>Primed_Blocks.crash_after_log_loses_credits\<close> and
  \<open>crash_before_log_loses_record\<close>, \<open>Primed_Session.evicted_slot_refills\<close> and \<open>pinned_session_held_on_itself\<close>,
  \<open>Primed_Coinbaser.delayed_reply_lost\<close>, \<open>Primed_Node.main_alias_not_followed\<close>, \<open>Primed_Config.grace_enabled_by_datum_hours\<close>,
  \<open>Primed_Payouts.one_output_pays_two_identities\<close>, \<open>Primed_Books.payout_reply_priced_stale\<close>, \<open>Primed_Solo.solo_cursor_ahead_of_books\<close> and \<open>solo_rebooks_after_failed_write\<close>,
  \<open>Lazarus_Coinbase.split_wraps_past_check\<close>, \<open>Lazarus_Pow.gateway_takes_negative_bits\<close>, \<open>Lazarus_Overflow.empty_name_relayed\<close> and \<open>escaped_reconnect_passes\<close>, and \<open>Lazarus_Address.authorize_name_panics\<close> each prove such a case.

  \<^bold>\<open>Not modelled.\<close> Sockets, tasks, locks and HTTP, RPC calls to the node, statistics for the user
  interface (the rows of clients among them), logging, and reads and writes that fail for other reasons than a missing or
  torn file. A session's handlers run one at a time; the channel that seals its messages is \<open>Wire_Crypto\<close>. Difficulties
  that the pool keeps as floats are not modelled; the gateway's hash rates and percentages are rational numbers. \<^verbatim>\<open>lazarus/prime\<close>, with the
  messages, handshake and share verification of \<^verbatim>\<open>lazarus/protocol\<close>, is an earlier lineage of the same pool.
\<close>

end
